(* ===== verification/Prelude.thy ===== *)
theory Prelude
  imports Main "HOL-Library.Monad_Syntax"
begin

text \<open>
  Shared vocabulary of the development: kernel addresses and NULL, the error numbers the
  modelled routines store with \<open>set_user_error\<close>, access to records through pointers (a
  failed access is \<^const>\<open>None\<close>, a fault), linked lists in a store of records, and the
  first-in-first-out contract that the queueing components share.
\<close>

section \<open>Collections of rules\<close>

named_theorems heap_simps \<open>reading and writing a store of records through a pointer\<close>
named_theorems inv_intros \<open>preservation of a component's invariant by its operations\<close>

section \<open>Error numbers and sleeping\<close>

text \<open>The error numbers of \<open><sys/errno.h>\<close> that the modelled routines store in the user area.\<close>

datatype errno =
    EPERM | ENOENT | EINTR | ENXIO | E2BIG | EBADF | EAGAIN | EACCES | EFAULT | EEXIST | EINVAL
  | ENFILE | EMFILE | EFBIG | ENOSPC | EPIPE | ERANGE | ENOMSG | EIDRM | EDEADLK | ENOLCK | EIO | EROFS

text \<open>
  \<open>x_sleep\<close> gives up the processor until a wakeup or a signal. What the rest of the system does
  to the shared state meanwhile is not known to the sleeper: one sleep is one element of a
  script, a transformer of the shared state together with the flag \<open>PROCESS_SIGNALLED\<close>. A
  routine that still sleeps when its script is used up is \<open>Blocked\<close>.
\<close>

type_synonym 's wake = "('s \<Rightarrow> 's) \<times> bool"

datatype ('s, 'a) outcome = Blocked 's | Done 's 'a

definition calm :: "('s \<Rightarrow> bool) \<Rightarrow> 's wake list \<Rightarrow> bool" where
  "calm I ws \<longleftrightarrow> (\<forall>w \<in> set ws. \<forall>s. I s \<longrightarrow> I (fst w s))"

lemma calm_Nil [simp]: "calm I []"
  by (simp add: calm_def)

lemma calm_Cons [simp]: "calm I (w # ws) \<longleftrightarrow> (\<forall>s. I s \<longrightarrow> I (fst w s)) \<and> calm I ws"
  by (auto simp: calm_def)

section \<open>Pointers\<close>

type_synonym addr = nat
type_synonym ptr = "addr option"
type_synonym 'n store = "addr \<Rightarrow> 'n option"

text \<open>Reading or writing a record through a pointer; NULL and wild pointers fault.\<close>

definition deref :: "'n store \<Rightarrow> ptr \<Rightarrow> 'n option" where
  "deref h p = (case p of None \<Rightarrow> None | Some a \<Rightarrow> h a)"

definition modify :: "'n store \<Rightarrow> ptr \<Rightarrow> ('n \<Rightarrow> 'n) \<Rightarrow> 'n store option" where
  "modify h p f = (case p of None \<Rightarrow> None
     | Some a \<Rightarrow> (case h a of None \<Rightarrow> None | Some n \<Rightarrow> Some (h(a \<mapsto> f n))))"

lemma deref_simps [simp, heap_simps]: "deref h None = None" "deref h (Some a) = h a"
  by (simp_all add: deref_def)

lemma modify_None [simp, heap_simps]: "modify h None f = None"
  by (simp add: modify_def)

lemma modify_Some [simp, heap_simps]: "h a = Some n \<Longrightarrow> modify h (Some a) f = Some (h(a \<mapsto> f n))"
  by (simp add: modify_def)

lemma modify_eq_Some: "modify h p f = Some h' \<longleftrightarrow> (\<exists>a n. p = Some a \<and> h a = Some n \<and> h' = h(a \<mapsto> f n))"
  by (auto simp: modify_def split: option.splits)

section \<open>Linked lists in a store\<close>

text \<open>
  \<open>chain h l p xs q\<close>: following the link \<open>l\<close> from \<open>p\<close> visits the records at \<open>xs\<close> and
  arrives at \<open>q\<close>. A NULL-terminated list is a chain that arrives at \<^const>\<open>None\<close>.
\<close>

primrec chain :: "'n store \<Rightarrow> ('n \<Rightarrow> ptr) \<Rightarrow> ptr \<Rightarrow> addr list \<Rightarrow> ptr \<Rightarrow> bool" where
  "chain h l p [] q \<longleftrightarrow> p = q"
| "chain h l p (x # xs) q \<longleftrightarrow> p = Some x \<and> (\<exists>n. h x = Some n \<and> chain h l (l n) xs q)"

abbreviation linked :: "'n store \<Rightarrow> ('n \<Rightarrow> ptr) \<Rightarrow> ptr \<Rightarrow> addr list \<Rightarrow> bool" where
  "linked h l p xs \<equiv> chain h l p xs None"

lemma linked_None [simp]: "linked h l None xs \<longleftrightarrow> xs = []"
  by (cases xs) auto

lemma linked_Some: "linked h l (Some a) xs \<longleftrightarrow> (\<exists>n ys. xs = a # ys \<and> h a = Some n \<and> linked h l (l n) ys)"
  by (cases xs) auto

lemma chain_append: "chain h l p (xs @ ys) q \<longleftrightarrow> (\<exists>r. chain h l p xs r \<and> chain h l r ys q)"
  by (induction xs arbitrary: p) auto

lemma chain_upd [simp]: "a \<notin> set xs \<Longrightarrow> chain (h(a := v)) l p xs q \<longleftrightarrow> chain h l p xs q"
  by (induction xs arbitrary: p) auto

lemma chain_cong:
  "(\<And>x. x \<in> set xs \<Longrightarrow> map_option l (h' x) = map_option l (h x)) \<Longrightarrow>
   chain h' l p xs q \<longleftrightarrow> chain h l p xs q"
proof (induction xs arbitrary: p)
  case Nil
  then show ?case by simp
next
  case (Cons x xs)
  have hx: "map_option l (h' x) = map_option l (h x)" using Cons.prems by simp
  have IH: "chain h' l r xs q \<longleftrightarrow> chain h l r xs q" for r
    by (rule Cons.IH) (simp add: Cons.prems)
  show ?case using hx by (cases "h' x"; cases "h x") (auto simp: IH)
qed

lemma chain_dom: "chain h l p xs q \<Longrightarrow> x \<in> set xs \<Longrightarrow> \<exists>n. h x = Some n"
  by (induction xs arbitrary: p) auto

lemma linked_unique: "linked h l p xs \<Longrightarrow> linked h l p ys \<Longrightarrow> xs = ys"
proof (induction xs arbitrary: p ys)
  case Nil
  then show ?case by simp
next
  case (Cons x xs)
  then show ?case by (cases ys) auto
qed

lemma linked_distinct: "linked h l p xs \<Longrightarrow> distinct xs"
proof (induction xs arbitrary: p)
  case Nil
  then show ?case by simp
next
  case (Cons x xs)
  from Cons.prems obtain n where n: "h x = Some n" "linked h l (l n) xs" by auto
  have "x \<notin> set xs"
  proof
    assume "x \<in> set xs"
    then obtain us vs where xs: "xs = us @ x # vs" by (auto dest: split_list)
    with n have "linked h l (Some x) (x # vs)" by (auto simp: chain_append)
    moreover have "linked h l (Some x) (x # xs)" using n by simp
    ultimately have "x # vs = x # xs" by (rule linked_unique)
    with xs show False by simp
  qed
  with Cons.IH n show ?case by auto
qed

text \<open>Changing the link of the last record of a chain moves its end.\<close>

lemma chain_snoc_upd:
  assumes "chain h l p (xs @ [y]) q" "y \<notin> set xs" "h y = Some n" "l n' = r"
  shows "chain (h(y \<mapsto> n')) l p (xs @ [y]) r"
  using assms by (auto simp: chain_append)

lemma nth_chain_butlast:
  "chain h l p (xs @ [y]) q \<Longrightarrow> h y = Some n \<Longrightarrow> q = l n"
  by (auto simp: chain_append)

section \<open>Families of disjoint lists\<close>

text \<open>Several lists that share no element, the shape of every pool of records below.\<close>

lemma concat_nth_split:
  "i < length xss \<Longrightarrow> concat (xss[i := ys]) = concat (take i xss) @ ys @ concat (drop (Suc i) xss)"
  by (simp add: upd_conv_take_nth_drop)

lemma concat_nth:
  "i < length xss \<Longrightarrow> concat xss = concat (take i xss) @ xss ! i @ concat (drop (Suc i) xss)"
  using concat_nth_split [of i xss "xss ! i"] by simp

lemma concat_nth_obtain:
  assumes "i < length xss"
  obtains us vs where "concat xss = us @ xss ! i @ vs" "\<And>ys. concat (xss[i := ys]) = us @ ys @ vs"
    "us = concat (take i xss)" "vs = concat (drop (Suc i) xss)"
  using concat_nth_split [OF assms] concat_nth [OF assms] by blast

lemma distinct_concat_upd:
  assumes "distinct (concat xss)" "i < length xss" "distinct ys"
    "set ys \<inter> (set (concat xss) - set (xss ! i)) = {}"
  shows "distinct (concat (xss[i := ys]))"
proof -
  obtain us vs where e: "concat xss = us @ xss ! i @ vs" "\<And>ys. concat (xss[i := ys]) = us @ ys @ vs"
    using concat_nth_obtain [OF assms(2)] by blast
  show ?thesis using assms(1,3,4) unfolding e by auto
qed

lemma distinct_concat_nth: "distinct (concat xss) \<Longrightarrow> i < length xss \<Longrightarrow> distinct (xss ! i)"
  by (metis concat_nth distinct_append)

lemma nth_in_concat: "i < length xss \<Longrightarrow> x \<in> set (xss ! i) \<Longrightarrow> x \<in> set (concat xss)"
  by auto

lemma in_concat_nth: "x \<in> set (concat xss) \<Longrightarrow> \<exists>i < length xss. x \<in> set (xss ! i)"
  by (metis (no_types, lifting) UN_E in_set_conv_nth set_concat)

lemma distinct_concat_less:
  assumes "distinct (concat xss)" "i < j" "j < length xss" "x \<in> set (xss ! i)"
  shows "x \<notin> set (xss ! j)"
proof -
  have j: "j < length xss" using assms by simp
  obtain us vs where e: "concat xss = us @ xss ! j @ vs" "us = concat (take j xss)"
    using concat_nth_obtain [OF j] by blast
  have "x \<in> set us" using nth_in_concat [of i "take j xss" x] assms e by simp
  with assms(1) e show ?thesis by auto
qed

lemma distinct_concat_disjoint:
  assumes "distinct (concat xss)" "i < length xss" "j < length xss" "i \<noteq> j" "x \<in> set (xss ! i)"
  shows "x \<notin> set (xss ! j)"
  using assms distinct_concat_less by (metis linorder_neqE_nat)

lemma set_concat_upd:
  assumes "i < length xss" "distinct (concat xss)"
  shows "set (concat (xss[i := ys])) = (set (concat xss) - set (xss ! i)) \<union> set ys"
proof -
  obtain us vs where e: "concat xss = us @ xss ! i @ vs" "\<And>ys. concat (xss[i := ys]) = us @ ys @ vs"
    using concat_nth_obtain [OF assms(1)] by blast
  show ?thesis using assms(2) unfolding e by auto
qed

lemma list_all2_upd:
  assumes "length xs = length ys" "P x y" "\<And>j. j < length xs \<Longrightarrow> j \<noteq> i \<Longrightarrow> P (xs ! j) (ys ! j)"
  shows "list_all2 P (xs[i := x]) (ys[i := y])"
proof (rule list_all2_all_nthI)
  show "length (xs[i := x]) = length (ys[i := y])" using assms(1) by simp
next
  fix j assume "j < length (xs[i := x])"
  then show "P (xs[i := x] ! j) (ys[i := y] ! j)" using assms by (cases "j = i") auto
qed

section \<open>A first-in-first-out contract\<close>

text \<open>
  Character lists, buffer queues, the deferred-call ring and message queues promise the same:
  \<open>rep s xs\<close> says that the state holds the queue \<open>xs\<close>; a \<open>put\<close> the state admits appends,
  a \<open>get\<close> takes the head, and an empty queue gives nothing.
\<close>

primrec gets :: "('s \<Rightarrow> ('a \<times> 's) option) \<Rightarrow> nat \<Rightarrow> 's \<Rightarrow> 'a list \<times> 's" where
  "gets get 0 s = ([], s)"
| "gets get (Suc n) s = (case get s of None \<Rightarrow> ([], s)
     | Some (x, t) \<Rightarrow> (let (ys, u) = gets get n t in (x # ys, u)))"

primrec admitted :: "('s \<Rightarrow> 'a \<Rightarrow> bool) \<Rightarrow> ('s \<Rightarrow> 'a \<Rightarrow> 's) \<Rightarrow> 'a list \<Rightarrow> 's \<Rightarrow> bool" where
  "admitted admits put [] s = True"
| "admitted admits put (x # xs) s = (admits s x \<and> admitted admits put xs (put s x))"

locale fifo =
  fixes rep :: "'s \<Rightarrow> 'a list \<Rightarrow> bool"
    and admits :: "'s \<Rightarrow> 'a \<Rightarrow> bool"
    and put :: "'s \<Rightarrow> 'a \<Rightarrow> 's"
    and get :: "'s \<Rightarrow> ('a \<times> 's) option"
  assumes rep_put: "rep s xs \<Longrightarrow> admits s x \<Longrightarrow> rep (put s x) (xs @ [x])"
    and rep_get: "rep s (x # xs) \<Longrightarrow> \<exists>t. get s = Some (x, t) \<and> rep t xs"
    and rep_get_empty: "rep s [] \<Longrightarrow> get s = None"
begin

lemma rep_puts: "rep s xs \<Longrightarrow> admitted admits put ys s \<Longrightarrow> rep (foldl put s ys) (xs @ ys)"
proof (induction ys arbitrary: s xs)
  case Nil
  then show ?case by simp
next
  case (Cons y ys)
  then have "rep (put s y) (xs @ [y])" by (auto intro: rep_put)
  with Cons show ?case by fastforce
qed

lemma rep_gets: "rep s (xs @ ys) \<Longrightarrow> \<exists>t. gets get (length xs) s = (xs, t) \<and> rep t ys"
proof (induction xs arbitrary: s)
  case Nil
  then show ?case by simp
next
  case (Cons x xs)
  then obtain t where "get s = Some (x, t)" "rep t (xs @ ys)" using rep_get by fastforce
  with Cons.IH show ?case by fastforce
qed

text \<open>
  What is put behind a queue \<open>xs\<close> comes out after it in the order it went in, and then nothing.
\<close>

lemma fifo_order:
  assumes "rep s xs" "admitted admits put ys s"
  shows "\<exists>t. gets get (length (xs @ ys)) (foldl put s ys) = (xs @ ys, t) \<and> rep t [] \<and> get t = None"
proof -
  have "rep (foldl put s ys) ((xs @ ys) @ [])" using rep_puts [OF assms] by simp
  then obtain t where "gets get (length (xs @ ys)) (foldl put s ys) = (xs @ ys, t)" "rep t []"
    using rep_gets by blast
  then show ?thesis using rep_get_empty by blast
qed

end

end
