(* ===== verification/BufQueue.thy ===== *)
theory BufQueue
  imports Prelude
begin

text \<open>
  The driver request queues of \<open>io.386/bufq.c\<close>: an array of \<open>num_q\<close> doubly linked queues of
  buffers, linked through \<open>b_actf\<close> (forward) and \<open>b_actl\<close> (back). An operation's result is
  \<^const>\<open>None\<close> where the code would follow a bad pointer or index outside the array.
\<close>

section \<open>State\<close>

text \<open>The links of a \<open>BUF\<close>; \<open>bufq_q\<close> is NULL, an array, or an array already given back.\<close>

record buf =
  b_actf :: ptr
  b_actl :: ptr

record bufq_type =
  q_head :: ptr
  q_tail :: ptr
  q_count :: int

datatype qarray = QNull | QArr "bufq_type list" | QFreed

record bufq_state =
  num_q :: int
  bufq_q :: qarray
  bufs :: "buf store"

definition clear_q :: bufq_type where
  "clear_q = \<lparr>q_head = None, q_tail = None, q_count = 0\<rparr>"

definition q_at :: "bufq_state \<Rightarrow> int \<Rightarrow> bufq_type option" where
  "q_at s i = (case bufq_q s of QArr qs \<Rightarrow> if 0 \<le> i \<and> nat i < length qs then Some (qs ! nat i) else None
     | _ \<Rightarrow> None)"

definition q_set :: "bufq_state \<Rightarrow> int \<Rightarrow> bufq_type \<Rightarrow> bufq_state option" where
  "q_set s i q = (case bufq_q s of QArr qs \<Rightarrow>
       if 0 \<le> i \<and> nat i < length qs then Some (s\<lparr>bufq_q := QArr (qs[nat i := q])\<rparr>) else None
     | _ \<Rightarrow> None)"

section \<open>Operations\<close>

text \<open>\<open>alloc\<close> says whether \<open>kalloc\<close> finds the memory.\<close>

definition bufq_init :: "bool \<Rightarrow> int \<Rightarrow> bufq_state \<Rightarrow> int \<times> bufq_state" where
  "bufq_init alloc qcount s =
     (if qcount > 0 then
        (if alloc then (1, s\<lparr>bufq_q := QArr (replicate (nat qcount) clear_q), num_q := qcount\<rparr>)
         else (0, s\<lparr>bufq_q := QNull\<rparr>))
      else (0, s))"

definition bufq_rlse :: "bufq_state \<Rightarrow> bufq_state option" where
  "bufq_rlse s = (let s = s\<lparr>num_q := 0\<rparr> in
     case bufq_q s of QNull \<Rightarrow> Some s | QArr _ \<Rightarrow> Some (s\<lparr>bufq_q := QFreed\<rparr>) | QFreed \<Rightarrow> None)"

definition bufq_wr_tail :: "int \<Rightarrow> ptr \<Rightarrow> bufq_state \<Rightarrow> bufq_state option" where
  "bufq_wr_tail s_id bp s =
     (if s_id < num_q s then do {
        q \<leftarrow> q_at s s_id;
        (if q_count q = 0 then do {
           h \<leftarrow> modify (bufs s) bp (\<lambda>b. b\<lparr>b_actf := None, b_actl := None\<rparr>);
           q_set (s\<lparr>bufs := h\<rparr>) s_id (q\<lparr>q_head := bp, q_tail := bp, q_count := q_count q + 1\<rparr>)
         } else do {
           h \<leftarrow> modify (bufs s) (q_tail q) (b_actf_update (\<lambda>_. bp));
           h \<leftarrow> modify h bp (\<lambda>b. b\<lparr>b_actf := None, b_actl := q_tail q\<rparr>);
           q_set (s\<lparr>bufs := h\<rparr>) s_id (q\<lparr>q_tail := bp, q_count := q_count q + 1\<rparr>)
         })
      } else Some s)"

definition bufq_rd_head :: "int \<Rightarrow> bufq_state \<Rightarrow> ptr option" where
  "bufq_rd_head s_id s =
     (if s_id < num_q s then do { q \<leftarrow> q_at s s_id; Some (q_head q) } else Some None)"

definition bufq_rm_head :: "int \<Rightarrow> bufq_state \<Rightarrow> (ptr \<times> bufq_state) option" where
  "bufq_rm_head s_id s =
     (if s_id < num_q s then do {
        q \<leftarrow> q_at s s_id;
        (if q_count q > 0 then
           (if q_count q = 1 then do {
              t \<leftarrow> q_set s s_id (q\<lparr>q_head := None, q_tail := None, q_count := q_count q - 1\<rparr>);
              Some (q_head q, t)
            } else do {
              b \<leftarrow> deref (bufs s) (q_head q);
              h \<leftarrow> modify (bufs s) (b_actf b) (b_actl_update (\<lambda>_. None));
              t \<leftarrow> q_set (s\<lparr>bufs := h\<rparr>) s_id (q\<lparr>q_head := b_actf b, q_count := q_count q - 1\<rparr>);
              Some (q_head q, t)
            })
         else Some (None, s))
      } else Some (None, s))"

section \<open>Representation of the queues as lists\<close>

text \<open>A doubly linked list: forward links from \<open>p\<close>, each back link to the one before.\<close>

primrec dlist :: "buf store \<Rightarrow> ptr \<Rightarrow> ptr \<Rightarrow> addr list \<Rightarrow> bool" where
  "dlist h prev p [] \<longleftrightarrow> p = None"
| "dlist h prev p (x # xs) \<longleftrightarrow> p = Some x \<and>
     (\<exists>b. h x = Some b \<and> b_actl b = prev \<and> dlist h (Some x) (b_actf b) xs)"

definition queue_rep :: "buf store \<Rightarrow> bufq_type \<Rightarrow> addr list \<Rightarrow> bool" where
  "queue_rep h q xs \<longleftrightarrow> q_count q = int (length xs) \<and>
     (if xs = [] then q_head q = None \<and> q_tail q = None
      else q_tail q = Some (last xs) \<and> dlist h None (q_head q) xs)"

text \<open>The whole module: one list per queue, no buffer on two queues or twice on one.\<close>

definition bufq_rep :: "bufq_state \<Rightarrow> addr list list \<Rightarrow> bool" where
  "bufq_rep s xss \<longleftrightarrow> (\<exists>qs. bufq_q s = QArr qs \<and> num_q s = int (length qs) \<and>
     list_all2 (queue_rep (bufs s)) qs xss \<and> distinct (concat xss))"

lemma dlist_upd [simp]: "a \<notin> set xs \<Longrightarrow> dlist (h(a := v)) prev p xs \<longleftrightarrow> dlist h prev p xs"
  by (induction xs arbitrary: prev p) auto

lemma dlist_dom: "dlist h prev p xs \<Longrightarrow> x \<in> set xs \<Longrightarrow> \<exists>b. h x = Some b"
  by (induction xs arbitrary: prev p) auto

lemma queue_rep_upd: "a \<notin> set xs \<Longrightarrow> queue_rep (h(a := v)) q xs \<longleftrightarrow> queue_rep h q xs"
  by (simp add: queue_rep_def)

lemma dlist_snoc:
  assumes "dlist h prev p xs" "xs \<noteq> []" "distinct xs" "y \<notin> set xs" "h (last xs) = Some b"
  shows "dlist (h(last xs \<mapsto> b\<lparr>b_actf := Some y\<rparr>, y \<mapsto> n\<lparr>b_actf := None, b_actl := Some (last xs)\<rparr>))
           prev p (xs @ [y])"
  using assms
proof (induction xs arbitrary: prev p)
  case Nil
  then show ?case by simp
next
  case (Cons x xs)
  show ?case
  proof (cases "xs = []")
    case True
    with Cons.prems show ?thesis by auto
  next
    case False
    with Cons.prems Cons.IH [of "Some x"] show ?thesis by (auto simp: last_in_set)
  qed
qed

lemma dlist_back:
  assumes "dlist h prev (Some x) (x # xs)" "x \<notin> set xs" "distinct xs" "xs \<noteq> []" "h x = Some b"
  shows "\<exists>y n. b_actf b = Some y \<and> h y = Some n \<and> hd xs = y \<and>
    dlist (h(y \<mapsto> n\<lparr>b_actl := q\<rparr>)) q (Some y) xs"
  using assms by (cases xs) auto

section \<open>Correctness\<close>

lemma bufq_rep_nth:
  assumes "bufq_rep s xss" "i < length xss"
  obtains qs where "bufq_q s = QArr qs" "length qs = length xss" "num_q s = int (length xss)"
    "queue_rep (bufs s) (qs ! i) (xss ! i)" "q_at s (int i) = Some (qs ! i)"
  using assms by (auto simp: bufq_rep_def q_at_def list_all2_conv_all_nth)

text \<open>A store that differs only on buffers of queue \<open>i\<close> or of no queue keeps the other queues.\<close>

lemma bufq_rep_upd:
  assumes rep: "bufq_rep s xss" and i: "i < length xss" and qs: "bufq_q s = QArr qs"
    and q: "queue_rep h q ys" and d: "distinct ys"
    and frame: "\<And>j. j < length xss \<Longrightarrow> j \<noteq> i \<Longrightarrow> queue_rep h (qs ! j) (xss ! j)"
    and ys: "set ys \<inter> (set (concat xss) - set (xss ! i)) = {}"
  shows "bufq_rep (s\<lparr>bufs := h, bufq_q := QArr (qs[i := q])\<rparr>) (xss[i := ys])"
  using assms by (auto simp: bufq_rep_def list_all2_conv_all_nth nth_list_update distinct_concat_upd)

lemma bufq_wr_tail_rep:
  assumes rep: "bufq_rep s xss" and i: "i < length xss"
    and x: "x \<notin> set (concat xss)" and hx: "bufs s x = Some b"
  shows "\<exists>t. bufq_wr_tail (int i) (Some x) s = Some t \<and> bufq_rep t (xss[i := xss ! i @ [x]])"
proof -
  obtain qs where qs: "bufq_q s = QArr qs" "length qs = length xss" "num_q s = int (length xss)"
    and q: "queue_rep (bufs s) (qs ! i) (xss ! i)" and at: "q_at s (int i) = Some (qs ! i)"
    using rep i by (rule bufq_rep_nth)
  let ?q = "qs ! i" and ?ys = "xss ! i"
  have frame: "queue_rep (bufs s) (qs ! j) (xss ! j)" if "j < length xss" for j
    using rep that qs by (auto simp: bufq_rep_def list_all2_conv_all_nth)
  have dy: "distinct ?ys" and xy: "x \<notin> set ?ys"
    using rep i x by (auto simp: bufq_rep_def distinct_concat_nth)
  have xj: "x \<notin> set (xss ! j)" if "j < length xss" for j using x that by auto
  show ?thesis
  proof (cases "?ys = []")
    case True
    let ?h = "(bufs s)(x \<mapsto> b\<lparr>b_actf := None, b_actl := None\<rparr>)"
    let ?r = "?q\<lparr>q_head := Some x, q_tail := Some x, q_count := q_count ?q + 1\<rparr>"
    have "bufq_wr_tail (int i) (Some x) s = Some (s\<lparr>bufs := ?h, bufq_q := QArr (qs[i := ?r])\<rparr>)"
      using True q at hx i qs by (simp add: bufq_wr_tail_def queue_rep_def q_set_def)
    moreover have "queue_rep ?h ?r [x]" using True q by (simp add: queue_rep_def)
    ultimately show ?thesis
      using bufq_rep_upd [OF rep i qs(1), of ?h ?r "[x]"] True frame xj x
      by (auto simp: queue_rep_upd)
  next
    case False
    have lst: "last ?ys \<in> set ?ys" using False by simp
    have dl: "dlist (bufs s) None (q_head ?q) ?ys" and tl: "q_tail ?q = Some (last ?ys)"
      and cnt: "q_count ?q = int (length ?ys)"
      using q False by (auto simp: queue_rep_def)
    obtain n where n: "bufs s (last ?ys) = Some n" using dlist_dom [OF dl lst] by blast
    have ne: "x \<noteq> last ?ys" using lst xy by auto
    let ?h = "(bufs s)(last ?ys \<mapsto> n\<lparr>b_actf := Some x\<rparr>,
                       x \<mapsto> b\<lparr>b_actf := None, b_actl := Some (last ?ys)\<rparr>)"
    let ?r = "?q\<lparr>q_tail := Some x, q_count := q_count ?q + 1\<rparr>"
    have "bufq_wr_tail (int i) (Some x) s = Some (s\<lparr>bufs := ?h, bufq_q := QArr (qs[i := ?r])\<rparr>)"
      using False tl cnt at hx n i qs ne by (simp add: bufq_wr_tail_def q_set_def)
    moreover have "queue_rep ?h ?r (?ys @ [x])"
      using dlist_snoc [OF dl False dy xy n] cnt by (simp add: queue_rep_def)
    moreover have "queue_rep ?h (qs ! j) (xss ! j)" if "j < length xss" "j \<noteq> i" for j
    proof -
      have "last ?ys \<notin> set (xss ! j)"
        using rep i that lst by (auto simp: bufq_rep_def dest: distinct_concat_disjoint)
      then show ?thesis using frame that xj by (simp add: queue_rep_upd)
    qed
    ultimately show ?thesis
      using bufq_rep_upd [OF rep i qs(1), of ?h ?r "?ys @ [x]"] dy xy x by auto
  qed
qed

lemma bufq_rm_head_rep:
  assumes rep: "bufq_rep s xss" and i: "i < length xss" and ys: "xss ! i = y # ys"
  shows "\<exists>t. bufq_rm_head (int i) s = Some (Some y, t) \<and> bufq_rep t (xss[i := ys])"
proof -
  obtain qs where qs: "bufq_q s = QArr qs" "length qs = length xss" "num_q s = int (length xss)"
    and q: "queue_rep (bufs s) (qs ! i) (xss ! i)" and at: "q_at s (int i) = Some (qs ! i)"
    using rep i by (rule bufq_rep_nth)
  let ?q = "qs ! i"
  have frame: "queue_rep (bufs s) (qs ! j) (xss ! j)" if "j < length xss" for j
    using rep that qs by (auto simp: bufq_rep_def list_all2_conv_all_nth)
  have dy: "distinct (y # ys)" using rep i ys by (metis bufq_rep_def distinct_concat_nth)
  have dl: "dlist (bufs s) None (q_head ?q) (y # ys)" and tl: "q_tail ?q = Some (last (y # ys))"
    and cnt: "q_count ?q = int (length (y # ys))"
    using q by (auto simp: queue_rep_def ys)
  have sub: "set ys \<inter> (set (concat xss) - set (xss ! i)) = {}" by (auto simp: ys)
  show ?thesis
  proof (cases "ys = []")
    case True
    let ?r = "?q\<lparr>q_head := None, q_tail := None, q_count := q_count ?q - 1\<rparr>"
    have "bufq_rm_head (int i) s = Some (Some y, s\<lparr>bufs := bufs s, bufq_q := QArr (qs[i := ?r])\<rparr>)"
      using True cnt dl at i qs by (simp add: bufq_rm_head_def q_set_def)
    moreover have "queue_rep (bufs s) ?r []" using cnt True by (simp add: queue_rep_def)
    ultimately show ?thesis
      using bufq_rep_upd [OF rep i qs(1), of "bufs s" ?r "[]"] True frame by auto
  next
    case False
    from dl obtain b where b: "bufs s y = Some b" by auto
    obtain z n where z: "b_actf b = Some z" "bufs s z = Some n" "hd ys = z"
      and dz: "dlist ((bufs s)(z \<mapsto> n\<lparr>b_actl := None\<rparr>)) None (Some z) ys"
      using dlist_back [of "bufs s" None y ys b None] dl dy False b by auto
    have zin: "z \<in> set ys" using z False by auto
    let ?h = "(bufs s)(z \<mapsto> n\<lparr>b_actl := None\<rparr>)"
    let ?r = "?q\<lparr>q_head := Some z, q_count := q_count ?q - 1\<rparr>"
    have "bufq_rm_head (int i) s = Some (Some y, s\<lparr>bufs := ?h, bufq_q := QArr (qs[i := ?r])\<rparr>)"
      using False cnt dl b z at i qs by (simp add: bufq_rm_head_def q_set_def)
    moreover have "queue_rep ?h ?r ys" using dz tl cnt False by (simp add: queue_rep_def)
    moreover have "queue_rep ?h (qs ! j) (xss ! j)" if "j < length xss" "j \<noteq> i" for j
    proof -
      have "z \<notin> set (xss ! j)"
        using rep i that zin ys by (auto simp: bufq_rep_def dest: distinct_concat_disjoint)
      then show ?thesis using frame that by (simp add: queue_rep_upd)
    qed
    ultimately show ?thesis
      using bufq_rep_upd [OF rep i qs(1), of ?h ?r ys] dy sub by auto
  qed
qed

section \<open>The queues keep the first-in-first-out contract\<close>

definition bufq_holds :: "nat \<Rightarrow> bufq_state \<Rightarrow> addr list \<Rightarrow> bool" where
  "bufq_holds i s xs \<longleftrightarrow> (\<exists>xss. bufq_rep s xss \<and> i < length xss \<and> xss ! i = xs)"

text \<open>A buffer may be queued when it exists and is on no queue.\<close>

definition bufq_admits :: "bufq_state \<Rightarrow> addr \<Rightarrow> bool" where
  "bufq_admits s x \<longleftrightarrow> bufs s x \<noteq> None \<and> (\<forall>xss. bufq_rep s xss \<longrightarrow> x \<notin> set (concat xss))"

definition bufq_put :: "nat \<Rightarrow> bufq_state \<Rightarrow> addr \<Rightarrow> bufq_state" where
  "bufq_put i s x = (case bufq_wr_tail (int i) (Some x) s of None \<Rightarrow> s | Some t \<Rightarrow> t)"

definition bufq_get :: "nat \<Rightarrow> bufq_state \<Rightarrow> (addr \<times> bufq_state) option" where
  "bufq_get i s = (case bufq_rm_head (int i) s of Some (Some x, t) \<Rightarrow> Some (x, t) | _ \<Rightarrow> None)"

lemma bufq_rm_head_empty:
  assumes "bufq_rep s xss" "i < length xss" "xss ! i = []"
  shows "bufq_rm_head (int i) s = Some (None, s)"
  using assms by (auto elim!: bufq_rep_nth simp: bufq_rm_head_def queue_rep_def)

lemma bufq_rd_head_rep:
  assumes "bufq_rep s xss" "i < length xss"
  shows "bufq_rd_head (int i) s = Some (case xss ! i of [] \<Rightarrow> None | x # _ \<Rightarrow> Some x)"
  using assms by (auto elim!: bufq_rep_nth simp: bufq_rd_head_def queue_rep_def split: list.split)

interpretation bq: fifo "bufq_holds i" bufq_admits "bufq_put i" "bufq_get i" for i
proof unfold_locales
  fix s xs x
  assume "bufq_holds i s xs" "bufq_admits s x"
  then obtain xss b where "bufq_rep s xss" "i < length xss" "xss ! i = xs" "x \<notin> set (concat xss)"
    "bufs s x = Some b"
    by (auto simp: bufq_holds_def bufq_admits_def)
  with bufq_wr_tail_rep [of s xss i x b] show "bufq_holds i (bufq_put i s x) (xs @ [x])"
    unfolding bufq_holds_def bufq_put_def by (force intro!: exI [of _ "xss[i := xss ! i @ [x]]"])
next
  fix s x xs
  assume "bufq_holds i s (x # xs)"
  then obtain xss where "bufq_rep s xss" "i < length xss" "xss ! i = x # xs"
    by (auto simp: bufq_holds_def)
  with bufq_rm_head_rep [of s xss i x xs] show "\<exists>t. bufq_get i s = Some (x, t) \<and> bufq_holds i t xs"
    unfolding bufq_holds_def bufq_get_def by (force intro!: exI [of _ "xss[i := xs]"])
next
  fix s
  assume "bufq_holds i s []"
  then show "bufq_get i s = None"
    by (auto simp: bufq_holds_def bufq_get_def bufq_rm_head_empty)
qed

lemma bufq_init_rep:
  assumes "qcount > 0"
  shows "bufq_rep (snd (bufq_init True qcount s)) (replicate (nat qcount) [])"
  using assms
  by (simp add: bufq_init_def bufq_rep_def list_all2_conv_all_nth queue_rep_def clear_q_def concat_replicate_trivial)

text \<open>
  \<open>bufq_rlse\<close> gives the array back but leaves \<open>bufq_q\<close> pointing at it: a second call frees it twice.
\<close>

lemma bufq_rlse_twice: "bufq_q s = QArr qs \<Longrightarrow> Option.bind (bufq_rlse s) bufq_rlse = None"
  by (simp add: bufq_rlse_def)

section \<open>Properties\<close>

text \<open>\<open>bufq_wr_tail\<close> puts a buffer that is on no queue behind the last one of its queue: the
  linked structure then represents the old lists with the buffer appended to list \<open>i\<close> alone,
  and \<open>bufq_rd_head\<close> shows the same head as before, or the new buffer if the queue was empty.\<close>

theorem bufq_wr_tail_appends:
  assumes "bufq_rep s xss" "i < length xss" "x \<notin> set (concat xss)" "bufs s x \<noteq> None"
  shows "\<exists>t. bufq_wr_tail (int i) (Some x) s = Some t \<and> bufq_rep t (xss[i := xss ! i @ [x]]) \<and>
    bufq_rd_head (int i) t = Some (Some (hd (xss ! i @ [x])))"
proof -
  obtain b where "bufs s x = Some b" using assms(4) by auto
  with bufq_wr_tail_rep assms obtain t where t: "bufq_wr_tail (int i) (Some x) s = Some t"
    "bufq_rep t (xss[i := xss ! i @ [x]])" by blast
  moreover have "bufq_rd_head (int i) t = Some (Some (hd (xss ! i @ [x])))"
    using bufq_rd_head_rep [OF t(2), of i] assms(2) by (simp split: list.split)
  ultimately show ?thesis by blast
qed

definition example_bufs :: bufq_state where
  "example_bufs = \<lparr>num_q = 0, bufq_q = QNull,
     bufs = (\<lambda>_. None)(10 \<mapsto> \<lparr>b_actf = None, b_actl = None\<rparr>, 11 \<mapsto> \<lparr>b_actf = Some 3, b_actl = None\<rparr>)\<rparr>"

theorem bufq_wr_tail_appends_witness:
  "\<exists>t. bufq_wr_tail 1 (Some 10) (snd (bufq_init True 2 example_bufs)) = Some t \<and> bufq_rep t [[], [10]] \<and>
    bufq_rd_head 1 t = Some (Some 10)"
  using bufq_wr_tail_appends [of "snd (bufq_init True 2 example_bufs)" "[[], []]" 1 10]
    bufq_init_rep [of 2 example_bufs]
  by (simp add: example_bufs_def bufq_init_def numeral_2_eq_2)

text \<open>Whatever is queued comes out in the order it went in: with \<open>xs\<close> already on queue \<open>i\<close> and
  admissible buffers \<open>ys\<close> written behind them, as many calls of \<open>bufq_rm_head\<close> return \<open>xs @ ys\<close>, and
  the next one NULL.\<close>

theorem bufq_fifo:
  assumes "bufq_holds i s xs" "admitted bufq_admits (bufq_put i) ys s"
  shows "\<exists>t. gets (bufq_get i) (length (xs @ ys)) (foldl (bufq_put i) s ys) = (xs @ ys, t) \<and>
    bufq_holds i t [] \<and> bufq_rm_head (int i) t = Some (None, t)"
proof -
  from bq.fifo_order [OF assms] obtain t where t:
    "gets (bufq_get i) (length (xs @ ys)) (foldl (bufq_put i) s ys) = (xs @ ys, t)" "bufq_holds i t []"
    by blast
  then have "bufq_rm_head (int i) t = Some (None, t)" by (auto simp: bufq_holds_def bufq_rm_head_empty)
  with t show ?thesis by blast
qed

theorem bufq_fifo_witness:
  "\<exists>t. gets (bufq_get 0) 1 (foldl (bufq_put 0) (snd (bufq_init True 1 example_bufs)) [10]) = ([10], t) \<and>
    bufq_holds 0 t [] \<and> bufq_rm_head 0 t = Some (None, t)"
proof -
  let ?s = "snd (bufq_init True 1 example_bufs)"
  have rep: "bufq_rep ?s [[]]" using bufq_init_rep [of 1 example_bufs] by simp
  have uniq: "xss = [[]]" if "bufq_rep ?s xss" for xss
    using that by (auto simp: bufq_rep_def bufq_init_def queue_rep_def clear_q_def list_all2_Cons1
        split: if_splits)
  have "bufq_holds 0 ?s []" using rep by (auto simp: bufq_holds_def)
  moreover have "admitted bufq_admits (bufq_put 0) [10] ?s"
    using uniq by (fastforce simp: bufq_admits_def example_bufs_def bufq_init_def)
  ultimately show ?thesis using bufq_fifo [of 0 ?s "[]" "[10]"] by simp
qed

end
