(* ===== verification/Clist.thy ===== *)
theory Clist
  imports Prelude "HOL-Library.Word"
begin

text \<open>
  Character lists, \<open>conf/tty/src/clist.c\<close>: every terminal queue is a chain of blocks of \<open>NCPCL\<close>
  characters taken from one free list. \<open>NCPCL\<close> comes from \<open><sys/clist.h>\<close>, which is not in
  the repository; it is a parameter of the model.
\<close>

section \<open>State\<close>

record clist =
  cl_fp :: ptr
  cl_ch :: "8 word list"

record cqueue =
  cq_cc :: nat
  cq_ip :: ptr
  cq_ix :: nat
  cq_op :: ptr
  cq_ox :: nat

text \<open>\<open>cl_wakeups\<close> counts the calls of \<open>wakeup (& cltwant)\<close>.\<close>

record clists =
  cblocks :: "clist store"
  cltfree :: ptr
  nclfree :: int
  cltwant :: bool
  cl_wakeups :: nat

definition empty_cq :: cqueue where
  "empty_cq = \<lparr>cq_cc = 0, cq_ip = None, cq_ix = 0, cq_op = None, cq_ox = 0\<rparr>"

section \<open>Operations\<close>

text \<open>
  \<open>cltinit\<close> threads the \<open>NCLIST\<close> blocks of the array at \<open>clistp\<close> from the last to the first;
  addresses count blocks. The loop runs \<open>p\<close> down, \<open>lm\<close> being the block linked last.
\<close>

primrec cltinit_loop :: "addr \<Rightarrow> nat \<Rightarrow> clist store \<Rightarrow> ptr \<Rightarrow> (clist store \<times> ptr) option" where
  "cltinit_loop clistp 0 h lm = Some (h, lm)"
| "cltinit_loop clistp (Suc k) h lm = do {
     h \<leftarrow> modify h (Some (clistp + k)) (cl_fp_update (\<lambda>_. lm));
     cltinit_loop clistp k h (Some (clistp + k))
   }"

definition cltinit :: "addr \<Rightarrow> nat \<Rightarrow> clists \<Rightarrow> clists option" where
  "cltinit clistp NCLIST s = do {
     (h, lm) \<leftarrow> cltinit_loop clistp NCLIST (cblocks s) None;
     Some (s\<lparr>cblocks := h, cltfree := lm, nclfree := int NCLIST\<rparr>)
   }"

text \<open>\<open>cltgetq\<close> returns the character, or -1 when the queue is empty.\<close>

definition cltgetq :: "nat \<Rightarrow> cqueue \<Rightarrow> clists \<Rightarrow> (int \<times> cqueue \<times> clists) option" where
  "cltgetq NCPCL q s =
     (if cq_cc q = 0 then Some (- 1, q, s) else do {
        b \<leftarrow> deref (cblocks s) (cq_op q);
        c \<leftarrow> (if cq_ox q < length (cl_ch b) then Some (uint (cl_ch b ! cq_ox q)) else None);
        let q1 = q\<lparr>cq_cc := cq_cc q - 1\<rparr>;
        let q2 = (if cq_cc q1 = 0 then q1 else q1\<lparr>cq_ox := cq_ox q1 + 1\<rparr>);
        (if cq_cc q1 = 0 \<or> cq_ox q2 = NCPCL then do {
           let np = cl_fp b;
           h \<leftarrow> modify (cblocks s) (cq_op q) (cl_fp_update (\<lambda>_. cltfree s));
           let q3 = q2\<lparr>cq_ox := 0, cq_op := np\<rparr>;
           let q4 = (if np = None then q3\<lparr>cq_ip := None, cq_ix := 0\<rparr> else q3);
           let s1 = s\<lparr>cblocks := h, cltfree := cq_op q\<rparr>;
           let s2 = (if cltwant s1 then s1\<lparr>cltwant := False, cl_wakeups := Suc (cl_wakeups s1)\<rparr> else s1);
           Some (c, q4, s2\<lparr>nclfree := nclfree s2 + 1\<rparr>)
         } else Some (c, q2, s))
      })"

text \<open>\<open>cltputq\<close> returns the character it was given, or -1 when no block is free.\<close>

definition cltputq :: "nat \<Rightarrow> cqueue \<Rightarrow> int \<Rightarrow> clists \<Rightarrow> (int \<times> cqueue \<times> clists) option" where
  "cltputq NCPCL q c s =
     (let store = (\<lambda>ip q s. do {
          b \<leftarrow> deref (cblocks s) ip;
          (if cq_ix q < length (cl_ch b) then do {
             h \<leftarrow> modify (cblocks s) ip (\<lambda>n. n\<lparr>cl_ch := (cl_ch n)[cq_ix q := word_of_int c]\<rparr>);
             let ix = cq_ix q + 1;
             Some (c, q\<lparr>cq_ix := (if ix = NCPCL then 0 else ix), cq_cc := cq_cc q + 1\<rparr>, s\<lparr>cblocks := h\<rparr>)
           } else None)
        })
      in if cq_ix q = 0 then
           (if cltfree s = None then Some (- 1, q, s) else do {
              let ip = cltfree s;
              b \<leftarrow> deref (cblocks s) ip;
              h \<leftarrow> modify (cblocks s) ip (cl_fp_update (\<lambda>_. None));
              let s1 = s\<lparr>cltfree := cl_fp b, cblocks := h\<rparr>;
              (q1, s2) \<leftarrow> (if cq_ip q = None then Some (q\<lparr>cq_op := ip\<rparr>, s1) else do {
                 h \<leftarrow> modify (cblocks s1) (cq_ip q) (cl_fp_update (\<lambda>_. ip));
                 Some (q, s1\<lparr>cblocks := h\<rparr>)
               });
              store ip (q1\<lparr>cq_ip := ip\<rparr>) (s2\<lparr>nclfree := nclfree s2 - 1\<rparr>)
            })
         else store (cq_ip q) q s)"

text \<open>\<open>clrq\<close> takes characters until there are none: \<^const>\<open>None\<close> would be a fault or no return.\<close>

partial_function (option) clrq :: "nat \<Rightarrow> cqueue \<Rightarrow> clists \<Rightarrow> (cqueue \<times> clists) option" where
  "clrq NCPCL q s = do {
     (c, q', s') \<leftarrow> cltgetq NCPCL q s;
     if c \<ge> 0 then clrq NCPCL q' s' else Some (q', s')
   }"

text \<open>\<open>waitq\<close> sleeps until the free list is not empty; each sleep consumes one wakeup of the script.\<close>

fun waitq :: "clists wake list \<Rightarrow> clists \<Rightarrow> (clists, unit) outcome" where
  "waitq ws s = (if cltfree s = None then
      (let s1 = s\<lparr>cltwant := True\<rparr> in
       case ws of [] \<Rightarrow> Blocked s1 | w # ws' \<Rightarrow> waitq ws' (fst w s1))
    else Done s ())"

declare waitq.simps [simp del]

section \<open>Representation\<close>

definition chars :: "clist store \<Rightarrow> addr list \<Rightarrow> 8 word list" where
  "chars h bs = concat (map (\<lambda>b. case h b of Some n \<Rightarrow> cl_ch n | None \<Rightarrow> []) bs)"

definition blocks_ok :: "nat \<Rightarrow> clist store \<Rightarrow> addr list \<Rightarrow> bool" where
  "blocks_ok N h bs \<longleftrightarrow> (\<forall>b \<in> set bs. \<exists>n. h b = Some n \<and> length (cl_ch n) = N)"

text \<open>
  A queue owns the blocks \<open>bs\<close>: the characters start \<open>cq_ox\<close> into the first and end where the
  next one will be put, \<open>cq_ix\<close> into the last (0 standing for a full last block).
\<close>

definition cq_rep :: "nat \<Rightarrow> clist store \<Rightarrow> cqueue \<Rightarrow> addr list \<Rightarrow> bool" where
  "cq_rep N h q bs \<longleftrightarrow> linked h cl_fp (cq_op q) bs \<and> blocks_ok N h bs \<and> cq_ix q < N \<and> cq_ox q < N \<and>
     cq_ip q = (if bs = [] then None else Some (last bs)) \<and>
     (bs = [] \<longrightarrow> cq_ix q = 0 \<and> cq_ox q = 0) \<and> (bs \<noteq> [] \<longrightarrow> cq_cc q \<noteq> 0) \<and>
     N * length bs = cq_ox q + cq_cc q + (if cq_ix q = 0 then 0 else N - cq_ix q)"

definition cq_chars :: "clist store \<Rightarrow> cqueue \<Rightarrow> addr list \<Rightarrow> 8 word list" where
  "cq_chars h q bs = take (cq_cc q) (drop (cq_ox q) (chars h bs))"

text \<open>
  The pool: the free list \<open>fs\<close> and the queues \<open>qs\<close> with their blocks \<open>bss\<close> share nothing, and
  \<open>nclfree\<close> counts the free list.
\<close>

definition pool_rep :: "nat \<Rightarrow> clists \<Rightarrow> addr list \<Rightarrow> cqueue list \<Rightarrow> addr list list \<Rightarrow> bool" where
  "pool_rep N s fs qs bss \<longleftrightarrow> linked (cblocks s) cl_fp (cltfree s) fs \<and> blocks_ok N (cblocks s) fs \<and>
     nclfree s = int (length fs) \<and> list_all2 (cq_rep N (cblocks s)) qs bss \<and> distinct (fs @ concat bss)"

section \<open>Frame and length lemmas\<close>

lemma chars_Nil [simp]: "chars h [] = []"
  by (simp add: chars_def)

lemma chars_Cons: "chars h (b # bs) = (case h b of Some n \<Rightarrow> cl_ch n | None \<Rightarrow> []) @ chars h bs"
  by (simp add: chars_def)

lemma chars_append [simp]: "chars h (as @ bs) = chars h as @ chars h bs"
  by (simp add: chars_def)

lemma chars_upd [simp]: "a \<notin> set bs \<Longrightarrow> chars (h(a := v)) bs = chars h bs"
  by (induction bs) (auto simp: chars_Cons)

lemma chars_relink [simp]: "h a = Some n \<Longrightarrow> chars (h(a \<mapsto> n\<lparr>cl_fp := p\<rparr>)) bs = chars h bs"
  by (induction bs) (auto simp: chars_Cons)

lemma blocks_ok_simps [simp]: "blocks_ok N h []"
  "blocks_ok N h (b # bs) \<longleftrightarrow> (\<exists>n. h b = Some n \<and> length (cl_ch n) = N) \<and> blocks_ok N h bs"
  "blocks_ok N h (as @ cs) \<longleftrightarrow> blocks_ok N h as \<and> blocks_ok N h cs"
  by (auto simp: blocks_ok_def)

lemma blocks_ok_upd: "length (cl_ch n) = N \<Longrightarrow> blocks_ok N h bs \<Longrightarrow> blocks_ok N (h(a \<mapsto> n)) bs"
  by (auto simp: blocks_ok_def)

lemma length_chars: "blocks_ok N h bs \<Longrightarrow> length (chars h bs) = N * length bs"
  by (induction bs) (auto simp: chars_Cons)

lemma cq_rep_upd: "a \<notin> set bs \<Longrightarrow> cq_rep N (h(a := v)) q bs \<longleftrightarrow> cq_rep N h q bs"
  by (auto simp: cq_rep_def blocks_ok_def)

lemma cq_chars_upd [simp]: "a \<notin> set bs \<Longrightarrow> cq_chars (h(a := v)) q bs = cq_chars h q bs"
  by (simp add: cq_chars_def)

lemma cq_rep_empty: "cq_rep N h q [] \<longleftrightarrow>
    cq_op q = None \<and> cq_ip q = None \<and> cq_ix q = 0 \<and> cq_ox q = 0 \<and> cq_cc q = 0 \<and> 0 < N"
  by (auto simp: cq_rep_def)

lemma cq_rep_cc_0: "cq_rep N h q bs \<Longrightarrow> cq_cc q = 0 \<longleftrightarrow> bs = []"
  by (auto simp: cq_rep_def split: if_splits)

lemma length_cq_chars: "cq_rep N h q bs \<Longrightarrow> length (cq_chars h q bs) = cq_cc q"
  by (auto simp: cq_rep_def cq_chars_def length_chars)

lemma cq_rep_cong:
  assumes same: "\<And>a. a \<in> set bs \<Longrightarrow> h' a = h a" and rep: "cq_rep N h q bs"
  shows "cq_rep N h' q bs \<and> cq_chars h' q bs = cq_chars h q bs"
proof -
  have "linked h' cl_fp (cq_op q) bs \<longleftrightarrow> linked h cl_fp (cq_op q) bs"
    by (rule chain_cong) (simp add: same)
  moreover have "blocks_ok N h' bs = blocks_ok N h bs" by (simp add: blocks_ok_def same)
  moreover have "chars h' bs = chars h bs"
    using same by (induction bs) (auto simp: chars_Cons)
  ultimately show ?thesis using rep by (simp add: cq_rep_def cq_chars_def)
qed

section \<open>Taking a character\<close>

text \<open>The block stays on the queue: only the two counters move.\<close>

lemma cq_rep_get_stay:
  assumes "cq_rep N h q (b # bs)" "cq_cc q \<noteq> 1" "cq_ox q + 1 \<noteq> N"
  shows "cq_rep N h (q\<lparr>cq_cc := cq_cc q - 1, cq_ox := cq_ox q + 1\<rparr>) (b # bs)"
  using assms by (auto simp: cq_rep_def)

text \<open>The first block is used up: the rest of the chain is the queue.\<close>

lemma cq_rep_get_free:
  assumes rep: "cq_rep N h q (b # bs)" and n: "h b = Some n" and last: "cq_cc q = 1 \<or> cq_ox q + 1 = N"
  shows "cl_fp n = None \<longleftrightarrow> bs = []"
    and "cq_cc q = 1 \<Longrightarrow> bs = []"
    and "cq_rep N h (if bs = [] then q\<lparr>cq_cc := cq_cc q - 1, cq_ox := 0, cq_op := cl_fp n, cq_ip := None, cq_ix := 0\<rparr>
           else q\<lparr>cq_cc := cq_cc q - 1, cq_ox := 0, cq_op := cl_fp n\<rparr>) bs"
proof -
  have l: "linked h cl_fp (cl_fp n) bs" using rep n by (simp add: cq_rep_def)
  then show e: "cl_fp n = None \<longleftrightarrow> bs = []" by (cases bs) auto
  define m where "m = N * length bs"
  have sum: "N + m = cq_ox q + cq_cc q + (if cq_ix q = 0 then 0 else N - cq_ix q)"
    and ox: "cq_ox q < N" and ix: "cq_ix q < N" and cc: "cq_cc q \<noteq> 0"
    using rep by (auto simp: cq_rep_def m_def)
  have pos: "N \<le> m" if "bs \<noteq> []" using that by (cases bs) (auto simp: m_def)
  have m0: "m = 0" if "bs = []" using that by (simp add: m_def)
  show c1: "bs = []" if "cq_cc q = 1"
  proof (rule ccontr)
    assume "bs \<noteq> []"
    then show False using pos sum ox ix that by (auto split: if_splits)
  qed
  have c2: "cq_cc q = 1" if "bs = []" "cq_ox q + 1 = N"
    using m0 sum ox ix cc that by (auto split: if_splits)
  show "cq_rep N h (if bs = [] then q\<lparr>cq_cc := cq_cc q - 1, cq_ox := 0, cq_op := cl_fp n, cq_ip := None, cq_ix := 0\<rparr>
           else q\<lparr>cq_cc := cq_cc q - 1, cq_ox := 0, cq_op := cl_fp n\<rparr>) bs"
  proof (cases "bs = []")
    case True
    then have "cq_cc q = 1" using last c2 by blast
    with True e ox show ?thesis by (simp add: cq_rep_empty)
  next
    case False
    then have "cq_ox q + 1 = N" using last c1 by blast
    moreover have "cq_cc q > 1" using c1 False cc by (cases "cq_cc q = 1") auto
    ultimately show ?thesis using False rep l sum by (auto simp: cq_rep_def m_def split: if_splits)
  qed
qed

lemma cq_chars_get_stay:
  assumes "cq_rep N h q (b # bs)" "h b = Some n"
  shows "cq_chars h q (b # bs) =
    cl_ch n ! cq_ox q # cq_chars h (q\<lparr>cq_cc := cq_cc q - 1, cq_ox := cq_ox q + 1\<rparr>) (b # bs)"
    and "cq_ox q < length (cl_ch n)"
proof -
  have l: "length (cl_ch n) = N" and ox: "cq_ox q < N" and cc: "cq_cc q \<noteq> 0"
    using assms by (auto simp: cq_rep_def)
  then show "cq_ox q < length (cl_ch n)" by simp
  have "drop (cq_ox q) (chars h (b # bs)) = cl_ch n ! cq_ox q # drop (Suc (cq_ox q)) (chars h (b # bs))"
    using l ox assms by (simp add: chars_Cons Cons_nth_drop_Suc [symmetric])
  with cc show "cq_chars h q (b # bs) =
    cl_ch n ! cq_ox q # cq_chars h (q\<lparr>cq_cc := cq_cc q - 1, cq_ox := cq_ox q + 1\<rparr>) (b # bs)"
    by (cases "cq_cc q") (auto simp: cq_chars_def)
qed

lemma cq_chars_get_free:
  assumes "cq_rep N h q (b # bs)" "h b = Some n" "cq_cc q = 1 \<or> cq_ox q + 1 = N"
    "cq_cc r = cq_cc q - 1" "cq_ox r = 0"
  shows "cq_chars h (q\<lparr>cq_cc := cq_cc q - 1, cq_ox := cq_ox q + 1\<rparr>) (b # bs) = cq_chars h r bs"
proof (cases "cq_cc q = 1")
  case True
  then show ?thesis using assms by (simp add: cq_chars_def)
next
  case False
  then have "length (cl_ch n) = cq_ox q + 1" using assms by (auto simp: cq_rep_def)
  then show ?thesis using assms by (simp add: cq_chars_def chars_Cons)
qed

section \<open>Steps on the pool\<close>

definition pool_chars :: "clists \<Rightarrow> cqueue list \<Rightarrow> addr list list \<Rightarrow> 8 word list list" where
  "pool_chars s qs bss = map2 (cq_chars (cblocks s)) qs bss"

lemma pool_rep_nth:
  assumes "pool_rep N s fs qs bss" "i < length qs"
  shows "cq_rep N (cblocks s) (qs ! i) (bss ! i)" "length bss = length qs"
    "set fs \<inter> set (bss ! i) = {}" "distinct (bss ! i)" "distinct fs"
  using assms nth_in_concat [of i bss] distinct_concat_nth [of bss i]
  by (auto simp: pool_rep_def list_all2_conv_all_nth)

lemma pool_disjoint:
  assumes "pool_rep N s fs qs bss" "i < length qs" "j < length qs" "i \<noteq> j" "x \<in> set fs \<or> x \<in> set (bss ! i)"
  shows "x \<notin> set (bss ! j)"
  using assms pool_rep_nth [of N s fs qs bss j] distinct_concat_disjoint [of bss i j x]
  by (auto simp: pool_rep_def)

text \<open>Queue \<open>i\<close> and the free list may exchange blocks; every other queue is as it was.\<close>

lemma pool_rep_step:
  assumes pool: "pool_rep N s fs qs bss" and i: "i < length qs"
    and free: "linked (cblocks t) cl_fp (cltfree t) fs'" "blocks_ok N (cblocks t) fs'"
      "nclfree t = int (length fs')"
    and q: "cq_rep N (cblocks t) q bs"
    and sets: "set fs' \<union> set bs = set fs \<union> set (bss ! i)" "distinct (fs' @ bs)"
    and frame: "\<And>j. j < length qs \<Longrightarrow> j \<noteq> i \<Longrightarrow> cq_rep N (cblocks t) (qs ! j) (bss ! j) \<and>
        cq_chars (cblocks t) (qs ! j) (bss ! j) = cq_chars (cblocks s) (qs ! j) (bss ! j)"
  shows "pool_rep N t fs' (qs[i := q]) (bss[i := bs])"
    and "pool_chars t (qs[i := q]) (bss[i := bs]) = (pool_chars s qs bss)[i := cq_chars (cblocks t) q bs]"
proof -
  have len: "length bss = length qs" using pool i by (rule pool_rep_nth)
  obtain us vs where e: "concat bss = us @ bss ! i @ vs" "concat (bss[i := bs]) = us @ bs @ vs"
    using concat_nth_obtain [of i bss] i len by metis
  have "distinct (fs @ us @ bss ! i @ vs)" using pool by (simp add: pool_rep_def e)
  then have d: "distinct (us @ vs)" "set (us @ vs) \<inter> (set fs \<union> set (bss ! i)) = {}"
    by auto
  have "distinct (fs' @ us @ bs @ vs)" using d sets(2) unfolding sets(1) [symmetric] by auto
  then show "pool_rep N t fs' (qs[i := q]) (bss[i := bs])"
    using free q frame len by (auto simp: pool_rep_def e intro!: list_all2_upd)
  show "pool_chars t (qs[i := q]) (bss[i := bs]) = (pool_chars s qs bss)[i := cq_chars (cblocks t) q bs]"
    using i len frame by (auto simp: pool_chars_def intro!: nth_equalityI simp: nth_list_update)
qed

lemma pool_rep_same:
  assumes pool: "pool_rep N s fs qs bss" and i: "i < length qs" and q: "cq_rep N (cblocks s) q (bss ! i)"
  shows "pool_rep N s fs (qs[i := q]) bss"
    and "pool_chars s (qs[i := q]) bss = (pool_chars s qs bss)[i := cq_chars (cblocks s) q (bss ! i)]"
proof -
  have free: "linked (cblocks s) cl_fp (cltfree s) fs" "blocks_ok N (cblocks s) fs" "nclfree s = int (length fs)"
    using pool by (simp_all add: pool_rep_def)
  have d: "distinct (fs @ bss ! i)" using pool_rep_nth [OF pool i] by simp
  note st = pool_rep_step [OF pool i free q refl d]
  show "pool_rep N s fs (qs[i := q]) bss"
    using st(1) pool_rep_nth [OF pool] by simp
  show "pool_chars s (qs[i := q]) bss = (pool_chars s qs bss)[i := cq_chars (cblocks s) q (bss ! i)]"
    using st(2) pool_rep_nth [OF pool] by simp
qed

lemma pool_frame_upd:
  assumes "pool_rep N s fs qs bss" "i < length qs" "x \<in> set fs \<or> x \<in> set (bss ! i)"
  shows "j < length qs \<Longrightarrow> j \<noteq> i \<Longrightarrow> cq_rep N ((cblocks s)(x := v)) (qs ! j) (bss ! j) \<and>
        cq_chars ((cblocks s)(x := v)) (qs ! j) (bss ! j) = cq_chars (cblocks s) (qs ! j) (bss ! j)"
  using assms pool_disjoint [of N s fs qs bss i j x] by (auto simp: cq_rep_upd pool_rep_nth)

lemma cltgetq_pool:
  assumes pool: "pool_rep N s fs qs bss" and i: "i < length qs" and bs: "bss ! i = b # bs"
  shows "\<exists>q s' fs' bs'. cltgetq N (qs ! i) s = Some (uint (hd (pool_chars s qs bss ! i)), q, s') \<and>
    pool_rep N s' fs' (qs[i := q]) (bss[i := bs']) \<and>
    pool_chars s' (qs[i := q]) (bss[i := bs']) = (pool_chars s qs bss)[i := tl (pool_chars s qs bss ! i)] \<and>
    (s' = s \<and> fs' = fs \<and> bs' = b # bs \<or>
     fs' = b # fs \<and> bs' = bs \<and> \<not> cltwant s' \<and> cl_wakeups s' = cl_wakeups s + (if cltwant s then 1 else 0))"
proof -
  let ?q = "qs ! i" and ?h = "cblocks s"
  have rep: "cq_rep N ?h ?q (b # bs)" and len: "length bss = length qs"
    using pool_rep_nth [OF pool i] bs by auto
  then obtain n where n: "?h b = Some n" "length (cl_ch n) = N" and op: "cq_op ?q = Some b" and cc: "cq_cc ?q \<noteq> 0"
    by (auto simp: cq_rep_def)
  let ?p = "?q\<lparr>cq_cc := cq_cc ?q - 1, cq_ox := cq_ox ?q + 1\<rparr>"
  have ch: "pool_chars s qs bss ! i = cl_ch n ! cq_ox ?q # cq_chars ?h ?p (b # bs)"
    and ox: "cq_ox ?q < length (cl_ch n)"
    using cq_chars_get_stay [OF rep n(1)] i len bs by (simp_all add: pool_chars_def)
  show ?thesis
  proof (cases "cq_cc ?q = 1 \<or> cq_ox ?q + 1 = N")
    case False
    then have "cltgetq N ?q s = Some (uint (cl_ch n ! cq_ox ?q), ?p, s)"
      using cc op n ox by (simp add: cltgetq_def)
    moreover have up: "bss[i := b # bs] = bss" using list_update_id [of bss i] unfolding bs .
    have "cq_rep N ?h ?p (bss ! i)" unfolding bs using cq_rep_get_stay [OF rep] False by blast
    from pool_rep_same [OF pool i this]
    have "pool_rep N s fs (qs[i := ?p]) (bss[i := b # bs])"
      "pool_chars s (qs[i := ?p]) (bss[i := b # bs]) = (pool_chars s qs bss)[i := cq_chars ?h ?p (b # bs)]"
      unfolding up bs by simp_all
    ultimately show ?thesis using ch by (metis list.sel(1,3))
  next
    case True
    let ?r = "if bs = [] then ?q\<lparr>cq_cc := cq_cc ?q - 1, cq_ox := 0, cq_op := cl_fp n, cq_ip := None, cq_ix := 0\<rparr>
           else ?q\<lparr>cq_cc := cq_cc ?q - 1, cq_ox := 0, cq_op := cl_fp n\<rparr>"
    let ?h' = "?h(b \<mapsto> n\<lparr>cl_fp := cltfree s\<rparr>)"
    let ?t = "s\<lparr>cblocks := ?h', cltfree := Some b, nclfree := nclfree s + 1, cltwant := False,
       cl_wakeups := cl_wakeups s + (if cltwant s then 1 else 0)\<rparr>"
    note fr = cq_rep_get_free [OF rep n(1) True]
    have get: "cltgetq N ?q s = Some (uint (cl_ch n ! cq_ox ?q), ?r, ?t)"
      using cc op n ox True fr(1,2) by (auto simp: cltgetq_def Let_def)
    have bnot: "b \<notin> set fs" "b \<notin> set bs" using pool_rep_nth [OF pool i] bs by auto
    have "cq_rep N ?h' ?r bs" using fr(3) bnot by (simp add: cq_rep_upd)
    moreover have "cq_chars ?h' ?r bs = cq_chars ?h ?p (b # bs)"
      using cq_chars_get_free [OF rep n(1) True, of ?r] bnot by simp
    moreover have "linked ?h' cl_fp (Some b) (b # fs)" "blocks_ok N ?h' (b # fs)" "nclfree ?t = int (length (b # fs))"
      using pool bnot n by (auto simp: pool_rep_def intro!: blocks_ok_upd)
    moreover have "set (b # fs) \<union> set bs = set fs \<union> set (bss ! i)" "distinct ((b # fs) @ bs)"
      using pool_rep_nth [OF pool i] bs bnot by auto
    ultimately have "pool_rep N ?t (b # fs) (qs[i := ?r]) (bss[i := bs]) \<and>
      pool_chars ?t (qs[i := ?r]) (bss[i := bs]) = (pool_chars s qs bss)[i := cq_chars ?h ?p (b # bs)]"
      using pool_rep_step [OF pool i, of ?t "b # fs" ?r bs] pool_frame_upd [OF pool i, of b] bs by simp
    with get ch show ?thesis
      by (intro exI [of _ ?r] exI [of _ ?t] exI [of _ "b # fs"] exI [of _ bs]) auto
  qed
qed

section \<open>Putting a character\<close>

lemma take_drop_store:
  "k = a + n \<Longrightarrow> k < length xs \<Longrightarrow> take (Suc n) (drop a (xs[k := w])) = take n (drop a xs) @ [w]"
  by (simp add: take_Suc_conv_app_nth drop_update_swap)

lemma chars_store:
  assumes "blocks_ok N h (as @ [x])" "x \<notin> set as" "h x = Some n"
  shows "chars (h(x \<mapsto> n\<lparr>cl_ch := (cl_ch n)[ix := w]\<rparr>)) (as @ [x]) = (chars h (as @ [x]))[N * length as + ix := w]"
  using assms length_chars [of N h as] by (simp add: chars_Cons list_update_append)

text \<open>Storing behind the last character, in a last block with room.\<close>

lemma cq_rep_store:
  fixes w :: "8 word"
  assumes rep: "linked h cl_fp (cq_op q) (as @ [x])" "blocks_ok N h (as @ [x])" "distinct (as @ [x])"
      "cq_ip q = Some x" "cq_ox q < N" "ix < N"
      "N * length as + ix = cq_ox q + cq_cc q"
    and n: "h x = Some n" and ix: "ix = cq_ix q"
  defines "h' \<equiv> h(x \<mapsto> n\<lparr>cl_ch := (cl_ch n)[ix := w]\<rparr>)"
    and "q' \<equiv> q\<lparr>cq_ix := (if ix + 1 = N then 0 else ix + 1), cq_cc := cq_cc q + 1\<rparr>"
  shows "cq_rep N h' q' (as @ [x])"
    and "cq_chars h' q' (as @ [x]) = cq_chars h q (as @ [x]) @ [w]"
proof -
  have len: "length (cl_ch n) = N" using rep n by simp
  have "linked h' cl_fp (cq_op q) (as @ [x])"
    using rep n by (auto simp: h'_def chain_append)
  moreover have "blocks_ok N h' (as @ [x])"
    using rep n len unfolding h'_def by (intro blocks_ok_upd) auto
  ultimately show "cq_rep N h' q' (as @ [x])"
    using rep by (auto simp: cq_rep_def q'_def)
  have "chars h' (as @ [x]) = (chars h (as @ [x]))[cq_ox q + cq_cc q := w]"
    unfolding h'_def using chars_store [OF rep(2) _ n] rep by simp
  moreover have "cq_ox q + cq_cc q < length (chars h (as @ [x]))"
    using rep length_chars [OF rep(2)] by (simp del: chars_append)
  ultimately show "cq_chars h' q' (as @ [x]) = cq_chars h q (as @ [x]) @ [w]"
    by (simp add: cq_chars_def q'_def take_drop_store)
qed

text \<open>Room in the last block.\<close>

lemma cltputq_room:
  assumes pool: "pool_rep N s fs qs bss" and i: "i < length qs" and ix: "cq_ix (qs ! i) \<noteq> 0"
  shows "\<exists>q s'. cltputq N (qs ! i) c s = Some (c, q, s') \<and> pool_rep N s' fs (qs[i := q]) bss \<and>
    pool_chars s' (qs[i := q]) bss = (pool_chars s qs bss)[i := pool_chars s qs bss ! i @ [word_of_int c]]"
proof -
  let ?q = "qs ! i" and ?h = "cblocks s" and ?bs = "bss ! i"
  have rep: "cq_rep N ?h ?q ?bs" and len: "length bss = length qs" and d: "distinct ?bs"
    using pool_rep_nth [OF pool i] by auto
  then obtain as x where bs: "?bs = as @ [x]" using ix by (cases "?bs" rule: rev_cases) (auto simp: cq_rep_empty)
  then obtain n where n: "?h x = Some n" "length (cl_ch n) = N" and ip: "cq_ip ?q = Some x" and ixN: "cq_ix ?q < N"
    using rep by (auto simp: cq_rep_def)
  let ?h' = "?h(x \<mapsto> n\<lparr>cl_ch := (cl_ch n)[cq_ix ?q := word_of_int c]\<rparr>)"
  let ?r = "?q\<lparr>cq_ix := (if cq_ix ?q + 1 = N then 0 else cq_ix ?q + 1), cq_cc := cq_cc ?q + 1\<rparr>"
  have put: "cltputq N ?q c s = Some (c, ?r, s\<lparr>cblocks := ?h'\<rparr>)"
    using ix ip n ixN by (simp add: cltputq_def)
  have "N * length as + cq_ix ?q = cq_ox ?q + cq_cc ?q"
    using rep bs ix ixN by (auto simp: cq_rep_def)
  then have r: "cq_rep N ?h' ?r ?bs" "cq_chars ?h' ?r ?bs = cq_chars ?h ?q ?bs @ [word_of_int c]"
    using cq_rep_store [of ?h ?q as x N "cq_ix ?q" n "word_of_int c"] rep d n ip ixN bs
    by (auto simp: cq_rep_def)
  have x: "x \<in> set ?bs" "x \<notin> set fs" using bs pool_rep_nth [OF pool i] by auto
  have free: "linked (cblocks (s\<lparr>cblocks := ?h'\<rparr>)) cl_fp (cltfree (s\<lparr>cblocks := ?h'\<rparr>)) fs"
    "blocks_ok N (cblocks (s\<lparr>cblocks := ?h'\<rparr>)) fs" "nclfree (s\<lparr>cblocks := ?h'\<rparr>) = int (length fs)"
    using pool x n by (auto simp: pool_rep_def intro: blocks_ok_upd)
  have d': "distinct (fs @ ?bs)" using pool_rep_nth [OF pool i] by simp
  note st = pool_rep_step [OF pool i free _ refl d', of ?r]
  have "pool_rep N (s\<lparr>cblocks := ?h'\<rparr>) fs (qs[i := ?r]) bss \<and>
     pool_chars (s\<lparr>cblocks := ?h'\<rparr>) (qs[i := ?r]) bss = (pool_chars s qs bss)[i := cq_chars ?h' ?r ?bs]"
    using st r(1) pool_frame_upd [OF pool i, of x] x by simp
  then show ?thesis using put r(2) i len by (auto simp: pool_chars_def)
qed

text \<open>A new block \<open>f\<close> hung behind the blocks of a queue whose last block is full.\<close>

definition hang :: "clist store \<Rightarrow> addr list \<Rightarrow> addr \<Rightarrow> clist store option" where
  "hang h bs f = do {
     h \<leftarrow> modify h (Some f) (cl_fp_update (\<lambda>_. None));
     if bs = [] then Some h else modify h (Some (last bs)) (cl_fp_update (\<lambda>_. Some f))
   }"

lemma hang_works:
  assumes l: "linked h cl_fp p bs" and ok: "blocks_ok N h (bs @ [f])" and f: "f \<notin> set bs"
  shows "\<exists>h2 n2. hang h bs f = Some h2 \<and> linked h2 cl_fp (if bs = [] then Some f else p) (bs @ [f]) \<and>
    blocks_ok N h2 (bs @ [f]) \<and> h2 f = Some n2 \<and> (\<forall>cs. chars h2 cs = chars h cs) \<and>
    (\<forall>a. a \<notin> set (bs @ [f]) \<longrightarrow> h2 a = h a)"
proof -
  obtain n where n: "h f = Some n" "length (cl_ch n) = N" using ok by auto
  let ?h1 = "h(f \<mapsto> n\<lparr>cl_fp := None\<rparr>)"
  have ok1: "blocks_ok N ?h1 (bs @ [f])" using ok n by (intro blocks_ok_upd) auto
  show ?thesis
  proof (cases bs rule: rev_cases)
    case Nil
    then show ?thesis using n ok1 by (simp add: hang_def)
  next
    case (snoc as x)
    then obtain m where m: "h x = Some m" "length (cl_ch m) = N" using ok by auto
    have xf: "x \<noteq> f" using f snoc by auto
    let ?h2 = "?h1(x \<mapsto> m\<lparr>cl_fp := Some f\<rparr>)"
    have l1: "chain ?h1 cl_fp p (as @ [x]) None" using l f snoc by simp
    have "x \<notin> set as" using linked_distinct [OF l] snoc by simp
    then have "chain ?h2 cl_fp p (as @ [x]) (Some f)"
      using chain_snoc_upd [OF l1] m xf by auto
    then have "linked ?h2 cl_fp p ((as @ [x]) @ [f])"
      unfolding chain_append using xf by auto
    moreover have "blocks_ok N ?h2 (bs @ [f])" using blocks_ok_upd [OF _ ok1] m by simp
    moreover have "hang h bs f = Some ?h2" using snoc n m xf by (simp add: hang_def)
    moreover have "chars ?h2 cs = chars h cs" for cs using n m xf by simp
    ultimately show ?thesis using snoc xf by (intro exI [of _ ?h2]) auto
  qed
qed

lemma cltputq_hang:
  assumes "cq_ix q = 0" "cltfree s = Some f" "cblocks s f = Some nf"
    "cq_ip q = (if bs = [] then None else Some (last bs))"
    "hang (cblocks s) bs f = Some h2" "h2 f = Some n" "cl_ch n \<noteq> []"
  shows "cltputq N q c s = Some (c,
    (if bs = [] then q\<lparr>cq_op := Some f\<rparr> else q)\<lparr>cq_ip := Some f, cq_ix := (if 1 = N then 0 else 1), cq_cc := cq_cc q + 1\<rparr>,
    s\<lparr>cltfree := cl_fp nf, cblocks := h2(f \<mapsto> n\<lparr>cl_ch := (cl_ch n)[0 := word_of_int c]\<rparr>), nclfree := nclfree s - 1\<rparr>)"
proof (cases "bs = []")
  case True
  then show ?thesis using assms by (auto simp: cltputq_def hang_def Let_def)
next
  case False
  then obtain m where "((cblocks s)(f \<mapsto> nf\<lparr>cl_fp := None\<rparr>)) (last bs) = Some m"
    "h2 = (cblocks s)(f \<mapsto> nf\<lparr>cl_fp := None\<rparr>, last bs \<mapsto> m\<lparr>cl_fp := Some f\<rparr>)"
    using assms by (auto simp: hang_def modify_eq_Some simp del: fun_upd_apply)
  then show ?thesis using assms False by (simp add: cltputq_def Let_def del: fun_upd_apply)
qed

text \<open>A block is taken from the free list.\<close>

lemma cltputq_new:
  assumes pool: "pool_rep N s (f # fs) qs bss" and i: "i < length qs" and ix: "cq_ix (qs ! i) = 0"
  shows "\<exists>q s'. cltputq N (qs ! i) c s = Some (c, q, s') \<and> pool_rep N s' fs (qs[i := q]) (bss[i := bss ! i @ [f]]) \<and>
    pool_chars s' (qs[i := q]) (bss[i := bss ! i @ [f]]) =
      (pool_chars s qs bss)[i := pool_chars s qs bss ! i @ [word_of_int c]]"
proof -
  let ?q = "qs ! i" and ?h = "cblocks s" and ?bs = "bss ! i"
  have rep: "cq_rep N ?h ?q ?bs" and len: "length bss = length qs" and d: "distinct ?bs" "distinct (f # fs)"
    and f: "f \<notin> set ?bs" "set fs \<inter> set ?bs = {}"
    using pool_rep_nth [OF pool i] by auto
  have free: "linked ?h cl_fp (cltfree s) (f # fs)" "blocks_ok N ?h (f # fs)" "nclfree s = int (length (f # fs))"
    using pool by (simp_all add: pool_rep_def)
  then obtain nf where nf: "?h f = Some nf" "cltfree s = Some f" "linked ?h cl_fp (cl_fp nf) fs" by auto
  have "linked ?h cl_fp (cq_op ?q) ?bs" "blocks_ok N ?h (?bs @ [f])" using rep free by (simp_all add: cq_rep_def)
  from hang_works [OF this f(1)] obtain h2 n where h2: "hang ?h ?bs f = Some h2"
    "linked h2 cl_fp (if ?bs = [] then Some f else cq_op ?q) (?bs @ [f])" "blocks_ok N h2 (?bs @ [f])"
    "h2 f = Some n" and ch: "\<And>cs. chars h2 cs = chars ?h cs" and same: "\<And>a. a \<notin> set (?bs @ [f]) \<Longrightarrow> h2 a = ?h a"
    by auto
  have nN: "length (cl_ch n) = N" and N: "0 < N" using h2 rep by (auto simp: cq_rep_def)
  let ?q1 = "(if ?bs = [] then ?q\<lparr>cq_op := Some f\<rparr> else ?q)\<lparr>cq_ip := Some f\<rparr>"
  let ?h' = "h2(f \<mapsto> n\<lparr>cl_ch := (cl_ch n)[0 := word_of_int c]\<rparr>)"
  let ?r = "?q1\<lparr>cq_ix := (if 0 + 1 = N then 0 else 0 + 1), cq_cc := cq_cc ?q1 + 1\<rparr>"
  let ?t = "s\<lparr>cltfree := cl_fp nf, cblocks := ?h', nclfree := nclfree s - 1\<rparr>"
  have ip: "cq_ip ?q = (if ?bs = [] then None else Some (last ?bs))" using rep by (simp add: cq_rep_def)
  have put: "cltputq N ?q c s = Some (c, ?r, ?t)"
    using cltputq_hang [OF ix nf(2,1) ip h2(1,4)] nN N by fastforce
  have sum: "N * length ?bs + 0 = cq_ox ?q1 + cq_cc ?q1" using rep ix by (simp add: cq_rep_def)
  have "cq_rep N ?h' ?r (?bs @ [f])" "cq_chars ?h' ?r (?bs @ [f]) = cq_chars h2 ?q1 (?bs @ [f]) @ [word_of_int c]"
    using cq_rep_store [of h2 ?q1 ?bs f N 0 n "word_of_int c"] h2 d f sum ix N rep
    by (auto simp: cq_rep_def split: if_splits)
  moreover have "cq_chars h2 ?q1 (?bs @ [f]) = cq_chars ?h ?q ?bs"
    using length_chars [of N ?h ?bs] rep sum by (simp add: cq_chars_def ch cq_rep_def)
  ultimately have r: "cq_rep N ?h' ?r (?bs @ [f])"
    "cq_chars ?h' ?r (?bs @ [f]) = cq_chars ?h ?q ?bs @ [word_of_int c]" by simp_all
  have same': "?h' a = ?h a" if "a \<notin> set (?bs @ [f])" for a using same that by auto
  have frame: "cq_rep N ?h' (qs ! j) (bss ! j) \<and> cq_chars ?h' (qs ! j) (bss ! j) = cq_chars ?h (qs ! j) (bss ! j)"
    if j: "j < length qs" "j \<noteq> i" for j
  proof -
    have "?h' a = ?h a" if "a \<in> set (bss ! j)" for a
      using same' pool_disjoint [OF pool i j(1), of a] that j(2) by auto
    moreover have "cq_rep N ?h (qs ! j) (bss ! j)" using pool_rep_nth [OF pool j(1)] by simp
    ultimately show ?thesis by (rule cq_rep_cong)
  qed
  have same_fs: "?h' a = ?h a" if "a \<in> set fs" for a using same' d f that by auto
  have free': "linked (cblocks ?t) cl_fp (cltfree ?t) fs" "blocks_ok N (cblocks ?t) fs" "nclfree ?t = int (length fs)"
    using nf free same_fs chain_cong [of fs cl_fp ?h' ?h] by (auto simp: blocks_ok_def simp del: fun_upd_apply)
  have sets: "set fs \<union> set (?bs @ [f]) = set (f # fs) \<union> set ?bs" "distinct (fs @ ?bs @ [f])" using d f by auto
  note st = pool_rep_step [OF pool i free' _ sets, of ?r]
  have "pool_rep N ?t fs (qs[i := ?r]) (bss[i := ?bs @ [f]])"
    "pool_chars ?t (qs[i := ?r]) (bss[i := ?bs @ [f]]) = (pool_chars s qs bss)[i := cq_chars ?h' ?r (?bs @ [f])]"
    using st r(1) frame by simp_all
  then show ?thesis using put r(2) i len by (auto simp: pool_chars_def)
qed

section \<open>Empty queues, clearing and initialising\<close>

lemma cltgetq_empty: "cq_rep N h q bs \<Longrightarrow> cq_chars h q bs = [] \<Longrightarrow> cltgetq N q s = Some (- 1, q, s)"
  using length_cq_chars [of N h q bs] by (auto simp: cltgetq_def)

lemma cltputq_full: "cq_ix q = 0 \<Longrightarrow> cltfree s = None \<Longrightarrow> cltputq N q c s = Some (- 1, q, s)"
  by (simp add: cltputq_def)

lemma pool_chars_nth:
  "pool_rep N s fs qs bss \<Longrightarrow> i < length qs \<Longrightarrow> pool_chars s qs bss ! i = cq_chars (cblocks s) (qs ! i) (bss ! i)"
  by (simp add: pool_chars_def pool_rep_nth)

lemma pool_chars_Nil_iff:
  "pool_rep N s fs qs bss \<Longrightarrow> i < length qs \<Longrightarrow> pool_chars s qs bss ! i = [] \<longleftrightarrow> bss ! i = []"
  using cq_rep_cc_0 [of N "cblocks s" "qs ! i" "bss ! i"] length_cq_chars [of N "cblocks s" "qs ! i" "bss ! i"]
  by (auto simp: pool_chars_nth pool_rep_nth)

text \<open>\<open>clrq\<close> returns: every call of \<open>cltgetq\<close> shortens the queue. All its blocks go to the free list.\<close>

lemma clrq_pool:
  "pool_rep N s fs qs bss \<Longrightarrow> i < length qs \<Longrightarrow>
   \<exists>q s' fs'. clrq N (qs ! i) s = Some (q, s') \<and> pool_rep N s' fs' (qs[i := q]) (bss[i := []]) \<and>
     pool_chars s' (qs[i := q]) (bss[i := []]) = (pool_chars s qs bss)[i := []] \<and>
     set fs' = set fs \<union> set (bss ! i)"
proof (induction "length (pool_chars s qs bss ! i)" arbitrary: s fs qs bss)
  case 0
  then have nil: "bss ! i = []" and e: "pool_chars s qs bss ! i = []" using pool_chars_Nil_iff by auto
  then have "cltgetq N (qs ! i) s = Some (- 1, qs ! i, s)"
    using cltgetq_empty [OF pool_rep_nth(1) [OF 0(2,3)]] 0 by (simp add: pool_chars_nth)
  then have "clrq N (qs ! i) s = Some (qs ! i, s)" by (simp add: clrq.simps)
  moreover have "bss[i := []] = bss" "(pool_chars s qs bss)[i := []] = pool_chars s qs bss"
    using nil e by (metis list_update_id)+
  ultimately show ?case using 0 nil by auto
next
  case (Suc k)
  then have "bss ! i \<noteq> []" using pool_chars_Nil_iff [of N s fs qs bss i] by auto
  then obtain b bs where bs: "bss ! i = b # bs" by (cases "bss ! i") auto
  obtain q s1 fs1 bs1 where st: "cltgetq N (qs ! i) s = Some (uint (hd (pool_chars s qs bss ! i)), q, s1)"
    "pool_rep N s1 fs1 (qs[i := q]) (bss[i := bs1])"
    "pool_chars s1 (qs[i := q]) (bss[i := bs1]) = (pool_chars s qs bss)[i := tl (pool_chars s qs bss ! i)]"
    and sets: "set fs1 \<union> set bs1 = set fs \<union> set (bss ! i)"
    using cltgetq_pool [OF Suc.prems bs] bs by fastforce
  have len: "length bss = length qs" "i < length (pool_chars s qs bss)"
    using pool_rep_nth(2) [OF Suc.prems] Suc.prems by (auto simp: pool_chars_def)
  have "k = length (pool_chars s1 (qs[i := q]) (bss[i := bs1]) ! i)"
    using Suc.hyps(2) st(3) len by simp
  from Suc.hyps(1) [OF this st(2)] obtain r s' fs' where
    "clrq N q s1 = Some (r, s')" "pool_rep N s' fs' (qs[i := r]) (bss[i := []])"
    "pool_chars s' (qs[i := r]) (bss[i := []]) = (pool_chars s qs bss)[i := []]" "set fs' = set fs \<union> set (bss ! i)"
    using Suc.prems len st(3) sets by auto
  moreover have "clrq N (qs ! i) s = clrq N q s1" using st(1) by (simp add: clrq.simps [of N "qs ! i" s])
  ultimately show ?case by auto
qed

lemma cltinit_loop_links:
  assumes "\<And>k. k < n \<Longrightarrow> \<exists>b. h (base + k) = Some b \<and> length (cl_ch b) = N"
    and "linked h cl_fp lm xs" "blocks_ok N h xs" "set xs \<inter> {base..<base + n} = {}"
  shows "\<exists>h' p. cltinit_loop base n h lm = Some (h', p) \<and> linked h' cl_fp p ([base..<base + n] @ xs) \<and>
    blocks_ok N h' ([base..<base + n] @ xs)"
  using assms
proof (induction n arbitrary: h lm xs)
  case 0
  then show ?case by simp
next
  case (Suc n)
  from Suc.prems(1) [of n] obtain b where b: "h (base + n) = Some b" "length (cl_ch b) = N" by auto
  let ?h = "h(base + n \<mapsto> b\<lparr>cl_fp := lm\<rparr>)"
  have "\<exists>h' p. cltinit_loop base n ?h (Some (base + n)) = Some (h', p) \<and>
      linked h' cl_fp p ([base..<base + n] @ (base + n) # xs) \<and> blocks_ok N h' ([base..<base + n] @ (base + n) # xs)"
  proof (rule Suc.IH)
    show "\<exists>b. ?h (base + k) = Some b \<and> length (cl_ch b) = N" if "k < n" for k
      using Suc.prems(1) [of k] that by auto
    have "base + n \<notin> set xs" using Suc.prems(4) by auto
    then show "linked ?h cl_fp (Some (base + n)) ((base + n) # xs)" using Suc.prems(2) by simp
    show "blocks_ok N ?h ((base + n) # xs)" using Suc.prems(3) b blocks_ok_upd [OF _ Suc.prems(3)] by simp
    show "set ((base + n) # xs) \<inter> {base..<base + n} = {}" using Suc.prems(4) by auto
  qed
  then show ?case using b by simp
qed

lemma cltinit_pool:
  assumes "\<And>k. k < NCLIST \<Longrightarrow> \<exists>b. cblocks s (base + k) = Some b \<and> length (cl_ch b) = N" "0 < N"
  shows "\<exists>t. cltinit base NCLIST s = Some t \<and>
    pool_rep N t [base..<base + NCLIST] (replicate k empty_cq) (replicate k []) \<and> nclfree t = int NCLIST"
proof -
  obtain h p where "cltinit_loop base NCLIST (cblocks s) None = Some (h, p)"
    "linked h cl_fp p [base..<base + NCLIST]" "blocks_ok N h [base..<base + NCLIST]"
    using cltinit_loop_links [of NCLIST "cblocks s" base N None "[]"] assms(1) by auto
  then show ?thesis
    using assms(2) by (auto simp: cltinit_def pool_rep_def list_all2_conv_all_nth cq_rep_empty empty_cq_def)
qed

section \<open>The queues keep the first-in-first-out contract\<close>

text \<open>One queue of the pool, by its index, together with the pool around it.\<close>

definition cq_holds :: "nat \<Rightarrow> nat \<Rightarrow> cqueue list \<times> clists \<Rightarrow> 8 word list \<Rightarrow> bool" where
  "cq_holds N i st cs \<longleftrightarrow> (\<exists>fs bss. pool_rep N (snd st) fs (fst st) bss \<and> i < length (fst st) \<and>
     pool_chars (snd st) (fst st) bss ! i = cs)"

definition cq_admits :: "nat \<Rightarrow> cqueue list \<times> clists \<Rightarrow> 8 word \<Rightarrow> bool" where
  "cq_admits i st w \<longleftrightarrow> cq_ix (fst st ! i) \<noteq> 0 \<or> cltfree (snd st) \<noteq> None"

definition cq_put :: "nat \<Rightarrow> nat \<Rightarrow> cqueue list \<times> clists \<Rightarrow> 8 word \<Rightarrow> cqueue list \<times> clists" where
  "cq_put N i st w = (case cltputq N (fst st ! i) (uint w) (snd st) of None \<Rightarrow> st
     | Some (_, q, s) \<Rightarrow> ((fst st)[i := q], s))"

definition cq_get :: "nat \<Rightarrow> nat \<Rightarrow> cqueue list \<times> clists \<Rightarrow> (8 word \<times> cqueue list \<times> clists) option" where
  "cq_get N i st = (case cltgetq N (fst st ! i) (snd st) of None \<Rightarrow> None
     | Some (c, q, s) \<Rightarrow> if c < 0 then None else Some (word_of_int c, (fst st)[i := q], s))"

lemma cltputq_pool:
  assumes pool: "pool_rep N s fs qs bss" and i: "i < length qs" and ok: "cq_ix (qs ! i) \<noteq> 0 \<or> cltfree s \<noteq> None"
  shows "\<exists>q s' fs' bs. cltputq N (qs ! i) c s = Some (c, q, s') \<and> pool_rep N s' fs' (qs[i := q]) (bss[i := bs]) \<and>
    pool_chars s' (qs[i := q]) (bss[i := bs]) = (pool_chars s qs bss)[i := pool_chars s qs bss ! i @ [word_of_int c]] \<and>
    fs = (if cq_ix (qs ! i) = 0 then last bs # fs' else fs')"
proof (cases "cq_ix (qs ! i) = 0")
  case True
  with ok pool obtain f fs' where fs: "fs = f # fs'" by (cases fs) (auto simp: pool_rep_def)
  from cltputq_new [OF pool [unfolded fs] i True, of c] True fs show ?thesis by fastforce
next
  case False
  from cltputq_room [OF pool i False, of c] obtain q s' where
    "cltputq N (qs ! i) c s = Some (c, q, s')" "pool_rep N s' fs (qs[i := q]) (bss[i := bss ! i])"
    "pool_chars s' (qs[i := q]) (bss[i := bss ! i]) =
      (pool_chars s qs bss)[i := pool_chars s qs bss ! i @ [word_of_int c]]"
    by auto
  with False show ?thesis
    by (intro exI [of _ q] exI [of _ s'] exI [of _ fs] exI [of _ "bss ! i"]) auto
qed

interpretation cq: fifo "cq_holds N i" "cq_admits i" "cq_put N i" "cq_get N i" for N i
proof unfold_locales
  fix st :: "cqueue list \<times> clists" and cs w
  assume "cq_holds N i st cs" and ok: "cq_admits i st w"
  then obtain fs bss where *: "pool_rep N (snd st) fs (fst st) bss" "i < length (fst st)"
    "pool_chars (snd st) (fst st) bss ! i = cs" by (auto simp: cq_holds_def)
  from cltputq_pool [OF *(1,2), of "uint w"] ok obtain q s' fs' bs where
    "cltputq N (fst st ! i) (uint w) (snd st) = Some (uint w, q, s')"
    "pool_rep N s' fs' ((fst st)[i := q]) (bss[i := bs])"
    "pool_chars s' ((fst st)[i := q]) (bss[i := bs]) = (pool_chars (snd st) (fst st) bss)[i := cs @ [w]]"
    by (auto simp: cq_admits_def *(3))
  moreover have "i < length (pool_chars (snd st) (fst st) bss)"
    using * pool_rep_nth(2) [OF *(1,2)] by (simp add: pool_chars_def)
  ultimately show "cq_holds N i (cq_put N i st w) (cs @ [w])"
    using *(2) unfolding cq_holds_def cq_put_def by (intro exI [of _ fs'] exI [of _ "bss[i := bs]"]) simp
next
  fix st :: "cqueue list \<times> clists" and c cs
  assume "cq_holds N i st (c # cs)"
  then obtain fs bss where *: "pool_rep N (snd st) fs (fst st) bss" "i < length (fst st)"
    "pool_chars (snd st) (fst st) bss ! i = c # cs" by (auto simp: cq_holds_def)
  then have "bss ! i \<noteq> []" using pool_chars_Nil_iff [OF *(1,2)] by auto
  then obtain b bs where "bss ! i = b # bs" by (cases "bss ! i") auto
  from cltgetq_pool [OF *(1,2) this] obtain q s' fs' bs' where
    "cltgetq N (fst st ! i) (snd st) = Some (uint c, q, s')"
    "pool_rep N s' fs' ((fst st)[i := q]) (bss[i := bs'])"
    "pool_chars s' ((fst st)[i := q]) (bss[i := bs']) = (pool_chars (snd st) (fst st) bss)[i := cs]"
    unfolding *(3) by auto
  moreover have "i < length (pool_chars (snd st) (fst st) bss)"
    using * pool_rep_nth(2) [OF *(1,2)] by (simp add: pool_chars_def)
  ultimately show "\<exists>t. cq_get N i st = Some (c, t) \<and> cq_holds N i t cs"
    using *(2) unfolding cq_holds_def cq_get_def
    by (intro exI [of _ "((fst st)[i := q], s')"] conjI exI [of _ fs'] exI [of _ "bss[i := bs']"]) auto
next
  fix st :: "cqueue list \<times> clists"
  assume "cq_holds N i st []"
  then obtain fs bss where *: "pool_rep N (snd st) fs (fst st) bss" "i < length (fst st)"
    "pool_chars (snd st) (fst st) bss ! i = []" by (auto simp: cq_holds_def)
  then show "cq_get N i st = None"
    using cltgetq_empty [OF pool_rep_nth(1) [OF *(1,2)]] by (simp add: cq_get_def pool_chars_nth)
qed

section \<open>Properties\<close>

text \<open>\<open>cltputq\<close> on queue \<open>i\<close> of a well-formed pool either appends its character to that queue alone,
  taking the first free block exactly when the last block is full, and returns it; or, when
  that block is missing, returns -1 and changes nothing.\<close>

theorem cltputq_appends:
  assumes "pool_rep N s fs qs bss" "i < length qs"
  shows "if cq_ix (qs ! i) = 0 \<and> fs = [] then cltputq N (qs ! i) c s = Some (- 1, qs ! i, s)
    else \<exists>q s' fs' bs. cltputq N (qs ! i) c s = Some (c, q, s') \<and> pool_rep N s' fs' (qs[i := q]) (bss[i := bs]) \<and>
      pool_chars s' (qs[i := q]) (bss[i := bs]) =
        (pool_chars s qs bss)[i := pool_chars s qs bss ! i @ [word_of_int c]] \<and>
      fs = (if cq_ix (qs ! i) = 0 then last bs # fs' else fs')"
proof -
  have "cltfree s = None \<longleftrightarrow> fs = []"
    using assms(1) by (cases fs) (auto simp: pool_rep_def)
  then show ?thesis using cltputq_pool [OF assms, of c] cltputq_full [of "qs ! i" s N c] by auto
qed

definition example_clists :: clists where
  "example_clists = \<lparr>cblocks = (\<lambda>_. None)(5 \<mapsto> \<lparr>cl_fp = Some 6, cl_ch = [0, 0]\<rparr>,
      6 \<mapsto> \<lparr>cl_fp = None, cl_ch = [1, 1]\<rparr>, 7 \<mapsto> \<lparr>cl_fp = None, cl_ch = [65, 66]\<rparr>),
     cltfree = Some 5, nclfree = 2, cltwant = True, cl_wakeups = 0\<rparr>"

definition example_cq :: "nat \<Rightarrow> cqueue" where
  "example_cq k = \<lparr>cq_cc = k, cq_ip = Some 7, cq_ix = k mod 2, cq_op = Some 7, cq_ox = 0\<rparr>"

lemma example_pool: "k = 1 \<or> k = 2 \<Longrightarrow> pool_rep 2 example_clists [5, 6] [example_cq k] [[7]]"
  by (auto simp: pool_rep_def cq_rep_def example_clists_def example_cq_def)

lemma example_pool_chars: "pool_chars example_clists [example_cq k] [[7]] = [take k [65, 66]]"
  by (simp add: pool_chars_def cq_chars_def chars_def example_clists_def example_cq_def)

theorem cltputq_appends_witness:
  "\<exists>q s' fs' bs. cltputq 2 (example_cq 2) 67 example_clists = Some (67, q, s') \<and> pool_rep 2 s' fs' [q] [bs] \<and>
     pool_chars s' [q] [bs] = [[65, 66, 67]] \<and> [5, 6] = last bs # fs'"
proof -
  note w = cltputq_appends [OF example_pool [of 2], of 0 67]
  show ?thesis using w by (simp add: example_pool_chars) (simp add: example_cq_def)
qed

text \<open>\<open>cltgetq\<close> on queue \<open>i\<close> of a well-formed pool returns -1 from an empty queue and changes nothing;
  otherwise it returns the first character of that queue and removes it there and nowhere
  else. A block it empties goes to the head of the free list, and a process that waits for
  blocks is then woken once.\<close>

theorem cltgetq_takes_first:
  assumes "pool_rep N s fs qs bss" "i < length qs"
  shows "case pool_chars s qs bss ! i of [] \<Rightarrow> cltgetq N (qs ! i) s = Some (- 1, qs ! i, s)
    | c # cs \<Rightarrow> \<exists>q s' fs' bs. cltgetq N (qs ! i) s = Some (uint c, q, s') \<and> pool_rep N s' fs' (qs[i := q]) (bss[i := bs]) \<and>
        pool_chars s' (qs[i := q]) (bss[i := bs]) = (pool_chars s qs bss)[i := cs] \<and>
        (s' = s \<and> fs' = fs \<or> (\<exists>b. fs' = b # fs \<and> bss ! i = b # bs \<and> \<not> cltwant s' \<and>
           cl_wakeups s' = cl_wakeups s + (if cltwant s then 1 else 0)))"
proof (cases "pool_chars s qs bss ! i")
  case Nil
  then show ?thesis using cltgetq_empty [OF pool_rep_nth(1) [OF assms]] by (simp add: pool_chars_nth [OF assms])
next
  case (Cons c cs)
  then obtain b bs where bs: "bss ! i = b # bs" using pool_chars_Nil_iff [OF assms] by (cases "bss ! i") auto
  from cltgetq_pool [OF assms bs] Cons bs show ?thesis by fastforce
qed

theorem cltgetq_takes_first_witness:
  "\<exists>q s' fs' bs. cltgetq 2 (example_cq 1) example_clists = Some (65, q, s') \<and> pool_rep 2 s' fs' [q] [bs] \<and>
     pool_chars s' [q] [bs] = [[]]"
  using cltgetq_takes_first [OF example_pool [of 1], of 0] by (auto simp: example_pool_chars)

text \<open>\<open>clrq\<close> returns. It leaves the queue empty and the other queues as they were, and every block
  of the queue is on the free list afterwards, none lost and none twice: \<open>nclfree\<close> grows by
  exactly their number.\<close>

theorem clrq_frees_all:
  assumes "pool_rep N s fs qs bss" "i < length qs"
  shows "\<exists>q s' fs'. clrq N (qs ! i) s = Some (q, s') \<and> pool_rep N s' fs' (qs[i := q]) (bss[i := []]) \<and>
    pool_chars s' (qs[i := q]) (bss[i := []]) = (pool_chars s qs bss)[i := []] \<and>
    set fs' = set fs \<union> set (bss ! i) \<and> nclfree s' = nclfree s + int (length (bss ! i))"
proof -
  obtain q s' fs' where *: "clrq N (qs ! i) s = Some (q, s')" "pool_rep N s' fs' (qs[i := q]) (bss[i := []])"
    "pool_chars s' (qs[i := q]) (bss[i := []]) = (pool_chars s qs bss)[i := []]" "set fs' = set fs \<union> set (bss ! i)"
    using clrq_pool [OF assms] by blast
  have "length fs' = card (set fs \<union> set (bss ! i))"
    using *(2,4) distinct_card [of fs'] by (simp add: pool_rep_def)
  also have "\<dots> = length (fs @ bss ! i)"
    using pool_rep_nth(3-5) [OF assms] distinct_card [of "fs @ bss ! i"] by simp
  finally have "nclfree s' = nclfree s + int (length (bss ! i))"
    using *(2) assms(1) by (simp add: pool_rep_def)
  with * show ?thesis by blast
qed

theorem clrq_frees_all_witness:
  "\<exists>q s' fs'. clrq 2 (example_cq 2) example_clists = Some (q, s') \<and> pool_rep 2 s' fs' [q] [[]] \<and>
     set fs' = {5, 6, 7} \<and> nclfree s' = 3"
proof -
  obtain q s' fs' where "clrq 2 (example_cq 2) example_clists = Some (q, s')" "pool_rep 2 s' fs' [q] [[]]"
    "set fs' = {5, 6} \<union> {7}" "nclfree s' = nclfree example_clists + 1"
    using clrq_frees_all [OF example_pool [of 2], of 0] by auto
  then show ?thesis by (auto simp: example_clists_def)
qed

text \<open>Characters come out of a terminal queue in the order they went in: behind the characters
  \<open>cs\<close> of queue \<open>i\<close>, put any \<open>ds\<close> for which blocks last; as many gets return \<open>cs @ ds\<close> and the
  next one finds the queue empty.\<close>

theorem clist_fifo:
  assumes "cq_holds N i st cs" "admitted (cq_admits i) (cq_put N i) ds st"
  shows "\<exists>u. gets (cq_get N i) (length (cs @ ds)) (foldl (cq_put N i) st ds) = (cs @ ds, u) \<and>
    cq_holds N i u [] \<and> cq_get N i u = None"
  using cq.fifo_order [OF assms] .

theorem clist_fifo_witness:
  "\<exists>u. gets (cq_get 2 0) 3 (cq_put 2 0 ([example_cq 2], example_clists) 67) = ([65, 66, 67], u) \<and>
     cq_holds 2 0 u [] \<and> cq_get 2 0 u = None"
proof -
  have "cq_holds 2 0 ([example_cq 2], example_clists) [65, 66]"
    unfolding cq_holds_def using example_pool [of 2] example_pool_chars [of 2]
    by (intro exI [of _ "[5, 6]"] exI [of _ "[[7]]"]) simp
  moreover have "admitted (cq_admits 0) (cq_put 2 0) [67] ([example_cq 2], example_clists)"
    by (simp add: cq_admits_def example_clists_def)
  ultimately show ?thesis 
    using clist_fifo [of 2 0 "([example_cq 2], example_clists)" "[65, 66]" "[67]"]
    by (simp add: numeral_3_eq_3 del: gets.simps)
qed

end
