(* ===== verification/DmaLock.thy ===== *)
theory DmaLock
  imports Prelude
begin

text \<open>
  Serialising the DMA controller, \<open>i386/dmalock.c\<close>: the request at the head of a list holds the
  controller, the others wait for their deferred function to be called. The call of a
  deferred function is the last thing \<open>dmaunlock\<close> does; the model returns it as a value.
\<close>

section \<open>State\<close>

record tim =
  t_next :: ptr
  t_func :: nat
  t_farg :: int

record dma =
  DMALCK :: int
  dmahead :: ptr
  dmatail :: ptr
  dtims :: "tim store"

datatype dma_call = Call nat int addr

section \<open>Operations\<close>

definition dmalock :: "addr \<Rightarrow> nat \<Rightarrow> int \<Rightarrow> dma \<Rightarrow> (int \<times> dma) option" where
  "dmalock dfp fn arg s =
     (if DMALCK s = 0 then Some (0, s) else do {
        h \<leftarrow> modify (dtims s) (Some dfp) (\<lambda>t. t\<lparr>t_func := fn, t_farg := arg, t_next := None\<rparr>);
        let s = s\<lparr>dtims := h\<rparr>;
        (if dmahead s = None then Some (0, s\<lparr>dmahead := Some dfp, dmatail := Some dfp\<rparr>)
         else if dmahead s = Some dfp then Some (0, s)
         else do {
           h \<leftarrow> modify (dtims s) (dmatail s) (t_next_update (\<lambda>_. Some dfp));
           Some (- 1, s\<lparr>dtims := h, dmatail := Some dfp\<rparr>)
         })
      })"

text \<open>The search of \<open>dmaunlock\<close> for a request that waits behind \<open>qp\<close>.\<close>

partial_function (option) dma_remove :: "addr \<Rightarrow> ptr \<Rightarrow> dma \<Rightarrow> dma option" where
  "dma_remove dfp qp s =
     (if qp = dmatail s then Some s else do {
        q \<leftarrow> deref (dtims s) qp;
        if t_next q = Some dfp then do {
          d \<leftarrow> deref (dtims s) (Some dfp);
          h \<leftarrow> modify (dtims s) qp (t_next_update (\<lambda>_. t_next d));
          Some (s\<lparr>dtims := h, dmatail := (if dmatail s = Some dfp then qp else dmatail s)\<rparr>)
        } else dma_remove dfp (t_next q) s
      })"

definition dmaunlock :: "addr \<Rightarrow> dma \<Rightarrow> (dma_call option \<times> dma) option" where
  "dmaunlock dfp s =
     (if dmahead s = None then Some (None, s)
      else if dmahead s \<noteq> Some dfp then do { s' \<leftarrow> dma_remove dfp (dmahead s) s; Some (None, s') }
      else if dmahead s = dmatail s then Some (None, s\<lparr>dmahead := None\<rparr>)
      else do {
        t \<leftarrow> deref (dtims s) (dmahead s);
        let s = s\<lparr>dmahead := t_next t\<rparr>;
        n \<leftarrow> deref (dtims s) (dmahead s);
        a \<leftarrow> dmahead s;
        Some (Some (Call (t_func n) (t_farg n) a), s)
      })"

section \<open>Representation: the holder followed by those that wait\<close>

definition dma_rep :: "dma \<Rightarrow> addr list \<Rightarrow> bool" where
  "dma_rep s xs \<longleftrightarrow> DMALCK s \<noteq> 0 \<and> linked (dtims s) t_next (dmahead s) xs \<and>
     (xs \<noteq> [] \<longrightarrow> dmatail s = Some (last xs))"

definition dma_req :: "dma \<Rightarrow> addr \<Rightarrow> nat \<times> int" where
  "dma_req s x = (case dtims s x of Some t \<Rightarrow> (t_func t, t_farg t) | None \<Rightarrow> (0, 0))"

lemma dma_head: "dma_rep s xs \<Longrightarrow> dmahead s = (case xs of [] \<Rightarrow> None | x # _ \<Rightarrow> Some x)"
  by (cases xs) (auto simp: dma_rep_def)

lemma dmalock_rep:
  assumes rep: "dma_rep s xs" and x: "x \<notin> set xs" and hx: "dtims s x = Some t"
  shows "\<exists>s'. dmalock x fn arg s = Some (if xs = [] then 0 else - 1, s') \<and> dma_rep s' (xs @ [x]) \<and>
    dma_req s' x = (fn, arg) \<and> (\<forall>y. y \<noteq> x \<longrightarrow> dma_req s' y = dma_req s y)"
proof -
  let ?h = "(dtims s)(x \<mapsto> t\<lparr>t_func := fn, t_farg := arg, t_next := None\<rparr>)"
  have l: "linked ?h t_next (dmahead s) xs" using rep x by (simp add: dma_rep_def)
  show ?thesis
  proof (cases xs rule: rev_cases)
    case Nil
    then show ?thesis using rep hx by (auto simp: dmalock_def dma_rep_def dma_req_def)
  next
    case (snoc ys z)
    have ne: "x \<noteq> z" "dmahead s \<noteq> Some x" "dmahead s \<noteq> None"
      using rep x snoc by (cases ys; auto simp: dma_rep_def)+
    obtain u where u: "dtims s z = Some u" using l snoc ne by (auto simp: chain_append)
    let ?h' = "?h(z \<mapsto> u\<lparr>t_next := Some x\<rparr>)"
    have "z \<notin> set ys" using linked_distinct [OF l] snoc by simp
    then have "chain ?h' t_next (dmahead s) (ys @ [z]) (Some x)"
      using chain_snoc_upd [of ?h t_next "dmahead s" ys z None u "u\<lparr>t_next := Some x\<rparr>"] l snoc u ne by simp
    then have "linked ?h' t_next (dmahead s) (xs @ [x])" using ne snoc by (auto simp: chain_append)
    moreover have "dmalock x fn arg s = Some (- 1, s\<lparr>dtims := ?h', dmatail := Some x\<rparr>)"
      using rep snoc hx u ne by (auto simp: dmalock_def dma_rep_def Let_def)
    ultimately show ?thesis using rep snoc u ne by (auto simp: dma_rep_def dma_req_def)
  qed
qed

lemma dma_remove_chain:
  assumes "chain (dtims s) t_next qp (us @ [p]) (Some x)" "linked (dtims s) t_next (Some x) (x # vs)"
    "distinct (us @ p # x # vs)" "dmatail s = Some (last (x # vs))"
  shows "\<exists>s'. dma_remove x qp s = Some s' \<and> dmahead s' = dmahead s \<and> DMALCK s' = DMALCK s \<and>
    dmatail s' = Some (last (p # vs)) \<and> (\<forall>y. dma_req s' y = dma_req s y) \<and>
    linked (dtims s') t_next qp (us @ p # vs) \<and> (\<forall>y. y \<noteq> p \<longrightarrow> dtims s' y = dtims s y)"
  using assms
proof (induction us arbitrary: qp)
  case Nil
  then obtain n d where n: "dtims s p = Some n" "t_next n = Some x" and d: "dtims s x = Some d"
    "linked (dtims s) t_next (t_next d) vs" and qp: "qp = Some p" by auto
  let ?s = "s\<lparr>dtims := (dtims s)(p \<mapsto> n\<lparr>t_next := t_next d\<rparr>),
     dmatail := (if dmatail s = Some x then qp else dmatail s)\<rparr>"
  have "p \<noteq> last (x # vs)" using Nil.prems(3) by (auto split: if_splits)
  then have "dma_remove x qp s = Some ?s"
    using n d qp Nil.prems(4) by (simp add: dma_remove.simps)
  moreover have "(last (x # vs) = x) = (vs = [])" using Nil.prems(3) by (auto simp: last_in_set)
  ultimately show ?case using n d qp Nil.prems by (auto simp: dma_req_def)
next
  case (Cons u us)
  then obtain m where m: "qp = Some u" "dtims s u = Some m"
    "chain (dtims s) t_next (t_next m) (us @ [p]) (Some x)" by auto
  from Cons.IH [OF this(3)] Cons.prems obtain s' where s': "dma_remove x (t_next m) s = Some s'"
    "dmahead s' = dmahead s" "DMALCK s' = DMALCK s"
    "dmatail s' = Some (last (p # vs))" "\<forall>y. dma_req s' y = dma_req s y"
    "linked (dtims s') t_next (t_next m) (us @ p # vs)" "\<forall>y. y \<noteq> p \<longrightarrow> dtims s' y = dtims s y"
    by auto
  have "t_next m \<noteq> Some x" using m(3) Cons.prems(3) by (cases us) auto
  moreover have "u \<noteq> last (x # vs)" using Cons.prems(3) last_in_set [of "x # vs"] by auto
  ultimately have "dma_remove x qp s = Some s'"
    using m s' Cons.prems(4) by (subst dma_remove.simps) simp
  then show ?case using s' m Cons.prems(3) by (intro exI [of _ s']) auto
qed

lemma dma_remove_absent:
  "linked (dtims s) t_next qp xs \<Longrightarrow> xs \<noteq> [] \<Longrightarrow> x \<notin> set xs \<Longrightarrow> dmatail s = Some (last xs) \<Longrightarrow>
   dma_remove x qp s = Some s"
proof (induction xs arbitrary: qp)
  case Nil
  then show ?case by simp
next
  case (Cons y ys)
  then obtain n where n: "qp = Some y" "dtims s y = Some n" "linked (dtims s) t_next (t_next n) ys" by auto
  show ?case
  proof (cases "ys = []")
    case True
    then show ?thesis using n Cons.prems by (simp add: dma_remove.simps)
  next
    case False
    then have "y \<noteq> last ys" using linked_distinct [OF Cons.prems(1)] by (auto simp: last_in_set)
    moreover have "t_next n \<noteq> Some x" using n(3) Cons.prems by (cases ys) auto
    ultimately show ?thesis
      using n Cons.IH [OF n(3)] Cons.prems False by (subst dma_remove.simps) simp
  qed
qed

lemma dmaunlock_waiter:
  assumes rep: "dma_rep s (us @ p # x # vs)"
  shows "\<exists>s'. dmaunlock x s = Some (None, s') \<and> dma_rep s' (us @ p # vs) \<and> (\<forall>y. dma_req s' y = dma_req s y)"
proof -
  have l: "linked (dtims s) t_next (dmahead s) (us @ p # x # vs)" "dmatail s = Some (last (x # vs))"
    using rep by (auto simp: dma_rep_def)
  then have "chain (dtims s) t_next (dmahead s) (us @ [p]) (Some x)" "linked (dtims s) t_next (Some x) (x # vs)"
    using chain_append [of "dtims s" t_next "dmahead s" "us @ [p]" "x # vs"] by auto
  moreover have "distinct (us @ p # x # vs)" using linked_distinct [OF l(1)] .
  ultimately obtain s' where s': "dma_remove x (dmahead s) s = Some s'" "dmahead s' = dmahead s" "DMALCK s' = DMALCK s"
    "dmatail s' = Some (last (p # vs))" "\<forall>y. dma_req s' y = dma_req s y"
    "linked (dtims s') t_next (dmahead s) (us @ p # vs)"
    using dma_remove_chain [of s "dmahead s" us p x vs] l(2) by blast
  have "dmahead s \<noteq> None" "dmahead s \<noteq> Some x"
    using l(1) linked_distinct [OF l(1)] by (cases us; auto)+
  then have "dmaunlock x s = Some (None, s')" using s' by (auto simp: dmaunlock_def)
  moreover have "dma_rep s' (us @ p # vs)" using s' rep by (auto simp: dma_rep_def)
  ultimately show ?thesis using s' by blast
qed

lemma dmaunlock_holder:
  assumes rep: "dma_rep s (x # xs)"
  shows "\<exists>s'. dmaunlock x s =
      Some (case xs of [] \<Rightarrow> None | y # _ \<Rightarrow> Some (Call (fst (dma_req s y)) (snd (dma_req s y)) y), s') \<and>
    dma_rep s' xs \<and> (\<forall>y. dma_req s' y = dma_req s y)"
proof (cases xs)
  case Nil
  then show ?thesis using rep by (auto simp: dmaunlock_def dma_rep_def dma_req_def)
next
  case (Cons y ys)
  obtain t n where t: "dmahead s = Some x" "dtims s x = Some t" "t_next t = Some y" "dtims s y = Some n"
    "linked (dtims s) t_next (Some y) (y # ys)" "dmatail s = Some (last (y # ys))"
    using rep Cons by (auto simp: dma_rep_def)
  have "linked (dtims s) t_next (dmahead s) (x # xs)" using rep by (simp add: dma_rep_def)
  then have "distinct (x # xs)" by (rule linked_distinct)
  then have "x \<noteq> last (y # ys)" using Cons last_in_set [of "y # ys"] by auto
  then have "dmaunlock x s = Some (Some (Call (t_func n) (t_farg n) y), s\<lparr>dmahead := Some y\<rparr>)"
    using t by (simp add: dmaunlock_def)
  then show ?thesis using Cons t rep by (auto simp: dma_rep_def dma_req_def)
qed

section \<open>Properties\<close>

text \<open>\<open>dmalock\<close> by a request that is not on the list puts it behind the others, remembers the
  function and argument it was given, disturbs no other request, and grants the controller
  (returns 0, else -1) exactly when nobody holds it.\<close>

theorem dmalock_grants_iff_free:
  assumes "dma_rep s xs" "x \<notin> set xs" "dtims s x \<noteq> None"
  shows "\<exists>s'. dmalock x fn arg s = Some (if xs = [] then 0 else - 1, s') \<and> dma_rep s' (xs @ [x]) \<and>
    dma_req s' x = (fn, arg) \<and> (\<forall>y. y \<noteq> x \<longrightarrow> dma_req s' y = dma_req s y)"
  using assms dmalock_rep by blast

definition example_dma :: dma where
  "example_dma = \<lparr>DMALCK = 1, dmahead = Some 1, dmatail = Some 2,
     dtims = (\<lambda>_. None)(1 \<mapsto> \<lparr>t_next = Some 2, t_func = 70, t_farg = 7\<rparr>, 2 \<mapsto> \<lparr>t_next = None, t_func = 80, t_farg = 8\<rparr>,
       3 \<mapsto> \<lparr>t_next = Some 9, t_func = 0, t_farg = 0\<rparr>)\<rparr>"

lemma example_dma_rep: "dma_rep example_dma [1, 2]"
  by (simp add: dma_rep_def example_dma_def)

theorem dmalock_grants_iff_free_witness:
  "\<exists>s'. dmalock 3 90 9 example_dma = Some (- 1, s') \<and> dma_rep s' [1, 2, 3] \<and> dma_req s' 3 = (90, 9)"
proof -
  have "dtims example_dma 3 \<noteq> None" by (simp add: example_dma_def)
  from dmalock_grants_iff_free [OF example_dma_rep _ this, of 90 9] show ?thesis by force
qed

text \<open>\<open>dmaunlock\<close> by the holder passes the controller to the request that has waited longest, by
  calling the function that request was queued with, and to nobody if none waits; by a waiting
  request it takes that request off the list and calls nothing; by any other request it
  changes nothing. The requests that stay keep their order and their functions.\<close>

theorem dmaunlock_passes_on:
  assumes "dma_rep s xs"
  shows "\<exists>s'. dmaunlock x s = Some
      (case xs of h # y # _ \<Rightarrow> if x = h then Some (Call (fst (dma_req s y)) (snd (dma_req s y)) y) else None | _ \<Rightarrow> None, s') \<and>
    dma_rep s' (remove1 x xs) \<and> (\<forall>y. dma_req s' y = dma_req s y)"
proof (cases "x \<in> set xs")
  case False
  then have "dmaunlock x s = Some (None, s)"
    using assms dma_remove_absent [of s "dmahead s" xs x] dma_head [OF assms]
    by (auto simp: dmaunlock_def dma_rep_def split: list.splits)
  then show ?thesis using assms False by (auto simp: remove1_idem split: list.split)
next
  case True
  then obtain us vs where xs: "xs = us @ x # vs" "x \<notin> set us" by (meson split_list_first)
  show ?thesis
  proof (cases us rule: rev_cases)
    case Nil
    then show ?thesis using dmaunlock_holder [of s x vs] assms xs by (auto split: list.splits)
  next
    case (snoc ws p)
    have "\<exists>h y zs. xs = h # y # zs \<and> x \<noteq> h" using xs snoc by (cases ws; cases "tl ws") auto
    moreover have "remove1 x xs = ws @ p # vs" using xs snoc by (simp add: remove1_append)
    ultimately show ?thesis using dmaunlock_waiter [of s ws p x vs] assms xs snoc by auto
  qed
qed

theorem dmaunlock_passes_on_witness:
  "\<exists>s'. dmaunlock 1 example_dma = Some (Some (Call 80 8 2), s') \<and> dma_rep s' [2]"
  using dmaunlock_passes_on [OF example_dma_rep, of 1] by (auto simp: dma_req_def example_dma_def)

text \<open>The holder that locks again while others wait loses them: \<open>dmalock\<close> clears its link before the
  check for a double lock, so the list from the head no longer reaches the requests behind it,
  and the holder's \<open>dmaunlock\<close> then follows a NULL pointer.\<close>

theorem dmalock_twice_loses_waiters:
  assumes "dma_rep s (x # y # ys)"
  shows "\<exists>s'. dmalock x fn arg s = Some (0, s') \<and> linked (dtims s') t_next (dmahead s') [x] \<and>
    dmatail s' = Some (last (y # ys)) \<and> dmaunlock x s' = None"
proof -
  obtain t where t: "dmahead s = Some x" "dtims s x = Some t" "DMALCK s \<noteq> 0" "dmatail s = Some (last (y # ys))"
    using assms by (auto simp: dma_rep_def)
  have "linked (dtims s) t_next (dmahead s) (x # y # ys)" using assms by (simp add: dma_rep_def)
  then have "distinct (x # y # ys)" by (rule linked_distinct)
  then have "x \<noteq> last (y # ys)" using last_in_set [of "y # ys"] by auto
  then show ?thesis using t by (auto simp: dmalock_def dmaunlock_def)
qed

theorem dmalock_twice_loses_waiters_witness:
  "\<exists>s'. dmalock 1 70 7 example_dma = Some (0, s') \<and> dmaunlock 1 s' = None"
  using dmalock_twice_loses_waiters [OF example_dma_rep, of 70 7] by blast

end
