(* ===== verification/Defer.thy ===== *)
theory Defer
  imports Prelude
begin

text \<open>
  Deferred functions, \<open>i386/defer.c\<close>: a ring of \<open>DEFLIM\<close> calls that interrupt handlers fill with
  \<open>defer\<close> and that \<open>defend\<close> runs, oldest first, at base level. A deferred function may itself
  defer; what it does is the parameter \<open>run\<close>, a transformer of the ring.
\<close>

section \<open>State\<close>

abbreviation DEFLIM :: nat where "DEFLIM \<equiv> 128"

record ring =
  defunc :: "nat list"
  defarg :: "int list"
  deftag :: "int list"
  defqix :: nat
  defqox :: nat
  defcnt :: nat
  foo :: int

text \<open>
  On overflow the call is dropped and, the first time, the console shows the dropped call and
  the tail of the ring; the model returns the lines printed.
\<close>

datatype defer_line = Overflow int nat int | Entry int nat int nat

section \<open>Operations\<close>

function defer_trace :: "ring \<Rightarrow> nat \<Rightarrow> defer_line list" where
  "defer_trace s tmpqox =
     (let tmpqox = (tmpqox + 1) mod DEFLIM;
          e = Entry (deftag s ! tmpqox) (defunc s ! tmpqox) (defarg s ! tmpqox) tmpqox
      in if tmpqox \<noteq> defqox s \<and> defqox s < DEFLIM then e # defer_trace s tmpqox else [e])"
  by auto

termination defer_trace
proof (relation "measure (\<lambda>(s, t). if t mod DEFLIM < defqox s then defqox s - 1 - t mod DEFLIM
    else defqox s + 127 - t mod DEFLIM)", goal_cases)
  case 1
  then show ?case by simp
next
  case (2 s t x e)
  then have x: "x = (t + 1) mod 128" "x \<noteq> defqox s" "defqox s < 128" by auto
  define u where "u = t mod 128"
  have u: "u < 128" "x = (if u = 127 then 0 else u + 1)"
    using x(1) unfolding u_def by (simp_all add: mod_Suc)
  have m: "x mod 128 = x" using x(1) by simp
  show ?case using x(2,3) u unfolding u_def [symmetric]
    by (auto simp: u_def [symmetric] m split: if_splits)
qed

declare defer_trace.simps [simp del]

definition defer0 :: "nat \<Rightarrow> int \<Rightarrow> int \<Rightarrow> ring \<Rightarrow> defer_line list \<times> ring" where
  "defer0 f a t s =
     (if defcnt s < DEFLIM then
        let ix = defqix s;
            s = s\<lparr>defunc := (defunc s)[ix := f], defarg := (defarg s)[ix := a], deftag := (deftag s)[ix := t]\<rparr>;
            s = s\<lparr>defqix := (if ix + 1 \<ge> DEFLIM then 0 else ix + 1)\<rparr>
        in ([], s\<lparr>defcnt := defcnt s + 1\<rparr>)
      else
        let s' = s\<lparr>foo := foo s + 1\<rparr>
        in if foo s = 0 then (Overflow t f a # defer_trace s (defqox s + DEFLIM - 16), s') else ([], s'))"

definition defer_call :: "nat \<Rightarrow> int \<Rightarrow> ring \<Rightarrow> defer_line list \<times> ring" where
  "defer_call f a s = defer0 f a 0 s"

text \<open>One turn of the loop of \<open>defend\<close>, and the loop.\<close>

definition defend_step :: "(nat \<Rightarrow> int \<Rightarrow> ring \<Rightarrow> ring) \<Rightarrow> ring \<Rightarrow> (nat \<times> int) \<times> ring" where
  "defend_step run s =
     (let f = defunc s ! defqox s; a = defarg s ! defqox s;
          s = run f a s;
          s = s\<lparr>defqox := (if defqox s + 1 \<ge> DEFLIM then 0 else defqox s + 1)\<rparr>
      in ((f, a), s\<lparr>defcnt := defcnt s - 1\<rparr>))"

partial_function (option) defend :: "(nat \<Rightarrow> int \<Rightarrow> ring \<Rightarrow> ring) \<Rightarrow> ring \<Rightarrow> ((nat \<times> int) list \<times> ring) option" where
  "defend run s =
     (if defcnt s = 0 then Some ([], s) else do {
        let (c, s) = defend_step run s;
        (cs, s) \<leftarrow> defend run s;
        Some (c # cs, s)
      })"

definition defer_init :: ring where
  "defer_init = \<lparr>defunc = replicate DEFLIM 0, defarg = replicate DEFLIM 0, deftag = replicate DEFLIM 0,
     defqix = 0, defqox = 0, defcnt = 0, foo = 0\<rparr>"

section \<open>The ring as a queue\<close>

definition ring_rep :: "ring \<Rightarrow> (nat \<times> int) list \<Rightarrow> bool" where
  "ring_rep s xs \<longleftrightarrow> length (defunc s) = DEFLIM \<and> length (defarg s) = DEFLIM \<and> length (deftag s) = DEFLIM \<and>
     defqox s < DEFLIM \<and> defcnt s \<le> DEFLIM \<and> defqix s = (defqox s + defcnt s) mod DEFLIM \<and>
     length xs = defcnt s \<and>
     (\<forall>i < defcnt s. xs ! i = (defunc s ! ((defqox s + i) mod DEFLIM), defarg s ! ((defqox s + i) mod DEFLIM)))"

lemma defer_init_rep: "ring_rep defer_init []"
  by (simp add: ring_rep_def defer_init_def)

lemma ring_slot_ne:
  assumes "i < n" "n < DEFLIM"
  shows "(q + i) mod DEFLIM \<noteq> (q + n) mod DEFLIM"
proof
  assume "(q + i) mod DEFLIM = (q + n) mod DEFLIM"
  then have "DEFLIM dvd (q + n) - (q + i)" using assms by (metis add_le_cancel_left less_imp_le mod_eq_dvd_iff_nat)
  then show False using assms by (auto dest: dvd_imp_le)
qed

lemma wrap_mod: "q < DEFLIM \<Longrightarrow> (if q + 1 \<ge> DEFLIM then 0 else q + 1) = (q + 1) mod DEFLIM"
  by (auto simp: mod_Suc)

lemma defer_call_room:
  assumes "ring_rep s xs" "defcnt s < DEFLIM"
  shows "fst (defer_call f a s) = []" "ring_rep (snd (defer_call f a s)) (xs @ [(f, a)])"
    "foo (snd (defer_call f a s)) = foo s"
proof -
  let ?s = "snd (defer_call f a s)"
  have ix: "defqix s < DEFLIM" "defqix s = (defqox s + defcnt s) mod DEFLIM" using assms by (auto simp: ring_rep_def)
  have s: "defunc ?s = (defunc s)[defqix s := f]" "defarg ?s = (defarg s)[defqix s := a]" "length (deftag ?s) = length (deftag s)"
    "defqox ?s = defqox s" "defcnt ?s = defcnt s + 1" "defqix ?s = (defqix s + 1) mod DEFLIM"
    using assms wrap_mod [OF ix(1)] by (auto simp: defer_call_def defer0_def Let_def)
  have "(xs @ [(f, a)]) ! i = (defunc ?s ! ((defqox s + i) mod DEFLIM), defarg ?s ! ((defqox s + i) mod DEFLIM))"
    if "i < defcnt s + 1" for i
  proof (cases "i = defcnt s")
    case True
    then show ?thesis using assms ix s by (auto simp: ring_rep_def nth_append)
  next
    case False
    then show ?thesis using assms ix s that ring_slot_ne [of i "defcnt s" "defqox s"]
      by (auto simp: ring_rep_def nth_append)
  qed
  moreover have "defqix ?s = (defqox s + defcnt ?s) mod DEFLIM" using s ix by (simp add: mod_simps)
  ultimately show "ring_rep ?s (xs @ [(f, a)])" using assms s by (auto simp: ring_rep_def)
  show "fst (defer_call f a s) = []" "foo (snd (defer_call f a s)) = foo s"
    using assms by (auto simp: defer_call_def defer0_def Let_def)
qed

lemma defer_call_full:
  assumes "ring_rep s xs" "\<not> defcnt s < DEFLIM"
  shows "ring_rep (snd (defer_call f a s)) xs" "foo (snd (defer_call f a s)) = foo s + 1"
    "fst (defer_call f a s) = [] \<longleftrightarrow> foo s \<noteq> 0"
  using assms by (auto simp: defer_call_def defer0_def ring_rep_def Let_def)

lemma defer_call_rep: "ring_rep s xs \<Longrightarrow> ring_rep (snd (defer_call f a s)) (take DEFLIM (xs @ [(f, a)]))"
  using defer_call_room [of s xs f a] defer_call_full [of s xs f a]
  by (cases "defcnt s < DEFLIM") (auto simp: ring_rep_def)

text \<open>The first time the ring overflows, the sixteen slots that end at the oldest call are shown.\<close>

lemma defer_trace_length:
  assumes "defqox s < DEFLIM" "k < DEFLIM"
  shows "length (defer_trace s (defqox s + DEFLIM - 1 - k)) = Suc k"
  using assms(2)
proof (induction k)
  case 0
  then show ?case using assms by (subst defer_trace.simps) (simp add: Let_def)
next
  case (Suc k)
  let ?t = "defqox s + DEFLIM - 1 - Suc k"
  have e': "?t + 1 = defqox s + (127 - k)" using Suc.prems by simp
  have "(?t + 1) mod DEFLIM \<noteq> defqox s"
    using Suc.prems assms ring_slot_ne [of 0 "127 - k" "defqox s", THEN not_sym] unfolding e' by simp
  moreover have "defer_trace s ((?t + 1) mod DEFLIM) = defer_trace s (?t + 1)"
    by (subst (1 2) defer_trace.simps) (simp add: mod_simps)
  moreover have "?t + 1 = defqox s + DEFLIM - 1 - k" using Suc.prems by simp
  ultimately show ?case using Suc.IH Suc.prems assms by (subst defer_trace.simps) (simp add: Let_def)
qed

lemma defend_step_rep:
  assumes "ring_rep s (c # xs)" "ring_rep (run (fst c) (snd c) s) (c # ys)"
    "defqox (run (fst c) (snd c) s) = defqox s"
  shows "fst (defend_step run s) = c" "ring_rep (snd (defend_step run s)) ys"
proof -
  have c: "c = (defunc s ! defqox s, defarg s ! defqox s)"
    using assms(1) by (force simp: ring_rep_def)
  let ?t = "run (fst c) (snd c) s"
  let ?s = "snd (defend_step run s)"
  have ox: "defqox ?t < DEFLIM" using assms(2) by (simp add: ring_rep_def)
  have s: "defunc ?s = defunc ?t" "defarg ?s = defarg ?t" "deftag ?s = deftag ?t" "defqix ?s = defqix ?t"
    "defqox ?s = (defqox ?t + 1) mod DEFLIM" "defcnt ?s = defcnt ?t - 1"
    using c wrap_mod [OF ox] by (auto simp: defend_step_def Let_def)
  have i: "ys ! i = (defunc ?t ! ((defqox ?t + 1 + i) mod DEFLIM), defarg ?t ! ((defqox ?t + 1 + i) mod DEFLIM))"
    if "Suc i < defcnt ?t" for i
    using assms(2) that by (auto simp: ring_rep_def dest: spec [of _ "Suc i"])
  have "defcnt ?t = Suc (length ys)" using assms(2) by (simp add: ring_rep_def)
  then show "ring_rep ?s ys" using assms(2) s i by (auto simp: ring_rep_def mod_simps)
  show "fst (defend_step run s) = c" using c by (simp add: defend_step_def Let_def)
qed

definition ring_get :: "ring \<Rightarrow> ((nat \<times> int) \<times> ring) option" where
  "ring_get s = (if defcnt s = 0 then None else Some (defend_step (\<lambda>_ _ s. s) s))"

interpretation dq: fifo ring_rep "\<lambda>s _. defcnt s < DEFLIM" "\<lambda>s c. snd (defer_call (fst c) (snd c) s)" ring_get
proof
  show "ring_rep (snd (defer_call (fst x) (snd x) s)) (xs @ [x])" if "ring_rep s xs" "defcnt s < DEFLIM" for s xs x
    using defer_call_room(2) [OF that, of "fst x" "snd x"] by simp
next
  fix s x xs assume r: "ring_rep s (x # xs)"
  have "ring_get s = Some (x, snd (defend_step (\<lambda>_ _ s. s) s))"
    using defend_step_rep(1) [of s x xs "\<lambda>_ _ s. s" xs] r
    by (simp add: ring_get_def prod_eq_iff) (simp add: ring_rep_def)
  then show "\<exists>t. ring_get s = Some (x, t) \<and> ring_rep t xs"
    using defend_step_rep(2) [of s x xs "\<lambda>_ _ s. s" xs] r by auto
next
  show "ring_get s = None" if "ring_rep s []" for s
    using that by (simp add: ring_get_def ring_rep_def)
qed

section \<open>Draining the ring\<close>

text \<open>
  \<open>defers spawn\<close> is a deferred function that defers the calls \<open>spawn f a\<close> in its turn.
  \<open>serve\<close> is what \<open>defend\<close> promises on such calls: it takes them in the order they were
  deferred, and a call that does not fit behind \<open>DEFLIM\<close> others is lost.
\<close>

definition defers :: "(nat \<Rightarrow> int \<Rightarrow> (nat \<times> int) list) \<Rightarrow> nat \<Rightarrow> int \<Rightarrow> ring \<Rightarrow> ring" where
  "defers spawn f a s = foldl (\<lambda>s c. snd (defer_call (fst c) (snd c) s)) s (spawn f a)"

partial_function (option) serve :: "(nat \<Rightarrow> int \<Rightarrow> (nat \<times> int) list) \<Rightarrow> (nat \<times> int) list \<Rightarrow> (nat \<times> int) list option" where
  "serve spawn xs = (case xs of [] \<Rightarrow> Some []
     | c # cs \<Rightarrow> do { r \<leftarrow> serve spawn (tl (take DEFLIM (xs @ spawn (fst c) (snd c)))); Some (c # r) })"

lemma defer_call_qox: "defqox (snd (defer_call f a s)) = defqox s"
  by (auto simp: defer_call_def defer0_def Let_def)

lemma take_take_append: "take n (take n (xs @ [y]) @ ys) = take n (xs @ y # ys)"
  by (induction xs arbitrary: n) (auto simp: take_Cons split: nat.split)

lemma foldl_defer:
  assumes "ring_rep s xs"
  defines "put \<equiv> \<lambda>s c. snd (defer_call (fst c) (snd c) s)"
  shows "ring_rep (foldl put s ys) (take DEFLIM (xs @ ys)) \<and> defqox (foldl put s ys) = defqox s"
  using assms(1)
proof (induction ys arbitrary: s xs)
  case Nil
  then show ?case by (simp add: ring_rep_def)
next
  case (Cons y ys)
  have "ring_rep (put s y) (take DEFLIM (xs @ [y]))"
    using defer_call_rep [OF Cons.prems, of "fst y" "snd y"] by (simp add: put_def)
  from Cons.IH [OF this] show ?case
    by (simp only: take_take_append foldl_Cons) (simp add: put_def defer_call_qox)
qed

lemma defend_step_defers:
  assumes "ring_rep s (c # cs)"
  shows "fst (defend_step (defers spawn) s) = c"
    "ring_rep (snd (defend_step (defers spawn) s)) (tl (take DEFLIM ((c # cs) @ spawn (fst c) (snd c))))"
proof -
  have d: "ring_rep (defers spawn (fst c) (snd c) s) (take DEFLIM ((c # cs) @ spawn (fst c) (snd c)))"
    "defqox (defers spawn (fst c) (snd c) s) = defqox s"
    using foldl_defer [OF assms] by (simp_all add: defers_def)
  have "take DEFLIM ((c # cs) @ spawn (fst c) (snd c)) = c # tl (take DEFLIM ((c # cs) @ spawn (fst c) (snd c)))"
    by simp
  then have e: "ring_rep (defers spawn (fst c) (snd c) s) (c # tl (take DEFLIM ((c # cs) @ spawn (fst c) (snd c))))"
    using d(1) by metis
  show "fst (defend_step (defers spawn) s) = c"
    "ring_rep (snd (defend_step (defers spawn) s)) (tl (take DEFLIM ((c # cs) @ spawn (fst c) (snd c))))"
    by (rule defend_step_rep [where run = "defers spawn", OF assms e d(2)])+
qed

lemma defend_serves:
  assumes "serve spawn xs = Some cs" "ring_rep s xs"
  shows "\<exists>t. defend (defers spawn) s = Some (cs, t) \<and> ring_rep t []"
  using assms
proof (induction arbitrary: s rule: serve.raw_induct [rotated, consumes 1])
  case (1 serve' spawn xs cs)
  show ?case
  proof (cases xs)
    case Nil
    then show ?thesis using 1 by (subst defend.simps) (auto simp: ring_rep_def)
  next
    case (Cons c ds)
    let ?xs = "tl (take DEFLIM (xs @ spawn (fst c) (snd c)))"
    obtain r where r: "serve' spawn ?xs = Some r" "cs = c # r"
      using 1(2) Cons by (auto split: bind_splits)
    let ?p = "defend_step (defers spawn) s"
    have p: "fst ?p = c" "ring_rep (snd ?p) ?xs" using defend_step_defers [of s c ds spawn] 1(3) Cons by simp_all
    from 1(1) [OF r(1) p(2)] obtain t where t: "defend (defers spawn) (snd ?p) = Some (r, t)" "ring_rep t []"
      by blast
    have "defcnt s \<noteq> 0" using 1(3) Cons by (auto simp: ring_rep_def)
    then have "defend (defers spawn) s = Some (cs, t)"
      using p t r by (subst defend.simps) (simp add: split_beta)
    then show ?thesis using t by blast
  qed
qed

lemma serve_idle: "(\<And>f a. spawn f a = []) \<Longrightarrow> length xs \<le> DEFLIM \<Longrightarrow> serve spawn xs = Some xs"
  by (induction xs) (simp_all add: serve.simps)

section \<open>Properties\<close>

text \<open>\<open>defer\<close> adds the call behind those already deferred, silently, while fewer than \<open>DEFLIM\<close> are
  pending; when the ring is full it drops the call, leaves the pending ones as they are, and
  only the first time reports it, with the last sixteen slots.\<close>

theorem defer_appends_or_drops:
  assumes "ring_rep s xs"
  shows "ring_rep (snd (defer_call f a s)) (if length xs < DEFLIM then xs @ [(f, a)] else xs) \<and>
    length (fst (defer_call f a s)) = (if length xs < DEFLIM \<or> foo s \<noteq> 0 then 0 else 17)"
proof -
  have cnt: "defcnt s = length xs" "defqox s < DEFLIM" using assms by (simp_all add: ring_rep_def)
  have "length (defer_trace s (defqox s + DEFLIM - 16)) = 16"
    using defer_trace_length [OF cnt(2), of 15] by simp
  then have "length (fst (defer_call f a s)) = 17" if "\<not> length xs < DEFLIM" "foo s = 0"
    using that cnt by (simp add: defer_call_def defer0_def Let_def)
  then show ?thesis using cnt defer_call_room [OF assms, of f a] defer_call_full [OF assms, of f a] by auto
qed

definition full_ring :: ring where
  "full_ring = defer_init\<lparr>defcnt := 128\<rparr>"

lemma full_ring_rep: "ring_rep full_ring (replicate 128 (0, 0))"
  by (simp add: ring_rep_def full_ring_def defer_init_def)

theorem defer_appends_or_drops_witness:
  "ring_rep (snd (defer_call 5 6 full_ring)) (replicate 128 (0, 0)) \<and> length (fst (defer_call 5 6 full_ring)) = 17"
  using defer_appends_or_drops [OF full_ring_rep, of 5 6] by (simp add: full_ring_def defer_init_def)

text \<open>C5: \<open>defend\<close> runs the pending calls in the order they were deferred, and after them those that they
  deferred meanwhile, until none is left: whenever the abstract server returns on the pending
  calls, \<open>defend\<close> returns, having made exactly the server's calls, with an empty ring.\<close>

theorem defend_refines_serve:
  assumes "serve spawn xs = Some cs" "ring_rep s xs"
  shows "\<exists>t. defend (defers spawn) s = Some (cs, t) \<and> ring_rep t []"
  using assms by (rule defend_serves)

definition spawn_one :: "nat \<Rightarrow> int \<Rightarrow> (nat \<times> int) list" where
  "spawn_one f a = (if f = 1 then [(3, 10), (4, 11)] else [])"

theorem defend_refines_serve_witness:
  "\<exists>t. defend (defers spawn_one) (snd (defer_call 2 8 (snd (defer_call 1 7 defer_init)))) =
    Some ([(1, 7), (2, 8), (3, 10), (4, 11)], t) \<and> ring_rep t []"
proof (rule defend_refines_serve)
  show "serve spawn_one [(1, 7), (2, 8)] = Some [(1, 7), (2, 8), (3, 10), (4, 11)]"
    by (simp add: serve.simps spawn_one_def)
  have "ring_rep (snd (defer_call 1 7 defer_init)) [(1, 7)]"
    using defer_call_rep [OF defer_init_rep, of 1 7] by simp
  from defer_call_rep [OF this, of 2 8]
  show "ring_rep (snd (defer_call 2 8 (snd (defer_call 1 7 defer_init)))) [(1, 7), (2, 8)]" by simp
qed

text \<open>When the pending calls defer nothing themselves, \<open>defend\<close> returns having run each of them once,
  in order: the calls deferred to an empty ring, up to \<open>DEFLIM\<close> of them, all get run.\<close>

theorem defend_runs_all:
  assumes "admitted (\<lambda>s _. defcnt s < DEFLIM) (\<lambda>s c. snd (defer_call (fst c) (snd c) s)) cs defer_init"
  shows "\<exists>t. defend (defers (\<lambda>_ _. [])) (foldl (\<lambda>s c. snd (defer_call (fst c) (snd c) s)) defer_init cs) = Some (cs, t) \<and>
    ring_rep t []"
proof -
  have r: "ring_rep (foldl (\<lambda>s c. snd (defer_call (fst c) (snd c) s)) defer_init cs) cs"
    using dq.rep_puts [OF defer_init_rep assms] by simp
  then have "length cs \<le> DEFLIM" by (simp add: ring_rep_def)
  then show ?thesis using defend_serves [OF serve_idle r] by simp
qed

theorem defend_runs_all_witness:
  "\<exists>t. defend (defers (\<lambda>_ _. [])) (snd (defer_call 2 8 (snd (defer_call 1 7 defer_init)))) = Some ([(1, 7), (2, 8)], t)"
  using defend_runs_all [of "[(1, 7), (2, 8)]"]
  by (auto simp: defer_init_def defer_call_def defer0_def Let_def)

end
