(* ===== verification/Timeout.thy ===== *)
theory Timeout
  imports Prelude "HOL-Library.Word"
begin

text \<open>
  Timers, \<open>coh.386/timeout.c\<close>, and the part of \<open>check_clock\<close> in \<open>coh.386/clock.c\<close> that expires
  them. A timer waits on one of 32 doubly linked lists, chosen by the low bits of the tick it is due
  at. \<open>t_last\<close> points at the word that points at the timer: a list head of \<open>timq\<close> or the \<open>t_next\<close>
  of the timer in front (the code stores a \<open>TIM *\<close> there, which is the same address, \<open>t_next\<close>
  being the first member). The tick counter is 32 bits wide and wraps.
\<close>

section \<open>State\<close>

datatype link = Bucket nat | Next addr

record timer =
  t_next :: ptr
  t_last :: "link option"
  t_lbolt :: "32 word"
  t_func :: "nat option"
  t_farg :: int

record clk =
  lbolt :: "32 word"
  broken_clocks :: nat
  timq :: "ptr list"
  timers :: "timer store"

text \<open>\<open>__ARRAY_LENGTH (timq)\<close>, and the index of the list a timer due at tick \<open>b\<close> is on.\<close>

abbreviation NTIMQ :: nat where "NTIMQ \<equiv> 32"

definition bucket :: "32 word \<Rightarrow> nat" where
  "bucket b = unat (b mod 32)"

section \<open>Operations\<close>

text \<open>\<open>* qp = p\<close>\<close>

definition set_link :: "link \<Rightarrow> ptr \<Rightarrow> clk \<Rightarrow> clk option" where
  "set_link qp p s = (case qp of
     Bucket i \<Rightarrow> if i < length (timq s) then Some (s\<lparr>timq := (timq s)[i := p]\<rparr>) else None
   | Next a \<Rightarrow> do { h \<leftarrow> modify (timers s) (Some a) (t_next_update (\<lambda>_. p)); Some (s\<lparr>timers := h\<rparr>) })"

text \<open>The timer comes off its list, first part of \<open>timeout\<close> and \<open>timeout2\<close>.\<close>

definition timer_off :: "addr \<Rightarrow> clk \<Rightarrow> clk option" where
  "timer_off tp s = do {
     t \<leftarrow> deref (timers s) (Some tp);
     (case t_last t of None \<Rightarrow> Some s | Some qp \<Rightarrow> do {
        h \<leftarrow> modify (timers s) (Some tp) (t_last_update (\<lambda>_. None));
        s \<leftarrow> set_link qp (t_next t) (s\<lparr>timers := h\<rparr>);
        if t_next t = None then Some s else do {
          t \<leftarrow> deref (timers s) (Some tp);
          h \<leftarrow> modify (timers s) (t_next t) (t_last_update (\<lambda>_. Some qp));
          Some (s\<lparr>timers := h\<rparr>)
        }
      })
   }"

text \<open>The timer goes to the head of list \<open>i\<close>, last part of \<open>timeout\<close> and \<open>timeout2\<close>.\<close>

definition timer_on :: "addr \<Rightarrow> nat \<Rightarrow> clk \<Rightarrow> clk option" where
  "timer_on tp i s = (if i \<ge> length (timq s) then None else do {
     h \<leftarrow> modify (timers s) (Some tp) (t_next_update (\<lambda>_. timq s ! i));
     h \<leftarrow> (if timq s ! i = None then Some h else modify h (timq s ! i) (t_last_update (\<lambda>_. Some (Next tp))));
     h \<leftarrow> modify h (Some tp) (t_last_update (\<lambda>_. Some (Bucket i)));
     Some (s\<lparr>timers := h, timq := (timq s)[i := Some tp]\<rparr>)
   })"

definition timeout :: "addr \<Rightarrow> 32 word \<Rightarrow> nat option \<Rightarrow> int \<Rightarrow> clk \<Rightarrow> clk option" where
  "timeout tp n f a s = do {
     s \<leftarrow> timer_off tp s;
     h \<leftarrow> modify (timers s) (Some tp) (t_func_update (\<lambda>_. f));
     let s = s\<lparr>timers := h\<rparr>;
     (if f = None then Some s else do {
        h \<leftarrow> modify (timers s) (Some tp) (\<lambda>t. t\<lparr>t_lbolt := lbolt s + n, t_farg := a\<rparr>);
        timer_on tp (bucket (lbolt s + n)) (s\<lparr>timers := h\<rparr>)
      })
   }"

definition timeout2 :: "addr \<Rightarrow> 32 word \<Rightarrow> nat option \<Rightarrow> int \<Rightarrow> clk \<Rightarrow> clk option" where
  "timeout2 tp n f a s = do {
     s \<leftarrow> timer_off tp s;
     (if f = None \<or> n = 0 then Some s else do {
        h \<leftarrow> modify (timers s) (Some tp) (\<lambda>t. t\<lparr>t_lbolt := lbolt s + n, t_func := f, t_farg := a\<rparr>);
        timer_on tp (bucket (lbolt s + n)) (s\<lparr>timers := h\<rparr>)
      })
   }"

text \<open>
  \<open>check_clock\<close>: a due timer comes off its list before its function is called. The function is the
  parameter \<open>run\<close>; the model also returns the calls made.
\<close>

type_synonym call = "nat \<times> int \<times> addr"

definition expire :: "addr \<Rightarrow> clk \<Rightarrow> clk option" where
  "expire tp s = do {
     t \<leftarrow> deref (timers s) (Some tp);
     qp \<leftarrow> t_last t;
     s \<leftarrow> set_link qp (t_next t) s;
     h \<leftarrow> (if t_next t = None then Some (timers s) else do {
        t \<leftarrow> deref (timers s) (Some tp);
        modify (timers s) (t_next t) (\<lambda>n. n\<lparr>t_last := t_last t\<rparr>)
      });
     h \<leftarrow> modify h (Some tp) (t_last_update (\<lambda>_. None));
     Some (s\<lparr>timers := h\<rparr>)
   }"

partial_function (option) scan :: "(call \<Rightarrow> clk \<Rightarrow> clk) \<Rightarrow> ptr \<Rightarrow> clk \<Rightarrow> (call list \<times> clk) option" where
  "scan run np s = (case np of None \<Rightarrow> Some ([], s) | Some tp \<Rightarrow> do {
     t \<leftarrow> deref (timers s) (Some tp);
     if t_lbolt t \<noteq> lbolt s then scan run (t_next t) s else do {
       s \<leftarrow> expire tp s;
       t' \<leftarrow> deref (timers s) (Some tp);
       f \<leftarrow> t_func t';
       (cs, s) \<leftarrow> scan run (t_next t) (run (f, t_farg t', tp) s);
       Some ((f, t_farg t', tp) # cs, s)
     }
   })"

definition clock_tick :: "(call \<Rightarrow> clk \<Rightarrow> clk) \<Rightarrow> clk \<Rightarrow> (call list \<times> clk) option" where
  "clock_tick run s =
     (let s = s\<lparr>lbolt := lbolt s + 1, broken_clocks := broken_clocks s - 1\<rparr>
      in if bucket (lbolt s) < length (timq s) then scan run (timq s ! bucket (lbolt s)) s else None)"

partial_function (option) clock_ticks :: "(call \<Rightarrow> clk \<Rightarrow> clk) \<Rightarrow> clk \<Rightarrow> (call list \<times> clk) option" where
  "clock_ticks run s = (if broken_clocks s = 0 then Some ([], s) else do {
     (cs, s) \<leftarrow> clock_tick run s;
     (ds, s) \<leftarrow> clock_ticks run s;
     Some (cs @ ds, s)
   })"

section \<open>Doubly linked lists\<close>

text \<open>
  \<open>dseg h p l xs q m\<close>: from the word \<open>l\<close>, which holds \<open>p\<close>, the timers \<open>xs\<close> follow one another with
  correct back links, up to the word \<open>m\<close>, which holds \<open>q\<close>.
\<close>

primrec dseg :: "timer store \<Rightarrow> ptr \<Rightarrow> link \<Rightarrow> addr list \<Rightarrow> ptr \<Rightarrow> link \<Rightarrow> bool" where
  "dseg h p l [] q m \<longleftrightarrow> p = q \<and> l = m"
| "dseg h p l (x # xs) q m \<longleftrightarrow> p = Some x \<and>
     (\<exists>n. h x = Some n \<and> t_last n = Some l \<and> dseg h (t_next n) (Next x) xs q m)"

definition last_link :: "link \<Rightarrow> addr list \<Rightarrow> link" where
  "last_link l xs = (if xs = [] then l else Next (last xs))"

lemma last_link_simps [simp]: "last_link l [] = l" "last_link l (xs @ [x]) = Next x"
  "last_link l (x # xs) = last_link (Next x) xs" "xs \<noteq> [] \<Longrightarrow> last_link l xs = Next (last xs)"
  by (simp_all add: last_link_def)

lemma dseg_last: "dseg h p l xs q m \<Longrightarrow> m = last_link l xs"
  by (induction xs arbitrary: p l) auto

lemma dseg_append: "dseg h p l (xs @ ys) q m \<longleftrightarrow> (\<exists>r k. dseg h p l xs r k \<and> dseg h r k ys q m)"
  by (induction xs arbitrary: p l) auto

lemma dseg_cong:
  assumes "\<And>x. x \<in> set xs \<Longrightarrow>
    map_option (\<lambda>n. (t_next n, t_last n)) (h' x) = map_option (\<lambda>n. (t_next n, t_last n)) (h x)"
  shows "dseg h' p l xs q m \<longleftrightarrow> dseg h p l xs q m"
  using assms
proof (induction xs arbitrary: p l)
  case Nil
  then show ?case by simp
next
  case (Cons x xs)
  have IH: "dseg h' r k xs q m \<longleftrightarrow> dseg h r k xs q m" for r k
    by (rule Cons.IH) (simp add: Cons.prems)
  show ?case using Cons.prems [of x] by (cases "h x"; cases "h' x") (auto simp: IH)
qed

lemma dseg_dom: "dseg h p l xs q m \<Longrightarrow> x \<in> set xs \<Longrightarrow> \<exists>n k. h x = Some n \<and> t_last n = Some k"
  by (induction xs arbitrary: p l) auto

section \<open>The timing queues as lists\<close>

definition tq_rep :: "clk \<Rightarrow> addr list list \<Rightarrow> bool" where
  "tq_rep s L \<longleftrightarrow> length (timq s) = NTIMQ \<and> length L = NTIMQ \<and> distinct (concat L) \<and>
     (\<forall>i < NTIMQ. dseg (timers s) (timq s ! i) (Bucket i) (L ! i) None (last_link (Bucket i) (L ! i))) \<and>
     (\<forall>i < NTIMQ. \<forall>x \<in> set (L ! i). \<forall>n. timers s x = Some n \<longrightarrow> bucket (t_lbolt n) = i \<and> t_func n \<noteq> None) \<and>
     (\<forall>x n. timers s x = Some n \<longrightarrow> x \<notin> set (concat L) \<longrightarrow> t_last n = None)"

text \<open>What a timer was set to.\<close>

definition entry :: "clk \<Rightarrow> addr \<Rightarrow> (32 word \<times> nat option \<times> int) option" where
  "entry s x = map_option (\<lambda>n. (t_lbolt n, t_func n, t_farg n)) (timers s x)"

lemma bucket_less [simp]: "bucket b < NTIMQ"
proof -
  have "b mod 32 < 32" by (rule word_mod_less_divisor) simp
  then show ?thesis by (simp add: bucket_def word_less_nat_alt)
qed

lemma bucket_ne: "bucket b \<noteq> bucket c \<Longrightarrow> b \<noteq> c"
  by auto

lemma entry_None [simp]: "entry s x = None \<longleftrightarrow> timers s x = None"
  by (simp add: entry_def)

lemma tq_repD:
  assumes "tq_rep s L"
  shows "length (timq s) = NTIMQ" "length L = NTIMQ" "distinct (concat L)"
    "\<And>i. i < NTIMQ \<Longrightarrow> dseg (timers s) (timq s ! i) (Bucket i) (L ! i) None (last_link (Bucket i) (L ! i))"
    "\<And>i x n. i < NTIMQ \<Longrightarrow> x \<in> set (L ! i) \<Longrightarrow> timers s x = Some n \<Longrightarrow> bucket (t_lbolt n) = i \<and> t_func n \<noteq> None"
    "\<And>x n. timers s x = Some n \<Longrightarrow> x \<notin> set (concat L) \<Longrightarrow> t_last n = None"
  using assms unfolding tq_rep_def by blast+

text \<open>
  The state after the timer \<open>x\<close> of list \<open>i\<close> came off from between \<open>us\<close> and \<open>vs\<close>: the word in front
  and the back link behind skip it.
\<close>

definition off :: "nat \<Rightarrow> addr list \<Rightarrow> addr \<Rightarrow> addr list \<Rightarrow> clk \<Rightarrow> clk" where
  "off i us x vs s =
     (let nx = (case vs of [] \<Rightarrow> None | y # _ \<Rightarrow> Some y);
          h = timers s;
          h1 = h(x := map_option (t_last_update (\<lambda>_. None)) (h x));
          h2 = (if us = [] then h1 else h1(last us := map_option (t_next_update (\<lambda>_. nx)) (h (last us))));
          h3 = (case vs of [] \<Rightarrow> h2 | y # _ \<Rightarrow> h2(y := map_option (t_last_update (\<lambda>_. Some (last_link (Bucket i) us))) (h y)))
      in s\<lparr>timers := h3, timq := (if us = [] then (timq s)[i := nx] else timq s)\<rparr>)"

lemma off_same [simp]: "lbolt (off i us x vs s) = lbolt s" "broken_clocks (off i us x vs s) = broken_clocks s"
  "length (timq (off i us x vs s)) = length (timq s)"
  by (simp_all add: off_def Let_def)

lemma entry_upd:
  assumes "map_option (\<lambda>n. (t_lbolt n, t_func n, t_farg n)) (g z) = e z" "\<And>z. map_option (\<lambda>n. (t_lbolt n, t_func n, t_farg n)) (h z) = e z"
  shows "map_option (\<lambda>n. (t_lbolt n, t_func n, t_farg n)) ((g(a := map_option (t_last_update f) (h a))) z) = e z"
    "map_option (\<lambda>n. (t_lbolt n, t_func n, t_farg n)) ((g(a := map_option (t_next_update f') (h a))) z) = e z"
  using assms(1) assms(2) [of a] by (cases "h a"; auto)+

lemma off_entry [simp]: "entry (off i us x vs s) z = entry s z"
proof -
  define e where "e = entry s"
  have e: "map_option (\<lambda>n. (t_lbolt n, t_func n, t_farg n)) (timers s z) = e z" for z
    by (simp add: e_def entry_def)
  note u = entry_upd [where e = e and h = "timers s", OF _ e]
  have t: "timers (off i us x vs s) = (let nx = (case vs of [] \<Rightarrow> None | y # _ \<Rightarrow> Some y);
          h = timers s;
          h1 = h(x := map_option (t_last_update (\<lambda>_. None)) (h x));
          h2 = (if us = [] then h1 else h1(last us := map_option (t_next_update (\<lambda>_. nx)) (h (last us))))
      in case vs of [] \<Rightarrow> h2 | y # _ \<Rightarrow> h2(y := map_option (t_last_update (\<lambda>_. Some (last_link (Bucket i) us))) (h y)))"
    by (simp add: off_def Let_def)
  show ?thesis unfolding entry_def e t Let_def
    by (cases vs; cases "us = []") (simp_all only: list.case if_True if_False simp_thms u e)
qed

definition waits :: "clk \<Rightarrow> addr list list \<Rightarrow> nat \<Rightarrow> addr list \<Rightarrow> addr \<Rightarrow> addr list \<Rightarrow> timer \<Rightarrow> bool" where
  "waits s L i us x vs n \<longleftrightarrow> tq_rep s L \<and> i < NTIMQ \<and> L ! i = us @ x # vs \<and> timers s x = Some n"

lemma waitsD:
  assumes "waits s L i us x vs n"
  shows "tq_rep s L" "i < NTIMQ" "L ! i = us @ x # vs" "timers s x = Some n"
  using assms by (simp_all add: waits_def)

lemma off_links:
  assumes w: "waits s L i us x vs n"
  shows "distinct (us @ x # vs)" "t_last n = Some (last_link (Bucket i) us)"
    "t_next n = (case vs of [] \<Rightarrow> None | y # _ \<Rightarrow> Some y)"
    "us \<noteq> [] \<Longrightarrow> timers s (last us) \<noteq> None" "vs \<noteq> [] \<Longrightarrow> timers s (hd vs) \<noteq> None"
proof -
  note rep = waitsD(1) [OF w] and i = waitsD(2) [OF w] and Li = waitsD(3) [OF w] and n = waitsD(4) [OF w]
  note d = tq_repD [OF rep]
  show "distinct (us @ x # vs)" using distinct_concat_nth [OF d(3), of i] d(2) i Li by simp
  have g: "dseg (timers s) (timq s ! i) (Bucket i) (us @ x # vs) None (last_link (Bucket i) (us @ x # vs))"
    using d(4) [OF i] unfolding Li .
  then obtain r k where u: "dseg (timers s) (timq s ! i) (Bucket i) us r k"
    and v: "dseg (timers s) r k (x # vs) None (last_link (Bucket i) (us @ x # vs))"
    unfolding dseg_append by blast
  show "t_last n = Some (last_link (Bucket i) us)" using v n dseg_last [OF u] by simp
  show "t_next n = (case vs of [] \<Rightarrow> None | y # _ \<Rightarrow> Some y)" using v n by (cases vs) auto
  show "us \<noteq> [] \<Longrightarrow> timers s (last us) \<noteq> None" using dseg_dom [OF u, of "last us"] by auto
  show "vs \<noteq> [] \<Longrightarrow> timers s (hd vs) \<noteq> None" using v by (cases vs) auto
qed

lemma timer_off_eq:
  assumes w: "waits s L i us x vs n"
  shows "timer_off x s = Some (off i us x vs s)"
proof -
  note rep = waitsD(1) [OF w] and i = waitsD(2) [OF w] and Li = waitsD(3) [OF w] and n = waitsD(4) [OF w]
  note l = off_links [OF w]
  have len: "i < length (timq s)" using tq_repD(1) [OF rep] i by simp
  show ?thesis
  proof (cases us rule: rev_cases)
    case Nil
    then show ?thesis using l n len
      by (cases vs) (auto simp: timer_off_def set_link_def off_def Let_def)
  next
    case (snoc ws w)
    then obtain m where m: "timers s w = Some m" "w \<noteq> x" using l by auto
    show ?thesis using l n m snoc
      by (cases vs) (auto simp: timer_off_def set_link_def off_def Let_def)
  qed
qed

lemma expire_eq:
  assumes w: "waits s L i us x vs n"
  shows "expire x s = Some (off i us x vs s)"
proof -
  note rep = waitsD(1) [OF w] and i = waitsD(2) [OF w] and Li = waitsD(3) [OF w] and n = waitsD(4) [OF w]
  note l = off_links [OF w]
  have len: "i < length (timq s)" using tq_repD(1) [OF rep] i by simp
  show ?thesis
  proof (cases us rule: rev_cases)
    case Nil
    show ?thesis
    proof (cases vs)
      case Nil
      then show ?thesis using l n len \<open>us = []\<close> by (simp add: expire_def set_link_def off_def Let_def)
    next
      case (Cons y ys)
      then obtain k where k: "timers s y = Some k" "y \<noteq> x" using l by auto
      have "(timers s)(y \<mapsto> k\<lparr>t_last := Some (Bucket i)\<rparr>, x \<mapsto> n\<lparr>t_last := None\<rparr>) =
        (timers s)(x \<mapsto> n\<lparr>t_last := None\<rparr>, y \<mapsto> k\<lparr>t_last := Some (Bucket i)\<rparr>)"
        using k by auto
      then show ?thesis using l n len k Cons \<open>us = []\<close> by (simp add: expire_def set_link_def off_def Let_def)
    qed
  next
    case (snoc ws w)
    then obtain m where m: "timers s w = Some m" "w \<noteq> x" using l by auto
    show ?thesis
    proof (cases vs)
      case Nil
      have "(timers s)(w \<mapsto> m\<lparr>t_next := None\<rparr>, x \<mapsto> n\<lparr>t_last := None\<rparr>) =
        (timers s)(x \<mapsto> n\<lparr>t_last := None\<rparr>, w \<mapsto> m\<lparr>t_next := None\<rparr>)"
        using m by auto
      then show ?thesis using l n m snoc Nil by (simp add: expire_def set_link_def off_def Let_def)
    next
      case (Cons y ys)
      then obtain k where k: "timers s y = Some k" "y \<noteq> x" "y \<noteq> w" using l snoc by auto
      have "((timers s)(w \<mapsto> m\<lparr>t_next := Some y\<rparr>, y \<mapsto> k\<lparr>t_last := Some (Next w)\<rparr>, x \<mapsto> n\<lparr>t_last := None\<rparr>)) =
        ((timers s)(x \<mapsto> n\<lparr>t_last := None\<rparr>, w \<mapsto> m\<lparr>t_next := Some y\<rparr>, y \<mapsto> k\<lparr>t_last := Some (Next w)\<rparr>))"
        using m k by auto
      then show ?thesis using l n m k snoc Cons by (simp add: expire_def set_link_def off_def Let_def)
    qed
  qed
qed

lemma off_frame: "z \<noteq> x \<Longrightarrow> us = [] \<or> z \<noteq> last us \<Longrightarrow> vs = [] \<or> z \<noteq> hd vs \<Longrightarrow> timers (off i us x vs s) z = timers s z"
  by (auto simp: off_def Let_def split: list.split)

lemma off_dseg:
  assumes w: "waits s L i us x vs n"
  shows "dseg (timers (off i us x vs s)) (timq (off i us x vs s) ! i) (Bucket i) (us @ vs) None
    (last_link (Bucket i) (us @ vs))"
proof -
  note rep = waitsD(1) [OF w] and i = waitsD(2) [OF w] and Li = waitsD(3) [OF w] and n = waitsD(4) [OF w]
  note l = off_links [OF w]
  let ?h = "timers (off i us x vs s)"
  have len: "i < length (timq s)" using tq_repD(1) [OF rep] i by simp
  obtain r k where u: "dseg (timers s) (timq s ! i) (Bucket i) us r k"
    and v: "dseg (timers s) r k (x # vs) None (last_link (Bucket i) (us @ x # vs))"
    using tq_repD(4) [OF rep i] unfolding Li dseg_append by blast
  define nx where "nx = (case vs of [] \<Rightarrow> None | y # _ \<Rightarrow> Some y)"
  have A: "dseg ?h (timq (off i us x vs s) ! i) (Bucket i) us nx (last_link (Bucket i) us)"
  proof (cases us rule: rev_cases)
    case Nil
    then show ?thesis using len by (auto simp: off_def Let_def nx_def)
  next
    case (snoc ws w)
    obtain r' where w: "dseg (timers s) (timq s ! i) (Bucket i) ws r' (last_link (Bucket i) ws)"
      "dseg (timers s) r' (last_link (Bucket i) ws) [w] r k"
      using u dseg_last unfolding snoc dseg_append by blast
    then obtain m where m: "timers s w = Some m" "t_last m = Some (last_link (Bucket i) ws)" "r' = Some w" by auto
    have "dseg ?h (timq s ! i) (Bucket i) ws r' (last_link (Bucket i) ws)"
    proof (subst dseg_cong [of ws ?h "timers s"])
      fix z assume z: "z \<in> set ws"
      have "?h z = timers s z" using l(1) z snoc by (intro off_frame) (auto simp: neq_Nil_conv)
      then show "map_option (\<lambda>n. (t_next n, t_last n)) (?h z) = map_option (\<lambda>n. (t_next n, t_last n)) (timers s z)"
        by simp
    qed (rule w)
    moreover have "?h w = Some (m\<lparr>t_next := nx\<rparr>)" using l(1) m snoc
      by (auto simp: off_def Let_def nx_def split: list.split)
    ultimately show ?thesis using m snoc by (auto simp: dseg_append off_def Let_def)
  qed
  have B: "dseg ?h nx (last_link (Bucket i) us) vs None (last_link (Bucket i) (us @ vs))"
  proof (cases vs)
    case Nil
    then show ?thesis by (simp add: nx_def)
  next
    case (Cons y ys)
    obtain j where j: "timers s y = Some j" "dseg (timers s) (t_next j) (Next y) ys None (last_link (Bucket i) (us @ x # vs))"
      using v Cons n by auto
    have "dseg ?h (t_next j) (Next y) ys None (last_link (Bucket i) (us @ x # vs))"
    proof (subst dseg_cong [of ys ?h "timers s"])
      fix z assume z: "z \<in> set ys"
      have "z \<notin> set us" "z \<noteq> x" "z \<noteq> y" using l(1) z Cons by auto
      then have "?h z = timers s z" using Cons by (intro off_frame) (auto simp: last_in_set)
      then show "map_option (\<lambda>n. (t_next n, t_last n)) (?h z) = map_option (\<lambda>n. (t_next n, t_last n)) (timers s z)"
        by simp
    qed (rule j)
    moreover have "?h y = Some (j\<lparr>t_last := Some (last_link (Bucket i) us)\<rparr>)"
      using Cons j(1) by (simp add: off_def Let_def)
    ultimately show ?thesis using Cons by (auto simp: nx_def)
  qed
  show ?thesis unfolding dseg_append using A B by blast
qed

lemma off_rep:
  assumes w: "waits s L i us x vs n"
  shows "tq_rep (off i us x vs s) (L[i := us @ vs])"
proof -
  note rep = waitsD(1) [OF w] and i = waitsD(2) [OF w] and Li = waitsD(3) [OF w] and n = waitsD(4) [OF w]
  note d = tq_repD [OF rep] and l = off_links [OF w]
  let ?s = "off i us x vs s" and ?L = "L[i := us @ vs]"
  have sub: "insert x (set us \<union> set vs) = set (L ! i)" using Li by auto
  have fr: "timers ?s z = timers s z" if "z \<notin> set (L ! i)" for z
    using that unfolding sub [symmetric] by (intro off_frame) (auto simp: last_in_set hd_in_set)
  have xs: "timers ?s x = Some (n\<lparr>t_last := None\<rparr>)"
    using n l(1) last_in_set [of us] by (auto simp: off_def Let_def split: list.split)
  have dist: "distinct (concat ?L)" using distinct_concat_upd [OF d(3), of i "us @ vs"] d(2) i Li l(1) by auto
  have "dseg (timers ?s) (timq ?s ! j) (Bucket j) (?L ! j) None (last_link (Bucket j) (?L ! j))" if j: "j < NTIMQ" for j
  proof (cases "j = i")
    case True
    have "?L ! i = us @ vs" using i d(2) by simp
    then show ?thesis using off_dseg [OF w] unfolding True by (simp only:)
  next
    case False
    have "timers ?s z = timers s z" if "z \<in> set (L ! j)" for z
      using distinct_concat_disjoint [OF d(3), of j i z] d(2) i j False that by (intro fr) simp
    moreover have "timq ?s ! j = timq s ! j" using False by (simp add: off_def Let_def)
    ultimately show ?thesis using dseg_cong [of "L ! j" "timers ?s" "timers s"] d(4) [OF j] False by simp
  qed
  moreover have "bucket (t_lbolt m) = j \<and> t_func m \<noteq> None"
    if h: "j < NTIMQ" "z \<in> set (?L ! j)" "timers ?s z = Some m" for j z m
  proof -
    have "z \<in> set (L ! j)" using h i d(2) Li by (cases "j = i") auto
    moreover obtain k where k: "timers s z = Some k" using h off_entry [of i us x vs s z] by (cases "timers s z") (auto simp: entry_def)
    moreover have "t_lbolt m = t_lbolt k" "t_func m = t_func k"
      using off_entry [of i us x vs s z] h k by (auto simp: entry_def)
    ultimately show ?thesis using d(5) [OF h(1), of z k] by simp
  qed
  moreover have "t_last m = None" if "timers ?s z = Some m" "z \<notin> set (concat ?L)" for z m
  proof (cases "z = x")
    case True
    then have "m = n\<lparr>t_last := None\<rparr>" using that xs by simp
    then show ?thesis by simp
  next
    case False
    have "i < length L" using i d(2) by simp
    from set_concat_upd [OF this d(3)] have "z \<notin> set (concat L)" using that False sub by auto
    moreover from this have "timers ?s z = timers s z" using nth_in_concat [OF \<open>i < length L\<close>] by (intro fr) auto
    ultimately show ?thesis using d(6) [of z m] that by simp
  qed
  ultimately show ?thesis using d(1,2) dist unfolding tq_rep_def by simp
qed

lemma tq_rep_field:
  assumes rep: "tq_rep s L" and x: "x \<notin> set (concat L)" and n: "timers s x = Some n" and e: "t_last n' = t_last n"
  shows "tq_rep (s\<lparr>timers := (timers s)(x \<mapsto> n')\<rparr>) L"
proof -
  note d = tq_repD [OF rep]
  have "dseg ((timers s)(x \<mapsto> n')) p l (L ! i) q m \<longleftrightarrow> dseg (timers s) p l (L ! i) q m" if "i < NTIMQ" for i p l q m
    using nth_in_concat [of i L x] that d(2) x by (intro dseg_cong) auto
  moreover have "x \<notin> set (L ! i)" if "i < NTIMQ" for i
    using nth_in_concat [of i L x] that d(2) x by auto
  ultimately show ?thesis using d e n x unfolding tq_rep_def by auto
qed

lemma timer_off_rep:
  assumes rep: "tq_rep s L" and x: "timers s x \<noteq> None"
  shows "\<exists>s'. timer_off x s = Some s' \<and> tq_rep s' (map (remove1 x) L) \<and> (\<forall>z. entry s' z = entry s z) \<and>
    lbolt s' = lbolt s \<and> broken_clocks s' = broken_clocks s"
proof -
  note d = tq_repD [OF rep]
  obtain n where n: "timers s x = Some n" using x by blast
  show ?thesis
  proof (cases "x \<in> set (concat L)")
    case False
    then have "map (remove1 x) L = L" by (auto intro!: map_idI remove1_idem)
    moreover have "timer_off x s = Some s" using d(6) [OF n False] n by (simp add: timer_off_def)
    ultimately show ?thesis using rep by simp
  next
    case True
    then obtain i where i: "i < length L" "x \<in> set (L ! i)" using in_concat_nth [OF True] by blast
    then obtain us vs where Li: "L ! i = us @ x # vs" by (meson split_list)
    have w: "waits s L i us x vs n" using rep i Li n d(2) by (simp add: waits_def)
    have "map (remove1 x) L = L[i := us @ vs]"
    proof (rule nth_equalityI)
      fix j assume j: "j < length (map (remove1 x) L)"
      show "map (remove1 x) L ! j = L[i := us @ vs] ! j"
      proof (cases "j = i")
        case True
        have "x \<notin> set us" using distinct_concat_nth [OF d(3) i(1)] Li by simp
        then show ?thesis using True i(1) Li by (simp add: remove1_append)
      next
        case False
        then have "x \<notin> set (L ! j)" using distinct_concat_disjoint [OF d(3) i(1) _ _ i(2), of j] j by simp
        then show ?thesis using False j by (simp add: remove1_idem)
      qed
    qed simp
    then show ?thesis using timer_off_eq [OF w] off_rep [OF w] by simp
  qed
qed

lemma timer_on_rep:
  assumes rep: "tq_rep s L" and x: "x \<notin> set (concat L)" and n: "timers s x = Some n"
    and b: "bucket (t_lbolt n) = i" and f: "t_func n \<noteq> None"
  shows "\<exists>s'. timer_on x i s = Some s' \<and> tq_rep s' (L[i := x # L ! i]) \<and> (\<forall>z. entry s' z = entry s z) \<and>
    lbolt s' = lbolt s \<and> broken_clocks s' = broken_clocks s"
proof -
  note d = tq_repD [OF rep]
  have i: "i < NTIMQ" "i < length L" "i < length (timq s)" using bucket_less [of "t_lbolt n"] b d(1,2) by simp_all
  have xi: "x \<notin> set (L ! j)" if "j < NTIMQ" for j using nth_in_concat [of j L x] that d(2) x by auto
  let ?n = "n\<lparr>t_next := timq s ! i, t_last := Some (Bucket i)\<rparr>"
  define h where "h = (\<lambda>z. if z = x then Some ?n else if timq s ! i = Some z
    then map_option (t_last_update (\<lambda>_. Some (Next x))) (timers s z) else timers s z)"
  let ?s = "s\<lparr>timers := h, timq := (timq s)[i := Some x]\<rparr>" and ?L = "L[i := x # L ! i]"
  have g: "dseg (timers s) (timq s ! i) (Bucket i) (L ! i) None (last_link (Bucket i) (L ! i))" using d(4) [OF i(1)] .
  have on: "timer_on x i s = Some ?s"
  proof (cases "L ! i")
    case Nil
    then have "timq s ! i = None" using g by simp
    moreover from this have "h = (timers s)(x \<mapsto> ?n)" by (auto simp: h_def)
    ultimately show ?thesis using n i by (simp add: timer_on_def)
  next
    case (Cons y ys)
    then obtain k where k: "timq s ! i = Some y" "timers s y = Some k" using g by auto
    have "y \<noteq> x" using xi [OF i(1)] Cons by auto
    moreover from this have "h = (timers s)(x \<mapsto> n\<lparr>t_next := Some y\<rparr>, y \<mapsto> k\<lparr>t_last := Some (Next x)\<rparr>, x \<mapsto> ?n)"
      using k by (auto simp: h_def)
    ultimately show ?thesis using n i k by (simp add: timer_on_def)
  qed
  have ent: "entry ?s z = entry s z" for z
    using n by (cases "timers s z") (auto simp: entry_def h_def)
  have fr: "h z = timers s z" if "z \<noteq> x" "timq s ! i \<noteq> Some z" for z using that by (simp add: h_def)
  have hd: "timq s ! i \<noteq> Some z" if "z \<in> set (L ! j)" "j < NTIMQ" "j \<noteq> i" for j z
    using distinct_concat_disjoint [OF d(3), of j i z] that d(2) i g by (cases "L ! i") auto
  have "dseg (timers ?s) (timq ?s ! j) (Bucket j) (?L ! j) None (last_link (Bucket j) (?L ! j))" if j: "j < NTIMQ" for j
  proof (cases "j = i")
    case False
    have "h z = timers s z" if "z \<in> set (L ! j)" for z
      using hd [OF that j False] xi [OF j] that by (intro fr) auto
    then show ?thesis using dseg_cong [of "L ! j" h "timers s"] d(4) [OF j] False by simp
  next
    case True
    have "dseg h (timq s ! i) (Next x) (L ! i) None (last_link (Next x) (L ! i))"
    proof (cases "L ! i")
      case Nil
      then show ?thesis using g by simp
    next
      case (Cons y ys)
      then obtain k where k: "timq s ! i = Some y" "timers s y = Some k"
        "dseg (timers s) (t_next k) (Next y) ys None (last_link (Next y) ys)" using g by auto
      have "y \<noteq> x" "x \<notin> set ys" "y \<notin> set ys" using xi [OF i(1)] Cons distinct_concat_nth [OF d(3) i(2)] by auto
      then have "h z = timers s z" if "z \<in> set ys" for z using that k(1) by (intro fr) auto
      then have "dseg h (t_next k) (Next y) ys None (last_link (Next y) ys)"
        using dseg_cong [of ys h "timers s"] k(3) by simp
      moreover have "h y = Some (k\<lparr>t_last := Some (Next x)\<rparr>)" using k \<open>y \<noteq> x\<close> by (simp add: h_def)
      ultimately show ?thesis using Cons k by simp
    qed
    then show ?thesis using True i by (simp add: h_def)
  qed
  moreover have "bucket (t_lbolt m) = j \<and> t_func m \<noteq> None"
    if h: "j < NTIMQ" "z \<in> set (?L ! j)" "timers ?s z = Some m" for j z m
  proof (cases "z = x")
    case True
    then have "j = i" using h xi [OF h(1)] i by (cases "j = i") auto
    then show ?thesis using True h b f by (auto simp: h_def)
  next
    case False
    then have "z \<in> set (L ! j)" using h i by (cases "j = i") auto
    moreover obtain k where k: "timers s z = Some k" "t_lbolt m = t_lbolt k" "t_func m = t_func k"
      using h ent [of z] by (cases "timers s z") (auto simp: entry_def)
    ultimately show ?thesis using d(5) [OF h(1), of z k] by simp
  qed
  moreover have "t_last m = None" if "timers ?s z = Some m" "z \<notin> set (concat ?L)" for z m
  proof -
    have s: "set (concat ?L) = set (concat L) \<union> {x}"
      using set_concat_upd [OF i(2) d(3)] nth_in_concat [OF i(2)] by auto
    then have "z \<noteq> x" "z \<notin> set (concat L)" using that by auto
    moreover have "timq s ! i \<noteq> Some z" using g \<open>z \<notin> set (concat L)\<close> nth_in_concat [OF i(2), of z] by (cases "L ! i") auto
    ultimately show ?thesis using d(6) [of z m] that fr by simp
  qed
  moreover have "distinct (concat ?L)"
    using distinct_concat_upd [OF d(3) i(2), of "x # L ! i"] distinct_concat_nth [OF d(3) i(2)] xi [OF i(1)] x by auto
  ultimately have "tq_rep ?s ?L" using d(1,2) unfolding tq_rep_def by simp
  then show ?thesis using on ent by simp
qed

section \<open>Setting a timer\<close>

text \<open>The queues after \<open>timeout\<close> set the timer \<open>x\<close> to tick \<open>b\<close>.\<close>

definition requeued :: "addr \<Rightarrow> 32 word \<Rightarrow> addr list list \<Rightarrow> addr list list" where
  "requeued x b L = (let L' = map (remove1 x) L in L'[bucket b := x # L' ! bucket b])"

lemma set_concat_remove1: "distinct (concat L) \<Longrightarrow> set (concat (map (remove1 x) L)) = set (concat L) - {x}"
  by (induction L) auto

lemma set_requeued:
  assumes "length L = NTIMQ" "distinct (concat L)"
  shows "set (concat (requeued x b L)) = insert x (set (concat L))"
proof -
  let ?L = "map (remove1 x) L"
  have l: "bucket b < length ?L" using assms by simp
  have "distinct (concat ?L)" using assms(2)
    by (induction L) (auto dest: set_remove1_subset [THEN subsetD])
  then have "set (concat (requeued x b L)) = insert x (set (concat ?L))"
    using set_concat_upd [OF l] nth_in_concat [OF l] unfolding requeued_def Let_def by auto
  then show ?thesis using set_concat_remove1 [OF assms(2)] by auto
qed

lemma timeout_rep:
  assumes rep: "tq_rep s L" and x: "timers s x = Some t"
  shows "\<exists>s'. timeout x n f a s = Some s' \<and> lbolt s' = lbolt s \<and> broken_clocks s' = broken_clocks s \<and>
    tq_rep s' (if f = None then map (remove1 x) L else requeued x (lbolt s + n) L) \<and>
    entry s' = (entry s)(x \<mapsto> if f = None then (t_lbolt t, None, t_farg t) else (lbolt s + n, f, a))"
proof -
  obtain s1 where s1: "timer_off x s = Some s1" "tq_rep s1 (map (remove1 x) L)" "\<forall>z. entry s1 z = entry s z"
    "lbolt s1 = lbolt s" "broken_clocks s1 = broken_clocks s" using timer_off_rep [OF rep] x by blast
  obtain t1 where t1: "timers s1 x = Some t1" "t_lbolt t1 = t_lbolt t" "t_farg t1 = t_farg t"
    using s1(3) x by (cases "timers s1 x") (auto simp: entry_def dest: spec [of _ x])
  have nx: "x \<notin> set (concat (map (remove1 x) L))" unfolding set_concat_remove1 [OF tq_repD(3) [OF rep]] by simp
  show ?thesis
  proof (cases f)
    case None
    let ?s = "s1\<lparr>timers := (timers s1)(x \<mapsto> t1\<lparr>t_func := None\<rparr>)\<rparr>"
    have "tq_rep ?s (map (remove1 x) L)" using s1(2) nx t1(1) by (intro tq_rep_field) simp_all
    moreover have "entry ?s = (entry s)(x \<mapsto> (t_lbolt t, None, t_farg t))"
      using s1(3) t1 by (auto simp: entry_def)
    ultimately show ?thesis using s1 t1 None by (simp add: timeout_def)
  next
    case (Some fn)
    let ?t = "t1\<lparr>t_func := f, t_lbolt := lbolt s + n, t_farg := a\<rparr>"
    let ?s = "s1\<lparr>timers := (timers s1)(x \<mapsto> ?t)\<rparr>"
    have "tq_rep ?s (map (remove1 x) L)" using s1(2) nx t1(1) by (intro tq_rep_field) simp_all
    from timer_on_rep [OF this nx, of ?t] Some obtain s' where s': "timer_on x (bucket (lbolt s + n)) ?s = Some s'"
      "tq_rep s' (requeued x (lbolt s + n) L)" "\<forall>z. entry s' z = entry ?s z" "lbolt s' = lbolt s" "broken_clocks s' = broken_clocks s"
      using s1 by (auto simp: requeued_def Let_def)
    have "entry s' = (entry s)(x \<mapsto> (lbolt s + n, f, a))"
      using s'(3) s1(3) by (auto simp: entry_def)
    moreover have "timeout x n f a s = Some s'"
      using s1 t1 s'(1) Some by (simp add: timeout_def)
    ultimately show ?thesis using s' Some by simp
  qed
qed

lemma timeout2_rep:
  assumes rep: "tq_rep s L" and x: "timers s x = Some t"
  shows "\<exists>s'. timeout2 x n f a s = Some s' \<and> lbolt s' = lbolt s \<and> broken_clocks s' = broken_clocks s \<and>
    tq_rep s' (if f = None \<or> n = 0 then map (remove1 x) L else requeued x (lbolt s + n) L) \<and>
    entry s' = (if f = None \<or> n = 0 then entry s else (entry s)(x \<mapsto> (lbolt s + n, f, a)))"
proof -
  obtain s1 where s1: "timer_off x s = Some s1" "tq_rep s1 (map (remove1 x) L)" "\<forall>z. entry s1 z = entry s z"
    "lbolt s1 = lbolt s" "broken_clocks s1 = broken_clocks s" using timer_off_rep [OF rep] x by blast
  obtain t1 where t1: "timers s1 x = Some t1"
    using s1(3) x by (cases "timers s1 x") (auto simp: entry_def dest: spec [of _ x])
  have nx: "x \<notin> set (concat (map (remove1 x) L))" unfolding set_concat_remove1 [OF tq_repD(3) [OF rep]] by simp
  show ?thesis
  proof (cases "f = None \<or> n = 0")
    case True
    then show ?thesis using s1 by (auto simp: timeout2_def)
  next
    case False
    let ?t = "t1\<lparr>t_lbolt := lbolt s + n, t_func := f, t_farg := a\<rparr>"
    let ?s = "s1\<lparr>timers := (timers s1)(x \<mapsto> ?t)\<rparr>"
    have "tq_rep ?s (map (remove1 x) L)" using s1(2) nx t1(1) by (intro tq_rep_field) simp_all
    from timer_on_rep [OF this nx, of ?t] False obtain s' where s': "timer_on x (bucket (lbolt s + n)) ?s = Some s'"
      "tq_rep s' (requeued x (lbolt s + n) L)" "\<forall>z. entry s' z = entry ?s z" "lbolt s' = lbolt s" "broken_clocks s' = broken_clocks s"
      using s1 by (auto simp: requeued_def Let_def)
    have "entry s' = (entry s)(x \<mapsto> (lbolt s + n, f, a))"
      using s'(3) s1(3) by (auto simp: entry_def)
    moreover have "timeout2 x n f a s = Some s'"
      using s1 t1 s'(1) False by (auto simp: timeout2_def)
    ultimately show ?thesis using s' False by auto
  qed
qed

section \<open>Expiry\<close>

text \<open>
  What a timer function may do for the timers \<open>X\<close> to be served on time: it keeps the queues in
  order, lets the tick counters alone, and cancels or resets neither a timer that the
  current scan has still to look at (\<open>vs\<close>) nor one of \<open>X\<close>, its own excepted.
\<close>

definition polite :: "addr set \<Rightarrow> (call \<Rightarrow> clk \<Rightarrow> clk) \<Rightarrow> bool" where
  "polite X run \<longleftrightarrow> (\<forall>c s L us vs. tq_rep s L \<longrightarrow> L ! bucket (lbolt s) = us @ vs \<longrightarrow>
     snd (snd c) \<notin> set (concat L) \<longrightarrow> timers s (snd (snd c)) \<noteq> None \<longrightarrow>
     (\<exists>L' us'. tq_rep (run c s) L' \<and> lbolt (run c s) = lbolt s \<and> broken_clocks (run c s) = broken_clocks s \<and>
       L' ! bucket (lbolt s) = us' @ vs \<and>
       (\<forall>y \<in> set vs \<union> (X - {snd (snd c)}). entry (run c s) y = entry s y \<and> (y \<in> set (concat L') \<longleftrightarrow> y \<in> set (concat L)))))"

lemma politeE:
  assumes "polite X run" "tq_rep s L" "L ! bucket (lbolt s) = us @ vs" "snd (snd c) \<notin> set (concat L)"
    "timers s (snd (snd c)) \<noteq> None"
  obtains L' us' where "tq_rep (run c s) L'" "lbolt (run c s) = lbolt s" "broken_clocks (run c s) = broken_clocks s"
    "L' ! bucket (lbolt s) = us' @ vs"
    "\<And>y. y \<in> set vs \<or> y \<in> X \<and> y \<noteq> snd (snd c) \<Longrightarrow>
      entry (run c s) y = entry s y \<and> (y \<in> set (concat L') \<longleftrightarrow> y \<in> set (concat L))"
proof -
  from assms(1) [unfolded polite_def, rule_format, OF assms(2-5)]
  obtain L' us' where "tq_rep (run c s) L'" "lbolt (run c s) = lbolt s" "broken_clocks (run c s) = broken_clocks s"
    "L' ! bucket (lbolt s) = us' @ vs"
    "\<forall>y \<in> set vs \<union> (X - {snd (snd c)}). entry (run c s) y = entry s y \<and> (y \<in> set (concat L') \<longleftrightarrow> y \<in> set (concat L))"
    by blast
  then show ?thesis using that [of L' us'] by blast
qed

lemma quiet_polite: "polite X (\<lambda>_ s. s)"
  unfolding polite_def by blast

text \<open>A function that sets its own timer again is polite.\<close>

definition rearm :: "32 word \<Rightarrow> call \<Rightarrow> clk \<Rightarrow> clk" where
  "rearm n c s = (case timeout (snd (snd c)) n (Some (fst c)) (fst (snd c)) s of Some s' \<Rightarrow> s' | None \<Rightarrow> s)"

lemma rearm_polite: "polite X (rearm n)"
  unfolding polite_def
proof (intro allI impI)
  fix c :: call and s L us vs
  assume h: "tq_rep s L" "L ! bucket (lbolt s) = us @ vs" "snd (snd c) \<notin> set (concat L)" "timers s (snd (snd c)) \<noteq> None"
  let ?x = "snd (snd c)" and ?b = "lbolt s + n"
  obtain t where t: "timers s ?x = Some t" using h by blast
  from timeout_rep [OF h(1) t, of n "Some (fst c)" "fst (snd c)"]
  obtain s' where s': "rearm n c s = s'" "tq_rep s' (requeued ?x ?b L)" "lbolt s' = lbolt s" "broken_clocks s' = broken_clocks s"
    "entry s' = (entry s)(?x \<mapsto> (lbolt s + n, Some (fst c), fst (snd c)))" by (auto simp: rearm_def)
  have m: "map (remove1 ?x) L = L" using h(3) by (auto intro!: map_idI remove1_idem)
  have len: "bucket (lbolt s) < length L" "length L = NTIMQ" using tq_repD(2) [OF h(1)] by simp_all
  have "\<exists>us'. requeued ?x ?b L ! bucket (lbolt s) = us' @ vs"
    using len h(2) by (cases "bucket ?b = bucket (lbolt s)") (auto simp: requeued_def m Let_def)
  then obtain us' where us': "requeued ?x ?b L ! bucket (lbolt s) = us' @ vs" ..
  have "?x \<notin> set vs" using h(2,3) nth_in_concat [OF len(1), of ?x] by auto
  then have "\<forall>y \<in> set vs \<union> (X - {?x}). entry (rearm n c s) y = entry s y \<and>
      (y \<in> set (concat (requeued ?x ?b L)) \<longleftrightarrow> y \<in> set (concat L))"
    using s' set_requeued [OF len(2) tq_repD(3) [OF h(1)]] by auto
  then show "\<exists>L' us'. tq_rep (rearm n c s) L' \<and> lbolt (rearm n c s) = lbolt s \<and> broken_clocks (rearm n c s) = broken_clocks s \<and>
       L' ! bucket (lbolt s) = us' @ vs \<and>
       (\<forall>y \<in> set vs \<union> (X - {?x}). entry (rearm n c s) y = entry s y \<and> (y \<in> set (concat L') \<longleftrightarrow> y \<in> set (concat L)))"
    using s' us' by blast
qed

text \<open>The calls due at the current tick among the timers \<open>vs\<close>, in that order.\<close>

definition due_call :: "clk \<Rightarrow> addr \<Rightarrow> call list" where
  "due_call s x = (case entry s x of Some (b, Some f, a) \<Rightarrow> if b = lbolt s then [(f, a, x)] else [] | _ \<Rightarrow> [])"

definition due_calls :: "clk \<Rightarrow> addr list \<Rightarrow> call list" where
  "due_calls s vs = concat (map (due_call s) vs)"

lemma due_calls_simps [simp]: "due_calls s [] = []" "due_calls s (x # vs) = due_call s x @ due_calls s vs"
  by (simp_all add: due_calls_def)

lemma due_call_cong: "entry s' x = entry s x \<Longrightarrow> lbolt s' = lbolt s \<Longrightarrow> due_call s' x = due_call s x"
  by (simp only: due_call_def)

lemma due_calls_cong:
  "(\<And>x. x \<in> set vs \<Longrightarrow> entry s' x = entry s x) \<Longrightarrow> lbolt s' = lbolt s \<Longrightarrow> due_calls s' vs = due_calls s vs"
  by (induction vs) (simp_all add: due_call_cong [of s' _ s])

lemma due_call_timer: "c \<in> set (due_call s x) \<Longrightarrow> snd (snd c) = x"
  by (auto simp: due_call_def split: option.splits if_splits)

lemma filter_due_call: "filter (\<lambda>c. snd (snd c) = x) (due_call s y) = (if x = y then due_call s x else [])"
  by (auto simp: due_call_def split: option.splits)

lemma filter_due_calls:
  "distinct vs \<Longrightarrow> filter (\<lambda>c. snd (snd c) = x) (due_calls s vs) = (if x \<in> set vs then due_call s x else [])"
  by (induction vs) (auto simp: filter_due_call)

abbreviation head_ptr :: "addr list \<Rightarrow> ptr" where
  "head_ptr vs \<equiv> (case vs of [] \<Rightarrow> None | y # _ \<Rightarrow> Some y)"

lemma scan_rep:
  assumes p: "polite X run"
  shows "tq_rep s L \<Longrightarrow> L ! bucket (lbolt s) = us @ vs \<Longrightarrow>
    \<exists>s' L'. scan run (head_ptr vs) s = Some (due_calls s vs, s') \<and> tq_rep s' L' \<and>
      lbolt s' = lbolt s \<and> broken_clocks s' = broken_clocks s \<and>
      (\<forall>x \<in> X. x \<in> set (concat L) \<longrightarrow> due_call s x = [] \<longrightarrow> entry s' x = entry s x \<and> x \<in> set (concat L'))"
proof (induction vs arbitrary: s L us)
  case Nil
  then show ?case by (subst scan.simps) auto
next
  case (Cons y vs)
  let ?b = "bucket (lbolt s)"
  note d = tq_repD [OF Cons.prems(1)]
  have b: "?b < length L" using d(2) by simp
  have ys: "y \<in> set (L ! ?b)" using Cons.prems(2) by simp
  obtain n where n: "timers s y = Some n" using d(4) [of ?b] dseg_dom [OF _ ys] by fastforce
  have w: "waits s L ?b us y vs n" using Cons.prems n by (simp add: waits_def)
  note nx = off_links(3) [OF w]
  obtain f where f: "t_func n = Some f" using d(5) [OF _ ys n] by auto
  show ?case
  proof (cases "t_lbolt n = lbolt s")
    case False
    then have dc: "due_call s y = []" by (simp add: due_call_def entry_def n f)
    have "scan run (head_ptr (y # vs)) s = scan run (head_ptr vs) s"
      using False n nx by (subst scan.simps) simp
    moreover have "L ! ?b = (us @ [y]) @ vs" using Cons.prems(2) by simp
    ultimately show ?thesis using Cons.IH [OF Cons.prems(1), of "us @ [y]"] dc by simp
  next
    case True
    let ?s = "off ?b us y vs s" and ?L = "L[?b := us @ vs]"
    let ?c = "(f, t_farg n, y)"
    have dc: "due_call s y = [?c]" using True by (simp add: due_call_def entry_def n f)
    have r1: "tq_rep ?s ?L" using off_rep [OF w] .
    have ey: "entry ?s y = Some (lbolt s, Some f, t_farg n)" using n f True by (simp add: entry_def [of s])
    then obtain t where t: "timers ?s y = Some t" "t_func t = Some f" "t_farg t = t_farg n"
      by (auto simp: entry_def)
    have mem: "set (concat ?L) = set (concat L) - {y}"
    proof -
      have "set (us @ vs) = set (L ! ?b) - {y}" using distinct_concat_nth [OF d(3) b] Cons.prems(2) by auto
      then show ?thesis using set_concat_upd [OF b d(3)] nth_in_concat [OF b] ys by auto
    qed
    have "?L ! bucket (lbolt ?s) = us @ vs" using b by simp
    moreover have "snd (snd ?c) \<notin> set (concat ?L)" unfolding mem by simp
    moreover have "timers ?s (snd (snd ?c)) \<noteq> None" using t by simp
    ultimately obtain L2 us2 where r2: "tq_rep (run ?c ?s) L2" "lbolt (run ?c ?s) = lbolt s"
      "broken_clocks (run ?c ?s) = broken_clocks s" "L2 ! ?b = us2 @ vs"
      and k: "\<And>x. x \<in> set vs \<or> x \<in> X \<and> x \<noteq> y \<Longrightarrow>
        entry (run ?c ?s) x = entry s x \<and> (x \<in> set (concat L2) \<longleftrightarrow> x \<in> set (concat ?L))"
      using politeE [OF p r1, of us vs ?c] by auto
    have "L2 ! bucket (lbolt (run ?c ?s)) = us2 @ vs" using r2 by simp
    from Cons.IH [OF r2(1) this] obtain s' L' where s': "scan run (head_ptr vs) (run ?c ?s) = Some (due_calls (run ?c ?s) vs, s')"
      "tq_rep s' L'" "lbolt s' = lbolt s" "broken_clocks s' = broken_clocks s"
      "\<forall>x \<in> X. x \<in> set (concat L2) \<longrightarrow> due_call (run ?c ?s) x = [] \<longrightarrow>
         entry s' x = entry (run ?c ?s) x \<and> x \<in> set (concat L')"
      using r2(2,3) by auto
    have "due_calls (run ?c ?s) vs = due_calls s vs" using k r2(2) by (intro due_calls_cong) auto
    then have "scan run (head_ptr (y # vs)) s = Some (due_calls s (y # vs), s')"
      using True n nx t s'(1) dc expire_eq [OF w] by (subst scan.simps) simp
    moreover have "entry s' x = entry s x \<and> x \<in> set (concat L')" if "x \<in> X" "x \<in> set (concat L)" "due_call s x = []" for x
    proof -
      have ne: "x \<noteq> y" using that dc by auto
      then have "x \<in> set (concat L2)" "entry (run ?c ?s) x = entry s x" using k [of x] that mem by auto
      moreover have "due_call (run ?c ?s) x = []" using that(3) due_call_cong [OF calculation(2) r2(2)] by simp
      ultimately show ?thesis using s'(5) that by metis
    qed
    ultimately show ?thesis using s' by blast
  qed
qed

lemma clock_tick_rep:
  assumes p: "polite X run" and rep: "tq_rep s L"
  defines "s0 \<equiv> s\<lparr>lbolt := lbolt s + 1, broken_clocks := broken_clocks s - 1\<rparr>"
  shows "\<exists>s' L'. clock_tick run s = Some (due_calls s0 (L ! bucket (lbolt s + 1)), s') \<and> tq_rep s' L' \<and>
      lbolt s' = lbolt s + 1 \<and> broken_clocks s' = broken_clocks s - 1 \<and>
      (\<forall>x \<in> X. x \<in> set (concat L) \<longrightarrow> due_call s0 x = [] \<longrightarrow> entry s' x = entry s x \<and> x \<in> set (concat L'))"
proof -
  let ?b = "bucket (lbolt s + 1)"
  have r0: "tq_rep s0 L" using rep by (simp add: tq_rep_def s0_def)
  have e0: "entry s0 x = entry s x" for x by (simp add: entry_def s0_def)
  have h: "timq s ! ?b = head_ptr (L ! ?b)" using tq_repD(4) [OF rep, of ?b] by (cases "L ! ?b") auto
  have "L ! bucket (lbolt s0) = [] @ L ! ?b" by (simp add: s0_def)
  from scan_rep [OF p r0 this] obtain s' L' where "scan run (timq s ! ?b) s0 = Some (due_calls s0 (L ! ?b), s')" "tq_rep s' L'"
      "lbolt s' = lbolt s + 1" "broken_clocks s' = broken_clocks s - 1"
      "\<forall>x \<in> X. x \<in> set (concat L) \<longrightarrow> due_call s0 x = [] \<longrightarrow> entry s' x = entry s x \<and> x \<in> set (concat L')"
    unfolding h e0 by (auto simp: s0_def)
  moreover from this have "clock_tick run s = Some (due_calls s0 (L ! ?b), s')"
    using tq_repD(1) [OF rep] by (simp add: clock_tick_def s0_def)
  ultimately show ?thesis by blast
qed

lemma in_bucket:
  assumes "tq_rep s L" "x \<in> set (concat L)" "entry s x = Some (b, f, a)"
  shows "x \<in> set (L ! bucket b)"
proof -
  obtain i where i: "i < length L" "x \<in> set (L ! i)" using in_concat_nth [OF assms(2)] by blast
  obtain n where n: "timers s x = Some n" "t_lbolt n = b" using assms(3) by (auto simp: entry_def)
  show ?thesis using tq_repD(5) [OF assms(1) _ i(2) n(1)] i n tq_repD(2) [OF assms(1)] by auto
qed

lemma clock_ticks_timer:
  assumes p: "polite X run" and x: "x \<in> X"
  shows "tq_rep s L \<Longrightarrow> x \<in> set (concat L) \<Longrightarrow> entry s x = Some (lbolt s + n, Some f, a) \<Longrightarrow> n \<noteq> 0 \<Longrightarrow>
    broken_clocks s = m \<Longrightarrow> m \<le> unat n \<Longrightarrow>
    \<exists>cs s' L'. clock_ticks run s = Some (cs, s') \<and> tq_rep s' L' \<and> lbolt s' = lbolt s + of_nat m \<and>
      filter (\<lambda>c. snd (snd c) = x) cs = (if m = unat n then [(f, a, x)] else [])"
proof (induction m arbitrary: s L n)
  case 0
  then show ?case by (subst clock_ticks.simps) (auto simp: unat_eq_zero)
next
  case (Suc m)
  let ?s0 = "s\<lparr>lbolt := lbolt s + 1, broken_clocks := broken_clocks s - 1\<rparr>"
  let ?b = "bucket (lbolt s + 1)" and ?cs = "due_calls ?s0 (L ! bucket (lbolt s + 1))"
  from clock_tick_rep [OF p Suc.prems(1)] obtain s1 L1 where s1: "clock_tick run s = Some (?cs, s1)" "tq_rep s1 L1"
    "lbolt s1 = lbolt s + 1" "broken_clocks s1 = m"
    "x \<in> set (concat L) \<Longrightarrow> due_call ?s0 x = [] \<Longrightarrow> entry s1 x = entry s x \<and> x \<in> set (concat L1)"
    using x Suc.prems(5) by auto
  have dist: "distinct (L ! ?b)" using distinct_concat_nth [OF tq_repD(3) [OF Suc.prems(1)]] tq_repD(2) [OF Suc.prems(1)] by simp
  have dc: "due_call ?s0 x = (if n = 1 then [(f, a, x)] else [])"
    using Suc.prems(3) by (auto simp: due_call_def entry_def)
  have xb: "n = 1 \<Longrightarrow> x \<in> set (L ! ?b)" using in_bucket [OF Suc.prems(1,2,3)] by simp
  have fl: "filter (\<lambda>c. snd (snd c) = x) ?cs = (if n = 1 then [(f, a, x)] else [])"
    using filter_due_calls [OF dist, of x ?s0] dc xb by auto
  show ?case
  proof (cases "n = 1")
    case True
    then have "m = 0" using Suc.prems(6) by simp
    then have "clock_ticks run s1 = Some ([], s1)" using s1(4) by (subst clock_ticks.simps) simp
    then have "clock_ticks run s = Some (?cs, s1)" using s1(1) Suc.prems(5) by (subst clock_ticks.simps) simp
    then show ?thesis using s1 fl True \<open>m = 0\<close> by auto
  next
    case False
    have u: "unat (n - 1) = unat n - 1" using Suc.prems(4) by (simp add: unat_minus_one)
    have "n - 1 \<noteq> 0" using False by simp
    moreover have "entry s1 x = Some (lbolt s1 + (n - 1), Some f, a)" "x \<in> set (concat L1)"
      using s1 dc False Suc.prems by auto
    ultimately obtain cs s' L' where r: "clock_ticks run s1 = Some (cs, s')" "tq_rep s' L'" "lbolt s' = lbolt s1 + of_nat m"
      "filter (\<lambda>c. snd (snd c) = x) cs = (if m = unat (n - 1) then [(f, a, x)] else [])"
      using Suc.IH [OF s1(2), of "n - 1"] s1(4) Suc.prems(6) u by fastforce
    have "clock_ticks run s = Some (?cs @ cs, s')" using s1(1) r(1) Suc.prems(5) by (subst clock_ticks.simps) simp
    moreover have "m = unat (n - 1) \<longleftrightarrow> Suc m = unat n"
      using u Suc.prems(4,6) by auto
    ultimately show ?thesis using r fl False s1(3) by (auto simp: add.assoc)
  qed
qed

lemma due_calls_iff:
  "c \<in> set (due_calls s vs) \<longleftrightarrow> (\<exists>f a x. c = (f, a, x) \<and> x \<in> set vs \<and> entry s x = Some (lbolt s, Some f, a))"
  by (induction vs) (auto simp: due_call_def split: option.splits if_splits)

section \<open>Properties\<close>

text \<open>\<open>timeout\<close> with a function sets the timer, queued before or not, to \<open>n\<close> ticks from now with that function
  and argument; without one it takes the timer off its queue. The queues stay in order, every other timer stays
  on its list, in its place, as it was.\<close>

theorem timeout_sets:
  assumes "tq_rep s L" "timers s x = Some t"
  shows "\<exists>s'. timeout x n f a s = Some s' \<and>
    tq_rep s' (if f = None then map (remove1 x) L else requeued x (lbolt s + n) L) \<and>
    entry s' = (entry s)(x \<mapsto> if f = None then (t_lbolt t, None, t_farg t) else (lbolt s + n, f, a))"
  using timeout_rep [OF assms] by blast

definition example_clk :: clk where
  "example_clk = \<lparr>lbolt = 31, broken_clocks = 0, timq = (replicate 32 None)[0 := Some 1],
     timers = (\<lambda>_. None)(1 \<mapsto> \<lparr>t_next = Some 2, t_last = Some (Bucket 0), t_lbolt = 32, t_func = Some 70, t_farg = 7\<rparr>,
       2 \<mapsto> \<lparr>t_next = None, t_last = Some (Next 1), t_lbolt = 64, t_func = Some 80, t_farg = 8\<rparr>,
       3 \<mapsto> \<lparr>t_next = None, t_last = None, t_lbolt = 0, t_func = None, t_farg = 0\<rparr>)\<rparr>"

lemma bucket_examples: "bucket 32 = 0" "bucket 64 = 0"
  by (simp_all add: bucket_def)

lemma example_clk_rep: "tq_rep example_clk ((replicate 32 [])[0 := [1, 2]])"
proof -
  have "dseg (timers example_clk) (timq example_clk ! i) (Bucket i) (((replicate 32 [])[0 := [1, 2]]) ! i) None
      (last_link (Bucket i) (((replicate 32 [])[0 := [1, 2]]) ! i))" if "i < 32" for i
    using that by (cases "i = 0") (simp_all add: example_clk_def)
  moreover have "bucket (t_lbolt n) = i \<and> t_func n \<noteq> None"
    if "i < 32" "x \<in> set (((replicate 32 [])[0 := [1, 2]]) ! i)" "timers example_clk x = Some n" for i x n
    using that by (cases "i = 0") (auto simp: example_clk_def bucket_examples)
  moreover have l: "(replicate 32 ([] :: addr list))[0 := [1, 2]] = [1, 2] # replicate 31 []"
    by (simp add: numeral_eq_Suc)
  have "distinct (concat ((replicate 32 [])[0 := [1, 2 :: addr]]))" unfolding l by simp
  moreover have "t_last n = None"
    if "timers example_clk x = Some n" "x \<notin> set (concat ((replicate 32 [])[0 := [1, 2]]))" for x n
    using that unfolding l by (auto simp: example_clk_def split: if_splits)
  ultimately show ?thesis unfolding tq_rep_def by (simp add: example_clk_def)
qed

theorem timeout_sets_witness:
  "\<exists>s' L'. timeout 3 5 (Some 90) 9 example_clk = Some s' \<and> tq_rep s' L' \<and> entry s' 3 = Some (36, Some 90, 9) \<and>
    entry s' 2 = Some (64, Some 80, 8)"
proof -
  have "timers example_clk 3 = Some \<lparr>t_next = None, t_last = None, t_lbolt = 0, t_func = None, t_farg = 0\<rparr>"
    by (simp add: example_clk_def)
  from timeout_sets [OF example_clk_rep this, of 5 "Some 90" 9] obtain s' where
    "timeout 3 5 (Some 90) 9 example_clk = Some s'" "tq_rep s' (requeued 3 (lbolt example_clk + 5) ((replicate 32 [])[0 := [1, 2]]))"
    "entry s' = (entry example_clk)(3 \<mapsto> (lbolt example_clk + 5, Some 90, 9))" by auto
  moreover have "entry example_clk 2 = Some (64, Some 80, 8)" "lbolt example_clk = 31"
    by (simp_all add: entry_def example_clk_def)
  ultimately show ?thesis by auto
qed

text \<open>One turn of the clock loop of \<open>check_clock\<close> terminates and, whatever the timer functions do as long
  as they do not cancel each other, calls exactly the timers set for the new tick, each once, with its own
  function and argument, and leaves the queues in order.\<close>

theorem clock_tick_calls_due:
  assumes "polite X run" "tq_rep s L"
  shows "\<exists>cs s' L'. clock_tick run s = Some (cs, s') \<and> tq_rep s' L' \<and> lbolt s' = lbolt s + 1 \<and>
    (\<forall>f a x. (f, a, x) \<in> set cs \<longleftrightarrow> x \<in> set (concat L) \<and> entry s x = Some (lbolt s + 1, Some f, a)) \<and>
    (\<forall>x. length (filter (\<lambda>c. snd (snd c) = x) cs) \<le> 1)"
proof -
  let ?s0 = "s\<lparr>lbolt := lbolt s + 1, broken_clocks := broken_clocks s - 1\<rparr>"
  let ?b = "bucket (lbolt s + 1)"
  let ?cs = "due_calls ?s0 (L ! ?b)"
  obtain s' L' where s': "clock_tick run s = Some (?cs, s')" "tq_rep s' L'" "lbolt s' = lbolt s + 1"
    using clock_tick_rep [OF assms] by blast
  note d = tq_repD [OF assms(2)]
  have e: "entry ?s0 x = entry s x" for x by (simp add: entry_def)
  have sub: "x \<in> set (L ! ?b) \<Longrightarrow> x \<in> set (concat L)" for x using nth_in_concat [of ?b L x] d(2) by simp
  have "(f, a, x) \<in> set ?cs \<longleftrightarrow> x \<in> set (concat L) \<and> entry s x = Some (lbolt s + 1, Some f, a)" for f a x
    using in_bucket [OF assms(2), of x "lbolt s + 1"] sub [of x] unfolding due_calls_iff e by auto
  moreover have "length (filter (\<lambda>c. snd (snd c) = x) ?cs) \<le> 1" for x
  proof -
    have "distinct (L ! ?b)" using distinct_concat_nth [OF d(3)] d(2) by simp
    then show ?thesis by (auto simp: filter_due_calls due_call_def split: option.splits)
  qed
  ultimately show ?thesis using s' by blast
qed

theorem clock_tick_calls_due_witness:
  "\<exists>cs s'. clock_tick (rearm 10) example_clk = Some (cs, s') \<and> (70, 7, 1) \<in> set cs \<and> (80, 8, 2) \<notin> set cs \<and>
    lbolt s' = 32"
proof -
  have e: "entry example_clk 1 = Some (32, Some 70, 7)" "entry example_clk 2 = Some (64, Some 80, 8)" "lbolt example_clk = 31"
    by (simp_all add: entry_def example_clk_def)
  have "1 \<in> set (concat ((replicate 32 ([] :: addr list))[0 := [1, 2]]))"
    by (simp add: numeral_eq_Suc)
  moreover obtain cs s' where "clock_tick (rearm 10) example_clk = Some (cs, s')" "lbolt s' = lbolt example_clk + 1"
    "\<forall>f a x. (f, a, x) \<in> set cs \<longleftrightarrow> x \<in> set (concat ((replicate 32 [])[0 := [1, 2]])) \<and>
      entry example_clk x = Some (lbolt example_clk + 1, Some f, a)"
    using clock_tick_calls_due [OF rearm_polite [of UNIV 10] example_clk_rep] by blast
  ultimately have "(70, 7, 1) \<in> set cs" "(80, 8, 2) \<notin> set cs" "lbolt s' = 32" using e by simp_all
  with \<open>clock_tick (rearm 10) example_clk = Some (cs, s')\<close> show ?thesis by blast
qed

text \<open>C3: A timer set for \<open>n\<close> ticks is called at the \<open>n\<close>th tick and not before, provided that the functions of the timers that fire meanwhile are polite to it:
  when \<open>check_clock\<close> catches up on \<open>m \<le> n\<close> ticks, it returns having called the timer's function once if \<open>m = n\<close> and not at all otherwise, for any
  \<open>0 < n < 2 ^ 32\<close> and across the wrap-around of the tick counter. The timing queues are in order when it is set. Polite functions (\<open>polite {x}\<close>) keep the queues in
  order, do not change the tick counters, and set or cancel neither this timer nor those that the scan of the current queue has still to look at; any function
  may set its own timer again (\<open>rearm_polite\<close>). A function that cancels this timer, or one that is next in the scan, is not covered.\<close>

theorem timer_fires_on_time:
  assumes "tq_rep s L" "timers s x \<noteq> None" "timeout x n (Some f) a s = Some s'" "n \<noteq> 0"
    "polite {x} run" "m \<le> unat n"
  shows "\<exists>cs t. clock_ticks run (s'\<lparr>broken_clocks := m\<rparr>) = Some (cs, t) \<and> lbolt t = lbolt s + of_nat m \<and>
    filter (\<lambda>c. snd (snd c) = x) cs = (if m = unat n then [(f, a, x)] else [])"
proof -
  obtain t where t: "timers s x = Some t" using assms(2) by blast
  from timeout_rep [OF assms(1) t, of n "Some f" a] assms(3) have r: "lbolt s' = lbolt s"
    "tq_rep s' (requeued x (lbolt s + n) L)" "entry s' = (entry s)(x \<mapsto> (lbolt s + n, Some f, a))" by auto
  let ?s = "s'\<lparr>broken_clocks := m\<rparr>"
  have "tq_rep ?s (requeued x (lbolt s + n) L)" using r(2) by (simp add: tq_rep_def)
  moreover have "x \<in> set (concat (requeued x (lbolt s + n) L))"
    using set_requeued [OF tq_repD(2,3) [OF assms(1)]] by simp
  moreover have "entry ?s x = Some (lbolt ?s + n, Some f, a)" using r(1) fun_cong [OF r(3), of x] by (simp add: entry_def)
  ultimately show ?thesis
    using clock_ticks_timer [OF assms(5), of x ?s "requeued x (lbolt s + n) L" n f a m] assms(4,6) r(1) by auto
qed

theorem timer_fires_on_time_witness:
  "\<exists>s' cs t. timeout 3 5 (Some 90) 9 example_clk = Some s' \<and>
    clock_ticks (rearm 10) (s'\<lparr>broken_clocks := 5\<rparr>) = Some (cs, t) \<and> filter (\<lambda>c. snd (snd c) = 3) cs = [(90, 9, 3)]"
proof -
  have t: "timers example_clk 3 = Some \<lparr>t_next = None, t_last = None, t_lbolt = 0, t_func = None, t_farg = 0\<rparr>"
    by (simp add: example_clk_def)
  obtain s' where s': "timeout 3 5 (Some 90) 9 example_clk = Some s'"
    using timeout_rep [OF example_clk_rep t, of 5 "Some 90" 9] by blast
  have "timers example_clk 3 \<noteq> None" "(5 :: 32 word) \<noteq> 0" "5 \<le> unat (5 :: 32 word)" using t by simp_all
  from timer_fires_on_time [OF example_clk_rep this(1) s' this(2) rearm_polite [of "{3}" 10] this(3)] s'
  show ?thesis by auto
qed

end
