(* ===== verification/Pipe.thy ===== *)
theory Pipe
  imports Prelude "HOL-Library.Word"
begin

text \<open>
  Pipes, \<open>coh.386/pipe.c\<close>: the first \<open>PIPE_MAX\<close> bytes of an inode's file used as a ring, with
  counts of the readers and writers that are awake and asleep. \<open>PIPE_MAX\<close> is the parameter \<open>N\<close>.
  The other processes act on a pipe only while the caller sleeps in \<open>psleep\<close> (the inode is locked
  otherwise): one sleep is one element of the script of wakeups.
\<close>

section \<open>State\<close>

type_synonym byte = "8 word"

text \<open>Whom a process sleeps for, and what the routines tell the rest of the system.\<close>

datatype who = IFWFR | IFWFW

datatype pipe_event = Wakeup who | Pollwake_iev | Pollwake_oev | Pollopen_iev | Pollopen_oev | Bclean nat | Evclear | Icopymd

record pipe =
  i_pnc :: nat
  i_prx :: nat
  i_pwx :: nat
  i_par :: int
  i_paw :: int
  i_psr :: int
  i_psw :: int
  i_pipe :: "nat list"
  i_data :: "byte list"
  i_locked :: bool
  i_log :: "pipe_event list"

text \<open>
  The request of a system call: \<open>io_base\<close> are the bytes to write, as far as the process may read its memory, or those read so far;
  \<open>io_room\<close> is how many more the user's buffer can take before it faults. \<open>io_fail\<close> says after how many more blocks
  the file system fails to give a buffer for a block, and with which error (\<open>ENOSPC\<close>, \<open>EIO\<close>); \<^const>\<open>None\<close> if it never does. \<open>io_junk\<close> is what a
  buffer holds that \<open>bclaim\<close> gives without reading.
\<close>

record io =
  io_ioc :: nat
  io_seek :: nat
  io_ndly :: bool
  io_nonblock :: bool
  io_base :: "byte list"
  io_room :: nat
  io_fail :: "(nat \<times> errno) option"
  io_junk :: "nat \<Rightarrow> byte"
  u_error :: "errno option"

section \<open>Operations\<close>

abbreviation log_pipe :: "pipe_event list \<Rightarrow> pipe \<Rightarrow> pipe" where
  "log_pipe es s \<equiv> s\<lparr>i_log := i_log s @ es\<rparr>"

definition pclear :: "pipe \<Rightarrow> pipe" where
  "pclear s = log_pipe [Evclear] (s\<lparr>i_pnc := 0, i_prx := 0, i_pwx := 0, i_par := 0, i_paw := 0, i_psr := 0, i_psw := 0\<rparr>)"

text \<open>The assertion that the inode is locked is a fault when it fails.\<close>

definition pclean :: "pipe \<Rightarrow> pipe option" where
  "pclean s = (if \<not> i_locked s then None
     else Some (log_pipe (map Bclean (filter (\<lambda>b. b \<noteq> 0) (i_pipe s))) s))"

definition pwake :: "nat \<Rightarrow> who \<Rightarrow> pipe \<Rightarrow> pipe" where
  "pwake N who s = (case who of
     IFWFW \<Rightarrow>
       let s = (if i_psr s \<noteq> 0 then log_pipe [Wakeup IFWFW] s else s)
       in if 0 < i_pnc s \<or> (i_paw s = 0 \<and> i_psw s = 0) then log_pipe [Pollwake_iev] s else s
   | IFWFR \<Rightarrow>
       let s = (if i_psw s \<noteq> 0 then log_pipe [Wakeup IFWFR] s else s)
       in if i_pnc s < N \<and> (i_par s \<noteq> 0 \<or> i_psr s \<noteq> 0) then log_pipe [Pollwake_oev] s else s)"

text \<open>The new inode, if \<open>ialloc\<close> gives one.\<close>

definition pmake :: "pipe option \<Rightarrow> pipe option" where
  "pmake ip = (case ip of None \<Rightarrow> None | Some ip \<Rightarrow> Some (log_pipe [Icopymd] (pclear ip)))"

text \<open>\<open>psleep\<close> up to the call of \<open>x_sleep\<close>, and the whole of it for one wakeup.\<close>

definition psleep_in :: "who \<Rightarrow> pipe \<Rightarrow> pipe" where
  "psleep_in who s = (let s = s\<lparr>i_locked := False\<rparr> in case who of
     IFWFW \<Rightarrow> s\<lparr>i_par := i_par s - 1, i_psr := i_psr s + 1\<rparr>
   | IFWFR \<Rightarrow> s\<lparr>i_paw := i_paw s - 1, i_psw := i_psw s + 1\<rparr>)"

definition psleep :: "who \<Rightarrow> pipe wake \<Rightarrow> pipe \<Rightarrow> pipe \<times> errno option" where
  "psleep who w s =
     (let s = fst w (psleep_in who s);
          s = (case who of
             IFWFW \<Rightarrow> s\<lparr>i_par := i_par s + 1, i_psr := i_psr s - 1\<rparr>
           | IFWFR \<Rightarrow> s\<lparr>i_paw := i_paw s + 1, i_psw := i_psw s - 1\<rparr>)
      in (s\<lparr>i_locked := True\<rparr>, if snd w then Some EINTR else None))"

text \<open>
  \<open>popen\<close> by mode; \<open>nb\<close> says that \<open>IPNDLY\<close> or \<open>IPNONBLOCK\<close> is set. The value is the error stored.
\<close>

fun popen_wait :: "bool \<Rightarrow> pipe wake list \<Rightarrow> pipe \<Rightarrow> (pipe, errno option) outcome" where
  "popen_wait nb ws s =
     (if i_paw s \<noteq> 0 \<or> i_psw s \<noteq> 0 \<or> nb then Done s None
      else (case ws of [] \<Rightarrow> Blocked (psleep_in IFWFW s)
        | w # ws \<Rightarrow> (case psleep IFWFW w s of
            (s, Some e) \<Rightarrow> Done s (Some e)
          | (s, None) \<Rightarrow> if i_pnc s \<noteq> 0 then Done s None else popen_wait nb ws s)))"

definition popen_r :: "nat \<Rightarrow> bool \<Rightarrow> pipe wake list \<Rightarrow> pipe \<Rightarrow> (pipe, errno option) outcome" where
  "popen_r N nb ws s =
     (case popen_wait nb ws (s\<lparr>i_par := i_par s + 1\<rparr>) of
        Blocked s \<Rightarrow> Blocked s
      | Done s (Some e) \<Rightarrow> Done (s\<lparr>i_par := i_par s - 1\<rparr>) (Some e)
      | Done s None \<Rightarrow> Done (pwake N IFWFR s) None)"

definition popen_w :: "nat \<Rightarrow> bool \<Rightarrow> pipe wake list \<Rightarrow> pipe \<Rightarrow> (pipe, errno option) outcome" where
  "popen_w N nb ws s =
     (let s = s\<lparr>i_paw := i_paw s + 1\<rparr> in
      if i_par s = 0 \<and> i_psr s = 0 then
        (if nb then Done (s\<lparr>i_paw := i_paw s - 1\<rparr>) (Some ENXIO)
         else (case ws of [] \<Rightarrow> Blocked (psleep_in IFWFR s)
           | w # _ \<Rightarrow> (case psleep IFWFR w s of
               (s, Some e) \<Rightarrow> Done (s\<lparr>i_paw := i_paw s - 1\<rparr>) (Some e)
             | (s, None) \<Rightarrow> Done (pwake N IFWFW s) None)))
      else Done (pwake N IFWFW s) None)"

definition popen :: "nat \<Rightarrow> bool \<Rightarrow> bool \<Rightarrow> bool \<Rightarrow> pipe wake list \<Rightarrow> pipe \<Rightarrow> (pipe, errno option) outcome" where
  "popen N ipr ipw nb ws s =
     (if ipr \<and> \<not> ipw then popen_r N nb ws s
      else if \<not> ipr \<and> ipw then popen_w N nb ws s
      else if ipr \<and> ipw then
        Done (pwake N IFWFR (pwake N IFWFW (s\<lparr>i_par := i_par s + 1, i_paw := i_paw s + 1\<rparr>))) None
      else Done s None)"

text \<open>A count that would become negative is a panic.\<close>

definition pclose_r :: "pipe \<Rightarrow> pipe option" where
  "pclose_r s = (let s = s\<lparr>i_par := i_par s - 1\<rparr> in
     if i_par s < 0 then None
     else Some (if i_par s = 0 \<and> i_psr s = 0 then log_pipe [Pollwake_oev] s else s))"

definition pclose_w :: "pipe \<Rightarrow> pipe option" where
  "pclose_w s = (let s = s\<lparr>i_paw := i_paw s - 1\<rparr> in
     if i_paw s < 0 then None
     else Some (if i_paw s = 0 \<and> i_psw s = 0 then log_pipe [Pollwake_iev] s else s))"

definition pclose :: "nat \<Rightarrow> bool \<Rightarrow> bool \<Rightarrow> pipe \<Rightarrow> pipe option" where
  "pclose N ipr ipw s = do {
     let s = pwake N IFWFW (pwake N IFWFR s);
     s \<leftarrow> (if ipr then pclose_r s else Some s);
     s \<leftarrow> (if ipw then pclose_w s else Some s);
     Some (if i_paw s = 0 \<and> i_psw s = 0 \<and> i_par s = 0 \<and> i_psr s = 0 then pclear s else s)
   }"

text \<open>
  The transfers of \<open>fread\<close> and \<open>fwrite\<close> of \<open>coh.386/fs3.c\<close> between the file of a pipe and the user, block by block: \<open>io_ioc\<close> bytes at \<open>io_seek\<close>. They end
  with an error when a block cannot be had, and when the user's memory faults; in the second case \<open>ioread\<close> and \<open>iowrite\<close> count the piece all the same, and a
  whole block that was to be written keeps what its buffer held. The way from a place in the file to its block is that of the theory \<open>FsFile\<close>.
  A block has the 512 bytes of a disk sector, as the drivers transfer it (\<open>conf/at/src/at.c\<close>); no lemma about pipes without errors depends on the number.
\<close>

definition BSIZE :: nat where
  "BSIZE = 512"

definition piece :: "nat \<Rightarrow> nat \<Rightarrow> nat" where
  "piece pos ioc = min (BSIZE - pos mod BSIZE) ioc"

definition block_used :: "io \<Rightarrow> io" where
  "block_used iop = iop\<lparr>io_fail := map_option (\<lambda>(k, e). (k - 1, e)) (io_fail iop)\<rparr>"

definition store :: "nat \<Rightarrow> byte list \<Rightarrow> pipe \<Rightarrow> pipe" where
  "store pos bs s = s\<lparr>i_data := take pos (i_data s) @ bs @ drop (pos + length bs) (i_data s)\<rparr>"

lemma piece_pos [simp]: "0 < ioc \<Longrightarrow> 0 < piece pos ioc" "piece pos ioc \<le> ioc"
  by (simp_all add: piece_def BSIZE_def)

function fread_blocks :: "pipe \<Rightarrow> nat \<Rightarrow> io \<Rightarrow> io" where
  "fread_blocks s pos iop =
     (if io_ioc iop = 0 then iop
      else case io_fail iop of
        Some (0, e) \<Rightarrow> iop\<lparr>u_error := Some e\<rparr>
      | _ \<Rightarrow>
          let n = piece pos (io_ioc iop); iop = (block_used iop)\<lparr>io_ioc := io_ioc iop - n\<rparr>
          in if io_room iop < n then iop\<lparr>u_error := Some EFAULT\<rparr>
             else fread_blocks s (pos + n) (iop\<lparr>io_base := io_base iop @ take n (drop pos (i_data s)), io_room := io_room iop - n\<rparr>))"
  by pat_completeness auto
termination by (relation "measure (\<lambda>(s, pos, iop). io_ioc iop)") (auto simp: block_used_def)

definition fread :: "pipe \<Rightarrow> io \<Rightarrow> io" where
  "fread s iop = fread_blocks s (io_seek iop) iop"

function fwrite :: "pipe \<Rightarrow> io \<Rightarrow> pipe \<times> io" where
  "fwrite s iop =
     (if io_ioc iop = 0 then (s, iop)
      else case io_fail iop of
        Some (0, e) \<Rightarrow> (s, iop\<lparr>u_error := Some e\<rparr>)
      | _ \<Rightarrow>
          let pos = io_seek iop; n = piece pos (io_ioc iop); iop = (block_used iop)\<lparr>io_ioc := io_ioc iop - n\<rparr>
          in if length (io_base iop) < n
             then (if pos mod BSIZE = 0 \<and> n = BSIZE then store pos (map (io_junk iop) [0..<n]) s else s, iop\<lparr>u_error := Some EFAULT\<rparr>)
             else fwrite (store pos (take n (io_base iop)) s) (iop\<lparr>io_base := drop n (io_base iop), io_seek := pos + n\<rparr>))"
  by pat_completeness auto
termination by (relation "measure (\<lambda>(s, iop). io_ioc iop)") (auto simp: block_used_def)

declare fread_blocks.simps [simp del] fwrite.simps [simp del]

text \<open>Without errors all bytes are moved.\<close>

lemma fread_all:
  assumes "io_fail iop = None" "io_ioc iop \<le> io_room iop" "pos + io_ioc iop \<le> length (i_data s)"
  shows "fread_blocks s pos iop = iop\<lparr>io_base := io_base iop @ take (io_ioc iop) (drop pos (i_data s)), io_room := io_room iop - io_ioc iop, io_ioc := 0\<rparr>"
  using assms
proof (induction s pos iop rule: fread_blocks.induct)
  case (1 s pos iop)
  let ?n = "piece pos (io_ioc iop)"
  show ?case
  proof (cases "io_ioc iop = 0")
    case True
    then show ?thesis by (simp add: fread_blocks.simps)
  next
    case False
    have n: "?n \<le> io_ioc iop" by simp
    then have room: "\<not> io_room iop < ?n" using 1(4) by linarith
    have u: "block_used iop = iop" using 1(3) by (simp add: block_used_def)
    let ?iop = "iop\<lparr>io_ioc := io_ioc iop - ?n, io_base := io_base iop @ take ?n (drop pos (i_data s)), io_room := io_room iop - ?n\<rparr>"
    have IH: "fread_blocks s (pos + ?n) ?iop = ?iop\<lparr>io_base := io_base ?iop @ take (io_ioc ?iop) (drop (pos + ?n) (i_data s)), io_room := io_room ?iop - io_ioc ?iop, io_ioc := 0\<rparr>"
      using 1(1) [OF False 1(3)] 1(3-5) room n u by (simp add: Let_def)
    have "take (io_ioc iop) (drop pos (i_data s)) = take ?n (drop pos (i_data s)) @ take (io_ioc iop - ?n) (drop (pos + ?n) (i_data s))"
      using take_add [of ?n "io_ioc iop - ?n" "drop pos (i_data s)"] n by (simp add: add.commute)
    then show ?thesis using False IH u room 1(3) n by (subst fread_blocks.simps) (simp add: Let_def)
  qed
qed

lemma store_store: "pos + length bs \<le> length (i_data s) \<Longrightarrow> store (pos + length bs) cs (store pos bs s) = store pos (bs @ cs) s"
  by (simp add: store_def ac_simps)

lemma fwrite_all:
  assumes "io_fail iop = None" "io_ioc iop \<le> length (io_base iop)" "io_seek iop + io_ioc iop \<le> length (i_data s)"
  shows "fwrite s iop = (store (io_seek iop) (take (io_ioc iop) (io_base iop)) s,
    iop\<lparr>io_base := drop (io_ioc iop) (io_base iop), io_ioc := 0, io_seek := io_seek iop + io_ioc iop\<rparr>)"
  using assms
proof (induction s iop rule: fwrite.induct)
  case (1 s iop)
  let ?n = "piece (io_seek iop) (io_ioc iop)"
  show ?case
  proof (cases "io_ioc iop = 0")
    case True
    then show ?thesis by (simp add: fwrite.simps store_def)
  next
    case False
    have n: "?n \<le> io_ioc iop" by simp
    then have len: "\<not> length (io_base iop) < ?n" "min (length (io_base iop)) ?n = ?n" using 1(4) by linarith+
    have u: "block_used iop = iop" using 1(3) by (simp add: block_used_def)
    let ?iop = "iop\<lparr>io_ioc := io_ioc iop - ?n, io_base := drop ?n (io_base iop), io_seek := io_seek iop + ?n\<rparr>"
    let ?s = "store (io_seek iop) (take ?n (io_base iop)) s"
    have "io_seek iop + ?n \<le> length (i_data s)" using 1(5) n by linarith
    note le = this
    then have l: "length (i_data ?s) = length (i_data s)" using len(2) by (simp add: store_def)
    have IH: "fwrite ?s ?iop = (store (io_seek ?iop) (take (io_ioc ?iop) (io_base ?iop)) ?s,
        ?iop\<lparr>io_base := drop (io_ioc ?iop) (io_base ?iop), io_ioc := 0, io_seek := io_seek ?iop + io_ioc ?iop\<rparr>)"
      using 1(1) [OF False 1(3)] 1(3-5) len n u l by (simp add: Let_def)
    have t: "take (io_ioc iop) (io_base iop) = take ?n (io_base iop) @ take (io_ioc iop - ?n) (drop ?n (io_base iop))"
      using take_add [of ?n "io_ioc iop - ?n" "io_base iop"] n by simp
    have "store (io_seek iop + ?n) (take (io_ioc iop - ?n) (drop ?n (io_base iop))) ?s = store (io_seek iop) (take (io_ioc iop) (io_base iop)) s"
      using store_store [of "io_seek iop" "take ?n (io_base iop)" s "take (io_ioc iop - ?n) (drop ?n (io_base iop))"] le len(2) unfolding t by simp
    then show ?thesis using False IH u len 1(3) n by (subst fwrite.simps) (simp add: Let_def)
  qed
qed

text \<open>The wait of \<open>pread\<close> for data; the flag says whether \<open>pread\<close> goes on to copy.\<close>

fun pread_wait :: "pipe wake list \<Rightarrow> pipe \<Rightarrow> io \<Rightarrow> (pipe, io \<times> bool) outcome option" where
  "pread_wait ws s iop =
     (if i_pnc s \<noteq> 0 then Some (Done s (iop, True))
      else if io_ndly iop then Some (Done s (iop, False))
      else if i_paw s = 0 \<and> i_psw s = 0 then Some (Done s (iop, False))
      else if io_nonblock iop then Some (Done s (iop\<lparr>u_error := Some EAGAIN\<rparr>, False))
      else (case pclean s of None \<Rightarrow> None | Some s \<Rightarrow>
        (case ws of [] \<Rightarrow> Some (Blocked (psleep_in IFWFW s))
         | w # ws \<Rightarrow> (case psleep IFWFW w s of
             (s, Some e) \<Rightarrow> Some (Done s (iop\<lparr>u_error := Some e\<rparr>, False))
           | (s, None) \<Rightarrow> pread_wait ws s iop))))"

partial_function (option) pread_copy :: "nat \<Rightarrow> nat \<Rightarrow> pipe \<Rightarrow> io \<Rightarrow> (nat \<times> pipe \<times> io) option" where
  "pread_copy N ioc s iop =
     (if u_error iop = None \<and> 0 < ioc \<and> 0 < i_pnc s then do {
        let n = (if N - i_prx s > ioc then ioc else N - i_prx s);
        let n = (if n > i_pnc s then i_pnc s else n);
        let iop = fread s (iop\<lparr>io_ioc := n, io_seek := i_prx s\<rparr>);
        let n = n - io_ioc iop;
        let s = s\<lparr>i_prx := (if i_prx s + n = N then 0 else i_prx s + n)\<rparr>;
        let s = s\<lparr>i_pnc := i_pnc s - n\<rparr>;
        s \<leftarrow> (if i_pnc s = 0 then pclean (s\<lparr>i_prx := 0, i_pwx := 0\<rparr>) else Some s);
        pread_copy N (ioc - n) s iop
      } else Some (ioc, s, iop))"

definition pread :: "nat \<Rightarrow> pipe wake list \<Rightarrow> pipe \<Rightarrow> io \<Rightarrow> (pipe, io) outcome option" where
  "pread N ws s iop =
     (case pread_wait ws s iop of None \<Rightarrow> None
      | Some (Blocked s) \<Rightarrow> Some (Blocked s)
      | Some (Done s (iop, False)) \<Rightarrow> Some (Done s iop)
      | Some (Done s (iop, True)) \<Rightarrow> do {
          (ioc, s, iop) \<leftarrow> pread_copy N (io_ioc iop) s iop;
          let iop = iop\<lparr>io_ioc := ioc\<rparr>;
          Some (Done (if i_pnc s < N then pwake N IFWFR s else s) iop)
        })"

text \<open>A write without a reader also sends \<open>SIGPIPE\<close>; the error \<open>EPIPE\<close> stands for both.\<close>

partial_function (option) pwrite_loop ::
  "nat \<Rightarrow> pipe wake list \<Rightarrow> nat \<Rightarrow> pipe \<Rightarrow> io \<Rightarrow> (pipe, nat \<times> io) outcome option" where
  "pwrite_loop N ws ioc s iop =
     (if u_error iop \<noteq> None \<or> ioc = 0 then Some (Done s (ioc, iop))
      else if i_par s = 0 \<and> i_psr s = 0 then Some (Done s (ioc, iop\<lparr>u_error := Some EPIPE\<rparr>))
      else
        let n = (if N - i_pwx s > ioc then ioc else N - i_pwx s);
            n = (if n > N - i_pnc s then N - i_pnc s else n)
        in if n = 0 \<or> (ioc \<le> N \<and> n \<noteq> ioc) then
             (if io_ndly iop then Some (Done s (ioc, iop))
              else if io_nonblock iop then Some (Done s (ioc, iop\<lparr>u_error := Some EAGAIN\<rparr>))
              else (case ws of [] \<Rightarrow> Some (Blocked (psleep_in IFWFR s))
                | w # ws \<Rightarrow> (case psleep IFWFR w s of
                    (s, Some e) \<Rightarrow> Some (Done s (ioc, iop\<lparr>u_error := Some e\<rparr>))
                  | (s, None) \<Rightarrow> pwrite_loop N ws ioc s iop)))
           else
             let (s, iop) = fwrite s (iop\<lparr>io_ioc := n, io_seek := i_pwx s\<rparr>);
                 n = n - io_ioc iop;
                 s = s\<lparr>i_pwx := (if i_pwx s + n = N then 0 else i_pwx s + n)\<rparr>;
                 s = s\<lparr>i_pnc := i_pnc s + n\<rparr>;
                 s = (if 0 < i_pnc s then pwake N IFWFW s else s)
             in pwrite_loop N ws (ioc - n) s iop)"

definition pwrite :: "nat \<Rightarrow> pipe wake list \<Rightarrow> pipe \<Rightarrow> io \<Rightarrow> (pipe, io) outcome option" where
  "pwrite N ws s iop =
     (case pwrite_loop N ws (io_ioc iop) s iop of None \<Rightarrow> None
      | Some (Blocked s) \<Rightarrow> Some (Blocked s)
      | Some (Done s (ioc, iop)) \<Rightarrow> Some (Done s (iop\<lparr>io_ioc := ioc\<rparr>)))"

text \<open>\<open>ppoll\<close> for the events asked for; \<open>msec\<close> says that the caller is ready to wait.\<close>

datatype poll_bit = POLLIN | POLLOUT | POLLHUP

definition ppoll_in :: "bool \<Rightarrow> pipe \<Rightarrow> poll_bit set \<Rightarrow> poll_bit set \<times> pipe" where
  "ppoll_in msec s rval =
     (let rval = (if 0 < i_pnc s then insert POLLIN rval else rval);
          rval = (if i_paw s = 0 \<and> i_psw s = 0 then insert POLLHUP rval else rval)
      in (rval, if rval = {} \<and> msec then log_pipe [Pollopen_iev] s else s))"

definition ppoll_out :: "nat \<Rightarrow> bool \<Rightarrow> pipe \<Rightarrow> poll_bit set \<Rightarrow> poll_bit set \<times> pipe" where
  "ppoll_out N msec s rval =
     (let rval = (if i_pnc s < N \<and> (i_par s \<noteq> 0 \<or> i_psr s \<noteq> 0) then insert POLLOUT rval else rval);
          rval = (if i_par s = 0 \<and> i_psr s = 0 then insert POLLHUP rval else rval)
      in (rval, if rval = {} \<and> msec then log_pipe [Pollopen_oev] s else s))"

definition ppoll :: "nat \<Rightarrow> poll_bit set \<Rightarrow> bool \<Rightarrow> pipe \<Rightarrow> poll_bit set \<times> pipe" where
  "ppoll N ev msec s =
     (let (rval, s) = (if POLLIN \<in> ev then ppoll_in msec s {} else ({}, s))
      in if POLLOUT \<in> ev then ppoll_out N msec s rval else (rval, s))"

declare popen_wait.simps [simp del] pread_wait.simps [simp del]

section \<open>The pipe as a list of bytes\<close>

definition pipe_ring :: "nat \<Rightarrow> pipe \<Rightarrow> bool" where
  "pipe_ring N s \<longleftrightarrow> 0 < N \<and> length (i_data s) = N \<and> i_prx s < N \<and> i_pnc s \<le> N \<and>
     i_pwx s = (i_prx s + i_pnc s) mod N \<and> (i_pnc s = 0 \<longrightarrow> i_prx s = 0)"

definition pipe_ok :: "nat \<Rightarrow> pipe \<Rightarrow> bool" where
  "pipe_ok N s \<longleftrightarrow> pipe_ring N s \<and> i_locked s"

definition contents :: "nat \<Rightarrow> pipe \<Rightarrow> byte list" where
  "contents N s = map (\<lambda>i. i_data s ! ((i_prx s + i) mod N)) [0..<i_pnc s]"

text \<open>What does not touch the ring.\<close>

definition same_ring :: "pipe \<Rightarrow> pipe \<Rightarrow> bool" where
  "same_ring s t \<longleftrightarrow> i_pnc s = i_pnc t \<and> i_prx s = i_prx t \<and> i_pwx s = i_pwx t \<and> i_data s = i_data t"

lemma same_ring_simps [simp]: "same_ring s s" "same_ring (log_pipe es s) s" "same_ring (s\<lparr>i_par := a\<rparr>) s"
  "same_ring (s\<lparr>i_paw := b\<rparr>) s" "same_ring (pwake N who s) s" "same_ring (psleep_in who s) s"
  by (auto simp: same_ring_def pwake_def psleep_in_def Let_def split: who.splits)

lemma same_ring_ring: "same_ring s t \<Longrightarrow> pipe_ring N s \<longleftrightarrow> pipe_ring N t"
  by (simp add: same_ring_def pipe_ring_def)

lemma same_ring_contents: "same_ring s t \<Longrightarrow> contents N s = contents N t"
  by (simp add: same_ring_def contents_def)

lemma pwake_locked [simp]: "i_locked (pwake N who s) = i_locked s"
  by (auto simp: pwake_def Let_def split: who.splits)

lemma pwake_ok [simp]: "pipe_ok N (pwake M who s) \<longleftrightarrow> pipe_ok N s" "contents N (pwake M who s) = contents N s"
  using same_ring_ring [of "pwake M who s" s] same_ring_contents [of "pwake M who s" s]
  by (simp_all add: pipe_ok_def)

lemma pwake_counts [simp]: "i_par (pwake N who s) = i_par s" "i_paw (pwake N who s) = i_paw s"
  "i_psr (pwake N who s) = i_psr s" "i_psw (pwake N who s) = i_psw s" "i_pnc (pwake N who s) = i_pnc s"
  "i_pwx (pwake N who s) = i_pwx s" "i_prx (pwake N who s) = i_prx s" "i_data (pwake N who s) = i_data s"
  by (auto simp: pwake_def Let_def split: who.splits)

lemma psleep_ring:
  assumes "pipe_ring N s" "\<And>t. pipe_ring N t \<Longrightarrow> pipe_ring N (fst w t)"
  shows "pipe_ok N (fst (psleep who w s))"
proof -
  have "pipe_ring N (fst w (psleep_in who s))"
    using assms same_ring_ring [of "psleep_in who s" s N] by simp
  then show ?thesis by (cases who) (simp_all add: psleep_def Let_def pipe_ok_def pipe_ring_def)
qed

lemma contents_length [simp]: "length (contents N s) = i_pnc s"
  by (simp add: contents_def)

lemma contents_nth: "i < i_pnc s \<Longrightarrow> contents N s ! i = i_data s ! ((i_prx s + i) mod N)"
  by (simp add: contents_def)

text \<open>Reading \<open>k\<close> bytes.\<close>

definition ring_read :: "nat \<Rightarrow> nat \<Rightarrow> pipe \<Rightarrow> pipe" where
  "ring_read N k s =
     (let s = s\<lparr>i_prx := (if i_prx s + k = N then 0 else i_prx s + k)\<rparr>;
          s = s\<lparr>i_pnc := i_pnc s - k\<rparr>
      in if i_pnc s = 0 then s\<lparr>i_prx := 0, i_pwx := 0\<rparr> else s)"

lemma take_contents:
  assumes "pipe_ring N s" "k \<le> N - i_prx s" "k \<le> i_pnc s"
  shows "take k (drop (i_prx s) (i_data s)) = take k (contents N s)"
  using assms by (intro nth_equalityI) (auto simp: pipe_ring_def contents_nth)

lemma ring_read:
  assumes r: "pipe_ring N s" and k: "k \<le> N - i_prx s" "k \<le> i_pnc s"
  shows "pipe_ring N (ring_read N k s)" "contents N (ring_read N k s) = drop k (contents N s)"
    "i_pnc (ring_read N k s) = i_pnc s - k" "i_locked (ring_read N k s) = i_locked s"
proof -
  let ?t = "ring_read N k s"
  have le: "i_prx s + k \<le> N" using r k by (auto simp: pipe_ring_def)
  then have w: "(if i_prx s + k = N then 0 else i_prx s + k) = (i_prx s + k) mod N" by auto
  show p: "i_pnc ?t = i_pnc s - k" "i_locked ?t = i_locked s" by (simp_all add: ring_read_def Let_def)
  have d: "i_data ?t = i_data s" by (simp add: ring_read_def Let_def)
  show "contents N ?t = drop k (contents N s)"
  proof (rule nth_equalityI)
    show "length (contents N ?t) = length (drop k (contents N s))" using p by simp
  next
    fix i assume "i < length (contents N ?t)"
    then have i: "i < i_pnc s - k" using p by simp
    then have "i_prx ?t = (i_prx s + k) mod N" unfolding ring_read_def Let_def w by simp
    then have "contents N ?t ! i = i_data s ! (((i_prx s + k) mod N + i) mod N)"
      using i p d by (simp add: contents_nth)
    then show "contents N ?t ! i = drop k (contents N s) ! i"
      using i k by (simp add: contents_nth mod_simps add.assoc)
  qed
  have n: "0 < N" "length (i_data ?t) = N" using r d by (simp_all add: pipe_ring_def)
  show "pipe_ring N ?t"
  proof (cases "i_pnc s = k")
    case True
    then have "i_pnc ?t = 0" "i_prx ?t = 0" "i_pwx ?t = 0" by (simp_all add: ring_read_def Let_def)
    then show ?thesis using n by (simp add: pipe_ring_def)
  next
    case False
    then have "i_prx ?t = (i_prx s + k) mod N" "i_pwx ?t = i_pwx s" "i_pnc ?t \<noteq> 0"
      using k unfolding ring_read_def Let_def w by simp_all
    moreover have "i_pwx s = ((i_prx s + k) mod N + (i_pnc s - k)) mod N"
    proof -
      have "i_prx s + i_pnc s = (i_prx s + k) + (i_pnc s - k)" using k by simp
      then show ?thesis using r by (simp only: pipe_ring_def mod_add_left_eq)
    qed
    moreover have "i_pnc s - k \<le> N" "i_prx ?t < N" using r calculation(1) by (auto simp: pipe_ring_def)
    ultimately show ?thesis using n p(1) by (simp add: pipe_ring_def)
  qed
qed

text \<open>Writing the \<open>k\<close> bytes \<open>bs\<close>.\<close>

definition ring_write :: "nat \<Rightarrow> byte list \<Rightarrow> pipe \<Rightarrow> pipe" where
  "ring_write N bs s =
     s\<lparr>i_data := take (i_pwx s) (i_data s) @ bs @ drop (i_pwx s + length bs) (i_data s),
       i_pwx := (if i_pwx s + length bs = N then 0 else i_pwx s + length bs),
       i_pnc := i_pnc s + length bs\<rparr>"

lemma ring_write:
  assumes r: "pipe_ring N s" and k: "length bs \<le> N - i_pwx s" "length bs \<le> N - i_pnc s"
  shows "pipe_ring N (ring_write N bs s)" "contents N (ring_write N bs s) = contents N s @ bs"
proof -
  let ?t = "ring_write N bs s" and ?k = "length bs"
  have N: "0 < N" "length (i_data s) = N" "i_prx s < N" "i_pnc s \<le> N" "i_pwx s = (i_prx s + i_pnc s) mod N"
    using r by (simp_all add: pipe_ring_def)
  have wx: "i_pwx s < N" using N by simp
  have le: "i_pwx s + ?k \<le> N" using k wx by simp
  have pwx: "i_pwx ?t = (i_prx s + (i_pnc s + ?k)) mod N"
  proof -
    have "i_pwx ?t = (i_pwx s + ?k) mod N" using le by (auto simp: ring_write_def)
    also have "\<dots> = (i_prx s + (i_pnc s + ?k)) mod N" unfolding N(5) by (simp add: mod_simps add.assoc)
    finally show ?thesis .
  qed
  have p: "i_prx ?t = i_prx s" "i_pnc ?t = i_pnc s + ?k" by (simp_all add: ring_write_def)
  have len: "length (i_data ?t) = N" using N le by (simp add: ring_write_def)
  have "i_prx s = 0" if "i_pnc s + ?k = 0" using that r by (simp add: pipe_ring_def)
  moreover have "i_pnc s + ?k \<le> N" using N k by simp
  ultimately show "pipe_ring N ?t" unfolding pipe_ring_def pwx p len using N by simp
  show "contents N ?t = contents N s @ bs"
  proof (rule nth_equalityI)
    show "length (contents N ?t) = length (contents N s @ bs)" using p by simp
  next
    fix i assume "i < length (contents N ?t)"
    then have i: "i < i_pnc s + ?k" using p by simp
    let ?j = "(i_prx s + i) mod N"
    have c: "contents N ?t ! i = i_data ?t ! ?j" using i p by (simp add: contents_nth)
    show "contents N ?t ! i = (contents N s @ bs) ! i"
    proof (cases "i < i_pnc s")
      case True
      have "?j \<notin> {i_pwx s..<i_pwx s + ?k}"
      proof
        assume "?j \<in> {i_pwx s..<i_pwx s + ?k}"
        define e where "e = ?j - i_pwx s"
        then have e: "?j = i_pwx s + e" "e < ?k" using \<open>?j \<in> {i_pwx s..<i_pwx s + ?k}\<close> by (simp_all, linarith)
        have "(i_prx s + i_pnc s + e) mod N = (i_pwx s + e) mod N" unfolding N(5) by (simp add: mod_simps)
        also have "\<dots> = i_pwx s + e" using e le by simp
        finally have "(i_prx s + i) mod N = (i_prx s + i_pnc s + e) mod N" using e by simp
        then have "N dvd (i_prx s + i_pnc s + e) - (i_prx s + i)"
          using True by (metis add.assoc add_le_cancel_left le_add1 less_imp_le mod_eq_dvd_iff_nat order_trans)
        then have "N \<le> i_pnc s + e - i" using True e by (auto dest: dvd_imp_le)
        then show False using e k N by simp
      qed
      then have "i_data ?t ! ?j = i_data s ! ?j"
        using N le wx mod_less_divisor [OF N(1), of "i_prx s + i"] by (auto simp: ring_write_def nth_append)
      then show ?thesis using c True by (simp add: nth_append contents_nth)
    next
      case False
      define e where "e = i - i_pnc s"
      then have e: "i = i_pnc s + e" "e < ?k" using False i by simp_all
      have "?j = (i_pwx s + e) mod N" unfolding N(5) e by (simp add: mod_simps add.assoc)
      then have "?j = i_pwx s + e" using e le by simp
      then have "i_data ?t ! ?j = bs ! e" using e N wx by (simp add: ring_write_def nth_append)
      then show ?thesis using c e by (simp add: nth_append)
    qed
  qed
qed

section \<open>Reading\<close>

lemma pclean_ring:
  "i_locked s \<Longrightarrow> \<exists>s'. pclean s = Some s' \<and> same_ring s' s \<and> i_locked s' \<and> i_par s' = i_par s \<and> i_paw s' = i_paw s \<and>
    i_psr s' = i_psr s \<and> i_psw s' = i_psw s"
  by (simp add: pclean_def)

lemma pread_copy_done: "u_error iop \<noteq> None \<or> ioc = 0 \<or> i_pnc s = 0 \<Longrightarrow> pread_copy N ioc s iop = Some (ioc, s, iop)"
  by (subst pread_copy.simps) auto

lemma pread_copy_step:
  assumes "pipe_ok N s" "u_error iop = None" "0 < ioc" "0 < i_pnc s" "io_fail iop = None" "min ioc (i_pnc s) \<le> io_room iop"
  defines "k \<equiv> min (min (N - i_prx s) ioc) (i_pnc s)"
  shows "\<exists>s' iop'. pread_copy N ioc s iop = pread_copy N (ioc - k) s' iop' \<and> pipe_ok N s' \<and>
    contents N s' = drop k (contents N s) \<and> io_base iop' = io_base iop @ take k (contents N s) \<and>
    io_room iop' = io_room iop - k \<and> u_error iop' = None \<and> io_fail iop' = None \<and> 0 < k \<and> k \<le> ioc \<and> k \<le> i_pnc s"
proof -
  have r: "pipe_ring N s" "i_locked s" "i_prx s < N" using assms by (simp_all add: pipe_ok_def pipe_ring_def)
  have n: "0 < k" "k \<le> ioc" "k \<le> i_pnc s" "k \<le> N - i_prx s" "k \<le> io_room iop" using r(3) assms(3,4,6) by (auto simp: k_def)
  have k: "k \<le> N - i_prx s" "k \<le> i_pnc s" using n by simp_all
  have nn: "(let n = (if N - i_prx s > ioc then ioc else N - i_prx s) in (if n > i_pnc s then i_pnc s else n)) = k"
    by (simp add: k_def min_def Let_def)
  define iop1 where "iop1 = fread s (iop\<lparr>io_ioc := k, io_seek := i_prx s\<rparr>)"
  have "i_prx s + k \<le> length (i_data s)" using r(1,3) k by (simp add: pipe_ring_def)
  then have i1: "io_ioc iop1 = 0" "io_base iop1 = io_base iop @ take k (contents N s)" "io_room iop1 = io_room iop - k"
    "u_error iop1 = None" "io_fail iop1 = None"
    using assms(2,5) take_contents [OF r(1) k] n(5) by (simp_all add: iop1_def fread_def fread_all)
  let ?t = "ring_read N k s"
  have t: "pipe_ok N ?t" "contents N ?t = drop k (contents N s)" using ring_read [OF r(1) k] r(2) by (simp_all add: pipe_ok_def)
  obtain s' where s': "(if i_pnc ?t = 0 then pclean ?t else Some ?t) = Some s'" "pipe_ok N s'" "contents N s' = contents N ?t"
    using pclean_ring [of ?t] t same_ring_ring same_ring_contents
    by (cases "i_pnc ?t = 0") (auto simp: pipe_ok_def)
  have "pread_copy N ioc s iop = pread_copy N (ioc - k) s' iop1"
  proof -
    have "(let s = s\<lparr>i_prx := (if i_prx s + k = N then 0 else i_prx s + k)\<rparr>; s = s\<lparr>i_pnc := i_pnc s - k\<rparr>
        in if i_pnc s = 0 then pclean (s\<lparr>i_prx := 0, i_pwx := 0\<rparr>) else Some s) = Some s'"
      using s'(1) by (auto simp: ring_read_def Let_def split: if_splits)
    moreover have "u_error iop = None \<and> 0 < ioc \<and> 0 < i_pnc s" using assms(2-4) by simp
    ultimately show ?thesis using nn i1(1)
      by (subst pread_copy.simps) (simp only: Let_def if_True iop1_def [symmetric] bind.bind_lunit simp_thms minus_nat.diff_0)
  qed
  then show ?thesis using s'(2,3) t(2) i1(2-5) n(1-3) by (intro exI [of _ s'] exI [of _ iop1]) simp
qed

lemma pread_copy_rep:
  "pipe_ok N s \<Longrightarrow> u_error iop = None \<Longrightarrow> io_fail iop = None \<Longrightarrow> min ioc (i_pnc s) \<le> io_room iop \<Longrightarrow>
    \<exists>s' iop'. pread_copy N ioc s iop = Some (ioc - min ioc (i_pnc s), s', iop') \<and> pipe_ok N s' \<and>
      contents N s' = drop (min ioc (i_pnc s)) (contents N s) \<and>
      io_base iop' = io_base iop @ take (min ioc (i_pnc s)) (contents N s) \<and> u_error iop' = None"
proof (induction ioc arbitrary: s iop rule: less_induct)
  case (less ioc)
  show ?case
  proof (cases "0 < ioc \<and> 0 < i_pnc s")
    case False
    then show ?thesis using less.prems pread_copy_done [of iop ioc s N] by (intro exI [of _ s] exI [of _ iop]) auto
  next
    case True
    define k where "k = min (min (N - i_prx s) ioc) (i_pnc s)"
    define K where "K = min ioc (i_pnc s)"
    obtain s1 iop1 where 1: "pread_copy N ioc s iop = pread_copy N (ioc - k) s1 iop1" "pipe_ok N s1"
      "contents N s1 = drop k (contents N s)" "io_base iop1 = io_base iop @ take k (contents N s)"
      "io_room iop1 = io_room iop - k" "u_error iop1 = None" "io_fail iop1 = None" "0 < k" "k \<le> ioc" "k \<le> i_pnc s"
      using pread_copy_step [OF less.prems(1,2) conjunct1 [OF True] conjunct2 [OF True] less.prems(3,4), folded k_def] by blast
    have pnc: "i_pnc s1 = i_pnc s - k" using arg_cong [OF 1(3), of length] by simp
    have le: "k \<le> K" using 1(9,10) by (simp add: K_def)
    have m: "min (ioc - k) (i_pnc s1) = K - k" unfolding pnc K_def by simp
    have lt: "ioc - k < ioc" using 1(8,9) by simp
    have room: "min (ioc - k) (i_pnc s1) \<le> io_room iop1" using less.prems(4) unfolding m 1(5) K_def by simp
    obtain s' iop' where 2: "pread_copy N (ioc - k) s1 iop1 = Some (ioc - k - (K - k), s', iop')"
      "pipe_ok N s'" "contents N s' = drop (K - k) (contents N s1)" "io_base iop' = io_base iop1 @ take (K - k) (contents N s1)" "u_error iop' = None"
      using less.IH [OF lt 1(2,6,7) room] unfolding m by blast
    have "ioc - k - (K - k) = ioc - K" using le by simp
    moreover have "drop (K - k) (drop k (contents N s)) = drop K (contents N s)" using le by (simp only: drop_drop le_add_diff_inverse2)
    moreover have "take k (contents N s) @ take (K - k) (drop k (contents N s)) = take K (contents N s)" using le by (metis le_add_diff_inverse take_add)
    ultimately show ?thesis using 1(1,3,4) 2 unfolding K_def [symmetric] by simp
  qed
qed

lemma pread_wait_data: "i_pnc s \<noteq> 0 \<Longrightarrow> pread_wait ws s iop = Some (Done s (iop, True))"
  by (subst pread_wait.simps) simp

lemma pread_data:
  assumes ok: "pipe_ok N s" and d: "0 < i_pnc s" and e: "u_error iop = None" "io_fail iop = None" "min (io_ioc iop) (i_pnc s) \<le> io_room iop"
  defines "k \<equiv> min (io_ioc iop) (i_pnc s)"
  shows "\<exists>s' iop'. pread N ws s iop = Some (Done s' iop') \<and> pipe_ok N s' \<and>
    contents N s' = drop k (contents N s) \<and> io_base iop' = io_base iop @ take k (contents N s) \<and>
    io_ioc iop' = io_ioc iop - k \<and> u_error iop' = None"
proof -
  obtain s' iop' where
    "pread_copy N (io_ioc iop) s iop = Some (io_ioc iop - k, s', iop')" "pipe_ok N s'"
    "contents N s' = drop k (contents N s)" "io_base iop' = io_base iop @ take k (contents N s)" "u_error iop' = None"
    using pread_copy_rep [OF ok e] unfolding k_def by blast
  then show ?thesis using d by (auto simp: pread_def pread_wait_data)
qed

section \<open>Writing\<close>

text \<open>\<open>dozed ws who s t\<close>: the caller went from \<open>s\<close> to \<open>t\<close> by sleeping, woken only by wakeups of \<open>ws\<close>.\<close>

inductive dozed :: "pipe wake list \<Rightarrow> who \<Rightarrow> pipe \<Rightarrow> pipe \<Rightarrow> bool" for ws who where
  here: "dozed ws who s s"
| woken: "w \<in> set ws \<Longrightarrow> dozed ws who (fst (psleep who w s)) t \<Longrightarrow> dozed ws who s t"

inductive_cases dozed_NilE: "dozed [] who s t"

lemma dozed_mono: "dozed ws who s t \<Longrightarrow> set ws \<subseteq> set vs \<Longrightarrow> dozed vs who s t"
  by (induction rule: dozed.induct) (auto intro: dozed.intros)

lemma dozed_Nil: "dozed [] who s t \<Longrightarrow> t = s"
  by (auto elim: dozed_NilE)

lemma dozed_ok: "dozed ws who s t \<Longrightarrow> calm (pipe_ring N) ws \<Longrightarrow> pipe_ok N s \<Longrightarrow> pipe_ok N t"
proof (induction rule: dozed.induct)
  case (here s)
  then show ?case by simp
next
  case (woken w s t)
  then show ?case using psleep_ring [of N s w who] by (auto simp: calm_def pipe_ok_def)
qed

lemma pwrite_loop_done: "u_error iop \<noteq> None \<or> ioc = 0 \<Longrightarrow> pwrite_loop N ws ioc s iop = Some (Done s (ioc, iop))"
  by (subst pwrite_loop.simps) auto

text \<open>How much the next turn of the loop writes; 0 when it may not write.\<close>

definition write_size :: "nat \<Rightarrow> nat \<Rightarrow> pipe \<Rightarrow> nat" where
  "write_size N ioc s = (let n = min (min (N - i_pwx s) ioc) (N - i_pnc s) in if ioc \<le> N \<and> n \<noteq> ioc then 0 else n)"

lemma pwrite_loop_wait:
  assumes "u_error iop = None" "0 < ioc" "i_par s \<noteq> 0 \<or> i_psr s \<noteq> 0" "write_size N ioc s = 0"
  shows "pwrite_loop N ws ioc s iop =
    (if io_ndly iop then Some (Done s (ioc, iop))
     else if io_nonblock iop then Some (Done s (ioc, iop\<lparr>u_error := Some EAGAIN\<rparr>))
     else (case ws of [] \<Rightarrow> Some (Blocked (psleep_in IFWFR s))
       | w # ws \<Rightarrow> (case psleep IFWFR w s of
           (s, Some e) \<Rightarrow> Some (Done s (ioc, iop\<lparr>u_error := Some e\<rparr>))
         | (s, None) \<Rightarrow> pwrite_loop N ws ioc s iop)))"
proof -
  have n: "(let n = (if N - i_pwx s > ioc then ioc else N - i_pwx s) in (if n > N - i_pnc s then N - i_pnc s else n)) =
    min (min (N - i_pwx s) ioc) (N - i_pnc s)" by (simp add: min_def Let_def)
  have c: "min (min (N - i_pwx s) ioc) (N - i_pnc s) = 0 \<or> ioc \<le> N \<and> min (min (N - i_pwx s) ioc) (N - i_pnc s) \<noteq> ioc"
    using assms(4) by (auto simp: write_size_def Let_def split: if_splits)
  have a: "\<not> (i_par s = 0 \<and> i_psr s = 0)" "\<not> (u_error iop \<noteq> None \<or> ioc = 0)" using assms by auto
  show ?thesis
    by (subst pwrite_loop.simps, simp only: a if_False) (use n c in \<open>simp only: Let_def if_True\<close>)
qed

lemma pwrite_loop_write:
  assumes ok: "pipe_ok N s" and u: "u_error iop = None" "0 < ioc" "i_par s \<noteq> 0 \<or> i_psr s \<noteq> 0"
    and n: "write_size N ioc s \<noteq> 0" and io: "io_fail iop = None" "write_size N ioc s \<le> length (io_base iop)"
  defines "k \<equiv> write_size N ioc s"
  shows "\<exists>s' iop'. pwrite_loop N ws ioc s iop = pwrite_loop N ws (ioc - k) s' iop' \<and> pipe_ok N s' \<and>
    contents N s' = contents N s @ take k (io_base iop) \<and> io_base iop' = drop k (io_base iop) \<and>
    u_error iop' = None \<and> k \<le> ioc \<and> i_log s' = i_log (pwake N IFWFW (s\<lparr>i_pnc := i_pnc s + k\<rparr>))"
proof -
  define m where "m = min (min (N - i_pwx s) ioc) (N - i_pnc s)"
  have nn: "(let n = (if N - i_pwx s > ioc then ioc else N - i_pwx s) in (if n > N - i_pnc s then N - i_pnc s else n)) = m"
    by (simp add: min_def Let_def m_def)
  have ws: "write_size N ioc s = m" and c: "\<not> (m = 0 \<or> (ioc \<le> N \<and> m \<noteq> ioc))"
    using n by (auto simp: write_size_def Let_def m_def split: if_splits)
  have a: "\<not> (i_par s = 0 \<and> i_psr s = 0)" "\<not> (u_error iop \<noteq> None \<or> ioc = 0)" using u by auto
  have r: "pipe_ring N s" "i_locked s" using ok by (simp_all add: pipe_ok_def)
  have k: "k = m" "length (take k (io_base iop)) = k" "0 < k" using n io(2) by (simp_all add: k_def ws)
  have le: "k \<le> N - i_pwx s" "k \<le> N - i_pnc s" "k \<le> ioc" unfolding k(1) m_def by linarith+
  define iop1 where "iop1 = snd (fwrite s (iop\<lparr>io_ioc := m, io_seek := i_pwx s\<rparr>))"
  have "i_pwx s < N" "length (i_data s) = N" using r(1) by (simp_all add: pipe_ring_def)
  then have "io_seek (iop\<lparr>io_ioc := m, io_seek := i_pwx s\<rparr>) + io_ioc (iop\<lparr>io_ioc := m, io_seek := i_pwx s\<rparr>) \<le> length (i_data s)"
    using le(1) k(1) by simp
  note F = fwrite_all [OF _ _ this]
  have i1: "io_ioc iop1 = 0" "io_base iop1 = drop k (io_base iop)" "u_error iop1 = None"
    using u F io by (simp_all add: iop1_def k_def ws)
  let ?t = "ring_write N (take k (io_base iop)) s"
  have t: "pipe_ok N ?t" "contents N ?t = contents N s @ take k (io_base iop)"
    using ring_write [OF r(1), of "take k (io_base iop)"] le k r(2) by (simp_all add: pipe_ok_def) (simp add: ring_write_def)
  let ?s = "if 0 < i_pnc ?t then pwake N IFWFW ?t else ?t"
  have "pwrite_loop N ws ioc s iop = pwrite_loop N ws (ioc - k) ?s iop1"
  proof -
    have f: "fwrite s (iop\<lparr>io_ioc := m, io_seek := i_pwx s\<rparr>) =
        (s\<lparr>i_data := take (i_pwx s) (i_data s) @ take k (io_base iop) @ drop (i_pwx s + k) (i_data s)\<rparr>, iop1)"
      using F io k by (simp add: iop1_def store_def k_def [symmetric])
    have t': "?t = s\<lparr>i_data := take (i_pwx s) (i_data s) @ take k (io_base iop) @ drop (i_pwx s + k) (i_data s),
        i_pwx := (if i_pwx s + k = N then 0 else i_pwx s + k), i_pnc := i_pnc s + k\<rparr>"
      by (simp only: ring_write_def k(2))
    have c': "(m = 0 \<or> (ioc \<le> N \<and> m \<noteq> ioc)) = False" using c by simp
    have "pwrite_loop N ws ioc s iop =
      (let (s, iop) = fwrite s (iop\<lparr>io_ioc := m, io_seek := i_pwx s\<rparr>);
           n = m - io_ioc iop;
           s = s\<lparr>i_pwx := (if i_pwx s + n = N then 0 else i_pwx s + n)\<rparr>;
           s = s\<lparr>i_pnc := i_pnc s + n\<rparr>;
           s = (if 0 < i_pnc s then pwake N IFWFW s else s)
       in pwrite_loop N ws (ioc - n) s iop)"
      by (subst pwrite_loop.simps, simp only: a if_False) (simp only: Let_def nn [unfolded Let_def] c' if_False)
    also have "\<dots> = pwrite_loop N ws (ioc - k) ?s iop1"
      unfolding t' f by (simp only: Let_def prod.case i1(1) k(1) [symmetric] minus_nat.diff_0) (simp del: if_split)
    finally show ?thesis .
  qed
  moreover have "i_log ?s = i_log (pwake N IFWFW (s\<lparr>i_pnc := i_pnc s + k\<rparr>))"
    using k(2,3) by (auto simp: ring_write_def pwake_def Let_def)
  ultimately show ?thesis using t i1 le(3) by (intro exI [of _ ?s] exI [of _ iop1]) auto
qed

text \<open>
  The loop returns, the ring stays in order, and what is left of the request is what was not
  appended; a request of at most \<open>N\<close> bytes is appended in one turn or not at all.
\<close>

definition refused :: "io \<Rightarrow> io \<Rightarrow> bool" where
  "refused iop iop' \<longleftrightarrow> io_base iop' = io_base iop \<and>
     (u_error iop' \<in> {Some EPIPE, Some EINTR} \<or> (u_error iop' = Some EAGAIN \<and> io_nonblock iop) \<or>
      (u_error iop' = None \<and> io_ndly iop))"

definition atomic_result :: "nat \<Rightarrow> pipe wake list \<Rightarrow> pipe \<Rightarrow> nat \<Rightarrow> io \<Rightarrow> (pipe, nat \<times> io) outcome \<Rightarrow> bool" where
  "atomic_result N ws s ioc iop r \<longleftrightarrow> (case r of Blocked _ \<Rightarrow> True | Done s' (left, iop') \<Rightarrow>
     pipe_ok N s' \<and>
     ((left = 0 \<and> u_error iop' = None \<and>
       (\<exists>t. dozed ws IFWFR s t \<and> contents N s' = contents N t @ take ioc (io_base iop) \<and>
         (i_psr t \<noteq> 0 \<longrightarrow> Wakeup IFWFW \<in> set (i_log s')))) \<or>
      (left = ioc \<and> refused iop iop' \<and> dozed ws IFWFR s s')))"

lemma atomic_result_doze:
  assumes "atomic_result N ws (fst (psleep IFWFR w s)) ioc iop r"
  shows "atomic_result N (w # ws) s ioc iop r"
proof -
  have d: "dozed (w # ws) IFWFR s t" if "dozed ws IFWFR (fst (psleep IFWFR w s)) t" for t
  proof (rule dozed.woken [of w])
    show "dozed (w # ws) IFWFR (fst (psleep IFWFR w s)) t" by (rule dozed_mono [OF that]) auto
  qed simp
  show ?thesis
  proof (cases r)
    case (Done s' x)
    obtain left iop' where x: "x = (left, iop')" by (cases x)
    show ?thesis using assms d unfolding Done x atomic_result_def outcome.case prod.case by blast
  qed (simp add: atomic_result_def)
qed

lemma pwake_wakes: "i_psr s \<noteq> 0 \<Longrightarrow> Wakeup IFWFW \<in> set (i_log (pwake N IFWFW s))"
  by (simp add: pwake_def Let_def)

lemma pwrite_loop_fits:
  assumes ok: "pipe_ok N s" and u: "u_error iop = None" "0 < ioc" "i_par s \<noteq> 0 \<or> i_psr s \<noteq> 0"
    and ws: "write_size N ioc s = ioc" and len: "io_fail iop = None" "ioc \<le> length (io_base iop)"
  shows "\<exists>s' iop'. pwrite_loop N ws ioc s iop = Some (Done s' (0, iop')) \<and> pipe_ok N s' \<and>
    contents N s' = contents N s @ take ioc (io_base iop) \<and> u_error iop' = None \<and>
    i_log s' = i_log (pwake N IFWFW (s\<lparr>i_pnc := i_pnc s + ioc\<rparr>))"
proof -
  have "write_size N ioc s \<noteq> 0" using ws u(2) by simp
  from pwrite_loop_write [OF ok u this, of ws] obtain s' iop' where
    w: "pwrite_loop N ws ioc s iop = pwrite_loop N ws (ioc - ioc) s' iop'" "pipe_ok N s'"
    "contents N s' = contents N s @ take ioc (io_base iop)" "u_error iop' = None"
    "i_log s' = i_log (pwake N IFWFW (s\<lparr>i_pnc := i_pnc s + ioc\<rparr>))"
    using len ws by auto
  have "pwrite_loop N ws ioc s iop = Some (Done s' (0, iop'))" using w(1) by (simp add: pwrite_loop_done)
  then show ?thesis using w(2-5) by blast
qed

lemma pwrite_loop_ready:
  assumes ok: "pipe_ok N s" and u: "u_error iop = None" "0 < ioc" "ioc \<le> N" "io_fail iop = None" "ioc \<le> length (io_base iop)"
    and ready: "i_par s = 0 \<and> i_psr s = 0 \<or> write_size N ioc s \<noteq> 0"
  shows "\<exists>r. pwrite_loop N ws ioc s iop = Some r \<and> atomic_result N ws s ioc iop r"
proof (cases "i_par s = 0 \<and> i_psr s = 0")
  case True
  then have "pwrite_loop N ws ioc s iop = Some (Done s (ioc, iop\<lparr>u_error := Some EPIPE\<rparr>))"
    using u by (subst pwrite_loop.simps) simp
  then show ?thesis using ok by (auto simp: atomic_result_def refused_def intro: dozed.here)
next
  case False
  then have ws: "write_size N ioc s = ioc" using ready u(3) by (auto simp: write_size_def Let_def split: if_splits)
  have "i_par s \<noteq> 0 \<or> i_psr s \<noteq> 0" using False by simp
  from pwrite_loop_fits [OF ok u(1,2) this ws u(4,5), of ws] obtain s' iop' where
    w: "pwrite_loop N ws ioc s iop = Some (Done s' (0, iop'))" "pipe_ok N s'"
    "contents N s' = contents N s @ take ioc (io_base iop)" "u_error iop' = None"
    "i_log s' = i_log (pwake N IFWFW (s\<lparr>i_pnc := i_pnc s + ioc\<rparr>))" by blast
  moreover have "Wakeup IFWFW \<in> set (i_log s')" if "i_psr s \<noteq> 0"
    unfolding w(5) using that by (intro pwake_wakes) simp
  ultimately have "atomic_result N ws s ioc iop (Done s' (0, iop'))"
    using w(2-4) unfolding atomic_result_def by (auto intro: exI [of _ s] dozed.here)
  then show ?thesis using w(1) by blast
qed

lemma psleep_signalled: "snd (psleep who w s) = (if snd w then Some EINTR else None)"
  by (simp add: psleep_def Let_def)

lemma pwrite_loop_atomic:
  assumes "pipe_ok N s" "calm (pipe_ring N) ws" "u_error iop = None" "0 < ioc" "ioc \<le> N" "io_fail iop = None" "ioc \<le> length (io_base iop)"
  shows "\<exists>r. pwrite_loop N ws ioc s iop = Some r \<and> atomic_result N ws s ioc iop r"
  using assms
proof (induction ws arbitrary: s)
  case Nil
  show ?case
  proof (cases "i_par s = 0 \<and> i_psr s = 0 \<or> write_size N ioc s \<noteq> 0")
    case True
    then show ?thesis using pwrite_loop_ready Nil by blast
  next
    case False
    then have "pwrite_loop N [] ioc s iop = (if io_ndly iop then Some (Done s (ioc, iop))
     else if io_nonblock iop then Some (Done s (ioc, iop\<lparr>u_error := Some EAGAIN\<rparr>)) else Some (Blocked (psleep_in IFWFR s)))"
      using pwrite_loop_wait [of iop ioc s N "[]"] Nil by auto
    then show ?thesis using Nil by (auto simp: atomic_result_def refused_def intro: dozed.here)
  qed
next
  case (Cons w ws)
  show ?case
  proof (cases "i_par s = 0 \<and> i_psr s = 0 \<or> write_size N ioc s \<noteq> 0")
    case True
    then show ?thesis using pwrite_loop_ready Cons.prems by blast
  next
    case False
    then have l: "pwrite_loop N (w # ws) ioc s iop = (if io_ndly iop then Some (Done s (ioc, iop))
     else if io_nonblock iop then Some (Done s (ioc, iop\<lparr>u_error := Some EAGAIN\<rparr>))
     else (case psleep IFWFR w s of
           (s, Some e) \<Rightarrow> Some (Done s (ioc, iop\<lparr>u_error := Some e\<rparr>))
         | (s, None) \<Rightarrow> pwrite_loop N ws ioc s iop))"
      using pwrite_loop_wait [of iop ioc s N "w # ws"] Cons.prems by auto
    obtain u e where p: "psleep IFWFR w s = (u, e)" by (cases "psleep IFWFR w s")
    have u: "pipe_ok N u" using psleep_ring [of N s w IFWFR] Cons.prems p by (simp add: pipe_ok_def)
    have e: "e \<in> {None, Some EINTR}" using psleep_signalled [of IFWFR w s] p by auto
    have d: "dozed (w # ws) IFWFR s u"
      by (rule dozed.woken [of w]) (simp_all add: p dozed.here)
    show ?thesis
    proof (cases "io_ndly iop \<or> io_nonblock iop \<or> e = Some EINTR")
      case True
      then show ?thesis unfolding l using p e d u Cons.prems(1,3)
        by (auto simp: atomic_result_def refused_def intro: dozed.here)
    next
      case False
      then have "pwrite_loop N (w # ws) ioc s iop = pwrite_loop N ws ioc u iop" unfolding l using p e by auto
      moreover obtain r where "pwrite_loop N ws ioc u iop = Some r" "atomic_result N ws u ioc iop r"
        using Cons.IH [OF u] Cons.prems by auto
      ultimately show ?thesis using atomic_result_doze [of N ws w s ioc iop r] p by auto
    qed
  qed
qed

section \<open>A pipe is a queue of bytes\<close>

text \<open>Writing and reading one byte without waiting.\<close>

definition one_byte :: "byte list \<Rightarrow> io" where
  "one_byte bs = \<lparr>io_ioc = 1, io_seek = 0, io_ndly = True, io_nonblock = False, io_base = bs, io_room = 1, io_fail = None, io_junk = (\<lambda>_. 0), u_error = None\<rparr>"

definition pipe_put :: "nat \<Rightarrow> pipe \<Rightarrow> byte \<Rightarrow> pipe" where
  "pipe_put N s b = (case pwrite N [] s (one_byte [b]) of Some (Done s' _) \<Rightarrow> s' | _ \<Rightarrow> s)"

definition pipe_get :: "nat \<Rightarrow> pipe \<Rightarrow> (byte \<times> pipe) option" where
  "pipe_get N s = (case pread N [] s (one_byte []) of Some (Done s' iop) \<Rightarrow>
     (case io_base iop of [] \<Rightarrow> None | b # _ \<Rightarrow> Some (b, s')) | _ \<Rightarrow> None)"

definition pipe_rep :: "nat \<Rightarrow> pipe \<Rightarrow> byte list \<Rightarrow> bool" where
  "pipe_rep N s bs \<longleftrightarrow> pipe_ok N s \<and> contents N s = bs"

lemma pread_empty:
  "i_pnc s = 0 \<Longrightarrow> io_ndly iop \<or> (i_paw s = 0 \<and> i_psw s = 0) \<Longrightarrow> pread N ws s iop = Some (Done s iop)"
  by (auto simp: pread_def pread_wait.simps [of ws s iop])

interpretation pq: fifo "pipe_rep N" "\<lambda>s _. i_pnc s < N \<and> (i_par s \<noteq> 0 \<or> i_psr s \<noteq> 0)" "pipe_put N" "pipe_get N" for N
proof
  fix s xs x assume r: "pipe_rep N s xs" and a: "i_pnc s < N \<and> (i_par s \<noteq> 0 \<or> i_psr s \<noteq> 0)"
  have ok: "pipe_ok N s" using r by (simp add: pipe_rep_def)
  then have "i_pwx s < N" by (simp add: pipe_ok_def pipe_ring_def)
  then have "write_size N 1 s = 1" using a by (auto simp: write_size_def Let_def min_def)
  then obtain s' iop' where "pwrite_loop N [] 1 s (one_byte [x]) = Some (Done s' (0, iop'))" "pipe_ok N s'"
      "contents N s' = contents N s @ [x]"
    using pwrite_loop_fits [OF ok, of "one_byte [x]" 1 "[]"] a by (auto simp: one_byte_def)
  then show "pipe_rep N (pipe_put N s x) (xs @ [x])"
    using r by (simp add: pipe_put_def pwrite_def pipe_rep_def) (simp add: one_byte_def)
next
  fix s x xs assume r: "pipe_rep N s (x # xs)"
  then have "0 < i_pnc s" by (metis contents_length length_greater_0_conv list.distinct(1) pipe_rep_def)
  from pread_data [OF _ this, of N "one_byte []" "[]"] r obtain s' iop' where
    "pread N [] s (one_byte []) = Some (Done s' iop')" "pipe_ok N s'" "contents N s' = xs" "io_base iop' = [x]"
    using \<open>0 < i_pnc s\<close> by (auto simp: pipe_rep_def one_byte_def min_def split: if_splits)
  then show "\<exists>t. pipe_get N s = Some (x, t) \<and> pipe_rep N t xs" by (simp add: pipe_get_def pipe_rep_def)
next
  fix s assume "pipe_rep N s []"
  then have "i_pnc s = 0" using contents_length [of N s] by (simp add: pipe_rep_def)
  then show "pipe_get N s = None" using pread_empty [of s "one_byte []" N "[]"] by (simp add: pipe_get_def one_byte_def)
qed

lemma pwrite_total_atomic:
  assumes "pipe_ok N s" "calm (pipe_ring N) ws" "u_error iop = None" "0 < io_ioc iop" "io_ioc iop \<le> N"
    "io_fail iop = None" "io_ioc iop \<le> length (io_base iop)"
  shows "(\<exists>t. pwrite N ws s iop = Some (Blocked t)) \<or>
    (\<exists>s' iop'. pwrite N ws s iop = Some (Done s' iop') \<and> atomic_result N ws s (io_ioc iop) iop (Done s' (io_ioc iop', iop')))"
proof -
  obtain r where r: "pwrite_loop N ws (io_ioc iop) s iop = Some r" "atomic_result N ws s (io_ioc iop) iop r"
    using pwrite_loop_atomic [OF assms] by blast
  show ?thesis
  proof (cases r)
    case (Blocked t)
    then show ?thesis using r by (simp add: pwrite_def)
  next
    case (Done s' x)
    obtain left iop' where x: "x = (left, iop')" by (cases x)
    have "atomic_result N ws s (io_ioc iop) iop (Done s' (left, iop'\<lparr>io_ioc := left\<rparr>))"
      using r(2) by (simp add: Done x atomic_result_def refused_def)
    then show ?thesis using r(1) by (simp add: pwrite_def Done x)
  qed
qed

section \<open>Properties\<close>

definition example_pipe :: pipe where
  "example_pipe = \<lparr>i_pnc = 2, i_prx = 3, i_pwx = 1, i_par = 1, i_paw = 1, i_psr = 0, i_psw = 0, i_pipe = [7, 0],
     i_data = [5, 6, 7, 8], i_locked = True, i_log = []\<rparr>"

definition example_io :: io where
  "example_io = \<lparr>io_ioc = 2, io_seek = 0, io_ndly = False, io_nonblock = False, io_base = [1, 2], io_room = 9, io_fail = None, io_junk = (\<lambda>_. 0), u_error = None\<rparr>"

lemma example_pipe_ok: "pipe_ok 4 example_pipe" "contents 4 example_pipe = [8, 5]"
  by (simp_all add: pipe_ok_def pipe_ring_def example_pipe_def contents_def upt_rec)

text \<open>\<open>pread\<close> on a pipe with data returns without sleeping, when the device gives no error and the user's buffer takes the bytes; it gives the caller the
  oldest bytes, as many as asked for and there are, and exactly these leave the pipe, whether or not they wrap around the end of the ring.\<close>

theorem pread_takes_oldest:
  assumes "pipe_ok N s" "0 < i_pnc s" "u_error iop = None" "io_fail iop = None" "min (io_ioc iop) (i_pnc s) \<le> io_room iop"
  defines "k \<equiv> min (io_ioc iop) (i_pnc s)"
  shows "\<exists>s' iop'. pread N ws s iop = Some (Done s' iop') \<and> pipe_ok N s' \<and>
    contents N s' = drop k (contents N s) \<and> io_base iop' = io_base iop @ take k (contents N s) \<and>
    io_ioc iop' = io_ioc iop - k \<and> u_error iop' = None"
  unfolding k_def using assms(1-5) by (rule pread_data)

theorem pread_takes_oldest_witness:
  "\<exists>s' iop'. pread 4 [] example_pipe (example_io\<lparr>io_base := []\<rparr>) = Some (Done s' iop') \<and> contents 4 s' = [] \<and>
    io_base iop' = [8, 5] \<and> u_error iop' = None"
proof -
  have "0 < i_pnc example_pipe" "u_error (example_io\<lparr>io_base := []\<rparr>) = None" "io_fail (example_io\<lparr>io_base := []\<rparr>) = None"
    "min (io_ioc (example_io\<lparr>io_base := []\<rparr>)) (i_pnc example_pipe) \<le> io_room (example_io\<lparr>io_base := []\<rparr>)"
    by (simp_all add: example_pipe_def example_io_def)
  from pread_takes_oldest [OF example_pipe_ok(1) this, of "[]"] show ?thesis
    by (simp add: example_pipe_ok) (auto simp: example_io_def example_pipe_def)
qed

text \<open>A reader whose buffer cannot take the piece that is moved gets \<open>EFAULT\<close>, and the bytes are lost: \<open>iowrite\<close> has counted them, so \<open>pread\<close> takes them from the pipe.\<close>

theorem pread_fault_loses:
  assumes "pipe_ok N s" "0 < i_pnc s" "i_prx s + i_pnc s \<le> min N BSIZE" "u_error iop = None" "io_fail iop = None" "i_pnc s \<le> io_ioc iop" "io_room iop < i_pnc s"
  shows "\<exists>s' iop'. pread N ws s iop = Some (Done s' iop') \<and> contents N s' = [] \<and> io_base iop' = io_base iop \<and> u_error iop' = Some EFAULT"
proof -
  let ?k = "i_pnc s"
  have p: "piece (i_prx s) ?k = ?k" "i_prx s < BSIZE" using assms(2,3) by (auto simp: piece_def)
  have f: "fread s (iop\<lparr>io_ioc := ?k, io_seek := i_prx s\<rparr>) = iop\<lparr>io_ioc := 0, io_seek := i_prx s, u_error := Some EFAULT\<rparr>"
    unfolding fread_def using p(1) assms(2,5,7) by (subst fread_blocks.simps) (simp add: Let_def block_used_def)
  have n: "(if ?k < (if io_ioc iop < N - i_prx s then io_ioc iop else N - i_prx s) then ?k
      else (if io_ioc iop < N - i_prx s then io_ioc iop else N - i_prx s)) = ?k" using assms(3,6) by auto
  have locked: "i_locked s" using assms(1) by (simp add: pipe_ok_def)
  have "pread_copy N (io_ioc iop) s iop = Some (io_ioc iop - ?k, log_pipe (map Bclean (filter (\<lambda>b. b \<noteq> 0) (i_pipe s))) (s\<lparr>i_prx := 0, i_pnc := 0, i_pwx := 0\<rparr>),
      iop\<lparr>io_ioc := 0, io_seek := i_prx s, u_error := Some EFAULT\<rparr>)"
    using assms(2,4,6) n f locked by (subst pread_copy.simps) (simp add: Let_def pclean_def pread_copy_done)
  then show ?thesis using assms(2) by (simp add: pread_def pread_wait_data contents_def)
qed

text \<open>A writer whose memory cannot be read gets \<open>EFAULT\<close>, and the pipe has as many bytes more as it wanted to write: readers get what the ring held there.\<close>

theorem pwrite_fault_appends:
  assumes "pipe_ok N s" "0 < io_ioc iop" "i_pwx s + io_ioc iop \<le> min N (BSIZE - 1)" "i_pnc s + io_ioc iop \<le> N" "i_par s \<noteq> 0"
    "u_error iop = None" "io_fail iop = None" "length (io_base iop) < io_ioc iop"
  shows "\<exists>s' iop'. pwrite N ws s iop = Some (Done s' iop') \<and> u_error iop' = Some EFAULT \<and> i_data s' = i_data s \<and> i_pnc s' = i_pnc s + io_ioc iop"
proof -
  let ?k = "io_ioc iop"
  have p: "piece (i_pwx s) ?k = ?k" "i_pwx s < BSIZE" "?k \<noteq> BSIZE" using assms(2,3) by (auto simp: piece_def)
  have f: "fwrite s (iop\<lparr>io_ioc := ?k, io_seek := i_pwx s\<rparr>) = (s, iop\<lparr>io_ioc := 0, io_seek := i_pwx s, u_error := Some EFAULT\<rparr>)"
    using p assms(2,7,8) by (subst fwrite.simps) (simp add: Let_def block_used_def)
  then have f: "fwrite s (iop\<lparr>io_seek := i_pwx s\<rparr>) = (s, iop\<lparr>io_ioc := 0, io_seek := i_pwx s, u_error := Some EFAULT\<rparr>)" by simp
  have n: "(if N - i_pwx s > ?k then ?k else N - i_pwx s) = ?k" "(if ?k > N - i_pnc s then N - i_pnc s else ?k) = ?k" using assms(3,4) by auto
  show ?thesis using assms(2,5,6) unfolding pwrite_def
    by (subst pwrite_loop.simps) (simp add: Let_def n f pwrite_loop_done)
qed

theorem pread_fault_loses_witness:
  "\<exists>s' iop'. pread 4 [] (example_pipe\<lparr>i_prx := 1, i_pwx := 3\<rparr>) (example_io\<lparr>io_base := [], io_room := 1\<rparr>) = Some (Done s' iop') \<and> contents 4 s' = [] \<and>
    io_base iop' = io_base (example_io\<lparr>io_base := [], io_room := 1\<rparr>) \<and> u_error iop' = Some EFAULT"
  by (rule pread_fault_loses) (simp_all add: pipe_ok_def pipe_ring_def example_pipe_def example_io_def BSIZE_def)

theorem pwrite_fault_appends_witness:
  "\<exists>s' iop'. pwrite 4 [] example_pipe (example_io\<lparr>io_base := []\<rparr>) = Some (Done s' iop') \<and> u_error iop' = Some EFAULT \<and> i_data s' = i_data example_pipe \<and>
    i_pnc s' = i_pnc example_pipe + io_ioc (example_io\<lparr>io_base := []\<rparr>)"
  by (rule pwrite_fault_appends [OF example_pipe_ok(1)]) (simp_all add: example_pipe_def example_io_def BSIZE_def)

text \<open>\<open>pread\<close> on an empty pipe: with \<open>IONDLY\<close>, and at the end of file (no writer, awake or asleep), it returns
  nothing and no error; with writers and \<open>IONONBLOCK\<close> it is refused with \<open>EAGAIN\<close>; otherwise it sleeps, and a signal
  ends it with \<open>EINTR\<close>. None of these touches the data.\<close>

theorem pread_empty_pipe:
  assumes "i_pnc s = 0" "i_locked s"
  shows "pread N (w # ws) s iop =
    (if io_ndly iop \<or> (i_paw s = 0 \<and> i_psw s = 0) then Some (Done s iop)
     else if io_nonblock iop then Some (Done s (iop\<lparr>u_error := Some EAGAIN\<rparr>))
     else if snd w then Some (Done (fst (psleep IFWFW w (the (pclean s)))) (iop\<lparr>u_error := Some EINTR\<rparr>))
     else pread N ws (fst (psleep IFWFW w (the (pclean s)))) iop)"
proof -
  obtain s1 where s1: "pclean s = Some s1" using assms(2) by (auto simp: pclean_def)
  show ?thesis using assms(1) s1
    by (auto simp: pread_def pread_wait.simps [of "w # ws" s iop] psleep_def Let_def)
qed

theorem pread_empty_pipe_witness:
  "pread 4 [(\<lambda>s. s, True)] (example_pipe\<lparr>i_pnc := 0, i_prx := 0, i_pwx := 0\<rparr>) (example_io\<lparr>io_nonblock := True\<rparr>) =
    Some (Done (example_pipe\<lparr>i_pnc := 0, i_prx := 0, i_pwx := 0\<rparr>) (example_io\<lparr>io_nonblock := True, u_error := Some EAGAIN\<rparr>))"
  using pread_empty_pipe [of "example_pipe\<lparr>i_pnc := 0, i_prx := 0, i_pwx := 0\<rparr>" 4 "(\<lambda>s. s, True)" "[]" "example_io\<lparr>io_nonblock := True\<rparr>"]
  by (simp add: example_pipe_def example_io_def)

text \<open>C4: A write of at most \<open>PIPE_MAX\<close> bytes is atomic when the bytes can be read from the user's memory and the file system gives a buffer for every block
  of the pipe (no \<open>ENOSPC\<close> or \<open>EIO\<close>): whatever the other processes do while it sleeps, as long as they keep the ring in order, \<open>pwrite\<close> comes back with either all of
  its bytes appended in one piece to what the pipe then held, and the sleeping readers woken, or none of them written; in the second case it stores \<open>EPIPE\<close>, \<open>EINTR\<close>, with
  \<open>IONONBLOCK\<close> \<open>EAGAIN\<close>, or, with \<open>IONDLY\<close>, no error at all; otherwise it is still asleep. A fault of the user's memory breaks it: \<open>pwrite_fault_appends\<close>.\<close>

theorem pwrite_atomic:
  assumes "pipe_ok N s" "calm (pipe_ring N) ws" "u_error iop = None" "0 < io_ioc iop" "io_ioc iop \<le> N"
    "io_fail iop = None" "io_ioc iop \<le> length (io_base iop)"
  shows "(\<exists>t. pwrite N ws s iop = Some (Blocked t)) \<or>
    (\<exists>s' iop'. pwrite N ws s iop = Some (Done s' iop') \<and> pipe_ok N s' \<and>
      ((io_ioc iop' = 0 \<and> u_error iop' = None \<and>
        (\<exists>t. dozed ws IFWFR s t \<and> contents N s' = contents N t @ take (io_ioc iop) (io_base iop) \<and>
          (i_psr t \<noteq> 0 \<longrightarrow> Wakeup IFWFW \<in> set (i_log s')))) \<or>
       (io_ioc iop' = io_ioc iop \<and> refused iop iop' \<and> dozed ws IFWFR s s')))"
  using pwrite_total_atomic [OF assms] unfolding atomic_result_def outcome.case prod.case by blast

definition drained :: "pipe \<Rightarrow> pipe" where
  "drained s = s\<lparr>i_pnc := 0, i_prx := 0, i_pwx := 0\<rparr>"

lemma drained_ring: "pipe_ring N s \<Longrightarrow> pipe_ring N (drained s)"
  by (simp add: pipe_ring_def drained_def)

theorem pwrite_atomic_witness:
  "\<exists>s' iop'. pwrite 4 [(drained, False)] example_pipe (example_io\<lparr>io_ioc := 4, io_base := [1, 2, 3, 4]\<rparr>) = Some (Done s' iop') \<and>
    io_ioc iop' = 0 \<and> u_error iop' = None"
proof -
  let ?io = "example_io\<lparr>io_ioc := 4, io_base := [1, 2, 3, 4]\<rparr>"
  have "calm (pipe_ring 4) [(drained, False)]" by (simp add: drained_ring)
  from pwrite_atomic [OF example_pipe_ok(1) this, of ?io]
  have "(\<exists>t. pwrite 4 [(drained, False)] example_pipe ?io = Some (Blocked t)) \<or>
    (\<exists>s' iop'. pwrite 4 [(drained, False)] example_pipe ?io = Some (Done s' iop') \<and>
      ((io_ioc iop' = 0 \<and> u_error iop' = None) \<or> (io_ioc iop' = 4 \<and> refused ?io iop')))"
    unfolding example_io_def by simp blast
  moreover have "\<exists>s' iop'. pwrite 4 [(drained, False)] example_pipe ?io = Some (Done s' iop') \<and> u_error iop' = None"
    by (simp add: pwrite_def pwrite_loop.simps psleep_def psleep_in_def drained_def example_pipe_def example_io_def Let_def
        fwrite_all store_def pwake_def)
  ultimately show ?thesis by (auto simp: refused_def example_io_def)
qed

text \<open>C14: A pipe is a first-in-first-out queue of bytes: what is written to it, byte by byte while it has a reader and
  room, is read back after what it held, in the order written, and then it is empty.\<close>

theorem pipe_fifo:
  assumes "pipe_ok N s" "admitted (\<lambda>s _. i_pnc s < N \<and> (i_par s \<noteq> 0 \<or> i_psr s \<noteq> 0)) (pipe_put N) bs s"
  shows "\<exists>t. gets (pipe_get N) (length (contents N s @ bs)) (foldl (pipe_put N) s bs) = (contents N s @ bs, t) \<and>
    i_pnc t = 0 \<and> pipe_ok N t"
proof -
  have "pipe_rep N s (contents N s)" using assms(1) by (simp add: pipe_rep_def)
  from pq.fifo_order [OF this assms(2)] obtain t where
    "gets (pipe_get N) (length (contents N s @ bs)) (foldl (pipe_put N) s bs) = (contents N s @ bs, t)" "pipe_rep N t []"
    by blast
  moreover from this have "i_pnc t = 0" using contents_length [of N t] by (simp add: pipe_rep_def)
  ultimately show ?thesis by (auto simp: pipe_rep_def)
qed

theorem pipe_fifo_witness:
  "\<exists>t. gets (pipe_get 4) 4 (foldl (pipe_put 4) example_pipe [1, 2]) = ([8, 5, 1, 2], t)"
proof -
  have "admitted (\<lambda>s _. i_pnc s < 4 \<and> (i_par s \<noteq> 0 \<or> i_psr s \<noteq> 0)) (pipe_put 4) [1, 2] example_pipe"
    by (simp add: pipe_put_def pwrite_def pwrite_loop.simps example_pipe_def one_byte_def Let_def fwrite_all store_def pwake_def)
  from pipe_fifo [OF example_pipe_ok(1) this] obtain t where
    "gets (pipe_get 4) (length (contents 4 example_pipe @ [1, 2])) (foldl (pipe_put 4) example_pipe [1, 2]) =
      (contents 4 example_pipe @ [1, 2], t)" by blast
  moreover have l: "length (contents 4 example_pipe @ [1, 2]) = 4" by (simp add: example_pipe_ok)
  ultimately have "gets (pipe_get 4) 4 (foldl (pipe_put 4) example_pipe [1, 2]) = ([8, 5, 1, 2], t)"
    unfolding l by (simp only: example_pipe_ok append.simps)
  then show ?thesis by blast
qed

text \<open>\<open>ppoll\<close> tells the truth about reading: it reports \<open>POLLIN\<close> exactly when a non-blocking \<open>pread\<close> of one byte gets one,
  and \<open>POLLHUP\<close> without \<open>POLLIN\<close> exactly when it sees the end of file, without an error.\<close>

theorem ppoll_in_truthful:
  assumes "pipe_ok N s" "u_error iop = None" "\<not> io_ndly iop" "io_nonblock iop" "io_ioc iop = 1" "0 < io_room iop" "io_fail iop = None" "io_base iop = []"
  shows "\<exists>s' iop'. pread N ws s iop = Some (Done s' iop') \<and>
    (POLLIN \<in> fst (ppoll N {POLLIN} msec s) \<longleftrightarrow> io_base iop' \<noteq> []) \<and>
    (fst (ppoll N {POLLIN} msec s) = {POLLHUP} \<longleftrightarrow> io_base iop' = [] \<and> u_error iop' = None)"
proof (cases "i_pnc s = 0")
  case False
  then have "contents N s \<noteq> []" by (metis contents_length list.size(3))
  moreover have "min (io_ioc iop) (i_pnc s) = Suc 0" "min (io_ioc iop) (i_pnc s) \<le> io_room iop" using False assms(5,6) by simp_all
  moreover have "0 < i_pnc s" using False by simp
  ultimately obtain s' iop' where "pread N ws s iop = Some (Done s' iop')" "io_base iop' \<noteq> []"
    using pread_data [OF assms(1) \<open>0 < i_pnc s\<close> assms(2,7), of ws] by auto
  then show ?thesis using False by (auto simp: ppoll_def ppoll_in_def Let_def)
next
  case True
  then show ?thesis using assms
    by (auto simp: ppoll_def ppoll_in_def Let_def pread_def pread_wait.simps [of ws s iop])
qed

theorem ppoll_in_truthful_witness:
  "\<exists>s' iop'. pread 4 [] example_pipe (example_io\<lparr>io_ioc := 1, io_nonblock := True, io_base := []\<rparr>) = Some (Done s' iop') \<and>
    io_base iop' \<noteq> []"
proof -
  have "POLLIN \<in> fst (ppoll 4 {POLLIN} False example_pipe)"
    by (simp add: ppoll_def ppoll_in_def example_pipe_def Let_def)
  then show ?thesis
    using ppoll_in_truthful [OF example_pipe_ok(1), of "example_io\<lparr>io_ioc := 1, io_nonblock := True, io_base := []\<rparr>" "[]" False]
    by (auto simp: example_io_def)
qed

text \<open>It does not about writing: \<open>ppoll\<close> can report \<open>POLLOUT\<close>, with room for the whole of a message, and a non-blocking
  \<open>pwrite\<close> of that message is still refused with \<open>EAGAIN\<close>, because \<open>pwrite\<close> wants the room in one piece before the
  end of the ring.\<close>

theorem pollout_then_eagain:
  "\<exists>N s iop s' iop'. pipe_ok N s \<and> POLLOUT \<in> fst (ppoll N {POLLOUT} False s) \<and> io_ioc iop + i_pnc s \<le> N \<and>
    pwrite N [] s iop = Some (Done s' iop') \<and> u_error iop' = Some EAGAIN"
proof -
  let ?s = "example_pipe\<lparr>i_prx := 1, i_pwx := 3\<rparr>" and ?io = "example_io\<lparr>io_nonblock := True\<rparr>"
  have "pipe_ok 4 ?s" by (simp add: pipe_ok_def pipe_ring_def example_pipe_def)
  moreover have "POLLOUT \<in> fst (ppoll 4 {POLLOUT} False ?s)" by (simp add: ppoll_def ppoll_out_def example_pipe_def Let_def)
  moreover have "\<exists>s' iop'. pwrite 4 [] ?s ?io = Some (Done s' iop') \<and> u_error iop' = Some EAGAIN"
    by (simp add: pwrite_def pwrite_loop.simps example_pipe_def example_io_def Let_def)
  moreover have "io_ioc ?io + i_pnc ?s \<le> 4" by (simp add: example_pipe_def example_io_def)
  ultimately show ?thesis by blast
qed

text \<open>\<open>popen\<close> for writing fails with \<open>ENXIO\<close>, without counting the caller, exactly when it may not wait and there is no
  reader; with a reader it succeeds at once, counts one more writer and wakes the sleeping readers. For
  reading it succeeds at once when there is a writer or it may not wait, and counts one more reader.\<close>

theorem popen_at_once:
  "popen N False True nb ws s =
     (if i_par s = 0 \<and> i_psr s = 0 then
        (if nb then Done s (Some ENXIO) else popen_w N nb ws s)
      else Done (pwake N IFWFW (s\<lparr>i_paw := i_paw s + 1\<rparr>)) None) \<and>
   (nb \<or> i_paw s \<noteq> 0 \<or> i_psw s \<noteq> 0 \<longrightarrow>
     popen N True False nb ws s = Done (pwake N IFWFR (s\<lparr>i_par := i_par s + 1\<rparr>)) None)"
  by (auto simp: popen_def popen_w_def popen_r_def popen_wait.simps [of _ _ "s\<lparr>i_par := i_par s + 1\<rparr>"] Let_def)

theorem popen_at_once_witness:
  "popen 4 False True True [] (example_pipe\<lparr>i_par := 0\<rparr>) = Done (example_pipe\<lparr>i_par := 0\<rparr>) (Some ENXIO)"
  using popen_at_once [of 4 True "[]" "example_pipe\<lparr>i_par := 0\<rparr>"] by (simp add: example_pipe_def)

end
