(* ===== verification/Ipc.thy ===== *)
theory Ipc
  imports Prelude
begin

text \<open>
  Permissions of System V objects: \<open>coh.386/lib/ipc_perm.c\<close>, \<open>ipc_cred.c\<close>, \<open>ipc_init.c\<close>, and the
  test for the super-user of \<open>coh.386/misc.c\<close>, which has side effects on the user area. A mode
  is modelled by the permissions it gives to each class of user, so the layout of the mode word
  (a matter of headers outside the repository) does not enter.
\<close>

section \<open>State\<close>

datatype cred_lvl = CRED_OWNER | CRED_GROUP | CRED_OTHER

datatype perm_bit = PREAD | PWRITE | PEXEC

type_synonym perms = "cred_lvl \<Rightarrow> perm_bit set"

text \<open>\<open>ip_alloc\<close> is the bit \<open>__IPC_ALLOC\<close> of the mode.\<close>

record ipc_perm =
  ip_uid :: nat
  ip_gid :: nat
  ip_cuid :: nat
  ip_cgid :: nat
  ip_mode :: perms
  ip_alloc :: bool
  ip_key :: int
  ip_seq :: nat

text \<open>What the routines use of the calling process: its effective ids, the error to be reported, the
  accounting flag \<open>ASU\<close>, its process id.\<close>

record user =
  cr_uid :: nat
  cr_gid :: nat
  u_err :: "errno option"
  u_asu :: bool
  p_pid :: nat

section \<open>Operations\<close>

abbreviation set_user_error :: "errno \<Rightarrow> user \<Rightarrow> user" where
  "set_user_error e u \<equiv> u\<lparr>u_err := Some e\<rparr>"

definition super :: "user \<Rightarrow> bool \<times> user" where
  "super u = (if cr_uid u \<noteq> 0 then (False, set_user_error EPERM u) else (True, u\<lparr>u_asu := True\<rparr>))"

definition ipc_cred_match :: "ipc_perm \<Rightarrow> user \<Rightarrow> cred_lvl \<times> user" where
  "ipc_cred_match ip u =
     (if cr_uid u = ip_uid ip \<or> cr_uid u = ip_cuid ip then (CRED_OWNER, u)
      else if cr_gid u = ip_gid ip \<or> cr_gid u = ip_cgid ip then (CRED_GROUP, u)
      else let (b, u) = super u in (if b then CRED_OWNER else CRED_OTHER, u))"

text \<open>Nonzero, with \<open>EACCES\<close>, when the caller lacks the permissions asked for.\<close>

definition ipc_lack_perm :: "ipc_perm \<Rightarrow> perms \<Rightarrow> user \<Rightarrow> bool \<times> user" where
  "ipc_lack_perm ip mode u =
     (if \<forall>l. mode l = {} then (False, u)
      else
        let (lvl, u) = ipc_cred_match ip u; req = mode lvl
        in if req \<noteq> {} \<and> req \<subseteq> ip_mode ip lvl then (False, u)
           else let (b, u) = super u in if b then (False, u) else (True, set_user_error EACCES u))"

definition ipc_perm_init :: "perms \<Rightarrow> user \<Rightarrow> ipc_perm \<Rightarrow> ipc_perm" where
  "ipc_perm_init mode u ip = ip\<lparr>ip_uid := cr_uid u, ip_cuid := cr_uid u, ip_gid := cr_gid u, ip_cgid := cr_gid u,
     ip_mode := mode, ip_alloc := True\<rparr>"

section \<open>Classes of users\<close>

lemma cred_lvl_all [code_unfold]: "(\<forall>l. P l) \<longleftrightarrow> P CRED_OWNER \<and> P CRED_GROUP \<and> P CRED_OTHER"
  by (metis cred_lvl.exhaust)

text \<open>The class of a user, as the manual has it.\<close>

definition user_class :: "ipc_perm \<Rightarrow> user \<Rightarrow> cred_lvl" where
  "user_class ip u =
     (if cr_uid u = ip_uid ip \<or> cr_uid u = ip_cuid ip \<or> (cr_uid u = 0 \<and> cr_gid u \<noteq> ip_gid ip \<and> cr_gid u \<noteq> ip_cgid ip)
      then CRED_OWNER
      else if cr_gid u = ip_gid ip \<or> cr_gid u = ip_cgid ip then CRED_GROUP else CRED_OTHER)"

lemma fst_ipc_cred_match: "fst (ipc_cred_match ip u) = user_class ip u"
  by (auto simp: ipc_cred_match_def user_class_def super_def)

lemma ipc_cred_match_ids [simp]: "cr_uid (snd (ipc_cred_match ip u)) = cr_uid u" "cr_gid (snd (ipc_cred_match ip u)) = cr_gid u"
  "p_pid (snd (ipc_cred_match ip u)) = p_pid u"
  by (auto simp: ipc_cred_match_def super_def)

lemma ipc_cred_match_err: "u_err (snd (ipc_cred_match ip u)) = (if user_class ip u = CRED_OTHER then Some EPERM else u_err u)"
  by (auto simp: ipc_cred_match_def user_class_def super_def)

lemma ipc_lack_perm_ids [simp]: "cr_uid (snd (ipc_lack_perm ip mode u)) = cr_uid u" "cr_gid (snd (ipc_lack_perm ip mode u)) = cr_gid u"
  "p_pid (snd (ipc_lack_perm ip mode u)) = p_pid u"
  by (auto simp: ipc_lack_perm_def super_def Let_def split_beta)

text \<open>When \<open>ipc_lack_perm\<close> refuses, and what it leaves in the user area.\<close>

lemma fst_ipc_lack_perm:
  "fst (ipc_lack_perm ip mode u) \<longleftrightarrow> (\<exists>l. mode l \<noteq> {}) \<and> cr_uid u \<noteq> 0 \<and>
     \<not> (mode (user_class ip u) \<noteq> {} \<and> mode (user_class ip u) \<subseteq> ip_mode ip (user_class ip u))"
  using fst_ipc_cred_match [of ip u] by (auto simp: ipc_lack_perm_def super_def Let_def split_beta)

lemma ipc_lack_perm_err:
  "u_err (snd (ipc_lack_perm ip mode u)) =
     (if fst (ipc_lack_perm ip mode u) then Some EACCES
      else if (\<exists>l. mode l \<noteq> {}) \<and> user_class ip u = CRED_OTHER then Some EPERM else u_err u)"
  using fst_ipc_cred_match [of ip u] ipc_cred_match_err [of ip u]
  by (auto simp: ipc_lack_perm_def super_def Let_def split_beta)

lemma user_class_root: "cr_uid u = 0 \<Longrightarrow> user_class ip u \<noteq> CRED_OTHER"
  by (auto simp: user_class_def)

section \<open>Properties\<close>

text \<open>\<open>ipc_lack_perm\<close> grants a request exactly when it asks for nothing, the caller is the super-user, or the object's
  mode gives the caller's class all that is asked of that class and that is something; a refusal is
  reported as \<open>EACCES\<close>, and a grant leaves the error as it was, unless the caller is of the class of others.\<close>

theorem ipc_lack_perm_decides:
  "(fst (ipc_lack_perm ip mode u) \<longleftrightarrow> (\<exists>l. mode l \<noteq> {}) \<and> cr_uid u \<noteq> 0 \<and>
      \<not> (mode (user_class ip u) \<noteq> {} \<and> mode (user_class ip u) \<subseteq> ip_mode ip (user_class ip u))) \<and>
   u_err (snd (ipc_lack_perm ip mode u)) =
     (if fst (ipc_lack_perm ip mode u) then Some EACCES
      else if (\<exists>l. mode l \<noteq> {}) \<and> user_class ip u = CRED_OTHER then Some EPERM else u_err u)"
  using fst_ipc_lack_perm ipc_lack_perm_err by blast

text \<open>A user who is neither the owner nor in the group gets no use of a permission that the mode gives to others:
  \<open>ipc_lack_perm\<close> says that access is granted, but the test for the super-user on the way has stored
  \<open>EPERM\<close>, which makes the system call fail.\<close>

theorem ipc_others_get_eperm:
  assumes "user_class ip u = CRED_OTHER" "mode CRED_OTHER \<noteq> {}" "mode CRED_OTHER \<subseteq> ip_mode ip CRED_OTHER" "u_err u = None"
  shows "\<not> fst (ipc_lack_perm ip mode u) \<and> u_err (snd (ipc_lack_perm ip mode u)) = Some EPERM"
  using assms fst_ipc_lack_perm [of ip mode u] ipc_lack_perm_err [of ip mode u] by auto

definition example_user :: user where
  "example_user = \<lparr>cr_uid = 7, cr_gid = 70, u_err = None, u_asu = False, p_pid = 100\<rparr>"

definition example_owner :: user where
  "example_owner = \<lparr>cr_uid = 5, cr_gid = 50, u_err = None, u_asu = False, p_pid = 100\<rparr>"

definition public_perm :: ipc_perm where
  "public_perm = \<lparr>ip_uid = 5, ip_gid = 50, ip_cuid = 5, ip_cgid = 50, ip_mode = (\<lambda>_. {PREAD, PWRITE}), ip_alloc = True,
     ip_key = 42, ip_seq = 0\<rparr>"

theorem ipc_others_get_eperm_witness:
  "\<not> fst (ipc_lack_perm public_perm (\<lambda>_. {PREAD}) example_user) \<and>
    u_err (snd (ipc_lack_perm public_perm (\<lambda>_. {PREAD}) example_user)) = Some EPERM"
  using ipc_others_get_eperm [of public_perm example_user "\<lambda>_. {PREAD}"]
  by (simp add: user_class_def public_perm_def example_user_def)

end
