(* ===== verification/Sem.thy ===== *)
theory Sem
  imports Ipc
begin

text \<open>
  System V semaphores, \<open>conf/sem/src/sem386.c\<close>. The tunable limits, and the modes \<open>__IREAD\<close> and
  \<open>__IWRITE\<close> of a header outside the repository, are the fields of a record; the semaphores of a set are the list its \<open>sem_base\<close> points at, \<^const>\<open>None\<close> once it is freed; an
  access outside it is a fault. \<open>__IN_RANGE\<close> is taken to test a closed interval. The other
  processes act only while a caller sleeps in \<open>semwait\<close>, once for each element of a script.
\<close>

section \<open>State\<close>

record sem_cfg =
  SEMMNI :: nat
  SEMMNS :: int
  SEMMSL :: int
  SEMVMX :: int
  IPC_PRIVATE :: int
  IREAD :: perms
  IWRITE :: perms

record sem =
  semval :: int
  sempid :: int
  semncnt :: int
  semzcnt :: int

record semid_ds =
  sem_perm :: ipc_perm
  sem_base :: "sem list option"
  sem_nsems :: nat
  sem_otime :: int
  sem_ctime :: int

record sem_undo =
  un_id :: nat
  un_num :: nat
  un_aoe :: int

text \<open>Wakeups of those that wait for a semaphore to grow, or to be zero.\<close>

datatype sem_event = Wake_ncnt nat nat | Wake_zcnt nat nat

record sems =
  semids :: "semid_ds list option"
  sem_total :: int
  sem_gate :: bool
  p_semu :: "nat \<Rightarrow> sem_undo list"
  sem_log :: "sem_event list"

record sembuf =
  sb_num :: nat
  sb_op :: int
  sb_undo :: bool
  sb_nowait :: bool

text \<open>The members of \<open>struct sem\<close> are unsigned shorts.\<close>

definition u16 :: "int \<Rightarrow> int" where
  "u16 x = x mod 65536"

definition in_range :: "int \<Rightarrow> int \<Rightarrow> int \<Rightarrow> bool" where
  "in_range low x high \<longleftrightarrow> low \<le> x \<and> x \<le> high"

definition no_perm :: ipc_perm where
  "no_perm = \<lparr>ip_uid = 0, ip_gid = 0, ip_cuid = 0, ip_cgid = 0, ip_mode = (\<lambda>_. {}), ip_alloc = False, ip_key = 0, ip_seq = 0\<rparr>"

definition free_set :: semid_ds where
  "free_set = \<lparr>sem_perm = no_perm, sem_base = None, sem_nsems = 0, sem_otime = 0, sem_ctime = 0\<rparr>"

abbreviation set_alloc :: "semid_ds \<Rightarrow> bool" where
  "set_alloc d \<equiv> ip_alloc (sem_perm d)"

section \<open>Access to sets and semaphores\<close>

definition set_at :: "sems \<Rightarrow> nat \<Rightarrow> semid_ds option" where
  "set_at s i = (case semids s of None \<Rightarrow> None | Some ds \<Rightarrow> if i < length ds then Some (ds ! i) else None)"

definition set_put :: "sems \<Rightarrow> nat \<Rightarrow> semid_ds \<Rightarrow> sems" where
  "set_put s i d = s\<lparr>semids := map_option (\<lambda>ds. ds[i := d]) (semids s)\<rparr>"

definition sem_at :: "sems \<Rightarrow> nat \<Rightarrow> nat \<Rightarrow> sem option" where
  "sem_at s i j = do { d \<leftarrow> set_at s i; b \<leftarrow> sem_base d; if j < length b then Some (b ! j) else None }"

definition sem_put :: "sems \<Rightarrow> nat \<Rightarrow> nat \<Rightarrow> (sem \<Rightarrow> sem) \<Rightarrow> sems option" where
  "sem_put s i j f = do {
     d \<leftarrow> set_at s i;
     b \<leftarrow> sem_base d;
     if j < length b then Some (set_put s i (d\<lparr>sem_base := Some (b[j := f (b ! j)])\<rparr>)) else None
   }"

abbreviation sem_wake :: "sem_event \<Rightarrow> sems \<Rightarrow> sems" where
  "sem_wake e s \<equiv> s\<lparr>sem_log := sem_log s @ [e]\<rparr>"

abbreviation sem_lock :: "sems \<Rightarrow> sems" where
  "sem_lock s \<equiv> s\<lparr>sem_gate := True\<rparr>"

abbreviation sem_unlock :: "sems \<Rightarrow> sems" where
  "sem_unlock s \<equiv> s\<lparr>sem_gate := False\<rparr>"

section \<open>Operations\<close>

text \<open>\<open>mem\<close> says whether \<open>kalloc\<close> finds memory. A result of \<^const>\<open>None\<close> is a \<open>return\<close> without a value.\<close>

definition seminit :: "sem_cfg \<Rightarrow> bool \<Rightarrow> sems \<Rightarrow> int \<times> sems" where
  "seminit c mem s = (if mem then (0, s\<lparr>semids := Some (replicate (SEMMNI c) free_set)\<rparr>) else (- 1, s\<lparr>semids := None\<rparr>))"

definition vClearAdj :: "nat \<Rightarrow> nat \<Rightarrow> sems \<Rightarrow> sems" where
  "vClearAdj i j s = s\<lparr>p_semu := (\<lambda>p. map (\<lambda>e. if un_num e = j \<and> un_id e = i then e\<lparr>un_aoe := 0\<rparr> else e) (p_semu s p))\<rparr>"

text \<open>The search of \<open>usemget\<close>: the set with the key, or the free set of the oldest change time.\<close>

primrec sem_scan :: "sem_cfg \<Rightarrow> int \<Rightarrow> nat \<Rightarrow> (nat \<times> int) option \<Rightarrow> semid_ds list \<Rightarrow> nat + (nat \<times> int) option" where
  "sem_scan c key i fr [] = Inr fr"
| "sem_scan c key i fr (d # ds) =
     (if \<not> set_alloc d then
        sem_scan c key (i + 1)
          (case fr of None \<Rightarrow> Some (i, sem_ctime d)
           | Some (f, t) \<Rightarrow> if t > sem_ctime d then Some (i, sem_ctime d) else fr) ds
      else if key = IPC_PRIVATE c then sem_scan c key (i + 1) fr ds
      else if key \<noteq> ip_key (sem_perm d) then sem_scan c key (i + 1) fr ds
      else Inl i)"

record ipc_flags =
  f_creat :: bool
  f_excl :: bool
  f_mode :: perms

definition usemget_found :: "nat \<Rightarrow> int \<Rightarrow> ipc_flags \<Rightarrow> user \<Rightarrow> sems \<Rightarrow> (int option \<times> user \<times> sems) option" where
  "usemget_found i nsems flg u s = do {
     d \<leftarrow> set_at s i;
     let u = (if f_creat flg \<and> f_excl flg then set_user_error EEXIST u
              else let (lack, u) = ipc_lack_perm (sem_perm d) (f_mode flg) u
                   in if lack then u else if int (sem_nsems d) < nsems then set_user_error EINVAL u else u);
     let s = sem_unlock s;
     Some (if u_err u \<noteq> None then Some (- 1) else Some (int i), u, s)
   }"

definition usemget_create ::
  "sem_cfg \<Rightarrow> int \<Rightarrow> bool \<Rightarrow> int \<Rightarrow> int \<Rightarrow> ipc_flags \<Rightarrow> (nat \<times> int) option \<Rightarrow> user \<Rightarrow> sems \<Rightarrow> (int option \<times> user \<times> sems) option" where
  "usemget_create c now mem key nsems flg fr u s =
     (if nsems < 1 then Some (None, set_user_error EINVAL u, sem_unlock s)
      else if sem_total s + nsems > SEMMNS c then Some (None, set_user_error ENOSPC u, sem_unlock s)
      else if \<not> f_creat flg then Some (None, set_user_error ENOENT u, sem_unlock s)
      else (case fr of None \<Rightarrow> Some (None, set_user_error ENOSPC u, sem_unlock s)
        | Some (i, _) \<Rightarrow> do {
            d \<leftarrow> set_at s i;
            if \<not> mem then Some (None, set_user_error ENOSPC u, sem_unlock (set_put s i (d\<lparr>sem_base := None\<rparr>)))
            else do {
              let ip = ipc_perm_init (f_mode flg) u (sem_perm d);
              let d = d\<lparr>sem_perm := ip\<lparr>ip_key := key, ip_seq := i\<rparr>, sem_nsems := nat nsems, sem_otime := 0, sem_ctime := now,
                sem_base := Some (replicate (nat nsems) \<lparr>semval = 0, sempid = 0, semncnt = 0, semzcnt = 0\<rparr>)\<rparr>;
              Some (Some (int i), u, sem_unlock (set_put (s\<lparr>sem_total := sem_total s + nsems\<rparr>) i d))
            }
          }))"

definition usemget ::
  "sem_cfg \<Rightarrow> int \<Rightarrow> bool \<Rightarrow> bool \<Rightarrow> int \<Rightarrow> int \<Rightarrow> ipc_flags \<Rightarrow> user \<Rightarrow> sems \<Rightarrow> (int option \<times> user \<times> sems) option" where
  "usemget c now mem1 mem2 key nsems flg u s =
     (if \<not> in_range 0 nsems (SEMMSL c - 1) then Some (Some (- 1), set_user_error EINVAL u, s)
      else
        let (r, s) = (if semids s = None then seminit c mem1 s else (0, s))
        in if r \<noteq> 0 then Some (None, set_user_error ENOSPC u, s)
        else do {
          let s = sem_lock s;
          ds \<leftarrow> semids s;
          (case sem_scan c key 0 None (take (SEMMNI c) ds) of
             Inl i \<Rightarrow> usemget_found i nsems flg u s
           | Inr fr \<Rightarrow> usemget_create c now mem2 key nsems flg fr u s)
        })"

text \<open>\<open>usemctl\<close>. Of the user's memory the model takes what is read from it, and where it faults; for \<open>IPC_STAT\<close> and \<open>IPC_SET\<close> whether it can be accessed.\<close>

datatype sem_cmd = GETVAL | SETVAL int | GETPID | GETNCNT | GETZCNT | GETALL nat | SETALL "int list"
  | is_sem_stat: IPC_STAT bool | IPC_SET bool nat nat perms | IPC_RMID | Other_cmd

datatype sem_out = No_out | Vals "int list" | Stat semid_ds

definition SEM_READ :: perms where "SEM_READ = (\<lambda>_. {PREAD})"

definition SEM_WRITE :: perms where "SEM_WRITE = (\<lambda>_. {PWRITE})"

primrec getall :: "nat \<Rightarrow> sem list \<Rightarrow> int list \<Rightarrow> user \<Rightarrow> int option \<times> int list \<times> user" where
  "getall room [] out u = (Some 0, out, u)"
| "getall room (x # xs) out u =
     (let (out, u) = (if length out < room then (out @ [semval x], u) else (out, set_user_error EFAULT u))
      in if u_err u \<noteq> None then (None, out, u) else getall room xs out u)"

text \<open>The loop of \<open>SETALL\<close> from semaphore \<open>i\<close> on; \<open>vals\<close> is the rest of the user's array.\<close>

fun setall :: "sem_cfg \<Rightarrow> int \<Rightarrow> nat \<Rightarrow> nat \<Rightarrow> nat \<Rightarrow> int list \<Rightarrow> user \<Rightarrow> sems \<Rightarrow> (int option \<times> user \<times> sems) option" where
  "setall c now sid i 0 vals u s = do {
     d \<leftarrow> set_at s sid;
     Some (Some 0, u, sem_unlock (set_put s sid (d\<lparr>sem_ctime := now\<rparr>)))
   }"
| "setall c now sid i (Suc n) vals u s =
     (let u = (if vals = [] then set_user_error EFAULT u else u) in
      if u_err u \<noteq> None then Some (None, u, sem_unlock s)
      else if \<not> in_range 0 (hd vals) (SEMVMX c) then Some (None, set_user_error ERANGE u, sem_unlock s)
      else do {
        s \<leftarrow> sem_put s sid i (semval_update (\<lambda>_. hd vals));
        setall c now sid (i + 1) n (tl vals) u (vClearAdj sid i s)
      })"

definition sem_get :: "semid_ds \<Rightarrow> (sem \<Rightarrow> int) \<Rightarrow> nat \<Rightarrow> user \<Rightarrow> sems \<Rightarrow> (int option \<times> sem_out \<times> user \<times> sems) option" where
  "sem_get d f semnum u s =
     (let (lack, u) = ipc_lack_perm (sem_perm d) SEM_READ u in
      if lack then Some (None, No_out, u, s)
      else do { b \<leftarrow> sem_base d; if semnum < length b then Some (Some (f (b ! semnum)), No_out, u, s) else None })"

definition sem_setval :: "sem_cfg \<Rightarrow> int \<Rightarrow> nat \<Rightarrow> semid_ds \<Rightarrow> nat \<Rightarrow> int \<Rightarrow> user \<Rightarrow> sems \<Rightarrow> (int option \<times> sem_out \<times> user \<times> sems) option" where
  "sem_setval c now sid d semnum v u s =
     (let (lack, u) = ipc_lack_perm (sem_perm d) SEM_WRITE u in
      if lack then Some (None, No_out, u, s)
      else if \<not> in_range 0 v (SEMVMX c) then Some (None, No_out, set_user_error ERANGE u, s)
      else do {
        s \<leftarrow> sem_put s sid semnum (semval_update (\<lambda>_. v));
        x \<leftarrow> sem_at s sid semnum;
        let s = (if v \<noteq> 0 then (if semncnt x \<noteq> 0 then sem_wake (Wake_ncnt sid semnum) s else s)
                 else (if semzcnt x \<noteq> 0 then sem_wake (Wake_zcnt sid semnum) s else s));
        d \<leftarrow> set_at s sid;
        let s = set_put s sid (d\<lparr>sem_ctime := now\<rparr>);
        Some (Some 0, No_out, u, vClearAdj sid semnum s)
      })"

definition wake_all :: "nat \<Rightarrow> sem list \<Rightarrow> sem_event list" where
  "wake_all sid b = concat (map (\<lambda>j. (if semncnt (b ! j) \<noteq> 0 then [Wake_ncnt sid j] else []) @
     (if semzcnt (b ! j) \<noteq> 0 then [Wake_zcnt sid j] else [])) [0..<length b])"

definition sem_rmid :: "nat \<Rightarrow> semid_ds \<Rightarrow> user \<Rightarrow> sems \<Rightarrow> (int option \<times> sem_out \<times> user \<times> sems) option" where
  "sem_rmid sid d u s =
     (let (lvl, u) = ipc_cred_match (sem_perm d) u in
      if lvl \<noteq> CRED_OWNER then Some (None, No_out, set_user_error EPERM u, s)
      else do {
        b \<leftarrow> sem_base d;
        let s = s\<lparr>sem_log := sem_log s @ wake_all sid (take (sem_nsems d) b)\<rparr>;
        let s = s\<lparr>sem_total := sem_total s - int (sem_nsems d)\<rparr>;
        Some (Some 0, No_out, u, set_put s sid (d\<lparr>sem_perm := (sem_perm d)\<lparr>ip_mode := (\<lambda>_. {}), ip_alloc := False\<rparr>, sem_base := None\<rparr>))
      })"

definition sem_ipc_set :: "sem_cfg \<Rightarrow> int \<Rightarrow> nat \<Rightarrow> semid_ds \<Rightarrow> bool \<Rightarrow> nat \<Rightarrow> nat \<Rightarrow> perms \<Rightarrow> user \<Rightarrow> sems \<Rightarrow> (int option \<times> sem_out \<times> user \<times> sems) option" where
  "sem_ipc_set c now sid d ok uid gid mode u s =
     (let (lack, u) = ipc_lack_perm (sem_perm d) (IREAD c) u in
      if lack then Some (None, No_out, u, s)
      else Some (Some 0, No_out, if ok then u else set_user_error EFAULT u, set_put s sid
        (d\<lparr>sem_perm := (sem_perm d)\<lparr>ip_uid := uid, ip_gid := gid, ip_mode := mode, ip_alloc := True\<rparr>, sem_ctime := now\<rparr>)))"

definition sem_command :: "sem_cfg \<Rightarrow> int \<Rightarrow> nat \<Rightarrow> semid_ds \<Rightarrow> nat \<Rightarrow> sem_cmd \<Rightarrow> user \<Rightarrow> sems \<Rightarrow> (int option \<times> sem_out \<times> user \<times> sems) option" where
  "sem_command c now sid d semnum cmd u s = (case cmd of
     GETVAL \<Rightarrow> sem_get d semval semnum u s
   | SETVAL v \<Rightarrow> sem_setval c now sid d semnum v u s
   | GETPID \<Rightarrow> sem_get d sempid semnum u s
   | GETNCNT \<Rightarrow> sem_get d semncnt semnum u s
   | GETZCNT \<Rightarrow> sem_get d semzcnt semnum u s
   | GETALL room \<Rightarrow>
       (let (lack, u) = ipc_lack_perm (sem_perm d) SEM_READ u in
        if lack then Some (None, No_out, u, s)
        else do {
          b \<leftarrow> sem_base d;
          let (r, out, u) = getall room (take (sem_nsems d) b) [] u;
          Some (r, Vals out, u, s)
        })
   | SETALL vals \<Rightarrow>
       (let (lack, u) = ipc_lack_perm (sem_perm d) (IWRITE c) u in
        if lack then Some (None, No_out, u, s)
        else do {
          (r, u, s) \<leftarrow> setall c now sid 0 (sem_nsems d) vals u (sem_lock s);
          Some (r, No_out, u, s)
        })
   | IPC_STAT ok \<Rightarrow>
       (let (lack, u) = ipc_lack_perm (sem_perm d) SEM_READ u in
        if lack then Some (None, No_out, u, s) else Some (Some 0, if ok then Stat d else No_out, if ok then u else set_user_error EFAULT u, s))
   | IPC_SET ok uid gid mode \<Rightarrow> sem_ipc_set c now sid d ok uid gid mode u s
   | IPC_RMID \<Rightarrow> sem_rmid sid d u s
   | Other_cmd \<Rightarrow> Some (None, No_out, set_user_error EINVAL u, s))"

definition usemctl :: "sem_cfg \<Rightarrow> int \<Rightarrow> int \<Rightarrow> int \<Rightarrow> sem_cmd \<Rightarrow> user \<Rightarrow> sems \<Rightarrow> (int option \<times> sem_out \<times> user \<times> sems) option" where
  "usemctl c now semid semnum cmd u s =
     (if \<not> in_range 0 semnum (SEMMSL c - 1) then Some (Some (- 1), No_out, set_user_error EINVAL u, s)
      else if semids s = None then Some (None, No_out, set_user_error EINVAL u, s)
      else if \<not> in_range 0 semid (int (SEMMNI c) - 1) then Some (None, No_out, set_user_error EINVAL u, s)
      else do {
        d \<leftarrow> set_at s (nat semid);
        let (free, u) = (if \<not> set_alloc d then (if \<not> is_sem_stat cmd then (True, u) else let (b, u) = super u in (\<not> b, u)) else (False, u));
        if free then Some (None, No_out, set_user_error EINVAL u, s)
        else if semnum \<ge> int (sem_nsems d) then Some (None, No_out, set_user_error EFBIG u, s)
        else sem_command c now (nat semid) d (nat semnum) cmd u s
      })"

text \<open>
  \<open>iSubAdj\<close> subtracts \<open>v\<close> from the caller's adjust value. \<open>kal\<close> is the memory \<open>kalloc\<close> gives for a new
  entry: none, or some with arbitrary contents, here of the member \<open>un_aoe\<close>, which is not cleared.
\<close>

fun adj_list :: "sem_cfg \<Rightarrow> int option \<Rightarrow> nat \<Rightarrow> nat \<Rightarrow> int \<Rightarrow> sem_undo list \<Rightarrow> errno + sem_undo list" where
  "adj_list c kal i j v [] = (case kal of None \<Rightarrow> Inl ENOSPC | Some g \<Rightarrow> Inr [\<lparr>un_id = i, un_num = j, un_aoe = g - v\<rparr>])"
| "adj_list c kal i j v (e # es) =
     (if un_num e = j \<and> un_id e = i then
        (if in_range (- SEMVMX c) (un_aoe e - v) (SEMVMX c) then Inr (e\<lparr>un_aoe := un_aoe e - v\<rparr> # es) else Inl ERANGE)
      else (case adj_list c kal i j v es of Inl er \<Rightarrow> Inl er | Inr es \<Rightarrow> Inr (e # es)))"

definition iSubAdj :: "sem_cfg \<Rightarrow> int option \<Rightarrow> nat \<Rightarrow> nat \<Rightarrow> int \<Rightarrow> user \<Rightarrow> sems \<Rightarrow> bool \<times> user \<times> sems" where
  "iSubAdj c kal i j v u s = (case adj_list c kal i j v (p_semu s (p_pid u)) of
     Inl e \<Rightarrow> (True, set_user_error e u, s)
   | Inr es \<Rightarrow> (False, u, s\<lparr>p_semu := (p_semu s)(p_pid u := es)\<rparr>))"

text \<open>\<open>semundo\<close> goes through the operations to undo and through the semaphores of the set side by side.\<close>

primrec semundo_from :: "sem_cfg \<Rightarrow> int option \<Rightarrow> nat \<Rightarrow> nat \<Rightarrow> sembuf list \<Rightarrow> user \<Rightarrow> sems \<Rightarrow> (user \<times> sems) option" where
  "semundo_from c kal i j [] u s = Some (u, s)"
| "semundo_from c kal i j (b # bs) u s = do {
     s \<leftarrow> sem_put s i j (\<lambda>x. x\<lparr>semval := u16 (semval x - sb_op b)\<rparr>);
     let (u, s) = (if sb_undo b then snd (iSubAdj c kal i (sb_num b) (- sb_op b) u s) else (u, s));
     semundo_from c kal i (j + 1) bs u s
   }"

definition semundo :: "sem_cfg \<Rightarrow> int option \<Rightarrow> nat \<Rightarrow> sembuf list \<Rightarrow> user \<Rightarrow> sems \<Rightarrow> (user \<times> sems) option" where
  "semundo c kal i prev u s = semundo_from c kal i 0 prev u s"

text \<open>
  One pass of \<open>usemop\<close> over its operations; \<open>prev\<close> are those already performed. It ends with all
  performed (and whether a value changed), with an error, or with the need to wait for a semaphore.
\<close>

datatype sem_pass = Pass_done bool | Pass_fail | Pass_wait bool nat

definition pass_fail :: "user \<Rightarrow> sems \<Rightarrow> (sem_pass \<times> user \<times> sems) option" where
  "pass_fail u s = Some (Pass_fail, u, sem_unlock s)"

definition pass_blocked ::
  "sem_cfg \<Rightarrow> int option \<Rightarrow> nat \<Rightarrow> sembuf list \<Rightarrow> sembuf \<Rightarrow> bool \<Rightarrow> user \<Rightarrow> sems \<Rightarrow> (sem_pass \<times> user \<times> sems) option" where
  "pass_blocked c kal sid prev b grow u s = do {
     (u, s) \<leftarrow> semundo c kal sid prev u s;
     if sb_nowait b then pass_fail (if u_err u = None then set_user_error EAGAIN u else u) s
     else Some (Pass_wait grow (sb_num b), u, sem_unlock s)
   }"

text \<open>The three kinds of operation; \<open>Inr\<close> goes on with the next operation.\<close>

definition sem_down ::
  "sem_cfg \<Rightarrow> int option \<Rightarrow> nat \<Rightarrow> semid_ds \<Rightarrow> sembuf list \<Rightarrow> sembuf \<Rightarrow> user \<Rightarrow> sems \<Rightarrow>
   ((sem_pass \<times> user \<times> sems) + user \<times> sems) option" where
  "sem_down c kal sid d prev b u s =
     (let (lack, u) = ipc_lack_perm (sem_perm d) (IWRITE c) u in
      if lack then map_option Inl (pass_fail u s)
      else do {
        x \<leftarrow> sem_at s sid (sb_num b);
        if semval x \<ge> - sb_op b then do {
          s \<leftarrow> sem_put s sid (sb_num b) (semval_update (\<lambda>v. u16 (v + sb_op b)));
          let s = (if u16 (semval x + sb_op b) = 0 \<and> semzcnt x \<noteq> 0 then sem_wake (Wake_zcnt sid (sb_num b)) s else s);
          let (bad, u, s) = (if sb_undo b then iSubAdj c kal sid (sb_num b) (sb_op b) u s else (False, u, s));
          if bad then do { (u, s) \<leftarrow> semundo c kal sid prev u s; map_option Inl (pass_fail u s) }
          else Some (Inr (u, s))
        } else map_option Inl (pass_blocked c kal sid prev b True u s)
      })"

definition sem_zero ::
  "sem_cfg \<Rightarrow> int option \<Rightarrow> nat \<Rightarrow> semid_ds \<Rightarrow> sembuf list \<Rightarrow> sembuf \<Rightarrow> user \<Rightarrow> sems \<Rightarrow>
   ((sem_pass \<times> user \<times> sems) + user \<times> sems) option" where
  "sem_zero c kal sid d prev b u s =
     (let (lack, u) = ipc_lack_perm (sem_perm d) (IREAD c) u in
      if lack then
        let (lack, u) = ipc_lack_perm (sem_perm d) (IWRITE c) u
        in do {
          (u, s) \<leftarrow> (if lack then semundo c kal sid prev u s else Some (u, s));
          map_option Inl (pass_fail u s)
        }
      else do {
        x \<leftarrow> sem_at s sid (sb_num b);
        if semval x = 0 then Some (Inr (u, s)) else map_option Inl (pass_blocked c kal sid prev b False u s)
      })"

definition sem_up ::
  "sem_cfg \<Rightarrow> int option \<Rightarrow> nat \<Rightarrow> semid_ds \<Rightarrow> sembuf list \<Rightarrow> sembuf \<Rightarrow> user \<Rightarrow> sems \<Rightarrow>
   ((sem_pass \<times> user \<times> sems) + user \<times> sems) option" where
  "sem_up c kal sid d prev b u s =
     (let (lack, u) = ipc_lack_perm (sem_perm d) (IWRITE c) u in
      if lack then map_option Inl (pass_fail u s)
      else
        let (bad, u, s) = (if sb_undo b then iSubAdj c kal sid (sb_num b) (sb_op b) u s else (False, u, s))
        in if bad then do { (u, s) \<leftarrow> semundo c kal sid prev u s; map_option Inl (pass_fail u s) }
        else do {
          x \<leftarrow> sem_at s sid (sb_num b);
          if semval x > SEMVMX c - sb_op b then do {
            (u, s) \<leftarrow> semundo c kal sid prev u s;
            let (u, s) = (if sb_undo b then snd (iSubAdj c kal sid (sb_num b) (- sb_op b) u s) else (u, s));
            map_option Inl (pass_fail (set_user_error ERANGE u) s)
          } else do {
            s \<leftarrow> sem_put s sid (sb_num b) (semval_update (\<lambda>v. u16 (v + sb_op b)));
            Some (Inr (u, if semncnt x \<noteq> 0 then sem_wake (Wake_ncnt sid (sb_num b)) s else s))
          }
        })"

primrec sem_ops ::
  "sem_cfg \<Rightarrow> int option \<Rightarrow> nat \<Rightarrow> sembuf list \<Rightarrow> sembuf list \<Rightarrow> bool \<Rightarrow> user \<Rightarrow> sems \<Rightarrow> (sem_pass \<times> user \<times> sems) option" where
  "sem_ops c kal sid prev [] change u s = Some (Pass_done change, u, s)"
| "sem_ops c kal sid prev (b # bs) change u s = do {
     d \<leftarrow> set_at s sid;
     if \<not> in_range (- SEMVMX c) (sb_op b) (SEMVMX c) then do {
       (u, s) \<leftarrow> semundo c kal sid prev u s;
       pass_fail (set_user_error E2BIG u) s
     } else if u_err u \<noteq> None \<or> sb_num b \<ge> sem_nsems d then do {
       (u, s) \<leftarrow> semundo c kal sid prev u s;
       pass_fail (if u_err u = None then set_user_error EFBIG u else u) s
     } else do {
       r \<leftarrow> (if sb_op b < 0 then sem_down c kal sid d prev b u s
             else if sb_op b = 0 then sem_zero c kal sid d prev b u s
             else sem_up c kal sid d prev b u s);
       (case r of Inl x \<Rightarrow> Some x
        | Inr (u, s) \<Rightarrow> sem_ops c kal sid (prev @ [b]) bs (if sb_op b = 0 then change else True) u s)
     }
   }"

text \<open>
  \<open>semwait\<close> for one wakeup, up to the sleep and after it; \<open>grow\<close> tells \<open>semncnt\<close> from \<open>semzcnt\<close>. The
  count that the code reaches through a pointer is found by its set and number.
\<close>

definition count_add :: "bool \<Rightarrow> int \<Rightarrow> sem \<Rightarrow> sem" where
  "count_add grow k x = (if grow then x\<lparr>semncnt := u16 (semncnt x + k)\<rparr> else x\<lparr>semzcnt := u16 (semzcnt x + k)\<rparr>)"

definition semwait_in :: "nat \<Rightarrow> bool \<Rightarrow> nat \<Rightarrow> sems \<Rightarrow> sems option" where
  "semwait_in sid grow j s = sem_put s sid j (count_add grow 1)"

definition semwait :: "nat \<Rightarrow> bool \<Rightarrow> nat \<Rightarrow> sems wake \<Rightarrow> user \<Rightarrow> sems \<Rightarrow> (int \<times> user \<times> sems) option" where
  "semwait sid grow j w u s = do {
     s \<leftarrow> semwait_in sid grow j s;
     let s = fst w s;
     d \<leftarrow> set_at s sid;
     if \<not> set_alloc d then Some (- 1, set_user_error EIDRM u, s)
     else do {
       s \<leftarrow> sem_put s sid j (count_add grow (- 1));
       Some (if snd w then (- 1, set_user_error EINTR u, s) else (0, u, s))
     }
   }"

primrec set_pids :: "nat \<Rightarrow> int \<Rightarrow> sembuf list \<Rightarrow> sems \<Rightarrow> sems option" where
  "set_pids sid pid [] s = Some s"
| "set_pids sid pid (b # bs) s = do { s \<leftarrow> sem_put s sid (sb_num b) (sempid_update (\<lambda>_. pid)); set_pids sid pid bs s }"

definition sem_finish :: "int \<Rightarrow> nat \<Rightarrow> sembuf list \<Rightarrow> bool \<Rightarrow> user \<Rightarrow> sems \<Rightarrow> sems option" where
  "sem_finish now sid ops change u s = do {
     d \<leftarrow> set_at s sid;
     let s = set_put s sid (if change then d\<lparr>sem_otime := now, sem_ctime := now\<rparr> else d\<lparr>sem_otime := now\<rparr>);
     s \<leftarrow> set_pids sid (int (p_pid u)) ops s;
     Some (sem_unlock s)
   }"

text \<open>The passes of \<open>usemop\<close>, from the label \<open>TRY_AGAIN\<close> on.\<close>

fun sem_try :: "sem_cfg \<Rightarrow> int \<Rightarrow> int option \<Rightarrow> nat \<Rightarrow> sembuf list \<Rightarrow> sems wake list \<Rightarrow> user \<Rightarrow> sems \<Rightarrow>
    (sems, int option \<times> user) outcome option" where
  "sem_try c now kal sid ops ws u s = do {
     (r, u, s) \<leftarrow> sem_ops c kal sid [] ops False u (sem_lock s);
     (case r of
        Pass_fail \<Rightarrow> Some (Done s (None, u))
      | Pass_wait grow j \<Rightarrow>
          (case ws of [] \<Rightarrow> do { s \<leftarrow> semwait_in sid grow j s; Some (Blocked s) }
           | w # ws \<Rightarrow> do {
               (r, u, s) \<leftarrow> semwait sid grow j w u s;
               if r < 0 then Some (Done s (None, u)) else sem_try c now kal sid ops ws u s
             })
      | Pass_done change \<Rightarrow> do { s \<leftarrow> sem_finish now sid ops change u s; Some (Done s (Some 0, u)) })
   }"

declare sem_try.simps [simp del]

text \<open>\<open>ops\<close> is \<^const>\<open>None\<close> when the user's array is not accessible.\<close>

definition usemop :: "sem_cfg \<Rightarrow> int \<Rightarrow> int option \<Rightarrow> int \<Rightarrow> sembuf list option \<Rightarrow> sems wake list \<Rightarrow> user \<Rightarrow> sems \<Rightarrow>
    (sems, int option \<times> user) outcome option" where
  "usemop c now kal sem_id ops ws u s =
     (if semids s = None then Some (Done s (None, set_user_error EINVAL u))
      else if \<not> in_range 0 sem_id (int (SEMMNI c) - 1) then Some (Done s (None, set_user_error EINVAL u))
      else (case ops of None \<Rightarrow> Some (Done s (None, set_user_error EFAULT u))
        | Some ops \<Rightarrow>
            if ops = [] then Some (Done s (None, set_user_error EFAULT u))
            else do {
              d \<leftarrow> set_at s (nat sem_id);
              if \<not> set_alloc d then Some (Done s (Some (- 1), set_user_error EINVAL u))
              else sem_try c now kal (nat sem_id) ops ws u s
            }))"

text \<open>The adjustments of an exiting process.\<close>

primrec adjust_all :: "int \<Rightarrow> int \<Rightarrow> sem_undo list \<Rightarrow> sems \<Rightarrow> sems option" where
  "adjust_all now pid [] s = Some s"
| "adjust_all now pid (e # es) s = do {
     s \<leftarrow> sem_put s (un_id e) (un_num e) (\<lambda>x. x\<lparr>semval := u16 (semval x + un_aoe e), sempid := pid\<rparr>);
     d \<leftarrow> set_at s (un_id e);
     adjust_all now pid es (set_put s (un_id e) (d\<lparr>sem_ctime := now\<rparr>))
   }"

definition semAllAdjust :: "int \<Rightarrow> nat \<Rightarrow> user \<Rightarrow> sems \<Rightarrow> sems option" where
  "semAllAdjust now pp u s =
     (if p_semu s pp = [] then Some s else do {
        s \<leftarrow> adjust_all now (int (p_pid u)) (p_semu s pp) s;
        Some (s\<lparr>p_semu := (p_semu s)(pp := [])\<rparr>)
      })"

text \<open>The entry of all the system calls, \<open>usemsys\<close>, with the arguments that each call uses.\<close>

datatype sem_call = Semctl int int sem_cmd | Semget int int ipc_flags | Semop int "sembuf list option" | Sem_other

definition usemsys :: "sem_cfg \<Rightarrow> int \<Rightarrow> bool \<Rightarrow> bool \<Rightarrow> int option \<Rightarrow> sem_call \<Rightarrow> sems wake list \<Rightarrow> user \<Rightarrow> sems \<Rightarrow>
    (sems, int option \<times> sem_out \<times> user) outcome option" where
  "usemsys c now mem1 mem2 kal call ws u s = (case call of
     Semctl i j cmd \<Rightarrow> map_option (\<lambda>(r, out, u, s). Done s (r, out, u)) (usemctl c now i j cmd u s)
   | Semget key n flg \<Rightarrow> map_option (\<lambda>(r, u, s). Done s (r, No_out, u)) (usemget c now mem1 mem2 key n flg u s)
   | Semop i ops \<Rightarrow> map_option (\<lambda>x. case x of Blocked s \<Rightarrow> Blocked s | Done s (r, u) \<Rightarrow> Done s (r, No_out, u)) (usemop c now kal i ops ws u s)
   | Sem_other \<Rightarrow> Some (Done s (None, No_out, set_user_error EINVAL u)))"

section \<open>Reading and writing semaphores\<close>

definition sem_vals :: "sems \<Rightarrow> nat \<Rightarrow> int list option" where
  "sem_vals s i = do { d \<leftarrow> set_at s i; b \<leftarrow> sem_base d; Some (map semval b) }"

text \<open>What the operations of one set leave alone: everything of the sets but the values.\<close>

definition set_shape :: "semid_ds \<Rightarrow> ipc_perm \<times> nat \<times> nat option" where
  "set_shape d = (sem_perm d, sem_nsems d, map_option length (sem_base d))"

definition shape :: "sems \<Rightarrow> (ipc_perm \<times> nat \<times> nat option) list option \<times> int" where
  "shape s = (map_option (map set_shape) (semids s), sem_total s)"

lemma set_at_put [simp]: "set_at s i = Some d \<Longrightarrow> set_at (set_put s i d') i = Some d'"
  by (auto simp: set_at_def set_put_def split: option.splits if_splits)

lemma set_at_put_other [simp]: "i \<noteq> j \<Longrightarrow> set_at (set_put s i d') j = set_at s j"
  by (auto simp: set_at_def set_put_def split: option.splits)

lemma set_put_fields [simp]: "sem_total (set_put s i d) = sem_total s" "sem_gate (set_put s i d) = sem_gate s"
  "p_semu (set_put s i d) = p_semu s" "sem_log (set_put s i d) = sem_log s"
  by (simp_all add: set_put_def)

lemma set_at_fields [simp]: "set_at (s\<lparr>sem_log := l\<rparr>) i = set_at s i" "set_at (s\<lparr>p_semu := p\<rparr>) i = set_at s i"
  "set_at (s\<lparr>sem_gate := g\<rparr>) i = set_at s i" "set_at (s\<lparr>sem_total := t\<rparr>) i = set_at s i"
  by (simp_all add: set_at_def)

lemma sem_vals_fields [simp]: "sem_vals (s\<lparr>sem_log := l\<rparr>) i = sem_vals s i" "sem_vals (s\<lparr>p_semu := p\<rparr>) i = sem_vals s i"
  "sem_vals (s\<lparr>sem_gate := g\<rparr>) i = sem_vals s i"
  by (simp_all add: sem_vals_def)

lemma shape_fields [simp]: "shape (s\<lparr>sem_log := l\<rparr>) = shape s" "shape (s\<lparr>p_semu := p\<rparr>) = shape s"
  "shape (s\<lparr>sem_gate := g\<rparr>) = shape s"
  by (simp_all add: shape_def)

lemma shape_set_put:
  assumes "set_at s i = Some d" "set_shape d' = set_shape d"
  shows "shape (set_put s i d') = shape s"
proof -
  obtain ds where ds: "semids s = Some ds" "i < length ds" "ds ! i = d"
    using assms(1) by (auto simp: set_at_def split: option.splits if_splits)
  have "map set_shape (ds[i := d']) = map set_shape ds"
    using ds assms(2) by (simp add: map_update list_update_same_conv)
  then show ?thesis using ds by (simp add: shape_def set_put_def)
qed

lemma shape_set_at: "shape t = shape s \<Longrightarrow> map_option set_shape (set_at t i) = map_option set_shape (set_at s i)"
proof (cases "semids s"; cases "semids t")
  fix ds es assume "shape t = shape s" and e: "semids s = Some ds" "semids t = Some es"
  then have m: "map set_shape es = map set_shape ds" by (simp add: shape_def)
  then have "length es = length ds" using map_eq_imp_length_eq by blast
  moreover have "set_shape (es ! i) = set_shape (ds ! i)" if "i < length ds"
    using m that calculation by (metis nth_map)
  ultimately show ?thesis using e by (simp add: set_at_def)
qed (auto simp: shape_def set_at_def)

lemma sem_put_facts:
  assumes "sem_put s i j f = Some s'"
  shows "shape s' = shape s" "sem_gate s' = sem_gate s" "p_semu s' = p_semu s" "sem_log s' = sem_log s"
    "k \<noteq> i \<Longrightarrow> set_at s' k = set_at s k"
proof -
  from assms obtain d b where d: "set_at s i = Some d" "sem_base d = Some b" "j < length b"
    "s' = set_put s i (d\<lparr>sem_base := Some (b[j := f (b ! j)])\<rparr>)"
    by (auto simp: sem_put_def split: bind_splits if_splits)
  then show "shape s' = shape s" using shape_set_put [of s i d] by (simp add: set_shape_def)
  show "sem_gate s' = sem_gate s" "p_semu s' = p_semu s" "sem_log s' = sem_log s" using d by simp_all
  show "k \<noteq> i \<Longrightarrow> set_at s' k = set_at s k" using d by simp
qed

lemma sem_putD: "sem_put s i j f = Some s' \<Longrightarrow> shape s' = shape s \<and> sem_gate s' = sem_gate s"
  using sem_put_facts by blast

lemma sem_put_vals:
  assumes "sem_vals s i = Some vs" "j < length vs"
  shows "\<exists>s' x. sem_put s i j f = Some s' \<and> sem_at s i j = Some x \<and> semval x = vs ! j \<and>
    sem_vals s' i = Some (vs[j := semval (f x)])"
proof -
  from assms obtain d b where d: "set_at s i = Some d" "sem_base d = Some b" "vs = map semval b"
    by (auto simp: sem_vals_def split: bind_splits)
  then show ?thesis using assms(2) by (auto simp: sem_put_def sem_at_def sem_vals_def map_update)
qed

lemma iSubAdj_facts [simp]: "shape (snd (snd (iSubAdj c kal i j v u s))) = shape s"
  "sem_vals (snd (snd (iSubAdj c kal i j v u s))) k = sem_vals s k"
  "sem_gate (snd (snd (iSubAdj c kal i j v u s))) = sem_gate s"
  "p_pid (fst (snd (iSubAdj c kal i j v u s))) = p_pid u"
  by (auto simp: iSubAdj_def split: sum.split)

lemma iSubAdjD:
  "iSubAdj c kal i j v u s = (bad, u', s') \<Longrightarrow>
   shape s' = shape s \<and> sem_gate s' = sem_gate s \<and> p_pid u' = p_pid u \<and> (\<forall>k. sem_vals s' k = sem_vals s k)"
  by (auto simp: iSubAdj_def split: sum.splits)

section \<open>What a pass of operations leaves alone\<close>

lemma semundo_from_facts:
  "semundo_from c kal i j bs u s = Some (u', s') \<Longrightarrow> shape s' = shape s \<and> sem_gate s' = sem_gate s \<and> p_pid u' = p_pid u"
proof (induction bs arbitrary: j u s)
  case Nil
  then show ?case by simp
next
  case (Cons b bs)
  then obtain t where t: "sem_put s i j (\<lambda>x. x\<lparr>semval := u16 (semval x - sb_op b)\<rparr>) = Some t" by (auto split: bind_splits)
  note p = sem_put_facts [OF t]
  show ?case
  proof (cases "sb_undo b")
    case False
    then show ?thesis using Cons.IH [of "j + 1" u t] Cons.prems t p by simp
  next
    case True
    obtain x v w where r: "iSubAdj c kal i (sb_num b) (- sb_op b) u t = (x, v, w)" by (metis prod_cases3)
    then have "shape w = shape t" "sem_gate w = sem_gate t" "p_pid v = p_pid u"
      using iSubAdj_facts [of c kal i "sb_num b" "- sb_op b" u t] by auto
    then show ?thesis using Cons.IH [of "j + 1" v w] Cons.prems t p True r by simp
  qed
qed

lemma semundo_facts:
  "semundo c kal i prev u s = Some (u', s') \<Longrightarrow> shape s' = shape s \<and> sem_gate s' = sem_gate s \<and> p_pid u' = p_pid u"
  using semundo_from_facts by (simp add: semundo_def)

text \<open>An unfinished pass has given the gate back, and no pass changes the shape of the sets.\<close>

definition pass_ok :: "sems \<Rightarrow> sem_pass \<times> user \<times> sems \<Rightarrow> bool" where
  "pass_ok s r = (case r of (p, u', s') \<Rightarrow> shape s' = shape s \<and>
     (case p of Pass_done _ \<Rightarrow> sem_gate s' = sem_gate s | _ \<Rightarrow> \<not> sem_gate s'))"

lemma pass_ok_fail [simp]: "shape t = shape s \<Longrightarrow> pass_fail u t = Some r \<Longrightarrow> pass_ok s r"
  by (auto simp: pass_fail_def pass_ok_def)

lemma pass_ok_blocked: "shape t = shape s \<Longrightarrow> pass_blocked c kal i prev b g u t = Some r \<Longrightarrow> pass_ok s r"
  by (auto simp: pass_blocked_def pass_fail_def pass_ok_def dest!: semundo_facts split: bind_splits if_splits)

definition step_ok :: "sems \<Rightarrow> (sem_pass \<times> user \<times> sems) + user \<times> sems \<Rightarrow> bool" where
  "step_ok s r = (case r of Inl x \<Rightarrow> pass_ok s x \<and> (\<forall>ch. fst x \<noteq> Pass_done ch)
     | Inr (u', s') \<Rightarrow> shape s' = shape s \<and> sem_gate s' = sem_gate s)"

lemma fail_not_done [simp]: "pass_fail u t \<noteq> Some (Pass_done ch, x)"
  by (auto simp: pass_fail_def)

lemma blocked_not_done [simp]: "pass_blocked c kal i prev b g u t \<noteq> Some (Pass_done ch, x)"
  by (auto simp: pass_blocked_def pass_fail_def split: bind_splits if_splits)

lemma sem_down_ok: "sem_down c kal i d prev b u s = Some r \<Longrightarrow> step_ok s r"
proof -
  assume a: "sem_down c kal i d prev b u s = Some r"
  obtain lack v where l: "ipc_lack_perm (sem_perm d) (IWRITE c) u = (lack, v)" by (metis surj_pair)
  show ?thesis
  proof (cases lack)
    case True
    then show ?thesis using a l by (auto simp: sem_down_def step_ok_def)
  next
    case nolack: False
    obtain x where x: "sem_at s i (sb_num b) = Some x" using a l nolack by (auto simp: sem_down_def split: bind_splits)
    show ?thesis
    proof (cases "semval x \<ge> - sb_op b")
      case False
      then have "map_option Inl (pass_blocked c kal i prev b True v s) = Some r" using a l nolack x by (simp add: sem_down_def)
      then show ?thesis by (auto simp: step_ok_def dest: pass_ok_blocked [rotated])
    next
      case True
      obtain t where t: "sem_put s i (sb_num b) (semval_update (\<lambda>v. u16 (v + sb_op b))) = Some t"
        using a l nolack x True by (auto simp: sem_down_def split: bind_splits)
      define t1 where "t1 = (if u16 (semval x + sb_op b) = 0 \<and> semzcnt x \<noteq> 0 then sem_wake (Wake_zcnt i (sb_num b)) t else t)"
      have t1: "shape t1 = shape s" "sem_gate t1 = sem_gate s" using sem_put_facts [OF t] by (simp_all add: t1_def)
      obtain bad v2 t2 where u2: "(if sb_undo b then iSubAdj c kal i (sb_num b) (sb_op b) v t1 else (False, v, t1)) = (bad, v2, t2)"
        by (metis prod_cases3)
      have t2: "shape t2 = shape s" "sem_gate t2 = sem_gate s"
        using u2 t1 by (auto split: if_splits dest!: iSubAdjD)
      have "(if bad then do { (u, s) \<leftarrow> semundo c kal i prev v2 t2; map_option Inl (pass_fail u s) } else Some (Inr (v2, t2))) = Some r"
        using a l nolack x True t u2 [unfolded t1_def] by (simp add: sem_down_def Let_def del: if_split)
      then show ?thesis using t2
        by (auto simp: step_ok_def split: if_splits bind_splits dest!: semundo_facts)
    qed
  qed
qed

lemma sem_zero_ok: "sem_zero c kal i d prev b u s = Some r \<Longrightarrow> step_ok s r"
proof -
  assume a: "sem_zero c kal i d prev b u s = Some r"
  obtain lack v where l: "ipc_lack_perm (sem_perm d) (IREAD c) u = (lack, v)" by (metis surj_pair)
  show ?thesis
  proof (cases lack)
    case True
    obtain lack2 w where l2: "ipc_lack_perm (sem_perm d) (IWRITE c) v = (lack2, w)" by (metis surj_pair)
    obtain w2 t where t: "(if lack2 then semundo c kal i prev w s else Some (w, s)) = Some (w2, t)"
      "map_option Inl (pass_fail w2 t) = Some r"
      using a l l2 True by (auto simp: sem_zero_def Let_def split: bind_splits)
    have "shape t = shape s" using t(1) semundo_facts by (auto split: if_splits)
    then show ?thesis using t(2) by (auto simp: step_ok_def)
  next
    case False
    obtain x where x: "sem_at s i (sb_num b) = Some x" using a l False by (auto simp: sem_zero_def split: bind_splits)
    show ?thesis
    proof (cases "semval x = 0")
      case True
      then show ?thesis using a l False x by (auto simp: sem_zero_def step_ok_def)
    next
      case ne: False
      then have "map_option Inl (pass_blocked c kal i prev b False v s) = Some r" using a l False x by (simp add: sem_zero_def)
      then show ?thesis by (auto simp: step_ok_def dest: pass_ok_blocked [rotated])
    qed
  qed
qed

lemma sem_up_ok: "sem_up c kal i d prev b u s = Some r \<Longrightarrow> step_ok s r"
proof -
  assume a: "sem_up c kal i d prev b u s = Some r"
  obtain lack v where l: "ipc_lack_perm (sem_perm d) (IWRITE c) u = (lack, v)" by (metis surj_pair)
  show ?thesis
  proof (cases lack)
    case True
    then show ?thesis using a l by (auto simp: sem_up_def step_ok_def)
  next
    case nolack: False
    obtain bad v2 t2 where u2: "(if sb_undo b then iSubAdj c kal i (sb_num b) (sb_op b) v s else (False, v, s)) = (bad, v2, t2)"
      by (metis prod_cases3)
    have t2: "shape t2 = shape s" "sem_gate t2 = sem_gate s"
      using u2 by (auto split: if_splits dest!: iSubAdjD)
    show ?thesis
    proof (cases bad)
      case True
      then have "do { (u, s) \<leftarrow> semundo c kal i prev v2 t2; map_option Inl (pass_fail u s) } = Some r"
        using a l nolack u2 by (simp add: sem_up_def)
      then show ?thesis using t2 by (auto simp: step_ok_def split: bind_splits dest!: semundo_facts)
    next
      case False
      then obtain x where x: "sem_at t2 i (sb_num b) = Some x" using a l nolack u2 by (auto simp: sem_up_def split: bind_splits)
      show ?thesis
      proof (cases "semval x > SEMVMX c - sb_op b")
        case True
        obtain v3 t3 where u3: "semundo c kal i prev v2 t2 = Some (v3, t3)"
          using a l nolack u2 False x True by (auto simp: sem_up_def split: bind_splits)
        obtain v4 t4 where u4: "(if sb_undo b then snd (iSubAdj c kal i (sb_num b) (- sb_op b) v3 t3) else (v3, t3)) = (v4, t4)"
          by (metis surj_pair)
        have t3: "shape t3 = shape s" using semundo_facts [OF u3] t2 by simp
        have "snd (snd (iSubAdj c kal i (sb_num b) (- sb_op b) v3 t3)) = t4 \<or> t4 = t3"
          using u4 by (auto split: if_splits)
        then have "shape t4 = shape s" using t3 iSubAdj_facts(1) by metis
        moreover have "map_option Inl (pass_fail (set_user_error ERANGE v4) t4) = Some r"
          using a l nolack u2 False x True u3 u4 by (simp add: sem_up_def)
        ultimately show ?thesis by (auto simp: step_ok_def)
      next
        case le: False
        obtain t where t: "sem_put t2 i (sb_num b) (semval_update (\<lambda>v. u16 (v + sb_op b))) = Some t"
          using a l nolack u2 False x le by (auto simp: sem_up_def split: bind_splits)
        then have "r = Inr (v2, if semncnt x \<noteq> 0 then sem_wake (Wake_ncnt i (sb_num b)) t else t)"
          using a l nolack u2 False x le by (simp add: sem_up_def)
        then show ?thesis using sem_put_facts [OF t] t2 by (simp add: step_ok_def)
      qed
    qed
  qed
qed

lemma sem_ops_ok: "sem_ops c kal i prev bs ch u s = Some r \<Longrightarrow> pass_ok s r"
proof (induction bs arbitrary: prev ch u s)
  case Nil
  then show ?case by (auto simp: pass_ok_def)
next
  case (Cons b bs)
  obtain d where d: "set_at s i = Some d" using Cons.prems by (auto split: bind_splits)
  show ?case
  proof (cases "\<not> in_range (- SEMVMX c) (sb_op b) (SEMVMX c) \<or> u_err u \<noteq> None \<or> sb_num b \<ge> sem_nsems d")
    case True
    then show ?thesis using Cons.prems d by (auto split: if_splits bind_splits dest!: semundo_facts)
  next
    case False
    let ?step = "if sb_op b < 0 then sem_down c kal i d prev b u s
             else if sb_op b = 0 then sem_zero c kal i d prev b u s
             else sem_up c kal i d prev b u s"
    have e: "sem_ops c kal i prev (b # bs) ch u s = do { r \<leftarrow> ?step; (case r of Inl x \<Rightarrow> Some x
        | Inr (u, s) \<Rightarrow> sem_ops c kal i (prev @ [b]) bs (if sb_op b = 0 then ch else True) u s) }"
      using False d by simp
    then obtain q where q: "?step = Some q" "(case q of Inl x \<Rightarrow> Some x
        | Inr (u, s) \<Rightarrow> sem_ops c kal i (prev @ [b]) bs (if sb_op b = 0 then ch else True) u s) = Some r"
      using Cons.prems by (auto split: bind_splits)
    have "step_ok s q" using q(1) sem_down_ok sem_zero_ok sem_up_ok by (metis (no_types))
    then show ?thesis
    proof (cases q)
      case (Inl x)
      then show ?thesis using q(2) \<open>step_ok s q\<close> by (simp add: step_ok_def)
    next
      case (Inr y)
      obtain v t where y: "y = (v, t)" by (metis surj_pair)
      have "pass_ok t r" using Cons.IH q(2) Inr y by auto
      then show ?thesis using \<open>step_ok s q\<close> Inr y by (auto simp: step_ok_def pass_ok_def split: sem_pass.splits)
    qed
  qed
qed

lemma sem_ops_shape:
  assumes "sem_ops c kal i [] bs ch u s = Some (p, u', s')"
  shows "shape s' = shape s" "\<And>b. p = Pass_done b \<Longrightarrow> sem_gate s' = sem_gate s" "(\<And>b. p \<noteq> Pass_done b) \<Longrightarrow> \<not> sem_gate s'"
  using sem_ops_ok [OF assms] by (auto simp: pass_ok_def split: sem_pass.splits)

lemma semwait_shape:
  assumes "semwait i g j w u s = Some (r, u', s')" "sem_gate s = False"
    and w: "\<And>t. \<not> sem_gate t \<Longrightarrow> P (shape t) \<Longrightarrow> \<not> sem_gate (fst w t) \<and> P (shape (fst w t))" and P: "P (shape s)"
  shows "\<not> sem_gate s'" "P (shape s')"
proof -
  obtain t where t: "semwait_in i g j s = Some t" using assms(1) by (auto simp: semwait_def split: bind_splits)
  have "shape t = shape s" "sem_gate t = sem_gate s" using t sem_put_facts by (auto simp: semwait_in_def)
  then have v: "\<not> sem_gate (fst w t)" "P (shape (fst w t))" using w [of t] assms(2) P by auto
  obtain d where d: "set_at (fst w t) i = Some d" using assms(1) t by (auto simp: semwait_def Let_def split: bind_splits)
  show "\<not> sem_gate s'" "P (shape s')"
  proof (atomize (full), cases "set_alloc d")
    case False
    then have "s' = fst w t" using assms(1) t d by (simp add: semwait_def Let_def)
    then show "\<not> sem_gate s' \<and> P (shape s')" using v by simp
  next
    case True
    then obtain x where x: "sem_put (fst w t) i j (count_add g (- 1)) = Some x"
      using assms(1) t d by (auto simp: semwait_def Let_def split: bind_splits)
    then have "s' = x" using assms(1) t d True by (auto simp: semwait_def Let_def split: if_splits)
    then show "\<not> sem_gate s' \<and> P (shape s')" using v sem_put_facts [OF x] by simp
  qed
qed

lemma set_pids_facts: "set_pids i p bs s = Some s' \<Longrightarrow> shape s' = shape s \<and> sem_gate s' = sem_gate s"
  by (induction bs arbitrary: s) (auto split: bind_splits dest: sem_put_facts)

text \<open>A property of the shape of the sets that every wakeup keeps is kept by \<open>usemop\<close>, and the gate is free again.\<close>

definition sem_calm :: "((ipc_perm \<times> nat \<times> nat option) list option \<times> int \<Rightarrow> bool) \<Rightarrow> sems wake list \<Rightarrow> bool" where
  "sem_calm P ws \<longleftrightarrow> calm (\<lambda>s. \<not> sem_gate s \<and> P (shape s)) ws"

lemma sem_finish_facts: "sem_finish now i ops ch u s = Some s' \<Longrightarrow> shape s' = shape s \<and> \<not> sem_gate s'"
proof -
  assume a: "sem_finish now i ops ch u s = Some s'"
  then obtain d where d: "set_at s i = Some d" by (auto simp: sem_finish_def split: bind_splits)
  let ?d = "if ch then d\<lparr>sem_otime := now, sem_ctime := now\<rparr> else d\<lparr>sem_otime := now\<rparr>"
  obtain t where t: "set_pids i (int (p_pid u)) ops (set_put s i ?d) = Some t" "s' = sem_unlock t"
    using a d by (auto simp: sem_finish_def Let_def split: bind_splits)
  have "shape (set_put s i ?d) = shape s" using shape_set_put [OF d] by (simp add: set_shape_def)
  then show ?thesis using set_pids_facts [OF t(1)] t(2) by simp
qed

lemma sem_try_keeps:
  "sem_try c now kal i ops ws u s = Some r \<Longrightarrow> sem_calm P ws \<Longrightarrow> P (shape s) \<Longrightarrow>
   (case r of Blocked s' \<Rightarrow> \<not> sem_gate s' \<and> P (shape s') | Done s' _ \<Rightarrow> \<not> sem_gate s' \<and> P (shape s'))"
proof (induction ws arbitrary: u s)
  case Nil
  obtain p v t where o: "sem_ops c kal i [] ops False u (sem_lock s) = Some (p, v, t)"
    using Nil.prems(1) by (subst (asm) sem_try.simps) (auto split: bind_splits)
  note sh = sem_ops_shape [OF o] and st = Nil.prems(1) [unfolded sem_try.simps [of c now kal i ops "[]"] o]
  show ?case
  proof (cases p)
    case (Pass_done ch)
    then show ?thesis using st sh Nil.prems(3) by (auto dest!: sem_finish_facts split: bind_splits)
  next
    case Pass_fail
    then show ?thesis using st sh Nil.prems(3) by auto
  next
    case (Pass_wait g j)
    then show ?thesis using st sh Nil.prems(3) by (auto simp: semwait_in_def dest!: sem_putD split: bind_splits)
  qed
next
  case (Cons w ws)
  obtain p v t where o: "sem_ops c kal i [] ops False u (sem_lock s) = Some (p, v, t)"
    using Cons.prems(1) by (subst (asm) sem_try.simps) (auto split: bind_splits)
  note sh = sem_ops_shape [OF o] and st = Cons.prems(1) [unfolded sem_try.simps [of c now kal i ops "w # ws"] o]
  show ?case
  proof (cases p)
    case (Pass_done ch)
    then show ?thesis using st sh Cons.prems(3) by (auto dest!: sem_finish_facts split: bind_splits)
  next
    case Pass_fail
    then show ?thesis using st sh Cons.prems(3) by auto
  next
    case (Pass_wait g j)
    then obtain q x y where q: "semwait i g j w v t = Some (q, x, y)" using st by (auto split: bind_splits)
    have "\<not> sem_gate y" "P (shape y)"
      using semwait_shape [OF q, of P] sh Pass_wait Cons.prems(2,3) by (auto simp: sem_calm_def)
    have calm: "sem_calm P ws" using Cons.prems(2) by (simp add: sem_calm_def)
    have r: "(if q < 0 then Some (Done y (None, x)) else sem_try c now kal i ops ws x y) = Some r"
      using st q Pass_wait by simp
    show ?thesis
    proof (cases "q < 0")
      case True
      then have "r = Done y (None, x)" using r by simp
      then show ?thesis using \<open>\<not> sem_gate y\<close> \<open>P (shape y)\<close> by simp
    next
      case False
      then show ?thesis using r Cons.IH calm \<open>P (shape y)\<close> by simp
    qed
  qed
qed

lemma usemop_keeps:
  assumes "usemop c now kal sid ops ws u s = Some r" "sem_calm P ws" "P (shape s)" "\<not> sem_gate s"
  shows "case r of Blocked s' \<Rightarrow> \<not> sem_gate s' \<and> P (shape s') | Done s' _ \<Rightarrow> \<not> sem_gate s' \<and> P (shape s')"
proof (cases "\<exists>x. r = Done s x")
  case True
  then show ?thesis using assms(3,4) by auto
next
  case False
  then obtain os where "sem_try c now kal (nat sid) os ws u s = Some r"
    using assms(1) by (auto simp: usemop_def split: if_splits option.splits bind_splits)
  then show ?thesis using sem_try_keeps assms(2,3) by blast
qed

section \<open>Invariant of the semaphore sets\<close>

text \<open>
  \<open>sem_total\<close> counts the semaphores of the allocated sets and is within \<open>SEMMNS\<close>; an allocated set has as many
  semaphores as it says, at least one; no key but \<open>IPC_PRIVATE\<close> is used twice.
\<close>

definition shape_count :: "ipc_perm \<times> nat \<times> nat option \<Rightarrow> int" where
  "shape_count d = (if ip_alloc (fst d) then int (fst (snd d)) else 0)"

definition keys_ok :: "int \<Rightarrow> (bool \<times> int) list \<Rightarrow> bool" where
  "keys_ok private ks \<longleftrightarrow> (\<forall>i j. i < j \<and> j < length ks \<and> fst (ks ! i) \<and> fst (ks ! j) \<and> snd (ks ! i) = snd (ks ! j) \<longrightarrow>
     snd (ks ! i) = private)"

lemma keys_okD:
  assumes "keys_ok private (map f ds)" "i < j" "j < length ds" "fst (f (ds ! i))" "fst (f (ds ! j))" "snd (f (ds ! i)) = snd (f (ds ! j))"
  shows "snd (f (ds ! i)) = private"
proof -
  have "i < j \<and> j < length (map f ds) \<and> fst (map f ds ! i) \<and> fst (map f ds ! j) \<and> snd (map f ds ! i) = snd (map f ds ! j)"
    using assms by simp
  then have "snd (map f ds ! i) = private" using assms(1) unfolding keys_ok_def by blast
  then show ?thesis using assms by simp
qed

lemma keys_ok_none: "(\<And>k. k \<in> set ks \<Longrightarrow> \<not> fst k) \<Longrightarrow> keys_ok private ks"
  unfolding keys_ok_def using nth_mem by blast

lemma keys_ok_replicate [simp]: "keys_ok private (replicate n (False, k))"
  by (rule keys_ok_none) simp

lemma keys_ok_upd:
  assumes "keys_ok private ks" "i < length ks"
    "\<not> fst x \<or> snd x = private \<or> (\<forall>j < length ks. j \<noteq> i \<longrightarrow> fst (ks ! j) \<longrightarrow> snd (ks ! j) \<noteq> snd x)"
  shows "keys_ok private (ks[i := x])"
  unfolding keys_ok_def
proof (intro allI impI)
  fix k j assume h: "k < j \<and> j < length (ks[i := x]) \<and> fst (ks[i := x] ! k) \<and> fst (ks[i := x] ! j) \<and>
    snd (ks[i := x] ! k) = snd (ks[i := x] ! j)"
  then consider "k = i" "j \<noteq> i" | "j = i" "k \<noteq> i" | "k \<noteq> i" "j \<noteq> i" by auto
  then show "snd (ks[i := x] ! k) = private"
  proof cases
    case 3
    then have "k < j \<and> j < length ks \<and> fst (ks ! k) \<and> fst (ks ! j) \<and> snd (ks ! k) = snd (ks ! j)" using h by simp
    then show ?thesis using assms(1) 3 unfolding keys_ok_def by (metis nth_list_update_neq)
  qed (use h assms in auto)
qed

definition shape_inv :: "sem_cfg \<Rightarrow> (ipc_perm \<times> nat \<times> nat option) list option \<times> int \<Rightarrow> bool" where
  "shape_inv c sh = (case sh of
     (None, t) \<Rightarrow> t = 0
   | (Some ds, t) \<Rightarrow> length ds = SEMMNI c \<and>
       t = (\<Sum>d \<leftarrow> ds. shape_count d) \<and> t \<le> SEMMNS c \<and>
       (\<forall>d \<in> set ds. ip_alloc (fst d) \<longrightarrow> snd (snd d) = Some (fst (snd d)) \<and> 0 < fst (snd d)) \<and>
       keys_ok (IPC_PRIVATE c) (map (\<lambda>d. (ip_alloc (fst d), ip_key (fst d))) ds))"

definition sem_inv :: "sem_cfg \<Rightarrow> sems \<Rightarrow> bool" where
  "sem_inv c s \<longleftrightarrow> shape_inv c (shape s) \<and> \<not> sem_gate s"

definition set_count :: "semid_ds \<Rightarrow> int" where
  "set_count d = (if set_alloc d then int (sem_nsems d) else 0)"

lemma sem_inv_Some:
  assumes "semids s = Some ds"
  shows "shape_inv c (shape s) \<longleftrightarrow> length ds = SEMMNI c \<and> sem_total s = (\<Sum>d \<leftarrow> ds. set_count d) \<and> sem_total s \<le> SEMMNS c \<and>
    (\<forall>d \<in> set ds. set_alloc d \<longrightarrow> (\<exists>b. sem_base d = Some b \<and> length b = sem_nsems d) \<and> 0 < sem_nsems d) \<and>
    keys_ok (IPC_PRIVATE c) (map (\<lambda>d. (set_alloc d, ip_key (sem_perm d))) ds)"
proof -
  have c: "(\<lambda>d. shape_count (set_shape d)) = set_count"
    by (auto simp: fun_eq_iff shape_count_def set_shape_def set_count_def)
  have k: "map ((\<lambda>d. (ip_alloc (fst d), ip_key (fst d))) \<circ> set_shape) ds = map (\<lambda>d. (set_alloc d, ip_key (sem_perm d))) ds"
    by (simp add: set_shape_def)
  show ?thesis using assms
    by (simp only: shape_inv_def shape_def option.map prod.case option.case map_map k length_map)
      (simp add: comp_def c, auto simp: set_shape_def)
qed

lemma sum_list_upd:
  fixes f :: "'a \<Rightarrow> int"
  assumes "i < length xs"
  shows "(\<Sum>x \<leftarrow> xs[i := y]. f x) = (\<Sum>x \<leftarrow> xs. f x) - f (xs ! i) + f y"
  using assms by (induction xs arbitrary: i) (auto split: nat.split)

lemma sem_scan_Inl:
  "sem_scan c key k fr ds = Inl i \<Longrightarrow>
   k \<le> i \<and> i - k < length ds \<and> set_alloc (ds ! (i - k)) \<and> key = ip_key (sem_perm (ds ! (i - k))) \<and> key \<noteq> IPC_PRIVATE c"
proof (induction ds arbitrary: k fr)
  case Nil
  then show ?case by simp
next
  case (Cons d ds)
  show ?case
  proof (cases "set_alloc d \<and> key \<noteq> IPC_PRIVATE c \<and> key = ip_key (sem_perm d)")
    case True
    then show ?thesis using Cons.prems by auto
  next
    case False
    then obtain fr' where "sem_scan c key (k + 1) fr' ds = Inl i" using Cons.prems by (auto split: if_splits)
    from Cons.IH [OF this] have "k + 1 \<le> i" "i - (k + 1) < length ds" "set_alloc (ds ! (i - (k + 1)))"
      "key = ip_key (sem_perm (ds ! (i - (k + 1))))" "key \<noteq> IPC_PRIVATE c" by auto
    moreover from this have "i - k = Suc (i - (k + 1))" by simp
    ultimately show ?thesis by auto
  qed
qed

lemma sem_scan_Inr:
  "sem_scan c key k fr ds = Inr fr' \<Longrightarrow>
   (key \<noteq> IPC_PRIVATE c \<longrightarrow> (\<forall>d \<in> set ds. set_alloc d \<longrightarrow> ip_key (sem_perm d) \<noteq> key)) \<and>
   (case fr' of None \<Rightarrow> fr = None \<and> (\<forall>d \<in> set ds. set_alloc d)
    | Some (i, t) \<Rightarrow> fr = Some (i, t) \<or> (k \<le> i \<and> i - k < length ds \<and> \<not> set_alloc (ds ! (i - k))))"
proof (induction ds arbitrary: k fr)
  case Nil
  then show ?case by (auto split: option.split)
next
  case (Cons d ds)
  define fr1 where "fr1 = (if set_alloc d then fr else case fr of None \<Rightarrow> Some (k, sem_ctime d)
           | Some (f, t) \<Rightarrow> if t > sem_ctime d then Some (k, sem_ctime d) else fr)"
  have key: "key \<noteq> IPC_PRIVATE c \<longrightarrow> set_alloc d \<longrightarrow> ip_key (sem_perm d) \<noteq> key"
    and r: "sem_scan c key (k + 1) fr1 ds = Inr fr'"
    using Cons.prems by (auto simp: fr1_def split: if_splits)
  note IH = Cons.IH [OF r]
  show ?case
  proof (cases fr')
    case None
    then have "fr1 = None" "\<forall>d \<in> set ds. set_alloc d" using IH by auto
    then have "fr = None" "set_alloc d" by (auto simp: fr1_def split: if_splits option.splits)
    then show ?thesis using IH key None by auto
  next
    case (Some x)
    obtain i t where x: "x = (i, t)" by (cases x)
    have "fr1 = Some (i, t) \<or> (k + 1 \<le> i \<and> i - (k + 1) < length ds \<and> \<not> set_alloc (ds ! (i - (k + 1))))"
      using IH Some x by auto
    moreover have "fr = Some (i, t) \<or> i = k \<and> \<not> set_alloc d" if "fr1 = Some (i, t)"
      using that by (auto simp: fr1_def split: if_splits option.splits)
    moreover have "i - k = Suc (i - (k + 1))" if "k + 1 \<le> i" using that by simp
    ultimately have "fr = Some (i, t) \<or> (k \<le> i \<and> i - k < length (d # ds) \<and> \<not> set_alloc ((d # ds) ! (i - k)))"
      by fastforce
    then show ?thesis using IH key Some x by auto
  qed
qed

text \<open>Replacing one set, as \<open>usemget\<close>, \<open>IPC_SET\<close> and \<open>IPC_RMID\<close> do.\<close>

lemma shape_inv_replace:
  assumes inv: "shape_inv c (shape s)" and ds: "semids s = Some ds" "i < length ds"
    and t: "sem_total s - set_count (ds ! i) + set_count d \<le> SEMMNS c"
    and d: "set_alloc d \<Longrightarrow> (\<exists>b. sem_base d = Some b \<and> length b = sem_nsems d) \<and> 0 < sem_nsems d"
    and key: "set_alloc d \<Longrightarrow> ip_key (sem_perm d) = IPC_PRIVATE c \<or>
      (\<forall>j < length ds. j \<noteq> i \<longrightarrow> set_alloc (ds ! j) \<longrightarrow> ip_key (sem_perm (ds ! j)) \<noteq> ip_key (sem_perm d))"
  shows "shape_inv c (shape (set_put (s\<lparr>sem_total := sem_total s - set_count (ds ! i) + set_count d\<rparr>) i d))"
proof -
  let ?s = "set_put (s\<lparr>sem_total := sem_total s - set_count (ds ! i) + set_count d\<rparr>) i d"
  note I = inv [unfolded sem_inv_Some [OF ds(1)]]
  have e: "semids ?s = Some (ds[i := d])" using ds by (simp add: set_put_def)
  have "keys_ok (IPC_PRIVATE c) ((map (\<lambda>d. (set_alloc d, ip_key (sem_perm d))) ds)[i := (set_alloc d, ip_key (sem_perm d))])"
    using I ds(2) key by (intro keys_ok_upd) auto
  then have "keys_ok (IPC_PRIVATE c) (map (\<lambda>d. (set_alloc d, ip_key (sem_perm d))) (ds[i := d]))"
    by (simp add: map_update)
  moreover have "sem_total ?s = (\<Sum>d \<leftarrow> ds[i := d]. set_count d)"
    using I sum_list_upd [OF ds(2), of set_count d] by simp
  moreover have "\<forall>x \<in> set (ds[i := d]). set_alloc x \<longrightarrow> (\<exists>b. sem_base x = Some b \<and> length b = sem_nsems x) \<and> 0 < sem_nsems x"
    using I d by (auto dest: set_update_subset_insert [THEN subsetD])
  moreover have "sem_total ?s \<le> SEMMNS c" using t by simp
  moreover have "length (ds[i := d]) = SEMMNI c" using I by simp
  ultimately show ?thesis unfolding sem_inv_Some [OF e] by blast
qed

lemma shape_inv_replace_same:
  assumes inv: "shape_inv c (shape s)" and ds: "semids s = Some ds" "i < length ds"
    and t: "set_count d = set_count (ds ! i)"
    and d: "set_alloc d \<Longrightarrow> (\<exists>b. sem_base d = Some b \<and> length b = sem_nsems d) \<and> 0 < sem_nsems d"
    and key: "set_alloc d \<Longrightarrow> ip_key (sem_perm d) = IPC_PRIVATE c \<or>
      (\<forall>j < length ds. j \<noteq> i \<longrightarrow> set_alloc (ds ! j) \<longrightarrow> ip_key (sem_perm (ds ! j)) \<noteq> ip_key (sem_perm d))"
  shows "shape_inv c (shape (set_put s i d))"
proof -
  have "s\<lparr>sem_total := sem_total s - set_count (ds ! i) + set_count d\<rparr> = s" using t by simp
  moreover have "sem_total s - set_count (ds ! i) + set_count d \<le> SEMMNS c"
    using inv t by (simp add: sem_inv_Some [OF ds(1)])
  ultimately show ?thesis using shape_inv_replace [OF inv ds, of d] d key by simp
qed

lemma seminit_inv:
  assumes "sem_inv c s" "semids s = None" "0 \<le> SEMMNS c" "fst (seminit c mem s) = 0"
  shows "sem_inv c (snd (seminit c mem s))" "semids (snd (seminit c mem s)) \<noteq> None"
proof -
  have s: "snd (seminit c mem s) = s\<lparr>semids := Some (replicate (SEMMNI c) free_set)\<rparr>" using assms(4) by (simp add: seminit_def split: if_splits)
  have "sem_total s = 0" using assms(1,2) by (simp add: sem_inv_def shape_inv_def shape_def)
  moreover have "\<not> set_alloc free_set" by (simp add: free_set_def no_perm_def)
  ultimately show "sem_inv c (snd (seminit c mem s))" unfolding s
    using assms(1,3) by (simp add: sem_inv_def sem_inv_Some set_count_def sum_list_replicate)
  show "semids (snd (seminit c mem s)) \<noteq> None" unfolding s by simp
qed

lemma usemget_create_inv:
  assumes inv: "shape_inv c (shape s)" and ds: "semids s = Some ds"
    and scan: "sem_scan c key 0 None ds = Inr fr"
  shows "\<exists>r u' s'. usemget_create c now mem key nsems flg fr u s = Some (r, u', s') \<and> sem_inv c s' \<and>
    (case r of None \<Rightarrow> u_err u' \<noteq> None | Some i \<Rightarrow> u' = u \<and> (\<exists>d b. 0 \<le> i \<and> set_at s' (nat i) = Some d \<and> set_alloc d \<and> ip_key (sem_perm d) = key \<and>
       ip_mode (sem_perm d) = f_mode flg \<and> ip_uid (sem_perm d) = cr_uid u \<and> sem_base d = Some b \<and> int (length b) = nsems \<and>
       sem_nsems d = nat nsems \<and> (\<forall>x \<in> set b. semval x = 0)))"
proof -
  note I = inv [unfolded sem_inv_Some [OF ds]]
  have inv': "sem_inv c (sem_unlock s)" using inv by (simp add: sem_inv_def)
  show ?thesis
  proof (cases "nsems < 1 \<or> sem_total s + nsems > SEMMNS c \<or> \<not> f_creat flg \<or> fr = None")
    case True
    then show ?thesis using inv' by (auto simp: usemget_create_def)
  next
    case False
    then obtain i t where fr: "fr = Some (i, t)" by auto
    have i: "i < length ds" "\<not> set_alloc (ds ! i)" and k: "key \<noteq> IPC_PRIVATE c \<Longrightarrow> \<forall>d \<in> set ds. set_alloc d \<longrightarrow> ip_key (sem_perm d) \<noteq> key"
      using sem_scan_Inr [OF scan] fr by auto
    have at: "set_at s i = Some (ds ! i)" using ds i by (simp add: set_at_def)
    have c0: "set_count (ds ! i) = 0" using i by (simp add: set_count_def)
    show ?thesis
    proof (cases mem)
      case False
      let ?d = "(ds ! i)\<lparr>sem_base := None\<rparr>"
      have "set_count ?d = 0" using i by (simp add: set_count_def)
      then have "shape_inv c (shape (set_put s i ?d))"
        using c0 i by (intro shape_inv_replace_same [OF inv ds i(1)]) simp_all
      then show ?thesis using False \<open>\<not> (nsems < 1 \<or> _ \<or> _ \<or> _)\<close> fr at by (simp add: usemget_create_def sem_inv_def)
    next
      case True
      define d where "d = (ds ! i)\<lparr>sem_perm := (ipc_perm_init (f_mode flg) u (sem_perm (ds ! i)))\<lparr>ip_key := key, ip_seq := i\<rparr>,
        sem_nsems := nat nsems, sem_otime := 0, sem_ctime := now,
        sem_base := Some (replicate (nat nsems) \<lparr>semval = 0, sempid = 0, semncnt = 0, semzcnt = 0\<rparr>)\<rparr>"
      have d: "set_alloc d" "ip_key (sem_perm d) = key" "ip_mode (sem_perm d) = f_mode flg" "ip_uid (sem_perm d) = cr_uid u"
        "sem_nsems d = nat nsems" "sem_base d = Some (replicate (nat nsems) \<lparr>semval = 0, sempid = 0, semncnt = 0, semzcnt = 0\<rparr>)"
        by (simp_all add: d_def ipc_perm_init_def)
      have cnt: "set_count d = nsems" using d False by (simp add: set_count_def)
      have "shape_inv c (shape (set_put (s\<lparr>sem_total := sem_total s - set_count (ds ! i) + set_count d\<rparr>) i d))"
        using inv ds i(1)
      proof (rule shape_inv_replace)
        show "sem_total s - set_count (ds ! i) + set_count d \<le> SEMMNS c" using False c0 cnt by simp
        show "(\<exists>b. sem_base d = Some b \<and> length b = sem_nsems d) \<and> 0 < sem_nsems d" using d False by simp
        show "ip_key (sem_perm d) = IPC_PRIVATE c \<or>
          (\<forall>j < length ds. j \<noteq> i \<longrightarrow> set_alloc (ds ! j) \<longrightarrow> ip_key (sem_perm (ds ! j)) \<noteq> ip_key (sem_perm d))"
          using d k by auto
      qed
      then have "shape_inv c (shape (set_put (s\<lparr>sem_total := sem_total s + nsems\<rparr>) i d))" using c0 cnt by simp
      moreover have "usemget_create c now mem key nsems flg fr u s =
          Some (Some (int i), u, sem_unlock (set_put (s\<lparr>sem_total := sem_total s + nsems\<rparr>) i d))"
        using False True fr at by (simp add: usemget_create_def d_def Let_def)
      moreover have "set_at (sem_unlock (set_put (s\<lparr>sem_total := sem_total s + nsems\<rparr>) i d)) i = Some d"
        using at by simp
      ultimately show ?thesis using d False by (auto simp: sem_inv_def)
    qed
  qed
qed

lemma usemget_found_inv:
  assumes inv: "shape_inv c (shape s)" and ds: "semids s = Some ds" "i < length ds"
  shows "\<exists>r u'. usemget_found i nsems flg u s = Some (r, u', sem_unlock s) \<and> sem_inv c (sem_unlock s) \<and>
    (if u_err u' \<noteq> None then r = Some (- 1) else r = Some (int i))"
  using assms by (auto simp: usemget_found_def set_at_def sem_inv_def Let_def split_beta)

lemma usemget_start:
  assumes inv: "sem_inv c s" and lim: "0 \<le> SEMMNS c" and n: "in_range 0 nsems (SEMMSL c - 1)"
    and i: "\<not> (semids s = None \<and> fst (seminit c mem1 s) \<noteq> 0)"
  shows "\<exists>t ds. sem_inv c t \<and> semids t = Some ds \<and> usemget c now mem1 mem2 key nsems flg u s = (case sem_scan c key 0 None ds of
       Inl i \<Rightarrow> usemget_found i nsems flg u (sem_lock t) | Inr fr \<Rightarrow> usemget_create c now mem2 key nsems flg fr u (sem_lock t))"
proof -
  define t where "t = (if semids s = None then snd (seminit c mem1 s) else s)"
  have t: "sem_inv c t" "semids t \<noteq> None" using i inv seminit_inv [OF inv _ lim] by (auto simp: t_def)
  then obtain ds where ds: "semids t = Some ds" by auto
  have len: "take (SEMMNI c) ds = ds" using t(1) ds by (simp add: sem_inv_def sem_inv_Some)
  have "usemget c now mem1 mem2 key nsems flg u s = (case sem_scan c key 0 None ds of
       Inl i \<Rightarrow> usemget_found i nsems flg u (sem_lock t) | Inr fr \<Rightarrow> usemget_create c now mem2 key nsems flg fr u (sem_lock t))"
  proof (cases "semids s = None")
    case True
    then have t': "t = snd (seminit c mem1 s)" by (simp add: t_def)
    show ?thesis using i n ds True unfolding t' by (simp add: usemget_def Let_def split_beta len)
  next
    case some: False
    then have t': "t = s" by (auto simp: t_def)
    show ?thesis using n ds some unfolding t' by (auto simp: usemget_def Let_def split_beta len)
  qed
  then show ?thesis using t(1) ds by blast
qed

lemma usemget_inv:
  assumes inv: "sem_inv c s" and lim: "0 \<le> SEMMNS c"
  shows "\<exists>r u' s'. usemget c now mem1 mem2 key nsems flg u s = Some (r, u', s') \<and> sem_inv c s'"
proof (cases "\<not> in_range 0 nsems (SEMMSL c - 1) \<or> semids s = None \<and> fst (seminit c mem1 s) \<noteq> 0")
  case True
  have "sem_inv c (snd (seminit c mem1 s))" if "semids s = None" "fst (seminit c mem1 s) \<noteq> 0"
    using that inv by (auto simp: seminit_def sem_inv_def shape_def split: if_splits)
  then show ?thesis using True inv by (auto simp: usemget_def Let_def split_beta)
next
  case False
  then have n: "in_range 0 nsems (SEMMSL c - 1)" and i: "\<not> (semids s = None \<and> fst (seminit c mem1 s) \<noteq> 0)" by auto
  from usemget_start [OF inv lim n i, of now mem2 key flg u] obtain t ds where t: "sem_inv c t" "semids t = Some ds" and
    e: "usemget c now mem1 mem2 key nsems flg u s = (case sem_scan c key 0 None ds of
       Inl i \<Rightarrow> usemget_found i nsems flg u (sem_lock t) | Inr fr \<Rightarrow> usemget_create c now mem2 key nsems flg fr u (sem_lock t))" by blast
  have sh: "shape_inv c (shape (sem_lock t))" and ds: "semids (sem_lock t) = Some ds" using t by (simp_all add: sem_inv_def)
  show ?thesis
  proof (cases "sem_scan c key 0 None ds")
    case (Inl i)
    then have "i < length ds" using sem_scan_Inl by fastforce
    then show ?thesis unfolding e using Inl usemget_found_inv [OF sh ds] by fastforce
  next
    case (Inr fr)
    then show ?thesis unfolding e using usemget_create_inv [OF sh ds Inr] by fastforce
  qed
qed

text \<open>What a successful call has found or made.\<close>

lemma usemget_result:
  assumes inv: "sem_inv c s" and lim: "0 \<le> SEMMNS c" and call: "usemget c now mem1 mem2 key nsems flg u s = Some (Some i, u', s')"
    and i: "0 \<le> i"
  shows "(\<exists>d. set_at s' (nat i) = Some d \<and> set_alloc d \<and> ip_key (sem_perm d) = key \<and> nsems \<le> int (sem_nsems d)) \<and>
    in_range 0 nsems (SEMMSL c - 1) \<and> sem_inv c s'"
proof -
  have n: "in_range 0 nsems (SEMMSL c - 1)" and z: "\<not> (semids s = None \<and> fst (seminit c mem1 s) \<noteq> 0)"
    using call i by (auto simp: usemget_def Let_def split_beta split: if_splits)
  from usemget_start [OF inv lim n z, of now mem2 key flg u] obtain t ds where t: "sem_inv c t" "semids t = Some ds" and
    e: "usemget c now mem1 mem2 key nsems flg u s = (case sem_scan c key 0 None ds of
       Inl i \<Rightarrow> usemget_found i nsems flg u (sem_lock t) | Inr fr \<Rightarrow> usemget_create c now mem2 key nsems flg fr u (sem_lock t))" by blast
  have sh: "shape_inv c (shape (sem_lock t))" and ds: "semids (sem_lock t) = Some ds" using t by (simp_all add: sem_inv_def)
  show ?thesis
  proof (cases "sem_scan c key 0 None ds")
    case (Inl k)
    then have k: "k < length ds" "set_alloc (ds ! k)" "ip_key (sem_perm (ds ! k)) = key" using sem_scan_Inl [OF Inl] by simp_all
    have f: "usemget_found k nsems flg u (sem_lock t) = Some (Some i, u', s')" using call e Inl by simp
    have at: "set_at (sem_lock t) k = Some (ds ! k)" using t(2) k(1) by (simp add: set_at_def)
    have "s' = sem_unlock (sem_lock t)" "i = int k" "u_err u' = None"
      using f at i by (auto simp: usemget_found_def Let_def split_beta split: if_splits)
    moreover have "nsems \<le> int (sem_nsems (ds ! k))"
      using f at \<open>u_err u' = None\<close> ipc_lack_perm_err [of "sem_perm (ds ! k)" "f_mode flg" u]
      by (auto simp: usemget_found_def Let_def split_beta split: if_splits)
    moreover have "sem_inv c (sem_unlock (sem_lock t))" "set_at (sem_unlock (sem_lock t)) k = Some (ds ! k)"
      using t at by (simp_all add: sem_inv_def)
    ultimately show ?thesis using k n by simp
  next
    case (Inr fr)
    then show ?thesis using usemget_create_inv [OF sh ds Inr, of now mem2 nsems flg u] call e n by fastforce
  qed
qed

lemma set_at_Some: "set_at s i = Some d \<longleftrightarrow> (\<exists>ds. semids s = Some ds \<and> i < length ds \<and> ds ! i = d)"
  by (auto simp: set_at_def split: option.splits)

lemma shape_inv_set:
  assumes "shape_inv c (shape s)" "set_at s i = Some d" "set_alloc d"
  shows "\<exists>b. sem_base d = Some b \<and> length b = sem_nsems d" "0 < sem_nsems d"
  using assms by (auto simp: set_at_Some sem_inv_Some)

lemma vClearAdj_shape [simp]: "shape (vClearAdj i j s) = shape s" "sem_gate (vClearAdj i j s) = sem_gate s"
  "set_at (vClearAdj i j s) k = set_at s k"
  by (simp_all add: vClearAdj_def)

lemma sem_put_total:
  assumes "shape_inv c (shape s)" "set_at s i = Some d" "set_alloc d" "j < sem_nsems d"
  shows "\<exists>s'. sem_put s i j f = Some s' \<and> shape s' = shape s \<and> sem_gate s' = sem_gate s \<and>
    (\<exists>d'. set_at s' i = Some d' \<and> set_shape d' = set_shape d) \<and> (\<exists>x. sem_at s' i j = Some x)"
proof -
  obtain b where b: "sem_base d = Some b" "length b = sem_nsems d" using shape_inv_set [OF assms(1-3)] by blast
  then have p: "sem_put s i j f = Some (set_put s i (d\<lparr>sem_base := Some (b[j := f (b ! j)])\<rparr>))"
    using assms by (simp add: sem_put_def)
  note f = sem_putD [OF p]
  have "set_shape (d\<lparr>sem_base := Some (b[j := f (b ! j)])\<rparr>) = set_shape d" using b by (simp add: set_shape_def)
  then show ?thesis using p f assms b by (auto simp: sem_at_def)
qed

lemma set_shape_eq: "set_shape d' = set_shape d \<Longrightarrow> set_alloc d' = set_alloc d \<and> sem_nsems d' = sem_nsems d"
  by (simp add: set_shape_def)

lemma setall_keeps:
  assumes "shape_inv c (shape s)" "set_at s i = Some d" "set_alloc d" "j + n = sem_nsems d"
  shows "\<exists>r u' s'. setall c now i j n vals u s = Some (r, u', s') \<and> shape s' = shape s \<and> \<not> sem_gate s'"
  using assms
proof (induction n arbitrary: j vals u s d)
  case 0
  then show ?case using shape_set_put [of s i d "d\<lparr>sem_ctime := now\<rparr>"] by (auto simp: set_shape_def)
next
  case (Suc n)
  let ?u = "if vals = [] then set_user_error EFAULT u else u"
  show ?case
  proof (cases "u_err ?u \<noteq> None \<or> \<not> in_range 0 (hd vals) (SEMVMX c)")
    case True
    then show ?thesis by (auto simp: Let_def)
  next
    case False
    have "j < sem_nsems d" using Suc.prems(4) by simp
    from sem_put_total [OF Suc.prems(1-3) this, of "semval_update (\<lambda>_. hd vals)"] obtain t d' where
      t: "sem_put s i j (semval_update (\<lambda>_. hd vals)) = Some t" "shape t = shape s" "set_at t i = Some d'" "set_shape d' = set_shape d"
      by blast
    have "shape_inv c (shape (vClearAdj i j t))" "set_at (vClearAdj i j t) i = Some d'" "set_alloc d'" "j + 1 + n = sem_nsems d'"
      using Suc.prems t set_shape_eq [OF t(4)] by simp_all
    from Suc.IH [OF this, of "tl vals" ?u] obtain r u' s' where
      "setall c now i (j + 1) n (tl vals) ?u (vClearAdj i j t) = Some (r, u', s')" "shape s' = shape t" "\<not> sem_gate s'" by auto
    then show ?thesis using False t by (auto simp: Let_def)
  qed
qed

lemma sem_setval_keeps:
  assumes inv: "shape_inv c (shape s)" "\<not> sem_gate s" and d: "set_at s i = Some d" "set_alloc d" "j < sem_nsems d"
  shows "\<exists>r out u' s'. sem_setval c now i d j v u s = Some (r, out, u', s') \<and> shape s' = shape s \<and> \<not> sem_gate s'"
proof -
  obtain lack w where l: "ipc_lack_perm (sem_perm d) SEM_WRITE u = (lack, w)" by (metis surj_pair)
  show ?thesis
  proof (cases "lack \<or> \<not> in_range 0 v (SEMVMX c)")
    case True
    then show ?thesis using l inv by (auto simp: sem_setval_def)
  next
    case False
    from sem_put_total [OF inv(1) d, of "semval_update (\<lambda>_. v)"] obtain t x d' where
      t: "sem_put s i j (semval_update (\<lambda>_. v)) = Some t" "shape t = shape s" "sem_gate t = sem_gate s" "set_at t i = Some d'"
      "set_shape d' = set_shape d" "sem_at t i j = Some x" by blast
    have "shape (set_put t i (d'\<lparr>sem_ctime := now\<rparr>)) = shape t"
      using shape_set_put [OF t(4), of "d'\<lparr>sem_ctime := now\<rparr>"] by (simp add: set_shape_def)
    moreover have "shape (set_put (t\<lparr>sem_log := l\<rparr>) i (d'\<lparr>sem_ctime := now\<rparr>)) = shape t" for l
      using shape_set_put [of "t\<lparr>sem_log := l\<rparr>" i d' "d'\<lparr>sem_ctime := now\<rparr>"] t(4) by (simp add: set_shape_def)
    ultimately show ?thesis using False l t inv(2) by (auto simp: sem_setval_def Let_def)
  qed
qed

lemma sem_command_inv:
  assumes inv: "sem_inv c s" and d: "set_at s i = Some d" "set_alloc d" "j < sem_nsems d"
  shows "\<exists>r out u' s'. sem_command c now i d j cmd u s = Some (r, out, u', s') \<and> sem_inv c s'"
proof -
  have I: "shape_inv c (shape s)" "\<not> sem_gate s" using inv by (simp_all add: sem_inv_def)
  obtain ds where ds: "semids s = Some ds" "i < length ds" "ds ! i = d" using d(1) by (auto simp: set_at_Some)
  obtain b where b: "sem_base d = Some b" "length b = sem_nsems d" using shape_inv_set [OF I(1) d(1,2)] by blast
  have get: "\<exists>r out u' s'. sem_get d f j u s = Some (r, out, u', s') \<and> sem_inv c s'" for f
    using b d(3) inv by (auto simp: sem_get_def split_beta)
  show ?thesis
  proof (cases cmd)
    case (SETVAL v)
    obtain r out u' s' where r: "sem_setval c now i d j v u s = Some (r, out, u', s')" "shape s' = shape s" "\<not> sem_gate s'"
      using sem_setval_keeps [OF I d] by blast
    then have "sem_inv c s'" using I(1) by (simp add: sem_inv_def)
    then show ?thesis using r(1) SETVAL by (simp add: sem_command_def)
  next
    case (GETALL room)
    then show ?thesis using b inv by (auto simp: sem_command_def split_beta)
  next
    case (SETALL vals)
    have "shape_inv c (shape (sem_lock s))" "set_at (sem_lock s) i = Some d" using I d by simp_all
    from setall_keeps [OF this d(2), of 0 "sem_nsems d" now vals "snd (ipc_lack_perm (sem_perm d) (IWRITE c) u)"]
    obtain r u' s' where r: "setall c now i 0 (sem_nsems d) vals (snd (ipc_lack_perm (sem_perm d) (IWRITE c) u)) (sem_lock s) =
        Some (r, u', s')" "shape s' = shape s" "\<not> sem_gate s'" by auto
    then have "sem_inv c s'" using I(1) by (simp add: sem_inv_def)
    then show ?thesis using r(1) SETALL inv by (simp add: sem_command_def split_beta)
  next
    case (IPC_SET ok uid gid mode)
    let ?d = "d\<lparr>sem_perm := (sem_perm d)\<lparr>ip_uid := uid, ip_gid := gid, ip_mode := mode, ip_alloc := True\<rparr>, sem_ctime := now\<rparr>"
    have "keys_ok (IPC_PRIVATE c) (map (\<lambda>d. (set_alloc d, ip_key (sem_perm d))) ds)"
      using I(1) by (simp add: sem_inv_Some [OF ds(1)])
    then have "ip_key (sem_perm d) = IPC_PRIVATE c \<or>
        (\<forall>k < length ds. k \<noteq> i \<longrightarrow> set_alloc (ds ! k) \<longrightarrow> ip_key (sem_perm (ds ! k)) \<noteq> ip_key (sem_perm d))"
      using ds d(2) unfolding keys_ok_def by (metis (no_types, lifting) fst_conv length_map nat_neq_iff nth_map snd_conv)
    then have "shape_inv c (shape (set_put s i ?d))"
      using ds d b shape_inv_set [OF I(1) d(1,2)]
      by (intro shape_inv_replace_same [OF I(1) ds(1,2)]) (auto simp: set_count_def)
    then show ?thesis using IPC_SET inv I(2) by (auto simp: sem_command_def sem_ipc_set_def split_beta sem_inv_def)
  next
    case IPC_RMID
    let ?d = "d\<lparr>sem_perm := (sem_perm d)\<lparr>ip_mode := (\<lambda>_. {}), ip_alloc := False\<rparr>, sem_base := None\<rparr>"
    have c: "set_count ?d = 0" "set_count (ds ! i) = int (sem_nsems d)" using ds d(2) by (simp_all add: set_count_def)
    have le: "sem_total s - set_count (ds ! i) + set_count ?d \<le> SEMMNS c"
      using I(1) c by (simp add: sem_inv_Some [OF ds(1)])
    have "shape_inv c (shape (set_put (s\<lparr>sem_total := sem_total s - set_count (ds ! i) + set_count ?d\<rparr>) i ?d))"
      by (rule shape_inv_replace [OF I(1) ds(1,2) le]) simp_all
    then have "shape_inv c (shape (set_put (s\<lparr>sem_log := l, sem_total := sem_total s - int (sem_nsems d)\<rparr>) i ?d))" for l
      using c by (simp add: shape_def set_put_def)
    then show ?thesis using IPC_RMID inv b I(2) by (auto simp: sem_command_def sem_rmid_def split_beta sem_inv_def Let_def)
  qed (use get inv in \<open>auto simp: sem_command_def split_beta\<close>)
qed

lemma usemctl_inv:
  assumes inv: "sem_inv c s"
  shows "\<exists>r out u' s'. usemctl c now semid semnum cmd u s = Some (r, out, u', s') \<and> sem_inv c s'"
proof (cases "\<not> in_range 0 semnum (SEMMSL c - 1) \<or> semids s = None \<or> \<not> in_range 0 semid (int (SEMMNI c) - 1)")
  case True
  then show ?thesis using inv by (auto simp: usemctl_def)
next
  case False
  then obtain ds where ds: "semids s = Some ds" by auto
  have len: "nat semid < length ds"
    using inv False by (auto simp: sem_inv_def sem_inv_Some [OF ds] in_range_def)
  let ?d = "ds ! nat semid"
  have at: "set_at s (nat semid) = Some ?d" using ds len by (simp add: set_at_def)
  show ?thesis
  proof (cases "set_alloc ?d \<and> semnum < int (sem_nsems ?d)")
    case True
    then have "nat semnum < sem_nsems ?d" using False by (auto simp: in_range_def)
    then show ?thesis using sem_command_inv [OF inv at] True False at ds by (simp add: usemctl_def)
  next
    case bad: False
    have "\<exists>r out u' s'. sem_command c now (nat semid) ?d (nat semnum) (IPC_STAT ok) w s = Some (r, out, u', s') \<and> sem_inv c s'" for w ok
      using inv by (auto simp: sem_command_def split_beta)
    then have "is_sem_stat cmd \<Longrightarrow> \<exists>r out u' s'. sem_command c now (nat semid) ?d (nat semnum) cmd w s = Some (r, out, u', s') \<and> sem_inv c s'" for w
      by (cases cmd) simp_all
    then show ?thesis using bad False at inv by (auto simp: usemctl_def split_beta)
  qed
qed

section \<open>Operations as a whole: the specification\<close>

text \<open>
  What a sequence of operations means for the values of a set: each in turn takes a value down
  by so much if it is as large, requires it to be zero, or takes it up within the limit; if any of them
  cannot be done, none is.
\<close>

definition enabled :: "int \<Rightarrow> int list \<Rightarrow> sembuf \<Rightarrow> bool" where
  "enabled vmx xs b \<longleftrightarrow> - vmx \<le> sb_op b \<and> sb_op b \<le> vmx \<and> sb_num b < length xs \<and>
     (if sb_op b < 0 then - sb_op b \<le> xs ! sb_num b else if sb_op b = 0 then xs ! sb_num b = 0 else xs ! sb_num b + sb_op b \<le> vmx)"

primrec apply_ops :: "int \<Rightarrow> sembuf list \<Rightarrow> int list \<Rightarrow> int list option" where
  "apply_ops vmx [] xs = Some xs"
| "apply_ops vmx (b # bs) xs = (if enabled vmx xs b then apply_ops vmx bs (xs[sb_num b := xs ! sb_num b + sb_op b]) else None)"

text \<open>The caller may read and alter the set, not merely as one of the others.\<close>

definition may_use :: "sem_cfg \<Rightarrow> sems \<Rightarrow> nat \<Rightarrow> user \<Rightarrow> bool" where
  "may_use c s i u \<longleftrightarrow> (\<exists>d. set_at s i = Some d \<and> user_class (sem_perm d) u \<noteq> CRED_OTHER \<and>
     \<not> fst (ipc_lack_perm (sem_perm d) (IREAD c) u) \<and> \<not> fst (ipc_lack_perm (sem_perm d) (IWRITE c) u))"

definition vals_ok :: "sem_cfg \<Rightarrow> int list \<Rightarrow> bool" where
  "vals_ok c xs \<longleftrightarrow> SEMVMX c < 65536 \<and> (\<forall>x \<in> set xs. 0 \<le> x \<and> x \<le> SEMVMX c)"

text \<open>The state of a pass: the values, the right to use the set, no error so far.\<close>

definition pass_at :: "sem_cfg \<Rightarrow> nat \<Rightarrow> int list \<Rightarrow> user \<Rightarrow> sems \<Rightarrow> bool" where
  "pass_at c i xs u s \<longleftrightarrow> sem_vals s i = Some xs \<and> may_use c s i u \<and> u_err u = None \<and>
     (\<exists>d. set_at s i = Some d \<and> sem_nsems d = length xs)"

lemma lack_same_ids:
  "cr_uid v = cr_uid u \<Longrightarrow> cr_gid v = cr_gid u \<Longrightarrow> fst (ipc_lack_perm ip m v) = fst (ipc_lack_perm ip m u) \<and> user_class ip v = user_class ip u"
  by (simp add: fst_ipc_lack_perm user_class_def)

lemma pass_at_set:
  assumes "pass_at c i xs u s" "shape s' = shape s" "sem_vals s' i = Some ys" "length ys = length xs"
    "u_err v = None" "cr_uid v = cr_uid u" "cr_gid v = cr_gid u"
  shows "pass_at c i ys v s'"
proof -
  obtain d where d: "set_at s i = Some d" "sem_nsems d = length xs" using assms(1) by (auto simp: pass_at_def)
  obtain d' where d': "set_at s' i = Some d'" "set_shape d' = set_shape d"
    using shape_set_at [OF assms(2), of i] d(1) by auto
  then have "sem_perm d' = sem_perm d" "sem_nsems d' = sem_nsems d" by (simp_all add: set_shape_def)
  then show ?thesis using assms d d' lack_same_ids [OF assms(6,7)] by (auto simp: pass_at_def may_use_def)
qed

lemma pass_at_lack:
  assumes "pass_at c i xs u s" "set_at s i = Some d"
  obtains v w where "ipc_lack_perm (sem_perm d) (IREAD c) u = (False, v)" "ipc_lack_perm (sem_perm d) (IWRITE c) u = (False, w)"
    "u_err v = None" "u_err w = None" "cr_uid v = cr_uid u" "cr_gid v = cr_gid u" "cr_uid w = cr_uid u" "cr_gid w = cr_gid u"
proof -
  have l: "\<not> fst (ipc_lack_perm (sem_perm d) (IREAD c) u)" "\<not> fst (ipc_lack_perm (sem_perm d) (IWRITE c) u)"
    "user_class (sem_perm d) u \<noteq> CRED_OTHER" "u_err u = None" using assms by (auto simp: pass_at_def may_use_def)
  then have "u_err (snd (ipc_lack_perm (sem_perm d) m u)) = None" if "m \<in> {IREAD c, IWRITE c}" for m
    using ipc_lack_perm_err [of "sem_perm d" m u] that by auto
  then show ?thesis using that [of "snd (ipc_lack_perm (sem_perm d) (IREAD c) u)" "snd (ipc_lack_perm (sem_perm d) (IWRITE c) u)"] l
    by (auto simp: prod_eq_iff)
qed

lemma sem_vals_at: "sem_vals s i = Some xs \<Longrightarrow> j < length xs \<Longrightarrow> \<exists>x. sem_at s i j = Some x \<and> semval x = xs ! j"
  by (auto simp: sem_vals_def sem_at_def split: bind_splits)

lemma u16_id: "0 \<le> x \<Longrightarrow> x < 65536 \<Longrightarrow> u16 x = x"
  by (simp add: u16_def)

text \<open>An operation that can be done is done, and the pass goes on.\<close>

lemma sem_ops_enabled:
  assumes at: "pass_at c i xs u s" and ok: "vals_ok c xs" and en: "enabled (SEMVMX c) xs b" and nu: "\<not> sb_undo b"
  shows "\<exists>v t. sem_ops c kal i prev (b # bs) ch u s = sem_ops c kal i (prev @ [b]) bs (if sb_op b = 0 then ch else True) v t \<and>
    pass_at c i (xs[sb_num b := xs ! sb_num b + sb_op b]) v t \<and> vals_ok c (xs[sb_num b := xs ! sb_num b + sb_op b])"
proof -
  let ?y = "xs ! sb_num b + sb_op b"
  obtain d where d: "set_at s i = Some d" "sem_nsems d = length xs" using at by (auto simp: pass_at_def)
  obtain v w where l: "ipc_lack_perm (sem_perm d) (IREAD c) u = (False, v)" "ipc_lack_perm (sem_perm d) (IWRITE c) u = (False, w)"
    "u_err v = None" "u_err w = None" "cr_uid v = cr_uid u" "cr_gid v = cr_gid u" "cr_uid w = cr_uid u" "cr_gid w = cr_gid u"
    using pass_at_lack [OF at d(1)] by blast
  have j: "sb_num b < length xs" and r: "in_range (- SEMVMX c) (sb_op b) (SEMVMX c)"
    using en by (simp_all add: enabled_def in_range_def)
  have x0: "0 \<le> xs ! sb_num b" "xs ! sb_num b \<le> SEMVMX c" using ok j by (auto simp: vals_ok_def)
  then have y: "0 \<le> ?y" "?y \<le> SEMVMX c" using en by (auto simp: enabled_def split: if_splits)
  have u: "u16 ?y = ?y" using y ok by (intro u16_id) (auto simp: vals_ok_def)
  have vals: "sem_vals s i = Some xs" "u_err u = None" using at by (simp_all add: pass_at_def)
  have ok': "vals_ok c (xs[sb_num b := ?y])" using ok y by (auto simp: vals_ok_def dest: set_update_subset_insert [THEN subsetD])
  from sem_put_vals [OF vals(1) j, of "semval_update (\<lambda>v. u16 (v + sb_op b))"]
  obtain t x where t: "sem_put s i (sb_num b) (semval_update (\<lambda>v. u16 (v + sb_op b))) = Some t" "sem_at s i (sb_num b) = Some x"
    "semval x = xs ! sb_num b" "sem_vals t i = Some (xs[sb_num b := ?y])" using u by auto
  have at': "pass_at c i (xs[sb_num b := ?y]) w t'" if "t' = t \<or> (\<exists>l. t' = t\<lparr>sem_log := l\<rparr>)" for t'
    using that t(4) sem_putD [OF t(1)] l by (intro pass_at_set [OF at]) auto
  consider "sb_op b < 0" | "sb_op b = 0" | "sb_op b > 0" by linarith
  then show ?thesis
  proof cases
    case 1
    define t' where "t' = (if u16 ?y = 0 \<and> semzcnt x \<noteq> 0 then sem_wake (Wake_zcnt i (sb_num b)) t else t)"
    have "sem_down c kal i d prev b u s = Some (Inr (w, t'))"
      using 1 l t en nu by (simp add: sem_down_def enabled_def t'_def Let_def)
    then have "sem_ops c kal i prev (b # bs) ch u s = sem_ops c kal i (prev @ [b]) bs (if sb_op b = 0 then ch else True) w t'"
      using d j r vals 1 by simp
    moreover have "pass_at c i (xs[sb_num b := ?y]) w t'" by (intro at') (auto simp: t'_def)
    ultimately show ?thesis using ok' by blast
  next
    case 2
    then have "xs[sb_num b := ?y] = xs" by simp
    moreover have "sem_zero c kal i d prev b u s = Some (Inr (v, s))"
      using 2 l t en by (simp add: sem_zero_def enabled_def)
    then have "sem_ops c kal i prev (b # bs) ch u s = sem_ops c kal i (prev @ [b]) bs (if sb_op b = 0 then ch else True) v s"
      using d j r vals 2 by simp
    moreover have "pass_at c i xs v s" using l vals by (intro pass_at_set [OF at]) auto
    ultimately show ?thesis using ok' by auto
  next
    case 3
    define t' where "t' = (if semncnt x \<noteq> 0 then sem_wake (Wake_ncnt i (sb_num b)) t else t)"
    have "sem_up c kal i d prev b u s = Some (Inr (w, t'))"
      using 3 l t en nu by (simp add: sem_up_def enabled_def t'_def Let_def)
    then have "sem_ops c kal i prev (b # bs) ch u s = sem_ops c kal i (prev @ [b]) bs (if sb_op b = 0 then ch else True) w t'"
      using d j r vals 3 by simp
    moreover have "pass_at c i (xs[sb_num b := ?y]) w t'" by (intro at') (auto simp: t'_def)
    ultimately show ?thesis using ok' by blast
  qed
qed

lemma sem_ops_success:
  "pass_at c i xs u s \<Longrightarrow> vals_ok c xs \<Longrightarrow> apply_ops (SEMVMX c) bs xs = Some ys \<Longrightarrow> (\<And>b. b \<in> set bs \<Longrightarrow> \<not> sb_undo b) \<Longrightarrow>
   \<exists>ch' v t. sem_ops c kal i prev bs ch u s = Some (Pass_done ch', v, t) \<and> pass_at c i ys v t"
proof (induction bs arbitrary: xs u s prev ch)
  case Nil
  then show ?case by auto
next
  case (Cons b bs)
  then have en: "enabled (SEMVMX c) xs b" by (auto split: if_splits)
  have nu: "\<not> sb_undo b" using Cons.prems(4) by simp
  from sem_ops_enabled [OF Cons.prems(1,2) en nu, of kal prev bs ch] obtain v t where
    e: "sem_ops c kal i prev (b # bs) ch u s = sem_ops c kal i (prev @ [b]) bs (if sb_op b = 0 then ch else True) v t"
    "pass_at c i (xs[sb_num b := xs ! sb_num b + sb_op b]) v t" "vals_ok c (xs[sb_num b := xs ! sb_num b + sb_op b])" by blast
  have "apply_ops (SEMVMX c) bs (xs[sb_num b := xs ! sb_num b + sb_op b]) = Some ys" using Cons.prems(3) en by simp
  from Cons.IH [OF e(2,3) this, of "prev @ [b]"] Cons.prems(4) show ?case unfolding e(1) by auto
qed

text \<open>
  Undoing. After a prefix \<open>prev\<close> of operations on the semaphores 0, 1, ... in this order, the walk of \<open>semundo\<close>
  meets each semaphore that was changed, and brings its value back.
\<close>

definition in_order :: "sembuf list \<Rightarrow> bool" where
  "in_order bs \<longleftrightarrow> map sb_num bs = [0..<length bs] \<and> (\<forall>b \<in> set bs. \<not> sb_undo b)"

definition moved :: "sembuf list \<Rightarrow> int list \<Rightarrow> int list \<Rightarrow> bool" where
  "moved prev xs ys \<longleftrightarrow> length ys = length xs \<and> length prev \<le> length xs \<and>
     (\<forall>j < length xs. ys ! j = (if j < length prev then xs ! j + sb_op (prev ! j) else xs ! j))"

lemma semundo_restores:
  assumes "sem_vals s i = Some ys" "length ys = length xs" "j + length bs \<le> length xs"
    "\<And>k. k < length xs \<Longrightarrow> ys ! k = (if j \<le> k \<and> k < j + length bs then xs ! k + sb_op (bs ! (k - j)) else xs ! k)"
    "\<And>b. b \<in> set bs \<Longrightarrow> \<not> sb_undo b" "\<And>k. k < length xs \<Longrightarrow> u16 (xs ! k) = xs ! k"
  shows "\<exists>s'. semundo_from c kal i j bs u s = Some (u, s') \<and> sem_vals s' i = Some xs"
  using assms
proof (induction bs arbitrary: j ys s)
  case Nil
  have "ys = xs" using Nil.prems(2,4) by (intro nth_equalityI) auto
  then show ?case using Nil.prems(1) by simp
next
  case (Cons b bs)
  have j: "j < length ys" using Cons.prems(2,3) by simp
  from sem_put_vals [OF Cons.prems(1) j, of "\<lambda>x. x\<lparr>semval := u16 (semval x - sb_op b)\<rparr>"] obtain t where
    t: "sem_put s i j (\<lambda>x. x\<lparr>semval := u16 (semval x - sb_op b)\<rparr>) = Some t"
    "sem_vals t i = Some (ys[j := u16 (ys ! j - sb_op b)])" by auto
  have "u16 (ys ! j - sb_op b) = xs ! j" using Cons.prems(4) [of j] Cons.prems(6) [of j] j Cons.prems(2) by simp
  then have v: "sem_vals t i = Some (ys[j := xs ! j])" using t(2) by simp
  have "\<exists>s'. semundo_from c kal i (j + 1) bs u t = Some (u, s') \<and> sem_vals s' i = Some xs"
  proof (rule Cons.IH [OF v])
    show "length (ys[j := xs ! j]) = length xs" "j + 1 + length bs \<le> length xs" using Cons.prems(2,3) by simp_all
    show "\<And>b. b \<in> set bs \<Longrightarrow> \<not> sb_undo b" using Cons.prems(5) by simp
    show "u16 (xs ! k) = xs ! k" if "k < length xs" for k using Cons.prems(6) that .
    fix k assume k: "k < length xs"
    show "ys[j := xs ! j] ! k = (if j + 1 \<le> k \<and> k < j + 1 + length bs then xs ! k + sb_op (bs ! (k - (j + 1))) else xs ! k)"
    proof (cases "k = j")
      case True
      then show ?thesis using j by simp
    next
      case False
      have "(b # bs) ! (k - j) = bs ! (k - (j + 1))" if "j < k" using that by (simp add: nth_Cons')
      then show ?thesis using Cons.prems(4) [OF k] False by auto
    qed
  qed
  then show ?case using t(1) Cons.prems(5) by simp
qed

lemma semundo_moved:
  assumes "sem_vals s i = Some ys" "moved prev xs ys" "vals_ok c xs" "\<And>b. b \<in> set prev \<Longrightarrow> \<not> sb_undo b"
  shows "\<exists>s'. semundo c kal i prev u s = Some (u, s') \<and> sem_vals s' i = Some xs"
  unfolding semundo_def
proof (rule semundo_restores [OF assms(1)])
  show "u16 (xs ! k) = xs ! k" if "k < length xs" for k
  proof -
    have "0 \<le> xs ! k" "xs ! k \<le> SEMVMX c" "SEMVMX c < 65536" using assms(3) nth_mem [OF that] by (simp_all add: vals_ok_def)
    then show ?thesis by (intro u16_id) simp_all
  qed
qed (use assms in \<open>auto simp: moved_def\<close>)

text \<open>An operation that cannot be done ends the pass, with all values as before.\<close>

lemma sem_ops_disabled:
  assumes at: "pass_at c i ys u s" and ok: "vals_ok c xs" and mv: "moved prev xs ys" and en: "\<not> enabled (SEMVMX c) ys b"
    and nu: "\<not> sb_undo b" "\<And>b. b \<in> set prev \<Longrightarrow> \<not> sb_undo b"
  shows "\<exists>p v t. sem_ops c kal i prev (b # bs) ch u s = Some (p, v, t) \<and> (\<forall>x. p \<noteq> Pass_done x) \<and> sem_vals t i = Some xs \<and>
    (p = Pass_fail \<longrightarrow> u_err v \<noteq> None) \<and> (\<forall>g j. p = Pass_wait g j \<longrightarrow> \<not> sb_nowait b \<and> j < length xs)"
proof -
  have len: "length xs = length ys" using mv by (simp add: moved_def)
  obtain d where d: "set_at s i = Some d" "sem_nsems d = length ys" using at by (auto simp: pass_at_def)
  obtain v w where l: "ipc_lack_perm (sem_perm d) (IREAD c) u = (False, v)" "ipc_lack_perm (sem_perm d) (IWRITE c) u = (False, w)"
    using pass_at_lack [OF at d(1)] by blast
  have vals: "sem_vals s i = Some ys" "u_err u = None" using at by (simp_all add: pass_at_def)
  have undo: "\<exists>s'. semundo c kal i prev u' s = Some (u', s') \<and> sem_vals s' i = Some xs" for u'
    using semundo_moved [OF vals(1) mv ok nu(2)] by blast
  show ?thesis
  proof (cases "\<not> in_range (- SEMVMX c) (sb_op b) (SEMVMX c) \<or> length ys \<le> sb_num b")
    case True
    then show ?thesis using undo [of u] d vals(2) by (auto simp: pass_fail_def)
  next
    case False
    then have j: "sb_num b < length ys" and r: "in_range (- SEMVMX c) (sb_op b) (SEMVMX c)" by auto
    obtain x where x: "sem_at s i (sb_num b) = Some x" "semval x = ys ! sb_num b" using sem_vals_at [OF vals(1) j] by blast
    consider "sb_op b < 0" | "sb_op b = 0" | "sb_op b > 0" by linarith
    then show ?thesis
    proof cases
      case 1
      then have "semval x < - sb_op b" using en r j x by (auto simp: enabled_def in_range_def)
      then show ?thesis using 1 d j r vals(2) x l len undo [of w] by (auto simp: sem_down_def pass_blocked_def pass_fail_def)
    next
      case 2
      then have "semval x \<noteq> 0" using en r j x by (auto simp: enabled_def in_range_def)
      then show ?thesis using 2 d j r vals(2) x l len undo [of v] by (auto simp: sem_zero_def pass_blocked_def pass_fail_def)
    next
      case 3
      then have "semval x > SEMVMX c - sb_op b" using en r j x by (auto simp: enabled_def in_range_def)
      then show ?thesis using 3 d j r vals(2) x l undo [of w] nu(1) by (auto simp: sem_up_def pass_fail_def)
    qed
  qed
qed

lemma moved_snoc:
  assumes "moved prev xs ys" "enabled vmx ys b" "sb_num b = length prev"
  shows "moved (prev @ [b]) xs (ys[sb_num b := ys ! sb_num b + sb_op b])"
  using assms by (auto simp: moved_def enabled_def nth_append nth_list_update)

lemma sem_ops_failure:
  "pass_at c i ys u s \<Longrightarrow> vals_ok c xs \<Longrightarrow> vals_ok c ys \<Longrightarrow> moved prev xs ys \<Longrightarrow> in_order (prev @ bs) \<Longrightarrow> apply_ops (SEMVMX c) bs ys = None \<Longrightarrow>
   \<exists>p v t. sem_ops c kal i prev bs ch u s = Some (p, v, t) \<and> (\<forall>x. p \<noteq> Pass_done x) \<and> sem_vals t i = Some xs \<and>
     (p = Pass_fail \<longrightarrow> u_err v \<noteq> None) \<and> (\<forall>g j. p = Pass_wait g j \<longrightarrow> (\<exists>b \<in> set bs. \<not> sb_nowait b) \<and> j < length xs)"
proof (induction bs arbitrary: ys u s prev ch)
  case Nil
  then show ?case by simp
next
  case (Cons b bs)
  have nu: "\<not> sb_undo b" "\<And>b. b \<in> set prev \<Longrightarrow> \<not> sb_undo b" using Cons.prems(5) by (auto simp: in_order_def)
  have "map sb_num (prev @ b # bs) ! length prev = [0..<length (prev @ b # bs)] ! length prev"
    using Cons.prems(5) by (simp only: in_order_def)
  then have num: "sb_num b = length prev" by (simp add: nth_append del: upt_Suc)
  show ?case
  proof (cases "enabled (SEMVMX c) ys b")
    case False
    from sem_ops_disabled [OF Cons.prems(1,2,4) False nu, of kal bs ch] show ?thesis by fastforce
  next
    case True
    from sem_ops_enabled [OF Cons.prems(1,3) True nu(1), of kal prev bs ch] obtain v t where
      e: "sem_ops c kal i prev (b # bs) ch u s = sem_ops c kal i (prev @ [b]) bs (if sb_op b = 0 then ch else True) v t"
      "pass_at c i (ys[sb_num b := ys ! sb_num b + sb_op b]) v t" "vals_ok c (ys[sb_num b := ys ! sb_num b + sb_op b])" by blast
    have "in_order ((prev @ [b]) @ bs)" "apply_ops (SEMVMX c) bs (ys[sb_num b := ys ! sb_num b + sb_op b]) = None"
      using Cons.prems(5,6) True by simp_all
    from Cons.IH [OF e(2) Cons.prems(2) e(3) moved_snoc [OF Cons.prems(4) True num] this, of "if sb_op b = 0 then ch else True"]
    obtain p va ta where r: "sem_ops c kal i (prev @ [b]) bs (if sb_op b = 0 then ch else True) v t = Some (p, va, ta)"
      "\<forall>x. p \<noteq> Pass_done x" "sem_vals ta i = Some xs" "p = Pass_fail \<longrightarrow> u_err va \<noteq> None"
      "\<forall>g j. p = Pass_wait g j \<longrightarrow> (\<exists>b \<in> set bs. \<not> sb_nowait b) \<and> j < length xs" by blast
    have "\<forall>g j. p = Pass_wait g j \<longrightarrow> (\<exists>b \<in> set (b # bs). \<not> sb_nowait b) \<and> j < length xs" using r(5) by auto
    then show ?thesis unfolding e(1) using r(1-4) by blast
  qed
qed

section \<open>System calls as a whole\<close>

lemma set_pids_vals:
  "sem_vals s i = Some xs \<Longrightarrow> (\<And>b. b \<in> set bs \<Longrightarrow> sb_num b < length xs) \<Longrightarrow>
   \<exists>s'. set_pids i p bs s = Some s' \<and> sem_vals s' i = Some xs"
proof (induction bs arbitrary: s)
  case Nil
  then show ?case by simp
next
  case (Cons b bs)
  then have "sb_num b < length xs" by simp
  from sem_put_vals [OF Cons.prems(1) this, of "sempid_update (\<lambda>_. p)"]
  obtain t where t: "sem_put s i (sb_num b) (sempid_update (\<lambda>_. p)) = Some t" "sem_vals t i = Some xs" by auto
  from Cons.IH [OF t(2)] Cons.prems(2) show ?case using t(1) by simp
qed

lemma apply_ops_nums: "apply_ops vmx bs xs = Some ys \<Longrightarrow> length ys = length xs \<and> (\<forall>b \<in> set bs. sb_num b < length xs)"
proof (induction bs arbitrary: xs)
  case Nil
  then show ?case by simp
next
  case (Cons b bs)
  then have "enabled vmx xs b" "apply_ops vmx bs (xs[sb_num b := xs ! sb_num b + sb_op b]) = Some ys" by (simp_all split: if_splits)
  then show ?case using Cons.IH [of "xs[sb_num b := xs ! sb_num b + sb_op b]"] by (auto simp: enabled_def)
qed

text \<open>A set that the caller may use, with its values, as \<open>usemop\<close> finds it.\<close>

definition usable :: "sem_cfg \<Rightarrow> nat \<Rightarrow> int list \<Rightarrow> user \<Rightarrow> sems \<Rightarrow> bool" where
  "usable c i xs u s \<longleftrightarrow> pass_at c i xs u s \<and> vals_ok c xs \<and> i < SEMMNI c \<and> (\<exists>d. set_at s i = Some d \<and> set_alloc d)"

lemma usemop_try:
  assumes "usable c i xs u s" "ops \<noteq> []"
  shows "usemop c now kal (int i) (Some ops) ws u s = sem_try c now kal i ops ws u s"
    "pass_at c i xs u (sem_lock s)"
proof -
  have "semids s \<noteq> None" using assms(1) by (auto simp: usable_def set_at_def split: option.splits)
  then show "usemop c now kal (int i) (Some ops) ws u s = sem_try c now kal i ops ws u s"
    using assms by (auto simp: usemop_def usable_def in_range_def)
  show "pass_at c i xs u (sem_lock s)" using assms(1) by (auto simp: usable_def pass_at_def may_use_def)
qed

lemma sem_finish_vals:
  assumes "pass_at c i ys v t" "\<And>b. b \<in> set bs \<Longrightarrow> sb_num b < length ys"
  shows "\<exists>s'. sem_finish now i bs ch v t = Some s' \<and> sem_vals s' i = Some ys"
proof -
  obtain d where d: "set_at t i = Some d" using assms(1) by (auto simp: pass_at_def)
  let ?t = "set_put t i (if ch then d\<lparr>sem_otime := now, sem_ctime := now\<rparr> else d\<lparr>sem_otime := now\<rparr>)"
  have "sem_vals ?t i = Some ys" using assms(1) d by (auto simp: pass_at_def sem_vals_def)
  from set_pids_vals [OF this assms(2)] obtain s' where "set_pids i (int (p_pid v)) bs ?t = Some s'" "sem_vals s' i = Some ys" by blast
  then show ?thesis using d by (simp add: sem_finish_def Let_def)
qed

text \<open>The table of the sets as \<open>usemget\<close> searches it.\<close>

lemma usemget_table:
  assumes inv: "sem_inv c s" and ds: "semids s = Some ds" and n: "in_range 0 nsems (SEMMSL c - 1)"
  shows "usemget c now mem1 mem2 key nsems flg u s = (case sem_scan c key 0 None ds of
       Inl i \<Rightarrow> usemget_found i nsems flg u (sem_lock s) | Inr fr \<Rightarrow> usemget_create c now mem2 key nsems flg fr u (sem_lock s))"
proof -
  have "take (SEMMNI c) ds = ds" using inv ds by (simp add: sem_inv_def sem_inv_Some)
  then show ?thesis using ds n by (simp add: usemget_def Let_def)
qed

lemma usemget_finds:
  assumes inv: "sem_inv c s" and d: "set_at s i = Some d" "set_alloc d" "ip_key (sem_perm d) = key" "key \<noteq> IPC_PRIVATE c"
    and n: "in_range 0 nsems (SEMMSL c - 1)" "nsems \<le> int (sem_nsems d)" and f: "\<not> (f_creat flg \<and> f_excl flg)" "\<forall>l. f_mode flg l = {}"
    and u: "u_err u = None"
  shows "usemget c now mem1 mem2 key nsems flg u s = Some (Some (int i), u, s)"
proof -
  from d(1) obtain ds where ds: "semids s = Some ds" "i < length ds" "ds ! i = d" unfolding set_at_Some by blast
  have I: "keys_ok (IPC_PRIVATE c) (map (\<lambda>d. (set_alloc d, ip_key (sem_perm d))) ds)"
    using inv by (simp add: sem_inv_def sem_inv_Some [OF ds(1)])
  have uniq: "j = i" if j: "j < length ds" "set_alloc (ds ! j)" "ip_key (sem_perm (ds ! j)) = key" for j
  proof (rule ccontr)
    assume "j \<noteq> i"
    then consider "i < j" | "j < i" by linarith
    then show False
      by cases (use keys_okD [OF I, of i j] keys_okD [OF I, of j i] j ds d in simp_all)
  qed
  have "sem_scan c key 0 None ds = Inl i"
  proof (cases "sem_scan c key 0 None ds")
    case (Inl j)
    then show ?thesis using sem_scan_Inl [OF Inl] uniq by simp
  next
    case (Inr fr)
    then show ?thesis using sem_scan_Inr [OF Inr] ds d nth_mem [OF ds(2)] by blast
  qed
  moreover have "fst (ipc_lack_perm (sem_perm d) (f_mode flg) u) = False" "snd (ipc_lack_perm (sem_perm d) (f_mode flg) u) = u"
    using f(2) by (simp_all add: ipc_lack_perm_def)
  then have "usemget_found i nsems flg u (sem_lock s) = Some (Some (int i), u, s)"
    using d f(1) n u inv by (auto simp: usemget_found_def split_beta Let_def sem_inv_def)
  ultimately show ?thesis using usemget_table [OF inv ds(1) n(1)] by simp
qed

section \<open>Properties\<close>

text \<open>C1: \<open>usemop\<close> performs all its operations or goes on waiting: when every operation of the sequence can be done in turn on the values of
  the set, the caller may use the set and no operation asks for an undo entry, the call returns 0 without sleeping and the
  values are those of the specification \<open>apply_ops\<close>.\<close>

theorem usemop_performs_all:
  assumes "usable c i xs u s" "ops \<noteq> []" "apply_ops (SEMVMX c) ops xs = Some ys" "\<forall>b \<in> set ops. \<not> sb_undo b"
  shows "\<exists>s' u'. usemop c now kal (int i) (Some ops) ws u s = Some (Done s' (Some 0, u')) \<and> sem_vals s' i = Some ys \<and> u_err u' = None"
proof -
  note t = usemop_try [OF assms(1,2)]
  have ok: "vals_ok c xs" using assms(1) by (simp add: usable_def)
  have nu: "b \<in> set ops \<Longrightarrow> \<not> sb_undo b" for b using assms(4) by blast
  from sem_ops_success [OF t(2) ok assms(3) nu, of kal "[]" False] obtain ch v z
    where z: "sem_ops c kal i [] ops False u (sem_lock s) = Some (Pass_done ch, v, z)" "pass_at c i ys v z" by blast
  have "b \<in> set ops \<Longrightarrow> sb_num b < length ys" for b using apply_ops_nums [OF assms(3)] by simp
  from sem_finish_vals [OF z(2) this] obtain s' where s': "sem_finish now i ops ch v z = Some s'" "sem_vals s' i = Some ys" by blast
  have "u_err v = None" using z(2) by (simp add: pass_at_def)
  then show ?thesis using s' z(1) unfolding t(1) by (subst sem_try.simps) simp
qed

text \<open>C2: A sequence of operations without \<open>SEM_UNDO\<close> on the semaphores 0, 1, 2, ... in this order, of a set in use that the caller may use, of which some operation cannot be done,
  leaves the values of the set as they were: the call goes to sleep, with the gate released, because an operation is willing to wait, or it fails with an error. This is the call as far
  as its first sleep. With \<open>SEM_UNDO\<close> the values may change: when the adjust value cannot be changed, the operation that was to change it is not taken back.\<close>

theorem usemop_all_or_nothing:
  assumes "usable c i xs u s" "ops \<noteq> []" "apply_ops (SEMVMX c) ops xs = None" "in_order ops"
  shows "\<exists>r. usemop c now kal (int i) (Some ops) [] u s = Some r \<and>
    (case r of Blocked s' \<Rightarrow> sem_vals s' i = Some xs \<and> \<not> sem_gate s' \<and> (\<exists>b \<in> set ops. \<not> sb_nowait b)
     | Done s' (x, u') \<Rightarrow> sem_vals s' i = Some xs \<and> \<not> sem_gate s' \<and> x = None \<and> u_err u' \<noteq> None)"
proof -
  note t = usemop_try [OF assms(1,2)]
  have ok: "vals_ok c xs" using assms(1) by (simp add: usable_def)
  have "length xs \<ge> 0" by simp
  then have mv: "moved [] xs xs" by (simp add: moved_def)
  have io: "in_order ([] @ ops)" using assms(4) by simp
  from sem_ops_failure [OF t(2) ok ok mv io assms(3), of kal False] obtain p v z
    where z: "sem_ops c kal i [] ops False u (sem_lock s) = Some (p, v, z)" "\<forall>x. p \<noteq> Pass_done x" "sem_vals z i = Some xs"
      "p = Pass_fail \<longrightarrow> u_err v \<noteq> None" "\<forall>g j. p = Pass_wait g j \<longrightarrow> (\<exists>b \<in> set ops. \<not> sb_nowait b) \<and> j < length xs" by blast
  have g: "\<not> sem_gate z" using sem_ops_shape(3) [OF z(1)] z(2) by blast
  show ?thesis
  proof (cases p)
    case (Pass_done x)
    then show ?thesis using z(2) by blast
  next
    case Pass_fail
    then show ?thesis using z g unfolding t(1) by (subst sem_try.simps) simp
  next
    case (Pass_wait gr j)
    then have j: "j < length xs" using z(5) by blast
    from sem_put_vals [OF z(3) j, of "count_add gr 1"] obtain y where
      y: "sem_put z i j (count_add gr 1) = Some y" "sem_vals y i = Some xs" by (auto simp: count_add_def split: if_splits)
    have "\<not> sem_gate y" using sem_putD [OF y(1)] g by simp
    then show ?thesis using z y Pass_wait unfolding t(1) by (subst sem_try.simps) (simp add: semwait_in_def)
  qed
qed

text \<open>The undoing of \<open>usemop\<close> goes by the position of an operation and not by its semaphore. A raise of semaphore 1
  followed by an operation that fails on semaphore 0 is not undone: the call reports \<open>EAGAIN\<close>, the raise stays, and
  semaphore 0 loses one instead (wrapping round below zero).\<close>

theorem semundo_wrong_semaphore:
  assumes "usable c i [x, y] u s" "x < SEMVMX c" "y < SEMVMX c"
    and ops: "ops = [\<lparr>sb_num = 1, sb_op = 1, sb_undo = False, sb_nowait = False\<rparr>,
      \<lparr>sb_num = 0, sb_op = - x - 1, sb_undo = False, sb_nowait = True\<rparr>]"
  shows "\<exists>s' u'. usemop c now kal (int i) (Some ops) ws u s = Some (Done s' (None, u')) \<and> u_err u' = Some EAGAIN \<and>
    sem_vals s' i = Some [u16 (x - 1), y + 1]"
proof -
  let ?a = "\<lparr>sb_num = 1, sb_op = 1, sb_undo = False, sb_nowait = False\<rparr>"
  let ?b = "\<lparr>sb_num = 0, sb_op = - x - 1, sb_undo = False, sb_nowait = True\<rparr>"
  have "ops \<noteq> []" using ops by simp
  note t = usemop_try [OF assms(1) this]
  have ok: "vals_ok c [x, y]" using assms(1) by (simp add: usable_def)
  then have x: "0 \<le> x" "0 \<le> y" by (simp_all add: vals_ok_def)
  have en: "enabled (SEMVMX c) [x, y] ?a" using x assms(2,3) by (simp add: enabled_def)
  from sem_ops_enabled [OF t(2) ok en, of kal "[]" "[?b]" False] obtain v z where
    z: "sem_ops c kal i [] ops False u (sem_lock s) = sem_ops c kal i [?a] [?b] True v z" "pass_at c i [x, y + 1] v z"
    using ops by auto
  obtain d where d: "set_at z i = Some d" "sem_nsems d = 2" using z(2) by (auto simp: pass_at_def)
  obtain w where w: "ipc_lack_perm (sem_perm d) (IWRITE c) v = (False, w)" "u_err w = None" using pass_at_lack [OF z(2) d(1)] by metis
  have vals: "sem_vals z i = Some [x, y + 1]" "u_err v = None" using z(2) by (simp_all add: pass_at_def)
  obtain q where q: "sem_at z i 0 = Some q" "semval q = x" using sem_vals_at [OF vals(1), of 0] by auto
  from sem_put_vals [OF vals(1), of 0 "\<lambda>x. x\<lparr>semval := u16 (semval x - 1)\<rparr>"]
  obtain z' where z': "sem_put z i 0 (\<lambda>x. x\<lparr>semval := u16 (semval x - 1)\<rparr>) = Some z'" "sem_vals z' i = Some [u16 (x - 1), y + 1]"
    by auto
  have "sem_down c kal i d [?a] ?b v z = Some (Inl (Pass_fail, set_user_error EAGAIN w, sem_unlock z'))"
    using w q z' by (simp add: sem_down_def pass_blocked_def pass_fail_def semundo_def)
  then have "sem_ops c kal i [] ops False u (sem_lock s) = Some (Pass_fail, set_user_error EAGAIN w, sem_unlock z')"
    unfolding z(1) using d x assms(2) vals(2) by (simp add: in_range_def)
  then show ?thesis using z'(2) unfolding t(1) by (subst sem_try.simps) simp
qed

text \<open>A set that \<open>usemget\<close> has returned is the one that every later call with the same key returns, for as many semaphores
  or fewer, unless it insists on a new set.\<close>

theorem usemget_same_key:
  assumes "sem_inv c s" "0 \<le> SEMMNS c" "key \<noteq> IPC_PRIVATE c"
    "usemget c now mem1 mem2 key n flg u s = Some (Some i, u', s')" "0 \<le> i"
    "0 \<le> n'" "n' \<le> n" "\<not> (f_creat flg' \<and> f_excl flg')" "\<forall>l. f_mode flg' l = {}" "u_err v = None"
  shows "usemget c now' mem1' mem2' key n' flg' v s' = Some (Some i, v, s')"
proof -
  from usemget_result [OF assms(1,2,4,5)] obtain d where d: "set_at s' (nat i) = Some d" "set_alloc d" "ip_key (sem_perm d) = key"
    "n \<le> int (sem_nsems d)" "in_range 0 n (SEMMSL c - 1)" "sem_inv c s'" by blast
  have "in_range 0 n' (SEMMSL c - 1)" "n' \<le> int (sem_nsems d)" using d(4,5) assms(6,7) by (auto simp: in_range_def)
  from usemget_finds [OF d(6,1,2,3) assms(3) this assms(8-10)] assms(5) show ?thesis by simp
qed

text \<open>C22: Every system call keeps the table of sets in order and releases the gate, also when it sleeps: the total is that of the allocated
  sets and within \<open>SEMMNS\<close>, an allocated set has as many semaphores as it says, and no key is used twice. A
  call other than \<open>semop\<close> never faults.\<close>

theorem usemsys_keeps:
  assumes "sem_inv c s" "0 \<le> SEMMNS c" "sem_calm (shape_inv c) ws"
  shows "((\<forall>i ops. call \<noteq> Semop i ops) \<longrightarrow> usemsys c now mem1 mem2 kal call ws u s \<noteq> None) \<and>
    (\<forall>r. usemsys c now mem1 mem2 kal call ws u s = Some r \<longrightarrow> (case r of Blocked s' \<Rightarrow> sem_inv c s' | Done s' _ \<Rightarrow> sem_inv c s'))"
proof (cases call)
  case (Semctl i j cmd)
  then show ?thesis using usemctl_inv [OF assms(1), of now i j cmd u] by (auto simp: usemsys_def)
next
  case (Semget key n flg)
  then show ?thesis using usemget_inv [OF assms(1,2), of now mem1 mem2 key n flg u] by (auto simp: usemsys_def)
next
  case (Semop i ops)
  have "\<not> sem_gate s" "shape_inv c (shape s)" using assms(1) by (simp_all add: sem_inv_def)
  then have "case x of Blocked s' \<Rightarrow> sem_inv c s' | Done s' _ \<Rightarrow> sem_inv c s'" if "usemop c now kal i ops ws u s = Some x" for x
    using usemop_keeps [OF that assms(3)] by (cases x) (simp_all add: sem_inv_def)
  note k = this
  show ?thesis
  proof (cases "usemop c now kal i ops ws u s")
    case None
    then show ?thesis using Semop by (simp add: usemsys_def)
  next
    case (Some x)
    then show ?thesis using Semop k [OF Some] by (cases x) (auto simp: usemsys_def split_beta)
  qed
next
  case Sem_other
  then show ?thesis using assms(1) by (simp add: usemsys_def)
qed

section \<open>Examples\<close>

definition example_cfg :: sem_cfg where
  "example_cfg = \<lparr>SEMMNI = 2, SEMMNS = 10, SEMMSL = 5, SEMVMX = 32767, IPC_PRIVATE = 0, IREAD = (\<lambda>_. {PREAD}), IWRITE = (\<lambda>_. {PWRITE})\<rparr>"

text \<open>Two sets, one of them in use, with the values given.\<close>

definition example_sems :: "int list \<Rightarrow> sems" where
  "example_sems vs = \<lparr>semids = Some [\<lparr>sem_perm = public_perm, sem_base = Some (map (\<lambda>v. \<lparr>semval = v, sempid = 0, semncnt = 0, semzcnt = 0\<rparr>) vs),
       sem_nsems = length vs, sem_otime = 0, sem_ctime = 0\<rparr>, free_set], sem_total = int (length vs), sem_gate = False,
     p_semu = (\<lambda>_. []), sem_log = []\<rparr>"

lemma example_usable: "\<forall>v \<in> set vs. 0 \<le> v \<and> v \<le> 32767 \<Longrightarrow> usable example_cfg 0 vs example_owner (example_sems vs)"
  by (auto simp: usable_def pass_at_def vals_ok_def may_use_def sem_vals_def set_at_def example_sems_def example_cfg_def example_owner_def
      public_perm_def fst_ipc_lack_perm user_class_def comp_def)

lemma example_inv: "vs \<noteq> [] \<Longrightarrow> length vs \<le> 10 \<Longrightarrow> sem_inv example_cfg (example_sems vs)"
  by (auto simp: sem_inv_def sem_inv_Some example_sems_def example_cfg_def set_count_def public_perm_def free_set_def no_perm_def
      keys_ok_def nth_Cons')

definition sem_op :: "nat \<Rightarrow> int \<Rightarrow> bool \<Rightarrow> sembuf" where
  "sem_op j k nowait = \<lparr>sb_num = j, sb_op = k, sb_undo = False, sb_nowait = nowait\<rparr>"

theorem usemop_performs_all_witness:
  "\<exists>s' u'. usemop example_cfg 9 None 0 (Some [sem_op 0 (- 2) False, sem_op 1 4 False, sem_op 0 0 True]) [] example_owner (example_sems [2, 3]) =
     Some (Done s' (Some 0, u')) \<and> sem_vals s' 0 = Some [0, 7] \<and> u_err u' = None"
proof -
  have "apply_ops (SEMVMX example_cfg) [sem_op 0 (- 2) False, sem_op 1 4 False, sem_op 0 0 True] [2, 3] = Some [0, 7]"
    by (simp add: sem_op_def enabled_def example_cfg_def)
  from usemop_performs_all [OF example_usable _ this, of 9 None "[]"] show ?thesis by (simp add: sem_op_def)
qed

theorem usemop_all_or_nothing_witness:
  "\<exists>r. usemop example_cfg 9 None 0 (Some [sem_op 0 (- 2) False, sem_op 1 (- 4) True]) [] example_owner (example_sems [2, 3]) = Some r \<and>
    (case r of Blocked s' \<Rightarrow> sem_vals s' 0 = Some [2, 3] \<and> \<not> sem_gate s' \<and> (\<exists>b \<in> set [sem_op 0 (- 2) False, sem_op 1 (- 4) True]. \<not> sb_nowait b)
     | Done s' (x, u') \<Rightarrow> sem_vals s' 0 = Some [2, 3] \<and> \<not> sem_gate s' \<and> x = None \<and> u_err u' \<noteq> None)"
proof -
  have "apply_ops (SEMVMX example_cfg) [sem_op 0 (- 2) False, sem_op 1 (- 4) True] [2, 3] = None"
    "in_order [sem_op 0 (- 2) False, sem_op 1 (- 4) True]" "[sem_op 0 (- 2) False, sem_op 1 (- 4) True] \<noteq> []"
    by (simp_all add: sem_op_def enabled_def example_cfg_def in_order_def)
  from usemop_all_or_nothing [OF example_usable this(3,1,2), of 9 None] show ?thesis by simp
qed

theorem semundo_wrong_semaphore_witness:
  "\<exists>s' u'. usemop example_cfg 9 None 0 (Some [sem_op 1 1 False, sem_op 0 (- 1) True]) [] example_owner (example_sems [0, 3]) =
     Some (Done s' (None, u')) \<and> u_err u' = Some EAGAIN \<and> sem_vals s' 0 = Some [65535, 4]"
  using semundo_wrong_semaphore [OF example_usable, of 0 3 "[sem_op 1 1 False, sem_op 0 (- 1) True]" 9 None "[]"]
  by (simp add: sem_op_def example_cfg_def u16_def)

theorem usemget_same_key_witness:
  "usemget example_cfg 9 True True 42 1 \<lparr>f_creat = False, f_excl = False, f_mode = (\<lambda>_. {})\<rparr> example_user (example_sems [0, 3]) =
     Some (Some 0, example_user, example_sems [0, 3])"
proof -
  let ?f = "\<lparr>f_creat = True, f_excl = False, f_mode = (\<lambda>_. {PREAD})\<rparr>"
  have "usemget example_cfg 8 True True 42 2 ?f example_owner (example_sems [0, 3]) = Some (Some 0, example_owner, example_sems [0, 3])"
    by (simp add: usemget_def in_range_def example_cfg_def example_sems_def example_owner_def public_perm_def usemget_found_def Let_def
      set_at_def ipc_lack_perm_def ipc_cred_match_def)
  from usemget_same_key [OF example_inv _ _ this, of 1 "\<lparr>f_creat = False, f_excl = False, f_mode = (\<lambda>_. {})\<rparr>" example_user 9 True True]
  show ?thesis by (simp add: example_cfg_def example_user_def)
qed

theorem usemsys_keeps_witness:
  "\<exists>r. usemsys example_cfg 9 True True None (Semctl 0 0 IPC_RMID) [] example_owner (example_sems [2, 3]) = Some r \<and>
     (case r of Blocked s' \<Rightarrow> sem_inv example_cfg s' | Done s' _ \<Rightarrow> sem_inv example_cfg s')"
  using usemsys_keeps [OF example_inv, of "[2, 3]" "[]" "Semctl 0 0 IPC_RMID" 9 True True None example_owner]
  by (auto simp: example_cfg_def sem_calm_def)

end
