(* ===== verification/Cred.thy ===== *)
theory Cred
  imports Ipc "HOL-Library.Multiset"
begin

text \<open>
  Credentials, \<open>coh.386/lib/cred_*.c\<close>: reference-counted structures with the user and group ids of a
  process, which share reference-counted lists of supplementary groups. Both live in stores; the address that
  \<open>kmem_zalloc\<close> gives (or NULL) is an argument. A failed \<open>ASSERT\<close>, an access outside the stores and a
  \<open>kmem_free\<close> of the wrong size are faults. Reference counts are natural numbers.
\<close>

section \<open>State\<close>

record cred =
  cr_ref :: nat
  cr_uid :: nat
  cr_gid :: nat
  cr_ruid :: nat
  cr_rgid :: nat
  cr_suid :: nat
  cr_sgid :: nat
  cr_ngroups :: nat
  cr_groups :: ptr

text \<open>A list of groups has its reference count in front of it.\<close>

record creds =
  cred_heap :: "cred store"
  grp_heap :: "(nat \<times> nat list) store"

section \<open>Lists of groups\<close>

definition groups_alloc :: "ptr \<Rightarrow> nat \<Rightarrow> creds \<Rightarrow> (ptr \<times> creds) option" where
  "groups_alloc new ngroups s =
     (if ngroups = 0 then None
      else (case new of None \<Rightarrow> Some (None, s)
        | Some a \<Rightarrow> Some (Some a, s\<lparr>grp_heap := (grp_heap s)(a \<mapsto> (1, replicate ngroups 0))\<rparr>)))"

definition groups_ref :: "ptr \<Rightarrow> creds \<Rightarrow> creds option" where
  "groups_ref groups s = do {
     (n, gs) \<leftarrow> deref (grp_heap s) groups;
     if n = 0 then None
     else do { h \<leftarrow> modify (grp_heap s) groups (\<lambda>_. (n + 1, gs)); Some (s\<lparr>grp_heap := h\<rparr>) }
   }"

definition groups_unref :: "ptr \<Rightarrow> nat \<Rightarrow> creds \<Rightarrow> creds option" where
  "groups_unref groups ngroups s = do {
     (n, gs) \<leftarrow> deref (grp_heap s) groups;
     if ngroups = 0 \<or> n = 0 then None
     else if n - 1 = 0 then
       (if length gs = ngroups then Some (s\<lparr>grp_heap := (grp_heap s)(the groups := None)\<rparr>) else None)
     else do { h \<leftarrow> modify (grp_heap s) groups (\<lambda>_. (n - 1, gs)); Some (s\<lparr>grp_heap := h\<rparr>) }
   }"

section \<open>Credentials\<close>

definition no_cred :: cred where
  "no_cred = \<lparr>cr_ref = 0, cr_uid = 0, cr_gid = 0, cr_ruid = 0, cr_rgid = 0, cr_suid = 0, cr_sgid = 0, cr_ngroups = 0, cr_groups = None\<rparr>"

definition cred_alloc :: "ptr \<Rightarrow> creds \<Rightarrow> ptr \<times> creds" where
  "cred_alloc new s = (case new of None \<Rightarrow> (None, s)
     | Some a \<Rightarrow> (Some a, s\<lparr>cred_heap := (cred_heap s)(a \<mapsto> no_cred\<lparr>cr_ref := 1, cr_groups := None\<rparr>)\<rparr>))"

definition cred_ref :: "ptr \<Rightarrow> creds \<Rightarrow> creds option" where
  "cred_ref p s = do {
     c \<leftarrow> deref (cred_heap s) p;
     if cr_ref c = 0 then None
     else do { h \<leftarrow> modify (cred_heap s) p (\<lambda>c. c\<lparr>cr_ref := cr_ref c + 1\<rparr>); Some (s\<lparr>cred_heap := h\<rparr>) }
   }"

definition cred_unref :: "ptr \<Rightarrow> creds \<Rightarrow> creds option" where
  "cred_unref p s = do {
     c \<leftarrow> deref (cred_heap s) p;
     if cr_ref c = 0 then None
     else do {
       h \<leftarrow> modify (cred_heap s) p (\<lambda>c. c\<lparr>cr_ref := cr_ref c - 1\<rparr>);
       let s = s\<lparr>cred_heap := h\<rparr>;
       if cr_ref c - 1 \<noteq> 0 then Some s
       else do {
         s \<leftarrow> (if cr_ngroups c > 0 then groups_unref (cr_groups c) (cr_ngroups c) s else Some s);
         Some (s\<lparr>cred_heap := (cred_heap s)(the p := None)\<rparr>)
       }
     }
   }"

definition cred_copy :: "ptr \<Rightarrow> ptr \<Rightarrow> creds \<Rightarrow> (ptr \<times> creds) option" where
  "cred_copy new p s = do {
     c \<leftarrow> deref (cred_heap s) p;
     if cr_ref c = 0 then None
     else (case cred_alloc new s of
         (None, s) \<Rightarrow> Some (None, s)
       | (Some q, s) \<Rightarrow> do {
           let s = s\<lparr>cred_heap := (cred_heap s)(q \<mapsto> c\<lparr>cr_ref := 1\<rparr>)\<rparr>;
           s \<leftarrow> (if cr_ngroups c > 0 then groups_ref (cr_groups c) s else Some s);
           s \<leftarrow> cred_unref p s;
           Some (Some q, s)
         })
   }"

text \<open>
  The step that all routines with new ids share: credentials with other holders are copied first. Then \<open>f\<close>
  changes the caller's own.
\<close>

definition cred_change :: "(cred \<Rightarrow> cred) \<Rightarrow> ptr \<Rightarrow> ptr \<Rightarrow> creds \<Rightarrow> (ptr \<times> creds) option" where
  "cred_change f new p s = do {
     c \<leftarrow> deref (cred_heap s) p;
     if cr_ref c = 0 then None
     else do {
       (q, s) \<leftarrow> (if cr_ref c > 1 then cred_copy new p s else Some (p, s));
       if q = None then Some (None, s)
       else do { h \<leftarrow> modify (cred_heap s) q f; Some (q, s\<lparr>cred_heap := h\<rparr>) }
     }
   }"

definition cred_execid :: "ptr \<Rightarrow> ptr \<Rightarrow> nat \<Rightarrow> nat \<Rightarrow> creds \<Rightarrow> (ptr \<times> creds) option" where
  "cred_execid new p uid gid s = cred_change (\<lambda>c. c\<lparr>cr_uid := uid, cr_suid := uid, cr_gid := gid, cr_sgid := gid\<rparr>) new p s"

definition cred_newuid :: "ptr \<Rightarrow> ptr \<Rightarrow> nat \<Rightarrow> creds \<Rightarrow> (ptr \<times> creds) option" where
  "cred_newuid new p uid s = cred_change (\<lambda>c. c\<lparr>cr_uid := uid, cr_ruid := uid, cr_suid := uid\<rparr>) new p s"

definition cred_neweuid :: "ptr \<Rightarrow> ptr \<Rightarrow> nat \<Rightarrow> creds \<Rightarrow> (ptr \<times> creds) option" where
  "cred_neweuid new p uid s = cred_change (\<lambda>c. c\<lparr>cr_uid := uid\<rparr>) new p s"

definition cred_newgid :: "ptr \<Rightarrow> ptr \<Rightarrow> nat \<Rightarrow> creds \<Rightarrow> (ptr \<times> creds) option" where
  "cred_newgid new p gid s = cred_change (\<lambda>c. c\<lparr>cr_gid := gid, cr_rgid := gid, cr_sgid := gid\<rparr>) new p s"

definition cred_newegid :: "ptr \<Rightarrow> ptr \<Rightarrow> nat \<Rightarrow> creds \<Rightarrow> (ptr \<times> creds) option" where
  "cred_newegid new p gid s = cred_change (\<lambda>c. c\<lparr>cr_gid := gid\<rparr>) new p s"

text \<open>\<open>gnew\<close> is the memory for the list, \<open>new\<close> that for a copy of the credentials.\<close>

definition cred_setgrp :: "ptr \<Rightarrow> ptr \<Rightarrow> ptr \<Rightarrow> nat \<Rightarrow> creds \<Rightarrow> (ptr \<times> creds) option" where
  "cred_setgrp gnew new p ngroups s = do {
     c \<leftarrow> deref (cred_heap s) p;
     if cr_ref c = 0 then None
     else do {
       (groups, s) \<leftarrow> (if ngroups > 0 then groups_alloc gnew ngroups s else Some (None, s));
       if ngroups > 0 \<and> groups = None then Some (None, s)
       else do {
         (q, s) \<leftarrow> (if cr_ref c > 1 then cred_copy new p s else Some (p, s));
         if q = None then do {
           s \<leftarrow> (if groups \<noteq> None then groups_unref groups ngroups s else Some s);
           Some (None, s)
         } else do {
           c \<leftarrow> deref (cred_heap s) q;
           s \<leftarrow> (if cr_ngroups c \<noteq> 0 then groups_unref (cr_groups c) (cr_ngroups c) s else Some s);
           h \<leftarrow> modify (cred_heap s) q (\<lambda>c. c\<lparr>cr_ngroups := ngroups, cr_groups := groups\<rparr>);
           Some (q, s\<lparr>cred_heap := h\<rparr>)
         }
       }
     }
   }"

text \<open>\<open>cred_fake\<close> fills in a structure of its caller; \<open>cred_match\<close> takes the structure by its value, so it can be such a one.\<close>

definition cred_fake :: "cred \<Rightarrow> cred \<Rightarrow> cred" where
  "cred_fake dest src = dest\<lparr>cr_ref := 0, cr_uid := cr_ruid src, cr_gid := cr_rgid src, cr_ngroups := cr_ngroups src, cr_groups := cr_groups src\<rparr>"

fun in_groups :: "nat list \<Rightarrow> nat \<Rightarrow> nat \<Rightarrow> bool option" where
  "in_groups gs 0 gid = Some False"
| "in_groups [] (Suc n) gid = None"
| "in_groups (g # gs) (Suc n) gid = (if g = gid then Some True else in_groups gs n gid)"

definition cred_match :: "cred \<Rightarrow> nat \<Rightarrow> nat \<Rightarrow> creds \<Rightarrow> cred_lvl option" where
  "cred_match c uid gid s =
     (if cr_uid c = uid then Some CRED_OWNER
      else if cr_gid c = gid then Some CRED_GROUP
      else if cr_ngroups c = 0 then Some CRED_OTHER
      else do {
        (n, gs) \<leftarrow> deref (grp_heap s) (cr_groups c);
        b \<leftarrow> in_groups gs (cr_ngroups c) gid;
        Some (if b then CRED_GROUP else CRED_OTHER)
      })"

section \<open>Ownership\<close>

text \<open>
  \<open>rs\<close> are the references to credentials that processes and files hold, \<open>ex\<close> the references to lists of groups
  held from outside a credentials structure. Every count is the number of its holders.
\<close>

definition users :: "creds \<Rightarrow> addr \<Rightarrow> addr set" where
  "users s g = {a. \<exists>c. cred_heap s a = Some c \<and> 0 < cr_ngroups c \<and> cr_groups c = Some g}"

definition groups_of :: "creds \<Rightarrow> cred \<Rightarrow> nat list option" where
  "groups_of s c = (if cr_ngroups c = 0 then Some [] else map_option snd (deref (grp_heap s) (cr_groups c)))"

definition cred_inv :: "creds \<Rightarrow> addr multiset \<Rightarrow> addr multiset \<Rightarrow> bool" where
  "cred_inv s rs ex \<longleftrightarrow> finite (dom (cred_heap s)) \<and>
     (\<forall>a. count rs a = (case cred_heap s a of None \<Rightarrow> 0 | Some c \<Rightarrow> cr_ref c)) \<and>
     (\<forall>a c. cred_heap s a = Some c \<longrightarrow> 0 < cr_ref c \<and> (\<exists>gs. groups_of s c = Some gs \<and> length gs = cr_ngroups c)) \<and>
     (\<forall>g. card (users s g) + count ex g = (case grp_heap s g of None \<Rightarrow> 0 | Some (n, gs) \<Rightarrow> n)) \<and>
     (\<forall>g n gs. grp_heap s g = Some (n, gs) \<longrightarrow> 0 < n \<and> gs \<noteq> [])"

text \<open>What a holder of credentials sees of them.\<close>

definition view :: "creds \<Rightarrow> addr \<Rightarrow> (cred \<times> nat list option) option" where
  "view s a = map_option (\<lambda>c. (c\<lparr>cr_ref := 0\<rparr>, groups_of s c)) (cred_heap s a)"

text \<open>The list that credentials use, as a multiset of at most one.\<close>

definition own :: "cred option \<Rightarrow> addr multiset" where
  "own v = (case v of None \<Rightarrow> {#} | Some c \<Rightarrow>
     if cr_ngroups c = 0 then {#} else (case cr_groups c of None \<Rightarrow> {#} | Some g \<Rightarrow> {#g#}))"

lemma groups_of_heap [simp]: "groups_of (s\<lparr>cred_heap := h\<rparr>) c = groups_of s c"
  by (simp add: groups_of_def)

lemma view_other [simp]: "b \<noteq> a \<Longrightarrow> view (s\<lparr>cred_heap := (cred_heap s)(a := v)\<rparr>) b = view s b"
  by (simp add: view_def)

lemma cred_same_groups [simp]: "groups_of s (c\<lparr>cr_ref := n\<rparr>) = groups_of s c" "own (Some (c\<lparr>cr_ref := n\<rparr>)) = own (Some c)"
  by (simp_all add: groups_of_def own_def)

lemma view_ref: "cred_heap s p = Some c \<Longrightarrow> view (s\<lparr>cred_heap := (cred_heap s)(p := Some (c\<lparr>cr_ref := n\<rparr>))\<rparr>) a = view s a"
  by (cases "a = p") (simp_all add: view_def)

lemma own_users: "count (own (cred_heap s a)) g = (if a \<in> users s g then 1 else 0)"
  by (auto simp: own_def users_def split: option.split)

lemma users_upd: "users (s\<lparr>cred_heap := (cred_heap s)(a := v)\<rparr>) g = users s g - {a} \<union> (if g \<in># own v then {a} else {})"
  by (auto simp: users_def own_def split: option.splits if_splits)

lemma users_finite: "finite (dom (cred_heap s)) \<Longrightarrow> finite (users s g)"
  by (rule finite_subset [of _ "dom (cred_heap s)"]) (auto simp: users_def)

lemma card_users_upd:
  assumes "finite (dom (cred_heap s))"
  shows "card (users (s\<lparr>cred_heap := (cred_heap s)(a := v)\<rparr>) g) + count (own (cred_heap s a)) g = card (users s g) + count (own v) g"
proof -
  have f: "finite (users s g)" using assms by (rule users_finite)
  have o: "count (own v) g = (if g \<in># own v then 1 else 0)"
    by (auto simp: own_def split: option.split)
  have "card (users s g - {a}) + (if a \<in> users s g then 1 else 0) = card (users s g)"
    using f card_Suc_Diff1 [OF f, of a] by auto
  then show ?thesis unfolding users_upd own_users o using f by (auto simp: insert_absorb)
qed

text \<open>Changing, adding or removing one structure moves references between it and the outside.\<close>

lemma cred_upd:
  assumes inv: "cred_inv s rs ex"
    and rs: "\<And>b. count rs' b = (if b = a then (case v of None \<Rightarrow> 0 | Some c \<Rightarrow> cr_ref c) else count rs b)"
    and ex: "ex' + own v = ex + own (cred_heap s a)"
    and c: "\<And>c. v = Some c \<Longrightarrow> 0 < cr_ref c \<and> (\<exists>gs. groups_of s c = Some gs \<and> length gs = cr_ngroups c)"
  shows "cred_inv (s\<lparr>cred_heap := (cred_heap s)(a := v)\<rparr>) rs' ex'"
proof -
  have fin: "finite (dom (cred_heap s))" using inv by (simp add: cred_inv_def)
  have "card (users (s\<lparr>cred_heap := (cred_heap s)(a := v)\<rparr>) g) + count ex' g = card (users s g) + count ex g" for g
    using card_users_upd [OF fin, of a v g] arg_cong [OF ex, of "\<lambda>m. count m g"] by simp
  then show ?thesis using inv rs c fin unfolding cred_inv_def by simp
qed

lemma held:
  assumes "cred_inv s rs ex" "p \<in># rs"
  obtains c gs where "cred_heap s p = Some c" "cr_ref c = count rs p" "groups_of s c = Some gs" "length gs = cr_ngroups c"
proof -
  have "0 < count rs p" using assms(2) by simp
  moreover have "count rs p = (case cred_heap s p of None \<Rightarrow> 0 | Some c \<Rightarrow> cr_ref c)" using assms(1) unfolding cred_inv_def by blast
  ultimately obtain c where c: "cred_heap s p = Some c" "cr_ref c = count rs p" by (cases "cred_heap s p") auto
  then show ?thesis using that assms(1) unfolding cred_inv_def by metis
qed

lemma groups_of_own:
  assumes "groups_of s c = Some gs" "length gs = cr_ngroups c"
  obtains "cr_ngroups c = 0" "own (Some c) = {#}" "gs = []"
  | g n where "0 < cr_ngroups c" "own (Some c) = {#g#}" "cr_groups c = Some g" "grp_heap s g = Some (n, gs)"
  using assms by (cases "cr_ngroups c = 0"; cases "cr_groups c") (auto simp: groups_of_def own_def)

text \<open>Lists of groups: one more reference from outside, or one less.\<close>

lemma groups_frame:
  "groups_ref p (s\<lparr>cred_heap := h\<rparr>) = map_option (\<lambda>s. s\<lparr>cred_heap := h\<rparr>) (groups_ref p s)"
  "groups_unref p n (s\<lparr>cred_heap := h\<rparr>) = map_option (\<lambda>s. s\<lparr>cred_heap := h\<rparr>) (groups_unref p n s)"
  by (auto simp: groups_ref_def groups_unref_def split: bind_splits)

lemma users_grp [simp]: "users (s\<lparr>grp_heap := h\<rparr>) g = users s g"
  by (simp add: users_def)

lemma groups_ref_ok:
  assumes inv: "cred_inv s rs ex" and g: "grp_heap s g = Some (n, gs)"
  shows "\<exists>s'. groups_ref (Some g) s = Some s' \<and> cred_inv s' rs (add_mset g ex) \<and> cred_heap s' = cred_heap s \<and>
    (\<forall>c. groups_of s' c = groups_of s c)"
proof -
  let ?s = "s\<lparr>grp_heap := (grp_heap s)(g \<mapsto> (n + 1, gs))\<rparr>"
  have gr: "groups_of ?s c = groups_of s c" for c
    using g by (cases "cr_groups c") (auto simp: groups_of_def)
  have n: "0 < n" using inv g by (simp add: cred_inv_def)
  have "card (users s g) + count ex g = n" using inv g unfolding cred_inv_def by (metis (no_types, lifting) case_prod_conv option.simps(5))
  then have "cred_inv ?s rs (add_mset g ex)" using inv n g gr unfolding cred_inv_def by simp
  then show ?thesis using g n gr by (simp add: groups_ref_def)
qed

lemma groups_unref_ok:
  assumes inv: "cred_inv s rs (add_mset g ex)" and len: "\<And>n gs. grp_heap s g = Some (n, gs) \<Longrightarrow> length gs = k"
  shows "\<exists>s'. groups_unref (Some g) k s = Some s' \<and> cred_inv s' rs ex \<and> cred_heap s' = cred_heap s \<and>
    (\<forall>a c. cred_heap s a = Some c \<longrightarrow> groups_of s' c = groups_of s c)"
proof -
  have cnt: "card (users s h) + count (add_mset g ex) h = (case grp_heap s h of None \<Rightarrow> 0 | Some (n, gs) \<Rightarrow> n)" for h
    using inv by (simp add: cred_inv_def)
  obtain n gs where g: "grp_heap s g = Some (n, gs)" "n = card (users s g) + count ex g + 1"
    using cnt [of g] by (cases "grp_heap s g") auto
  have rest: "finite (dom (cred_heap s))" "\<And>a. count rs a = (case cred_heap s a of None \<Rightarrow> 0 | Some c \<Rightarrow> cr_ref c)"
    "\<And>a c. cred_heap s a = Some c \<Longrightarrow> 0 < cr_ref c \<and> (\<exists>gs. groups_of s c = Some gs \<and> length gs = cr_ngroups c)"
    "\<And>g n gs. grp_heap s g = Some (n, gs) \<Longrightarrow> 0 < n \<and> gs \<noteq> []" using inv unfolding cred_inv_def by blast+
  have k: "length gs = k" "0 < k" using len [OF g(1)] rest(4) [OF g(1)] by auto
  define v where "v = (if n = 1 then None else Some (n - 1, gs))"
  let ?s = "s\<lparr>grp_heap := (grp_heap s)(g := v)\<rparr>"
  have r: "groups_unref (Some g) k s = Some ?s" using g(1) k rest(4) [OF g(1)] by (cases "n = 1") (simp_all add: groups_unref_def v_def)
  have gr: "groups_of ?s c = groups_of s c" if c: "cred_heap s a = Some c" for a c
  proof (cases "cr_ngroups c \<noteq> 0 \<and> cr_groups c = Some g")
    case True
    then have "a \<in> users s g" using c by (simp add: users_def)
    then have "0 < card (users s g)" using users_finite [OF rest(1), of g] by (auto simp: card_gt_0_iff)
    then show ?thesis using g True by (simp add: groups_of_def v_def)
  next
    case False
    then show ?thesis by (cases "cr_groups c") (auto simp: groups_of_def)
  qed
  have c': "card (users s h) + count ex h = (case ((grp_heap s)(g := v)) h of None \<Rightarrow> 0 | Some (n, gs) \<Rightarrow> n)" for h
    using cnt [of h] g by (auto simp: v_def)
  have p': "0 < m \<and> xs \<noteq> []" if "((grp_heap s)(g := v)) h = Some (m, xs)" for h m xs
    using that rest(4) [of h m xs] rest(4) [OF g(1)] by (cases "h = g") (auto simp: v_def split: if_splits)
  have "cred_inv ?s rs ex" unfolding cred_inv_def
    using rest(1,2,3) gr c' p' by simp
  then show ?thesis using r gr by auto
qed

section \<open>References to credentials\<close>

definition same_views :: "creds \<Rightarrow> creds \<Rightarrow> addr multiset \<Rightarrow> bool" where
  "same_views s s' rs \<longleftrightarrow> (\<forall>a. a \<in># rs \<longrightarrow> view s' a = view s a)"

lemma cred_ref_ok:
  assumes "cred_inv s rs ex" "p \<in># rs"
  shows "\<exists>s'. cred_ref (Some p) s = Some s' \<and> cred_inv s' (add_mset p rs) ex \<and> same_views s s' rs"
proof -
  obtain c gs where c: "cred_heap s p = Some c" "cr_ref c = count rs p" "groups_of s c = Some gs" "length gs = cr_ngroups c"
    using held [OF assms] by blast
  have "0 < count rs p" using assms(2) by simp
  then have nz: "cr_ref c \<noteq> 0" using c(2) by simp
  let ?c = "c\<lparr>cr_ref := Suc (cr_ref c)\<rparr>"
  have "cred_inv (s\<lparr>cred_heap := (cred_heap s)(p := Some ?c)\<rparr>) (add_mset p rs) ex"
    using c by (intro cred_upd [OF assms(1)]) auto
  moreover have "view (s\<lparr>cred_heap := (cred_heap s)(p := Some ?c)\<rparr>) a = view s a" for a
    using c(1) by (rule view_ref)
  moreover have "cred_ref (Some p) s = Some (s\<lparr>cred_heap := (cred_heap s)(p := Some ?c)\<rparr>)" using c(1) nz by (simp add: cred_ref_def)
  ultimately show ?thesis by (auto simp: same_views_def)
qed

lemma cred_unref_ok:
  assumes "cred_inv s (add_mset p rs) ex"
  shows "\<exists>s'. cred_unref (Some p) s = Some s' \<and> cred_inv s' rs ex \<and> same_views s s' rs \<and> (p \<notin># rs \<longrightarrow> cred_heap s' p = None) \<and>
    dom (cred_heap s') \<subseteq> dom (cred_heap s)"
proof -
  obtain c gs where c: "cred_heap s p = Some c" "cr_ref c = Suc (count rs p)" "groups_of s c = Some gs" "length gs = cr_ngroups c"
    using held [OF assms, of p] by auto
  show ?thesis
  proof (cases "p \<in># rs")
    case True
    then have "0 < count rs p" by simp
    let ?c = "c\<lparr>cr_ref := cr_ref c - 1\<rparr>"
    have "cred_inv (s\<lparr>cred_heap := (cred_heap s)(p := Some ?c)\<rparr>) rs ex"
      using c \<open>0 < count rs p\<close> by (intro cred_upd [OF assms]) auto
    moreover have "view (s\<lparr>cred_heap := (cred_heap s)(p := Some ?c)\<rparr>) a = view s a" for a
      using c(1) by (rule view_ref)
    moreover have "cred_unref (Some p) s = Some (s\<lparr>cred_heap := (cred_heap s)(p := Some ?c)\<rparr>)"
      using c(1,2) \<open>0 < count rs p\<close> by (simp add: cred_unref_def)
    ultimately show ?thesis using True c(1) by (auto simp: same_views_def)
  next
    case False
    then have c1: "cr_ref c = 1" using c(2) by (simp add: not_in_iff)
    let ?s = "s\<lparr>cred_heap := (cred_heap s)(p := None)\<rparr>"
    have inv: "cred_inv ?s rs (ex + own (Some c))"
      using False c(1) by (intro cred_upd [OF assms]) (auto simp: own_def not_in_iff)
    have v: "view ?s a = view s a" if "a \<in># rs" for a using that False by (cases "a = p") auto
    show ?thesis
    proof (rule groups_of_own [OF c(3,4)])
      assume o: "cr_ngroups c = 0" "own (Some c) = {#}"
      then have "cred_unref (Some p) s = Some ?s" using c(1) c1 by (simp add: cred_unref_def)
      then show ?thesis using inv o v by (auto simp: same_views_def)
    next
      fix g n assume o: "0 < cr_ngroups c" "own (Some c) = {#g#}" "cr_groups c = Some g" "grp_heap s g = Some (n, gs)"
      have "cred_inv ?s rs (add_mset g ex)" using inv o by simp
      from groups_unref_ok [OF this, of "cr_ngroups c"] o(4) c(4) obtain t where
        t: "groups_unref (Some g) (cr_ngroups c) ?s = Some t" "cred_inv t rs ex" "cred_heap t = (cred_heap s)(p := None)"
        "\<forall>a d. cred_heap ?s a = Some d \<longrightarrow> groups_of t d = groups_of ?s d" by auto
      obtain t0 where t0: "groups_unref (Some g) (cr_ngroups c) s = Some t0" "t = t0\<lparr>cred_heap := (cred_heap s)(p := None)\<rparr>"
        using t(1) groups_frame(2) [of "Some g" "cr_ngroups c" "(cred_heap s)(p := None)" s] by auto
      have "cred_unref (Some p) s = Some t"
        using c(1) c1 o t0 by (simp add: cred_unref_def groups_frame)
      moreover have "view t a = view s a" if "a \<in># rs" for a
        using that False t(3) t(4) [rule_format, of a] by (cases "a = p"; cases "cred_heap s a") (auto simp: view_def)
      ultimately show ?thesis using t by (auto simp: same_views_def)
    qed
  qed
qed

text \<open>Memory that \<open>kmem_zalloc\<close> gives is not in use.\<close>

definition fresh :: "ptr \<Rightarrow> 'a store \<Rightarrow> bool" where
  "fresh new h \<longleftrightarrow> (\<forall>a. new = Some a \<longrightarrow> h a = None)"

lemma cred_copy_ok:
  assumes inv: "cred_inv s (add_mset p rs) ex" and new: "fresh new (cred_heap s)"
  shows "\<exists>s'. cred_copy new (Some p) s = Some (new, s') \<and> (case new of None \<Rightarrow> s' = s
    | Some q \<Rightarrow> cred_inv s' (add_mset q rs) ex \<and> same_views s s' rs \<and> view s' q = view s p \<and> q \<notin># rs)"
proof -
  obtain c gs where c: "cred_heap s p = Some c" "cr_ref c = Suc (count rs p)" "groups_of s c = Some gs" "length gs = cr_ngroups c"
    using held [OF inv, of p] by auto
  show ?thesis
  proof (cases new)
    case None
    then show ?thesis using c by (simp add: cred_copy_def cred_alloc_def)
  next
    case (Some q)
    then have q: "cred_heap s q = None" using new by (simp add: fresh_def)
    have "count (add_mset p rs) q = 0" using inv q unfolding cred_inv_def by (metis option.simps(4))
    then have nq: "p \<noteq> q" "q \<notin># rs" "count rs q = 0" by (auto simp: not_in_iff split: if_splits)
    define h where "h = (cred_heap s)(q \<mapsto> c\<lparr>cr_ref := 1\<rparr>)"
    obtain s1 where s1: "(if cr_ngroups c > 0 then groups_ref (cr_groups c) s else Some s) = Some s1"
      "cred_inv s1 (add_mset p rs) (ex + own (Some c))" "cred_heap s1 = cred_heap s" "\<forall>c. groups_of s1 c = groups_of s c"
    proof (rule groups_of_own [OF c(3,4)])
      assume "cr_ngroups c = 0" "own (Some c) = {#}"
      then show ?thesis using inv that [of s] by simp
    next
      fix g n assume "0 < cr_ngroups c" "own (Some c) = {#g#}" "cr_groups c = Some g" "grp_heap s g = Some (n, gs)"
      then show ?thesis using groups_ref_ok [OF inv, of g n gs] that by auto
    qed
    define s2 where "s2 = s1\<lparr>cred_heap := h\<rparr>"
    have "cred_inv (s1\<lparr>cred_heap := (cred_heap s1)(q := Some (c\<lparr>cr_ref := 1\<rparr>))\<rparr>) (add_mset q (add_mset p rs)) ex"
    proof (rule cred_upd [OF s1(2)])
      show "ex + own (Some (c\<lparr>cr_ref := 1\<rparr>)) = ex + own (Some c) + own (cred_heap s1 q)" using q s1(3) by (simp add: own_def)
      show "0 < cr_ref d \<and> (\<exists>gs. groups_of s1 d = Some gs \<and> length gs = cr_ngroups d)" if "Some (c\<lparr>cr_ref := 1\<rparr>) = Some d" for d
        using that c s1(4) by auto
    qed (use nq in auto)
    then have i2: "cred_inv s2 (add_mset p (add_mset q rs)) ex" by (simp add: s2_def h_def s1(3) add_mset_commute)
    have v2: "view s2 a = view s a" if "a \<noteq> q" for a using that s1 by (simp add: s2_def h_def view_def)
    have vq: "view s2 q = view s p" using s1(3,4) c by (simp add: s2_def h_def view_def)
    from cred_unref_ok [OF i2] obtain s3 where s3: "cred_unref (Some p) s2 = Some s3" "cred_inv s3 (add_mset q rs) ex"
      "same_views s2 s3 (add_mset q rs)" by blast
    have "(if cr_ngroups c > 0 then groups_ref (cr_groups c) (s\<lparr>cred_heap := h\<rparr>) else Some (s\<lparr>cred_heap := h\<rparr>)) = Some s2"
      using s1(1) by (auto simp: s2_def groups_frame split: if_splits)
    then have "cred_copy new (Some p) s = Some (new, s3)"
      using c q s3(1) Some by (auto simp: cred_copy_def cred_alloc_def h_def Let_def split: if_splits)
    moreover have "view s3 a = view s a" if "a \<in># rs" for a
      using s3(3) v2 [of a] nq(2) that by (cases "a = q") (auto simp: same_views_def)
    ultimately show ?thesis using Some s3 vq nq by (simp add: same_views_def)
  qed
qed

section \<open>Changing credentials\<close>

text \<open>The routines that change ids, with the change each makes.\<close>

definition id_setters :: "ptr \<Rightarrow> ptr \<Rightarrow> nat \<Rightarrow> nat \<Rightarrow> ((creds \<Rightarrow> (ptr \<times> creds) option) \<times> (cred \<Rightarrow> cred)) set" where
  "id_setters new p uid gid = {
     (cred_execid new p uid gid, \<lambda>c. c\<lparr>cr_uid := uid, cr_suid := uid, cr_gid := gid, cr_sgid := gid\<rparr>),
     (cred_newuid new p uid, \<lambda>c. c\<lparr>cr_uid := uid, cr_ruid := uid, cr_suid := uid\<rparr>),
     (cred_neweuid new p uid, \<lambda>c. c\<lparr>cr_uid := uid\<rparr>),
     (cred_newgid new p gid, \<lambda>c. c\<lparr>cr_gid := gid, cr_rgid := gid, cr_sgid := gid\<rparr>),
     (cred_newegid new p gid, \<lambda>c. c\<lparr>cr_gid := gid\<rparr>)}"

definition only_ids :: "(cred \<Rightarrow> cred) \<Rightarrow> bool" where
  "only_ids f \<longleftrightarrow> (\<forall>c. cr_ref (f c) = cr_ref c \<and> cr_ngroups (f c) = cr_ngroups c \<and> cr_groups (f c) = cr_groups c \<and>
     (f c)\<lparr>cr_ref := 0\<rparr> = f (c\<lparr>cr_ref := 0\<rparr>))"

lemma id_settersD:
  assumes "(op, f) \<in> id_setters new p uid gid"
  shows "op = cred_change f new p" "only_ids f"
proof -
  have e: "cred_execid new p uid gid = cred_change (\<lambda>c. c\<lparr>cr_uid := uid, cr_suid := uid, cr_gid := gid, cr_sgid := gid\<rparr>) new p"
    "cred_newuid new p uid = cred_change (\<lambda>c. c\<lparr>cr_uid := uid, cr_ruid := uid, cr_suid := uid\<rparr>) new p"
    "cred_neweuid new p uid = cred_change (\<lambda>c. c\<lparr>cr_uid := uid\<rparr>) new p"
    "cred_newgid new p gid = cred_change (\<lambda>c. c\<lparr>cr_gid := gid, cr_rgid := gid, cr_sgid := gid\<rparr>) new p"
    "cred_newegid new p gid = cred_change (\<lambda>c. c\<lparr>cr_gid := gid\<rparr>) new p"
    by (rule ext, simp only: cred_execid_def cred_newuid_def cred_neweuid_def cred_newgid_def cred_newegid_def)+
  show "op = cred_change f new p" using assms unfolding id_setters_def e by blast
  show "only_ids f" using assms by (auto simp: id_setters_def only_ids_def)
qed

lemma own_change:
  assumes inv: "cred_inv s (add_mset q rs) ex" and q: "q \<notin># rs" "cred_heap s q = Some c" and f: "only_ids f"
  shows "cred_inv (s\<lparr>cred_heap := (cred_heap s)(q \<mapsto> f c)\<rparr>) (add_mset q rs) ex"
    "same_views s (s\<lparr>cred_heap := (cred_heap s)(q \<mapsto> f c)\<rparr>) rs"
    "view (s\<lparr>cred_heap := (cred_heap s)(q \<mapsto> f c)\<rparr>) q = map_option (map_prod f id) (view s q)"
proof -
  have g: "groups_of s (f c) = groups_of s c" "own (Some (f c)) = own (Some c)" "cr_ref (f c) = cr_ref c" "cr_ngroups (f c) = cr_ngroups c"
    "(f c)\<lparr>cr_ref := 0\<rparr> = f (c\<lparr>cr_ref := 0\<rparr>)"
    using f by (simp_all add: only_ids_def groups_of_def own_def)
  obtain gs where c: "cr_ref c = count (add_mset q rs) q" "groups_of s c = Some gs" "length gs = cr_ngroups c"
    using held [OF inv, of q] q(2) by auto
  show "cred_inv (s\<lparr>cred_heap := (cred_heap s)(q \<mapsto> f c)\<rparr>) (add_mset q rs) ex"
    using g c q(2) by (intro cred_upd [OF inv]) auto
  show "same_views s (s\<lparr>cred_heap := (cred_heap s)(q \<mapsto> f c)\<rparr>) rs"
    unfolding same_views_def
  proof (intro allI impI)
    fix a assume "a \<in># rs"
    then have "a \<noteq> q" using q(1) by blast
    then show "view (s\<lparr>cred_heap := (cred_heap s)(q \<mapsto> f c)\<rparr>) a = view s a" by simp
  qed
  show "view (s\<lparr>cred_heap := (cred_heap s)(q \<mapsto> f c)\<rparr>) q = map_option (map_prod f id) (view s q)"
    using q(2) g by (simp add: view_def)
qed

lemma cred_private:
  assumes inv: "cred_inv s (add_mset p rs) ex" and new: "fresh new (cred_heap s)" and c: "cred_heap s p = Some c"
  shows "\<exists>q s'. (if cr_ref c > 1 then cred_copy new (Some p) s else Some (Some p, s)) = Some (q, s') \<and>
    (case q of None \<Rightarrow> new = None \<and> s' = s
     | Some q \<Rightarrow> cred_inv s' (add_mset q rs) ex \<and> same_views s s' rs \<and> view s' q = view s p \<and> q \<notin># rs)"
proof (cases "cr_ref c > 1")
  case True
  then show ?thesis using cred_copy_ok [OF inv new] by (cases new) auto
next
  case False
  obtain d where "cred_heap s p = Some d" "cr_ref d = count (add_mset p rs) p" using held [OF inv, of p] by auto
  then have "p \<notin># rs" using False c by (simp add: not_in_iff)
  then show ?thesis using False inv by (simp add: same_views_def)
qed

lemma cred_change_ok:
  assumes inv: "cred_inv s (add_mset p rs) ex" and new: "fresh new (cred_heap s)" and f: "only_ids f"
  shows "\<exists>q s'. cred_change f new (Some p) s = Some (q, s') \<and> (case q of None \<Rightarrow> new = None \<and> s' = s
    | Some q \<Rightarrow> cred_inv s' (add_mset q rs) ex \<and> same_views s s' rs \<and> view s' q = map_option (map_prod f id) (view s p) \<and> q \<notin># rs)"
proof -
  obtain c where c: "cred_heap s p = Some c" "cr_ref c = count (add_mset p rs) p" using held [OF inv, of p] by auto
  have nz: "(cr_ref c = 0) = False" using c(2) by simp
  from cred_private [OF inv new c(1)] obtain r t where
    e: "(if cr_ref c > 1 then cred_copy new (Some p) s else Some (Some p, s)) = Some (r, t)" and
    t: "case r of None \<Rightarrow> new = None \<and> t = s
      | Some q \<Rightarrow> cred_inv t (add_mset q rs) ex \<and> same_views s t rs \<and> view t q = view s p \<and> q \<notin># rs" by blast
  have ch: "cred_change f new (Some p) s = (if r = None then Some (None, t)
      else do { h \<leftarrow> modify (cred_heap t) r f; Some (r, t\<lparr>cred_heap := h\<rparr>) })"
    using nz by (simp only: cred_change_def c(1) deref_simps Option.bind.bind_lunit e prod.case if_False)
  show ?thesis
  proof (cases r)
    case None
    then show ?thesis using ch t by simp
  next
    case (Some q)
    then have q: "cred_inv t (add_mset q rs) ex" "same_views s t rs" "view t q = view s p" "q \<notin># rs" using t by simp_all
    obtain d where d: "cred_heap t q = Some d" using held [OF q(1), of q] by auto
    note o = own_change [OF q(1,4) d f]
    have "cred_change f new (Some p) s = Some (Some q, t\<lparr>cred_heap := (cred_heap t)(q \<mapsto> f d)\<rparr>)"
      unfolding ch using Some d by simp
    then show ?thesis using o q by (simp add: same_views_def)
  qed
qed

text \<open>A new list of groups, and the exchange of lists.\<close>

lemma groups_alloc_ok:
  assumes inv: "cred_inv s rs ex" and new: "fresh (Some g) (grp_heap s)" and n: "0 < n"
  shows "\<exists>s'. groups_alloc (Some g) n s = Some (Some g, s') \<and> cred_inv s' rs (add_mset g ex) \<and> cred_heap s' = cred_heap s \<and>
    grp_heap s' = (grp_heap s)(g \<mapsto> (1, replicate n 0)) \<and> (\<forall>a. view s' a = view s a)"
proof -
  let ?s = "s\<lparr>grp_heap := (grp_heap s)(g \<mapsto> (1, replicate n 0))\<rparr>"
  have g: "grp_heap s g = None" using new by (simp add: fresh_def)
  have cnt: "card (users s h) + count ex h = (case grp_heap s h of None \<Rightarrow> 0 | Some (n, gs) \<Rightarrow> n)" for h
    using inv by (simp add: cred_inv_def)
  have rest: "finite (dom (cred_heap s))" "\<And>a. count rs a = (case cred_heap s a of None \<Rightarrow> 0 | Some c \<Rightarrow> cr_ref c)"
    "\<And>a c. cred_heap s a = Some c \<Longrightarrow> 0 < cr_ref c \<and> (\<exists>gs. groups_of s c = Some gs \<and> length gs = cr_ngroups c)"
    "\<And>g n gs. grp_heap s g = Some (n, gs) \<Longrightarrow> 0 < n \<and> gs \<noteq> []" using inv unfolding cred_inv_def by blast+
  have gr: "groups_of ?s c = groups_of s c" if c: "cred_heap s a = Some c" for a c
  proof (cases "cr_ngroups c = 0")
    case False
    then obtain h where "cr_groups c = Some h" "grp_heap s h \<noteq> None" using rest(3) [OF c] by (cases "cr_groups c") (auto simp: groups_of_def)
    then show ?thesis using g by (cases "h = g") (auto simp: groups_of_def)
  qed (simp add: groups_of_def)
  have c': "card (users s h) + count (add_mset g ex) h = (case grp_heap ?s h of None \<Rightarrow> 0 | Some (n, gs) \<Rightarrow> n)" for h
    using cnt [of h] g by auto
  have p': "0 < m \<and> xs \<noteq> []" if "grp_heap ?s h = Some (m, xs)" for h m xs
    using that rest(4) n by (auto split: if_splits)
  have "cred_inv ?s rs (add_mset g ex)" unfolding cred_inv_def
    using rest(1,2,3) gr c' p' by simp
  moreover have "view ?s a = view s a" for a
    using gr [of a] by (cases "cred_heap s a") (simp_all add: view_def)
  ultimately show ?thesis using n by (simp add: groups_alloc_def)
qed

lemma groups_swap:
  assumes inv: "cred_inv s (add_mset q rs) (ex + own (Some d))" and c: "cred_heap s q = Some c" and q: "q \<notin># rs"
    and d: "groups_of s d = Some ds" "length ds = cr_ngroups d" "cr_ref d = cr_ref c"
  shows "\<exists>t. (if cr_ngroups c \<noteq> 0 then groups_unref (cr_groups c) (cr_ngroups c) s else Some s) = Some t \<and> cred_heap t = cred_heap s \<and>
    cred_inv (t\<lparr>cred_heap := (cred_heap s)(q \<mapsto> d)\<rparr>) (add_mset q rs) ex \<and>
    same_views s (t\<lparr>cred_heap := (cred_heap s)(q \<mapsto> d)\<rparr>) rs \<and> groups_of t d = Some ds"
proof -
  obtain gs where g: "cr_ref c = count (add_mset q rs) q" "groups_of s c = Some gs" "length gs = cr_ngroups c"
    using held [OF inv, of q] c by auto
  let ?s = "s\<lparr>cred_heap := (cred_heap s)(q := Some d)\<rparr>"
  have nz: "0 < cr_ref c" using g(1) by simp
  have i1: "cred_inv ?s (add_mset q rs) (ex + own (Some c))"
    using g(1) c d nz by (intro cred_upd [OF inv]) (auto simp: ac_simps)
  have v1: "view ?s a = view s a" if "a \<in># rs" for a using that q by (cases "a = q") auto
  show ?thesis
  proof (rule groups_of_own [OF g(2,3)])
    assume o: "cr_ngroups c = 0" "own (Some c) = {#}"
    then show ?thesis using i1 v1 d by (simp add: same_views_def)
  next
    fix h n assume o: "0 < cr_ngroups c" "own (Some c) = {#h#}" "cr_groups c = Some h" "grp_heap s h = Some (n, gs)"
    have "cred_inv ?s (add_mset q rs) (add_mset h ex)" using i1 o by simp
    from groups_unref_ok [OF this, of "cr_ngroups c"] o(4) g(3) obtain t where
      t: "groups_unref (Some h) (cr_ngroups c) ?s = Some t" "cred_inv t (add_mset q rs) ex" "cred_heap t = (cred_heap s)(q := Some d)"
      "\<forall>a c. cred_heap ?s a = Some c \<longrightarrow> groups_of t c = groups_of ?s c" by auto
    obtain t0 where t0: "groups_unref (Some h) (cr_ngroups c) s = Some t0" "t = t0\<lparr>cred_heap := (cred_heap s)(q := Some d)\<rparr>"
      using t(1) groups_frame(2) [of "Some h" "cr_ngroups c" "(cred_heap s)(q := Some d)" s] by auto
    have "cred_heap t0 = cred_heap s" using t0(1) by (auto simp: groups_unref_def split: bind_splits if_splits)
    moreover have "view t a = view s a" if "a \<in># rs" for a
      using that q t(3) t(4) [rule_format, of a] by (cases "a = q"; cases "cred_heap s a") (auto simp: view_def)
    moreover have "groups_of t0 d = Some ds" using t(4) [rule_format, of q d] t0(2) d(1) by simp
    ultimately show ?thesis using t0 t(2) o by (auto simp: same_views_def)
  qed
qed

text \<open>The step of \<open>cred_setgrp\<close> once the caller's credentials are its own.\<close>

lemma setgrp_own:
  assumes inv: "cred_inv t (add_mset q rs) (ex + own (Some (no_cred\<lparr>cr_ngroups := n, cr_groups := g\<rparr>)))" and q: "q \<notin># rs"
    and new: "groups_of t (no_cred\<lparr>cr_ngroups := n, cr_groups := g\<rparr>) = Some (replicate n 0)"
  shows "\<exists>s'. do {
         c \<leftarrow> deref (cred_heap t) (Some q);
         s \<leftarrow> (if cr_ngroups c \<noteq> 0 then groups_unref (cr_groups c) (cr_ngroups c) t else Some t);
         h \<leftarrow> modify (cred_heap s) (Some q) (\<lambda>c. c\<lparr>cr_ngroups := n, cr_groups := g\<rparr>);
         Some (Some q, s\<lparr>cred_heap := h\<rparr>)
       } = Some (Some q, s') \<and> cred_inv s' (add_mset q rs) ex \<and> same_views t s' rs \<and>
     view s' q = map_option (\<lambda>(c, _). (c\<lparr>cr_ngroups := n, cr_groups := g\<rparr>, Some (replicate n 0))) (view t q)"
proof -
  obtain c where c: "cred_heap t q = Some c" using held [OF inv, of q] by auto
  let ?d = "c\<lparr>cr_ngroups := n, cr_groups := g\<rparr>"
  have e: "own (Some ?d) = own (Some (no_cred\<lparr>cr_ngroups := n, cr_groups := g\<rparr>))"
    "groups_of u ?d = groups_of u (no_cred\<lparr>cr_ngroups := n, cr_groups := g\<rparr>)" for u
    by (simp_all add: own_def groups_of_def)
  have "cred_inv t (add_mset q rs) (ex + own (Some ?d))" using inv e by simp
  from groups_swap [OF this c q, of "replicate n 0"] new e obtain u where
    u: "(if cr_ngroups c \<noteq> 0 then groups_unref (cr_groups c) (cr_ngroups c) t else Some t) = Some u" "cred_heap u = cred_heap t"
    "cred_inv (u\<lparr>cred_heap := (cred_heap t)(q \<mapsto> ?d)\<rparr>) (add_mset q rs) ex" "same_views t (u\<lparr>cred_heap := (cred_heap t)(q \<mapsto> ?d)\<rparr>) rs"
    "groups_of u ?d = Some (replicate n 0)" by auto
  have m: "modify (cred_heap t) (Some q) (\<lambda>c. c\<lparr>cr_ngroups := n, cr_groups := g\<rparr>) = Some ((cred_heap t)(q \<mapsto> ?d))"
    using c by simp
  show ?thesis unfolding c deref_simps Option.bind.bind_lunit u(1,2) m
    using u c by (simp add: view_def)
qed

lemma groups_ref_lists: "groups_ref p s = Some s' \<Longrightarrow> cred_heap s' = cred_heap s \<and> map_option snd (grp_heap s' h) = map_option snd (grp_heap s h)"
  by (auto simp: groups_ref_def modify_eq_Some split: bind_splits if_splits)

lemma cred_copy_lists:
  assumes "cred_copy new (Some p) s = Some (r, u)" "cred_heap s p = Some c" "1 < cr_ref c" "fresh new (cred_heap s)"
  shows "map_option snd (grp_heap u h) = map_option snd (grp_heap s h)"
proof (cases new)
  case None
  then show ?thesis using assms(1-3) by (auto simp: cred_copy_def cred_alloc_def)
next
  case (Some q)
  then have "q \<noteq> p" using assms(2,4) by (auto simp: fresh_def)
  define s1 where "s1 = s\<lparr>cred_heap := (cred_heap s)(q \<mapsto> c\<lparr>cr_ref := 1\<rparr>)\<rparr>"
  obtain s2 where s2: "(if cr_ngroups c > 0 then groups_ref (cr_groups c) s1 else Some s1) = Some s2" "cred_unref (Some p) s2 = Some u"
    using assms(1-3) Some by (cases "cr_ngroups c > 0") (auto simp: cred_copy_def cred_alloc_def s1_def Let_def split: bind_splits)
  have f: "cred_heap s2 = cred_heap s1 \<and> map_option snd (grp_heap s2 h) = map_option snd (grp_heap s1 h)"
    using s2(1) groups_ref_lists [of "cr_groups c" s1 s2 h] by (auto split: if_splits)
  then have "cred_heap s2 p = Some c" using assms(2) \<open>q \<noteq> p\<close> by (simp add: s1_def)
  then have "grp_heap u = grp_heap s2" using s2(2) assms(3) by (auto simp: cred_unref_def)
  then show ?thesis using f by (simp add: s1_def)
qed

lemma cred_setgrp_ok:
  assumes inv: "cred_inv s (add_mset p rs) {#}" and new: "fresh new (cred_heap s)" and gnew: "fresh gnew (grp_heap s)"
  shows "\<exists>q s'. cred_setgrp gnew new (Some p) n s = Some (q, s') \<and> (case q of None \<Rightarrow> s' = s \<and> (new = None \<or> gnew = None)
    | Some q \<Rightarrow> cred_inv s' (add_mset q rs) {#} \<and> same_views s s' rs \<and>
        view s' q = map_option (\<lambda>(c, _). (c\<lparr>cr_ngroups := n, cr_groups := if n = 0 then None else gnew\<rparr>, Some (replicate n 0))) (view s p))"
proof -
  obtain c where c: "cred_heap s p = Some c" "cr_ref c = count (add_mset p rs) p" using held [OF inv, of p] by auto
  have nz: "(cr_ref c = 0) = False" using c(2) by simp
  show ?thesis
  proof (cases "n > 0 \<and> gnew = None")
    case True
    then show ?thesis using c(1) nz by (simp add: cred_setgrp_def groups_alloc_def)
  next
    case False
    define g where "g = (if n = 0 then None else gnew)"
    let ?e = "no_cred\<lparr>cr_ngroups := n, cr_groups := g\<rparr>"
    obtain t where t: "(if n > 0 then groups_alloc gnew n s else Some (None, s)) = Some (g, t)"
      "cred_inv t (add_mset p rs) (own (Some ?e))" "cred_heap t = cred_heap s" "\<forall>a. view t a = view s a"
      "n > 0 \<longrightarrow> grp_heap t = (grp_heap s)(the g \<mapsto> (1, replicate n 0))" "n = 0 \<longrightarrow> t = s"
    proof (cases "n = 0")
      case True
      then show ?thesis using inv that [of s] by (simp add: g_def own_def)
    next
      case n: False
      then obtain h where h: "gnew = Some h" using False by auto
      from groups_alloc_ok [OF inv, of h n] gnew h n show ?thesis using that by (auto simp: g_def own_def)
    qed
    have ng: "(n > 0 \<and> g = None) = False" using False by (auto simp: g_def)
    have newt: "fresh new (cred_heap t)" using new t(3) by simp
    from cred_private [OF t(2) newt] c(1) t(3) obtain r u where
      u: "(if cr_ref c > 1 then cred_copy new (Some p) t else Some (Some p, t)) = Some (r, u)"
      "case r of None \<Rightarrow> new = None \<and> u = t
       | Some q \<Rightarrow> cred_inv u (add_mset q rs) (own (Some ?e)) \<and> same_views t u rs \<and> view u q = view t p \<and> q \<notin># rs" by auto
    let ?tail = "\<lambda>q s. do {
           c \<leftarrow> deref (cred_heap s) q;
           s \<leftarrow> (if cr_ngroups c \<noteq> 0 then groups_unref (cr_groups c) (cr_ngroups c) s else Some s);
           h \<leftarrow> modify (cred_heap s) q (\<lambda>c. c\<lparr>cr_ngroups := n, cr_groups := g\<rparr>);
           Some (q, s\<lparr>cred_heap := h\<rparr>)
         }"
    have e: "cred_setgrp gnew new (Some p) n s = (if r = None then do {
           s \<leftarrow> (if g \<noteq> None then groups_unref g n u else Some u);
           Some (None, s)
         } else ?tail r u)"
      unfolding cred_setgrp_def c(1) deref_simps Option.bind.bind_lunit nz if_False t(1) prod.case ng u(1) by (rule refl)
    show ?thesis
    proof (cases r)
      case None
      then have "new = None" "u = t" using u(2) by simp_all
      have "(if g \<noteq> None then groups_unref g n u else Some u) = Some s"
      proof (cases "n = 0")
        case True
        then show ?thesis using t(6) \<open>u = t\<close> by (simp add: g_def)
      next
        case n: False
        then obtain h where h: "gnew = Some h" "g = Some h" using False by (auto simp: g_def)
        then have "grp_heap t = (grp_heap s)(h \<mapsto> (1, replicate n 0))" "grp_heap s h = None"
          using t(5) n gnew by (simp_all add: fresh_def)
        moreover from this have "t\<lparr>grp_heap := grp_heap s\<rparr> = s" "(grp_heap s)(h := None) = grp_heap s"
          using t(3) by (auto simp: fun_upd_idem)
        ultimately show ?thesis using h n \<open>u = t\<close> by (simp add: groups_unref_def)
      qed
      then show ?thesis using e None \<open>new = None\<close> by simp
    next
      case (Some q)
      then have q: "cred_inv u (add_mset q rs) (own (Some ?e))" "same_views t u rs" "view u q = view t p" "q \<notin># rs" using u(2) by simp_all
      have same: "map_option snd (grp_heap u h) = map_option snd (grp_heap t h)" for h
      proof (cases "cr_ref c > 1")
        case True
        then have "cred_copy new (Some p) t = Some (r, u)" using u(1) by simp
        from cred_copy_lists [OF this _ True newt] c(1) t(3) show ?thesis by simp
      qed (use u(1) in auto)
      have "groups_of u ?e = Some (replicate n 0)"
      proof (cases "n = 0")
        case n: False
        then obtain h where h: "g = Some h" using False by (auto simp: g_def)
        then show ?thesis using same [of h] t(5) n by (simp add: groups_of_def)
      qed (simp add: groups_of_def)
      with setgrp_own [of u q rs "{#}" g n] q obtain s' where s': "?tail (Some q) u = Some (Some q, s')" "cred_inv s' (add_mset q rs) {#}"
        "same_views u s' rs" "view s' q = map_option (\<lambda>(c, _). (c\<lparr>cr_ngroups := n, cr_groups := g\<rparr>, Some (replicate n 0))) (view u q)"
        by auto
      show ?thesis using e Some s' q t(4) by (auto simp: same_views_def g_def)
    qed
  qed
qed

section \<open>Reference counting as an interface\<close>

text \<open>
  What holders rely on, of credentials as of lists of groups: a reference can be added to and taken from an object that is in use,
  and changes its count alone.
\<close>

primrec ref_run :: "('a \<Rightarrow> 's \<Rightarrow> 's option) \<Rightarrow> ('a \<Rightarrow> 's \<Rightarrow> 's option) \<Rightarrow> (bool \<times> 'a) list \<Rightarrow> 's \<Rightarrow> 's option" where
  "ref_run ref unref [] s = Some s"
| "ref_run ref unref (x # xs) s = do { s \<leftarrow> (if fst x then ref (snd x) s else unref (snd x) s); ref_run ref unref xs s }"

definition tally :: "bool \<times> 'a \<Rightarrow> ('a \<Rightarrow> nat) \<Rightarrow> 'a \<Rightarrow> nat" where
  "tally x k = k(snd x := if fst x then k (snd x) + 1 else k (snd x) - 1)"

text \<open>Holders who use and release only what is held at that time.\<close>

primrec fair :: "('a \<Rightarrow> nat) \<Rightarrow> (bool \<times> 'a) list \<Rightarrow> bool" where
  "fair k [] \<longleftrightarrow> True"
| "fair k (x # xs) \<longleftrightarrow> 0 < k (snd x) \<and> fair (tally x k) xs"

locale refcount =
  fixes ok :: "'s \<Rightarrow> bool" and cnt :: "'s \<Rightarrow> 'a \<Rightarrow> nat" and ref unref :: "'a \<Rightarrow> 's \<Rightarrow> 's option"
  assumes ref_law: "ok s \<Longrightarrow> 0 < cnt s a \<Longrightarrow> \<exists>s'. ref a s = Some s' \<and> ok s' \<and> cnt s' = (cnt s)(a := cnt s a + 1)"
    and unref_law: "ok s \<Longrightarrow> 0 < cnt s a \<Longrightarrow> \<exists>s'. unref a s = Some s' \<and> ok s' \<and> cnt s' = (cnt s)(a := cnt s a - 1)"
begin

lemma run_counts:
  "ok s \<Longrightarrow> fair (cnt s) xs \<Longrightarrow> \<exists>s'. ref_run ref unref xs s = Some s' \<and> ok s' \<and> cnt s' = fold tally xs (cnt s)"
proof (induction xs arbitrary: s)
  case Nil
  then show ?case by simp
next
  case (Cons x xs)
  then have k: "0 < cnt s (snd x)" by simp
  obtain t where t: "(if fst x then ref (snd x) s else unref (snd x) s) = Some t" "ok t" "cnt t = tally x (cnt s)"
    using ref_law [OF Cons.prems(1) k] unref_law [OF Cons.prems(1) k] by (cases "fst x") (auto simp: tally_def)
  from Cons.IH [OF t(2)] Cons.prems(2) t(3) show ?case unfolding ref_run.simps t(1) by simp
qed

lemma not_freed_early:
  assumes "ok s" "0 < cnt s a" "\<And>x. x \<in> set xs \<Longrightarrow> snd x = a \<Longrightarrow> fst x" "fair (cnt s) xs"
  shows "\<exists>s'. ref_run ref unref xs s = Some s' \<and> cnt s a \<le> cnt s' a"
proof -
  have "k a \<le> fold tally xs k a" if "\<And>x. x \<in> set xs \<Longrightarrow> snd x = a \<Longrightarrow> fst x" for k using that
  proof (induction xs arbitrary: k)
    case (Cons x xs)
    then have "k a \<le> tally x k a" by (auto simp: tally_def)
    also have "\<dots> \<le> fold tally xs (tally x k) a" using Cons by simp
    finally show ?case by simp
  qed simp
  then show ?thesis using run_counts [OF assms(1,4)] assms(3) by auto
qed

end

definition cred_count :: "creds \<Rightarrow> addr \<Rightarrow> nat" where
  "cred_count s a = (case cred_heap s a of None \<Rightarrow> 0 | Some c \<Rightarrow> cr_ref c)"

definition grp_count :: "creds \<Rightarrow> addr \<Rightarrow> nat" where
  "grp_count s g = (case grp_heap s g of None \<Rightarrow> 0 | Some (n, gs) \<Rightarrow> n)"

lemma cred_inv_count: "cred_inv s rs ex \<Longrightarrow> cred_count s = count rs"
  by (simp add: cred_inv_def cred_count_def fun_eq_iff)

interpretation cr: refcount "\<lambda>s. \<exists>rs. cred_inv s rs {#}" cred_count "\<lambda>p. cred_ref (Some p)" "\<lambda>p. cred_unref (Some p)"
proof (unfold_locales; elim exE)
  fix s p rs assume i: "cred_inv s rs {#}" and k: "0 < cred_count s p"
  then have p: "p \<in># rs" by (simp add: cred_inv_count)
  from cred_ref_ok [OF i p] obtain s' where s': "cred_ref (Some p) s = Some s'" "cred_inv s' (add_mset p rs) {#}" by blast
  then show "\<exists>s'. cred_ref (Some p) s = Some s' \<and> (\<exists>rs. cred_inv s' rs {#}) \<and> cred_count s' = (cred_count s)(p := cred_count s p + 1)"
    using cred_inv_count [OF i] cred_inv_count [OF s'(2)] by (auto simp: fun_eq_iff)
  from p obtain rs' where rs: "rs = add_mset p rs'" by (metis insert_DiffM)
  from cred_unref_ok [OF i [unfolded rs]] obtain s' where s': "cred_unref (Some p) s = Some s'" "cred_inv s' rs' {#}" by blast
  then show "\<exists>s'. cred_unref (Some p) s = Some s' \<and> (\<exists>rs. cred_inv s' rs {#}) \<and> cred_count s' = (cred_count s)(p := cred_count s p - 1)"
    using cred_inv_count [OF i] cred_inv_count [OF s'(2)] by (auto simp: fun_eq_iff rs)
qed

interpretation gr: refcount "\<lambda>s. \<forall>g n gs. grp_heap s g = Some (n, gs) \<longrightarrow> 0 < n \<and> gs \<noteq> []" grp_count
  "\<lambda>g. groups_ref (Some g)" "\<lambda>g s. groups_unref (Some g) (case grp_heap s g of None \<Rightarrow> 0 | Some (n, gs) \<Rightarrow> length gs) s"
  by unfold_locales (auto simp: groups_ref_def groups_unref_def grp_count_def fun_eq_iff split: option.splits)

section \<open>Properties\<close>

text \<open>Each routine that sets ids changes those of its caller only: it returns credentials with the new ids and the old groups,
  which nobody else holds, all other holders see what they saw, and every count is again the number of holders; when memory for a copy is wanting, it returns NULL and nothing has changed.\<close>

theorem set_ids_private:
  assumes "cred_inv s (add_mset p rs) {#}" "fresh new (cred_heap s)" "(op, change) \<in> id_setters new (Some p) uid gid"
  shows "\<exists>q s'. op s = Some (q, s') \<and> (case q of None \<Rightarrow> new = None \<and> s' = s
    | Some q \<Rightarrow> cred_inv s' (add_mset q rs) {#} \<and> q \<notin># rs \<and> view s' q = map_option (map_prod change id) (view s p) \<and>
        (\<forall>r. r \<in># rs \<longrightarrow> view s' r = view s r))"
proof -
  from cred_change_ok [OF assms(1,2) id_settersD(2) [OF assms(3)]] obtain q s' where
    "op s = Some (q, s')" "case q of None \<Rightarrow> new = None \<and> s' = s
      | Some q \<Rightarrow> cred_inv s' (add_mset q rs) {#} \<and> same_views s s' rs \<and> view s' q = map_option (map_prod change id) (view s p) \<and> q \<notin># rs"
    unfolding id_settersD(1) [OF assms(3)] by blast
  then show ?thesis by (cases q) (auto simp: same_views_def)
qed

text \<open>\<open>cred_setgrp\<close> gives its caller room for \<open>n\<close> groups, all zero, in credentials of the same ids, and
  releases its reference to the old list; other holders see what they saw and all counts are right. Without memory it returns NULL
  and changes nothing.\<close>

theorem cred_setgrp_private:
  assumes "cred_inv s (add_mset p rs) {#}" "fresh new (cred_heap s)" "fresh gnew (grp_heap s)"
  shows "\<exists>q s'. cred_setgrp gnew new (Some p) n s = Some (q, s') \<and> (case q of None \<Rightarrow> s' = s \<and> (new = None \<or> gnew = None)
    | Some q \<Rightarrow> cred_inv s' (add_mset q rs) {#} \<and>
        view s' q = map_option (\<lambda>(c, _). (c\<lparr>cr_ngroups := n, cr_groups := if n = 0 then None else gnew\<rparr>, Some (replicate n 0))) (view s p) \<and>
        (\<forall>r. r \<in># rs \<longrightarrow> view s' r = view s r))"
proof -
  from cred_setgrp_ok [OF assms, where n = n] obtain q s' where
    "cred_setgrp gnew new (Some p) n s = Some (q, s')" "case q of None \<Rightarrow> s' = s \<and> (new = None \<or> gnew = None)
    | Some q \<Rightarrow> cred_inv s' (add_mset q rs) {#} \<and> same_views s s' rs \<and>
        view s' q = map_option (\<lambda>(c, _). (c\<lparr>cr_ngroups := n, cr_groups := if n = 0 then None else gnew\<rparr>, Some (replicate n 0))) (view s p)"
    by blast
  then show ?thesis by (cases q) (auto simp: same_views_def)
qed

text \<open>C26: However holders take and release references, as long as each uses only what is held, no call faults, and credentials are freed
  exactly when the last reference is gone.\<close>

theorem cred_freed_last:
  assumes "cred_inv s rs {#}" "fair (count rs) xs"
  shows "\<exists>s'. ref_run (\<lambda>p. cred_ref (Some p)) (\<lambda>p. cred_unref (Some p)) xs s = Some s' \<and>
    (\<forall>a. (cred_heap s' a = None) = (fold tally xs (count rs) a = 0))"
proof -
  have "\<exists>rs. cred_inv s rs {#}" "fair (cred_count s) xs" using assms by (auto simp: cred_inv_count)
  from cr.run_counts [OF this] obtain s' rs' where s': "ref_run (\<lambda>p. cred_ref (Some p)) (\<lambda>p. cred_unref (Some p)) xs s = Some s'"
    "cred_inv s' rs' {#}" "cred_count s' = fold tally xs (cred_count s)" by blast
  have "(cred_heap s' a = None) = (cred_count s' a = 0)" for a
    using s'(2) by (auto simp: cred_inv_def cred_count_def split: option.split)
  then show ?thesis using s' assms(1) by (auto simp: cred_inv_count)
qed

section \<open>Examples\<close>

text \<open>Credentials at 10, with two holders, and a list of two groups at 20.\<close>

definition example_creds :: creds where
  "example_creds = \<lparr>cred_heap = [10 \<mapsto> no_cred\<lparr>cr_ref := 2, cr_uid := 5, cr_ruid := 5, cr_suid := 5, cr_ngroups := 2, cr_groups := Some 20\<rparr>],
     grp_heap = [20 \<mapsto> (1, [50, 60])]\<rparr>"

lemma example_creds_inv: "cred_inv example_creds {#10, 10#} {#}"
proof -
  have u: "users example_creds g = (if g = 20 then {10} else {})" for g by (auto simp: users_def example_creds_def)
  show ?thesis by (auto simp: cred_inv_def u groups_of_def) (auto simp: example_creds_def split: if_splits)
qed

theorem set_ids_private_witness:
  "\<exists>q s'. cred_newuid (Some 11) (Some 10) 7 example_creds = Some (q, s') \<and> (case q of None \<Rightarrow> (Some 11 :: ptr) = None \<and> s' = example_creds
    | Some q \<Rightarrow> cred_inv s' {#q, 10#} {#} \<and> q \<noteq> 10 \<and>
        view s' q = map_option (map_prod (\<lambda>c. c\<lparr>cr_uid := 7, cr_ruid := 7, cr_suid := 7\<rparr>) id) (view example_creds 10) \<and>
        view s' 10 = view example_creds 10)"
proof -
  have i: "cred_inv example_creds (add_mset 10 {#10#}) {#}" using example_creds_inv by simp
  have f: "fresh (Some 11) (cred_heap example_creds)" by (simp add: fresh_def example_creds_def)
  have m: "(cred_newuid (Some 11) (Some 10) 7, \<lambda>c. c\<lparr>cr_uid := 7, cr_ruid := 7, cr_suid := 7\<rparr>) \<in> id_setters (Some 11) (Some 10) 7 0"
    by (simp add: id_setters_def)
  from set_ids_private [OF i f m] obtain q s' where
    "cred_newuid (Some 11) (Some 10) 7 example_creds = Some (q, s')"
    "case q of None \<Rightarrow> (Some 11 :: ptr) = None \<and> s' = example_creds
    | Some q \<Rightarrow> cred_inv s' (add_mset q {#10#}) {#} \<and> q \<notin># {#10#} \<and>
        view s' q = map_option (map_prod (\<lambda>c. c\<lparr>cr_uid := 7, cr_ruid := 7, cr_suid := 7\<rparr>) id) (view example_creds 10) \<and>
        (\<forall>r. r \<in># {#10#} \<longrightarrow> view s' r = view example_creds r)" by blast
  then show ?thesis by (cases q) auto
qed

theorem cred_setgrp_private_witness:
  "\<exists>q s'. cred_setgrp (Some 21) (Some 11) (Some 10) 3 example_creds = Some (q, s') \<and> (case q of None \<Rightarrow> s' = example_creds \<and> ((Some 11 :: ptr) = None \<or> (Some 21 :: ptr) = None)
    | Some q \<Rightarrow> cred_inv s' {#q, 10#} {#} \<and> view s' 10 = view example_creds 10)"
proof -
  have i: "cred_inv example_creds (add_mset 10 {#10#}) {#}" using example_creds_inv by simp
  have f: "fresh (Some 11) (cred_heap example_creds)" "fresh (Some 21) (grp_heap example_creds)"
    by (simp_all add: fresh_def example_creds_def)
  from cred_setgrp_private [OF i f, of 3] obtain q s' where
    "cred_setgrp (Some 21) (Some 11) (Some 10) 3 example_creds = Some (q, s')"
    "case q of None \<Rightarrow> s' = example_creds \<and> ((Some 11 :: ptr) = None \<or> (Some 21 :: ptr) = None)
    | Some q \<Rightarrow> cred_inv s' (add_mset q {#10#}) {#} \<and>
        view s' q = map_option (\<lambda>(c, _). (c\<lparr>cr_ngroups := 3, cr_groups := if (3::nat) = 0 then None else Some 21\<rparr>, Some (replicate 3 0))) (view example_creds 10) \<and>
        (\<forall>r. r \<in># {#10#} \<longrightarrow> view s' r = view example_creds r)" by blast
  then show ?thesis by (cases q) auto
qed

theorem cred_freed_last_witness:
  "\<exists>s'. ref_run (\<lambda>p. cred_ref (Some p)) (\<lambda>p. cred_unref (Some p)) [(False, 10), (True, 10), (False, 10), (False, 10)] example_creds = Some s' \<and>
    cred_heap s' 10 = None"
proof -
  have f: "fair (count {#10, 10#}) [(False, 10), (True, 10), (False, 10), (False, 10)]"
    and t: "fold tally [(False, 10), (True, 10), (False, 10), (False, 10)] (count {#10, 10#}) 10 = 0"
    by (simp_all add: tally_def)
  show ?thesis using cred_freed_last [OF example_creds_inv f] t by blast
qed

end
