(* ===== verification/Msg.thy ===== *)
theory Msg
  imports Ipc "HOL-Library.Multiset"
begin

text \<open>
  System V messages, \<open>conf/msg/src/msg386.c\<close>. A queue is the list of the headers that follow \<open>msg_first\<close> (\<open>msg_last\<close>, which
  nothing reads, is left out); the texts are in the map \<open>msg_map\<close>, found by the number in the header. Limits are
  parameters, save \<open>NMSQB\<close>, which \<open>IPC_SET\<close> changes. A gate that is found locked blocks its caller for good, since no other
  process runs meanwhile; while a caller sleeps in \<open>x_sleep\<close> the others act as a script says. \<open>kalloc\<close> of no bytes is a panic (\<open>coh.386/alloc.c\<close>),
  here a fault.
\<close>

section \<open>State\<close>

record msg_cfg =
  NMSQID :: nat
  NMSG :: int
  NMSC :: int
  IPC_PRIVATE :: int

type_synonym text_bytes = "nat list"

record msg =
  msg_type :: int
  msg_ts :: int
  msg_spot :: nat

text \<open>\<open>msg_rwait\<close> and \<open>msg_wwait\<close> are the bits \<open>MSG_RWAIT\<close> and \<open>MSG_WWAIT\<close> of the mode.\<close>

record msqid_ds =
  msg_perm :: ipc_perm
  msg_first :: "msg list"
  msg_cbytes :: int
  msg_qnum :: int
  msg_qbytes :: int
  msg_lspid :: nat
  msg_lrpid :: nat
  msg_stime :: int
  msg_rtime :: int
  msg_ctime :: int
  msg_rwait :: bool
  msg_wwait :: bool

text \<open>\<open>msg_log\<close> records the wakeups, by the number of the queue.\<close>

record msgs =
  msqs :: "msqid_ds list option"
  msg_gate :: "bool list"
  msg_map :: "text_bytes option list"
  NMSQB :: int
  msg_log :: "nat list"

definition queue_at :: "msgs \<Rightarrow> nat \<Rightarrow> msqid_ds option" where
  "queue_at s q = (case msqs s of None \<Rightarrow> None | Some ds \<Rightarrow> if q < length ds then Some (ds ! q) else None)"

definition queue_put :: "msgs \<Rightarrow> nat \<Rightarrow> msqid_ds \<Rightarrow> msgs" where
  "queue_put s q d = s\<lparr>msqs := map_option (\<lambda>ds. ds[q := d]) (msqs s)\<rparr>"

abbreviation gate_lock :: "nat \<Rightarrow> msgs \<Rightarrow> msgs" where
  "gate_lock q s \<equiv> s\<lparr>msg_gate := (msg_gate s)[q := True]\<rparr>"

abbreviation gate_unlock :: "nat \<Rightarrow> msgs \<Rightarrow> msgs" where
  "gate_unlock q s \<equiv> s\<lparr>msg_gate := (msg_gate s)[q := False]\<rparr>"

abbreviation queue_alloc :: "msqid_ds \<Rightarrow> bool" where
  "queue_alloc d \<equiv> ip_alloc (msg_perm d)"

abbreviation queue_seq :: "msqid_ds \<Rightarrow> nat" where
  "queue_seq d \<equiv> ip_seq (msg_perm d)"

definition MSG_READ :: perms where "MSG_READ = (\<lambda>_. {PREAD})"

definition MSG_WRITE :: perms where "MSG_WRITE = (\<lambda>_. {PWRITE})"

section \<open>Creation\<close>

definition init_queue :: "int \<Rightarrow> int \<Rightarrow> nat \<Rightarrow> msqid_ds" where
  "init_queue now qb i = \<lparr>msg_perm = \<lparr>ip_uid = 0, ip_gid = 0, ip_cuid = 0, ip_cgid = 0, ip_mode = (\<lambda>_. {}), ip_alloc = False, ip_key = 0, ip_seq = i\<rparr>,
     msg_first = [], msg_cbytes = 0, msg_qnum = 0, msg_qbytes = qb, msg_lspid = 0, msg_lrpid = 0, msg_stime = 0, msg_rtime = 0,
     msg_ctime = now, msg_rwait = False, msg_wwait = False\<rparr>"

text \<open>
  The arguments say what \<open>kalloc\<close> gives for the headers, the gates and the map; the map comes as it is found, since the \<open>memset\<close> that is to clear it
  has its arguments in the wrong order and clears nothing. The members \<open>uid\<close>, \<open>gid\<close> and \<open>key\<close>, which \<open>umsgget\<close> sets, are shown as zero.
\<close>

definition msginit :: "msg_cfg \<Rightarrow> int \<Rightarrow> bool \<Rightarrow> bool \<Rightarrow> text_bytes option list option \<Rightarrow> msgs \<Rightarrow> int \<times> msgs" where
  "msginit c now mem1 mem2 mem3 s =
     (if \<not> mem1 then (- 1, s\<lparr>msqs := None\<rparr>)
      else if \<not> mem2 then (- 1, s\<lparr>msqs := None, msg_gate := []\<rparr>)
      else (case mem3 of None \<Rightarrow> (- 1, s\<lparr>msqs := None, msg_map := []\<rparr>)
        | Some m \<Rightarrow> (0, s\<lparr>msqs := Some (map (init_queue now (NMSQB s)) [0..<NMSQID c]), msg_gate := replicate (NMSQID c) False, msg_map := m\<rparr>)))"

primrec msg_scan :: "msg_cfg \<Rightarrow> int \<Rightarrow> nat \<Rightarrow> (nat \<times> int) option \<Rightarrow> msqid_ds list \<Rightarrow> nat + (nat \<times> int) option" where
  "msg_scan c key i fr [] = Inr fr"
| "msg_scan c key i fr (d # ds) =
     (if \<not> queue_alloc d then
        msg_scan c key (i + 1)
          (case fr of None \<Rightarrow> Some (i, msg_ctime d)
           | Some (f, t) \<Rightarrow> if t > msg_ctime d then Some (i, msg_ctime d) else fr) ds
      else if key = IPC_PRIVATE c then msg_scan c key (i + 1) fr ds
      else if ip_key (msg_perm d) \<noteq> key then msg_scan c key (i + 1) fr ds
      else Inl i)"

record msg_flags =
  g_creat :: bool
  g_excl :: bool
  g_mode :: perms

definition umsgget_found :: "nat \<Rightarrow> msg_flags \<Rightarrow> user \<Rightarrow> msgs \<Rightarrow> (int \<times> user \<times> msgs) option" where
  "umsgget_found i flg u s = do {
     d \<leftarrow> queue_at s i;
     if g_creat flg \<and> g_excl flg then Some (- 1, set_user_error EEXIST u, s)
     else let (lack, u) = ipc_lack_perm (msg_perm d) (g_mode flg) u
          in Some (if lack then - 1 else int (queue_seq d), u, s)
   }"

definition umsgget_create :: "int \<Rightarrow> int \<Rightarrow> msg_flags \<Rightarrow> (nat \<times> int) option \<Rightarrow> user \<Rightarrow> msgs \<Rightarrow> (int \<times> user \<times> msgs) option" where
  "umsgget_create now key flg fr u s =
     (if \<not> g_creat flg then Some (- 1, set_user_error ENOENT u, s)
      else (case fr of None \<Rightarrow> Some (- 1, set_user_error ENOSPC u, s)
        | Some (i, _) \<Rightarrow> do {
            d \<leftarrow> queue_at s i;
            let d = d\<lparr>msg_perm := (ipc_perm_init (g_mode flg) u (msg_perm d))\<lparr>ip_key := key\<rparr>, msg_ctime := now, msg_qnum := 0,
              msg_lspid := 0, msg_lrpid := 0, msg_stime := 0, msg_rtime := 0, msg_rwait := False, msg_wwait := False\<rparr>;
            Some (int (queue_seq d), u, queue_put s i d)
          }))"

definition umsgget ::
  "msg_cfg \<Rightarrow> int \<Rightarrow> bool \<Rightarrow> bool \<Rightarrow> text_bytes option list option \<Rightarrow> int \<Rightarrow> msg_flags \<Rightarrow> user \<Rightarrow> msgs \<Rightarrow> (int \<times> user \<times> msgs) option" where
  "umsgget c now mem1 mem2 mem3 mykey flg u s =
     (let (r, s) = (if msqs s = None then msginit c now mem1 mem2 mem3 s else (0, s))
      in if r \<noteq> 0 then Some (- 1, set_user_error ENOSPC u, s)
      else do {
        ds \<leftarrow> msqs s;
        (case msg_scan c mykey 0 None (take (NMSQID c) ds) of
           Inl i \<Rightarrow> umsgget_found i flg u s
         | Inr fr \<Rightarrow> umsgget_create now mykey flg fr u s)
      })"

section \<open>Control\<close>

definition msgfree :: "msg \<Rightarrow> msgs \<Rightarrow> msgs option" where
  "msgfree mp s = (if msg_spot mp < length (msg_map s) \<and> msg_map s ! msg_spot mp \<noteq> None
     then Some (s\<lparr>msg_map := (msg_map s)[msg_spot mp := None]\<rparr>) else None)"

primrec free_all :: "msg list \<Rightarrow> msgs \<Rightarrow> msgs option" where
  "free_all [] s = Some s"
| "free_all (m # ms) s = do { s \<leftarrow> msgfree m s; free_all ms s }"

text \<open>Whether the buffer for \<open>IPC_STAT\<close> can be written; the contents of the one for \<open>IPC_SET\<close>, or a fault: owner, group, mode and size.\<close>

datatype msg_cmd = is_stat: Msg_stat bool | Msg_set "(nat \<times> nat \<times> perms \<times> int) option" | Msg_rmid | Msg_other

definition msg_set :: "nat \<Rightarrow> msqid_ds \<Rightarrow> (nat \<times> nat \<times> perms \<times> int) option \<Rightarrow> user \<Rightarrow> msgs \<Rightarrow> user \<times> msgs" where
  "msg_set q d temp u s =
     (let (lvl, u) = ipc_cred_match (msg_perm d) u in
      if lvl \<noteq> CRED_OWNER then (set_user_error EPERM u, s)
      else (case temp of None \<Rightarrow> (set_user_error EFAULT u, s)
        | Some (uid, gid, mode, qbytes) \<Rightarrow>
            let (b, u) = (if qbytes > msg_qbytes d then super u else (True, u)) in
            if \<not> b then (set_user_error EPERM u, s)
            else (u, queue_put (s\<lparr>NMSQB := qbytes\<rparr>) q
              (d\<lparr>msg_perm := (msg_perm d)\<lparr>ip_uid := uid, ip_gid := gid, ip_mode := mode\<rparr>, msg_qbytes := qbytes\<rparr>))))"

definition msg_rmid :: "int \<Rightarrow> nat \<Rightarrow> msqid_ds \<Rightarrow> user \<Rightarrow> msgs \<Rightarrow> (user \<times> msgs) option" where
  "msg_rmid now q d u s =
     (let (lvl, u) = ipc_cred_match (msg_perm d) u in
      if lvl \<noteq> CRED_OWNER then Some (set_user_error EPERM u, s)
      else do {
        s \<leftarrow> free_all (msg_first d) s;
        Some (u, queue_put s q (d\<lparr>msg_first := [], msg_qnum := 0, msg_cbytes := 0,
          msg_perm := (msg_perm d)\<lparr>ip_mode := (\<lambda>_. {}), ip_alloc := False, ip_seq := (queue_seq d + 50) mod 65536\<rparr>,
          msg_ctime := now, msg_rwait := False, msg_wwait := False\<rparr>))
      })"

definition umsgctl :: "msg_cfg \<Rightarrow> int \<Rightarrow> int \<Rightarrow> msg_cmd \<Rightarrow> user \<Rightarrow> msgs \<Rightarrow> (int \<times> msqid_ds option \<times> user \<times> msgs) option" where
  "umsgctl c now qid cmd u s =
     (if qid < 0 then Some (- 1, None, set_user_error EINVAL u, s)
      else do {
        let q = nat qid mod NMSQID c;
        d \<leftarrow> queue_at s q;
        let (bad, u) = (if int (queue_seq d) \<noteq> qid \<or> \<not> queue_alloc d
           then (if \<not> is_stat cmd then (True, u) else let (b, u) = super u in (\<not> b, u)) else (False, u));
        if bad then Some (- 1, None, set_user_error EINVAL u, s)
        else do {
          (out, u, s) \<leftarrow> (case cmd of
             Msg_stat ok \<Rightarrow> (let (lack, u) = ipc_lack_perm (msg_perm d) MSG_READ u
                in Some (if lack \<or> \<not> ok then None else Some d, if \<not> lack \<and> \<not> ok then set_user_error EFAULT u else u, s))
           | Msg_set temp \<Rightarrow> (let (u, s) = msg_set q d temp u s in Some (None, u, s))
           | Msg_rmid \<Rightarrow> map_option (\<lambda>(u, s). (None, u, s)) (msg_rmid now q d u s)
           | Msg_other \<Rightarrow> Some (None, set_user_error EINVAL u, s));
          Some (if u_err u \<noteq> None then - 1 else 0, out, u, s)
        }
      })"

section \<open>Sending\<close>

primrec find_seq :: "int \<Rightarrow> nat \<Rightarrow> msqid_ds list \<Rightarrow> nat option" where
  "find_seq qid i [] = None"
| "find_seq qid i (d # ds) = (if int (queue_seq d) = qid then Some i else find_seq qid (i + 1) ds)"

text \<open>Waiting for room, with the gate held on entry; the flag of the result says that there is room, and the gate is then held.\<close>

fun send_wait :: "msg_cfg \<Rightarrow> nat \<Rightarrow> int \<Rightarrow> int \<Rightarrow> bool \<Rightarrow> msgs wake list \<Rightarrow> user \<Rightarrow> msgs \<Rightarrow> (msgs, bool \<times> user) outcome option" where
  "send_wait c q qid msgsz nowait ws u s = do {
     d \<leftarrow> queue_at s q;
     if msg_qnum d \<ge> NMSG c \<or> msg_qbytes d < msg_cbytes d + msgsz then
       (if nowait then Some (Done (gate_unlock q s) (False, set_user_error EAGAIN u))
        else
          let s = gate_unlock q (queue_put s q (d\<lparr>msg_wwait := True\<rparr>)) in
          (case ws of [] \<Rightarrow> Some (Blocked s)
           | w # ws \<Rightarrow>
               let s = fst w s in
               if snd w then Some (Done s (False, set_user_error EINTR u))
               else do {
                 d \<leftarrow> queue_at s q;
                 if qid \<noteq> int (queue_seq d) then Some (Done s (False, set_user_error EINVAL u))
                 else if msg_gate s ! q then Some (Blocked s)
                 else send_wait c q qid msgsz nowait ws u (gate_lock q s)
               }))
     else Some (Done s (True, u))
   }"

declare send_wait.simps [simp del]

primrec find_spot :: "nat \<Rightarrow> text_bytes option list \<Rightarrow> nat option" where
  "find_spot i [] = None"
| "find_spot i (x # xs) = (if x = None then Some i else find_spot (i + 1) xs)"

text \<open>
  Entering the message, with the gate held; \<open>mem1\<close> and \<open>mem2\<close> say whether \<open>kalloc\<close> finds memory, \<open>text\<close> is
  what \<open>ukcopy\<close> brings from the user, or a fault.
\<close>

definition send_store ::
  "msg_cfg \<Rightarrow> int \<Rightarrow> bool \<Rightarrow> bool \<Rightarrow> nat \<Rightarrow> int \<Rightarrow> int \<Rightarrow> text_bytes option \<Rightarrow> user \<Rightarrow> msgs \<Rightarrow> (int \<times> user \<times> msgs) option" where
  "send_store c now mem1 mem2 q typ msgsz text u s =
     (case find_spot 0 (take (NMSQID c * nat (NMSG c)) (msg_map s)) of
        None \<Rightarrow> Some (- 1, set_user_error ENOSPC u, s)
      | Some i \<Rightarrow>
          if \<not> mem1 then Some (- 1, set_user_error ENOSPC u, gate_unlock q s)
          else if msgsz = 0 then None
          else if \<not> mem2 then Some (- 1, set_user_error ENOSPC u, gate_unlock q s)
          else do {
            let mp = \<lparr>msg_type = typ, msg_ts = msgsz, msg_spot = i\<rparr>;
            let s = s\<lparr>msg_map := (msg_map s)[i := Some (case text of None \<Rightarrow> [] | Some t \<Rightarrow> t)]\<rparr>;
            let u = (if text = None then set_user_error EFAULT u else u);
            if u_err u \<noteq> None then do { s \<leftarrow> msgfree mp s; Some (- 1, u, gate_unlock q s) }
            else do {
              d \<leftarrow> queue_at s q;
              let d = d\<lparr>msg_first := msg_first d @ [mp], msg_cbytes := msg_cbytes d + msgsz, msg_qnum := msg_qnum d + 1,
                msg_lspid := p_pid u, msg_stime := now\<rparr>;
              let s = gate_unlock q (queue_put s q d);
              Some (0, u, if msg_rwait d then queue_put (s\<lparr>msg_log := msg_log s @ [q]\<rparr>) q (d\<lparr>msg_rwait := False\<rparr>) else s)
            }
          })"

definition umsgsnd ::
  "msg_cfg \<Rightarrow> int \<Rightarrow> bool \<Rightarrow> bool \<Rightarrow> int \<Rightarrow> int \<Rightarrow> int \<Rightarrow> text_bytes option \<Rightarrow> bool \<Rightarrow> msgs wake list \<Rightarrow> user \<Rightarrow> msgs \<Rightarrow>
   (msgs, int \<times> user) outcome option" where
  "umsgsnd c now mem1 mem2 qid typ msgsz text nowait ws u s = do {
     ds \<leftarrow> msqs s;
     (case find_seq qid 0 (take (NMSQID c) ds) of
        None \<Rightarrow> Some (Done s (- 1, set_user_error EINVAL u))
      | Some q \<Rightarrow> do {
          d \<leftarrow> queue_at s q;
          let (lack, u) = ipc_lack_perm (msg_perm d) MSG_WRITE u;
          if lack then Some (Done s (- 1, u))
          else if typ < 1 \<or> msgsz < 0 \<or> msgsz > NMSC c \<or> msgsz > NMSQB s then Some (Done s (- 1, set_user_error EINVAL u))
          else if msg_gate s ! q then Some (Blocked s)
          else do {
            r \<leftarrow> send_wait c q qid msgsz nowait ws u (gate_lock q s);
            (case r of Blocked s \<Rightarrow> Some (Blocked s)
             | Done s (go, u) \<Rightarrow>
                 if \<not> go then Some (Done s (- 1, u))
                 else map_option (\<lambda>(r, u, s). Done s (r, u)) (send_store c now mem1 mem2 q typ msgsz text u s))
          }
        })
   }"

section \<open>Receiving\<close>

text \<open>The three ways to look for a message, by its place in the queue.\<close>

fun find_lowest :: "int \<Rightarrow> nat \<Rightarrow> (nat \<times> int) option \<Rightarrow> msg list \<Rightarrow> nat option" where
  "find_lowest t i qmin [] = map_option fst qmin"
| "find_lowest t i qmin (m # ms) =
     (if msg_type m > t then find_lowest t (i + 1) qmin ms
      else find_lowest t (i + 1)
        (case qmin of None \<Rightarrow> Some (i, msg_type m) | Some (j, k) \<Rightarrow> if msg_type m < k then Some (i, msg_type m) else qmin) ms)"

primrec find_type :: "int \<Rightarrow> nat \<Rightarrow> msg list \<Rightarrow> nat option" where
  "find_type t i [] = None"
| "find_type t i (m # ms) = (if msg_type m = t then Some i else find_type t (i + 1) ms)"

definition find_msg :: "int \<Rightarrow> msg list \<Rightarrow> nat option" where
  "find_msg msgtyp ms = (if msgtyp < 0 then find_lowest (- msgtyp) 0 None ms
     else if msgtyp > 0 then find_type msgtyp 0 ms
     else if ms = [] then None else Some 0)"

fun recv_wait :: "nat \<Rightarrow> int \<Rightarrow> int \<Rightarrow> bool \<Rightarrow> msgs wake list \<Rightarrow> user \<Rightarrow> msgs \<Rightarrow> (msgs, nat option \<times> user) outcome option" where
  "recv_wait q qid msgtyp nowait ws u s = do {
     d \<leftarrow> queue_at s q;
     (case find_msg msgtyp (msg_first d) of
        Some i \<Rightarrow> Some (Done s (Some i, u))
      | None \<Rightarrow>
          if nowait then Some (Done (gate_unlock q s) (None, set_user_error ENOMSG u))
          else
            let s = gate_unlock q (queue_put s q (d\<lparr>msg_rwait := True\<rparr>)) in
            (case ws of [] \<Rightarrow> Some (Blocked s)
             | w # ws \<Rightarrow>
                 let s = fst w s in
                 if snd w then Some (Done s (None, set_user_error EINTR u))
                 else do {
                   d \<leftarrow> queue_at s q;
                   if qid \<noteq> int (queue_seq d) then Some (Done s (None, set_user_error EINVAL u))
                   else if msg_gate s ! q then Some (Blocked s)
                   else recv_wait q qid msgtyp nowait ws u (gate_lock q s)
                 }))
   }"

declare recv_wait.simps [simp del]

text \<open>Handing over message \<open>i\<close>, with the gate held; \<open>ok\<close> says that the user's buffer can be written.\<close>

definition recv_take ::
  "int \<Rightarrow> nat \<Rightarrow> nat \<Rightarrow> int \<Rightarrow> bool \<Rightarrow> bool \<Rightarrow> user \<Rightarrow> msgs \<Rightarrow> (int \<times> (int \<times> text_bytes) option \<times> user \<times> msgs) option" where
  "recv_take now q i msgsz noerror ok u s = do {
     d \<leftarrow> queue_at s q;
     if i \<ge> length (msg_first d) then None
     else do {
       let mp = msg_first d ! i;
       if msgsz < msg_ts mp \<and> \<not> noerror then Some (- 1, None, set_user_error E2BIG u, gate_unlock q s)
       else do {
         let msgsz = min msgsz (msg_ts mp);
         t \<leftarrow> (if msg_spot mp < length (msg_map s) then msg_map s ! msg_spot mp else None);
         let u = (if ok then u else set_user_error EFAULT u);
         if u_err u \<noteq> None then Some (- 1, None, u, gate_unlock q s)
         else do {
           let d = d\<lparr>msg_first := take i (msg_first d) @ drop (i + 1) (msg_first d), msg_cbytes := msg_cbytes d - msg_ts mp,
             msg_qnum := msg_qnum d - 1, msg_lrpid := p_pid u, msg_rtime := now\<rparr>;
           s \<leftarrow> msgfree mp (queue_put s q d);
           let s = gate_unlock q s;
           Some (msgsz, Some (msg_type mp, take (nat msgsz) t), u,
             if msg_wwait d then queue_put (s\<lparr>msg_log := msg_log s @ [q]\<rparr>) q (d\<lparr>msg_wwait := False\<rparr>) else s)
         }
       }
     }
   }"

definition umsgrcv ::
  "msg_cfg \<Rightarrow> int \<Rightarrow> int \<Rightarrow> int \<Rightarrow> int \<Rightarrow> bool \<Rightarrow> bool \<Rightarrow> bool \<Rightarrow> msgs wake list \<Rightarrow> user \<Rightarrow> msgs \<Rightarrow>
   (msgs, int \<times> (int \<times> text_bytes) option \<times> user) outcome option" where
  "umsgrcv c now qid msgsz msgtyp noerror nowait ok ws u s =
     (if qid < 0 \<or> msqs s = None then Some (Done s (- 1, None, set_user_error EINVAL u))
      else do {
        let q = nat qid mod NMSQID c;
        d \<leftarrow> queue_at s q;
        if int (queue_seq d) \<noteq> qid \<or> \<not> queue_alloc d then Some (Done s (- 1, None, set_user_error EINVAL u))
        else
          let (lack, u) = ipc_lack_perm (msg_perm d) MSG_READ u in
          if lack then Some (Done s (- 1, None, u))
          else if msg_gate s ! q then Some (Blocked s)
          else do {
            r \<leftarrow> recv_wait q qid msgtyp nowait ws u (gate_lock q s);
            (case r of Blocked s \<Rightarrow> Some (Blocked s)
             | Done s (None, u) \<Rightarrow> Some (Done s (- 1, None, u))
             | Done s (Some i, u) \<Rightarrow> map_option (\<lambda>(r, out, u, s). Done s (r, out, u)) (recv_take now q i msgsz noerror ok u s))
          }
      })"

section \<open>The system call\<close>

datatype msg_call = Msgget int msg_flags | Msgctl int msg_cmd | Msgrcv int int int bool bool bool
  | Msgsnd int int int "text_bytes option" bool | Msg_nosys

datatype msg_out = No_result | Stat_result "msqid_ds option" | Recv_result "(int \<times> text_bytes) option"

definition umsgsys ::
  "msg_cfg \<Rightarrow> int \<Rightarrow> bool \<Rightarrow> bool \<Rightarrow> text_bytes option list option \<Rightarrow> msg_call \<Rightarrow> msgs wake list \<Rightarrow> user \<Rightarrow> msgs \<Rightarrow>
   (msgs, int option \<times> msg_out \<times> user) outcome option" where
  "umsgsys c now mem1 mem2 mem3 call ws u s = (case call of
     Msgget key flg \<Rightarrow> map_option (\<lambda>(r, u, s). Done s (Some r, No_result, u)) (umsgget c now mem1 mem2 mem3 key flg u s)
   | Msgctl qid cmd \<Rightarrow> map_option (\<lambda>(r, d, u, s). Done s (Some r, Stat_result d, u)) (umsgctl c now qid cmd u s)
   | Msgrcv qid msgsz msgtyp noerror nowait ok \<Rightarrow>
       map_option (\<lambda>x. case x of Blocked s \<Rightarrow> Blocked s | Done s (r, out, u) \<Rightarrow> Done s (Some r, Recv_result out, u))
         (umsgrcv c now qid msgsz msgtyp noerror nowait ok ws u s)
   | Msgsnd qid typ msgsz text nowait \<Rightarrow>
       map_option (\<lambda>x. case x of Blocked s \<Rightarrow> Blocked s | Done s (r, u) \<Rightarrow> Done s (Some r, No_result, u))
         (umsgsnd c now mem1 mem2 qid typ msgsz text nowait ws u s)
   | Msg_nosys \<Rightarrow> Some (Done s (None, No_result, set_user_error EINVAL u)))"

section \<open>Invariant\<close>

text \<open>
  The messages of all queues and the map of texts: a spot of the map is in use exactly when it belongs to a message, to one only, and
  holds a text of the length in the header.
\<close>

definition map_ok :: "text_bytes option list \<Rightarrow> msg multiset \<Rightarrow> bool" where
  "map_ok m M \<longleftrightarrow> (\<forall>i. count (image_mset msg_spot M) i = (if i < length m \<and> m ! i \<noteq> None then 1 else 0)) \<and>
     (\<forall>mp. mp \<in># M \<longrightarrow> (\<exists>t. m ! msg_spot mp = Some t \<and> int (length t) = msg_ts mp))"

definition all_msgs :: "msqid_ds list \<Rightarrow> msg multiset" where
  "all_msgs ds = mset (concat (map msg_first ds))"

text \<open>The statistics of a queue are those of its messages; a free queue is empty.\<close>

definition queue_ok :: "msg_cfg \<Rightarrow> msqid_ds \<Rightarrow> bool" where
  "queue_ok c d \<longleftrightarrow> msg_qnum d = int (length (msg_first d)) \<and> msg_cbytes d = (\<Sum>m \<leftarrow> msg_first d. msg_ts m) \<and> msg_qnum d \<le> NMSG c \<and>
     (\<not> queue_alloc d \<longrightarrow> msg_first d = [])"

definition msg_ok :: "msg_cfg \<Rightarrow> msgs \<Rightarrow> bool" where
  "msg_ok c s \<longleftrightarrow> (\<forall>ds. msqs s = Some ds \<longrightarrow> length ds = NMSQID c \<and> length (msg_gate s) = NMSQID c \<and>
     length (msg_map s) = NMSQID c * nat (NMSG c) \<and> (\<forall>d \<in> set ds. queue_ok c d) \<and> map_ok (msg_map s) (all_msgs ds))"

definition msg_inv :: "msg_cfg \<Rightarrow> msgs \<Rightarrow> bool" where
  "msg_inv c s \<longleftrightarrow> msg_ok c s \<and> (msqs s \<noteq> None \<longrightarrow> True \<notin> set (msg_gate s))"

lemma queue_at_Some: "queue_at s q = Some d \<longleftrightarrow> (\<exists>ds. msqs s = Some ds \<and> q < length ds \<and> ds ! q = d)"
  by (auto simp: queue_at_def split: option.splits if_splits)

lemma queue_at_put [simp]: "queue_at s q = Some d \<Longrightarrow> queue_at (queue_put s q d') q = Some d'"
  by (auto simp: queue_at_Some queue_put_def)

lemma queue_at_put_other [simp]: "p \<noteq> q \<Longrightarrow> queue_at (queue_put s q d') p = queue_at s p"
  by (auto simp: queue_at_def queue_put_def split: option.splits)

lemma queue_put_fields [simp]: "msg_gate (queue_put s q d) = msg_gate s" "msg_map (queue_put s q d) = msg_map s"
  "NMSQB (queue_put s q d) = NMSQB s" "msg_log (queue_put s q d) = msg_log s"
  by (simp_all add: queue_put_def)

lemma queue_at_fields [simp]: "queue_at (s\<lparr>msg_gate := g\<rparr>) q = queue_at s q" "queue_at (s\<lparr>msg_map := m\<rparr>) q = queue_at s q"
  "queue_at (s\<lparr>NMSQB := n\<rparr>) q = queue_at s q" "queue_at (s\<lparr>msg_log := l\<rparr>) q = queue_at s q"
  by (simp_all add: queue_at_def)

lemma all_msgs_upd:
  assumes "q < length ds"
  obtains M where "all_msgs ds = M + mset (msg_first (ds ! q))" "\<And>d. all_msgs (ds[q := d]) = M + mset (msg_first d)"
proof -
  have "all_msgs (ds[q := d]) = all_msgs (take q ds) + all_msgs (drop (Suc q) ds) + mset (msg_first d)" for d
    using assms by (simp add: all_msgs_def upd_conv_take_nth_drop)
  moreover from this [of "ds ! q"] have "all_msgs ds = all_msgs (take q ds) + all_msgs (drop (Suc q) ds) + mset (msg_first (ds ! q))" by simp
  ultimately show ?thesis using that by blast
qed

text \<open>Replacing a queue, with the messages it loses and gets.\<close>

lemma msg_ok_put:
  assumes ok: "msg_ok c s" and q: "queue_at s q = Some d" and d': "queue_ok c d'"
    and m: "\<And>M. map_ok (msg_map s) (M + mset (msg_first d)) \<Longrightarrow> map_ok m (M + mset (msg_first d'))" and len: "length m = length (msg_map s)"
    and t: "msqs t = map_option (\<lambda>ds. ds[q := d']) (msqs s)" "length (msg_gate t) = length (msg_gate s)" "msg_map t = m"
  shows "msg_ok c t"
proof -
  obtain ds where ds: "msqs s = Some ds" "q < length ds" "ds ! q = d" using q unfolding queue_at_Some by blast
  have I: "length ds = NMSQID c" "length (msg_gate s) = NMSQID c" "length (msg_map s) = NMSQID c * nat (NMSG c)"
    "\<forall>d \<in> set ds. queue_ok c d" "map_ok (msg_map s) (all_msgs ds)" using ok ds(1) by (simp_all add: msg_ok_def)
  obtain M where M: "all_msgs ds = M + mset (msg_first d)" "all_msgs (ds[q := d']) = M + mset (msg_first d')"
    using all_msgs_upd [OF ds(2)] ds(3) by metis
  note M(2)
  moreover have "map_ok m (M + mset (msg_first d'))" using m I(5) M by simp
  moreover have "\<forall>x \<in> set (ds[q := d']). queue_ok c x" using I(4) d' by (auto dest: set_update_subset_insert [THEN subsetD])
  ultimately show ?thesis using t len I ds(1) by (simp add: msg_ok_def)
qed

text \<open>A spot of the map is taken for a message, and given back.\<close>

lemma map_ok_add:
  assumes "map_ok m M" "i < length m" "m ! i = None" "int (length t) = n"
  shows "map_ok (m[i := Some t]) (add_mset \<lparr>msg_type = ty, msg_ts = n, msg_spot = i\<rparr> M)"
proof -
  have c: "count (image_mset msg_spot M) j = (if j < length m \<and> m ! j \<noteq> None then 1 else 0)" for j using assms(1) by (simp add: map_ok_def)
  have ni: "msg_spot mp \<noteq> i" if "mp \<in># M" for mp
  proof
    assume "msg_spot mp = i"
    then have "i \<in># image_mset msg_spot M" using that by auto
    then show False using c [of i] assms(3) by (simp add: not_in_iff [symmetric])
  qed
  have "\<exists>t. m ! msg_spot mp = Some t \<and> int (length t) = msg_ts mp" if "mp \<in># M" for mp using assms(1) that by (simp add: map_ok_def)
  then have "\<exists>u. (m[i := Some t]) ! msg_spot mp = Some u \<and> int (length u) = msg_ts mp" if "mp \<in># M" for mp
    using that ni [OF that] by simp
  moreover have "count (add_mset i (image_mset msg_spot M)) j = (if j < length m \<and> (m[i := Some t]) ! j \<noteq> None then 1 else 0)" for j
    using c [of j] assms(2,3) by (cases "j = i") auto
  ultimately show ?thesis using assms(2,4) unfolding map_ok_def by auto
qed

lemma map_ok_del:
  assumes "map_ok m (add_mset mp M)"
  shows "msg_spot mp < length m \<and> (\<exists>t. m ! msg_spot mp = Some t \<and> int (length t) = msg_ts mp) \<and> map_ok (m[msg_spot mp := None]) M"
proof -
  let ?i = "msg_spot mp"
  have c: "count (add_mset ?i (image_mset msg_spot M)) j = (if j < length m \<and> m ! j \<noteq> None then 1 else 0)" for j
    using assms by (simp add: map_ok_def)
  have i: "?i < length m" "m ! ?i \<noteq> None" "count (image_mset msg_spot M) ?i = 0" using c [of ?i] by (auto split: if_splits)
  have ni: "msg_spot x \<noteq> ?i" if "x \<in># M" for x
  proof
    assume "msg_spot x = ?i"
    then have "?i \<in># image_mset msg_spot M" using that by (metis image_eqI set_image_mset)
    then show False using i(3) by (simp add: not_in_iff [symmetric])
  qed
  have t: "\<exists>t. m ! msg_spot x = Some t \<and> int (length t) = msg_ts x" if "x \<in># add_mset mp M" for x
    using assms that unfolding map_ok_def by blast
  have "\<exists>t. (m[?i := None]) ! msg_spot x = Some t \<and> int (length t) = msg_ts x" if "x \<in># M" for x
    using t [of x] that ni [OF that] by simp
  moreover have "count (image_mset msg_spot M) j = (if j < length (m[?i := None]) \<and> (m[?i := None]) ! j \<noteq> None then 1 else 0)" for j
    using c [of j] i by (cases "j = ?i") auto
  ultimately show ?thesis using i(1) t [of mp] unfolding map_ok_def by auto
qed

lemma msg_ok_fields [simp]: "msg_ok c (s\<lparr>msg_log := l\<rparr>) = msg_ok c s" "msg_ok c (s\<lparr>NMSQB := n\<rparr>) = msg_ok c s"
  "length g = length (msg_gate s) \<Longrightarrow> msg_ok c (s\<lparr>msg_gate := g\<rparr>) = msg_ok c s"
  by (simp_all add: msg_ok_def)

text \<open>The gate of queue \<open>q\<close>, and no other, is held.\<close>

definition holding :: "msg_cfg \<Rightarrow> nat \<Rightarrow> msgs \<Rightarrow> bool" where
  "holding c q s \<longleftrightarrow> msg_ok c s \<and> (\<exists>d. queue_at s q = Some d) \<and> (\<forall>i < length (msg_gate s). msg_gate s ! i \<longleftrightarrow> i = q)"

lemma queue_sizes:
  assumes "msg_ok c s" "queue_at s q = Some d"
  shows "q < NMSQID c" "length (msg_gate s) = NMSQID c" "length (msg_map s) = NMSQID c * nat (NMSG c)" "msqs s \<noteq> None"
  using assms by (auto simp: msg_ok_def queue_at_Some)

lemma gate_free: "msg_inv c s \<Longrightarrow> i < length (msg_gate s) \<Longrightarrow> msqs s \<noteq> None \<Longrightarrow> \<not> msg_gate s ! i"
  unfolding msg_inv_def by (metis nth_mem)

lemma msg_inv_lock:
  assumes "msg_inv c s" "queue_at s q = Some d"
  shows "holding c q (gate_lock q s)"
proof -
  have ok: "msg_ok c s" using assms(1) by (simp add: msg_inv_def)
  note z = queue_sizes [OF ok assms(2)]
  show ?thesis using ok assms(2) z gate_free [OF assms(1) _ z(4)] by (simp add: holding_def nth_list_update)
qed

lemma holding_unlock:
  assumes "holding c q s"
  shows "msg_inv c (gate_unlock q s)"
proof -
  have h: "msg_ok c s" "\<And>i. i < length (msg_gate s) \<Longrightarrow> msg_gate s ! i \<longleftrightarrow> i = q" using assms by (simp_all add: holding_def)
  have "True \<notin> set ((msg_gate s)[q := False])"
  proof
    assume "True \<in> set ((msg_gate s)[q := False])"
    then obtain i where i: "i < length (msg_gate s)" "(msg_gate s)[q := False] ! i" by (metis in_set_conv_nth length_list_update)
    then show False using h(2) [OF i(1)] by (cases "i = q") simp_all
  qed
  then show ?thesis using h(1) by (simp add: msg_inv_def)
qed

text \<open>Changes of a queue that keep its messages.\<close>

lemma msg_ok_same:
  assumes "msg_ok c s" "queue_at s q = Some d" "queue_ok c d'" "msg_first d' = msg_first d"
  shows "msg_ok c (queue_put s q d')"
  using assms by (intro msg_ok_put [OF assms(1-3), where m = "msg_map s"]) (simp_all add: queue_put_def)

lemma queue_okD: "msg_ok c s \<Longrightarrow> queue_at s q = Some d \<Longrightarrow> queue_ok c d"
  by (auto simp: msg_ok_def queue_at_Some)

lemma msg_inv_same:
  assumes "msg_inv c s" "queue_at s q = Some d" "queue_ok c d'" "msg_first d' = msg_first d"
  shows "msg_inv c (queue_put s q d')"
  using msg_ok_same assms by (auto simp: msg_inv_def queue_put_def)

lemma holding_same:
  assumes "holding c q s" "queue_at s q = Some d" "queue_ok c d'" "msg_first d' = msg_first d"
  shows "holding c q (queue_put s q d')"
  using msg_ok_same assms by (auto simp: holding_def)

lemma free_all_ok:
  "map_ok (msg_map s) (M + mset ms) \<Longrightarrow> \<exists>m. free_all ms s = Some (s\<lparr>msg_map := m\<rparr>) \<and> map_ok m M \<and> length m = length (msg_map s)"
proof (induction ms arbitrary: s)
  case Nil
  then show ?case by (intro exI [of _ "msg_map s"]) simp
next
  case (Cons mp ms)
  then have "map_ok (msg_map s) (add_mset mp (M + mset ms))" by simp
  note d = map_ok_del [OF this]
  let ?t = "s\<lparr>msg_map := (msg_map s)[msg_spot mp := None]\<rparr>"
  have "msgfree mp s = Some ?t" using d by (auto simp: msgfree_def)
  moreover have "map_ok (msg_map ?t) (M + mset ms)" using d by simp
  from Cons.IH [OF this] obtain m where "free_all ms ?t = Some (?t\<lparr>msg_map := m\<rparr>)" "map_ok m M" "length m = length (msg_map ?t)" by blast
  ultimately show ?case by (intro exI [of _ m]) simp
qed

section \<open>Creation and control keep the invariant\<close>

lemma msginit_inv:
  assumes "msqs s = None" "0 \<le> NMSG c" "\<And>m. mem3 = Some m \<Longrightarrow> m = replicate (NMSQID c * nat (NMSG c)) None"
  shows "msg_inv c (snd (msginit c now mem1 mem2 mem3 s)) \<and> (fst (msginit c now mem1 mem2 mem3 s) = 0 \<longrightarrow> msqs (snd (msginit c now mem1 mem2 mem3 s)) \<noteq> None)"
proof (cases "mem1 \<and> mem2 \<and> mem3 \<noteq> None")
  case False
  then show ?thesis by (auto simp: msginit_def msg_inv_def msg_ok_def split: option.split)
next
  case True
  then obtain m where m3: "mem3 = Some m" by blast
  note m = m3 assms(3) [OF m3]
  have a: "all_msgs (map (init_queue now (NMSQB s)) [0..<NMSQID c]) = {#}" by (simp add: all_msgs_def init_queue_def comp_def)
  have q: "queue_ok c (init_queue now (NMSQB s) i)" for i using assms(2) by (simp add: queue_ok_def init_queue_def)
  have k: "map_ok m {#}" using m(2) by (simp add: map_ok_def)
  show ?thesis using True m a q k by (simp add: msginit_def msg_inv_def msg_ok_def)
qed

lemma msg_scan_Inl: "msg_scan c key k fr ds = Inl i \<Longrightarrow> k \<le> i \<and> i - k < length ds \<and> queue_alloc (ds ! (i - k)) \<and> ip_key (msg_perm (ds ! (i - k))) = key"
proof (induction ds arbitrary: k fr)
  case (Cons d ds)
  show ?case
  proof (cases "i = k \<and> queue_alloc d \<and> ip_key (msg_perm d) = key")
    case False
    then obtain fr' where "msg_scan c key (k + 1) fr' ds = Inl i" using Cons.prems by (auto split: if_splits)
    from Cons.IH [OF this] have "k + 1 \<le> i" "i - (k + 1) < length ds" "queue_alloc (ds ! (i - (k + 1)))"
      "ip_key (msg_perm (ds ! (i - (k + 1)))) = key" by auto
    moreover from this have "i - k = Suc (i - (k + 1))" by simp
    ultimately show ?thesis by auto
  qed auto
qed simp

lemma msg_scan_Inr:
  "msg_scan c key k fr ds = Inr (Some (i, t)) \<Longrightarrow> fr = Some (i, t) \<or> (k \<le> i \<and> i - k < length ds \<and> \<not> queue_alloc (ds ! (i - k)))"
proof (induction ds arbitrary: k fr)
  case (Cons d ds)
  define fr1 where "fr1 = (if queue_alloc d then fr else case fr of None \<Rightarrow> Some (k, msg_ctime d)
           | Some (f, t) \<Rightarrow> if t > msg_ctime d then Some (k, msg_ctime d) else fr)"
  have "msg_scan c key (k + 1) fr1 ds = Inr (Some (i, t))" using Cons.prems by (auto simp: fr1_def split: if_splits)
  from Cons.IH [OF this] consider "fr1 = Some (i, t)" | "k + 1 \<le> i" "i - (k + 1) < length ds" "\<not> queue_alloc (ds ! (i - (k + 1)))" by auto
  then show ?case
  proof cases
    case 1
    then show ?thesis by (auto simp: fr1_def split: if_splits option.splits)
  next
    case 2
    then have "i - k = Suc (i - (k + 1))" by simp
    then show ?thesis using 2 by auto
  qed
qed simp

lemma umsgget_inv:
  assumes inv: "msg_inv c s" and lim: "0 \<le> NMSG c" and clear: "\<And>m. mem3 = Some m \<Longrightarrow> m = replicate (NMSQID c * nat (NMSG c)) None"
  shows "\<exists>r u' s'. umsgget c now mem1 mem2 mem3 key flg u s = Some (r, u', s') \<and> msg_inv c s'"
proof -
  define x where "x = (if msqs s = None then msginit c now mem1 mem2 mem3 s else (0, s))"
  have i: "msg_inv c (snd x)" using inv msginit_inv [OF _ lim clear] by (simp add: x_def)
  have e: "umsgget c now mem1 mem2 mem3 key flg u s = (if fst x \<noteq> 0 then Some (- 1, set_user_error ENOSPC u, snd x)
      else do { ds \<leftarrow> msqs (snd x);
        (case msg_scan c key 0 None (take (NMSQID c) ds) of
           Inl i \<Rightarrow> umsgget_found i flg u (snd x) | Inr fr \<Rightarrow> umsgget_create now key flg fr u (snd x)) })"
    by (simp add: umsgget_def x_def [symmetric] split_beta Let_def)
  show ?thesis
  proof (cases "fst x = 0")
    case False
    then show ?thesis using e i by simp
  next
    case True
    then obtain ds where ds: "msqs (snd x) = Some ds" using msginit_inv [OF _ lim clear] by (fastforce simp: x_def split: if_splits)
    then have len: "take (NMSQID c) ds = ds" using i by (simp add: msg_inv_def msg_ok_def)
    show ?thesis
    proof (cases "msg_scan c key 0 None ds")
      case (Inl k)
      then have "k < length ds" using msg_scan_Inl by fastforce
      then have "queue_at (snd x) k = Some (ds ! k)" using ds by (simp add: queue_at_def)
      then show ?thesis unfolding e using True ds len Inl i by (simp add: umsgget_found_def split_beta)
    next
      case (Inr fr)
      show ?thesis
      proof (cases "\<not> g_creat flg \<or> fr = None")
        case True
        then show ?thesis unfolding e using \<open>fst x = 0\<close> ds len Inr i by (auto simp: umsgget_create_def)
      next
        case False
        then obtain k t where fr: "fr = Some (k, t)" by auto
        then have k: "k < length ds" "\<not> queue_alloc (ds ! k)" using msg_scan_Inr [of c key 0 None ds k t] Inr by simp_all
        have at: "queue_at (snd x) k = Some (ds ! k)" using ds k by (simp add: queue_at_def)
        have ok: "queue_ok c (ds ! k)" using i queue_okD [OF _ at] by (simp add: msg_inv_def)
        have "umsgget c now mem1 mem2 mem3 key flg u s = umsgget_create now key flg fr u (snd x)" unfolding e using True ds len Inr by simp
        then show ?thesis using False fr at ok k(2) lim msg_inv_same [OF i at]
          by (auto simp: umsgget_create_def Let_def queue_ok_def)
      qed
    qed
  qed
qed

lemma msg_rmid_inv:
  assumes inv: "msg_inv c s" and q: "queue_at s q = Some d" and lim: "0 \<le> NMSG c"
  shows "\<exists>u' s'. msg_rmid now q d u s = Some (u', s') \<and> msg_inv c s'"
proof (cases "fst (ipc_cred_match (msg_perm d) u) = CRED_OWNER")
  case False
  then show ?thesis using inv by (simp add: msg_rmid_def split_beta)
next
  case True
  obtain ds where ds: "msqs s = Some ds" "q < length ds" "ds ! q = d" using q unfolding queue_at_Some by blast
  obtain M where "all_msgs ds = M + mset (msg_first d)" using all_msgs_upd [OF ds(2)] ds(3) by metis
  then have "map_ok (msg_map s) (M + mset (msg_first d))" using inv ds(1) by (simp add: msg_inv_def msg_ok_def)
  from free_all_ok [OF this] obtain m where m: "free_all (msg_first d) s = Some (s\<lparr>msg_map := m\<rparr>)" "length m = length (msg_map s)" by blast
  define d' where "d' = d\<lparr>msg_first := [], msg_qnum := 0, msg_cbytes := 0,
          msg_perm := (msg_perm d)\<lparr>ip_mode := (\<lambda>_. {}), ip_alloc := False, ip_seq := (queue_seq d + 50) mod 65536\<rparr>,
          msg_ctime := now, msg_rwait := False, msg_wwait := False\<rparr>"
  have ok: "msg_ok c s" using inv by (simp add: msg_inv_def)
  have "msg_ok c (queue_put (s\<lparr>msg_map := m\<rparr>) q d')"
  proof (rule msg_ok_put [OF ok q, of d' m])
    show "queue_ok c d'" using lim by (simp add: d'_def queue_ok_def)
    show "map_ok m (N + mset (msg_first d'))" if "map_ok (msg_map s) (N + mset (msg_first d))" for N
      using free_all_ok [OF that] m(1) by (auto simp: d'_def dest: arg_cong [of _ _ msg_map])
  qed (use m(2) in \<open>simp_all add: queue_put_def\<close>)
  then have "msg_inv c (queue_put (s\<lparr>msg_map := m\<rparr>) q d')" using inv ds(1) by (simp add: msg_inv_def queue_put_def)
  then show ?thesis using True m(1) by (simp add: msg_rmid_def split_beta d'_def)
qed

lemma umsgctl_inv:
  assumes inv: "msg_inv c s" and lim: "0 \<le> NMSG c" and call: "umsgctl c now qid cmd u s = Some (r, out, u', s')"
  shows "msg_inv c s'"
proof (cases "qid < 0")
  case True
  then show ?thesis using call inv by (simp add: umsgctl_def)
next
  case False
  then obtain d where d: "queue_at s (nat qid mod NMSQID c) = Some d" using call by (auto simp: umsgctl_def Let_def split: bind_splits)
  have ok: "queue_ok c d" using inv queue_okD [OF _ d] by (simp add: msg_inv_def)
  have set: "msg_inv c (snd (msg_set (nat qid mod NMSQID c) d temp v s))" for temp v
  proof -
    have at: "queue_at (s\<lparr>NMSQB := n\<rparr>) (nat qid mod NMSQID c) = Some d" and i: "msg_inv c (s\<lparr>NMSQB := n\<rparr>)" for n
      using d inv by (simp_all add: msg_inv_def)
    show ?thesis using inv msg_inv_same [OF i at] ok by (auto simp: msg_set_def split_beta Let_def queue_ok_def split: option.splits prod.splits)
  qed
  obtain u1 s1 where r: "msg_rmid now (nat qid mod NMSQID c) d v s = Some (u1 v, s1 v)" "msg_inv c (s1 v)" for v
    using msg_rmid_inv [OF inv d lim, of now] by metis
  show ?thesis using call False d inv set r
    by (auto simp: umsgctl_def Let_def split_beta split: if_splits msg_cmd.splits) (metis snd_conv)+
qed

section \<open>Sending\<close>

text \<open>No free queue has the number \<open>qid\<close>.\<close>

definition named :: "int \<Rightarrow> msgs \<Rightarrow> bool" where
  "named qid s \<longleftrightarrow> (\<forall>q d. queue_at s q = Some d \<longrightarrow> int (queue_seq d) = qid \<longrightarrow> queue_alloc d)"

definition has_room :: "msg_cfg \<Rightarrow> int \<Rightarrow> msqid_ds \<Rightarrow> bool" where
  "has_room c msgsz d \<longleftrightarrow> msg_qnum d < NMSG c \<and> msg_cbytes d + msgsz \<le> msg_qbytes d"

lemma named_put: "named qid s \<Longrightarrow> queue_at s q = Some d \<Longrightarrow> msg_perm d' = msg_perm d \<Longrightarrow> named qid (queue_put s q d')"
  unfolding named_def by (metis option.inject queue_at_put queue_at_put_other)

lemma named_gate [simp]: "named qid (s\<lparr>msg_gate := g\<rparr>) = named qid s"
  by (simp add: named_def)

lemma holding_flags:
  assumes "holding c q s" "queue_at s q = Some d" "msg_first d' = msg_first d" "msg_cbytes d' = msg_cbytes d" "msg_qnum d' = msg_qnum d"
    "msg_perm d' = msg_perm d"
  shows "msg_inv c (gate_unlock q (queue_put s q d'))" "named qid s \<Longrightarrow> named qid (gate_unlock q (queue_put s q d'))"
proof -
  have "queue_ok c d'" using queue_okD [of c s q d] assms by (auto simp: holding_def queue_ok_def)
  from holding_unlock [OF holding_same [OF assms(1,2) this assms(3)]] show "msg_inv c (gate_unlock q (queue_put s q d'))" .
  show "named qid s \<Longrightarrow> named qid (gate_unlock q (queue_put s q d'))" using named_put [OF _ assms(2,6)] by simp
qed

text \<open>One turn of the loop that waits for room.\<close>

lemma send_wait_step:
  assumes "queue_at s q = Some d"
  shows "send_wait c q qid msgsz nowait ws u s =
     (if has_room c msgsz d then Some (Done s (True, u))
      else if nowait then Some (Done (gate_unlock q s) (False, set_user_error EAGAIN u))
      else (case ws of [] \<Rightarrow> Some (Blocked (gate_unlock q (queue_put s q (d\<lparr>msg_wwait := True\<rparr>))))
        | w # ws \<Rightarrow>
            (let s = fst w (gate_unlock q (queue_put s q (d\<lparr>msg_wwait := True\<rparr>))) in
             if snd w then Some (Done s (False, set_user_error EINTR u))
             else do {
                 d \<leftarrow> queue_at s q;
                 if qid \<noteq> int (queue_seq d) then Some (Done s (False, set_user_error EINVAL u))
                 else if msg_gate s ! q then Some (Blocked s)
                 else send_wait c q qid msgsz nowait ws u (gate_lock q s)
               })))"
  by (subst send_wait.simps) (auto simp: assms has_room_def Let_def split: list.split)

text \<open>What is known when the loop ends: the gate is held and there is room if it succeeded, and all gates are free otherwise.\<close>

lemma send_wait_ok:
  "send_wait c q qid msgsz nowait ws u s = Some r \<Longrightarrow> holding c q s \<Longrightarrow> queue_at s q = Some d \<Longrightarrow> int (queue_seq d) = qid \<Longrightarrow>
   named qid s \<Longrightarrow> calm (\<lambda>s. msg_inv c s \<and> named qid s) ws \<Longrightarrow>
   (case r of Blocked s' \<Rightarrow> msg_inv c s'
    | Done s' (go, u') \<Rightarrow> if go then u' = u \<and> holding c q s' \<and> (\<exists>d'. queue_at s' q = Some d' \<and> queue_alloc d' \<and> has_room c msgsz d')
        else msg_inv c s')"
proof (induction ws arbitrary: s d)
  case Nil
  note f = holding_flags(1) [OF Nil.prems(2,3), of "d\<lparr>msg_wwait := True\<rparr>"]
  have "queue_alloc d" using Nil.prems(3-5) by (auto simp: named_def)
  then show ?case using Nil.prems f holding_unlock [OF Nil.prems(2)]
    unfolding send_wait_step [OF Nil.prems(3)] by (auto split: if_splits)
next
  case (Cons w ws)
  let ?t = "gate_unlock q (queue_put s q (d\<lparr>msg_wwait := True\<rparr>))"
  have al: "queue_alloc d" using Cons.prems(3-5) by (auto simp: named_def)
  have t: "msg_inv c ?t" "named qid ?t" using holding_flags [OF Cons.prems(2,3), of "d\<lparr>msg_wwait := True\<rparr>"] Cons.prems(5) by simp_all
  then have v: "msg_inv c (fst w ?t)" "named qid (fst w ?t)" using Cons.prems(6) by auto
  note st = Cons.prems(1) [unfolded send_wait_step [OF Cons.prems(3)]]
  consider "has_room c msgsz d" | "\<not> has_room c msgsz d" "nowait \<or> snd w" | "\<not> has_room c msgsz d" "\<not> nowait" "\<not> snd w" by blast
  then show ?case
  proof cases
    case 1
    then show ?thesis using st Cons.prems(2,3) al by auto
  next
    case 2
    then show ?thesis using st v holding_unlock [OF Cons.prems(2)] by (auto simp: Let_def split: if_splits)
  next
    case 3
    then obtain e where e: "queue_at (fst w ?t) q = Some e" using st by (auto simp: Let_def split: bind_splits)
    show ?thesis
    proof (cases "qid \<noteq> int (queue_seq e) \<or> msg_gate (fst w ?t) ! q")
      case True
      then show ?thesis using st 3 e v by (auto simp: Let_def split: if_splits)
    next
      case False
      then have "send_wait c q qid msgsz nowait ws u (gate_lock q (fst w ?t)) = Some r" using st 3 e by (simp add: Let_def)
      from Cons.IH [OF this msg_inv_lock [OF v(1) e], of e] False e v(2) Cons.prems(6) show ?thesis by simp
    qed
  qed
qed

lemma find_spot_None: "find_spot i xs = None \<Longrightarrow> x \<in> set xs \<Longrightarrow> x \<noteq> None"
  by (induction xs arbitrary: i) (auto split: if_splits)

lemma find_spot_Some: "find_spot i xs = Some j \<Longrightarrow> i \<le> j \<and> j - i < length xs \<and> xs ! (j - i) = None"
proof (induction xs arbitrary: i)
  case (Cons x xs)
  show ?case
  proof (cases "x = None")
    case False
    then have "find_spot (i + 1) xs = Some j" using Cons.prems by (simp del: not_None_eq)
    from Cons.IH [OF this] have "i + 1 \<le> j" "j - (i + 1) < length xs" "xs ! (j - (i + 1)) = None" by auto
    moreover from this have "j - i = Suc (j - (i + 1))" by simp
    ultimately show ?thesis by auto
  qed (use Cons.prems in auto)
qed simp

lemma spot_free:
  assumes "msg_ok c s" "queue_at s q = Some d" "find_spot 0 (take (NMSQID c * nat (NMSG c)) (msg_map s)) = Some i"
  shows "i < length (msg_map s) \<and> msg_map s ! i = None"
  using find_spot_Some [OF assms(3)] queue_sizes(3) [OF assms(1,2)] by simp

text \<open>Entering a message with the gate held.\<close>

lemma send_store_ok:
  assumes h: "holding c q s" and d: "queue_at s q = Some d" "queue_alloc d" "has_room c msgsz d"
    and tlen: "\<And>t. text = Some t \<Longrightarrow> int (length t) = msgsz" and sp: "find_spot 0 (take (NMSQID c * nat (NMSG c)) (msg_map s)) = Some i"
    and call: "send_store c now mem1 mem2 q typ msgsz text u s = Some (r, u', s')"
  shows "msg_inv c s'" and "u_err u = None \<Longrightarrow> mem1 \<Longrightarrow> mem2 \<Longrightarrow> text = Some t \<Longrightarrow> r = 0 \<and> u' = u \<and>
    msg_map s' = (msg_map s)[i := Some t] \<and>
    (\<exists>d'. queue_at s' q = Some d' \<and> msg_first d' = msg_first d @ [\<lparr>msg_type = typ, msg_ts = msgsz, msg_spot = i\<rparr>] \<and>
      msg_perm d' = msg_perm d \<and> (\<forall>p. p \<noteq> q \<longrightarrow> queue_at s' p = queue_at s p))"
proof -
  have ok: "msg_ok c s" using h by (simp add: holding_def)
  note i = spot_free [OF ok d(1) sp]
  let ?mp = "\<lparr>msg_type = typ, msg_ts = msgsz, msg_spot = i\<rparr>"
  have rest: "(msg_map s)[i := None] = msg_map s" using i by (metis list_update_id)
  have inv0: "msg_inv c (gate_unlock q s)" using h by (rule holding_unlock)
  show "msg_inv c s'"
  proof (cases "mem1 \<and> mem2 \<and> text \<noteq> None \<and> u_err u = None")
    case False
    then have "s' = gate_unlock q s" using call sp i rest
      by (auto simp: send_store_def msgfree_def Let_def split: if_splits option.splits)
    then show ?thesis using inv0 by simp
  next
    case True
    then obtain t where t: "text = Some t" by auto
    define e where "e = d\<lparr>msg_first := msg_first d @ [?mp], msg_cbytes := msg_cbytes d + msgsz, msg_qnum := msg_qnum d + 1,
                msg_lspid := p_pid u, msg_stime := now\<rparr>"
    define z where "z = queue_put (s\<lparr>msg_map := (msg_map s)[i := Some t]\<rparr>) q e"
    have e: "queue_ok c e" using queue_okD [OF ok d(1)] d(2,3) by (auto simp: e_def queue_ok_def has_room_def)
    have "msg_ok c z"
    proof (rule msg_ok_put [OF ok d(1) e])
      show "map_ok ((msg_map s)[i := Some t]) (M + mset (msg_first e))" if "map_ok (msg_map s) (M + mset (msg_first d))" for M
        using map_ok_add [OF that] i tlen [OF t] by (simp add: e_def)
    qed (simp_all add: z_def queue_put_def)
    moreover have ze: "queue_at z q = Some e" using d(1) by (simp add: z_def)
    ultimately have hz: "holding c q z" using h by (simp add: holding_def z_def)
    have "s' = gate_unlock q z \<or> s' = queue_put (gate_unlock q z\<lparr>msg_log := msg_log z @ [q]\<rparr>) q (e\<lparr>msg_rwait := False\<rparr>)"
      using call sp True t d(1) by (auto simp: send_store_def Let_def e_def z_def split: if_splits)
    moreover have "msg_inv c (gate_unlock q z)" using hz by (rule holding_unlock)
    moreover have "msg_inv c (gate_unlock q z\<lparr>msg_log := l\<rparr>)" for l using \<open>msg_inv c (gate_unlock q z)\<close> by (simp add: msg_inv_def)
    from msg_inv_same [OF this, where q = q and d = e and d' = "e\<lparr>msg_rwait := False\<rparr>"] ze e
    have "msg_inv c (queue_put (gate_unlock q z\<lparr>msg_log := l\<rparr>) q (e\<lparr>msg_rwait := False\<rparr>))" for l by (simp add: queue_ok_def)
    ultimately show ?thesis by blast
  qed
  show "r = 0 \<and> u' = u \<and> msg_map s' = (msg_map s)[i := Some t] \<and>
    (\<exists>d'. queue_at s' q = Some d' \<and> msg_first d' = msg_first d @ [?mp] \<and> msg_perm d' = msg_perm d \<and> (\<forall>p. p \<noteq> q \<longrightarrow> queue_at s' p = queue_at s p))"
    if "u_err u = None" "mem1" "mem2" "text = Some t"
    using that call sp d(1) by (auto simp: send_store_def Let_def split: if_splits)
qed

text \<open>There is a spot for every message that a queue has room for.\<close>

lemma sum_less:
  fixes f :: "'a \<Rightarrow> nat"
  assumes "\<forall>x \<in> set xs. f x \<le> K" "q < length xs" "f (xs ! q) < K"
  shows "(\<Sum>x \<leftarrow> xs. f x) < length xs * K"
proof -
  have le: "(\<Sum>x \<leftarrow> ys. f x) \<le> length ys * K" if "set ys \<subseteq> set xs" for ys
    using that assms(1) by (induction ys) (auto intro: add_mono)
  have "xs = take q xs @ xs ! q # drop (Suc q) xs" using assms(2) by (rule id_take_nth_drop)
  then have "(\<Sum>x \<leftarrow> xs. f x) = (\<Sum>x \<leftarrow> take q xs. f x) + f (xs ! q) + (\<Sum>x \<leftarrow> drop (Suc q) xs. f x)"
    by (metis (no_types, lifting) add.assoc list.simps(9) map_append sum_list.Cons sum_list_append)
  also have "\<dots> < length (take q xs) * K + K + length (drop (Suc q) xs) * K"
    using le [OF set_take_subset, of q] le [OF set_drop_subset, of "Suc q"] assms(3) by linarith
  also have "\<dots> = (length (take q xs) + 1 + length (drop (Suc q) xs)) * K" by (simp only: add_mult_distrib mult_1)
  also have "length (take q xs) + 1 + length (drop (Suc q) xs) = length xs" using assms(2) by simp
  finally show ?thesis .
qed

lemma spot_exists:
  assumes ok: "msg_ok c s" and d: "queue_at s q = Some d" "msg_qnum d < NMSG c"
  shows "find_spot 0 (take (NMSQID c * nat (NMSG c)) (msg_map s)) \<noteq> None"
proof
  assume n: "find_spot 0 (take (NMSQID c * nat (NMSG c)) (msg_map s)) = None"
  obtain ds where ds: "msqs s = Some ds" "q < length ds" "ds ! q = d" using d(1) unfolding queue_at_Some by blast
  have I: "length ds = NMSQID c" "length (msg_map s) = NMSQID c * nat (NMSG c)" "\<forall>d \<in> set ds. queue_ok c d" "map_ok (msg_map s) (all_msgs ds)"
    using ok ds(1) by (simp_all add: msg_ok_def)
  have full: "\<forall>i < length (msg_map s). msg_map s ! i \<noteq> None" using find_spot_None [OF n] I(2) nth_mem by auto
  have cnt: "count (image_mset msg_spot (all_msgs ds)) i = (if i < length (msg_map s) \<and> msg_map s ! i \<noteq> None then 1 else 0)" for i
    using I(4) by (simp add: map_ok_def)
  have "image_mset msg_spot (all_msgs ds) = mset [0..<length (msg_map s)]"
  proof (rule multiset_eqI)
    show "count (image_mset msg_spot (all_msgs ds)) i = count (mset [0..<length (msg_map s)]) i" for i
      using cnt [of i] full distinct_count_atmost_1 [THEN iffD1, OF distinct_upt, of 0 "length (msg_map s)"] by simp
  qed
  then have "size (all_msgs ds) = length (msg_map s)" by (metis size_image_mset size_mset length_upt minus_nat.diff_0)
  then have "(\<Sum>d \<leftarrow> ds. length (msg_first d)) = NMSQID c * nat (NMSG c)" using I(2) by (simp add: all_msgs_def length_concat comp_def)
  moreover have "(\<Sum>d \<leftarrow> ds. length (msg_first d)) < length ds * nat (NMSG c)"
  proof (rule sum_less)
    show "\<forall>x \<in> set ds. length (msg_first x) \<le> nat (NMSG c)" using I(3) by (auto simp: queue_ok_def)
    have "queue_ok c d" using queue_okD [OF ok d(1)] .
    then show "length (msg_first (ds ! q)) < nat (NMSG c)" using d(2) ds(3) by (simp add: queue_ok_def)
  qed (use ds in simp)
  ultimately show False using I(1) by simp
qed

section \<open>Receiving\<close>

lemma recv_wait_step:
  assumes "queue_at s q = Some d"
  shows "recv_wait q qid msgtyp nowait ws u s =
     (case find_msg msgtyp (msg_first d) of
        Some i \<Rightarrow> Some (Done s (Some i, u))
      | None \<Rightarrow>
          if nowait then Some (Done (gate_unlock q s) (None, set_user_error ENOMSG u))
          else (case ws of [] \<Rightarrow> Some (Blocked (gate_unlock q (queue_put s q (d\<lparr>msg_rwait := True\<rparr>))))
             | w # ws \<Rightarrow>
                 (let s = fst w (gate_unlock q (queue_put s q (d\<lparr>msg_rwait := True\<rparr>))) in
                 if snd w then Some (Done s (None, set_user_error EINTR u))
                 else do {
                   d \<leftarrow> queue_at s q;
                   if qid \<noteq> int (queue_seq d) then Some (Done s (None, set_user_error EINVAL u))
                   else if msg_gate s ! q then Some (Blocked s)
                   else recv_wait q qid msgtyp nowait ws u (gate_lock q s)
                 })))"
  by (subst recv_wait.simps) (auto simp: assms Let_def split: list.split option.split)

lemma recv_wait_ok:
  "recv_wait q qid msgtyp nowait ws u s = Some r \<Longrightarrow> holding c q s \<Longrightarrow> queue_at s q = Some d \<Longrightarrow> calm (msg_inv c) ws \<Longrightarrow>
   (case r of Blocked s' \<Rightarrow> msg_inv c s'
    | Done s' (i, u') \<Rightarrow> (case i of None \<Rightarrow> msg_inv c s'
        | Some i \<Rightarrow> u' = u \<and> holding c q s' \<and> (\<exists>d'. queue_at s' q = Some d' \<and> find_msg msgtyp (msg_first d') = Some i)))"
proof (induction ws arbitrary: s d)
  case Nil
  note f = holding_flags(1) [OF Nil.prems(2,3), of "d\<lparr>msg_rwait := True\<rparr>"]
  show ?case using Nil.prems f holding_unlock [OF Nil.prems(2)]
    unfolding recv_wait_step [OF Nil.prems(3)] by (auto split: if_splits option.splits)
next
  case (Cons w ws)
  let ?t = "gate_unlock q (queue_put s q (d\<lparr>msg_rwait := True\<rparr>))"
  have "msg_inv c ?t" using holding_flags(1) [OF Cons.prems(2,3), of "d\<lparr>msg_rwait := True\<rparr>"] by simp
  then have v: "msg_inv c (fst w ?t)" using Cons.prems(4) by auto
  note st = Cons.prems(1) [unfolded recv_wait_step [OF Cons.prems(3)]]
  show ?case
  proof (cases "find_msg msgtyp (msg_first d) \<noteq> None \<or> nowait \<or> snd w")
    case True
    then show ?thesis using st v holding_unlock [OF Cons.prems(2)] Cons.prems(2,3) by (auto simp: Let_def split: if_splits option.splits)
  next
    case False
    then obtain e where e: "queue_at (fst w ?t) q = Some e" using st by (auto simp: Let_def split: bind_splits)
    show ?thesis
    proof (cases "qid \<noteq> int (queue_seq e) \<or> msg_gate (fst w ?t) ! q")
      case True
      then show ?thesis using st False e v by (auto simp: Let_def split: if_splits)
    next
      case go: False
      then have "recv_wait q qid msgtyp nowait ws u (gate_lock q (fst w ?t)) = Some r" using st False e by (simp add: Let_def)
      from Cons.IH [OF this msg_inv_lock [OF v e], of e] e Cons.prems(4) show ?thesis by simp
    qed
  qed
qed

lemma recv_take_ok:
  assumes h: "holding c q s" and d: "queue_at s q = Some d" and i: "i < length (msg_first d)"
  shows "\<exists>r out u' s' t. recv_take now q i msgsz noerror ok u s = Some (r, out, u', s') \<and> msg_inv c s' \<and>
    msg_map s ! msg_spot (msg_first d ! i) = Some t \<and> int (length t) = msg_ts (msg_first d ! i) \<and>
    (ok \<longrightarrow> u_err u = None \<longrightarrow> noerror \<or> msg_ts (msg_first d ! i) \<le> msgsz \<longrightarrow>
      r = min msgsz (int (length t)) \<and> out = Some (msg_type (msg_first d ! i), take (nat msgsz) t) \<and> u' = u \<and>
      msg_map s' = (msg_map s)[msg_spot (msg_first d ! i) := None] \<and>
      (\<exists>d'. queue_at s' q = Some d' \<and> msg_first d' = take i (msg_first d) @ drop (i + 1) (msg_first d) \<and> msg_perm d' = msg_perm d \<and>
        (\<forall>p. p \<noteq> q \<longrightarrow> queue_at s' p = queue_at s p)))"
proof -
  have ok0: "msg_ok c s" using h by (simp add: holding_def)
  define mp where "mp = msg_first d ! i"
  define d' where "d' = d\<lparr>msg_first := take i (msg_first d) @ drop (i + 1) (msg_first d), msg_cbytes := msg_cbytes d - msg_ts mp,
             msg_qnum := msg_qnum d - 1, msg_lrpid := p_pid u, msg_rtime := now\<rparr>"
  have split: "msg_first d = take i (msg_first d) @ mp # drop (i + 1) (msg_first d)" using id_take_nth_drop [OF i] by (simp add: mp_def)
  have "mset (msg_first d) = mset (take i (msg_first d) @ mp # drop (i + 1) (msg_first d))" by (rule arg_cong [OF split])
  also have "\<dots> = add_mset mp (mset (msg_first d'))" by (simp add: d'_def)
  finally have ms: "mset (msg_first d) = add_mset mp (mset (msg_first d'))" .
  obtain ds where ds: "msqs s = Some ds" "q < length ds" "ds ! q = d" using d unfolding queue_at_Some by blast
  obtain M where M: "all_msgs ds = M + mset (msg_first d)" using all_msgs_upd [OF ds(2)] ds(3) by metis
  have mo: "map_ok (msg_map s) (add_mset mp (M + mset (msg_first d')))" using ok0 ds(1) M ms by (simp add: msg_ok_def)
  obtain t where t: "msg_spot mp < length (msg_map s)" "msg_map s ! msg_spot mp = Some t" "int (length t) = msg_ts mp"
    using map_ok_del [OF mo] by blast
  have sum: "(\<Sum>m \<leftarrow> msg_first d. msg_ts m) = msg_ts mp + (\<Sum>m \<leftarrow> msg_first d'. msg_ts m)"
    using arg_cong [OF ms, of "\<lambda>M. \<Sum>\<^sub># (image_mset msg_ts M)"] by (simp flip: sum_mset_sum_list mset_map)
  have "length (msg_first d) = Suc (length (msg_first d'))" using arg_cong [OF ms, of size] by simp
  then have q': "queue_ok c d'" using queue_okD [OF ok0 d] sum i by (auto simp: queue_ok_def d'_def)
  define z where "z = queue_put (s\<lparr>msg_map := (msg_map s)[msg_spot mp := None]\<rparr>) q d'"
  have "msg_ok c z"
  proof (rule msg_ok_put [OF ok0 d q'])
    show "map_ok ((msg_map s)[msg_spot mp := None]) (N + mset (msg_first d'))" if "map_ok (msg_map s) (N + mset (msg_first d))" for N
      using map_ok_del [of "msg_map s" mp "N + mset (msg_first d')"] that ms by simp
  qed (simp_all add: z_def queue_put_def)
  then have hz: "holding c q z" using h d by (simp add: holding_def z_def)
  then have iz: "msg_inv c (gate_unlock q z\<lparr>msg_log := l\<rparr>)" for l using holding_unlock by (simp add: msg_inv_def)
  have zq: "queue_at z q = Some d'" using d by (simp add: z_def)
  have iz2: "msg_inv c (queue_put (gate_unlock q z\<lparr>msg_log := l\<rparr>) q (d'\<lparr>msg_wwait := False\<rparr>))" for l
    using msg_inv_same [OF iz, of l q d' "d'\<lparr>msg_wwait := False\<rparr>"] zq q' by (simp add: queue_ok_def)
  have mf: "msgfree mp (queue_put s q d') = Some z" using t by (simp add: msgfree_def z_def queue_put_def)
  define s' where "s' = (if msg_wwait d' then queue_put (gate_unlock q z\<lparr>msg_log := msg_log z @ [q]\<rparr>) q (d'\<lparr>msg_wwait := False\<rparr>) else gate_unlock q z)"
  have e: "recv_take now q i msgsz noerror ok u s =
     (if msgsz < msg_ts mp \<and> \<not> noerror then Some (- 1, None, set_user_error E2BIG u, gate_unlock q s)
      else if \<not> ok \<or> u_err u \<noteq> None then Some (- 1, None, if ok then u else set_user_error EFAULT u, gate_unlock q s)
      else Some (min msgsz (msg_ts mp), Some (msg_type mp, take (nat (min msgsz (msg_ts mp))) t), u, s'))"
  proof (cases "(msgsz < msg_ts mp \<and> \<not> noerror) \<or> \<not> ok \<or> u_err u \<noteq> None")
    case True
    then show ?thesis using i t(1,2) unfolding recv_take_def d by (auto simp: mp_def [symmetric] Let_def)
  next
    case False
    show ?thesis using False i t(1,2) mf unfolding recv_take_def d s'_def d'_def
      by (simp add: mp_def [symmetric] Let_def not_le)
  qed
  have "msg_inv c s'" using iz2 iz [of "msg_log z"] by (simp add: s'_def)
  moreover have "take (nat (min msgsz (msg_ts mp))) t = take (nat msgsz) t" using t(3) by (simp add: min_def)
  moreover have "msg_map s' = (msg_map s)[msg_spot mp := None]" by (simp add: s'_def z_def)
  moreover have "\<exists>e. queue_at s' q = Some e \<and> msg_first e = msg_first d' \<and> msg_perm e = msg_perm d \<and> (\<forall>p. p \<noteq> q \<longrightarrow> queue_at s' p = queue_at s p)"
    using zq d by (simp add: s'_def z_def) (simp add: d'_def)
  ultimately have e': "recv_take now q i msgsz noerror ok u s =
     (if msgsz < msg_ts mp \<and> \<not> noerror then Some (- 1, None, set_user_error E2BIG u, gate_unlock q s)
      else if \<not> ok \<or> u_err u \<noteq> None then Some (- 1, None, if ok then u else set_user_error EFAULT u, gate_unlock q s)
      else Some (min msgsz (msg_ts mp), Some (msg_type mp, take (nat msgsz) t), u, s'))"
    and s': "msg_inv c s'" "msg_map s' = (msg_map s)[msg_spot mp := None]"
      "\<exists>e. queue_at s' q = Some e \<and> msg_first e = msg_first d' \<and> msg_perm e = msg_perm d \<and> (\<forall>p. p \<noteq> q \<longrightarrow> queue_at s' p = queue_at s p)"
    using e by simp_all
  have d1: "msg_first d' = take i (msg_first d) @ drop (i + 1) (msg_first d)" by (simp add: d'_def)
  have iu: "msg_inv c (gate_unlock q s)" using h by (rule holding_unlock)
  show ?thesis
  proof (cases "(msgsz < msg_ts mp \<and> \<not> noerror) \<or> \<not> ok \<or> u_err u \<noteq> None")
    case True
    then show ?thesis using e' iu t by (auto simp: mp_def)
  next
    case False
    then have "recv_take now q i msgsz noerror ok u s = Some (min msgsz (msg_ts mp), Some (msg_type mp, take (nat msgsz) t), u, s')"
      using e' by auto
    then show ?thesis using s' t d1 unfolding mp_def by auto
  qed
qed

section \<open>The calls keep the invariant\<close>

lemma find_seq_Some: "find_seq qid k ds = Some j \<Longrightarrow> k \<le> j \<and> j - k < length ds \<and> int (queue_seq (ds ! (j - k))) = qid"
proof (induction ds arbitrary: k)
  case (Cons d ds)
  show ?case
  proof (cases "int (queue_seq d) = qid")
    case False
    then have "find_seq qid (k + 1) ds = Some j" using Cons.prems by simp
    from Cons.IH [OF this] have "k + 1 \<le> j" "j - (k + 1) < length ds" "int (queue_seq (ds ! (j - (k + 1)))) = qid" by auto
    moreover from this have "j - k = Suc (j - (k + 1))" by simp
    ultimately show ?thesis by auto
  qed (use Cons.prems in auto)
qed simp

lemma find_seq_queue: "find_seq qid 0 (take n ds) = Some q \<Longrightarrow> msqs s = Some ds \<Longrightarrow> \<exists>d. queue_at s q = Some d \<and> int (queue_seq d) = qid"
  using find_seq_Some [of qid 0 "take n ds" q] by (auto simp: queue_at_def)

lemma umsgsnd_inv:
  assumes inv: "msg_inv c s" and nm: "named qid s" and ws: "calm (\<lambda>s. msg_inv c s \<and> named qid s) ws"
    and tlen: "\<And>t. text = Some t \<Longrightarrow> int (length t) = msgsz"
    and call: "umsgsnd c now mem1 mem2 qid typ msgsz text nowait ws u s = Some r"
  shows "case r of Blocked s' \<Rightarrow> msg_inv c s' | Done s' _ \<Rightarrow> msg_inv c s'"
proof -
  obtain ds where ds: "msqs s = Some ds" using call by (auto simp: umsgsnd_def split: bind_splits)
  show ?thesis
  proof (cases "find_seq qid 0 (take (NMSQID c) ds)")
    case None
    then show ?thesis using call inv ds by (auto simp: umsgsnd_def)
  next
    case (Some q)
    then obtain d where d: "queue_at s q = Some d" "int (queue_seq d) = qid" using find_seq_queue [OF _ ds] by blast
    obtain lack v where l: "ipc_lack_perm (msg_perm d) MSG_WRITE u = (lack, v)" by force
    show ?thesis
    proof (cases "lack \<or> typ < 1 \<or> msgsz < 0 \<or> msgsz > NMSC c \<or> msgsz > NMSQB s \<or> msg_gate s ! q")
      case True
      then show ?thesis using call inv ds Some d l by (auto simp: umsgsnd_def split: if_splits)
    next
      case False
      then obtain x where x: "send_wait c q qid msgsz nowait ws v (gate_lock q s) = Some x"
        using call ds Some d l by (auto simp: umsgsnd_def split: bind_splits)
      have nq: "named qid (gate_lock q s)" "queue_at (gate_lock q s) q = Some d" using nm d by simp_all
      note w = send_wait_ok [OF x msg_inv_lock [OF inv d(1)] nq(2) d(2) nq(1) ws]
      show ?thesis
      proof (cases x)
        case (Blocked t)
        then show ?thesis using call ds Some d l x w False by (auto simp: umsgsnd_def)
      next
        case (Done t gv)
        obtain go v' where g: "gv = (go, v')" by force
        show ?thesis
        proof (cases go)
          case False
          then show ?thesis using call ds Some d l x w Done g \<open>\<not> (lack \<or> _)\<close> by (auto simp: umsgsnd_def)
        next
          case go: True
          then obtain d' where d': "holding c q t" "queue_at t q = Some d'" "queue_alloc d'" "has_room c msgsz d'" using w Done g by auto
          obtain y where y: "send_store c now mem1 mem2 q typ msgsz text v' t = Some y" "r = Done (snd (snd y)) (fst y, fst (snd y))"
            using call ds Some d l x False Done g go by (auto simp: umsgsnd_def)
          have "msg_ok c t" "msg_qnum d' < NMSG c" using d' by (simp_all add: holding_def has_room_def)
          then obtain i where "find_spot 0 (take (NMSQID c * nat (NMSG c)) (msg_map t)) = Some i" using spot_exists d'(2) by blast
          from send_store_ok(1) [OF d' tlen this] y show ?thesis by (cases y) auto
        qed
      qed
    qed
  qed
qed

lemma find_lowest_less: "find_lowest t k b ms = Some j \<Longrightarrow> (\<forall>i x. b = Some (i, x) \<longrightarrow> i < k) \<Longrightarrow> j < k + length ms"
proof (induction t k b ms rule: find_lowest.induct)
  case (2 t i qmin m ms)
  show ?case
  proof (cases "msg_type m > t")
    case True
    then show ?thesis using 2 by fastforce
  next
    case False
    let ?b = "case qmin of None \<Rightarrow> Some (i, msg_type m) | Some (j, k) \<Rightarrow> if msg_type m < k then Some (i, msg_type m) else qmin"
    have "\<forall>j x. ?b = Some (j, x) \<longrightarrow> j < i + 1" using 2(4) by (auto split: option.splits if_splits)
    then show ?thesis using 2(2) [OF False] 2(3) False by simp
  qed
qed auto

lemma find_type_less: "find_type t k ms = Some j \<Longrightarrow> j < k + length ms"
  by (induction ms arbitrary: k) (fastforce split: if_splits)+

lemma find_msg_less: "find_msg msgtyp ms = Some i \<Longrightarrow> i < length ms"
  using find_lowest_less [of "- msgtyp" 0 None ms i] find_type_less [of msgtyp 0 ms i] by (auto simp: find_msg_def split: if_splits)

lemma umsgrcv_inv:
  assumes inv: "msg_inv c s" and ws: "calm (msg_inv c) ws"
    and call: "umsgrcv c now qid msgsz msgtyp noerror nowait ok ws u s = Some r"
  shows "case r of Blocked s' \<Rightarrow> msg_inv c s' | Done s' _ \<Rightarrow> msg_inv c s'"
proof (cases "qid < 0 \<or> msqs s = None")
  case True
  then show ?thesis using call inv by (auto simp: umsgrcv_def)
next
  case False
  define q where "q = nat qid mod NMSQID c"
  obtain d where d: "queue_at s q = Some d" using call False by (auto simp: umsgrcv_def Let_def q_def split: bind_splits)
  obtain lack v where l: "ipc_lack_perm (msg_perm d) MSG_READ u = (lack, v)" by force
  note c1 = call [unfolded umsgrcv_def Let_def, folded q_def]
  show ?thesis
  proof (cases "int (queue_seq d) \<noteq> qid \<or> \<not> queue_alloc d \<or> lack \<or> msg_gate s ! q")
    case True
    then show ?thesis using c1 False inv d l by (auto split: if_splits)
  next
    case go: False
    then obtain x where x: "recv_wait q qid msgtyp nowait ws v (gate_lock q s) = Some x"
      using c1 False d l by (auto split: bind_splits)
    have nq: "queue_at (gate_lock q s) q = Some d" using d by simp
    note w = recv_wait_ok [OF x msg_inv_lock [OF inv d] nq ws]
    show ?thesis
    proof (cases x)
      case (Blocked t)
      then show ?thesis using c1 False d l x w go by auto
    next
      case (Done t gv)
      obtain i v' where g: "gv = (i, v')" by force
      show ?thesis
      proof (cases i)
        case None
        then show ?thesis using c1 False d l x w Done g go by auto
      next
        case (Some i')
        then obtain d' where d': "holding c q t" "queue_at t q = Some d'" "find_msg msgtyp (msg_first d') = Some i'" using w Done g by auto
        from recv_take_ok [OF d'(1,2) find_msg_less [OF d'(3)], of now msgsz noerror ok v'] obtain r' out u' s' where
          "recv_take now q i' msgsz noerror ok v' t = Some (r', out, u', s')" "msg_inv c s'" by blast
        then show ?thesis using c1 False d l x Done g go Some by auto
      qed
    qed
  qed
qed

section \<open>Contents of queues\<close>

definition contents :: "msgs \<Rightarrow> nat \<Rightarrow> (int \<times> text_bytes option) list" where
  "contents s q = (case queue_at s q of None \<Rightarrow> [] | Some d \<Rightarrow> map (\<lambda>m. (msg_type m, msg_map s ! msg_spot m)) (msg_first d))"

text \<open>
  The message that a type asks for: for 0 the first, for a positive type the first of this type, for a negative one the first of
  the lowest type within its absolute value.
\<close>

definition wanted :: "int \<Rightarrow> int list \<Rightarrow> nat \<Rightarrow> bool" where
  "wanted t ts i \<longleftrightarrow> i < length ts \<and>
     (if t = 0 then i = 0
      else if t > 0 then ts ! i = t \<and> (\<forall>j < i. ts ! j \<noteq> t)
      else ts ! i \<le> - t \<and> (\<forall>j < length ts. ts ! i \<le> ts ! j) \<and> (\<forall>j < i. ts ! i < ts ! j))"

lemma find_lowest_spec:
  "find_lowest t k b ms = r \<Longrightarrow> (\<forall>j x. b = Some (j, x) \<longrightarrow> x \<le> t) \<Longrightarrow>
   (case r of None \<Rightarrow> b = None \<and> (\<forall>m \<in> set ms. t < msg_type m)
    | Some j \<Rightarrow> (\<exists>x. b = Some (j, x) \<and> (\<forall>m \<in> set ms. x \<le> msg_type m)) \<or>
        (\<exists>i < length ms. j = k + i \<and> msg_type (ms ! i) \<le> t \<and> (\<forall>m \<in> set ms. msg_type (ms ! i) \<le> msg_type m) \<and>
          (\<forall>l < i. msg_type (ms ! i) < msg_type (ms ! l)) \<and> (\<forall>j x. b = Some (j, x) \<longrightarrow> msg_type (ms ! i) < x)))"
proof (induction t k b ms arbitrary: r rule: find_lowest.induct)
  case (1 t k b)
  then show ?case by (cases b) auto
next
  case (2 t k b m ms)
  define b' where "b' = (if msg_type m > t then b
    else case b of None \<Rightarrow> Some (k, msg_type m) | Some (j, x) \<Rightarrow> if msg_type m < x then Some (k, msg_type m) else b)"
  have r: "find_lowest t (k + 1) b' ms = r" using 2(3) by (cases "msg_type m > t") (simp_all add: b'_def)
  have b't: "\<forall>j x. b' = Some (j, x) \<longrightarrow> x \<le> t" using 2(4) by (auto simp: b'_def split: if_splits option.splits)
  have IH: "case r of None \<Rightarrow> b' = None \<and> (\<forall>m \<in> set ms. t < msg_type m)
    | Some j \<Rightarrow> (\<exists>x. b' = Some (j, x) \<and> (\<forall>m \<in> set ms. x \<le> msg_type m)) \<or>
        (\<exists>i < length ms. j = k + 1 + i \<and> msg_type (ms ! i) \<le> t \<and> (\<forall>m \<in> set ms. msg_type (ms ! i) \<le> msg_type m) \<and>
          (\<forall>l < i. msg_type (ms ! i) < msg_type (ms ! l)) \<and> (\<forall>j x. b' = Some (j, x) \<longrightarrow> msg_type (ms ! i) < x))"
  proof (cases "msg_type m > t")
    case True
    then have "b' = b" by (simp add: b'_def)
    show ?thesis unfolding \<open>b' = b\<close> by (rule 2(1) [OF True r [unfolded \<open>b' = b\<close>] 2(4)])
  next
    case False
    then have e: "(case b of None \<Rightarrow> Some (k, msg_type m) | Some (j, x) \<Rightarrow> if msg_type m < x then Some (k, msg_type m) else b) = b'"
      by (simp add: b'_def)
    show ?thesis by (rule 2(2) [OF False, unfolded e, OF r b't])
  qed
  show ?case
  proof (cases r)
    case None
    then show ?thesis using IH by (auto simp: b'_def split: if_splits option.splits)
  next
    case (Some j)
    then consider x where "b' = Some (j, x)" "\<forall>m \<in> set ms. x \<le> msg_type m"
      | i where "i < length ms" "j = k + 1 + i" "msg_type (ms ! i) \<le> t" "\<forall>m \<in> set ms. msg_type (ms ! i) \<le> msg_type m"
          "\<forall>l < i. msg_type (ms ! i) < msg_type (ms ! l)" "\<forall>j x. b' = Some (j, x) \<longrightarrow> msg_type (ms ! i) < x"
      using IH by auto
    then show ?thesis
    proof cases
      case 1
      then consider "b = Some (j, x)" "x \<le> msg_type m" | "j = k" "x = msg_type m" "x \<le> t" "\<forall>j y. b = Some (j, y) \<longrightarrow> x < y"
        using 2(4) by (fastforce simp: b'_def split: if_splits option.splits)
      then show ?thesis
      proof cases
        case 1
        then show ?thesis using \<open>\<forall>m \<in> set ms. x \<le> msg_type m\<close> Some by auto
      next
        case 2
        then show ?thesis using \<open>\<forall>m \<in> set ms. x \<le> msg_type m\<close> Some by (intro option.split [THEN iffD2]) (auto intro!: exI [of _ 0])
      qed
    next
      case 2
      have m: "msg_type (ms ! i) < msg_type m" and b: "\<forall>j x. b = Some (j, x) \<longrightarrow> msg_type (ms ! i) < x"
        using 2(3,6) by (auto simp: b'_def split: if_splits option.splits)
      have "\<forall>l < Suc i. msg_type (ms ! i) < msg_type ((m # ms) ! l)" using 2(5) m by (auto simp: nth_Cons split: nat.split)
      then have "\<exists>i' < length (m # ms). j = k + i' \<and> msg_type ((m # ms) ! i') \<le> t \<and> (\<forall>x \<in> set (m # ms). msg_type ((m # ms) ! i') \<le> msg_type x) \<and>
          (\<forall>l < i'. msg_type ((m # ms) ! i') < msg_type ((m # ms) ! l)) \<and> (\<forall>j x. b = Some (j, x) \<longrightarrow> msg_type ((m # ms) ! i') < x)"
        using 2(1-4) m b by (intro exI [of _ "Suc i"]) auto
      then show ?thesis using Some by simp
    qed
  qed
qed

lemma find_type_spec:
  "case find_type t k ms of None \<Rightarrow> \<forall>m \<in> set ms. msg_type m \<noteq> t
   | Some j \<Rightarrow> \<exists>i < length ms. j = k + i \<and> msg_type (ms ! i) = t \<and> (\<forall>l < i. msg_type (ms ! l) \<noteq> t)"
proof (induction ms arbitrary: k)
  case (Cons m ms)
  show ?case
  proof (cases "msg_type m = t")
    case False
    show ?thesis
    proof (cases "find_type t (k + 1) ms")
      case None
      then show ?thesis using Cons.IH [of "k + 1"] False by simp
    next
      case (Some j)
      then obtain i where i: "i < length ms" "j = k + 1 + i" "msg_type (ms ! i) = t" "\<forall>l < i. msg_type (ms ! l) \<noteq> t"
        using Cons.IH [of "k + 1"] by auto
      then have "\<forall>l < Suc i. msg_type ((m # ms) ! l) \<noteq> t" using False by (auto simp: nth_Cons split: nat.split)
      then show ?thesis using Some False i by (auto intro!: exI [of _ "Suc i"])
    qed
  qed auto
qed simp

lemma find_msg_wanted:
  assumes "wanted t (map msg_type ms) i"
  shows "find_msg t ms = Some i"
proof -
  have i: "i < length ms" using assms by (simp add: wanted_def)
  consider "t = 0" | "t > 0" | "t < 0" by linarith
  then show ?thesis
  proof cases
    case 1
    then show ?thesis using assms by (auto simp: wanted_def find_msg_def)
  next
    case 2
    then have w: "msg_type (ms ! i) = t" "\<forall>j < i. msg_type (ms ! j) \<noteq> t" using assms i by (simp_all add: wanted_def)
    then obtain j where j: "find_type t 0 ms = Some j" using find_type_spec [where t = t and k = 0 and ms = ms] i nth_mem [OF i] by (cases "find_type t 0 ms") auto
    then have "j < length ms" "msg_type (ms ! j) = t" "\<forall>l < j. msg_type (ms ! l) \<noteq> t" using find_type_spec [where t = t and k = 0 and ms = ms] by auto
    then have "j = i" using w by (metis linorder_neqE_nat)
    then show ?thesis using 2 j by (simp add: find_msg_def)
  next
    case 3
    then have w: "msg_type (ms ! i) \<le> - t" "\<forall>j < length ms. msg_type (ms ! i) \<le> msg_type (ms ! j)" "\<forall>j < i. msg_type (ms ! i) < msg_type (ms ! j)"
      using assms i by (simp_all add: wanted_def)
    note sp = find_lowest_spec [of "- t" 0 None ms "find_lowest (- t) 0 None ms", OF refl]
    obtain j where j: "find_lowest (- t) 0 None ms = Some j"
    proof (cases "find_lowest (- t) 0 None ms")
      case None
      then have "- t < msg_type (ms ! i)" using sp nth_mem [OF i] by simp
      then show ?thesis using w(1) by simp
    qed
    then have j': "j < length ms" "\<forall>m \<in> set ms. msg_type (ms ! j) \<le> msg_type m" "\<forall>l < j. msg_type (ms ! j) < msg_type (ms ! l)"
      using sp by auto
    then have "msg_type (ms ! j) = msg_type (ms ! i)" using w(2) nth_mem [OF i] by fastforce
    then have "j = i" using w(3) j'(3) by (metis linorder_neqE_nat order_less_irrefl)
    then show ?thesis using 3 j by (simp add: find_msg_def)
  qed
qed

lemma text_there:
  assumes "msg_ok c s" "queue_at s q = Some d" "m \<in> set (msg_first d)"
  obtains t where "msg_map s ! msg_spot m = Some t" "int (length t) = msg_ts m"
proof -
  obtain ds where ds: "msqs s = Some ds" "q < length ds" "ds ! q = d" using assms(2) unfolding queue_at_Some by blast
  have "m \<in># all_msgs ds" using ds(2,3) assms(3) by (auto simp: all_msgs_def)
  then show ?thesis using assms(1) ds(1) that unfolding msg_ok_def map_ok_def by blast
qed

text \<open>The calls on the contents.\<close>

lemma contents_send:
  assumes "msg_ok c s" "msg_map s ! i = None" "i < length (msg_map s)" "queue_at s q = Some d" "msg_map s' = (msg_map s)[i := Some t]"
    "queue_at s' q = Some d'" "msg_first d' = msg_first d @ [\<lparr>msg_type = typ, msg_ts = n, msg_spot = i\<rparr>]" "\<forall>p. p \<noteq> q \<longrightarrow> queue_at s' p = queue_at s p"
  shows "contents s' q = contents s q @ [(typ, Some t)] \<and> (\<forall>p. p \<noteq> q \<longrightarrow> contents s' p = contents s p)"
proof -
  have same: "msg_map s' ! msg_spot m = msg_map s ! msg_spot m" if h: "queue_at s p = Some e" "m \<in> set (msg_first e)" for p e m
  proof -
    obtain u where "msg_map s ! msg_spot m = Some u" using text_there [OF assms(1) h] by blast
    then have "msg_spot m \<noteq> i" using assms(2) by auto
    then show ?thesis using assms(5) by simp
  qed
  have "contents s' p = contents s p" if "p \<noteq> q" for p
    using assms(8) that same [of p] by (cases "queue_at s p") (auto simp: contents_def)
  moreover have "contents s' q = contents s q @ [(typ, Some t)]"
    using assms(3-7) same [OF assms(4)] by (simp add: contents_def)
  ultimately show ?thesis by blast
qed

lemma contents_recv:
  assumes "msg_ok c s'" "msg_map s' = (msg_map s)[k := None]" "k < length (msg_map s)" "queue_at s q = Some d"
    "queue_at s' q = Some d'" "msg_first d' = take i (msg_first d) @ drop (i + 1) (msg_first d)" "\<forall>p. p \<noteq> q \<longrightarrow> queue_at s' p = queue_at s p"
  shows "contents s' q = take i (contents s q) @ drop (i + 1) (contents s q) \<and> (\<forall>p. p \<noteq> q \<longrightarrow> contents s' p = contents s p)"
proof -
  have same: "msg_map s' ! msg_spot m = msg_map s ! msg_spot m" if h: "queue_at s' p = Some e" "m \<in> set (msg_first e)" for p e m
  proof -
    obtain u where "msg_map s' ! msg_spot m = Some u" using text_there [OF assms(1) h] by blast
    then have "msg_spot m \<noteq> k" using assms(2,3) by auto
    then show ?thesis using assms(2) by simp
  qed
  have "contents s' p = contents s p" if "p \<noteq> q" for p
    using assms(7) that same [of p] by (cases "queue_at s p") (auto simp: contents_def)
  moreover have "contents s' q = map (\<lambda>m. (msg_type m, msg_map s ! msg_spot m)) (msg_first d')"
    using same [OF assms(5)] assms(5) by (simp add: contents_def)
  ultimately show ?thesis using assms(4,6) by (simp add: contents_def take_map drop_map)
qed

section \<open>Properties\<close>

text \<open>The caller gets the permission without the help of others' bits (which leave an error behind).\<close>

definition granted :: "ipc_perm \<Rightarrow> perms \<Rightarrow> user \<Rightarrow> bool" where
  "granted ip mode u \<longleftrightarrow> user_class ip u \<noteq> CRED_OTHER \<and> \<not> fst (ipc_lack_perm ip mode u) \<and> u_err u = None"

lemma grantedD: "granted ip mode u \<Longrightarrow> ipc_lack_perm ip mode u = (False, snd (ipc_lack_perm ip mode u)) \<and> u_err (snd (ipc_lack_perm ip mode u)) = None"
  using ipc_lack_perm_err [of ip mode u] by (auto simp: granted_def prod_eq_iff)

text \<open>C23: \<open>umsgsnd\<close> delivers: a message of a valid type and size, sent with permission to a queue with room for it, is appended
  to the contents of the queue and to no other; in particular a free entry of the map of messages is always found. The
  sizes that \<open>kalloc\<close> grants are the only other condition.\<close>

theorem umsgsnd_delivers:
  assumes "msg_inv c s" "msqs s = Some ds" "find_seq qid 0 ds = Some q" "queue_at s q = Some d" "queue_alloc d" "has_room c (int (length t)) d"
    "granted (msg_perm d) MSG_WRITE u" "1 \<le> typ" "t \<noteq> []" "int (length t) \<le> NMSC c" "int (length t) \<le> NMSQB s"
  shows "\<exists>s' v. umsgsnd c now True True qid typ (int (length t)) (Some t) nowait ws u s = Some (Done s' (0, v)) \<and> msg_inv c s' \<and>
    contents s' q = contents s q @ [(typ, Some t)] \<and> (\<forall>p. p \<noteq> q \<longrightarrow> contents s' p = contents s p)"
proof -
  have ok: "msg_ok c s" using assms(1) by (simp add: msg_inv_def)
  then have len: "take (NMSQID c) ds = ds" using assms(2) by (simp add: msg_ok_def)
  define v where "v = snd (ipc_lack_perm (msg_perm d) MSG_WRITE u)"
  have v: "ipc_lack_perm (msg_perm d) MSG_WRITE u = (False, v)" "u_err v = None" using grantedD [OF assms(7)] by (simp_all add: v_def)
  have h: "holding c q (gate_lock q s)" using msg_inv_lock [OF assms(1,4)] .
  have g: "\<not> msg_gate s ! q" using gate_free [OF assms(1)] queue_sizes [OF ok assms(4)] by simp
  have lq: "queue_at (gate_lock q s) q = Some d" using assms(4) by simp
  obtain i where i: "find_spot 0 (take (NMSQID c * nat (NMSG c)) (msg_map s)) = Some i"
    using spot_exists [OF ok assms(4)] assms(6) by (auto simp: has_room_def)
  then have i': "find_spot 0 (take (NMSQID c * nat (NMSG c)) (msg_map (gate_lock q s))) = Some i" by simp
  note sp = spot_free [OF ok assms(4) i]
  obtain r u' s' where st: "send_store c now True True q typ (int (length t)) (Some t) v (gate_lock q s) = Some (r, u', s')"
    using i v(2) assms(4,9) by (auto simp: send_store_def Let_def)
  have o1: "msg_inv c s'" by (rule send_store_ok(1) [OF h lq assms(5,6) _ i' st]) simp
  obtain d' where d': "r = 0" "u' = v" "msg_map s' = (msg_map s)[i := Some t]" "queue_at s' q = Some d'"
    "msg_first d' = msg_first d @ [\<lparr>msg_type = typ, msg_ts = int (length t), msg_spot = i\<rparr>]" "\<forall>p. p \<noteq> q \<longrightarrow> queue_at s' p = queue_at s p"
    using send_store_ok(2) [OF h lq assms(5,6) _ i' st v(2) TrueI TrueI refl] by auto
  have "umsgsnd c now True True qid typ (int (length t)) (Some t) nowait ws u s = Some (Done s' (0, v))"
    using assms(2,3,8-11) assms(6) len v g d'(1,2) st assms(4) by (simp add: umsgsnd_def send_wait_step [OF lq])
  moreover note contents_send [OF ok conjunct2 [OF sp] conjunct1 [OF sp] assms(4) d'(3-6)]
  ultimately show ?thesis using o1 by auto
qed

text \<open>C24: When the identifier is that of a queue in use, which the caller may read, and a message that is wanted is there, \<open>umsgrcv\<close> gives its caller the one that the type
  asks for (the first; the first of a type; the first of the lowest type within a bound), provided that the caller's buffer can be written and the message fits in it or
  \<open>MSG_NOERROR\<close> is given; then it is cut to the size of the buffer. It takes that message, and nothing else, from the queue, all others keeping their order.\<close>

theorem umsgrcv_selects:
  assumes "msg_inv c s" "0 \<le> qid" "q = nat qid mod NMSQID c" "queue_at s q = Some d" "int (queue_seq d) = qid" "queue_alloc d"
    "granted (msg_perm d) MSG_READ u" "wanted msgtyp (map fst (contents s q)) i" "noerror \<or> int (length t) \<le> msgsz" "snd (contents s q ! i) = Some t"
  shows "\<exists>s' v. umsgrcv c now qid msgsz msgtyp noerror nowait True ws u s =
      Some (Done s' (min msgsz (int (length t)), Some (fst (contents s q ! i), take (nat msgsz) t), v)) \<and> msg_inv c s' \<and>
    contents s' q = take i (contents s q) @ drop (i + 1) (contents s q) \<and> (\<forall>p. p \<noteq> q \<longrightarrow> contents s' p = contents s p)"
proof -
  have ok: "msg_ok c s" using assms(1) by (simp add: msg_inv_def)
  define v where "v = snd (ipc_lack_perm (msg_perm d) MSG_READ u)"
  have v: "ipc_lack_perm (msg_perm d) MSG_READ u = (False, v)" "u_err v = None" using grantedD [OF assms(7)] by (simp_all add: v_def)
  have h: "holding c q (gate_lock q s)" using msg_inv_lock [OF assms(1,4)] .
  have g: "\<not> msg_gate s ! q" using gate_free [OF assms(1)] queue_sizes [OF ok assms(4)] by simp
  have lq: "queue_at (gate_lock q s) q = Some d" using assms(4) by simp
  have cs: "contents s q = map (\<lambda>m. (msg_type m, msg_map s ! msg_spot m)) (msg_first d)" using assms(4) by (simp add: contents_def)
  then have "map fst (contents s q) = map msg_type (msg_first d)" by simp
  then have w: "find_msg msgtyp (msg_first d) = Some i" using find_msg_wanted assms(8) by simp
  note il = find_msg_less [OF w]
  let ?m = "msg_first d ! i"
  have m: "fst (contents s q ! i) = msg_type ?m" "msg_map s ! msg_spot ?m = Some t" using il assms(10) by (simp_all add: cs)
  from recv_take_ok [OF h lq il, of now msgsz noerror True v] v(2) m(2) assms(9) obtain s' d' where
    tk: "recv_take now q i msgsz noerror True v (gate_lock q s) = Some (min msgsz (int (length t)), Some (msg_type ?m, take (nat msgsz) t), v, s')"
    "msg_inv c s'" "msg_map s' = (msg_map s)[msg_spot ?m := None]" "queue_at s' q = Some d'"
    "msg_first d' = take i (msg_first d) @ drop (i + 1) (msg_first d)" "\<forall>p. p \<noteq> q \<longrightarrow> queue_at s' p = queue_at s p" by auto
  have ds: "msqs s \<noteq> None" using queue_sizes [OF ok assms(4)] by simp
  have "umsgrcv c now qid msgsz msgtyp noerror nowait True ws u s =
      Some (Done s' (min msgsz (int (length t)), Some (msg_type ?m, take (nat msgsz) t), v))"
    using assms(2-6) ds v g w tk(1) by (simp add: umsgrcv_def Let_def recv_wait_step [OF lq [unfolded assms(3)]])
  moreover have "msg_spot ?m < length (msg_map s)"
  proof -
    obtain es where es: "msqs s = Some es" "q < length es" "es ! q = d" using assms(4) unfolding queue_at_Some by blast
    have "?m \<in># all_msgs es" using es il by (auto simp: all_msgs_def intro!: bexI [of _ d])
    then obtain M where "all_msgs es = add_mset ?m M" by (metis insert_DiffM)
    then show ?thesis using ok es(1) map_ok_del [of "msg_map s" ?m M] by (simp add: msg_ok_def)
  qed
  moreover have "msg_ok c s'" using tk(2) by (simp add: msg_inv_def)
  ultimately show ?thesis using contents_recv [OF _ tk(3) _ assms(4) tk(4-6)] tk(2) m(1) by auto
qed

text \<open>C25: Every message system call keeps the queues in order and releases the gates, also when it sleeps: the counts and
  sizes of a queue are those of its messages, a free queue is empty, and each entry of the map in use belongs to one message. This takes a map that
  was clear when it was allocated, and that no free queue has the number of a queue to be sent to.\<close>

theorem umsgsys_keeps:
  assumes "msg_inv c s" "0 \<le> NMSG c" "\<And>m. mem3 = Some m \<Longrightarrow> m = replicate (NMSQID c * nat (NMSG c)) None"
    "\<And>qid typ n t nw. call = Msgsnd qid typ n t nw \<Longrightarrow> named qid s \<and> calm (\<lambda>s. msg_inv c s \<and> named qid s) ws \<and> (\<forall>x. t = Some x \<longrightarrow> int (length x) = n)"
    "calm (msg_inv c) ws" "umsgsys c now mem1 mem2 mem3 call ws u s = Some r"
  shows "case r of Blocked s' \<Rightarrow> msg_inv c s' | Done s' _ \<Rightarrow> msg_inv c s'"
proof (cases call)
  case (Msgget key flg)
  obtain r' u' s' where "umsgget c now mem1 mem2 mem3 key flg u s = Some (r', u', s')" "msg_inv c s'"
    using umsgget_inv [OF assms(1,2), where ?mem3.0 = mem3] assms(3) by metis
  then show ?thesis using assms(6) Msgget by (auto simp: umsgsys_def)
next
  case (Msgctl qid cmd)
  then obtain r' d' u' s' where "umsgctl c now qid cmd u s = Some (r', d', u', s')" "r = Done s' (Some r', Stat_result d', u')"
    using assms(6) by (auto simp: umsgsys_def)
  then show ?thesis using umsgctl_inv [OF assms(1,2)] by simp
next
  case (Msgrcv qid n t noerror nw can)
  then obtain x where x: "umsgrcv c now qid n t noerror nw can ws u s = Some x"
    "r = (case x of Blocked s \<Rightarrow> Blocked s | Done s (r, out, u) \<Rightarrow> Done s (Some r, Recv_result out, u))" using assms(6) by (auto simp: umsgsys_def)
  then show ?thesis using umsgrcv_inv [OF assms(1,5) x(1)] by (cases x) (auto simp: split_beta)
next
  case (Msgsnd qid ty n t nw)
  then obtain x where x: "umsgsnd c now mem1 mem2 qid ty n t nw ws u s = Some x"
    "r = (case x of Blocked s \<Rightarrow> Blocked s | Done s (r, u) \<Rightarrow> Done s (Some r, No_result, u))" using assms(6) by (auto simp: umsgsys_def)
  have a: "named qid s" "calm (\<lambda>s. msg_inv c s \<and> named qid s) ws" "\<And>x. t = Some x \<Longrightarrow> int (length x) = n" using assms(4) [OF Msgsnd] by auto
  show ?thesis using umsgsnd_inv [OF assms(1) a x(1)] x(2) by (cases x) (auto simp: split_beta)
next
  case Msg_nosys
  then show ?thesis using assms(1,6) by (auto simp: umsgsys_def)
qed

text \<open>A message without text brings the system down: \<open>umsgsnd\<close> lets the size 0 pass and asks \<open>kalloc\<close>
  for no bytes, which panics (a fault of the model), for every user who may write to a queue that has room.\<close>

theorem umsgsnd_empty_panics:
  assumes "msg_inv c s" "msqs s = Some ds" "find_seq qid 0 ds = Some q" "queue_at s q = Some d" "has_room c 0 d"
    "granted (msg_perm d) MSG_WRITE u" "1 \<le> typ" "0 \<le> NMSC c" "0 \<le> NMSQB s"
  shows "umsgsnd c now True mem2 qid typ 0 text nowait ws u s = None"
proof -
  have ok: "msg_ok c s" using assms(1) by (simp add: msg_inv_def)
  then have len: "take (NMSQID c) ds = ds" using assms(2) by (simp add: msg_ok_def)
  have g: "\<not> msg_gate s ! q" using gate_free [OF assms(1)] queue_sizes [OF ok assms(4)] by simp
  have lq: "queue_at (gate_lock q s) q = Some d" using assms(4) by simp
  obtain i where "find_spot 0 (take (NMSQID c * nat (NMSG c)) (msg_map s)) = Some i"
    using spot_exists [OF ok assms(4)] assms(5) by (auto simp: has_room_def)
  moreover obtain v where "ipc_lack_perm (msg_perm d) MSG_WRITE u = (False, v)" using grantedD [OF assms(6)] by blast
  ultimately show ?thesis using assms(2-5,7-9) len g
    by (simp add: umsgsnd_def send_wait_step [OF lq] send_store_def)
qed

text \<open>\<open>IPC_RMID\<close> gives a queue a new number, 50 higher, but \<open>umsgctl\<close> and \<open>umsgrcv\<close> look for a queue at its number modulo
  \<open>NMSQID\<close>: unless \<open>NMSQID\<close> divides 50, a queue made again after a removal can be sent to, and its messages can be neither received nor
  can it be removed.\<close>

theorem msg_number_stranded:
  assumes "queue_at s q = Some d" "queue_seq d = q + 50" "q < NMSQID c" "\<not> NMSQID c dvd 50"
    "\<And>p e. queue_at s p = Some e \<Longrightarrow> queue_seq e = q + 50 \<Longrightarrow> p = q" "\<And>p. p < NMSQID c \<Longrightarrow> queue_at s p \<noteq> None" "\<not> is_stat cmd"
  shows "umsgrcv c now (int (q + 50)) msgsz msgtyp noerror nowait ok ws u s = Some (Done s (- 1, None, set_user_error EINVAL u)) \<and>
    umsgctl c now (int (q + 50)) cmd u s = Some (- 1, None, set_user_error EINVAL u, s)"
proof -
  let ?p = "(q + 50) mod NMSQID c"
  have "0 < NMSQID c" using assms(3) by simp
  then obtain e where e: "queue_at s ?p = Some e" using assms(6) [of ?p] by auto
  have "?p \<noteq> q"
  proof
    assume "?p = q"
    then have "(q + 50) mod NMSQID c = q mod NMSQID c" using assms(3) by simp
    then have "NMSQID c dvd (q + 50) - q" by (metis mod_eq_dvd_iff_nat le_add1)
    then show False using assms(4) by simp
  qed
  then have "queue_seq e \<noteq> q + 50" using assms(5) [OF e] by blast
  moreover have "nat (int (q + 50)) = q + 50" by (rule nat_int)
  moreover have "msqs s \<noteq> None" using assms(1) by (auto simp: queue_at_Some)
  moreover have "int (queue_seq e) \<noteq> int (q + 50)" using calculation(1) by (simp only: of_nat_eq_iff simp_thms)
  ultimately show ?thesis using e assms(7) unfolding umsgrcv_def umsgctl_def Let_def by simp
qed

section \<open>Examples\<close>

definition example_cfg :: msg_cfg where
  "example_cfg = \<lparr>NMSQID = 3, NMSG = 3, NMSC = 100, IPC_PRIVATE = 0\<rparr>"

text \<open>Three queues, the first in use under the number \<open>n\<close> with two messages.\<close>

definition example_queue :: "nat \<Rightarrow> msqid_ds" where
  "example_queue n = (init_queue 0 1000 0)\<lparr>msg_perm := public_perm\<lparr>ip_seq := n\<rparr>,
     msg_first := [\<lparr>msg_type = 4, msg_ts = 1, msg_spot = 0\<rparr>, \<lparr>msg_type = 2, msg_ts = 2, msg_spot = 5\<rparr>], msg_cbytes := 3, msg_qnum := 2\<rparr>"

definition example_msgs :: "nat \<Rightarrow> msgs" where
  "example_msgs n = \<lparr>msqs = Some [example_queue n, init_queue 0 1000 1, init_queue 0 1000 2], msg_gate = [False, False, False],
     msg_map = [Some [7], None, None, None, None, Some [8, 9], None, None, None], NMSQB = 1000, msg_log = []\<rparr>"

lemma example_queue_at: "queue_at (example_msgs n) q =
    (if q = 0 then Some (example_queue n) else if q < 3 then Some (init_queue 0 1000 q) else None)"
  by (auto simp: queue_at_def example_msgs_def nth_Cons numeral_2_eq_2 numeral_3_eq_3 split: nat.split)

lemma example_seqs [simp]: "queue_seq (example_queue n) = n" "queue_alloc (example_queue n)" "queue_seq (init_queue t b i) = i"
  "\<not> queue_alloc (init_queue t b i)" "msg_first (init_queue t b i) = []"
  by (simp_all add: example_queue_def init_queue_def public_perm_def)

lemma example_msgs_inv: "msg_inv example_cfg (example_msgs n)"
proof -
  have m: "map_ok (msg_map (example_msgs n)) {#\<lparr>msg_type = 4, msg_ts = 1, msg_spot = 0\<rparr>, \<lparr>msg_type = 2, msg_ts = 2, msg_spot = 5\<rparr>#}"
    by (auto simp: map_ok_def example_msgs_def nth_Cons' less_Suc_eq numeral_eq_Suc)
  show ?thesis using m
    by (auto simp: msg_inv_def msg_ok_def queue_ok_def example_cfg_def example_msgs_def all_msgs_def example_queue_def init_queue_def
        public_perm_def)
qed

lemma example_granted: "mode CRED_OWNER \<subseteq> {PREAD, PWRITE} \<Longrightarrow> mode CRED_OWNER \<noteq> {} \<Longrightarrow> granted (msg_perm (example_queue n)) mode example_owner"
  by (auto simp: granted_def example_queue_def user_class_def fst_ipc_lack_perm public_perm_def example_owner_def)

lemma example_contents: "contents (example_msgs n) 0 = [(4, Some [7]), (2, Some [8, 9])]"
  unfolding contents_def example_queue_at by (simp add: example_queue_def example_msgs_def)

theorem umsgsnd_delivers_witness:
  "\<exists>s' v. umsgsnd example_cfg 9 True True 0 6 3 (Some [1, 2, 3]) False [] example_owner (example_msgs 0) = Some (Done s' (0, v)) \<and>
    contents s' 0 = [(4, Some [7]), (2, Some [8, 9]), (6, Some [1, 2, 3])]"
proof -
  have d: "msqs (example_msgs 0) = Some [example_queue 0, init_queue 0 1000 1, init_queue 0 1000 2]" by (simp add: example_msgs_def)
  have f: "find_seq 0 0 [example_queue 0, init_queue 0 1000 1, init_queue 0 1000 2] = Some 0" by simp
  have q: "queue_at (example_msgs 0) 0 = Some (example_queue 0)" by (simp add: example_queue_at)
  have h: "has_room example_cfg (int (length [1, 2, 3 :: nat])) (example_queue 0)"
    by (simp add: has_room_def example_cfg_def example_queue_def init_queue_def)
  have g: "granted (msg_perm (example_queue 0)) MSG_WRITE example_owner" by (rule example_granted) (simp_all add: MSG_WRITE_def)
  have l: "1 \<le> (6::int)" "[1, 2, 3 :: nat] \<noteq> []" "int (length [1, 2, 3 :: nat]) \<le> NMSC example_cfg"
    "int (length [1, 2, 3 :: nat]) \<le> NMSQB (example_msgs 0)" by (simp_all add: example_cfg_def example_msgs_def)
  from umsgsnd_delivers [OF example_msgs_inv d f q example_seqs(2) h g l, of 9 False "[]"] show ?thesis
    unfolding example_contents by auto
qed

theorem umsgrcv_selects_witness:
  "\<exists>s' v. umsgrcv example_cfg 9 0 1 (- 3) True False True [] example_owner (example_msgs 0) = Some (Done s' (1, Some (2, [8]), v)) \<and>
    contents s' 0 = [(4, Some [7])]"
proof -
  have q: "queue_at (example_msgs 0) 0 = Some (example_queue 0)" by (simp add: example_queue_at)
  have m: "(0::nat) = nat 0 mod NMSQID example_cfg" by (simp add: example_cfg_def)
  have g: "granted (msg_perm (example_queue 0)) MSG_READ example_owner" by (rule example_granted) (simp_all add: MSG_READ_def)
  have w: "wanted (- 3) (map fst (contents (example_msgs 0) 0)) 1" by (simp add: example_contents wanted_def less_Suc_eq)
  have c: "snd (contents (example_msgs 0) 0 ! 1) = Some [8, 9]" "True \<or> int (length [8, 9 :: nat]) \<le> 1" by (simp_all add: example_contents)
  have s: "int (queue_seq (example_queue 0)) = 0" by simp
  from umsgrcv_selects [OF example_msgs_inv order_refl m q s example_seqs(2) g w c(2,1), of 9 False "[]"] show ?thesis
    by (simp add: example_contents) blast
qed

theorem umsgsys_keeps_witness:
  "\<exists>r. umsgsys example_cfg 9 True True None (Msgctl 0 Msg_rmid) [] example_owner (example_msgs 0) = Some r \<and>
    (case r of Blocked s' \<Rightarrow> msg_inv example_cfg s' | Done s' _ \<Rightarrow> msg_inv example_cfg s')"
proof -
  have q: "queue_at (example_msgs 0) 0 = Some (example_queue 0)" by (simp add: example_queue_at)
  obtain r where r: "umsgsys example_cfg 9 True True None (Msgctl 0 Msg_rmid) [] example_owner (example_msgs 0) = Some r"
    using msg_rmid_inv [OF example_msgs_inv q, of 9 example_owner] q
    by (auto simp: umsgsys_def umsgctl_def example_cfg_def Let_def split_beta)
  show ?thesis using umsgsys_keeps [OF example_msgs_inv _ _ _ _ r] r by (simp add: example_cfg_def)
qed

theorem umsgsnd_empty_panics_witness:
  "umsgsnd example_cfg 9 True True 0 1 0 (Some []) False [] example_owner (example_msgs 0) = None"
proof -
  have d: "msqs (example_msgs 0) = Some [example_queue 0, init_queue 0 1000 1, init_queue 0 1000 2]" by (simp add: example_msgs_def)
  have f: "find_seq 0 0 [example_queue 0, init_queue 0 1000 1, init_queue 0 1000 2] = Some 0" by simp
  have q: "queue_at (example_msgs 0) 0 = Some (example_queue 0)" by (simp add: example_queue_at)
  have h: "has_room example_cfg 0 (example_queue 0)" by (simp add: has_room_def example_cfg_def example_queue_def init_queue_def)
  have g: "granted (msg_perm (example_queue 0)) MSG_WRITE example_owner" by (rule example_granted) (simp_all add: MSG_WRITE_def)
  have l: "1 \<le> (1::int)" "0 \<le> NMSC example_cfg" "0 \<le> NMSQB (example_msgs 0)" by (simp_all add: example_cfg_def example_msgs_def)
  show ?thesis by (rule umsgsnd_empty_panics [OF example_msgs_inv d f q h g l])
qed

theorem msg_number_stranded_witness:
  "umsgrcv example_cfg 9 50 100 0 False True True [] example_owner (example_msgs 50) =
     Some (Done (example_msgs 50) (- 1, None, set_user_error EINVAL example_owner)) \<and>
   umsgctl example_cfg 9 50 Msg_rmid example_owner (example_msgs 50) = Some (- 1, None, set_user_error EINVAL example_owner, example_msgs 50)"
proof -
  have q: "queue_at (example_msgs 50) 0 = Some (example_queue 50)" "queue_seq (example_queue 50) = 0 + 50" "0 < NMSQID example_cfg"
    "\<not> NMSQID example_cfg dvd 50" by (simp_all add: example_queue_at example_cfg_def)
  have "\<And>p e. queue_at (example_msgs 50) p = Some e \<Longrightarrow> queue_seq e = 0 + 50 \<Longrightarrow> p = 0"
    by (auto simp: example_queue_at split: if_splits)
  moreover have "\<And>p. p < NMSQID example_cfg \<Longrightarrow> queue_at (example_msgs 50) p \<noteq> None" by (simp add: example_queue_at example_cfg_def)
  ultimately show ?thesis using msg_number_stranded [OF q, of Msg_rmid 9 100 0 False True True "[]" example_owner] by simp
qed

end
