(* ===== verification/RLock.thy ===== *)
theory RLock
  imports Prelude
begin

text \<open>
  Record locks on files, \<open>coh.386/rlock.c\<close>: for each inode the list of active locks, the locks that processes wait for, and the
  free list, of which only the length matters. An inode and a process are known by numbers. A \<open>long\<close> has 32 bits, and sums that the code forms without a check wrap round. The
  gate \<open>__rlgate\<close> is a flag of the state; the other processes act only while a caller sleeps in \<open>waitlock\<close>, as a script says.
\<close>

section \<open>State\<close>

text \<open>\<open>rl_type\<close> is true for a write lock; an end of -1 means the end of the file, wherever that will be.\<close>

record rlock =
  rl_type :: bool
  rl_start :: int
  rl_end :: int
  rl_proc :: nat

record rlocks =
  i_rl :: "nat \<Rightarrow> rlock list"
  freerl :: nat
  rl_gate :: bool
  p_prl :: "nat \<Rightarrow> (rlock \<times> nat) option"
  rl_log :: "nat list"

datatype l_type = F_RDLCK | F_WRLCK | F_UNLCK

datatype l_whence = SEEK_SET | SEEK_CUR | SEEK_END

datatype rl_cmd = F_GETLK | F_SETLK | F_SETLKW

record flock =
  l_type :: l_type
  l_whence :: l_whence
  l_start :: int
  l_len :: int
  l_pid :: nat

text \<open>What the routines read of an entry of the file table, and of its inode.\<close>

record fd_view =
  f_ip :: nat
  f_seek :: int
  f_ipr :: bool
  f_ipw :: bool
  i_size :: int

text \<open>Arithmetic on \<open>long\<close>.\<close>

definition long :: "int \<Rightarrow> int" where
  "long x = (x + 2147483648) mod 4294967296 - 2147483648"

section \<open>Searching\<close>

definition meets :: "rlock \<Rightarrow> rlock \<Rightarrow> bool" where
  "meets lock block \<longleftrightarrow>
     (if rl_end lock = - 1 then rl_end block = - 1 \<or> rl_end block \<ge> rl_start lock
      else rl_end lock \<ge> rl_start block \<and> (rl_end block = - 1 \<or> rl_end block \<ge> rl_start lock))"

text \<open>The list from the next element on that \<open>lock\<close> meets, or that blocks it; empty when there is none.\<close>

primrec nextmeet :: "rlock list \<Rightarrow> rlock \<Rightarrow> rlock list" where
  "nextmeet [] lock = []"
| "nextmeet (b # bs) lock = (if meets lock b then b # bs else nextmeet bs lock)"

definition blocks :: "rlock \<Rightarrow> rlock \<Rightarrow> bool" where
  "blocks lock b \<longleftrightarrow> rl_proc lock \<noteq> rl_proc b \<and> (rl_type lock \<or> rl_type b)"

lemma length_nextmeet: "length (nextmeet bs lock) \<le> length bs"
  by (induction bs) auto

function nextblock :: "rlock list \<Rightarrow> rlock \<Rightarrow> rlock list" where
  "nextblock bs lock = (case nextmeet bs lock of [] \<Rightarrow> [] | b # cs \<Rightarrow> if blocks lock b then b # cs else nextblock cs lock)"
  by pat_completeness auto
termination
proof (relation "measure (\<lambda>(bs, _). length bs)")
  show "((cs, lock), (bs, lock)) \<in> measure (\<lambda>(bs, _). length bs)" if "nextmeet bs lock = b # cs" for bs b cs lock
    using length_nextmeet [of bs lock] that by simp
qed simp

declare nextblock.simps [simp del]

section \<open>The lists of locks\<close>

definition getlock :: "rlocks \<Rightarrow> errno + rlocks" where
  "getlock s = (if freerl s = 0 then Inl ENOLCK else Inr (s\<lparr>freerl := freerl s - 1\<rparr>))"

text \<open>
  What is left of \<open>old\<close> when \<open>new\<close> is taken out of it: nothing, one piece, or two, the second of which needs a lock from the
  free list.
\<close>

datatype extracted = Gone | Cut rlock | Split rlock rlock

definition rl_extract :: "rlock \<Rightarrow> rlock \<Rightarrow> extracted" where
  "rl_extract old new =
     (if rl_start new \<le> rl_start old then
        (if rl_end new = - 1 \<or> (rl_end old \<noteq> - 1 \<and> rl_end new \<ge> rl_end old) then Gone
         else Cut (old\<lparr>rl_start := long (rl_end new + 1)\<rparr>))
      else
        let tend = rl_end old; cut = old\<lparr>rl_end := rl_start new - 1\<rparr>
        in if rl_end new = - 1 \<or> (tend \<noteq> - 1 \<and> rl_end new \<ge> tend) then Cut cut
           else Split cut (old\<lparr>rl_start := long (rl_end new + 1), rl_end := tend\<rparr>))"

text \<open>
  \<open>remlock\<close>: the result is false when the free list has run out. The second piece of a lock that is split is behind what is
  removed, so the walk passes over it.
\<close>

primrec remlock :: "rlock list \<Rightarrow> rlock \<Rightarrow> nat \<Rightarrow> bool \<times> rlock list \<times> nat" where
  "remlock [] lock free = (True, [], free)"
| "remlock (b # bs) lock free =
     (if meets lock b \<and> rl_proc b = rl_proc lock then
        (case rl_extract b lock of
           Gone \<Rightarrow> remlock bs lock (free + 1)
         | Cut c \<Rightarrow> (let (r, cs, free) = remlock bs lock free in (r, c # cs, free))
         | Split c d \<Rightarrow>
             if free = 0 then (False, b # bs, free)
             else (let (r, cs, free) = remlock bs lock (free - 1) in (r, c # d # cs, free)))
      else (let (r, cs, free) = remlock bs lock free in (r, b # cs, free)))"

text \<open>The neighbours of the same owner and type that \<open>addlock\<close> joins with the new lock: they go to the free list.\<close>

primrec absorb :: "rlock list \<Rightarrow> rlock \<Rightarrow> int \<Rightarrow> int \<Rightarrow> nat \<Rightarrow> rlock list \<times> int \<times> int \<times> nat" where
  "absorb [] lock lo hi free = ([], lo, hi, free)"
| "absorb (b # bs) lock lo hi free =
     (if meets lock b \<and> rl_proc b = rl_proc lock \<and> rl_type b = rl_type lock then
        absorb bs lock (if rl_start b < lo then rl_start b else lo)
          (if hi \<noteq> - 1 \<and> (rl_end b = - 1 \<or> rl_end b \<ge> hi) then rl_end b else hi) (free + 1)
      else (let (cs, lo, hi, free) = absorb bs lock lo hi free in (b # cs, lo, hi, free)))"

definition addlock :: "nat \<Rightarrow> rlock \<Rightarrow> rlocks \<Rightarrow> int \<times> errno option \<times> rlocks" where
  "addlock i lock s =
     (let wide = lock\<lparr>rl_start := if rl_start lock \<noteq> 0 then rl_start lock - 1 else rl_start lock,
            rl_end := if rl_end lock \<noteq> - 1 then long (rl_end lock + 1) else rl_end lock\<rparr>;
          (bs, lo, hi, free) = absorb (i_rl s i) wide (rl_start lock) (rl_end lock) (freerl s);
          s = s\<lparr>i_rl := (i_rl s)(i := bs), freerl := free\<rparr>
      in case getlock s of
           Inl e \<Rightarrow> (- 1, Some e, s)
         | Inr s \<Rightarrow>
             let new = \<lparr>rl_type = rl_type lock, rl_start = lo, rl_end = hi, rl_proc = rl_proc lock\<rparr>;
                 (r, cs, free) = remlock bs new (freerl s)
             in (0, if r then None else Some ENOLCK, s\<lparr>i_rl := (i_rl s)(i := new # cs), freerl := free\<rparr>))"

section \<open>Waiting\<close>

text \<open>
  \<open>waiting\<close> walks along the locks that block what \<open>pp\<close> waits for, and from their owners on; \<^const>\<open>None\<close> would be a walk that does not end.
\<close>

partial_function (option) wait_scan :: "nat \<Rightarrow> rlocks \<Rightarrow> rlock \<Rightarrow> rlock list \<Rightarrow> bool option" where
  "wait_scan self s lock bs = (case nextblock bs lock of
     [] \<Rightarrow> Some False
   | b # cs \<Rightarrow>
       if rl_proc b = self then Some True
       else (case p_prl s (rl_proc b) of
           None \<Rightarrow> wait_scan self s lock cs
         | Some (l, i) \<Rightarrow> do {
             r \<leftarrow> wait_scan self s l (i_rl s i);
             if r then Some True else wait_scan self s lock cs
           }))"

definition waiting :: "nat \<Rightarrow> rlocks \<Rightarrow> nat \<Rightarrow> bool option" where
  "waiting self s pp = (case p_prl s pp of None \<Rightarrow> Some False | Some (lock, i) \<Rightarrow> wait_scan self s lock (i_rl s i))"

function deadlock :: "nat \<Rightarrow> rlocks \<Rightarrow> rlock \<Rightarrow> rlock list \<Rightarrow> bool option" where
  "deadlock self s rl bs = (case nextblock bs rl of
     [] \<Rightarrow> Some False
   | b # cs \<Rightarrow> do { r \<leftarrow> waiting self s (rl_proc b); if r then Some True else deadlock self s rl cs })"
  by pat_completeness auto

lemma length_nextblock: "length (nextblock bs lock) \<le> length bs"
proof (induction bs lock rule: nextblock.induct)
  case (1 bs lock)
  show ?case
  proof (cases "nextmeet bs lock")
    case Nil
    then show ?thesis by (simp add: nextblock.simps)
  next
    case (Cons b cs)
    then have "length (b # cs) \<le> length bs" using length_nextmeet [of bs lock] by simp
    then show ?thesis using Cons 1 [OF Cons] by (subst nextblock.simps) fastforce
  qed
qed

termination deadlock
proof (relation "measure (\<lambda>(_, _, _, bs). length bs)")
  show "((self, s, rl, cs), self, s, rl, bs) \<in> measure (\<lambda>(_, _, _, bs). length bs)" if "nextblock bs rl = b # cs"
    for self s rl bs b cs
    using length_nextblock [of bs rl] that by simp
qed simp

declare deadlock.simps [simp del]

definition wait_cleanup :: "nat \<Rightarrow> rlocks \<Rightarrow> rlocks" where
  "wait_cleanup self s = s\<lparr>p_prl := (p_prl s)(self := None), freerl := freerl s + 1\<rparr>"

fun wait_loop :: "nat \<Rightarrow> nat \<Rightarrow> rlock \<Rightarrow> rlocks wake list \<Rightarrow> rlocks \<Rightarrow> (rlocks, int \<times> errno option) outcome option" where
  "wait_loop self i rl ws s = do {
     d \<leftarrow> deadlock self s rl (i_rl s i);
     if d then Some (Done (wait_cleanup self s) (- 1, Some EDEADLK))
     else
       let s = s\<lparr>rl_gate := False\<rparr> in
       (case ws of [] \<Rightarrow> Some (Blocked s)
        | w # ws \<Rightarrow>
            let s = (fst w s)\<lparr>rl_gate := True\<rparr> in
            if snd w then Some (Done (wait_cleanup self s) (- 1, Some EINTR))
            else if nextblock (i_rl s i) rl \<noteq> [] then wait_loop self i rl ws s
            else (let (r, e, s) = addlock i rl (wait_cleanup self s) in Some (Done s (r, e))))
   }"

declare wait_loop.simps [simp del]

definition waitlock :: "nat \<Rightarrow> nat \<Rightarrow> rlock \<Rightarrow> rlocks wake list \<Rightarrow> rlocks \<Rightarrow> (rlocks, int \<times> errno option) outcome option" where
  "waitlock self i srl ws s =
     (if nextblock (i_rl s i) srl \<noteq> [] then
        (case getlock s of
           Inl e \<Rightarrow> Some (Done s (- 1, Some e))
         | Inr s \<Rightarrow> wait_loop self i srl ws (s\<lparr>p_prl := (p_prl s)(self := Some (srl, i))\<rparr>))
      else (let (r, e, s) = addlock i srl s in Some (Done s (r, e))))"

section \<open>The system call\<close>

definition rlock_range :: "nat \<Rightarrow> fd_view \<Rightarrow> flock \<Rightarrow> rlock" where
  "rlock_range self fdp flp =
     (let start = (case l_whence flp of SEEK_SET \<Rightarrow> l_start flp | SEEK_CUR \<Rightarrow> long (l_start flp + f_seek fdp)
            | SEEK_END \<Rightarrow> long (l_start flp + i_size fdp));
          (start, end) = (if l_len flp > 0 then (start, long (start + l_len flp - 1))
            else if l_len flp = 0 then (start, - 1) else (long (start + l_len flp), long (start - 1)))
      in \<lparr>rl_type = l_type flp \<noteq> F_RDLCK, rl_start = start, rl_end = end, rl_proc = self\<rparr>)"

definition rlock_result :: "rlock \<Rightarrow> (nat \<Rightarrow> nat) \<Rightarrow> flock \<Rightarrow> flock" where
  "rlock_result b pid flp = flp\<lparr>l_type := if rl_type b then F_WRLCK else F_RDLCK, l_whence := SEEK_SET, l_start := rl_start b,
     l_len := if rl_end b = - 1 then 0 else rl_end b - rl_start b + 1, l_pid := pid (rl_proc b)\<rparr>"

text \<open>\<open>pid\<close> gives the process ids. The result has the error, and for \<open>F_GETLK\<close> the description of a lock.\<close>

definition rlock_call :: "nat \<Rightarrow> (nat \<Rightarrow> nat) \<Rightarrow> fd_view \<Rightarrow> rl_cmd \<Rightarrow> flock \<Rightarrow> rlocks wake list \<Rightarrow> rlocks \<Rightarrow>
    (rlocks, int \<times> errno option \<times> flock) outcome option" where
  "rlock_call self pid fdp cmd flp ws s =
     (let srl = rlock_range self fdp flp; i = f_ip fdp in
      if rl_start srl < 0 \<or> rl_end srl < - 1 \<or> (rl_end srl \<noteq> - 1 \<and> rl_start srl > rl_end srl)
      then Some (Done s (- 1, Some EINVAL, flp))
      else
        let s = s\<lparr>rl_gate := True\<rparr>;
            leave = (\<lambda>s. s\<lparr>rl_gate := False, rl_log := rl_log s @ (if cmd \<noteq> F_GETLK then [i] else [])\<rparr>) in
        if cmd = F_GETLK then
          (case nextblock (i_rl s i) srl of
             [] \<Rightarrow> Some (Done (leave s) (0, None, flp\<lparr>l_type := F_UNLCK\<rparr>))
           | b # _ \<Rightarrow> Some (Done (leave s) (0, None, rlock_result b pid flp)))
        else if l_type flp = F_UNLCK then
          (let (r, bs, free) = remlock (i_rl s i) srl (freerl s)
           in Some (Done (leave (s\<lparr>i_rl := (i_rl s)(i := bs), freerl := free\<rparr>))
             (if r then 0 else - 1, if r then None else Some ENOLCK, flp)))
        else if (rl_type srl \<and> \<not> f_ipw fdp) \<or> (\<not> rl_type srl \<and> \<not> f_ipr fdp) then Some (Done (leave s) (- 1, Some EINVAL, flp))
        else if cmd = F_SETLKW then do {
          x \<leftarrow> waitlock self i srl ws s;
          (case x of Blocked s \<Rightarrow> Some (Blocked s) | Done s (r, e) \<Rightarrow> Some (Done (leave s) (r, e, flp)))
        }
        else if nextblock (i_rl s i) srl = [] then
          (let (r, e, s) = addlock i srl s in Some (Done (leave s) (r, e, flp)))
        else Some (Done (leave s) (- 1, Some EACCES, flp)))"

definition rlinit :: "nat \<Rightarrow> bool \<Rightarrow> rlocks \<Rightarrow> (int \<times> rlocks) option" where
  "rlinit n mem s = (if n = 0 then Some (0, s\<lparr>freerl := 0\<rparr>) else if \<not> mem then None else Some (1, s\<lparr>freerl := n\<rparr>))"

section \<open>What a list of locks means\<close>

definition covers :: "rlock \<Rightarrow> int \<Rightarrow> bool" where
  "covers l x \<longleftrightarrow> rl_start l \<le> x \<and> (rl_end l = - 1 \<or> x \<le> rl_end l)"

text \<open>A range as the code forms it, short of the largest position.\<close>

definition proper :: "rlock \<Rightarrow> bool" where
  "proper l \<longleftrightarrow> 0 \<le> rl_start l \<and> rl_start l < 2147483648 \<and> - 1 \<le> rl_end l \<and> (rl_end l \<noteq> - 1 \<longrightarrow> rl_start l \<le> rl_end l) \<and> rl_end l < 2147483647"

text \<open>Process \<open>p\<close> holds a lock of type \<open>t\<close> on position \<open>x\<close>.\<close>

definition holds :: "rlock list \<Rightarrow> nat \<Rightarrow> bool \<Rightarrow> int \<Rightarrow> bool" where
  "holds bs p t x \<longleftrightarrow> (\<exists>b \<in> set bs. rl_proc b = p \<and> rl_type b = t \<and> covers b x)"

lemma holds_simps [simp]: "\<not> holds [] p t x"
  "holds (b # bs) p t x \<longleftrightarrow> (rl_proc b = p \<and> rl_type b = t \<and> covers b x) \<or> holds bs p t x"
  by (auto simp: holds_def)

lemma long_id: "- 2147483648 \<le> x \<Longrightarrow> x < 2147483648 \<Longrightarrow> long x = x"
  by (simp add: long_def)

lemma meets_iff:
  assumes "proper l" "proper b"
  shows "meets l b \<longleftrightarrow> (\<exists>x. covers l x \<and> covers b x)"
proof
  assume "meets l b"
  then have "covers l (max (rl_start l) (rl_start b)) \<and> covers b (max (rl_start l) (rl_start b))"
    using assms by (auto simp: meets_def covers_def proper_def split: if_splits)
  then show "\<exists>x. covers l x \<and> covers b x" by blast
next
  assume "\<exists>x. covers l x \<and> covers b x"
  then show "meets l b" using assms by (auto simp: meets_def covers_def proper_def split: if_splits)
qed

lemma nextmeet_dropWhile: "nextmeet bs l = dropWhile (\<lambda>b. \<not> meets l b) bs"
  by (induction bs) auto

lemma nextblock_dropWhile: "nextblock bs l = dropWhile (\<lambda>b. \<not> (meets l b \<and> blocks l b)) bs"
proof (induction bs l rule: nextblock.induct)
  case (1 bs l)
  have d: "dropWhile (\<lambda>b. \<not> (meets l b \<and> blocks l b)) bs = dropWhile (\<lambda>b. \<not> (meets l b \<and> blocks l b)) (nextmeet bs l)"
    by (induction bs) auto
  show ?case
  proof (cases "nextmeet bs l")
    case Nil
    then show ?thesis by (subst nextblock.simps, subst d) simp
  next
    case (Cons b cs)
    have "meets l b" using Cons unfolding nextmeet_dropWhile by (metis dropWhile_eq_Cons_conv)
    then show ?thesis using Cons 1 [OF Cons] by (subst nextblock.simps, subst d) simp
  qed
qed

lemma nextblock_Nil: "nextblock bs l = [] \<longleftrightarrow> (\<forall>b \<in> set bs. meets l b \<longrightarrow> \<not> blocks l b)"
  by (auto simp: nextblock_dropWhile)

lemma nextblock_Cons:
  assumes "nextblock bs l = b # cs"
  shows "b \<in> set bs" "meets l b" "blocks l b" "set cs \<subseteq> set bs" "set bs - set (b # cs) \<subseteq> {c. \<not> (meets l c \<and> blocks l c)}"
proof -
  have d: "dropWhile (\<lambda>b. \<not> (meets l b \<and> blocks l b)) bs = b # cs" using assms by (simp add: nextblock_dropWhile)
  then show "meets l b" "blocks l b" using hd_dropWhile [of "\<lambda>b. \<not> (meets l b \<and> blocks l b)" bs] by auto
  have "set (b # cs) \<subseteq> set bs" by (metis d set_dropWhileD subsetI)
  then show "b \<in> set bs" "set cs \<subseteq> set bs" by auto
  have "set bs \<subseteq> set (takeWhile (\<lambda>b. \<not> (meets l b \<and> blocks l b)) bs) \<union> set (b # cs)"
    by (metis d set_append subset_refl takeWhile_dropWhile_id)
  then show "set bs - set (b # cs) \<subseteq> {c. \<not> (meets l c \<and> blocks l c)}" by (auto dest: set_takeWhileD)
qed

section \<open>Removing a range\<close>

lemma extract_spec:
  assumes old: "proper old" and new: "proper new" and m: "meets new old"
  shows "case rl_extract old new of
     Gone \<Rightarrow> \<forall>x. covers old x \<longrightarrow> covers new x
   | Cut c \<Rightarrow> proper c \<and> rl_proc c = rl_proc old \<and> rl_type c = rl_type old \<and> (\<forall>x. covers c x \<longleftrightarrow> covers old x \<and> \<not> covers new x)
   | Split c d \<Rightarrow> proper c \<and> proper d \<and> rl_proc c = rl_proc old \<and> rl_type c = rl_type old \<and> rl_proc d = rl_proc old \<and> rl_type d = rl_type old \<and>
       (\<forall>x. covers c x \<or> covers d x \<longleftrightarrow> covers old x \<and> \<not> covers new x)"
proof -
  have l: "long (rl_end new + 1) = rl_end new + 1" using new by (intro long_id) (auto simp: proper_def)
  consider "rl_start new \<le> rl_start old" "rl_end new = - 1 \<or> (rl_end old \<noteq> - 1 \<and> rl_end new \<ge> rl_end old)"
    | "rl_start new \<le> rl_start old" "rl_end new \<noteq> - 1" "rl_end old = - 1 \<or> rl_end new < rl_end old"
    | "rl_start new > rl_start old" "rl_end new = - 1 \<or> (rl_end old \<noteq> - 1 \<and> rl_end new \<ge> rl_end old)"
    | "rl_start new > rl_start old" "rl_end new \<noteq> - 1" "rl_end old = - 1 \<or> rl_end new < rl_end old" by linarith
  then show ?thesis
  proof cases
    case 1
    then show ?thesis using old new by (auto simp: rl_extract_def covers_def proper_def)
  next
    case 2
    then show ?thesis using old new m by (auto simp: rl_extract_def covers_def proper_def meets_def l)
  next
    case 3
    then show ?thesis using old new m by (auto simp: rl_extract_def covers_def proper_def meets_def Let_def split: if_splits)
  next
    case 4
    then show ?thesis using old new m by (auto simp: rl_extract_def covers_def proper_def meets_def Let_def l)
  qed
qed

definition taken :: "rlock \<Rightarrow> nat \<Rightarrow> int \<Rightarrow> bool" where
  "taken lock p x \<longleftrightarrow> p = rl_proc lock \<and> covers lock x"

lemma remlock_spec:
  assumes "proper lock" "\<forall>b \<in> set bs. proper b" "remlock bs lock free = (r, cs, free')"
  shows "(\<forall>b \<in> set cs. proper b) \<and> free' + length cs = free + length bs \<and>
    (\<forall>p t x. holds cs p t x \<longrightarrow> holds bs p t x) \<and> (\<forall>p t x. holds bs p t x \<longrightarrow> \<not> taken lock p x \<longrightarrow> holds cs p t x) \<and>
    (r \<longrightarrow> (\<forall>p t x. holds cs p t x \<longrightarrow> \<not> taken lock p x))"
  using assms(2,3)
proof (induction bs arbitrary: free r cs free')
  case Nil
  then show ?case by simp
next
  case (Cons b bs)
  have pb: "proper b" "\<forall>b \<in> set bs. proper b" using Cons.prems(1) by auto
  show ?case
  proof (cases "meets lock b \<and> rl_proc b = rl_proc lock")
    case False
    obtain ds where d: "remlock bs lock free = (r, ds, free')" "cs = b # ds"
      using Cons.prems(2) False by (auto simp: Let_def split: prod.splits)
    have "\<not> taken lock (rl_proc b) x" if "covers b x" for x
      using False that meets_iff [OF assms(1) pb(1)] by (auto simp: taken_def)
    then show ?thesis using Cons.IH [OF pb(2) d(1)] d(2) pb(1) by auto
  next
    case True
    note E = extract_spec [OF pb(1) assms(1)]
    show ?thesis
    proof (cases "rl_extract b lock")
      case Gone
      then have d: "remlock bs lock (free + 1) = (r, cs, free')" using Cons.prems(2) True by simp
      show ?thesis using Cons.IH [OF pb(2) d] E Gone True by (auto simp: taken_def)
    next
      case (Cut c)
      then obtain ds where d: "remlock bs lock free = (r, ds, free')" "cs = c # ds"
        using Cons.prems(2) True by (auto simp: Let_def split: prod.splits)
      then show ?thesis using Cons.IH [OF pb(2) d(1)] E Cut True by (auto simp: taken_def)
    next
      case (Split c e)
      show ?thesis
      proof (cases "free = 0")
        case True
        then show ?thesis using Cons.prems Split \<open>meets lock b \<and> _\<close> by auto
      next
        case False
        then obtain ds where d: "remlock bs lock (free - 1) = (r, ds, free')" "cs = c # e # ds"
          using Cons.prems(2) True Split by (auto simp: Let_def split: prod.splits)
        have e: "proper c" "proper e" "rl_proc c = rl_proc b" "rl_type c = rl_type b" "rl_proc e = rl_proc b" "rl_type e = rl_type b"
          "\<And>x. covers c x \<or> covers e x \<longleftrightarrow> covers b x \<and> \<not> covers lock x" using E Split True by auto
        have IH: "\<forall>b \<in> set ds. proper b" "free' + length ds = free - 1 + length bs" "\<And>p t x. holds ds p t x \<Longrightarrow> holds bs p t x"
          "\<And>p t x. holds bs p t x \<Longrightarrow> \<not> taken lock p x \<Longrightarrow> holds ds p t x" "\<And>p t x. r \<Longrightarrow> holds ds p t x \<Longrightarrow> \<not> taken lock p x"
          using Cons.IH [OF pb(2) d(1)] by blast+
        have two: "holds cs p t x \<longleftrightarrow> (rl_proc b = p \<and> rl_type b = t \<and> covers b x \<and> \<not> covers lock x) \<or> holds ds p t x" for p t x
          using e(3-7) d(2) by auto
        show ?thesis
        proof (intro conjI allI impI)
          show "\<forall>b \<in> set cs. proper b" "free' + length cs = free + length (b # bs)" using e(1,2) IH(1,2) d(2) False by auto
          show "holds (b # bs) p t x" if "holds cs p t x" for p t x using that IH(3) by (auto simp: two)
          show "holds cs p t x" if "holds (b # bs) p t x" "\<not> taken lock p x" for p t x
            using that IH(4) True by (auto simp: two taken_def)
          show "\<not> taken lock p x" if "r" "holds cs p t x" for p t x
            using that IH(5) True by (auto simp: two taken_def)
        qed
      qed
    qed
  qed
qed

text \<open>To the end of the file, nothing is split.\<close>

lemma remlock_eof: "rl_end lock = - 1 \<Longrightarrow> fst (remlock bs lock free)"
  by (induction bs arbitrary: free) (auto simp: rl_extract_def Let_def split_beta)

section \<open>Adding a lock\<close>

definition within :: "int \<Rightarrow> int \<Rightarrow> int \<Rightarrow> bool" where
  "within lo hi x \<longleftrightarrow> lo \<le> x \<and> (hi = - 1 \<or> x \<le> hi)"

lemma absorb_step:
  assumes "proper b" "meets w b" "0 \<le> lo" "lo < 2147483648" "- 1 \<le> hi" "hi < 2147483647" "hi \<noteq> - 1 \<longrightarrow> lo \<le> hi" "lo \<le> rl_start w + 1"
    "hi \<noteq> - 1 \<longrightarrow> rl_end w \<noteq> - 1 \<and> rl_end w \<le> hi + 1"
    "lo' = (if rl_start b < lo then rl_start b else lo)" "hi' = (if hi \<noteq> - 1 \<and> (rl_end b = - 1 \<or> rl_end b \<ge> hi) then rl_end b else hi)"
  shows "0 \<le> lo' \<and> lo' < 2147483648 \<and> - 1 \<le> hi' \<and> hi' < 2147483647 \<and> (hi' \<noteq> - 1 \<longrightarrow> lo' \<le> hi') \<and> lo' \<le> rl_start w + 1 \<and>
    (hi' \<noteq> - 1 \<longrightarrow> rl_end w \<noteq> - 1 \<and> rl_end w \<le> hi' + 1) \<and> (within lo' hi' x \<longleftrightarrow> within lo hi x \<or> covers b x)"
proof (cases "hi = - 1")
  case True
  then show ?thesis using assms by (auto simp: proper_def meets_def within_def covers_def split: if_splits)
next
  case False
  show ?thesis
  proof (cases "rl_end b = - 1")
    case True
    then show ?thesis using assms False by (auto simp: proper_def meets_def within_def covers_def split: if_splits)
  next
    case e: False
    have m: "rl_start b \<le> rl_end w" "rl_start w \<le> rl_end b" using assms(2,9) False e by (auto simp: meets_def split: if_splits)
    then show ?thesis using assms(1,3-11) False e by (auto simp: proper_def within_def covers_def split: if_splits)
  qed
qed

lemma absorb_spec:
  assumes "\<forall>b \<in> set bs. proper b" "absorb bs w lo hi free = (cs, lo', hi', free')" "0 \<le> lo" "lo < 2147483648" "- 1 \<le> hi" "hi < 2147483647"
    "hi \<noteq> - 1 \<longrightarrow> lo \<le> hi" "lo \<le> rl_start w + 1" "hi \<noteq> - 1 \<longrightarrow> rl_end w \<noteq> - 1 \<and> rl_end w \<le> hi + 1"
  shows "set cs \<subseteq> set bs \<and> free' + length cs = free + length bs \<and> 0 \<le> lo' \<and> lo' < 2147483648 \<and> - 1 \<le> hi' \<and> hi' < 2147483647 \<and>
    (hi' \<noteq> - 1 \<longrightarrow> lo' \<le> hi') \<and>
    (\<forall>p t x. holds bs p t x \<longrightarrow> holds cs p t x \<or> p = rl_proc w \<and> t = rl_type w \<and> within lo' hi' x) \<and>
    (\<forall>x. within lo' hi' x \<longrightarrow> within lo hi x \<or> holds bs (rl_proc w) (rl_type w) x) \<and> (\<forall>x. within lo hi x \<longrightarrow> within lo' hi' x)"
  using assms
proof (induction bs arbitrary: lo hi free cs)
  case Nil
  then show ?case by simp
next
  case (Cons b bs)
  show ?case
  proof (cases "meets w b \<and> rl_proc b = rl_proc w \<and> rl_type b = rl_type w")
    case True
    let ?lo = "if rl_start b < lo then rl_start b else lo"
    let ?hi = "if hi \<noteq> - 1 \<and> (rl_end b = - 1 \<or> rl_end b \<ge> hi) then rl_end b else hi"
    have a: "absorb bs w ?lo ?hi (free + 1) = (cs, lo', hi', free')" using Cons.prems(2) True by simp
    have st: "0 \<le> ?lo \<and> ?lo < 2147483648 \<and> - 1 \<le> ?hi \<and> ?hi < 2147483647 \<and> (?hi \<noteq> - 1 \<longrightarrow> ?lo \<le> ?hi) \<and> ?lo \<le> rl_start w + 1 \<and>
      (?hi \<noteq> - 1 \<longrightarrow> rl_end w \<noteq> - 1 \<and> rl_end w \<le> ?hi + 1) \<and> (within ?lo ?hi x \<longleftrightarrow> within lo hi x \<or> covers b x)" for x
      using True Cons.prems by (intro absorb_step [of b w lo hi ?lo ?hi x]) simp_all
    have I: "set cs \<subseteq> set bs \<and> free' + length cs = free + 1 + length bs \<and> 0 \<le> lo' \<and> lo' < 2147483648 \<and> - 1 \<le> hi' \<and> hi' < 2147483647 \<and>
      (hi' \<noteq> - 1 \<longrightarrow> lo' \<le> hi') \<and>
      (\<forall>p t x. holds bs p t x \<longrightarrow> holds cs p t x \<or> p = rl_proc w \<and> t = rl_type w \<and> within lo' hi' x) \<and>
      (\<forall>x. within lo' hi' x \<longrightarrow> within ?lo ?hi x \<or> holds bs (rl_proc w) (rl_type w) x) \<and> (\<forall>x. within ?lo ?hi x \<longrightarrow> within lo' hi' x)"
      using st Cons.prems(1) by (intro Cons.IH [OF _ a]) simp_all
    have wi: "within ?lo ?hi x \<longleftrightarrow> within lo hi x \<or> covers b x" for x using st by blast
    show ?thesis using I True unfolding holds_simps wi by auto
  next
    case False
    obtain ds where d: "absorb bs w lo hi free = (ds, lo', hi', free')" "cs = b # ds"
      using Cons.prems(2) False by (auto simp: Let_def split: prod.splits)
    have p: "\<forall>b \<in> set bs. proper b" using Cons.prems(1) by simp
    show ?thesis using Cons.IH [OF p d(1) Cons.prems(3-9)] d(2) by auto
  qed
qed

lemma absorb_free: "absorb bs w lo hi free = (cs, lo', hi', free') \<Longrightarrow> free' = 0 \<Longrightarrow> free = 0 \<and> cs = bs"
proof (induction bs arbitrary: lo hi free cs)
  case (Cons b bs)
  show ?case
  proof (cases "meets w b \<and> rl_proc b = rl_proc w \<and> rl_type b = rl_type w")
    case True
    let ?lo = "if rl_start b < lo then rl_start b else lo"
    let ?hi = "if hi \<noteq> - 1 \<and> (rl_end b = - 1 \<or> rl_end b \<ge> hi) then rl_end b else hi"
    have "absorb bs w ?lo ?hi (free + 1) = (cs, lo', hi', free')" using Cons.prems(1) True by simp
    from Cons.IH [OF this Cons.prems(2)] have "free + 1 = 0" by simp
    then show ?thesis by simp
  next
    case False
    obtain ds where d: "absorb bs w lo hi free = (ds, lo', hi', free')" "cs = b # ds"
      using Cons.prems(1) False by (auto simp: Let_def split: prod.splits)
    then show ?thesis using Cons.IH [OF d(1) Cons.prems(2)] by simp
  qed
qed simp

lemma addlock_spec:
  assumes pl: "proper lock" and pb: "\<forall>b \<in> set (i_rl s i). proper b" and ad: "addlock i lock s = (r, e, s')"
  obtains (full) "r = - 1" "e = Some ENOLCK" "s' = s"
  | (added) bs' free where "r = 0" "e = None \<or> e = Some ENOLCK" "s' = s\<lparr>i_rl := (i_rl s)(i := bs'), freerl := free\<rparr>"
      "\<forall>b \<in> set bs'. proper b"
      "\<And>p t x. holds bs' p t x \<Longrightarrow> holds (i_rl s i) p t x \<or> p = rl_proc lock \<and> t = rl_type lock \<and> covers lock x"
      "\<And>x. covers lock x \<Longrightarrow> holds bs' (rl_proc lock) (rl_type lock) x"
      "\<And>p t x. holds (i_rl s i) p t x \<Longrightarrow> holds bs' p t x \<or>
         p = rl_proc lock \<and> t \<noteq> rl_type lock \<and> (covers lock x \<or> holds (i_rl s i) p (rl_type lock) x)"
      "\<And>t x. e = None \<Longrightarrow> holds bs' (rl_proc lock) t x \<Longrightarrow> covers lock x \<Longrightarrow> t = rl_type lock"
proof -
  let ?w = "lock\<lparr>rl_start := if rl_start lock \<noteq> 0 then rl_start lock - 1 else rl_start lock,
            rl_end := if rl_end lock \<noteq> - 1 then long (rl_end lock + 1) else rl_end lock\<rparr>"
  have l: "rl_end lock \<noteq> - 1 \<Longrightarrow> long (rl_end lock + 1) = rl_end lock + 1" using pl by (intro long_id) (auto simp: proper_def)
  obtain bs lo hi free where ab: "absorb (i_rl s i) ?w (rl_start lock) (rl_end lock) (freerl s) = (bs, lo, hi, free)"
    by (metis prod.exhaust)
  have A: "set bs \<subseteq> set (i_rl s i)" "0 \<le> lo" "lo < 2147483648" "- 1 \<le> hi" "hi < 2147483647" "hi \<noteq> - 1 \<longrightarrow> lo \<le> hi"
    "\<And>p t x. holds (i_rl s i) p t x \<Longrightarrow> holds bs p t x \<or> p = rl_proc lock \<and> t = rl_type lock \<and> within lo hi x"
    "\<And>x. within lo hi x \<Longrightarrow> covers lock x \<or> holds (i_rl s i) (rl_proc lock) (rl_type lock) x"
    "\<And>x. covers lock x \<Longrightarrow> within lo hi x"
    using absorb_spec [OF pb ab] pl by (simp_all add: proper_def l within_def covers_def)
  show ?thesis
  proof (cases "free = 0")
    case True
    then have "s\<lparr>i_rl := (i_rl s)(i := bs), freerl := free\<rparr> = s" using absorb_free [OF ab] by simp
    then have "r = - 1 \<and> e = Some ENOLCK \<and> s' = s"
      using ad ab True by (simp add: addlock_def Let_def getlock_def)
    then show ?thesis using full by simp
  next
    case False
    let ?n = "\<lparr>rl_type = rl_type lock, rl_start = lo, rl_end = hi, rl_proc = rl_proc lock\<rparr>"
    obtain q cs free' where rm: "remlock bs ?n (free - 1) = (q, cs, free')" by (metis prod.exhaust)
    have res: "r = 0" "e = (if q then None else Some ENOLCK)" "s' = s\<lparr>i_rl := (i_rl s)(i := ?n # cs), freerl := free'\<rparr>"
      using ad ab rm False by (simp_all add: addlock_def Let_def getlock_def)
    have pn: "proper ?n" using A(2-6) by (simp add: proper_def)
    have cn: "covers ?n x \<longleftrightarrow> within lo hi x" for x by (simp add: covers_def within_def)
    have sub: "\<forall>b \<in> set bs. proper b" using pb A(1) by auto
    have hs: "holds bs p t x \<Longrightarrow> holds (i_rl s i) p t x" for p t x using A(1) by (auto simp: holds_def)
    have R: "\<forall>b \<in> set cs. proper b" "\<And>p t x. holds cs p t x \<Longrightarrow> holds bs p t x"
      "\<And>p t x. holds bs p t x \<Longrightarrow> \<not> (p = rl_proc lock \<and> within lo hi x) \<Longrightarrow> holds cs p t x"
      "\<And>t x. q \<Longrightarrow> holds cs (rl_proc lock) t x \<Longrightarrow> \<not> within lo hi x"
      using remlock_spec [OF pn sub rm] by (auto simp: taken_def cn)
    have H: "holds (?n # cs) p t x \<longleftrightarrow> (p = rl_proc lock \<and> t = rl_type lock \<and> within lo hi x) \<or> holds cs p t x" for p t x
      unfolding holds_simps cn by auto
    show ?thesis
    proof (rule added)
      show "r = 0" "e = None \<or> e = Some ENOLCK" "s' = s\<lparr>i_rl := (i_rl s)(i := ?n # cs), freerl := free'\<rparr>" using res by simp_all
      show "\<forall>b \<in> set (?n # cs). proper b" using pn R(1) by simp
      show "holds (i_rl s i) p t x \<or> p = rl_proc lock \<and> t = rl_type lock \<and> covers lock x" if "holds (?n # cs) p t x" for p t x
        using that A(8) R(2) hs unfolding H by blast
      show "holds (?n # cs) (rl_proc lock) (rl_type lock) x" if "covers lock x" for x using that A(9) unfolding H by blast
      show "holds (?n # cs) p t x \<or> p = rl_proc lock \<and> t \<noteq> rl_type lock \<and> (covers lock x \<or> holds (i_rl s i) p (rl_type lock) x)"
        if "holds (i_rl s i) p t x" for p t x
        using A(7) [OF that] A(8) R(3) unfolding H by blast
      show "t = rl_type lock" if "e = None" "holds (?n # cs) (rl_proc lock) t x" "covers lock x" for t x
        using that res(2) A(9) R(4) unfolding H by (auto split: if_splits)
    qed
  qed
qed

section \<open>Exclusion\<close>

text \<open>No two processes hold a position unless both have a read lock.\<close>

definition excl :: "rlock list \<Rightarrow> bool" where
  "excl bs \<longleftrightarrow> (\<forall>p q t u x. holds bs p t x \<longrightarrow> holds bs q u x \<longrightarrow> p \<noteq> q \<longrightarrow> \<not> t \<and> \<not> u)"

definition locks_ok :: "rlocks \<Rightarrow> bool" where
  "locks_ok s \<longleftrightarrow> (\<forall>i. (\<forall>b \<in> set (i_rl s i). proper b) \<and> excl (i_rl s i))"

definition own_disjoint :: "rlock list \<Rightarrow> nat \<Rightarrow> bool" where
  "own_disjoint bs p \<longleftrightarrow> (\<forall>t u x. holds bs p t x \<longrightarrow> holds bs p u x \<longrightarrow> t = u)"

lemma exclD: "excl bs \<Longrightarrow> holds bs p t x \<Longrightarrow> holds bs q u x \<Longrightarrow> p \<noteq> q \<Longrightarrow> \<not> t \<and> \<not> u"
  unfolding excl_def by blast

lemma locks_okD: "locks_ok s \<Longrightarrow> \<forall>b \<in> set (i_rl s i). proper b" "locks_ok s \<Longrightarrow> excl (i_rl s i)"
  by (auto simp: locks_ok_def)

lemma locks_ok_simps [simp]:
  "locks_ok (s\<lparr>rl_gate := g\<rparr>) = locks_ok s" "locks_ok (s\<lparr>freerl := n\<rparr>) = locks_ok s" "locks_ok (s\<lparr>p_prl := w\<rparr>) = locks_ok s"
  "locks_ok (s\<lparr>rl_log := l\<rparr>) = locks_ok s" "locks_ok (wait_cleanup self s) = locks_ok s"
  by (simp_all add: locks_ok_def wait_cleanup_def)

lemma i_rl_wait_cleanup [simp]: "i_rl (wait_cleanup self s) = i_rl s"
  by (simp add: wait_cleanup_def)

lemma locks_ok_upd: "locks_ok s \<Longrightarrow> \<forall>b \<in> set bs. proper b \<Longrightarrow> excl bs \<Longrightarrow> i_rl s' = (i_rl s)(i := bs) \<Longrightarrow> locks_ok s'"
  by (simp add: locks_ok_def)

lemma nextblock_free:
  assumes "nextblock bs lock = []" "\<forall>b \<in> set bs. proper b" "proper lock" "holds bs p t x" "covers lock x" "p \<noteq> rl_proc lock"
  shows "\<not> t \<and> \<not> rl_type lock"
  using assms meets_iff [OF assms(3)] unfolding nextblock_Nil holds_def blocks_def by metis

lemma nextblock_conflict:
  assumes "\<forall>b \<in> set bs. proper b" "proper lock"
  shows "nextblock bs lock = [] \<longleftrightarrow> \<not> (\<exists>p t x. p \<noteq> rl_proc lock \<and> covers lock x \<and> holds bs p t x \<and> (t \<or> rl_type lock))"
proof
  assume n: "nextblock bs lock = []"
  then show "\<not> (\<exists>p t x. p \<noteq> rl_proc lock \<and> covers lock x \<and> holds bs p t x \<and> (t \<or> rl_type lock))"
    using nextblock_free [OF n assms] by blast
next
  assume n: "\<not> (\<exists>p t x. p \<noteq> rl_proc lock \<and> covers lock x \<and> holds bs p t x \<and> (t \<or> rl_type lock))"
  have "\<not> blocks lock b" if h: "b \<in> set bs" "meets lock b" for b
  proof
    assume bl: "blocks lock b"
    obtain x where "covers lock x" "covers b x" using meets_iff [OF assms(2)] assms(1) h by blast
    moreover have "holds bs (rl_proc b) (rl_type b) x" using h(1) \<open>covers b x\<close> by (auto simp: holds_def)
    ultimately show False using n bl unfolding blocks_def by metis
  qed
  then show "nextblock bs lock = []" unfolding nextblock_Nil by blast
qed

lemma addlock_ok:
  assumes ok: "locks_ok s" and pl: "proper lock" and nb: "nextblock (i_rl s i) lock = []" and ad: "addlock i lock s = (r, e, s')"
  shows "locks_ok s'"
proof (cases rule: addlock_spec [OF pl locks_okD(1) [OF ok] ad])
  case 1
  then show ?thesis using ok by simp
next
  case (2 bs' free)
  note x = exclD [OF locks_okD(2) [OF ok, of i]]
  note f = nextblock_free [OF nb locks_okD(1) [OF ok] pl]
  have "\<not> t \<and> \<not> u" if h: "holds bs' p t x" "holds bs' q u x" "p \<noteq> q" for p q t u x
    using 2(5) [OF h(1)] 2(5) [OF h(2)] x f h(3) by metis
  then have "excl bs'" unfolding excl_def by blast
  then show ?thesis using ok 2(3,4) by (intro locks_ok_upd [of s bs' s' i]) auto
qed

lemma remlock_ok:
  assumes ok: "locks_ok s" and pl: "proper lock" and rm: "remlock (i_rl s i) lock (freerl s) = (r, bs, free)" and "i_rl s' = (i_rl s)(i := bs)"
  shows "locks_ok s'"
proof -
  have R: "\<forall>b \<in> set bs. proper b" "\<And>p t x. holds bs p t x \<Longrightarrow> holds (i_rl s i) p t x"
    using remlock_spec [OF pl locks_okD(1) [OF ok] rm] by auto
  have "excl bs" unfolding excl_def using R(2) exclD [OF locks_okD(2) [OF ok, of i]] by blast
  then show ?thesis using ok R(1) assms(4) by (intro locks_ok_upd [of s bs s' i])
qed

lemma wait_loop_ok:
  assumes "locks_ok s" "proper rl" "calm locks_ok ws" "wait_loop self i rl ws s = Some x"
  shows "case x of Blocked s' \<Rightarrow> locks_ok s' | Done s' _ \<Rightarrow> locks_ok s'"
  using assms(1,3,4)
proof (induction ws arbitrary: s)
  case Nil
  then show ?case
    by (subst (asm) wait_loop.simps) (auto simp: Let_def bind_eq_Some_conv split: if_splits)
next
  case (Cons w ws)
  obtain d where d: "deadlock self s rl (i_rl s i) = Some d"
    using Cons.prems(3) by (subst (asm) wait_loop.simps) (auto simp: bind_eq_Some_conv)
  show ?case
  proof (cases d)
    case True
    then show ?thesis using Cons.prems(1,3) d by (subst (asm) wait_loop.simps) auto
  next
    case False
    let ?s = "(fst w (s\<lparr>rl_gate := False\<rparr>))\<lparr>rl_gate := True\<rparr>"
    have ok: "locks_ok ?s" using Cons.prems(1,2) by simp
    have eq: "wait_loop self i rl (w # ws) s = (if snd w then Some (Done (wait_cleanup self ?s) (- 1, Some EINTR))
            else if nextblock (i_rl ?s i) rl \<noteq> [] then wait_loop self i rl ws ?s
            else (let (r, e, s) = addlock i rl (wait_cleanup self ?s) in Some (Done s (r, e))))"
      using d False by (subst wait_loop.simps) (simp add: Let_def)
    have okc: "locks_ok (wait_cleanup self ?s)" using ok by simp
    consider "snd w" | "\<not> snd w" "nextblock (i_rl ?s i) rl \<noteq> []" | "\<not> snd w" "nextblock (i_rl ?s i) rl = []" by blast
    then show ?thesis
    proof cases
      case 1
      then show ?thesis using Cons.prems(3) eq okc by auto
    next
      case 2
      then have "wait_loop self i rl ws ?s = Some x" using Cons.prems(3) eq by simp
      then show ?thesis using Cons.IH [OF ok] Cons.prems(2) by simp
    next
      case 3
      obtain r e s' where a: "addlock i rl (wait_cleanup self ?s) = (r, e, s')" by (metis prod.exhaust)
      have "nextblock (i_rl (wait_cleanup self ?s) i) rl = []" using 3 by simp
      then show ?thesis using addlock_ok [OF okc assms(2) _ a] Cons.prems(3) eq 3 a by auto
    qed
  qed
qed

lemma waitlock_ok:
  assumes "locks_ok s" "proper rl" "calm locks_ok ws" "waitlock self i rl ws s = Some x"
  shows "case x of Blocked s' \<Rightarrow> locks_ok s' | Done s' _ \<Rightarrow> locks_ok s'"
proof (cases "nextblock (i_rl s i) rl = []")
  case True
  obtain r e s' where a: "addlock i rl s = (r, e, s')" by (metis prod.exhaust)
  then show ?thesis using addlock_ok [OF assms(1,2) True a] assms(4) True by (auto simp: waitlock_def)
next
  case False
  show ?thesis
  proof (cases "freerl s = 0")
    case True
    then show ?thesis using False assms(1,4) by (auto simp: waitlock_def getlock_def)
  next
    case f: False
    let ?s = "s\<lparr>freerl := freerl s - 1, p_prl := (p_prl s)(self := Some (rl, i))\<rparr>"
    have "wait_loop self i rl ws ?s = Some x" using assms(4) False f by (simp add: waitlock_def getlock_def)
    moreover have "locks_ok ?s" using assms(1) by simp
    ultimately show ?thesis using wait_loop_ok [OF _ assms(2,3)] by blast
  qed
qed

lemma long_less: "long x < 2147483648"
  using pos_mod_bound [of 4294967296 "x + 2147483648"] by (simp add: long_def)

definition bad_range :: "rlock \<Rightarrow> bool" where
  "bad_range l \<longleftrightarrow> rl_start l < 0 \<or> rl_end l < - 1 \<or> (rl_end l \<noteq> - 1 \<and> rl_start l > rl_end l)"

lemma range_proper:
  assumes "l_start flp < 2147483648" "rl_end (rlock_range self fdp flp) < 2147483647" "\<not> bad_range (rlock_range self fdp flp)"
  shows "proper (rlock_range self fdp flp)"
proof -
  have "rl_start (rlock_range self fdp flp) < 2147483648"
    using assms(1) long_less by (auto simp: rlock_range_def Let_def split: l_whence.split)
  then show ?thesis using assms(2,3) by (auto simp: proper_def bad_range_def)
qed

lemma range_sel [simp]: "rl_proc (rlock_range self fdp flp) = self" "rl_type (rlock_range self fdp flp) = (l_type flp \<noteq> F_RDLCK)"
  by (simp_all add: rlock_range_def Let_def split: l_whence.split)

text \<open>The branches of \<^const>\<open>rlock_call\<close> that do not wait.\<close>

definition leave :: "rl_cmd \<Rightarrow> nat \<Rightarrow> rlocks \<Rightarrow> rlocks" where
  "leave cmd i s = s\<lparr>rl_gate := False, rl_log := rl_log s @ (if cmd \<noteq> F_GETLK then [i] else [])\<rparr>"

lemma leave_simps [simp]: "i_rl (leave cmd i s) = i_rl s" "locks_ok (leave cmd i s) = locks_ok s" "p_prl (leave cmd i s) = p_prl s"
  "freerl (leave cmd i s) = freerl s"
  by (simp_all add: leave_def locks_ok_def)

lemma rlock_call_bad: "bad_range (rlock_range self fdp flp) \<Longrightarrow> rlock_call self pid fdp cmd flp ws s = Some (Done s (- 1, Some EINVAL, flp))"
  by (simp add: rlock_call_def bad_range_def Let_def)

lemma rlock_call_eq:
  fixes s :: rlocks
  assumes "\<not> bad_range (rlock_range self fdp flp)"
  defines "t \<equiv> s\<lparr>rl_gate := True\<rparr>" and "srl \<equiv> rlock_range self fdp flp" and "i \<equiv> f_ip fdp"
  shows "rlock_call self pid fdp cmd flp ws s =
    (if cmd = F_GETLK then
       (case nextblock (i_rl s i) srl of
          [] \<Rightarrow> Some (Done (leave cmd i t) (0, None, flp\<lparr>l_type := F_UNLCK\<rparr>))
        | b # _ \<Rightarrow> Some (Done (leave cmd i t) (0, None, rlock_result b pid flp)))
     else if l_type flp = F_UNLCK then
       (let (r, bs, free) = remlock (i_rl s i) srl (freerl s)
        in Some (Done (leave cmd i (t\<lparr>i_rl := (i_rl s)(i := bs), freerl := free\<rparr>)) (if r then 0 else - 1, if r then None else Some ENOLCK, flp)))
     else if (rl_type srl \<and> \<not> f_ipw fdp) \<or> (\<not> rl_type srl \<and> \<not> f_ipr fdp) then Some (Done (leave cmd i t) (- 1, Some EINVAL, flp))
     else if cmd = F_SETLKW then do {
       x \<leftarrow> waitlock self i srl ws t;
       (case x of Blocked s \<Rightarrow> Some (Blocked s) | Done s (r, e) \<Rightarrow> Some (Done (leave cmd i s) (r, e, flp)))
     }
     else if nextblock (i_rl s i) srl = [] then
       (let (r, e, s) = addlock i srl t in Some (Done (leave cmd i s) (r, e, flp)))
     else Some (Done (leave cmd i t) (- 1, Some EACCES, flp)))"
proof -
  show ?thesis
    unfolding rlock_call_def Let_def if_not_P [OF assms(1) [unfolded bad_range_def]] t_def srl_def i_def leave_def by simp
qed

lemma setlkw_keeps:
  assumes "locks_ok s" "proper (rlock_range self fdp flp)" "calm locks_ok ws" "rlock_call self pid fdp F_SETLKW flp ws s = Some x"
    "\<not> bad_range (rlock_range self fdp flp)" "l_type flp \<noteq> F_UNLCK"
    "\<not> ((rl_type (rlock_range self fdp flp) \<and> \<not> f_ipw fdp) \<or> (\<not> rl_type (rlock_range self fdp flp) \<and> \<not> f_ipr fdp))"
  shows "case x of Blocked s' \<Rightarrow> locks_ok s' | Done s' _ \<Rightarrow> locks_ok s'"
proof -
  let ?t = "s\<lparr>rl_gate := True\<rparr>" let ?i = "f_ip fdp" let ?r = "rlock_range self fdp flp"
  note eq = rlock_call_eq [OF assms(5), of pid F_SETLKW ws s] and pr = assms(2)
  have ok: "locks_ok ?t" using assms(1) by simp
  have e4: "rlock_call self pid fdp F_SETLKW flp ws s = do {
     x \<leftarrow> waitlock self ?i ?r ws ?t;
     (case x of Blocked s \<Rightarrow> Some (Blocked s) | Done s (r, e) \<Rightarrow> Some (Done (leave F_SETLKW ?i s) (r, e, flp)))}"
    using eq assms(6,7) by (simp only: rl_cmd.simps if_False if_True refl)
  have "waitlock self ?i ?r ws ?t \<noteq> None"
  proof
    assume "waitlock self ?i ?r ws ?t = None"
    then show False using e4 assms(4) by simp
  qed
  then obtain y where y: "waitlock self ?i ?r ws ?t = Some y" by blast
  show ?thesis using waitlock_ok [OF ok pr assms(3) y] e4 y assms(4) by (cases y) (auto split: prod.splits)
qed

lemma setlk_keeps:
  assumes "locks_ok s" "proper (rlock_range self fdp flp)" "rlock_call self pid fdp F_SETLK flp ws s = Some x"
    "\<not> bad_range (rlock_range self fdp flp)" "l_type flp \<noteq> F_UNLCK"
    "\<not> ((rl_type (rlock_range self fdp flp) \<and> \<not> f_ipw fdp) \<or> (\<not> rl_type (rlock_range self fdp flp) \<and> \<not> f_ipr fdp))"
  shows "case x of Blocked s' \<Rightarrow> locks_ok s' | Done s' _ \<Rightarrow> locks_ok s'"
proof -
  let ?t = "s\<lparr>rl_gate := True\<rparr>" let ?i = "f_ip fdp" let ?r = "rlock_range self fdp flp"
  note eq = rlock_call_eq [OF assms(4), of pid F_SETLK ws s] and pr = assms(2)
  have ok: "locks_ok ?t" using assms(1) by simp
  show ?thesis
  proof (cases "nextblock (i_rl s ?i) ?r = []")
    case True
    obtain r e s' where a: "addlock ?i ?r ?t = (r, e, s')" by (metis prod.exhaust)
    have "locks_ok s'" using addlock_ok [OF ok pr _ a] True by simp
    moreover have "x = Done (leave F_SETLK ?i s') (r, e, flp)" using eq assms(3,5,6) True a by (simp only: rl_cmd.simps if_False if_True refl) simp
    ultimately show ?thesis by simp
  next
    case no: False
    then have "x = Done (leave F_SETLK ?i ?t) (- 1, Some EACCES, flp)" using eq assms(3,5,6) no by (simp only: rl_cmd.simps if_False if_True refl) simp
    then show ?thesis using ok by simp
  qed
qed

text \<open>C28: Whatever \<open>rlock\<close> is asked for with a range that ends before the largest position, 2147483647, and however it ends, also when it sleeps and other
  processes change the lists meanwhile, keeping them in order, no two processes come to hold conflicting locks on a position of a file: either all who hold it are readers, or
  one process does; and all locks still end before the largest position. A range that ends there breaks it: \<open>unlock_to_largest_locks_all\<close>.\<close>

theorem rlock_excludes:
  assumes "locks_ok s" "l_start flp < 2147483648" "rl_end (rlock_range self fdp flp) < 2147483647"
    "calm locks_ok ws" "rlock_call self pid fdp cmd flp ws s = Some x"
  shows "case x of Blocked s' \<Rightarrow> locks_ok s' | Done s' _ \<Rightarrow> locks_ok s'"
proof (cases "bad_range (rlock_range self fdp flp)")
  case True
  then show ?thesis using rlock_call_bad [OF True] assms(1,5) by auto
next
  case False
  note eq = rlock_call_eq [OF False, of pid cmd ws s]
  note pr = range_proper [OF assms(2,3) False]
  let ?t = "s\<lparr>rl_gate := True\<rparr>" let ?i = "f_ip fdp" let ?r = "rlock_range self fdp flp"
  have ok: "locks_ok ?t" using assms(1) by simp
  consider "cmd = F_GETLK" | "cmd \<noteq> F_GETLK" "l_type flp = F_UNLCK"
    | "cmd \<noteq> F_GETLK" "l_type flp \<noteq> F_UNLCK" "(rl_type ?r \<and> \<not> f_ipw fdp) \<or> (\<not> rl_type ?r \<and> \<not> f_ipr fdp)"
    | "cmd = F_SETLKW" "l_type flp \<noteq> F_UNLCK" "\<not> ((rl_type ?r \<and> \<not> f_ipw fdp) \<or> (\<not> rl_type ?r \<and> \<not> f_ipr fdp))"
    | "cmd = F_SETLK" "l_type flp \<noteq> F_UNLCK" "\<not> ((rl_type ?r \<and> \<not> f_ipw fdp) \<or> (\<not> rl_type ?r \<and> \<not> f_ipr fdp))" by (cases cmd) auto
  then show ?thesis
  proof cases
    case 1
    then show ?thesis using eq assms(5) ok by (auto split: list.splits)
  next
    case 2
    obtain r bs free where rm: "remlock (i_rl s ?i) ?r (freerl s) = (r, bs, free)" by (metis prod.exhaust)
    have "locks_ok (leave cmd ?i (?t\<lparr>i_rl := (i_rl s)(?i := bs), freerl := free\<rparr>))"
      by (rule remlock_ok [OF assms(1) pr rm]) simp
    then show ?thesis using eq assms(5) 2 rm by auto
  next
    case 3
    then have "rlock_call self pid fdp cmd flp ws s = Some (Done (leave cmd ?i ?t) (- 1, Some EINVAL, flp))" using eq by simp
    then show ?thesis using assms(5) ok by auto
  next
    case 4
    then show ?thesis using setlkw_keeps [OF assms(1) pr assms(4) _ False] assms(5) by blast
  next
    case 5
    then show ?thesis using setlk_keeps [OF assms(1) pr _ False] assms(5) by blast
  qed
qed

lemma addlock_holds:
  assumes pr: "proper r" and pb: "\<forall>b \<in> set (i_rl s i). proper b" and a: "addlock i r s = (0, None, s')"
    and disj: "own_disjoint (i_rl s i) (rl_proc r)"
  shows "holds (i_rl s' i) p t x \<longleftrightarrow> (if p = rl_proc r \<and> covers r x then t = rl_type r else holds (i_rl s i) p t x)"
  using a
proof (cases rule: addlock_spec [OF pr pb a])
  case 1
  then show ?thesis by simp
next
  case (2 bs' free)
  have own: "t = u" if "holds (i_rl s i) (rl_proc r) t x" "holds (i_rl s i) (rl_proc r) u x" for t u x
    using disj that by (auto simp: own_disjoint_def)
  have f: "i_rl s' i = bs'" using 2(3) by simp
  note 8 = 2(8) [OF refl]
  show ?thesis
  proof (cases "p = rl_proc r \<and> covers r x")
    case True
    then have "holds bs' p t x \<longleftrightarrow> t = rl_type r" using 2(6) 8 by blast
    then show ?thesis using True f by auto
  next
    case out: False
    then have "holds bs' p t x \<longleftrightarrow> holds (i_rl s i) p t x" using 2(5,7) own by metis
    then show ?thesis unfolding f if_not_P [OF out] .
  qed
qed

text \<open>C27: \<open>F_SETLK\<close> does to the table of who holds which position with which type what it says: when it returns 0 without an
  error, the caller holds the range with the type asked for (nothing after \<open>F_UNLCK\<close>), and all else is as before, for the caller outside
  the range and for every other process. This holds when the range asked for ends before the largest position, 2147483647, the locks on the lists are in order and do so as well,
  and the caller's locks on the file do not overlap with different types; unlocking up to the largest position gives the caller the whole file instead:
  \<open>unlock_to_largest_locks_all\<close>.\<close>

theorem rlock_sets:
  assumes "locks_ok s" "own_disjoint (i_rl s (f_ip fdp)) self" "l_start flp < 2147483648" "rl_end (rlock_range self fdp flp) < 2147483647"
    "rlock_call self pid fdp F_SETLK flp ws s = Some (Done s' (0, None, flp'))"
  shows "holds (i_rl s' (f_ip fdp)) p t x \<longleftrightarrow>
    (if p = self \<and> covers (rlock_range self fdp flp) x then l_type flp \<noteq> F_UNLCK \<and> (t \<longleftrightarrow> l_type flp = F_WRLCK)
     else holds (i_rl s (f_ip fdp)) p t x)"
proof -
  let ?t = "s\<lparr>rl_gate := True\<rparr>" let ?i = "f_ip fdp" let ?r = "rlock_range self fdp flp"
  have nb: "\<not> bad_range ?r" using assms(5) rlock_call_bad by fastforce
  note eq = rlock_call_eq [OF nb, of pid F_SETLK ws s]
  note pr = range_proper [OF assms(3,4) nb]
  have pb: "\<forall>b \<in> set (i_rl ?t ?i). proper b" using locks_okD(1) [OF assms(1)] by simp
  show ?thesis
  proof (cases "l_type flp = F_UNLCK")
    case True
    obtain r bs free where rm: "remlock (i_rl s ?i) ?r (freerl s) = (r, bs, free)" by (metis prod.exhaust)
    then have s': "i_rl s' ?i = bs" "r" using eq assms(5) True by (auto split: if_splits)
    show ?thesis using remlock_spec [OF pr locks_okD(1) [OF assms(1)] rm] s' True by (auto simp: taken_def)
  next
    case False
    obtain r e s2 where a: "addlock ?i ?r ?t = (r, e, s2)" by (metis prod.exhaust)
    have n: "nextblock (i_rl s ?i) ?r = []"
      by (rule ccontr) (use eq assms(5) False in \<open>auto split: if_splits\<close>)
    have "Done s' (0, None, flp') = Done (leave F_SETLK ?i s2) (r, e, flp)"
      using eq assms(5) False n a by (auto split: if_splits)
    then have res: "r = 0" "e = None" "i_rl s' = i_rl s2" by simp_all
    have tt: "rl_type ?r \<longleftrightarrow> l_type flp = F_WRLCK" using False by (cases "l_type flp") auto
    have "own_disjoint (i_rl ?t ?i) (rl_proc ?r)" using assms(2) by simp
    then show ?thesis using addlock_holds [OF pr pb a [unfolded res(1,2)]] res(3) tt False by simp
  qed
qed

text \<open>A lock that is refused, or that \<open>addlock\<close> could not place for lack of free locks, takes nothing away: after \<open>F_SETLK\<close> with
  a lock (not \<open>F_UNLCK\<close>), whatever it returns, every other process holds exactly what it held, and the caller holds a lock of one type or
  the other on every position it held a lock on.\<close>

theorem rlock_keeps_locked:
  assumes "locks_ok s" "l_start flp < 2147483648" "rl_end (rlock_range self fdp flp) < 2147483647" "l_type flp \<noteq> F_UNLCK"
    "rlock_call self pid fdp F_SETLK flp ws s = Some (Done s' res)"
  shows "(\<forall>p t x. p \<noteq> self \<longrightarrow> holds (i_rl s' (f_ip fdp)) p t x = holds (i_rl s (f_ip fdp)) p t x) \<and>
    (\<forall>t x. holds (i_rl s (f_ip fdp)) self t x \<longrightarrow> (\<exists>u. holds (i_rl s' (f_ip fdp)) self u x)) \<and>
    (fst res = - 1 \<longrightarrow> i_rl s' = i_rl s)"
proof (cases "bad_range (rlock_range self fdp flp)")
  case True
  then show ?thesis using rlock_call_bad [OF True] assms(5) by auto
next
  case False
  let ?t = "s\<lparr>rl_gate := True\<rparr>" let ?i = "f_ip fdp" let ?r = "rlock_range self fdp flp"
  note eq = rlock_call_eq [OF False, of pid F_SETLK ws s]
  note pr = range_proper [OF assms(2,3) False]
  have pb: "\<forall>b \<in> set (i_rl ?t ?i). proper b" using locks_okD(1) [OF assms(1)] by simp
  show ?thesis
  proof (cases "nextblock (i_rl s ?i) ?r = [] \<and> \<not> ((rl_type ?r \<and> \<not> f_ipw fdp) \<or> (\<not> rl_type ?r \<and> \<not> f_ipr fdp))")
    case refused: False
    then have "i_rl s' = i_rl s" using eq assms(4,5) by (auto split: if_splits)
    then show ?thesis by auto
  next
    case True
    obtain r e s2 where a: "addlock ?i ?r ?t = (r, e, s2)" by (metis prod.exhaust)
    have "Done s' res = Done (leave F_SETLK ?i s2) (r, e, flp)" using eq assms(4,5) True a by (auto split: if_splits)
    then have res: "i_rl s' = i_rl s2" "fst res = r" by simp_all
    show ?thesis using a
    proof (cases rule: addlock_spec [OF pr pb a])
      case 1
      then show ?thesis using res by auto
    next
      case (2 bs' free)
      have f: "i_rl s' ?i = bs'" "fst res = 0" using res 2(1,3) by simp_all
      have 5: "holds bs' p t x \<Longrightarrow> holds (i_rl s ?i) p t x \<or> p = self \<and> t = rl_type ?r \<and> covers ?r x" for p t x using 2(5) by simp
      have 6: "covers ?r x \<Longrightarrow> holds bs' self (rl_type ?r) x" for x using 2(6) by simp
      have 7: "holds (i_rl s ?i) p t x \<Longrightarrow> holds bs' p t x \<or> p = self \<and> t \<noteq> rl_type ?r \<and> (covers ?r x \<or> holds (i_rl s ?i) p (rl_type ?r) x)"
        for p t x using 2(7) [of p t x] by simp
      have "holds bs' p t x = holds (i_rl s ?i) p t x" if "p \<noteq> self" for p t x using 5 7 that by blast
      moreover have "\<exists>u. holds bs' self u x" if "holds (i_rl s ?i) self t x" for t x using 6 7 that by blast
      ultimately show ?thesis unfolding f by auto
    qed
  qed
qed

text \<open>\<open>F_GETLK\<close> tells the truth: it answers \<open>F_UNLCK\<close> exactly when no position of the range is held by another process in
  conflict with the lock asked for, and otherwise describes a lock that another process holds, that conflicts, and that has a position of
  the range.\<close>

theorem rlock_getlk:
  assumes "locks_ok s" "l_start flp < 2147483648" "rl_end (rlock_range self fdp flp) < 2147483647"
    "rlock_call self pid fdp F_GETLK flp ws s = Some (Done s' (0, None, flp'))" "l_type flp \<noteq> F_UNLCK"
  shows "i_rl s' = i_rl s \<and>
    (l_type flp' = F_UNLCK \<longleftrightarrow>
      \<not> (\<exists>p t x. p \<noteq> self \<and> covers (rlock_range self fdp flp) x \<and> holds (i_rl s (f_ip fdp)) p t x \<and> (t \<or> l_type flp = F_WRLCK))) \<and>
    (l_type flp' \<noteq> F_UNLCK \<longrightarrow> (\<exists>b x. b \<in> set (i_rl s (f_ip fdp)) \<and> rl_proc b \<noteq> self \<and> covers b x \<and> covers (rlock_range self fdp flp) x \<and>
       l_pid flp' = pid (rl_proc b) \<and> l_start flp' = rl_start b \<and> (l_len flp' = 0 \<longleftrightarrow> rl_end b = - 1) \<and>
       (rl_end b \<noteq> - 1 \<longrightarrow> rl_end b = l_start flp' + l_len flp' - 1) \<and> (l_type flp' = F_WRLCK \<longleftrightarrow> rl_type b)))"
proof -
  let ?i = "f_ip fdp" let ?r = "rlock_range self fdp flp"
  have nb: "\<not> bad_range ?r" using assms(4) rlock_call_bad by fastforce
  note eq = rlock_call_eq [OF nb, of pid F_GETLK ws s]
  note pr = range_proper [OF assms(2,3) nb]
  note ok = locks_okD(1) [OF assms(1), of ?i]
  have ty: "rl_type ?r \<longleftrightarrow> l_type flp = F_WRLCK" using assms(5) by (cases "l_type flp") auto
  have conf: "nextblock (i_rl s ?i) ?r = [] \<longleftrightarrow>
      \<not> (\<exists>p t x. p \<noteq> self \<and> covers ?r x \<and> holds (i_rl s ?i) p t x \<and> (t \<or> l_type flp = F_WRLCK))"
    using nextblock_conflict [OF ok pr] unfolding range_sel(1) ty .
  show ?thesis
  proof (cases "nextblock (i_rl s ?i) ?r")
    case Nil
    then have "i_rl s' = i_rl s" "l_type flp' = F_UNLCK" using eq assms(4) by auto
    then show ?thesis using conf Nil by simp
  next
    case (Cons b cs)
    then have f: "i_rl s' = i_rl s" "flp' = rlock_result b pid flp" using eq assms(4) by auto
    note N = nextblock_Cons [OF Cons]
    have pb: "proper b" using ok N(1) by blast
    obtain x where x: "covers ?r x" "covers b x" using meets_iff [OF pr pb] N(2) by blast
    have pn: "rl_proc b \<noteq> self" using N(3) by (simp add: blocks_def)
    have d: "l_type flp' \<noteq> F_UNLCK" "l_pid flp' = pid (rl_proc b)" "l_start flp' = rl_start b" "l_type flp' = F_WRLCK \<longleftrightarrow> rl_type b"
      "rl_end b \<noteq> - 1 \<Longrightarrow> rl_end b = l_start flp' + l_len flp' - 1" by (simp_all add: f(2) rlock_result_def)
    have "l_len flp' = 0 \<longleftrightarrow> rl_end b = - 1" using pb by (auto simp: f(2) rlock_result_def proper_def)
    then have "\<exists>b x. b \<in> set (i_rl s ?i) \<and> rl_proc b \<noteq> self \<and> covers b x \<and> covers ?r x \<and>
       l_pid flp' = pid (rl_proc b) \<and> l_start flp' = rl_start b \<and> (l_len flp' = 0 \<longleftrightarrow> rl_end b = - 1) \<and>
       (rl_end b \<noteq> - 1 \<longrightarrow> rl_end b = l_start flp' + l_len flp' - 1) \<and> (l_type flp' = F_WRLCK \<longleftrightarrow> rl_type b)"
      using N(1) pn x d(2-5) by blast
    then show ?thesis using d(1) f(1) conf Cons by simp
  qed
qed

section \<open>Deadlocks\<close>

text \<open>Who waits for whom: \<open>q\<close> has a lock that blocks the one \<open>p\<close> sleeps for.\<close>

definition waits :: "rlocks \<Rightarrow> (nat \<times> nat) set" where
  "waits s = {(p, q). \<exists>rl i b. p_prl s p = Some (rl, i) \<and> b \<in> set (i_rl s i) \<and> meets rl b \<and> blocks rl b \<and> q = rl_proc b}"

lemma waitsI: "p_prl s p = Some (rl, i) \<Longrightarrow> b \<in> set (i_rl s i) \<Longrightarrow> meets rl b \<Longrightarrow> blocks rl b \<Longrightarrow> (p, rl_proc b) \<in> waits s"
  by (auto simp: waits_def)

lemma nextblock_Ex:
  assumes "nextblock bs l = b # cs"
  shows "(\<exists>c \<in> set bs. meets l c \<and> blocks l c \<and> P c) \<longleftrightarrow> P b \<or> (\<exists>c \<in> set cs. meets l c \<and> blocks l c \<and> P c)"
  using nextblock_Cons [OF assms] by auto

lemma waits_rtrancl:
  "(p, self) \<in> (waits s)\<^sup>* \<longleftrightarrow>
    p = self \<or> (\<exists>rl i. p_prl s p = Some (rl, i) \<and> (\<exists>b \<in> set (i_rl s i). meets rl b \<and> blocks rl b \<and> (rl_proc b, self) \<in> (waits s)\<^sup>*))"
proof
  assume "(p, self) \<in> (waits s)\<^sup>*"
  then show "p = self \<or> (\<exists>rl i. p_prl s p = Some (rl, i) \<and> (\<exists>b \<in> set (i_rl s i). meets rl b \<and> blocks rl b \<and> (rl_proc b, self) \<in> (waits s)\<^sup>*))"
    by (cases rule: converse_rtranclE) (auto simp: waits_def)
next
  assume "p = self \<or> (\<exists>rl i. p_prl s p = Some (rl, i) \<and> (\<exists>b \<in> set (i_rl s i). meets rl b \<and> blocks rl b \<and> (rl_proc b, self) \<in> (waits s)\<^sup>*))"
  then show "(p, self) \<in> (waits s)\<^sup>*" by (auto intro: waitsI converse_rtrancl_into_rtrancl)
qed

lemma waits_trancl:
  "(p, self) \<in> (waits s)\<^sup>+ \<longleftrightarrow>
    (\<exists>rl i. p_prl s p = Some (rl, i) \<and> (\<exists>b \<in> set (i_rl s i). meets rl b \<and> blocks rl b \<and> (rl_proc b, self) \<in> (waits s)\<^sup>*))"
  unfolding trancl_unfold_left relcomp_unfold by (auto simp: waits_def)

lemma wait_scan_iff:
  assumes "wait_scan self s lock bs = Some r"
  shows "r \<longleftrightarrow> (\<exists>b \<in> set bs. meets lock b \<and> blocks lock b \<and> (rl_proc b, self) \<in> (waits s)\<^sup>*)"
  using assms
proof (induction self s lock bs r rule: wait_scan.raw_induct [rotated, consumes 1])
  case (1 ws self s lock bs r)
  note IH = 1(1) and eq = 1(2)
  show ?case
  proof (cases "nextblock bs lock")
    case Nil
    then show ?thesis using eq nextblock_Nil [of bs lock] by auto
  next
    case (Cons b cs)
    note ex = nextblock_Ex [OF Cons, of "\<lambda>b. (rl_proc b, self) \<in> (waits s)\<^sup>*"]
    show ?thesis
    proof (cases "rl_proc b = self")
      case True
      then show ?thesis using eq Cons ex by simp
    next
      case other: False
      show ?thesis
      proof (cases "p_prl s (rl_proc b)")
        case None
        then have "ws self s lock cs = Some r" using eq Cons other by simp
        then show ?thesis using IH ex None other waits_rtrancl [of "rl_proc b" self s] by simp
      next
        case (Some li)
        obtain l i where li: "li = (l, i)" by (cases li)
        obtain q where q: "ws self s l (i_rl s i) = Some q" "if q then r else ws self s lock cs = Some r"
          using eq Cons other Some li by (auto simp: bind_eq_Some_conv split: if_splits)
        have "q \<longleftrightarrow> (rl_proc b, self) \<in> (waits s)\<^sup>*"
          using IH [OF q(1)] Some li other waits_rtrancl [of "rl_proc b" self s] by simp
        then show ?thesis using q(2) IH [of self s lock cs r] ex by (cases q) simp_all
      qed
    qed
  qed
qed

lemma waiting_iff: "waiting self s p = Some r \<Longrightarrow> r \<longleftrightarrow> (p, self) \<in> (waits s)\<^sup>+"
  using wait_scan_iff [of self s] unfolding waits_trancl waiting_def by (cases "p_prl s p") auto

lemma wait_scan_some:
  assumes "\<And>p l i. p \<noteq> self \<Longrightarrow> p \<in> rl_proc ` {b \<in> set bs. meets lock b \<and> blocks lock b} \<Longrightarrow> p_prl s p = Some (l, i) \<Longrightarrow>
    \<exists>r. wait_scan self s l (i_rl s i) = Some r"
  shows "\<exists>r. wait_scan self s lock bs = Some r"
  using assms
proof (induction "length bs" arbitrary: bs rule: less_induct)
  case less
  show ?case
  proof (cases "nextblock bs lock")
    case Nil
    then have "wait_scan self s lock bs = Some False" by (subst wait_scan.simps) simp
    then show ?thesis by blast
  next
    case (Cons b cs)
    note N = nextblock_Cons [OF Cons]
    have "length cs < length bs" using length_nextblock [of bs lock] Cons by simp
    then obtain r where r: "wait_scan self s lock cs = Some r" using less.hyps [of cs] less.prems N(4) by blast
    have "\<exists>q. wait_scan self s l (i_rl s i) = Some q" if "rl_proc b \<noteq> self" "p_prl s (rl_proc b) = Some (l, i)" for l i
      using less.prems [OF that(1) _ that(2)] N(1-3) by blast
    then have "\<exists>q. (case p_prl s (rl_proc b) of None \<Rightarrow> Some False | Some (l, i) \<Rightarrow> wait_scan self s l (i_rl s i)) = Some q"
      if "rl_proc b \<noteq> self"
      using that by (cases "p_prl s (rl_proc b)") auto
    then obtain q where q: "rl_proc b \<noteq> self \<Longrightarrow> (case p_prl s (rl_proc b) of None \<Rightarrow> Some False | Some (l, i) \<Rightarrow> wait_scan self s l (i_rl s i)) = Some q"
      by blast
    show ?thesis
    proof (cases "rl_proc b = self")
      case True
      have "wait_scan self s lock bs = Some True" by (subst wait_scan.simps) (simp add: Cons True)
      then show ?thesis by blast
    next
      case False
      have "wait_scan self s lock bs = Some (q \<or> r)"
        using q [OF False] r by (subst wait_scan.simps) (cases "p_prl s (rl_proc b)"; auto simp: Cons False)
      then show ?thesis by blast
    qed
  qed
qed

lemma wait_scan_total:
  assumes wf: "wf {(q, p). (p, q) \<in> waits s \<and> p \<noteq> self}"
  shows "\<exists>r. wait_scan self s lock bs = Some r"
proof -
  have "p \<noteq> self \<longrightarrow> p_prl s p = Some (l, i) \<longrightarrow> (\<exists>r. wait_scan self s l (i_rl s i) = Some r)" for p l i
    using wf
  proof (induction p arbitrary: l i rule: wf_induct_rule)
    case (less p)
    have "\<exists>r. wait_scan self s l (i_rl s i) = Some r" if "p \<noteq> self" "p_prl s p = Some (l, i)"
    proof (rule wait_scan_some)
      fix q m j
      assume "q \<noteq> self" "q \<in> rl_proc ` {b \<in> set (i_rl s i). meets l b \<and> blocks l b}" "p_prl s q = Some (m, j)"
      then show "\<exists>r. wait_scan self s m (i_rl s j) = Some r"
        using less [of q m j] that by (auto intro: waitsI)
    qed
    then show ?case by blast
  qed
  note t = this
  show ?thesis by (rule wait_scan_some) (use t in blast)
qed

lemma deadlock_iff:
  assumes "wf {(q, p). (p, q) \<in> waits s \<and> p \<noteq> self}"
  shows "deadlock self s rl bs = Some (\<exists>b \<in> set bs. meets rl b \<and> blocks rl b \<and> (rl_proc b, self) \<in> (waits s)\<^sup>+)"
proof (induction "length bs" arbitrary: bs rule: less_induct)
  case less
  show ?case
  proof (cases "nextblock bs rl")
    case Nil
    then show ?thesis using nextblock_Nil [of bs rl] by (subst deadlock.simps) auto
  next
    case (Cons b cs)
    have "length cs < length bs" using length_nextblock [of bs rl] Cons by simp
    note IH = less.hyps [OF this]
    obtain q where q: "waiting self s (rl_proc b) = Some q"
      using wait_scan_total [OF assms] unfolding waiting_def by (cases "p_prl s (rl_proc b)") auto
    have "deadlock self s rl bs = Some (q \<or> (\<exists>c \<in> set cs. meets rl c \<and> blocks rl c \<and> (rl_proc c, self) \<in> (waits s)\<^sup>+))"
      by (subst deadlock.simps) (simp add: Cons q IH)
    then show ?thesis unfolding nextblock_Ex [OF Cons] waiting_iff [OF q] by simp
  qed
qed

text \<open>One more process that goes to sleep closes a cycle exactly when one of those it waits for waits for it.\<close>

lemma trancl_fan:
  assumes "\<forall>a \<in> A. (a, z) \<notin> W\<^sup>*" "(x, y) \<in> (W \<union> {z} \<times> A)\<^sup>+"
  shows "(x, y) \<in> W\<^sup>+ \<or> ((x, z) \<in> W\<^sup>* \<and> (\<exists>a \<in> A. (a, y) \<in> W\<^sup>*))"
  using assms(2)
proof (induction rule: trancl_induct)
  case (base y)
  then show ?case by auto
next
  case (step y w)
  then consider "(y, w) \<in> W" | "y = z" "w \<in> A" by blast
  then show ?case
  proof cases
    case 1
    then show ?thesis using step.IH by (auto intro: trancl_into_trancl rtrancl_into_rtrancl)
  next
    case 2
    then show ?thesis using step.IH assms(1) by (auto intro: trancl_into_rtrancl)
  qed
qed

lemma acyclic_fan:
  assumes "acyclic W" "\<forall>a \<in> A. (a, z) \<notin> W\<^sup>*"
  shows "acyclic (W \<union> {z} \<times> A)"
proof (rule acyclicI, rule allI, rule notI)
  fix x
  assume "(x, x) \<in> (W \<union> {z} \<times> A)\<^sup>+"
  from trancl_fan [OF assms(2) this] show False
    using assms by (auto simp: acyclic_def) (meson rtrancl_trans)
qed

lemma rtrancl_fan: "(x, z) \<in> (W \<union> {z} \<times> A)\<^sup>* \<longleftrightarrow> (x, z) \<in> W\<^sup>*"
proof
  assume "(x, z) \<in> (W \<union> {z} \<times> A)\<^sup>*"
  then show "(x, z) \<in> W\<^sup>*"
    by (induction rule: converse_rtrancl_induct) (auto intro: converse_rtrancl_into_rtrancl)
next
  assume "(x, z) \<in> W\<^sup>*"
  then show "(x, z) \<in> (W \<union> {z} \<times> A)\<^sup>*" by (meson in_rtrancl_UnI)
qed

definition blockers :: "rlocks \<Rightarrow> rlock \<Rightarrow> nat \<Rightarrow> nat set" where
  "blockers s rl i = rl_proc ` {b \<in> set (i_rl s i). meets rl b \<and> blocks rl b}"

lemma waits_sleep:
  assumes "p_prl s self = None" "i_rl s' = i_rl s" "p_prl s' = (p_prl s)(self := Some (rl, i))"
  shows "waits s' = waits s \<union> {self} \<times> blockers s rl i"
  using assms by (auto simp: waits_def blockers_def split: if_splits)

lemma waits_cong: "i_rl s' = i_rl s \<Longrightarrow> p_prl s' = p_prl s \<Longrightarrow> waits s' = waits s"
  by (simp add: waits_def)

lemma waitlock_sleeps:
  assumes "acyclic (waits s)" "finite (waits s)" "p_prl s self = None" "freerl s \<noteq> 0" "nextblock (i_rl s i) rl \<noteq> []" "rl_proc rl = self"
  obtains s' where "acyclic (waits s')"
    "waitlock self i rl [] s = Some (if \<exists>q \<in> blockers s rl i. (q, self) \<in> (waits s)\<^sup>+ then Done s' (- 1, Some EDEADLK) else Blocked s')"
    "if \<exists>q \<in> blockers s rl i. (q, self) \<in> (waits s)\<^sup>+ then waits s' = waits s \<and> freerl s' = freerl s
     else waits s' = waits s \<union> {self} \<times> blockers s rl i"
proof -
  let ?s = "s\<lparr>freerl := freerl s - 1, p_prl := (p_prl s)(self := Some (rl, i))\<rparr>"
  have W: "waits ?s = waits s \<union> {self} \<times> blockers s rl i" by (rule waits_sleep [OF assms(3)]) simp_all
  have "wf ((waits s)\<inverse>)" using assms(1,2) by (simp add: finite_acyclic_wf_converse)
  moreover have "{(q, p). (p, q) \<in> waits ?s \<and> p \<noteq> self} \<subseteq> (waits s)\<inverse>" unfolding W by auto
  ultimately have wf: "wf {(q, p). (p, q) \<in> waits ?s \<and> p \<noteq> self}" by (rule wf_subset)
  have ne: "self \<notin> blockers s rl i" using assms(6) by (auto simp: blockers_def blocks_def)
  have star: "(q, self) \<in> (waits ?s)\<^sup>+ \<longleftrightarrow> (q, self) \<in> (waits s)\<^sup>+" if "q \<noteq> self" for q
    using rtrancl_fan [of q self "waits s" "blockers s rl i"] that unfolding W by (simp add: rtrancl_eq_or_trancl)
  have D: "deadlock self ?s rl (i_rl ?s i) = Some (\<exists>q \<in> blockers s rl i. (q, self) \<in> (waits s)\<^sup>+)"
  proof -
    have "(\<exists>b \<in> set (i_rl ?s i). meets rl b \<and> blocks rl b \<and> (rl_proc b, self) \<in> (waits ?s)\<^sup>+) \<longleftrightarrow>
        (\<exists>q \<in> blockers s rl i. (q, self) \<in> (waits ?s)\<^sup>+)"
      unfolding blockers_def by auto
    also have "\<dots> \<longleftrightarrow> (\<exists>q \<in> blockers s rl i. (q, self) \<in> (waits s)\<^sup>+)" using star ne by metis
    finally show ?thesis unfolding deadlock_iff [OF wf] by simp
  qed
  have eq: "waitlock self i rl [] s = wait_loop self i rl [] ?s" using assms(4,5) by (simp add: waitlock_def getlock_def)
  show thesis
  proof (cases "\<exists>q \<in> blockers s rl i. (q, self) \<in> (waits s)\<^sup>+")
    case True
    have w: "waits (wait_cleanup self ?s) = waits s" using assms(3) by (intro waits_cong) (auto simp: wait_cleanup_def)
    have "wait_loop self i rl [] ?s = Some (Done (wait_cleanup self ?s) (- 1, Some EDEADLK))"
      using D True by (subst wait_loop.simps) simp
    then show ?thesis using that [of "wait_cleanup self ?s"] True eq w assms(1,4) by (simp add: wait_cleanup_def)
  next
    case False
    have w: "waits (?s\<lparr>rl_gate := False\<rparr>) = waits s \<union> {self} \<times> blockers s rl i" unfolding W [symmetric] by (intro waits_cong) simp_all
    have "wait_loop self i rl [] ?s = Some (Blocked (?s\<lparr>rl_gate := False\<rparr>))"
      using D False by (subst wait_loop.simps) (simp add: Let_def)
    moreover have "(q, self) \<notin> (waits s)\<^sup>*" if "q \<in> blockers s rl i" for q
      using that False ne by (auto simp: rtrancl_eq_or_trancl)
    then have "acyclic (waits s \<union> {self} \<times> blockers s rl i)" using assms(1) by (intro acyclic_fan) auto
    ultimately show ?thesis using that [of "?s\<lparr>rl_gate := False\<rparr>"] False eq w by simp
  qed
qed

subsection \<open>Processes that lock, wait and go on\<close>

text \<open>What the loop of \<open>waitlock\<close> does when the process has been woken, with a signal or without.\<close>

definition woken :: "nat \<Rightarrow> nat \<Rightarrow> rlock \<Rightarrow> bool \<Rightarrow> rlocks wake list \<Rightarrow> rlocks \<Rightarrow> (rlocks, int \<times> errno option) outcome option" where
  "woken self i rl sig ws s =
     (let s = s\<lparr>rl_gate := True\<rparr> in
      if sig then Some (Done (wait_cleanup self s) (- 1, Some EINTR))
      else if nextblock (i_rl s i) rl \<noteq> [] then wait_loop self i rl ws s
      else (let (r, e, s) = addlock i rl (wait_cleanup self s) in Some (Done s (r, e))))"

lemma wait_loop_woken:
  "deadlock self s rl (i_rl s i) = Some False \<Longrightarrow> wait_loop self i rl (w # ws) s = woken self i rl (snd w) ws (fst w (s\<lparr>rl_gate := False\<rparr>))"
  by (subst wait_loop.simps) (simp add: woken_def Let_def)

text \<open>The steps of all processes: one that does not wait calls \<open>rlock\<close>, which returns or goes to sleep; one that sleeps is woken, and returns or sleeps on.\<close>

definition state_of :: "('s, 'a) outcome \<Rightarrow> 's" where
  "state_of x = (case x of Blocked s \<Rightarrow> s | Done s _ \<Rightarrow> s)"

inductive lock_step :: "rlocks \<Rightarrow> rlocks \<Rightarrow> bool" where
  call: "p_prl s self = None \<Longrightarrow> l_start flp < 2147483648 \<Longrightarrow> rl_end (rlock_range self fdp flp) < 2147483647 \<Longrightarrow>
    rlock_call self pid fdp cmd flp [] s = Some x \<Longrightarrow> lock_step s (state_of x)"
| wakeup: "p_prl s self = Some (rl, i) \<Longrightarrow> woken self i rl sig [] s = Some (Blocked s') \<Longrightarrow> lock_step s s'"
| return: "p_prl s self = Some (rl, i) \<Longrightarrow> woken self i rl sig [] s = Some (Done s' r) \<Longrightarrow> lock_step s (leave F_SETLKW i s')"

definition lock_start :: "nat \<Rightarrow> rlocks" where
  "lock_start n = \<lparr>i_rl = (\<lambda>_. []), freerl = n, rl_gate = False, p_prl = (\<lambda>_. None), rl_log = []\<rparr>"

definition waiters_ok :: "rlocks \<Rightarrow> bool" where
  "waiters_ok s \<longleftrightarrow> finite (dom (p_prl s)) \<and> (\<forall>p rl i. p_prl s p = Some (rl, i) \<longrightarrow> proper rl \<and> rl_proc rl = p)"

definition rl_inv :: "rlocks \<Rightarrow> bool" where
  "rl_inv s \<longleftrightarrow> locks_ok s \<and> waiters_ok s \<and> acyclic (waits s)"

lemma waiters_okD: "waiters_ok s \<Longrightarrow> p_prl s p = Some (rl, i) \<Longrightarrow> proper rl" "waiters_ok s \<Longrightarrow> p_prl s p = Some (rl, i) \<Longrightarrow> rl_proc rl = p"
  unfolding waiters_ok_def by blast+

lemma waiters_ok_upd:
  assumes "waiters_ok s" "p_prl s' = (p_prl s)(self := w)" "\<And>rl i. w = Some (rl, i) \<Longrightarrow> proper rl \<and> rl_proc rl = self"
  shows "waiters_ok s'"
proof -
  have "dom (p_prl s') \<subseteq> insert self (dom (p_prl s))" by (auto simp: assms(2) split: if_splits)
  then have "finite (dom (p_prl s'))" using assms(1) finite_subset unfolding waiters_ok_def by blast
  moreover have "proper rl \<and> rl_proc rl = p" if "p_prl s' p = Some (rl, i)" for p rl i
    using that waiters_okD [OF assms(1), of p rl i] assms(2,3) by (cases "p = self") simp_all
  ultimately show ?thesis unfolding waiters_ok_def by blast
qed

lemma finite_waits: "waiters_ok s \<Longrightarrow> finite (waits s)"
proof -
  assume "waiters_ok s"
  then have "finite (\<Union>p \<in> dom (p_prl s). {p} \<times> rl_proc ` set (i_rl s (snd (the (p_prl s p)))))"
    unfolding waiters_ok_def by blast
  then show ?thesis by (rule rev_finite_subset) (force simp: waits_def)
qed

lemma waits_holds:
  assumes "locks_ok s" "waiters_ok s"
  shows "(p, q) \<in> waits s \<longleftrightarrow> (\<exists>rl i x t. p_prl s p = Some (rl, i) \<and> covers rl x \<and> holds (i_rl s i) q t x \<and> q \<noteq> p \<and> (t \<or> rl_type rl))"
proof
  assume "(p, q) \<in> waits s"
  then obtain rl i b where w: "p_prl s p = Some (rl, i)" "b \<in> set (i_rl s i)" "meets rl b" "blocks rl b" "q = rl_proc b" by (auto simp: waits_def)
  then have pr: "proper rl" "rl_proc rl = p" "proper b" using waiters_okD [OF assms(2)] locks_okD(1) [OF assms(1)] by blast+
  then obtain x where "covers rl x" "covers b x" using w(3) meets_iff by blast
  then show "\<exists>rl i x t. p_prl s p = Some (rl, i) \<and> covers rl x \<and> holds (i_rl s i) q t x \<and> q \<noteq> p \<and> (t \<or> rl_type rl)"
    using w pr(2) by (intro exI [of _ rl] exI [of _ i] exI [of _ x] exI [of _ "rl_type b"]) (auto simp: blocks_def holds_def)
next
  assume "\<exists>rl i x t. p_prl s p = Some (rl, i) \<and> covers rl x \<and> holds (i_rl s i) q t x \<and> q \<noteq> p \<and> (t \<or> rl_type rl)"
  then obtain rl i x b where w: "p_prl s p = Some (rl, i)" "covers rl x" "b \<in> set (i_rl s i)" "rl_proc b = q" "covers b x" "q \<noteq> p" "rl_type b \<or> rl_type rl"
    by (auto simp: holds_def)
  then have pr: "proper rl" "rl_proc rl = p" "proper b" using waiters_okD [OF assms(2)] locks_okD(1) [OF assms(1)] by blast+
  then have "meets rl b" using w(2,5) meets_iff by blast
  then show "(p, q) \<in> waits s" using w pr(2) by (auto simp: waits_def blocks_def)
qed

text \<open>One process changes only its own locks, and does not wait afterwards.\<close>

definition own_change :: "nat \<Rightarrow> rlocks \<Rightarrow> rlocks \<Rightarrow> bool" where
  "own_change self s s' \<longleftrightarrow> p_prl s' = (p_prl s)(self := None) \<and> (\<forall>i q t x. q \<noteq> self \<longrightarrow> holds (i_rl s' i) q t x \<longrightarrow> holds (i_rl s i) q t x)"

lemma acyclic_sink:
  assumes "acyclic W" "W' \<subseteq> W \<union> UNIV \<times> {z}" "z \<notin> Domain W'"
  shows "acyclic W'"
proof -
  have "y \<noteq> z \<longrightarrow> (x, y) \<in> W\<^sup>+" if "(x, y) \<in> W'\<^sup>+" for x y
    using that
  proof (induction rule: trancl_induct)
    case (base y)
    then show ?case using assms(2) by auto
  next
    case (step y w)
    have "y \<noteq> z" using step.hyps(2) assms(3) by auto
    then have "(x, y) \<in> W\<^sup>+" using step.IH by simp
    then show ?case using step.hyps(2) assms(2) by (auto intro: trancl_into_trancl)
  qed
  moreover have "x \<noteq> z" if "(x, x) \<in> W'\<^sup>+" for x using that assms(3) by (metis Domain.DomainI tranclD)
  ultimately show ?thesis using assms(1) unfolding acyclic_def by blast
qed

lemma own_change_inv:
  assumes inv: "rl_inv s" and own: "own_change self s s'" and ok: "locks_ok s'"
  shows "rl_inv s'"
proof -
  have p: "p_prl s' = (p_prl s)(self := None)" using own by (simp add: own_change_def)
  have I: "locks_ok s" "waiters_ok s" "acyclic (waits s)" using inv by (simp_all add: rl_inv_def)
  have w: "waiters_ok s'" by (rule waiters_ok_upd [OF I(2) p]) simp
  have "waits s' \<subseteq> waits s \<union> UNIV \<times> {self}"
  proof
    fix e assume e: "e \<in> waits s'"
    obtain a b where ab: "e = (a, b)" by (cases e)
    obtain rl i x t where w: "p_prl s' a = Some (rl, i)" "covers rl x" "holds (i_rl s' i) b t x" "b \<noteq> a" "t \<or> rl_type rl"
      using e unfolding ab waits_holds [OF ok w] by blast
    have "p_prl s a = Some (rl, i)" using w(1) p by (simp split: if_splits)
    moreover have "b \<noteq> self \<Longrightarrow> holds (i_rl s i) b t x" using own w(3) unfolding own_change_def by blast
    ultimately show "e \<in> waits s \<union> UNIV \<times> {self}"
      unfolding ab Un_iff waits_holds [OF I(1,2)] using w(2,4,5) by blast
  qed
  moreover have "self \<notin> Domain (waits s')" using p by (auto simp: waits_def)
  ultimately have "acyclic (waits s')" using acyclic_sink [OF I(3)] by blast
  then show ?thesis using ok w by (simp add: rl_inv_def)
qed

lemma own_change_refl: "p_prl s self = None \<Longrightarrow> i_rl s' = i_rl s \<Longrightarrow> p_prl s' = p_prl s \<Longrightarrow> own_change self s s'"
  by (auto simp: own_change_def)

lemma own_change_cleanup: "own_change self s (wait_cleanup self s)"
  by (simp add: own_change_def wait_cleanup_def)

lemma own_change_leave [simp]: "own_change self s (leave cmd i s') = own_change self s s'"
  by (simp add: own_change_def)

lemma own_change_add:
  assumes "locks_ok s" "proper rl" "rl_proc rl = self" "p_prl s self = None" "addlock i rl s = (r, e, s')"
  shows "own_change self s s'"
proof (cases rule: addlock_spec [OF assms(2) locks_okD(1) [OF assms(1)] assms(5)])
  case 1
  then show ?thesis using assms(4) by (simp add: own_change_refl)
next
  case (2 bs' free)
  then show ?thesis using assms(3,4) by (auto simp: own_change_def)
qed

lemma own_change_trans: "own_change self s t \<Longrightarrow> own_change self t u \<Longrightarrow> own_change self s u"
  unfolding own_change_def by fastforce

lemma own_change_rem:
  assumes "locks_ok s" "proper rl" "rl_proc rl = self" "p_prl s self = None" "remlock (i_rl s i) rl n = (r, bs, free)"
    "i_rl s' = (i_rl s)(i := bs)" "p_prl s' = p_prl s"
  shows "own_change self s s'"
  using remlock_spec [OF assms(2) locks_okD(1) [OF assms(1)] assms(5)] assms(4,6,7) by (auto simp: own_change_def)

text \<open>A process that was put to sleep finds no deadlock when it is woken.\<close>

lemma no_deadlock_asleep:
  assumes "rl_inv s" "p_prl s self = Some (rl, i)"
  shows "deadlock self s rl (i_rl s i) = Some False"
proof -
  have ac: "acyclic (waits s)" "finite (waits s)" using assms(1) finite_waits by (simp_all add: rl_inv_def)
  then have "wf ((waits s)\<inverse>)" by (simp add: finite_acyclic_wf_converse)
  then have wf: "wf {(q, p). (p, q) \<in> waits s \<and> p \<noteq> self}" by (rule wf_subset) auto
  have "(rl_proc b, self) \<notin> (waits s)\<^sup>+" if "b \<in> set (i_rl s i)" "meets rl b" "blocks rl b" for b
    using waitsI [OF assms(2) that] ac(1) unfolding acyclic_def by (meson trancl_into_trancl2)
  then show ?thesis unfolding deadlock_iff [OF wf] by auto
qed

lemma rl_inv_upd [simp]: "rl_inv (s\<lparr>rl_gate := g\<rparr>) = rl_inv s" "rl_inv (leave cmd i s) = rl_inv s"
  using waits_cong [of "s\<lparr>rl_gate := g\<rparr>" s] waits_cong [of "leave cmd i s" s] by (simp_all add: rl_inv_def waiters_ok_def)

lemma woken_inv:
  assumes inv: "rl_inv s" and p: "p_prl s self = Some (rl, i)"
  shows "\<exists>x. woken self i rl sig [] s = Some x \<and> rl_inv (state_of x)"
proof -
  let ?s = "s\<lparr>rl_gate := True\<rparr>" let ?t = "wait_cleanup self ?s"
  have inv': "rl_inv ?s" and p': "p_prl ?s self = Some (rl, i)" using inv p by simp_all
  have ok: "locks_ok ?s" "locks_ok ?t" and pr: "proper rl" "rl_proc rl = self"
    using inv' waiters_okD [OF _ p'] by (auto simp: rl_inv_def)
  have t: "rl_inv ?t" by (rule own_change_inv [OF inv' own_change_cleanup ok(2)])
  consider "sig" | "\<not> sig" "nextblock (i_rl ?s i) rl \<noteq> []" | "\<not> sig" "nextblock (i_rl ?s i) rl = []" by blast
  then show ?thesis
  proof cases
    case 1
    then show ?thesis using t by (simp add: woken_def state_of_def)
  next
    case 2
    have "wait_loop self i rl [] ?s = Some (Blocked (?s\<lparr>rl_gate := False\<rparr>))"
      using no_deadlock_asleep [OF inv' p'] by (subst wait_loop.simps) (simp add: Let_def)
    then show ?thesis using 2 inv by (simp add: woken_def Let_def state_of_def)
  next
    case 3
    obtain r e s' where a: "addlock i rl ?t = (r, e, s')" by (metis prod.exhaust)
    have "nextblock (i_rl ?t i) rl = []" using 3(2) by simp
    then have ok': "locks_ok s'" using addlock_ok [OF ok(2) pr(1) _ a] by blast
    have "p_prl ?t self = None" by (simp add: wait_cleanup_def)
    then have "rl_inv s'" using own_change_inv [OF t own_change_add [OF ok(2) pr _ a] ok'] by blast
    then show ?thesis using 3 a by (simp add: woken_def Let_def state_of_def)
  qed
qed

text \<open>The request that waits, from a state in which nobody waits in a circle.\<close>

lemma waitlock_cases:
  assumes inv: "rl_inv s" and p: "p_prl s self = None" and pr: "proper rl" "rl_proc rl = self"
  shows "\<exists>x. waitlock self i rl [] s = Some x \<and> rl_inv (state_of x) \<and> (nextblock (i_rl s i) rl \<noteq> [] \<longrightarrow>
    x = (if freerl s = 0 then Done (state_of x) (- 1, Some ENOLCK)
         else if \<exists>q \<in> blockers s rl i. (q, self) \<in> (waits s)\<^sup>+ then Done (state_of x) (- 1, Some EDEADLK) else Blocked (state_of x)) \<and>
    waits (state_of x) = waits s \<union> (case x of Blocked _ \<Rightarrow> {self} \<times> blockers s rl i | Done _ _ \<Rightarrow> {}))"
proof -
  have I: "locks_ok s" "waiters_ok s" "acyclic (waits s)" "finite (waits s)" using inv finite_waits by (simp_all add: rl_inv_def)
  consider "nextblock (i_rl s i) rl = []" | "nextblock (i_rl s i) rl \<noteq> []" "freerl s = 0" | "nextblock (i_rl s i) rl \<noteq> []" "freerl s \<noteq> 0" by blast
  then show ?thesis
  proof cases
    case 1
    obtain r e s' where a: "addlock i rl s = (r, e, s')" by (metis prod.exhaust)
    have "rl_inv s'" using own_change_inv [OF inv own_change_add [OF I(1) pr p a] addlock_ok [OF I(1) pr(1) 1 a]] .
    then show ?thesis using 1 a by (simp add: waitlock_def state_of_def)
  next
    case 2
    then show ?thesis using inv by (simp add: waitlock_def getlock_def state_of_def)
  next
    case 3
    let ?s = "s\<lparr>freerl := freerl s - 1, p_prl := (p_prl s)(self := Some (rl, i))\<rparr>"
    obtain s' where s': "acyclic (waits s')"
      "waitlock self i rl [] s = Some (if \<exists>q \<in> blockers s rl i. (q, self) \<in> (waits s)\<^sup>+ then Done s' (- 1, Some EDEADLK) else Blocked s')"
      "if \<exists>q \<in> blockers s rl i. (q, self) \<in> (waits s)\<^sup>+ then waits s' = waits s \<and> freerl s' = freerl s else waits s' = waits s \<union> {self} \<times> blockers s rl i"
      by (rule waitlock_sleeps [OF I(3,4) p 3(2,1) pr(2)])
    have eq: "waitlock self i rl [] s = wait_loop self i rl [] ?s" using 3 by (simp add: waitlock_def getlock_def)
    have st: "i_rl s' = i_rl s" "p_prl s' = (p_prl s)(self := None) \<or> p_prl s' = (p_prl s)(self := Some (rl, i))"
      using s'(2) unfolding eq by (subst (asm) wait_loop.simps, auto simp: bind_eq_Some_conv wait_cleanup_def Let_def split: if_splits)+
    have "locks_ok s'" using I(1) st(1) by (simp add: locks_ok_def)
    moreover have "waiters_ok s'" using st(2) waiters_ok_upd [OF I(2), of s' self None] waiters_ok_upd [OF I(2), of s' self "Some (rl, i)"] pr by auto
    ultimately have "rl_inv s'" using s'(1) by (simp add: rl_inv_def)
    then show ?thesis using s'(2,3) 3 by (cases "\<exists>q \<in> blockers s rl i. (q, self) \<in> (waits s)\<^sup>+") (simp_all add: state_of_def)
  qed
qed

lemma call_inv:
  assumes inv: "rl_inv s" and p: "p_prl s self = None" and pos: "l_start flp < 2147483648" "rl_end (rlock_range self fdp flp) < 2147483647"
  shows "\<exists>x. rlock_call self pid fdp cmd flp [] s = Some x \<and> rl_inv (state_of x)"
proof (cases "bad_range (rlock_range self fdp flp)")
  case True
  then show ?thesis using rlock_call_bad inv by (simp add: state_of_def)
next
  case False
  let ?t = "s\<lparr>rl_gate := True\<rparr>" let ?i = "f_ip fdp" let ?r = "rlock_range self fdp flp"
  note eq = rlock_call_eq [OF False, of pid cmd "[]" s]
  note pr = range_proper [OF pos False]
  have "locks_ok ?t" using inv by (simp add: rl_inv_def)
  moreover have "rl_inv ?t" "p_prl ?t self = None" "rl_inv (leave cmd ?i ?t)" using inv p by simp_all
  ultimately have t: "rl_inv ?t" "locks_ok ?t" "p_prl ?t self = None" "rl_inv (leave cmd ?i ?t)" by blast+
  have own: "rl_proc ?r = self" by simp
  consider "cmd = F_GETLK" | "cmd \<noteq> F_GETLK" "l_type flp = F_UNLCK"
    | "cmd \<noteq> F_GETLK" "l_type flp \<noteq> F_UNLCK" "(rl_type ?r \<and> \<not> f_ipw fdp) \<or> (\<not> rl_type ?r \<and> \<not> f_ipr fdp)"
    | "cmd = F_SETLKW" "l_type flp \<noteq> F_UNLCK" "\<not> ((rl_type ?r \<and> \<not> f_ipw fdp) \<or> (\<not> rl_type ?r \<and> \<not> f_ipr fdp))"
    | "cmd = F_SETLK" "l_type flp \<noteq> F_UNLCK" "\<not> ((rl_type ?r \<and> \<not> f_ipw fdp) \<or> (\<not> rl_type ?r \<and> \<not> f_ipr fdp))" by (cases cmd) auto
  then show ?thesis
  proof cases
    case 1
    then show ?thesis using eq t(4) by (auto simp: state_of_def split: list.splits)
  next
    case 2
    obtain r bs free where rm: "remlock (i_rl s ?i) ?r (freerl s) = (r, bs, free)" by (metis prod.exhaust)
    let ?u = "?t\<lparr>i_rl := (i_rl s)(?i := bs), freerl := free\<rparr>"
    have "own_change self ?t ?u" by (rule own_change_rem [OF t(2) pr own t(3)]) (use rm in simp_all)
    moreover have "locks_ok ?u" by (rule remlock_ok [OF _ pr rm]) (use inv in \<open>simp_all add: rl_inv_def\<close>)
    ultimately have "rl_inv (leave cmd ?i ?u)" using own_change_inv [OF t(1)] by simp
    then show ?thesis using eq 2 rm by (simp add: state_of_def)
  next
    case 3
    then show ?thesis using eq t(4) by (simp add: state_of_def)
  next
    case 4
    obtain x where x: "waitlock self ?i ?r [] ?t = Some x" "rl_inv (state_of x)" using waitlock_cases [OF t(1,3) pr own] by blast
    have e4: "rlock_call self pid fdp cmd flp [] s =
        (case x of Blocked s \<Rightarrow> Some (Blocked s) | Done s (r, e) \<Rightarrow> Some (Done (leave F_SETLKW ?i s) (r, e, flp)))"
      using eq 4(2,3) x(1) unfolding 4(1) by (simp only: rl_cmd.simps if_False if_True refl bind.bind_lunit)
    then show ?thesis using x(2) by (cases x) (auto simp: state_of_def split: prod.splits)
  next
    case 5
    show ?thesis
    proof (cases "nextblock (i_rl s ?i) ?r = []")
      case True
      obtain r e s' where a: "addlock ?i ?r ?t = (r, e, s')" by (metis prod.exhaust)
      have "locks_ok s'" using addlock_ok [OF t(2) pr _ a] True by simp
      then have "rl_inv (leave cmd ?i s')" using own_change_inv [OF t(1) own_change_add [OF t(2) pr own t(3) a]] by simp
      moreover have "rlock_call self pid fdp cmd flp [] s = Some (Done (leave cmd ?i s') (r, e, flp))"
        using eq 5(2,3) True a unfolding 5(1) by (simp only: rl_cmd.simps if_False if_True refl) simp
      ultimately show ?thesis by (simp add: state_of_def)
    next
      case no: False
      have "rlock_call self pid fdp cmd flp [] s = Some (Done (leave cmd ?i ?t) (- 1, Some EACCES, flp))"
        using eq 5(2,3) no unfolding 5(1) by (simp only: rl_cmd.simps if_False if_True refl)
      then show ?thesis using t(4) by (simp add: state_of_def)
    qed
  qed
qed

lemma lock_step_inv: "lock_step s s' \<Longrightarrow> rl_inv s \<Longrightarrow> rl_inv s'"
proof (induction rule: lock_step.induct)
  case (call s self flp fdp pid cmd x)
  then show ?case using call_inv [of s self flp fdp pid cmd] by auto
next
  case (wakeup s self rl i sig s')
  then show ?case using woken_inv [of s self rl i sig] by (auto simp: state_of_def)
next
  case (return s self rl i sig s' r)
  then show ?case using woken_inv [of s self rl i sig] by (auto simp: state_of_def)
qed

lemma reach_rl_inv: "lock_step\<^sup>*\<^sup>* (lock_start n) s \<Longrightarrow> rl_inv s"
proof (induction rule: rtranclp_induct)
  case base
  show ?case by (simp add: rl_inv_def locks_ok_def excl_def waiters_ok_def waits_def lock_start_def acyclic_def)
qed (rule lock_step_inv)

text \<open>C29: In every state that calls of \<open>rlock\<close>, sleeps and wakeups lead to from empty lists of locks, no processes wait for each other in a circle. In such a state each call
  of a process that does not wait, and each wakeup of one that does, returns or sleeps: the search through the waiting processes always ends. A call that may wait and
  has a lock in its way ends with \<open>ENOLCK\<close> when the free list is empty, with \<open>EDEADLK\<close> exactly when one of the processes in its way waits, directly or
  through others, for the caller, and sleeps otherwise; when it does not sleep, nobody waits for anybody who did not before. The ranges asked for end before the largest
  position; for those that do not see \<open>unlock_to_largest_locks_all\<close>.\<close>

theorem waitlock_no_deadlock:
  assumes "lock_step\<^sup>*\<^sup>* (lock_start n) s"
  shows "acyclic (waits s) \<and>
    (\<forall>self pid fdp cmd flp. p_prl s self = None \<longrightarrow> l_start flp < 2147483648 \<longrightarrow> rl_end (rlock_range self fdp flp) < 2147483647 \<longrightarrow>
       rlock_call self pid fdp cmd flp [] s \<noteq> None) \<and>
    (\<forall>self rl i sig. p_prl s self = Some (rl, i) \<longrightarrow> woken self i rl sig [] s \<noteq> None) \<and>
    (\<forall>self rl i. p_prl s self = None \<longrightarrow> proper rl \<longrightarrow> rl_proc rl = self \<longrightarrow> nextblock (i_rl s i) rl \<noteq> [] \<longrightarrow>
       (\<exists>s'. acyclic (waits s') \<and>
         waitlock self i rl [] s = Some (if freerl s = 0 then Done s' (- 1, Some ENOLCK)
           else if \<exists>q \<in> blockers s rl i. (q, self) \<in> (waits s)\<^sup>+ then Done s' (- 1, Some EDEADLK) else Blocked s') \<and>
         waits s' = waits s \<union> (if freerl s = 0 \<or> (\<exists>q \<in> blockers s rl i. (q, self) \<in> (waits s)\<^sup>+) then {} else {self} \<times> blockers s rl i)))"
proof (intro conjI allI impI)
  have inv: "rl_inv s" by (rule reach_rl_inv [OF assms])
  then show "acyclic (waits s)" by (simp add: rl_inv_def)
  show "rlock_call self pid fdp cmd flp [] s \<noteq> None" if "p_prl s self = None" "l_start flp < 2147483648" "rl_end (rlock_range self fdp flp) < 2147483647"
    for self pid fdp cmd flp using call_inv [OF inv that, of pid cmd] by auto
  show "woken self i rl sig [] s \<noteq> None" if "p_prl s self = Some (rl, i)" for self rl i sig using woken_inv [OF inv that, of sig] by auto
  fix self rl i assume h: "p_prl s self = None" "proper rl" "rl_proc rl = self" "nextblock (i_rl s i) rl \<noteq> []"
  obtain x where x: "waitlock self i rl [] s = Some x" "rl_inv (state_of x)"
      "x = (if freerl s = 0 then Done (state_of x) (- 1, Some ENOLCK)
         else if \<exists>q \<in> blockers s rl i. (q, self) \<in> (waits s)\<^sup>+ then Done (state_of x) (- 1, Some EDEADLK) else Blocked (state_of x))"
      "waits (state_of x) = waits s \<union> (case x of Blocked _ \<Rightarrow> {self} \<times> blockers s rl i | Done _ _ \<Rightarrow> {})"
    using waitlock_cases [OF inv h(1-3)] h(4) by blast
  have "waits (state_of x) = waits s \<union> (if freerl s = 0 \<or> (\<exists>q \<in> blockers s rl i. (q, self) \<in> (waits s)\<^sup>+) then {} else {self} \<times> blockers s rl i)"
    unfolding x(4) using x(3) by (auto split: if_splits outcome.splits)
  then show "\<exists>s'. acyclic (waits s') \<and>
         waitlock self i rl [] s = Some (if freerl s = 0 then Done s' (- 1, Some ENOLCK)
           else if \<exists>q \<in> blockers s rl i. (q, self) \<in> (waits s)\<^sup>+ then Done s' (- 1, Some EDEADLK) else Blocked s') \<and>
         waits s' = waits s \<union> (if freerl s = 0 \<or> (\<exists>q \<in> blockers s rl i. (q, self) \<in> (waits s)\<^sup>+) then {} else {self} \<times> blockers s rl i)"
    using x(1-3) by (intro exI [of _ "state_of x"]) (simp add: rl_inv_def)
qed

text \<open>The positions are counted in a \<open>long\<close>, and the ends are not checked: a process that has locked from a position behind 0 to
  the end of the file and unlocks all positions from 1 to the largest one gets 0, and holds every position of the file afterwards,
  position 0 too, because the start of what is left wraps round.\<close>

theorem unlock_to_largest_locks_all:
  assumes "i_rl s (f_ip fdp) = [\<lparr>rl_type = t, rl_start = a, rl_end = - 1, rl_proc = self\<rparr>]" "1 \<le> a" "a < 2147483648" "cmd \<noteq> F_GETLK"
    "flp = \<lparr>l_type = F_UNLCK, l_whence = SEEK_SET, l_start = 1, l_len = 2147483647, l_pid = n\<rparr>"
  shows "\<exists>s'. rlock_call self pid fdp cmd flp ws s = Some (Done s' (0, None, flp)) \<and>
    (\<forall>x \<ge> 0. holds (i_rl s' (f_ip fdp)) self t x)"
proof -
  have rg: "rlock_range self fdp flp = \<lparr>rl_type = True, rl_start = 1, rl_end = 2147483647, rl_proc = self\<rparr>"
    by (simp add: rlock_range_def assms(5) long_def)
  have nb: "\<not> bad_range (rlock_range self fdp flp)" by (simp add: rg bad_range_def)
  let ?new = "\<lparr>rl_type = t, rl_start = - 2147483648, rl_end = - 1, rl_proc = self\<rparr>"
  have rm: "remlock (i_rl s (f_ip fdp)) (rlock_range self fdp flp) (freerl s) = (True, [?new], freerl s)"
    using assms(1-3) by (cases "a = 1") (simp_all add: rg meets_def rl_extract_def long_def)
  show ?thesis
    using rlock_call_eq [OF nb, of pid cmd ws s] assms(4,5) rm by (simp add: holds_def covers_def)
qed

section \<open>Examples\<close>

definition ex_fd :: fd_view where
  "ex_fd = \<lparr>f_ip = 0, f_seek = 0, f_ipr = True, f_ipw = True, i_size = 100\<rparr>"

definition ex_flk :: "l_type \<Rightarrow> flock" where
  "ex_flk t = \<lparr>l_type = t, l_whence = SEEK_SET, l_start = 10, l_len = 5, l_pid = 0\<rparr>"

definition ex_locks :: rlocks where
  "ex_locks = \<lparr>i_rl = (\<lambda>_. [])(0 := [\<lparr>rl_type = False, rl_start = 0, rl_end = 20, rl_proc = 7\<rparr>]), freerl = 3, rl_gate = False,
     p_prl = (\<lambda>_. None), rl_log = []\<rparr>"

lemma ex_locks_ok: "locks_ok ex_locks"
  by (auto simp: ex_locks_def locks_ok_def proper_def excl_def)

lemma ex_range: "rlock_range p ex_fd (ex_flk t) = \<lparr>rl_type = t \<noteq> F_RDLCK, rl_start = 10, rl_end = 14, rl_proc = p\<rparr>"
  by (simp add: rlock_range_def ex_fd_def ex_flk_def long_def)

lemma nextblock_Nil_list [simp]: "nextblock [] l = []"
  by (simp add: nextblock_Nil)

lemma ex_good: "\<not> bad_range (rlock_range p ex_fd (ex_flk t))"
  by (simp add: ex_range bad_range_def)

definition ex_state :: "(rlocks, int \<times> errno option \<times> flock) outcome option \<Rightarrow> rlocks" where
  "ex_state r = (case r of Some (Done s _) \<Rightarrow> s | _ \<Rightarrow> ex_locks)"

lemma ex_sel: "i_rl ex_locks (f_ip ex_fd) = [\<lparr>rl_type = False, rl_start = 0, rl_end = 20, rl_proc = 7\<rparr>]" "freerl ex_locks = 3"
  "l_type (ex_flk t) = t" "f_ipw ex_fd" "f_ipr ex_fd"
  by (simp_all add: ex_locks_def ex_fd_def ex_flk_def)

lemma ex_unlock: "rlock_call 7 id ex_fd F_SETLK (ex_flk F_UNLCK) [] ex_locks =
    Some (Done (ex_state (rlock_call 7 id ex_fd F_SETLK (ex_flk F_UNLCK) [] ex_locks)) (0, None, ex_flk F_UNLCK))"
  unfolding rlock_call_eq [OF ex_good] by (simp add: ex_sel ex_range meets_def rl_extract_def long_def ex_state_def)

text \<open>Process 8 asks for a lock that process 7 has in its way.\<close>

lemma ex_block: "nextblock (i_rl ex_locks (f_ip ex_fd)) (rlock_range 8 ex_fd (ex_flk F_WRLCK)) =
    [\<lparr>rl_type = False, rl_start = 0, rl_end = 20, rl_proc = 7\<rparr>]"
  by (simp add: ex_sel ex_range nextblock_dropWhile meets_def blocks_def)

lemma ex_refused: "rlock_call 8 id ex_fd F_SETLK (ex_flk F_WRLCK) [] ex_locks =
    Some (Done (ex_state (rlock_call 8 id ex_fd F_SETLK (ex_flk F_WRLCK) [] ex_locks)) (- 1, Some EACCES, ex_flk F_WRLCK))"
  unfolding rlock_call_eq [OF ex_good] ex_block by (simp add: ex_sel ex_state_def)

lemma ex_getlk: "rlock_call 8 id ex_fd F_GETLK (ex_flk F_WRLCK) [] ex_locks =
    Some (Done (ex_state (rlock_call 8 id ex_fd F_GETLK (ex_flk F_WRLCK) [] ex_locks))
      (0, None, \<lparr>l_type = F_RDLCK, l_whence = SEEK_SET, l_start = 0, l_len = 21, l_pid = 7\<rparr>))"
  unfolding rlock_call_eq [OF ex_good] ex_block by (simp add: ex_state_def rlock_result_def ex_flk_def)

theorem rlock_excludes_witness: "locks_ok (ex_state (rlock_call 7 id ex_fd F_SETLK (ex_flk F_UNLCK) [] ex_locks))"
  using rlock_excludes [OF ex_locks_ok _ _ _ ex_unlock] by (simp add: ex_range) (simp add: ex_flk_def)

theorem rlock_sets_witness:
  "\<not> holds (i_rl (ex_state (rlock_call 7 id ex_fd F_SETLK (ex_flk F_UNLCK) [] ex_locks)) 0) 7 False 12 \<and>
   holds (i_rl (ex_state (rlock_call 7 id ex_fd F_SETLK (ex_flk F_UNLCK) [] ex_locks)) 0) 7 False 15"
proof -
  have o: "own_disjoint (i_rl ex_locks (f_ip ex_fd)) 7" by (simp add: ex_locks_def ex_fd_def own_disjoint_def)
  have l: "l_start (ex_flk F_UNLCK) < 2147483648" "rl_end (rlock_range 7 ex_fd (ex_flk F_UNLCK)) < 2147483647"
    by (simp_all add: ex_range) (simp add: ex_flk_def)
  note S = rlock_sets [OF ex_locks_ok o l ex_unlock]
  show ?thesis using S [of 7 False 12] S [of 7 False 15]
    by (simp add: ex_range covers_def) (simp add: ex_fd_def ex_flk_def ex_locks_def covers_def)
qed

theorem rlock_keeps_locked_witness:
  "i_rl (ex_state (rlock_call 8 id ex_fd F_SETLK (ex_flk F_WRLCK) [] ex_locks)) = i_rl ex_locks"
proof -
  have l: "l_start (ex_flk F_WRLCK) < 2147483648" "rl_end (rlock_range 8 ex_fd (ex_flk F_WRLCK)) < 2147483647" "l_type (ex_flk F_WRLCK) \<noteq> F_UNLCK"
    by (simp_all add: ex_range) (simp_all add: ex_flk_def)
  show ?thesis using rlock_keeps_locked [OF ex_locks_ok l ex_refused] by simp
qed

theorem rlock_getlk_witness: "\<exists>p t x. p \<noteq> 8 \<and> covers (rlock_range 8 ex_fd (ex_flk F_WRLCK)) x \<and>
    holds (i_rl ex_locks (f_ip ex_fd)) p t x \<and> (t \<or> l_type (ex_flk F_WRLCK) = F_WRLCK)"
proof -
  have l: "l_start (ex_flk F_WRLCK) < 2147483648" "rl_end (rlock_range 8 ex_fd (ex_flk F_WRLCK)) < 2147483647" "l_type (ex_flk F_WRLCK) \<noteq> F_UNLCK"
    by (simp_all add: ex_range) (simp_all add: ex_flk_def)
  note G = rlock_getlk [OF ex_locks_ok l(1,2) ex_getlk l(3), THEN conjunct2, THEN conjunct1]
  show ?thesis
  proof (rule ccontr)
    assume "\<not> ?thesis"
    then have "l_type \<lparr>l_type = F_RDLCK, l_whence = SEEK_SET, l_start = 0, l_len = 21, l_pid = 7\<rparr> = F_UNLCK" unfolding G .
    then show False by simp
  qed
qed

text \<open>Process 7 locks, then process 8 waits for it.\<close>

definition ex_seven :: rlocks where
  "ex_seven = \<lparr>i_rl = (\<lambda>_. [])(0 := [\<lparr>rl_type = True, rl_start = 10, rl_end = 14, rl_proc = 7\<rparr>]), freerl = 3, rl_gate = False, p_prl = (\<lambda>_. None), rl_log = [0]\<rparr>"

lemma ex_seven_reach: "lock_step\<^sup>*\<^sup>* (lock_start 4) ex_seven"
proof -
  have c: "rlock_call 7 id ex_fd F_SETLK (ex_flk F_WRLCK) [] (lock_start 4) = Some (Done ex_seven (0, None, ex_flk F_WRLCK))"
    unfolding rlock_call_eq [OF ex_good]
    using ex_sel(3-5) by (simp add: lock_start_def ex_range nextblock_dropWhile addlock_def getlock_def Let_def leave_def ex_seven_def) (simp add: ex_fd_def)
  have "lock_step (lock_start 4) (state_of (Done ex_seven (0 :: int, None :: errno option, ex_flk F_WRLCK)))"
    by (rule lock_step.call [OF _ _ _ c]) (simp add: lock_start_def, simp add: ex_flk_def, simp add: ex_range)
  then show ?thesis by (simp add: state_of_def)
qed

theorem waitlock_no_deadlock_witness: "\<exists>s'. waitlock 8 0 (rlock_range 8 ex_fd (ex_flk F_WRLCK)) [] ex_seven = Some (Blocked s') \<and> waits s' = {(8, 7)}"
proof -
  let ?r = "rlock_range 8 ex_fd (ex_flk F_WRLCK)"
  have w: "waits ex_seven = {}" by (simp add: waits_def ex_seven_def)
  have b: "blockers ex_seven ?r 0 = {7}"
    by (simp add: blockers_def ex_range ex_seven_def meets_def blocks_def Collect_conv_if cong: conj_cong)
  have h: "p_prl ex_seven 8 = None" "proper ?r" "rl_proc ?r = 8" "nextblock (i_rl ex_seven 0) ?r \<noteq> []"
    by (simp_all add: ex_seven_def ex_range proper_def nextblock_dropWhile meets_def blocks_def)
  note T = waitlock_no_deadlock [OF ex_seven_reach, THEN conjunct2, THEN conjunct2, THEN conjunct2, rule_format, OF h]
  have f: "freerl ex_seven \<noteq> 0" by (simp add: ex_seven_def)
  show ?thesis using T f by (elim ex_forward conjE) (simp add: w b)
qed

definition ex_flp :: flock where
  "ex_flp = \<lparr>l_type = F_UNLCK, l_whence = SEEK_SET, l_start = 1, l_len = 2147483647, l_pid = 0\<rparr>"

definition ex_tail :: rlocks where
  "ex_tail = ex_locks\<lparr>i_rl := (\<lambda>_. [\<lparr>rl_type = True, rl_start = 5, rl_end = - 1, rl_proc = 7\<rparr>])\<rparr>"

theorem unlock_to_largest_locks_all_witness:
  "\<exists>s'. rlock_call 7 id ex_fd F_SETLK ex_flp [] ex_tail = Some (Done s' (0, None, ex_flp)) \<and> (\<forall>x \<ge> 0. holds (i_rl s' (f_ip ex_fd)) 7 True x)"
proof -
  have i: "i_rl ex_tail (f_ip ex_fd) = [\<lparr>rl_type = True, rl_start = 5, rl_end = - 1, rl_proc = 7\<rparr>]" by (simp add: ex_tail_def)
  have n: "(1::int) \<le> 5" "(5::int) < 2147483648" "F_SETLK \<noteq> F_GETLK" by simp_all
  show ?thesis by (rule unlock_to_largest_locks_all [OF i n ex_flp_def])
qed

end
