(* ===== verification/Fd.thy ===== *)
theory Fd
  imports RLock "HOL-Library.Word"
begin

text \<open>
  File descriptors, \<open>coh.386/fd.c\<close>: the table \<open>u.u_filep\<close> of a process, whose entries are pointers to the system's file records
  with two flag bits in the place of the bits that alignment leaves 0. A pointer is a 32-bit word and NULL is 0. \<open>kmem_alloc\<close>, \<open>iopen\<close> and
  \<open>iclose\<close> are in other parts of the kernel: what they return is an argument. Closing goes through the record locks of
  \<open>RLock\<close>.
\<close>

unbundle bit_operations_syntax

section \<open>State\<close>

text \<open>The fields of \<open>__fd_t\<close>; those that the record locks read are passed on as a \<^typ>\<open>fd_view\<close>.\<close>

record fd_t =
  fl_flag :: nat
  fl_refc :: nat
  fl_seek :: int
  fl_ip :: "nat option"

text \<open>The calls to other parts of the kernel, in their order.\<close>

datatype fd_event = Iopen nat nat | Idetach nat | Ilock nat | Iclose nat nat | Kmem_free "32 word"

record fds =
  u_filep :: "nat \<Rightarrow> 32 word"
  fd_files :: "32 word \<Rightarrow> fd_t option"
  u_error :: "errno option"
  fd_rl :: rlocks
  fd_ilocked :: "nat set"
  fd_log :: "fd_event list"

text \<open>\<open>NOFILE\<close>, the process and the process ids, the tests \<open>IPR\<close> and \<open>IPW\<close> of a mode, and the sizes of the inodes.\<close>

record fd_cfg =
  NOFILE :: nat
  fd_self :: nat
  fd_pid :: "nat \<Rightarrow> nat"
  is_ipr :: "nat \<Rightarrow> bool"
  is_ipw :: "nat \<Rightarrow> bool"
  fd_size :: "nat \<Rightarrow> int"

section \<open>Tagged pointers\<close>

definition TAGMASK :: "32 word" where
  "TAGMASK = 3"

definition MAKE_TAGGED_FD :: "32 word \<Rightarrow> 32 word \<Rightarrow> 32 word option" where
  "MAKE_TAGGED_FD untag flag = (if untag AND TAGMASK \<noteq> 0 \<or> flag AND NOT TAGMASK \<noteq> 0 then None else Some (untag + flag))"

definition GET_UNTAGGED_FD :: "32 word \<Rightarrow> 32 word" where
  "GET_UNTAGGED_FD tagged = tagged AND NOT TAGMASK"

definition GET_TAGGED_FLAG :: "32 word \<Rightarrow> 32 word" where
  "GET_TAGGED_FLAG tagged = tagged AND TAGMASK"

section \<open>Operations\<close>

definition fd_get :: "fd_cfg \<Rightarrow> nat \<Rightarrow> fds \<Rightarrow> 32 word" where
  "fd_get c fd s = (if fd \<ge> NOFILE c \<or> GET_UNTAGGED_FD (u_filep s fd) = 0 then 0 else GET_UNTAGGED_FD (u_filep s fd))"

text \<open>\<^const>\<open>None\<close> is -1.\<close>

definition fd_get_flags :: "fd_cfg \<Rightarrow> nat \<Rightarrow> fds \<Rightarrow> 32 word option" where
  "fd_get_flags c fd s = (if fd \<ge> NOFILE c \<or> u_filep s fd = 0 then None else Some (GET_TAGGED_FLAG (u_filep s fd)))"

definition set_filep :: "nat \<Rightarrow> 32 word \<Rightarrow> fds \<Rightarrow> fds" where
  "set_filep fd p s = s\<lparr>u_filep := (u_filep s)(fd := p)\<rparr>"

definition set_file :: "32 word \<Rightarrow> fd_t option \<Rightarrow> fds \<Rightarrow> fds" where
  "set_file a f s = s\<lparr>fd_files := (fd_files s)(a := f)\<rparr>"

definition refc_add :: "32 word \<Rightarrow> fds \<Rightarrow> fds option" where
  "refc_add a s = (case fd_files s a of None \<Rightarrow> None | Some f \<Rightarrow> Some (set_file a (Some (f\<lparr>fl_refc := fl_refc f + 1\<rparr>)) s))"

text \<open>The operations fail with \<^const>\<open>None\<close> where the code follows a wild pointer or an \<open>ASSERT\<close> does not hold.\<close>

definition fd_set_flags :: "fd_cfg \<Rightarrow> nat \<Rightarrow> 32 word \<Rightarrow> fds \<Rightarrow> (int \<times> fds) option" where
  "fd_set_flags c fd flags s =
     (if fd \<ge> NOFILE c \<or> u_filep s fd = 0 then Some (- 1, s)
      else if flags AND NOT TAGMASK \<noteq> 0 then Some (- 1, s\<lparr>u_error := Some EINVAL\<rparr>)
      else do { p \<leftarrow> MAKE_TAGGED_FD (GET_UNTAGGED_FD (u_filep s fd)) flags; Some (0, set_filep fd p s) })"

text \<open>A descriptor as a result: \<^const>\<open>None\<close> is \<open>ERROR_FD\<close>.\<close>

definition fd_dup :: "fd_cfg \<Rightarrow> nat \<Rightarrow> nat \<Rightarrow> fds \<Rightarrow> (nat option \<times> fds) option" where
  "fd_dup c old base s = (case List.find (\<lambda>b. u_filep s b = 0) [base..<NOFILE c] of
     None \<Rightarrow> Some (None, s\<lparr>u_error := Some EMFILE\<rparr>)
   | Some b \<Rightarrow>
       let fdp = fd_get c old s in
       if fdp = 0 then Some (None, s)
       else do { p \<leftarrow> MAKE_TAGGED_FD fdp 0; s \<leftarrow> refc_add fdp (set_filep b p s); Some (Some b, s) })"

definition fd_get_free :: "fd_cfg \<Rightarrow> fds \<Rightarrow> nat option" where
  "fd_get_free c s = List.find (\<lambda>i. u_filep s i = 0) [0..<NOFILE c]"

text \<open>\<open>mem\<close> is what \<open>kmem_alloc\<close> returns.\<close>

definition fd_alloc :: "fd_cfg \<Rightarrow> 32 word \<Rightarrow> fds \<Rightarrow> (nat option \<times> fds) option" where
  "fd_alloc c mem s = (case fd_get_free c s of
     None \<Rightarrow> Some (None, s\<lparr>u_error := Some EMFILE\<rparr>)
   | Some fd \<Rightarrow>
       if mem = 0 then Some (None, s\<lparr>u_error := Some ENFILE\<rparr>)
       else do {
         p \<leftarrow> MAKE_TAGGED_FD mem 0;
         Some (Some fd, set_file mem (Some \<lparr>fl_flag = 0, fl_refc = 0, fl_seek = 0, fl_ip = None\<rparr>) (set_filep fd p s))
       })"

text \<open>\<open>io\<close> is the inode that \<open>iopen\<close> returns, and the error it stores, if any.\<close>

definition fd_init :: "fd_cfg \<Rightarrow> nat \<Rightarrow> nat \<Rightarrow> nat \<Rightarrow> nat option \<times> errno option \<Rightarrow> fds \<Rightarrow> (int \<times> fds) option" where
  "fd_init c fd ip mode io s =
     (let filep = fd_get c fd s in
      if filep = 0 then Some (- 1, s)
      else if ip \<notin> fd_ilocked s then None
      else
        let s = s\<lparr>fd_log := fd_log s @ [Iopen ip mode], u_error := if snd io = None then u_error s else snd io\<rparr> in
        if u_error s \<noteq> None then Some (- 1, s)
        else (case fst io of
            None \<Rightarrow> Some (- 1, s\<lparr>u_error := Some ENXIO\<rparr>)
          | Some newip \<Rightarrow>
              let s = (if newip \<noteq> ip then s\<lparr>fd_log := fd_log s @ [Idetach ip, Ilock newip], fd_ilocked := insert newip (fd_ilocked s - {ip})\<rparr>
                       else s)
              in if newip \<notin> fd_ilocked s then None
                 else (case fd_files s filep of None \<Rightarrow> None
                   | Some f \<Rightarrow> Some (0, set_file filep (Some (f\<lparr>fl_ip := Some newip, fl_flag := mode, fl_refc := 1\<rparr>)) s))))"

definition fd_finish :: "fd_cfg \<Rightarrow> nat \<Rightarrow> fds \<Rightarrow> (nat option \<times> fds) option" where
  "fd_finish c fd s =
     (let filep = fd_get c fd s in
      if filep = 0 then Some (None, s)
      else (case fd_files s filep of None \<Rightarrow> None
        | Some f \<Rightarrow>
            if fl_refc f = 0 then
              Some (None, set_filep fd 0 (set_file filep None (s\<lparr>fd_log := fd_log s @ [Kmem_free filep]\<rparr>)))
            else Some (Some fd, s)))"

definition fd_open :: "fd_cfg \<Rightarrow> 32 word \<Rightarrow> nat option \<times> errno option \<Rightarrow> nat \<Rightarrow> nat \<Rightarrow> fds \<Rightarrow> (nat option \<times> fds) option" where
  "fd_open c mem io ip mode s = do {
     (fd, s) \<leftarrow> fd_alloc c mem s;
     (case fd of None \<Rightarrow> Some (None, s)
      | Some fd \<Rightarrow> do { (_, s) \<leftarrow> fd_init c fd ip mode io s; fd_finish c fd s })
   }"

definition fd_recv :: "nat \<Rightarrow> 32 word \<Rightarrow> fds \<Rightarrow> (int \<times> fds) option" where
  "fd_recv fd fdp s =
     (if fdp = 0 then None
      else do { p \<leftarrow> MAKE_TAGGED_FD fdp 0; s \<leftarrow> refc_add fdp (set_filep fd p s); Some (0, s) })"

text \<open>\<open>ics\<close> has the errors that successive calls of \<open>iclose\<close> store; a loop that outlives it has not ended.\<close>

primrec iclose_loop :: "errno option list \<Rightarrow> nat \<Rightarrow> nat \<Rightarrow> fds \<Rightarrow> fds option" where
  "iclose_loop [] ip mode s = None"
| "iclose_loop (e # ics) ip mode s =
     (let s = s\<lparr>u_error := e, fd_log := fd_log s @ [Iclose ip mode]\<rparr>
      in if e = Some EINTR then iclose_loop ics ip mode s else Some s)"

definition fd_locks_off :: "fd_cfg \<Rightarrow> nat \<Rightarrow> fd_t \<Rightarrow> fds \<Rightarrow> fds option" where
  "fd_locks_off c ip f s = do {
     x \<leftarrow> rlock_call (fd_self c) (fd_pid c)
       \<lparr>f_ip = ip, f_seek = fl_seek f, f_ipr = is_ipr c (fl_flag f), f_ipw = is_ipw c (fl_flag f), i_size = fd_size c ip\<rparr>
       F_SETLK \<lparr>l_type = F_UNLCK, l_whence = SEEK_SET, l_start = 0, l_len = 0, l_pid = 0\<rparr> [] (fd_rl s);
     (case x of Blocked _ \<Rightarrow> None
      | Done rl (_, e, _) \<Rightarrow> Some (s\<lparr>fd_rl := rl, u_error := if e = None then u_error s else e\<rparr>))
   }"

definition fd_close :: "fd_cfg \<Rightarrow> nat \<Rightarrow> errno option list \<Rightarrow> fds \<Rightarrow> fds option" where
  "fd_close c fd ics s =
     (if fd \<ge> NOFILE c \<or> GET_UNTAGGED_FD (u_filep s fd) = 0 then Some (s\<lparr>u_error := Some EBADF\<rparr>)
      else
        let fdp = GET_UNTAGGED_FD (u_filep s fd) in do {
          f \<leftarrow> fd_files s fdp;
          ip \<leftarrow> fl_ip f;
          s \<leftarrow> (if i_rl (fd_rl s) ip \<noteq> [] then fd_locks_off c ip f s else Some s);
          let s = set_filep fd 0 s;
          if fl_refc f = 0 then None
          else
            let f = f\<lparr>fl_refc := fl_refc f - 1\<rparr>; s = set_file fdp (Some f) s in
            if fl_refc f = 0 then do {
              s \<leftarrow> iclose_loop ics ip (fl_flag f) s;
              Some (set_file fdp None (s\<lparr>fd_log := fd_log s @ [Kmem_free fdp]\<rparr>))
            }
            else Some s
        })"

primrec dup_slots :: "nat list \<Rightarrow> fds \<Rightarrow> fds option" where
  "dup_slots [] s = Some s"
| "dup_slots (i # is) s =
     (if u_filep s i \<noteq> 0 then do { s \<leftarrow> refc_add (GET_UNTAGGED_FD (u_filep s i)) s; dup_slots is s } else dup_slots is s)"

definition fd_dup_all :: "fd_cfg \<Rightarrow> fds \<Rightarrow> fds option" where
  "fd_dup_all c s = dup_slots [0..<NOFILE c] s"

primrec close_slots :: "fd_cfg \<Rightarrow> (nat \<Rightarrow> errno option list) \<Rightarrow> nat list \<Rightarrow> fds \<Rightarrow> fds option" where
  "close_slots c ics [] s = Some s"
| "close_slots c ics (i # is) s =
     (if u_filep s i \<noteq> 0 then do { s \<leftarrow> fd_close c i (ics i) s; close_slots c ics is s } else close_slots c ics is s)"

definition fd_close_all :: "fd_cfg \<Rightarrow> (nat \<Rightarrow> errno option list) \<Rightarrow> fds \<Rightarrow> fds option" where
  "fd_close_all c ics s = close_slots c ics [0..<NOFILE c] s"

section \<open>Tagging\<close>

lemma tag_plus_or:
  fixes p q :: "32 word"
  assumes "p AND TAGMASK = 0" "q AND NOT TAGMASK = 0"
  shows "p + q = p OR q"
proof -
  have "bit (p AND TAGMASK) n = False" "bit (q AND NOT TAGMASK) n = False" for n using assms by simp_all
  moreover have "bit q n \<Longrightarrow> n < 32" for n using bit_imp_le_length [of q n] by simp
  ultimately have "\<not> (bit p n \<and> bit q n)" for n by (auto simp: bit_and_iff bit_not_iff)
  then have "p AND q = 0" by (intro bit_eqI) (simp add: bit_and_iff)
  then show ?thesis by (simp add: disjunctive_add_eq_or)
qed

lemma tag_roundtrip:
  assumes "MAKE_TAGGED_FD p q = Some x"
  shows "GET_UNTAGGED_FD x = p" "GET_TAGGED_FLAG x = q" "x = 0 \<longleftrightarrow> p = 0 \<and> q = 0"
proof -
  have a: "p AND TAGMASK = 0" "q AND NOT TAGMASK = 0" "x = p + q"
    using assms by (auto simp: MAKE_TAGGED_FD_def split: if_splits)
  have x: "x = p OR q" using tag_plus_or [OF a(1,2)] a(3) by simp
  have b: "bit (p AND TAGMASK) n = False" "bit (q AND NOT TAGMASK) n = False" for n using a by simp_all
  show "GET_UNTAGGED_FD x = p" "GET_TAGGED_FLAG x = q"
    unfolding GET_UNTAGGED_FD_def GET_TAGGED_FLAG_def x
    using b by (auto intro!: bit_word_eqI simp: bit_and_iff bit_or_iff bit_not_iff)
  show "x = 0 \<longleftrightarrow> p = 0 \<and> q = 0" unfolding x by (simp add: or_eq_0_iff)
qed

lemma tag_zero: "MAKE_TAGGED_FD p 0 = (if p AND TAGMASK \<noteq> 0 then None else Some p)"
  by (simp add: MAKE_TAGGED_FD_def)

lemma untag_aligned: "GET_UNTAGGED_FD x AND TAGMASK = 0"
  by (simp add: GET_UNTAGGED_FD_def and.assoc)

lemma untag_id: "p AND TAGMASK = 0 \<Longrightarrow> GET_UNTAGGED_FD p = p"
  using tag_roundtrip(1) [of p 0 p] by (simp add: tag_zero)

lemma untag_0 [simp]: "GET_UNTAGGED_FD 0 = 0"
  by (simp add: GET_UNTAGGED_FD_def)

section \<open>Counting references\<close>

text \<open>The descriptors of the process that point to the record at \<open>a\<close>.\<close>

definition slots :: "fd_cfg \<Rightarrow> fds \<Rightarrow> 32 word \<Rightarrow> nat set" where
  "slots c s a = {i. i < NOFILE c \<and> u_filep s i \<noteq> 0 \<and> GET_UNTAGGED_FD (u_filep s i) = a}"

text \<open>Every record is counted as often as descriptors point to it, those of other processes, \<open>ext\<close>, included, and no descriptor is wild.\<close>

definition fd_inv :: "fd_cfg \<Rightarrow> (32 word \<Rightarrow> nat) \<Rightarrow> fds \<Rightarrow> bool" where
  "fd_inv c ext s \<longleftrightarrow>
     (\<forall>i < NOFILE c. u_filep s i \<noteq> 0 \<longrightarrow> fd_files s (GET_UNTAGGED_FD (u_filep s i)) \<noteq> None) \<and>
     (\<forall>a f. fd_files s a = Some f \<longrightarrow> a \<noteq> 0 \<and> a AND TAGMASK = 0 \<and> fl_ip f \<noteq> None \<and> 0 < fl_refc f \<and> fl_refc f = card (slots c s a) + ext a) \<and>
     (\<forall>a. fd_files s a = None \<longrightarrow> ext a = 0)"

lemma finite_slots [simp]: "finite (slots c s a)"
  by (rule finite_subset [of _ "{..<NOFILE c}"]) (auto simp: slots_def)

lemma slots_cong: "u_filep s' = u_filep s \<Longrightarrow> slots c s' a = slots c s a"
  by (simp add: slots_def)

lemma fd_inv_cong: "u_filep s' = u_filep s \<Longrightarrow> fd_files s' = fd_files s \<Longrightarrow> fd_inv c ext s' = fd_inv c ext s"
  unfolding fd_inv_def slots_def by simp

lemma fd_invD:
  assumes "fd_inv c ext s" "i < NOFILE c" "u_filep s i \<noteq> 0"
  obtains f ip where "fd_files s (GET_UNTAGGED_FD (u_filep s i)) = Some f" "GET_UNTAGGED_FD (u_filep s i) \<noteq> 0" "fl_ip f = Some ip"
    "0 < fl_refc f"
  using assms unfolding fd_inv_def by (metis option.exhaust)

lemma fd_inv_file:
  assumes "fd_inv c ext s" "fd_files s a = Some f"
  shows "a \<noteq> 0" "a AND TAGMASK = 0" "fl_ip f \<noteq> None" "0 < fl_refc f" "fl_refc f = card (slots c s a) + ext a"
  using assms unfolding fd_inv_def by blast+

text \<open>One more descriptor for the record at \<open>a\<close>, in a slot that was free.\<close>

lemma fd_inv_add:
  assumes inv: "fd_inv c ext s" and i: "i < NOFILE c" "u_filep s i = 0" and a: "a \<noteq> 0" "a AND TAGMASK = 0"
    and s': "u_filep s' = (u_filep s)(i := a)" "fd_files s' = (fd_files s)(a := Some f')" and "fl_ip f' \<noteq> None"
    and n: "fl_refc f' = (case fd_files s a of None \<Rightarrow> 1 | Some f \<Rightarrow> fl_refc f + 1)"
  shows "fd_inv c ext s'"
proof -
  have u: "GET_UNTAGGED_FD a = a" by (rule untag_id [OF a(2)])
  have sl: "slots c s' b = (if b = a then insert i (slots c s b) else slots c s b)" for b
    using i a(1) u by (auto simp: slots_def s')
  have ni: "i \<notin> slots c s b" for b using i by (simp add: slots_def)
  have "card (slots c s a) = 0 \<and> ext a = 0" if "fd_files s a = None"
  proof -
    have "slots c s a = {}" using inv that by (auto simp: fd_inv_def slots_def)
    then show ?thesis using inv that by (simp add: fd_inv_def)
  qed
  then have ca: "fl_refc f' = card (slots c s' a) + ext a"
    using n fd_inv_file(5) [OF inv, of a] by (cases "fd_files s a") (simp_all add: sl ni)
  show ?thesis
    unfolding fd_inv_def
  proof (intro conjI allI impI)
    show "fd_files s' (GET_UNTAGGED_FD (u_filep s' j)) \<noteq> None" if "j < NOFILE c" "u_filep s' j \<noteq> 0" for j
      using inv that u by (auto simp: fd_inv_def s')
    show "ext b = 0" if "fd_files s' b = None" for b
      using inv that by (auto simp: fd_inv_def s' split: if_splits)
    fix b f assume f: "fd_files s' b = Some f"
    have new: "b = a \<Longrightarrow> a \<noteq> 0 \<and> a AND TAGMASK = 0 \<and> fl_ip f \<noteq> None \<and> 0 < fl_refc f \<and> fl_refc f = card (slots c s' a) + ext a"
    proof -
      assume "b = a"
      then have "f = f'" using f s'(2) by simp
      moreover have "0 < fl_refc f'" using n by (cases "fd_files s a") simp_all
      ultimately show ?thesis using a assms(8) ca by blast
    qed
    have old: "b \<noteq> a \<Longrightarrow> b \<noteq> 0 \<and> b AND TAGMASK = 0 \<and> fl_ip f \<noteq> None \<and> 0 < fl_refc f \<and> fl_refc f = card (slots c s' b) + ext b"
      using f fd_inv_file [OF inv, of b f] sl [of b] s'(2) by simp
    show "b \<noteq> 0" "b AND TAGMASK = 0" "fl_ip f \<noteq> None" "0 < fl_refc f" "fl_refc f = card (slots c s' b) + ext b"
      using new old by (cases "b = a"; simp)+
  qed
qed

text \<open>One less: the record goes with its last descriptor.\<close>

lemma fd_inv_drop:
  assumes inv: "fd_inv c ext s" and i: "i < NOFILE c" "u_filep s i \<noteq> 0" and a: "a = GET_UNTAGGED_FD (u_filep s i)" "fd_files s a = Some f"
    and s': "u_filep s' = (u_filep s)(i := 0)"
      "fd_files s' = (fd_files s)(a := if fl_refc f = 1 then None else Some (f\<lparr>fl_refc := fl_refc f - 1\<rparr>))"
  shows "fd_inv c ext s'"
proof -
  note F = fd_inv_file [OF inv a(2)]
  have ia: "i \<in> slots c s a" using i a(1) by (simp add: slots_def)
  have sl: "slots c s' b = (if b = a then slots c s b - {i} else slots c s b)" for b
    using i by (auto simp: slots_def s' a(1))
  have ca: "card (slots c s a) = card (slots c s' a) + 1" using ia card_Suc_Diff1 [of "slots c s a" i] by (simp add: sl)
  show ?thesis
    unfolding fd_inv_def
  proof (intro conjI allI impI)
    show "fd_files s' (GET_UNTAGGED_FD (u_filep s' j)) \<noteq> None" if j: "j < NOFILE c" "u_filep s' j \<noteq> 0" for j
    proof
      assume n: "fd_files s' (GET_UNTAGGED_FD (u_filep s' j)) = None"
      have j': "j \<noteq> i" "u_filep s j \<noteq> 0" using j(2) by (auto simp: s' split: if_splits)
      then have "GET_UNTAGGED_FD (u_filep s j) = a \<and> fl_refc f = 1"
        using inv j(1) n by (auto simp: fd_inv_def s' split: if_splits)
      then have "j \<in> slots c s' a" "card (slots c s' a) = 0" using F(5) ca j j' by (auto simp: slots_def s')
      then show False by simp
    qed
    show "ext b = 0" if "fd_files s' b = None" for b
      using inv that F(5) ca by (auto simp: fd_inv_def s' split: if_splits)
    fix b g assume g: "fd_files s' b = Some g"
    have new: "b = a \<Longrightarrow> a \<noteq> 0 \<and> a AND TAGMASK = 0 \<and> fl_ip g \<noteq> None \<and> 0 < fl_refc g \<and> fl_refc g = card (slots c s' a) + ext a"
    proof -
      assume "b = a"
      then have "fl_refc f \<noteq> 1 \<and> g = f\<lparr>fl_refc := fl_refc f - 1\<rparr>" using g s'(2) by (simp split: if_splits)
      then show ?thesis using F ca by auto
    qed
    have old: "b \<noteq> a \<Longrightarrow> b \<noteq> 0 \<and> b AND TAGMASK = 0 \<and> fl_ip g \<noteq> None \<and> 0 < fl_refc g \<and> fl_refc g = card (slots c s' b) + ext b"
      using g fd_inv_file [OF inv, of b g] sl [of b] s'(2) by simp
    show "b \<noteq> 0" "b AND TAGMASK = 0" "fl_ip g \<noteq> None" "0 < fl_refc g" "fl_refc g = card (slots c s' b) + ext b"
      using new old by (cases "b = a"; simp)+
  qed
qed

section \<open>Closing\<close>

text \<open>What unlocking the whole file does to the locks.\<close>

lemma fd_locks_off_spec:
  assumes ok: "locks_ok (fd_rl s)"
  obtains rl where "fd_locks_off c ip f s = Some (s\<lparr>fd_rl := rl\<rparr>)" "locks_ok rl"
    "\<And>j p t x. holds (i_rl rl j) p t x \<longleftrightarrow> holds (i_rl (fd_rl s) j) p t x \<and> \<not> (j = ip \<and> p = fd_self c)"
proof -
  let ?v = "\<lparr>f_ip = ip, f_seek = fl_seek f, f_ipr = is_ipr c (fl_flag f), f_ipw = is_ipw c (fl_flag f), i_size = fd_size c ip\<rparr>"
  let ?flp = "\<lparr>l_type = F_UNLCK, l_whence = SEEK_SET, l_start = 0, l_len = 0, l_pid = 0\<rparr>"
  let ?l = "\<lparr>rl_type = True, rl_start = 0, rl_end = - 1, rl_proc = fd_self c\<rparr>"
  let ?bs = "i_rl (fd_rl s) ip"
  have rg: "rlock_range (fd_self c) ?v ?flp = ?l" by (simp add: rlock_range_def)
  have nb: "\<not> bad_range (rlock_range (fd_self c) ?v ?flp)" by (simp add: rg bad_range_def)
  have pl: "proper ?l" by (simp add: proper_def)
  obtain r cs free where rm: "remlock ?bs ?l (freerl (fd_rl s)) = (r, cs, free)" by (metis prod.exhaust)
  have r: "r" using remlock_eof [of ?l ?bs "freerl (fd_rl s)"] rm by simp
  let ?rl = "leave F_SETLK ip ((fd_rl s)\<lparr>rl_gate := True, i_rl := (i_rl (fd_rl s))(ip := cs), freerl := free\<rparr>)"
  have eq: "fd_locks_off c ip f s = Some (s\<lparr>fd_rl := ?rl\<rparr>)"
    using rlock_call_eq [OF nb, of "fd_pid c" F_SETLK "[]" "fd_rl s"] rm r by (simp add: fd_locks_off_def rg)
  have pb: "\<forall>b \<in> set ?bs. proper b" using locks_okD(1) [OF ok] by simp
  have pos: "0 \<le> x" if "holds ?bs p t x" for p t x
    using that pb by (auto simp: holds_def covers_def proper_def)
  have cv: "taken ?l p x \<longleftrightarrow> p = fd_self c \<and> 0 \<le> x" for p x by (simp add: taken_def covers_def)
  have h: "holds cs p t x \<longleftrightarrow> holds ?bs p t x \<and> p \<noteq> fd_self c" for p t x
    using remlock_spec [OF pl pb rm] r pos unfolding cv by blast
  have "locks_ok ?rl" by (rule remlock_ok [OF ok pl rm]) simp
  moreover have "holds (i_rl ?rl j) p t x \<longleftrightarrow> holds (i_rl (fd_rl s) j) p t x \<and> \<not> (j = ip \<and> p = fd_self c)" for j p t x
    using h by simp
  ultimately show ?thesis using that eq by blast
qed

lemma iclose_loop_spec:
  assumes "\<exists>e \<in> set ics. e \<noteq> Some EINTR"
  obtains n e where "iclose_loop ics ip mode s = Some (s\<lparr>u_error := e, fd_log := fd_log s @ replicate (Suc n) (Iclose ip mode)\<rparr>)"
    "e \<in> set ics" "e \<noteq> Some EINTR"
  using assms
proof (induction ics arbitrary: s thesis)
  case Nil
  then show ?case by simp
next
  case (Cons e ics)
  show ?case
  proof (cases "e = Some EINTR")
    case True
    let ?s = "s\<lparr>u_error := e, fd_log := fd_log s @ [Iclose ip mode]\<rparr>"
    obtain n f where n: "iclose_loop ics ip mode ?s = Some (?s\<lparr>u_error := f, fd_log := fd_log ?s @ replicate (Suc n) (Iclose ip mode)\<rparr>)"
      "f \<in> set ics" "f \<noteq> Some EINTR"
      using Cons.IH [of ?s] Cons.prems(2) True by auto
    then show ?thesis using Cons.prems(1) [of "Suc n" f] True by (simp add: Let_def)
  next
    case False
    then show ?thesis using Cons.prems(1) [of 0 e] by (simp add: Let_def)
  qed
qed

text \<open>The whole of \<^const>\<open>fd_close\<close> on a descriptor in use.\<close>

lemma fd_close_eq:
  assumes inv: "fd_inv c ext s" and ok: "locks_ok (fd_rl s)" and fd: "fd < NOFILE c" "u_filep s fd \<noteq> 0" and ics: "\<exists>e \<in> set ics. e \<noteq> Some EINTR"
    and f: "fd_files s (GET_UNTAGGED_FD (u_filep s fd)) = Some f" "fl_ip f = Some ip"
  obtains s' n where "fd_close c fd ics s = Some s'" "u_filep s' = (u_filep s)(fd := 0)"
    "fd_files s' = (fd_files s)(GET_UNTAGGED_FD (u_filep s fd) := if fl_refc f = 1 then None else Some (f\<lparr>fl_refc := fl_refc f - 1\<rparr>))"
    "fd_log s' = fd_log s @ (if fl_refc f = 1 then replicate (Suc n) (Iclose ip (fl_flag f)) @ [Kmem_free (GET_UNTAGGED_FD (u_filep s fd))] else [])"
    "u_error s' \<noteq> Some EINTR \<or> fl_refc f \<noteq> 1" "locks_ok (fd_rl s')"
    "\<And>j p t x. holds (i_rl (fd_rl s') j) p t x \<longleftrightarrow> holds (i_rl (fd_rl s) j) p t x \<and> \<not> (j = ip \<and> p = fd_self c)"
proof -
  let ?a = "GET_UNTAGGED_FD (u_filep s fd)"
  note F = fd_inv_file [OF inv f(1)]
  obtain rl where rl: "(if i_rl (fd_rl s) ip \<noteq> [] then fd_locks_off c ip f s else Some s) = Some (s\<lparr>fd_rl := rl\<rparr>)" "locks_ok rl"
    "\<And>j p t x. holds (i_rl rl j) p t x \<longleftrightarrow> holds (i_rl (fd_rl s) j) p t x \<and> \<not> (j = ip \<and> p = fd_self c)"
  proof (cases "i_rl (fd_rl s) ip = []")
    case True
    have "\<And>j p t x. holds (i_rl (fd_rl s) j) p t x \<longleftrightarrow> holds (i_rl (fd_rl s) j) p t x \<and> \<not> (j = ip \<and> p = fd_self c)"
      using True by auto
    then show ?thesis using that [of "fd_rl s"] True ok by simp
  next
    case False
    obtain rl where "fd_locks_off c ip f s = Some (s\<lparr>fd_rl := rl\<rparr>)" "locks_ok rl"
      "\<And>j p t x. holds (i_rl rl j) p t x \<longleftrightarrow> holds (i_rl (fd_rl s) j) p t x \<and> \<not> (j = ip \<and> p = fd_self c)"
      using fd_locks_off_spec [OF ok] by blast
    then show ?thesis using that [of rl] False by simp
  qed
  let ?s = "set_file ?a (Some (f\<lparr>fl_refc := fl_refc f - 1\<rparr>)) (set_filep fd 0 (s\<lparr>fd_rl := rl\<rparr>))"
  have eq: "fd_close c fd ics s = (if fl_refc f = 1 then do {
        s \<leftarrow> iclose_loop ics ip (fl_flag f) ?s; Some (set_file ?a None (s\<lparr>fd_log := fd_log s @ [Kmem_free ?a]\<rparr>)) } else Some ?s)"
    using fd F f rl(1) by (auto simp: fd_close_def Let_def)
  show ?thesis
  proof (cases "fl_refc f = 1")
    case True
    obtain n e where n: "iclose_loop ics ip (fl_flag f) ?s = Some (?s\<lparr>u_error := e, fd_log := fd_log ?s @ replicate (Suc n) (Iclose ip (fl_flag f))\<rparr>)"
      "e \<noteq> Some EINTR"
      using iclose_loop_spec [OF ics] by metis
    let ?t = "?s\<lparr>u_error := e, fd_log := fd_log ?s @ replicate (Suc n) (Iclose ip (fl_flag f))\<rparr>"
    have e: "fd_close c fd ics s = Some (set_file ?a None (?t\<lparr>fd_log := fd_log ?t @ [Kmem_free ?a]\<rparr>))" using eq True n(1) by simp
    show ?thesis
      by (rule that [of _ n, OF e]) (use True n(2) rl(2,3) in \<open>simp_all add: set_file_def set_filep_def\<close>)
  next
    case False
    then have e: "fd_close c fd ics s = Some ?s" using eq by simp
    show ?thesis by (rule that [of _ 0, OF e]) (use False rl(2,3) in \<open>simp_all add: set_file_def set_filep_def\<close>)
  qed
qed

lemma fd_close_inv:
  assumes inv: "fd_inv c ext s" and ok: "locks_ok (fd_rl s)" and ics: "\<exists>e \<in> set ics. e \<noteq> Some EINTR"
  obtains s' where "fd_close c fd ics s = Some s'" "fd_inv c ext s'" "locks_ok (fd_rl s')"
    "\<And>j. u_filep s' j = (if j = fd \<and> fd < NOFILE c then 0 else u_filep s j)"
proof (cases "fd < NOFILE c \<and> u_filep s fd \<noteq> 0")
  case True
  then have fd: "fd < NOFILE c" "u_filep s fd \<noteq> 0" by auto
  obtain f ip where f: "fd_files s (GET_UNTAGGED_FD (u_filep s fd)) = Some f" "fl_ip f = Some ip"
    by (rule fd_invD [OF inv fd])
  obtain s' n where cl: "fd_close c fd ics s = Some s'" "u_filep s' = (u_filep s)(fd := 0)"
    "fd_files s' = (fd_files s)(GET_UNTAGGED_FD (u_filep s fd) := if fl_refc f = 1 then None else Some (f\<lparr>fl_refc := fl_refc f - 1\<rparr>))"
    "locks_ok (fd_rl s')"
    by (rule fd_close_eq [OF inv ok fd ics f])
  have "fd_inv c ext s'" by (rule fd_inv_drop [OF inv fd refl f(1) cl(2,3)])
  then show ?thesis using that [OF cl(1)] cl(2,4) fd(1) by simp
next
  case False
  let ?s = "s\<lparr>u_error := Some EBADF\<rparr>"
  have "fd_close c fd ics s = Some ?s" using False by (auto simp: fd_close_def)
  moreover have "fd_inv c ext ?s" using inv fd_inv_cong [of ?s s] by simp
  ultimately show ?thesis using that [of ?s] ok False by auto
qed

lemma close_slots_inv:
  assumes "fd_inv c ext s" "locks_ok (fd_rl s)" "\<And>i. \<exists>e \<in> set (ics i). e \<noteq> Some EINTR"
  obtains s' where "close_slots c ics js s = Some s'" "fd_inv c ext s'" "locks_ok (fd_rl s')"
    "\<And>j. u_filep s' j = (if j \<in> set js \<and> j < NOFILE c then 0 else u_filep s j)"
  using assms(1,2)
proof (induction js arbitrary: s thesis)
  case Nil
  then show ?case by simp
next
  case (Cons i js)
  show ?case
  proof (cases "u_filep s i = 0")
    case True
    obtain s' where "close_slots c ics js s = Some s'" "fd_inv c ext s'" "locks_ok (fd_rl s')"
      "\<And>j. u_filep s' j = (if j \<in> set js \<and> j < NOFILE c then 0 else u_filep s j)"
      using Cons.IH [OF _ Cons.prems(2,3)] by blast
    then show ?thesis using Cons.prems(1) [of s'] True by auto
  next
    case False
    obtain t where t: "fd_close c i (ics i) s = Some t" "fd_inv c ext t" "locks_ok (fd_rl t)"
      "\<And>j. u_filep t j = (if j = i \<and> i < NOFILE c then 0 else u_filep s j)"
      using fd_close_inv [OF Cons.prems(2,3) assms(3)] by metis
    obtain s' where "close_slots c ics js t = Some s'" "fd_inv c ext s'" "locks_ok (fd_rl s')"
      "\<And>j. u_filep s' j = (if j \<in> set js \<and> j < NOFILE c then 0 else u_filep t j)"
      using Cons.IH [OF _ t(2,3)] by blast
    then show ?thesis using Cons.prems(1) [of s'] False t(1,4) by auto
  qed
qed

section \<open>Duplicating and opening\<close>

lemma find_upt_Some: "List.find P [b..<n] = Some i \<longleftrightarrow> b \<le> i \<and> i < n \<and> P i \<and> (\<forall>j. b \<le> j \<and> j < i \<longrightarrow> \<not> P j)"
proof
  assume "List.find P [b..<n] = Some i"
  then obtain k where k: "k < n - b" "P (b + k)" "i = b + k" "\<forall>j < k. \<not> P (b + j)"
    by (auto simp: find_Some_iff)
  have "\<not> P j" if "b \<le> j" "j < i" for j
  proof -
    have "j - b < k" using that k(3) by simp
    then show ?thesis using k(4) that(1) by (metis le_add_diff_inverse)
  qed
  then show "b \<le> i \<and> i < n \<and> P i \<and> (\<forall>j. b \<le> j \<and> j < i \<longrightarrow> \<not> P j)" using k by auto
next
  assume r: "b \<le> i \<and> i < n \<and> P i \<and> (\<forall>j. b \<le> j \<and> j < i \<longrightarrow> \<not> P j)"
  then show "List.find P [b..<n] = Some i"
    unfolding find_Some_iff by (intro exI [of _ "i - b"]) auto
qed

lemma find_upt_None: "List.find P [b..<n] = None \<longleftrightarrow> (\<forall>j. b \<le> j \<and> j < n \<longrightarrow> \<not> P j)"
  by (auto simp: find_None_iff)

lemma fd_get_slot:
  assumes "fd_inv c ext s" "old < NOFILE c" "u_filep s old \<noteq> 0"
  shows "fd_get c old s = GET_UNTAGGED_FD (u_filep s old)" "fd_get c old s \<noteq> 0"
  using fd_invD [OF assms] assms(2) by (auto simp: fd_get_def)

lemma fd_dup_eq:
  assumes inv: "fd_inv c ext s" and old: "old < NOFILE c" "u_filep s old \<noteq> 0"
  obtains (full) "\<forall>j. base \<le> j \<and> j < NOFILE c \<longrightarrow> u_filep s j \<noteq> 0" "fd_dup c old base s = Some (None, s\<lparr>u_error := Some EMFILE\<rparr>)"
  | (dup) b f s' where "base \<le> b" "b < NOFILE c" "u_filep s b = 0" "\<forall>j. base \<le> j \<and> j < b \<longrightarrow> u_filep s j \<noteq> 0"
      "fd_files s (fd_get c old s) = Some f" "fd_dup c old base s = Some (Some b, s')" "fd_rl s' = fd_rl s" "u_error s' = u_error s" "fd_log s' = fd_log s"
      "u_filep s' = (u_filep s)(b := fd_get c old s)" "fd_files s' = (fd_files s)(fd_get c old s := Some (f\<lparr>fl_refc := fl_refc f + 1\<rparr>))"
proof (cases "List.find (\<lambda>b. u_filep s b = 0) [base..<NOFILE c]")
  case None
  then have "fd_dup c old base s = Some (None, s\<lparr>u_error := Some EMFILE\<rparr>)" by (simp add: fd_dup_def)
  then show ?thesis using full None by (simp add: find_upt_None)
next
  case (Some b)
  note g = fd_get_slot [OF inv old]
  obtain f where f: "fd_files s (fd_get c old s) = Some f" using fd_invD [OF inv old] g(1) by metis
  have al: "fd_get c old s AND TAGMASK = 0" using g(1) untag_aligned by simp
  let ?s = "set_file (fd_get c old s) (Some (f\<lparr>fl_refc := fl_refc f + 1\<rparr>)) (set_filep b (fd_get c old s) s)"
  have "fd_dup c old base s = Some (Some b, ?s)"
    using Some g(2) f al by (simp add: fd_dup_def tag_zero refc_add_def set_filep_def Let_def)
  then show ?thesis
    using Some f by (intro dup [of b f ?s]) (auto simp: find_upt_Some set_file_def set_filep_def)
qed

lemma fd_open_eq:
  assumes inv: "fd_inv c ext s" and mem: "mem = 0 \<or> (mem AND TAGMASK = 0 \<and> fd_files s mem = None)" and ip: "ip \<in> fd_ilocked s"
  obtains (failed) e s' where "fd_open c mem io ip mode s = Some (None, s')" "u_filep s' = u_filep s" "fd_files s' = fd_files s"
      "u_error s' = Some e" "fd_rl s' = fd_rl s"
  | (opened) b newip s' where "fd_get_free c s = Some b" "io = (Some newip, None)" "fd_open c mem io ip mode s = Some (Some b, s')"
      "u_filep s' = (u_filep s)(b := mem)" "fd_rl s' = fd_rl s" "mem \<noteq> 0" "newip \<in> fd_ilocked s'"
      "fd_files s' = (fd_files s)(mem := Some \<lparr>fl_flag = mode, fl_refc = 1, fl_seek = 0, fl_ip = Some newip\<rparr>)"
proof (cases "fd_get_free c s = None \<or> mem = 0")
  case True
  then show ?thesis
    using failed by (cases "fd_get_free c s") (auto simp: fd_open_def fd_alloc_def)
next
  case False
  then obtain b where b: "fd_get_free c s = Some b" "mem \<noteq> 0" by auto
  then have b': "b < NOFILE c" "u_filep s b = 0" by (auto simp: fd_get_free_def find_upt_Some)
  have m: "mem AND TAGMASK = 0" "fd_files s mem = None" using mem b(2) by auto
  note u = untag_id [OF m(1)]
  let ?s1 = "set_file mem (Some \<lparr>fl_flag = 0, fl_refc = 0, fl_seek = 0, fl_ip = None\<rparr>) (set_filep b mem s)"
  let ?s2 = "?s1\<lparr>fd_log := fd_log ?s1 @ [Iopen ip mode], u_error := if snd io = None then u_error ?s1 else snd io\<rparr>"
  have al: "fd_alloc c mem s = Some (Some b, ?s1)" using b m(1) by (simp add: fd_alloc_def tag_zero)
  have g: "fd_get c b t = mem" if "u_filep t = (u_filep s)(b := mem)" for t using that b' b(2) u by (simp add: fd_get_def)
  have rb: "(u_filep s)(b := 0) = u_filep s" "(fd_files s)(mem := None) = fd_files s" using b'(2) m(2) by auto
  have fin: "fd_finish c b t = Some (None, set_filep b 0 (set_file mem None (t\<lparr>fd_log := fd_log t @ [Kmem_free mem]\<rparr>)))"
    if "u_filep t = (u_filep s)(b := mem)" "fd_files t = (fd_files s)(mem := Some \<lparr>fl_flag = 0, fl_refc = 0, fl_seek = 0, fl_ip = None\<rparr>)" for t
    using g [OF that(1)] that(2) b(2) by (simp add: fd_finish_def)
  have s1: "u_filep ?s1 = (u_filep s)(b := mem)" "fd_ilocked ?s1 = fd_ilocked s" "fd_rl ?s1 = fd_rl s"
    "fd_files ?s1 = (fd_files s)(mem := Some \<lparr>fl_flag = 0, fl_refc = 0, fl_seek = 0, fl_ip = None\<rparr>)"
    by (simp_all add: set_file_def set_filep_def)
  consider e where "u_error ?s2 = Some e" | "u_error ?s2 = None" "fst io = None" | newip where "u_error ?s2 = None" "fst io = Some newip"
    by (cases "u_error ?s2"; cases "fst io") auto
  then show ?thesis
  proof cases
    case (1 e)
    have i: "fd_init c b ip mode io ?s1 = Some (- 1, ?s2)" using g [OF s1(1)] b(2) ip s1(2) 1 by (simp add: fd_init_def Let_def)
    have "fd_open c mem io ip mode s = fd_finish c b ?s2" using al i by (simp add: fd_open_def)
    also have "\<dots> = Some (None, set_filep b 0 (set_file mem None (?s2\<lparr>fd_log := fd_log ?s2 @ [Kmem_free mem]\<rparr>)))"
      by (rule fin) (use s1 in simp_all)
    finally show ?thesis by (rule failed) (use 1 s1 rb in \<open>simp_all add: set_file_def set_filep_def\<close>)
  next
    case 2
    let ?s3 = "?s2\<lparr>u_error := Some ENXIO\<rparr>"
    have i: "fd_init c b ip mode io ?s1 = Some (- 1, ?s3)" using g [OF s1(1)] b(2) ip s1(2) 2 by (simp add: fd_init_def Let_def)
    have "fd_open c mem io ip mode s = fd_finish c b ?s3" using al i by (simp add: fd_open_def)
    also have "\<dots> = Some (None, set_filep b 0 (set_file mem None (?s3\<lparr>fd_log := fd_log ?s3 @ [Kmem_free mem]\<rparr>)))"
      by (rule fin) (use s1 in simp_all)
    finally show ?thesis by (rule failed) (use 2 s1 rb in \<open>simp_all add: set_file_def set_filep_def\<close>)
  next
    case (3 newip)
    let ?s3 = "if newip \<noteq> ip then ?s2\<lparr>fd_log := fd_log ?s2 @ [Idetach ip, Ilock newip], fd_ilocked := insert newip (fd_ilocked ?s2 - {ip})\<rparr> else ?s2"
    let ?f = "\<lparr>fl_flag = mode, fl_refc = 1, fl_seek = 0, fl_ip = Some newip\<rparr>"
    have s3: "u_filep ?s3 = (u_filep s)(b := mem)" "newip \<in> fd_ilocked ?s3" "fd_rl ?s3 = fd_rl s"
      "fd_files ?s3 = (fd_files s)(mem := Some \<lparr>fl_flag = 0, fl_refc = 0, fl_seek = 0, fl_ip = None\<rparr>)"
      using s1 ip by simp_all
    have i: "fd_init c b ip mode io ?s1 = Some (0, set_file mem (Some ?f) ?s3)"
      using g [OF s1(1)] b(2) ip s1(2,4) 3 by (simp add: fd_init_def Let_def)
    have io: "io = (Some newip, None)" using 3 by (cases io) (simp split: if_splits)
    have "fd_open c mem io ip mode s = fd_finish c b (set_file mem (Some ?f) ?s3)" using al i by (simp add: fd_open_def)
    also have "\<dots> = Some (Some b, set_file mem (Some ?f) ?s3)"
      using g [of "set_file mem (Some ?f) ?s3"] s3 b(2) by (simp add: fd_finish_def set_file_def)
    finally show ?thesis by (rule opened [OF b(1) io]) (use s3 b(2) in \<open>simp_all add: set_file_def\<close>)
  qed
qed

section \<open>Calls\<close>

text \<open>What a process does with its table: the system calls and \<open>fork\<close>, which counts every open descriptor once more for the child.\<close>

datatype fd_call =
    Open "32 word" "nat option \<times> errno option" nat nat
  | Dup nat nat
  | Recv "32 word"
  | Flags nat "32 word"
  | Close nat "errno option list"
  | Fork
  | Exit "nat \<Rightarrow> errno option list"

definition fd_exec :: "fd_cfg \<Rightarrow> fd_call \<Rightarrow> fds \<Rightarrow> fds option" where
  "fd_exec c call s = (case call of
     Open mem io ip mode \<Rightarrow> map_option snd (fd_open c mem io ip mode s)
   | Dup old base \<Rightarrow> map_option snd (fd_dup c old base s)
   | Recv fdp \<Rightarrow> (case fd_get_free c s of None \<Rightarrow> Some s | Some fd \<Rightarrow> map_option snd (fd_recv fd fdp s))
   | Flags fd flags \<Rightarrow> map_option snd (fd_set_flags c fd flags s)
   | Close fd ics \<Rightarrow> fd_close c fd ics s
   | Fork \<Rightarrow> fd_dup_all c s
   | Exit ics \<Rightarrow> fd_close_all c ics s)"

text \<open>What the calls rely on: \<open>kmem_alloc\<close> gives aligned memory that is not in use, the inode to open is locked, a record received is one
  of the system's, and \<open>iclose\<close> is not interrupted for ever.\<close>

definition call_ok :: "fd_call \<Rightarrow> fds \<Rightarrow> bool" where
  "call_ok call s = (case call of
     Open mem io ip mode \<Rightarrow> (mem = 0 \<or> (mem AND TAGMASK = 0 \<and> fd_files s mem = None)) \<and> ip \<in> fd_ilocked s
   | Recv fdp \<Rightarrow> fd_files s fdp \<noteq> None
   | Close fd ics \<Rightarrow> (\<exists>e \<in> set ics. e \<noteq> Some EINTR)
   | Exit ics \<Rightarrow> (\<forall>i. \<exists>e \<in> set (ics i). e \<noteq> Some EINTR)
   | _ \<Rightarrow> True)"

lemma fd_recv_inv:
  assumes inv: "fd_inv c ext s" and fd: "fd < NOFILE c" "u_filep s fd = 0" and f: "fd_files s fdp = Some f"
  obtains s' where "fd_recv fd fdp s = Some (0, s')" "fd_inv c ext s'" "fd_rl s' = fd_rl s"
proof -
  note F = fd_inv_file [OF inv f]
  let ?s = "set_file fdp (Some (f\<lparr>fl_refc := fl_refc f + 1\<rparr>)) (set_filep fd fdp s)"
  have e: "fd_recv fd fdp s = Some (0, ?s)" using F(1,2) f by (simp add: fd_recv_def tag_zero refc_add_def set_filep_def)
  have "fd_inv c ext ?s"
    by (rule fd_inv_add [where f' = "f\<lparr>fl_refc := fl_refc f + 1\<rparr>", OF inv fd F(1,2)]) (use F(3) f in \<open>simp_all add: set_file_def set_filep_def\<close>)
  then show ?thesis using that [OF e] by (simp add: set_file_def set_filep_def)
qed

lemma fd_set_flags_inv:
  assumes inv: "fd_inv c ext s"
  obtains r s' where "fd_set_flags c fd flags s = Some (r, s')" "fd_inv c ext s'" "fd_rl s' = fd_rl s"
    "r = 0 \<Longrightarrow> fd_get_flags c fd s' = Some flags \<and> fd_get c fd s' = fd_get c fd s"
proof -
  consider "fd \<ge> NOFILE c \<or> u_filep s fd = 0" | "fd < NOFILE c" "u_filep s fd \<noteq> 0" "flags AND NOT TAGMASK \<noteq> 0"
    | "fd < NOFILE c" "u_filep s fd \<noteq> 0" "flags AND NOT TAGMASK = 0" by linarith
  then show ?thesis
  proof cases
    case 1
    then show ?thesis using that [of "- 1" s] inv by (simp add: fd_set_flags_def)
  next
    case 2
    have "fd_inv c ext (s\<lparr>u_error := Some EINVAL\<rparr>)" using inv fd_inv_cong [of "s\<lparr>u_error := Some EINVAL\<rparr>" s] by simp
    then show ?thesis using that [of "- 1" "s\<lparr>u_error := Some EINVAL\<rparr>"] 2 by (simp add: fd_set_flags_def)
  next
    case 3
    let ?u = "GET_UNTAGGED_FD (u_filep s fd)"
    obtain p where p: "MAKE_TAGGED_FD ?u flags = Some p" using 3(3) untag_aligned by (simp add: MAKE_TAGGED_FD_def)
    note R = tag_roundtrip [OF p]
    have u: "?u \<noteq> 0" using fd_invD [OF inv 3(1,2)] by blast
    let ?s = "set_filep fd p s"
    have sl: "slots c ?s a = slots c s a" for a using 3(2) R u by (auto simp: slots_def set_filep_def)
    have "fd_inv c ext ?s"
      unfolding fd_inv_def sl
    proof (intro conjI allI impI)
      show "fd_files ?s (GET_UNTAGGED_FD (u_filep ?s i)) \<noteq> None" if "i < NOFILE c" "u_filep ?s i \<noteq> 0" for i
        using that inv 3(2) R(1) by (cases "i = fd") (auto simp: fd_inv_def set_filep_def)
      show "ext a = 0" if "fd_files ?s a = None" for a using that inv by (simp add: fd_inv_def set_filep_def)
      fix a f assume "fd_files ?s a = Some f"
      then have f: "fd_files s a = Some f" by (simp add: set_filep_def)
      show "a \<noteq> 0" "a AND TAGMASK = 0" "fl_ip f \<noteq> None" "0 < fl_refc f" "fl_refc f = card (slots c s a) + ext a"
        by (rule fd_inv_file [OF inv f])+
    qed
    moreover have "fd_set_flags c fd flags s = Some (0, ?s)" using 3 p by (simp add: fd_set_flags_def)
    moreover have "fd_get_flags c fd ?s = Some flags \<and> fd_get c fd ?s = fd_get c fd s"
      using 3 R u by (simp add: fd_get_flags_def fd_get_def set_filep_def)
    ultimately show ?thesis using that [of 0 ?s] by (simp add: set_filep_def)
  qed
qed

lemma dup_slots_spec:
  assumes "distinct is" "\<forall>i \<in> set is. u_filep s i \<noteq> 0 \<longrightarrow> fd_files s (GET_UNTAGGED_FD (u_filep s i)) \<noteq> None"
  shows "\<exists>s'. dup_slots is s = Some s' \<and> u_filep s' = u_filep s \<and> fd_rl s' = fd_rl s \<and>
    (\<forall>a. fd_files s' a = map_option (\<lambda>f. f\<lparr>fl_refc := fl_refc f + card {i \<in> set is. u_filep s i \<noteq> 0 \<and> GET_UNTAGGED_FD (u_filep s i) = a}\<rparr>) (fd_files s a))"
  using assms
proof (induction "is" arbitrary: s)
  case Nil
  then show ?case by (auto simp: option.map_ident_strong)
next
  case (Cons i "is")
  show ?case
  proof (cases "u_filep s i = 0")
    case True
    have "{j \<in> set (i # is). u_filep s j \<noteq> 0 \<and> GET_UNTAGGED_FD (u_filep s j) = a} =
        {j \<in> set is. u_filep s j \<noteq> 0 \<and> GET_UNTAGGED_FD (u_filep s j) = a}" for a using True by auto
    then show ?thesis using Cons.IH [of s] Cons.prems True by simp
  next
    case False
    let ?a = "GET_UNTAGGED_FD (u_filep s i)"
    obtain f where f: "fd_files s ?a = Some f" using Cons.prems(2) False by auto
    let ?t = "set_file ?a (Some (f\<lparr>fl_refc := fl_refc f + 1\<rparr>)) s"
    have t: "u_filep ?t = u_filep s" "fd_rl ?t = fd_rl s" "fd_files ?t = (fd_files s)(?a := Some (f\<lparr>fl_refc := fl_refc f + 1\<rparr>))"
      by (simp_all add: set_file_def)
    have pre: "\<forall>i \<in> set is. u_filep ?t i \<noteq> 0 \<longrightarrow> fd_files ?t (GET_UNTAGGED_FD (u_filep ?t i)) \<noteq> None"
      unfolding t using Cons.prems(2) by simp
    obtain s' where s': "dup_slots is ?t = Some s'" "u_filep s' = u_filep s" "fd_rl s' = fd_rl s"
      "\<And>a. fd_files s' a = map_option (\<lambda>f. f\<lparr>fl_refc := fl_refc f + card {j \<in> set is. u_filep s j \<noteq> 0 \<and> GET_UNTAGGED_FD (u_filep s j) = a}\<rparr>) (fd_files ?t a)"
      using Cons.IH [OF _ pre] Cons.prems(1) unfolding t(1,2) by auto
    have c: "card {j \<in> set (i # is). u_filep s j \<noteq> 0 \<and> GET_UNTAGGED_FD (u_filep s j) = a} =
        card {j \<in> set is. u_filep s j \<noteq> 0 \<and> GET_UNTAGGED_FD (u_filep s j) = a} + (if a = ?a then 1 else 0)" for a
    proof -
      have "{j \<in> set (i # is). u_filep s j \<noteq> 0 \<and> GET_UNTAGGED_FD (u_filep s j) = a} =
        (if a = ?a then insert i {j \<in> set is. u_filep s j \<noteq> 0 \<and> GET_UNTAGGED_FD (u_filep s j) = a}
         else {j \<in> set is. u_filep s j \<noteq> 0 \<and> GET_UNTAGGED_FD (u_filep s j) = a})" using False by auto
      then show ?thesis using Cons.prems(1) by simp
    qed
    have "dup_slots (i # is) s = Some s'" using False f s'(1) by (simp add: refc_add_def)
    moreover have "fd_files s' a = map_option (\<lambda>f. f\<lparr>fl_refc := fl_refc f +
        card {j \<in> set (i # is). u_filep s j \<noteq> 0 \<and> GET_UNTAGGED_FD (u_filep s j) = a}\<rparr>) (fd_files s a)" for a
      unfolding c s'(4) t(3) using f by (cases "a = ?a") auto
    ultimately show ?thesis using s'(2,3) by blast
  qed
qed

lemma fd_dup_all_inv:
  assumes inv: "fd_inv c ext s"
  obtains s' where "fd_dup_all c s = Some s'" "fd_inv c (\<lambda>a. ext a + card (slots c s a)) s'" "fd_rl s' = fd_rl s" "u_filep s' = u_filep s"
proof -
  have d: "distinct [0..<NOFILE c]" "\<forall>i \<in> set [0..<NOFILE c]. u_filep s i \<noteq> 0 \<longrightarrow> fd_files s (GET_UNTAGGED_FD (u_filep s i)) \<noteq> None"
    using inv by (simp_all add: fd_inv_def)
  have sl: "{i \<in> set [0..<NOFILE c]. u_filep s i \<noteq> 0 \<and> GET_UNTAGGED_FD (u_filep s i) = a} = slots c s a" for a
    by (auto simp: slots_def)
  obtain s' where s': "fd_dup_all c s = Some s'" "u_filep s' = u_filep s" "fd_rl s' = fd_rl s"
    "\<And>a. fd_files s' a = map_option (\<lambda>f. f\<lparr>fl_refc := fl_refc f + card (slots c s a)\<rparr>) (fd_files s a)"
    using dup_slots_spec [OF d] unfolding sl fd_dup_all_def by blast
  have z: "card (slots c s a) = 0" if "fd_files s a = None" for a
  proof -
    have "slots c s a = {}" using inv that by (auto simp: fd_inv_def slots_def)
    then show ?thesis by simp
  qed
  have "fd_inv c (\<lambda>a. ext a + card (slots c s a)) s'"
    unfolding fd_inv_def slots_cong [OF s'(2)] s'(2,4)
    using inv z fd_inv_file [OF inv] unfolding fd_inv_def by auto
  then show ?thesis using that s' by blast
qed

lemma fd_open_keeps:
  assumes "fd_inv c ext s" "locks_ok (fd_rl s)" "call_ok call s" and Open: "call = Open mem io ip mode"
  shows "\<exists>s'. fd_exec c call s = Some s' \<and> locks_ok (fd_rl s') \<and> fd_inv c ext s'"
proof -
  have ok: "mem = 0 \<or> (mem AND TAGMASK = 0 \<and> fd_files s mem = None)" "ip \<in> fd_ilocked s" using assms(3) Open by (simp_all add: call_ok_def)
  show ?thesis
  proof (cases rule: fd_open_eq [OF assms(1) ok, of io mode])
    case (1 e s')
    then show ?thesis using assms Open fd_inv_cong [OF 1(2,3)] by (simp add: fd_exec_def)
  next
    case (2 b newip s')
    have b: "b < NOFILE c" "u_filep s b = 0" using 2(1) by (auto simp: fd_get_free_def find_upt_Some)
    have m: "mem AND TAGMASK = 0" "fd_files s mem = None" using ok(1) 2(6) by auto
    have "fd_inv c ext s'" by (rule fd_inv_add [OF assms(1) b 2(6) m(1) 2(4,8)]) (simp_all add: m)
    then show ?thesis using assms(2) 2(3,5) Open by (simp add: fd_exec_def)
  qed
qed

lemma fd_dup_keeps:
  assumes "fd_inv c ext s" "locks_ok (fd_rl s)" "call_ok call s" and Dup: "call = Dup old base"
  shows "\<exists>s'. fd_exec c call s = Some s' \<and> locks_ok (fd_rl s') \<and> fd_inv c ext s'"
proof -
  show ?thesis
  proof (cases "old < NOFILE c \<and> u_filep s old \<noteq> 0")
    case True
    then have old: "old < NOFILE c" "u_filep s old \<noteq> 0" by auto
    show ?thesis
    proof (cases rule: fd_dup_eq [OF assms(1) old, of base])
      case 1
      then show ?thesis using assms Dup fd_inv_cong [of "s\<lparr>u_error := Some EMFILE\<rparr>" s] by (simp add: fd_exec_def)
    next
      case (2 b f s')
      note F = fd_inv_file [OF assms(1) 2(5)]
      have "fd_inv c ext s'" by (rule fd_inv_add [OF assms(1) 2(2,3) F(1,2) 2(10,11)]) (use F(3) 2(5) in simp_all)
      then show ?thesis using assms(2) 2(6,7) Dup by (simp add: fd_exec_def)
    qed
  next
    case False
    then have g: "fd_get c old s = 0" by (auto simp: fd_get_def)
    have "fd_exec c call s = Some s \<or> fd_exec c call s = Some (s\<lparr>u_error := Some EMFILE\<rparr>)"
      using g Dup by (simp add: fd_exec_def fd_dup_def split: option.split)
    then show ?thesis using assms(1,2) Dup fd_inv_cong [of "s\<lparr>u_error := Some EMFILE\<rparr>" s] by auto
  qed
qed

lemma fd_recv_keeps:
  assumes "fd_inv c ext s" "locks_ok (fd_rl s)" "call_ok call s" and Recv: "call = Recv fdp"
  shows "\<exists>s'. fd_exec c call s = Some s' \<and> locks_ok (fd_rl s') \<and> fd_inv c ext s'"
proof -
  obtain f where f: "fd_files s fdp = Some f" using assms(3) Recv by (auto simp: call_ok_def)
  show ?thesis
  proof (cases "fd_get_free c s")
    case None
    then show ?thesis using assms(1,2) Recv by (simp add: fd_exec_def)
  next
    case (Some fd)
    then have fd: "fd < NOFILE c" "u_filep s fd = 0" by (auto simp: fd_get_free_def find_upt_Some)
    obtain s' where "fd_recv fd fdp s = Some (0, s')" "fd_inv c ext s'" "fd_rl s' = fd_rl s" by (rule fd_recv_inv [OF assms(1) fd f])
    then show ?thesis using assms(2) Some Recv by (simp add: fd_exec_def)
  qed
qed

text \<open>C30: The reference counts are right after every call: each file record is counted as often as descriptors of this and of
  the other processes point to it, and goes when none is left; no descriptor is left that points to freed memory, and no call runs
  into a failed \<open>ASSERT\<close> or a wild pointer. A \<open>fork\<close> adds the descriptors of the child to those of the others.\<close>

theorem fd_calls_keep:
  assumes "fd_inv c ext s" "locks_ok (fd_rl s)" "call_ok call s"
  shows "\<exists>s'. fd_exec c call s = Some s' \<and> locks_ok (fd_rl s') \<and>
    fd_inv c (if call = Fork then \<lambda>a. ext a + card (slots c s a) else ext) s'"
proof (cases call)
  case Open
  then show ?thesis using fd_open_keeps [OF assms] by simp
next
  case Dup
  then show ?thesis using fd_dup_keeps [OF assms] by simp
next
  case Recv
  then show ?thesis using fd_recv_keeps [OF assms] by simp
next
  case (Flags fd flags)
  obtain r s' where "fd_set_flags c fd flags s = Some (r, s')" "fd_inv c ext s'" "fd_rl s' = fd_rl s"
    by (rule fd_set_flags_inv [OF assms(1)])
  then show ?thesis using assms(2) Flags by (simp add: fd_exec_def)
next
  case (Close fd ics)
  have ics: "\<exists>e \<in> set ics. e \<noteq> Some EINTR" using assms(3) Close by (simp add: call_ok_def)
  obtain s' where "fd_close c fd ics s = Some s'" "fd_inv c ext s'" "locks_ok (fd_rl s')"
    by (rule fd_close_inv [OF assms(1,2) ics])
  then show ?thesis using Close by (simp add: fd_exec_def)
next
  case Fork
  obtain s' where "fd_dup_all c s = Some s'" "fd_inv c (\<lambda>a. ext a + card (slots c s a)) s'" "fd_rl s' = fd_rl s"
    by (rule fd_dup_all_inv [OF assms(1)])
  then show ?thesis using assms(2) Fork by (simp add: fd_exec_def)
next
  case (Exit ics)
  have ics: "\<exists>e \<in> set (ics i). e \<noteq> Some EINTR" for i using assms(3) Exit by (simp add: call_ok_def)
  obtain s' where "close_slots c ics [0..<NOFILE c] s = Some s'" "fd_inv c ext s'" "locks_ok (fd_rl s')"
    by (rule close_slots_inv [OF assms(1,2) ics])
  then show ?thesis using Exit by (simp add: fd_exec_def fd_close_all_def)
qed

text \<open>C31: Closing a descriptor takes away every record lock that the process holds on the file, through whatever descriptor it was
  set, and no lock of another process or on another file; the slot is free again; the file record is counted down, and with the last
  reference the inode is closed, again as long as that is interrupted, and the record freed. The theorem is about descriptors, file records and locks that are in order
  (\<open>fd_inv\<close>, \<open>locks_ok\<close>): recorded locks exclude each other, their ends do not come before their starts, and each ends at the end of the file or before the position
  2147483647. A lock to that position is what the unlocking cannot cope with: \<open>unlock_to_largest_locks_all\<close> shows that it leaves a lock behind. It
  is also assumed that \<open>iclose\<close> is not interrupted for ever.\<close>

theorem fd_close_releases:
  assumes "fd_inv c ext s" "locks_ok (fd_rl s)" "fd < NOFILE c" "u_filep s fd \<noteq> 0" "\<exists>e \<in> set ics. e \<noteq> Some EINTR"
    "fd_files s (GET_UNTAGGED_FD (u_filep s fd)) = Some f" "fl_ip f = Some ip"
  shows "\<exists>s' n. fd_close c fd ics s = Some s' \<and> u_filep s' = (u_filep s)(fd := 0) \<and>
    (\<forall>j p t x. holds (i_rl (fd_rl s') j) p t x \<longleftrightarrow> holds (i_rl (fd_rl s) j) p t x \<and> \<not> (j = ip \<and> p = fd_self c)) \<and>
    fd_files s' = (fd_files s)(GET_UNTAGGED_FD (u_filep s fd) := if fl_refc f = 1 then None else Some (f\<lparr>fl_refc := fl_refc f - 1\<rparr>)) \<and>
    fd_log s' = fd_log s @ (if fl_refc f = 1 then replicate (Suc n) (Iclose ip (fl_flag f)) @ [Kmem_free (GET_UNTAGGED_FD (u_filep s fd))] else [])"
  by (rule fd_close_eq [OF assms]) blast

text \<open>\<open>fd_open\<close> is all or nothing: either it takes the lowest free descriptor, with a record of its own that refers to the inode
  \<open>iopen\<close> returned, which is locked, or it stores an error and leaves the descriptors and the file records as they were.\<close>

theorem fd_open_all_or_nothing:
  assumes "fd_inv c ext s" "mem = 0 \<or> (mem AND TAGMASK = 0 \<and> fd_files s mem = None)" "ip \<in> fd_ilocked s"
  shows "\<exists>r s'. fd_open c mem io ip mode s = Some (r, s') \<and> (case r of
      None \<Rightarrow> u_filep s' = u_filep s \<and> fd_files s' = fd_files s \<and> u_error s' \<noteq> None
    | Some b \<Rightarrow> b < NOFILE c \<and> u_filep s b = 0 \<and> (\<forall>j < b. u_filep s j \<noteq> 0) \<and> u_filep s' = (u_filep s)(b := mem) \<and>
        (\<exists>newip. io = (Some newip, None) \<and> newip \<in> fd_ilocked s' \<and>
          fd_files s' = (fd_files s)(mem := Some \<lparr>fl_flag = mode, fl_refc = 1, fl_seek = 0, fl_ip = Some newip\<rparr>)))"
proof (cases rule: fd_open_eq [OF assms, of io mode])
  case (1 e s')
  then show ?thesis by auto
next
  case (2 b newip s')
  then show ?thesis by (intro exI [of _ "Some b"] exI [of _ s']) (auto simp: fd_get_free_def find_upt_Some)
qed

text \<open>\<open>fd_close_all\<close> ends, and leaves no descriptor open; of the file records, those that other processes refer to are left,
  counted with these references alone.\<close>

theorem fd_close_all_empties:
  assumes "fd_inv c ext s" "locks_ok (fd_rl s)" "\<forall>i. \<exists>e \<in> set (ics i). e \<noteq> Some EINTR"
  shows "\<exists>s'. fd_close_all c ics s = Some s' \<and> (\<forall>i < NOFILE c. u_filep s' i = 0) \<and>
    (\<forall>a. (fd_files s' a \<noteq> None \<longleftrightarrow> 0 < ext a) \<and> (\<forall>f. fd_files s' a = Some f \<longrightarrow> fl_refc f = ext a))"
proof -
  have ics: "\<exists>e \<in> set (ics i). e \<noteq> Some EINTR" for i using assms(3) by blast
  obtain s' where s': "close_slots c ics [0..<NOFILE c] s = Some s'" "fd_inv c ext s'" "locks_ok (fd_rl s')" "\<And>j. u_filep s' j = (if j \<in> set [0..<NOFILE c] \<and> j < NOFILE c then 0 else u_filep s j)"
    using close_slots_inv [where ics = ics and js = "[0..<NOFILE c]", OF assms(1,2) ics] by blast
  have sl: "slots c s' a = {}" for a using s'(4) by (auto simp: slots_def)
  have "fl_refc f = ext a \<and> 0 < ext a" if "fd_files s' a = Some f" for a f using fd_inv_file(4,5) [OF s'(2) that] sl by simp
  moreover have "ext a = 0" if "fd_files s' a = None" for a using s'(2) that by (simp add: fd_inv_def)
  ultimately have "(fd_files s' a \<noteq> None \<longleftrightarrow> 0 < ext a) \<and> (\<forall>f. fd_files s' a = Some f \<longrightarrow> fl_refc f = ext a)" for a
    by (cases "fd_files s' a") auto
  then show ?thesis using s'(1,4) by (auto simp: fd_close_all_def)
qed

text \<open>\<open>fd_dup\<close> gives the lowest free descriptor from \<open>base\<close> on, for the same file record, with the flag bits clear, and counts it;
  with no slot free it stores \<open>EMFILE\<close>.\<close>

theorem fd_dup_lowest:
  assumes "fd_inv c ext s" "old < NOFILE c" "u_filep s old \<noteq> 0"
  shows "\<exists>r s'. fd_dup c old base s = Some (r, s') \<and> (case r of
      None \<Rightarrow> (\<forall>j. base \<le> j \<and> j < NOFILE c \<longrightarrow> u_filep s j \<noteq> 0) \<and> u_error s' = Some EMFILE \<and> fd_files s' = fd_files s
    | Some b \<Rightarrow> base \<le> b \<and> b < NOFILE c \<and> u_filep s b = 0 \<and> (\<forall>j. base \<le> j \<and> j < b \<longrightarrow> u_filep s j \<noteq> 0) \<and>
        fd_get c b s' = fd_get c old s \<and> fd_get_flags c b s' = Some 0 \<and>
        (\<forall>f. fd_files s (fd_get c old s) = Some f \<longrightarrow> fd_files s' (fd_get c old s) = Some (f\<lparr>fl_refc := fl_refc f + 1\<rparr>)))"
proof (cases rule: fd_dup_eq [OF assms, of base])
  case 1
  then show ?thesis by auto
next
  case (2 b f s')
  note g = fd_get_slot [OF assms]
  have al: "fd_get c old s AND TAGMASK = 0" using g(1) untag_aligned by simp
  have "fd_get c b s' = fd_get c old s" "fd_get_flags c b s' = Some 0"
    using 2(2,10) g(2) untag_id [OF al] al by (simp_all add: fd_get_def fd_get_flags_def GET_TAGGED_FLAG_def)
  then show ?thesis using 2 by (intro exI [of _ "Some b"] exI [of _ s']) simp
qed

section \<open>Examples\<close>

text \<open>Descriptors 0 and 1 are for one file, on which the process has a lock.\<close>

definition ex_cfg :: fd_cfg where
  "ex_cfg = \<lparr>NOFILE = 4, fd_self = 7, fd_pid = id, is_ipr = (\<lambda>_. True), is_ipw = (\<lambda>_. True), fd_size = (\<lambda>_. 100)\<rparr>"

definition ex_file :: fd_t where
  "ex_file = \<lparr>fl_flag = 3, fl_refc = 2, fl_seek = 0, fl_ip = Some 0\<rparr>"

definition ex_fds :: fds where
  "ex_fds = \<lparr>u_filep = (\<lambda>_. 0)(0 := 4096, 1 := 4097), fd_files = (\<lambda>_. None)(4096 := Some ex_file), u_error = None, fd_rl = ex_locks,
     fd_ilocked = {5}, fd_log = []\<rparr>"

lemma ex_untag: "GET_UNTAGGED_FD 4096 = 4096" "GET_UNTAGGED_FD 4097 = 4096" "(4096 :: 32 word) AND TAGMASK = 0" "(8192 :: 32 word) AND TAGMASK = 0"
  by (simp_all add: GET_UNTAGGED_FD_def TAGMASK_def)

lemma ex_cfg_sel [simp]: "NOFILE ex_cfg = 4" "fd_self ex_cfg = 7"
  by (simp_all add: ex_cfg_def)

lemma ex_slots: "slots ex_cfg ex_fds a = (if a = 4096 then {0, 1} else {})"
  using ex_untag by (auto simp: slots_def ex_fds_def split: if_splits)

lemma ex_inv: "fd_inv ex_cfg (\<lambda>_. 0) ex_fds"
  unfolding fd_inv_def ex_slots using ex_untag by (auto simp: ex_fds_def ex_file_def split: if_splits)

lemma ex_lk: "locks_ok (fd_rl ex_fds)"
  using ex_locks_ok by (simp add: ex_fds_def)

lemma ex_slot: "u_filep ex_fds 0 = 4096" "u_filep ex_fds 1 = 4097" "u_filep ex_fds (Suc 0) = 4097" "fd_files ex_fds 4096 = Some ex_file" "fl_ip ex_file = Some 0" "fl_refc ex_file = 2"
  by (simp_all add: ex_fds_def ex_file_def)

theorem fd_calls_keep_witness: "\<exists>s'. fd_exec ex_cfg Fork ex_fds = Some s' \<and> fd_inv ex_cfg (\<lambda>a. if a = 4096 then 2 else 0) s'"
proof -
  have "call_ok Fork ex_fds" by (simp add: call_ok_def)
  from fd_calls_keep [OF ex_inv ex_lk this] obtain s' where
    s': "fd_exec ex_cfg Fork ex_fds = Some s'" "fd_inv ex_cfg (\<lambda>a. 0 + card (slots ex_cfg ex_fds a)) s'" by auto
  have "(\<lambda>a. 0 + card (slots ex_cfg ex_fds a)) = (\<lambda>a. if a = 4096 then 2 else 0)" by (rule ext) (simp add: ex_slots)
  then show ?thesis using s' by metis
qed

theorem fd_close_releases_witness: "\<exists>s'. fd_close ex_cfg 1 [None] ex_fds = Some s' \<and>
    \<not> holds (i_rl (fd_rl s') 0) 7 False 12 \<and> fd_files s' 4096 = Some (ex_file\<lparr>fl_refc := 1\<rparr>)"
proof -
  have h: "(1::nat) < NOFILE ex_cfg" "u_filep ex_fds 1 \<noteq> 0" "\<exists>e \<in> set [None]. e \<noteq> Some EINTR"
    "fd_files ex_fds (GET_UNTAGGED_FD (u_filep ex_fds 1)) = Some ex_file" "fl_ip ex_file = Some 0"
    using ex_untag by (simp_all add: ex_slot)
  from fd_close_releases [OF ex_inv ex_lk h] obtain s' where s': "fd_close ex_cfg 1 [None] ex_fds = Some s'"
    "\<forall>j p t x. holds (i_rl (fd_rl s') j) p t x \<longleftrightarrow> holds (i_rl (fd_rl ex_fds) j) p t x \<and> \<not> (j = 0 \<and> p = fd_self ex_cfg)"
    "fd_files s' = (fd_files ex_fds)(GET_UNTAGGED_FD (u_filep ex_fds 1) := if fl_refc ex_file = 1 then None else Some (ex_file\<lparr>fl_refc := fl_refc ex_file - 1\<rparr>))"
    by blast
  then show ?thesis using ex_untag by (intro exI [of _ s']) (simp add: ex_slot)
qed

theorem fd_open_all_or_nothing_witness: "\<exists>s'. fd_open ex_cfg 8192 (Some 5, None) 5 3 ex_fds = Some (Some 2, s')"
proof -
  have h: "8192 = 0 \<or> ((8192 :: 32 word) AND TAGMASK = 0 \<and> fd_files ex_fds 8192 = None)" "5 \<in> fd_ilocked ex_fds"
    using ex_untag by (simp_all add: ex_fds_def)
  obtain r s' where o: "fd_open ex_cfg 8192 (Some 5, None) 5 3 ex_fds = Some (r, s')" "case r of
      None \<Rightarrow> u_filep s' = u_filep ex_fds \<and> fd_files s' = fd_files ex_fds \<and> u_error s' \<noteq> None
    | Some b \<Rightarrow> b < NOFILE ex_cfg \<and> u_filep ex_fds b = 0 \<and> (\<forall>j < b. u_filep ex_fds j \<noteq> 0)"
    using fd_open_all_or_nothing [OF ex_inv h, of "(Some 5, None)" 3] by (fastforce split: option.splits)
  have "\<exists>b. r = Some b"
    using o(1) ex_untag by (cases r) (simp_all add: fd_open_def fd_alloc_def fd_get_free_def upt_rec fd_init_def fd_finish_def fd_get_def tag_zero ex_slot
      set_file_def set_filep_def ex_fds_def GET_UNTAGGED_FD_def TAGMASK_def)
  then obtain b where b: "r = Some b" by blast
  have "b = 2"
  proof -
    have "\<not> 2 < b" using o(2) b by (auto simp: ex_fds_def)
    moreover have nb: "u_filep ex_fds b = 0" using o(2) b by simp
    moreover have "b \<noteq> 0"
    proof
      assume "b = 0"
      then show False using nb by (simp add: ex_slot)
    qed
    moreover have "b \<noteq> 1"
    proof
      assume "b = 1"
      then show False using nb by (simp add: ex_slot)
    qed
    ultimately show ?thesis by linarith
  qed
  then show ?thesis using o(1) b by blast
qed

theorem fd_close_all_empties_witness: "\<exists>s'. fd_close_all ex_cfg (\<lambda>_. [Some EINTR, None]) ex_fds = Some s' \<and> fd_files s' 4096 = None"
proof -
  have "\<forall>i::nat. \<exists>e \<in> set [Some EINTR, None]. e \<noteq> Some EINTR" by simp
  from fd_close_all_empties [OF ex_inv ex_lk this] show ?thesis by auto
qed

theorem fd_dup_lowest_witness: "\<exists>s'. fd_dup ex_cfg 1 1 ex_fds = Some (Some 2, s')"
proof -
  have h: "(1::nat) < NOFILE ex_cfg" "u_filep ex_fds 1 \<noteq> 0" by (simp_all add: ex_slot)
  from fd_dup_lowest [OF ex_inv h, of 1] obtain r s' where r: "fd_dup ex_cfg 1 1 ex_fds = Some (r, s')" "case r of
      None \<Rightarrow> \<forall>j. 1 \<le> j \<and> j < NOFILE ex_cfg \<longrightarrow> u_filep ex_fds j \<noteq> 0
    | Some b \<Rightarrow> 1 \<le> b \<and> u_filep ex_fds b = 0 \<and> (\<forall>j. 1 \<le> j \<and> j < b \<longrightarrow> u_filep ex_fds j \<noteq> 0)" by (fastforce split: option.splits)
  have z: "u_filep ex_fds 2 = 0" by (simp add: ex_fds_def)
  obtain b where b: "r = Some b" using r(2) z by (cases r) auto
  have "b \<noteq> 1"
  proof
    assume "b = 1"
    then show False using r(2) b by (simp add: ex_slot)
  qed
  moreover have "\<not> 2 < b" "1 \<le> b" using r(2) b z by auto
  ultimately have "b = 2" by linarith
  then show ?thesis using r(1) b by blast
qed

end
