(* ===== verification/Galois.thy ===== *)
theory Galois
  imports Prelude "HOL-Library.Word"
begin

text \<open>
  The arithmetic under the error correction of the floppy tape driver: the tables that \<open>initEcc\<close> in \<open>conf/ft/src/eccas.s\<close>
  sets up, and the multiplication and division by logarithms in \<open>conf/ft/src/ecc.c\<close>. The bytes with exclusive or and this multiplication
  are a field; as the type \<open>gf\<close> of the class of fields they get the algebra of the library.
\<close>

unbundle bit_operations_syntax

type_synonym byte = "8 word"

section \<open>Tables\<close>

text \<open>Times 2, as \<open>initEcc\<close> does it: doubled, and if a bit is carried out, reduced with 87.\<close>

definition xtime :: "byte \<Rightarrow> byte" where
  "xtime a = (if bit a 7 then push_bit 1 a XOR 0x87 else push_bit 1 a)"

primrec powers :: "nat \<Rightarrow> byte \<Rightarrow> byte list" where
  "powers 0 a = []"
| "powers (Suc n) a = a # powers n (xtime a)"

definition eccT1 :: "byte list" where
  "eccT1 = powers 256 1"

definition eccT0 :: "nat list" where
  "eccT0 = foldl (\<lambda>t i. t[unat (eccT1 ! i) := i]) ((replicate 256 0)[0 := 255]) [0..<255]"

definition mpy :: "byte \<Rightarrow> byte \<Rightarrow> byte" where
  "mpy m0 m1 = (if m0 = 0 \<or> m1 = 0 then 0
     else let m2 = eccT0 ! unat m0 + eccT0 ! unat m1; m2 = (if m2 \<ge> 255 then m2 - 255 else m2) in eccT1 ! m2)"

definition dvd_ecc :: "byte \<Rightarrow> byte \<Rightarrow> byte" where
  "dvd_ecc m0 m1 = (if m0 = 0 then 0
     else let m2 = int (eccT0 ! unat m0) - int (eccT0 ! unat m1); m2 = (if m2 < 0 then m2 + 255 else m2) in eccT1 ! nat m2)"

definition eccT2 :: "byte \<Rightarrow> byte" where
  "eccT2 b = mpy 2 b"

definition eccT4 :: "byte \<Rightarrow> byte" where
  "eccT4 b = mpy 0xc3 b"

section \<open>The field\<close>

definition alog :: "nat \<Rightarrow> byte" where
  "alog n = (xtime ^^ n) 1"

lemma powers_nth: "i < n \<Longrightarrow> powers n a ! i = (xtime ^^ i) a"
proof (induction n arbitrary: i a)
  case (Suc n)
  then show ?case by (cases i) (simp_all add: funpow_swap1)
qed simp

lemma length_powers [simp]: "length (powers n a) = n"
  by (induction n arbitrary: a) simp_all

lemma eccT1_nth: "i < 256 \<Longrightarrow> eccT1 ! i = alog i"
  by (simp add: eccT1_def alog_def powers_nth)

lemma eccT1_255: "eccT1 ! 255 = 1"
  by code_simp

lemma sort_eccT1: "sort (map uint (powers 255 1)) = [1..255]"
  by code_simp

lemma xtime_xor: "xtime (a XOR b) = xtime a XOR xtime b"
proof (rule bit_word_eqI)
  fix n assume "n < LENGTH(8)"
  show "bit (xtime (a XOR b)) n = bit (xtime a XOR xtime b) n"
    unfolding xtime_def by (auto simp: bit_xor_iff bit_push_bit_iff)
qed

lemma xtime_0 [simp]: "xtime 0 = 0"
  by (simp add: xtime_def)

lemma xpow_xor: "(xtime ^^ n) (a XOR b) = (xtime ^^ n) a XOR (xtime ^^ n) b"
  by (induction n) (simp_all add: xtime_xor)

lemma xpow_0 [simp]: "(xtime ^^ n) 0 = 0"
  by (induction n) simp_all

lemma alog_0 [simp]: "alog 0 = 1"
  by (simp add: alog_def)

lemma alog_add: "alog (i + j) = (xtime ^^ i) (alog j)"
  by (simp add: alog_def funpow_add)

lemma alog_255: "alog 255 = 1"
  using eccT1_255 eccT1_nth [of 255] by simp

lemma alog_mod: "alog (i mod 255) = alog i"
proof -
  have "alog (255 * k + j) = alog j" for k j
  proof (induction k)
    case (Suc k)
    have "alog (255 * Suc k + j) = (xtime ^^ (255 * k + j)) (alog 255)" unfolding alog_add [symmetric] by (simp add: algebra_simps)
    also have "\<dots> = alog (255 * k + j)" unfolding alog_255 by (simp add: alog_def)
    finally show ?case using Suc by simp
  qed simp
  from this [of "i div 255" "i mod 255"] show ?thesis by simp
qed

lemma logs: "uint ` alog ` {..<255} = {1..255}" "inj_on alog {..<255}"
proof -
  have m: "map uint (powers 255 1) = map (uint \<circ> alog) [0..<255]"
    by (rule nth_equalityI) (simp_all add: powers_nth alog_def)
  have "set (sort (map (uint \<circ> alog) [0..<255])) = {1..255}" unfolding m [symmetric] sort_eccT1 by simp
  then have s: "set (map (uint \<circ> alog) [0..<255]) = {1..255}" by simp
  have "distinct (sort (map (uint \<circ> alog) [0..<255]))" unfolding m [symmetric] sort_eccT1 by simp
  then have d: "distinct (map (uint \<circ> alog) [0..<255])" by simp
  show "uint ` alog ` {..<255} = {1..255}" using s by (simp add: image_comp lessThan_atLeast0)
  have "inj_on (uint \<circ> alog) {..<255}" using d by (simp add: distinct_map lessThan_atLeast0)
  then show "inj_on alog {..<255}" by (rule inj_on_imageI2)
qed

lemma alog_inj: "alog i = alog j \<Longrightarrow> i < 255 \<Longrightarrow> j < 255 \<Longrightarrow> i = j"
  using logs(2) by (auto simp: inj_on_def)

lemma alog_nz [simp]: "alog i \<noteq> 0"
proof -
  have "uint (alog (i mod 255)) \<in> {1..255}" using logs(1) by (metis imageI lessThan_iff mod_less_divisor zero_less_numeral)
  then show ?thesis by (auto simp: alog_mod)
qed

lemma byte_bounds: "unat (a :: byte) < 256" "uint a < 256"
  using unsigned_less [of a, where ?'a = nat] unsigned_less [of a, where ?'a = int] by simp_all

lemma alog_surj: "a \<noteq> 0 \<Longrightarrow> \<exists>i < 255. a = alog i"
proof -
  assume a: "a \<noteq> 0"
  have "uint a \<noteq> 0" using a by (metis uint_0_iff)
  then have "uint a \<in> {1..255}" using byte_bounds(2) [of a] by simp (metis linorder_not_le order_le_less uint_lt_0 zless_imp_add1_zle add_0)
  then have "uint a \<in> uint ` alog ` {..<255}" using logs(1) by simp
  then show ?thesis by (auto simp: word_uint_eq_iff)
qed

lemma table_updates:
  assumes "distinct is" "\<And>i j. i \<in> set is \<Longrightarrow> j \<in> set is \<Longrightarrow> f i = f j \<Longrightarrow> i = j" "\<And>i. i \<in> set is \<Longrightarrow> f i < length t" "i \<in> set is"
  shows "foldl (\<lambda>t i. t[f i := i]) t is ! f i = i"
  using assms
proof (induction "is" arbitrary: t)
  case (Cons j js)
  show ?case
  proof (cases "i \<in> set js")
    case True
    then show ?thesis using Cons by simp
  next
    case False
    have keep: "foldl (\<lambda>t i. t[f i := i]) t ks ! f j = t ! f j" if "\<And>k. k \<in> set ks \<Longrightarrow> f k \<noteq> f j" for ks t
      using that by (induction ks arbitrary: t) simp_all
    have "i = j" using Cons.prems(4) False by simp
    moreover have "f k \<noteq> f j" if "k \<in> set js" for k using that Cons.prems(1,2) by (metis distinct.simps(2) list.set_intros)
    ultimately show ?thesis using keep Cons.prems(3) by simp
  qed
qed simp

lemma log_alog: "i < 255 \<Longrightarrow> eccT0 ! unat (alog i) = i"
proof -
  assume i: "i < 255"
  have "foldl (\<lambda>t i. t[unat (eccT1 ! i) := i]) ((replicate 256 0)[0 := 255]) [0..<255] ! unat (eccT1 ! i) = i"
  proof (rule table_updates)
    show "j = k" if "j \<in> set [0..<255]" "k \<in> set [0..<255]" "unat (eccT1 ! j) = unat (eccT1 ! k)" for j k
      using that alog_inj by (simp add: eccT1_nth word_unat_eq_iff)
    show "unat (eccT1 ! j) < length ((replicate 256 0)[0 := 255])" for j
      using byte_bounds(1) [of "eccT1 ! j"] by simp
  qed (use i in simp_all)
  then show ?thesis using i by (simp add: eccT0_def eccT1_nth)
qed

lemma mpy_0 [simp]: "mpy 0 b = 0" "mpy a 0 = 0"
  by (simp_all add: mpy_def)

lemma mpy_alog: "mpy (alog i) (alog j) = alog (i + j)"
proof -
  have lt: "k mod 255 < (255::nat)" for k by simp
  have "mpy (alog (i mod 255)) (alog (j mod 255)) = alog (i mod 255 + j mod 255)"
  proof -
    have sub: "alog (m - 255) = alog m" if "m \<ge> 255" for m using that alog_mod [of m] alog_mod [of "m - 255"] by (simp add: le_mod_geq)
    show ?thesis using lt [of i] lt [of j] by (auto simp: mpy_def Let_def log_alog eccT1_nth sub)
  qed
  also have "\<dots> = alog (i + j)" by (metis alog_mod mod_add_eq)
  finally show ?thesis by (simp add: alog_mod)
qed

lemma mpy_xpow: "mpy (alog i) b = (xtime ^^ i) b"
proof (cases "b = 0")
  case False
  then obtain j where "b = alog j" using alog_surj by blast
  then show ?thesis by (simp add: mpy_alog alog_add)
qed simp

lemma mpy_commute: "mpy a b = mpy b a"
  by (simp add: mpy_def add.commute)

lemma mpy_xor: "mpy a (b XOR c) = mpy a b XOR mpy a c"
proof (cases "a = 0")
  case False
  then obtain i where "a = alog i" using alog_surj by blast
  then show ?thesis by (simp add: mpy_xpow xpow_xor)
qed simp

lemma mpy_assoc: "mpy (mpy a b) c = mpy a (mpy b c)"
proof (cases "a = 0 \<or> b = 0 \<or> c = 0")
  case False
  then obtain i j k where "a = alog i" "b = alog j" "c = alog k" using alog_surj by metis
  then show ?thesis by (simp add: mpy_alog add.assoc)
qed auto

lemma mpy_1 [simp]: "mpy 1 b = b"
  using mpy_xpow [of 0 b] by simp

lemma dvd_alog_small:
  assumes "i < 255" "j < 255"
  shows "dvd_ecc (alog i) (alog j) = alog (i + (255 - j))"
proof (cases "i < j")
  case True
  have n: "nat (int i - int j + 255) = i + (255 - j)" "i + (255 - j) < 256" using True assms(2) by linarith+
  then show ?thesis using True assms eccT1_nth [OF n(2)] by (simp add: dvd_ecc_def Let_def log_alog)
next
  case False
  have n: "nat (int i - int j) = i - j" "i + (255 - j) = i - j + 255" "i - j < 256" using False assms by linarith+
  have "alog (i - j + 255) = alog (i - j)" using alog_mod [of "i - j + 255"] alog_mod [of "i - j"] by simp
  then show ?thesis using False assms n eccT1_nth [OF n(3)] by (simp add: dvd_ecc_def Let_def log_alog)
qed

lemma dvd_alog: "dvd_ecc (alog i) (alog j) = alog (i + (255 - j mod 255))"
proof -
  have "dvd_ecc (alog i) (alog j) = alog (i mod 255 + (255 - j mod 255))"
    using dvd_alog_small [of "i mod 255" "j mod 255"] by (simp add: alog_mod)
  also have "\<dots> = alog (i + (255 - j mod 255))" by (metis alog_mod mod_add_left_eq)
  finally show ?thesis .
qed

lemma dvd_mpy: "b \<noteq> 0 \<Longrightarrow> mpy (dvd_ecc a b) b = a"
proof (cases "a = 0")
  case True
  then show ?thesis by (simp add: dvd_ecc_def)
next
  case False
  assume "b \<noteq> 0"
  then obtain i j where ij: "a = alog i" "b = alog j" "j < 255" using alog_surj False by metis
  have "alog (i + (255 - j) + j) = alog i" using ij(3) alog_mod [of "i + 255"] alog_mod [of i] by simp
  then show ?thesis using ij by (simp add: dvd_alog mpy_alog)
qed

text \<open>The elements as a type of the class of fields, so that the algebra of the library applies.\<close>

typedef gf = "UNIV :: byte set" morphisms byte_of gf_of
  by simp

setup_lifting type_definition_gf

instantiation gf :: field
begin

lift_definition zero_gf :: gf is 0 .
lift_definition one_gf :: gf is 1 .
lift_definition plus_gf :: "gf \<Rightarrow> gf \<Rightarrow> gf" is "(XOR)" .
lift_definition minus_gf :: "gf \<Rightarrow> gf \<Rightarrow> gf" is "(XOR)" .
lift_definition uminus_gf :: "gf \<Rightarrow> gf" is "\<lambda>a. a" .
lift_definition times_gf :: "gf \<Rightarrow> gf \<Rightarrow> gf" is mpy .
lift_definition inverse_gf :: "gf \<Rightarrow> gf" is "\<lambda>a. if a = 0 then 0 else dvd_ecc 1 a" .
lift_definition divide_gf :: "gf \<Rightarrow> gf \<Rightarrow> gf" is "\<lambda>a b. mpy a (if b = 0 then 0 else dvd_ecc 1 b)" .

instance
proof
  fix a b c :: gf
  show "a * b * c = a * (b * c)" by transfer (rule mpy_assoc)
  show "a * b = b * a" by transfer (rule mpy_commute)
  show "1 * a = a" by transfer simp
  show "a + b + c = a + (b + c)" by transfer (rule xor.assoc)
  show "a + b = b + a" by transfer (rule xor.commute)
  show "0 + a = a" by transfer simp
  show "- a + a = 0" by transfer simp
  show "a - b = a + - b" by transfer simp
  show "(a + b) * c = a * c + b * c" by transfer (metis mpy_commute mpy_xor)
  show "(0::gf) \<noteq> 1" by transfer simp
  show "a \<noteq> 0 \<Longrightarrow> inverse a * a = 1" by transfer (simp add: dvd_mpy)
  show "a div b = a * inverse b" by transfer simp
  show "inverse (0::gf) = 0" by transfer simp
qed

end

lemma gf_add_self: "(a::gf) + a = 0"
  by transfer simp

lemma gf_eq_iff: "gf_of a = gf_of b \<longleftrightarrow> a = b"
  by (simp add: gf_of_inject)

lemma gf_xor: "gf_of (a XOR b) = gf_of a + gf_of b"
  by (simp add: plus_gf.abs_eq)

lemma gf_mpy: "gf_of (mpy a b) = gf_of a * gf_of b"
  by (simp add: times_gf.abs_eq)

lemma gf_0: "gf_of 0 = 0" and gf_1: "gf_of 1 = 1"
  by (simp_all add: zero_gf.abs_eq one_gf.abs_eq)

lemma gf_0_iff: "gf_of a = 0 \<longleftrightarrow> a = 0"
  by (metis gf_0 gf_eq_iff)

lemma gf_dvd: "b \<noteq> 0 \<Longrightarrow> gf_of (dvd_ecc a b) = gf_of a / gf_of b"
  using dvd_mpy [of b a] gf_mpy [of "dvd_ecc a b" b] gf_0_iff [of b] by (simp add: eq_divide_eq)

section \<open>Multiplication\<close>

text \<open>The product of polynomials over the field of two elements, reduced, by shifting and adding: the reference for the tables.\<close>

primrec poly_mult :: "nat \<Rightarrow> byte \<Rightarrow> byte \<Rightarrow> byte" where
  "poly_mult 0 a b = 0"
| "poly_mult (Suc n) a b = (if bit b 0 then a else 0) XOR poly_mult n (xtime a) (drop_bit 1 b)"

lemma mpy_xtime: "mpy (xtime a) b = mpy a (xtime b)"
proof -
  have x: "xtime c = mpy (alog 1) c" for c by (simp add: mpy_xpow)
  show ?thesis unfolding x by (metis mpy_assoc mpy_commute)
qed

lemma take_bit_split:
  fixes b :: byte
  assumes "n < 8"
  shows "take_bit (Suc n) b = (if bit b 0 then 1 else 0) XOR xtime (take_bit n (drop_bit 1 b))"
proof -
  have "\<not> bit (take_bit n (drop_bit 1 b)) 7" using assms by (simp add: bit_take_bit_iff bit_drop_bit_eq)
  then have x: "xtime (take_bit n (drop_bit 1 b)) = push_bit 1 (take_bit n (drop_bit 1 b))" by (simp add: xtime_def)
  define z where "z = push_bit 1 (take_bit n (drop_bit 1 b))"
  have z: "bit z k \<longleftrightarrow> 1 \<le> k \<and> k < 8 \<and> k - 1 < n \<and> bit b k" for k
    unfolding z_def by (simp only: bit_push_bit_iff possible_bit_word bit_take_bit_iff bit_drop_bit_eq) auto
  show ?thesis
    unfolding x z_def [symmetric]
  proof (rule bit_word_eqI)
    fix k assume "k < LENGTH(8)"
    then show "bit (take_bit (Suc n) b) k = bit ((if bit b 0 then 1 else 0) XOR z) k"
      using assms by (cases k) (auto simp: bit_take_bit_iff bit_xor_iff z bit_1_iff)
  qed
qed

lemma poly_mult_take: "n \<le> 8 \<Longrightarrow> poly_mult n a b = mpy a (take_bit n b)"
proof (induction n arbitrary: a b)
  case (Suc n)
  have "poly_mult (Suc n) a b = (if bit b 0 then a else 0) XOR mpy (xtime a) (take_bit n (drop_bit 1 b))" using Suc by simp
  also have "\<dots> = mpy a (if bit b 0 then 1 else 0) XOR mpy a (xtime (take_bit n (drop_bit 1 b)))"
    by (simp add: mpy_xtime mpy_commute [of a 1])
  also have "\<dots> = mpy a (take_bit (Suc n) b)" unfolding mpy_xor [symmetric] using Suc.prems by (subst take_bit_split) simp_all
  finally show ?case .
qed simp

text \<open>C33: The multiplication by logarithms in tables is, for all 65536 pairs of bytes, the multiplication of polynomials modulo the
  polynomial 187 that \<open>initEcc\<close> builds the tables from, and \<open>dvd\<close> undoes it.\<close>

theorem mpy_is_poly_mult: "mpy a b = poly_mult 8 a b \<and> (b \<noteq> 0 \<longrightarrow> poly_mult 8 (dvd_ecc a b) b = a)"
proof -
  have t: "take_bit 8 b = b" using take_bit_length_eq [of b] by simp
  show ?thesis using poly_mult_take [of 8] by (simp add: t dvd_mpy)
qed

theorem mpy_is_poly_mult_witness: "mpy 2 0x80 = poly_mult 8 2 0x80 \<and> poly_mult 8 (dvd_ecc 1 3) 3 = 1"
  using mpy_is_poly_mult [of 2 "0x80"] mpy_is_poly_mult [of 1 3] by simp

end
