(* ===== verification/Ecc.thy ===== *)
theory Ecc
  imports Galois
begin

text \<open>
  Error correction of the floppy tape driver, \<open>conf/ft/src/ecc.c\<close>: a segment has 32 blocks of 1024 bytes, three of them check blocks of a
  Reed-Solomon code. The buffer is the memory from \<open>adr\<close> on, a function of the offset; the routines work on one column (the bytes of the
  blocks at one position) at a time, and their result has the buffer as they leave it.
\<close>

section \<open>The routines\<close>

type_synonym buffer = "nat \<Rightarrow> byte"

text \<open>The syndromes of the column at \<open>p\<close>, the place \<open>pbfr\<close> has come to.\<close>

definition syndromes :: "nat \<Rightarrow> buffer \<Rightarrow> nat \<Rightarrow> byte \<times> byte \<times> byte" where
  "syndromes nbfr b p = foldl (\<lambda>(s0, s1, s2) d0. let x = b (p + d0 * 1024) in (s0 XOR x, eccT2 s1 XOR x, eccT4 s2 XOR x)) (0, 0, 0) [0..<nbfr]"

definition xor_at :: "nat \<Rightarrow> byte \<Rightarrow> buffer \<Rightarrow> buffer" where
  "xor_at a e b = b(a := b a XOR e)"

text \<open>The locations are those of the bits of a sector map, at most 31.\<close>

definition fix3 :: "nat \<Rightarrow> nat \<Rightarrow> nat \<Rightarrow> nat \<Rightarrow> nat \<Rightarrow> buffer \<Rightarrow> bool \<times> buffer" where
  "fix3 nbfr l0 l1 l2 pbfr b =
     (let L0 = eccT1 ! (31 - l0); M0 = eccT1 ! (224 + l0); L1 = eccT1 ! (31 - l1); M1 = eccT1 ! (224 + l1);
          L2 = eccT1 ! (31 - l2); M2 = eccT1 ! (224 + l2);
          ae = mpy L0 M1; af = mpy L0 M2; bd = mpy L1 M0; bf = mpy L1 M2; cd = mpy L2 M0; ce = mpy L2 M1;
          aebd = ae XOR bd; afcd = af XOR cd; bfce = bf XOR ce; det = aebd XOR afcd XOR bfce;
          m00 = dvd_ecc bfce det; m01 = dvd_ecc (M1 XOR M2) det; m02 = dvd_ecc (L1 XOR L2) det;
          m10 = dvd_ecc afcd det; m11 = dvd_ecc (M0 XOR M2) det; m12 = dvd_ecc (L0 XOR L2) det;
          m20 = dvd_ecc aebd det; m21 = dvd_ecc (M0 XOR M1) det; m22 = dvd_ecc (L0 XOR L1) det
      in (True, foldl (\<lambda>b p.
           let (s0, s1, s2) = syndromes nbfr b p;
               e0 = mpy m00 s0 XOR mpy m01 s1 XOR mpy m02 s2;
               e1 = mpy m10 s0 XOR mpy m11 s1 XOR mpy m12 s2;
               e2 = mpy m20 s0 XOR mpy m21 s1 XOR mpy m22 s2
           in xor_at (p + l2 * 1024) e2 (xor_at (p + l1 * 1024) e1 (xor_at (p + l0 * 1024) e0 b))) b [pbfr..<pbfr + 1024]))"

primrec fix2_loop :: "nat \<Rightarrow> nat \<Rightarrow> nat \<Rightarrow> byte \<times> byte \<times> byte \<times> byte \<Rightarrow> byte \<times> byte \<times> byte \<times> byte \<Rightarrow> nat list \<Rightarrow> buffer \<Rightarrow> bool \<times> buffer" where
  "fix2_loop nbfr l0 l1 m n [] b = (True, b)"
| "fix2_loop nbfr l0 l1 m n (p # ps) b =
     (let (m00, m01, m10, m11) = m; (n00, n01, n10, n11) = n; (s0, s1, s2) = syndromes nbfr b p;
          e0 = mpy m00 s0 XOR mpy m01 s1; e1 = mpy m10 s0 XOR mpy m11 s1;
          c0 = mpy n00 s0 XOR mpy n01 s2; c1 = mpy n10 s0 XOR mpy n11 s2
      in if e0 \<noteq> c0 \<or> e1 \<noteq> c1 then (False, b)
         else fix2_loop nbfr l0 l1 m n ps (xor_at (p + l1 * 1024) e1 (xor_at (p + l0 * 1024) e0 b)))"

definition fix2 :: "nat \<Rightarrow> nat \<Rightarrow> nat \<Rightarrow> nat \<Rightarrow> buffer \<Rightarrow> bool \<times> buffer" where
  "fix2 nbfr l0 l1 pbfr b =
     (let L0 = eccT1 ! (31 - l0); M0 = eccT1 ! (224 + l0); L1 = eccT1 ! (31 - l1); M1 = eccT1 ! (224 + l1);
          det = L0 XOR L1; m01 = dvd_ecc 1 det; m = (dvd_ecc L1 det, m01, dvd_ecc L0 det, m01);
          det = M0 XOR M1; n01 = dvd_ecc 1 det; n = (dvd_ecc M1 det, n01, dvd_ecc M0 det, n01)
      in fix2_loop nbfr l0 l1 m n [pbfr..<pbfr + 1024] b)"

text \<open>In a column with an error elsewhere too, \<open>fix1\<close> finds its location and goes on as \<open>fix2\<close> from this column.\<close>

primrec fix1_loop :: "nat \<Rightarrow> nat \<Rightarrow> byte \<Rightarrow> byte \<Rightarrow> nat list \<Rightarrow> buffer \<Rightarrow> bool \<times> buffer" where
  "fix1_loop nbfr l0 L0 M0 [] b = (True, b)"
| "fix1_loop nbfr l0 L0 M0 (p # ps) b =
     (let (s0, s1, s2) = syndromes nbfr b p; e0 = s0; c0 = dvd_ecc s1 L0; c1 = dvd_ecc s2 M0
      in if e0 \<noteq> c0 \<or> e0 \<noteq> c1 then
           let a = mpy M0 s0 XOR s2; bb = mpy M0 s1 XOR mpy L0 s2; c = mpy L0 s0 XOR s1
           in if a = 0 then (False, b)
              else
                let L1 = dvd_ecc bb a XOR L0; L2 = dvd_ecc (dvd_ecc c a) L0
                in if L1 \<noteq> L2 then (False, b)
                   else if eccT0 ! unat L1 > 31 then (False, b)
                   else fix2 nbfr l0 (31 - eccT0 ! unat L1) p b
         else fix1_loop nbfr l0 L0 M0 ps (xor_at (p + l0 * 1024) e0 b))"

definition fix1 :: "nat \<Rightarrow> nat \<Rightarrow> nat \<Rightarrow> buffer \<Rightarrow> bool \<times> buffer" where
  "fix1 nbfr l0 pbfr b = fix1_loop nbfr l0 (eccT1 ! (31 - l0)) (eccT1 ! (224 + l0)) [pbfr..<pbfr + 1024] b"

primrec fix0_loop :: "nat \<Rightarrow> nat list \<Rightarrow> buffer \<Rightarrow> bool \<times> buffer" where
  "fix0_loop nbfr [] b = (True, b)"
| "fix0_loop nbfr (p # ps) b =
     (let (s0, s1, s2) = syndromes nbfr b p
      in if s0 OR s1 OR s2 \<noteq> 0 then
           let L0 = dvd_ecc s1 s0; L1 = dvd_ecc s0 s2
           in if L0 \<noteq> L1 then (False, b)
              else if eccT0 ! unat L0 > 31 then (False, b)
              else fix0_loop nbfr ps (xor_at (p + (31 - eccT0 ! unat L0) * 1024) s0 b)
         else fix0_loop nbfr ps b)"

definition fix0 :: "nat \<Rightarrow> nat \<Rightarrow> buffer \<Rightarrow> bool \<times> buffer" where
  "fix0 nbfr pbfr b = fix0_loop nbfr [pbfr..<pbfr + 1024] b"

text \<open>\<open>check\<close> is \<open>checkEcc\<close> of \<open>eccas.s\<close>: whether a column has a syndrome that is not 0.\<close>

definition decodeEcc :: "(buffer \<Rightarrow> nat \<Rightarrow> bool) \<Rightarrow> buffer \<Rightarrow> nat \<Rightarrow> nat \<Rightarrow> nat \<Rightarrow> nat \<Rightarrow> nat \<Rightarrow> bool \<times> buffer" where
  "decodeEcc check b nb errc err0 err1 err2 =
     (if errc = 0 then (if \<not> check b nb then (True, b) else fix0 nb 0 b)
      else if errc = 1 then fix1 nb err0 0 b
      else if errc = 2 then fix2 nb err0 err1 0 b
      else if errc = 3 then fix3 nb err0 err1 err2 0 b
      else (False, b))"

section \<open>Syndromes\<close>

definition al :: gf where "al = gf_of 2"
definition be :: gf where "be = gf_of 0xc3"

lemma gf_alog: "gf_of (alog n) = al ^ n"
proof (induction n)
  case 0
  then show ?case by (simp add: gf_1)
next
  case (Suc n)
  have "alog 1 = 2" by (simp add: alog_def xtime_def)
  then have "alog (Suc n) = mpy 2 (alog n)" using mpy_alog [of 1 n] by simp
  then show ?case using Suc by (simp add: gf_mpy al_def)
qed

lemma al_255: "al ^ 255 = 1"
  using gf_alog [of 255] alog_255 gf_1 by simp

lemma al_nz [simp]: "al ^ n \<noteq> 0"
  by (metis gf_alog gf_0_iff alog_nz)

lemma eccT1_254: "eccT1 ! 254 = 0xc3"
  by code_simp

lemma al_be: "al * be = 1"
proof -
  have "be = al ^ 254" using eccT1_254 eccT1_nth [of 254] gf_alog [of 254] by (simp add: be_def)
  then show ?thesis using al_255 by (metis power_Suc numeral_eq_Suc pred_numeral_simps(3) eval_nat_numeral(3) numeral_nat(3) semiring_norm(28) Suc_numeral)
qed

lemma al_neq_0 [simp]: "al \<noteq> 0"
  using al_nz [of 1] by simp

lemma gf_T1: "i < 256 \<Longrightarrow> gf_of (eccT1 ! i) = al ^ i"
  by (simp add: eccT1_nth gf_alog)

lemma gf_T1_inv: "l < 32 \<Longrightarrow> gf_of (eccT1 ! (224 + l)) = inverse (al ^ (31 - l))"
proof -
  assume l: "l < 32"
  have "al ^ (31 - l) * al ^ (224 + l) = al ^ 255" using l by (simp add: power_add [symmetric])
  then have "inverse (al ^ (31 - l)) = al ^ (224 + l)" using al_255 by (intro inverse_unique) simp
  then show ?thesis using l gf_T1 [of "224 + l"] by simp
qed

lemma gf_loc: "l < 32 \<Longrightarrow> gf_of (eccT1 ! (31 - l)) = al ^ (31 - l)"
  by (simp add: gf_T1)

lemma be_inverse: "be = inverse al"
  using al_be by (metis inverse_unique)

lemma al_pow_inj: "al ^ i = al ^ j \<Longrightarrow> i < 255 \<Longrightarrow> j < 255 \<Longrightarrow> i = j"
  using alog_inj gf_alog gf_eq_iff by metis

lemma gf_T2: "gf_of (eccT2 a) = al * gf_of a" and gf_T4: "gf_of (eccT4 a) = be * gf_of a"
  by (simp_all add: eccT2_def eccT4_def gf_mpy al_def be_def)

text \<open>The byte of block \<open>d\<close> in the column at \<open>p\<close>.\<close>

definition cell :: "buffer \<Rightarrow> nat \<Rightarrow> nat \<Rightarrow> gf" where
  "cell b p d = gf_of (b (p + d * 1024))"

lemma syndromes_Suc: "syndromes (Suc n) b p = (let (s0, s1, s2) = syndromes n b p; x = b (p + n * 1024) in (s0 XOR x, eccT2 s1 XOR x, eccT4 s2 XOR x))"
  by (simp add: syndromes_def split_beta Let_def)

lemma syndromes_sum:
  assumes "syndromes n b p = (s0, s1, s2)"
  shows "gf_of s0 = (\<Sum>d<n. cell b p d)" "gf_of s1 = (\<Sum>d<n. al ^ (n - 1 - d) * cell b p d)"
    "gf_of s2 = (\<Sum>d<n. be ^ (n - 1 - d) * cell b p d)"
proof -
  have step: "(\<Sum>d<Suc m. (c::gf) ^ (Suc m - 1 - d) * f d) = c * (\<Sum>d<m. c ^ (m - 1 - d) * f d) + f m" for c f m
  proof -
    have "(\<Sum>d<m. c ^ (Suc m - 1 - d) * f d) = (\<Sum>d<m. c * (c ^ (m - 1 - d) * f d))"
    proof (rule sum.cong)
      fix d assume "d \<in> {..<m}"
      then have "Suc m - 1 - d = Suc (m - 1 - d)" by auto
      then show "c ^ (Suc m - 1 - d) * f d = c * (c ^ (m - 1 - d) * f d)" by simp
    qed simp
    then show ?thesis by (simp add: sum_distrib_left)
  qed
  have "gf_of s0 = (\<Sum>d<n. cell b p d) \<and> gf_of s1 = (\<Sum>d<n. al ^ (n - 1 - d) * cell b p d) \<and> gf_of s2 = (\<Sum>d<n. be ^ (n - 1 - d) * cell b p d)"
    using assms
  proof (induction n arbitrary: s0 s1 s2)
    case 0
    then show ?case by (simp add: syndromes_def gf_0)
  next
    case (Suc m)
    obtain t0 t1 t2 where t: "syndromes m b p = (t0, t1, t2)" by (metis prod.exhaust)
    have "s0 = t0 XOR b (p + m * 1024)" "s1 = eccT2 t1 XOR b (p + m * 1024)" "s2 = eccT4 t2 XOR b (p + m * 1024)"
      using Suc.prems t by (simp_all add: syndromes_Suc Let_def)
    then show ?case using Suc.IH [OF t] unfolding step by (simp add: gf_xor gf_T2 gf_T4 cell_def)
  qed
  then show "gf_of s0 = (\<Sum>d<n. cell b p d)" "gf_of s1 = (\<Sum>d<n. al ^ (n - 1 - d) * cell b p d)"
    "gf_of s2 = (\<Sum>d<n. be ^ (n - 1 - d) * cell b p d)" by blast+
qed

text \<open>The syndromes of a column are those of its errors, when the right column has none.\<close>

lemma weighted_errors:
  fixes w :: "nat \<Rightarrow> gf"
  assumes z: "(\<Sum>d<n. w d * x d) = 0" and E: "E \<subseteq> {..<n}" and same: "\<And>d. d < n \<Longrightarrow> d \<notin> E \<Longrightarrow> y d = x d"
  shows "(\<Sum>d<n. w d * y d) = (\<Sum>d\<in>E. w d * (y d + x d))"
proof -
  have "(\<Sum>d<n. w d * y d) = (\<Sum>d<n. w d * (y d + x d))" using z by (simp add: distrib_left sum.distrib)
  also have "\<dots> = (\<Sum>d\<in>E. w d * (y d + x d))"
    by (rule sum.mono_neutral_right) (use E same gf_add_self in auto)
  finally show ?thesis .
qed

lemma syndromes_errors:
  assumes x: "syndromes n x p = (0, 0, 0)" and y: "syndromes n y p = (s0, s1, s2)" and E: "E \<subseteq> {..<n}"
    and same: "\<And>d. d < n \<Longrightarrow> d \<notin> E \<Longrightarrow> y (p + d * 1024) = x (p + d * 1024)"
  shows "gf_of s0 = (\<Sum>d\<in>E. cell y p d + cell x p d)" "gf_of s1 = (\<Sum>d\<in>E. al ^ (n - 1 - d) * (cell y p d + cell x p d))"
    "gf_of s2 = (\<Sum>d\<in>E. be ^ (n - 1 - d) * (cell y p d + cell x p d))"
proof -
  have c: "cell y p d = cell x p d" if "d < n" "d \<notin> E" for d using same [OF that] by (simp add: cell_def)
  note X = syndromes_sum [OF x] and Y = syndromes_sum [OF y]
  show "gf_of s0 = (\<Sum>d\<in>E. cell y p d + cell x p d)"
    using weighted_errors [of "\<lambda>_. 1" "cell x p" n E "cell y p"] X(1) Y(1) E c by (simp add: gf_0)
  show "gf_of s1 = (\<Sum>d\<in>E. al ^ (n - 1 - d) * (cell y p d + cell x p d))"
    using weighted_errors [of "\<lambda>d. al ^ (n - 1 - d)" "cell x p" n E "cell y p"] X(2) Y(2) E c by (simp add: gf_0)
  show "gf_of s2 = (\<Sum>d\<in>E. be ^ (n - 1 - d) * (cell y p d + cell x p d))"
    using weighted_errors [of "\<lambda>d. be ^ (n - 1 - d)" "cell x p" n E "cell y p"] X(3) Y(3) E c by (simp add: gf_0)
qed

section \<open>Correcting a column\<close>

text \<open>The codes of the locations.\<close>

lemma loc_inj: "l < 32 \<Longrightarrow> l' < 32 \<Longrightarrow> al ^ (31 - l) = al ^ (31 - l') \<Longrightarrow> l = l'"
proof -
  assume l: "l < 32" "l' < 32" "al ^ (31 - l) = al ^ (31 - l')"
  have "31 - l = 31 - l'" by (rule al_pow_inj [OF l(3)]) simp_all
  then show ?thesis using l(1,2) by linarith
qed

lemma gf_2 [simp]: "(2::gf) = 0"
  using gf_add_self [of 1] by simp

lemma gf_minus [simp]: "(a::gf) - b = a + b"
  by transfer simp

lemma gf_uminus [simp]: "- (a::gf) = a"
  by transfer simp

lemma gf_sum_0: "(a::gf) + b = 0 \<longleftrightarrow> a = b"
  using eq_iff_diff_eq_0 [of a b] by simp

lemma two_errors:
  fixes X Y e f :: gf
  assumes "X \<noteq> Y"
  shows "Y / (X + Y) * (e + f) + 1 / (X + Y) * (X * e + Y * f) = e" "X / (X + Y) * (e + f) + 1 / (X + Y) * (X * e + Y * f) = f"
proof -
  have d: "X + Y \<noteq> 0" using assms by (simp add: gf_sum_0)
  have "Y * (e + f) + (X * e + Y * f) = e * (X + Y) + 2 * (Y * f)" by (simp only: mult_2) algebra
  then have e: "Y * (e + f) + (X * e + Y * f) = e * (X + Y)" by simp
  have "X * (e + f) + (X * e + Y * f) = f * (X + Y) + 2 * (X * e)" by (simp only: mult_2) algebra
  then have f: "X * (e + f) + (X * e + Y * f) = f * (X + Y)" by simp
  have "Y / (X + Y) * (e + f) + 1 / (X + Y) * (X * e + Y * f) = (Y * (e + f) + (X * e + Y * f)) / (X + Y)"
    by (simp add: add_divide_distrib)
  then show "Y / (X + Y) * (e + f) + 1 / (X + Y) * (X * e + Y * f) = e" unfolding e using d by simp
  have "X / (X + Y) * (e + f) + 1 / (X + Y) * (X * e + Y * f) = (X * (e + f) + (X * e + Y * f)) / (X + Y)"
    by (simp add: add_divide_distrib)
  then show "X / (X + Y) * (e + f) + 1 / (X + Y) * (X * e + Y * f) = f" unfolding f using d by simp
qed

lemma three_det:
  fixes X Y Z :: gf
  assumes "X \<noteq> Y" "X \<noteq> Z" "Y \<noteq> Z" "X * A = 1" "Y * B = 1" "Z * C = 1"
  shows "(X * B + Y * A) + (X * C + Z * A) + (Y * C + Z * B) \<noteq> 0"
proof
  assume z: "(X * B + Y * A) + (X * C + Z * A) + (Y * C + Z * B) = 0"
  have "(X + Y) * (Y + Z) * (X + Z) = X * Y * Z * ((X * B + Y * A) + (X * C + Z * A) + (Y * C + Z * B)) + 2 * (X * Y * Z)"
    using assms(4-6) by (simp only: mult_2) algebra
  then have "(X + Y) * (Y + Z) * (X + Z) = 0" using z by simp
  then show False using assms(1-3) by (simp add: gf_sum_0)
qed

lemma three_errors:
  fixes X Y Z A B C e f g :: gf
  defines "D \<equiv> (X * B + Y * A) + (X * C + Z * A) + (Y * C + Z * B)"
  assumes "D \<noteq> 0"
  shows "(Y * C + Z * B) / D * (e + f + g) + (B + C) / D * (X * e + Y * f + Z * g) + (Y + Z) / D * (A * e + B * f + C * g) = e"
proof -
  have "(Y * C + Z * B) * (e + f + g) + (B + C) * (X * e + Y * f + Z * g) + (Y + Z) * (A * e + B * f + C * g) =
      e * D + 2 * (f * (Y * C + Z * B + B * Y) + g * (Y * C + Z * B + C * Z))"
    unfolding D_def by (simp only: mult_2) algebra
  then have n: "(Y * C + Z * B) * (e + f + g) + (B + C) * (X * e + Y * f + Z * g) + (Y + Z) * (A * e + B * f + C * g) = e * D" by simp
  have "(Y * C + Z * B) / D * (e + f + g) + (B + C) / D * (X * e + Y * f + Z * g) + (Y + Z) / D * (A * e + B * f + C * g) =
      ((Y * C + Z * B) * (e + f + g) + (B + C) * (X * e + Y * f + Z * g) + (Y + Z) * (A * e + B * f + C * g)) / D"
    by (simp only: times_divide_eq_left add_divide_distrib [symmetric])
  then show ?thesis unfolding n using assms(2) by simp
qed

text \<open>One byte of error at block \<open>l\<close> is put right by adding what the code computes.\<close>

definition err :: "buffer \<Rightarrow> buffer \<Rightarrow> nat \<Rightarrow> nat \<Rightarrow> byte" where
  "err y x p d = y (p + d * 1024) XOR x (p + d * 1024)"

lemma gf_err: "gf_of (err y x p d) = cell y p d + cell x p d"
  by (simp add: err_def cell_def gf_xor)

definition clean_column :: "nat \<Rightarrow> buffer \<Rightarrow> nat \<Rightarrow> bool" where
  "clean_column n x p \<longleftrightarrow> syndromes n x p = (0, 0, 0)"

lemma column1:
  assumes x: "clean_column n x p" and y: "syndromes n y p = (s0, s1, s2)" and l: "l < n"
    and same: "\<And>d. d < n \<Longrightarrow> d \<noteq> l \<Longrightarrow> y (p + d * 1024) = x (p + d * 1024)"
  shows "s0 = err y x p l" "gf_of s1 = al ^ (n - 1 - l) * gf_of s0" "gf_of s2 = be ^ (n - 1 - l) * gf_of s0"
proof -
  note S = syndromes_errors [where E = "{l}", OF x [unfolded clean_column_def] y]
  have E: "{l} \<subseteq> {..<n}" using l by simp
  have s0: "gf_of s0 = gf_of (err y x p l)" using S(1) [OF E] same by (simp add: gf_err)
  then show "s0 = err y x p l" by (simp add: gf_eq_iff)
  show "gf_of s1 = al ^ (n - 1 - l) * gf_of s0" "gf_of s2 = be ^ (n - 1 - l) * gf_of s0"
    using S(2,3) [OF E] same s0 by (simp_all add: gf_err)
qed

lemma column2:
  assumes x: "clean_column n x p" and y: "syndromes n y p = (s0, s1, s2)" and l: "l0 < n" "l1 < n" "l0 \<noteq> l1"
    and same: "\<And>d. d < n \<Longrightarrow> d \<noteq> l0 \<Longrightarrow> d \<noteq> l1 \<Longrightarrow> y (p + d * 1024) = x (p + d * 1024)"
  defines "e \<equiv> gf_of (err y x p l0)" and "f \<equiv> gf_of (err y x p l1)"
  shows "gf_of s0 = e + f" "gf_of s1 = al ^ (n - 1 - l0) * e + al ^ (n - 1 - l1) * f" "gf_of s2 = be ^ (n - 1 - l0) * e + be ^ (n - 1 - l1) * f"
proof -
  note S = syndromes_errors [where E = "{l0, l1}", OF x [unfolded clean_column_def] y]
  have E: "{l0, l1} \<subseteq> {..<n}" using l by simp
  show "gf_of s0 = e + f" "gf_of s1 = al ^ (n - 1 - l0) * e + al ^ (n - 1 - l1) * f" "gf_of s2 = be ^ (n - 1 - l0) * e + be ^ (n - 1 - l1) * f"
    using S [OF E] same l(3) by (simp_all add: gf_err e_def f_def)
qed

lemma column3:
  assumes x: "clean_column n x p" and y: "syndromes n y p = (s0, s1, s2)"
    and l: "l0 < n" "l1 < n" "l2 < n" "l0 \<noteq> l1" "l0 \<noteq> l2" "l1 \<noteq> l2"
    and same: "\<And>d. d < n \<Longrightarrow> d \<noteq> l0 \<Longrightarrow> d \<noteq> l1 \<Longrightarrow> d \<noteq> l2 \<Longrightarrow> y (p + d * 1024) = x (p + d * 1024)"
  defines "e \<equiv> gf_of (err y x p l0)" and "f \<equiv> gf_of (err y x p l1)" and "g \<equiv> gf_of (err y x p l2)"
  shows "gf_of s0 = e + f + g" "gf_of s1 = al ^ (n - 1 - l0) * e + al ^ (n - 1 - l1) * f + al ^ (n - 1 - l2) * g"
    "gf_of s2 = be ^ (n - 1 - l0) * e + be ^ (n - 1 - l1) * f + be ^ (n - 1 - l2) * g"
proof -
  note S = syndromes_errors [where E = "{l0, l1, l2}", OF x [unfolded clean_column_def] y]
  have E: "{l0, l1, l2} \<subseteq> {..<n}" using l by simp
  show "gf_of s0 = e + f + g" "gf_of s1 = al ^ (n - 1 - l0) * e + al ^ (n - 1 - l1) * f + al ^ (n - 1 - l2) * g"
    "gf_of s2 = be ^ (n - 1 - l0) * e + be ^ (n - 1 - l1) * f + be ^ (n - 1 - l2) * g"
    using S [OF E] same l(4-6) by (simp_all add: gf_err e_def f_def g_def add.assoc)
qed

section \<open>Correcting a segment\<close>

text \<open>\<open>b\<close> has the columns below \<open>k\<close> of \<open>x\<close>, and is \<open>y\<close> elsewhere.\<close>

definition done_to :: "nat \<Rightarrow> nat \<Rightarrow> buffer \<Rightarrow> buffer \<Rightarrow> buffer" where
  "done_to n k x y = (\<lambda>a. if a mod 1024 < k \<and> a div 1024 < n then x a else y a)"

lemma place: "p < 1024 \<Longrightarrow> (p + d * 1024) mod 1024 = p" "p < 1024 \<Longrightarrow> (p + d * 1024) div 1024 = (d::nat)"
  by simp_all

lemma done_to_0: "done_to n 0 x y = y"
  by (simp add: done_to_def)

lemma done_to_cell: "p < 1024 \<Longrightarrow> done_to n p x y (p + d * 1024) = y (p + d * 1024)"
  by (simp add: done_to_def place)

lemma syndromes_cong:
  assumes "\<And>d. d < n \<Longrightarrow> b (p + d * 1024) = y (p + d * 1024)"
  shows "syndromes n b p = syndromes n y p"
  using assms by (induction n) (simp_all add: syndromes_Suc, simp add: syndromes_def)

lemma done_to_Suc:
  assumes p: "p < 1024" and "\<And>d. d < n \<Longrightarrow> d \<notin> E \<Longrightarrow> y (p + d * 1024) = x (p + d * 1024)"
    and "\<And>d. d \<in> E \<Longrightarrow> d < n \<and> b (p + d * 1024) = x (p + d * 1024)"
    and "\<And>a. a \<notin> (\<lambda>d. p + d * 1024) ` E \<Longrightarrow> b a = done_to n p x y a"
  shows "b = done_to n (Suc p) x y"
proof (rule ext)
  fix a
  show "b a = done_to n (Suc p) x y a"
  proof (cases "a \<in> (\<lambda>d. p + d * 1024) ` E")
    case True
    then obtain d where d: "d \<in> E" "a = p + d * 1024" by blast
    then show ?thesis using assms(3) [OF d(1)] p by (simp add: done_to_def place)
  next
    case False
    have "y a = x a" if "a mod 1024 = p" "a div 1024 < n"
    proof -
      have "a = p + (a div 1024) * 1024" using that(1) by (metis add.commute div_mult_mod_eq)
      then show ?thesis using assms(2) [of "a div 1024"] that(2) False by (metis imageI)
    qed
    then show ?thesis using assms(4) [OF False] by (auto simp: done_to_def less_Suc_eq)
  qed
qed

text \<open>Two buffers that hold the same segment of \<open>n\<close> blocks except for the blocks in \<open>E\<close>, of which the first is right.\<close>

definition damaged :: "nat \<Rightarrow> buffer \<Rightarrow> buffer \<Rightarrow> nat set \<Rightarrow> bool" where
  "damaged n x y E \<longleftrightarrow> (\<forall>p < 1024. clean_column n x p) \<and> E \<subseteq> {..<n} \<and>
     (\<forall>p < 1024. \<forall>d < n. d \<notin> E \<longrightarrow> y (p + d * 1024) = x (p + d * 1024))"

definition restored :: "nat \<Rightarrow> buffer \<Rightarrow> buffer \<Rightarrow> buffer" where
  "restored n x y = (\<lambda>a. if a < n * 1024 then x a else y a)"

lemma done_to_all: "done_to n 1024 x y = restored n x y"
  unfolding done_to_def restored_def by (rule ext) (simp add: div_less_iff_less_mult)

lemma three_errors_all:
  fixes X Y Z A B C e f g :: gf
  assumes d: "(X * B + Y * A) + (X * C + Z * A) + (Y * C + Z * B) = D" "D \<noteq> 0"
    and s: "s0 = e + f + g" "s1 = X * e + Y * f + Z * g" "s2 = A * e + B * f + C * g"
  shows "(Y * C + Z * B) / D * s0 + (B + C) / D * s1 + (Y + Z) / D * s2 = e"
    "(X * C + Z * A) / D * s0 + (A + C) / D * s1 + (X + Z) / D * s2 = f"
    "(X * B + Y * A) / D * s0 + (A + B) / D * s1 + (X + Y) / D * s2 = g"
proof -
  have d2: "(Y * A + X * B) + (Y * C + Z * B) + (X * C + Z * A) = D" "(Z * A + X * C) + (Z * B + Y * C) + (X * B + Y * A) = D"
    using d(1) by (simp_all add: ac_simps)
  show "(Y * C + Z * B) / D * s0 + (B + C) / D * s1 + (Y + Z) / D * s2 = e"
    using three_errors [of X B Y A C Z e f g] d unfolding s by simp
  show "(X * C + Z * A) / D * s0 + (A + C) / D * s1 + (X + Z) / D * s2 = f"
    using three_errors [of Y A X B C Z f e g] d2(1) d(2) unfolding s by (simp add: add.commute add.left_commute)
  show "(X * B + Y * A) / D * s0 + (A + B) / D * s1 + (X + Y) / D * s2 = g"
    using three_errors [of Z A X C B Y g e f] d2(2) d(2) unfolding s by (simp add: add.commute add.left_commute)
qed

lemma be_power: "be ^ n = inverse (al ^ n)"
  by (simp add: be_inverse power_inverse)

lemma loop_to:
  assumes "\<And>p. p < 1024 \<Longrightarrow> f (done_to n p x y) p = done_to n (Suc p) x y" "k \<le> 1024"
  shows "foldl f y [0..<k] = done_to n k x y"
  using assms(2)
proof (induction k)
  case 0
  then show ?case by (simp add: done_to_0)
next
  case (Suc k)
  then show ?case using assms(1) [of k] by simp
qed

lemma damagedD:
  assumes "damaged n x y E" "p < 1024"
  shows "clean_column n x p" "\<And>d. d < n \<Longrightarrow> d \<notin> E \<Longrightarrow> y (p + d * 1024) = x (p + d * 1024)" "E \<subseteq> {..<n}"
  using assms by (auto simp: damaged_def)

lemma xor_err: "y (p + l * 1024) XOR err y x p l = x (p + l * 1024)"
  by (simp add: err_def xor.assoc [symmetric])

lemma fix3_restores:
  assumes dam: "damaged 32 x y {l0, l1, l2}" and ne: "l0 \<noteq> l1" "l0 \<noteq> l2" "l1 \<noteq> l2"
  shows "fix3 32 l0 l1 l2 0 y = (True, restored 32 x y)"
proof -
  have l: "l0 < 32" "l1 < 32" "l2 < 32" using dam by (auto simp: damaged_def)
  let ?X = "al ^ (31 - l0)" and ?Y = "al ^ (31 - l1)" and ?Z = "al ^ (31 - l2)"
  let ?A = "inverse ?X" and ?B = "inverse ?Y" and ?C = "inverse ?Z"
  define L0 M0 L1 M1 L2 M2 where "L0 = eccT1 ! (31 - l0)" and "M0 = eccT1 ! (224 + l0)" and "L1 = eccT1 ! (31 - l1)"
    and "M1 = eccT1 ! (224 + l1)" and "L2 = eccT1 ! (31 - l2)" and "M2 = eccT1 ! (224 + l2)"
  have T: "gf_of L0 = ?X" "gf_of L1 = ?Y" "gf_of L2 = ?Z" "gf_of M0 = ?A" "gf_of M1 = ?B" "gf_of M2 = ?C"
    using l by (simp_all add: L0_def L1_def L2_def M0_def M1_def M2_def gf_loc gf_T1_inv)
  define det where "det = (mpy L0 M1 XOR mpy L1 M0) XOR (mpy L0 M2 XOR mpy L2 M0) XOR (mpy L1 M2 XOR mpy L2 M1)"
  have D: "(?X * ?B + ?Y * ?A) + (?X * ?C + ?Z * ?A) + (?Y * ?C + ?Z * ?B) = gf_of det"
    by (simp add: det_def gf_xor gf_mpy T add.assoc)
  have "?X \<noteq> ?Y" "?X \<noteq> ?Z" "?Y \<noteq> ?Z" using loc_inj l ne by blast+
  then have D0: "gf_of det \<noteq> 0" using three_det [of ?X ?Y ?Z ?A ?B ?C] D by simp
  then have d0: "det \<noteq> 0" by (simp add: gf_0_iff)
  note dv = gf_dvd [OF d0]
  define step where "step = (\<lambda>b p. let (s0, s1, s2) = syndromes 32 b p;
      e0 = mpy (dvd_ecc (mpy L1 M2 XOR mpy L2 M1) det) s0 XOR mpy (dvd_ecc (M1 XOR M2) det) s1 XOR mpy (dvd_ecc (L1 XOR L2) det) s2;
      e1 = mpy (dvd_ecc (mpy L0 M2 XOR mpy L2 M0) det) s0 XOR mpy (dvd_ecc (M0 XOR M2) det) s1 XOR mpy (dvd_ecc (L0 XOR L2) det) s2;
      e2 = mpy (dvd_ecc (mpy L0 M1 XOR mpy L1 M0) det) s0 XOR mpy (dvd_ecc (M0 XOR M1) det) s1 XOR mpy (dvd_ecc (L0 XOR L1) det) s2
    in xor_at (p + l2 * 1024) e2 (xor_at (p + l1 * 1024) e1 (xor_at (p + l0 * 1024) e0 b)))"
  have "step (done_to 32 p x y) p = done_to 32 (Suc p) x y" if p: "p < 1024" for p
  proof -
    note dm = damagedD [OF dam p]
    obtain s0 s1 s2 where s: "syndromes 32 y p = (s0, s1, s2)" by (metis prod.exhaust)
    have sy: "syndromes 32 (done_to 32 p x y) p = (s0, s1, s2)"
      using syndromes_cong [of 32 "done_to 32 p x y" p y] s done_to_cell [OF p] by simp
    have c: "gf_of s0 = gf_of (err y x p l0) + gf_of (err y x p l1) + gf_of (err y x p l2)"
      "gf_of s1 = ?X * gf_of (err y x p l0) + ?Y * gf_of (err y x p l1) + ?Z * gf_of (err y x p l2)"
      "gf_of s2 = ?A * gf_of (err y x p l0) + ?B * gf_of (err y x p l1) + ?C * gf_of (err y x p l2)"
      using column3 [OF dm(1) s l ne] dm(2) by (simp_all add: be_power)
    note E = three_errors_all [OF D D0 c, unfolded add.assoc]
    have e: "mpy (dvd_ecc (mpy L1 M2 XOR mpy L2 M1) det) s0 XOR mpy (dvd_ecc (M1 XOR M2) det) s1 XOR mpy (dvd_ecc (L1 XOR L2) det) s2 = err y x p l0"
      "mpy (dvd_ecc (mpy L0 M2 XOR mpy L2 M0) det) s0 XOR mpy (dvd_ecc (M0 XOR M2) det) s1 XOR mpy (dvd_ecc (L0 XOR L2) det) s2 = err y x p l1"
      "mpy (dvd_ecc (mpy L0 M1 XOR mpy L1 M0) det) s0 XOR mpy (dvd_ecc (M0 XOR M1) det) s1 XOR mpy (dvd_ecc (L0 XOR L1) det) s2 = err y x p l2"
      by (simp_all only: gf_eq_iff [symmetric] gf_xor gf_mpy dv T E)
    have st: "step (done_to 32 p x y) p = xor_at (p + l2 * 1024) (err y x p l2) (xor_at (p + l1 * 1024) (err y x p l1)
        (xor_at (p + l0 * 1024) (err y x p l0) (done_to 32 p x y)))"
      by (simp only: step_def sy Let_def prod.case e)
    show ?thesis
      unfolding st by (rule done_to_Suc [where n = 32 and x = x and y = y and E = "{l0, l1, l2}", OF p dm(2)]) (use l ne in \<open>auto simp: xor_at_def done_to_cell [OF p] xor_err\<close>)
  qed
  from loop_to [where f = step and n = 32 and x = x and y = y and k = 1024, OF this] have "foldl step y [0..<1024] = restored 32 x y" by (simp add: done_to_all)
  moreover have "fix3 32 l0 l1 l2 0 y = (True, foldl step y [0..<1024])"
    by (simp only: fix3_def step_def L0_def M0_def L1_def M1_def L2_def M2_def det_def Let_def add_0)
  ultimately show ?thesis by simp
qed

lemma loop_steps:
  assumes "\<And>p ps. p < 1024 \<Longrightarrow> f (p # ps) (st p) = f ps (st (Suc p))"
  shows "f [0..<1024] (st 0) = f [] (st 1024)"
proof -
  have "f [k..<1024] (st k) = f [] (st 1024)" if "k \<le> 1024" for k
    using that
  proof (induction rule: inc_induct)
    case (step n)
    then show ?case using assms [of n] by (simp add: upt_conv_Cons)
  qed simp
  then show ?thesis by simp
qed

lemma syndromes_done_to: "p < 1024 \<Longrightarrow> syndromes n (done_to n p x y) p = syndromes n y p"
  by (rule syndromes_cong) (simp add: done_to_cell)

lemma fix2_restores:
  assumes dam: "damaged 32 x y {l0, l1}" and ne: "l0 \<noteq> l1"
  shows "fix2 32 l0 l1 0 y = (True, restored 32 x y)"
proof -
  have l: "l0 < 32" "l1 < 32" using dam by (auto simp: damaged_def)
  let ?X = "al ^ (31 - l0)" and ?Y = "al ^ (31 - l1)"
  let ?A = "inverse ?X" and ?B = "inverse ?Y"
  define L0 M0 L1 M1 where "L0 = eccT1 ! (31 - l0)" and "M0 = eccT1 ! (224 + l0)" and "L1 = eccT1 ! (31 - l1)" and "M1 = eccT1 ! (224 + l1)"
  have T: "gf_of L0 = ?X" "gf_of L1 = ?Y" "gf_of M0 = ?A" "gf_of M1 = ?B"
    using l by (simp_all add: L0_def L1_def M0_def M1_def gf_loc gf_T1_inv)
  have X: "?X \<noteq> ?Y" using loc_inj l ne by blast
  then have A: "?A \<noteq> ?B" by (metis inverse_inverse_eq)
  have "gf_of (L0 XOR L1) \<noteq> 0" "gf_of (M0 XOR M1) \<noteq> 0" using X A by (simp_all add: gf_xor T gf_sum_0)
  then have nz: "L0 XOR L1 \<noteq> 0" "M0 XOR M1 \<noteq> 0" by (simp_all only: gf_0_iff not_False_eq_True)
  note dv = gf_dvd [OF nz(1)] gf_dvd [OF nz(2)]
  let ?m = "(dvd_ecc L1 (L0 XOR L1), dvd_ecc 1 (L0 XOR L1), dvd_ecc L0 (L0 XOR L1), dvd_ecc 1 (L0 XOR L1))"
  let ?n = "(dvd_ecc M1 (M0 XOR M1), dvd_ecc 1 (M0 XOR M1), dvd_ecc M0 (M0 XOR M1), dvd_ecc 1 (M0 XOR M1))"
  have "fix2_loop 32 l0 l1 ?m ?n (p # ps) (done_to 32 p x y) = fix2_loop 32 l0 l1 ?m ?n ps (done_to 32 (Suc p) x y)" if p: "p < 1024" for p ps
  proof -
    note dm = damagedD [OF dam p]
    obtain s0 s1 s2 where s: "syndromes 32 y p = (s0, s1, s2)" by (metis prod.exhaust)
    note sy = syndromes_done_to [OF p, of 32 x y, unfolded s]
    have c: "gf_of s0 = gf_of (err y x p l0) + gf_of (err y x p l1)" "gf_of s1 = ?X * gf_of (err y x p l0) + ?Y * gf_of (err y x p l1)"
      "gf_of s2 = ?A * gf_of (err y x p l0) + ?B * gf_of (err y x p l1)"
      using column2 [OF dm(1) s l ne] dm(2) by (simp_all add: be_power)
    note E = two_errors [OF X, of "gf_of (err y x p l0)" "gf_of (err y x p l1)", folded c]
      two_errors [OF A, of "gf_of (err y x p l0)" "gf_of (err y x p l1)", folded c]
    have e: "mpy (dvd_ecc L1 (L0 XOR L1)) s0 XOR mpy (dvd_ecc 1 (L0 XOR L1)) s1 = err y x p l0"
      "mpy (dvd_ecc L0 (L0 XOR L1)) s0 XOR mpy (dvd_ecc 1 (L0 XOR L1)) s1 = err y x p l1"
      "mpy (dvd_ecc M1 (M0 XOR M1)) s0 XOR mpy (dvd_ecc 1 (M0 XOR M1)) s2 = err y x p l0"
      "mpy (dvd_ecc M0 (M0 XOR M1)) s0 XOR mpy (dvd_ecc 1 (M0 XOR M1)) s2 = err y x p l1"
      by (simp_all only: gf_eq_iff [symmetric] gf_xor gf_mpy dv T gf_1 E)
    have "fix2_loop 32 l0 l1 ?m ?n (p # ps) (done_to 32 p x y) =
        fix2_loop 32 l0 l1 ?m ?n ps (xor_at (p + l1 * 1024) (err y x p l1) (xor_at (p + l0 * 1024) (err y x p l0) (done_to 32 p x y)))"
      by (simp only: fix2_loop.simps sy Let_def prod.case e refl not_True_eq_False simp_thms if_False)
    also have "xor_at (p + l1 * 1024) (err y x p l1) (xor_at (p + l0 * 1024) (err y x p l0) (done_to 32 p x y)) = done_to 32 (Suc p) x y"
      by (rule done_to_Suc [where n = 32 and x = x and y = y and E = "{l0, l1}", OF p dm(2)]) (use l ne in \<open>auto simp: xor_at_def done_to_cell [OF p] xor_err\<close>)
    finally show ?thesis .
  qed
  from loop_steps [of "fix2_loop 32 l0 l1 ?m ?n" "\<lambda>p. done_to 32 p x y", OF this]
  have "fix2_loop 32 l0 l1 ?m ?n [0..<1024] y = (True, restored 32 x y)" by (simp add: done_to_0 done_to_all)
  then show ?thesis by (simp only: fix2_def L0_def M0_def L1_def M1_def Let_def add_0)
qed

lemma fix1_restores:
  assumes dam: "damaged 32 x y {l0}"
  shows "fix1 32 l0 0 y = (True, restored 32 x y)"
proof -
  have l: "l0 < 32" using dam by (auto simp: damaged_def)
  let ?X = "al ^ (31 - l0)"
  define L0 M0 where "L0 = eccT1 ! (31 - l0)" and "M0 = eccT1 ! (224 + l0)"
  have T: "gf_of L0 = ?X" "gf_of M0 = inverse ?X" using l by (simp_all add: L0_def M0_def gf_loc gf_T1_inv)
  then have nz: "L0 \<noteq> 0" "M0 \<noteq> 0" by (metis al_nz gf_0, metis al_nz gf_0 inverse_nonzero_iff_nonzero)
  have "fix1_loop 32 l0 L0 M0 (p # ps) (done_to 32 p x y) = fix1_loop 32 l0 L0 M0 ps (done_to 32 (Suc p) x y)" if p: "p < 1024" for p ps
  proof -
    note dm = damagedD [OF dam p]
    obtain s0 s1 s2 where s: "syndromes 32 y p = (s0, s1, s2)" by (metis prod.exhaust)
    note sy = syndromes_done_to [OF p, of 32 x y, unfolded s]
    have c: "s0 = err y x p l0" "gf_of s1 = ?X * gf_of s0" "gf_of s2 = inverse ?X * gf_of s0"
      using column1 [OF dm(1) s l] dm(2) by (simp_all add: be_power)
    have e: "dvd_ecc s1 L0 = s0" "dvd_ecc s2 M0 = s0"
      by (simp_all only: gf_eq_iff [symmetric] gf_dvd [OF nz(1)] gf_dvd [OF nz(2)] T c(2,3)) simp_all
    have "fix1_loop 32 l0 L0 M0 (p # ps) (done_to 32 p x y) = fix1_loop 32 l0 L0 M0 ps (xor_at (p + l0 * 1024) (err y x p l0) (done_to 32 p x y))"
      by (simp only: fix1_loop.simps sy Let_def prod.case e refl not_True_eq_False simp_thms if_False c(1) [symmetric])
    also have "xor_at (p + l0 * 1024) (err y x p l0) (done_to 32 p x y) = done_to 32 (Suc p) x y"
      by (rule done_to_Suc [where n = 32 and x = x and y = y and E = "{l0}", OF p dm(2)]) (use l in \<open>auto simp: xor_at_def done_to_cell [OF p] xor_err\<close>)
    finally show ?thesis .
  qed
  from loop_steps [of "fix1_loop 32 l0 L0 M0" "\<lambda>p. done_to 32 p x y", OF this]
  have "fix1_loop 32 l0 L0 M0 [0..<1024] y = (True, restored 32 x y)" by (simp add: done_to_0 done_to_all)
  then show ?thesis by (simp only: fix1_def L0_def M0_def add_0)
qed

text \<open>A column with one error, in a segment of \<open>n\<close> blocks: the block that \<open>fix0\<close> takes for the wrong one.\<close>

lemma fix0_step:
  assumes x: "clean_column n x p" and s: "syndromes n b p = syndromes n y p" and l: "l < n" "n \<le> 32"
    and same: "\<And>d. d < n \<Longrightarrow> d \<noteq> l \<Longrightarrow> y (p + d * 1024) = x (p + d * 1024)"
  shows "fix0_loop n (p # ps) b = fix0_loop n ps (if err y x p l = 0 then b else xor_at (p + (l + 32 - n) * 1024) (err y x p l) b)"
proof -
  obtain s0 s1 s2 where y: "syndromes n y p = (s0, s1, s2)" by (metis prod.exhaust)
  have c: "s0 = err y x p l" "gf_of s1 = al ^ (n - 1 - l) * gf_of s0" "gf_of s2 = inverse (al ^ (n - 1 - l)) * gf_of s0"
    using column1 [OF x y l(1)] same by (simp_all add: be_power)
  show ?thesis
  proof (cases "s0 = 0")
    case True
    then have "gf_of s1 = 0" "gf_of s2 = 0" using c gf_0 by simp_all
    then have "s1 = 0" "s2 = 0" by (simp_all add: gf_0_iff)
    then show ?thesis using True c(1) by (simp add: s y)
  next
    case False
    then have g: "gf_of s0 \<noteq> 0" by (simp add: gf_0_iff)
    then have g2: "gf_of s2 \<noteq> 0" using c(3) by simp
    then have s2: "s2 \<noteq> 0" by (simp add: gf_0_iff)
    have "gf_of (dvd_ecc s1 s0) = gf_of (alog (n - 1 - l))" using g by (simp add: gf_dvd [OF False] c(2) gf_alog)
    then have L0: "dvd_ecc s1 s0 = alog (n - 1 - l)" by (simp only: gf_eq_iff)
    have "gf_of (dvd_ecc s0 s2) = gf_of (alog (n - 1 - l))"
      using g by (simp add: gf_dvd [OF s2] c(3) gf_alog field_simps)
    then have L1: "dvd_ecc s0 s2 = alog (n - 1 - l)" by (simp only: gf_eq_iff)
    have "s0 OR s1 OR s2 \<noteq> 0" using False by (simp add: or_eq_0_iff)
    moreover have "eccT0 ! unat (alog (n - 1 - l)) = n - 1 - l" using l by (intro log_alog) simp
    moreover have "31 - (n - 1 - l) = l + 32 - n" "\<not> 31 < n - 1 - l" using l by simp_all
    ultimately show ?thesis using False by (simp add: s y L0 L1 Let_def c(1) [symmetric])
  qed
qed

lemma fix0_restores:
  assumes clean: "\<And>p. p < 1024 \<Longrightarrow> clean_column 32 x p"
    and one: "\<And>p. p < 1024 \<Longrightarrow> \<exists>l < 32. \<forall>d < 32. d \<noteq> l \<longrightarrow> y (p + d * 1024) = x (p + d * 1024)"
  shows "fix0 32 0 y = (True, restored 32 x y)"
proof -
  have "fix0_loop 32 (p # ps) (done_to 32 p x y) = fix0_loop 32 ps (done_to 32 (Suc p) x y)" if p: "p < 1024" for p ps
  proof -
    obtain l where l: "l < 32" "\<And>d. d < 32 \<Longrightarrow> d \<noteq> l \<Longrightarrow> y (p + d * 1024) = x (p + d * 1024)" using one [OF p] by blast
    let ?b = "if err y x p l = 0 then done_to 32 p x y else xor_at (p + (l + 32 - 32) * 1024) (err y x p l) (done_to 32 p x y)"
    have "fix0_loop 32 (p # ps) (done_to 32 p x y) = fix0_loop 32 ps ?b"
      by (rule fix0_step [OF clean [OF p] syndromes_done_to [OF p] l(1) _ l(2)]) simp_all
    also have "?b = done_to 32 (Suc p) x y"
    proof (rule done_to_Suc [where n = 32 and x = x and y = y and E = "{l}", OF p])
      show "d < 32 \<and> ?b (p + d * 1024) = x (p + d * 1024)" if "d \<in> {l}" for d
        using that l(1) xor_err [of y p l x] by (auto simp: xor_at_def done_to_cell [OF p])
    qed (use l in \<open>auto simp: xor_at_def\<close>)
    finally show ?thesis .
  qed
  from loop_steps [of "fix0_loop 32" "\<lambda>p. done_to 32 p x y", OF this]
  show ?thesis by (simp add: fix0_def done_to_0 done_to_all)
qed

text \<open>C32: Reed-Solomon decoding: when a segment of 32 blocks was written with right check blocks and at most three of its blocks have
  come back wrong, in any bytes, \<open>decodeEcc\<close>, given how many and which ones, puts back every byte of the segment, and touches no
  other memory.\<close>

theorem decodeEcc_restores:
  assumes "errc \<in> {1, 2, 3}" "distinct (take errc [l0, l1, l2])" "damaged 32 x y (set (take errc [l0, l1, l2]))"
  shows "decodeEcc check y 32 errc l0 l1 l2 = (True, restored 32 x y)"
proof -
  consider "errc = 1" | "errc = 2" | "errc = 3" using assms(1) by blast
  then show ?thesis
  proof cases
    case 1
    then show ?thesis using assms(3) fix1_restores by (simp add: decodeEcc_def)
  next
    case 2
    then show ?thesis using assms(2,3) fix2_restores [of x y l0 l1] by (simp add: decodeEcc_def numeral_2_eq_2)
  next
    case 3
    then show ?thesis using assms(2,3) fix3_restores [of x y l0 l1 l2] by (simp add: decodeEcc_def numeral_3_eq_3)
  qed
qed

text \<open>Errors that were not seen when the blocks were read are found: when no column of a segment of 32 blocks has more than one
  wrong byte, \<open>decodeEcc\<close> with an error count of 0 puts all of them back, in whatever blocks they are. \<open>checkEcc\<close> is
  relied on to say whether some column has a syndrome that is not 0.\<close>

theorem decodeEcc_finds_errors:
  assumes "\<forall>p < 1024. clean_column 32 x p" "\<forall>p < 1024. \<exists>l < 32. \<forall>d < 32. d \<noteq> l \<longrightarrow> y (p + d * 1024) = x (p + d * 1024)"
    "check y 32 \<longleftrightarrow> (\<exists>p < 1024. \<not> clean_column 32 y p)"
  shows "decodeEcc check y 32 0 l0 l1 l2 = (True, restored 32 x y)"
proof (cases "check y 32")
  case True
  then show ?thesis using fix0_restores [of x y] assms(1,2) by (simp add: decodeEcc_def)
next
  case False
  have "y (p + d * 1024) = x (p + d * 1024)" if p: "p < 1024" and d: "d < 32" for p d
  proof -
    obtain l where l: "l < 32" "\<And>d. d < 32 \<Longrightarrow> d \<noteq> l \<Longrightarrow> y (p + d * 1024) = x (p + d * 1024)" using assms(2) p by blast
    have "syndromes 32 y p = (0, 0, 0)" using assms(3) False p by (auto simp: clean_column_def)
    then have "err y x p l = 0" using column1(1) [OF _ _ l(1), of x p y 0 0 0] assms(1) p l(2) by simp
    then have "y (p + l * 1024) = x (p + l * 1024)" using xor_err [of y p l x] by simp
    then show ?thesis using l(2) d by (cases "d = l") simp_all
  qed
  then have "y a = x a" if "a < 32 * 1024" for a
    using that place by (metis add.commute div_mult_mod_eq less_mult_imp_div_less mod_less_divisor zero_less_numeral)
  then have "restored 32 x y = y" by (auto simp: restored_def)
  then show ?thesis using False by (simp add: decodeEcc_def)
qed

text \<open>In a segment with bad blocks, of fewer than 32 blocks, the locations are those of a whole segment: one wrong byte in a column is
  found, but \<open>decodeEcc\<close> changes the byte of another block, leaves the wrong one as it is, and reports success.\<close>

theorem decodeEcc_short_segment:
  assumes "n < 32" "p < 1024" "l < n" "\<forall>q < 1024. clean_column n x q" "y = x(p + l * 1024 := e)" "e \<noteq> x (p + l * 1024)" "check y n"
  shows "decodeEcc check y n 0 l0 l1 l2 = (True, y(p + (l + 32 - n) * 1024 := y (p + (l + 32 - n) * 1024) XOR e XOR x (p + l * 1024)))"
proof -
  let ?a = "p + (l + 32 - n) * 1024"
  let ?z = "y(?a := y ?a XOR e XOR x (p + l * 1024))"
  define st where "st k = (if k \<le> p then y else ?z)" for k
  have er: "err y x p l = e XOR x (p + l * 1024)" using assms(5) by (simp add: err_def)
  have nz: "err y x p l \<noteq> 0"
  proof
    assume "err y x p l = 0"
    then have "y (p + l * 1024) = x (p + l * 1024)" using xor_err [of y p l x] by simp
    then show False using assms(5,6) by simp
  qed
  have st: "fix0_loop n (q # ps) (st q) = fix0_loop n ps (st (Suc q))" if q: "q < 1024" for q ps
  proof (cases "q = p")
    case True
    have "fix0_loop n (q # ps) (st q) = fix0_loop n ps (if err y x q l = 0 then y else xor_at (q + (l + 32 - n) * 1024) (err y x q l) y)"
      unfolding True st_def if_P [OF order_refl]
      by (rule fix0_step) (use assms in auto)
    also have "\<dots> = fix0_loop n ps (st (Suc q))" using nz er True by (simp add: st_def xor_at_def)
    finally show ?thesis .
  next
    case False
    have other: "r + d * 1024 \<noteq> q + c * 1024" if "r < 1024" "r \<noteq> q" for r d c
      using place(1) [of r d] place(1) [of q c] that q by metis
    have yq: "y (q + d * 1024) = x (q + d * 1024)" for d
    proof -
      have "q + d * 1024 \<noteq> p + l * 1024" using other [OF assms(2), of l d] False by simp
      then show ?thesis by (simp add: assms(5))
    qed
    have sq: "st q (q + d * 1024) = y (q + d * 1024)" for d using other [OF assms(2), of "l + 32 - n" d] False by (auto simp: st_def)
    have "fix0_loop n (q # ps) (st q) = fix0_loop n ps (if err y x q l = 0 then st q else xor_at (q + (l + 32 - n) * 1024) (err y x q l) (st q))"
    proof (rule fix0_step)
      show "clean_column n x q" using assms(4) q by blast
      show "syndromes n (st q) q = syndromes n y q" by (rule syndromes_cong) (rule sq)
    qed (use assms(1,3) yq in simp_all)
    moreover have "err y x q l = 0" by (simp add: err_def yq)
    moreover have "st (Suc q) = st q" using False by (auto simp: st_def)
    ultimately show ?thesis by simp
  qed
  from loop_steps [of "fix0_loop n" st, OF st] have "fix0 n 0 y = (True, ?z)" using assms(2) by (simp add: fix0_def st_def)
  then show ?thesis using assms(7) by (simp add: decodeEcc_def)
qed

section \<open>Examples\<close>

lemma syndromes_0: "syndromes n (\<lambda>_. 0) p = (0, 0, 0)"
proof (induction n)
  case 0
  then show ?case by (simp add: syndromes_def)
next
  case (Suc n)
  then show ?case by (simp add: syndromes_Suc eccT2_def eccT4_def)
qed

text \<open>A segment of zeros, of which blocks 3, 7 and 20 have come back with wrong bytes.\<close>

definition ex_bad :: buffer where
  "ex_bad = (\<lambda>_. 0)(5 + 3 * 1024 := 0x41, 5 + 7 * 1024 := 0x42, 900 + 20 * 1024 := 0x43)"

lemma ex_damaged: "damaged 32 (\<lambda>_. 0) ex_bad (set (take 3 [3, 7, 20]))"
proof -
  have "ex_bad (p + d * 1024) = 0" if p: "p < 1024" and "d \<noteq> 3" "d \<noteq> 7" "d \<noteq> 20" for p d
  proof -
    have "p + d * 1024 \<noteq> q + c * 1024" if "c \<noteq> d" "q < 1024" for q c using place(2) [OF p, of d] place(2) [OF that(2), of c] that(1) by metis
    then show ?thesis using that by (simp add: ex_bad_def)
  qed
  then show ?thesis by (simp add: damaged_def clean_column_def syndromes_0)
qed

theorem decodeEcc_restores_witness: "decodeEcc (\<lambda>_ _. True) ex_bad 32 3 3 7 20 = (True, restored 32 (\<lambda>_. 0) ex_bad)"
  by (rule decodeEcc_restores [OF _ _ ex_damaged]) simp_all

definition ex_one :: buffer where
  "ex_one = (\<lambda>_. 0)(5 + 3 * 1024 := 0x41)"

lemma ex_one_cell: "p < 1024 \<Longrightarrow> d \<noteq> 3 \<Longrightarrow> ex_one (p + d * 1024) = 0"
proof -
  assume p: "p < 1024" and d: "d \<noteq> 3"
  have "p + d * 1024 \<noteq> 5 + 3 * 1024"
  proof
    assume "p + d * 1024 = 5 + 3 * 1024"
    then have "(p + d * 1024) div 1024 = (5 + 3 * 1024) div (1024::nat)" by (rule arg_cong)
    then show False using place(2) [OF p, of d] d by simp
  qed
  then show ?thesis by (simp add: ex_one_def)
qed

theorem decodeEcc_finds_errors_witness:
  "decodeEcc (\<lambda>b n. \<exists>p < 1024. \<not> clean_column 32 b p) ex_one 32 0 0 0 0 = (True, restored 32 (\<lambda>_. 0) ex_one)"
proof (rule decodeEcc_finds_errors)
  show "\<forall>p < 1024. \<exists>l < 32. \<forall>d < 32. d \<noteq> l \<longrightarrow> ex_one (p + d * 1024) = 0"
    using ex_one_cell by (intro allI impI exI [of _ 3]) simp
qed (simp_all add: clean_column_def syndromes_0)

theorem decodeEcc_short_segment_witness:
  "decodeEcc (\<lambda>_ _. True) ex_one 31 0 0 0 0 = (True, ex_one(5 + 4 * 1024 := 0x41)) \<and> ex_one (5 + 3 * 1024) = 0x41"
proof -
  have h: "(31::nat) < 32" "(5::nat) < 1024" "(3::nat) < 31" "\<forall>q < 1024. clean_column 31 (\<lambda>_. 0) q" "(0x41::byte) \<noteq> 0" "True"
    by (simp_all add: clean_column_def syndromes_0)
  have "ex_one = (\<lambda>_. 0)(5 + 3 * 1024 := 0x41)" by (rule ex_one_def)
  from decodeEcc_short_segment [OF h(1-4) this h(5), of "\<lambda>_ _. True" 0 0 0] show ?thesis by (simp add: ex_one_def)
qed

end
