(* ===== verification/Numbers.thy ===== *)
theory Numbers
  imports Prelude "HOL-Library.Word"
begin

text \<open>
  Numbers and text in the BIOS of the board: \<open>strtoint\<close> (hexadecimal), \<open>strtobcd\<close> (binary coded decimal), \<open>atoi\<close>, and
  \<open>__numout\<close>, which \<open>cprintf\<close> prints numbers with. A character is its code. A string that is only read up to its end is the list of
  its codes without the terminating 0; a pointer into it is the rest of the list. \<open>strtobcd\<close> may run past the end, so there a string is memory.
  A \<open>long\<close> has 32 bits and an \<open>int\<close> 16.
\<close>

unbundle bit_operations_syntax

type_synonym ch = nat

definition peek :: "ch list \<Rightarrow> ch" where
  "peek s = (case s of [] \<Rightarrow> 0 | c # _ \<Rightarrow> c)"

section \<open>Hexadecimal\<close>

definition hexdigit :: "ch \<Rightarrow> nat" where
  "hexdigit c = (if 48 \<le> c \<and> c \<le> 57 then c - 48 else if 65 \<le> c \<and> c \<le> 70 then c - 65 + 10
     else if 97 \<le> c \<and> c \<le> 102 then c - 97 + 10 else 0x11)"

primrec hex_scan :: "ch list \<Rightarrow> 32 word \<Rightarrow> bool \<Rightarrow> 32 word \<times> bool \<times> ch list" where
  "hex_scan [] value errno = (value, errno, [])"
| "hex_scan (c # cs) value errno =
     (if hexdigit c = 0x11 then (value, errno, c # cs)
      else if value > drop_bit 4 0xFFFFFFFF then hex_scan cs value True
      else hex_scan cs (push_bit 4 value + of_nat (hexdigit c)) errno)"

definition is_delim :: "ch \<Rightarrow> bool" where
  "is_delim c \<longleftrightarrow> c = 32 \<or> c = 9 \<or> c = 58"

text \<open>The value, whether \<open>errno\<close> is set, and \<open>endptr\<close>.\<close>

definition strtoint :: "ch list \<Rightarrow> 32 word \<times> bool \<times> ch list" where
  "strtoint cptr =
     (let cp = dropWhile is_delim cptr;
          (sign, cp) = (if peek cp = 45 then (- 1, tl cp) else if peek cp = 43 then (1, tl cp) else (0 :: int, cp))
      in if hexdigit (peek cp) = 0x11 then (0, True, cptr)
         else
           let (value, errno, cp) = hex_scan cp 0 False
           in (if errno then 0 else if sign < 0 then NOT value + 1 else value, errno, cp))"

section \<open>Binary coded decimal\<close>

definition ndigit :: "ch \<Rightarrow> nat" where
  "ndigit ch = (if 48 \<le> ch \<and> ch \<le> 57 then ch - 48 else 255)"

text \<open>The loop over the digits, from \<open>cp\<close> on; \<^const>\<open>None\<close> is a loop that finds nothing but digits.\<close>

partial_function (option) bcd_loop :: "(nat \<Rightarrow> ch) \<Rightarrow> nat \<Rightarrow> 32 word \<Rightarrow> bool \<Rightarrow> (32 word \<times> bool \<times> nat) option" where
  "bcd_loop m cp value errno =
     (let cp = cp + 1; digit = ndigit (m cp)
      in if digit = 255 then Some (value, errno, cp)
         else if digit < 10 \<and> value < 0x09999999 then bcd_loop m cp (push_bit 4 value + of_nat digit) errno
         else bcd_loop m (cp + 1) 0 True)"

partial_function (option) skip_blanks :: "(nat \<Rightarrow> ch) \<Rightarrow> nat \<Rightarrow> nat option" where
  "skip_blanks m cp = (if m cp = 32 \<or> m cp = 9 then skip_blanks m (cp + 1) else Some cp)"

definition strtobcd :: "(nat \<Rightarrow> ch) \<Rightarrow> nat \<Rightarrow> (32 word \<times> bool \<times> nat) option" where
  "strtobcd m cptr = do {
     cp \<leftarrow> skip_blanks m cptr;
     let (sign, cp) = (if m cp = 45 then (- 1, cp + 1) else if m cp = 43 then (1, cp + 1) else (0 :: int, cp));
         digit = ndigit (m cp)
     in if digit \<ge> 10 then Some (0, True, cptr + 1)
        else do {
          (value, errno, cp) \<leftarrow> bcd_loop m cp (of_nat digit) False;
          Some (if sign < 0 then 0x99999999 - value else value, errno, cp - 1 + 1)
        }
   }"

section \<open>Decimal\<close>

text \<open>\<open>n * 10 + c - '0'\<close> in an \<open>int\<close>, taken to wrap round.\<close>

definition int16 :: "int \<Rightarrow> int" where
  "int16 x = (x + 32768) mod 65536 - 32768"

primrec atoi_loop :: "ch list \<Rightarrow> int \<Rightarrow> int" where
  "atoi_loop [] n = n"
| "atoi_loop (c # s) n = (if 48 \<le> c \<and> c \<le> 57 then atoi_loop s (int16 (n * 10 + int c - 48)) else n)"

definition atoi :: "ch list \<Rightarrow> int" where
  "atoi s = atoi_loop s 0"

section \<open>Printing\<close>

definition NUMLTH :: nat where
  "NUMLTH = 11"

definition nstring :: "nat \<Rightarrow> ch" where
  "nstring digit = (if digit < 10 then 48 + digit else 65 - 10 + digit)"

text \<open>The loop fills \<open>out\<close> from its end; \<open>s\<close> is what is behind \<open>n\<close>. The bases are 8, 10 and 16.\<close>

function numout_loop :: "nat \<Rightarrow> nat \<Rightarrow> ch list \<Rightarrow> ch list" where
  "numout_loop base val s =
     (let s = nstring (val mod base) # s; val = val div base in if val \<noteq> 0 \<and> 1 < base then numout_loop base val s else s)"
  by pat_completeness auto
termination
proof (relation "measure (\<lambda>(base, val, s). val)")
  show "((base, w, t), base, val, s) \<in> measure (\<lambda>(base, val, s). val)" if "w = val div base" "w \<noteq> 0 \<and> 1 < base" for base val w :: nat and s t :: "ch list"
    using that by (cases "val = 0") (simp_all add: div_less_dividend)
qed simp

declare numout_loop.simps [simp del]

text \<open>The number is given as the bits of a \<open>long\<close>.\<close>

definition numout :: "32 word \<Rightarrow> int \<Rightarrow> ch list" where
  "numout i base =
     (let (base, i, flg) = (if base < 0 then (if sint i < 0 then (- base, - i, True) else (- base, i, False)) else (base, i, False));
          s = numout_loop (nat base) (unat i) []
      in if flg then 45 # s else s)"

section \<open>Reading hexadecimal\<close>

text \<open>The number that a row of digits stands for.\<close>

definition number :: "nat \<Rightarrow> nat \<Rightarrow> ch list \<Rightarrow> nat" where
  "number base v cs = foldl (\<lambda>v c. v * base + hexdigit c) v cs"

lemma number_simps [simp]: "number base v [] = v" "number base v (c # cs) = number base (v * base + hexdigit c) cs"
  by (simp_all add: number_def)

lemma number_append: "number base v (cs @ ds) = number base (number base v cs) ds"
  by (simp add: number_def)

lemma number_ge: "1 \<le> base \<Longrightarrow> v \<le> number base v cs"
proof (induction cs arbitrary: v)
  case (Cons c cs)
  have "v * 1 \<le> v * base" using Cons.prems by (intro mult_le_mono2)
  then have "v \<le> v * base + hexdigit c" unfolding mult_1_right by (rule trans_le_add1)
  also have "\<dots> \<le> number base (v * base + hexdigit c) cs" by (rule Cons.IH [OF Cons.prems])
  finally show ?case by simp
qed simp

definition is_hex :: "ch \<Rightarrow> bool" where
  "is_hex c \<longleftrightarrow> hexdigit c \<noteq> 0x11"

lemma hexdigit_less: "is_hex c \<Longrightarrow> hexdigit c < 16"
  by (auto simp: is_hex_def hexdigit_def split: if_splits)

lemma hex_scan_stop: "\<not> is_hex (peek rest) \<Longrightarrow> hex_scan rest v e = (v, e, rest)"
  by (cases rest) (simp_all add: is_hex_def peek_def)

lemma hex_scan_bad: "list_all is_hex hs \<Longrightarrow> \<not> is_hex (peek rest) \<Longrightarrow> \<exists>v'. hex_scan (hs @ rest) v True = (v', True, rest)"
  by (induction hs arbitrary: v) (auto simp: hex_scan_stop is_hex_def)

lemma hex_scan_value:
  assumes "list_all is_hex hs" "\<not> is_hex (peek rest)" "v < 2 ^ 32"
  shows "if number 16 v hs < 2 ^ 32 then hex_scan (hs @ rest) (of_nat v) False = (of_nat (number 16 v hs), False, rest)
    else \<exists>v'. hex_scan (hs @ rest) (of_nat v) False = (v', True, rest)"
  using assms(1,3)
proof (induction hs arbitrary: v)
  case Nil
  then show ?case using assms(2) by (simp add: hex_scan_stop)
next
  case (Cons c hs)
  have h: "hexdigit c < 16" "hexdigit c \<noteq> 0x11" using Cons.prems(1) hexdigit_less by (auto simp: is_hex_def)
  have u: "unat (of_nat v :: 32 word) = v" using Cons.prems(2) by (simp add: unat_of_nat take_bit_nat_eq_self)
  have big: "(of_nat v :: 32 word) > drop_bit 4 0xFFFFFFFF \<longleftrightarrow> 2 ^ 28 \<le> v"
    unfolding word_less_nat_alt u by (simp add: drop_bit_eq_div) linarith
  show ?case
  proof (cases "2 ^ 28 \<le> v")
    case True
    then have "hex_scan ((c # hs) @ rest) (of_nat v) False = hex_scan (hs @ rest) (of_nat v) True" using h big by simp
    moreover have "\<not> number 16 v (c # hs) < 2 ^ 32" using True number_ge [of 16 "v * 16 + hexdigit c" hs] by simp
    ultimately show ?thesis using hex_scan_bad [OF _ assms(2), of hs "of_nat v"] Cons.prems(1) by simp
  next
    case False
    have w: "push_bit 4 (of_nat v) + of_nat (hexdigit c) = (of_nat (v * 16 + hexdigit c) :: 32 word)"
      by (simp add: push_bit_eq_mult)
    have eq: "hex_scan ((c # hs) @ rest) (of_nat v) False = hex_scan (hs @ rest) (of_nat (v * 16 + hexdigit c)) False"
      unfolding w [symmetric] using h big False by simp
    have "v * 16 + hexdigit c < 2 ^ 32" using False h(1) by simp
    then show ?thesis unfolding eq number_simps using Cons.prems(1) by (intro Cons.IH) simp_all
  qed
qed

lemma hex_not_delim: "is_hex c \<Longrightarrow> \<not> is_delim c \<and> c \<noteq> 45 \<and> c \<noteq> 43"
  by (auto simp: is_hex_def is_delim_def hexdigit_def)

lemma dropWhile_all: "list_all P ds \<Longrightarrow> dropWhile P (ds @ s) = dropWhile P s"
  by (induction ds) auto

text \<open>C34: \<open>strtoint\<close> reads what is written: blanks, tabs and colons, an optional sign, and hexadecimal digits. The value is
  the number, or its two's complement after a minus, exactly when it fits 32 bits; otherwise it is 0 with \<open>errno\<close> set, however many digits there
  are; either way \<open>endptr\<close> is behind the last digit.\<close>

theorem strtoint_value:
  assumes "list_all is_delim ds" "sg \<in> {[], [43], [45]}" "list_all is_hex hs" "hs \<noteq> []" "\<not> is_hex (peek rest)"
  shows "strtoint (ds @ sg @ hs @ rest) =
    (if number 16 0 hs < 2 ^ 32 then (if sg = [45] then - of_nat (number 16 0 hs) else of_nat (number 16 0 hs), False, rest) else (0, True, rest))"
proof -
  obtain c cs where hs: "hs = c # cs" using assms(4) by (cases hs) auto
  have c: "is_hex c" "\<not> is_delim c" "c \<noteq> 45" "c \<noteq> 43" using assms(3) hs hex_not_delim by auto
  let ?t = "hs @ rest"
  have dw: "dropWhile is_delim (ds @ sg @ ?t) = sg @ ?t"
    using assms(1,2) c(2) by (auto simp: dropWhile_all hs is_delim_def)
  have pk: "peek ?t = c" by (simp add: hs peek_def)
  have sgn: "(if peek (sg @ ?t) = 45 then (- 1, tl (sg @ ?t)) else if peek (sg @ ?t) = 43 then (1, tl (sg @ ?t)) else (0 :: int, sg @ ?t)) =
      (if sg = [45] then - 1 else if sg = [43] then 1 else 0, ?t)"
    using assms(2) c(3,4) pk by (auto simp: peek_def)
  have V: "if number 16 0 hs < 2 ^ 32 then hex_scan ?t 0 False = (of_nat (number 16 0 hs), False, rest)
    else \<exists>v'. hex_scan ?t 0 False = (v', True, rest)"
    using hex_scan_value [OF assms(3,5), of 0] by (cases "number 16 0 hs < 2 ^ 32") simp_all
  have neg: "NOT v + 1 = - v" for v :: "32 word" by (simp add: not_eq_complement)
  have "strtoint (ds @ sg @ ?t) =
      (let (value, errno, cp) = hex_scan ?t 0 False in (if errno then 0 else if sg = [45] then - value else value, errno, cp))"
    unfolding strtoint_def Let_def dw sgn using c(1) pk by (auto simp: is_hex_def neg split: prod.split)
  then show ?thesis using V by (cases "number 16 0 hs < 2 ^ 32") auto
qed

section \<open>Printing and reading back\<close>

lemma hexdigit_nstring: "d < 16 \<Longrightarrow> hexdigit (nstring d) = d \<and> is_hex (nstring d)"
  by (auto simp: hexdigit_def nstring_def is_hex_def)

lemma numout_loop_digits:
  assumes "1 < base" "base \<le> 16"
  obtains ds where "numout_loop base val s = ds @ s" "ds \<noteq> []" "list_all is_hex ds" "number base 0 ds = val"
    "base ^ (length ds - 1) \<le> max 1 val" "\<And>c. c \<in> set ds \<Longrightarrow> \<exists>d < base. c = nstring d"
  using assms
proof (induction base val s arbitrary: thesis rule: numout_loop.induct)
  case (1 base val s)
  let ?c = "nstring (val mod base)" and ?q = "val div base"
  have b: "val mod base < base" using 1(3) by simp
  note m = order.strict_trans2 [OF b 1(4)] b
  note h = hexdigit_nstring [OF m(1)]
  show ?case
  proof (cases "?q = 0")
    case True
    then have "numout_loop base val s = [?c] @ s" by (subst numout_loop.simps) (simp add: Let_def)
    moreover have "number base 0 [?c] = val" using h True 1(3) by (simp add: div_eq_0_iff)
    ultimately show ?thesis using 1(2) [of "[?c]"] h m(2) by auto
  next
    case False
    then have e: "numout_loop base val s = numout_loop base ?q (?c # s)" using 1(3) by (subst numout_loop.simps) (simp add: Let_def)
    obtain ds where ds: "numout_loop base ?q (?c # s) = ds @ ?c # s" "ds \<noteq> []" "list_all is_hex ds" "number base 0 ds = ?q"
      "base ^ (length ds - 1) \<le> max 1 ?q" "\<And>c. c \<in> set ds \<Longrightarrow> \<exists>d < base. c = nstring d"
      using 1(1) [OF refl refl] False 1(3,4) by blast
    show ?thesis
    proof (rule 1(2) [of "ds @ [?c]"])
      show "number base 0 (ds @ [?c]) = val" using h by (simp add: number_append ds(4))
      have "base ^ length ds = base * base ^ (length ds - 1)" using ds(2) by (cases ds) simp_all
      also have "\<dots> \<le> base * ?q" using ds(5) False by (intro mult_le_mono2) simp
      also have "\<dots> \<le> val" by simp
      finally show "base ^ (length (ds @ [?c]) - 1) \<le> max 1 val" by simp
      show "\<exists>d < base. c = nstring d" if "c \<in> set (ds @ [?c])" for c using that ds(6) m(2) by auto
    qed (use e ds h in auto)
  qed
qed

text \<open>What \<open>__numout\<close> prints in base 16, \<open>strtoint\<close> reads back as the same 32 bits, without an error and up to its end.\<close>

theorem hex_print_scan:
  assumes "\<not> is_hex (peek rest)"
  shows "strtoint (numout x 16 @ rest) = (x, False, rest)"
proof -
  obtain ds where ds: "numout_loop 16 (unat x) [] = ds @ []" "ds \<noteq> []" "list_all is_hex ds" "number 16 0 ds = unat x"
    by (rule numout_loop_digits [of 16 "unat x" "[]"]) simp_all
  have n: "numout x 16 = ds" using ds(1) by (simp add: numout_def)
  have "unat x < 2 ^ 32" using unsigned_less [of x, where ?'a = nat] by simp
  then show ?thesis using strtoint_value [of "[]" "[]" ds rest] ds assms by (simp add: n)
qed

text \<open>The buffer of 12 bytes is enough: in each of the bases that \<open>cprintf\<close> uses a number has at most 11 characters, sign included,
  so \<open>__numout\<close> does not write in front of \<open>out\<close>.\<close>

theorem numout_fits:
  assumes "base \<in> {8, 10, 16, - 10}"
  shows "0 < length (numout x base) \<and> length (numout x base) \<le> NUMLTH"
proof -
  have len: "0 < length (numout_loop b (unat y) []) \<and> length (numout_loop b (unat y) []) \<le> k"
    if b: "1 < b" "b \<le> 16" and k: "2 ^ 32 \<le> b ^ k" for b k and y :: "32 word"
  proof -
    obtain ds where ds: "numout_loop b (unat y) [] = ds @ []" "ds \<noteq> []" "b ^ (length ds - 1) \<le> max 1 (unat y)"
      by (rule numout_loop_digits [OF b, of "unat y" "[]"])
    have "unat y < 2 ^ 32" using unsigned_less [of y, where ?'a = nat] by simp
    then have "b ^ (length ds - 1) < b ^ k" using ds(3) k by (simp add: max_def split: if_splits)
    then have "length ds - 1 < k" using b(1) by (simp add: power_strict_increasing_iff)
    then show ?thesis using ds(1,2) by (cases ds) simp_all
  qed
  have "0 < length (numout_loop 8 (unat y) []) \<and> length (numout_loop 8 (unat y) []) \<le> 11"
    "0 < length (numout_loop 10 (unat y) []) \<and> length (numout_loop 10 (unat y) []) \<le> 10"
    "0 < length (numout_loop 16 (unat y) []) \<and> length (numout_loop 16 (unat y) []) \<le> 8" for y :: "32 word"
    using len [of 8 11 y] len [of 10 10 y] len [of 16 8 y] by simp_all
  from this [of x] this [of "- x"] show ?thesis using assms by (auto simp: numout_def NUMLTH_def)
qed

section \<open>Decimal dates and times\<close>

definition bcd :: "ch list \<Rightarrow> nat" where
  "bcd ds = foldl (\<lambda>v c. v * 16 + (c - 48)) 0 ds"

definition is_digit :: "ch \<Rightarrow> bool" where
  "is_digit c \<longleftrightarrow> 48 \<le> c \<and> c \<le> 57"

lemma bcd_simps [simp]: "bcd [] = 0" "bcd (ds @ [c]) = bcd ds * 16 + (c - 48)"
  by (simp_all add: bcd_def)

lemma ndigit_iff: "ndigit c < 10 \<longleftrightarrow> is_digit c" "ndigit c = 255 \<longleftrightarrow> \<not> is_digit c" "is_digit c \<Longrightarrow> ndigit c = c - 48"
  by (auto simp: ndigit_def is_digit_def)

text \<open>The characters \<open>s\<close> are in memory from \<open>a\<close> on.\<close>

definition at :: "(nat \<Rightarrow> ch) \<Rightarrow> nat \<Rightarrow> ch list \<Rightarrow> bool" where
  "at m a s \<longleftrightarrow> (\<forall>i < length s. m (a + i) = s ! i)"

lemma at_Cons [simp]: "at m a (c # s) \<longleftrightarrow> m a = c \<and> at m (a + 1) s"
  by (auto simp: at_def nth_Cons less_Suc_eq_0_disj split: nat.splits)

lemma at_Nil [simp]: "at m a []"
  by (simp add: at_def)

lemma bcd_mono: "bcd ds \<le> bcd (ds @ es)"
proof (induction es rule: rev_induct)
  case (snoc e es)
  have "bcd (ds @ es @ [e]) = bcd (ds @ es) * 16 + (e - 48)" using bcd_simps(2) [of "ds @ es" e] by simp
  then show ?case using snoc by simp
qed simp

text \<open>The loop takes in the digits \<open>es\<close>, after \<open>ds\<close>, as long as the number before each is below 0999_9999.\<close>

lemma bcd_loop_digits:
  assumes "at m (a + 1) es" "list_all is_digit es" "es \<noteq> [] \<longrightarrow> bcd (butlast (ds @ es)) < 0x09999999"
  shows "bcd_loop m a (of_nat (bcd ds)) False = bcd_loop m (a + length es) (of_nat (bcd (ds @ es))) False"
  using assms
proof (induction es arbitrary: a ds)
  case Nil
  then show ?case by simp
next
  case (Cons e es)
  have e: "m (a + 1) = e" "is_digit e" "at m (a + 1 + 1) es" "list_all is_digit es" using Cons.prems by auto
  have "bcd ds \<le> bcd (butlast (ds @ e # es))" using bcd_mono [of ds "butlast (e # es)"] by (simp add: butlast_append)
  then have v: "bcd ds < 0x09999999" using Cons.prems(3) by simp
  then have "(of_nat (bcd ds) :: 32 word) < 0x09999999" by (simp add: word_less_nat_alt unat_of_nat take_bit_nat_eq_self)
  moreover have "push_bit 4 (of_nat (bcd ds)) + of_nat (ndigit e) = (of_nat (bcd (ds @ [e])) :: 32 word)"
    by (simp add: push_bit_eq_mult ndigit_iff(3) [OF e(2)] mult.commute)
  moreover have "ndigit e \<noteq> 255" "ndigit e < 10" unfolding ndigit_iff(1,2) using e(2) by simp_all
  ultimately have "bcd_loop m a (of_nat (bcd ds)) False = bcd_loop m (a + 1) (of_nat (bcd (ds @ [e]))) False"
    using e(1) by (subst bcd_loop.simps) (simp add: Let_def)
  also have "\<dots> = bcd_loop m (a + 1 + length es) (of_nat (bcd ((ds @ [e]) @ es))) False"
    using Cons.prems(3) by (intro Cons.IH e) auto
  finally show ?case by simp
qed

lemma strtobcd_start:
  assumes "at m a (d # es)" "is_digit d"
  shows "strtobcd m a = map_option (\<lambda>(value, errno, cp). (value, errno, cp - 1 + 1)) (bcd_loop m a (of_nat (bcd [d])) False)"
proof -
  have d: "m a = d" "d \<noteq> 32" "d \<noteq> 9" "d \<noteq> 45" "d \<noteq> 43" "ndigit d < 10" "ndigit d = d - 48"
    using assms ndigit_iff by (auto simp: is_digit_def)
  have "skip_blanks m a = Some a" using d by (subst skip_blanks.simps) simp
  moreover have "bcd [d] = d - 48" using bcd_simps(2) [of "[]" d] by simp
  ultimately show ?thesis using d by (simp add: strtobcd_def) (cases "bcd_loop m a (of_nat (d - 48)) False"; auto)
qed

text \<open>\<open>strtobcd\<close> reads a row of digits as binary coded decimal, one digit in four bits, as long as the number before the last digit
  is below 0999_9999: all numbers of up to seven digits, and those of eight up to 99999989.\<close>

theorem strtobcd_value:
  assumes "at m a ds" "list_all is_digit ds" "ds \<noteq> []" "bcd (butlast ds) < 0x09999999" "\<not> is_digit (m (a + length ds))"
  shows "strtobcd m a = Some (of_nat (bcd ds), False, a + length ds)"
proof -
  obtain d es where ds: "ds = d # es" using assms(3) by (cases ds) auto
  have "bcd_loop m a (of_nat (bcd [d])) False = bcd_loop m (a + length es) (of_nat (bcd ([d] @ es))) False"
    using assms(1,2,4) ds by (intro bcd_loop_digits) auto
  also have "\<dots> = Some (of_nat (bcd ds), False, a + length ds)"
    using assms(5) ds ndigit_iff(2) by (subst bcd_loop.simps) (simp add: Let_def)
  finally show ?thesis using assms(1,2) ds strtobcd_start [of m a d es] by simp
qed

text \<open>A digit that does not fit makes \<open>strtobcd\<close> step over the next character without looking at it. When the digit is the last
  one, as with nine digits, this is the 0 at the end of the string: the conversion goes on in whatever is behind the string, and what it finds there
  decides the value, which is not 0 although \<open>errno\<close> is set.\<close>

theorem strtobcd_runs_past_end:
  assumes "at m a (ds @ [d, 0, c])" "list_all is_digit (ds @ [d])" "length ds = 8" "bcd (butlast ds) < 0x09999999" "0x09999999 \<le> bcd ds"
    "is_digit c" "\<not> is_digit (m (a + 11))"
  shows "strtobcd m a = Some (of_nat (c - 48), True, a + 11)"
proof -
  obtain b es where ds: "ds = b # es" using assms(3) by (cases ds) auto
  have at: "at m (a + 1) es" "m (a + 8) = d" "m (a + 10) = c"
  proof -
    have n: "m (a + i) = (ds @ [d, 0, c]) ! i" if "i < 11" for i using assms(1,3) that by (simp add: at_def)
    show "m (a + 8) = d" "m (a + 10) = c" using n [of 8] n [of 10] assms(3) by (simp_all add: nth_append)
    show "at m (a + 1) es" unfolding at_def
    proof (intro allI impI)
      fix i assume "i < length es"
      then show "m (a + 1 + i) = es ! i" using n [of "Suc i"] assms(3) ds by (simp add: nth_append)
    qed
  qed
  have up: "bcd ds < 2 ^ 32"
  proof -
    have "ds \<noteq> []" using ds by simp
    then have "bcd ds = bcd (butlast ds) * 16 + (last ds - 48)" using bcd_simps(2) [of "butlast ds" "last ds"] by simp
    moreover have "is_digit (last ds)" using assms(2) \<open>ds \<noteq> []\<close> by (simp add: list_all_iff)
    then have "last ds - 48 < 10" by (auto simp: is_digit_def)
    ultimately show ?thesis using assms(4) by simp
  qed
  have "bcd_loop m a (of_nat (bcd [b])) False = bcd_loop m (a + length es) (of_nat (bcd ([b] @ es))) False"
    using assms(2,4) at(1) ds by (intro bcd_loop_digits) auto
  also have "\<dots> = bcd_loop m (a + 7) (of_nat (bcd ds)) False" using assms(3) ds by simp
  also have "\<dots> = bcd_loop m (a + 9) 0 True"
  proof -
    have "\<not> (of_nat (bcd ds) :: 32 word) < 0x09999999"
      using assms(5) up by (simp add: word_less_nat_alt unat_of_nat take_bit_nat_eq_self)
    moreover have "ndigit d \<noteq> 255" using assms(2) ndigit_iff(2) by simp
    ultimately show ?thesis using at(2) by (subst bcd_loop.simps) (simp add: Let_def add.commute)
  qed
  also have "\<dots> = bcd_loop m (a + 10) (of_nat (c - 48)) True"
  proof -
    have z: "((0::32 word) < 0x09999999) = True" by (simp add: word_less_nat_alt del: word_neq_0_conv)
    show ?thesis using at(3) assms(6) ndigit_iff [of c] by (subst bcd_loop.simps) (simp only: Let_def z, simp add: add.commute)
  qed
  also have "\<dots> = Some (of_nat (c - 48), True, a + 11)"
    using assms(7) ndigit_iff(2) by (subst bcd_loop.simps) (simp add: Let_def add.commute)
  finally show ?thesis
    using assms(1,2) ds strtobcd_start [of m a b "es @ [d, 0, c]"] by simp
qed

section \<open>Examples\<close>

theorem strtoint_value_witness: "strtoint [32, 45, 70, 70, 58] = (- 255, False, [58])"
  using strtoint_value [of "[32]" "[45]" "[70, 70]" "[58]"] by (simp add: is_delim_def is_hex_def hexdigit_def peek_def)

theorem hex_print_scan_witness: "strtoint (numout 0xF000 16 @ [58]) = (0xF000, False, [58])"
  by (rule hex_print_scan) (simp add: is_hex_def peek_def hexdigit_def)

theorem numout_fits_witness: "length (numout (- 2147483648) (- 10)) \<le> 11"
  using numout_fits [of "- 10" "- 2147483648"] by (simp add: NUMLTH_def)

definition ex_mem :: "ch list \<Rightarrow> nat \<Rightarrow> ch" where
  "ex_mem s a = (if a < length s then s ! a else 0)"

lemma ex_at: "at (ex_mem s) 0 (take n s)"
  by (simp add: at_def ex_mem_def)

theorem strtobcd_value_witness: "strtobcd (ex_mem [49, 50, 47]) 0 = Some (0x12, False, 2)"
proof -
  have "at (ex_mem [49, 50, 47]) 0 [49, 50]" using ex_at [of "[49, 50, 47]" 2] by simp
  from strtobcd_value [OF this] show ?thesis using bcd_simps(2) [of "[49]" 50] bcd_simps(2) [of "[]" 49] by (simp add: is_digit_def ex_mem_def)
qed

theorem strtobcd_runs_past_end_witness:
  "strtobcd (ex_mem [49, 49, 49, 49, 49, 49, 49, 49, 49, 0, 55]) 0 = Some (7, True, 11)"
proof -
  have a: "at (ex_mem [49, 49, 49, 49, 49, 49, 49, 49, 49, 0, 55]) 0 ([49, 49, 49, 49, 49, 49, 49, 49] @ [49, 0, 55])"
    using ex_at [of "[49, 49, 49, 49, 49, 49, 49, 49, 49, 0, 55]" 11] by simp
  have d: "list_all is_digit ([49, 49, 49, 49, 49, 49, 49, 49] @ [49])" "length [49, 49, 49, 49, 49, 49, 49, 49 :: nat] = 8"
    "bcd (butlast [49, 49, 49, 49, 49, 49, 49, 49]) < 0x09999999" "0x09999999 \<le> bcd [49, 49, 49, 49, 49, 49, 49, 49]"
    "is_digit 55" "\<not> is_digit (ex_mem [49, 49, 49, 49, 49, 49, 49, 49, 49, 0, 55] (0 + 11))"
    by (simp_all add: is_digit_def bcd_def ex_mem_def)
  show ?thesis using strtobcd_runs_past_end [OF a d] by simp
qed

end
