(* ===== verification/Shm.thy ===== *)
theory Shm
  imports Ipc "HOL-Library.Multiset" "HOL-Library.Word"
begin

text \<open>
  System V shared memory: \<open>conf/shm/src/shm1.c\<close>, and the segments under it in \<open>i386/shm0.c\<close>. A segment is a record in a heap, a
  process a list of its \<open>NSHMSEG\<close> references \<open>p_shmsr\<close>. Addresses are 32-bit words. What \<open>kalloc\<close> and \<open>c_alloc\<close> return is an
  argument. The loading of the memory management unit (\<open>shmLoad\<close>, \<open>pdCheck\<close>, \<open>mmuupd\<close>) is left out.
\<close>

section \<open>State\<close>

record shm_cfg =
  SHMMNI :: nat
  SHMMAX :: nat
  NSHMSEG :: nat
  NBPC :: nat
  SHM_PRIVATE :: int

text \<open>The members of \<open>SEG\<close> and \<open>SR\<close> that shared memory uses; \<open>s_berm\<close> is the flag \<open>SRFBERM\<close>, \<open>sr_rodt\<close> is \<open>SRFRODT\<close>.\<close>

record seg =
  s_urefc :: nat
  s_lrefc :: nat
  s_size :: nat
  s_berm :: bool

record sr =
  sr_base :: "32 word"
  sr_size :: nat
  sr_rodt :: bool
  sr_segp :: "nat option"

record shmid_ds =
  shm_perm :: ipc_perm
  shm_dest :: bool
  shm_segsz :: int
  shm_atime :: int
  shm_dtime :: int
  shm_ctime :: int
  shm_cpid :: nat
  shm_lpid :: nat
  shm_nattch :: int

record shms =
  shmids :: "shmid_ds list option"
  shmsegs :: "nat option list"
  seg_heap :: "nat \<Rightarrow> seg option"
  p_shmsr :: "sr list list"
  p_segl :: "sr list list"

definition SHMBASE :: "32 word" where
  "SHMBASE = 0x40000000"

definition SHM_READ :: perms where "SHM_READ = (\<lambda>_. {PREAD})"

definition SHM_WRITE :: perms where "SHM_WRITE = (\<lambda>_. {PWRITE})"

definition no_sr :: sr where
  "no_sr = \<lparr>sr_base = 0, sr_size = 0, sr_rodt = False, sr_segp = None\<rparr>"

abbreviation shm_alloc :: "shmid_ds \<Rightarrow> bool" where
  "shm_alloc d \<equiv> ip_alloc (shm_perm d)"

definition shm_at :: "shms \<Rightarrow> nat \<Rightarrow> shmid_ds option" where
  "shm_at s i = (case shmids s of None \<Rightarrow> None | Some ds \<Rightarrow> if i < length ds then Some (ds ! i) else None)"

definition shm_put :: "nat \<Rightarrow> shmid_ds \<Rightarrow> shms \<Rightarrow> shms" where
  "shm_put i d s = s\<lparr>shmids := map_option (\<lambda>ds. ds[i := d]) (shmids s)\<rparr>"

definition put_seg :: "nat \<Rightarrow> seg option \<Rightarrow> shms \<Rightarrow> shms" where
  "put_seg a g s = s\<lparr>seg_heap := (seg_heap s)(a := g)\<rparr>"

definition put_sr :: "nat \<Rightarrow> nat \<Rightarrow> sr \<Rightarrow> shms \<Rightarrow> shms" where
  "put_sr me i x s = s\<lparr>p_shmsr := (p_shmsr s)[me := (p_shmsr s ! me)[i := x]]\<rparr>"

section \<open>Segments\<close>

text \<open>The size is rounded up to whole clicks; \<open>new\<close> is the record that \<open>kalloc\<close> and \<open>c_alloc\<close> together make, if they can.\<close>

definition shmAlloc :: "shm_cfg \<Rightarrow> nat option \<Rightarrow> int \<Rightarrow> shms \<Rightarrow> nat option \<times> shms" where
  "shmAlloc c new bytes_wanted s =
     (if bytes_wanted > int (SHMMAX c) then (None, s)
      else (case new of None \<Rightarrow> (None, s)
        | Some a \<Rightarrow> (Some a, put_seg a (Some \<lparr>s_urefc = 1, s_lrefc = 1,
            s_size = (nat bytes_wanted + NBPC c - 1) div NBPC c * NBPC c, s_berm = False\<rparr>) s)))"

definition shmFree :: "nat \<Rightarrow> shms \<Rightarrow> shms option" where
  "shmFree a s = (case seg_heap s a of None \<Rightarrow> None
     | Some g \<Rightarrow> if s_urefc g \<noteq> 1 \<or> s_lrefc g \<noteq> 1 then Some s else Some (put_seg a None s))"

definition shmAttach :: "shm_cfg \<Rightarrow> nat \<Rightarrow> nat \<Rightarrow> nat \<Rightarrow> 32 word \<Rightarrow> nat \<Rightarrow> bool \<Rightarrow> shms \<Rightarrow> (bool \<times> shms) option" where
  "shmAttach c me shm_ix numBytes base a shm_readonly s = (case seg_heap s a of None \<Rightarrow> None
     | Some g \<Rightarrow>
         if shm_ix \<ge> NSHMSEG c \<or> numBytes > s_size g then Some (False, s)
         else Some (True, put_seg a (Some (g\<lparr>s_urefc := s_urefc g + 1, s_lrefc := s_lrefc g + 1\<rparr>))
           (put_sr me shm_ix \<lparr>sr_base = base, sr_size = numBytes, sr_rodt = shm_readonly, sr_segp = Some a\<rparr> s)))"

text \<open>\<open>segp\<close> is \<^const>\<open>None\<close> for a NULL pointer, which is read through.\<close>

definition shmAtt :: "shm_cfg \<Rightarrow> nat \<Rightarrow> nat \<Rightarrow> 32 word \<Rightarrow> nat option \<Rightarrow> bool \<Rightarrow> shms \<Rightarrow> (bool \<times> shms) option" where
  "shmAtt c me shm_ix base segp shm_readonly s = do {
     a \<leftarrow> segp;
     g \<leftarrow> seg_heap s a;
     shmAttach c me shm_ix (s_size g) base a shm_readonly s
   }"

primrec find_seg :: "nat \<Rightarrow> nat \<Rightarrow> nat option list \<Rightarrow> nat option" where
  "find_seg a j [] = None"
| "find_seg a j (x # xs) = (if x = Some a then Some j else find_seg a (j + 1) xs)"

definition shmSetDs :: "shm_cfg \<Rightarrow> int \<Rightarrow> nat \<Rightarrow> user \<Rightarrow> shms \<Rightarrow> (user \<times> shms) option" where
  "shmSetDs c now a u s = (case find_seg a 0 (take (SHMMNI c) (shmsegs s)) of
     None \<Rightarrow> Some (set_user_error EINVAL u, s)
   | Some j \<Rightarrow> do {
       g \<leftarrow> seg_heap s a;
       d \<leftarrow> shm_at s j;
       Some (u, shm_put j (d\<lparr>shm_lpid := p_pid u, shm_dtime := now, shm_nattch := int (s_urefc g) - 1\<rparr>) s)
     })"

definition shmDetachP :: "shm_cfg \<Rightarrow> int \<Rightarrow> nat \<Rightarrow> nat \<Rightarrow> user \<Rightarrow> shms \<Rightarrow> (user \<times> shms) option" where
  "shmDetachP c now shm_ix pp u s =
     (if shm_ix \<ge> NSHMSEG c then Some (u, s)
      else do {
        (u, s) \<leftarrow> (case sr_segp (p_shmsr s ! pp ! shm_ix) of None \<Rightarrow> Some (u, s)
          | Some a \<Rightarrow> do {
              g \<leftarrow> seg_heap s a;
              let g = g\<lparr>s_urefc := s_urefc g - 1, s_lrefc := s_lrefc g - 1\<rparr>; s = put_seg a (Some g) s in do {
                (u, s) \<leftarrow> shmSetDs c now a u s;
                s \<leftarrow> (if s_berm g \<and> s_urefc g = 1 \<and> s_lrefc g = 1 then shmFree a s else Some s);
                Some (u, s)
              }
            });
        Some (u, put_sr pp shm_ix no_sr s)
      })"

primrec detach_all :: "shm_cfg \<Rightarrow> int \<Rightarrow> nat list \<Rightarrow> nat \<Rightarrow> user \<Rightarrow> shms \<Rightarrow> (user \<times> shms) option" where
  "detach_all c now [] me u s = Some (u, s)"
| "detach_all c now (i # is) me u s = do { (u, s) \<leftarrow> shmDetachP c now i me u s; detach_all c now is me u s }"

definition shmAllDt :: "shm_cfg \<Rightarrow> int \<Rightarrow> nat \<Rightarrow> user \<Rightarrow> shms \<Rightarrow> (user \<times> shms) option" where
  "shmAllDt c now me u s = detach_all c now [0..<NSHMSEG c] me u s"

text \<open>The child, a process that is new, gets a copy of each reference, which is counted.\<close>

primrec dup_refs :: "sr list \<Rightarrow> (nat \<Rightarrow> seg option) \<Rightarrow> (nat \<Rightarrow> seg option) option" where
  "dup_refs [] h = Some h"
| "dup_refs (x # xs) h = (case sr_segp x of None \<Rightarrow> dup_refs xs h
     | Some a \<Rightarrow> do { g \<leftarrow> h a; dup_refs xs (h(a := Some (g\<lparr>s_urefc := s_urefc g + 1, s_lrefc := s_lrefc g + 1\<rparr>))) })"

definition shmDup :: "nat \<Rightarrow> shms \<Rightarrow> shms option" where
  "shmDup me s = do {
     h \<leftarrow> dup_refs (p_shmsr s ! me) (seg_heap s);
     Some (s\<lparr>seg_heap := h, p_shmsr := p_shmsr s @ [p_shmsr s ! me], p_segl := p_segl s @ [p_segl s ! me]\<rparr>)
   }"

definition accShm :: "nat \<Rightarrow> 32 word \<Rightarrow> 32 word \<Rightarrow> shms \<Rightarrow> sr option" where
  "accShm me base numBytes s = List.find (\<lambda>x. sr_segp x \<noteq> None \<and> base \<ge> sr_base x \<and>
     base + numBytes \<le> sr_base x + of_nat (sr_size x)) (p_shmsr s ! me)"

section \<open>Control\<close>

datatype shm_cmd = Shm_stat bool | Shm_set nat nat perms | Shm_rmid | Shm_lock | Shm_unlock | Shm_other

text \<open>The flag of \<open>Shm_stat\<close> says that the user's buffer can be written; the values of \<open>Shm_set\<close> are those \<open>getuwd\<close> reads.\<close>

definition shm_rmid :: "nat \<Rightarrow> shmid_ds \<Rightarrow> shms \<Rightarrow> shms option" where
  "shm_rmid i d s =
     (let s' = shm_put i (d\<lparr>shm_perm := (shm_perm d)\<lparr>ip_seq := 0, ip_mode := (\<lambda>_. {}), ip_alloc := False\<rparr>, shm_dest := False\<rparr>) s
      in do {
        s \<leftarrow> (if shm_nattch d > 0 then do { a \<leftarrow> shmsegs s ! i; g \<leftarrow> seg_heap s a; Some (put_seg a (Some (g\<lparr>s_berm := True\<rparr>)) s') }
              else (case shmsegs s ! i of None \<Rightarrow> Some s' | Some a \<Rightarrow> shmFree a s'));
        Some (s\<lparr>shmsegs := (shmsegs s)[i := None]\<rparr>)
      })"

definition ushmctl :: "shm_cfg \<Rightarrow> int \<Rightarrow> shm_cmd \<Rightarrow> user \<Rightarrow> shms \<Rightarrow> (int \<times> shmid_ds option \<times> user \<times> shms) option" where
  "ushmctl c shm_id cmd u s =
     (if \<not> (0 \<le> shm_id \<and> shm_id \<le> int (SHMMNI c) - 1) then Some (- 1, None, set_user_error EINVAL u, s)
      else if shmids s = None then Some (- 1, None, set_user_error EINVAL u, s)
      else
        let i = nat shm_id in do {
          d \<leftarrow> shm_at s i;
          let (bad, u) = (if shm_alloc d then (False, u)
                else if \<forall>ok. cmd \<noteq> Shm_stat ok then (True, u)
                else let (b, u) = super u in (\<not> b, u));
          if bad then Some (- 1, None, set_user_error EINVAL u, s)
          else (case cmd of
             Shm_stat ok \<Rightarrow> (let (lack, u) = ipc_lack_perm (shm_perm d) SHM_READ u in
               if lack then Some (- 1, None, u, s) else if \<not> ok then Some (- 1, None, set_user_error EFAULT u, s) else Some (0, Some d, u, s))
           | Shm_set uid gid mode \<Rightarrow> (let (lvl, u) = ipc_cred_match (shm_perm d) u in
               if lvl \<noteq> CRED_OWNER then Some (- 1, None, set_user_error EPERM u, s)
               else Some (0, None, u, shm_put i (d\<lparr>shm_perm := (shm_perm d)\<lparr>ip_uid := uid, ip_gid := gid, ip_mode := mode\<rparr>\<rparr>) s))
           | Shm_rmid \<Rightarrow> (let (lvl, u) = ipc_cred_match (shm_perm d) u in
               if lvl \<noteq> CRED_OWNER then Some (- 1, None, set_user_error EPERM u, s)
               else map_option (\<lambda>s. (0, None, u, s)) (shm_rmid i d s))
           | Shm_lock \<Rightarrow> (let (b, u) = super u in Some (if b then 0 else - 1, None, u, s))
           | Shm_unlock \<Rightarrow> (let (b, u) = super u in Some (if b then 0 else - 1, None, u, s))
           | Shm_other \<Rightarrow> Some (- 1, None, set_user_error EINVAL u, s))
        })"

section \<open>Getting\<close>

text \<open>
  \<open>shminit\<close>: what \<open>kalloc\<close> gives for the two arrays comes as it is found; neither is cleared.
\<close>

definition shminit :: "shmid_ds list option \<Rightarrow> nat option list option \<Rightarrow> shms \<Rightarrow> int \<times> shms" where
  "shminit mem1 mem2 s = (case mem1 of None \<Rightarrow> (- 1, s)
     | Some ds \<Rightarrow> (case mem2 of None \<Rightarrow> (- 1, s) | Some xs \<Rightarrow> (0, s\<lparr>shmids := Some ds, shmsegs := xs\<rparr>)))"

primrec shm_scan :: "shm_cfg \<Rightarrow> int \<Rightarrow> nat \<Rightarrow> (nat \<times> int) option \<Rightarrow> shmid_ds list \<Rightarrow> nat + (nat \<times> int) option" where
  "shm_scan c key i oldest [] = Inr oldest"
| "shm_scan c key i oldest (d # ds) =
     (if \<not> shm_alloc d then
        shm_scan c key (i + 1) (case oldest of None \<Rightarrow> Some (i, shm_ctime d)
          | Some (_, t) \<Rightarrow> if t > shm_ctime d then Some (i, shm_ctime d) else oldest) ds
      else if key = SHM_PRIVATE c \<or> key \<noteq> ip_key (shm_perm d) then shm_scan c key (i + 1) oldest ds
      else Inl i)"

record shm_flags =
  shf_creat :: bool
  shf_excl :: bool
  shf_mode :: perms

definition ushmget :: "shm_cfg \<Rightarrow> int \<Rightarrow> shmid_ds list option \<Rightarrow> nat option list option \<Rightarrow> nat option \<Rightarrow> int \<Rightarrow> int \<Rightarrow> shm_flags \<Rightarrow> user \<Rightarrow> shms \<Rightarrow>
    (int \<times> user \<times> shms) option" where
  "ushmget c now mem1 mem2 new key bytes flg u s =
     (if \<not> (0 \<le> bytes \<and> bytes \<le> int (SHMMAX c)) then Some (- 1, set_user_error EINVAL u, s)
      else
        let (r, s) = (if shmids s = None then shminit mem1 mem2 s else (0, s))
        in if r \<noteq> 0 then Some (- 1, set_user_error ENOSPC u, s)
           else do {
             ds \<leftarrow> shmids s;
             (case shm_scan c key 0 None (take (SHMMNI c) ds) of
                Inl i \<Rightarrow> do {
                  d \<leftarrow> shm_at s i;
                  if shf_creat flg \<and> shf_excl flg then Some (- 1, set_user_error EEXIST u, s)
                  else if shm_segsz d < bytes then Some (- 1, set_user_error EINVAL u, s)
                  else let (lack, u) = ipc_lack_perm (shm_perm d) (shf_mode flg) u in Some (if lack then - 1 else int i, u, s)
                }
              | Inr None \<Rightarrow> Some (- 1, set_user_error ENOSPC u, s)
              | Inr (Some (i, _)) \<Rightarrow>
                  if \<not> shf_creat flg then Some (- 1, set_user_error ENOENT u, s)
                  else (case shmAlloc c new bytes s of
                     (None, s) \<Rightarrow> Some (- 1, set_user_error ENOSPC u, s)
                   | (Some a, s) \<Rightarrow> do {
                       d \<leftarrow> shm_at s i;
                       let p = (ipc_perm_init (shf_mode flg) u (shm_perm d))\<lparr>ip_key := key, ip_seq := i\<rparr>;
                       Some (int i, u, shm_put i (d\<lparr>shm_perm := p, shm_dest := (key = SHM_PRIVATE c), shm_segsz := bytes, shm_atime := 0, shm_dtime := 0,
                         shm_ctime := now, shm_cpid := p_pid u\<rparr>) (s\<lparr>shmsegs := (shmsegs s)[i := Some a]\<rparr>))
                     }))
           })"

section \<open>Attaching\<close>

definition seg_overlap :: "sr \<Rightarrow> 32 word \<Rightarrow> 32 word \<Rightarrow> nat" where
  "seg_overlap srp base len =
     (if sr_segp srp = None then 0
      else let temp = base - sr_base srp in (if temp < of_nat (sr_size srp) then 1 else 0) + (if temp + len \<le> of_nat (sr_size srp) then 2 else 0))"

text \<open>True when the address is refused.\<close>

definition check_request_address :: "nat \<Rightarrow> 32 word \<Rightarrow> 32 word \<Rightarrow> shms \<Rightarrow> bool" where
  "check_request_address me addr len s \<longleftrightarrow> addr > 0x7FFFFFFF \<or> (\<exists>x \<in> set (p_segl s ! me). seg_overlap x addr len \<noteq> 0) \<or>
     (\<exists>x \<in> set (p_shmsr s ! me). seg_overlap x addr len \<noteq> 0)"

primrec find_sr :: "(sr \<Rightarrow> bool) \<Rightarrow> nat \<Rightarrow> sr list \<Rightarrow> nat" where
  "find_sr P i [] = i"
| "find_sr P i (x # xs) = (if P x then i else find_sr P (i + 1) xs)"

text \<open>\<open>rdonly\<close> is \<open>SHM_RDONLY\<close>. Where the code returns without a value, -1 is shown. The times are taken once.\<close>

definition ushmat :: "shm_cfg \<Rightarrow> int \<Rightarrow> nat \<Rightarrow> int \<Rightarrow> 32 word \<Rightarrow> bool \<Rightarrow> user \<Rightarrow> shms \<Rightarrow> (32 word \<times> user \<times> shms) option" where
  "ushmat c now me sys_id shm_addr rdonly u s =
     (if \<not> (0 \<le> sys_id \<and> sys_id \<le> int (SHMMNI c)) then Some (- 1, set_user_error EINVAL u, s)
      else
        let id = nat sys_id in do {
          d \<leftarrow> shm_at s id;
          if int (ip_seq (shm_perm d)) \<noteq> sys_id then Some (- 1, set_user_error EINVAL u, s)
          else
            let (lack, u) = ipc_lack_perm (shm_perm d) (if rdonly then SHM_READ else SHM_WRITE) u in
            if lack then Some (- 1, u, s)
            else
              let seg_id = find_sr (\<lambda>x. sr_segp x = None) 0 (p_shmsr s ! me) in
              if seg_id \<ge> NSHMSEG c then Some (- 1, set_user_error EMFILE u, s)
              else
                let segp = shmsegs s ! id;
                    i = find_sr (\<lambda>x. sr_base x = 0) 0 (p_shmsr s ! me);
                    bad = (if shm_addr = 0 then i \<ge> NSHMSEG c else check_request_address me shm_addr (of_int (shm_segsz d)) s);
                    addr = (if shm_addr = 0 then SHMBASE + of_nat (i * (SHMMAX c + NBPC c)) else shm_addr)
                in if bad then Some (- 1, set_user_error EINVAL u, s)
                   else do {
                     (ok, s) \<leftarrow> shmAtt c me seg_id addr segp False s;
                     if \<not> ok then Some (- 1, set_user_error EINVAL u, s)
                     else do {
                       a \<leftarrow> segp; g \<leftarrow> seg_heap s a;
                       Some (addr, u, shm_put id (d\<lparr>shm_lpid := p_pid u, shm_atime := now, shm_dtime := 0, shm_nattch := int (s_urefc g) - 1\<rparr>) s)
                     }
                   }
        })"

definition ushmdt :: "shm_cfg \<Rightarrow> int \<Rightarrow> nat \<Rightarrow> 32 word \<Rightarrow> user \<Rightarrow> shms \<Rightarrow> (int \<times> user \<times> shms) option" where
  "ushmdt c now me shm_addr u s =
     (let i = find_sr (\<lambda>x. sr_base x = shm_addr) 0 (p_shmsr s ! me)
      in if i < NSHMSEG c then map_option (\<lambda>(u, s). (0, u, s)) (shmDetachP c now i me u s)
         else Some (- 1, set_user_error EINVAL u, s))"

section \<open>The system call\<close>

datatype shm_call = Sh_at int "32 word" bool | Sh_ctl int shm_cmd | Sh_dt "32 word" | Sh_get int int shm_flags | Sh_bad

text \<open>What the surroundings answer during a call: the time, and what \<open>kalloc\<close> and \<open>c_alloc\<close> give.\<close>

record shm_env =
  e_now :: int
  e_mem1 :: "shmid_ds list option"
  e_mem2 :: "nat option list option"
  e_new :: "nat option"

text \<open>The result is a word, as it is in the register; the second component is what \<open>IPC_STAT\<close> copies out. The bad call returns no value; 0 is shown.\<close>

definition ushmsys :: "shm_cfg \<Rightarrow> shm_env \<Rightarrow> nat \<Rightarrow> shm_call \<Rightarrow> user \<Rightarrow> shms \<Rightarrow> (32 word \<times> shmid_ds option \<times> user \<times> shms) option" where
  "ushmsys c e me k u s = (case k of
     Sh_at i addr rdonly \<Rightarrow> map_option (\<lambda>(r, u, s). (r, None, u, s)) (ushmat c (e_now e) me i addr rdonly u s)
   | Sh_ctl i cmd \<Rightarrow> map_option (\<lambda>(r, d, u, s). (of_int r, d, u, s)) (ushmctl c i cmd u s)
   | Sh_dt addr \<Rightarrow> map_option (\<lambda>(r, u, s). (of_int r, None, u, s)) (ushmdt c (e_now e) me addr u s)
   | Sh_get key n flg \<Rightarrow> map_option (\<lambda>(r, u, s). (of_int r, None, u, s)) (ushmget c (e_now e) (e_mem1 e) (e_mem2 e) (e_new e) key n flg u s)
   | Sh_bad \<Rightarrow> Some (0, None, set_user_error EINVAL u, s))"

section \<open>The invariant\<close>

text \<open>How many references the processes have to a segment.\<close>

definition att :: "sr list list \<Rightarrow> nat \<Rightarrow> nat" where
  "att P a = sum_list (map (\<lambda>xs. length (filter (\<lambda>x. sr_segp x = Some a) xs)) P)"

definition refs_ok :: "shm_cfg \<Rightarrow> sr list list \<Rightarrow> (nat \<Rightarrow> seg option) \<Rightarrow> bool" where
  "refs_ok c P h \<longleftrightarrow> (\<forall>xs \<in> set P. length xs = NSHMSEG c \<and> (\<forall>x \<in> set xs. \<forall>a. sr_segp x = Some a \<longrightarrow> h a \<noteq> None))"

definition segs_ok :: "sr list list \<Rightarrow> (nat \<Rightarrow> seg option) \<Rightarrow> nat option list \<Rightarrow> bool" where
  "segs_ok P h L \<longleftrightarrow> (\<forall>a g. h a = Some g \<longrightarrow> s_urefc g = 1 + att P a \<and> s_lrefc g = s_urefc g \<and> (\<not> s_berm g \<longrightarrow> Some a \<in> set L))"

definition slot_ok :: "(nat \<Rightarrow> seg option) \<Rightarrow> shmid_ds \<Rightarrow> nat option \<Rightarrow> bool" where
  "slot_ok h d x \<longleftrightarrow> (shm_alloc d \<longleftrightarrow> x \<noteq> None) \<and>
     (\<forall>a. x = Some a \<longrightarrow> (\<exists>g. h a = Some g \<and> \<not> s_berm g \<and> (s_urefc g > 1 \<longrightarrow> shm_nattch d > 0)))"

definition ids_ok :: "shm_cfg \<Rightarrow> (nat \<Rightarrow> seg option) \<Rightarrow> shmid_ds list option \<Rightarrow> nat option list \<Rightarrow> bool" where
  "ids_ok c h ids L \<longleftrightarrow> (case ids of None \<Rightarrow> \<forall>a. h a = None
     | Some ds \<Rightarrow> length ds = SHMMNI c \<and> length L = SHMMNI c \<and>
         (\<forall>i < SHMMNI c. \<forall>j < SHMMNI c. L ! i = L ! j \<longrightarrow> L ! i \<noteq> None \<longrightarrow> i = j) \<and> (\<forall>j < SHMMNI c. slot_ok h (ds ! j) (L ! j)))"

text \<open>
  No reference dangles; the count of a segment is one more than the references to it; a segment that is not to be removed has an identifier; an
  identifier in use has a segment of its own, and a count of attachments that is not zero while the segment is attached.
\<close>

definition shm_inv :: "shm_cfg \<Rightarrow> shms \<Rightarrow> bool" where
  "shm_inv c s \<longleftrightarrow> refs_ok c (p_shmsr s) (seg_heap s) \<and> segs_ok (p_shmsr s) (seg_heap s) (shmsegs s) \<and> ids_ok c (seg_heap s) (shmids s) (shmsegs s)"

text \<open>The memory for the two arrays is expected to be clear, and a new segment to be none of the present ones.\<close>

definition env_ok :: "shm_cfg \<Rightarrow> shm_env \<Rightarrow> shms \<Rightarrow> bool" where
  "env_ok c e s \<longleftrightarrow> (\<forall>ds. e_mem1 e = Some ds \<longrightarrow> length ds = SHMMNI c \<and> (\<forall>d \<in> set ds. \<not> shm_alloc d)) \<and>
     (\<forall>xs. e_mem2 e = Some xs \<longrightarrow> xs = replicate (SHMMNI c) None) \<and> (\<forall>a. e_new e = Some a \<longrightarrow> seg_heap s a = None)"

inductive shm_step :: "shm_cfg \<Rightarrow> shms \<Rightarrow> shms \<Rightarrow> bool" for c where
  call: "ushmsys c e me k u s = Some (r, d, u', s') \<Longrightarrow> env_ok c e s \<Longrightarrow> me < length (p_shmsr s) \<Longrightarrow> shm_step c s s'"
| exit: "shmAllDt c now me u s = Some (u', s') \<Longrightarrow> me < length (p_shmsr s) \<Longrightarrow> shm_step c s s'"
| fork: "shmDup me s = Some s' \<Longrightarrow> me < length (p_shmsr s) \<Longrightarrow> shm_step c s s'"

definition shm_start :: "shm_cfg \<Rightarrow> sr list \<Rightarrow> shms" where
  "shm_start c segl = \<lparr>shmids = None, shmsegs = [], seg_heap = Map.empty, p_shmsr = [replicate (NSHMSEG c) no_sr], p_segl = [segl]\<rparr>"

section \<open>References\<close>

lemma att_update:
  assumes "me < length P" "i < length (P ! me)"
  shows "att (P[me := (P ! me)[i := x]]) a + (if sr_segp (P ! me ! i) = Some a then 1 else 0) = att P a + (if sr_segp x = Some a then 1 else 0)"
proof -
  have row: "length (filter Q (xs[i := x])) + (if Q (xs ! i) then 1 else 0) = length (filter Q xs) + (if Q x then 1 else 0)"
    if "i < length xs" for Q and xs :: "sr list"
  proof -
    have "length (filter Q xs) = length (filter Q (take i xs @ xs ! i # drop (Suc i) xs))"
      using that by (simp add: id_take_nth_drop [symmetric])
    then show ?thesis
      using that by (simp add: upd_conv_take_nth_drop)
  qed
  let ?n = "\<lambda>xs. length (filter (\<lambda>x. sr_segp x = Some a) xs)"
  have "att P a = sum_list (map ?n (take me P @ P ! me # drop (Suc me) P))"
    using assms(1) by (simp add: att_def id_take_nth_drop [symmetric])
  then show ?thesis
    using assms(1) row [OF assms(2), of "\<lambda>x. sr_segp x = Some a"] by (simp add: att_def upd_conv_take_nth_drop)
qed

lemma att_append: "att (P @ [xs]) a = att P a + length (filter (\<lambda>x. sr_segp x = Some a) xs)"
  by (simp add: att_def)

lemma att_none: "att P a = 0 \<longleftrightarrow> (\<forall>xs \<in> set P. \<forall>x \<in> set xs. sr_segp x \<noteq> Some a)"
  by (auto simp: att_def filter_empty_conv)

lemma no_sr_segp [simp]: "sr_segp no_sr = None"
  by (simp add: no_sr_def)

lemma att_clear:
  assumes "me < length P" "i < length (P ! me)" "sr_segp (P ! me ! i) = Some a"
  shows "att (P[me := (P ! me)[i := no_sr]]) a + 1 = att P a" "b \<noteq> a \<Longrightarrow> att (P[me := (P ! me)[i := no_sr]]) b = att P b"
  using att_update [OF assms(1,2), of no_sr a] att_update [OF assms(1,2), of no_sr b] assms(3) by simp_all

lemma att_set:
  assumes "me < length P" "i < length (P ! me)" "sr_segp (P ! me ! i) = None" "sr_segp x = Some a"
  shows "att (P[me := (P ! me)[i := x]]) a = att P a + 1" "b \<noteq> a \<Longrightarrow> att (P[me := (P ! me)[i := x]]) b = att P b"
  using att_update [OF assms(1,2), of x a] att_update [OF assms(1,2), of x b] assms(3,4) by simp_all

lemma refs_ok_free: "refs_ok c P h \<Longrightarrow> h a = None \<Longrightarrow> att P a = 0"
  by (fastforce simp: refs_ok_def att_none)

lemma refs_ok_len: "refs_ok c P h \<Longrightarrow> me < length P \<Longrightarrow> length (P ! me) = NSHMSEG c"
  by (auto simp: refs_ok_def)

lemma refs_ok_ref: "refs_ok c P h \<Longrightarrow> me < length P \<Longrightarrow> i < length (P ! me) \<Longrightarrow> sr_segp (P ! me ! i) = Some a \<Longrightarrow> h a \<noteq> None"
  unfolding refs_ok_def by (meson nth_mem)

lemma refs_ok_put:
  assumes "refs_ok c P h" "me < length P" "\<forall>a. sr_segp x = Some a \<longrightarrow> h' a \<noteq> None"
    and "\<And>a. h' a = None \<Longrightarrow> h a \<noteq> None \<Longrightarrow> att (P[me := (P ! me)[i := x]]) a = 0"
  shows "refs_ok c (P[me := (P ! me)[i := x]]) h'"
proof -
  have row: "length xs = NSHMSEG c \<and> (\<forall>y \<in> set xs. y = x \<or> (\<forall>a. sr_segp y = Some a \<longrightarrow> h a \<noteq> None))"
    if "xs \<in> set (P[me := (P ! me)[i := x]])" for xs
  proof -
    have "xs \<in> set P \<or> xs = (P ! me)[i := x]"
      using that set_update_subset_insert by fastforce
    moreover have "P ! me \<in> set P" using assms(2) by simp
    moreover have "y = x \<or> y \<in> set (P ! me)" if "y \<in> set ((P ! me)[i := x])" for y
      using that set_update_subset_insert by fastforce
    ultimately show ?thesis
      using assms(1) unfolding refs_ok_def by (metis length_list_update)
  qed
  have "h' a \<noteq> None" if "xs \<in> set (P[me := (P ! me)[i := x]])" "y \<in> set xs" "sr_segp y = Some a" for xs y a
  proof
    assume h': "h' a = None"
    then have "y \<noteq> x" using that(3) assms(3) by blast
    then have "h a \<noteq> None" using row [OF that(1)] that(2,3) by blast
    then have "att (P[me := (P ! me)[i := x]]) a = 0" by (rule assms(4) [OF h'])
    then show False using that att_none by blast
  qed
  then show ?thesis
    using row unfolding refs_ok_def by blast
qed

lemma find_sr_less:
  assumes "find_sr Q k xs < k + length xs"
  shows "k \<le> find_sr Q k xs \<and> Q (xs ! (find_sr Q k xs - k))"
  using assms
proof (induction xs arbitrary: k)
  case (Cons x xs)
  show ?case
  proof (cases "Q x")
    case False
    then have "Suc k \<le> find_sr Q (Suc k) xs \<and> Q (xs ! (find_sr Q (Suc k) xs - Suc k))"
      using Cons.IH [of "Suc k"] Cons.prems by simp
    then show ?thesis
      using False by (simp add: nth_Cons' Suc_le_eq)
  qed simp
qed simp

lemma find_seg_Some: "find_seg a k xs = Some j \<Longrightarrow> k \<le> j \<and> j < k + length xs \<and> xs ! (j - k) = Some a"
proof (induction xs arbitrary: k)
  case (Cons x xs)
  then show ?case
  proof (cases "x = Some a")
    case False
    then show ?thesis
      using Cons.IH [of "Suc k"] Cons.prems by (simp add: nth_Cons' Suc_le_eq)
  qed simp
qed simp

lemma find_seg_None: "find_seg a k xs = None \<longleftrightarrow> Some a \<notin> set xs"
  by (induction xs arbitrary: k) auto

section \<open>One segment changes\<close>

lemma segs_ok_upd:
  assumes "segs_ok P h L" "\<And>b. b \<noteq> a \<Longrightarrow> att P' b = att P b"
    and "\<And>g. v = Some g \<Longrightarrow> s_urefc g = 1 + att P' a \<and> s_lrefc g = s_urefc g \<and> (\<not> s_berm g \<longrightarrow> Some a \<in> set L')"
    and "\<And>b. b \<noteq> a \<Longrightarrow> Some b \<in> set L \<Longrightarrow> Some b \<in> set L'"
  shows "segs_ok P' (h(a := v)) L'"
  using assms by (simp add: segs_ok_def)

lemma slot_ok_upd: "slot_ok h d x \<Longrightarrow> x \<noteq> Some a \<Longrightarrow> slot_ok (h(a := v)) d x"
  by (auto simp: slot_ok_def)

lemma ids_ok_upd:
  assumes "ids_ok c h (Some ds) L" "i < SHMMNI c" "slot_ok (h(a := v)) d' x'" "x' = None \<or> x' = Some a"
    and other: "\<And>j. j < SHMMNI c \<Longrightarrow> j \<noteq> i \<Longrightarrow> L ! j \<noteq> Some a"
  shows "ids_ok c (h(a := v)) (Some (ds[i := d'])) (L[i := x'])"
proof -
  have len: "length ds = SHMMNI c" "length L = SHMMNI c" and old: "\<And>j. j < SHMMNI c \<Longrightarrow> slot_ok h (ds ! j) (L ! j)"
    and dist: "\<And>j k. j < SHMMNI c \<Longrightarrow> k < SHMMNI c \<Longrightarrow> L ! j = L ! k \<Longrightarrow> L ! j \<noteq> None \<Longrightarrow> j = k"
    using assms(1) by (auto simp: ids_ok_def)
  have "slot_ok (h(a := v)) (ds[i := d'] ! j) (L[i := x'] ! j)" if "j < SHMMNI c" for j
    using that assms(3) len old [OF that] other [OF that] by (cases "j = i") (simp_all add: slot_ok_upd)
  moreover have "j = k" if "j < SHMMNI c" "k < SHMMNI c" "L[i := x'] ! j = L[i := x'] ! k" "L[i := x'] ! j \<noteq> None" for j k
    using that len dist [OF that(1,2)] other [OF that(1)] other [OF that(2)] assms(4) by (cases "j = i"; cases "k = i") auto
  ultimately show ?thesis
    using len by (simp add: ids_ok_def)
qed

lemma ids_ok_unlisted:
  assumes "ids_ok c h ids L" "h a \<noteq> None" "Some a \<notin> set L"
  shows "ids_ok c (h(a := v)) ids L"
proof (cases ids)
  case None
  then show ?thesis using assms(1,2) by (simp add: ids_ok_def)
next
  case (Some ds)
  then have len: "length L = SHMMNI c" and old: "\<forall>j < SHMMNI c. slot_ok h (ds ! j) (L ! j)"
    using assms(1) by (auto simp: ids_ok_def)
  have "\<forall>j < SHMMNI c. L ! j \<noteq> Some a"
    using assms(3) len by (metis nth_mem)
  then have "\<forall>j < SHMMNI c. slot_ok (h(a := v)) (ds ! j) (L ! j)"
    using old slot_ok_upd by blast
  then show ?thesis
    using assms(1) Some by (simp add: ids_ok_def)
qed

lemma ids_ok_distinct:
  assumes "ids_ok c h (Some ds) L" "i < SHMMNI c" "j < SHMMNI c" "L ! i = Some a" "j \<noteq> i"
  shows "L ! j \<noteq> Some a"
proof
  assume "L ! j = Some a"
  then have "L ! j = L ! i" "L ! j \<noteq> None" using assms(4) by simp_all
  then have "j = i"
    using assms(1,2,3) unfolding ids_ok_def by simp
  then show False using assms(5) by simp
qed

lemma ids_ok_listed:
  assumes "ids_ok c h ids L" "h a \<noteq> None" "Some a \<in> set L"
  obtains ds i where "ids = Some ds" "length ds = SHMMNI c" "length L = SHMMNI c" "i < SHMMNI c" "L ! i = Some a" "slot_ok h (ds ! i) (L ! i)"
    "\<And>j. j < SHMMNI c \<Longrightarrow> j \<noteq> i \<Longrightarrow> L ! j \<noteq> Some a"
proof -
  obtain ds where ids: "ids = Some ds"
    using assms(1,2) by (cases ids) (auto simp: ids_ok_def)
  obtain i where i: "i < SHMMNI c" "L ! i = Some a"
    using assms(1,3) ids by (auto simp: ids_ok_def in_set_conv_nth)
  moreover have "L ! j \<noteq> Some a" if "j < SHMMNI c" "j \<noteq> i" for j
    by (rule ids_ok_distinct [OF assms(1) [unfolded ids] i(1) that(1) i(2) that(2)])
  moreover have "length ds = SHMMNI c" "length L = SHMMNI c" "slot_ok h (ds ! i) (L ! i)"
    using ids assms(1) i(1) by (simp_all add: ids_ok_def)
  ultimately show ?thesis
    using that ids by blast
qed

lemma shm_inv_seg:
  assumes "shm_inv c s" "seg_heap s a = Some g"
  shows "s_urefc g = 1 + att (p_shmsr s) a" "s_lrefc g = s_urefc g" "\<not> s_berm g \<Longrightarrow> Some a \<in> set (shmsegs s)"
  using assms by (auto simp: shm_inv_def segs_ok_def)

lemma shm_inv_len: "shm_inv c s \<Longrightarrow> me < length (p_shmsr s) \<Longrightarrow> length (p_shmsr s ! me) = NSHMSEG c"
  unfolding shm_inv_def by (blast intro: refs_ok_len)

lemma shm_inv_slot:
  assumes "shm_inv c s" "shmids s = Some ds" "i < SHMMNI c"
  shows "slot_ok (seg_heap s) (ds ! i) (shmsegs s ! i)" "length ds = SHMMNI c" "length (shmsegs s) = SHMMNI c"
  using assms by (auto simp: shm_inv_def ids_ok_def)

section \<open>Detaching\<close>

lemma put_sel [simp]:
  "shmids (put_seg a v s) = shmids s" "shmsegs (put_seg a v s) = shmsegs s" "seg_heap (put_seg a v s) = (seg_heap s)(a := v)"
  "p_shmsr (put_seg a v s) = p_shmsr s" "p_segl (put_seg a v s) = p_segl s"
  "shmids (put_sr me i x s) = shmids s" "shmsegs (put_sr me i x s) = shmsegs s" "seg_heap (put_sr me i x s) = seg_heap s"
  "p_shmsr (put_sr me i x s) = (p_shmsr s)[me := (p_shmsr s ! me)[i := x]]" "p_segl (put_sr me i x s) = p_segl s"
  "shmids (shm_put j d s) = map_option (\<lambda>ds. ds[j := d]) (shmids s)" "shmsegs (shm_put j d s) = shmsegs s" "seg_heap (shm_put j d s) = seg_heap s"
  "p_shmsr (shm_put j d s) = p_shmsr s" "p_segl (shm_put j d s) = p_segl s"
  by (auto simp: put_seg_def put_sr_def shm_put_def)

text \<open>What a detach leaves, by whether the segment still has an identifier.\<close>

lemma detach_listed:
  assumes inv: "shm_inv c s" and i: "i < NSHMSEG c" and pp: "pp < length (p_shmsr s)"
    and ref: "sr_segp (p_shmsr s ! pp ! i) = Some a" and g: "seg_heap s a = Some g" and L: "Some a \<in> set (shmsegs s)"
  shows "\<exists>s'. shmDetachP c now i pp u s = Some (u, s') \<and> shm_inv c s' \<and> p_shmsr s' = (p_shmsr s)[pp := (p_shmsr s ! pp)[i := no_sr]]"
proof -
  let ?P = "(p_shmsr s)[pp := (p_shmsr s ! pp)[i := no_sr]]"
  let ?g = "g\<lparr>s_urefc := s_urefc g - 1, s_lrefc := s_lrefc g - 1\<rparr>"
  have refs: "refs_ok c (p_shmsr s) (seg_heap s)" and segs: "segs_ok (p_shmsr s) (seg_heap s) (shmsegs s)"
    and ids: "ids_ok c (seg_heap s) (shmids s) (shmsegs s)"
    using inv by (auto simp: shm_inv_def)
  have len: "length (p_shmsr s ! pp) = NSHMSEG c"
    by (rule refs_ok_len [OF refs pp])
  obtain ds j where ds: "shmids s = Some ds" "length ds = SHMMNI c" "length (shmsegs s) = SHMMNI c" "j < SHMMNI c" "shmsegs s ! j = Some a"
      "slot_ok (seg_heap s) (ds ! j) (shmsegs s ! j)" "\<And>k. k < SHMMNI c \<Longrightarrow> k \<noteq> j \<Longrightarrow> shmsegs s ! k \<noteq> Some a"
    using ids_ok_listed [OF ids _ L] g by blast
  have berm: "\<not> s_berm g" using ds(5,6) g by (auto simp: slot_ok_def)
  obtain j' where "find_seg a 0 (shmsegs s) = Some j'"
    using L find_seg_None [of a 0 "shmsegs s"] by fastforce
  moreover from this have "j' = j"
    using find_seg_Some [of a 0 "shmsegs s" j'] ds(3,7) by fastforce
  ultimately have find: "find_seg a 0 (take (SHMMNI c) (shmsegs s)) = Some j"
    using ds(3) by simp
  let ?d = "(ds ! j)\<lparr>shm_lpid := p_pid u, shm_dtime := now, shm_nattch := int (s_urefc ?g) - 1\<rparr>"
  let ?s = "put_sr pp i no_sr (shm_put j ?d (put_seg a (Some ?g) s))"
  have "shmDetachP c now i pp u s = Some (u, ?s)"
    using i ref g find berm ds(1,2,4) by (simp add: shmDetachP_def shmSetDs_def shm_at_def Let_def put_seg_def shm_put_def)
  moreover have "shm_inv c ?s"
  proof -
    have at: "att ?P a + 1 = att (p_shmsr s) a" "\<And>b. b \<noteq> a \<Longrightarrow> att ?P b = att (p_shmsr s) b"
      using att_clear [OF pp _ ref] i len by simp_all
    have "refs_ok c ?P ((seg_heap s)(a := Some ?g))"
      by (rule refs_ok_put [OF refs pp]) (auto split: if_splits)
    moreover have "segs_ok ?P ((seg_heap s)(a := Some ?g)) (shmsegs s)"
      using segs_ok_upd [OF segs at(2), of a "Some ?g"] at(1) shm_inv_seg [OF inv g] L by auto
    moreover have "slot_ok ((seg_heap s)(a := Some ?g)) ?d (Some a)"
      using ds(5,6) g berm by (auto simp: slot_ok_def)
    from ids_ok_upd [OF ids [unfolded ds(1)] ds(4) this disjI2 [OF refl] ds(7)]
    have "ids_ok c ((seg_heap s)(a := Some ?g)) (Some (ds[j := ?d])) (shmsegs s)"
      using ds(5) by (metis list_update_id)
    ultimately show ?thesis
      using ds(1) by (simp add: shm_inv_def)
  qed
  ultimately show ?thesis by auto
qed

lemma detach_unlisted:
  assumes inv: "shm_inv c s" and i: "i < NSHMSEG c" and pp: "pp < length (p_shmsr s)"
    and ref: "sr_segp (p_shmsr s ! pp ! i) = Some a" and g: "seg_heap s a = Some g" and L: "Some a \<notin> set (shmsegs s)"
  shows "\<exists>s'. shmDetachP c now i pp u s = Some (set_user_error EINVAL u, s') \<and> shm_inv c s' \<and>
     p_shmsr s' = (p_shmsr s)[pp := (p_shmsr s ! pp)[i := no_sr]]"
proof -
  let ?P = "(p_shmsr s)[pp := (p_shmsr s ! pp)[i := no_sr]]"
  let ?g = "g\<lparr>s_urefc := s_urefc g - 1, s_lrefc := s_lrefc g - 1\<rparr>"
  let ?v = "if s_urefc g - 1 = 1 then None else Some ?g"
  let ?s = "put_sr pp i no_sr (put_seg a ?v s)"
  have refs: "refs_ok c (p_shmsr s) (seg_heap s)" and segs: "segs_ok (p_shmsr s) (seg_heap s) (shmsegs s)"
    and ids: "ids_ok c (seg_heap s) (shmids s) (shmsegs s)"
    using inv by (auto simp: shm_inv_def)
  have len: "length (p_shmsr s ! pp) = NSHMSEG c"
    by (rule refs_ok_len [OF refs pp])
  have at: "att ?P a + 1 = att (p_shmsr s) a" "\<And>b. b \<noteq> a \<Longrightarrow> att ?P b = att (p_shmsr s) b"
    using att_clear [OF pp _ ref] i len by simp_all
  have cnt: "s_urefc g = 1 + att (p_shmsr s) a" "s_lrefc g = s_urefc g" "s_berm g"
    using shm_inv_seg [OF inv g] L by auto
  have "find_seg a 0 (take (SHMMNI c) (shmsegs s)) = None"
    using L find_seg_None set_take_subset by (metis subsetD)
  then have "shmDetachP c now i pp u s = Some (set_user_error EINVAL u, ?s)"
    using i ref g cnt by (simp add: shmDetachP_def shmSetDs_def shmFree_def Let_def put_seg_def)
  moreover have "shm_inv c ?s"
  proof -
    have "refs_ok c ?P ((seg_heap s)(a := ?v))"
      by (rule refs_ok_put [OF refs pp]) (use at(1) cnt(1) in \<open>auto split: if_splits\<close>)
    moreover have "segs_ok ?P ((seg_heap s)(a := ?v)) (shmsegs s)"
      using segs_ok_upd [OF segs at(2), of a ?v] at(1) cnt by (auto split: if_splits)
    moreover have "ids_ok c ((seg_heap s)(a := ?v)) (shmids s) (shmsegs s)"
      by (rule ids_ok_unlisted [OF ids _ L]) (simp add: g)
    ultimately show ?thesis
      by (simp add: shm_inv_def)
  qed
  ultimately show ?thesis by auto
qed

lemma detach_free:
  assumes inv: "shm_inv c s" and i: "i < NSHMSEG c" and pp: "pp < length (p_shmsr s)"
    and ref: "sr_segp (p_shmsr s ! pp ! i) = None"
  shows "\<exists>s'. shmDetachP c now i pp u s = Some (u, s') \<and> shm_inv c s' \<and> p_shmsr s' = (p_shmsr s)[pp := (p_shmsr s ! pp)[i := no_sr]]"
proof -
  have refs: "refs_ok c (p_shmsr s) (seg_heap s)" and segs: "segs_ok (p_shmsr s) (seg_heap s) (shmsegs s)"
    using inv by (auto simp: shm_inv_def)
  let ?P = "(p_shmsr s)[pp := (p_shmsr s ! pp)[i := no_sr]]"
  have "att ?P b = att (p_shmsr s) b" for b
    using att_update [OF pp, of i no_sr b] i refs_ok_len [OF refs pp] ref by simp
  then have "segs_ok ?P (seg_heap s) (shmsegs s)"
    using segs by (simp add: segs_ok_def)
  moreover have "refs_ok c ?P (seg_heap s)"
    by (rule refs_ok_put [OF refs pp]) simp_all
  ultimately show ?thesis
    using inv i ref by (simp add: shmDetachP_def shm_inv_def)
qed

lemma shmDetachP_inv:
  assumes inv: "shm_inv c s" and pp: "pp < length (p_shmsr s)"
  shows "\<exists>u' s'. shmDetachP c now i pp u s = Some (u', s') \<and> shm_inv c s' \<and> length (p_shmsr s') = length (p_shmsr s) \<and>
     (i < NSHMSEG c \<longrightarrow> p_shmsr s' = (p_shmsr s)[pp := (p_shmsr s ! pp)[i := no_sr]])"
proof (cases "i < NSHMSEG c")
  case True
  show ?thesis
  proof (cases "sr_segp (p_shmsr s ! pp ! i)")
    case None
    then show ?thesis using detach_free [OF inv True pp] by fastforce
  next
    case (Some a)
    have refs: "refs_ok c (p_shmsr s) (seg_heap s)" using inv by (simp add: shm_inv_def)
    obtain g where "seg_heap s a = Some g"
      using refs_ok_ref [OF refs pp _ Some] refs_ok_len [OF refs pp] True by auto
    then show ?thesis
      using detach_listed [OF inv True pp Some] detach_unlisted [OF inv True pp Some] by (cases "Some a \<in> set (shmsegs s)") fastforce+
  qed
qed (simp add: shmDetachP_def inv)

lemma detach_all_inv:
  assumes "shm_inv c s" "me < length (p_shmsr s)"
  shows "\<exists>u' s'. detach_all c now xs me u s = Some (u', s') \<and> shm_inv c s' \<and> length (p_shmsr s') = length (p_shmsr s)"
  using assms
proof (induction xs arbitrary: u s)
  case (Cons i xs)
  from shmDetachP_inv [OF Cons.prems] obtain u1 s1 where 1: "shmDetachP c now i me u s = Some (u1, s1)" "shm_inv c s1"
      "length (p_shmsr s1) = length (p_shmsr s)"
    by blast
  from Cons.IH [OF 1(2), of u1] 1 Cons.prems(2) show ?case by simp
qed simp

section \<open>Forking\<close>

abbreviation refs_to :: "nat \<Rightarrow> sr list \<Rightarrow> nat" where
  "refs_to a xs \<equiv> length (filter (\<lambda>x. sr_segp x = Some a) xs)"

lemma dup_refs_counts:
  assumes "\<forall>x \<in> set xs. \<forall>a. sr_segp x = Some a \<longrightarrow> h a \<noteq> None"
  shows "dup_refs xs h = Some (\<lambda>a. map_option (\<lambda>g. g\<lparr>s_urefc := s_urefc g + refs_to a xs, s_lrefc := s_lrefc g + refs_to a xs\<rparr>) (h a))"
  using assms
proof (induction xs arbitrary: h)
  case Nil
  show ?case by (simp add: option.map_ident)
next
  case (Cons x xs)
  show ?case
  proof (cases "sr_segp x")
    case None
    then show ?thesis using Cons by simp
  next
    case (Some a)
    then obtain g where g: "h a = Some g" using Cons.prems by auto
    let ?h = "h(a := Some (g\<lparr>s_urefc := s_urefc g + 1, s_lrefc := s_lrefc g + 1\<rparr>))"
    have "dup_refs xs ?h = Some (\<lambda>a. map_option (\<lambda>g. g\<lparr>s_urefc := s_urefc g + refs_to a xs, s_lrefc := s_lrefc g + refs_to a xs\<rparr>) (?h a))"
      by (rule Cons.IH) (use Cons.prems in auto)
    then show ?thesis using Some g by (simp add: fun_eq_iff)
  qed
qed

lemma shmDup_inv:
  assumes inv: "shm_inv c s" and me: "me < length (p_shmsr s)"
  shows "\<exists>s'. shmDup me s = Some s' \<and> shm_inv c s' \<and> p_shmsr s' = p_shmsr s @ [p_shmsr s ! me]"
proof -
  let ?xs = "p_shmsr s ! me"
  let ?h = "\<lambda>a. map_option (\<lambda>g. g\<lparr>s_urefc := s_urefc g + refs_to a ?xs, s_lrefc := s_lrefc g + refs_to a ?xs\<rparr>) (seg_heap s a)"
  let ?P = "p_shmsr s @ [?xs]"
  have refs: "refs_ok c (p_shmsr s) (seg_heap s)" and segs: "segs_ok (p_shmsr s) (seg_heap s) (shmsegs s)"
    and ids: "ids_ok c (seg_heap s) (shmids s) (shmsegs s)"
    using inv by (auto simp: shm_inv_def)
  have xs: "?xs \<in> set (p_shmsr s)" using me by simp
  then have dup: "dup_refs ?xs (seg_heap s) = Some ?h"
    using refs by (intro dup_refs_counts) (auto simp: refs_ok_def)
  have "refs_ok c ?P ?h"
    using refs xs by (simp add: refs_ok_def)
  moreover have "segs_ok ?P ?h (shmsegs s)"
    using segs by (auto simp: segs_ok_def att_append)
  moreover have "ids_ok c ?h (shmids s) (shmsegs s)"
  proof (cases "shmids s")
    case None
    then show ?thesis using ids by (simp add: ids_ok_def)
  next
    case (Some ds)
    have "slot_ok ?h (ds ! j) (shmsegs s ! j)" if j: "j < SHMMNI c" for j
    proof (cases "shmsegs s ! j")
      case None
      then show ?thesis using shm_inv_slot(1) [OF inv Some j] by (simp add: slot_ok_def)
    next
      case (Some a)
      with shm_inv_slot(1) [OF inv \<open>shmids s = Some ds\<close> j] obtain g where g: "seg_heap s a = Some g" "\<not> s_berm g"
          "s_urefc g > 1 \<longrightarrow> shm_nattch (ds ! j) > 0" "shm_alloc (ds ! j)"
        by (auto simp: slot_ok_def)
      have "refs_to a ?xs > 0 \<Longrightarrow> att (p_shmsr s) a \<noteq> 0"
        using xs by (auto simp: att_none filter_empty_conv)
      then have "s_urefc g + refs_to a ?xs > 1 \<longrightarrow> s_urefc g > 1"
        using shm_inv_seg(1) [OF inv g(1)] by auto
      then show ?thesis using Some g by (auto simp: slot_ok_def)
    qed
    then show ?thesis using ids Some by (simp add: ids_ok_def)
  qed
  ultimately show ?thesis
    using dup by (simp add: shmDup_def shm_inv_def)
qed

section \<open>Control, getting and attaching keep the invariant\<close>

lemma refs_ok_upd:
  assumes "refs_ok c P h" "v = None \<Longrightarrow> att P a = 0"
  shows "refs_ok c P (h(a := v))"
  using assms by (fastforce simp: refs_ok_def att_none)

lemma ushmdt_inv:
  assumes "shm_inv c s" "me < length (p_shmsr s)"
  shows "\<exists>r u' s'. ushmdt c now me addr u s = Some (r, u', s') \<and> shm_inv c s'"
proof -
  let ?i = "find_sr (\<lambda>x. sr_base x = addr) 0 (p_shmsr s ! me)"
  obtain u' s' where "shmDetachP c now ?i me u s = Some (u', s')" "shm_inv c s'"
    using shmDetachP_inv [OF assms] by blast
  then show ?thesis
    using assms(1) by (simp add: ushmdt_def Let_def)
qed

lemma shm_rmid_inv:
  assumes inv: "shm_inv c s" and ds: "shmids s = Some ds" and i: "i < SHMMNI c" and alloc: "shm_alloc (ds ! i)"
  shows "\<exists>s'. shm_rmid i (ds ! i) s = Some s' \<and> shm_inv c s'"
proof -
  have refs: "refs_ok c (p_shmsr s) (seg_heap s)" and segs: "segs_ok (p_shmsr s) (seg_heap s) (shmsegs s)"
    and ids: "ids_ok c (seg_heap s) (Some ds) (shmsegs s)"
    using inv ds by (auto simp: shm_inv_def)
  obtain a g where a: "shmsegs s ! i = Some a" and g: "seg_heap s a = Some g" and berm: "\<not> s_berm g"
      and att: "s_urefc g > 1 \<longrightarrow> shm_nattch (ds ! i) > 0"
    using shm_inv_slot(1) [OF inv ds i] alloc by (auto simp: slot_ok_def)
  note cnt = shm_inv_seg [OF inv g]
  let ?d = "(ds ! i)\<lparr>shm_perm := (shm_perm (ds ! i))\<lparr>ip_seq := 0, ip_mode := (\<lambda>_. {}), ip_alloc := False\<rparr>, shm_dest := False\<rparr>"
  let ?v = "if shm_nattch (ds ! i) > 0 then Some (g\<lparr>s_berm := True\<rparr>) else None"
  let ?s = "(put_seg a ?v (shm_put i ?d s))\<lparr>shmsegs := (shmsegs s)[i := None]\<rparr>"
  have other: "shmsegs s ! j \<noteq> Some a" if "j < SHMMNI c" "j \<noteq> i" for j
    by (rule ids_ok_distinct [OF ids i that(1) a that(2)])
  have "s_urefc g = 1" if "\<not> shm_nattch (ds ! i) > 0"
    using att cnt(1) that by linarith
  then have "shm_rmid i (ds ! i) s = Some ?s"
    using a g cnt(2) by (simp add: shm_rmid_def shmFree_def Let_def put_seg_def shm_put_def)
  moreover have "refs_ok c (p_shmsr s) ((seg_heap s)(a := ?v))"
    by (rule refs_ok_upd [OF refs]) (use att cnt(1) in \<open>auto split: if_splits\<close>)
  moreover have "Some b \<in> set ((shmsegs s)[i := None])" if b: "Some b \<in> set (shmsegs s)" "b \<noteq> a" for b
  proof -
    obtain k where k: "k < length (shmsegs s)" "shmsegs s ! k = Some b"
      using b(1) by (auto simp: in_set_conv_nth)
    with a b(2) have "(shmsegs s)[i := None] ! k = Some b" by (cases "k = i") auto
    then show ?thesis using k(1) by (metis length_list_update nth_mem)
  qed
  then have "segs_ok (p_shmsr s) ((seg_heap s)(a := ?v)) ((shmsegs s)[i := None])"
    by (intro segs_ok_upd [OF segs]) (use cnt in \<open>auto split: if_splits\<close>)
  moreover have "ids_ok c ((seg_heap s)(a := ?v)) (Some (ds[i := ?d])) ((shmsegs s)[i := None])"
    by (rule ids_ok_upd [OF ids i _ _ other]) (auto simp: slot_ok_def)
  ultimately show ?thesis
    using ds by (simp add: shm_inv_def)
qed

lemma shm_perm_inv:
  assumes inv: "shm_inv c s" and ds: "shmids s = Some ds" and i: "i < SHMMNI c"
    and d: "shm_alloc d \<longleftrightarrow> shm_alloc (ds ! i)" "shm_nattch d = shm_nattch (ds ! i)"
  shows "shm_inv c (shm_put i d s)"
proof -
  have "slot_ok (seg_heap s) (ds[i := d] ! j) (shmsegs s ! j)" if "j < SHMMNI c" for j
    using shm_inv_slot [OF inv ds that] d that by (cases "j = i") (simp_all add: slot_ok_def)
  then show ?thesis
    using inv ds by (simp add: shm_inv_def ids_ok_def)
qed

lemma ushmctl_inv:
  assumes inv: "shm_inv c s"
  shows "\<exists>r d u' s'. ushmctl c i cmd u s = Some (r, d, u', s') \<and> shm_inv c s'"
proof (cases "0 \<le> i \<and> i \<le> int (SHMMNI c) - 1 \<and> shmids s \<noteq> None")
  case False
  then show ?thesis using inv by (auto simp: ushmctl_def)
next
  case True
  then obtain ds where ds: "shmids s = Some ds" by auto
  let ?i = "nat i"
  have i: "?i < SHMMNI c" using True by linarith
  have at: "shm_at s ?i = Some (ds ! ?i)"
    using shm_inv_slot(2) [OF inv ds i] i ds by (simp add: shm_at_def)
  have range: "\<not> \<not> (0 \<le> i \<and> i \<le> int (SHMMNI c) - 1)" "shmids s \<noteq> None" using True by auto
  let ?bad = "if shm_alloc (ds ! ?i) then (False, u) else if \<forall>ok. cmd \<noteq> Shm_stat ok then (True, u) else let (b, u) = super u in (\<not> b, u)"
  obtain bad v where bad: "?bad = (bad, v)" by fastforce
  show ?thesis
  proof (cases bad)
    case True
    then show ?thesis using inv bad range at by (simp add: ushmctl_def Let_def)
  next
    case False
    then have alloc: "shm_alloc (ds ! ?i)" if "\<forall>ok. cmd \<noteq> Shm_stat ok"
      using bad that by (auto split: if_splits)
    show ?thesis
    proof (cases cmd)
      case (Shm_stat ok)
      then show ?thesis
        using inv bad range at False by (simp add: ushmctl_def Let_def split_beta)
    next
      case (Shm_set uid gid mode)
      have "shm_inv c (shm_put ?i ((ds ! ?i)\<lparr>shm_perm := (shm_perm (ds ! ?i))\<lparr>ip_uid := uid, ip_gid := gid, ip_mode := mode\<rparr>\<rparr>) s)"
        by (rule shm_perm_inv [OF inv ds i]) simp_all
      then show ?thesis
        using inv bad range at False Shm_set by (simp add: ushmctl_def Let_def split_beta)
    next
      case Shm_rmid
      with alloc have "shm_alloc (ds ! ?i)" by simp
      from shm_rmid_inv [OF inv ds i this] obtain s' where "shm_rmid ?i (ds ! ?i) s = Some s'" "shm_inv c s'" by blast
      then show ?thesis
        using inv bad range at False Shm_rmid by (simp add: ushmctl_def Let_def split_beta)
    qed (use inv bad range at False in \<open>simp_all add: ushmctl_def Let_def split_beta\<close>)
  qed
qed

lemma shm_scan_found:
  "shm_scan c key k oldest ds = Inl i \<Longrightarrow> k \<le> i \<and> i < k + length ds \<and> shm_alloc (ds ! (i - k)) \<and> ip_key (shm_perm (ds ! (i - k))) = key"
proof (induction ds arbitrary: k oldest)
  case (Cons d ds)
  show ?case
  proof (cases "shm_alloc d \<and> \<not> (key = SHM_PRIVATE c \<or> key \<noteq> ip_key (shm_perm d))")
    case False
    then obtain o' where "shm_scan c key (Suc k) o' ds = Inl i"
      using Cons.prems by (auto split: if_splits)
    from Cons.IH [OF this] show ?thesis by (simp add: nth_Cons' Suc_le_eq)
  qed (use Cons.prems in auto)
qed simp

lemma shm_scan_free:
  "shm_scan c key k oldest ds = Inr (Some (i, t)) \<Longrightarrow> oldest = Some (i, t) \<or> k \<le> i \<and> i < k + length ds \<and> \<not> shm_alloc (ds ! (i - k))"
proof (induction ds arbitrary: k oldest)
  case (Cons d ds)
  obtain o' where o': "shm_scan c key (Suc k) o' ds = Inr (Some (i, t))" "o' = oldest \<or> \<not> shm_alloc d \<and> o' = Some (k, shm_ctime d)"
    using Cons.prems by (cases oldest) (auto split: if_splits)
  from Cons.IH [OF o'(1)] o'(2) show ?case by (auto simp: nth_Cons' Suc_le_eq)
qed simp

lemma shm_new_inv:
  assumes inv: "shm_inv c s" and ds: "shmids s = Some ds" and i: "i < SHMMNI c" and free: "\<not> shm_alloc (ds ! i)"
    and a: "seg_heap s a = None" and d: "shm_alloc d"
  shows "shm_inv c (shm_put i d ((put_seg a (Some \<lparr>s_urefc = 1, s_lrefc = 1, s_size = n, s_berm = False\<rparr>) s)\<lparr>shmsegs := (shmsegs s)[i := Some a]\<rparr>))"
proof -
  let ?g = "\<lparr>s_urefc = 1, s_lrefc = 1, s_size = n, s_berm = False\<rparr>"
  have refs: "refs_ok c (p_shmsr s) (seg_heap s)" and segs: "segs_ok (p_shmsr s) (seg_heap s) (shmsegs s)"
    and ids: "ids_ok c (seg_heap s) (Some ds) (shmsegs s)"
    using inv ds by (auto simp: shm_inv_def)
  have L: "shmsegs s ! i = None" "length (shmsegs s) = SHMMNI c"
    using shm_inv_slot [OF inv ds i] free by (auto simp: slot_ok_def)
  have unlisted: "shmsegs s ! j \<noteq> Some a" if "j < SHMMNI c" for j
    using shm_inv_slot(1) [OF inv ds that] a by (auto simp: slot_ok_def)
  have "refs_ok c (p_shmsr s) ((seg_heap s)(a := Some ?g))"
    by (rule refs_ok_upd [OF refs]) simp
  moreover have "Some b \<in> set ((shmsegs s)[i := Some a])" if b: "Some b \<in> set (shmsegs s)" for b
  proof -
    obtain k where k: "k < length (shmsegs s)" "shmsegs s ! k = Some b"
      using b by (auto simp: in_set_conv_nth)
    with L(1) have "(shmsegs s)[i := Some a] ! k = Some b" by (cases "k = i") auto
    then show ?thesis using k(1) by (metis length_list_update nth_mem)
  qed
  moreover have "Some a \<in> set ((shmsegs s)[i := Some a])"
    using i L(2) by (simp add: set_update_memI)
  ultimately have "segs_ok (p_shmsr s) ((seg_heap s)(a := Some ?g)) ((shmsegs s)[i := Some a])"
    by (intro segs_ok_upd [OF segs]) (use refs_ok_free [OF refs a] in auto)
  moreover have "ids_ok c ((seg_heap s)(a := Some ?g)) (Some (ds[i := d])) ((shmsegs s)[i := Some a])"
    by (rule ids_ok_upd [OF ids i _ _ unlisted]) (auto simp: slot_ok_def d)
  moreover have "refs_ok c (p_shmsr s) ((seg_heap s)(a := Some ?g))"
    by (rule refs_ok_upd [OF refs]) simp
  ultimately show ?thesis
    using ds by (simp add: shm_inv_def)
qed

lemma shminit_inv:
  assumes "shm_inv c s" "shmids s = None" "\<And>ds. mem1 = Some ds \<Longrightarrow> length ds = SHMMNI c \<and> (\<forall>d \<in> set ds. \<not> shm_alloc d)"
    "\<And>xs. mem2 = Some xs \<Longrightarrow> xs = replicate (SHMMNI c) None"
  shows "shm_inv c (snd (shminit mem1 mem2 s))" "fst (shminit mem1 mem2 s) = 0 \<Longrightarrow> shmids (snd (shminit mem1 mem2 s)) \<noteq> None"
    "seg_heap (snd (shminit mem1 mem2 s)) = seg_heap s" "p_shmsr (snd (shminit mem1 mem2 s)) = p_shmsr s"
proof -
  have "\<forall>a. seg_heap s a = None"
    using assms(1,2) by (simp add: shm_inv_def ids_ok_def)
  then show "shm_inv c (snd (shminit mem1 mem2 s))"
    using assms by (auto simp: shm_inv_def shminit_def ids_ok_def segs_ok_def slot_ok_def split: option.splits)
qed (auto simp: shminit_def split: option.splits)

lemma ushmget_inv:
  assumes inv: "shm_inv c s" and mem1: "\<And>ds. mem1 = Some ds \<Longrightarrow> length ds = SHMMNI c \<and> (\<forall>d \<in> set ds. \<not> shm_alloc d)"
    and mem2: "\<And>xs. mem2 = Some xs \<Longrightarrow> xs = replicate (SHMMNI c) None" and new: "\<And>a. new = Some a \<Longrightarrow> seg_heap s a = None"
  shows "\<exists>r u' s'. ushmget c now mem1 mem2 new key n flg u s = Some (r, u', s') \<and> shm_inv c s' \<and> p_shmsr s' = p_shmsr s"
proof (cases "0 \<le> n \<and> n \<le> int (SHMMAX c)")
  case False
  then show ?thesis using inv by (auto simp: ushmget_def)
next
  case n: True
  obtain r s1 where 1: "(if shmids s = None then shminit mem1 mem2 s else (0, s)) = (r, s1)" by fastforce
  have s1': "shm_inv c s1 \<and> (r = 0 \<longrightarrow> shmids s1 \<noteq> None) \<and> seg_heap s1 = seg_heap s \<and> p_shmsr s1 = p_shmsr s"
  proof (cases "shmids s")
    case None
    then have i: "shminit mem1 mem2 s = (r, s1)" using 1 by simp
    show ?thesis
      using shminit_inv [where ?mem1.0 = mem1 and ?mem2.0 = mem2, OF inv None mem1 mem2] unfolding i by simp
  next
    case (Some x)
    then show ?thesis using 1 inv by auto
  qed
  have s1: "shm_inv c s1" "r = 0 \<Longrightarrow> shmids s1 \<noteq> None" "seg_heap s1 = seg_heap s" "p_shmsr s1 = p_shmsr s"
    using s1' by blast+
  show ?thesis
  proof (cases "r = 0")
    case False
    then show ?thesis using n 1 s1 by (simp add: ushmget_def Let_def)
  next
    case True
    then obtain ds where ds: "shmids s1 = Some ds" using s1(2) by auto
    have len: "length ds = SHMMNI c"
      using s1(1) ds by (simp add: shm_inv_def ids_ok_def)
    have unf: "ushmget c now mem1 mem2 new key n flg u s = Some X" if
      "(case shm_scan c key 0 None ds of
                Inl i \<Rightarrow> do {
                  d \<leftarrow> shm_at s1 i;
                  if shf_creat flg \<and> shf_excl flg then Some (- 1, set_user_error EEXIST u, s1)
                  else if shm_segsz d < n then Some (- 1, set_user_error EINVAL u, s1)
                  else let (lack, u) = ipc_lack_perm (shm_perm d) (shf_mode flg) u in Some (if lack then - 1 else int i, u, s1)
                }
              | Inr None \<Rightarrow> Some (- 1, set_user_error ENOSPC u, s1)
              | Inr (Some (i, _)) \<Rightarrow>
                  if \<not> shf_creat flg then Some (- 1, set_user_error ENOENT u, s1)
                  else (case shmAlloc c new n s1 of
                     (None, s) \<Rightarrow> Some (- 1, set_user_error ENOSPC u, s)
                   | (Some a, s) \<Rightarrow> do {
                       d \<leftarrow> shm_at s i;
                       let p = (ipc_perm_init (shf_mode flg) u (shm_perm d))\<lparr>ip_key := key, ip_seq := i\<rparr>;
                       Some (int i, u, shm_put i (d\<lparr>shm_perm := p, shm_dest := (key = SHM_PRIVATE c), shm_segsz := n, shm_atime := 0, shm_dtime := 0,
                         shm_ctime := now, shm_cpid := p_pid u\<rparr>) (s\<lparr>shmsegs := (shmsegs s)[i := Some a]\<rparr>))
                     })) = Some X" for X
      using that n 1 True ds len by (simp add: ushmget_def Let_def)
    consider (found) i where "shm_scan c key 0 None ds = Inl i" | (full) "shm_scan c key 0 None ds = Inr None"
      | (free) i t where "shm_scan c key 0 None ds = Inr (Some (i, t))"
      by (metis old.sum.exhaust option.exhaust surj_pair)
    then show ?thesis
    proof cases
      case found
      then have "shm_at s1 i = Some (ds ! i)"
        using shm_scan_found [OF found] ds by (simp add: shm_at_def)
      with found s1 show ?thesis
        by (cases "shf_creat flg"; cases "shf_excl flg"; cases "shm_segsz (ds ! i) < n") (simp_all add: unf split_beta)
    next
      case full
      then show ?thesis using s1 unf by simp
    next
      case free
      then have i: "i < SHMMNI c" "\<not> shm_alloc (ds ! i)"
        using shm_scan_free [OF free] len by auto
      show ?thesis
      proof (cases "shf_creat flg")
        case False
        then show ?thesis using free s1 unf by simp
      next
        case creat: True
        show ?thesis
        proof (cases new)
          case None
          then show ?thesis using free s1 unf creat n by (simp add: shmAlloc_def)
        next
          case (Some a)
          let ?g = "\<lparr>s_urefc = 1, s_lrefc = 1, s_size = (nat n + NBPC c - 1) div NBPC c * NBPC c, s_berm = False\<rparr>"
          let ?d = "(ds ! i)\<lparr>shm_perm := (ipc_perm_init (shf_mode flg) u (shm_perm (ds ! i)))\<lparr>ip_key := key, ip_seq := i\<rparr>,
            shm_dest := (key = SHM_PRIVATE c), shm_segsz := n, shm_atime := 0, shm_dtime := 0, shm_ctime := now, shm_cpid := p_pid u\<rparr>"
          let ?s = "shm_put i ?d ((put_seg a (Some ?g) s1)\<lparr>shmsegs := (shmsegs s1)[i := Some a]\<rparr>)"
          have "shm_inv c ?s"
            by (rule shm_new_inv [OF s1(1) ds i]) (use new [OF Some] s1(3) in \<open>simp_all add: ipc_perm_init_def\<close>)
          moreover have "shm_at (put_seg a (Some ?g) s1) i = Some (ds ! i)"
            using ds i len by (simp add: shm_at_def)
          then have "ushmget c now mem1 mem2 new key n flg u s = Some (int i, u, ?s)"
            using free creat n Some by (intro unf) (simp add: shmAlloc_def)
          ultimately show ?thesis using s1 by simp
        qed
      qed
    qed
  qed
qed

text \<open>An attach that comes so far makes one more reference to a segment that has an identifier.\<close>

lemma shm_attach_inv:
  assumes inv: "shm_inv c s" and ds: "shmids s = Some ds" and i: "i < SHMMNI c" and me: "me < length (p_shmsr s)"
    and k: "k < NSHMSEG c" "sr_segp (p_shmsr s ! me ! k) = None" and a: "shmsegs s ! i = Some a" and g: "seg_heap s a = Some g"
    and x: "sr_segp x = Some a" and d: "shm_alloc d" "shm_nattch d = int (s_urefc g)"
  shows "shm_inv c (shm_put i d (put_seg a (Some (g\<lparr>s_urefc := s_urefc g + 1, s_lrefc := s_lrefc g + 1\<rparr>)) (put_sr me k x s)))"
proof -
  let ?g = "g\<lparr>s_urefc := s_urefc g + 1, s_lrefc := s_lrefc g + 1\<rparr>"
  let ?P = "(p_shmsr s)[me := (p_shmsr s ! me)[k := x]]"
  have refs: "refs_ok c (p_shmsr s) (seg_heap s)" and segs: "segs_ok (p_shmsr s) (seg_heap s) (shmsegs s)"
    and ids: "ids_ok c (seg_heap s) (Some ds) (shmsegs s)"
    using inv ds by (auto simp: shm_inv_def)
  note cnt = shm_inv_seg [OF inv g]
  have at: "att ?P a = att (p_shmsr s) a + 1" "\<And>b. b \<noteq> a \<Longrightarrow> att ?P b = att (p_shmsr s) b"
    using att_set [OF me _ k(2) x] k(1) refs_ok_len [OF refs me] by simp_all
  have berm: "\<not> s_berm g"
    using shm_inv_slot(1) [OF inv ds i] a g by (auto simp: slot_ok_def)
  have "refs_ok c ?P ((seg_heap s)(a := Some ?g))"
    by (rule refs_ok_put [OF refs me]) (auto simp: x split: if_splits)
  moreover have "segs_ok ?P ((seg_heap s)(a := Some ?g)) (shmsegs s)"
    by (rule segs_ok_upd [OF segs at(2)]) (use cnt at(1) in auto)
  moreover have "ids_ok c ((seg_heap s)(a := Some ?g)) (Some (ds[i := d])) ((shmsegs s)[i := Some a])"
    by (rule ids_ok_upd [OF ids i _ _ ids_ok_distinct [OF ids i _ a]]) (use cnt(1) berm d in \<open>auto simp: slot_ok_def\<close>)
  then have "ids_ok c ((seg_heap s)(a := Some ?g)) (Some (ds[i := d])) (shmsegs s)"
    using a by (metis list_update_id)
  ultimately show ?thesis
    using ds by (simp add: shm_inv_def)
qed

text \<open>What \<open>shmat\<close> needs, and does not check itself: the identifiers exist, and the one that is asked for is in use.\<close>

definition at_ok :: "shm_cfg \<Rightarrow> int \<Rightarrow> shms \<Rightarrow> bool" where
  "at_ok c i s \<longleftrightarrow> 0 \<le> i \<and> i \<le> int (SHMMNI c) \<longrightarrow> (\<exists>d. shm_at s (nat i) = Some d \<and> shm_alloc d)"

definition attached :: "shm_cfg \<Rightarrow> nat \<Rightarrow> int \<Rightarrow> shms \<Rightarrow> shms \<Rightarrow> bool" where
  "attached c me i s s' \<longleftrightarrow> (\<exists>k x b g d. s' = shm_put (nat i) d (put_seg b (Some g) (put_sr me k x s)) \<and> nat i < length (shmsegs s) \<and>
     shmsegs s ! nat i = Some b \<and> sr_segp x = Some b \<and> k < NSHMSEG c)"

lemma ushmat_inv:
  assumes inv: "shm_inv c s" and me: "me < length (p_shmsr s)" and ok: "at_ok c i s"
  shows "\<exists>r u' s'. ushmat c now me i addr rdonly u s = Some (r, u', s') \<and> shm_inv c s' \<and> (s' = s \<or> attached c me i s s')"
proof (cases "0 \<le> i \<and> i \<le> int (SHMMNI c)")
  case False
  then show ?thesis using inv by (auto simp: ushmat_def)
next
  case range: True
  let ?i = "nat i"
  obtain d where d: "shm_at s ?i = Some d" "shm_alloc d"
    using ok range by (auto simp: at_ok_def)
  then obtain ds where ds: "shmids s = Some ds" "?i < length ds" "d = ds ! ?i"
    by (auto simp: shm_at_def split: option.splits if_splits)
  have i: "?i < SHMMNI c"
    using inv ds by (simp add: shm_inv_def ids_ok_def)
  have refs: "refs_ok c (p_shmsr s) (seg_heap s)" using inv by (simp add: shm_inv_def)
  obtain a g where a: "shmsegs s ! ?i = Some a" and g: "seg_heap s a = Some g"
    using shm_inv_slot(1) [OF inv ds(1) i] d(2) ds(3) by (auto simp: slot_ok_def)
  obtain lack v where lack: "ipc_lack_perm (shm_perm d) (if rdonly then SHM_READ else SHM_WRITE) u = (lack, v)" by fastforce
  let ?k = "find_sr (\<lambda>x. sr_segp x = None) 0 (p_shmsr s ! me)"
  let ?n = "find_sr (\<lambda>x. sr_base x = 0) 0 (p_shmsr s ! me)"
  let ?bad = "if addr = 0 then ?n \<ge> NSHMSEG c else check_request_address me addr (of_int (shm_segsz d)) s"
  let ?addr = "if addr = 0 then SHMBASE + of_nat (?n * (SHMMAX c + NBPC c)) else addr"
  consider "int (ip_seq (shm_perm d)) \<noteq> i" | "int (ip_seq (shm_perm d)) = i" lack | "int (ip_seq (shm_perm d)) = i" "\<not> lack" "?k \<ge> NSHMSEG c"
    | "int (ip_seq (shm_perm d)) = i" "\<not> lack" "?k < NSHMSEG c" ?bad | "int (ip_seq (shm_perm d)) = i" "\<not> lack" "?k < NSHMSEG c" "\<not> ?bad"
    using not_le_imp_less by blast
  then show ?thesis
  proof cases
    case 5
    let ?x = "\<lparr>sr_base = ?addr, sr_size = s_size g, sr_rodt = False, sr_segp = Some a\<rparr>"
    let ?g = "g\<lparr>s_urefc := s_urefc g + 1, s_lrefc := s_lrefc g + 1\<rparr>"
    let ?d = "d\<lparr>shm_lpid := p_pid v, shm_atime := now, shm_dtime := 0, shm_nattch := int (s_urefc ?g) - 1\<rparr>"
    have "sr_segp (p_shmsr s ! me ! ?k) = None"
      using find_sr_less [of "\<lambda>x. sr_segp x = None" 0 "p_shmsr s ! me"] 5(3) refs_ok_len [OF refs me] by simp
    from shm_attach_inv [OF inv ds(1) i me 5(3) this a g, of ?x ?d]
    have "shm_inv c (shm_put ?i ?d (put_seg a (Some ?g) (put_sr me ?k ?x s)))"
      using d(2) by simp
    moreover have "ushmat c now me i addr rdonly u s = Some (?addr, v, shm_put ?i ?d (put_seg a (Some ?g) (put_sr me ?k ?x s)))"
      using range d lack 5 a g by (simp add: ushmat_def shmAtt_def shmAttach_def Let_def)
    moreover have "attached c me i s (shm_put ?i ?d (put_seg a (Some ?g) (put_sr me ?k ?x s)))"
      unfolding attached_def using a 5(3) i shm_inv_slot(3) [OF inv ds(1) i] by fastforce
    ultimately show ?thesis by blast
  qed (use inv range d lack in \<open>simp_all add: ushmat_def Let_def\<close>)
qed

section \<open>Properties\<close>

lemma ushmsys_inv:
  assumes inv: "shm_inv c s" and env: "env_ok c e s" and me: "me < length (p_shmsr s)" and ok: "\<And>i addr rdonly. k = Sh_at i addr rdonly \<Longrightarrow> at_ok c i s"
  shows "\<exists>r d u' s'. ushmsys c e me k u s = Some (r, d, u', s') \<and> shm_inv c s'"
proof (cases k)
  case (Sh_at i addr rdonly)
  from ushmat_inv [OF inv me ok [OF this], of "e_now e" addr rdonly u] show ?thesis
    using Sh_at by (auto simp: ushmsys_def)
next
  case (Sh_ctl i cmd)
  from ushmctl_inv [OF inv, of i cmd u] show ?thesis
    using Sh_ctl by (auto simp: ushmsys_def)
next
  case (Sh_dt addr)
  from ushmdt_inv [OF inv me, of "e_now e" addr u] show ?thesis
    using Sh_dt by (auto simp: ushmsys_def)
next
  case (Sh_get key n flg)
  have "\<exists>r u' s'. ushmget c (e_now e) (e_mem1 e) (e_mem2 e) (e_new e) key n flg u s = Some (r, u', s') \<and> shm_inv c s' \<and> p_shmsr s' = p_shmsr s"
    by (rule ushmget_inv [OF inv]) (use env in \<open>auto simp: env_ok_def\<close>)
  then show ?thesis
    using Sh_get by (auto simp: ushmsys_def)
qed (use inv in \<open>simp add: ushmsys_def\<close>)

text \<open>A call of \<open>shmat\<close> for an identifier that is not in use does nothing, if it returns.\<close>

lemma ushmat_unused:
  assumes inv: "shm_inv c s" and ok: "\<not> at_ok c i s" and ret: "ushmat c now me i addr rdonly u s = Some (r, u', s')"
  shows "s' = s"
proof -
  have range: "0 \<le> i \<and> i \<le> int (SHMMNI c)" using ok by (auto simp: at_ok_def)
  obtain d where d: "shm_at s (nat i) = Some d"
    using range ret by (cases "shm_at s (nat i)") (simp_all add: ushmat_def Let_def)
  then have "\<not> shm_alloc d" using ok by (auto simp: at_ok_def)
  moreover obtain ds where ds: "shmids s = Some ds" "nat i < length ds" "d = ds ! nat i"
    using d by (auto simp: shm_at_def split: option.splits if_splits)
  moreover from this have "nat i < SHMMNI c"
    using inv by (simp add: shm_inv_def ids_ok_def)
  ultimately have "shmsegs s ! nat i = None"
    using shm_inv_slot(1) [OF inv ds(1)] by (auto simp: slot_ok_def)
  then show ?thesis
    using range d ret by (auto simp: ushmat_def shmAtt_def Let_def split: if_splits prod.splits)
qed

lemma shm_step_inv:
  assumes "shm_step c s s'" "shm_inv c s"
  shows "shm_inv c s'"
  using assms
proof (induction)
  case (call e me k u s r d u' s')
  show ?case
  proof (cases "\<forall>i addr rdonly. k = Sh_at i addr rdonly \<longrightarrow> at_ok c i s")
    case True
    with ushmsys_inv [OF call.prems call.hyps(2,3), of k u] call.hyps(1) show ?thesis by auto
  next
    case False
    then obtain i addr rdonly where k: "k = Sh_at i addr rdonly" "\<not> at_ok c i s" by auto
    then obtain r' where "ushmat c (e_now e) me i addr rdonly u s = Some (r', u', s')"
      using call.hyps(1) by (auto simp: ushmsys_def)
    from ushmat_unused [OF call.prems k(2) this] call.prems show ?thesis by simp
  qed
next
  case (exit now me u s u' s')
  with detach_all_inv [of c s me now "[0..<NSHMSEG c]" u] show ?case by (auto simp: shmAllDt_def)
next
  case (fork me s s')
  with shmDup_inv [of c s me] show ?case by auto
qed

lemma shm_start_inv: "shm_inv c (shm_start c segl)"
  by (simp add: shm_inv_def shm_start_def refs_ok_def segs_ok_def ids_ok_def)

lemma shm_reach_inv: "(shm_step c)\<^sup>*\<^sup>* (shm_start c segl) s \<Longrightarrow> shm_inv c s"
  by (induction rule: rtranclp_induct) (auto simp: shm_start_inv shm_step_inv)

text \<open>C37: In every state that system calls, exits and forks lead to, no reference of a process dangles, each segment counts its references
  exactly, and every segment that is not marked for removal belongs to the identifier in use that names it, and only to it. In each such state every
  call, exit and fork returns, \<open>shmat\<close> provided that its identifier is in use. All calls are made with memory as \<open>env_ok\<close> asks for: the two arrays that \<open>shminit\<close>
  gets from \<open>kalloc\<close> come cleared, with no identifier in use and no segment, although neither \<open>shminit\<close> nor \<open>kalloc\<close> clears them; and a new segment
  is memory that no other segment has.\<close>

theorem shm_calls_keep:
  assumes "(shm_step c)\<^sup>*\<^sup>* (shm_start c segl) s" "me < length (p_shmsr s)" "env_ok c e s"
  shows "shm_inv c s \<and> shmAllDt c now me u s \<noteq> None \<and> shmDup me s \<noteq> None \<and>
    (\<forall>k. (case k of Sh_at i addr rdonly \<Rightarrow> at_ok c i s | _ \<Rightarrow> True) \<longrightarrow> ushmsys c e me k u s \<noteq> None)"
proof (intro conjI allI impI)
  show inv: "shm_inv c s" by (rule shm_reach_inv [OF assms(1)])
  show "shmAllDt c now me u s \<noteq> None"
    using detach_all_inv [OF inv assms(2), of now "[0..<NSHMSEG c]" u] by (auto simp: shmAllDt_def)
  show "shmDup me s \<noteq> None"
    using shmDup_inv [OF inv assms(2)] by auto
  show "ushmsys c e me k u s \<noteq> None" if "case k of Sh_at i addr rdonly \<Rightarrow> at_ok c i s | _ \<Rightarrow> True" for k
    using ushmsys_inv [OF inv assms(3,2), of k u] that by fastforce
qed

subsection \<open>A read-only attach\<close>

lemma find_sr_bound: "x \<in> set xs \<Longrightarrow> Q x \<Longrightarrow> find_sr Q k xs < k + length xs"
  by (induction xs arbitrary: k) (fastforce intro: less_le_trans)+

text \<open>An attach with \<open>SHM_RDONLY\<close> asks for read permission only, and then maps the whole segment for writing as well: the reference
  it makes is not marked read-only.\<close>

theorem shmat_rdonly_writable:
  assumes inv: "shm_inv c s" and me: "me < length (p_shmsr s)" and ds: "shmids s = Some ds" and i: "i < SHMMNI c" "shm_alloc (ds ! i)"
    and seq: "ip_seq (shm_perm (ds ! i)) = i" and read: "\<not> fst (ipc_lack_perm (shm_perm (ds ! i)) SHM_READ u)" and free: "no_sr \<in> set (p_shmsr s ! me)"
  shows "\<exists>r u' s' k a g. ushmat c now me (int i) 0 True u s = Some (r, u', s') \<and> shmsegs s ! i = Some a \<and> seg_heap s a = Some g \<and>
    p_shmsr s' ! me ! k = \<lparr>sr_base = r, sr_size = s_size g, sr_rodt = False, sr_segp = Some a\<rparr>"
proof -
  let ?k = "find_sr (\<lambda>x. sr_segp x = None) 0 (p_shmsr s ! me)"
  let ?n = "find_sr (\<lambda>x. sr_base x = 0) 0 (p_shmsr s ! me)"
  let ?addr = "SHMBASE + of_nat (?n * (SHMMAX c + NBPC c)) :: 32 word"
  have refs: "refs_ok c (p_shmsr s) (seg_heap s)" using inv by (simp add: shm_inv_def)
  have len: "length (p_shmsr s ! me) = NSHMSEG c" by (rule refs_ok_len [OF refs me])
  have k: "?k < NSHMSEG c"
    using find_sr_bound [OF free, of "\<lambda>x. sr_segp x = None" 0] len by simp
  have n: "?n < NSHMSEG c"
    using find_sr_bound [OF free, of "\<lambda>x. sr_base x = 0" 0] len by (simp add: no_sr_def)
  obtain a g where a: "shmsegs s ! i = Some a" and g: "seg_heap s a = Some g"
    using shm_inv_slot(1) [OF inv ds i(1)] i(2) by (auto simp: slot_ok_def)
  have at: "shm_at s (nat (int i)) = Some (ds ! i)"
    using shm_inv_slot(2) [OF inv ds i(1)] i(1) ds by (simp add: shm_at_def)
  obtain v where lack: "ipc_lack_perm (shm_perm (ds ! i)) SHM_READ u = (False, v)"
    using read by (metis prod.collapse)
  let ?x = "\<lparr>sr_base = ?addr, sr_size = s_size g, sr_rodt = False, sr_segp = Some a\<rparr>"
  let ?g = "g\<lparr>s_urefc := s_urefc g + 1, s_lrefc := s_lrefc g + 1\<rparr>"
  let ?d = "(ds ! i)\<lparr>shm_lpid := p_pid v, shm_atime := now, shm_dtime := 0, shm_nattch := int (s_urefc ?g) - 1\<rparr>"
  let ?s = "shm_put i ?d (put_seg a (Some ?g) (put_sr me ?k ?x s))"
  have "ushmat c now me (int i) 0 True u s = Some (?addr, v, ?s)"
    using i(1) at seq lack k n a g by (simp add: ushmat_def shmAtt_def shmAttach_def Let_def)
  moreover have "p_shmsr ?s ! me ! ?k = ?x"
    using me k len by simp
  ultimately show ?thesis
    using a g by blast
qed

subsection \<open>An identifier used again\<close>

text \<open>A segment that no process refers to and no identifier names.\<close>

definition orphan :: "nat \<Rightarrow> shms \<Rightarrow> bool" where
  "orphan a s \<longleftrightarrow> seg_heap s a \<noteq> None \<and> att (p_shmsr s) a = 0 \<and> Some a \<notin> set (shmsegs s)"

lemma orphan_ref: "orphan a s \<Longrightarrow> me < length (p_shmsr s) \<Longrightarrow> i < length (p_shmsr s ! me) \<Longrightarrow> sr_segp (p_shmsr s ! me ! i) \<noteq> Some a"
  unfolding orphan_def att_none by (meson nth_mem)

lemma orphan_put_sr:
  assumes "orphan a s" "me < length (p_shmsr s)" "i < length (p_shmsr s ! me)" "sr_segp x \<noteq> Some a"
  shows "orphan a (put_sr me i x s)"
  using att_update [OF assms(2,3), of x a] orphan_ref [OF assms(1-3)] assms(1,4) by (simp add: orphan_def)

lemma orphan_put_seg: "orphan a s \<Longrightarrow> b \<noteq> a \<Longrightarrow> orphan a (put_seg b v s)"
  by (simp add: orphan_def)

lemma orphan_shm_put [simp]: "orphan a (shm_put i d s) \<longleftrightarrow> orphan a s"
  by (simp add: orphan_def)

lemma orphan_free: "orphan a s \<Longrightarrow> b \<noteq> a \<Longrightarrow> shmFree b s = Some s' \<Longrightarrow> orphan a s'"
  by (auto simp: shmFree_def orphan_put_seg split: option.splits if_splits)

lemma orphan_detach:
  assumes inv: "shm_inv c s" and me: "me < length (p_shmsr s)" and o: "orphan a s" and ret: "shmDetachP c now i me u s = Some (u', s')"
  shows "orphan a s'"
proof (cases "i < NSHMSEG c")
  case True
  then have i: "i < length (p_shmsr s ! me)"
    using shm_inv_len [OF inv me] by simp
  show ?thesis
  proof (cases "sr_segp (p_shmsr s ! me ! i)")
    case None
    then show ?thesis
      using ret True orphan_put_sr [OF o me i, of no_sr] by (simp add: shmDetachP_def)
  next
    case (Some b)
    then have "b \<noteq> a" using orphan_ref [OF o me i] by auto
    obtain g where g: "seg_heap s b = Some g"
      using Some ret True by (cases "seg_heap s b") (auto simp: shmDetachP_def)
    let ?g = "g\<lparr>s_urefc := s_urefc g - 1, s_lrefc := s_lrefc g - 1\<rparr>"
    obtain v t where 1: "shmSetDs c now b u (put_seg b (Some ?g) s) = Some (v, t)"
      using Some ret True g by (cases "shmSetDs c now b u (put_seg b (Some ?g) s)") (auto simp: shmDetachP_def Let_def)
    then have t: "orphan a t" "p_shmsr t = p_shmsr s"
      using orphan_put_seg [OF o \<open>b \<noteq> a\<close>, of "Some ?g"] by (auto simp: shmSetDs_def bind_eq_Some_conv split: option.splits)
    obtain t' where t': "s' = put_sr me i no_sr t'" "t' = t \<or> shmFree b t = Some t'"
      using Some ret True g 1 by (auto simp: shmDetachP_def Let_def bind_eq_Some_conv split: if_splits)
    then have "orphan a t'" "p_shmsr t' = p_shmsr s"
      using t orphan_free [OF t(1) \<open>b \<noteq> a\<close>] by (auto simp: shmFree_def split: option.splits if_splits)
    then show ?thesis
      using orphan_put_sr [of a t' me i no_sr] me i t'(1) by simp
  qed
qed (use ret o in \<open>auto simp: shmDetachP_def\<close>)

lemma orphan_detach_all:
  assumes "shm_inv c s" "me < length (p_shmsr s)" "orphan a s" "detach_all c now xs me u s = Some (u', s')"
  shows "orphan a s'"
  using assms
proof (induction xs arbitrary: u s)
  case (Cons i xs)
  from shmDetachP_inv [OF Cons.prems(1,2)] obtain u1 s1 where 1: "shmDetachP c now i me u s = Some (u1, s1)" "shm_inv c s1"
      "length (p_shmsr s1) = length (p_shmsr s)"
    by blast
  show ?case
    by (rule Cons.IH [of s1 u1]) (use 1 Cons.prems orphan_detach [OF Cons.prems(1-3) 1(1)] in auto)
qed simp

lemma orphan_dup:
  assumes inv: "shm_inv c s" and me: "me < length (p_shmsr s)" and o: "orphan a s" and ret: "shmDup me s = Some s'"
  shows "orphan a s'"
proof -
  have xs: "p_shmsr s ! me \<in> set (p_shmsr s)" using me by simp
  then have dup: "dup_refs (p_shmsr s ! me) (seg_heap s) = Some (\<lambda>a. map_option
      (\<lambda>g. g\<lparr>s_urefc := s_urefc g + refs_to a (p_shmsr s ! me), s_lrefc := s_lrefc g + refs_to a (p_shmsr s ! me)\<rparr>) (seg_heap s a))"
    using inv by (intro dup_refs_counts) (auto simp: shm_inv_def refs_ok_def)
  have "refs_to a (p_shmsr s ! me) = 0"
    using o xs by (auto simp: orphan_def att_none filter_empty_conv)
  then show ?thesis
    using o ret dup by (auto simp: shmDup_def orphan_def att_append)
qed

lemma orphan_list_update: "orphan a s \<Longrightarrow> x \<noteq> Some a \<Longrightarrow> orphan a (s\<lparr>shmsegs := (shmsegs s)[i := x]\<rparr>)"
  by (auto simp: orphan_def dest!: set_update_subset_insert [THEN subsetD])

lemma orphan_listed: "orphan a s \<Longrightarrow> i < length (shmsegs s) \<Longrightarrow> shmsegs s ! i \<noteq> Some a"
  unfolding orphan_def by (metis nth_mem)

lemma orphan_rmid:
  assumes o: "orphan a s" and i: "i < length (shmsegs s)" and ret: "shm_rmid i d s = Some s'"
  shows "orphan a s'"
proof -
  let ?s = "shm_put i (d\<lparr>shm_perm := (shm_perm d)\<lparr>ip_seq := 0, ip_mode := (\<lambda>_. {}), ip_alloc := False\<rparr>, shm_dest := False\<rparr>) s"
  obtain t where t: "s' = t\<lparr>shmsegs := (shmsegs t)[i := None]\<rparr>"
      "t = ?s \<or> (\<exists>b. shmsegs s ! i = Some b \<and> ((\<exists>v. t = put_seg b v ?s) \<or> shmFree b ?s = Some t))"
    using ret by (auto simp: shm_rmid_def Let_def bind_eq_Some_conv split: if_splits option.splits)
  have "b \<noteq> a" if "shmsegs s ! i = Some b" for b
    using orphan_listed [OF o i] that by auto
  then have "orphan a t"
    using t(2) o orphan_put_seg [of a ?s] orphan_free [of a ?s] by auto
  then show ?thesis
    unfolding t(1) by (rule orphan_list_update) simp
qed

lemma orphan_ctl:
  assumes inv: "shm_inv c s" and o: "orphan a s" and ret: "ushmctl c i cmd u s = Some (r, d, u', s')"
  shows "orphan a s'"
proof -
  consider "s' = s" | d' where "s' = shm_put (nat i) d' s"
    | d' ds where "shm_rmid (nat i) d' s = Some s'" "shmids s = Some ds" "nat i < SHMMNI c"
    using ret unfolding ushmctl_def Let_def
    by (auto simp: bind_eq_Some_conv split: if_splits prod.splits shm_cmd.splits)
  then show ?thesis
  proof cases
    case 3
    then show ?thesis
      using orphan_rmid [OF o _ 3(1)] shm_inv_slot(3) [OF inv 3(2,3)] by simp
  qed (use o in simp_all)
qed

lemma orphan_init: "orphan a s \<Longrightarrow> shm_inv c s \<Longrightarrow> shmids s \<noteq> None"
  by (cases "shmids s") (auto simp: orphan_def shm_inv_def ids_ok_def)

lemma orphan_get:
  assumes inv: "shm_inv c s" and o: "orphan a s" and new: "\<And>b. new = Some b \<Longrightarrow> seg_heap s b = None"
    and ret: "ushmget c now mem1 mem2 new key n flg u s = Some (r, u', s')"
  shows "orphan a s'"
proof -
  have ids: "shmids s \<noteq> None" by (rule orphan_init [OF o inv])
  have new': "new \<noteq> Some a" using new o by (auto simp: orphan_def)
  consider "s' = s" | b g j d' where "new = Some b" "s' = shm_put j d' ((put_seg b g s)\<lparr>shmsegs := (shmsegs s)[j := Some b]\<rparr>)"
    using ret ids unfolding ushmget_def Let_def shmAlloc_def
    by (auto simp: bind_eq_Some_conv split: if_splits prod.splits option.splits sum.splits)
  then show ?thesis
  proof cases
    case 2
    then have "b \<noteq> a" using new' by auto
    then have "orphan a ((put_seg b g s)\<lparr>shmsegs := (shmsegs (put_seg b g s))[j := Some b]\<rparr>)"
      by (intro orphan_list_update orphan_put_seg o) auto
    then show ?thesis using 2(2) by simp
  qed (use o in simp)
qed

lemma orphan_at:
  assumes inv: "shm_inv c s" and me: "me < length (p_shmsr s)" and o: "orphan a s" and ret: "ushmat c now me i addr rdonly u s = Some (r, u', s')"
  shows "orphan a s'"
proof (cases "at_ok c i s")
  case False
  from ushmat_unused [OF inv this ret] o show ?thesis by simp
next
  case ok: True
  from ushmat_inv [OF inv me this, of now addr rdonly u] ret have "s' = s \<or> attached c me i s s'" by auto
  then consider "s' = s" | k x b g d' where "s' = shm_put (nat i) d' (put_seg b (Some g) (put_sr me k x s))" "shmsegs s ! nat i = Some b"
      "sr_segp x = Some b" "k < NSHMSEG c" "nat i < length (shmsegs s)"
    unfolding attached_def by blast
  then show ?thesis
  proof cases
    case 2
    then have "b \<noteq> a" using orphan_listed [OF o] by auto
    then show ?thesis
      using 2 orphan_put_seg orphan_put_sr [OF o me, of k x] shm_inv_len [OF inv me] by simp
  qed (use o in simp)
qed

lemma orphan_step:
  assumes "shm_step c s s'" "shm_inv c s" "orphan a s"
  shows "orphan a s'"
  using assms
proof (induction)
  case (call e me k u s r d u' s')
  note hyps = call.hyps(1) [unfolded ushmsys_def]
  show ?case
  proof (cases k)
    case (Sh_at i addr rdonly)
    then show ?thesis using hyps orphan_at [OF call.prems(1) call.hyps(3) call.prems(2)] by auto
  next
    case (Sh_ctl i cmd)
    then show ?thesis using hyps orphan_ctl [OF call.prems] by auto
  next
    case (Sh_dt addr)
    then show ?thesis
      using hyps orphan_detach [OF call.prems(1) call.hyps(3) call.prems(2)] call.prems(2) by (auto simp: ushmdt_def Let_def split: if_splits)
  next
    case (Sh_get key n flg)
    have "seg_heap s b = None" if "e_new e = Some b" for b
      using call.hyps(2) that by (simp add: env_ok_def)
    then show ?thesis using Sh_get hyps orphan_get [OF call.prems, of "e_new e"] by auto
  qed (use hyps call.prems in auto)
next
  case (exit now me u s u' s')
  then show ?case using orphan_detach_all [of c s me a now] by (auto simp: shmAllDt_def)
next
  case (fork me s s')
  then show ?case using orphan_dup [of c s me a s'] by simp
qed

lemma orphan_stays:
  assumes "(shm_step c)\<^sup>*\<^sup>* s s'" "shm_inv c s" "orphan a s"
  shows "orphan a s'"
proof -
  from assms have "orphan a s' \<and> shm_inv c s'"
    by (induction rule: rtranclp_induct) (auto intro: orphan_step shm_step_inv)
  then show ?thesis by blast
qed

text \<open>\<open>shmget\<close> does not reset the count of attachments of the identifier it takes. When the identifier was removed while it was attached, the
  count is still positive, and the next \<open>IPC_RMID\<close> marks the new segment, which nothing is attached to, for removal at the last detach
  instead of freeing it. The memory is then lost: whatever calls follow, the segment is neither freed nor referred to nor named by an identifier.\<close>

theorem shm_reused_id_leaks:
  assumes inv: "shm_inv c s" and ds: "shmids s = Some ds" and i: "i < SHMMNI c" "shm_alloc (ds ! i)" and stale: "shm_nattch (ds ! i) > 0"
    and a: "shmsegs s ! i = Some a" and noref: "att (p_shmsr s) a = 0" and owner: "user_class (shm_perm (ds ! i)) u = CRED_OWNER"
  shows "\<exists>d u' s1. ushmctl c (int i) Shm_rmid u s = Some (0, d, u', s1) \<and> (\<forall>s'. (shm_step c)\<^sup>*\<^sup>* s1 s' \<longrightarrow> orphan a s')"
proof -
  have at: "shm_at s i = Some (ds ! i)"
    using shm_inv_slot(2) [OF inv ds i(1)] i(1) ds by (simp add: shm_at_def)
  obtain v where cred: "ipc_cred_match (shm_perm (ds ! i)) u = (CRED_OWNER, v)"
    using owner fst_ipc_cred_match by (metis prod.collapse)
  obtain g where g: "seg_heap s a = Some g"
    using shm_inv_slot(1) [OF inv ds i(1)] a by (auto simp: slot_ok_def)
  let ?d = "(ds ! i)\<lparr>shm_perm := (shm_perm (ds ! i))\<lparr>ip_seq := 0, ip_mode := (\<lambda>_. {}), ip_alloc := False\<rparr>, shm_dest := False\<rparr>"
  let ?s = "(put_seg a (Some (g\<lparr>s_berm := True\<rparr>)) (shm_put i ?d s))\<lparr>shmsegs := (shmsegs s)[i := None]\<rparr>"
  have rmid: "shm_rmid i (ds ! i) s = Some ?s"
    using stale a g by (simp add: shm_rmid_def Let_def)
  then have "ushmctl c (int i) Shm_rmid u s = Some (0, None, v, ?s)"
    using i ds at cred by (simp add: ushmctl_def Let_def)
  moreover have "shm_inv c ?s"
    using shm_rmid_inv [OF inv ds i] rmid by auto
  moreover have "orphan a ?s"
  proof -
    have len: "length (shmsegs s) = SHMMNI c" and ids: "ids_ok c (seg_heap s) (Some ds) (shmsegs s)"
      using shm_inv_slot(3) [OF inv ds i(1)] inv ds by (simp_all add: shm_inv_def)
    have "(shmsegs s)[i := None] ! j \<noteq> Some a" if "j < SHMMNI c" for j
      using ids_ok_distinct [OF ids i(1) that a] that len by (cases "j = i") auto
    then show ?thesis
      using noref len by (auto simp: orphan_def in_set_conv_nth)
  qed
  ultimately show ?thesis
    using orphan_stays by blast
qed

subsection \<open>An example\<close>

definition shm_ex_cfg :: shm_cfg where
  "shm_ex_cfg = \<lparr>SHMMNI = 1, SHMMAX = 16, NSHMSEG = 1, NBPC = 4, SHM_PRIVATE = 0\<rparr>"

definition shm_ex_ds :: shmid_ds where
  "shm_ex_ds = \<lparr>shm_perm = public_perm\<lparr>ip_alloc := False, ip_mode := (\<lambda>_. {})\<rparr>, shm_dest = False, shm_segsz = 0, shm_atime = 0, shm_dtime = 0,
     shm_ctime = 0, shm_cpid = 0, shm_lpid = 0, shm_nattch = 0\<rparr>"

definition shm_ex_env :: "nat \<Rightarrow> shm_env" where
  "shm_ex_env a = \<lparr>e_now = 1, e_mem1 = Some [shm_ex_ds], e_mem2 = Some [None], e_new = Some a\<rparr>"

definition shm_ex_flags :: shm_flags where
  "shm_ex_flags = \<lparr>shf_creat = True, shf_excl = False, shf_mode = (\<lambda>_. {PREAD, PWRITE})\<rparr>"

definition shm_ex_used :: "int \<Rightarrow> shmid_ds" where
  "shm_ex_used n = shm_ex_ds\<lparr>shm_perm := public_perm\<lparr>ip_key := 9, ip_mode := (\<lambda>_. {PREAD, PWRITE})\<rparr>, shm_segsz := 5, shm_ctime := 1, shm_cpid := 100,
     shm_nattch := n\<rparr>"

definition shm_ex_seg :: "nat \<Rightarrow> bool \<Rightarrow> seg" where
  "shm_ex_seg n b = \<lparr>s_urefc = n, s_lrefc = n, s_size = 8, s_berm = b\<rparr>"

definition shm_ex_sr :: sr where
  "shm_ex_sr = \<lparr>sr_base = 0x40000000, sr_size = 8, sr_rodt = False, sr_segp = Some 0\<rparr>"

definition shm_ex1 :: shms where
  "shm_ex1 = \<lparr>shmids = Some [shm_ex_used 0], shmsegs = [Some 0], seg_heap = Map.empty(0 := Some (shm_ex_seg 1 False)), p_shmsr = [[no_sr]], p_segl = [[]]\<rparr>"

definition shm_ex2 :: shms where
  "shm_ex2 = shm_ex1\<lparr>shmids := Some [(shm_ex_used 1)\<lparr>shm_lpid := 100, shm_atime := 1\<rparr>], seg_heap := Map.empty(0 := Some (shm_ex_seg 2 False)),
     p_shmsr := [[shm_ex_sr]]\<rparr>"

definition shm_ex3 :: shms where
  "shm_ex3 = shm_ex2\<lparr>shmids := Some [(shm_ex_used 1)\<lparr>shm_lpid := 100, shm_atime := 1, shm_perm := public_perm\<lparr>ip_key := 9, ip_mode := (\<lambda>_. {}), ip_alloc := False\<rparr>\<rparr>],
     shmsegs := [None], seg_heap := Map.empty(0 := Some (shm_ex_seg 2 True))\<rparr>"

definition shm_ex4 :: shms where
  "shm_ex4 = shm_ex3\<lparr>seg_heap := Map.empty, p_shmsr := [[no_sr]]\<rparr>"

definition shm_ex5 :: shms where
  "shm_ex5 = shm_ex4\<lparr>shmids := Some [(shm_ex_used 1)\<lparr>shm_lpid := 100\<rparr>], shmsegs := [Some 1], seg_heap := Map.empty(1 := Some (shm_ex_seg 1 False))\<rparr>"

lemmas shm_ex_defs = shm_ex_cfg_def shm_ex_ds_def shm_ex_env_def shm_ex_flags_def shm_ex_used_def shm_ex_seg_def shm_ex_sr_def public_perm_def
  example_owner_def no_sr_def

lemmas shm_call_defs = ushmsys_def shm_at_def shm_put_def put_seg_def put_sr_def Let_def

lemma shm_ex_get: "ushmsys shm_ex_cfg (shm_ex_env 0) 0 (Sh_get 9 5 shm_ex_flags) example_owner (shm_start shm_ex_cfg []) = Some (0, None, example_owner, shm_ex1)"
  by (simp add: shm_call_defs ushmget_def shminit_def shm_start_def shmAlloc_def ipc_perm_init_def shm_ex1_def shm_ex_defs)

lemma shm_ex_at: "ushmsys shm_ex_cfg (shm_ex_env 1) 0 (Sh_at 0 0 False) example_owner shm_ex1 = Some (0x40000000, None, example_owner, shm_ex2)"
  by (simp add: shm_call_defs ushmat_def shmAtt_def shmAttach_def SHMBASE_def ipc_lack_perm_def ipc_cred_match_def SHM_WRITE_def cred_lvl_all
      shm_ex1_def shm_ex2_def shm_ex_defs numeral_2_eq_2)

lemma shm_ex_rmid: "ushmsys shm_ex_cfg (shm_ex_env 1) 0 (Sh_ctl 0 Shm_rmid) example_owner shm_ex2 = Some (0, None, example_owner, shm_ex3)"
  by (simp add: shm_call_defs ushmctl_def shm_rmid_def ipc_cred_match_def shm_ex1_def shm_ex2_def shm_ex3_def shm_ex_defs)

lemma shm_ex_dt: "ushmsys shm_ex_cfg (shm_ex_env 1) 0 (Sh_dt 0x40000000) example_owner shm_ex3 = Some (0, None, set_user_error EINVAL example_owner, shm_ex4)"
  by (simp add: shm_call_defs ushmdt_def shmDetachP_def shmSetDs_def shmFree_def shm_ex1_def shm_ex2_def shm_ex3_def shm_ex4_def shm_ex_defs)

lemma shm_ex_get2: "ushmsys shm_ex_cfg (shm_ex_env 1) 0 (Sh_get 9 5 shm_ex_flags) example_owner shm_ex4 = Some (0, None, example_owner, shm_ex5)"
  by (simp add: shm_call_defs ushmget_def shmAlloc_def ipc_perm_init_def shm_ex1_def shm_ex2_def shm_ex3_def shm_ex4_def shm_ex5_def shm_ex_defs)

lemma shm_ex_env_ok: "e_new e = Some a \<Longrightarrow> e_mem1 e = Some [shm_ex_ds] \<Longrightarrow> e_mem2 e = Some [None] \<Longrightarrow> seg_heap s a = None \<Longrightarrow> env_ok shm_ex_cfg e s"
  by (auto simp: env_ok_def shm_ex_cfg_def shm_ex_ds_def)

lemma shm_ex_reach1: "(shm_step shm_ex_cfg)\<^sup>*\<^sup>* (shm_start shm_ex_cfg []) shm_ex1"
proof -
  have "shm_step shm_ex_cfg (shm_start shm_ex_cfg []) shm_ex1"
    by (rule shm_step.call [OF shm_ex_get shm_ex_env_ok [where a = 0]]) (simp_all add: shm_ex_env_def shm_start_def)
  then show ?thesis by blast
qed

lemma shm_ex_at_step: "shm_step shm_ex_cfg shm_ex1 shm_ex2"
  by (rule shm_step.call [OF shm_ex_at shm_ex_env_ok [where a = 1]]) (simp_all add: shm_ex_env_def shm_ex1_def)

lemma shm_ex_rmid_step: "shm_step shm_ex_cfg shm_ex2 shm_ex3"
  by (rule shm_step.call [OF shm_ex_rmid shm_ex_env_ok [where a = 1]]) (simp_all add: shm_ex_env_def shm_ex2_def shm_ex1_def)

lemma shm_ex_dt_step: "shm_step shm_ex_cfg shm_ex3 shm_ex4"
  by (rule shm_step.call [OF shm_ex_dt shm_ex_env_ok [where a = 1]]) (simp_all add: shm_ex_env_def shm_ex3_def shm_ex2_def shm_ex1_def)

lemma shm_ex_get2_step: "shm_step shm_ex_cfg shm_ex4 shm_ex5"
  by (rule shm_step.call [OF shm_ex_get2 shm_ex_env_ok [where a = 1]]) (simp_all add: shm_ex_env_def shm_ex4_def shm_ex3_def shm_ex2_def shm_ex1_def)

lemma shm_ex_reach5: "(shm_step shm_ex_cfg)\<^sup>*\<^sup>* (shm_start shm_ex_cfg []) shm_ex5"
  using shm_ex_reach1 shm_ex_at_step shm_ex_rmid_step shm_ex_dt_step shm_ex_get2_step
  by (meson rtranclp.rtrancl_into_rtrancl)

theorem shm_calls_keep_witness:
  "shm_inv shm_ex_cfg shm_ex1 \<and> shmDup 0 shm_ex1 \<noteq> None \<and>
    ushmsys shm_ex_cfg (shm_ex_env 1) 0 (Sh_at 0 0 False) example_owner shm_ex1 \<noteq> None"
proof -
  have "env_ok shm_ex_cfg (shm_ex_env 1) shm_ex1" "0 < length (p_shmsr shm_ex1)" "at_ok shm_ex_cfg 0 shm_ex1"
    by (rule shm_ex_env_ok [where a = 1]) (simp_all add: shm_ex_env_def shm_ex1_def at_ok_def shm_at_def shm_ex_used_def public_perm_def)
  then show ?thesis
    using shm_calls_keep [OF shm_ex_reach1, of 0 "shm_ex_env 1"] by simp
qed

theorem shm_reused_id_leaks_witness:
  "(shm_step shm_ex_cfg)\<^sup>*\<^sup>* (shm_start shm_ex_cfg []) shm_ex5 \<and>
   (\<exists>d u' s1. ushmctl shm_ex_cfg (int 0) Shm_rmid example_owner shm_ex5 = Some (0, d, u', s1) \<and>
      (\<forall>s'. (shm_step shm_ex_cfg)\<^sup>*\<^sup>* s1 s' \<longrightarrow> orphan 1 s'))"
proof -
  have ds: "shmids shm_ex5 = Some [(shm_ex_used 1)\<lparr>shm_lpid := 100\<rparr>]" by (simp add: shm_ex5_def)
  have "\<exists>d u' s1. ushmctl shm_ex_cfg (int 0) Shm_rmid example_owner shm_ex5 = Some (0, d, u', s1) \<and>
      (\<forall>s'. (shm_step shm_ex_cfg)\<^sup>*\<^sup>* s1 s' \<longrightarrow> orphan 1 s')"
    by (rule shm_reused_id_leaks [OF shm_reach_inv [OF shm_ex_reach5] ds])
      (simp_all add: shm_ex_used_def shm_ex_cfg_def public_perm_def example_owner_def user_class_def shm_ex5_def shm_ex4_def att_def no_sr_def)
  then show ?thesis using shm_ex_reach5 by blast
qed

text \<open>A user of the class of the group, who may read and not write.\<close>

definition shm_ex_reader :: user where
  "shm_ex_reader = \<lparr>cr_uid = 7, cr_gid = 50, u_err = None, u_asu = False, p_pid = 101\<rparr>"

definition shm_ex_ro :: shms where
  "shm_ex_ro = shm_put 0 ((shm_ex_used 0)\<lparr>shm_perm := public_perm\<lparr>ip_key := 9, ip_mode := (\<lambda>l. if l = CRED_OWNER then {PREAD, PWRITE} else {PREAD})\<rparr>\<rparr>) shm_ex1"

theorem shmat_rdonly_writable_witness:
  "fst (ipc_lack_perm (shm_perm (the (shm_at shm_ex_ro 0))) SHM_WRITE shm_ex_reader) \<and>
   (\<exists>r u' s' k a g. ushmat shm_ex_cfg 1 0 (int 0) 0 True shm_ex_reader shm_ex_ro = Some (r, u', s') \<and> shmsegs shm_ex_ro ! 0 = Some a \<and>
     seg_heap shm_ex_ro a = Some g \<and> p_shmsr s' ! 0 ! k = \<lparr>sr_base = r, sr_size = s_size g, sr_rodt = False, sr_segp = Some a\<rparr>)"
proof -
  let ?d = "(shm_ex_used 0)\<lparr>shm_perm := public_perm\<lparr>ip_key := 9, ip_mode := (\<lambda>l. if l = CRED_OWNER then {PREAD, PWRITE} else {PREAD})\<rparr>\<rparr>"
  have ds: "shmids shm_ex_ro = Some [?d]"
    by (simp add: shm_ex_ro_def shm_ex1_def)
  have inv: "shm_inv shm_ex_cfg shm_ex_ro"
    unfolding shm_ex_ro_def
    by (rule shm_perm_inv [OF shm_reach_inv [OF shm_ex_reach1], of "[shm_ex_used 0]"]) (simp_all add: shm_ex1_def shm_ex_cfg_def shm_ex_used_def public_perm_def)
  have "\<exists>r u' s' k a g. ushmat shm_ex_cfg 1 0 (int 0) 0 True shm_ex_reader shm_ex_ro = Some (r, u', s') \<and> shmsegs shm_ex_ro ! 0 = Some a \<and>
     seg_heap shm_ex_ro a = Some g \<and> p_shmsr s' ! 0 ! k = \<lparr>sr_base = r, sr_size = s_size g, sr_rodt = False, sr_segp = Some a\<rparr>"
    by (rule shmat_rdonly_writable [OF inv _ ds])
      (simp_all add: shm_ex_ro_def shm_put_def shm_ex1_def shm_ex_cfg_def shm_ex_used_def public_perm_def shm_ex_reader_def SHM_READ_def fst_ipc_lack_perm user_class_def)
  moreover have "fst (ipc_lack_perm (shm_perm ?d) SHM_WRITE shm_ex_reader)"
    by (simp add: public_perm_def shm_ex_reader_def SHM_WRITE_def fst_ipc_lack_perm user_class_def)
  ultimately show ?thesis
    using ds by (simp add: shm_at_def)
qed

subsection \<open>Overlapping ranges\<close>

text \<open>\<open>seg_overlap\<close> looks only whether the start or the end of the new range lies in the segment: a range that contains the segment
  does not overlap it.\<close>

theorem seg_overlap_misses_inside:
  assumes "unat base < unat (sr_base x)" "unat (sr_base x) + sr_size x < unat base + unat len" "unat base + unat len \<le> 2 ^ 32"
  shows "seg_overlap x base len = 0"
proof -
  let ?b = "uint base" and ?x = "uint (sr_base x)" and ?l = "uint len" and ?n = "int (sr_size x)"
  have b: "?b < ?x" "?x + ?n < ?b + ?l" "?b + ?l \<le> 2 ^ 32" "0 \<le> ?b" "?x < 2 ^ 32" "?l < 2 ^ 32"
  proof -
    have "int (unat base) = ?b" "int (unat (sr_base x)) = ?x" "int (unat len) = ?l" by (simp_all only: uint_nat)
    then show "?b < ?x" "?x + ?n < ?b + ?l" "?b + ?l \<le> 2 ^ 32" "0 \<le> ?b" "?x < 2 ^ 32" "?l < 2 ^ 32"
      using assms unsigned_less [of "sr_base x", where ?'a = int] unsigned_less [of len, where ?'a = int] by (linarith | simp)+
  qed
  have m: "(?b - ?x) mod 2 ^ 32 = ?b - ?x + 2 ^ 32"
    using mod_pos_pos_trivial [of "?b - ?x + 2 ^ 32" "2 ^ 32"] b by (simp only: mod_add_self2)
  then have t: "uint (base - sr_base x) = ?b - ?x + 2 ^ 32"
    by (simp add: uint_word_ariths)
  have l: "uint (base - sr_base x + len) = ?b - ?x + ?l"
  proof -
    have "uint (base - sr_base x + len) = (?b - ?x + 2 ^ 32 + ?l) mod 2 ^ 32"
      by (subst uint_word_ariths(1)) (simp add: m t)
    also have "\<dots> = (?b - ?x + ?l + 2 ^ 32) mod 2 ^ 32" by (simp only: ac_simps)
    also have "\<dots> = (?b - ?x + ?l) mod 2 ^ 32" by (simp only: mod_add_self2)
    also have "\<dots> = ?b - ?x + ?l"
      by (rule mod_pos_pos_trivial) (use b in linarith)+
    finally show ?thesis .
  qed
  have n: "uint (of_nat (sr_size x) :: 32 word) = ?n"
  proof -
    have "?n < 2 ^ 32" using b by linarith
    then have "sr_size x < 2 ^ 32" by (simp only: zless_nat_eq_int_zless of_nat_less_numeral_power_cancel_iff)
    then show ?thesis by (simp add: uint_nat unat_of_nat)
  qed
  show ?thesis
    using b t n l by (simp add: seg_overlap_def Let_def word_less_def word_le_def)
qed

end
