(* ===== verification/FsDisk.thy ===== *)
theory FsDisk
  imports Prelude "HOL-Library.Word"
begin

unbundle bit_operations_syntax

text \<open>
  What the file system sees of a disk: blocks of octets, reached through the buffer cache, and the numbers stored in them. The layout is the one
  that \<open>Coherent/tools/cohfs.py\<close> and \<open>cohfsw.py\<close> document for \<open>sys/filsys.h\<close> and \<open>sys/ino.h\<close>: little-endian words of 16 bits, longs
  with the high word first. The buffer cache is transparent here: \<open>bread\<close> gives the block as it was last written, or NULL with the error the
  driver reports, and what is stored in a buffer that is marked \<open>BFMOD\<close> is in the block from then on.
\<close>

section \<open>State\<close>

type_synonym octet = "8 word"
type_synonym daddr = "32 word"

record fs_cfg =
  BSIZE :: nat
  NICFREE :: nat
  NICINOD :: nat
  ND :: nat

text \<open>The three levels of indirection of \<open>NI\<close> are written out in the code; a block holds \<open>NBN\<close> addresses.\<close>

definition NBN :: "fs_cfg \<Rightarrow> nat" where
  "NBN c = BSIZE c div 4"

text \<open>
  A mounted device: whether it is in the list of mounts and read-only, its super block, the gate of its list of free blocks, the blocks, and the
  errors of the driver. \<open>fs_err\<close> is the error of the process.
\<close>

record fsys =
  m_mounted :: bool
  m_ron :: bool
  s_isize :: int
  s_fsize :: int
  s_nfree :: int
  s_free :: "daddr list"
  s_tfree :: int
  s_fmod :: bool
  free_gate :: bool
  dsk :: "daddr \<Rightarrow> octet list"
  dsk_err :: "daddr \<Rightarrow> errno option"
  fs_err :: "errno option"

section \<open>Numbers in a block\<close>

definition get16 :: "nat \<Rightarrow> octet list \<Rightarrow> 16 word" where
  "get16 k bs = ucast (bs ! k) OR push_bit 8 (ucast (bs ! (k + 1)))"

definition put16 :: "nat \<Rightarrow> 16 word \<Rightarrow> octet list \<Rightarrow> octet list" where
  "put16 k w bs = bs[k := ucast w, k + 1 := ucast (drop_bit 8 w)]"

definition get32 :: "nat \<Rightarrow> octet list \<Rightarrow> 32 word" where
  "get32 k bs = ucast (bs ! k) OR push_bit 8 (ucast (bs ! (k + 1))) OR push_bit 16 (ucast (bs ! (k + 2))) OR push_bit 24 (ucast (bs ! (k + 3)))"

definition put32 :: "nat \<Rightarrow> 32 word \<Rightarrow> octet list \<Rightarrow> octet list" where
  "put32 k w bs = bs[k := ucast w, k + 1 := ucast (drop_bit 8 w), k + 2 := ucast (drop_bit 16 w), k + 3 := ucast (drop_bit 24 w)]"

text \<open>\<open>candaddr\<close>: between the order of the machine and that of the disk.\<close>

definition candaddr :: "daddr \<Rightarrow> daddr" where
  "candaddr w = push_bit 16 w OR drop_bit 16 w"

lemma candaddr_candaddr [simp]: "candaddr (candaddr w) = w"
  unfolding candaddr_def by (rule bit_word_eqI) (auto simp: bit_simps)

lemma candaddr_0 [simp]: "candaddr 0 = 0"
  by (simp add: candaddr_def)

lemma candaddr_eq_0 [simp]: "candaddr w = 0 \<longleftrightarrow> w = 0"
  by (metis candaddr_0 candaddr_candaddr)

lemma length_put [simp]: "length (put16 k v bs) = length bs" "length (put32 k w bs) = length bs"
  by (simp_all add: put16_def put32_def)

lemma nth_put:
  "i < k \<or> k + 2 \<le> i \<Longrightarrow> put16 k v bs ! i = bs ! i"
  "i < k \<or> k + 4 \<le> i \<Longrightarrow> put32 k w bs ! i = bs ! i"
  by (auto simp: put16_def put32_def)

lemma get16_put16: "k + 1 < length bs \<Longrightarrow> get16 k (put16 k w bs) = w"
  unfolding get16_def put16_def
  by (rule bit_word_eqI) (auto simp: bit_simps nth_list_update)

lemma word_of_octets:
  fixes w :: "32 word"
  shows "ucast (ucast w :: octet) OR push_bit 8 (ucast (ucast (drop_bit 8 w) :: octet)) OR push_bit 16 (ucast (ucast (drop_bit 16 w) :: octet)) OR
    push_bit 24 (ucast (ucast (drop_bit 24 w) :: octet)) = w"
proof (rule bit_word_eqI)
  fix n :: nat
  assume "n < LENGTH(32)"
  then have n: "n < 32" by simp
  consider "n < 8" | "8 \<le> n" "n < 16" | "16 \<le> n" "n < 24" | "24 \<le> n" by linarith
  then show "bit ((ucast (ucast w :: octet) :: 32 word) OR push_bit 8 (ucast (ucast (drop_bit 8 w) :: octet)) OR push_bit 16 (ucast (ucast (drop_bit 16 w) :: octet)) OR
    push_bit 24 (ucast (ucast (drop_bit 24 w) :: octet))) n = bit w n"
    using n by cases (auto simp: bit_simps less_diff_conv2)
qed

lemma get32_put32: "k + 3 < length bs \<Longrightarrow> get32 k (put32 k w bs) = w"
  using word_of_octets [of w] by (simp add: get32_def put32_def nth_list_update)

lemma get32_put32_other: "j + 4 \<le> k \<or> k + 4 \<le> j \<Longrightarrow> get32 j (put32 k w bs) = get32 j bs"
  by (auto simp: get32_def nth_put)

lemma get32_put16_other: "j + 4 \<le> k \<or> k + 2 \<le> j \<Longrightarrow> get32 j (put16 k w bs) = get32 j bs"
  by (auto simp: get32_def nth_put)

lemma get16_put32_other: "j + 2 \<le> k \<or> k + 4 \<le> j \<Longrightarrow> get16 j (put32 k w bs) = get16 j bs"
  by (auto simp: get16_def nth_put)

section \<open>The buffer cache as the file system sees it\<close>

definition bread :: "daddr \<Rightarrow> fsys \<Rightarrow> octet list option \<times> fsys" where
  "bread b s = (case dsk_err s b of None \<Rightarrow> (Some (dsk s b), s) | Some e \<Rightarrow> (None, s\<lparr>fs_err := Some e\<rparr>))"

definition bput :: "daddr \<Rightarrow> octet list \<Rightarrow> fsys \<Rightarrow> fsys" where
  "bput b bs s = s\<lparr>dsk := (dsk s)(b := bs)\<rparr>"

text \<open>\<open>getment\<close>, for the device of the state: with the flag a read-only device is an error.\<close>

definition getment :: "bool \<Rightarrow> fsys \<Rightarrow> bool \<times> fsys" where
  "getment f s = (if \<not> m_mounted s then (False, s)
     else if m_ron s then (False, if f then s\<lparr>fs_err := Some EROFS\<rparr> else s) else (True, s))"

end
