(* ===== verification/FsFree.thy ===== *)
theory FsFree
  imports FsDisk "HOL-Library.Multiset"
begin

unbundle bit_operations_syntax

text \<open>
  The free blocks of a mounted device: \<open>balloc\<close>, \<open>bfree\<close>, \<open>daddr_add\<close> and \<open>indfree\<close> of \<open>coh.386/fs2.c\<close>. The super block holds up to
  \<open>NICFREE\<close> free blocks; the first of them is a link, a free block in which the next such list is stored, or 0 at the end. A result \<^const>\<open>None\<close> is
  a process that waits for a gate that nobody gives back, or an access outside the array.
\<close>

section \<open>Operations\<close>

definition in_data :: "fsys \<Rightarrow> daddr \<Rightarrow> bool" where
  "in_data s b \<longleftrightarrow> s_isize s \<le> sint b \<and> sint b < s_fsize s"

text \<open>A list of free blocks as it is stored in a block: \<open>struct fblk\<close>.\<close>

primrec put_list :: "nat \<Rightarrow> daddr list \<Rightarrow> octet list \<Rightarrow> octet list" where
  "put_list k [] bs = bs"
| "put_list k (x # xs) bs = put_list (k + 4) xs (put32 k x bs)"

definition get_list :: "nat \<Rightarrow> nat \<Rightarrow> octet list \<Rightarrow> daddr list" where
  "get_list k n bs = map (\<lambda>i. get32 (k + 4 * i) bs) [0..<n]"

text \<open>\<open>canndaddr\<close>\<close>

definition canndaddr :: "nat \<Rightarrow> daddr list \<Rightarrow> daddr list" where
  "canndaddr n xs = map candaddr (take n xs) @ drop n xs"

definition fblk_put :: "fs_cfg \<Rightarrow> int \<Rightarrow> daddr list \<Rightarrow> octet list" where
  "fblk_put c n xs = put_list 2 (canndaddr (nat n) xs) (put16 0 (word_of_int n) (replicate (BSIZE c) 0))"

definition df_nfree :: "octet list \<Rightarrow> int" where
  "df_nfree bs = sint (get16 0 bs)"

definition df_free :: "fs_cfg \<Rightarrow> octet list \<Rightarrow> daddr list" where
  "df_free c bs = get_list 2 (NICFREE c) bs"

text \<open>The block that falls out, 0 for a block that is there already, and the list.\<close>

fun daddr_add :: "daddr list \<Rightarrow> daddr \<Rightarrow> daddr \<times> daddr list" where
  "daddr_add [] b = (b, [])"
| "daddr_add (x # xs) b =
     (if b = x then (0, x # xs)
      else if sint b > sint x then (last (x # xs), b # butlast (x # xs))
      else let (r, ys) = daddr_add xs b in (r, x # ys))"

text \<open>The new block is put in order behind the link.\<close>

definition bfree_sort :: "bool \<Rightarrow> daddr \<Rightarrow> fsys \<Rightarrow> daddr option \<times> fsys" where
  "bfree_sort srt b s =
     (if srt \<and> s_nfree s > 0 then
        let n = nat (s_nfree s); (new, xs) = daddr_add (take (n - 1) (drop 1 (s_free s))) b
        in (if new = 0 then None else Some new, s\<lparr>s_free := take 1 (s_free s) @ xs @ drop n (s_free s)\<rparr>)
      else (Some b, s))"

definition bfree_store :: "fs_cfg \<Rightarrow> daddr \<Rightarrow> fsys \<Rightarrow> fsys option" where
  "bfree_store c b s =
     (let s = (if s_nfree s = 0 \<or> s_nfree s = int (NICFREE c) then (bput b (fblk_put c (s_nfree s) (s_free s)) s)\<lparr>s_nfree := 0\<rparr> else s)
      in if \<not> (0 \<le> s_nfree s \<and> s_nfree s < int (NICFREE c)) then None
         else Some (s\<lparr>s_free := (s_free s)[nat (s_nfree s) := b], s_nfree := s_nfree s + 1, s_tfree := s_tfree s + 1, s_fmod := True\<rparr>))"

definition bfree :: "fs_cfg \<Rightarrow> bool \<Rightarrow> daddr \<Rightarrow> fsys \<Rightarrow> fsys option" where
  "bfree c srt b s =
     (let (ok, s) = getment True s
      in if \<not> ok then Some s
         else if \<not> in_data s b then Some s
         else if free_gate s then None
         else (case bfree_sort srt b (s\<lparr>free_gate := True\<rparr>) of
             (None, s) \<Rightarrow> Some s
           | (Some b, s) \<Rightarrow> do { s \<leftarrow> bfree_store c b s; Some (s\<lparr>free_gate := False\<rparr>) }))"

text \<open>\<open>read_free_block_list\<close>; the reading ahead has no effect that the file system sees.\<close>

definition read_free_block_list :: "daddr \<Rightarrow> fsys \<Rightarrow> octet list option \<times> fsys" where
  "read_free_block_list b s = (if in_data s b then bread b s else (None, s))"

definition enospc :: "fsys \<Rightarrow> daddr \<times> fsys" where
  "enospc s = (0, s\<lparr>s_nfree := 0, fs_err := Some ENOSPC, free_gate := False\<rparr>)"

definition balloc_link :: "fs_cfg \<Rightarrow> daddr \<Rightarrow> fsys \<Rightarrow> (bool \<times> fsys) option" where
  "balloc_link c b s = (case read_free_block_list b s of
     (None, s) \<Rightarrow> Some (False, s)
   | (Some bs, s) \<Rightarrow>
       let s = s\<lparr>s_nfree := df_nfree bs, s_free := df_free c bs\<rparr>
       in if s_nfree s > int (NICFREE c) then Some (False, s)
          else if s_nfree s < 0 then None
          else Some (True, s\<lparr>s_free := canndaddr (nat (s_nfree s)) (s_free s)\<rparr>))"

definition balloc :: "fs_cfg \<Rightarrow> fsys \<Rightarrow> (daddr \<times> fsys) option" where
  "balloc c s =
     (let (ok, s) = getment True s
      in if \<not> ok then Some (0, s)
         else if free_gate s then None
         else let s = s\<lparr>free_gate := True\<rparr>
           in if s_nfree s = 0 \<or> s_nfree s > int (NICFREE c) then Some (enospc s)
              else if s_nfree s < 0 then None
              else
                let i = nat (s_nfree s - 1); b = s_free s ! i; s = s\<lparr>s_fmod := True, s_nfree := int i\<rparr>
                in if b = 0 then Some (enospc s)
                   else do {
                     (good, s) \<leftarrow> (let s = s\<lparr>s_free := (s_free s)[i := 0]\<rparr> in if i = 0 then balloc_link c b s else Some (True, s));
                     if \<not> good then Some (enospc s)
                     else let s = s\<lparr>s_tfree := s_tfree s - 1\<rparr>
                       in if \<not> in_data s b then Some (enospc s) else Some (b, s\<lparr>free_gate := False\<rparr>)
                   })"

primrec free_each :: "(daddr \<Rightarrow> fsys \<Rightarrow> fsys option) \<Rightarrow> daddr list \<Rightarrow> fsys \<Rightarrow> fsys option" where
  "free_each f [] s = Some s"
| "free_each f (x # xs) s = (if x = 0 then free_each f xs s else do { s \<leftarrow> f (candaddr x) s; free_each f xs s })"

primrec indfree :: "fs_cfg \<Rightarrow> bool \<Rightarrow> nat \<Rightarrow> daddr \<Rightarrow> fsys \<Rightarrow> fsys option" where
  "indfree c srt 0 b s = (if b = 0 then Some s else bfree c srt b s)"
| "indfree c srt (Suc l) b s =
     (if b = 0 then Some s
      else (case bread b s of
          (None, s) \<Rightarrow> bfree c srt b s
        | (Some bs, s) \<Rightarrow> do {
            s \<leftarrow> free_each (\<lambda>b1. if l = 0 then bfree c srt b1 else indfree c srt l b1) (rev (get_list 0 (NBN c) bs)) s;
            bfree c srt b s
          }))"

section \<open>The stored lists\<close>

lemma length_put_list [simp]: "length (put_list k xs bs) = length bs"
  by (induction xs arbitrary: k bs) auto

lemma length_get_list [simp]: "length (get_list k n bs) = n"
  by (simp add: get_list_def)

lemma get32_put_list_other: "j + 4 \<le> k \<or> k + 4 * length xs \<le> j \<Longrightarrow> get32 j (put_list k xs bs) = get32 j bs"
  by (induction xs arbitrary: k bs) (auto simp: get32_put32_other)

lemma get16_put_list_other: "j + 2 \<le> k \<Longrightarrow> get16 j (put_list k xs bs) = get16 j bs"
  by (induction xs arbitrary: k bs) (auto simp: get16_put32_other)

lemma get32_put_list:
  "k + 4 * length xs \<le> length bs \<Longrightarrow> i < length xs \<Longrightarrow> get32 (k + 4 * i) (put_list k xs bs) = xs ! i"
proof (induction xs arbitrary: k bs i)
  case (Cons x xs)
  show ?case
  proof (cases i)
    case 0
    then show ?thesis
      using Cons.prems by (simp add: get32_put_list_other get32_put32)
  next
    case (Suc j)
    then show ?thesis
      using Cons.IH [of "k + 4" "put32 k x bs" j] Cons.prems by (simp add: add.assoc)
  qed
qed simp

lemma get_list_put_list: "k + 4 * length xs \<le> length bs \<Longrightarrow> get_list k (length xs) (put_list k xs bs) = xs"
  by (intro nth_equalityI) (auto simp: get_list_def get32_put_list)

lemma length_canndaddr [simp]: "length (canndaddr n xs) = length xs"
  by (simp add: canndaddr_def)

lemma canndaddr_canndaddr [simp]: "canndaddr n (canndaddr n xs) = xs"
  by (cases "n \<le> length xs") (simp_all add: canndaddr_def o_def)

text \<open>The geometry: the list fits in a block, its length in a short.\<close>

definition fs_cfg_ok :: "fs_cfg \<Rightarrow> bool" where
  "fs_cfg_ok c \<longleftrightarrow> 0 < NICFREE c \<and> NICFREE c < 32768 \<and> 2 + 4 * NICFREE c \<le> BSIZE c"

lemma fblk_roundtrip:
  assumes "fs_cfg_ok c" "length xs = NICFREE c" "0 \<le> n" "n \<le> int (NICFREE c)"
  shows "df_nfree (fblk_put c n xs) = n" "canndaddr (nat n) (df_free c (fblk_put c n xs)) = xs"
proof -
  have "n \<le> 32767" using assms by (simp add: fs_cfg_ok_def)
  then have "sint (word_of_int n :: 16 word) = n"
    using assms(3) by (simp add: int_word_sint)
  then show "df_nfree (fblk_put c n xs) = n"
    using assms(1) by (simp add: df_nfree_def fblk_put_def get16_put_list_other get16_put16 fs_cfg_ok_def)
  have "get_list 2 (length (canndaddr (nat n) xs)) (fblk_put c n xs) = canndaddr (nat n) xs"
    unfolding fblk_put_def by (rule get_list_put_list) (use assms in \<open>simp add: fs_cfg_ok_def\<close>)
  then show "canndaddr (nat n) (df_free c (fblk_put c n xs)) = xs"
    using assms(2) by (simp add: df_free_def)
qed

section \<open>The free blocks in the order in which they are allocated\<close>

inductive frees :: "fs_cfg \<Rightarrow> (daddr \<Rightarrow> octet list) \<Rightarrow> int \<Rightarrow> daddr list \<Rightarrow> daddr list \<Rightarrow> bool" for c d where
  none: "length f = NICFREE c \<Longrightarrow> frees c d 0 f []"
| last: "0 < n \<Longrightarrow> n \<le> int (NICFREE c) \<Longrightarrow> length f = NICFREE c \<Longrightarrow> f ! 0 = 0 \<Longrightarrow> frees c d n f (rev (tl (take (nat n) f)))"
| link: "0 < n \<Longrightarrow> n \<le> int (NICFREE c) \<Longrightarrow> length f = NICFREE c \<Longrightarrow> f ! 0 \<noteq> 0 \<Longrightarrow>
    frees c d (df_nfree (d (f ! 0))) (canndaddr (nat (df_nfree (d (f ! 0)))) (df_free c (d (f ! 0)))) ys \<Longrightarrow>
    frees c d n f (rev (tl (take (nat n) f)) @ f ! 0 # ys)"

lemma frees_bounds: "frees c d n f xs \<Longrightarrow> 0 \<le> n \<and> n \<le> int (NICFREE c) \<and> length f = NICFREE c"
  by (induction rule: frees.induct) auto

lemma frees_fun: "frees c d n f xs \<Longrightarrow> frees c d n f ys \<Longrightarrow> xs = ys"
proof (induction arbitrary: ys rule: frees.induct)
  case (none f)
  from none.prems show ?case by (cases rule: frees.cases) simp_all
next
  case (last n f)
  from last.prems last.hyps show ?case by (cases rule: frees.cases) simp_all
next
  case (link n f zs)
  from link.prems show ?case
  proof (cases rule: frees.cases)
    case (link ws)
    then show ?thesis using link.IH by simp
  qed (use link.hyps in simp_all)
qed

lemma frees_frame: "frees c d n f xs \<Longrightarrow> (\<And>x. x \<in> set xs \<Longrightarrow> d' x = d x) \<Longrightarrow> frees c d' n f xs"
proof (induction rule: frees.induct)
  case (link n f ys)
  have "d' (f ! 0) = d (f ! 0)" by (rule link.prems) simp
  moreover have "frees c d' (df_nfree (d (f ! 0))) (canndaddr (nat (df_nfree (d (f ! 0)))) (df_free c (d (f ! 0)))) ys"
    by (rule link.IH) (simp add: link.prems)
  ultimately show ?case
    using frees.link [of n c f d' ys] link.hyps by simp
qed (auto intro: frees.intros)

text \<open>What the state promises; \<open>xs\<close> are the free blocks.\<close>

definition geom_ok :: "fs_cfg \<Rightarrow> fsys \<Rightarrow> bool" where
  "geom_ok c s \<longleftrightarrow> fs_cfg_ok c \<and> m_mounted s \<and> \<not> m_ron s \<and> 0 < s_isize s"

definition free_ok :: "fs_cfg \<Rightarrow> fsys \<Rightarrow> daddr list \<Rightarrow> bool" where
  "free_ok c s xs \<longleftrightarrow> geom_ok c s \<and> \<not> free_gate s \<and> frees c (dsk s) (s_nfree s) (s_free s) xs \<and> distinct xs \<and>
     (\<forall>b \<in> set xs. in_data s b \<and> dsk_err s b = None) \<and> s_tfree s = int (length xs)"

lemma in_data_cong: "s_isize s' = s_isize s \<Longrightarrow> s_fsize s' = s_fsize s \<Longrightarrow> in_data s' b \<longleftrightarrow> in_data s b"
  by (simp add: in_data_def)

lemma in_data_nonzero: "geom_ok c s \<Longrightarrow> in_data s b \<Longrightarrow> b \<noteq> 0"
  by (auto simp: geom_ok_def in_data_def)

lemma bfree_store_ok:
  assumes geom: "geom_ok c s" and fr: "frees c (dsk s) (s_nfree s) (s_free s) xs" and b: "in_data s b" "b \<notin> set xs"
  shows "\<exists>s'. bfree_store c b s = Some s' \<and> frees c (dsk s') (s_nfree s') (s_free s') (b # xs) \<and> (\<forall>x. x \<noteq> b \<longrightarrow> dsk s' x = dsk s x) \<and>
     length (dsk s' b) \<in> {length (dsk s b), BSIZE c} \<and>
     s' = s\<lparr>dsk := dsk s', s_free := s_free s', s_nfree := s_nfree s', s_tfree := s_tfree s + 1, s_fmod := True\<rparr>"
proof (cases "s_nfree s = 0 \<or> s_nfree s = int (NICFREE c)")
  case True
  note bnd = frees_bounds [OF fr]
  have cfg: "fs_cfg_ok c" using geom by (simp add: geom_ok_def)
  let ?blk = "fblk_put c (s_nfree s) (s_free s)"
  let ?s = "s\<lparr>dsk := (dsk s)(b := ?blk), s_free := (s_free s)[0 := b], s_nfree := 1, s_tfree := s_tfree s + 1, s_fmod := True\<rparr>"
  have ret: "bfree_store c b s = Some ?s"
    using True cfg by (auto simp: bfree_store_def bput_def fs_cfg_ok_def)
  have ne: "s_free s \<noteq> []" using bnd cfg by (auto simp: fs_cfg_ok_def)
  then have f: "(s_free s)[0 := b] ! 0 = b" "tl (take 1 ((s_free s)[0 := b])) = []" by (cases "s_free s"; simp)+
  have rt: "df_nfree ?blk = s_nfree s" "canndaddr (nat (s_nfree s)) (df_free c ?blk) = s_free s"
    using fblk_roundtrip [OF cfg] bnd by auto
  have "frees c ((dsk s)(b := ?blk)) (s_nfree s) (s_free s) xs"
    by (rule frees_frame [OF fr]) (use b(2) in auto)
  then have "frees c ((dsk s)(b := ?blk)) 1 ((s_free s)[0 := b]) (b # xs)"
    using frees.link [of 1 c "(s_free s)[0 := b]" "(dsk s)(b := ?blk)" xs] in_data_nonzero [OF geom b(1)] f rt bnd cfg
    by (simp add: fs_cfg_ok_def)
  moreover have "length ?blk = BSIZE c" by (simp add: fblk_put_def)
  ultimately show ?thesis using ret by auto
next
  case False
  note bnd = frees_bounds [OF fr]
  let ?n = "nat (s_nfree s)"
  let ?f = "(s_free s)[?n := b]"
  let ?s = "s\<lparr>s_free := ?f, s_nfree := s_nfree s + 1, s_tfree := s_tfree s + 1, s_fmod := True\<rparr>"
  have n: "0 < s_nfree s" "s_nfree s < int (NICFREE c)" using False bnd by auto
  have ret: "bfree_store c b s = Some ?s"
    using False n by (simp add: bfree_store_def)
  have tl: "rev (tl (take (nat (s_nfree s + 1)) ?f)) = b # rev (tl (take ?n (s_free s)))" "?f ! 0 = s_free s ! 0"
  proof -
    have "take (Suc ?n) ?f = take ?n (s_free s) @ [b]"
      using n bnd by (simp add: take_Suc_conv_app_nth)
    moreover have "take ?n (s_free s) \<noteq> []" using n bnd by auto
    ultimately show "rev (tl (take (nat (s_nfree s + 1)) ?f)) = b # rev (tl (take ?n (s_free s)))"
      using n by (simp add: nat_add_distrib)
    show "?f ! 0 = s_free s ! 0" using n by simp
  qed
  from fr have "frees c (dsk s) (s_nfree s + 1) ?f (b # xs)"
  proof (cases rule: frees.cases)
    case last
    then show ?thesis
      using frees.last [of "s_nfree s + 1" c ?f "dsk s"] n tl bnd by simp
  next
    case (link ys)
    then show ?thesis
      using frees.link [of "s_nfree s + 1" c ?f "dsk s" ys] n tl bnd by simp
  qed (use n in simp)
  then show ?thesis using ret by auto
qed

section \<open>Keeping the list in order\<close>

lemma daddr_add_mset:
  assumes "b \<notin> set xs"
  shows "mset (snd (daddr_add xs b)) + {# fst (daddr_add xs b) #} = add_mset b (mset xs) \<and> length (snd (daddr_add xs b)) = length xs"
  using assms
proof (induction xs b rule: daddr_add.induct)
  case (2 x xs b)
  show ?case
  proof (cases "sint b > sint x")
    case True
    have "mset (butlast (x # xs)) + {# last (x # xs) #} = mset (x # xs)"
      by (metis append_butlast_last_id list.distinct(1) mset.simps(1,2) mset_append)
    then show ?thesis
      using True 2(2) by simp
  next
    case False
    then show ?thesis
      using 2 by (auto simp: split_beta Let_def)
  qed
qed simp

lemma daddr_add_dup:
  assumes "b \<in> set xs" "sorted_wrt (\<lambda>x y. sint x > sint y) xs"
  shows "daddr_add xs b = (0, xs)"
  using assms
proof (induction xs b rule: daddr_add.induct)
  case (2 x xs b)
  show ?case
  proof (cases "b = x")
    case False
    then have "b \<in> set xs" "\<not> sint b > sint x" using 2(2,3) by auto
    then show ?thesis using 2 False by simp
  qed simp
qed simp

lemma set_daddr_add: "b \<notin> set xs \<Longrightarrow> set (snd (daddr_add xs b)) \<union> {fst (daddr_add xs b)} = insert b (set xs)"
  using daddr_add_mset [of b xs] by (metis Un_insert_right set_mset_add_mset_insert set_mset_mset set_mset_single set_mset_union sup_bot_right)

text \<open>The entries behind the link may stand in any order.\<close>

lemma frees_reorder:
  assumes "frees c d n f xs" "0 < n" "length ys = nat n - 1"
  shows "\<exists>zs. xs = rev (tl (take (nat n) f)) @ zs \<and> frees c d n (take 1 f @ ys @ drop (nat n) f) (rev ys @ zs)"
proof -
  note bnd = frees_bounds [OF assms(1)]
  let ?f = "take 1 f @ ys @ drop (nat n) f"
  have f: "f \<noteq> []" using bnd assms(2) by auto
  have len: "length ?f = NICFREE c" using bnd assms(2,3) f by (cases f) auto
  have f0: "?f ! 0 = f ! 0" using f by (cases f) auto
  have tl: "tl (take (nat n) ?f) = ys"
  proof -
    have "nat n = Suc (length ys)" using assms(2,3) by linarith
    then show ?thesis using f by (cases f) auto
  qed
  from assms(1) show ?thesis
  proof (cases rule: frees.cases)
    case last
    then show ?thesis using frees.last [of n c ?f d] len f0 tl by auto
  next
    case (link ws)
    then show ?thesis using frees.link [of n c ?f d ws] len f0 tl by auto
  qed (use assms(2) in simp)
qed

section \<open>Freeing and allocating\<close>

lemma in_data_update [simp]:
  "in_data (s\<lparr>s_free := f\<rparr>) b = in_data s b" "in_data (s\<lparr>s_nfree := n\<rparr>) b = in_data s b" "in_data (s\<lparr>s_tfree := t\<rparr>) b = in_data s b"
  "in_data (s\<lparr>free_gate := g\<rparr>) b = in_data s b" "in_data (s\<lparr>dsk := d\<rparr>) b = in_data s b" "in_data (s\<lparr>s_fmod := m\<rparr>) b = in_data s b"
  "in_data (s\<lparr>fs_err := e\<rparr>) b = in_data s b"
  by (simp_all add: in_data_def)

lemma geom_ok_update [simp]:
  "geom_ok c (s\<lparr>s_free := f\<rparr>) = geom_ok c s" "geom_ok c (s\<lparr>s_nfree := n\<rparr>) = geom_ok c s" "geom_ok c (s\<lparr>s_tfree := t\<rparr>) = geom_ok c s"
  "geom_ok c (s\<lparr>free_gate := g\<rparr>) = geom_ok c s" "geom_ok c (s\<lparr>dsk := d\<rparr>) = geom_ok c s" "geom_ok c (s\<lparr>s_fmod := m\<rparr>) = geom_ok c s"
  "geom_ok c (s\<lparr>fs_err := e\<rparr>) = geom_ok c s"
  by (simp_all add: geom_ok_def)

lemma getment_geom: "geom_ok c s \<Longrightarrow> getment f s = (True, s)"
  by (simp add: geom_ok_def getment_def)

text \<open>What neither routine changes.\<close>

definition same_fs :: "fsys \<Rightarrow> fsys \<Rightarrow> bool" where
  "same_fs s s' \<longleftrightarrow> m_mounted s' = m_mounted s \<and> m_ron s' = m_ron s \<and> s_isize s' = s_isize s \<and> s_fsize s' = s_fsize s \<and> dsk_err s' = dsk_err s"

lemma same_fs_sel:
  assumes "same_fs s s'"
  shows "m_mounted s' = m_mounted s" "m_ron s' = m_ron s" "s_isize s' = s_isize s" "s_fsize s' = s_fsize s" "dsk_err s' = dsk_err s"
  using assms by (simp_all add: same_fs_def)

lemma same_fs_refl [simp]: "same_fs s s"
  by (simp add: same_fs_def)

lemma bfree_sort_ok:
  assumes geom: "geom_ok c s" and fr: "frees c (dsk s) (s_nfree s) (s_free s) xs" and d: "distinct xs" "\<forall>x \<in> set xs. in_data s x"
    and b: "in_data s b" "b \<notin> set xs"
  shows "\<exists>new ys f. bfree_sort srt b s = (Some new, s\<lparr>s_free := f\<rparr>) \<and> frees c (dsk s) (s_nfree s) f ys \<and> mset (new # ys) = add_mset b (mset xs)"
proof (cases "srt \<and> s_nfree s > 0")
  case False
  then show ?thesis using fr by (force simp: bfree_sort_def)
next
  case True
  let ?n = "nat (s_nfree s)"
  let ?old = "take (?n - 1) (drop 1 (s_free s))"
  have old: "?old = tl (take ?n (s_free s))"
    using True by (simp add: drop_Suc tl_take)
  obtain new ys where add: "daddr_add ?old b = (new, ys)" by fastforce
  note bnd = frees_bounds [OF fr]
  obtain zs where zs: "xs = rev ?old @ zs"
    using frees_reorder [OF fr _, of ?old] True bnd old by auto
  have bo: "b \<notin> set ?old" using b(2) zs by auto
  have ms: "add_mset new (mset ys) = add_mset b (mset ?old)" "length ys = length ?old"
    using daddr_add_mset [OF bo] add by simp_all
  have "new \<in> insert b (set ?old)" using set_daddr_add [OF bo] add by auto
  then have "in_data s new" using b(1) d(2) zs by auto
  then have new: "new \<noteq> 0" by (rule in_data_nonzero [OF geom])
  let ?f = "take 1 (s_free s) @ ys @ drop ?n (s_free s)"
  have "frees c (dsk s) (s_nfree s) ?f (rev ys @ zs)"
    using frees_reorder [OF fr, of ys] True ms(2) bnd zs old by auto
  moreover have "mset (new # rev ys @ zs) = add_mset b (mset xs)"
  proof -
    have "mset (new # rev ys @ zs) = add_mset new (mset ys) + mset zs" by simp
    also have "\<dots> = add_mset b (mset ?old) + mset zs" by (simp only: ms(1))
    also have "\<dots> = add_mset b (mset xs)" by (simp add: zs)
    finally show ?thesis .
  qed
  moreover have "bfree_sort srt b s = (Some new, s\<lparr>s_free := ?f\<rparr>)"
    using True add new by (simp add: bfree_sort_def)
  ultimately show ?thesis by blast
qed

lemma bfree_ok:
  assumes ok: "free_ok c s xs" and b: "in_data s b" "b \<notin> set xs" "dsk_err s b = None"
  shows "\<exists>s' ys. bfree c srt b s = Some s' \<and> free_ok c s' ys \<and> mset ys = add_mset b (mset xs) \<and> (\<not> srt \<longrightarrow> ys = b # xs) \<and>
    (\<forall>x. x \<notin> insert b (set xs) \<longrightarrow> dsk s' x = dsk s x) \<and> same_fs s s' \<and> fs_err s' = fs_err s"
proof -
  have geom: "geom_ok c s" and fr: "frees c (dsk s) (s_nfree s) (s_free s) xs" and d: "distinct xs" "\<forall>x \<in> set xs. in_data s x"
    and rest: "\<not> free_gate s" "\<forall>x \<in> set xs. dsk_err s x = None" "s_tfree s = int (length xs)"
    using ok by (auto simp: free_ok_def)
  let ?s = "s\<lparr>free_gate := True\<rparr>"
  obtain new ys f where sort: "bfree_sort srt b ?s = (Some new, ?s\<lparr>s_free := f\<rparr>)" and fr': "frees c (dsk s) (s_nfree s) f ys"
      and ms: "mset (new # ys) = add_mset b (mset xs)"
    using bfree_sort_ok [of c ?s xs b srt] geom fr d b by auto
  have un: "\<not> srt \<longrightarrow> new = b \<and> ys = xs"
  proof
    assume srt: "\<not> srt"
    then have "new = b" "f = s_free s"
      using sort by (auto simp: bfree_sort_def dest: arg_cong [where f = s_free])
    then show "new = b \<and> ys = xs"
      using fr fr' frees_fun by blast
  qed
  have sets: "insert new (set ys) = insert b (set xs)"
    using ms by (metis set_mset_add_mset_insert set_mset_mset list.simps(15))
  have dist: "distinct (new # ys)"
  proof -
    have "distinct (b # xs)" using d(1) b(2) by simp
    then show ?thesis using ms by (metis mset.simps(2) mset_eq_imp_distinct_iff)
  qed
  have new: "in_data ?s new" "new \<notin> set ys"
    using sets d(2) b(1) dist by auto
  obtain s' where s': "bfree_store c new (?s\<lparr>s_free := f\<rparr>) = Some s'" "frees c (dsk s') (s_nfree s') (s_free s') (new # ys)"
      "\<forall>x. x \<noteq> new \<longrightarrow> dsk s' x = dsk s x"
      "s' = ?s\<lparr>s_free := f\<rparr>\<lparr>dsk := dsk s', s_free := s_free s', s_nfree := s_nfree s', s_tfree := s_tfree s + 1, s_fmod := True\<rparr>"
    using bfree_store_ok [of c "?s\<lparr>s_free := f\<rparr>" ys new] geom fr' new by auto
  let ?t = "s'\<lparr>free_gate := False\<rparr>"
  have ret: "bfree c srt b s = Some ?t"
    using getment_geom [OF geom] b(1) rest(1) sort s'(1) by (simp add: bfree_def)
  have same: "same_fs s s'" "fs_err s' = fs_err s" "s_tfree s' = s_tfree s + 1" "geom_ok c s'"
    using geom by (subst s'(4), simp add: same_fs_def)+
  have "free_ok c ?t (new # ys)"
    unfolding free_ok_def
  proof (intro conjI ballI)
    fix x assume "x \<in> set (new # ys)"
    then have "x \<in> insert b (set xs)" using sets by auto
    then have "in_data s x" "dsk_err s x = None" using b d(2) rest(2) by auto
    then show "in_data ?t x" "dsk_err ?t x = None"
      using same_fs_sel [OF same(1)] by (simp_all add: in_data_def)
  qed (use s'(2) same dist rest(3) arg_cong [OF ms, of size] in auto)
  moreover have "\<forall>x. x \<notin> insert b (set xs) \<longrightarrow> dsk ?t x = dsk s x"
    using s'(3) sets by auto
  moreover have "same_fs s ?t" using same(1) by (simp add: same_fs_def)
  ultimately show ?thesis
    using ret ms un same(2) by (intro exI [of _ ?t] exI [of _ "new # ys"]) simp
qed

lemma balloc_ok:
  assumes ok: "free_ok c s (b # xs)"
  shows "\<exists>s'. balloc c s = Some (b, s') \<and> free_ok c s' xs \<and> b \<notin> set xs \<and> in_data s b \<and> dsk s' = dsk s \<and> same_fs s s' \<and> fs_err s' = fs_err s"
proof -
  have geom: "geom_ok c s" and fr: "frees c (dsk s) (s_nfree s) (s_free s) (b # xs)" and d: "distinct (b # xs)"
    and valid: "\<forall>x \<in> set (b # xs). in_data s x \<and> dsk_err s x = None" and rest: "\<not> free_gate s" "s_tfree s = int (length (b # xs))"
    using ok by (auto simp: free_ok_def)
  note bnd = frees_bounds [OF fr]
  have bad: "\<not> s_nfree s > int (NICFREE c)" "\<not> s_nfree s < 0" using bnd by auto
  have n: "s_nfree s \<noteq> 0" using fr by (auto elim: frees.cases)
  let ?i = "nat (s_nfree s - 1)"
  let ?f = "(s_free s)[?i := 0]"
  have i: "?i < length (s_free s)" using n bnd by auto
  have b0: "b \<noteq> 0" using in_data_nonzero [OF geom] valid by auto
  have "\<exists>f n. balloc c s = Some (b, s\<lparr>s_free := f, s_nfree := n, s_fmod := True, s_tfree := s_tfree s - 1\<rparr>) \<and> frees c (dsk s) n f xs"
  proof (cases "s_nfree s = 1")
    case True
    then have "tl (take 1 (s_free s)) = []" by (cases "s_free s") auto
    from fr True this have l: "b = s_free s ! 0" "frees c (dsk s) (df_nfree (dsk s b)) (canndaddr (nat (df_nfree (dsk s b))) (df_free c (dsk s b))) xs"
      by (auto elim: frees.cases)
    have "read_free_block_list b (s\<lparr>free_gate := True, s_fmod := True, s_nfree := 0, s_free := ?f\<rparr>) =
        (Some (dsk s b), s\<lparr>free_gate := True, s_fmod := True, s_nfree := 0, s_free := ?f\<rparr>)"
      using valid by (simp add: read_free_block_list_def bread_def in_data_def)
    then have "balloc c s = Some (b, s\<lparr>s_free := canndaddr (nat (df_nfree (dsk s b))) (df_free c (dsk s b)), s_nfree := df_nfree (dsk s b), s_fmod := True,
        s_tfree := s_tfree s - 1\<rparr>)"
      using getment_geom [OF geom] rest(1) True bad l(1) b0 frees_bounds [OF l(2)] valid
      by (simp add: balloc_def balloc_link_def Let_def in_data_def)
    then show ?thesis using l(2) by blast
  next
    case False
    then have n2: "1 < s_nfree s" using n bnd by auto
    have tk: "take (nat (s_nfree s)) (s_free s) = take ?i (s_free s) @ [s_free s ! ?i]"
    proof -
      have "nat (s_nfree s) = Suc ?i" using n2 by simp
      then show ?thesis using take_Suc_conv_app_nth [OF i] by simp
    qed
    have ne: "take ?i (s_free s) \<noteq> []" using n2 i by auto
    have tl: "rev (tl (take (nat (s_nfree s)) (s_free s))) = s_free s ! ?i # rev (tl (take ?i (s_free s)))"
      unfolding tk using ne by simp
    have f: "tl (take ?i ?f) = tl (take ?i (s_free s))" "?f ! 0 = s_free s ! 0" using n2 by simp_all
    have bi: "b = s_free s ! ?i" using fr tl n2 by (auto elim: frees.cases)
    from fr have "frees c (dsk s) (s_nfree s - 1) ?f xs"
    proof (cases rule: frees.cases)
      case last
      then show ?thesis using frees.last [of "s_nfree s - 1" c ?f "dsk s"] n2 tl f bnd by simp
    next
      case (link ys)
      then show ?thesis using frees.link [of "s_nfree s - 1" c ?f "dsk s" ys] n2 tl f bnd by simp
    qed
    moreover have "balloc c s = Some (b, s\<lparr>s_free := ?f, s_nfree := s_nfree s - 1, s_fmod := True, s_tfree := s_tfree s - 1\<rparr>)"
      using getment_geom [OF geom] rest(1) n2 bad bi b0 valid by (simp add: balloc_def Let_def in_data_def)
    ultimately show ?thesis by blast
  qed
  then obtain f m where ret: "balloc c s = Some (b, s\<lparr>s_free := f, s_nfree := m, s_fmod := True, s_tfree := s_tfree s - 1\<rparr>)" "frees c (dsk s) m f xs"
    by blast
  have "free_ok c (s\<lparr>s_free := f, s_nfree := m, s_fmod := True, s_tfree := s_tfree s - 1\<rparr>) xs"
    using geom ret(2) d valid rest by (simp add: free_ok_def)
  then show ?thesis
    using ret(1) d valid by (simp add: same_fs_def)
qed

lemma balloc_full:
  assumes "free_ok c s []"
  shows "\<exists>s'. balloc c s = Some (0, s') \<and> fs_err s' = Some ENOSPC \<and> free_ok c s' [] \<and> dsk s' = dsk s \<and> same_fs s s'"
proof -
  have geom: "geom_ok c s" and fr: "frees c (dsk s) (s_nfree s) (s_free s) []" and rest: "\<not> free_gate s" "s_tfree s = 0"
    using assms by (auto simp: free_ok_def)
  note bnd = frees_bounds [OF fr]
  have "balloc c s = Some (enospc (s\<lparr>free_gate := True\<rparr>)) \<or> balloc c s = Some (enospc (s\<lparr>free_gate := True, s_fmod := True, s_nfree := 0\<rparr>))"
    using fr
  proof (cases rule: frees.cases)
    case last
    then have "s_nfree s = 1"
      using bnd by (cases "s_free s"; cases "nat (s_nfree s)"; cases "nat (s_nfree s) - 1") auto
    then show ?thesis
      using getment_geom [OF geom] rest last bnd by (simp add: balloc_def Let_def)
  qed (use getment_geom [OF geom] rest in \<open>auto simp: balloc_def Let_def\<close>)
  moreover have "frees c (dsk s) 0 (s_free s) []" using bnd by (simp add: frees.none)
  ultimately show ?thesis
    using geom rest by (auto simp: enospc_def free_ok_def same_fs_def)
qed

section \<open>Freeing a tree of blocks\<close>

text \<open>The blocks of a file under an address of level \<open>l\<close>.\<close>

primrec tree :: "fs_cfg \<Rightarrow> (daddr \<Rightarrow> octet list) \<Rightarrow> nat \<Rightarrow> daddr \<Rightarrow> daddr list" where
  "tree c d 0 b = (if b = 0 then [] else [b])"
| "tree c d (Suc l) b = (if b = 0 then [] else b # concat (map (\<lambda>x. tree c d l (candaddr x)) (get_list 0 (NBN c) (d b))))"

lemma tree_0 [simp]: "tree c d l 0 = []"
  by (cases l) auto

lemma tree_frame: "(\<And>x. x \<in> set (tree c d l b) \<Longrightarrow> d' x = d x) \<Longrightarrow> tree c d' l b = tree c d l b"
proof (induction l arbitrary: b)
  case (Suc l)
  show ?case
  proof (cases "b = 0")
    case False
    then have "d' b = d b" by (intro Suc.prems) simp
    moreover have "map (\<lambda>x. tree c d' l (candaddr x)) (get_list 0 (NBN c) (d b)) = map (\<lambda>x. tree c d l (candaddr x)) (get_list 0 (NBN c) (d b))"
    proof (rule map_cong [OF refl])
      fix e assume e: "e \<in> set (get_list 0 (NBN c) (d b))"
      show "tree c d' l (candaddr e) = tree c d l (candaddr e)"
        by (rule Suc.IH, rule Suc.prems) (use e False in auto)
    qed
    ultimately show ?thesis by (simp only: tree.simps False if_False)
  qed simp
qed simp

text \<open>A routine \<open>f\<close> that gives the blocks \<open>T\<close> of the disk under an address back.\<close>

definition freed :: "fs_cfg \<Rightarrow> fsys \<Rightarrow> daddr list \<Rightarrow> daddr list \<Rightarrow> fsys \<Rightarrow> bool" where
  "freed c s xs ts s' \<longleftrightarrow> (\<exists>ys. free_ok c s' ys \<and> mset ys = mset xs + mset ts) \<and> (\<forall>x. x \<notin> set xs \<union> set ts \<longrightarrow> dsk s' x = dsk s x) \<and> same_fs s s' \<and>
     fs_err s' = fs_err s"

definition freeable :: "fsys \<Rightarrow> daddr list \<Rightarrow> daddr list \<Rightarrow> bool" where
  "freeable s xs ts \<longleftrightarrow> distinct ts \<and> set ts \<inter> set xs = {} \<and> (\<forall>b \<in> set ts. in_data s b \<and> dsk_err s b = None)"

definition gives_back :: "fs_cfg \<Rightarrow> ((daddr \<Rightarrow> octet list) \<Rightarrow> daddr \<Rightarrow> daddr list) \<Rightarrow> (daddr \<Rightarrow> fsys \<Rightarrow> fsys option) \<Rightarrow> bool" where
  "gives_back c T f \<longleftrightarrow> (\<forall>s xs b. b \<noteq> 0 \<longrightarrow> free_ok c s xs \<longrightarrow> freeable s xs (T (dsk s) b) \<longrightarrow> (\<exists>s'. f b s = Some s' \<and> freed c s xs (T (dsk s) b) s'))"

lemma gives_backD:
  "gives_back c T f \<Longrightarrow> b \<noteq> 0 \<Longrightarrow> free_ok c s xs \<Longrightarrow> freeable s xs (T (dsk s) b) \<Longrightarrow> \<exists>s'. f b s = Some s' \<and> freed c s xs (T (dsk s) b) s'"
  by (simp add: gives_back_def)

lemma freed_trans:
  assumes "freed c s xs ts s1" "\<And>ys. free_ok c s1 ys \<Longrightarrow> mset ys = mset xs + mset ts \<Longrightarrow> freed c s1 ys us s2"
  shows "freed c s xs (ts @ us) s2"
proof -
  obtain ys where ys: "free_ok c s1 ys" "mset ys = mset xs + mset ts"
    using assms(1) by (auto simp: freed_def)
  then have set: "set ys = set xs \<union> set ts" by (metis set_mset_mset set_mset_union)
  from assms(2) [OF ys] ys(2) set assms(1) show ?thesis
    by (auto simp: freed_def same_fs_def)
qed

lemma freeable_append:
  assumes "freeable s xs (ts @ us)" "mset ys = mset xs + mset ts" "same_fs s s1"
  shows "freeable s1 ys us"
proof -
  have "set ys = set xs \<union> set ts" using assms(2) by (metis set_mset_mset set_mset_union)
  then show ?thesis
    using assms(1) same_fs_sel [OF assms(3)] by (auto simp: freeable_def in_data_def)
qed

lemma bfree_gives_back: "gives_back c (\<lambda>d b. [b]) (bfree c srt)"
  unfolding gives_back_def
proof (intro allI impI)
  fix s xs b assume ok: "free_ok c s xs" and able: "freeable s xs [b]"
  have b: "in_data s b" "b \<notin> set xs" "dsk_err s b = None" using able by (auto simp: freeable_def)
  from bfree_ok [OF ok b, of srt] show "\<exists>s'. bfree c srt b s = Some s' \<and> freed c s xs [b] s'"
    by (fastforce simp: freed_def)
qed

lemma free_each_ok:
  assumes "gives_back c T f" "\<And>d d' b. (\<And>x. x \<in> set (T d b) \<Longrightarrow> d' x = d x) \<Longrightarrow> T d' b = T d b" "\<And>d. T d 0 = []"
    and "free_ok c s xs" "freeable s xs (concat (map (\<lambda>e. T (dsk s) (candaddr e)) es))"
  shows "\<exists>s'. free_each f es s = Some s' \<and> freed c s xs (concat (map (\<lambda>e. T (dsk s) (candaddr e)) es)) s'"
  using assms(4,5)
proof (induction es arbitrary: s xs)
  case Nil
  then show ?case by (auto simp: freed_def)
next
  case (Cons e es)
  show ?case
  proof (cases "e = 0")
    case True
    then show ?thesis using Cons assms(3) by simp
  next
    case False
    let ?t = "T (dsk s) (candaddr e)"
    let ?us = "concat (map (\<lambda>e. T (dsk s) (candaddr e)) es)"
    have able: "freeable s xs (?t @ ?us)" using Cons.prems by simp
    then have "freeable s xs ?t" by (auto simp: freeable_def)
    with False have "\<exists>s1. f (candaddr e) s = Some s1 \<and> freed c s xs ?t s1"
      by (intro gives_backD [OF assms(1) _ Cons.prems(1)]) simp_all
    then obtain s1 where s1: "f (candaddr e) s = Some s1" "freed c s xs ?t s1" by blast
    obtain ys where ys: "free_ok c s1 ys" "mset ys = mset xs + mset ?t" using s1(2) by (auto simp: freed_def)
    have T: "T (dsk s1) (candaddr e') = T (dsk s) (candaddr e')" if "e' \<in> set es" for e'
    proof (rule assms(2))
      fix x assume "x \<in> set (T (dsk s) (candaddr e'))"
      then have "x \<in> set ?us" using that by auto
      then have "x \<notin> set xs \<union> set ?t" using able by (auto simp: freeable_def)
      then show "dsk s1 x = dsk s x" using s1(2) by (simp add: freed_def)
    qed
    then have us: "concat (map (\<lambda>e. T (dsk s1) (candaddr e)) es) = ?us" by (metis (no_types, lifting) map_cong)
    have "freeable s1 ys ?us"
      by (rule freeable_append [OF able ys(2)]) (use s1(2) in \<open>simp add: freed_def\<close>)
    then obtain s2 where s2: "free_each f es s1 = Some s2" "freed c s1 ys ?us s2"
      using Cons.IH [OF ys(1)] us by auto
    have "freed c s xs (?t @ ?us) s2"
    proof (rule freed_trans [OF s1(2)])
      fix zs assume "mset zs = mset xs + mset ?t"
      then have "mset zs = mset ys" using ys(2) by simp
      then show "freed c s1 zs ?us s2" using s2(2) mset_eq_setD by (fastforce simp: freed_def)
    qed
    then show ?thesis using False s1(1) s2(1) by simp
  qed
qed

lemma concat_rev_mset: "mset (concat (rev xss)) = mset (concat xss)"
  by (induction xss) auto

lemma freed_mset: "freed c s xs ts s' \<Longrightarrow> mset ts = mset us \<Longrightarrow> freed c s xs us s'"
  using mset_eq_setD by (fastforce simp: freed_def)

lemma indfree_gives_back:
  "gives_back c (\<lambda>d. tree c d l) (indfree c srt l)"
proof (induction l)
  case 0
  show ?case
    unfolding gives_back_def
  proof (intro allI impI)
    fix s xs b assume "b \<noteq> 0" "free_ok c s xs" "freeable s xs (tree c (dsk s) 0 b)"
    then show "\<exists>s'. indfree c srt 0 b s = Some s' \<and> freed c s xs (tree c (dsk s) 0 b) s'"
      using gives_backD [OF bfree_gives_back [of c srt]] by simp
  qed
next
  case (Suc l)
  show ?case
    unfolding gives_back_def
  proof (intro allI impI)
    fix s xs b
    assume b: "b \<noteq> 0" and ok: "free_ok c s xs" and able: "freeable s xs (tree c (dsk s) (Suc l) b)"
    let ?es = "get_list 0 (NBN c) (dsk s b)"
    let ?ts = "concat (map (\<lambda>x. tree c (dsk s) l (candaddr x)) (rev ?es))"
    let ?f = "\<lambda>b1. if l = 0 then bfree c srt b1 else indfree c srt l b1"
    have ms: "mset (tree c (dsk s) (Suc l) b) = mset (?ts @ [b])"
      using b by (simp add: concat_rev_mset flip: rev_map)
    then have set: "set (tree c (dsk s) (Suc l) b) = set (?ts @ [b])" by (rule mset_eq_setD)
    have able': "freeable s xs (?ts @ [b])"
      using able set mset_eq_imp_distinct_iff [OF ms] unfolding freeable_def by metis
    then have able1: "freeable s xs ?ts" by (auto simp: freeable_def)
    have f: "gives_back c (\<lambda>d. tree c d l) ?f"
      using Suc.IH bfree_gives_back [of c srt] by (cases l) (auto simp: gives_back_def)
    obtain s1 where s1: "free_each ?f (rev ?es) s = Some s1" "freed c s xs ?ts s1"
      using free_each_ok [OF f tree_frame tree_0 ok able1] by blast
    obtain ys where ys: "free_ok c s1 ys" "mset ys = mset xs + mset ?ts" using s1(2) by (auto simp: freed_def)
    have "freeable s1 ys [b]"
      by (rule freeable_append [OF able' ys(2)]) (use s1(2) in \<open>simp add: freed_def\<close>)
    then obtain s2 where s2: "bfree c srt b s1 = Some s2" "freed c s1 ys [b] s2"
      using gives_backD [OF bfree_gives_back [of c srt] b ys(1)] by auto
    have "freed c s xs (?ts @ [b]) s2"
    proof (rule freed_trans [OF s1(2)])
      fix zs assume "mset zs = mset xs + mset ?ts"
      then have "mset zs = mset ys" using ys(2) by simp
      then show "freed c s1 zs [b] s2" using s2(2) mset_eq_setD by (fastforce simp: freed_def)
    qed
    moreover have "dsk_err s b = None" using able b by (simp add: freeable_def)
    then have "indfree c srt (Suc l) b s = Some s2"
      using b s1(1) s2(1) by (simp add: bread_def)
    ultimately show "\<exists>s'. indfree c srt (Suc l) b s = Some s' \<and> freed c s xs (tree c (dsk s) (Suc l) b) s'"
      using freed_mset ms by metis
  qed
qed

section \<open>The contract of a pool of blocks\<close>

text \<open>What the routines that store files need: \<open>rep s xs\<close> says that the blocks \<open>xs\<close> are free.\<close>

locale block_pool =
  fixes rep :: "'s \<Rightarrow> 'b list \<Rightarrow> bool"
    and alloc :: "'s \<Rightarrow> ('b \<times> 's) option"
    and give :: "'b \<Rightarrow> 's \<Rightarrow> 's option"
    and valid :: "'s \<Rightarrow> 'b \<Rightarrow> bool"
  assumes rep_distinct: "rep s xs \<Longrightarrow> distinct xs"
    and rep_alloc: "rep s (b # xs) \<Longrightarrow> \<exists>s'. alloc s = Some (b, s') \<and> rep s' xs \<and> valid s' = valid s"
    and rep_give: "rep s xs \<Longrightarrow> valid s b \<Longrightarrow> b \<notin> set xs \<Longrightarrow> \<exists>s' ys. give b s = Some s' \<and> rep s' ys \<and> mset ys = add_mset b (mset xs) \<and> valid s' = valid s"

primrec allocs :: "('s \<Rightarrow> ('b \<times> 's) option) \<Rightarrow> nat \<Rightarrow> 's \<Rightarrow> ('b list \<times> 's) option" where
  "allocs alloc 0 s = Some ([], s)"
| "allocs alloc (Suc n) s = do { (b, s) \<leftarrow> alloc s; (bs, s) \<leftarrow> allocs alloc n s; Some (b # bs, s) }"

primrec gives :: "('b \<Rightarrow> 's \<Rightarrow> 's option) \<Rightarrow> 'b list \<Rightarrow> 's \<Rightarrow> 's option" where
  "gives give [] s = Some s"
| "gives give (b # bs) s = do { s \<leftarrow> give b s; gives give bs s }"

context block_pool
begin

lemma rep_allocs: "rep s (bs @ xs) \<Longrightarrow> \<exists>s'. allocs alloc (length bs) s = Some (bs, s') \<and> rep s' xs \<and> valid s' = valid s"
proof (induction bs arbitrary: s)
  case (Cons b bs)
  then obtain s1 where s1: "alloc s = Some (b, s1)" "rep s1 (bs @ xs)" "valid s1 = valid s"
    using rep_alloc by fastforce
  with Cons.IH [OF s1(2)] show ?case by auto
qed simp

lemma rep_gives:
  "rep s xs \<Longrightarrow> distinct (bs @ xs) \<Longrightarrow> \<forall>b \<in> set bs. valid s b \<Longrightarrow>
    \<exists>s' ys. gives give bs s = Some s' \<and> rep s' ys \<and> mset ys = mset bs + mset xs \<and> valid s' = valid s"
proof (induction bs arbitrary: s xs)
  case (Cons b bs)
  have "valid s b" "b \<notin> set xs" using Cons.prems(2,3) by simp_all
  from rep_give [OF Cons.prems(1) this]
  obtain s1 ys where s1: "give b s = Some s1" "rep s1 ys" "mset ys = add_mset b (mset xs)" "valid s1 = valid s" by blast
  have "set ys = insert b (set xs)" using s1(3) by (metis set_mset_add_mset_insert set_mset_mset)
  then have "distinct (bs @ ys)" using Cons.prems(2) rep_distinct [OF s1(2)] by auto
  moreover have "\<forall>x \<in> set bs. valid s1 x" using Cons.prems(3) s1(4) by simp
  ultimately obtain s2 zs where s2: "gives give bs s1 = Some s2" "rep s2 zs" "mset zs = mset bs + mset ys" "valid s2 = valid s1"
    using Cons.IH [OF s1(2)] by blast
  then have "gives give (b # bs) s = Some s2" "mset zs = mset (b # bs) + mset xs"
    using s1 by simp_all
  with s2(2,4) s1(4) show ?case by auto
qed auto

text \<open>Blocks that are given back come out again, each once, with those that were free before.\<close>

lemma give_then_alloc:
  assumes "rep s xs" "distinct (bs @ xs)" "\<forall>b \<in> set bs. valid s b"
  shows "\<exists>s1 ys s2. gives give bs s = Some s1 \<and> allocs alloc (length bs + length xs) s1 = Some (ys, s2) \<and> mset ys = mset bs + mset xs \<and> distinct ys \<and>
    rep s2 []"
proof -
  obtain s1 ys where s1: "gives give bs s = Some s1" "rep s1 ys" "mset ys = mset bs + mset xs"
    using rep_gives [OF assms] by blast
  have "length ys = length bs + length xs"
    using s1(3) by (metis mset_append length_append size_mset)
  then obtain s2 where "allocs alloc (length bs + length xs) s1 = Some (ys, s2)" "rep s2 []"
    using rep_allocs [of s1 ys "[]"] s1(2) by auto
  then show ?thesis using s1 rep_distinct [OF s1(2)] by blast
qed

end

definition usable :: "fsys \<Rightarrow> daddr \<Rightarrow> bool" where
  "usable s b \<longleftrightarrow> in_data s b \<and> dsk_err s b = None"

lemma usable_same: "same_fs s s' \<Longrightarrow> usable s' = usable s"
  by (auto simp: usable_def fun_eq_iff in_data_def same_fs_def)

interpretation fs: block_pool "free_ok c" "balloc c" "bfree c srt" usable for c srt
proof
  show "distinct xs" if "free_ok c s xs" for s xs
    using that by (simp add: free_ok_def)
  show "\<exists>s'. balloc c s = Some (b, s') \<and> free_ok c s' xs \<and> usable s' = usable s" if "free_ok c s (b # xs)" for s b xs
    using balloc_ok [OF that] usable_same by metis
  show "\<exists>s' ys. bfree c srt b s = Some s' \<and> free_ok c s' ys \<and> mset ys = add_mset b (mset xs) \<and> usable s' = usable s"
    if "free_ok c s xs" "usable s b" "b \<notin> set xs" for s xs b
  proof -
    have "in_data s b" "dsk_err s b = None" using that(2) by (simp_all add: usable_def)
    from bfree_ok [OF that(1) this(1) that(3) this(2), of srt] usable_same show ?thesis by metis
  qed
qed

section \<open>Properties\<close>

text \<open>Freeing a block adds it, whether the list is kept in order or not, to the free blocks: afterwards these are the old ones and the new one,
  each once, with the right count, and apart from the new list the device is as before; no block but a free one is written.\<close>

theorem bfree_adds:
  assumes ok: "free_ok c s xs" and b: "in_data s b" "b \<notin> set xs" "dsk_err s b = None"
  shows "\<exists>s' ys. bfree c srt b s = Some s' \<and> free_ok c s' ys \<and> mset ys = add_mset b (mset xs) \<and> (\<not> srt \<longrightarrow> ys = b # xs) \<and>
    (\<forall>x. x \<notin> insert b (set xs) \<longrightarrow> dsk s' x = dsk s x) \<and> same_fs s s' \<and> fs_err s' = fs_err s"
  by (rule bfree_ok [OF assms])

text \<open>Allocating takes the first of the free blocks off: the block was free and is so no longer, the others still are, the count is right, and
  no block of the device is written.\<close>

theorem balloc_takes:
  assumes ok: "free_ok c s (b # xs)"
  shows "\<exists>s'. balloc c s = Some (b, s') \<and> free_ok c s' xs \<and> b \<notin> set xs \<and> in_data s b \<and> dsk s' = dsk s \<and> same_fs s s' \<and> fs_err s' = fs_err s"
  by (rule balloc_ok [OF assms])

text \<open>C19: Blocks that are freed and the ones that were free before are what is allocated next, each exactly once: no block is handed out twice and none
  is lost, in whatever number of full lists they have been stored on the device meanwhile. Then the device is full.\<close>

theorem freed_blocks_come_back:
  assumes "free_ok c s xs" "distinct (bs @ xs)" "\<forall>b \<in> set bs. usable s b"
  shows "\<exists>s1 ys s2 s3. gives (bfree c srt) bs s = Some s1 \<and> allocs (balloc c) (length bs + length xs) s1 = Some (ys, s2) \<and>
    mset ys = mset bs + mset xs \<and> distinct ys \<and> balloc c s2 = Some (0, s3) \<and> fs_err s3 = Some ENOSPC"
proof -
  obtain s1 ys s2 where "gives (bfree c srt) bs s = Some s1" "allocs (balloc c) (length bs + length xs) s1 = Some (ys, s2)"
      "mset ys = mset bs + mset xs" "distinct ys" "free_ok c s2 []"
    using fs.give_then_alloc [OF assms, of srt] by blast
  with balloc_full [of c s2] show ?thesis by blast
qed

text \<open>When the list is kept in order and a block is freed a second time, \<open>bfree\<close> notices it, warns, and returns with the gate of the list of free
  blocks locked: from then on nothing can be allocated or freed on the device, every attempt waits for ever.\<close>

theorem bfree_dup_locks_device:
  assumes ok: "free_ok c s xs" and b: "in_data s b" "b \<in> set (tl (take (nat (s_nfree s)) (s_free s)))"
    and srt: "sorted_wrt (\<lambda>x y. sint x > sint y) (tl (take (nat (s_nfree s)) (s_free s)))"
  shows "\<exists>s'. bfree c True b s = Some s' \<and> balloc c s' = None \<and> (\<forall>srt x. in_data s' x \<longrightarrow> bfree c srt x s' = None)"
proof -
  have geom: "geom_ok c s" and gate: "\<not> free_gate s" using ok by (auto simp: free_ok_def)
  have n: "0 < s_nfree s"
  proof (rule ccontr)
    assume "\<not> ?thesis"
    then show False using b(2) by simp
  qed
  let ?n = "nat (s_nfree s)"
  have "take (?n - 1) (drop 1 (s_free s)) = tl (take ?n (s_free s))"
    using n by (simp add: drop_Suc tl_take)
  then have "daddr_add (take (?n - 1) (drop 1 (s_free s))) b = (0, take (?n - 1) (drop 1 (s_free s)))"
    using daddr_add_dup [OF b(2) srt] by simp
  then have "\<exists>f. bfree_sort True b (s\<lparr>free_gate := True\<rparr>) = (None, s\<lparr>free_gate := True, s_free := f\<rparr>)"
    using n by (simp add: bfree_sort_def Let_def) blast
  then obtain f where f: "bfree_sort True b (s\<lparr>free_gate := True\<rparr>) = (None, s\<lparr>free_gate := True, s_free := f\<rparr>)" ..
  let ?s = "s\<lparr>free_gate := True, s_free := f\<rparr>"
  have "bfree c True b s = Some ?s"
    using getment_geom [OF geom] b(1) gate f by (simp add: bfree_def)
  moreover have "getment True ?s = (True, ?s)"
    using geom by (simp add: getment_def geom_ok_def)
  ultimately show ?thesis
    by (intro exI [of _ ?s]) (simp add: balloc_def bfree_def)
qed

text \<open>Freeing an address of a file with its levels of indirection frees every block of the tree under it, the address blocks and the leaves,
  each exactly once, and leaves all other blocks alone, although the list of free blocks is written into blocks of the tree on the way.\<close>

theorem indfree_frees_tree:
  assumes "free_ok c s xs" "b \<noteq> 0" "freeable s xs (tree c (dsk s) l b)"
  shows "\<exists>s' ys. indfree c srt l b s = Some s' \<and> free_ok c s' ys \<and> mset ys = mset xs + mset (tree c (dsk s) l b) \<and>
    (\<forall>x. x \<notin> set xs \<union> set (tree c (dsk s) l b) \<longrightarrow> dsk s' x = dsk s x)"
  using gives_backD [OF indfree_gives_back assms(2,1,3)] by (fastforce simp: freed_def)

subsection \<open>An example\<close>

text \<open>A device whose blocks have room for a list of two: blocks 2 to 8 hold data, 4 and 6 are free.\<close>

definition fs_ex_cfg :: fs_cfg where
  "fs_ex_cfg = \<lparr>BSIZE = 12, NICFREE = 2, NICINOD = 2, ND = 1\<rparr>"

definition fs_ex :: "int \<Rightarrow> daddr list \<Rightarrow> int \<Rightarrow> fsys" where
  "fs_ex n f t = \<lparr>m_mounted = True, m_ron = False, s_isize = 2, s_fsize = 9, s_nfree = n, s_free = f, s_tfree = t, s_fmod = False, free_gate = False,
     dsk = (\<lambda>_. replicate 12 0), dsk_err = (\<lambda>_. None), fs_err = None\<rparr>"

lemma zero_block: "df_nfree (replicate 12 0) = 0" "canndaddr 0 (df_free fs_ex_cfg (replicate 12 0)) = [0, 0]"
  by (simp_all add: df_nfree_def get16_def df_free_def fs_ex_cfg_def canndaddr_def get_list_def get32_def upt_rec numeral_eq_Suc)

lemma fs_ex_full: "free_ok fs_ex_cfg (fs_ex 2 [4, 6] 2) [6, 4]"
proof -
  have "frees fs_ex_cfg (\<lambda>_. replicate 12 0) 0 [0, 0] []"
    by (rule frees.none) (simp add: fs_ex_cfg_def)
  then have "frees fs_ex_cfg (\<lambda>_. replicate 12 0) 2 [4, 6] (rev (tl (take (nat 2) [4, 6])) @ [4, 6] ! 0 # [])"
    using frees.link [of 2 fs_ex_cfg "[4, 6]" "\<lambda>_. replicate 12 0" "[]"] by (simp add: zero_block) (simp add: fs_ex_cfg_def)
  then show ?thesis
    by (simp add: free_ok_def fs_ex_def geom_ok_def fs_cfg_ok_def in_data_def) (simp add: fs_ex_cfg_def)
qed

theorem bfree_adds_witness:
  "\<exists>s' ys. bfree fs_ex_cfg True 7 (fs_ex 2 [4, 6] 2) = Some s' \<and> free_ok fs_ex_cfg s' ys \<and> mset ys = add_mset 7 (mset [6, 4]) \<and> (\<not> True \<longrightarrow> ys = [7, 6, 4]) \<and>
    (\<forall>x. x \<notin> insert 7 (set [6, 4]) \<longrightarrow> dsk s' x = dsk (fs_ex 2 [4, 6] 2) x) \<and> same_fs (fs_ex 2 [4, 6] 2) s' \<and> fs_err s' = fs_err (fs_ex 2 [4, 6] 2)"
  by (rule bfree_adds [OF fs_ex_full]) (simp_all add: fs_ex_def in_data_def)

theorem balloc_takes_witness:
  "\<exists>s'. balloc fs_ex_cfg (fs_ex 2 [4, 6] 2) = Some (6, s') \<and> free_ok fs_ex_cfg s' [4] \<and> 6 \<notin> set [4 :: daddr] \<and> in_data (fs_ex 2 [4, 6] 2) 6 \<and>
    dsk s' = dsk (fs_ex 2 [4, 6] 2) \<and> same_fs (fs_ex 2 [4, 6] 2) s' \<and> fs_err s' = fs_err (fs_ex 2 [4, 6] 2)"
  by (rule balloc_takes [OF fs_ex_full])

theorem freed_blocks_come_back_witness:
  "\<exists>s1 ys s2 s3. gives (bfree fs_ex_cfg False) [3, 8, 7] (fs_ex 2 [4, 6] 2) = Some s1 \<and>
    allocs (balloc fs_ex_cfg) (length [3 :: daddr, 8, 7] + length [6 :: daddr, 4]) s1 = Some (ys, s2) \<and>
    mset ys = mset [3, 8, 7] + mset [6, 4] \<and> distinct ys \<and> balloc fs_ex_cfg s2 = Some (0, s3) \<and> fs_err s3 = Some ENOSPC"
  by (rule freed_blocks_come_back [OF fs_ex_full]) (simp_all add: fs_ex_def usable_def in_data_def)

theorem bfree_dup_locks_device_witness:
  "\<exists>s'. bfree fs_ex_cfg True 6 (fs_ex 2 [4, 6] 2) = Some s' \<and> balloc fs_ex_cfg s' = None \<and> (\<forall>srt x. in_data s' x \<longrightarrow> bfree fs_ex_cfg srt x s' = None)"
  by (rule bfree_dup_locks_device [OF fs_ex_full]) (simp_all add: fs_ex_def in_data_def)

text \<open>An address block 5 with the entries 7, 0 and 3.\<close>

definition fs_ex_tree :: fsys where
  "fs_ex_tree = (fs_ex 2 [4, 6] 2)\<lparr>dsk := (\<lambda>_. replicate 12 0)(5 := put_list 0 [candaddr 7, 0, candaddr 3] (replicate 12 0))\<rparr>"

lemma fs_ex_tree_blocks: "tree fs_ex_cfg (dsk fs_ex_tree) 1 5 = [5, 7, 3]"
proof -
  have "get_list 0 (length [candaddr 7, 0, candaddr 3]) (put_list 0 [candaddr 7, 0, candaddr 3] (replicate 12 0)) = [candaddr 7, 0, candaddr 3]"
    by (rule get_list_put_list) simp
  then have "get_list 0 3 (put_list 0 [candaddr 7, 0, candaddr 3] (replicate 12 0)) = [candaddr 7, 0, candaddr 3]" by (simp add: numeral_3_eq_3)
  then show ?thesis by (simp add: fs_ex_tree_def fs_ex_cfg_def NBN_def del: put_list.simps)
qed

lemma fs_ex_tree_ok: "free_ok fs_ex_cfg fs_ex_tree [6, 4]"
proof -
  have "frees fs_ex_cfg (dsk fs_ex_tree) 2 [4, 6] [6, 4]"
    by (rule frees_frame [where d = "\<lambda>_. replicate 12 0"]) (use fs_ex_full in \<open>auto simp: free_ok_def fs_ex_def fs_ex_tree_def\<close>)
  then show ?thesis
    using fs_ex_full by (simp add: free_ok_def fs_ex_tree_def fs_ex_def geom_ok_def in_data_def)
qed

theorem indfree_frees_tree_witness:
  "\<exists>s' ys. indfree fs_ex_cfg False 1 5 fs_ex_tree = Some s' \<and> free_ok fs_ex_cfg s' ys \<and> mset ys = mset [6, 4] + mset (tree fs_ex_cfg (dsk fs_ex_tree) 1 5) \<and>
    (\<forall>x. x \<notin> set [6, 4] \<union> set (tree fs_ex_cfg (dsk fs_ex_tree) 1 5) \<longrightarrow> dsk s' x = dsk fs_ex_tree x)"
  by (rule indfree_frees_tree [OF fs_ex_tree_ok])
    (simp, simp only: fs_ex_tree_blocks freeable_def, simp add: fs_ex_tree_def fs_ex_def in_data_def)

end
