(* ===== verification/FsFile.thy ===== *)
theory FsFile
  imports FsFree
begin

unbundle bit_operations_syntax

text \<open>
  The contents of files: \<open>lmap\<close>, \<open>vmap\<close>, \<open>aread\<close>, \<open>fread\<close>, \<open>fwrite\<close> and \<open>vread\<close> of \<open>coh.386/fs3.c\<close>, with the moves \<open>ioread\<close>,
  \<open>iowrite\<close> and \<open>ioclear\<close> of \<open>coh.386/bio.c\<close>. An inode holds \<open>ND\<close> addresses of blocks and three of address blocks, with one, two and three
  levels. Reading ahead and asynchronous writing only start transfers and are left out.
\<close>

section \<open>State\<close>

text \<open>\<open>i_blk\<close> says that the inode is a block special file; then the state is that of the device \<open>i_rdev\<close>.\<close>

record inode =
  i_blk :: bool
  i_size :: nat
  i_addr :: "daddr list"
  i_lastblock :: int

text \<open>
  A request: where in the file, how many bytes are left, the bytes of the user at \<open>vbase\<close>, behind those that were read before, and how many of them
  the process may access. \<open>kucopy\<close> and \<open>ukcopy\<close> move all of a piece, or set \<open>EFAULT\<close>.
\<close>

record io =
  io_seek :: nat
  io_ioc :: nat
  io_data :: "octet list"
  io_room :: nat

definition blockn :: "fs_cfg \<Rightarrow> nat \<Rightarrow> nat" where
  "blockn c k = k div BSIZE c"

definition blocko :: "fs_cfg \<Rightarrow> nat \<Rightarrow> nat" where
  "blocko c k = k mod BSIZE c"

section \<open>Moving bytes\<close>

text \<open>To the user: the bytes are appended to what the user has.\<close>

definition iowrite :: "octet list \<Rightarrow> io \<Rightarrow> fsys \<Rightarrow> io \<times> fsys" where
  "iowrite v iop s =
     (if length v \<le> io_room iop
      then (iop\<lparr>io_data := io_data iop @ v, io_room := io_room iop - length v, io_ioc := io_ioc iop - length v\<rparr>, s)
      else (iop\<lparr>io_ioc := io_ioc iop - length v\<rparr>, s\<lparr>fs_err := Some EFAULT\<rparr>))"

definition ioclear :: "nat \<Rightarrow> io \<Rightarrow> fsys \<Rightarrow> io \<times> fsys" where
  "ioclear n iop s = iowrite (replicate n 0) iop s"

text \<open>From the user: the first bytes of what is left; nothing on a fault.\<close>

definition ioread :: "nat \<Rightarrow> io \<Rightarrow> fsys \<Rightarrow> octet list option \<times> io \<times> fsys" where
  "ioread n iop s =
     (if n \<le> io_room iop
      then (Some (take n (io_data iop)), iop\<lparr>io_data := drop n (io_data iop), io_room := io_room iop - n, io_ioc := io_ioc iop - n\<rparr>, s)
      else (None, iop\<lparr>io_ioc := io_ioc iop - n\<rparr>, s\<lparr>fs_err := Some EFAULT\<rparr>))"

section \<open>From an offset to the addresses\<close>

text \<open>
  The indices in the order in which \<open>lmap\<close> stores them, the last is that in the inode; with the number of further blocks in the same list.
  \<^const>\<open>None\<close> is \<open>EFBIG\<close>.
\<close>

definition lmap :: "fs_cfg \<Rightarrow> nat \<Rightarrow> (nat list \<times> nat) option" where
  "lmap c blockofs =
     (if blockofs < ND c then Some ([blockofs], ND c - blockofs)
      else
        let ofs = blockofs - ND c; n = ofs mod NBN c; numblocks = NBN c - n; ofs = ofs div NBN c
        in if ofs = 0 then Some ([n, ND c], numblocks)
           else
             let ofs = ofs - 1; m = ofs mod NBN c; ofs = ofs div NBN c
             in if ofs = 0 then Some ([n, m, ND c + 1], numblocks)
                else
                  let ofs = ofs - 1; l = ofs mod NBN c; ofs = ofs div NBN c
                  in if ofs = 0 then Some ([n, m, l, ND c + 2], numblocks) else None)"

definition EMPTY_BLOCK :: daddr where
  "EMPTY_BLOCK = - 1"

text \<open>The addresses in an address block.\<close>

definition addrs :: "fs_cfg \<Rightarrow> octet list \<Rightarrow> daddr list" where
  "addrs c bs = map candaddr (get_list 0 (NBN c) bs)"

fun vmap_walk :: "fs_cfg \<Rightarrow> daddr list \<Rightarrow> nat list \<Rightarrow> nat \<Rightarrow> fsys \<Rightarrow> daddr list option \<times> fsys" where
  "vmap_walk c out [] nblocks s = (None, s)"
| "vmap_walk c out [i] nblocks s = (Some (map (\<lambda>j. if out ! (i + j) = 0 then EMPTY_BLOCK else out ! (i + j)) [0..<nblocks]), s)"
| "vmap_walk c out (i # is) nblocks s =
     (if out ! i = 0 then (Some (replicate nblocks EMPTY_BLOCK), s)
      else (case bread (out ! i) s of
          (None, s) \<Rightarrow> (None, s)
        | (Some bs, s) \<Rightarrow> vmap_walk c (addrs c bs) is nblocks s))"

text \<open>With \<open>t_groupmode\<close> one call goes on over several lists.\<close>

partial_function (option) vmap :: "fs_cfg \<Rightarrow> bool \<Rightarrow> inode \<Rightarrow> nat \<Rightarrow> nat \<Rightarrow> fsys \<Rightarrow> (daddr list option \<times> fsys) option" where
  "vmap c grp ip blockofs resid s = (case lmap c blockofs of
     None \<Rightarrow> Some (None, s\<lparr>fs_err := Some EFBIG\<rparr>)
   | Some (path, n) \<Rightarrow>
       let nblocks = min n resid in (case vmap_walk c (i_addr ip) (rev path) nblocks s of
           (None, s) \<Rightarrow> Some (None, s)
         | (Some bs, s) \<Rightarrow>
             if grp \<and> resid - nblocks > 0 then do {
               (r, s) \<leftarrow> vmap c grp ip (blockofs + nblocks) (resid - nblocks) s;
               Some (map_option (\<lambda>cs. bs @ cs) r, s)
             }
             else Some (Some bs, s)))"

section \<open>Reading\<close>

record fr_cfg =
  t_readahead :: int
  t_groupmode :: bool

definition LISTLEN :: nat where
  "LISTLEN = 16 + 8"

text \<open>
  The list of blocks that a pass of \<open>fread\<close> looks up, when the last one is used up; \<^const>\<open>None\<close> when \<open>ASSERT (count > do_readahead)\<close> fails. The count is compared
  with the length of the list as an unsigned number: a sum that overflows is negative, hence larger, and comes out as that length as well.
\<close>

definition fread_list :: "fs_cfg \<Rightarrow> fr_cfg \<Rightarrow> nat \<Rightarrow> nat \<Rightarrow> inode \<Rightarrow> nat \<Rightarrow> nat \<Rightarrow> fsys \<Rightarrow> (daddr list option \<times> fsys) option" where
  "fread_list c t do_readahead maxblk ip lbn res s =
     (let count = min (blockn c (res + BSIZE c - 1) + do_readahead) LISTLEN;
          used = (if lbn + count \<ge> maxblk then maxblk - lbn else count)
      in if count \<le> do_readahead then None
         else if i_blk ip then Some (Some (map of_nat [lbn..<lbn + used]), s) else vmap c (t_groupmode t) ip lbn used s)"

partial_function (option) fread_loop :: "fs_cfg \<Rightarrow> fr_cfg \<Rightarrow> nat \<Rightarrow> nat \<Rightarrow> inode \<Rightarrow> nat \<Rightarrow> nat \<Rightarrow> daddr list \<Rightarrow> nat \<Rightarrow> nat \<Rightarrow> io \<Rightarrow> fsys \<Rightarrow>
    (nat option \<times> io \<times> fsys) option" where
  "fread_loop c t ra maxblk ip lbn abn list off res iop s = do {
     (new, s) \<leftarrow> (if lbn \<ge> abn + length list
        then do { (r, s) \<leftarrow> fread_list c t ra maxblk ip lbn res s; Some (map_option (\<lambda>l. (lbn, l)) r, s) }
        else Some (Some (abn, list), s));
     (case new of None \<Rightarrow> Some (None, iop, s)
      | Some (abn, list) \<Rightarrow>
          let count = min res (BSIZE c - off); b = list ! (lbn - abn);
              (moved, iop, s) = (if b = EMPTY_BLOCK then let (iop, s) = ioclear count iop s in (True, iop, s)
                else (case bread b s of (None, s) \<Rightarrow> (False, iop, s)
                  | (Some bs, s) \<Rightarrow> let (iop, s) = iowrite (take count (drop off bs)) iop s in (True, iop, s)))
          in if \<not> moved \<or> fs_err s \<noteq> None then Some (None, iop, s)
             else if res - count > 0 then fread_loop c t ra maxblk ip (lbn + 1) abn list 0 (res - count) iop s
             else Some (Some lbn, iop, s))
   }"

definition INT_MAX :: nat where
  "INT_MAX = 2147483647"

definition fread :: "fs_cfg \<Rightarrow> fr_cfg \<Rightarrow> inode \<Rightarrow> io \<Rightarrow> fsys \<Rightarrow> (inode \<times> io \<times> fsys) option" where
  "fread c t ip iop s =
     (if \<not> i_blk ip \<and> io_seek iop > i_size ip then Some (ip, iop, s)
      else
        let lbn = blockn c (io_seek iop); off = blocko c (io_seek iop);
            res = (if i_blk ip then io_ioc iop else min (i_size ip - io_seek iop) (io_ioc iop));
            ra = (if int lbn = i_lastblock ip + 1 then nat (t_readahead t) else 0);
            maxblk = (if i_blk ip then INT_MAX else blockn c (i_size ip + BSIZE c - 1))
        in if res = 0 then Some (ip, iop, s)
           else do {
             (last, iop, s) \<leftarrow> fread_loop c t ra maxblk ip lbn 0 [] off res iop s;
             Some (case last of None \<Rightarrow> ip | Some l \<Rightarrow> ip\<lparr>i_lastblock := int l\<rparr>, iop, s)
           })"

section \<open>Writing\<close>

text \<open>
  \<open>aread\<close> from the address \<open>b\<close> on, with the indices that are left: the block and what its buffer holds, or NULL. \<open>junk\<close> is what a buffer that is
  claimed and not read may hold.
\<close>

primrec aread_loop :: "fs_cfg \<Rightarrow> (daddr \<Rightarrow> octet list) \<Rightarrow> bool \<Rightarrow> bool \<Rightarrow> daddr \<Rightarrow> nat list \<Rightarrow> fsys \<Rightarrow> ((daddr \<times> octet list) option \<times> fsys) option" where
  "aread_loop c junk claim aflag b [] s =
     (if \<not> (aflag \<or> claim) then (case bread b s of (None, s) \<Rightarrow> Some (None, s) | (Some bs, s) \<Rightarrow> Some (Some (b, bs), s))
      else let bs = (if claim then junk b else replicate (BSIZE c) 0) in Some (Some (b, bs), bput b bs s))"
| "aread_loop c junk claim aflag b (i # is) s =
     (case (if \<not> aflag then bread b s else (Some (replicate (BSIZE c) 0), bput b (replicate (BSIZE c) 0) s)) of
        (None, s) \<Rightarrow> Some (None, s)
      | (Some bs, s) \<Rightarrow>
          let b' = candaddr (get32 (4 * i) bs)
          in if b' \<noteq> 0 then aread_loop c junk claim False b' is s
             else do {
               (new, s) \<leftarrow> balloc c s;
               if new = 0 then Some (None, s)
               else (case bread b s of
                   (None, s) \<Rightarrow> None
                 | (Some bs, s) \<Rightarrow> aread_loop c junk claim True new is (bput b (put32 (4 * i) (candaddr new) bs) s))
             })"

definition aread :: "fs_cfg \<Rightarrow> (daddr \<Rightarrow> octet list) \<Rightarrow> inode \<Rightarrow> nat \<Rightarrow> bool \<Rightarrow> fsys \<Rightarrow> ((daddr \<times> octet list) option \<times> inode \<times> fsys) option" where
  "aread c junk ip blkofs claim s = (case lmap c blkofs of
     None \<Rightarrow> Some (None, ip, s\<lparr>fs_err := Some EFBIG\<rparr>)
   | Some (path, n) \<Rightarrow>
       let l = last path; is = rev (butlast path); b = i_addr ip ! l
       in if b \<noteq> 0 then do { (r, s) \<leftarrow> aread_loop c junk claim False b is s; Some (r, ip, s) }
          else do {
            (b, s) \<leftarrow> balloc c s;
            if b = 0 then Some (None, ip, s)
            else do {
              (r, s) \<leftarrow> aread_loop c junk claim True b is s;
              Some (r, ip\<lparr>i_addr := (i_addr ip)[l := b]\<rparr>, s)
            }
          })"

definition fwrite_block :: "fs_cfg \<Rightarrow> (daddr \<Rightarrow> octet list) \<Rightarrow> bool \<Rightarrow> nat \<Rightarrow> inode \<Rightarrow> fsys \<Rightarrow> ((daddr \<times> octet list) option \<times> inode \<times> fsys) option" where
  "fwrite_block c junk com lbn ip s =
     (if \<not> i_blk ip then aread c junk ip lbn com s
      else if com then Some (Some (of_nat lbn, junk (of_nat lbn)), ip, bput (of_nat lbn) (junk (of_nat lbn)) s)
      else (case bread (of_nat lbn) s of (None, s) \<Rightarrow> Some (None, ip, s) | (Some bs, s) \<Rightarrow> Some (Some (of_nat lbn, bs), ip, s)))"

partial_function (option) fwrite_loop :: "fs_cfg \<Rightarrow> (daddr \<Rightarrow> octet list) \<Rightarrow> nat \<Rightarrow> nat \<Rightarrow> inode \<Rightarrow> io \<Rightarrow> fsys \<Rightarrow> (inode \<times> io \<times> fsys) option" where
  "fwrite_loop c junk lbn off ip iop s =
     (if io_ioc iop = 0 then Some (ip, iop, s)
      else
        let n = min (io_ioc iop) (BSIZE c - off); com = (off = 0 \<and> n = BSIZE c) in do {
          (bp, ip, s) \<leftarrow> fwrite_block c junk com lbn ip s;
          (case bp of None \<Rightarrow> Some (ip, iop, s)
           | Some (b, bs) \<Rightarrow>
               let (v, iop, s) = ioread n iop s;
                   s = (case v of None \<Rightarrow> bput b bs s | Some xs \<Rightarrow> bput b (take off bs @ xs @ drop (off + n) bs) s)
               in if fs_err s \<noteq> None then Some (ip, iop, s)
                  else
                    let iop = iop\<lparr>io_seek := io_seek iop + n\<rparr>;
                        ip = (if io_seek iop > i_size ip \<and> \<not> i_blk ip then ip\<lparr>i_size := io_seek iop\<rparr> else ip)
                    in fwrite_loop c junk (lbn + 1) 0 ip iop s)
        })"

definition fwrite :: "fs_cfg \<Rightarrow> (daddr \<Rightarrow> octet list) \<Rightarrow> inode \<Rightarrow> io \<Rightarrow> fsys \<Rightarrow> (inode \<times> io \<times> fsys) option" where
  "fwrite c junk ip iop s = fwrite_loop c junk (blockn c (io_seek iop)) (blocko c (io_seek iop)) ip iop s"

text \<open>The block and what it holds; a hole gives a clear buffer of no block.\<close>

definition vread :: "fs_cfg \<Rightarrow> fr_cfg \<Rightarrow> inode \<Rightarrow> nat \<Rightarrow> fsys \<Rightarrow> ((daddr option \<times> octet list) option \<times> fsys) option" where
  "vread c t ip blockofs s = do {
     (r, s) \<leftarrow> vmap c (t_groupmode t) ip blockofs 1 s;
     (case r of None \<Rightarrow> Some (None, s)
      | Some bs \<Rightarrow> if bs ! 0 \<noteq> EMPTY_BLOCK
          then (case bread (bs ! 0) s of (None, s) \<Rightarrow> Some (None, s) | (Some v, s) \<Rightarrow> Some (Some (Some (bs ! 0), v), s))
          else Some (Some (None, replicate (BSIZE c) 0), s))
   }"

section \<open>Offsets and indices\<close>

text \<open>The levels under an entry of the inode.\<close>

definition lvl :: "fs_cfg \<Rightarrow> nat \<Rightarrow> nat" where
  "lvl c i = (if i < ND c then 0 else i - ND c + 1)"

definition MAXBLK :: "fs_cfg \<Rightarrow> nat" where
  "MAXBLK c = ND c + NBN c + NBN c * NBN c + NBN c * NBN c * NBN c"

text \<open>The offset that a list of indices stands for.\<close>

definition offset :: "fs_cfg \<Rightarrow> nat list \<Rightarrow> nat" where
  "offset c path = (case path of
     [i] \<Rightarrow> i
   | [n, _] \<Rightarrow> ND c + n
   | [n, m, _] \<Rightarrow> ND c + NBN c + m * NBN c + n
   | [n, m, l, _] \<Rightarrow> ND c + NBN c + NBN c * NBN c + (l * NBN c + m) * NBN c + n
   | _ \<Rightarrow> 0)"

lemma div_split: "0 < (b :: nat) \<Longrightarrow> k = k div b * b + k mod b \<and> k mod b < b"
  by simp

lemma lmap_direct: "blockofs < ND c \<Longrightarrow> lmap c blockofs = Some ([blockofs], ND c - blockofs)"
  by (simp add: lmap_def)

lemma div_form: "n < (b :: nat) \<Longrightarrow> (n + q * b) div b = q" "n < (b :: nat) \<Longrightarrow> (n + q * b) mod b = n"
  by (simp_all only: mod_mult_self1 div_mult_self1 mod_less div_less)

lemma lmap_indirect:
  assumes "n < NBN c"
  shows "lmap c (ND c + (n + q * NBN c)) =
    (if q = 0 then Some ([n, ND c], NBN c - n)
     else if (q - 1) div NBN c = 0 then Some ([n, (q - 1) mod NBN c, ND c + 1], NBN c - n)
     else if ((q - 1) div NBN c - 1) div NBN c = 0 then Some ([n, (q - 1) mod NBN c, ((q - 1) div NBN c - 1) mod NBN c, ND c + 2], NBN c - n) else None)"
  unfolding lmap_def Let_def using div_form [OF assms, of q] by simp

lemma lmap_1: "n < NBN c \<Longrightarrow> lmap c (ND c + n) = Some ([n, ND c], NBN c - n)"
  using lmap_indirect [of n c 0] by simp

lemma lmap_2:
  assumes "n < NBN c" "m < NBN c"
  shows "lmap c (ND c + NBN c + m * NBN c + n) = Some ([n, m, ND c + 1], NBN c - n)"
proof -
  have e: "ND c + NBN c + m * NBN c + n = ND c + (n + (m + 1) * NBN c)" by (simp add: algebra_simps)
  show ?thesis unfolding e using lmap_indirect [OF assms(1), of "m + 1"] assms(2) by simp
qed

lemma lmap_3:
  assumes "n < NBN c" "m < NBN c" "l < NBN c"
  shows "lmap c (ND c + NBN c + NBN c * NBN c + (l * NBN c + m) * NBN c + n) = Some ([n, m, l, ND c + 2], NBN c - n)"
proof -
  let ?q = "m + (l + 1) * NBN c + 1"
  have e: "ND c + NBN c + NBN c * NBN c + (l * NBN c + m) * NBN c + n = ND c + (n + ?q * NBN c)" by (simp add: algebra_simps)
  have "(?q - 1) div NBN c = l + 1" "(?q - 1) mod NBN c = m"
    using div_form [OF assms(2), of "l + 1"] by (simp_all only: add_diff_cancel_right')
  then show ?thesis unfolding e using lmap_indirect [OF assms(1), of ?q] assms(3) by simp
qed

text \<open>Every offset below \<open>MAXBLK\<close> has one of the four forms.\<close>

lemma offset_cases:
  assumes "blockofs < MAXBLK c"
  obtains (direct) "blockofs < ND c"
  | (one) n where "n < NBN c" "blockofs = ND c + n"
  | (two) n m where "n < NBN c" "m < NBN c" "blockofs = ND c + NBN c + m * NBN c + n"
  | (three) n m l where "n < NBN c" "m < NBN c" "l < NBN c" "blockofs = ND c + NBN c + NBN c * NBN c + (l * NBN c + m) * NBN c + n"
proof -
  let ?B = "NBN c"
  consider "blockofs < ND c" | "ND c \<le> blockofs" "blockofs < ND c + ?B" | "ND c + ?B \<le> blockofs" "blockofs < ND c + ?B + ?B * ?B"
    | "ND c + ?B + ?B * ?B \<le> blockofs" by linarith
  then show thesis
  proof cases
    case 1
    then show thesis by (rule direct)
  next
    case 2
    then show thesis by (intro one [of "blockofs - ND c"]) auto
  next
    case 3
    let ?k = "blockofs - (ND c + ?B)"
    have k: "?k < ?B * ?B" using 3 by auto
    then have B: "0 < ?B" by (cases "?B = 0") auto
    have "?k div ?B < ?B" using k by (simp add: less_mult_imp_div_less)
    then show thesis
      using two [of "?k mod ?B" "?k div ?B"] div_split [OF B, of ?k] 3 by auto
  next
    case 4
    let ?k = "blockofs - (ND c + ?B + ?B * ?B)"
    have k: "?k < ?B * ?B * ?B" using 4 assms by (auto simp: MAXBLK_def)
    then have B: "0 < ?B" by (cases "?B = 0") auto
    have q: "?k div ?B < ?B * ?B" using k by (simp add: less_mult_imp_div_less)
    then have "?k div ?B div ?B < ?B" by (simp add: less_mult_imp_div_less)
    then show thesis
      using three [of "?k mod ?B" "?k div ?B mod ?B" "?k div ?B div ?B"] div_split [OF B, of ?k] div_split [OF B, of "?k div ?B"] 4 by auto
  qed
qed

text \<open>What a list of indices of \<open>lmap\<close> looks like.\<close>

definition path_ok :: "fs_cfg \<Rightarrow> nat list \<Rightarrow> bool" where
  "path_ok c path \<longleftrightarrow> path \<noteq> [] \<and> last path < ND c + 3 \<and> length path = lvl c (last path) + 1 \<and> (\<forall>i \<in> set (butlast path). i < NBN c)"

lemma lmap_Some:
  assumes "blockofs < MAXBLK c"
  shows "\<exists>p ps. lmap c blockofs = Some (p # ps, (if ps = [] then ND c else NBN c) - p) \<and> p < (if ps = [] then ND c else NBN c) \<and> path_ok c (p # ps) \<and>
    offset c (p # ps) = blockofs"
  using assms
proof (cases rule: offset_cases)
  case direct
  then show ?thesis by (simp add: lmap_direct path_ok_def lvl_def offset_def)
next
  case (one n)
  then show ?thesis by (simp add: lmap_1 path_ok_def lvl_def offset_def)
next
  case (two n m)
  then show ?thesis unfolding two by (simp only: lmap_2) (simp add: path_ok_def lvl_def offset_def)
next
  case (three n m l)
  then show ?thesis unfolding three by (simp only: lmap_3) (simp add: path_ok_def lvl_def offset_def)
qed

lemma lmap_None: "0 < NBN c \<Longrightarrow> MAXBLK c \<le> blockofs \<Longrightarrow> lmap c blockofs = None"
proof -
  assume B: "0 < NBN c" and big: "MAXBLK c \<le> blockofs"
  let ?B = "NBN c"
  define k where "k = blockofs - ND c"
  have k: "?B + ?B * ?B + ?B * ?B * ?B \<le> k" using big by (simp add: MAXBLK_def k_def)
  have "1 + ?B + ?B * ?B \<le> k div ?B"
    using B k by (simp add: less_eq_div_iff_mult_less_eq algebra_simps)
  then have k1: "?B + ?B * ?B \<le> k div ?B - 1" by simp
  then have "1 + ?B \<le> (k div ?B - 1) div ?B"
    using B by (simp add: less_eq_div_iff_mult_less_eq algebra_simps)
  then have "?B \<le> (k div ?B - 1) div ?B - 1" by simp
  then have "1 \<le> ((k div ?B - 1) div ?B - 1) div ?B"
    using B by (simp add: less_eq_div_iff_mult_less_eq)
  moreover have "\<not> blockofs < ND c" using big by (simp add: MAXBLK_def)
  ultimately show ?thesis
    using \<open>1 + ?B \<le> (k div ?B - 1) div ?B\<close> \<open>1 + ?B + ?B * ?B \<le> k div ?B\<close> by (simp add: lmap_def Let_def k_def [symmetric])
qed

lemma lmap_next:
  assumes "lmap c blockofs = Some (p # ps, n)" "j < n" "blockofs < MAXBLK c"
  shows "lmap c (blockofs + j) = Some ((p + j) # ps, n - j)"
  using assms(3)
proof (cases rule: offset_cases)
  case direct
  then show ?thesis using assms(1,2) by (auto simp: lmap_direct)
next
  case (one k)
  then show ?thesis using assms(1,2) lmap_1 [of "k + j" c] lmap_1 [of k c] by (auto simp: add.assoc)
next
  case (two k m)
  then show ?thesis using assms(1,2) lmap_2 [of "k + j" c m] lmap_2 [of k c m] by (auto simp: add.assoc)
next
  case (three k m l)
  then show ?thesis using assms(1,2) lmap_3 [of "k + j" c m l] lmap_3 [of k c m l] by (auto simp: add.assoc)
qed

section \<open>The blocks of a file\<close>

text \<open>The block at the end of a list of indices, 0 for a hole.\<close>

fun leaf :: "fs_cfg \<Rightarrow> (daddr \<Rightarrow> octet list) \<Rightarrow> daddr \<Rightarrow> nat list \<Rightarrow> daddr" where
  "leaf c d b [] = b"
| "leaf c d b (i # is) = (if b = 0 then 0 else leaf c d (addrs c (d b) ! i) is)"

lemma leaf_0 [simp]: "leaf c d 0 is = 0"
  by (cases "is") auto

text \<open>The address blocks of a tree, and its leaves.\<close>

primrec inner :: "fs_cfg \<Rightarrow> (daddr \<Rightarrow> octet list) \<Rightarrow> nat \<Rightarrow> daddr \<Rightarrow> daddr list" where
  "inner c d 0 b = []"
| "inner c d (Suc l) b = (if b = 0 then [] else b # concat (map (inner c d l) (addrs c (d b))))"

primrec leaves :: "fs_cfg \<Rightarrow> (daddr \<Rightarrow> octet list) \<Rightarrow> nat \<Rightarrow> daddr \<Rightarrow> daddr list" where
  "leaves c d 0 b = (if b = 0 then [] else [b])"
| "leaves c d (Suc l) b = (if b = 0 then [] else concat (map (leaves c d l) (addrs c (d b))))"

lemma inner_0 [simp]: "inner c d l 0 = []"
  by (cases l) auto

lemma leaves_0 [simp]: "leaves c d l 0 = []"
  by (cases l) auto

lemma length_addrs [simp]: "length (addrs c bs) = NBN c"
  by (simp add: addrs_def)

lemma tree_addrs: "tree c d (Suc l) b = (if b = 0 then [] else b # concat (map (tree c d l) (addrs c (d b))))"
  by (simp add: addrs_def o_def)

lemma mset_concat_append: "mset (concat (map (\<lambda>x. f x @ g x) xs)) = mset (concat (map f xs)) + mset (concat (map g xs))"
  by (induction xs) auto

lemma mset_concat_cong: "(\<And>x. x \<in> set xs \<Longrightarrow> mset (f x) = mset (g x)) \<Longrightarrow> mset (concat (map f xs)) = mset (concat (map g xs))"
  by (induction xs) auto

lemma tree_parts: "mset (tree c d l b) = mset (inner c d l b) + mset (leaves c d l b)"
proof (induction l arbitrary: b)
  case (Suc l)
  have "mset (concat (map (tree c d l) (addrs c (d b)))) = mset (concat (map (\<lambda>x. inner c d l x @ leaves c d l x) (addrs c (d b))))"
    by (rule mset_concat_cong) (simp add: Suc)
  then show ?case
    by (simp add: tree_addrs mset_concat_append del: tree.simps)
qed simp

lemma leaf_in_leaves:
  "length is = l \<Longrightarrow> \<forall>i \<in> set is. i < NBN c \<Longrightarrow> leaf c d b is \<noteq> 0 \<Longrightarrow> leaf c d b is \<in> set (leaves c d l b)"
proof (induction "is" arbitrary: b l)
  case (Cons i "is")
  then obtain l' where l: "l = Suc l'" "length is = l'" by auto
  have "b \<noteq> 0" using Cons.prems(3) by auto
  moreover have "addrs c (d b) ! i \<in> set (addrs c (d b))" using Cons.prems(2) by simp
  moreover have "leaf c d (addrs c (d b) ! i) is \<in> set (leaves c d l' (addrs c (d b) ! i))"
    by (rule Cons.IH) (use Cons.prems l \<open>b \<noteq> 0\<close> in auto)
  ultimately show ?case using l by auto
qed simp

text \<open>The structure depends on the address blocks only.\<close>

lemma structure_frame:
  assumes "\<And>x. x \<in> set (inner c d l b) \<Longrightarrow> d' x = d x"
  shows "inner c d' l b = inner c d l b" "leaves c d' l b = leaves c d l b" "length is = l \<Longrightarrow> \<forall>i \<in> set is. i < NBN c \<Longrightarrow> leaf c d' b is = leaf c d b is"
proof -
  have "inner c d' l b = inner c d l b \<and> leaves c d' l b = leaves c d l b \<and> (length is = l \<longrightarrow> (\<forall>i \<in> set is. i < NBN c) \<longrightarrow> leaf c d' b is = leaf c d b is)"
    using assms
  proof (induction l arbitrary: b "is")
    case (Suc l)
    show ?case
    proof (cases "b = 0")
      case False
      then have b: "d' b = d b" by (intro Suc.prems) simp
      have IH: "inner c d' l e = inner c d l e \<and> leaves c d' l e = leaves c d l e \<and>
          (length js = l \<longrightarrow> (\<forall>i \<in> set js. i < NBN c) \<longrightarrow> leaf c d' e js = leaf c d e js)" if "e \<in> set (addrs c (d b))" for e js
        by (rule Suc.IH, rule Suc.prems) (use that False in auto)
      have "concat (map (inner c d' l) (addrs c (d b))) = concat (map (inner c d l) (addrs c (d b)))"
        "concat (map (leaves c d' l) (addrs c (d b))) = concat (map (leaves c d l) (addrs c (d b)))"
        by (rule arg_cong [where f = concat], rule map_cong [OF refl], use IH in blast)+
      moreover have "length is = Suc l \<longrightarrow> (\<forall>i \<in> set is. i < NBN c) \<longrightarrow> leaf c d' b is = leaf c d b is"
      proof (cases "is")
        case (Cons i js)
        then show ?thesis using IH [of "addrs c (d b) ! i" js] b by auto
      qed simp
      ultimately show ?thesis using b False by simp
    qed simp
  qed simp
  then show "inner c d' l b = inner c d l b" "leaves c d' l b = leaves c d l b" "length is = l \<Longrightarrow> \<forall>i \<in> set is. i < NBN c \<Longrightarrow> leaf c d' b is = leaf c d b is"
    by blast+
qed

lemma tree_set: "set (tree c d l b) = set (inner c d l b) \<union> set (leaves c d l b)"
  using tree_parts [of c d l b] by (metis set_mset_mset set_mset_union)

lemma tree_distinct_parts:
  "distinct (tree c d l b) \<Longrightarrow> distinct (inner c d l b) \<and> distinct (leaves c d l b) \<and> set (inner c d l b) \<inter> set (leaves c d l b) = {}"
  using tree_parts [of c d l b] by (metis distinct_append mset_append mset_eq_imp_distinct_iff)

lemma tree_entry_distinct:
  assumes "distinct (tree c d (Suc l) b)" "b \<noteq> 0" "i < NBN c"
  shows "distinct (tree c d l (addrs c (d b) ! i))" "b \<notin> set (tree c d l (addrs c (d b) ! i))"
    "set (tree c d l (addrs c (d b) ! i)) \<subseteq> set (tree c d (Suc l) b)"
    "j < NBN c \<Longrightarrow> j \<noteq> i \<Longrightarrow> set (tree c d l (addrs c (d b) ! i)) \<inter> set (tree c d l (addrs c (d b) ! j)) = {}"
proof -
  let ?ts = "map (tree c d l) (addrs c (d b))"
  have d: "distinct (concat ?ts)" "b \<notin> set (concat ?ts)" using assms(1,2) by (simp_all only: tree_addrs if_False distinct.simps not_False_eq_True simp_thms)
  have nth: "?ts ! k = tree c d l (addrs c (d b) ! k)" if "k < NBN c" for k using that by simp
  show "distinct (tree c d l (addrs c (d b) ! i))"
    using distinct_concat_nth [OF d(1), of i] assms(3) nth by simp
  have "addrs c (d b) ! i \<in> set (addrs c (d b))" using assms(3) by simp
  then have sub: "set (tree c d l (addrs c (d b) ! i)) \<subseteq> set (concat ?ts)"
    unfolding set_concat set_map by blast
  then show "b \<notin> set (tree c d l (addrs c (d b) ! i))" using d(2) by blast
  show "set (tree c d l (addrs c (d b) ! i)) \<subseteq> set (tree c d (Suc l) b)"
    using sub assms(2) by (simp only: tree_addrs if_False list.simps) blast
  show "set (tree c d l (addrs c (d b) ! i)) \<inter> set (tree c d l (addrs c (d b) ! j)) = {}" if "j < NBN c" "j \<noteq> i"
    using distinct_concat_disjoint [OF d(1), of i j] that assms(3) nth by auto
qed

lemma mset_concat_nth:
  assumes "i < length xs"
  shows "mset (concat (map f xs)) = mset (f (xs ! i)) + mset (concat (map f (take i xs @ drop (Suc i) xs)))"
proof -
  have "mset (concat (map f xs)) = mset (concat (map f (take i xs @ xs ! i # drop (Suc i) xs)))"
    using id_take_nth_drop [OF assms] by metis
  then show ?thesis by simp
qed

text \<open>When one entry of an address block changes, and what is under it.\<close>

lemma tree_entry:
  assumes b: "b \<noteq> 0" and i: "i < NBN c" and es: "addrs c (d' b) = (addrs c (d b))[i := e']"
    and other: "\<And>j x. j < NBN c \<Longrightarrow> j \<noteq> i \<Longrightarrow> x \<in> set (tree c d l (addrs c (d b) ! j)) \<Longrightarrow> d' x = d x"
    and entry: "mset (tree c d' l e') = mset (tree c d l (addrs c (d b) ! i)) + mset ts"
  shows "mset (tree c d' (Suc l) b) = mset (tree c d (Suc l) b) + mset ts"
    and "j < NBN c \<Longrightarrow> j \<noteq> i \<Longrightarrow> length js = l \<Longrightarrow> \<forall>k \<in> set js. k < NBN c \<Longrightarrow> leaf c d' b (j # js) = leaf c d b (j # js)"
proof -
  let ?es = "addrs c (d b)"
  let ?rest = "take i ?es @ drop (Suc i) ?es"
  have "map (tree c d' l) ?rest = map (tree c d l) ?rest"
  proof (rule map_cong [OF refl])
    fix e assume "e \<in> set ?rest"
    then consider "e \<in> set (take i ?es)" | "e \<in> set (drop (Suc i) ?es)" by auto
    then obtain j where "j < NBN c" "j \<noteq> i" "e = ?es ! j"
    proof cases
      case 1
      then obtain j where "j < i" "e = ?es ! j" using i by (auto simp: in_set_conv_nth)
      then show thesis using that [of j] i by simp
    next
      case 2
      then obtain j where "j < NBN c - Suc i" "e = ?es ! (Suc i + j)" using i by (auto simp: in_set_conv_nth)
      then show thesis using that [of "Suc i + j"] by simp
    qed
    then show "tree c d' l e = tree c d l e" using other by (intro tree_frame) auto
  qed
  moreover have "take i (?es[i := e']) @ drop (Suc i) (?es[i := e']) = ?rest" using i by simp
  ultimately have rest: "mset (concat (map (tree c d' l) (take i (?es[i := e']) @ drop (Suc i) (?es[i := e'])))) = mset (concat (map (tree c d l) ?rest))"
    by presburger
  have i': "i < length (?es[i := e'])" "i < length ?es" using i by simp_all
  have "mset (concat (map (tree c d' l) (?es[i := e']))) = mset (tree c d' l e') + mset (concat (map (tree c d l) ?rest))"
    using mset_concat_nth [OF i'(1), of "tree c d' l"] rest i by simp
  moreover have "mset (concat (map (tree c d l) ?es)) = mset (tree c d l (?es ! i)) + mset (concat (map (tree c d l) ?rest))"
    using mset_concat_nth [OF i'(2), of "tree c d l"] by simp
  ultimately have "mset (concat (map (tree c d' l) (?es[i := e']))) = mset (concat (map (tree c d l) ?es)) + mset ts"
    using entry by (simp add: ac_simps)
  then show "mset (tree c d' (Suc l) b) = mset (tree c d (Suc l) b) + mset ts"
    using b es by (simp add: tree_addrs del: tree.simps)
  show "leaf c d' b (j # js) = leaf c d b (j # js)" if "j < NBN c" "j \<noteq> i" "length js = l" "\<forall>k \<in> set js. k < NBN c"
  proof -
    have "leaf c d' (?es ! j) js = leaf c d (?es ! j) js"
      by (rule structure_frame(3) [OF _ that(3,4)]) (use other [OF that(1,2)] tree_set in blast)
    then show ?thesis using b es that by simp
  qed
qed

lemma nth_addrs: "i < NBN c \<Longrightarrow> addrs c bs ! i = candaddr (get32 (4 * i) bs)"
  by (simp add: addrs_def get_list_def)

lemma NBN_BSIZE: "i < NBN c \<Longrightarrow> 4 * i + 3 < BSIZE c"
  by (simp add: NBN_def)

lemma addrs_put:
  assumes "i < NBN c" "length bs = BSIZE c"
  shows "addrs c (put32 (4 * i) (candaddr v) bs) = (addrs c bs)[i := v]"
proof (rule nth_equalityI)
  fix j assume "j < length (addrs c (put32 (4 * i) (candaddr v) bs))"
  then have j: "j < NBN c" by simp
  show "addrs c (put32 (4 * i) (candaddr v) bs) ! j = (addrs c bs)[i := v] ! j"
  proof (cases "j = i")
    case True
    then show ?thesis using assms NBN_BSIZE [OF assms(1)] by (simp add: nth_addrs get32_put32)
  next
    case False
    then have "4 * j + 4 \<le> 4 * i \<or> 4 * i + 4 \<le> 4 * j" by linarith
    then show ?thesis using False j by (simp add: nth_addrs get32_put32_other)
  qed
qed simp

lemma addrs_zero: "addrs c (replicate (BSIZE c) 0) = replicate (NBN c) 0"
proof (rule nth_equalityI)
  fix j assume "j < length (addrs c (replicate (BSIZE c) 0))"
  then have j: "j < NBN c" by simp
  then have "4 * j + 3 < BSIZE c" by (rule NBN_BSIZE)
  then show "addrs c (replicate (BSIZE c) 0) ! j = replicate (NBN c) 0 ! j"
    using j by (simp add: nth_addrs get32_def)
qed simp

lemma fresh_tree:
  assumes "b \<noteq> 0" "d b = replicate (BSIZE c) 0"
  shows "tree c d l b = [b]" "set (inner c d l b) \<subseteq> {b}" "length is = l \<Longrightarrow> \<forall>i \<in> set is. i < NBN c \<Longrightarrow> leaf c d b is = (if is = [] then b else 0)"
proof -
  have "concat (map (tree c d k) (replicate n 0)) = []" "concat (map (inner c d k) (replicate n 0)) = []" for k n
    by (simp_all add: map_replicate_const concat_replicate_trivial)
  then show "tree c d l b = [b]" "set (inner c d l b) \<subseteq> {b}"
    using assms by (cases l; simp add: tree_addrs addrs_zero del: tree.simps(2))+
  show "leaf c d b is = (if is = [] then b else 0)" if "length is = l" "\<forall>i \<in> set is. i < NBN c"
    using that assms by (cases "is") (auto simp: addrs_zero)
qed

section \<open>Adding blocks to a file\<close>

lemma free_ok_bput: "free_ok c s xs \<Longrightarrow> b \<notin> set xs \<Longrightarrow> free_ok c (bput b bs s) xs"
proof -
  assume ok: "free_ok c s xs" and b: "b \<notin> set xs"
  then have "frees c (dsk s) (s_nfree s) (s_free s) xs" by (simp add: free_ok_def)
  then have "frees c ((dsk s)(b := bs)) (s_nfree s) (s_free s) xs" by (rule frees_frame) (use b in auto)
  with ok show ?thesis by (simp add: free_ok_def bput_def)
qed

lemma bput_sel [simp]:
  "dsk (bput b bs s) = (dsk s)(b := bs)" "dsk_err (bput b bs s) = dsk_err s" "in_data (bput b bs s) x = in_data s x" "fs_err (bput b bs s) = fs_err s"
  by (simp_all add: bput_def)

lemma same_fs_bput: "same_fs (bput b bs s) s' = same_fs s s'" "same_fs s (bput b bs s') = same_fs s s'"
  by (simp_all add: same_fs_def bput_def)

lemma same_fs_trans: "same_fs s s1 \<Longrightarrow> same_fs s1 s2 \<Longrightarrow> same_fs s s2"
  by (simp add: same_fs_def)

text \<open>A buffer that was just cleared reads as what is on the disk.\<close>

lemma aread_loop_fresh:
  "dsk_err s b = None \<Longrightarrow> aread_loop c junk claim True b is s = aread_loop c junk claim False b is (bput b (replicate (BSIZE c) 0) s)"
  by (cases "is") (simp_all add: bread_def bput_def Let_def)

text \<open>
  What \<open>aread\<close> does below an address \<open>b\<close> of level \<open>l\<close>, on the way to \<open>is\<close>: blocks \<open>ts\<close> are taken from the free ones and become part of the
  tree; other paths lead where they led; and what is written is new, an address block or the block itself.
\<close>

definition grown :: "fs_cfg \<Rightarrow> fsys \<Rightarrow> daddr list \<Rightarrow> nat \<Rightarrow> daddr \<Rightarrow> nat list \<Rightarrow> daddr list \<Rightarrow> daddr list \<Rightarrow> fsys \<Rightarrow> bool" where
  "grown c s xs l b is ts xs' s' \<longleftrightarrow> xs = ts @ xs' \<and> free_ok c s' xs' \<and> same_fs s s' \<and>
     mset (tree c (dsk s') l b) = mset (tree c (dsk s) l b) + mset ts \<and>
     (\<forall>js. length js = l \<longrightarrow> (\<forall>i \<in> set js. i < NBN c) \<longrightarrow> js \<noteq> is \<longrightarrow> leaf c (dsk s') b js = leaf c (dsk s) b js) \<and>
     (\<forall>x. x \<notin> set ts \<union> set (inner c (dsk s) l b) \<union> {leaf c (dsk s) b is} \<longrightarrow> dsk s' x = dsk s x) \<and>
     (\<forall>x. length (dsk s' x) = BSIZE c)"

text \<open>What it returns, where the path led to \<open>old\<close> and now leads to \<open>new\<close>.\<close>

definition got :: "fs_cfg \<Rightarrow> (daddr \<Rightarrow> octet list) \<Rightarrow> bool \<Rightarrow> daddr \<Rightarrow> daddr \<Rightarrow> daddr list \<Rightarrow> daddr list \<Rightarrow> (daddr \<times> octet list) option \<Rightarrow> fsys \<Rightarrow> fsys \<Rightarrow> bool" where
  "got c junk claim old new ts xs' r s s' \<longleftrightarrow> (case r of
     None \<Rightarrow> xs' = [] \<and> old = 0 \<and> new = 0 \<and> fs_err s' = Some ENOSPC
   | Some (x, bs) \<Rightarrow> new = x \<and> x \<noteq> 0 \<and> (if old = 0 then x \<in> set ts else x = old \<and> ts = []) \<and> dsk s' x = bs \<and>
       bs = (if claim then junk x else if old = 0 then replicate (BSIZE c) 0 else dsk s x) \<and> fs_err s' = fs_err s)"

lemma freeableD: "freeable s xs ts \<Longrightarrow> x \<in> set ts \<Longrightarrow> in_data s x \<and> dsk_err s x = None \<and> x \<notin> set xs"
  by (auto simp: freeable_def)

lemma freeable_mono: "freeable s xs ts \<Longrightarrow> distinct us \<Longrightarrow> set us \<subseteq> set ts \<Longrightarrow> freeable s xs us"
  by (auto simp: freeable_def)

lemma tree_root: "b \<noteq> 0 \<Longrightarrow> b \<in> set (tree c d l b)"
  by (cases l) auto

lemma leaf_in_tree: "length is = l \<Longrightarrow> \<forall>i \<in> set is. i < NBN c \<Longrightarrow> leaf c d b is \<noteq> 0 \<Longrightarrow> leaf c d b is \<in> set (tree c d l b)"
  using leaf_in_leaves [of "is" l c d b] tree_set [of c d l b] by simp

lemma grown_entry:
  assumes able: "freeable s xs (tree c (dsk s) (Suc l) b)" and b: "b \<noteq> 0" and i: "i < NBN c" and isl: "length is = l" "\<forall>i \<in> set is. i < NBN c"
    and geom: "geom_ok c s" and xs: "xs = ts @ xs'" and s': "free_ok c s' xs'" "same_fs s s'" "\<forall>x. length (dsk s' x) = BSIZE c"
    and es: "addrs c (dsk s' b) = (addrs c (dsk s b))[i := e']"
    and entry: "mset (tree c (dsk s') l e') = mset (tree c (dsk s) l (addrs c (dsk s b) ! i)) + mset ts"
    and paths: "\<And>js. length js = l \<Longrightarrow> \<forall>i \<in> set js. i < NBN c \<Longrightarrow> js \<noteq> is \<Longrightarrow> leaf c (dsk s') e' js = leaf c (dsk s) (addrs c (dsk s b) ! i) js"
    and out: "\<And>x. x \<noteq> b \<Longrightarrow> x \<notin> set ts \<union> set (inner c (dsk s) l (addrs c (dsk s b) ! i)) \<union> {leaf c (dsk s) (addrs c (dsk s b) ! i) is} \<Longrightarrow> dsk s' x = dsk s x"
  shows "grown c s xs (Suc l) b (i # is) ts xs' s'"
proof -
  let ?e = "addrs c (dsk s b) ! i"
  have dist: "distinct (tree c (dsk s) (Suc l) b)" using able by (simp add: freeable_def)
  have other: "dsk s' x = dsk s x" if j: "j < NBN c" "j \<noteq> i" and x: "x \<in> set (tree c (dsk s) l (addrs c (dsk s b) ! j))" for j x
  proof (rule out)
    show "x \<noteq> b" using tree_entry_distinct(2) [OF dist b j(1)] x by blast
    have "x \<in> set (tree c (dsk s) (Suc l) b)" using tree_entry_distinct(3) [OF dist b j(1)] x by blast
    then have "in_data s x" "x \<notin> set xs" using freeableD [OF able] by auto
    moreover from this have "x \<noteq> 0" using in_data_nonzero [OF geom] by blast
    moreover have "x \<notin> set (tree c (dsk s) l ?e)" using tree_entry_distinct(4) [OF dist b i j] x by blast
    ultimately show "x \<notin> set ts \<union> set (inner c (dsk s) l ?e) \<union> {leaf c (dsk s) ?e is}"
      using xs leaf_in_tree [OF isl, of "dsk s" ?e] tree_set [of c "dsk s" l ?e] by auto
  qed
  have tree: "mset (tree c (dsk s') (Suc l) b) = mset (tree c (dsk s) (Suc l) b) + mset ts"
    by (rule tree_entry(1) [OF b i es other entry])
  have leaf: "leaf c (dsk s') b js = leaf c (dsk s) b js" if js: "length js = Suc l" "\<forall>k \<in> set js. k < NBN c" "js \<noteq> i # is" for js
  proof -
    obtain j ks where j: "js = j # ks" using js(1) by (cases js) auto
    show ?thesis
    proof (cases "j = i")
      case True
      then have "leaf c (dsk s') e' ks = leaf c (dsk s) ?e ks" using js j by (intro paths) auto
      then show ?thesis using True j b es i by simp
    next
      case False
      then show ?thesis unfolding j using js j by (intro tree_entry(2) [OF b i es other entry]) auto
    qed
  qed
  have frame: "dsk s' x = dsk s x" if "x \<notin> set ts \<union> set (inner c (dsk s) (Suc l) b) \<union> {leaf c (dsk s) b (i # is)}" for x
  proof (rule out)
    show "x \<noteq> b" using that b by auto
    have "?e \<in> set (addrs c (dsk s b))" using i by simp
    then have "set (inner c (dsk s) l ?e) \<subseteq> set (inner c (dsk s) (Suc l) b)" using b by (simp del: nth_mem) blast
    then show "x \<notin> set ts \<union> set (inner c (dsk s) l ?e) \<union> {leaf c (dsk s) ?e is}" using that b by auto
  qed
  show ?thesis
    unfolding grown_def using xs s' tree leaf frame by blast
qed

lemma fresh_grown:
  assumes n: "n \<noteq> 0" and isl: "length is = l" "\<forall>i \<in> set is. i < NBN c" and g: "grown c (bput n (replicate (BSIZE c) 0) s) ys l n is ts xs' s'"
    and got: "got c junk claim (leaf c (dsk (bput n (replicate (BSIZE c) 0) s)) n is) (leaf c (dsk s') n is) ts xs' r (bput n (replicate (BSIZE c) 0) s) s'"
  shows "x \<noteq> 0 \<Longrightarrow> x \<notin> set (n # ts) \<Longrightarrow> dsk s' x = dsk s x"
    and "length js = l \<Longrightarrow> \<forall>i \<in> set js. i < NBN c \<Longrightarrow> js \<noteq> is \<Longrightarrow> leaf c (dsk s') n js = 0"
    and "mset (tree c (dsk s') l n) = mset (n # ts)"
    and "got c junk claim 0 (leaf c (dsk s') n is) (n # ts) xs' r s s'"
proof -
  let ?s = "bput n (replicate (BSIZE c) 0) s"
  note fresh = fresh_tree [of n "dsk ?s", OF n]
  have old: "leaf c (dsk ?s) n is = (if is = [] then n else 0)" using fresh(3) isl by simp
  show "dsk s' x = dsk s x" if "x \<noteq> 0" "x \<notin> set (n # ts)"
  proof -
    have "x \<notin> set ts \<union> set (inner c (dsk ?s) l n) \<union> {leaf c (dsk ?s) n is}" using that fresh(2) [of c l] old by auto
    then have "dsk s' x = dsk ?s x" using g unfolding grown_def by blast
    then show ?thesis using that by simp
  qed
  show "leaf c (dsk s') n js = 0" if "length js = l" "\<forall>i \<in> set js. i < NBN c" "js \<noteq> is"
  proof -
    have "js \<noteq> []" using that isl(1) by auto
    then have "leaf c (dsk ?s) n js = 0" using fresh(3) [of c js l] that by simp
    then show ?thesis using that g by (simp add: grown_def)
  qed
  show "mset (tree c (dsk s') l n) = mset (n # ts)"
    using g fresh(1) [of c l] by (simp add: grown_def)
  show "got c junk claim 0 (leaf c (dsk s') n is) (n # ts) xs' r s s'"
    using got old n by (auto simp: got_def split: option.splits if_splits)
qed

lemma aread_loop_grows:
  assumes "free_ok c s xs" "b \<noteq> 0" "freeable s xs (tree c (dsk s) (length is) b)" "\<forall>i \<in> set is. i < NBN c" "\<forall>x. length (dsk s x) = BSIZE c"
    "claim \<longrightarrow> (\<forall>x. length (junk x) = BSIZE c)"
  shows "\<exists>r s' ts xs'. aread_loop c junk claim False b is s = Some (r, s') \<and> grown c s xs (length is) b is ts xs' s' \<and>
    got c junk claim (leaf c (dsk s) b is) (leaf c (dsk s') b is) ts xs' r s s'"
  using assms
proof (induction "is" arbitrary: b s xs)
  case Nil
  have b: "dsk_err s b = None" "b \<notin> set xs" using freeableD [OF Nil.prems(3) tree_root [OF Nil.prems(2)]] by auto
  show ?case
  proof (cases claim)
    case True
    then show ?thesis
      using Nil.prems b free_ok_bput [OF Nil.prems(1) b(2), of "junk b"]
      by (intro exI [of _ "Some (b, junk b)"] exI [of _ "bput b (junk b) s"] exI [of _ "[]"] exI [of _ xs])
        (simp add: grown_def got_def same_fs_bput Let_def)
  next
    case False
    then show ?thesis
      using Nil.prems b by (intro exI [of _ "Some (b, dsk s b)"] exI [of _ s] exI [of _ "[]"] exI [of _ xs]) (simp add: bread_def grown_def got_def)
  qed
next
  case (Cons i "is")
  let ?d = "dsk s"
  let ?l = "length is"
  let ?e = "addrs c (?d b) ! i"
  have able: "freeable s xs (tree c ?d (Suc ?l) b)" and i: "i < NBN c" and isb: "\<forall>i \<in> set is. i < NBN c" using Cons.prems(3,4) by simp_all
  have geom: "geom_ok c s" using Cons.prems(1) by (simp add: free_ok_def)
  have dist: "distinct (tree c ?d (Suc ?l) b)" using able by (simp add: freeable_def)
  note entry = tree_entry_distinct [OF dist Cons.prems(2) i]
  have b: "dsk_err s b = None" "b \<notin> set xs" using freeableD [OF able tree_root [OF Cons.prems(2)]] by auto
  have e: "?e = candaddr (get32 (4 * i) (?d b))" by (rule nth_addrs [OF i])
  show ?case
  proof (cases "?e = 0")
    case False
    have "freeable s xs (tree c ?d ?l ?e)" by (rule freeable_mono [OF able entry(1,3)])
    from Cons.IH [OF Cons.prems(1) False this isb Cons.prems(5,6)]
    obtain r s' ts xs' where r: "aread_loop c junk claim False ?e is s = Some (r, s')" and g: "grown c s xs ?l ?e is ts xs' s'"
        and got: "got c junk claim (leaf c ?d ?e is) (leaf c (dsk s') ?e is) ts xs' r s s'" by blast
    have ret: "aread_loop c junk claim False b (i # is) s = Some (r, s')"
      using b(1) False r by (simp add: bread_def e)
    have "b \<notin> set ts \<union> set (inner c ?d ?l ?e) \<union> {leaf c ?d ?e is}"
      using b(2) g Cons.prems(2) entry(2) leaf_in_tree [of "is" ?l c ?d ?e] isb tree_set [of c ?d ?l ?e] by (auto simp: grown_def)
    then have db: "dsk s' b = ?d b" using g by (simp add: grown_def)
    have "grown c s xs (Suc ?l) b (i # is) ts xs' s'"
      by (rule grown_entry [where e' = ?e, OF able Cons.prems(2) i refl isb geom]) (use g db in \<open>auto simp: grown_def\<close>)
    then show ?thesis
      using ret got db Cons.prems(2) by auto
  next
    case True
    have zero: "candaddr (get32 (4 * i) (?d b)) = 0" using True e by simp
    show ?thesis
    proof (cases xs)
      case Nil
      from balloc_full [of c s] Cons.prems(1) Nil
      obtain s' where s': "balloc c s = Some (0, s')" "fs_err s' = Some ENOSPC" "free_ok c s' []" "dsk s' = ?d" "same_fs s s'" by blast
      have "aread_loop c junk claim False b (i # is) s = Some (None, s')"
        using b(1) zero s'(1) by (simp add: bread_def)
      moreover have "grown c s xs (Suc ?l) b (i # is) [] [] s'"
        using Nil s' Cons.prems(5) by (simp add: grown_def)
      ultimately show ?thesis using True s' by (auto simp: got_def)
    next
      case (Cons n ys)
      from balloc_ok [of c s n ys] \<open>free_ok c s xs\<close> Cons
      obtain s1 where s1: "balloc c s = Some (n, s1)" "free_ok c s1 ys" "n \<notin> set ys" "in_data s n" "dsk s1 = ?d" "same_fs s s1" "fs_err s1 = fs_err s" by blast
      have n: "n \<noteq> 0" "n \<noteq> b" "dsk_err s n = None" "b \<notin> set ys" "geom_ok c s1"
        using in_data_nonzero [OF geom s1(4)] b Cons \<open>free_ok c s xs\<close> s1(2) by (auto simp: free_ok_def)
      let ?s2 = "bput b (put32 (4 * i) (candaddr n) (?d b)) s1"
      let ?s3 = "bput n (replicate (BSIZE c) 0) ?s2"
      note sel = same_fs_sel [OF s1(6)]
      have ret: "aread_loop c junk claim False b (i # is) s = aread_loop c junk claim False n is ?s3"
        using b(1) zero s1(1,5) n(1,3) sel by (simp add: bread_def aread_loop_fresh)
      have ok3: "free_ok c ?s3 ys" by (intro free_ok_bput s1 n)
      have d3: "dsk ?s3 n = replicate (BSIZE c) 0" by simp
      note fresh = fresh_tree [of n "dsk ?s3", OF n(1) d3]
      have "freeable ?s3 ys (tree c (dsk ?s3) ?l n)"
        using s1(3,4) n(3) sel in_data_cong [OF sel(3,4), of n] by (simp only: fresh) (simp add: freeable_def)
      moreover have "\<forall>x. length (dsk ?s3 x) = BSIZE c" using \<open>\<forall>x. length (dsk s x) = BSIZE c\<close> s1(5) by simp
      ultimately obtain r s' ts xs' where r: "aread_loop c junk claim False n is ?s3 = Some (r, s')" and g: "grown c ?s3 ys ?l n is ts xs' s'"
          and got: "got c junk claim (leaf c (dsk ?s3) n is) (leaf c (dsk s') n is) ts xs' r ?s3 s'"
        using Cons.IH [OF ok3 n(1) _ isb _ Cons.prems(6)] by blast
      note new = fresh_grown [OF n(1) refl isb g got]
      have ys: "ys = ts @ xs'" using g by (simp add: grown_def)
      have same: "dsk s' x = ?d x" if "x \<noteq> b" "x \<notin> set (n # ts)" "x \<noteq> 0" for x
        using new(1) [OF that(3,2)] that s1(5) by simp
      have "dsk s' b = dsk ?s2 b"
        by (rule new(1)) (use n ys Cons.prems(2) in auto)
      then have es: "addrs c (dsk s' b) = (addrs c (?d b))[i := n]"
        using addrs_put [OF i, of "?d b" n] \<open>\<forall>x. length (dsk s x) = BSIZE c\<close> by simp
      have "grown c s xs (Suc ?l) b (i # is) (n # ts) xs' s'"
      proof (rule grown_entry [where e' = n, OF able \<open>b \<noteq> 0\<close> i refl isb geom])
        show "leaf c (dsk s') n js = leaf c ?d ?e js" if "length js = ?l" "\<forall>i \<in> set js. i < NBN c" "js \<noteq> is" for js
          using new(2) [OF that] True by simp
        show "mset (tree c (dsk s') ?l n) = mset (tree c ?d ?l ?e) + mset (n # ts)"
          using new(3) True by simp
        show "same_fs s s'" using s1(6) g by (auto simp: grown_def same_fs_bput intro: same_fs_trans)
      qed (use Cons ys g es same True in \<open>auto simp: grown_def\<close>)
      moreover have "got c junk claim (leaf c ?d b (i # is)) (leaf c (dsk s') b (i # is)) (n # ts) xs' r s s'"
        using new(4) True es i \<open>b \<noteq> 0\<close> s1(5,7) by (auto simp: got_def split: option.splits)
      ultimately show ?thesis
        by (intro exI [of _ r] exI [of _ s'] exI [of _ "n # ts"] exI [of _ xs']) (simp only: ret r length_Cons)
    qed
  qed
qed

section \<open>Files\<close>

text \<open>The blocks of a file: those under its addresses, and the one of an offset, 0 for a hole.\<close>

definition file_tree :: "fs_cfg \<Rightarrow> (daddr \<Rightarrow> octet list) \<Rightarrow> inode \<Rightarrow> daddr list" where
  "file_tree c d ip = concat (map (\<lambda>i. tree c d (lvl c i) (i_addr ip ! i)) [0..<ND c + 3])"

definition path_to :: "fs_cfg \<Rightarrow> nat \<Rightarrow> nat list" where
  "path_to c blk = (case lmap c blk of None \<Rightarrow> [] | Some (path, _) \<Rightarrow> path)"

definition path_leaf :: "fs_cfg \<Rightarrow> (daddr \<Rightarrow> octet list) \<Rightarrow> inode \<Rightarrow> nat list \<Rightarrow> daddr" where
  "path_leaf c d ip path = leaf c d (i_addr ip ! last path) (rev (butlast path))"

definition bmap :: "fs_cfg \<Rightarrow> (daddr \<Rightarrow> octet list) \<Rightarrow> inode \<Rightarrow> nat \<Rightarrow> daddr" where
  "bmap c d ip blk = path_leaf c d ip (path_to c blk)"

definition file_ok :: "fs_cfg \<Rightarrow> fsys \<Rightarrow> daddr list \<Rightarrow> inode \<Rightarrow> bool" where
  "file_ok c s xs ip \<longleftrightarrow> free_ok c s xs \<and> freeable s xs (file_tree c (dsk s) ip) \<and> length (i_addr ip) = ND c + 3 \<and> (\<forall>x. length (dsk s x) = BSIZE c) \<and>
     \<not> i_blk ip \<and> 0 < NBN c"

lemma path_to:
  assumes "blk < MAXBLK c"
  shows "\<exists>n. lmap c blk = Some (path_to c blk, n)" "path_ok c (path_to c blk)" "offset c (path_to c blk) = blk"
  using lmap_Some [OF assms] by (auto simp: path_to_def)

lemma path_okD:
  assumes "path_ok c path"
  shows "path \<noteq> []" "last path < ND c + 3" "length (rev (butlast path)) = lvl c (last path)" "\<forall>i \<in> set (rev (butlast path)). i < NBN c"
  using assms by (simp_all add: path_ok_def)

lemma path_to_inj: "blk < MAXBLK c \<Longrightarrow> blk' < MAXBLK c \<Longrightarrow> path_to c blk = path_to c blk' \<Longrightarrow> blk = blk'"
  using path_to(3) by metis

lemma concat_upt_entry:
  assumes "i < n" "\<And>j. j < n \<Longrightarrow> j \<noteq> i \<Longrightarrow> g j = f j" "mset (g i) = mset (f i) + M"
  shows "mset (concat (map g [0..<n])) = mset (concat (map f [0..<n])) + M"
proof -
  let ?r = "take i [0..<n] @ drop (Suc i) [0..<n]"
  have "j < n \<and> j \<noteq> i" if "j \<in> set ?r" for j using that assms(1) by auto
  then have "map g ?r = map f ?r" using assms(2) by (intro map_cong [OF refl]) blast
  moreover have i: "i < length [0..<n]" "[0..<n] ! i = i" using assms(1) by simp_all
  ultimately show ?thesis
    using mset_concat_nth [OF i(1), of g] mset_concat_nth [OF i(1), of f] assms(3) by (simp only: i(2)) (simp add: ac_simps)
qed

text \<open>Distinct trees under the addresses.\<close>

lemma file_entry_distinct:
  assumes "distinct (file_tree c d ip)" "i < ND c + 3"
  shows "distinct (tree c d (lvl c i) (i_addr ip ! i))" "set (tree c d (lvl c i) (i_addr ip ! i)) \<subseteq> set (file_tree c d ip)"
    "j < ND c + 3 \<Longrightarrow> j \<noteq> i \<Longrightarrow> set (tree c d (lvl c i) (i_addr ip ! i)) \<inter> set (tree c d (lvl c j) (i_addr ip ! j)) = {}"
proof -
  let ?ts = "map (\<lambda>i. tree c d (lvl c i) (i_addr ip ! i)) [0..<ND c + 3]"
  have d: "distinct (concat ?ts)" using assms(1) by (simp only: file_tree_def)
  have nth: "?ts ! k = tree c d (lvl c k) (i_addr ip ! k)" "k < length ?ts" if "k < ND c + 3" for k using that by simp_all
  show "distinct (tree c d (lvl c i) (i_addr ip ! i))" using distinct_concat_nth [OF d nth(2) [OF assms(2)]] nth(1) [OF assms(2)] by simp
  show "set (tree c d (lvl c i) (i_addr ip ! i)) \<subseteq> set (file_tree c d ip)" using assms(2) by (auto simp: file_tree_def)
  show "set (tree c d (lvl c i) (i_addr ip ! i)) \<inter> set (tree c d (lvl c j) (i_addr ip ! j)) = {}" if "j < ND c + 3" "j \<noteq> i"
  proof -
    have "set (?ts ! i) \<inter> set (?ts ! j) = {}"
      using distinct_concat_disjoint [OF d, of i j] that assms(2) by simp blast
    then show ?thesis by (simp only: nth(1) [OF assms(2)] nth(1) [OF that(1)])
  qed
qed

text \<open>Two paths never lead to the same block.\<close>

lemma leaf_inj:
  assumes "distinct (tree c d l b)" "length is = l" "length js = l" "\<forall>i \<in> set is. i < NBN c" "\<forall>i \<in> set js. i < NBN c"
    "leaf c d b is \<noteq> 0" "leaf c d b js = leaf c d b is"
  shows "js = is"
  using assms
proof (induction l arbitrary: b "is" js)
  case (Suc l)
  obtain i is' j js' where e: "is = i # is'" "js = j # js'" using Suc.prems(2,3) by (cases "is"; cases js) auto
  have b: "b \<noteq> 0" using Suc.prems(6) by auto
  note entry = tree_entry_distinct [OF Suc.prems(1) b]
  have ij: "i < NBN c" "j < NBN c" using Suc.prems(4,5) e by simp_all
  have l1: "leaf c d (addrs c (d b) ! i) is' \<in> set (tree c d l (addrs c (d b) ! i))"
    by (rule leaf_in_tree) (use Suc.prems e b in auto)
  have l2: "leaf c d (addrs c (d b) ! j) js' \<in> set (tree c d l (addrs c (d b) ! j))"
    by (rule leaf_in_tree) (use Suc.prems e b in auto)
  have eq: "leaf c d (addrs c (d b) ! j) js' = leaf c d (addrs c (d b) ! i) is'" using Suc.prems(7) e b by simp
  have "j = i"
  proof (rule ccontr)
    assume "j \<noteq> i"
    from entry(4) [OF ij this] l1 l2 eq show False by auto
  qed
  moreover have "js' = is'"
    by (rule Suc.IH [OF entry(1) [OF ij(1)]]) (use Suc.prems e b eq \<open>j = i\<close> in auto)
  ultimately show ?case using e by simp
qed simp

lemma path_leaf_in_tree:
  assumes "path_ok c path" "path_leaf c d ip path \<noteq> 0"
  shows "path_leaf c d ip path \<in> set (tree c d (lvl c (last path)) (i_addr ip ! last path))"
  using leaf_in_tree [OF path_okD(3,4) [OF assms(1)]] assms(2) by (simp add: path_leaf_def)

lemma bmap_inj:
  assumes "file_ok c s xs ip" "blk < MAXBLK c" "blk' < MAXBLK c" "bmap c (dsk s) ip blk \<noteq> 0" "bmap c (dsk s) ip blk' = bmap c (dsk s) ip blk"
  shows "blk' = blk"
proof -
  have dist: "distinct (file_tree c (dsk s) ip)" using assms(1) by (simp add: file_ok_def freeable_def)
  let ?p = "path_to c blk" and ?q = "path_to c blk'"
  have ok: "path_ok c ?p" "path_ok c ?q" using assms(2,3) path_to(2) by blast+
  have nz: "path_leaf c (dsk s) ip ?p \<noteq> 0" and eq: "path_leaf c (dsk s) ip ?q = path_leaf c (dsk s) ip ?p" using assms(4,5) by (simp_all add: bmap_def)
  have "last ?q = last ?p"
  proof (rule ccontr)
    assume "last ?q \<noteq> last ?p"
    from file_entry_distinct(3) [OF dist path_okD(2) [OF ok(1)] path_okD(2) [OF ok(2)] this]
    show False using path_leaf_in_tree [OF ok(1) nz] path_leaf_in_tree [OF ok(2), of "dsk s" ip] nz eq by auto
  qed
  moreover have "rev (butlast ?q) = rev (butlast ?p)"
    by (rule leaf_inj [OF file_entry_distinct(1) [OF dist path_okD(2) [OF ok(1)]]])
      (use path_okD [OF ok(1)] path_okD [OF ok(2)] nz eq \<open>last ?q = last ?p\<close> in \<open>simp_all add: path_leaf_def\<close>)
  ultimately have "?q = ?p"
    using path_okD(1) [OF ok(1)] path_okD(1) [OF ok(2)] by (metis append_butlast_last_id rev_is_rev_conv)
  then show ?thesis using path_to_inj assms(2,3) by metis
qed

text \<open>Looking up a block of a file for writing: the file grows by blocks that were free, and only what is looked up changes.\<close>

definition added :: "fs_cfg \<Rightarrow> fsys \<Rightarrow> daddr list \<Rightarrow> inode \<Rightarrow> nat \<Rightarrow> daddr list \<Rightarrow> daddr list \<Rightarrow> inode \<Rightarrow> fsys \<Rightarrow> bool" where
  "added c s xs ip blk ts xs' ip' s' \<longleftrightarrow> xs = ts @ xs' \<and> file_ok c s' xs' ip' \<and> same_fs s s' \<and>
     mset (file_tree c (dsk s') ip') = mset (file_tree c (dsk s) ip) + mset ts \<and> ip' = ip\<lparr>i_addr := i_addr ip'\<rparr> \<and>
     (\<forall>k < MAXBLK c. k \<noteq> blk \<longrightarrow> bmap c (dsk s') ip' k = bmap c (dsk s) ip k \<and>
        (bmap c (dsk s) ip k \<noteq> 0 \<longrightarrow> dsk s' (bmap c (dsk s) ip k) = dsk s (bmap c (dsk s) ip k))) \<and>
     (\<forall>x. x \<noteq> 0 \<longrightarrow> x \<notin> set xs \<union> set (file_tree c (dsk s) ip) \<longrightarrow> dsk s' x = dsk s x)"

lemma bmap_usable:
  assumes "file_ok c s xs ip" "blk < MAXBLK c" "bmap c (dsk s) ip blk \<noteq> 0"
  shows "bmap c (dsk s) ip blk \<in> set (file_tree c (dsk s) ip)" "in_data s (bmap c (dsk s) ip blk)" "dsk_err s (bmap c (dsk s) ip blk) = None"
    "bmap c (dsk s) ip blk \<notin> set xs"
proof -
  have able: "freeable s xs (file_tree c (dsk s) ip)" using assms(1) by (simp add: file_ok_def)
  then have dist: "distinct (file_tree c (dsk s) ip)" by (simp add: freeable_def)
  note ok = path_to(2) [OF assms(2)]
  show t: "bmap c (dsk s) ip blk \<in> set (file_tree c (dsk s) ip)"
    using path_leaf_in_tree [OF ok, of "dsk s" ip] assms(3) file_entry_distinct(2) [OF dist path_okD(2) [OF ok]] by (auto simp: bmap_def)
  show "in_data s (bmap c (dsk s) ip blk)" "dsk_err s (bmap c (dsk s) ip blk) = None" "bmap c (dsk s) ip blk \<notin> set xs"
    using freeableD [OF able t] by auto
qed

lemma bmap_not_inner:
  assumes ok: "file_ok c s xs ip" and k: "k < MAXBLK c" "bmap c (dsk s) ip k \<noteq> 0" and i: "i < ND c + 3"
  shows "bmap c (dsk s) ip k \<notin> set (inner c (dsk s) (lvl c i) (i_addr ip ! i))"
proof -
  let ?q = "path_to c k"
  let ?t = "\<lambda>i. set (tree c (dsk s) (lvl c i) (i_addr ip ! i))"
  have dist: "distinct (file_tree c (dsk s) ip)" using ok by (simp add: file_ok_def freeable_def)
  note q = path_okD [OF path_to(2) [OF k(1)]]
  have "bmap c (dsk s) ip k \<in> set (leaves c (dsk s) (lvl c (last ?q)) (i_addr ip ! last ?q))"
    using leaf_in_leaves [OF q(3,4), of "dsk s" "i_addr ip ! last ?q"] k(2) by (simp add: bmap_def path_leaf_def)
  moreover have "?t j = set (inner c (dsk s) (lvl c j) (i_addr ip ! j)) \<union> set (leaves c (dsk s) (lvl c j) (i_addr ip ! j))" for j
    by (rule tree_set)
  ultimately show ?thesis
    using tree_distinct_parts [OF file_entry_distinct(1) [OF dist i]] file_entry_distinct(3) [OF dist i q(2)]
    by (cases "last ?q = i") auto
qed

lemma added_entry:
  assumes ok: "file_ok c s xs ip" and blk: "blk < MAXBLK c" and path: "path_to c blk = path" and xs: "xs = ts @ xs'" and s': "free_ok c s' xs'" "same_fs s s'"
    "\<forall>x. length (dsk s' x) = BSIZE c"
    and entry: "mset (tree c (dsk s') (lvl c (last path)) e') = mset (tree c (dsk s) (lvl c (last path)) (i_addr ip ! last path)) + mset ts"
    and paths: "\<And>js. length js = lvl c (last path) \<Longrightarrow> \<forall>i \<in> set js. i < NBN c \<Longrightarrow> js \<noteq> rev (butlast path) \<Longrightarrow>
      leaf c (dsk s') e' js = leaf c (dsk s) (i_addr ip ! last path) js"
    and out: "\<And>x. x \<noteq> 0 \<Longrightarrow> x \<notin> set ts \<union> set (inner c (dsk s) (lvl c (last path)) (i_addr ip ! last path)) \<union>
      {leaf c (dsk s) (i_addr ip ! last path) (rev (butlast path))} \<Longrightarrow> dsk s' x = dsk s x"
  shows "added c s xs ip blk ts xs' (ip\<lparr>i_addr := (i_addr ip)[last path := e']\<rparr>) s'"
proof -
  let ?l = "last path" and ?is = "rev (butlast path)"
  let ?b = "i_addr ip ! ?l"
  let ?ip = "ip\<lparr>i_addr := (i_addr ip)[?l := e']\<rparr>"
  have pok: "path_ok c path" using path_to(2) [OF blk] path by simp
  note p = path_okD [OF pok]
  have free: "free_ok c s xs" and able: "freeable s xs (file_tree c (dsk s) ip)" and len: "length (i_addr ip) = ND c + 3" and "\<not> i_blk ip" "0 < NBN c"
    using ok by (simp_all add: file_ok_def)
  have geom: "geom_ok c s" using free by (simp add: free_ok_def)
  have dist: "distinct (file_tree c (dsk s) ip)" using able by (simp add: freeable_def)
  have inT: "set (inner c (dsk s) (lvl c ?l) ?b) \<subseteq> set (tree c (dsk s) (lvl c ?l) ?b)"
    using tree_set [of c "dsk s" "lvl c ?l" ?b] by blast
  note inT = inT leaf_in_tree [OF p(3,4), of "dsk s" ?b]
  have nonzero: "x \<noteq> 0 \<and> x \<notin> set xs" if "x \<in> set (file_tree c (dsk s) ip)" for x
    using freeableD [OF able that] in_data_nonzero [OF geom] by auto
  have other: "dsk s' x = dsk s x" if j: "j < ND c + 3" "j \<noteq> ?l" and x: "x \<in> set (tree c (dsk s) (lvl c j) (i_addr ip ! j))" for j x
  proof (rule out)
    have T: "x \<in> set (file_tree c (dsk s) ip)" using file_entry_distinct(2) [OF dist j(1)] x by blast
    then show "x \<noteq> 0" using nonzero by blast
    show "x \<notin> set ts \<union> set (inner c (dsk s) (lvl c ?l) ?b) \<union> {leaf c (dsk s) ?b ?is}"
      using file_entry_distinct(3) [OF dist p(2) j] x inT nonzero [OF T] xs by auto
  qed
  have tree: "mset (file_tree c (dsk s') ?ip) = mset (file_tree c (dsk s) ip) + mset ts"
    unfolding file_tree_def
  proof (rule concat_upt_entry [OF p(2)])
    show "tree c (dsk s') (lvl c j) (i_addr ?ip ! j) = tree c (dsk s) (lvl c j) (i_addr ip ! j)" if "j < ND c + 3" "j \<noteq> ?l" for j
      using tree_frame [OF other [OF that]] that by simp
  qed (use entry p(2) len in simp)
  have sets: "set (file_tree c (dsk s') ?ip) = set (file_tree c (dsk s) ip) \<union> set ts"
    using tree by (metis set_mset_mset set_mset_union)
  have able': "freeable s' xs' (file_tree c (dsk s') ?ip)"
    unfolding freeable_def
  proof (intro conjI ballI)
    have "distinct (file_tree c (dsk s) ip @ ts)" using able free xs by (auto simp: freeable_def free_ok_def)
    then show "distinct (file_tree c (dsk s') ?ip)" using tree by (metis mset_append mset_eq_imp_distinct_iff)
    show "set (file_tree c (dsk s') ?ip) \<inter> set xs' = {}" using sets able free xs by (auto simp: freeable_def free_ok_def)
    fix x assume "x \<in> set (file_tree c (dsk s') ?ip)"
    then have "in_data s x \<and> dsk_err s x = None" using sets able free xs by (auto simp: freeable_def free_ok_def)
    then show "in_data s' x" "dsk_err s' x = None" using same_fs_sel [OF s'(2)] in_data_cong [of s' s x] by auto
  qed
  have maps: "bmap c (dsk s') ?ip k = bmap c (dsk s) ip k" if k: "k < MAXBLK c" "k \<noteq> blk" for k
  proof (cases "last (path_to c k) = ?l")
    case True
    note q = path_okD [OF path_to(2) [OF k(1)]]
    have "path_to c k \<noteq> path" using path_to_inj [OF k(1) blk] k(2) path by auto
    then have "rev (butlast (path_to c k)) \<noteq> ?is" using True p(1) q(1) by (metis append_butlast_last_id rev_is_rev_conv)
    then show ?thesis using paths [of "rev (butlast (path_to c k))"] q True p(2) len by (simp add: bmap_def path_leaf_def)
  next
    case False
    note q = path_okD [OF path_to(2) [OF k(1)]]
    have "leaf c (dsk s') (i_addr ip ! last (path_to c k)) (rev (butlast (path_to c k))) = leaf c (dsk s) (i_addr ip ! last (path_to c k)) (rev (butlast (path_to c k)))"
      by (rule structure_frame(3) [OF _ q(3,4)]) (use other [OF q(2) False] tree_set in blast)
    then show ?thesis using False by (simp add: bmap_def path_leaf_def)
  qed
  have same: "dsk s' (bmap c (dsk s) ip k) = dsk s (bmap c (dsk s) ip k)" if k: "k < MAXBLK c" "k \<noteq> blk" "bmap c (dsk s) ip k \<noteq> 0" for k
  proof (rule out [OF k(3)])
    have "bmap c (dsk s) ip k \<noteq> leaf c (dsk s) ?b ?is"
      using bmap_inj [OF ok k(1) blk k(3)] k(2) path by (auto simp: bmap_def path_leaf_def)
    moreover have "bmap c (dsk s) ip k \<notin> set (inner c (dsk s) (lvl c ?l) ?b)"
      by (rule bmap_not_inner [OF ok k(1,3) p(2)])
    moreover have "bmap c (dsk s) ip k \<notin> set ts" using bmap_usable(4) [OF ok k(1,3)] xs by auto
    ultimately show "bmap c (dsk s) ip k \<notin> set ts \<union> set (inner c (dsk s) (lvl c ?l) ?b) \<union> {leaf c (dsk s) ?b ?is}" by blast
  qed
  have frame: "dsk s' x = dsk s x" if "x \<noteq> 0" "x \<notin> set xs \<union> set (file_tree c (dsk s) ip)" for x
    by (rule out [OF that(1)]) (use that inT file_entry_distinct(2) [OF dist p(2)] xs in auto)
  have fok: "file_ok c s' xs' ?ip"
    using s' able' len \<open>\<not> i_blk ip\<close> \<open>0 < NBN c\<close> by (simp add: file_ok_def)
  show ?thesis
    unfolding added_def using xs fok s'(2) tree maps same frame by simp
qed

lemma aread_ok:
  assumes ok: "file_ok c s xs ip" and blk: "blk < MAXBLK c" and junk: "claim \<longrightarrow> (\<forall>x. length (junk x) = BSIZE c)"
  shows "\<exists>r ip' s' ts xs'. aread c junk ip blk claim s = Some (r, ip', s') \<and> added c s xs ip blk ts xs' ip' s' \<and>
    got c junk claim (bmap c (dsk s) ip blk) (bmap c (dsk s') ip' blk) ts xs' r s s'"
proof -
  let ?path = "path_to c blk"
  let ?l = "last ?path" and ?is = "rev (butlast ?path)"
  let ?b = "i_addr ip ! ?l"
  obtain n where lm: "lmap c blk = Some (?path, n)" using path_to(1) [OF blk] by blast
  note p = path_okD [OF path_to(2) [OF blk]]
  have free: "free_ok c s xs" and able: "freeable s xs (file_tree c (dsk s) ip)" and len: "length (i_addr ip) = ND c + 3"
    and lens: "\<forall>x. length (dsk s x) = BSIZE c"
    using ok by (simp_all add: file_ok_def)
  have geom: "geom_ok c s" using free by (simp add: free_ok_def)
  have dist: "distinct (file_tree c (dsk s) ip)" using able by (simp add: freeable_def)
  have bm: "bmap c (dsk s) ip blk = leaf c (dsk s) ?b ?is" by (simp add: bmap_def path_leaf_def)
  have bm': "bmap c d (ip\<lparr>i_addr := (i_addr ip)[?l := e]\<rparr>) blk = leaf c d e ?is" for d e
    using p(2) len by (simp add: bmap_def path_leaf_def)
  show ?thesis
  proof (cases "?b = 0")
    case False
    have "freeable s xs (tree c (dsk s) (length ?is) ?b)"
      unfolding p(3) by (rule freeable_mono [OF able file_entry_distinct(1,2) [OF dist p(2)]])
    from aread_loop_grows [OF free False this p(4) lens junk]
    obtain r s' ts xs' where r: "aread_loop c junk claim False ?b ?is s = Some (r, s')" and g: "grown c s xs (lvl c ?l) ?b ?is ts xs' s'"
        and got: "got c junk claim (leaf c (dsk s) ?b ?is) (leaf c (dsk s') ?b ?is) ts xs' r s s'" unfolding p(3) by blast
    have "aread c junk ip blk claim s = Some (r, ip, s')"
      using lm False r by (simp add: aread_def)
    moreover have "added c s xs ip blk ts xs' (ip\<lparr>i_addr := (i_addr ip)[?l := ?b]\<rparr>) s'"
      by (rule added_entry [OF ok blk refl]) (use g in \<open>auto simp: grown_def\<close>)
    ultimately show ?thesis using got bm bm' [of "dsk s'" ?b] by (intro exI [of _ r] exI [of _ ip] exI [of _ s'] exI [of _ ts] exI [of _ xs']) simp
  next
    case True
    show ?thesis
    proof (cases xs)
      case Nil
      from balloc_full [of c s] free Nil
      obtain s' where s': "balloc c s = Some (0, s')" "fs_err s' = Some ENOSPC" "free_ok c s' []" "dsk s' = dsk s" "same_fs s s'" by blast
      have "aread c junk ip blk claim s = Some (None, ip, s')"
        using lm True s'(1) by (simp add: aread_def)
      moreover have "added c s xs ip blk [] [] (ip\<lparr>i_addr := (i_addr ip)[?l := 0]\<rparr>) s'"
        by (rule added_entry [OF ok blk refl]) (use Nil s' lens True in auto)
      moreover have "(i_addr ip)[?l := 0] = i_addr ip" using True list_update_id [of "i_addr ip" ?l] by simp
      ultimately show ?thesis
        using True s' bm bm' [of "dsk s" 0] by (intro exI [of _ None] exI [of _ ip] exI [of _ s'] exI [of _ "[]"]) (simp add: got_def)
    next
      case (Cons n ys)
      from balloc_ok [of c s n ys] free Cons
      obtain s1 where s1: "balloc c s = Some (n, s1)" "free_ok c s1 ys" "n \<notin> set ys" "in_data s n" "dsk s1 = dsk s" "same_fs s s1" "fs_err s1 = fs_err s" by blast
      note sel = same_fs_sel [OF s1(6)]
      have n: "n \<noteq> 0" "dsk_err s n = None" using in_data_nonzero [OF geom s1(4)] free Cons by (auto simp: free_ok_def)
      let ?s2 = "bput n (replicate (BSIZE c) 0) s1"
      have "freeable ?s2 ys (tree c (dsk ?s2) (length ?is) n)"
        using s1(3,4) n sel in_data_cong [OF sel(3,4), of n] fresh_tree(1) [of n "dsk ?s2" c "length ?is"] by (simp add: freeable_def)
      moreover have "\<forall>x. length (dsk ?s2 x) = BSIZE c" using lens s1(5) by simp
      ultimately obtain r s' ts xs' where r: "aread_loop c junk claim False n ?is ?s2 = Some (r, s')" and g: "grown c ?s2 ys (lvl c ?l) n ?is ts xs' s'"
          and got: "got c junk claim (leaf c (dsk ?s2) n ?is) (leaf c (dsk s') n ?is) ts xs' r ?s2 s'"
        using aread_loop_grows [OF free_ok_bput [OF s1(2,3)] n(1) _ p(4) _ junk] unfolding p(3) by blast
      note new = fresh_grown [OF n(1) p(3,4) g got]
      have "aread c junk ip blk claim s = Some (r, ip\<lparr>i_addr := (i_addr ip)[?l := n]\<rparr>, s')"
        using lm True s1(1) n r sel by (simp add: aread_def aread_loop_fresh)
      moreover have "added c s xs ip blk (n # ts) xs' (ip\<lparr>i_addr := (i_addr ip)[?l := n]\<rparr>) s'"
      proof (rule added_entry [OF ok blk refl])
        show "same_fs s s'" using s1(6) g by (auto simp: grown_def same_fs_bput intro: same_fs_trans)
        show "dsk s' x = dsk s x"
          if "x \<noteq> 0" "x \<notin> set (n # ts) \<union> set (inner c (dsk s) (lvl c ?l) ?b) \<union> {leaf c (dsk s) ?b ?is}" for x
          using new(1) [of x] that s1(5) by simp
      qed (use Cons g new(2,3) True in \<open>auto simp: grown_def\<close>)
      moreover have "got c junk claim 0 (leaf c (dsk s') n ?is) (n # ts) xs' r s s'"
        using new(4) s1(5,7) by (auto simp: got_def split: option.splits)
      ultimately show ?thesis
        using True bm bm' [of "dsk s'" n] by (intro exI [of _ r] exI [of _ "ip\<lparr>i_addr := (i_addr ip)[?l := n]\<rparr>"] exI [of _ s'] exI [of _ "n # ts"] exI [of _ xs']) simp
    qed
  qed
qed

text \<open>The bytes of a file.\<close>

definition file_block :: "fs_cfg \<Rightarrow> fsys \<Rightarrow> inode \<Rightarrow> nat \<Rightarrow> octet list" where
  "file_block c s ip k = (if bmap c (dsk s) ip k = 0 then replicate (BSIZE c) 0 else dsk s (bmap c (dsk s) ip k))"

definition byte_at :: "fs_cfg \<Rightarrow> fsys \<Rightarrow> inode \<Rightarrow> nat \<Rightarrow> octet" where
  "byte_at c s ip k = file_block c s ip (k div BSIZE c) ! (k mod BSIZE c)"

text \<open>Storing into a block of a file changes that block and nothing else.\<close>

lemma bput_leaf:
  assumes ok: "file_ok c s xs ip" and k: "k < MAXBLK c" "bmap c (dsk s) ip k = b" "b \<noteq> 0" and bs: "length bs = BSIZE c"
  shows "file_ok c (bput b bs s) xs ip" "mset (file_tree c (dsk (bput b bs s)) ip) = mset (file_tree c (dsk s) ip)"
    "file_block c (bput b bs s) ip k = bs" "j < MAXBLK c \<Longrightarrow> j \<noteq> k \<Longrightarrow> file_block c (bput b bs s) ip j = file_block c s ip j"
proof -
  let ?d = "dsk (bput b bs s)"
  have inner: "?d x = dsk s x" if "i < ND c + 3" "x \<in> set (inner c (dsk s) (lvl c i) (i_addr ip ! i))" for i x
    using bmap_not_inner [OF ok k(1) _ that(1)] that(2) k by auto
  have frame: "inner c ?d (lvl c i) (i_addr ip ! i) = inner c (dsk s) (lvl c i) (i_addr ip ! i)"
    "leaves c ?d (lvl c i) (i_addr ip ! i) = leaves c (dsk s) (lvl c i) (i_addr ip ! i)"
    "length js = lvl c i \<Longrightarrow> \<forall>i \<in> set js. i < NBN c \<Longrightarrow> leaf c ?d (i_addr ip ! i) js = leaf c (dsk s) (i_addr ip ! i) js"
    if "i < ND c + 3" for i js
    by (rule structure_frame [OF inner [OF that]], assumption+)+
  have tree: "mset (tree c ?d (lvl c i) (i_addr ip ! i)) = mset (tree c (dsk s) (lvl c i) (i_addr ip ! i))" if "i < ND c + 3" for i
    using frame(1,2) [OF that] by (simp only: tree_parts)
  show ft: "mset (file_tree c ?d ip) = mset (file_tree c (dsk s) ip)"
    unfolding file_tree_def by (rule mset_concat_cong, rule tree) simp
  have map: "bmap c ?d ip j = bmap c (dsk s) ip j" if "j < MAXBLK c" for j
    using frame(3) [OF path_okD(2-4) [OF path_to(2) [OF that]]] by (simp add: bmap_def path_leaf_def)
  show "file_block c (bput b bs s) ip k = bs"
    using map [OF k(1)] k by (simp add: file_block_def)
  show "file_block c (bput b bs s) ip j = file_block c s ip j" if "j < MAXBLK c" "j \<noteq> k"
    using map [OF that(1)] bmap_inj [OF ok k(1) that(1)] that(2) k by (auto simp: file_block_def)
  have "b \<notin> set xs" using bmap_usable(4) [OF ok k(1)] k by simp
  moreover have "freeable (bput b bs s) xs (file_tree c ?d ip)"
  proof -
    have "distinct (file_tree c ?d ip) \<longleftrightarrow> distinct (file_tree c (dsk s) ip)" using ft mset_eq_imp_distinct_iff by blast
    moreover have "set (file_tree c ?d ip) = set (file_tree c (dsk s) ip)" using ft mset_eq_setD by blast
    ultimately show ?thesis using ok by (simp add: file_ok_def freeable_def)
  qed
  ultimately show "file_ok c (bput b bs s) xs ip"
    using ok free_ok_bput bs by (simp add: file_ok_def)
qed

lemma added_block:
  assumes "added c s xs ip blk ts xs' ip' s'" "k < MAXBLK c" "k \<noteq> blk"
  shows "file_block c s' ip' k = file_block c s ip k"
  using assms by (simp add: added_def file_block_def)

lemma length_file_block: "file_ok c s xs ip \<Longrightarrow> length (file_block c s ip k) = BSIZE c"
  by (simp add: file_block_def file_ok_def)

text \<open>One round of \<open>fwrite\<close>, for the block \<open>lbn\<close>: \<open>n\<close> bytes at \<open>off\<close>.\<close>

lemma write_block_bytes:
  assumes B: "off + n \<le> BSIZE c" "length v = n" "length bs = BSIZE c" "seek = lbn * BSIZE c + off"
    and same: "\<And>j. j < M \<Longrightarrow> j \<noteq> lbn \<Longrightarrow> file_block c s' ip' j = file_block c s ip j"
    and blk: "file_block c s' ip' lbn = take off bs @ v @ drop (off + n) bs"
    and bs: "off = 0 \<and> n = BSIZE c \<or> bs = file_block c s ip lbn" and k: "k < M * BSIZE c"
  shows "byte_at c s' ip' k = (if seek \<le> k \<and> k < seek + n then v ! (k - seek) else byte_at c s ip k)"
proof -
  let ?q = "k div BSIZE c" and ?r = "k mod BSIZE c"
  have pos: "0 < BSIZE c" using k by (cases "BSIZE c = 0") auto
  have kq: "k = ?q * BSIZE c + ?r" "?r < BSIZE c" using pos by simp_all
  have q: "?q < M" using k by (simp add: less_mult_imp_div_less)
  show ?thesis
  proof (cases "?q = lbn")
    case True
    have "k = lbn * BSIZE c + ?r" using kq(1) True by simp
    then have w: "seek \<le> k \<and> k < seek + n \<longleftrightarrow> off \<le> ?r \<and> ?r < off + n" "k - seek = ?r - off" using B(4) by linarith+
    have "byte_at c s' ip' k = (take off bs @ v @ drop (off + n) bs) ! ?r" using True blk by (simp add: byte_at_def)
    also have "\<dots> = (if off \<le> ?r \<and> ?r < off + n then v ! (?r - off) else bs ! ?r)"
      using B kq(2) by (auto simp: nth_append)
    also have "\<dots> = (if off \<le> ?r \<and> ?r < off + n then v ! (?r - off) else byte_at c s ip k)"
      using bs True kq(2) by (auto simp: byte_at_def)
    finally show ?thesis using w by simp
  next
    case False
    have "\<not> (seek \<le> k \<and> k < seek + n)"
    proof
      assume "seek \<le> k \<and> k < seek + n"
      then have "lbn * BSIZE c \<le> k" "k < (lbn + 1) * BSIZE c" using B by (auto simp: algebra_simps)
      then have "lbn \<le> ?q" "?q < lbn + 1" using pos by (simp_all add: less_eq_div_iff_mult_less_eq div_less_iff_less_mult)
      then show False using False by simp
    qed
    then show ?thesis using same [OF q False] by (auto simp: byte_at_def)
  qed
qed

text \<open>What \<open>fwrite\<close> has done when \<open>m\<close> bytes are stored: they are in the file, and the blocks are accounted for.\<close>

definition stored :: "fs_cfg \<Rightarrow> fsys \<Rightarrow> daddr list \<Rightarrow> inode \<Rightarrow> io \<Rightarrow> nat \<Rightarrow> daddr list \<Rightarrow> inode \<Rightarrow> io \<Rightarrow> fsys \<Rightarrow> bool" where
  "stored c s xs ip iop m xs' ip' iop' s' \<longleftrightarrow> m \<le> io_ioc iop \<and> io_ioc iop' = io_ioc iop - m \<and> io_seek iop' = io_seek iop + m \<and>
     io_data iop' = drop m (io_data iop) \<and> io_room iop' = io_room iop - m \<and>
     file_ok c s' xs' ip' \<and> same_fs s s' \<and> (\<exists>ts. xs = ts @ xs' \<and> mset (file_tree c (dsk s') ip') = mset (file_tree c (dsk s) ip) + mset ts) \<and>
     i_size ip' = (if m = 0 then i_size ip else max (i_size ip) (io_seek iop + m)) \<and>
     (\<forall>k < MAXBLK c * BSIZE c. byte_at c s' ip' k =
        (if io_seek iop \<le> k \<and> k < io_seek iop + m then io_data iop ! (k - io_seek iop) else byte_at c s ip k))"

lemma stored_trans:
  assumes 1: "stored c s xs ip iop m ys ip1 iop1 s1" and 2: "stored c s1 ys ip1 iop1 n zs ip2 iop2 s2" and len: "io_ioc iop \<le> length (io_data iop)"
  shows "stored c s xs ip iop (m + n) zs ip2 iop2 s2"
proof -
  obtain ts where ts: "xs = ts @ ys" "mset (file_tree c (dsk s1) ip1) = mset (file_tree c (dsk s) ip) + mset ts" using 1 by (auto simp: stored_def)
  obtain us where us: "ys = us @ zs" "mset (file_tree c (dsk s2) ip2) = mset (file_tree c (dsk s1) ip1) + mset us" using 2 by (auto simp: stored_def)
  have "\<exists>vs. xs = vs @ zs \<and> mset (file_tree c (dsk s2) ip2) = mset (file_tree c (dsk s) ip) + mset vs"
    using ts us by (intro exI [of _ "ts @ us"]) simp
  moreover have "byte_at c s2 ip2 k =
      (if io_seek iop \<le> k \<and> k < io_seek iop + (m + n) then io_data iop ! (k - io_seek iop) else byte_at c s ip k)" if "k < MAXBLK c * BSIZE c" for k
  proof -
    have "drop m (io_data iop) ! (k - (io_seek iop + m)) = io_data iop ! (k - io_seek iop)" if "io_seek iop + m \<le> k"
      using that 1 len by (simp add: stored_def nth_drop)
    then show ?thesis using 1 2 that by (simp add: stored_def)
  qed
  moreover have "same_fs s s2" using 1 2 unfolding stored_def by (blast intro: same_fs_trans)
  moreover have "io_data iop2 = drop (m + n) (io_data iop)" using 1 2 by (simp add: stored_def add.commute)
  moreover have "m + n \<le> io_ioc iop" "io_ioc iop2 = io_ioc iop - (m + n)" "io_seek iop2 = io_seek iop + (m + n)" "io_room iop2 = io_room iop - (m + n)"
    "file_ok c s2 zs ip2"
  proof -
    have "m \<le> io_ioc iop" "io_ioc iop1 = io_ioc iop - m" "io_seek iop1 = io_seek iop + m" "io_room iop1 = io_room iop - m"
      using 1 by (simp_all add: stored_def)
    moreover have "n \<le> io_ioc iop1" "io_ioc iop2 = io_ioc iop1 - n" "io_seek iop2 = io_seek iop1 + n" "io_room iop2 = io_room iop1 - n"
      using 2 by (simp_all add: stored_def)
    ultimately show "m + n \<le> io_ioc iop" "io_ioc iop2 = io_ioc iop - (m + n)" "io_seek iop2 = io_seek iop + (m + n)"
      "io_room iop2 = io_room iop - (m + n)" by linarith+
    show "file_ok c s2 zs ip2" using 2 by (simp add: stored_def)
  qed
  moreover have "i_size ip2 = (if m + n = 0 then i_size ip else max (i_size ip) (io_seek iop + (m + n)))"
  proof -
    have "i_size ip1 = (if m = 0 then i_size ip else max (i_size ip) (io_seek iop + m))"
      "i_size ip2 = (if n = 0 then i_size ip1 else max (i_size ip1) (io_seek iop + m + n))"
      using 1 2 unfolding stored_def by simp_all
    then show ?thesis by auto
  qed
  ultimately show ?thesis unfolding stored_def by blast
qed

lemma file_update_size [simp]:
  "file_tree c d (ip\<lparr>i_size := n\<rparr>) = file_tree c d ip" "bmap c d (ip\<lparr>i_size := n\<rparr>) k = bmap c d ip k" "file_ok c s xs (ip\<lparr>i_size := n\<rparr>) = file_ok c s xs ip"
  "file_block c s (ip\<lparr>i_size := n\<rparr>) k = file_block c s ip k" "byte_at c s (ip\<lparr>i_size := n\<rparr>) j = byte_at c s ip j"
  by (simp_all add: file_tree_def file_ok_def bmap_def path_leaf_def file_block_def byte_at_def)

lemma added_size: "added c s xs ip blk ts xs' ip' s' \<Longrightarrow> i_size ip' = i_size ip \<and> i_blk ip' = i_blk ip \<and> i_lastblock ip' = i_lastblock ip"
  unfolding added_def by (metis inode.select_convs inode.surjective inode.update_convs(3))

lemma added_stored:
  assumes "added c s xs ip lbn ts xs' ip' s'" "file_block c s' ip' lbn = file_block c s ip lbn"
  shows "stored c s xs ip iop 0 xs' ip' iop s'"
proof -
  have "file_block c s' ip' k = file_block c s ip k" if "k < MAXBLK c" for k
    using added_block [OF assms(1) that] assms(2) by (cases "k = lbn") auto
  then have "byte_at c s' ip' k = byte_at c s ip k" if "k < MAXBLK c * BSIZE c" for k
    using that by (simp add: byte_at_def less_mult_imp_div_less)
  then show ?thesis
    using assms(1) added_size [OF assms(1)] by (auto simp: stored_def added_def)
qed

lemma div_mult_bound: "k mod (b :: nat) + n \<le> b \<Longrightarrow> 0 < n \<Longrightarrow> k + n \<le> M * b \<Longrightarrow> k div b < M"
  by (metis add_lessD1 less_add_same_cancel1 less_le_trans less_mult_imp_div_less)

lemma added_write:
  assumes add: "added c s xs ip lbn ts xs' ip' s1" and lbn: "lbn < MAXBLK c" "lbn = io_seek iop div BSIZE c"
    and got: "got c junk com (bmap c (dsk s) ip lbn) (bmap c (dsk s1) ip' lbn) ts xs' (Some (b, bs)) s s1"
    and n: "off = io_seek iop mod BSIZE c" "0 < n" "off + n \<le> BSIZE c" "n \<le> io_ioc iop" "com = (off = 0 \<and> n = BSIZE c)"
    and v: "n \<le> length (io_data iop)" and s2: "s2 = bput b (take off bs @ take n (io_data iop) @ drop (off + n) bs) s1"
    and iop': "iop' = iop\<lparr>io_data := drop n (io_data iop), io_room := io_room iop - n, io_ioc := io_ioc iop - n, io_seek := io_seek iop + n\<rparr>"
    and sz: "i_size ip2 = max (i_size ip') (io_seek iop + n)" and ip2: "ip2 = ip'\<lparr>i_size := i_size ip2\<rparr>"
  shows "stored c s xs ip iop n xs' ip2 iop' s2"
proof -
  let ?bs = "take off bs @ take n (io_data iop) @ drop (off + n) bs"
  have ok: "file_ok c s1 xs' ip'" using add by (simp add: added_def)
  have b: "bmap c (dsk s1) ip' lbn = b" "b \<noteq> 0" "dsk s1 b = bs" using got by (auto simp: got_def)
  have len: "length bs = BSIZE c" using b(3) ok by (auto simp: file_ok_def)
  have len': "length ?bs = BSIZE c" using len n v by simp
  note leaf = bput_leaf [OF ok lbn(1) b(1,2) len', folded s2]
  have old: "off = 0 \<and> n = BSIZE c \<or> bs = file_block c s ip lbn"
    using got n(5) by (auto simp: got_def file_block_def split: if_splits)
  have same: "file_block c s2 ip2 j = file_block c s ip j" if "j < MAXBLK c" "j \<noteq> lbn" for j
    using leaf(4) [OF that] added_block [OF add that] ip2 by (metis file_update_size(4))
  have blk: "file_block c s2 ip2 lbn = ?bs"
    using leaf(3) ip2 by (metis file_update_size(4))
  have bytes: "byte_at c s2 ip2 k = (if io_seek iop \<le> k \<and> k < io_seek iop + n then io_data iop ! (k - io_seek iop) else byte_at c s ip k)"
    if k: "k < MAXBLK c * BSIZE c" for k
  proof -
    have "byte_at c s2 ip2 k = (if io_seek iop \<le> k \<and> k < io_seek iop + n then take n (io_data iop) ! (k - io_seek iop) else byte_at c s ip k)"
      by (rule write_block_bytes [OF n(3) _ len _ same blk old k]) (use v lbn(2) n(1) in \<open>simp_all\<close>)
    then show ?thesis by auto
  qed
  have "file_ok c s2 xs' ip2" using leaf(1) ip2 by (metis file_update_size(3))
  moreover have "mset (file_tree c (dsk s2) ip2) = mset (file_tree c (dsk s) ip) + mset ts"
    using leaf(2) add ip2 by (metis added_def file_update_size(1))
  moreover have "same_fs s s2" using add s2 by (simp add: added_def same_fs_bput)
  moreover have "xs = ts @ xs'" using add by (simp add: added_def)
  moreover have "i_size ip2 = max (i_size ip) (io_seek iop + n)" using sz added_size [OF add] by simp
  ultimately show ?thesis
    unfolding stored_def using bytes n(2,4) iop' by auto
qed

lemma fwrite_loop_ok:
  assumes "file_ok c s xs ip" "fs_err s = None" "io_ioc iop \<le> io_room iop" "io_ioc iop \<le> length (io_data iop)"
    "io_seek iop + io_ioc iop \<le> MAXBLK c * BSIZE c" "io_ioc iop \<noteq> 0 \<longrightarrow> lbn = io_seek iop div BSIZE c \<and> off = io_seek iop mod BSIZE c"
    "\<forall>x. length (junk x) = BSIZE c"
  shows "\<exists>m xs' ip' iop' s'. fwrite_loop c junk lbn off ip iop s = Some (ip', iop', s') \<and> stored c s xs ip iop m xs' ip' iop' s' \<and>
    (if m = io_ioc iop then fs_err s' = None else fs_err s' = Some ENOSPC \<and> xs' = [])"
  using assms
proof (induction "io_ioc iop" arbitrary: lbn off ip iop s xs rule: less_induct)
  case less
  show ?case
  proof (cases "io_ioc iop = 0")
    case True
    then have "fwrite_loop c junk lbn off ip iop s = Some (ip, iop, s)" by (subst fwrite_loop.simps) simp
    moreover have "stored c s xs ip iop 0 xs ip iop s"
      using less.prems(1) by (auto simp: stored_def)
    ultimately show ?thesis using True less.prems(2) by fastforce
  next
    case False
    let ?n = "min (io_ioc iop) (BSIZE c - off)"
    let ?com = "off = 0 \<and> ?n = BSIZE c"
    have B: "0 < BSIZE c" using less.prems(1) by (auto simp: file_ok_def NBN_def)
    have lbn: "lbn = io_seek iop div BSIZE c" and off: "off = io_seek iop mod BSIZE c" using less.prems(6) False by auto
    have n: "0 < ?n" "off + ?n \<le> BSIZE c" using B False off by (auto simp: min_def)
    have lt: "lbn < MAXBLK c" unfolding lbn by (rule div_mult_bound [of _ _ ?n]) (use n off less.prems(5) in auto)
    have blk: "\<not> i_blk ip" using less.prems(1) by (simp add: file_ok_def)
    have "?com \<longrightarrow> (\<forall>x. length (junk x) = BSIZE c)" using less.prems(7) by blast
    from aread_ok [OF less.prems(1) lt this]
    obtain r ip1 s1 ts ys where r: "aread c junk ip lbn ?com s = Some (r, ip1, s1)" and add: "added c s xs ip lbn ts ys ip1 s1"
      and got: "got c junk ?com (bmap c (dsk s) ip lbn) (bmap c (dsk s1) ip1 lbn) ts ys r s s1" by blast
    show ?thesis
    proof (cases r)
      case None
      have "fwrite_loop c junk lbn off ip iop s = Some (ip1, iop, s1)"
        using r None False blk by (subst fwrite_loop.simps) (simp add: fwrite_block_def Let_def)
      moreover have "file_block c s1 ip1 lbn = file_block c s ip lbn"
        using got None by (simp add: got_def file_block_def)
      note added_stored [OF add this, of iop]
      ultimately show ?thesis using got None False by (fastforce simp: got_def)
    next
      case (Some p)
      then obtain b bs where p: "r = Some (b, bs)" by (cases p) auto
      let ?iop = "iop\<lparr>io_data := drop ?n (io_data iop), io_room := io_room iop - ?n, io_ioc := io_ioc iop - ?n, io_seek := io_seek iop + ?n\<rparr>"
      let ?s2 = "bput b (take off bs @ take ?n (io_data iop) @ drop (off + ?n) bs) s1"
      let ?ip2 = "if io_seek iop + ?n > i_size ip1 \<and> \<not> i_blk ip1 then ip1\<lparr>i_size := io_seek iop + ?n\<rparr> else ip1"
      have err: "fs_err s1 = None" using got p less.prems(2) by (simp add: got_def)
      have room: "ioread ?n iop s1 = (Some (take ?n (io_data iop)),
          iop\<lparr>io_data := drop ?n (io_data iop), io_room := io_room iop - ?n, io_ioc := io_ioc iop - ?n\<rparr>, s1)"
        using less.prems(3) by (simp add: ioread_def min.coboundedI1)
      have step: "fwrite_loop c junk lbn off ip iop s = fwrite_loop c junk (lbn + 1) 0 ?ip2 ?iop ?s2"
        using r p False blk err room by (subst fwrite_loop.simps) (simp add: fwrite_block_def Let_def)
      have st: "stored c s xs ip iop ?n ys ?ip2 ?iop ?s2"
        by (rule added_write [OF add lt lbn got [unfolded p] off n _ refl _ refl refl])
          (use less.prems(4) added_size [OF add] blk in auto)
      have "\<exists>m xs' ip' iop' s'. fwrite_loop c junk (lbn + 1) 0 ?ip2 ?iop ?s2 = Some (ip', iop', s') \<and> stored c ?s2 ys ?ip2 ?iop m xs' ip' iop' s' \<and>
        (if m = io_ioc ?iop then fs_err s' = None else fs_err s' = Some ENOSPC \<and> xs' = [])"
      proof (rule less.hyps)
        show "io_ioc ?iop < io_ioc iop" using n False by simp
        show "file_ok c ?s2 ys ?ip2" using st by (simp only: stored_def)
        show "io_ioc ?iop \<noteq> 0 \<longrightarrow> lbn + 1 = io_seek ?iop div BSIZE c \<and> 0 = io_seek ?iop mod BSIZE c"
        proof
          assume "io_ioc ?iop \<noteq> 0"
          then have "?n = BSIZE c - off" by auto
          moreover have "io_seek iop = lbn * BSIZE c + off" using lbn off by simp
          ultimately have "io_seek ?iop = (lbn + 1) * BSIZE c" using n by simp
          then show "lbn + 1 = io_seek ?iop div BSIZE c \<and> 0 = io_seek ?iop mod BSIZE c" using B by simp
        qed
      qed (use err less.prems in auto)
      then obtain m xs' ip' iop' s' where m: "fwrite_loop c junk (lbn + 1) 0 ?ip2 ?iop ?s2 = Some (ip', iop', s')" "stored c ?s2 ys ?ip2 ?iop m xs' ip' iop' s'"
        "if m = io_ioc ?iop then fs_err s' = None else fs_err s' = Some ENOSPC \<and> xs' = []" by blast
      have "stored c s xs ip iop (?n + m) xs' ip' iop' s'"
        by (rule stored_trans [OF st m(2) less.prems(4)])
      moreover have "m = io_ioc ?iop \<longleftrightarrow> ?n + m = io_ioc iop" by auto
      ultimately show ?thesis using step m(1,3) by (metis (no_types, lifting))
    qed
  qed
qed

end
