(* ===== verification/FsRw.thy ===== *)
theory FsRw
  imports FsFile
begin

unbundle bit_operations_syntax

text \<open>
  What reading, writing and truncating do to the bytes of a file: \<open>fread\<close> and \<open>fwrite\<close> of \<open>coh.386/fs3.c\<close>, \<open>itruncate\<close> of \<open>coh.386/fs1.c\<close> for regular
  files and directories. The invariant is \<^const>\<open>file_ok\<close>: the blocks of the file are distinct, not free, in the data of the device and readable.
\<close>

section \<open>Looking up blocks for reading\<close>

definition vaddr :: "fs_cfg \<Rightarrow> fsys \<Rightarrow> inode \<Rightarrow> nat \<Rightarrow> daddr" where
  "vaddr c s ip k = (if bmap c (dsk s) ip k = 0 then EMPTY_BLOCK else bmap c (dsk s) ip k)"

lemma vmap_walk_ok:
  assumes "is \<noteq> [] \<Longrightarrow> \<forall>x \<in> set (inner c (dsk s) (length is) (out ! hd is)). dsk_err s x = None"
    "\<forall>i \<in> set (tl is). i < NBN c"
  shows "vmap_walk c out (is @ [p]) n s =
    (Some (map (\<lambda>j. let b = leaf c (dsk s) (out ! hd (is @ [p + j])) (tl (is @ [p + j])) in if b = 0 then EMPTY_BLOCK else b) [0..<n]), s)"
  using assms
proof (induction "is" arbitrary: out)
  case (Cons i "is")
  obtain j js where js: "is @ [p] = j # js" by (cases "is") auto
  have walk: "vmap_walk c out ((i # is) @ [p]) n s =
     (if out ! i = 0 then (Some (replicate n EMPTY_BLOCK), s)
      else (case bread (out ! i) s of (None, s) \<Rightarrow> (None, s) | (Some bs, s) \<Rightarrow> vmap_walk c (addrs c bs) (is @ [p]) n s))"
    unfolding append_Cons js by simp
  show ?case
  proof (cases "out ! i = 0")
    case True
    then show ?thesis unfolding walk by (simp add: Let_def map_replicate_const)
  next
    case False
    have err: "dsk_err s (out ! i) = None" using Cons.prems(1) False by simp
    let ?as = "addrs c (dsk s (out ! i))"
    have "vmap_walk c ?as (is @ [p]) n s =
      (Some (map (\<lambda>j. let b = leaf c (dsk s) (?as ! hd (is @ [p + j])) (tl (is @ [p + j])) in if b = 0 then EMPTY_BLOCK else b) [0..<n]), s)"
    proof (rule Cons.IH)
      show "\<forall>x \<in> set (inner c (dsk s) (length is) (?as ! hd is)). dsk_err s x = None" if "is \<noteq> []"
      proof -
        have "hd is < NBN c" using that Cons.prems(2) by simp
        then have "?as ! hd is \<in> set ?as" by simp
        then have "set (inner c (dsk s) (length is) (?as ! hd is)) \<subseteq> set (inner c (dsk s) (length (i # is)) (out ! i))"
          using False by (simp del: nth_mem) blast
        then show ?thesis using Cons.prems(1) by auto
      qed
      show "\<forall>i \<in> set (tl is). i < NBN c" using Cons.prems(2) by (cases "is") auto
    qed
    moreover have "leaf c (dsk s) (out ! i) (is @ [p + j]) = leaf c (dsk s) (?as ! hd (is @ [p + j])) (tl (is @ [p + j]))" for j
      using False by (cases "is") auto
    ultimately show ?thesis unfolding walk using False err by (simp add: bread_def)
  qed
qed (simp add: Let_def)

lemma bmap_rev:
  assumes "lmap c blockofs = Some (p # ps, n)" "j < n" "blockofs < MAXBLK c"
  shows "bmap c d ip (blockofs + j) = leaf c d (i_addr ip ! hd (rev ps @ [p + j])) (tl (rev ps @ [p + j]))"
proof -
  have "path_to c (blockofs + j) = (p + j) # ps" using lmap_next [OF assms] by (simp add: path_to_def)
  moreover have "rev ps @ [p + j] = rev ((p + j) # ps)" by simp
  ultimately show ?thesis by (simp only: bmap_def path_leaf_def hd_rev) (metis butlast_rev rev_rev_ident)
qed

lemma vmap_ok:
  assumes "file_ok c s xs ip" "0 < resid" "blockofs + resid \<le> MAXBLK c"
  shows "\<exists>bs. vmap c grp ip blockofs resid s = Some (Some bs, s) \<and> 0 < length bs \<and> length bs \<le> resid \<and> (\<forall>j < length bs. bs ! j = vaddr c s ip (blockofs + j))"
  using assms(2,3)
proof (induction resid arbitrary: blockofs rule: less_induct)
  case (less resid)
  have lt: "blockofs < MAXBLK c" using less.prems by simp
  obtain p ps n where lm: "lmap c blockofs = Some (p # ps, n)" and n: "0 < n" and pok: "path_ok c (p # ps)"
    using lmap_Some [OF lt] by fastforce
  let ?n = "min n resid"
  let ?bs = "map (\<lambda>j. vaddr c s ip (blockofs + j)) [0..<?n]"
  note q = path_okD [OF pok]
  have able: "freeable s xs (file_tree c (dsk s) ip)" using assms(1) by (simp add: file_ok_def)
  have walk: "vmap_walk c (i_addr ip) (rev (p # ps)) ?n s = (Some ?bs, s)"
  proof -
    have "vmap_walk c (i_addr ip) (rev ps @ [p]) ?n s =
      (Some (map (\<lambda>j. let b = leaf c (dsk s) (i_addr ip ! hd (rev ps @ [p + j])) (tl (rev ps @ [p + j])) in if b = 0 then EMPTY_BLOCK else b) [0..<?n]), s)"
    proof (rule vmap_walk_ok)
      show "\<forall>i \<in> set (tl (rev ps)). i < NBN c"
        using q(4) by (cases ps rule: rev_cases; auto)
      show "\<forall>x \<in> set (inner c (dsk s) (length (rev ps)) (i_addr ip ! hd (rev ps))). dsk_err s x = None" if "rev ps \<noteq> []"
      proof
        fix x assume x: "x \<in> set (inner c (dsk s) (length (rev ps)) (i_addr ip ! hd (rev ps)))"
        have l: "hd (rev ps) = last (p # ps)" "length (rev ps) = lvl c (last (p # ps))" using that q(3) by (simp_all add: hd_rev)
        have "x \<in> set (tree c (dsk s) (lvl c (last (p # ps))) (i_addr ip ! last (p # ps)))"
          using x unfolding l by (simp only: tree_set Un_iff simp_thms)
        then have "x \<in> set (file_tree c (dsk s) ip)"
          using file_entry_distinct(2) [of c "dsk s" ip, OF _ q(2)] able by (auto simp: freeable_def)
        then show "dsk_err s x = None" using freeableD [OF able] by blast
      qed
    qed
    moreover have "(let b = leaf c (dsk s) (i_addr ip ! hd (rev ps @ [p + j])) (tl (rev ps @ [p + j])) in if b = 0 then EMPTY_BLOCK else b) = vaddr c s ip (blockofs + j)"
      if "j < ?n" for j
      using bmap_rev [OF lm _ lt, of j "dsk s" ip] that by (simp add: vaddr_def Let_def)
    ultimately show ?thesis by simp
  qed
  have one: "0 < length ?bs" "length ?bs \<le> resid" "\<forall>j < length ?bs. ?bs ! j = vaddr c s ip (blockofs + j)" using n less.prems by simp_all
  show ?case
  proof (cases "grp \<and> resid - ?n > 0")
    case False
    then have "vmap c grp ip blockofs resid s = Some (Some ?bs, s)"
      using lm walk by (subst vmap.simps) (auto simp: Let_def)
    then show ?thesis using one by blast
  next
    case True
    have "\<exists>cs. vmap c grp ip (blockofs + ?n) (resid - ?n) s = Some (Some cs, s) \<and> 0 < length cs \<and> length cs \<le> resid - ?n \<and>
        (\<forall>j < length cs. cs ! j = vaddr c s ip (blockofs + ?n + j))"
      by (rule less.IH) (use True n less.prems in auto)
    then obtain cs where cs: "vmap c grp ip (blockofs + ?n) (resid - ?n) s = Some (Some cs, s)" "length cs \<le> resid - ?n"
      "\<forall>j < length cs. cs ! j = vaddr c s ip (blockofs + ?n + j)" by blast
    have "vmap c grp ip blockofs resid s = Some (Some (?bs @ cs), s)"
      using lm walk cs(1) True by (subst vmap.simps) (simp add: Let_def)
    moreover have "length (?bs @ cs) \<le> resid" "0 < length (?bs @ cs)" using cs(2) one(1,2) by simp_all
    moreover have "\<forall>j < length (?bs @ cs). (?bs @ cs) ! j = vaddr c s ip (blockofs + j)"
      using cs(3) by (auto simp: nth_append)
    ultimately show ?thesis by blast
  qed
qed

section \<open>Reading a file\<close>

definition file_bytes :: "fs_cfg \<Rightarrow> fsys \<Rightarrow> inode \<Rightarrow> nat \<Rightarrow> nat \<Rightarrow> octet list" where
  "file_bytes c s ip seek n = map (byte_at c s ip) [seek..<seek + n]"

lemma byte_at_err [simp]: "byte_at c (s\<lparr>fs_err := e\<rparr>) ip k = byte_at c s ip k"
  by (simp add: byte_at_def file_block_def)

lemma length_file_bytes [simp]: "length (file_bytes c s ip seek n) = n"
  by (simp add: file_bytes_def)

lemma file_bytes_append: "file_bytes c s ip seek m @ file_bytes c s ip (seek + m) n = file_bytes c s ip seek (m + n)"
proof -
  have "[seek..<seek + m + n] = [seek..<seek + m] @ [seek + m..<seek + m + n]" by (rule upt_add_eq_append) simp
  then show ?thesis by (simp add: file_bytes_def add.assoc)
qed

lemma block_bytes:
  assumes "file_ok c s xs ip" "off + n \<le> BSIZE c"
  shows "take n (drop off (file_block c s ip lbn)) = file_bytes c s ip (lbn * BSIZE c + off) n"
proof (rule nth_equalityI)
  note len = length_file_block [OF assms(1), of lbn]
  show l: "length (take n (drop off (file_block c s ip lbn))) = length (file_bytes c s ip (lbn * BSIZE c + off) n)" using len assms(2) by simp
  fix i assume "i < length (take n (drop off (file_block c s ip lbn)))"
  then have i: "i < n" using l by simp
  then have "off + i < BSIZE c" using assms(2) by simp
  from div_form [OF this, of lbn] have "(lbn * BSIZE c + off + i) div BSIZE c = lbn" "(lbn * BSIZE c + off + i) mod BSIZE c = off + i"
    by (simp_all only: ac_simps)
  then show "take n (drop off (file_block c s ip lbn)) ! i = file_bytes c s ip (lbn * BSIZE c + off) n ! i"
    using i len assms(2) by (simp add: file_bytes_def byte_at_def)
qed

text \<open>The blocks that are looked up for a pass are within the file, and there is one at least.\<close>

lemma fread_list_ok:
  assumes "file_ok c s xs ip" "0 < res" "lbn < maxblk" "maxblk \<le> MAXBLK c" "ra < LISTLEN"
  shows "\<exists>l. fread_list c t ra maxblk ip lbn res s = Some (Some l, s) \<and> 0 < length l \<and> (\<forall>j < length l. l ! j = vaddr c s ip (lbn + j))"
proof -
  have B: "0 < BSIZE c" and blk: "\<not> i_blk ip" using assms(1) by (auto simp: file_ok_def NBN_def)
  let ?count = "min (blockn c (res + BSIZE c - 1) + ra) LISTLEN"
  let ?n = "if lbn + ?count \<ge> maxblk then maxblk - lbn else ?count"
  have "1 * BSIZE c \<le> res + BSIZE c - 1" using assms(2) by simp
  then have pos: "0 < blockn c (res + BSIZE c - 1)" using B by (simp add: blockn_def div_greater_zero_iff)
  then have n: "0 < ?n" "lbn + ?n \<le> MAXBLK c" using assms(3,4) by (auto simp: LISTLEN_def)
  have more: "\<not> ?count \<le> ra" using pos assms(5) by simp
  have "fread_list c t ra maxblk ip lbn res s = vmap c (t_groupmode t) ip lbn ?n s"
    using blk more by (simp add: fread_list_def Let_def)
  then show ?thesis using vmap_ok [OF assms(1) n, of "t_groupmode t"] by auto
qed

lemma vaddr_block:
  assumes "file_ok c s xs ip" "k < MAXBLK c"
  shows "(if vaddr c s ip k = EMPTY_BLOCK then Some (replicate (BSIZE c) 0) else fst (bread (vaddr c s ip k) s)) = Some (file_block c s ip k)"
proof (cases "bmap c (dsk s) ip k = 0")
  case True
  then show ?thesis by (simp add: vaddr_def file_block_def)
next
  case False
  note u = bmap_usable [OF assms False]
  have "0 < s_isize s" using assms(1) by (simp add: file_ok_def free_ok_def geom_ok_def)
  then have "bmap c (dsk s) ip k \<noteq> EMPTY_BLOCK" using u(2) by (auto simp: in_data_def EMPTY_BLOCK_def)
  then show ?thesis using False u(3) by (simp add: vaddr_def file_block_def bread_def)
qed

lemma fread_step:
  assumes ok: "file_ok c s xs ip" and err: "fs_err s = None" and k: "lbn < MAXBLK c" and n: "off + n \<le> BSIZE c" "n \<le> io_room iop"
    and b: "b = vaddr c s ip lbn"
  shows "(if b = EMPTY_BLOCK then let (iop, s) = ioclear n iop s in (True, iop, s)
      else (case bread b s of (None, s) \<Rightarrow> (False, iop, s) | (Some bs, s) \<Rightarrow> let (iop, s) = iowrite (take n (drop off bs)) iop s in (True, iop, s))) =
    (True, iop\<lparr>io_data := io_data iop @ file_bytes c s ip (lbn * BSIZE c + off) n, io_room := io_room iop - n, io_ioc := io_ioc iop - n\<rparr>, s)"
proof -
  let ?v = "take n (drop off (file_block c s ip lbn))"
  have len: "length ?v = n" using length_file_block [OF ok, of lbn] n(1) by simp
  have io: "iowrite ?v iop s = (iop\<lparr>io_data := io_data iop @ ?v, io_room := io_room iop - n, io_ioc := io_ioc iop - n\<rparr>, s)"
    using len n(2) by (simp add: iowrite_def)
  have v: "?v = file_bytes c s ip (lbn * BSIZE c + off) n" by (rule block_bytes [OF ok n(1)])
  note vb = vaddr_block [OF ok k, folded b]
  show ?thesis
  proof (cases "b = EMPTY_BLOCK")
    case True
    then have "file_block c s ip lbn = replicate (BSIZE c) 0" using vb by simp
    then have "?v = replicate n 0" using n(1) by simp
    then show ?thesis using True io v by (simp add: ioclear_def)
  next
    case False
    then have "bread b s = (Some (file_block c s ip lbn), s)" using vb by (auto simp: bread_def split: option.splits)
    then show ?thesis using False io v by simp
  qed
qed

lemma fread_loop_ok:
  assumes "file_ok c s xs ip" "fs_err s = None" "maxblk \<le> MAXBLK c" "ra < LISTLEN" "off < BSIZE c" "0 < res" "lbn * BSIZE c + off + res \<le> maxblk * BSIZE c"
    "res \<le> io_room iop" "abn \<le> lbn" "\<forall>j < length list. list ! j = vaddr c s ip (abn + j)"
  shows "fread_loop c t ra maxblk ip lbn abn list off res iop s = Some (Some ((lbn * BSIZE c + off + res - 1) div BSIZE c),
    iop\<lparr>io_data := io_data iop @ file_bytes c s ip (lbn * BSIZE c + off) res, io_room := io_room iop - res, io_ioc := io_ioc iop - res\<rparr>, s)"
  using assms(5-)
proof (induction res arbitrary: lbn off iop abn list rule: less_induct)
  case (less res)
  let ?B = "BSIZE c"
  let ?pos = "lbn * ?B + off"
  let ?n = "min res (?B - off)"
  let ?iop = "iop\<lparr>io_data := io_data iop @ file_bytes c s ip ?pos ?n, io_room := io_room iop - ?n, io_ioc := io_ioc iop - ?n\<rparr>"
  have "lbn * ?B < maxblk * ?B" using less.prems by linarith
  then have lbn: "lbn < maxblk" by simp
  have n: "0 < ?n" "off + ?n \<le> ?B" "?n \<le> io_room iop" using less.prems by auto
  obtain l where l: "fread_list c t ra maxblk ip lbn res s = Some (Some l, s)" "0 < length l" "\<forall>j < length l. l ! j = vaddr c s ip (lbn + j)"
    using fread_list_ok [OF assms(1) less.prems(2) lbn assms(3,4)] by blast
  obtain abn' list' where new: "(if lbn \<ge> abn + length list
        then do { (r, s) \<leftarrow> fread_list c t ra maxblk ip lbn res s; Some (map_option (\<lambda>l. (lbn, l)) r, s) }
        else Some (Some (abn, list), s)) = Some (Some (abn', list'), s)"
      and list': "abn' \<le> lbn" "lbn < abn' + length list'" "\<forall>j < length list'. list' ! j = vaddr c s ip (abn' + j)"
  proof (cases "lbn \<ge> abn + length list")
    case True
    then show thesis using that [of lbn l] l by simp
  next
    case False
    then show thesis using that [of abn list] less.prems(5,6) by simp
  qed
  have "list' ! (lbn - abn') = vaddr c s ip lbn" using list' by auto
  then have round: "fread_loop c t ra maxblk ip lbn abn list off res iop s =
      (if res - ?n > 0 then fread_loop c t ra maxblk ip (lbn + 1) abn' list' 0 (res - ?n) ?iop s else Some (Some lbn, ?iop, s))"
    using new fread_step [OF assms(1,2) _ n(2,3), of lbn "list' ! (lbn - abn')"] lbn assms(2,3)
    by (subst fread_loop.simps) (simp add: Let_def)
  show ?case
  proof (cases "res - ?n > 0")
    case True
    then have e: "?n = ?B - off" by auto
    have pos: "(lbn + 1) * ?B + 0 = ?pos + ?n" using e n by simp
    have "fread_loop c t ra maxblk ip lbn abn list off res iop s = fread_loop c t ra maxblk ip (lbn + 1) abn' list' 0 (res - ?n) ?iop s"
      using round True by (simp only: if_True)
    also have "fread_loop c t ra maxblk ip (lbn + 1) abn' list' 0 (res - ?n) ?iop s = Some (Some (((lbn + 1) * ?B + 0 + (res - ?n) - 1) div ?B),
      ?iop\<lparr>io_data := io_data ?iop @ file_bytes c s ip ((lbn + 1) * ?B + 0) (res - ?n), io_room := io_room ?iop - (res - ?n), io_ioc := io_ioc ?iop - (res - ?n)\<rparr>, s)"
      by (rule less.IH) (use n True less.prems list' pos in auto)
    also have "\<dots> = Some (Some ((?pos + res - 1) div ?B),
        iop\<lparr>io_data := io_data iop @ file_bytes c s ip ?pos res, io_room := io_room iop - res, io_ioc := io_ioc iop - res\<rparr>, s)"
    proof -
      have "?pos + ?n + (res - ?n) = ?pos + res" "io_room iop - ?n - (res - ?n) = io_room iop - res" "io_ioc iop - ?n - (res - ?n) = io_ioc iop - res"
        using True by simp_all
      moreover have "file_bytes c s ip ?pos ?n @ file_bytes c s ip (?pos + ?n) (res - ?n) = file_bytes c s ip ?pos res"
        using file_bytes_append [of c s ip ?pos ?n "res - ?n"] True by simp
      ultimately show ?thesis unfolding pos by (simp add: add.assoc [of "lbn * BSIZE c" off res])
    qed
    finally show ?thesis .
  next
    case False
    then have e: "?n = res" by auto
    have "off + res - 1 < ?B" using n e less.prems(2) by simp
    from div_form(1) [OF this, of lbn] have "(?pos + res - 1) div ?B = lbn" using less.prems(2) by (simp add: ac_simps)
    then show ?thesis using round False e by simp
  qed
qed

lemma fread_ok:
  assumes ok: "file_ok c s xs ip" and err: "fs_err s = None" and sz: "i_size ip \<le> MAXBLK c * BSIZE c" and n: "n = min (i_size ip - io_seek iop) (io_ioc iop)" "n \<le> io_room iop"
    and ahead: "t_readahead t < int LISTLEN"
  shows "fread c t ip iop s = Some (if n = 0 then ip else ip\<lparr>i_lastblock := int ((io_seek iop + n - 1) div BSIZE c)\<rparr>,
    iop\<lparr>io_data := io_data iop @ file_bytes c s ip (io_seek iop) n, io_room := io_room iop - n, io_ioc := io_ioc iop - n\<rparr>, s)"
proof -
  let ?B = "BSIZE c"
  let ?max = "blockn c (i_size ip + ?B - 1)"
  have B: "0 < ?B" and blk: "\<not> i_blk ip" using ok by (auto simp: file_ok_def NBN_def)
  show ?thesis
  proof (cases "n = 0")
    case True
    then have "io_seek iop > i_size ip \<or> min (i_size ip - io_seek iop) (io_ioc iop) = 0" using n by simp
    then have "fread c t ip iop s = Some (ip, iop, s)" using blk by (auto simp: fread_def Let_def)
    then show ?thesis using True by (simp add: file_bytes_def)
  next
    case False
    then have le: "io_seek iop + n \<le> i_size ip" "\<not> io_seek iop > i_size ip" using n by auto
    have "i_size ip + ?B - 1 < ?max * ?B + ?B" using dividend_less_div_times [OF B, of "i_size ip + ?B - 1"] by (simp add: blockn_def)
    then have max: "i_size ip \<le> ?max * ?B" using B by linarith
    have "i_size ip + ?B - 1 < (MAXBLK c + 1) * ?B" using sz B by simp
    then have "?max < MAXBLK c + 1" unfolding blockn_def using less_mult_imp_div_less by blast
    then have maxblk: "?max \<le> MAXBLK c" by simp
    have pos: "blockn c (io_seek iop) * ?B + blocko c (io_seek iop) = io_seek iop" by (simp add: blockn_def blocko_def)
    have "fread_loop c t ra ?max ip (blockn c (io_seek iop)) 0 [] (blocko c (io_seek iop)) n iop s =
      Some (Some ((blockn c (io_seek iop) * ?B + blocko c (io_seek iop) + n - 1) div ?B),
       iop\<lparr>io_data := io_data iop @ file_bytes c s ip (blockn c (io_seek iop) * ?B + blocko c (io_seek iop)) n,
         io_room := io_room iop - n, io_ioc := io_ioc iop - n\<rparr>, s)" if "ra < LISTLEN" for ra
      by (rule fread_loop_ok [OF ok err maxblk that]) (use False le max pos n B in \<open>auto simp: blocko_def\<close>)
    moreover have "(if int (blockn c (io_seek iop)) = i_lastblock ip + 1 then nat (t_readahead t) else 0) < LISTLEN"
      using ahead by (auto simp: LISTLEN_def)
    ultimately show ?thesis using False blk le(2) unfolding pos by (simp add: fread_def Let_def n(1) [symmetric])
  qed
qed

text \<open>With 24 blocks or more to read ahead the assertion fails as soon as a file is read in sequence.\<close>

theorem readahead_asserts:
  assumes "\<not> i_blk ip" "0 < io_ioc iop" "io_seek iop < i_size ip" "int (blockn c (io_seek iop)) = i_lastblock ip + 1" "int LISTLEN \<le> t_readahead t"
  shows "fread c t ip iop s = None"
proof -
  have ra: "LISTLEN \<le> nat (t_readahead t)" using assms(5) by simp
  have "fread_list c t (nat (t_readahead t)) m ip lbn n s = None" for m lbn n
    using ra by (simp add: fread_list_def Let_def)
  then have "fread_loop c t (nat (t_readahead t)) m ip lbn 0 [] off n iop s = None" for m lbn off n
    by (subst fread_loop.simps) simp
  then show ?thesis using assms(1-4) by (simp add: fread_def Let_def)
qed

section \<open>Truncating a file\<close>

text \<open>The addresses from the last one down.\<close>

primrec itrunc_each :: "fs_cfg \<Rightarrow> bool \<Rightarrow> inode \<Rightarrow> nat list \<Rightarrow> fsys \<Rightarrow> fsys option" where
  "itrunc_each c srt ip [] s = Some s"
| "itrunc_each c srt ip (n # ns) s =
     (let b = i_addr ip ! n
      in if b = 0 then itrunc_each c srt ip ns s
         else do {
           s \<leftarrow> (if n \<ge> ND c then indfree c srt (1 + n - ND c) b s else bfree c srt b s);
           itrunc_each c srt ip ns s
         })"

definition itruncate :: "fs_cfg \<Rightarrow> bool \<Rightarrow> inode \<Rightarrow> fsys \<Rightarrow> (inode \<times> fsys) option" where
  "itruncate c srt ip s =
     (if i_blk ip then Some (ip, s)
      else do {
        s \<leftarrow> itrunc_each c srt ip (rev [0..<ND c + 3]) s;
        Some (ip\<lparr>i_addr := replicate (ND c + 3) 0, i_size := 0\<rparr>, s)
      })"

lemma entry_gives_back: "gives_back c (\<lambda>d. tree c d (lvl c n)) (\<lambda>b. if n \<ge> ND c then indfree c srt (1 + n - ND c) b else bfree c srt b)"
proof (cases "n \<ge> ND c")
  case True
  then show ?thesis using indfree_gives_back [of c "lvl c n" srt] by (simp add: lvl_def add.commute Suc_diff_le)
next
  case False
  then show ?thesis using bfree_gives_back [of c srt] by (simp add: lvl_def gives_back_def)
qed

lemma itrunc_each_ok:
  assumes "free_ok c s xs" "freeable s xs (concat (map (\<lambda>n. tree c (dsk s) (lvl c n) (i_addr ip ! n)) ns))"
  shows "\<exists>s'. itrunc_each c srt ip ns s = Some s' \<and> freed c s xs (concat (map (\<lambda>n. tree c (dsk s) (lvl c n) (i_addr ip ! n)) ns)) s'"
  using assms
proof (induction ns arbitrary: s xs)
  case Nil
  then show ?case by (auto simp: freed_def)
next
  case (Cons n ns)
  let ?t = "tree c (dsk s) (lvl c n) (i_addr ip ! n)"
  let ?us = "concat (map (\<lambda>n. tree c (dsk s) (lvl c n) (i_addr ip ! n)) ns)"
  show ?case
  proof (cases "i_addr ip ! n = 0")
    case True
    then show ?thesis using Cons by simp
  next
    case False
    have able: "freeable s xs (?t @ ?us)" using Cons.prems(2) by simp
    then have "freeable s xs ?t" by (auto simp: freeable_def)
    from gives_backD [OF entry_gives_back [of c n srt] False Cons.prems(1) this]
    obtain s1 where s1: "(if n \<ge> ND c then indfree c srt (1 + n - ND c) (i_addr ip ! n) else bfree c srt (i_addr ip ! n)) s = Some s1" "freed c s xs ?t s1"
      by blast
    obtain ys where ys: "free_ok c s1 ys" "mset ys = mset xs + mset ?t" using s1(2) by (auto simp: freed_def)
    have T: "tree c (dsk s1) (lvl c k) (i_addr ip ! k) = tree c (dsk s) (lvl c k) (i_addr ip ! k)" if "k \<in> set ns" for k
    proof (rule tree_frame)
      fix x assume "x \<in> set (tree c (dsk s) (lvl c k) (i_addr ip ! k))"
      then have "x \<in> set ?us" using that by auto
      then have "x \<notin> set xs \<union> set ?t" using able by (auto simp: freeable_def)
      then show "dsk s1 x = dsk s x" using s1(2) by (simp add: freed_def)
    qed
    then have us: "concat (map (\<lambda>n. tree c (dsk s1) (lvl c n) (i_addr ip ! n)) ns) = ?us"
      by (intro arg_cong [where f = concat] map_cong [OF refl]) blast
    have "freeable s1 ys ?us"
      by (rule freeable_append [OF able ys(2)]) (use s1(2) in \<open>simp add: freed_def\<close>)
    then obtain s2 where s2: "itrunc_each c srt ip ns s1 = Some s2" "freed c s1 ys ?us s2"
      using Cons.IH [OF ys(1)] us by auto
    have "freed c s xs (?t @ ?us) s2"
    proof (rule freed_trans [OF s1(2)])
      fix zs assume "mset zs = mset xs + mset ?t"
      then have "mset zs = mset ys" using ys(2) by simp
      then show "freed c s1 zs ?us s2" using s2(2) mset_eq_setD by (fastforce simp: freed_def)
    qed
    moreover have "itrunc_each c srt ip (n # ns) s = Some s2" using False s1(1) s2(1) by (simp split: if_splits)
    ultimately show ?thesis by simp
  qed
qed

lemma freeable_mset: "freeable s xs ts \<Longrightarrow> mset us = mset ts \<Longrightarrow> freeable s xs us"
  using mset_eq_imp_distinct_iff [of us ts] mset_eq_setD [of us ts] by (simp add: freeable_def)

lemma empty_file_tree: "file_tree c d (ip\<lparr>i_addr := replicate (ND c + 3) 0, i_size := n\<rparr>) = []"
  by (simp add: file_tree_def)

lemma itruncate_ok:
  assumes "file_ok c s xs ip"
  shows "\<exists>ip' s' ys. itruncate c srt ip s = Some (ip', s') \<and> free_ok c s' ys \<and> mset ys = mset xs + mset (file_tree c (dsk s) ip) \<and>
    i_size ip' = 0 \<and> file_tree c (dsk s') ip' = [] \<and> (\<forall>x. x \<notin> set xs \<union> set (file_tree c (dsk s) ip) \<longrightarrow> dsk s' x = dsk s x)"
proof -
  let ?ts = "concat (map (\<lambda>n. tree c (dsk s) (lvl c n) (i_addr ip ! n)) (rev [0..<ND c + 3]))"
  have ms: "mset ?ts = mset (file_tree c (dsk s) ip)" unfolding file_tree_def by (simp only: rev_map [symmetric] concat_rev_mset)
  have ok: "free_ok c s xs" "freeable s xs (file_tree c (dsk s) ip)" "\<not> i_blk ip" using assms by (simp_all add: file_ok_def)
  have "freeable s xs ?ts" by (rule freeable_mset [OF ok(2) ms])
  from itrunc_each_ok [OF ok(1) this, of srt]
  obtain s' where s': "itrunc_each c srt ip (rev [0..<ND c + 3]) s = Some s'" "freed c s xs ?ts s'" by blast
  have "freed c s xs (file_tree c (dsk s) ip) s'" by (rule freed_mset [OF s'(2) ms])
  then obtain ys where "free_ok c s' ys" "mset ys = mset xs + mset (file_tree c (dsk s) ip)"
      "\<forall>x. x \<notin> set xs \<union> set (file_tree c (dsk s) ip) \<longrightarrow> dsk s' x = dsk s x" by (auto simp: freed_def)
  moreover have "itruncate c srt ip s = Some (ip\<lparr>i_addr := replicate (ND c + 3) 0, i_size := 0\<rparr>, s')"
    using s'(1) ok(3) by (simp add: itruncate_def)
  ultimately show ?thesis using empty_file_tree [of c "dsk s'" 0 ip] by fastforce
qed

section \<open>Properties\<close>

lemma path_ok_offset:
  assumes "path_ok c path"
  shows "\<exists>n. 0 < n \<and> lmap c (offset c path) = Some (path, n)"
proof -
  have "path \<noteq> []" "last path < ND c + 3" "length path = lvl c (last path) + 1" "\<forall>i \<in> set (butlast path). i < NBN c" using assms by (auto simp: path_ok_def)
  note p = this
  consider (direct) "last path < ND c" | (one) "last path = ND c" | (two) "last path = ND c + 1" | (three) "last path = ND c + 2" using p(2) by linarith
  then show ?thesis
  proof cases
    case direct
    then obtain i where "path = [i]" using p by (auto simp: lvl_def length_Suc_conv)
    then show ?thesis using direct by (simp add: offset_def lmap_direct)
  next
    case one
    then have "length path = 2" using p by (simp add: lvl_def)
    then obtain n i where "path = [n, i]" by (auto simp: length_Suc_conv numeral_2_eq_2)
    then show ?thesis using one p(4) by (simp add: offset_def lmap_1)
  next
    case two
    then have "length path = 3" using p by (simp add: lvl_def)
    then obtain n m i where "path = [n, m, i]" by (auto simp: length_Suc_conv numeral_3_eq_3)
    then show ?thesis using two p(4) lmap_2 [of n c m] by (simp add: offset_def)
  next
    case three
    then have "length path = Suc (Suc (Suc (Suc 0)))" using p by (simp add: lvl_def)
    then obtain n m l i where "path = [n, m, l, i]" by (auto simp: length_Suc_conv)
    then show ?thesis using three p(4) lmap_3 [of n c m l] by (simp add: offset_def)
  qed
qed

text \<open>C21: \<open>lmap\<close> is a bijection between the block offsets that a file can have and the lists of indices: it gives each offset below the largest a list of
  indices within the inode and within the address blocks, from which the offset can be computed back; every such list comes from its offset; and
  from the largest offset on there is the error for a file that is too big.\<close>

theorem lmap_bijective:
  assumes "0 < NBN c"
  shows "(blockofs < MAXBLK c \<longrightarrow> (\<exists>path n. lmap c blockofs = Some (path, n) \<and> 0 < n \<and> path_ok c path \<and> offset c path = blockofs)) \<and>
    (MAXBLK c \<le> blockofs \<longrightarrow> lmap c blockofs = None) \<and>
    (path_ok c path \<longrightarrow> offset c path < MAXBLK c \<and> (\<exists>n. 0 < n \<and> lmap c (offset c path) = Some (path, n)))"
proof (intro conjI impI)
  show "\<exists>path n. lmap c blockofs = Some (path, n) \<and> 0 < n \<and> path_ok c path \<and> offset c path = blockofs" if "blockofs < MAXBLK c"
    using lmap_Some [OF that] by fastforce
  show "lmap c blockofs = None" if "MAXBLK c \<le> blockofs" by (rule lmap_None [OF assms that])
  assume "path_ok c path"
  from path_ok_offset [OF this] show n: "\<exists>n. 0 < n \<and> lmap c (offset c path) = Some (path, n)" .
  show "offset c path < MAXBLK c"
  proof (rule ccontr)
    assume "\<not> ?thesis"
    then have "lmap c (offset c path) = None" by (intro lmap_None [OF assms]) simp
    then show False using n by simp
  qed
qed

theorem lmap_bijective_witness:
  "(\<exists>path n. lmap fs_ex_cfg 17 = Some (path, n) \<and> 0 < n \<and> path_ok fs_ex_cfg path \<and> offset fs_ex_cfg path = 17) \<and>
    lmap fs_ex_cfg 40 = None \<and> offset fs_ex_cfg [1, 1, 2] < MAXBLK fs_ex_cfg \<and> (\<exists>n. 0 < n \<and> lmap fs_ex_cfg (offset fs_ex_cfg [1, 1, 2]) = Some ([1, 1, 2], n))"
proof -
  have B: "0 < NBN fs_ex_cfg" "MAXBLK fs_ex_cfg = 40" by (simp_all add: fs_ex_cfg_def NBN_def MAXBLK_def)
  have p: "path_ok fs_ex_cfg [1, 1, 2]" by (simp add: path_ok_def lvl_def fs_ex_cfg_def NBN_def)
  have "17 < MAXBLK fs_ex_cfg" "MAXBLK fs_ex_cfg \<le> 40" using B(2) by simp_all
  then show ?thesis
    using lmap_bijective [OF B(1), of 17 "[1, 1, 2]"] lmap_bijective [OF B(1), of 40 "[1, 1, 2]"] p by blast
qed

text \<open>C20: \<open>aread\<close>, the routine that finds the block of a file for writing, on a sound file: it comes back with the block, newly allocated where there was a hole,
  with the address blocks on the way; the file stays sound, its blocks are the old ones and those that were taken from the free blocks, no other block
  of the file is mapped differently or written, nor any block outside. Only when no block is left is there an error, and then the hole is still one.\<close>

theorem aread_extends_file:
  assumes "file_ok c s xs ip" "blk < MAXBLK c" "claim \<longrightarrow> (\<forall>x. length (junk x) = BSIZE c)"
  shows "\<exists>r ip' s' ts xs'. aread c junk ip blk claim s = Some (r, ip', s') \<and> added c s xs ip blk ts xs' ip' s' \<and>
    got c junk claim (bmap c (dsk s) ip blk) (bmap c (dsk s') ip' blk) ts xs' r s s'"
  by (rule aread_ok [OF assms])

text \<open>C15: when the user's memory is accessible for the whole request, the request ends below the largest size that the block map allows, and no error is pending, \<open>fwrite\<close>
  on a sound regular file (\<open>file_ok\<close>: its blocks and the free ones are in the data area, distinct, and can be read) stores the bytes of the request in the file from
  the place on where it seeks, and changes no other byte, whether blocks are there or are added, whole or in part; the file remains sound, its size grows as it
  must, and the blocks that it has gained are those that the list of free blocks has lost. It stores all bytes, unless the device becomes full; then it says so and has
  stored the first ones. What happens when the memory is not accessible is \<open>fwrite_fault_replaces_block\<close>.\<close>

theorem fwrite_stores:
  assumes ok: "file_ok c s xs ip" and err: "fs_err s = None" and io: "io_ioc iop \<le> io_room iop" "io_ioc iop \<le> length (io_data iop)"
    and room: "io_seek iop + io_ioc iop \<le> MAXBLK c * BSIZE c" and junk: "\<forall>x. length (junk x) = BSIZE c"
  shows "\<exists>m xs' ip' iop' s'. fwrite c junk ip iop s = Some (ip', iop', s') \<and> m \<le> io_ioc iop \<and> io_ioc iop' = io_ioc iop - m \<and> io_seek iop' = io_seek iop + m \<and>
    (if m = io_ioc iop then fs_err s' = None else fs_err s' = Some ENOSPC \<and> xs' = []) \<and>
    file_ok c s' xs' ip' \<and> (\<exists>ts. xs = ts @ xs' \<and> mset (file_tree c (dsk s') ip') = mset (file_tree c (dsk s) ip) + mset ts) \<and>
    i_size ip' = (if m = 0 then i_size ip else max (i_size ip) (io_seek iop + m)) \<and>
    (\<forall>k < MAXBLK c * BSIZE c. byte_at c s' ip' k =
       (if io_seek iop \<le> k \<and> k < io_seek iop + m then io_data iop ! (k - io_seek iop) else byte_at c s ip k))"
proof -
  obtain m xs' ip' iop' s' where m: "fwrite c junk ip iop s = Some (ip', iop', s')" "stored c s xs ip iop m xs' ip' iop' s'"
      "if m = io_ioc iop then fs_err s' = None else fs_err s' = Some ENOSPC \<and> xs' = []"
    using fwrite_loop_ok [OF ok err io room _ junk, of "blockn c (io_seek iop)" "blocko c (io_seek iop)"] by (auto simp: fwrite_def blockn_def blocko_def)
  show ?thesis
    by (rule exI [of _ m], rule exI [of _ xs'], rule exI [of _ ip'], rule exI [of _ iop'], rule exI [of _ s'])
      (use m in \<open>simp add: stored_def\<close>)
qed

text \<open>C16: \<open>fread\<close> on a sound regular file (\<open>file_ok\<close>: its blocks are in the data area, distinct, and can be read) that is not larger than the block map allows gives the bytes
  of the file from the place on where it seeks, zeros for holes, as many as are wanted and as there are up to the end, with one block list after another, for
  every number of blocks to read ahead below 24 and in both ways to look blocks up; it changes nothing on the device. This holds when no error is pending and
  the user's memory can be written for all of these bytes.\<close>

theorem fread_returns:
  assumes "file_ok c s xs ip" "fs_err s = None" "i_size ip \<le> MAXBLK c * BSIZE c" "n = min (i_size ip - io_seek iop) (io_ioc iop)" "n \<le> io_room iop"
    "t_readahead t < int LISTLEN"
  shows "fread c t ip iop s = Some (if n = 0 then ip else ip\<lparr>i_lastblock := int ((io_seek iop + n - 1) div BSIZE c)\<rparr>,
    iop\<lparr>io_data := io_data iop @ file_bytes c s ip (io_seek iop) n, io_room := io_room iop - n, io_ioc := io_ioc iop - n\<rparr>, s)"
  by (rule fread_ok [OF assms])

text \<open>C17: What is written to a file is what is read from the same place: after \<open>fwrite\<close> on a sound regular file the first \<open>m\<close> bytes of the request, all of them unless
  an error is stored, come back from a \<open>fread\<close> of \<open>m\<close> bytes at that place, for every number of blocks to read ahead below 24. This holds when no error is pending,
  the request and the file end below the largest size that the block map allows, and the user's memory is accessible for all bytes of both requests.\<close>

theorem write_then_read:
  assumes ok: "file_ok c s xs ip" and err: "fs_err s = None" and io: "io_ioc iop \<le> io_room iop" "io_ioc iop \<le> length (io_data iop)"
    and room: "io_seek iop + io_ioc iop \<le> MAXBLK c * BSIZE c" "i_size ip \<le> MAXBLK c * BSIZE c" and junk: "\<forall>x. length (junk x) = BSIZE c"
  shows "\<exists>m ip' iop' s'. fwrite c junk ip iop s = Some (ip', iop', s') \<and> io_ioc iop' = io_ioc iop - m \<and> m \<le> io_ioc iop \<and> (fs_err s' = None \<longrightarrow> m = io_ioc iop) \<and>
    (\<forall>t rd. t_readahead t < int LISTLEN \<longrightarrow> io_seek rd = io_seek iop \<longrightarrow> io_ioc rd = m \<longrightarrow> m \<le> io_room rd \<longrightarrow>
       (\<exists>ip''. fread c t ip' rd (s'\<lparr>fs_err := None\<rparr>) =
          Some (ip'', rd\<lparr>io_data := io_data rd @ take m (io_data iop), io_room := io_room rd - m, io_ioc := 0\<rparr>, s'\<lparr>fs_err := None\<rparr>)))"
proof -
  obtain m xs' ip' iop' s' where m: "fwrite c junk ip iop s = Some (ip', iop', s')" "stored c s xs ip iop m xs' ip' iop' s'"
      "if m = io_ioc iop then fs_err s' = None else fs_err s' = Some ENOSPC \<and> xs' = []"
    using fwrite_loop_ok [OF ok err io room(1) _ junk, of "blockn c (io_seek iop)" "blocko c (io_seek iop)"] by (auto simp: fwrite_def blockn_def blocko_def)
  have st: "m \<le> io_ioc iop" "io_ioc iop' = io_ioc iop - m" "file_ok c s' xs' ip'" "i_size ip' = (if m = 0 then i_size ip else max (i_size ip) (io_seek iop + m))"
    and bytes: "\<And>k. k < MAXBLK c * BSIZE c \<Longrightarrow> byte_at c s' ip' k = (if io_seek iop \<le> k \<and> k < io_seek iop + m then io_data iop ! (k - io_seek iop) else byte_at c s ip k)"
    using m(2) by (simp_all add: stored_def)
  let ?s = "s'\<lparr>fs_err := None\<rparr>"
  have ok': "file_ok c ?s xs' ip'" using st(3) by (simp add: file_ok_def free_ok_def freeable_def)
  have sz: "i_size ip' \<le> MAXBLK c * BSIZE c" using st(1,4) room by simp
  have "\<exists>ip''. fread c t ip' rd ?s = Some (ip'', rd\<lparr>io_data := io_data rd @ take m (io_data iop), io_room := io_room rd - m, io_ioc := 0\<rparr>, ?s)"
    if rd: "io_seek rd = io_seek iop" "io_ioc rd = m" "m \<le> io_room rd" and ahead: "t_readahead t < int LISTLEN" for t rd
  proof -
    have n: "m = min (i_size ip' - io_seek rd) (io_ioc rd)" using st(4) rd by (auto simp: max_def min_def)
    have "file_bytes c ?s ip' (io_seek rd) m = take m (io_data iop)"
    proof (rule nth_equalityI)
      fix i assume "i < length (file_bytes c ?s ip' (io_seek rd) m)"
      then have i: "i < m" by simp
      then have "byte_at c s' ip' (io_seek iop + i) = io_data iop ! i" using bytes [of "io_seek iop + i"] st(1) room(1) by simp
      then show "file_bytes c ?s ip' (io_seek rd) m ! i = take m (io_data iop) ! i"
        using i rd(1) by (simp add: file_bytes_def)
    qed (use st(1) io(2) in simp)
    then show ?thesis using fread_ok [OF ok' _ sz n rd(3) ahead] rd(2) by simp
  qed
  then show ?thesis
    using m(1,3) st(1,2) by (intro exI [of _ m] exI [of _ ip'] exI [of _ iop'] exI [of _ s']) (auto split: if_splits)
qed

text \<open>C18: Truncating a file gives every block of it back, the address blocks too, each exactly once, and no other; whatever was written to the file before, the
  free blocks are then those from before the writing, with the blocks that the file had at first.\<close>

theorem write_then_truncate:
  assumes ok: "file_ok c s xs ip" and err: "fs_err s = None" and io: "io_ioc iop \<le> io_room iop" "io_ioc iop \<le> length (io_data iop)"
    and room: "io_seek iop + io_ioc iop \<le> MAXBLK c * BSIZE c" and junk: "\<forall>x. length (junk x) = BSIZE c"
  shows "\<exists>ip1 iop1 s1 ip2 s2 ys. fwrite c junk ip iop s = Some (ip1, iop1, s1) \<and> itruncate c srt ip1 s1 = Some (ip2, s2) \<and>
    free_ok c s2 ys \<and> mset ys = mset xs + mset (file_tree c (dsk s) ip) \<and> file_tree c (dsk s2) ip2 = [] \<and> i_size ip2 = 0"
proof -
  obtain m xs1 ip1 iop1 s1 where m: "fwrite c junk ip iop s = Some (ip1, iop1, s1)" "stored c s xs ip iop m xs1 ip1 iop1 s1"
    using fwrite_loop_ok [OF ok err io room _ junk, of "blockn c (io_seek iop)" "blocko c (io_seek iop)"] by (auto simp: fwrite_def blockn_def blocko_def)
  then have ok1: "file_ok c s1 xs1 ip1" and "\<exists>ts. xs = ts @ xs1 \<and> mset (file_tree c (dsk s1) ip1) = mset (file_tree c (dsk s) ip) + mset ts"
    by (simp_all add: stored_def)
  then have ms: "mset xs1 + mset (file_tree c (dsk s1) ip1) = mset xs + mset (file_tree c (dsk s) ip)" by auto
  obtain ip2 s2 ys where "itruncate c srt ip1 s1 = Some (ip2, s2)" "free_ok c s2 ys" "mset ys = mset xs1 + mset (file_tree c (dsk s1) ip1)"
      "i_size ip2 = 0" "file_tree c (dsk s2) ip2 = []"
    using itruncate_ok [OF ok1, of srt] by blast
  then show ?thesis using m(1) ms by auto
qed

text \<open>When a process writes a whole block of a file from memory that it may not access, \<open>fwrite\<close> returns the error, but the block of the file then holds whatever the
  buffer held that was claimed for it, which need not have to do with the file: what the file had there is lost, and data of others may be read there.\<close>

theorem fwrite_fault_replaces_block:
  assumes ok: "file_ok c s xs ip" and err: "fs_err s = None" and io: "io_seek iop = lbn * BSIZE c" "BSIZE c \<le> io_ioc iop" "io_room iop < BSIZE c"
    and blk: "lbn < MAXBLK c" "bmap c (dsk s) ip lbn \<noteq> 0" and junk: "\<forall>x. length (junk x) = BSIZE c"
  shows "\<exists>ip' iop' s'. fwrite c junk ip iop s = Some (ip', iop', s') \<and> fs_err s' = Some EFAULT \<and> i_size ip' = i_size ip \<and>
    file_block c s' ip' lbn = junk (bmap c (dsk s) ip lbn)"
proof -
  have B: "0 < BSIZE c" and nb: "\<not> i_blk ip" using ok by (auto simp: file_ok_def NBN_def)
  have pos: "blockn c (io_seek iop) = lbn" "blocko c (io_seek iop) = 0" using B io(1) by (simp_all add: blockn_def blocko_def)
  have "True \<longrightarrow> (\<forall>x. length (junk x) = BSIZE c)" using junk by blast
  from aread_ok [OF ok blk(1) this]
  obtain r ip1 s1 ts ys where r: "aread c junk ip lbn True s = Some (r, ip1, s1)" and add: "added c s xs ip lbn ts ys ip1 s1"
    and got: "got c junk True (bmap c (dsk s) ip lbn) (bmap c (dsk s1) ip1 lbn) ts ys r s s1" by blast
  let ?b = "bmap c (dsk s) ip lbn"
  have p: "r = Some (?b, junk ?b)" "bmap c (dsk s1) ip1 lbn = ?b" "dsk s1 ?b = junk ?b" "fs_err s1 = None"
    using got blk(2) err by (auto simp: got_def split: option.splits)
  let ?s = "bput ?b (junk ?b) (s1\<lparr>fs_err := Some EFAULT\<rparr>)"
  have "min (io_ioc iop) (BSIZE c) = BSIZE c" "io_ioc iop \<noteq> 0" "\<not> BSIZE c \<le> io_room iop" using io B by simp_all
  then have "fwrite c junk ip iop s = Some (ip1, iop\<lparr>io_ioc := io_ioc iop - BSIZE c\<rparr>, ?s)"
    using r p nb unfolding fwrite_def pos by (subst fwrite_loop.simps) (simp add: fwrite_block_def ioread_def Let_def)
  moreover have "dsk ?s = dsk s1" using p(3) by auto
  then have "file_block c ?s ip1 lbn = junk ?b" using p(2,3) blk(2) by (simp add: file_block_def del: bput_sel)
  moreover have "fs_err ?s = Some EFAULT" by simp
  ultimately show ?thesis using added_size [OF add] by blast
qed

subsection \<open>An example\<close>

text \<open>A file of 48 bytes with the blocks 8, 7, a hole and 3; 7 and 3 stand in the address block 5. The blocks 4 and 6 are free.\<close>

definition ino_ex :: inode where
  "ino_ex = \<lparr>i_blk = False, i_size = 48, i_addr = [8, 5, 0, 0], i_lastblock = -1\<rparr>"

definition io_ex :: "nat \<Rightarrow> nat \<Rightarrow> nat \<Rightarrow> io" where
  "io_ex seek n room = \<lparr>io_seek = seek, io_ioc = n, io_data = replicate n 65, io_room = room\<rparr>"

lemma ex_sizes: "NBN fs_ex_cfg = 3" "BSIZE fs_ex_cfg = 12" "MAXBLK fs_ex_cfg = 40"
  by (simp_all add: fs_ex_cfg_def NBN_def MAXBLK_def)

lemma ino_ex_tree: "file_tree fs_ex_cfg (dsk fs_ex_tree) ino_ex = [8, 5, 7, 3]"
proof -
  have "[0..<4] = [0, 1, 2, 3 :: nat]" by (simp add: upt_rec)
  then have "file_tree fs_ex_cfg (dsk fs_ex_tree) ino_ex = tree fs_ex_cfg (dsk fs_ex_tree) 0 8 @ tree fs_ex_cfg (dsk fs_ex_tree) 1 5"
    by (simp add: file_tree_def ino_ex_def lvl_def fs_ex_cfg_def del: tree.simps)
  then show ?thesis by (simp only: fs_ex_tree_blocks) simp
qed

lemma ino_ex_ok: "file_ok fs_ex_cfg fs_ex_tree [6, 4] ino_ex"
proof -
  have "freeable fs_ex_tree [6, 4] (file_tree fs_ex_cfg (dsk fs_ex_tree) ino_ex)"
    by (simp only: ino_ex_tree) (simp add: freeable_def in_data_def fs_ex_tree_def fs_ex_def)
  moreover have "length (dsk fs_ex_tree x) = BSIZE fs_ex_cfg" for x by (simp add: fs_ex_tree_def ex_sizes)
  moreover have "length (i_addr ino_ex) = ND fs_ex_cfg + 3" "\<not> i_blk ino_ex" "0 < NBN fs_ex_cfg" by (simp_all add: ino_ex_def fs_ex_cfg_def NBN_def)
  ultimately show ?thesis using fs_ex_tree_ok by (simp add: file_ok_def)
qed

lemma ex_err: "fs_err fs_ex_tree = None"
  by (simp add: fs_ex_tree_def fs_ex_def)

theorem aread_extends_file_witness:
  "\<exists>r ip' s' ts xs'. aread fs_ex_cfg (\<lambda>_. replicate 12 9) ino_ex 2 True fs_ex_tree = Some (r, ip', s') \<and> added fs_ex_cfg fs_ex_tree [6, 4] ino_ex 2 ts xs' ip' s' \<and>
    got fs_ex_cfg (\<lambda>_. replicate 12 9) True (bmap fs_ex_cfg (dsk fs_ex_tree) ino_ex 2) (bmap fs_ex_cfg (dsk s') ip' 2) ts xs' r fs_ex_tree s'"
  by (rule aread_extends_file [OF ino_ex_ok]) (simp_all add: ex_sizes)

theorem fwrite_stores_witness:
  "\<exists>m xs' ip' iop' s'. fwrite fs_ex_cfg (\<lambda>_. replicate 12 9) ino_ex (io_ex 18 42 42) fs_ex_tree = Some (ip', iop', s') \<and> m \<le> io_ioc (io_ex 18 42 42) \<and>
    io_ioc iop' = io_ioc (io_ex 18 42 42) - m \<and> io_seek iop' = io_seek (io_ex 18 42 42) + m \<and>
    (if m = io_ioc (io_ex 18 42 42) then fs_err s' = None else fs_err s' = Some ENOSPC \<and> xs' = []) \<and>
    file_ok fs_ex_cfg s' xs' ip' \<and> (\<exists>ts. [6, 4] = ts @ xs' \<and> mset (file_tree fs_ex_cfg (dsk s') ip') = mset (file_tree fs_ex_cfg (dsk fs_ex_tree) ino_ex) + mset ts) \<and>
    i_size ip' = (if m = 0 then i_size ino_ex else max (i_size ino_ex) (io_seek (io_ex 18 42 42) + m)) \<and>
    (\<forall>k < MAXBLK fs_ex_cfg * BSIZE fs_ex_cfg. byte_at fs_ex_cfg s' ip' k =
       (if io_seek (io_ex 18 42 42) \<le> k \<and> k < io_seek (io_ex 18 42 42) + m then io_data (io_ex 18 42 42) ! (k - io_seek (io_ex 18 42 42))
        else byte_at fs_ex_cfg fs_ex_tree ino_ex k))"
  by (rule fwrite_stores [OF ino_ex_ok ex_err]) (simp_all add: ex_sizes io_ex_def)

theorem fread_returns_witness:
  "fread fs_ex_cfg \<lparr>t_readahead = 2, t_groupmode = True\<rparr> ino_ex (io_ex 5 100 100) fs_ex_tree =
    Some (if 43 = (0 :: nat) then ino_ex else ino_ex\<lparr>i_lastblock := int ((io_seek (io_ex 5 100 100) + 43 - 1) div BSIZE fs_ex_cfg)\<rparr>,
      (io_ex 5 100 100)\<lparr>io_data := io_data (io_ex 5 100 100) @ file_bytes fs_ex_cfg fs_ex_tree ino_ex (io_seek (io_ex 5 100 100)) 43,
        io_room := io_room (io_ex 5 100 100) - 43, io_ioc := io_ioc (io_ex 5 100 100) - 43\<rparr>, fs_ex_tree)"
  by (rule fread_returns [OF ino_ex_ok ex_err]) (simp_all add: ex_sizes io_ex_def ino_ex_def LISTLEN_def)

theorem readahead_asserts_witness:
  "fread fs_ex_cfg \<lparr>t_readahead = 24, t_groupmode = True\<rparr> ino_ex (io_ex 5 100 100) fs_ex_tree = None"
  by (rule readahead_asserts) (simp_all add: blockn_def ex_sizes io_ex_def ino_ex_def LISTLEN_def)

theorem write_then_read_witness:
  "\<exists>m ip' iop' s'. fwrite fs_ex_cfg (\<lambda>_. replicate 12 9) ino_ex (io_ex 18 20 20) fs_ex_tree = Some (ip', iop', s') \<and> io_ioc iop' = io_ioc (io_ex 18 20 20) - m \<and>
    m \<le> io_ioc (io_ex 18 20 20) \<and> (fs_err s' = None \<longrightarrow> m = io_ioc (io_ex 18 20 20)) \<and>
    (\<forall>t rd. t_readahead t < int LISTLEN \<longrightarrow> io_seek rd = io_seek (io_ex 18 20 20) \<longrightarrow> io_ioc rd = m \<longrightarrow> m \<le> io_room rd \<longrightarrow>
       (\<exists>ip''. fread fs_ex_cfg t ip' rd (s'\<lparr>fs_err := None\<rparr>) =
          Some (ip'', rd\<lparr>io_data := io_data rd @ take m (io_data (io_ex 18 20 20)), io_room := io_room rd - m, io_ioc := 0\<rparr>, s'\<lparr>fs_err := None\<rparr>)))"
  by (rule write_then_read [OF ino_ex_ok ex_err]) (simp_all add: ex_sizes io_ex_def ino_ex_def)

theorem write_then_truncate_witness:
  "\<exists>ip1 iop1 s1 ip2 s2 ys. fwrite fs_ex_cfg (\<lambda>_. replicate 12 9) ino_ex (io_ex 18 20 20) fs_ex_tree = Some (ip1, iop1, s1) \<and>
    itruncate fs_ex_cfg False ip1 s1 = Some (ip2, s2) \<and>
    free_ok fs_ex_cfg s2 ys \<and> mset ys = mset [6, 4] + mset (file_tree fs_ex_cfg (dsk fs_ex_tree) ino_ex) \<and> file_tree fs_ex_cfg (dsk s2) ip2 = [] \<and> i_size ip2 = 0"
  by (rule write_then_truncate [OF ino_ex_ok ex_err]) (simp_all add: ex_sizes io_ex_def)

theorem fwrite_fault_replaces_block_witness:
  "\<exists>ip' iop' s'. fwrite fs_ex_cfg (\<lambda>_. replicate 12 9) ino_ex (io_ex 0 12 0) fs_ex_tree = Some (ip', iop', s') \<and> fs_err s' = Some EFAULT \<and>
    i_size ip' = i_size ino_ex \<and> file_block fs_ex_cfg s' ip' 0 = (\<lambda>_. replicate 12 9) (bmap fs_ex_cfg (dsk fs_ex_tree) ino_ex 0)"
proof (rule fwrite_fault_replaces_block [OF ino_ex_ok ex_err])
  show "bmap fs_ex_cfg (dsk fs_ex_tree) ino_ex 0 \<noteq> 0"
    by (simp add: bmap_def path_to_def lmap_def path_leaf_def ino_ex_def fs_ex_cfg_def)
qed (simp_all add: ex_sizes io_ex_def)

end
