(* ===== verification/StrMsg.thy ===== *)
theory StrMsg
  imports Prelude "HOL-Library.Word"
begin

text \<open>
  STREAMS messages: the message and data blocks of \<open>conf/streams/src/strmlib.c\<close> and their memory in \<open>strmem.c\<close>. A block that \<open>allocb\<close> makes is
  a triple, a message block, a data block and a buffer in one piece of memory; \<open>dupb\<close> makes a message block alone that shares the data block of another.
  A result \<^const>\<open>None\<close> is a fault: a NULL pointer, or a block that was given back.
\<close>

section \<open>State\<close>

text \<open>\<open>MSGTRIPLE\<close>: the message block is part of a triple. \<open>MSGFREE\<close>: it is free, but the data block beside it is not.\<close>

datatype mflag = MSGTRIPLE | MSGFREE | Mark nat

record mblk =
  b_next :: ptr
  b_prev :: ptr
  b_cont :: ptr
  b_rptr :: nat
  b_wptr :: nat
  b_datap :: addr
  b_band :: nat
  b_flag :: "mflag set"

record dblk =
  db_base :: nat
  db_lim :: nat
  db_type :: nat
  db_ref :: nat
  db_frtnp :: "nat option"

text \<open>
  Sizes, addresses and message types are those of headers outside the repository: the size of a triple with a buffer, of a message block, the mark up to
  which each priority may use the memory, where the buffer of a triple is, the size of a word of the heap, the type of data, and the classes of types. The parts of a triple have one
  address here, so \<open>MB_TO_DB\<close> and \<open>DB_TO_MB\<close> are the identity.
\<close>

record str_cfg =
  MSGB_SIZE :: "nat \<Rightarrow> nat"
  MBLK_SIZE :: nat
  sm_max :: "nat \<Rightarrow> nat"
  DB_TO_DATA :: "addr \<Rightarrow> nat"
  ST_WORD_S :: nat
  M_DATA :: nat
  pcmsg :: "nat \<Rightarrow> bool"
  datamsg :: "nat \<Rightarrow> bool"
  MSGMASK_SYSTEM :: "mflag set"

text \<open>\<open>sizes\<close> are the sizes that blocks were asked for with, which the heap keeps in front of each block; \<open>smem\<close> are the bytes of the buffers, \<open>frtns\<close> the free routines that have been called.\<close>

record strm =
  mbs :: "mblk store"
  dbs :: "dblk store"
  sizes :: "addr \<Rightarrow> nat"
  smem :: "nat \<Rightarrow> 8 word"
  sm_used :: nat
  frtns :: "nat list"

text \<open>The bytes between the pointers of a block.\<close>

definition b_len :: "mblk \<Rightarrow> int" where
  "b_len m = int (b_wptr m) - int (b_rptr m)"

definition memcpy :: "nat \<Rightarrow> nat \<Rightarrow> nat \<Rightarrow> strm \<Rightarrow> strm" where
  "memcpy dst src n s = s\<lparr>smem := (\<lambda>a. if dst \<le> a \<and> a < dst + n then smem s (src + (a - dst)) else smem s a)\<rparr>"

definition set_mb :: "addr \<Rightarrow> (mblk \<Rightarrow> mblk) \<Rightarrow> strm \<Rightarrow> strm option" where
  "set_mb p f s = do { m \<leftarrow> mbs s p; Some (s\<lparr>mbs := (mbs s)(p \<mapsto> f m)\<rparr>) }"

definition set_db :: "addr \<Rightarrow> (dblk \<Rightarrow> dblk) \<Rightarrow> strm \<Rightarrow> strm option" where
  "set_db p f s = do { d \<leftarrow> dbs s p; Some (s\<lparr>dbs := (dbs s)(p \<mapsto> f d)\<rparr>) }"

definition type_of :: "addr \<Rightarrow> strm \<Rightarrow> nat option" where
  "type_of p s = do { m \<leftarrow> mbs s p; d \<leftarrow> dbs s (b_datap m); Some (db_type d) }"

section \<open>Memory\<close>

text \<open>What the heap answers: an address and what is found there, or NULL. These are the calls that do not sleep.\<close>

type_synonym answer = "(addr \<times> mblk) option"

definition STRMEM_ALLOC :: "str_cfg \<Rightarrow> nat \<Rightarrow> nat \<Rightarrow> answer \<Rightarrow> strm \<Rightarrow> answer \<times> strm" where
  "STRMEM_ALLOC c sz pri a s =
     (if sz > sm_max c pri then (None, s)
      else if sm_used s + sz \<le> sm_max c pri then (case a of None \<Rightarrow> (None, s) | Some (p, m) \<Rightarrow> (Some (p, m), s\<lparr>sm_used := sm_used s + sz, sizes := (sizes s)(p := sz)\<rparr>))
      else (None, s))"

text \<open>
  For memory that is not in use, and when the size is another number of words than the block was asked for with, \<open>st_free\<close> (\<open>lib/st_alloc.c\<close>)
  complains, and \<open>STRMEM_FREE\<close> prints a warning and does nothing.
\<close>

definition ST_BYTE2WORD :: "str_cfg \<Rightarrow> nat \<Rightarrow> nat" where
  "ST_BYTE2WORD c sz = (sz + 2 * ST_WORD_S c - 1) div ST_WORD_S c"

definition STRMEM_FREE :: "str_cfg \<Rightarrow> addr \<Rightarrow> nat \<Rightarrow> strm \<Rightarrow> strm" where
  "STRMEM_FREE c bp sz s =
     (if mbs s bp = None \<or> ST_BYTE2WORD c (sizes s bp) \<noteq> ST_BYTE2WORD c sz then s
      else s\<lparr>mbs := (mbs s)(bp := None), dbs := (dbs s)(bp := None), sm_used := sm_used s - sz\<rparr>)"

definition MSGB_ALLOC :: "str_cfg \<Rightarrow> nat \<Rightarrow> nat \<Rightarrow> answer \<Rightarrow> strm \<Rightarrow> ptr \<times> strm" where
  "MSGB_ALLOC c sz pri a s = (case STRMEM_ALLOC c (MSGB_SIZE c sz) pri a s of
     (None, s) \<Rightarrow> (None, s)
   | (Some (p, m), s) \<Rightarrow> let data = DB_TO_DATA c p in (Some p,
       s\<lparr>mbs := (mbs s)(p \<mapsto> m\<lparr>b_cont := None, b_datap := p, b_rptr := data, b_wptr := data, b_flag := {MSGTRIPLE}, b_band := 0\<rparr>),
         dbs := (dbs s)(p \<mapsto> \<lparr>db_base = data, db_lim = data + sz, db_type = M_DATA c, db_ref = 1, db_frtnp = None\<rparr>)\<rparr>))"

definition BPRI_LO :: nat where "BPRI_LO = 0"
definition BPRI_MED :: nat where "BPRI_MED = 1"
definition BPRI_HI :: nat where "BPRI_HI = 2"

definition allocb :: "str_cfg \<Rightarrow> nat \<Rightarrow> nat \<Rightarrow> answer \<Rightarrow> strm \<Rightarrow> ptr \<times> strm" where
  "allocb c sz pri a s = MSGB_ALLOC c sz pri a s"

definition esballoc :: "str_cfg \<Rightarrow> nat \<Rightarrow> nat \<Rightarrow> nat \<Rightarrow> nat \<Rightarrow> answer \<Rightarrow> strm \<Rightarrow> ptr \<times> strm" where
  "esballoc c base sz pri frtn a s = (case STRMEM_ALLOC c (MSGB_SIZE c 0) pri a s of
     (None, s) \<Rightarrow> (None, s)
   | (Some (p, m), s) \<Rightarrow> (Some p,
       s\<lparr>mbs := (mbs s)(p \<mapsto> m\<lparr>b_cont := None, b_datap := p, b_rptr := base, b_wptr := base, b_flag := {MSGTRIPLE}, b_band := 0\<rparr>),
         dbs := (dbs s)(p \<mapsto> \<lparr>db_base = base, db_lim = base + sz, db_type = M_DATA c, db_ref = 1, db_frtnp = Some frtn\<rparr>)\<rparr>))"

text \<open>The end of \<open>freeb\<close>: the triple \<open>bp\<close> is given back with the size of the buffer of \<open>datap\<close>.\<close>

definition free_triple :: "str_cfg \<Rightarrow> addr \<Rightarrow> addr \<Rightarrow> strm \<Rightarrow> strm option" where
  "free_triple c bp datap s = do {
     d \<leftarrow> dbs s datap;
     let (frtnp, sz) = (if db_base d \<noteq> DB_TO_DATA c datap then (db_frtnp d, 0) else (None, db_lim d - db_base d));
         s = STRMEM_FREE c bp (MSGB_SIZE c sz) s
     in Some (case frtnp of None \<Rightarrow> s | Some f \<Rightarrow> s\<lparr>frtns := frtns s @ [f]\<rparr>)
   }"

definition freeb :: "str_cfg \<Rightarrow> addr \<Rightarrow> strm \<Rightarrow> strm option" where
  "freeb c bp s = do {
     m \<leftarrow> mbs s bp;
     d \<leftarrow> dbs s (b_datap m);
     (if db_ref d = 0 then None
      else do {
        s \<leftarrow> set_db (b_datap m) (db_ref_update (\<lambda>n. n - 1)) s;
        if db_ref d - 1 > 0 then
          (if MSGTRIPLE \<notin> b_flag m then Some (STRMEM_FREE c bp (MBLK_SIZE c) s)
           else do {
             d' \<leftarrow> dbs s bp;
             if db_ref d' > 0 then set_mb bp (b_flag_update (insert MSGFREE)) s else free_triple c bp bp s
           })
        else if MSGTRIPLE \<notin> b_flag m then
          (let s = STRMEM_FREE c bp (MBLK_SIZE c) s; bp = b_datap m in do {
             m' \<leftarrow> mbs s bp;
             if MSGFREE \<notin> b_flag m' then Some s else free_triple c bp bp s
           })
        else free_triple c bp (b_datap m) s
      })
   }"

partial_function (option) freemsg :: "str_cfg \<Rightarrow> addr \<Rightarrow> strm \<Rightarrow> strm option" where
  "freemsg c mp s = do {
     m \<leftarrow> mbs s mp;
     s \<leftarrow> freeb c mp s;
     (case b_cont m of None \<Rightarrow> Some s | Some next \<Rightarrow> freemsg c next s)
   }"

section \<open>Sharing and copying\<close>

definition dupb :: "str_cfg \<Rightarrow> addr \<Rightarrow> answer \<Rightarrow> strm \<Rightarrow> (ptr \<times> strm) option" where
  "dupb c bp a s = (case STRMEM_ALLOC c (MBLK_SIZE c) BPRI_HI a s of
     (None, s) \<Rightarrow> Some (None, s)
   | (Some (p, junk), s) \<Rightarrow> do {
       m \<leftarrow> mbs s bp;
       let s = s\<lparr>mbs := (mbs s)(p \<mapsto> junk\<lparr>b_cont := None, b_datap := b_datap m, b_rptr := b_rptr m, b_wptr := b_wptr m\<rparr>)\<rparr>
       in do { s \<leftarrow> set_db (b_datap m) (db_ref_update (\<lambda>n. n + 1)) s; Some (Some p, s) }
     })"

text \<open>One answer of the heap for each block; a missing one is NULL.\<close>

primrec dup_rest :: "str_cfg \<Rightarrow> answer list \<Rightarrow> addr \<Rightarrow> addr \<Rightarrow> strm \<Rightarrow> (bool \<times> strm) option" where
  "dup_rest c [] mp newblk s = do {
     m \<leftarrow> mbs s mp;
     (case b_cont m of None \<Rightarrow> Some (True, s) | Some mp \<Rightarrow> do { s \<leftarrow> set_mb newblk (b_cont_update (\<lambda>_. None)) s; Some (False, s) })
   }"
| "dup_rest c (a # as) mp newblk s = do {
     m \<leftarrow> mbs s mp;
     (case b_cont m of None \<Rightarrow> Some (True, s)
      | Some mp \<Rightarrow> do {
          (r, s) \<leftarrow> dupb c mp a s;
          s \<leftarrow> set_mb newblk (b_cont_update (\<lambda>_. r)) s;
          (case r of None \<Rightarrow> Some (False, s) | Some newblk \<Rightarrow> dup_rest c as mp newblk s)
        })
   }"

definition dupmsg :: "str_cfg \<Rightarrow> addr \<Rightarrow> answer list \<Rightarrow> strm \<Rightarrow> (ptr \<times> strm) option" where
  "dupmsg c mp as s = (case as of [] \<Rightarrow> Some (None, s)
   | a # as \<Rightarrow> do {
       (r, s) \<leftarrow> dupb c mp a s;
       (case r of None \<Rightarrow> Some (None, s)
        | Some msg \<Rightarrow> do {
            (ok, s) \<leftarrow> dup_rest c as mp msg s;
            if ok then Some (Some msg, s) else do { s \<leftarrow> freemsg c msg s; Some (None, s) }
          })
     })"

definition copyb :: "str_cfg \<Rightarrow> addr \<Rightarrow> answer \<Rightarrow> strm \<Rightarrow> (ptr \<times> strm) option" where
  "copyb c bp a s = do {
     m \<leftarrow> mbs s bp;
     d \<leftarrow> dbs s (b_datap m);
     let sz = b_len m
     in if sz = 0 then Some (MSGB_ALLOC c 0 BPRI_LO a s)
        else if sz < 0 then Some (None, s)
        else (case MSGB_ALLOC c (nat sz) BPRI_LO a s of
            (None, s) \<Rightarrow> Some (None, s)
          | (Some p, s) \<Rightarrow> do {
              n \<leftarrow> mbs s p;
              s \<leftarrow> set_db (b_datap n) (db_type_update (\<lambda>_. db_type d)) s;
              s \<leftarrow> set_mb p (b_wptr_update (\<lambda>w. w + nat sz)) (memcpy (b_rptr n) (b_rptr m) (nat sz) s);
              Some (Some p, s)
            })
   }"

text \<open>\<open>copymsg\<close> allocates all blocks first. A negative length is a size that no heap has.\<close>

primrec copy_alloc :: "str_cfg \<Rightarrow> answer list \<Rightarrow> ptr \<Rightarrow> addr \<Rightarrow> strm \<Rightarrow> (bool \<times> strm) option" where
  "copy_alloc c [] oldscan newblk s = (case oldscan of None \<Rightarrow> Some (True, s)
     | Some p \<Rightarrow> do { s \<leftarrow> set_mb newblk (b_cont_update (\<lambda>_. None)) s; Some (False, s) })"
| "copy_alloc c (a # as) oldscan newblk s = (case oldscan of None \<Rightarrow> Some (True, s)
     | Some p \<Rightarrow> do {
         m \<leftarrow> mbs s p;
         let (r, s) = (if b_len m < 0 then (None, s) else MSGB_ALLOC c (nat (b_len m)) BPRI_LO a s)
         in do {
           s \<leftarrow> set_mb newblk (b_cont_update (\<lambda>_. r)) s;
           (case r of None \<Rightarrow> Some (False, s) | Some newblk \<Rightarrow> copy_alloc c as (b_cont m) newblk s)
         }
       })"

partial_function (option) copy_data :: "addr \<Rightarrow> addr \<Rightarrow> strm \<Rightarrow> strm option" where
  "copy_data oldscan newblk s = do {
     m \<leftarrow> mbs s oldscan;
     n \<leftarrow> mbs s newblk;
     s \<leftarrow> set_mb newblk (b_wptr_update (\<lambda>w. w + nat (b_len m))) (memcpy (b_rptr n) (b_rptr m) (nat (b_len m)) s);
     (case b_cont n of None \<Rightarrow> Some s
      | Some newblk \<Rightarrow> (case b_cont m of None \<Rightarrow> None | Some oldscan \<Rightarrow> copy_data oldscan newblk s))
   }"

definition copymsg :: "str_cfg \<Rightarrow> addr \<Rightarrow> answer list \<Rightarrow> strm \<Rightarrow> (ptr \<times> strm) option" where
  "copymsg c mp as s = (case as of [] \<Rightarrow> Some (None, s)
   | a # as \<Rightarrow> do {
       m \<leftarrow> mbs s mp;
       (case (if b_len m < 0 then (None, s) else MSGB_ALLOC c (nat (b_len m)) BPRI_LO a s) of
          (None, s) \<Rightarrow> Some (None, s)
        | (Some msg, s) \<Rightarrow> do {
            (ok, s) \<leftarrow> copy_alloc c as (b_cont m) msg s;
            if ok then do { s \<leftarrow> copy_data mp msg s; Some (Some msg, s) }
            else do { s \<leftarrow> freemsg c msg s; Some (None, s) }
          })
     })"

section \<open>The blocks of a message\<close>

partial_function (option) linkb :: "addr \<Rightarrow> addr \<Rightarrow> strm \<Rightarrow> strm option" where
  "linkb mp1 mp2 s = do {
     m \<leftarrow> mbs s mp1;
     (case b_cont m of None \<Rightarrow> set_mb mp1 (b_cont_update (\<lambda>_. Some mp2)) s | Some next \<Rightarrow> linkb next mp2 s)
   }"

definition unlinkb :: "addr \<Rightarrow> strm \<Rightarrow> (ptr \<times> strm) option" where
  "unlinkb mp s = do { m \<leftarrow> mbs s mp; s \<leftarrow> set_mb mp (b_cont_update (\<lambda>_. None)) s; Some (b_cont m, s) }"

text \<open>The block before \<open>bp\<close> is sought; the result \<open>Inl ()\<close> is the pointer -1 for a block that is not in the message.\<close>

partial_function (option) rmvb_scan :: "addr \<Rightarrow> addr \<Rightarrow> addr \<Rightarrow> strm \<Rightarrow> ((unit + ptr) \<times> strm) option" where
  "rmvb_scan mp scan bp s = do {
     m \<leftarrow> mbs s scan;
     if b_cont m = Some bp then do {
       b \<leftarrow> mbs s bp;
       s \<leftarrow> set_mb scan (b_cont_update (\<lambda>_. b_cont b)) s;
       Some (Inr (Some mp), s)
     }
     else (case b_cont m of None \<Rightarrow> Some (Inl (), s) | Some scan \<Rightarrow> rmvb_scan mp scan bp s)
   }"

definition rmvb :: "addr \<Rightarrow> addr \<Rightarrow> strm \<Rightarrow> ((unit + ptr) \<times> strm) option" where
  "rmvb mp bp s = (if mp = bp then do { m \<leftarrow> mbs s mp; Some (Inr (b_cont m), s) } else rmvb_scan mp mp bp s)"

partial_function (option) MSG_SIZE :: "addr \<Rightarrow> strm \<Rightarrow> int option" where
  "MSG_SIZE mp s = do {
     m \<leftarrow> mbs s mp;
     (case b_cont m of None \<Rightarrow> Some (b_len m) | Some mp \<Rightarrow> do { n \<leftarrow> MSG_SIZE mp s; Some (b_len m + n) })
   }"

partial_function (option) msgdsize :: "str_cfg \<Rightarrow> addr \<Rightarrow> strm \<Rightarrow> int option" where
  "msgdsize c mp s = do {
     m \<leftarrow> mbs s mp;
     t \<leftarrow> type_of mp s;
     let k = (if t = M_DATA c then b_len m else 0)
     in (case b_cont m of None \<Rightarrow> Some k | Some mp \<Rightarrow> do { n \<leftarrow> msgdsize c mp s; Some (k + n) })
   }"

text \<open>\<open>adjmsg\<close> with a length that is not negative: bytes go at the front.\<close>

partial_function (option) adj_front :: "nat \<Rightarrow> addr \<Rightarrow> int \<Rightarrow> strm \<Rightarrow> (bool \<times> strm) option" where
  "adj_front msgtype mp len s =
     (if len = 0 then Some (True, s)
      else do {
        m \<leftarrow> mbs s mp;
        if b_len m \<ge> len then do { s \<leftarrow> set_mb mp (b_rptr_update (\<lambda>r. r + nat len)) s; Some (True, s) }
        else (case b_cont m of
            None \<Rightarrow> do { s \<leftarrow> set_mb mp (b_rptr_update (\<lambda>_. b_wptr m)) s; Some (False, s) }
          | Some next \<Rightarrow> do {
              d \<leftarrow> dbs s (b_datap m);
              s \<leftarrow> set_mb mp (\<lambda>m. m\<lparr>b_rptr := db_base d, b_wptr := db_base d\<rparr>) s;
              t \<leftarrow> type_of next s;
              if t \<noteq> msgtype then Some (False, s) else adj_front msgtype next (len - b_len m) s
            })
      })"

text \<open>With a negative one: the last blocks of one type and their size are found, then they are gone through again.\<close>

partial_function (option) adj_span :: "nat \<Rightarrow> addr \<Rightarrow> int \<Rightarrow> addr \<Rightarrow> strm \<Rightarrow> (addr \<times> int) option" where
  "adj_span msgtype span k mp s = do {
     m \<leftarrow> mbs s mp;
     (case b_cont m of
        None \<Rightarrow> Some (span, k + b_len m)
      | Some next \<Rightarrow> do {
          t \<leftarrow> type_of next s;
          if t \<noteq> msgtype then adj_span t next 0 next s else adj_span msgtype span (k + b_len m) next s
        })
   }"

partial_function (option) adj_back :: "ptr \<Rightarrow> int \<Rightarrow> int \<Rightarrow> strm \<Rightarrow> strm option" where
  "adj_back span k len s =
     (if k > 0 then do {
        m \<leftarrow> deref (mbs s) span;
        let k = k - b_len m
        in if k < len then do {
             s \<leftarrow> set_mb (the span) (b_wptr_update (\<lambda>w. nat (int w - (len - k)))) s;
             adj_back (b_next m) k k s
           }
           else adj_back (b_next m) k len s
      }
      else Some s)"

definition adjmsg :: "addr \<Rightarrow> int \<Rightarrow> strm \<Rightarrow> (bool \<times> strm) option" where
  "adjmsg mp len s = do {
     msgtype \<leftarrow> type_of mp s;
     if len \<ge> 0 then adj_front msgtype mp len s
     else do {
       (span, k) \<leftarrow> adj_span msgtype mp 0 mp s;
       let (result, len) = (if k < len then (False, k) else (True, len))
       in do { s \<leftarrow> adj_back (Some span) k len s; Some (result, s) }
     }
   }"

section \<open>Pulling bytes together\<close>

partial_function (option) same_type_len :: "nat \<Rightarrow> addr \<Rightarrow> strm \<Rightarrow> int option" where
  "same_type_len msgtype scan s = do {
     m \<leftarrow> mbs s scan;
     (case b_cont m of None \<Rightarrow> Some (b_len m)
      | Some next \<Rightarrow> do {
          t \<leftarrow> type_of next s;
          if t = msgtype then do { n \<leftarrow> same_type_len msgtype next s; Some (b_len m + n) } else Some (b_len m)
        })
   }"

text \<open>The sizes are compared as unsigned numbers of 32 bits.\<close>

definition ulong :: "int \<Rightarrow> int" where
  "ulong n = n mod 2 ^ 32"

partial_function (option) pullup_loop :: "str_cfg \<Rightarrow> answer list \<Rightarrow> addr \<Rightarrow> ptr \<Rightarrow> int \<Rightarrow> strm \<Rightarrow> (ptr \<times> strm) option" where
  "pullup_loop c as scan mp len s = (case mp of
     None \<Rightarrow> Some (Some scan, s)
   | Some p \<Rightarrow> do {
       m \<leftarrow> mbs s p;
       n \<leftarrow> mbs s scan;
       let blklen = b_len m
       in if blklen < 0 then None
       else do {
         s \<leftarrow> set_mb scan (b_wptr_update (\<lambda>w. w + nat blklen)) (memcpy (b_wptr n) (b_rptr m) (nat blklen) s);
         let len = len - blklen
         in if ulong blklen > ulong len then do {
              (r, s) \<leftarrow> dupmsg c p as s;
              s \<leftarrow> set_mb scan (b_cont_update (\<lambda>_. r)) s;
              (case r of None \<Rightarrow> do { s \<leftarrow> freeb c scan s; Some (None, s) } | Some _ \<Rightarrow> Some (Some scan, s))
            }
            else pullup_loop c as scan (b_cont m) len s
       }
     })"

definition msgpullup :: "str_cfg \<Rightarrow> addr \<Rightarrow> int \<Rightarrow> answer list \<Rightarrow> strm \<Rightarrow> (ptr \<times> strm) option" where
  "msgpullup c mp len as s =
     (if len = 0 then dupmsg c mp as s
      else do {
        m \<leftarrow> mbs s mp;
        msgtype \<leftarrow> type_of mp s;
        k \<leftarrow> same_type_len msgtype mp s;
        if len \<noteq> -1 \<and> ulong len > ulong k then Some (None, s)
        else
          let len = (if len = -1 then k else len); (a, as) = (case as of [] \<Rightarrow> (None, []) | a # as \<Rightarrow> (a, as))
          in (case MSGB_ALLOC c (nat len) BPRI_MED a s of
              (None, s) \<Rightarrow> Some (None, s)
            | (Some scan, s) \<Rightarrow> do {
                s \<leftarrow> set_mb scan (\<lambda>n. n\<lparr>b_band := b_band m, b_flag := b_flag n \<union> (b_flag m - MSGMASK_SYSTEM c)\<rparr>) s;
                pullup_loop c as scan (Some mp) len s
              })
      })"

definition pullupmsg :: "str_cfg \<Rightarrow> addr \<Rightarrow> int \<Rightarrow> answer list \<Rightarrow> strm \<Rightarrow> (bool \<times> strm) option" where
  "pullupmsg c mp len as s = do {
     m \<leftarrow> mbs s mp;
     if (b_len m > len \<or> len = -1 \<and> b_cont m = None) \<and> b_rptr m mod 4 = 0 then Some (True, s)
     else do {
       (r, s) \<leftarrow> msgpullup c mp len as s;
       (case r of None \<Rightarrow> Some (False, s)
        | Some newmsg \<Rightarrow> do {
            m \<leftarrow> mbs s mp;
            n \<leftarrow> mbs s newmsg;
            s \<leftarrow> set_mb mp (\<lambda>m. m\<lparr>b_datap := b_datap n, b_cont := b_cont n, b_rptr := b_rptr n, b_wptr := b_wptr n\<rparr>) s;
            s \<leftarrow> set_mb newmsg (\<lambda>n. n\<lparr>b_datap := b_datap m, b_cont := b_cont m\<rparr>) s;
            s \<leftarrow> freemsg c newmsg s;
            Some (True, s)
          })
     }
   }"

section \<open>Messages as lists of blocks\<close>

text \<open>\<open>msg s p bs\<close>: the message at \<open>p\<close> has the blocks \<open>bs\<close>.\<close>

abbreviation msg :: "strm \<Rightarrow> ptr \<Rightarrow> addr list \<Rightarrow> bool" where
  "msg s p bs \<equiv> linked (mbs s) b_cont p bs"

definition bytes_of :: "strm \<Rightarrow> addr \<Rightarrow> 8 word list" where
  "bytes_of s p = (case mbs s p of None \<Rightarrow> [] | Some m \<Rightarrow> map (smem s) [b_rptr m..<b_wptr m])"

definition msg_bytes :: "strm \<Rightarrow> addr list \<Rightarrow> 8 word list" where
  "msg_bytes s bs = concat (map (bytes_of s) bs)"

lemma msg_size_sum: "msg s (Some p) bs \<Longrightarrow> MSG_SIZE p s = Some (\<Sum>q\<leftarrow>bs. b_len (the (mbs s q)))"
proof (induction bs arbitrary: p)
  case (Cons q bs)
  then obtain m where m: "q = p" "mbs s p = Some m" "msg s (b_cont m) bs" by auto
  show ?case
  proof (cases "b_cont m")
    case None
    then show ?thesis using m by (subst MSG_SIZE.simps) simp
  next
    case (Some n)
    then show ?thesis using m Cons.IH [of n] by (subst MSG_SIZE.simps) simp
  qed
qed simp

lemma msgdsize_sum:
  "msg s (Some p) bs \<Longrightarrow> \<forall>q \<in> set bs. type_of q s \<noteq> None \<Longrightarrow>
    msgdsize c p s = Some (\<Sum>q\<leftarrow>bs. if type_of q s = Some (M_DATA c) then b_len (the (mbs s q)) else 0)"
proof (induction bs arbitrary: p)
  case (Cons q bs)
  then obtain m where m: "q = p" "mbs s p = Some m" "msg s (b_cont m) bs" by auto
  obtain t where t: "type_of p s = Some t" using Cons.prems(2) m(1) by auto
  show ?case
  proof (cases "b_cont m")
    case None
    then show ?thesis using m t by (subst msgdsize.simps) simp
  next
    case (Some n)
    then show ?thesis using m t Cons.IH [of n] Cons.prems(2) by (subst msgdsize.simps) simp
  qed
qed simp

section \<open>Reference counts\<close>

text \<open>The message blocks that somebody holds, and those among them that share a data block.\<close>

definition live :: "strm \<Rightarrow> addr set" where
  "live s = {p. \<exists>m. mbs s p = Some m \<and> MSGFREE \<notin> b_flag m}"

definition refs :: "strm \<Rightarrow> addr \<Rightarrow> addr set" where
  "refs s d = {p. \<exists>m. mbs s p = Some m \<and> MSGFREE \<notin> b_flag m \<and> b_datap m = d}"

definition own_size :: "str_cfg \<Rightarrow> strm \<Rightarrow> addr \<Rightarrow> nat" where
  "own_size c s p = (case dbs s p of None \<Rightarrow> MBLK_SIZE c
     | Some d \<Rightarrow> MSGB_SIZE c (if db_base d = DB_TO_DATA c p then db_lim d - db_base d else 0))"

text \<open>
  The invariant, as long as no block has been exchanged between triples: a triple uses its own data block, every data block is counted by those who
  hold it, and is there only while somebody does; the memory in use is accounted for, and the size of
  each block is the one that will be asked for when it is freed.
\<close>

definition mb_ok :: "strm \<Rightarrow> addr \<Rightarrow> mblk \<Rightarrow> bool" where
  "mb_ok s p m \<longleftrightarrow> (if MSGTRIPLE \<in> b_flag m then b_datap m = p \<and> dbs s p \<noteq> None else MSGFREE \<notin> b_flag m \<and> dbs s p = None \<and> dbs s (b_datap m) \<noteq> None)"

definition db_ok :: "str_cfg \<Rightarrow> strm \<Rightarrow> addr \<Rightarrow> dblk \<Rightarrow> bool" where
  "db_ok c s p d \<longleftrightarrow> (\<exists>m. mbs s p = Some m \<and> MSGTRIPLE \<in> b_flag m) \<and> db_ref d = card (refs s p) \<and> refs s p \<noteq> {} \<and>
     (db_base d = DB_TO_DATA c p \<longrightarrow> db_frtnp d = None)"

definition mem_ok :: "str_cfg \<Rightarrow> strm \<Rightarrow> bool" where
  "mem_ok c s \<longleftrightarrow> finite (dom (mbs s)) \<and> (\<forall>p m. mbs s p = Some m \<longrightarrow> mb_ok s p m) \<and> (\<forall>p d. dbs s p = Some d \<longrightarrow> db_ok c s p d) \<and>
     sm_used s = (\<Sum>p\<in>dom (mbs s). own_size c s p) \<and> (\<forall>p \<in> dom (mbs s). sizes s p = own_size c s p)"

lemma refs_dom: "refs s d \<subseteq> dom (mbs s)"
  by (auto simp: refs_def)

lemma finite_refs: "mem_ok c s \<Longrightarrow> finite (refs s d)"
  using finite_subset [OF refs_dom] by (simp add: mem_ok_def)

lemma sizes_own: "mem_ok c s \<Longrightarrow> mbs s p = Some m \<Longrightarrow> sizes s p = own_size c s p"
  by (auto simp: mem_ok_def)

lemma mem_ok_db:
  assumes "mem_ok c s" "mbs s p = Some m" "MSGFREE \<notin> b_flag m"
  shows "\<exists>d. dbs s (b_datap m) = Some d \<and> db_ref d = card (refs s (b_datap m)) \<and> p \<in> refs s (b_datap m) \<and> 0 < db_ref d \<and>
    (\<exists>n. mbs s (b_datap m) = Some n \<and> MSGTRIPLE \<in> b_flag n \<and> b_datap n = b_datap m)"
proof -
  have mb: "mb_ok s p m" using assms(1,2) by (simp add: mem_ok_def)
  then obtain d where d: "dbs s (b_datap m) = Some d" by (auto simp: mb_ok_def split: if_splits)
  then have ok: "db_ok c s (b_datap m) d" using assms(1) by (simp add: mem_ok_def)
  then obtain n where n: "mbs s (b_datap m) = Some n" "MSGTRIPLE \<in> b_flag n" by (auto simp: db_ok_def)
  then have "mb_ok s (b_datap m) n" using assms(1) by (simp add: mem_ok_def)
  then have "b_datap n = b_datap m" using n(2) by (simp add: mb_ok_def)
  moreover have "0 < card (refs s (b_datap m))" using ok finite_refs [OF assms(1)] by (simp add: db_ok_def card_gt_0_iff)
  moreover have "p \<in> refs s (b_datap m)" using assms(2,3) by (simp add: refs_def)
  ultimately show ?thesis using d n ok by (auto simp: db_ok_def)
qed

text \<open>What \<open>freeb\<close> does for the one who calls it and for the others.\<close>

definition released :: "strm \<Rightarrow> addr \<Rightarrow> strm \<Rightarrow> bool" where
  "released s p s' \<longleftrightarrow> live s' = live s - {p} \<and> smem s' = smem s \<and>
     (\<forall>q \<in> live s'. mbs s' q = mbs s q) \<and>
     (\<forall>d. dbs s' d = None \<or> (\<exists>D. dbs s d = Some D \<and> dbs s' d = Some (D\<lparr>db_ref := card (refs s' d)\<rparr>)))"

lemma sum_dom_remove:
  fixes f :: "addr \<Rightarrow> nat"
  assumes "finite (dom m)" "m p = Some x"
  shows "(\<Sum>q\<in>dom m. f q) = f p + (\<Sum>q\<in>dom (m(p := None)). f q)"
  using assms by (simp add: sum.remove [of "dom m" p] domI)

lemma releasedI:
  assumes "mem_ok c s'" "live s' = live s - {p}" "smem s' = smem s" "\<And>q. q \<in> live s' \<Longrightarrow> mbs s' q = mbs s q"
    and "\<And>d E. dbs s' d = Some E \<Longrightarrow> \<exists>D. dbs s d = Some D \<and> E = D\<lparr>db_ref := db_ref E\<rparr>"
  shows "released s p s'"
proof -
  have "dbs s' d = None \<or> (\<exists>D. dbs s d = Some D \<and> dbs s' d = Some (D\<lparr>db_ref := card (refs s' d)\<rparr>))" for d
  proof (cases "dbs s' d")
    case (Some E)
    then have "db_ok c s' d E" using assms(1) by (simp add: mem_ok_def)
    then have "db_ref E = card (refs s' d)" by (simp add: db_ok_def)
    then show ?thesis using assms(5) [OF Some] Some by metis
  qed simp
  then show ?thesis using assms(2,3,4) by (simp add: released_def)
qed

lemma freeb_shared_single:
  assumes ok: "mem_ok c s" and m: "mbs s p = Some m" "MSGTRIPLE \<notin> b_flag m" and d: "dbs s (b_datap m) = Some D" "1 < db_ref D"
    and s': "s' = STRMEM_FREE c p (MBLK_SIZE c) (s\<lparr>dbs := (dbs s)(b_datap m \<mapsto> D\<lparr>db_ref := db_ref D - 1\<rparr>)\<rparr>)"
  shows "mem_ok c s' \<and> released s p s'"
proof -
  have mb: "MSGFREE \<notin> b_flag m" "dbs s p = None" using ok m by (auto simp: mem_ok_def mb_ok_def)
  then have pd: "p \<noteq> b_datap m" using d by auto
  have sz: "sizes s p = MBLK_SIZE c" using sizes_own [OF ok m(1)] mb by (simp add: own_size_def)
  have e: "mbs s' = (mbs s)(p := None)" "dbs s' = (dbs s)(b_datap m \<mapsto> D\<lparr>db_ref := db_ref D - 1\<rparr>)" "sm_used s' = sm_used s - MBLK_SIZE c" "smem s' = smem s"
    "sizes s' = sizes s"
    using s' m mb pd sz by (auto simp: STRMEM_FREE_def fun_eq_iff)
  have refs: "refs s' x = refs s x - {p}" for x by (auto simp: refs_def e)
  have rd: "p \<in> refs s (b_datap m)" "\<And>x. x \<noteq> b_datap m \<Longrightarrow> p \<notin> refs s x" using m mb by (auto simp: refs_def)
  have D: "db_ok c s (b_datap m) D" using ok d by (simp add: mem_ok_def)
  then have card: "card (refs s' (b_datap m)) = db_ref D - 1"
    using rd(1) d(2) finite_refs [OF ok] unfolding refs by (simp add: db_ok_def card_Diff_singleton)
  then have ne: "refs s' (b_datap m) \<noteq> {}" using d(2) by auto
  have dbok: "db_ok c s' x E" if "dbs s' x = Some E" for x E
  proof (cases "x = b_datap m")
    case True
    then show ?thesis using that D card ne e pd by (auto simp: db_ok_def)
  next
    case False
    then have "db_ok c s x E" using that e ok by (simp add: mem_ok_def)
    moreover have "x \<noteq> p" using that False e mb by auto
    ultimately show ?thesis using refs rd(2) [OF False] e by (auto simp: db_ok_def)
  qed
  have mbok: "mb_ok s' x n" if "mbs s' x = Some n" for x n
  proof -
    have "mb_ok s x n" using that e ok by (auto simp: mem_ok_def split: if_splits)
    then show ?thesis using e d(1) unfolding mb_ok_def by (auto split: if_splits)
  qed
  have own: "own_size c s' x = own_size c s x" for x using e d(1) by (auto simp: own_size_def)
  have "sm_used s = MBLK_SIZE c + (\<Sum>q\<in>dom (mbs s'). own_size c s q)"
    using ok sum_dom_remove [of "mbs s" p m "own_size c s"] m mb e by (simp add: mem_ok_def own_size_def)
  then have "sm_used s' = (\<Sum>q\<in>dom (mbs s'). own_size c s' q)" using e own by simp
  then have memok: "mem_ok c s'" using ok e dbok mbok own by (simp add: mem_ok_def)
  have old: "\<exists>D'. dbs s x = Some D' \<and> E = D'\<lparr>db_ref := db_ref E\<rparr>" if "dbs s' x = Some E" for x E using that e d by (auto split: if_splits)
  have live: "live s' = live s - {p}" "\<And>q. q \<in> live s' \<Longrightarrow> mbs s' q = mbs s q" using e by (auto simp: live_def)
  show ?thesis using memok releasedI [OF memok live(1) e(4) live(2) old] by blast
qed

lemma freeb_shared_triple:
  assumes ok: "mem_ok c s" and m: "mbs s p = Some m" "MSGTRIPLE \<in> b_flag m" "MSGFREE \<notin> b_flag m" and d: "dbs s p = Some D" "1 < db_ref D"
    and s': "s' = s\<lparr>dbs := (dbs s)(p \<mapsto> D\<lparr>db_ref := db_ref D - 1\<rparr>), mbs := (mbs s)(p \<mapsto> b_flag_update (insert MSGFREE) m)\<rparr>"
  shows "mem_ok c s' \<and> released s p s'"
proof -
  have mp: "b_datap m = p" using ok m by (auto simp: mem_ok_def mb_ok_def)
  have e: "mbs s' = (mbs s)(p \<mapsto> b_flag_update (insert MSGFREE) m)" "dbs s' = (dbs s)(p \<mapsto> D\<lparr>db_ref := db_ref D - 1\<rparr>)"
    "sm_used s' = sm_used s" "smem s' = smem s" "sizes s' = sizes s" using s' by auto
  have refs: "refs s' x = refs s x - {p}" for x by (auto simp: refs_def e)
  have rd: "p \<in> refs s p" "\<And>x. x \<noteq> p \<Longrightarrow> p \<notin> refs s x" using m mp by (auto simp: refs_def)
  have D: "db_ok c s p D" using ok d by (simp add: mem_ok_def)
  then have card: "card (refs s' p) = db_ref D - 1"
    using rd(1) d(2) finite_refs [OF ok] unfolding refs by (simp add: db_ok_def card_Diff_singleton)
  then have ne: "refs s' p \<noteq> {}" using d(2) by auto
  have dbok: "db_ok c s' x E" if "dbs s' x = Some E" for x E
  proof (cases "x = p")
    case True
    then show ?thesis using that D card ne e m by (auto simp: db_ok_def)
  next
    case False
    then have "db_ok c s x E" using that e ok by (simp add: mem_ok_def)
    then show ?thesis using refs rd(2) [OF False] e False by (auto simp: db_ok_def)
  qed
  have mbok: "mb_ok s' x n" if "mbs s' x = Some n" for x n
  proof (cases "x = p")
    case True
    then show ?thesis using that e m mp d by (auto simp: mb_ok_def)
  next
    case False
    then have "mb_ok s x n" using that e ok by (auto simp: mem_ok_def)
    then show ?thesis using e d(1) by (auto simp: mb_ok_def split: if_splits)
  qed
  have own: "own_size c s' x = own_size c s x" for x using e d(1) by (auto simp: own_size_def)
  have "dom (mbs s') = dom (mbs s)" using e m by auto
  then have memok: "mem_ok c s'" using ok e(3,5) dbok mbok own by (simp add: mem_ok_def)
  have old: "\<exists>D'. dbs s x = Some D' \<and> E = D'\<lparr>db_ref := db_ref E\<rparr>" if "dbs s' x = Some E" for x E using that e d by (auto split: if_splits)
  have live: "live s' = live s - {p}" "\<And>q. q \<in> live s' \<Longrightarrow> mbs s' q = mbs s q" using e m by (auto simp: live_def split: if_splits)
  show ?thesis using memok releasedI [OF memok live(1) e(4) live(2) old] by blast
qed

lemma last_holder:
  assumes ok: "mem_ok c s" and m: "mbs s p = Some m" "MSGFREE \<notin> b_flag m" and d: "dbs s (b_datap m) = Some D" "db_ref D = 1"
    and n: "p \<noteq> b_datap m" "mbs s (b_datap m) = Some n" "MSGTRIPLE \<in> b_flag n"
  shows "refs s (b_datap m) = {p} \<and> MSGFREE \<in> b_flag n"
proof -
  have "db_ok c s (b_datap m) D" using ok d by (simp add: mem_ok_def)
  then have one: "card (refs s (b_datap m)) = 1" using d(2) by (simp add: db_ok_def)
  have inr: "p \<in> refs s (b_datap m)" using m by (simp add: refs_def)
  have rd: "refs s (b_datap m) = {p}" using one inr by (metis card_1_singletonE singletonD)
  have "mb_ok s (b_datap m) n" using ok n by (simp add: mem_ok_def)
  then have nd: "b_datap n = b_datap m" using n by (simp add: mb_ok_def)
  have "MSGFREE \<in> b_flag n"
  proof (rule ccontr)
    assume "MSGFREE \<notin> b_flag n"
    then have "b_datap m \<in> refs s (b_datap m)" using n nd by (simp add: refs_def)
    then show False using rd n(1) by simp
  qed
  then show ?thesis using rd by simp
qed

lemma freeb_last_single:
  assumes ok: "mem_ok c s" and m: "mbs s p = Some m" "MSGTRIPLE \<notin> b_flag m" and d: "dbs s (b_datap m) = Some D" "db_ref D = 1"
    and e: "mbs s' = (mbs s)(p := None, b_datap m := None)" "dbs s' = (dbs s)(b_datap m := None)" "smem s' = smem s"
      "sm_used s' = sm_used s - MBLK_SIZE c - own_size c s (b_datap m)" "sizes s' = sizes s"
  shows "mem_ok c s' \<and> released s p s'"
proof -
  have mb: "MSGFREE \<notin> b_flag m" "dbs s p = None" using ok m by (auto simp: mem_ok_def mb_ok_def)
  then have pd: "p \<noteq> b_datap m" using d by auto
  have D: "db_ok c s (b_datap m) D" using ok d by (simp add: mem_ok_def)
  then obtain n where n: "mbs s (b_datap m) = Some n" "MSGTRIPLE \<in> b_flag n" by (auto simp: db_ok_def)
  have rd: "refs s (b_datap m) = {p}" and nf: "MSGFREE \<in> b_flag n" using last_holder [OF ok m(1) mb(1) d pd n] by simp_all
  have out: "p \<notin> refs s x" if "x \<noteq> b_datap m" for x using m that by (simp add: refs_def)
  have refs: "refs s' x = refs s x - {p}" for x using n nf by (auto simp: refs_def e)
  have dbok: "db_ok c s' x E" if "dbs s' x = Some E" for x E
  proof -
    have x: "x \<noteq> b_datap m" "dbs s x = Some E" using that e by (auto split: if_splits)
    then have "db_ok c s x E" using ok by (simp add: mem_ok_def)
    moreover have "x \<noteq> p" using x mb by auto
    ultimately show ?thesis using refs out [OF x(1)] e x by (auto simp: db_ok_def)
  qed
  have mbok: "mb_ok s' x k" if "mbs s' x = Some k" for x k
  proof -
    have x: "x \<noteq> b_datap m" "x \<noteq> p" "mbs s x = Some k" using that e by (auto split: if_splits)
    then have ok1: "mb_ok s x k" using ok by (simp add: mem_ok_def)
    have "b_datap k \<noteq> b_datap m" if "MSGFREE \<notin> b_flag k"
    proof
      assume "b_datap k = b_datap m"
      then have "x \<in> refs s (b_datap m)" using x that by (simp add: refs_def)
      then show False using rd x by simp
    qed
    then show ?thesis using ok1 e x by (auto simp: mb_ok_def split: if_splits)
  qed
  have own: "own_size c s' x = own_size c s x" if "x \<in> dom (mbs s')" for x using e that by (auto simp: own_size_def split: if_splits)
  have fin: "finite (dom (mbs s))" "sm_used s = (\<Sum>q\<in>dom (mbs s). own_size c s q)" using ok by (simp_all add: mem_ok_def)
  have "sm_used s = own_size c s p + (\<Sum>q\<in>dom ((mbs s)(p := None)). own_size c s q)" using fin sum_dom_remove [OF fin(1) m(1)] by simp
  moreover have "(\<Sum>q\<in>dom ((mbs s)(p := None)). own_size c s q) = own_size c s (b_datap m) + (\<Sum>q\<in>dom (mbs s'). own_size c s q)"
    unfolding e(1) by (rule sum_dom_remove) (use fin(1) n pd in auto)
  moreover have "own_size c s p = MBLK_SIZE c" using mb by (simp add: own_size_def)
  ultimately have "sm_used s' = (\<Sum>q\<in>dom (mbs s'). own_size c s q)" using e(4) by simp
  also have "\<dots> = (\<Sum>q\<in>dom (mbs s'). own_size c s' q)" by (rule sum.cong) (simp_all add: own)
  finally have "sm_used s' = (\<Sum>q\<in>dom (mbs s'). own_size c s' q)" .
  moreover have "finite (dom (mbs s'))" using fin(1) e(1) by simp
  moreover have "\<forall>q \<in> dom (mbs s'). sizes s' q = own_size c s' q" using sizes_own [OF ok] own e by (auto split: if_splits)
  ultimately have memok: "mem_ok c s'" using dbok mbok by (simp add: mem_ok_def)
  have old: "\<exists>D'. dbs s x = Some D' \<and> E = D'\<lparr>db_ref := db_ref E\<rparr>" if "dbs s' x = Some E" for x E using that e by (auto split: if_splits)
  have live: "live s' = live s - {p}" "\<And>q. q \<in> live s' \<Longrightarrow> mbs s' q = mbs s q" using n nf e by (auto simp: live_def split: if_splits)
  show ?thesis using memok releasedI [OF memok live(1) e(3) live(2) old] by blast
qed

lemma freeb_last_triple:
  assumes ok: "mem_ok c s" and m: "mbs s p = Some m" "MSGTRIPLE \<in> b_flag m" "MSGFREE \<notin> b_flag m" and d: "dbs s p = Some D" "db_ref D = 1"
    and e: "mbs s' = (mbs s)(p := None)" "dbs s' = (dbs s)(p := None)" "smem s' = smem s" "sm_used s' = sm_used s - own_size c s p" "sizes s' = sizes s"
  shows "mem_ok c s' \<and> released s p s'"
proof -
  have mp: "b_datap m = p" using ok m by (auto simp: mem_ok_def mb_ok_def)
  have D: "db_ok c s p D" using ok d by (simp add: mem_ok_def)
  then have one: "card (refs s p) = 1" using d(2) by (simp add: db_ok_def)
  have inr: "p \<in> refs s p" using m mp by (simp add: refs_def)
  have rd: "refs s p = {p}" using one inr by (metis card_1_singletonE singletonD)
  have out: "p \<notin> refs s x" if "x \<noteq> p" for x using m mp that by (simp add: refs_def)
  have refs: "refs s' x = refs s x - {p}" for x by (auto simp: refs_def e)
  have dbok: "db_ok c s' x E" if "dbs s' x = Some E" for x E
  proof -
    have x: "x \<noteq> p" "dbs s x = Some E" using that e by (auto split: if_splits)
    then have "db_ok c s x E" using ok by (simp add: mem_ok_def)
    then show ?thesis using refs out [OF x(1)] e x by (auto simp: db_ok_def)
  qed
  have mbok: "mb_ok s' x k" if "mbs s' x = Some k" for x k
  proof -
    have x: "x \<noteq> p" "mbs s x = Some k" using that e by (auto split: if_splits)
    then have ok1: "mb_ok s x k" using ok by (simp add: mem_ok_def)
    have "b_datap k \<noteq> p" if "MSGFREE \<notin> b_flag k"
    proof
      assume "b_datap k = p"
      then have "x \<in> refs s p" using x that by (simp add: refs_def)
      then show False using rd x by simp
    qed
    then show ?thesis using ok1 e x by (auto simp: mb_ok_def split: if_splits)
  qed
  have own: "own_size c s' x = own_size c s x" if "x \<in> dom (mbs s')" for x using e that by (auto simp: own_size_def split: if_splits)
  have fin: "finite (dom (mbs s))" "sm_used s = (\<Sum>q\<in>dom (mbs s). own_size c s q)" using ok by (simp_all add: mem_ok_def)
  have "sm_used s = own_size c s p + (\<Sum>q\<in>dom (mbs s'). own_size c s q)" using fin sum_dom_remove [OF fin(1) m(1)] e(1) by simp
  then have "sm_used s' = (\<Sum>q\<in>dom (mbs s'). own_size c s q)" using e(4) by simp
  also have "\<dots> = (\<Sum>q\<in>dom (mbs s'). own_size c s' q)" by (rule sum.cong) (simp_all add: own)
  finally have "sm_used s' = (\<Sum>q\<in>dom (mbs s'). own_size c s' q)" .
  moreover have "finite (dom (mbs s'))" using fin(1) e(1) by simp
  moreover have "\<forall>q \<in> dom (mbs s'). sizes s' q = own_size c s' q" using sizes_own [OF ok] own e by (auto split: if_splits)
  ultimately have memok: "mem_ok c s'" using dbok mbok by (simp add: mem_ok_def)
  have old: "\<exists>D'. dbs s x = Some D' \<and> E = D'\<lparr>db_ref := db_ref E\<rparr>" if "dbs s' x = Some E" for x E using that e by (auto split: if_splits)
  have live: "live s' = live s - {p}" "\<And>q. q \<in> live s' \<Longrightarrow> mbs s' q = mbs s q" using e by (auto simp: live_def split: if_splits)
  show ?thesis using memok releasedI [OF memok live(1) e(3) live(2) old] by blast
qed

text \<open>The free routine that is called when the last block that shares \<open>D\<close> goes.\<close>

definition called :: "dblk \<Rightarrow> nat list" where
  "called D = (if db_ref D = 1 then (case db_frtnp D of None \<Rightarrow> [] | Some f \<Rightarrow> [f]) else [])"

lemma free_triple_eq:
  assumes "dbs s p = Some D" "mbs s p \<noteq> None" "db_base D = DB_TO_DATA c p \<longrightarrow> db_frtnp D = None" "sizes s p = own_size c s p"
  shows "free_triple c p p s = Some (s\<lparr>mbs := (mbs s)(p := None), dbs := (dbs s)(p := None), sm_used := sm_used s - own_size c s p,
    frtns := frtns s @ (case db_frtnp D of None \<Rightarrow> [] | Some f \<Rightarrow> [f])\<rparr>)"
  using assms by (auto simp: free_triple_def STRMEM_FREE_def own_size_def split: option.splits)

lemma freeb_step:
  assumes ok: "mem_ok c s" and p: "mbs s p = Some m" "MSGFREE \<notin> b_flag m" and D: "dbs s (b_datap m) = Some D"
  shows "\<exists>s'. freeb c p s = Some s' \<and> (mem_ok c s' \<and> released s p s') \<and> frtns s' = frtns s @ called D"
proof -
  have ref: "0 < db_ref D" using mem_ok_db [OF ok p] D by auto
  have free: "db_base D = DB_TO_DATA c (b_datap m) \<longrightarrow> db_frtnp D = None" using ok D by (auto simp: mem_ok_def db_ok_def)
  let ?d = "s\<lparr>dbs := (dbs s)(b_datap m \<mapsto> D\<lparr>db_ref := db_ref D - 1\<rparr>)\<rparr>"
  have set: "set_db (b_datap m) (db_ref_update (\<lambda>n. n - 1)) s = Some ?d" using D by (cases D) (simp add: set_db_def)
  show ?thesis
  proof (cases "MSGTRIPLE \<in> b_flag m")
    case True
    then have mp: "b_datap m = p" using ok p by (auto simp: mem_ok_def mb_ok_def)
    show ?thesis
    proof (cases "1 < db_ref D")
      case shared: True
      let ?s = "?d\<lparr>mbs := (mbs s)(p \<mapsto> b_flag_update (insert MSGFREE) m)\<rparr>"
      have "freeb c p s = Some ?s" using p D ref shared True mp set by (simp add: freeb_def set_mb_def)
      moreover have "mem_ok c ?s \<and> released s p ?s" by (rule freeb_shared_triple [OF ok p(1) True p(2) _ shared]) (use D mp in simp_all)
      ultimately show ?thesis using shared by (auto simp: called_def)
    next
      case False
      then have one: "db_ref D = 1" using ref by simp
      have t: "dbs ?d p = Some (D\<lparr>db_ref := 0\<rparr>)" "mbs ?d p \<noteq> None" using mp one p by simp_all
      have f: "freeb c p s = free_triple c p p ?d" using p D one True mp set by (simp add: freeb_def)
      have own: "own_size c ?d p = own_size c s p" using mp D by (simp add: own_size_def)
      have fr: "freeb c p s = Some (?d\<lparr>mbs := (mbs s)(p := None), dbs := (dbs s)(p := None), sm_used := sm_used s - own_size c s p, frtns := frtns s @ called D\<rparr>)"
        using free_triple_eq [OF t, of c] free mp one f own sizes_own [OF ok p(1)] by (simp add: called_def)
      obtain s' where s': "freeb c p s = Some s'" "mbs s' = (mbs s)(p := None)" "dbs s' = (dbs s)(p := None)" "smem s' = smem s"
        "sm_used s' = sm_used s - own_size c s p" "sizes s' = sizes s" "frtns s' = frtns s @ called D"
        using that [OF fr] by simp
      have "dbs s p = Some D" using D mp by simp
      then have "mem_ok c s' \<and> released s p s'" using s' by (intro freeb_last_triple [OF ok p(1) True p(2) _ one])
      then show ?thesis using s'(1,7) by (intro exI [of _ s'] conjI) simp_all
    qed
  next
    case False
    have "mb_ok s p m" using ok p by (simp add: mem_ok_def)
    then have pn: "dbs s p = None" "p \<noteq> b_datap m" using False D by (auto simp: mb_ok_def)
    then have sz: "sizes s p = MBLK_SIZE c" using sizes_own [OF ok p(1)] by (simp add: own_size_def)
    show ?thesis
    proof (cases "1 < db_ref D")
      case shared: True
      let ?s = "STRMEM_FREE c p (MBLK_SIZE c) ?d"
      have "freeb c p s = Some ?s" using p D ref shared False set by (simp add: freeb_def)
      moreover have "mem_ok c ?s \<and> released s p ?s" by (rule freeb_shared_single [OF ok p(1) False D shared]) simp
      moreover have "frtns ?s = frtns s" using p by (simp add: STRMEM_FREE_def)
      ultimately show ?thesis using shared by (auto simp: called_def)
    next
      case 2: False
      then have one: "db_ref D = 1" using ref by simp
      let ?q = "b_datap m" and ?e = "STRMEM_FREE c p (MBLK_SIZE c) ?d"
      have dbok: "db_ok c s ?q D" using ok D by (simp add: mem_ok_def)
      then obtain n where n: "mbs s ?q = Some n" "MSGTRIPLE \<in> b_flag n" by (auto simp: db_ok_def)
      have nf: "MSGFREE \<in> b_flag n" using last_holder [OF ok p D one pn(2) n] by simp
      have e: "mbs ?e = (mbs s)(p := None)" "dbs ?e = (dbs s)(?q \<mapsto> D\<lparr>db_ref := 0\<rparr>)" "sm_used ?e = sm_used s - MBLK_SIZE c"
        "smem ?e = smem s" "frtns ?e = frtns s" "sizes ?e = sizes s"
        using p pn one sz by (auto simp: STRMEM_FREE_def fun_eq_iff)
      have f: "freeb c p s = free_triple c ?q ?q ?e" using p D one False set e n nf pn by (simp add: freeb_def Let_def)
      have own: "own_size c ?e ?q = own_size c s ?q" using e D by (simp add: own_size_def)
      have t: "dbs ?e ?q = Some (D\<lparr>db_ref := 0\<rparr>)" "mbs ?e ?q \<noteq> None" using e n pn by simp_all
      have fr: "freeb c p s = Some (?e\<lparr>mbs := (mbs ?e)(?q := None), dbs := (dbs ?e)(?q := None), sm_used := sm_used ?e - own_size c s ?q,
          frtns := frtns ?e @ called D\<rparr>)"
        using free_triple_eq [OF t, of c] free one f own e(6) sizes_own [OF ok n(1)] by (simp add: called_def)
      obtain s' where s': "freeb c p s = Some s'" "mbs s' = (mbs s)(p := None, ?q := None)" "dbs s' = (dbs s)(?q := None)" "smem s' = smem s"
        "sm_used s' = sm_used s - MBLK_SIZE c - own_size c s ?q" "frtns s' = frtns s @ called D" "sizes s' = sizes s"
        using that [OF fr] e by simp
      then have "mem_ok c s' \<and> released s p s'" by (intro freeb_last_single [OF ok p(1) False D one])
      then show ?thesis using s' by blast
    qed
  qed
qed

text \<open>A message all of whose blocks are held.\<close>

definition held :: "strm \<Rightarrow> addr \<Rightarrow> addr list \<Rightarrow> bool" where
  "held s p bs \<longleftrightarrow> msg s (Some p) bs \<and> distinct bs \<and> set bs \<subseteq> live s"

lemma linked_cong: "linked m f p bs \<Longrightarrow> (\<And>q. q \<in> set bs \<Longrightarrow> m' q = m q) \<Longrightarrow> linked m' f p bs"
  by (induction bs arbitrary: p) auto

lemma freemsg_step:
  "mem_ok c s \<Longrightarrow> held s p bs \<Longrightarrow>
    \<exists>s'. freemsg c p s = Some s' \<and> mem_ok c s' \<and> live s' = live s - set bs \<and> smem s' = smem s \<and> (\<forall>q \<in> live s'. mbs s' q = mbs s q)"
proof (induction bs arbitrary: p s)
  case (Cons q bs)
  then obtain m where m: "q = p" "mbs s p = Some m" "msg s (b_cont m) bs" "MSGFREE \<notin> b_flag m" by (auto simp: held_def live_def)
  then obtain D where D: "dbs s (b_datap m) = Some D" using mem_ok_db [OF Cons.prems(1) m(2)] by auto
  obtain s1 where s1: "freeb c p s = Some s1" "mem_ok c s1" "released s p s1" using freeb_step [OF Cons.prems(1) m(2,4) D] by auto
  have l1: "live s1 = live s - {p}" "smem s1 = smem s" "\<forall>q \<in> live s1. mbs s1 q = mbs s q" using s1(3) by (auto simp: released_def)
  show ?case
  proof (cases "b_cont m")
    case None
    then have "bs = []" using m(3) by (cases bs) auto
    then show ?thesis using m None s1 l1 by (subst freemsg.simps) simp
  next
    case (Some n)
    have sub: "set bs \<subseteq> live s1" "distinct bs" using Cons.prems(2) l1 m(1) by (auto simp: held_def)
    have "msg s1 (Some n) bs" by (rule linked_cong [where m = "mbs s"]) (use m(3) Some l1 sub in auto)
    then obtain s' where s': "freemsg c n s1 = Some s'" "mem_ok c s'" "live s' = live s1 - set bs" "smem s' = smem s1" "\<forall>q \<in> live s'. mbs s' q = mbs s1 q"
      using Cons.IH [of s1 n] s1(2) sub by (auto simp: held_def)
    have "freemsg c p s = Some s'" using m Some s1 s' by (subst freemsg.simps) simp
    moreover have "live s' = live s - set (q # bs)" using s' l1 m by auto
    moreover have "\<forall>q \<in> live s'. mbs s' q = mbs s q" using s' l1 by auto
    ultimately show ?thesis using s' l1 by auto
  qed
qed (simp add: held_def)

lemma no_live_empty:
  assumes "mem_ok c s" "live s = {}"
  shows "mbs s = Map.empty \<and> dbs s = Map.empty \<and> sm_used s = 0"
proof -
  have "refs s d = {}" for d using assms(2) by (auto simp: refs_def live_def)
  then have d: "dbs s d = None" for d using assms(1) by (cases "dbs s d") (auto simp: mem_ok_def db_ok_def)
  have m: "mbs s p = None" for p
  proof (cases "mbs s p")
    case (Some m)
    then have "mb_ok s p m" using assms(1) by (simp add: mem_ok_def)
    then show ?thesis using d by (auto simp: mb_ok_def split: if_splits)
  qed
  then have "dom (mbs s) = {}" by auto
  then show ?thesis using assms(1) d m by (auto simp: mem_ok_def)
qed

section \<open>New blocks\<close>

text \<open>What the heap gives is not in use.\<close>

definition fresh :: "answer \<Rightarrow> strm \<Rightarrow> bool" where
  "fresh a s \<longleftrightarrow> (case a of None \<Rightarrow> True | Some (p, m) \<Rightarrow> mbs s p = None)"

lemma fresh_db:
  assumes "mem_ok c s" "mbs s p = None"
  shows "dbs s p = None" "refs s p = {}" "p \<notin> refs s x"
proof -
  show *: "dbs s p = None" 
  proof (cases "dbs s p")
    case (Some d)
    then have "db_ok c s p d" using assms(1) by (simp add: mem_ok_def)
    then show ?thesis using assms(2) by (auto simp: db_ok_def)
  qed
  show "refs s p = {}"
  proof (rule equals0I)
    fix q assume "q \<in> refs s p"
    then obtain m where m: "mbs s q = Some m" "b_datap m = p" "MSGFREE \<notin> b_flag m" by (auto simp: refs_def)
    then have "mb_ok s q m" using assms(1) by (simp add: mem_ok_def)
    then show False using m * by (auto simp: mb_ok_def split: if_splits)
  qed
  show "p \<notin> refs s x" using assms(2) by (simp add: refs_def)
qed

lemma new_triple_ok:
  assumes ok: "mem_ok c s" and p: "mbs s p = None" and m: "b_datap m = p" "b_flag m = {MSGTRIPLE}"
    and d: "db_ref d = 1" "db_base d = DB_TO_DATA c p \<longrightarrow> db_frtnp d = None"
    and e: "mbs s' = (mbs s)(p \<mapsto> m)" "dbs s' = (dbs s)(p \<mapsto> d)"
      "sm_used s' = sm_used s + MSGB_SIZE c (if db_base d = DB_TO_DATA c p then db_lim d - db_base d else 0)"
      "sizes s' = (sizes s)(p := MSGB_SIZE c (if db_base d = DB_TO_DATA c p then db_lim d - db_base d else 0))"
  shows "mem_ok c s' \<and> live s' = insert p (live s)"
proof -
  note f = fresh_db [OF ok p]
  have refs: "refs s' x = (if x = p then {p} else refs s x)" for x using f m by (auto simp: refs_def e)
  have dbok: "db_ok c s' x E" if "dbs s' x = Some E" for x E
  proof (cases "x = p")
    case True
    then show ?thesis using that refs m d e by (auto simp: db_ok_def)
  next
    case False
    then have "db_ok c s x E" using that e ok by (simp add: mem_ok_def)
    then show ?thesis using refs e False by (auto simp: db_ok_def)
  qed
  have mbok: "mb_ok s' x n" if "mbs s' x = Some n" for x n
  proof (cases "x = p")
    case True
    then show ?thesis using that e m by (auto simp: mb_ok_def)
  next
    case False
    then have "mb_ok s x n" using that e ok by (auto simp: mem_ok_def)
    then show ?thesis using e False unfolding mb_ok_def by (auto split: if_splits)
  qed
  have fin: "finite (dom (mbs s))" "sm_used s = (\<Sum>q\<in>dom (mbs s). own_size c s q)" using ok by (simp_all add: mem_ok_def)
  have "(\<Sum>q\<in>dom (mbs s'). own_size c s' q) = own_size c s' p + (\<Sum>q\<in>dom (mbs s). own_size c s' q)"
    using fin(1) p e(1) by (simp add: domIff)
  also have "(\<Sum>q\<in>dom (mbs s). own_size c s' q) = (\<Sum>q\<in>dom (mbs s). own_size c s q)"
    by (rule sum.cong) (use p e(2) in \<open>auto simp: own_size_def\<close>)
  also have "own_size c s' p = MSGB_SIZE c (if db_base d = DB_TO_DATA c p then db_lim d - db_base d else 0)" using e(2) by (simp add: own_size_def)
  finally have "sm_used s' = (\<Sum>q\<in>dom (mbs s'). own_size c s' q)" using e(3) fin(2) by simp
  moreover have "\<forall>q \<in> dom (mbs s'). sizes s' q = own_size c s' q"
    using sizes_own [OF ok] e by (auto simp: own_size_def split: if_splits)
  ultimately have "mem_ok c s'" using dbok mbok fin(1) e(1) by (simp add: mem_ok_def)
  moreover have "live s' = insert p (live s)" using p m e(1) by (auto simp: live_def)
  ultimately show ?thesis ..
qed

lemma allocb_step:
  assumes "mem_ok c s" "fresh a s" "allocb c sz pri a s = (Some p, s')"
  shows "mem_ok c s' \<and> live s' = insert p (live s) \<and> smem s' = smem s \<and> frtns s' = frtns s \<and> sm_used s' \<le> sm_max c pri \<and>
    (\<exists>m. mbs s p = None \<and> mbs s' = (mbs s)(p \<mapsto> m) \<and> b_len m = 0 \<and> b_cont m = None \<and> b_datap m = p \<and> b_rptr m = DB_TO_DATA c p \<and> b_flag m = {MSGTRIPLE}) \<and>
    dbs s' = (dbs s)(p \<mapsto> \<lparr>db_base = DB_TO_DATA c p, db_lim = DB_TO_DATA c p + sz, db_type = M_DATA c, db_ref = 1, db_frtnp = None\<rparr>)"
proof -
  obtain j where a: "a = Some (p, j)" "sm_used s + MSGB_SIZE c sz \<le> sm_max c pri"
    and s': "s' = s\<lparr>sm_used := sm_used s + MSGB_SIZE c sz, sizes := (sizes s)(p := MSGB_SIZE c sz),
        mbs := (mbs s)(p \<mapsto> j\<lparr>b_cont := None, b_datap := p, b_rptr := DB_TO_DATA c p, b_wptr := DB_TO_DATA c p, b_flag := {MSGTRIPLE}, b_band := 0\<rparr>),
        dbs := (dbs s)(p \<mapsto> \<lparr>db_base = DB_TO_DATA c p, db_lim = DB_TO_DATA c p + sz, db_type = M_DATA c, db_ref = 1, db_frtnp = None\<rparr>)\<rparr>"
    using assms(3) by (auto simp: allocb_def MSGB_ALLOC_def STRMEM_ALLOC_def Let_def split: if_splits option.splits prod.splits)
  have p: "mbs s p = None" using assms(2) a by (simp add: fresh_def)
  have "mem_ok c s' \<and> live s' = insert p (live s)"
    by (rule new_triple_ok [OF assms(1) p, where
          m = "j\<lparr>b_cont := None, b_datap := p, b_rptr := DB_TO_DATA c p, b_wptr := DB_TO_DATA c p, b_flag := {MSGTRIPLE}, b_band := 0\<rparr>" and
          d = "\<lparr>db_base = DB_TO_DATA c p, db_lim = DB_TO_DATA c p + sz, db_type = M_DATA c, db_ref = 1, db_frtnp = None\<rparr>"])
      (simp_all add: s')
  moreover have "\<exists>m. mbs s p = None \<and> mbs s' = (mbs s)(p \<mapsto> m) \<and> b_len m = 0 \<and> b_cont m = None \<and> b_datap m = p \<and>
      b_rptr m = DB_TO_DATA c p \<and> b_flag m = {MSGTRIPLE}"
    by (rule exI [of _ "j\<lparr>b_cont := None, b_datap := p, b_rptr := DB_TO_DATA c p, b_wptr := DB_TO_DATA c p, b_flag := {MSGTRIPLE}, b_band := 0\<rparr>"])
      (simp add: s' p b_len_def)
  ultimately show ?thesis using a s' by simp
qed

lemma esballoc_step:
  assumes "mem_ok c s" "fresh a s" "esballoc c base sz pri f a s = (Some p, s')" "base \<noteq> DB_TO_DATA c p"
  shows "mem_ok c s' \<and> live s' = insert p (live s) \<and> sm_used s' \<le> sm_max c pri"
proof -
  obtain j where a: "a = Some (p, j)" "sm_used s + MSGB_SIZE c 0 \<le> sm_max c pri"
    and s': "s' = s\<lparr>sm_used := sm_used s + MSGB_SIZE c 0, sizes := (sizes s)(p := MSGB_SIZE c 0),
        mbs := (mbs s)(p \<mapsto> j\<lparr>b_cont := None, b_datap := p, b_rptr := base, b_wptr := base, b_flag := {MSGTRIPLE}, b_band := 0\<rparr>),
        dbs := (dbs s)(p \<mapsto> \<lparr>db_base = base, db_lim = base + sz, db_type = M_DATA c, db_ref = 1, db_frtnp = Some f\<rparr>)\<rparr>"
    using assms(3) by (auto simp: esballoc_def STRMEM_ALLOC_def split: if_splits option.splits prod.splits)
  have p: "mbs s p = None" using assms(2) a by (simp add: fresh_def)
  have "mem_ok c s' \<and> live s' = insert p (live s)"
    by (rule new_triple_ok [OF assms(1) p, where
          m = "j\<lparr>b_cont := None, b_datap := p, b_rptr := base, b_wptr := base, b_flag := {MSGTRIPLE}, b_band := 0\<rparr>" and
          d = "\<lparr>db_base = base, db_lim = base + sz, db_type = M_DATA c, db_ref = 1, db_frtnp = Some f\<rparr>"])
      (use assms(4) in \<open>simp_all add: s'\<close>)
  then show ?thesis using a s' by simp
qed

text \<open>\<open>dupb\<close> leaves the flags as it finds them in the memory, so that much must be asked of the heap.\<close>

definition clean :: "answer \<Rightarrow> bool" where
  "clean a \<longleftrightarrow> (case a of None \<Rightarrow> True | Some (p, m) \<Rightarrow> MSGTRIPLE \<notin> b_flag m \<and> MSGFREE \<notin> b_flag m)"

lemma dupb_step:
  assumes ok: "mem_ok c s" and a: "fresh a s" "clean a" and b: "mbs s bp = Some m" "MSGFREE \<notin> b_flag m" and r: "dupb c bp a s = Some (Some p, s')"
  shows "mem_ok c s' \<and> live s' = insert p (live s) \<and> smem s' = smem s \<and> frtns s' = frtns s \<and> sm_used s' \<le> sm_max c BPRI_HI \<and> mbs s p = None \<and>
    (\<exists>n. mbs s' = (mbs s)(p \<mapsto> n) \<and> b_cont n = None \<and> b_datap n = b_datap m \<and> b_rptr n = b_rptr m \<and> b_wptr n = b_wptr m)"
proof -
  obtain D where D: "dbs s (b_datap m) = Some D" "db_ref D = card (refs s (b_datap m))" using mem_ok_db [OF ok b] by auto
  obtain j where j: "a = Some (p, j)" "sm_used s + MBLK_SIZE c \<le> sm_max c BPRI_HI"
    using r by (auto simp: dupb_def STRMEM_ALLOC_def split: if_splits option.splits prod.splits bind_splits)
  have p: "mbs s p = None" using a(1) j by (simp add: fresh_def)
  note f = fresh_db [OF ok p]
  have fl: "MSGTRIPLE \<notin> b_flag j" "MSGFREE \<notin> b_flag j" using a(2) j by (simp_all add: clean_def)
  define n where "n = j\<lparr>b_cont := None, b_datap := b_datap m, b_rptr := b_rptr m, b_wptr := b_wptr m\<rparr>"
  have inc: "db_ref_update Suc D = D\<lparr>db_ref := db_ref D + 1\<rparr>" by (cases D) simp
  have e: "mbs s' = (mbs s)(p \<mapsto> n)" "dbs s' = (dbs s)(b_datap m \<mapsto> D\<lparr>db_ref := db_ref D + 1\<rparr>)" "sm_used s' = sm_used s + MBLK_SIZE c"
    "smem s' = smem s" "frtns s' = frtns s" "sizes s' = (sizes s)(p := MBLK_SIZE c)"
    using r j b D inc by (auto simp: dupb_def STRMEM_ALLOC_def set_db_def n_def)
  have n: "MSGTRIPLE \<notin> b_flag n" "MSGFREE \<notin> b_flag n" "b_datap n = b_datap m" using fl by (simp_all add: n_def)
  have pq: "p \<noteq> b_datap m" using f D by auto
  have refs: "refs s' x = (if x = b_datap m then insert p (refs s x) else refs s x)" for x using p n by (auto simp: refs_def e)
  have dbok: "db_ok c s' x E" if "dbs s' x = Some E" for x E
  proof (cases "x = b_datap m")
    case True
    moreover have "db_ok c s (b_datap m) D" using ok D by (simp add: mem_ok_def)
    ultimately show ?thesis using that refs e f(3) finite_refs [OF ok] pq D(2) by (auto simp: db_ok_def)
  next
    case False
    then have "db_ok c s x E" "dbs s x = Some E" using that e ok by (simp_all add: mem_ok_def)
    moreover from this have "x \<noteq> p" using f by auto
    ultimately show ?thesis using refs e False by (auto simp: db_ok_def)
  qed
  have mbok: "mb_ok s' x k" if "mbs s' x = Some k" for x k
  proof (cases "x = p")
    case True
    then show ?thesis using that e n f pq by (auto simp: mb_ok_def)
  next
    case False
    then have "mb_ok s x k" using that e ok by (auto simp: mem_ok_def)
    then show ?thesis using e False D(1) unfolding mb_ok_def by (auto split: if_splits)
  qed
  have fin: "finite (dom (mbs s))" "sm_used s = (\<Sum>q\<in>dom (mbs s). own_size c s q)" using ok by (simp_all add: mem_ok_def)
  have own: "own_size c s' x = own_size c s x" for x using e D(1) by (auto simp: own_size_def)
  have "(\<Sum>q\<in>dom (mbs s'). own_size c s' q) = own_size c s p + (\<Sum>q\<in>dom (mbs s). own_size c s q)"
    using fin(1) p e(1) own by (simp add: domIff)
  moreover have "own_size c s p = MBLK_SIZE c" using f by (simp add: own_size_def)
  ultimately have "sm_used s' = (\<Sum>q\<in>dom (mbs s'). own_size c s' q)" using e(3) fin(2) by simp
  moreover have "\<forall>q \<in> dom (mbs s'). sizes s' q = own_size c s' q"
    using sizes_own [OF ok] e(1,6) own f by (auto simp: own_size_def split: if_splits)
  ultimately have "mem_ok c s'" using dbok mbok fin(1) e(1) by (simp add: mem_ok_def)
  moreover have "live s' = insert p (live s)" using p n e(1) by (auto simp: live_def)
  moreover have "\<exists>n. mbs s' = (mbs s)(p \<mapsto> n) \<and> b_cont n = None \<and> b_datap n = b_datap m \<and> b_rptr n = b_rptr m \<and> b_wptr n = b_wptr m"
    using e(1) by (intro exI [of _ n]) (simp add: n_def)
  ultimately show ?thesis using e p j by simp
qed

section \<open>What modules do with their messages\<close>

text \<open>
  A module allocates, duplicates and frees blocks that it holds, writes into buffers, and changes pointers of its blocks; not the data block and flags.
\<close>

definition same_data :: "(mblk \<Rightarrow> mblk) \<Rightarrow> bool" where
  "same_data f \<longleftrightarrow> (\<forall>m. b_datap (f m) = b_datap m \<and> b_flag (f m) = b_flag m)"

inductive str_step :: "str_cfg \<Rightarrow> strm \<Rightarrow> strm \<Rightarrow> bool" for c where
  step_alloc: "fresh a s \<Longrightarrow> allocb c sz pri a s = (Some p, s') \<Longrightarrow> str_step c s s'"
| step_esballoc: "fresh a s \<Longrightarrow> esballoc c base sz pri f a s = (Some p, s') \<Longrightarrow> base \<noteq> DB_TO_DATA c p \<Longrightarrow> str_step c s s'"
| step_dup: "bp \<in> live s \<Longrightarrow> fresh a s \<Longrightarrow> clean a \<Longrightarrow> dupb c bp a s = Some (Some p, s') \<Longrightarrow> str_step c s s'"
| step_free: "p \<in> live s \<Longrightarrow> freeb c p s = Some s' \<Longrightarrow> str_step c s s'"
| step_freemsg: "held s p bs \<Longrightarrow> freemsg c p s = Some s' \<Longrightarrow> str_step c s s'"
| step_block: "p \<in> live s \<Longrightarrow> same_data f \<Longrightarrow> set_mb p f s = Some s' \<Longrightarrow> str_step c s s'"
| step_write: "str_step c s (s\<lparr>smem := b\<rparr>)"

definition str_empty :: strm where
  "str_empty = \<lparr>mbs = Map.empty, dbs = Map.empty, sizes = (\<lambda>_. 0), smem = (\<lambda>_. 0), sm_used = 0, frtns = []\<rparr>"

lemma mem_ok_empty: "mem_ok c str_empty"
  by (simp add: mem_ok_def str_empty_def)

lemma refs_smem [simp]: "refs (s\<lparr>smem := b\<rparr>) = refs s" "refs (s\<lparr>frtns := f\<rparr>) = refs s"
  by (simp_all add: refs_def fun_eq_iff)

lemma mem_ok_smem [simp]: "mem_ok c (s\<lparr>smem := b\<rparr>) = mem_ok c s"
  by (simp add: mem_ok_def mb_ok_def db_ok_def own_size_def cong: if_cong)

lemma mem_ok_block:
  assumes ok: "mem_ok c s" and f: "same_data f" and s': "set_mb p f s = Some s'"
  shows "mem_ok c s' \<and> live s' = live s \<and> refs s' = refs s"
proof -
  obtain m where m: "mbs s p = Some m" and e: "s' = s\<lparr>mbs := (mbs s)(p \<mapsto> f m)\<rparr>" using s' by (auto simp: set_mb_def split: bind_splits)
  have f: "b_datap (f m) = b_datap m" "b_flag (f m) = b_flag m" using f by (simp_all add: same_data_def)
  have each: "(\<exists>k. mbs s' x = Some k \<and> P (b_flag k) (b_datap k)) \<longleftrightarrow> (\<exists>k. mbs s x = Some k \<and> P (b_flag k) (b_datap k))" for x P
    using m f by (cases "x = p") (simp_all add: e)
  have refs: "refs s' = refs s" unfolding refs_def by (intro ext Collect_cong each)
  have dbok: "db_ok c s' x E" if "dbs s' x = Some E" for x E
  proof -
    have "db_ok c s x E" using that e ok by (simp add: mem_ok_def)
    then show ?thesis using refs each [of x "\<lambda>fl d. MSGTRIPLE \<in> fl"] by (simp add: db_ok_def)
  qed
  have mbok: "mb_ok s' x k" if k: "mbs s' x = Some k" for x k
  proof (cases "x = p")
    case True
    have "mb_ok s p m" using ok m by (simp add: mem_ok_def)
    then show ?thesis using k True f e unfolding mb_ok_def by simp
  next
    case False
    then have "mb_ok s x k" using k e ok by (simp add: mem_ok_def)
    then show ?thesis using e unfolding mb_ok_def by simp
  qed
  have "dom (mbs s') = dom (mbs s)" using m e by auto
  moreover have "own_size c s' = own_size c s" using e by (simp add: own_size_def fun_eq_iff)
  ultimately have "mem_ok c s'" using ok dbok mbok e by (simp add: mem_ok_def)
  moreover have "live s' = live s" unfolding live_def by (intro Collect_cong each)
  ultimately show ?thesis using refs by simp
qed

lemma str_step_ok: "str_step c s s' \<Longrightarrow> mem_ok c s \<Longrightarrow> mem_ok c s'"
proof (induction rule: str_step.induct)
  case (step_dup bp s a p s')
  then obtain m where "mbs s bp = Some m" "MSGFREE \<notin> b_flag m" by (auto simp: live_def)
  then show ?case using dupb_step step_dup by blast
next
  case (step_free p s s')
  then obtain m where m: "mbs s p = Some m" "MSGFREE \<notin> b_flag m" by (auto simp: live_def)
  then obtain D where "dbs s (b_datap m) = Some D" using mem_ok_db [OF step_free.prems] by blast
  then show ?case using freeb_step [OF step_free.prems m] step_free.hyps by auto
next
  case (step_freemsg s p bs s')
  then show ?case using freemsg_step by fastforce
next
  case (step_alloc a s sz pri p s')
  then show ?case using allocb_step by blast
next
  case (step_esballoc a s base sz pri f p s')
  then show ?case using esballoc_step by blast
next
  case (step_block p s f s')
  then show ?case using mem_ok_block by blast
qed simp

lemma reach_ok: "(str_step c)\<^sup>*\<^sup>* str_empty s \<Longrightarrow> mem_ok c s"
  by (induction rule: rtranclp_induct) (auto intro: str_step_ok mem_ok_empty)

lemma freeb_used: "freeb c p s = Some s' \<Longrightarrow> sm_used s' \<le> sm_used s"
  by (auto simp: freeb_def set_db_def set_mb_def free_triple_def STRMEM_FREE_def Let_def split: bind_splits if_splits option.splits prod.splits)

lemma freemsg_used: "freemsg c p s = Some s' \<Longrightarrow> sm_used s' \<le> sm_used s"
proof (induction rule: freemsg.raw_induct [rotated, consumes 1])
  case (1 f c p s s')
  then obtain m s1 where "mbs s p = Some m" "freeb c p s = Some s1" by (cases "mbs s p"; cases "freeb c p s") auto
  then show ?case using freeb_used [of c p s s1] 1 by (cases "b_cont m") (simp, fastforce dest: le_trans)
qed

lemma step_used:
  assumes "str_step c s s'" "mem_ok c s" "\<forall>pri. sm_max c pri \<le> M" "sm_used s \<le> M"
  shows "sm_used s' \<le> M"
  using assms
proof (induction rule: str_step.induct)
  case (step_alloc a s sz pri p s')
  then show ?case using allocb_step [OF step_alloc.prems(1) step_alloc.hyps] le_trans by blast
next
  case (step_esballoc a s base sz pri f p s')
  then show ?case using esballoc_step [OF step_esballoc.prems(1) step_esballoc.hyps] le_trans by blast
next
  case (step_dup bp s a p s')
  then obtain m where "mbs s bp = Some m" "MSGFREE \<notin> b_flag m" by (auto simp: live_def)
  then show ?case using dupb_step [OF step_dup.prems(1) step_dup.hyps(2,3) _ _ step_dup.hyps(4)] step_dup.prems(2) le_trans by blast
next
  case (step_free p s s')
  then show ?case using freeb_used le_trans by blast
next
  case (step_freemsg s p bs s')
  then show ?case using freemsg_used le_trans by blast
next
  case (step_block p s f s')
  then show ?case by (auto simp: set_mb_def split: bind_splits)
qed simp

section \<open>The bytes of a pulled up message\<close>

text \<open>There is room for a buffer of \<open>n\<close> bytes at \<open>scan\<close> and for a message block at \<open>q\<close>.\<close>

definition room :: "str_cfg \<Rightarrow> nat \<Rightarrow> addr \<Rightarrow> addr \<Rightarrow> strm \<Rightarrow> bool" where
  "room c n scan q s \<longleftrightarrow> scan \<noteq> q \<and> mbs s scan = None \<and> mbs s q = None \<and>
     sm_used s + MSGB_SIZE c n \<le> sm_max c BPRI_MED \<and> sm_used s + MSGB_SIZE c n + MBLK_SIZE c \<le> sm_max c BPRI_HI"

lemma pullup_single:
  assumes ok: "mem_ok c s" and m: "mbs s mp = Some m" "MSGFREE \<notin> b_flag m" "b_cont m = None"
    and len: "b_len m = int n" "0 < n" "n < 2 ^ 31" and room: "room c n scan q s" and D: "dbs s (b_datap m) = Some D"
  shows "\<exists>s' x y d. msgpullup c mp (-1) [Some (scan, j), Some (q, k)] s = Some (Some scan, s') \<and>
    mbs s' = (mbs s)(scan \<mapsto> x, q \<mapsto> y) \<and> dbs s' = (dbs s)(scan \<mapsto> d, b_datap m \<mapsto> db_ref_update Suc D) \<and>
    smem s' = smem (memcpy (DB_TO_DATA c scan) (b_rptr m) n s) \<and>
    b_datap x = scan \<and> b_cont x = Some q \<and> MSGTRIPLE \<in> b_flag x \<and> b_rptr x = DB_TO_DATA c scan \<and> b_wptr x = DB_TO_DATA c scan + n \<and>
    b_datap y = b_datap m \<and> b_cont y = None \<and> b_rptr y = b_rptr m \<and> b_wptr y = b_wptr m \<and> b_flag y = b_flag k \<and>
    d = \<lparr>db_base = DB_TO_DATA c scan, db_lim = DB_TO_DATA c scan + n, db_type = M_DATA c, db_ref = 1, db_frtnp = None\<rparr> \<and>
    sizes s' = (sizes s)(scan := MSGB_SIZE c n, q := MBLK_SIZE c) \<and> sm_used s' = sm_used s + MSGB_SIZE c n + MBLK_SIZE c"
proof -
  have sq: "scan \<noteq> q" "mbs s scan = None" "mbs s q = None" using room by (simp_all add: room_def)
  have used: "sm_used s + MSGB_SIZE c n \<le> sm_max c BPRI_MED" "sm_used s + MSGB_SIZE c n + MBLK_SIZE c \<le> sm_max c BPRI_HI" using room by (simp_all add: room_def)
  have ne: "mp \<noteq> scan" "mp \<noteq> q" "b_datap m \<noteq> scan" using sq m D fresh_db(1) [OF ok sq(2)] by auto
  have big: "ulong (int n) > ulong 0" using len(2,3) by (simp add: ulong_def)
  have same: "same_type_len t mp s = Some (int n)" for t using m len by (subst same_type_len.simps) simp
  define x0 where "x0 = j\<lparr>b_cont := None, b_datap := scan, b_rptr := DB_TO_DATA c scan, b_wptr := DB_TO_DATA c scan,
    b_band := b_band m, b_flag := {MSGTRIPLE} \<union> (b_flag m - MSGMASK_SYSTEM c)\<rparr>"
  define d where "d = \<lparr>db_base = DB_TO_DATA c scan, db_lim = DB_TO_DATA c scan + n, db_type = M_DATA c, db_ref = 1, db_frtnp = None\<rparr>"
  define y where "y = k\<lparr>b_cont := None, b_datap := b_datap m, b_rptr := b_rptr m, b_wptr := b_wptr m\<rparr>"
  define s1 where "s1 = s\<lparr>sm_used := sm_used s + MSGB_SIZE c n, sizes := (sizes s)(scan := MSGB_SIZE c n), dbs := (dbs s)(scan \<mapsto> d), mbs := (mbs s)(scan \<mapsto> x0)\<rparr>"
  define x1 where "x1 = x0\<lparr>b_wptr := DB_TO_DATA c scan + n\<rparr>"
  define s2 where "s2 = (memcpy (DB_TO_DATA c scan) (b_rptr m) n s1)\<lparr>mbs := (mbs s)(scan \<mapsto> x1)\<rparr>"
  define s3 where "s3 = s2\<lparr>sm_used := sm_used s2 + MBLK_SIZE c, sizes := (sizes s2)(q := MBLK_SIZE c), mbs := (mbs s)(scan \<mapsto> x1, q \<mapsto> y),
    dbs := (dbs s)(scan \<mapsto> d, b_datap m \<mapsto> db_ref_update Suc D)\<rparr>"
  define s' where "s' = s3\<lparr>mbs := (mbs s)(scan \<mapsto> x1\<lparr>b_cont := Some q\<rparr>, q \<mapsto> y)\<rparr>"
  have 1: "msgpullup c mp (-1) [Some (scan, j), Some (q, k)] s = pullup_loop c [Some (q, k)] scan (Some mp) (int n) s1"
    using m len D sq used same
    by (simp add: msgpullup_def type_of_def MSGB_ALLOC_def STRMEM_ALLOC_def set_mb_def Let_def s1_def x0_def d_def)
  have 2: "dupb c mp (Some (q, k)) s2 = Some (Some q, s3)"
    using m D sq used ne by (simp add: dupb_def STRMEM_ALLOC_def set_db_def Let_def s3_def s2_def s1_def memcpy_def y_def fun_upd_twist)
  have 3: "dupmsg c mp [Some (q, k)] s2 = Some (Some q, s3)"
    using 2 m sq ne by (simp add: dupmsg_def s3_def)
  have 4: "pullup_loop c [Some (q, k)] scan (Some mp) (int n) s1 = Some (Some scan, s')"
  proof -
    have 5: "mbs s1 mp = Some m" "mbs s1 scan = Some x0" "b_wptr x0 = DB_TO_DATA c scan" using m ne by (simp_all add: s1_def x0_def)
    have 6: "set_mb scan (b_wptr_update (\<lambda>w. w + n)) (memcpy (DB_TO_DATA c scan) (b_rptr m) n s1) = Some s2"
      using 5(2) by (simp add: set_mb_def s1_def s2_def x1_def x0_def memcpy_def comp_def)
    have 7: "set_mb scan (b_cont_update (\<lambda>_. Some q)) s3 = Some s'" using sq by (simp add: set_mb_def s3_def s'_def fun_upd_twist)
    show ?thesis using 3 5 6 7 len(1) big by (subst pullup_loop.simps) simp
  qed
  have 8: "msgpullup c mp (-1) [Some (scan, j), Some (q, k)] s = Some (Some scan, s')" by (simp only: 1 4)
  show ?thesis
    by (rule exI [of _ s'], rule exI [of _ "x1\<lparr>b_cont := Some q\<rparr>"], rule exI [of _ y], rule exI [of _ d], rule conjI [OF 8])
      (simp add: s'_def s3_def s2_def s1_def x1_def x0_def y_def d_def memcpy_def cong: if_cong)
qed

lemma pullupmsg_single:
  assumes ok: "mem_ok c s" and m: "mbs s mp = Some m" "MSGFREE \<notin> b_flag m" "b_cont m = None" "b_datap m = mp" "MSGTRIPLE \<in> b_flag m"
    and align: "b_rptr m mod 4 \<noteq> 0"
    and len: "b_len m = int n" "0 < n" "n < 2 ^ 31" and room: "room c n scan q s" and D: "dbs s mp = Some D" "db_ref D = 1"
    and b: "MSGTRIPLE \<notin> b_flag k" "MSGFREE \<notin> b_flag k"
  shows "\<exists>s'. pullupmsg c mp (-1) [Some (scan, j), Some (q, k)] s = Some (True, s') \<and> msg s' (Some mp) [mp, q] \<and>
    (if ST_BYTE2WORD c (sizes s mp) = ST_BYTE2WORD c (MSGB_SIZE c n) then freemsg c mp s' = None
     else \<exists>s''. freemsg c mp s' = Some s'' \<and> dom (mbs s'') = insert scan (dom (mbs s)) \<and> sm_used s'' = sm_used s + MSGB_SIZE c n)"
proof -
  have ne: "mp \<noteq> scan" "mp \<noteq> q" "q \<noteq> scan" using room m by (auto simp: room_def)
  obtain s1 x y d where 1: "msgpullup c mp (-1) [Some (scan, j), Some (q, k)] s = Some (Some scan, s1)"
    and e: "mbs s1 = (mbs s)(scan \<mapsto> x, q \<mapsto> y)" "dbs s1 = (dbs s)(scan \<mapsto> d, mp \<mapsto> db_ref_update Suc D)"
    and x: "b_datap x = scan" "b_cont x = Some q" "MSGTRIPLE \<in> b_flag x" "b_rptr x = DB_TO_DATA c scan" "b_wptr x = DB_TO_DATA c scan + n"
    and y: "b_datap y = mp" "b_cont y = None" "b_flag y = b_flag k"
    and d: "d = \<lparr>db_base = DB_TO_DATA c scan, db_lim = DB_TO_DATA c scan + n, db_type = M_DATA c, db_ref = 1, db_frtnp = None\<rparr>"
    and z: "sizes s1 = (sizes s)(scan := MSGB_SIZE c n, q := MBLK_SIZE c)" "sm_used s1 = sm_used s + MSGB_SIZE c n + MBLK_SIZE c"
    using pullup_single [OF ok m(1-3) len room, of D j k] D(1) unfolding m(4) by blast
  define m' where "m' = m\<lparr>b_datap := scan, b_cont := Some q, b_rptr := DB_TO_DATA c scan, b_wptr := DB_TO_DATA c scan + n\<rparr>"
  define x' where "x' = x\<lparr>b_datap := mp, b_cont := None\<rparr>"
  define s2 where "s2 = s1\<lparr>mbs := (mbs s1)(mp \<mapsto> m', scan \<mapsto> x')\<rparr>"
  define s3 where "s3 = s2\<lparr>dbs := (dbs s1)(mp \<mapsto> db_ref_update (\<lambda>n. n - 1) (db_ref_update Suc D)), mbs := (mbs s2)(scan \<mapsto> b_flag_update (insert MSGFREE) x')\<rparr>"
  have 2: "pullupmsg c mp (-1) [Some (scan, j), Some (q, k)] s = do { s \<leftarrow> freemsg c scan s2; Some (True, s) }"
    using m align 1 e x ne by (simp add: pullupmsg_def set_mb_def s2_def m'_def x'_def fun_upd_twist)
  have "freeb c scan s2 = Some s3"
    using e x d D ne by (simp add: freeb_def set_db_def set_mb_def s2_def s3_def x'_def)
  then have 3: "freemsg c scan s2 = Some s3" by (subst freemsg.simps) (simp add: s2_def x'_def)
  define D' where "D' = db_ref_update (\<lambda>n. n - 1) (db_ref_update Suc D)"
  have s3: "mbs s3 mp = Some m'" "mbs s3 q = Some y" "dbs s3 scan = Some d" "dbs s3 mp = Some D'" "sizes s3 mp = sizes s mp" "sizes s3 q = MBLK_SIZE c"
    "sm_used s3 = sm_used s + MSGB_SIZE c n + MBLK_SIZE c" "dom (mbs s3) = insert q (insert scan (dom (mbs s)))"
    using e ne z m(1) by (auto simp: s3_def s2_def D'_def)
  let ?d = "s3\<lparr>dbs := (dbs s3)(scan \<mapsto> d\<lparr>db_ref := 0\<rparr>)\<rparr>"
  have mp: "freeb c mp s3 = Some (STRMEM_FREE c mp (MSGB_SIZE c n) ?d)"
    using s3(1,3) m(5) d by (simp add: freeb_def set_db_def free_triple_def m'_def)
  have msg: "msg s3 (Some mp) [mp, q]" using s3 y ne by (simp add: m'_def)
  have next_q: "freemsg c mp s3 = freemsg c q (STRMEM_FREE c mp (MSGB_SIZE c n) ?d)"
    by (subst freemsg.simps) (simp add: s3(1) mp, simp add: m'_def)
  have "freemsg c mp s3 = None" if "ST_BYTE2WORD c (sizes s mp) = ST_BYTE2WORD c (MSGB_SIZE c n)"
    unfolding next_q using that s3 y ne by (subst freemsg.simps) (simp add: STRMEM_FREE_def freeb_def)
  moreover have "\<exists>s''. freemsg c mp s3 = Some s'' \<and> dom (mbs s'') = insert scan (dom (mbs s)) \<and> sm_used s'' = sm_used s + MSGB_SIZE c n"
    if "ST_BYTE2WORD c (sizes s mp) \<noteq> ST_BYTE2WORD c (MSGB_SIZE c n)"
  proof -
    let ?D = "?d\<lparr>dbs := (dbs ?d)(mp \<mapsto> D'\<lparr>db_ref := 0\<rparr>)\<rparr>"
    have same: "STRMEM_FREE c mp (MSGB_SIZE c n) ?d = ?d" using that s3(5) by (simp add: STRMEM_FREE_def)
    have one: "db_ref_update (\<lambda>n. n - Suc 0) D' = D'\<lparr>db_ref := 0\<rparr>" "db_ref D' = 1" using D(2) by (cases D; simp add: D'_def)+
    have "freeb c q ?d = Some (STRMEM_FREE c q (MBLK_SIZE c) ?D)"
      using s3 y ne one(2) b m(2) by (simp add: freeb_def set_db_def STRMEM_FREE_def m'_def Let_def one(1))
    then have "freemsg c q ?d = Some (STRMEM_FREE c q (MBLK_SIZE c) ?D)" using s3(2) y(2) by (subst freemsg.simps) simp
    moreover have "dom (mbs (STRMEM_FREE c q (MBLK_SIZE c) ?D)) = insert scan (dom (mbs s))" "sm_used (STRMEM_FREE c q (MBLK_SIZE c) ?D) = sm_used s + MSGB_SIZE c n"
      using s3 ne room by (auto simp: STRMEM_FREE_def room_def)
    ultimately show ?thesis unfolding next_q same by blast
  qed
  ultimately show ?thesis using 2 3 msg by simp
qed

lemma map_copied:
  assumes "{dst..<dst + n} \<inter> {src..<src + n} = {}"
  shows "map (smem (memcpy dst src n s)) [dst..<dst + n] = map (smem s) [src..<src + n]"
    and "map (smem (memcpy dst src n s)) [src..<src + n] = map (smem s) [src..<src + n]"
  using assms by (auto intro!: nth_equalityI simp: memcpy_def disjoint_iff)

section \<open>Trimming a message\<close>

lemma bytes_of_length: "mbs s p = Some m \<Longrightarrow> 0 \<le> b_len m \<Longrightarrow> int (length (bytes_of s p)) = b_len m"
  by (simp add: bytes_of_def b_len_def)

lemma msg_bytes_cong:
  assumes "\<And>q. q \<in> set bs \<Longrightarrow> mbs s' q = mbs s q" "smem s' = smem s"
  shows "msg_bytes s' bs = msg_bytes s bs"
proof -
  have "map (bytes_of s') bs = map (bytes_of s) bs" using assms by (intro map_cong) (auto simp: bytes_of_def split: option.splits)
  then show ?thesis by (simp only: msg_bytes_def)
qed

text \<open>What \<open>adjmsg\<close> may be asked: a message of blocks of one type, none of them with a negative length.\<close>

definition uniform :: "nat \<Rightarrow> strm \<Rightarrow> addr list \<Rightarrow> bool" where
  "uniform t s bs \<longleftrightarrow> distinct bs \<and> (\<forall>q \<in> set bs. \<exists>m. mbs s q = Some m \<and> 0 \<le> b_len m \<and> type_of q s = Some t)"

lemma adj_front_drops:
  "msg s (Some p) bs \<Longrightarrow> uniform t s bs \<Longrightarrow> n \<le> length (msg_bytes s bs) \<Longrightarrow>
    \<exists>s'. adj_front t p (int n) s = Some (True, s') \<and> msg s' (Some p) bs \<and> msg_bytes s' bs = drop n (msg_bytes s bs) \<and>
      smem s' = smem s \<and> dbs s' = dbs s \<and> (\<forall>q. q \<notin> set bs \<longrightarrow> mbs s' q = mbs s q)"
proof (induction bs arbitrary: p s n)
  case (Cons q bs)
  then obtain m where m: "q = p" "mbs s p = Some m" "msg s (b_cont m) bs" by auto
  have u: "0 \<le> b_len m" "p \<notin> set bs" "distinct bs" "type_of p s = Some t" using Cons.prems(2) m by (auto simp: uniform_def)
  then obtain d where d: "dbs s (b_datap m) = Some d" using m by (auto simp: type_of_def split: bind_splits)
  have len: "int (length (bytes_of s p)) = b_len m" using bytes_of_length m(2) u(1) by blast
  show ?case
  proof (cases "n = 0")
    case True
    then show ?thesis using Cons.prems(1) by (subst adj_front.simps) simp
  next
    case False
    show ?thesis
    proof (cases "int n \<le> b_len m")
      case True
      let ?s = "s\<lparr>mbs := (mbs s)(p \<mapsto> m\<lparr>b_rptr := b_rptr m + n\<rparr>)\<rparr>"
      have upd: "b_rptr_update (\<lambda>r. r + n) m = m\<lparr>b_rptr := b_rptr m + n\<rparr>" by (cases m) simp
      have adj: "adj_front t p (int n) s = Some (True, ?s)" using m True False by (subst adj_front.simps) (simp add: set_mb_def upd)
      have blocks: "msg ?s (Some p) (q # bs)" using m linked_cong [OF m(3), of "mbs ?s"] u(2) by simp
      have "bytes_of ?s p = drop n (bytes_of s p)" using m(2) by (simp add: bytes_of_def drop_map)
      moreover have "msg_bytes ?s bs = msg_bytes s bs" by (rule msg_bytes_cong) (use u(2) in auto)
      moreover have "n \<le> length (bytes_of s p)" using True len by linarith
      ultimately have "msg_bytes ?s (q # bs) = drop n (msg_bytes s (q # bs))" using m(1) by (simp add: msg_bytes_def)
      then show ?thesis using m(1) by (intro exI [of _ ?s] conjI adj blocks) simp_all
    next
      case more: False
      then have ne: "bs \<noteq> []" using Cons.prems(3) len m(1) by (auto simp: msg_bytes_def)
      then obtain nx where nx: "b_cont m = Some nx" "nx \<in> set bs" using m(3) by (cases bs; cases "b_cont m") auto
      let ?m = "m\<lparr>b_rptr := db_base d, b_wptr := db_base d\<rparr>"
      let ?s = "s\<lparr>mbs := (mbs s)(p \<mapsto> ?m)\<rparr>"
      have same: "mbs ?s x = mbs s x" if "x \<in> set bs" for x using that u(2) by auto
      have u1: "uniform t ?s bs" using Cons.prems(2) u(2) by (auto simp: uniform_def type_of_def)
      then have t: "type_of nx ?s = Some t" using nx(2) by (auto simp: uniform_def)
      have msg1: "msg ?s (Some nx) bs" using linked_cong [OF m(3), of "mbs ?s"] same nx(1) by simp
      have bytes: "msg_bytes ?s bs = msg_bytes s bs" by (rule msg_bytes_cong) (use same in simp_all)
      define k where "k = n - length (bytes_of s p)"
      have k: "int n - b_len m = int k" "k \<le> length (msg_bytes ?s bs)"
        using more len Cons.prems(3) m(1) bytes by (simp_all add: k_def msg_bytes_def)
      obtain s' where s': "adj_front t nx (int k) ?s = Some (True, s')" "msg s' (Some nx) bs" "msg_bytes s' bs = drop k (msg_bytes ?s bs)"
        "smem s' = smem s" "dbs s' = dbs s" "\<forall>x. x \<notin> set bs \<longrightarrow> mbs s' x = mbs ?s x"
        using Cons.IH [OF msg1 u1 k(2)] by auto
      have "adj_front t p (int n) s = Some (True, s')"
        using m False more nx(1) d t s'(1) k(1) by (subst adj_front.simps) (simp add: set_mb_def)
      moreover have p': "mbs s' p = Some ?m" using s'(6) u(2) by simp
      moreover have "bytes_of s' p = []" using p' by (simp add: bytes_of_def)
      moreover have "msg s' (Some p) (q # bs)" using p' s'(2) nx(1) m(1) by simp
      moreover have "drop n (msg_bytes s (q # bs)) = drop k (msg_bytes s bs)" using more len m(1) by (simp add: msg_bytes_def k_def)
      ultimately show ?thesis using s' bytes m(1) by (intro exI [of _ s']) (auto simp: msg_bytes_def)
    qed
  qed
qed simp

section \<open>Properties\<close>

text \<open>C35: the blocks of a STREAMS message are freed when, and only when, their holders have let go. After any sequence of allocations, duplications, frees and
  changes of pointers, \<open>freeb\<close> of a block that is held does not fault, takes that block from its holder and no other block from any other holder, and
  leaves no data block that a holder uses; the free routine of a foreign buffer is called with the last block that shares it, and at no other time. When
  nothing is held any more all memory has been returned, and at no time is more in use than the highest mark allows. The steps are those of \<open>str_step\<close>:
  the heap gives memory that is not in use; \<open>dupb\<close> finds the flags that mark triples and free blocks clear in the memory it gets, which nothing in the code
  ensures, because \<open>dupb\<close> does not set \<open>b_flag\<close> and the heap does not clear; the foreign buffer of \<open>esballoc\<close> is not the one of the triple itself;
  blocks are freed by those who hold them, and their data pointers and flags are left alone (\<open>pullupmsg\<close>, which exchanges data pointers, is not among the steps).
\<close>

theorem str_memory:
  assumes "(str_step c)\<^sup>*\<^sup>* str_empty s" "\<forall>pri. sm_max c pri \<le> M"
  shows "sm_used s \<le> M \<and> (live s = {} \<longrightarrow> mbs s = Map.empty \<and> dbs s = Map.empty \<and> sm_used s = 0) \<and>
    (\<forall>p m. mbs s p = Some m \<and> p \<in> live s \<longrightarrow> (\<exists>d s'. dbs s (b_datap m) = Some d \<and> freeb c p s = Some s' \<and> live s' = live s - {p} \<and>
       (\<forall>q \<in> live s'. mbs s' q = mbs s q \<and> dbs s' (b_datap (the (mbs s q))) \<noteq> None) \<and> smem s' = smem s \<and> frtns s' = frtns s @ called d))"
proof (intro conjI allI impI)
  note ok = reach_ok [OF assms(1)]
  show "sm_used s \<le> M" using assms(1)
  proof (induction rule: rtranclp_induct)
    case (step s s')
    then show ?case using step_used [OF step.hyps(2) reach_ok [OF step.hyps(1)] assms(2)] by simp
  qed (simp add: str_empty_def)
  show "mbs s = Map.empty" "dbs s = Map.empty" "sm_used s = 0" if "live s = {}" using no_live_empty [OF ok that] by simp_all
  fix p m
  assume m: "mbs s p = Some m \<and> p \<in> live s"
  then have f: "MSGFREE \<notin> b_flag m" by (auto simp: live_def)
  obtain d where d: "dbs s (b_datap m) = Some d" using mem_ok_db [OF ok conjunct1 [OF m] f] by blast
  obtain s' where s': "freeb c p s = Some s'" "mem_ok c s'" "released s p s'" "frtns s' = frtns s @ called d"
    using freeb_step [OF ok conjunct1 [OF m] f d] by auto
  have "mbs s' q = mbs s q \<and> dbs s' (b_datap (the (mbs s q))) \<noteq> None" if q: "q \<in> live s'" for q
  proof -
    have "mbs s' q = mbs s q" using s'(3) q by (simp add: released_def)
    moreover obtain n where n: "mbs s' q = Some n" "MSGFREE \<notin> b_flag n" using q by (auto simp: live_def)
    ultimately have "mbs s q = Some n" by simp
    then show ?thesis using mem_ok_db [OF s'(2) n] n(1) by auto
  qed
  then show "\<exists>d s'. dbs s (b_datap m) = Some d \<and> freeb c p s = Some s' \<and> live s' = live s - {p} \<and>
       (\<forall>q \<in> live s'. mbs s' q = mbs s q \<and> dbs s' (b_datap (the (mbs s q))) \<noteq> None) \<and> smem s' = smem s \<and> frtns s' = frtns s @ called d"
    using d s' by (intro exI [of _ d] exI [of _ s']) (simp add: released_def)
qed

text \<open>pulling up a whole message doubles it. \<open>msgpullup\<close> of a message of one block, with the length -1 that asks for all of it, gives a message of two
  blocks that has every byte twice: the loop subtracts the bytes it has copied before it compares, and then duplicates the block that it has copied.
\<close>

theorem msgpullup_doubles:
  assumes "mem_ok c s" "mbs s mp = Some m" "MSGFREE \<notin> b_flag m" "b_cont m = None" "b_len m = int n" "0 < n" "n < 2 ^ 31" "room c n scan q s"
    and apart: "{DB_TO_DATA c scan..<DB_TO_DATA c scan + n} \<inter> {b_rptr m..<b_wptr m} = {}"
  shows "\<exists>s'. msgpullup c mp (-1) [Some (scan, j), Some (q, k)] s = Some (Some scan, s') \<and> msg s' (Some scan) [scan, q] \<and>
    msg_bytes s' [scan, q] = bytes_of s mp @ bytes_of s mp"
proof -
  obtain D where D: "dbs s (b_datap m) = Some D" using mem_ok_db [OF assms(1-3)] by auto
  obtain s' x y d where 1: "msgpullup c mp (-1) [Some (scan, j), Some (q, k)] s = Some (Some scan, s')"
    and e: "mbs s' = (mbs s)(scan \<mapsto> x, q \<mapsto> y)" "smem s' = smem (memcpy (DB_TO_DATA c scan) (b_rptr m) n s)"
    and x: "b_cont x = Some q" "b_rptr x = DB_TO_DATA c scan" "b_wptr x = DB_TO_DATA c scan + n"
    and y: "b_cont y = None" "b_rptr y = b_rptr m" "b_wptr y = b_wptr m"
    using pullup_single [OF assms(1-8) D, of j k] by blast
  have w: "b_wptr m = b_rptr m + n" using assms(5) by (simp add: b_len_def)
  have ne: "scan \<noteq> q" using assms(8) by (simp add: room_def)
  have "bytes_of s' scan = bytes_of s mp" "bytes_of s' q = bytes_of s mp"
    using map_copied [of "DB_TO_DATA c scan" n "b_rptr m" s] apart assms(2) e x y w ne by (simp_all add: bytes_of_def)
  then show ?thesis using 1 e x y ne by (intro exI [of _ s']) (simp add: msg_bytes_def)
qed

text \<open>C36: \<open>pullupmsg\<close> exchanges the data of two triples and thereby breaks the rule that a triple uses its own data block. After it has pulled up an
  unaligned message of one block, and said that it could, the message cannot be freed. When its buffer had as many words as the bytes that were copied take,
  \<open>freemsg\<close> of the message faults: its first block goes with the data block that the second still uses. Otherwise the heap refuses to take the first block back,
  because the size does not fit, and that block and the new one stay in use although they have been freed. The theorem is about a block that nobody shares, in
  memory that is in order, with room for the copy; \<open>dupb\<close> finds clear flags in the memory it gets.
\<close>

theorem pullupmsg_breaks_memory:
  assumes "mem_ok c s" "mbs s mp = Some m" "MSGFREE \<notin> b_flag m" "b_cont m = None" "MSGTRIPLE \<in> b_flag m" "b_rptr m mod 4 \<noteq> 0"
    and "b_len m = int n" "0 < n" "n < 2 ^ 31" "room c n scan q s" "refs s mp = {mp}" "clean (Some (q, k))"
  shows "\<exists>s'. pullupmsg c mp (-1) [Some (scan, j), Some (q, k)] s = Some (True, s') \<and> msg s' (Some mp) [mp, q] \<and>
    (if ST_BYTE2WORD c (sizes s mp) = ST_BYTE2WORD c (MSGB_SIZE c n) then freemsg c mp s' = None
     else \<exists>s''. freemsg c mp s' = Some s'' \<and> dom (mbs s'') = insert scan (dom (mbs s)) \<and> sm_used s'' = sm_used s + MSGB_SIZE c n)"
proof -
  have "mb_ok s mp m" using assms(1,2) by (simp add: mem_ok_def)
  then have mp: "b_datap m = mp" using assms(5) by (simp add: mb_ok_def)
  obtain D where D: "dbs s mp = Some D" "db_ref D = 1" using mem_ok_db [OF assms(1-3)] mp assms(11) by auto
  show ?thesis using pullupmsg_single [OF assms(1-4) mp assms(5-10) D] assms(12) by (simp add: clean_def)
qed

text \<open>\<open>adjmsg\<close> with a length that is not negative takes exactly that many bytes from the front of a message of one type, over as many blocks as it needs,
  and leaves the rest of the bytes, the links of the message and all other blocks as they are.
\<close>

theorem adjmsg_drops:
  assumes "msg s (Some p) bs" "uniform t s bs" "n \<le> length (msg_bytes s bs)"
  shows "\<exists>s'. adjmsg p (int n) s = Some (True, s') \<and> msg s' (Some p) bs \<and> msg_bytes s' bs = drop n (msg_bytes s bs) \<and>
    smem s' = smem s \<and> dbs s' = dbs s \<and> (\<forall>q. q \<notin> set bs \<longrightarrow> mbs s' q = mbs s q)"
proof -
  have "p \<in> set bs" using assms(1) by (cases bs) auto
  then have "type_of p s = Some t" using assms(2) by (auto simp: uniform_def)
  then show ?thesis using adj_front_drops [OF assms] by (simp add: adjmsg_def)
qed

text \<open>with a negative length \<open>adjmsg\<close> trims nothing. The size of the rest is compared with the length as it was passed, which is below zero: a message of one
  block comes back as it was, with the result that says that bytes were removed.
\<close>

theorem adjmsg_negative_keeps:
  assumes "mbs s p = Some m" "type_of p s = Some t" "b_cont m = None" "0 \<le> b_len m" "len < 0"
  shows "adjmsg p len s = Some (True, s)"
proof -
  have 1: "adj_span t p 0 p s = Some (p, b_len m)" using assms(1,3) by (subst adj_span.simps) simp
  have 2: "adj_back x 0 len s = Some s" for x by (subst adj_back.simps) simp
  have "adj_back (Some p) (b_len m) len s = Some s" using assms(1,4,5) 2 by (subst adj_back.simps) (simp add: deref_def)
  then show ?thesis using assms 1 by (simp add: adjmsg_def)
qed

section \<open>Witnesses\<close>

text \<open>A memory of 1000 bytes, with one message of three bytes at address 1 that begins one byte into its buffer.\<close>

definition str_ex_cfg :: str_cfg where
  "str_ex_cfg = \<lparr>MSGB_SIZE = (\<lambda>n. 64 + n), MBLK_SIZE = 32, sm_max = (\<lambda>_. 1000), DB_TO_DATA = (\<lambda>p. 1000 * p), ST_WORD_S = 4, M_DATA = 0, pcmsg = (\<lambda>t. t > 127),
     datamsg = (\<lambda>t. t = 0), MSGMASK_SYSTEM = {MSGTRIPLE, MSGFREE}\<rparr>"

definition str_junk :: mblk where
  "str_junk = \<lparr>b_next = None, b_prev = None, b_cont = None, b_rptr = 0, b_wptr = 0, b_datap = 0, b_band = 0, b_flag = {}\<rparr>"

definition str_ex0 :: strm where
  "str_ex0 = snd (allocb str_ex_cfg 4 BPRI_LO (Some (1, str_junk)) str_empty)"

definition str_ex :: strm where
  "str_ex = the (set_mb 1 (\<lambda>m. m\<lparr>b_rptr := 1001, b_wptr := 1004\<rparr>) str_ex0)"

definition str_ex_m :: mblk where
  "str_ex_m = str_junk\<lparr>b_rptr := 1001, b_wptr := 1004, b_datap := 1, b_flag := {MSGTRIPLE}\<rparr>"

lemma str_ex0_eq: "allocb str_ex_cfg 4 BPRI_LO (Some (1, str_junk)) str_empty = (Some 1, str_ex0)"
  by (simp add: str_ex0_def allocb_def MSGB_ALLOC_def STRMEM_ALLOC_def str_ex_cfg_def str_empty_def Let_def)

lemma str_ex_eq: "str_ex = \<lparr>mbs = [1 \<mapsto> str_ex_m], dbs = [1 \<mapsto> \<lparr>db_base = 1000, db_lim = 1004, db_type = 0, db_ref = 1, db_frtnp = None\<rparr>],
    sizes = (\<lambda>_. 0)(1 := 68), smem = (\<lambda>_. 0), sm_used = 68, frtns = []\<rparr>"
  by (simp add: str_ex_def str_ex0_def set_mb_def allocb_def MSGB_ALLOC_def STRMEM_ALLOC_def str_ex_cfg_def str_empty_def str_ex_m_def str_junk_def Let_def)

lemma str_ex_reach: "(str_step str_ex_cfg)\<^sup>*\<^sup>* str_empty str_ex"
proof -
  have 1: "str_step str_ex_cfg str_empty str_ex0" by (rule step_alloc [OF _ str_ex0_eq]) (simp add: fresh_def str_empty_def)
  have "1 \<in> live str_ex0" "set_mb 1 (\<lambda>m. m\<lparr>b_rptr := 1001, b_wptr := 1004\<rparr>) str_ex0 = Some str_ex"
    by (simp_all add: live_def str_ex_def str_ex0_def set_mb_def allocb_def MSGB_ALLOC_def STRMEM_ALLOC_def str_ex_cfg_def str_empty_def Let_def)
  then have "str_step str_ex_cfg str_ex0 str_ex" by (intro step_block) (simp_all add: same_data_def)
  then show ?thesis using 1 by simp
qed

lemma str_ex_at: "mbs str_ex 1 = Some str_ex_m" "live str_ex = {1}" "refs str_ex 1 = {1}" "MSGFREE \<notin> b_flag str_ex_m" "MSGTRIPLE \<in> b_flag str_ex_m"
  "b_cont str_ex_m = None" "b_len str_ex_m = int 3" "b_rptr str_ex_m mod 4 \<noteq> 0"
  by (auto simp: str_ex_eq str_ex_m_def live_def refs_def b_len_def str_junk_def)

lemma str_ex_room: "room str_ex_cfg 3 2 3 str_ex"
  by (simp add: room_def str_ex_eq str_ex_cfg_def)

theorem str_memory_witness:
  "live str_ex = {1} \<and> sm_used str_ex \<le> 1000 \<and> (\<exists>d s'. freeb str_ex_cfg 1 str_ex = Some s' \<and> live s' = {} \<and> frtns s' = frtns str_ex @ called d)"
  using str_memory [OF str_ex_reach, of 1000] str_ex_at(1,2) by (auto simp: str_ex_cfg_def)

theorem msgpullup_doubles_witness:
  "b_len (the (mbs str_ex 1)) = 3 \<and> (\<exists>s'. msgpullup str_ex_cfg 1 (-1) [Some (2, str_junk), Some (3, str_junk)] str_ex = Some (Some 2, s') \<and>
     msg_bytes s' [2, 3] = bytes_of str_ex 1 @ bytes_of str_ex 1)"
proof -
  have "{DB_TO_DATA str_ex_cfg 2..<DB_TO_DATA str_ex_cfg 2 + 3} \<inter> {b_rptr str_ex_m..<b_wptr str_ex_m} = {}"
    by (auto simp: str_ex_cfg_def str_ex_m_def)
  then show ?thesis
    using msgpullup_doubles [OF reach_ok [OF str_ex_reach] str_ex_at(1,4,6,7) _ _ str_ex_room, of str_junk str_junk] str_ex_at by auto
qed

theorem pullupmsg_breaks_memory_witness:
  "\<exists>s'. pullupmsg str_ex_cfg 1 (-1) [Some (2, str_junk), Some (3, str_junk)] str_ex = Some (True, s') \<and> freemsg str_ex_cfg 1 s' = None"
  using pullupmsg_breaks_memory [OF reach_ok [OF str_ex_reach] str_ex_at(1,4,6,5,8,7) _ _ str_ex_room str_ex_at(3), of str_junk str_junk]
  by (auto simp: clean_def str_junk_def str_ex_eq str_ex_cfg_def ST_BYTE2WORD_def)

lemma str_ex_bytes: "msg str_ex (Some 1) [1]" "uniform 0 str_ex [1]" "length (msg_bytes str_ex [1]) = 3"
  by (simp_all add: str_ex_eq str_ex_m_def str_junk_def uniform_def type_of_def b_len_def msg_bytes_def bytes_of_def)

theorem adjmsg_drops_witness:
  "\<exists>s'. adjmsg 1 (int 2) str_ex = Some (True, s') \<and> msg_bytes s' [1] = drop 2 (msg_bytes str_ex [1]) \<and> length (msg_bytes s' [1]) = 1"
  using adjmsg_drops [OF str_ex_bytes(1,2), of 2] str_ex_bytes(3) by auto

theorem adjmsg_negative_keeps_witness: "adjmsg 1 (-2) str_ex = Some (True, str_ex)"
  by (rule adjmsg_negative_keeps [where m = str_ex_m and t = 0])
    (simp_all add: str_ex_eq str_ex_m_def str_junk_def type_of_def b_len_def)

end
