(* ===== verification/StrQueue.thy ===== *)
theory StrQueue
  imports StrMsg
begin

text \<open>
  STREAMS queues: the queues of messages with their flow control in \<open>conf/streams/src/strmlib.c\<close>, on the messages of \<open>StrMsg\<close>, and the
  scheduler in \<open>strmisc.c\<close> that runs their service procedures. A result \<^const>\<open>None\<close> is a fault, or a loop that does not end. One thing happens at a
  time, so freezing a queue has no effect and is left out; so are the statistics of \<open>qi_mstat\<close>. Sizes are numbers without a bound.
\<close>

section \<open>State\<close>

datatype qflag = QENAB | QWANTR | QWANTW | QFULL | QREADR | QNOENB | QBACK | QPROCSOFF | QDRAIN | QSRVACTIVE

text \<open>\<open>qi_srvp\<close> and \<open>qi_putp\<close> say whether the queue has these procedures.\<close>

record queue =
  q_first :: ptr
  q_last :: ptr
  q_next :: ptr
  q_link :: ptr
  q_bandp :: ptr
  q_count :: int
  q_hiwat :: int
  q_lowat :: int
  q_maxpsz :: int
  q_minpsz :: int
  q_flag :: "qflag set"
  q_nband :: nat
  q_lastband :: nat
  q_active :: nat
  qi_srvp :: bool
  qi_putp :: bool

datatype bflag = QB_FIRST | QB_FULL | QB_WANTW

record qband =
  qb_next :: ptr
  qb_first :: ptr
  qb_last :: ptr
  qb_count :: int
  qb_hiwat :: int
  qb_lowat :: int
  qb_flag :: "bflag set"

datatype qevent = Run_strsched | Proc_broadcast | Shead_broadcast addr | Warning | Service addr

text \<open>The queues, the bands, and the list of queues that are scheduled. \<open>q_log\<close> are the calls to other parts of the kernel.\<close>

record strq =
  sm :: strm
  qs :: "queue store"
  bands :: "qband store"
  ss_head :: ptr
  ss_tail :: ptr
  dg_run_strsched :: bool
  q_log :: "qevent list"

text \<open>\<open>OTHERQ\<close> is the other queue of a pair; its definition is in a header outside the repository.\<close>

record q_cfg =
  scfg :: str_cfg
  OTHERQ :: "addr \<Rightarrow> addr"

definition set_q :: "addr \<Rightarrow> (queue \<Rightarrow> queue) \<Rightarrow> strq \<Rightarrow> strq option" where
  "set_q q f s = do { x \<leftarrow> qs s q; Some (s\<lparr>qs := (qs s)(q \<mapsto> f x)\<rparr>) }"

definition set_band :: "addr \<Rightarrow> (qband \<Rightarrow> qband) \<Rightarrow> strq \<Rightarrow> strq option" where
  "set_band b f s = do { x \<leftarrow> bands s b; Some (s\<lparr>bands := (bands s)(b \<mapsto> f x)\<rparr>) }"

definition set_msg :: "addr \<Rightarrow> (mblk \<Rightarrow> mblk) \<Rightarrow> strq \<Rightarrow> strq option" where
  "set_msg p f s = do { m \<leftarrow> set_mb p f (sm s); Some (s\<lparr>sm := m\<rparr>) }"

definition q_event :: "qevent \<Rightarrow> strq \<Rightarrow> strq" where
  "q_event e s = s\<lparr>q_log := q_log s @ [e]\<rparr>"

definition IS_PRI_MSG :: "q_cfg \<Rightarrow> addr \<Rightarrow> strq \<Rightarrow> bool option" where
  "IS_PRI_MSG c mp s = map_option (pcmsg (scfg c)) (type_of mp (sm s))"

definition set_flag :: "qflag \<Rightarrow> queue \<Rightarrow> queue" where
  "set_flag f = q_flag_update (insert f)"

definition clear_flag :: "qflag \<Rightarrow> queue \<Rightarrow> queue" where
  "clear_flag f = q_flag_update (\<lambda>fs. fs - {f})"

section \<open>The scheduler\<close>

definition QSCHED_SCHEDULE :: "addr \<Rightarrow> strq \<Rightarrow> strq option" where
  "QSCHED_SCHEDULE q s = do {
     s \<leftarrow> set_q q (q_link_update (\<lambda>_. None)) s;
     s \<leftarrow> (case ss_tail s of None \<Rightarrow> Some (s\<lparr>ss_head := Some q\<rparr>) | Some t \<Rightarrow> set_q t (q_link_update (\<lambda>_. Some q)) s);
     Some (s\<lparr>ss_tail := Some q\<rparr>)
   }"

definition QSCHED_GETFIRST :: "strq \<Rightarrow> (ptr \<times> strq) option" where
  "QSCHED_GETFIRST s = (case ss_head s of
     None \<Rightarrow> Some (None, s)
   | Some q \<Rightarrow> do {
       x \<leftarrow> qs s q;
       Some (Some q, s\<lparr>ss_head := q_link x, ss_tail := (if q_link x = None then None else ss_tail s)\<rparr>)
     })"

partial_function (option) unschedule_loop :: "addr \<Rightarrow> ptr \<Rightarrow> ptr \<Rightarrow> strq \<Rightarrow> strq option" where
  "unschedule_loop q scan prev s = (case scan of
     None \<Rightarrow> Some s
   | Some p \<Rightarrow> do {
       x \<leftarrow> qs s p;
       if p = q then do {
         s \<leftarrow> (case prev of None \<Rightarrow> Some (s\<lparr>ss_head := q_next x\<rparr>) | Some r \<Rightarrow> set_q r (q_link_update (\<lambda>_. q_next x)) s);
         Some (if ss_tail s = Some q then s\<lparr>ss_tail := prev\<rparr> else s)
       }
       else unschedule_loop q (q_link x) (Some p) s
     })"

definition QSCHED_UNSCHEDULE :: "addr \<Rightarrow> strq \<Rightarrow> strq option" where
  "QSCHED_UNSCHEDULE q s = unschedule_loop q (ss_head s) None s"

definition QUEUE_TRYSCHED :: "addr \<Rightarrow> strq \<Rightarrow> (bool \<times> strq) option" where
  "QUEUE_TRYSCHED q s = do {
     x \<leftarrow> qs s q;
     if \<not> qi_srvp x \<or> QPROCSOFF \<in> q_flag x then Some (False, s)
     else if QENAB \<in> q_flag x then Some (True, s)
     else do {
       s \<leftarrow> QSCHED_SCHEDULE q s;
       s \<leftarrow> set_q q (set_flag QENAB) s;
       Some (True, if dg_run_strsched s then s else q_event Run_strsched (s\<lparr>dg_run_strsched := True\<rparr>))
     }
   }"

text \<open>The service procedures are a parameter; each call of one is noted in the log.\<close>

partial_function (option) run_loop :: "(addr \<Rightarrow> strq \<Rightarrow> strq option) \<Rightarrow> strq \<Rightarrow> strq option" where
  "run_loop srv s = do {
     (r, s) \<leftarrow> QSCHED_GETFIRST s;
     (case r of
        None \<Rightarrow> Some s
      | Some q \<Rightarrow> do {
          x \<leftarrow> qs s q;
          if QSRVACTIVE \<in> q_flag x then do { s \<leftarrow> QSCHED_SCHEDULE q s; run_loop srv s }
          else do {
            s \<leftarrow> set_q q (\<lambda>x. set_flag QSRVACTIVE (clear_flag QENAB x)) s;
            if QPROCSOFF \<in> q_flag x then run_loop srv s
            else do {
              s \<leftarrow> set_q q (q_active_update Suc) s;
              s \<leftarrow> srv q (q_event (Service q) s);
              s \<leftarrow> set_q q (\<lambda>x. (clear_flag QSRVACTIVE x)\<lparr>q_active := q_active x - 1\<rparr>) s;
              x \<leftarrow> qs s q;
              run_loop srv (if q_active x = 0 \<and> QPROCSOFF \<in> q_flag x then q_event Proc_broadcast s else s)
            }
          }
        })
   }"



definition noenable :: "addr \<Rightarrow> strq \<Rightarrow> strq option" where
  "noenable q s = set_q q (set_flag QNOENB) s"

definition enableok :: "addr \<Rightarrow> strq \<Rightarrow> strq option" where
  "enableok q s = set_q q (clear_flag QNOENB) s"

section \<open>Along the stream\<close>

text \<open>The next queue whose procedures are on.\<close>

partial_function (option) QUEUE_NEXT :: "addr \<Rightarrow> strq \<Rightarrow> ptr option" where
  "QUEUE_NEXT q s = do {
     x \<leftarrow> qs s q;
     (case q_next x of
        None \<Rightarrow> Some None
      | Some n \<Rightarrow> do { y \<leftarrow> qs s n; if QPROCSOFF \<in> q_flag y then QUEUE_NEXT n s else Some (Some n) })
   }"

partial_function (option) backenab_loop :: "q_cfg \<Rightarrow> addr \<Rightarrow> strq \<Rightarrow> strq option" where
  "backenab_loop c other s = do {
     r \<leftarrow> QUEUE_NEXT other s;
     (case r of
        None \<Rightarrow> Some s
      | Some other \<Rightarrow> do {
          s \<leftarrow> set_q other (q_active_update Suc) s;
          (done, s) \<leftarrow> QUEUE_TRYSCHED (OTHERQ c other) s;
          s \<leftarrow> set_q other (q_active_update (\<lambda>n. n - 1)) s;
          x \<leftarrow> qs s (OTHERQ c other);
          let s = (if QPROCSOFF \<in> q_flag x \<and> q_active x = 0 then q_event Proc_broadcast s else s)
          in if done then Some s else backenab_loop c other s
        })
   }"

definition QUEUE_BACKENAB :: "q_cfg \<Rightarrow> addr \<Rightarrow> strq \<Rightarrow> strq option" where
  "QUEUE_BACKENAB c q s = backenab_loop c (OTHERQ c q) s"

text \<open>The end that \<open>getq\<close>, \<open>flushq\<close>, \<open>flushband\<close> and \<open>QBAND_SETOPT\<close> share.\<close>

definition back_end :: "q_cfg \<Rightarrow> addr \<Rightarrow> strq \<Rightarrow> strq option" where
  "back_end c q s = do {
     x \<leftarrow> qs s q;
     if QBACK \<in> q_flag x then do { s \<leftarrow> set_q q (clear_flag QBACK) s; QUEUE_BACKENAB c q s } else Some s
   }"

text \<open>The stream head that waits for the queue to run empty is woken.\<close>

definition QUEUE_DRAINED :: "addr \<Rightarrow> strq \<Rightarrow> strq option" where
  "QUEUE_DRAINED q s = do {
     x \<leftarrow> qs s q;
     if QDRAIN \<in> q_flag x then set_q q (clear_flag QDRAIN) (q_event (Shead_broadcast q) s) else Some s
   }"

section \<open>Bands\<close>

primrec band_walk :: "nat \<Rightarrow> ptr \<Rightarrow> strq \<Rightarrow> ptr option" where
  "band_walk 0 b s = Some b"
| "band_walk (Suc n) b s = (case b of None \<Rightarrow> Some None | Some p \<Rightarrow> do { x \<leftarrow> bands s p; band_walk n (qb_next x) s })"

text \<open>The count is an unsigned character.\<close>

definition QUEUE_BAND :: "addr \<Rightarrow> nat \<Rightarrow> strq \<Rightarrow> ptr option" where
  "QUEUE_BAND q pri s = do { x \<leftarrow> qs s q; band_walk (if pri = 0 then 255 else pri - 1) (q_bandp x) s }"

partial_function (option) prev_walk :: "addr \<Rightarrow> addr \<Rightarrow> strq \<Rightarrow> addr option" where
  "prev_walk scan b s = do {
     x \<leftarrow> bands s scan;
     if qb_next x = Some b then Some scan else (case qb_next x of None \<Rightarrow> None | Some scan \<Rightarrow> prev_walk scan b s)
   }"

definition QBAND_PREV :: "addr \<Rightarrow> addr \<Rightarrow> strq \<Rightarrow> ptr option" where
  "QBAND_PREV q b s = do {
     x \<leftarrow> qs s q;
     if q_bandp x = Some b then Some None
     else (case q_bandp x of None \<Rightarrow> None | Some scan \<Rightarrow> map_option Some (prev_walk scan b s))
   }"

text \<open>
  The bands are an array of zeroes at \<open>mem\<close>, or \<open>mem\<close> is NULL. This is the variant that keeps them in a list; the one for an array does the same as long
  as \<open>q_bandp\<close> is NULL.
\<close>

definition zero_bands :: "addr \<Rightarrow> nat \<Rightarrow> strq \<Rightarrow> strq" where
  "zero_bands a n s = s\<lparr>bands := (\<lambda>p. if a \<le> p \<and> p < a + n
     then Some \<lparr>qb_next = (if p + 1 < a + n then Some (p + 1) else None), qb_first = None, qb_last = None, qb_count = 0, qb_hiwat = 0, qb_lowat = 0,
       qb_flag = (if p = a then {QB_FIRST} else {})\<rparr>
     else bands s p)\<rparr>"

definition QBAND_ALLOC :: "addr \<Rightarrow> nat \<Rightarrow> ptr \<Rightarrow> strq \<Rightarrow> (ptr \<times> strq) option" where
  "QBAND_ALLOC q pri mem s = do {
     x \<leftarrow> qs s q;
     (case mem of
        None \<Rightarrow> Some (None, s)
      | Some a \<Rightarrow> do {
          s \<leftarrow> Some (zero_bands a (pri - q_nband x) s);
          s \<leftarrow> (if q_nband x > 0 then do {
                 l \<leftarrow> QUEUE_BAND q (q_nband x) s;
                 (case l of None \<Rightarrow> None | Some l \<Rightarrow> set_band l (qb_next_update (\<lambda>_. Some a)) s)
               } else Some s);
          Some (Some (a + (pri - 1 - q_nband x)), s)
        })
   }"

text \<open>The band that \<open>putq\<close>, \<open>putbq\<close> and others take for a message: none for band 0, NULL if there is no memory.\<close>

definition find_band :: "addr \<Rightarrow> nat \<Rightarrow> ptr \<Rightarrow> strq \<Rightarrow> (ptr \<times> strq) option" where
  "find_band q pri mem s = do {
     b \<leftarrow> QUEUE_BAND q pri s;
     (case b of Some b \<Rightarrow> Some (Some b, s) | None \<Rightarrow> QBAND_ALLOC q pri mem s)
   }"

partial_function (option) fill_bands :: "addr \<Rightarrow> addr \<Rightarrow> strq \<Rightarrow> strq option" where
  "fill_bands q b s = do {
     s \<leftarrow> set_band b (qb_flag_update (insert QB_FULL)) s;
     r \<leftarrow> QBAND_PREV q b s;
     (case r of None \<Rightarrow> Some s | Some b \<Rightarrow> fill_bands q b s)
   }"

definition QBAND_INCREASE :: "addr \<Rightarrow> addr \<Rightarrow> int \<Rightarrow> strq \<Rightarrow> strq option" where
  "QBAND_INCREASE q b adjust s = do {
     s \<leftarrow> set_band b (qb_count_update (\<lambda>n. n + adjust)) s;
     x \<leftarrow> bands s b;
     if QB_FULL \<in> qb_flag x \<or> qb_count x < qb_hiwat x then Some s
     else do {
       s \<leftarrow> fill_bands q b s;
       set_q q (\<lambda>x. if q_count x \<ge> q_hiwat x then set_flag QFULL x else x) s
     }
   }"

text \<open>What a band that is no longer full does to the queue, when it is the first one.\<close>

definition unfull :: "queue \<Rightarrow> queue" where
  "unfull x = (let x = clear_flag QFULL x in if QWANTW \<in> q_flag x then set_flag QBACK (clear_flag QWANTW x) else x)"

partial_function (option) drain_bands :: "addr \<Rightarrow> addr \<Rightarrow> strq \<Rightarrow> strq option" where
  "drain_bands q b s = do {
     x \<leftarrow> bands s b;
     s \<leftarrow> set_band b (qb_flag_update (\<lambda>fs. fs - {QB_FULL, QB_WANTW})) s;
     s \<leftarrow> (if QB_WANTW \<in> qb_flag x then set_q q (set_flag QBACK) s else Some s);
     r \<leftarrow> QBAND_PREV q b s;
     (case r of
        None \<Rightarrow> set_q q (\<lambda>x. if q_count x \<le> q_lowat x then unfull x else x) s
      | Some b \<Rightarrow> do { x \<leftarrow> bands s b; if qb_count x \<le> qb_lowat x then drain_bands q b s else Some s })
   }"

definition QBAND_REDUCE :: "addr \<Rightarrow> addr \<Rightarrow> int \<Rightarrow> strq \<Rightarrow> strq option" where
  "QBAND_REDUCE q b adjust s = do {
     s \<leftarrow> set_band b (qb_count_update (\<lambda>n. n - adjust)) s;
     x \<leftarrow> bands s b;
     nextfull \<leftarrow> (case qb_next x of None \<Rightarrow> Some False | Some n \<Rightarrow> map_option (\<lambda>y. QB_FULL \<in> qb_flag y) (bands s n));
     if QB_FULL \<in> qb_flag x \<and> qb_count x \<le> qb_lowat x \<and> \<not> nextfull then drain_bands q b s else Some s
   }"

definition QBAND_DEQUEUE :: "addr \<Rightarrow> addr \<Rightarrow> strq \<Rightarrow> strq option" where
  "QBAND_DEQUEUE b mp s = do {
     x \<leftarrow> bands s b;
     m \<leftarrow> mbs (sm s) mp;
     if qb_first x = Some mp then
       (if qb_last x = Some mp then set_band b (\<lambda>x. x\<lparr>qb_first := None, qb_last := None\<rparr>) s
        else set_band b (qb_first_update (\<lambda>_. b_next m)) s)
     else if qb_last x = Some mp then set_band b (qb_last_update (\<lambda>_. b_prev m)) s
     else Some s
   }"

section \<open>Flow control\<close>

definition QUEUE_REDUCE :: "addr \<Rightarrow> int \<Rightarrow> strq \<Rightarrow> strq option" where
  "QUEUE_REDUCE q adjust s = set_q q (\<lambda>x.
     let x = x\<lparr>q_count := q_count x - adjust\<rparr> in if QFULL \<in> q_flag x \<and> q_count x \<le> q_lowat x then unfull x else x) s"

definition QBAND_CANPUT :: "addr \<Rightarrow> nat \<Rightarrow> strq \<Rightarrow> (bool \<times> strq) option" where
  "QBAND_CANPUT q pri s =
     (if pri > 0 then do {
        b \<leftarrow> QUEUE_BAND q pri s;
        (case b of
           None \<Rightarrow> Some (True, s)
         | Some b \<Rightarrow> do {
             x \<leftarrow> bands s b;
             if QB_FULL \<in> qb_flag x then do {
               s \<leftarrow> set_band b (qb_flag_update (insert QB_WANTW)) s;
               s \<leftarrow> set_q q (set_flag QWANTW) s;
               Some (False, s)
             } else Some (True, s)
           })
      }
      else do {
        x \<leftarrow> qs s q;
        if QFULL \<in> q_flag x then do { s \<leftarrow> set_q q (set_flag QWANTW) s; Some (False, s) } else Some (True, s)
      })"

partial_function (option) srvnext_loop :: "nat \<Rightarrow> addr \<Rightarrow> strq \<Rightarrow> (bool \<times> strq) option" where
  "srvnext_loop pri q s = do {
     r \<leftarrow> QUEUE_NEXT q s;
     (case r of
        None \<Rightarrow> Some (True, s)
      | Some q \<Rightarrow> do { x \<leftarrow> qs s q; if qi_srvp x then QBAND_CANPUT q pri s else srvnext_loop pri q s })
   }"

definition QBAND_SRVNEXT :: "addr \<Rightarrow> nat \<Rightarrow> strq \<Rightarrow> (bool \<times> strq) option" where
  "QBAND_SRVNEXT q pri s = srvnext_loop pri q s"

definition bcanput :: "addr \<Rightarrow> nat \<Rightarrow> strq \<Rightarrow> (bool \<times> strq) option" where
  "bcanput q pri s = QBAND_CANPUT q pri s"

definition bcanputnext :: "addr \<Rightarrow> nat \<Rightarrow> strq \<Rightarrow> (bool \<times> strq) option" where
  "bcanputnext q pri s = QBAND_SRVNEXT q pri s"

definition canput :: "addr \<Rightarrow> strq \<Rightarrow> (bool \<times> strq) option" where
  "canput q s = do {
     x \<leftarrow> qs s q;
     if QFULL \<in> q_flag x then do { s \<leftarrow> set_q q (set_flag QWANTW) s; Some (False, s) } else Some (True, s)
   }"

definition canputnext :: "addr \<Rightarrow> strq \<Rightarrow> (bool \<times> strq) option" where
  "canputnext q s = QBAND_SRVNEXT q 0 s"

text \<open>The queue is scheduled if it asked for it or if the band is above the last one read; then the message is counted. The result is True for a band.\<close>

definition QUEUE_CHECK_SCHED :: "addr \<Rightarrow> addr \<Rightarrow> ptr \<Rightarrow> strq \<Rightarrow> (bool \<times> strq) option" where
  "QUEUE_CHECK_SCHED q mp b s = do {
     x \<leftarrow> qs s q;
     m \<leftarrow> mbs (sm s) mp;
     s \<leftarrow> (if QNOENB \<notin> q_flag x \<and> (QWANTR \<in> q_flag x \<or> q_lastband x < b_band m) then do {
            s \<leftarrow> set_q q (q_lastband_update (\<lambda>_. b_band m)) s;
            map_option snd (QUEUE_TRYSCHED q s)
          } else Some s);
     n \<leftarrow> MSG_SIZE mp (sm s);
     if b_band m > 0 then (case b of None \<Rightarrow> None | Some b \<Rightarrow> do { s \<leftarrow> QBAND_INCREASE q b n s; Some (True, s) })
     else do {
       s \<leftarrow> set_q q (\<lambda>x. let x = x\<lparr>q_count := q_count x + n\<rparr> in if q_count x > q_hiwat x then set_flag QFULL x else x) s;
       Some (False, s)
     }
   }"

section \<open>Messages of a queue\<close>

text \<open>The writes that link \<open>mp\<close> in before \<open>scan\<close>, or at the end, and those that take it out.\<close>

definition link_before :: "addr \<Rightarrow> addr \<Rightarrow> ptr \<Rightarrow> strq \<Rightarrow> strq option" where
  "link_before q mp scan s = do {
     x \<leftarrow> qs s q;
     prev \<leftarrow> (case scan of None \<Rightarrow> Some (q_last x) | Some n \<Rightarrow> map_option b_prev (mbs (sm s) n));
     s \<leftarrow> set_msg mp (\<lambda>m. m\<lparr>b_next := scan, b_prev := prev\<rparr>) s;
     s \<leftarrow> (case prev of None \<Rightarrow> set_q q (q_first_update (\<lambda>_. Some mp)) s | Some p \<Rightarrow> set_msg p (b_next_update (\<lambda>_. Some mp)) s);
     (case scan of None \<Rightarrow> set_q q (q_last_update (\<lambda>_. Some mp)) s | Some n \<Rightarrow> set_msg n (b_prev_update (\<lambda>_. Some mp)) s)
   }"

definition link_out :: "addr \<Rightarrow> addr \<Rightarrow> strq \<Rightarrow> strq option" where
  "link_out q mp s = do {
     m \<leftarrow> mbs (sm s) mp;
     s \<leftarrow> (case b_prev m of None \<Rightarrow> set_q q (q_first_update (\<lambda>_. b_next m)) s | Some p \<Rightarrow> set_msg p (b_next_update (\<lambda>_. b_next m)) s);
     (case b_next m of None \<Rightarrow> set_q q (q_last_update (\<lambda>_. b_prev m)) s | Some n \<Rightarrow> set_msg n (b_prev_update (\<lambda>_. b_prev m)) s)
   }"

partial_function (option) skip_pri :: "q_cfg \<Rightarrow> ptr \<Rightarrow> strq \<Rightarrow> ptr option" where
  "skip_pri c scan s = (case scan of
     None \<Rightarrow> Some None
   | Some p \<Rightarrow> do { pri \<leftarrow> IS_PRI_MSG c p s; if pri then do { m \<leftarrow> mbs (sm s) p; skip_pri c (b_next m) s } else Some scan })"

partial_function (option) skip_band :: "nat \<Rightarrow> ptr \<Rightarrow> strq \<Rightarrow> ptr option" where
  "skip_band band scan s = (case scan of
     None \<Rightarrow> Some None
   | Some p \<Rightarrow> do { m \<leftarrow> mbs (sm s) p; if b_band m > band then skip_band band (b_next m) s else Some scan })"

definition QUEUE_PLACE_MSG :: "q_cfg \<Rightarrow> addr \<Rightarrow> addr \<Rightarrow> nat \<Rightarrow> strq \<Rightarrow> strq option" where
  "QUEUE_PLACE_MSG c q mp band s = do {
     x \<leftarrow> qs s q;
     scan \<leftarrow> skip_pri c (q_first x) s;
     scan \<leftarrow> skip_band band scan s;
     link_before q mp scan s
   }"

text \<open>A message of a band that has messages goes before their first one, in \<open>putq\<close> and \<open>putbq\<close> alike; False says that the band has none.\<close>

definition put_band :: "addr \<Rightarrow> addr \<Rightarrow> addr \<Rightarrow> strq \<Rightarrow> (bool \<times> strq) option" where
  "put_band q mp b s = do {
     y \<leftarrow> bands s b;
     (case qb_first y of
        None \<Rightarrow> do { s \<leftarrow> set_band b (\<lambda>y. y\<lparr>qb_first := Some mp, qb_last := Some mp\<rparr>) s; Some (False, s) }
      | Some f \<Rightarrow> do { s \<leftarrow> link_before q mp (Some f) s; s \<leftarrow> set_band b (qb_first_update (\<lambda>_. Some mp)) s; Some (True, s) })
   }"

text \<open>The band of the place is an unsigned character, so for a priority message it is 255.\<close>

definition putq :: "q_cfg \<Rightarrow> addr \<Rightarrow> addr \<Rightarrow> ptr \<Rightarrow> strq \<Rightarrow> (bool \<times> strq) option" where
  "putq c q mp mem s = do {
     pri \<leftarrow> IS_PRI_MSG c mp s;
     if pri then do {
       s \<leftarrow> set_msg mp (b_band_update (\<lambda>_. 0)) s;
       (r, s) \<leftarrow> QUEUE_TRYSCHED q s;
       s \<leftarrow> QUEUE_PLACE_MSG c q mp 255 s;
       Some (True, s)
     } else do {
       m \<leftarrow> mbs (sm s) mp;
       (b, s) \<leftarrow> (if b_band m > 0 then find_band q (b_band m) mem s else Some (None, s));
       if b_band m > 0 \<and> b = None then Some (False, s)
       else do {
         (banded, s) \<leftarrow> QUEUE_CHECK_SCHED q mp b s;
         if banded then do {
           (placed, s) \<leftarrow> put_band q mp (the b) s;
           if placed then Some (True, s) else do { s \<leftarrow> QUEUE_PLACE_MSG c q mp (b_band m - 1) s; Some (True, s) }
         } else do { s \<leftarrow> link_before q mp None s; Some (True, s) }
       }
     }
   }"

text \<open>The assertion that the message is not of high priority is left out: the first branch is what a kernel without assertions does with one.\<close>

definition putbq :: "q_cfg \<Rightarrow> addr \<Rightarrow> addr \<Rightarrow> ptr \<Rightarrow> strq \<Rightarrow> (bool \<times> strq) option" where
  "putbq c q mp mem s = do {
     pri \<leftarrow> IS_PRI_MSG c mp s;
     if pri then do {
       x \<leftarrow> qs s q;
       s \<leftarrow> set_msg mp (b_next_update (\<lambda>_. q_first x)) s;
       s \<leftarrow> (case q_first x of None \<Rightarrow> set_q q (q_last_update (\<lambda>_. Some mp)) s | Some f \<Rightarrow> set_msg f (b_prev_update (\<lambda>_. Some mp)) s);
       s \<leftarrow> set_msg mp (\<lambda>m. m\<lparr>b_prev := None, b_band := 0\<rparr>) s;
       s \<leftarrow> set_q q (q_first_update (\<lambda>_. Some mp)) s;
       (r, s) \<leftarrow> QUEUE_TRYSCHED q s;
       Some (True, s)
     } else do {
       m \<leftarrow> mbs (sm s) mp;
       (b, s) \<leftarrow> (if b_band m > 0 then find_band q (b_band m) mem s else Some (None, s));
       if b_band m > 0 \<and> b = None then Some (False, s)
       else do {
         (banded, s) \<leftarrow> QUEUE_CHECK_SCHED q mp b s;
         (placed, s) \<leftarrow> (if banded then put_band q mp (the b) s else Some (False, s));
         if placed then Some (True, s) else do { s \<leftarrow> QUEUE_PLACE_MSG c q mp (b_band m) s; Some (True, s) }
       }
     }
   }"

text \<open>What a message that is taken off the queue does to the flow control.\<close>

definition msg_leaves :: "q_cfg \<Rightarrow> addr \<Rightarrow> addr \<Rightarrow> strq \<Rightarrow> strq option" where
  "msg_leaves c q mp s = do {
     pri \<leftarrow> IS_PRI_MSG c mp s;
     if pri then Some s
     else do {
       m \<leftarrow> mbs (sm s) mp;
       n \<leftarrow> MSG_SIZE mp (sm s);
       if b_band m > 0 then do {
         b \<leftarrow> QUEUE_BAND q (b_band m) s;
         (case b of None \<Rightarrow> None | Some b \<Rightarrow> do { s \<leftarrow> QBAND_DEQUEUE b mp s; QBAND_REDUCE q b n s })
       } else QUEUE_REDUCE q n s
     }
   }"

text \<open>The first message is taken off.\<close>

definition take_first :: "addr \<Rightarrow> mblk \<Rightarrow> strq \<Rightarrow> strq option" where
  "take_first q m s = do {
     s \<leftarrow> set_q q (q_first_update (\<lambda>_. b_next m)) s;
     s \<leftarrow> (case b_next m of
         None \<Rightarrow> do { s \<leftarrow> set_q q (q_last_update (\<lambda>_. None)) s; QUEUE_DRAINED q s }
       | Some n \<Rightarrow> set_msg n (b_prev_update (\<lambda>_. None)) s);
     set_q q (q_lastband_update (\<lambda>_. b_band m)) s
   }"

definition getq :: "q_cfg \<Rightarrow> addr \<Rightarrow> strq \<Rightarrow> (ptr \<times> strq) option" where
  "getq c q s = do {
     x \<leftarrow> qs s q;
     s \<leftarrow> (case q_first x of
         None \<Rightarrow> set_q q (set_flag QWANTR) s
       | Some mp \<Rightarrow> do { m \<leftarrow> mbs (sm s) mp; s \<leftarrow> take_first q m s; msg_leaves c q mp s });
     s \<leftarrow> back_end c q s;
     Some (q_first x, s)
   }"

definition rmvq :: "q_cfg \<Rightarrow> addr \<Rightarrow> addr \<Rightarrow> strq \<Rightarrow> strq option" where
  "rmvq c q mp s = do {
     m \<leftarrow> mbs (sm s) mp;
     s \<leftarrow> (case b_next m of
         None \<Rightarrow> do { s \<leftarrow> set_q q (q_last_update (\<lambda>_. b_prev m)) s; if b_prev m = None then QUEUE_DRAINED q s else Some s }
       | Some n \<Rightarrow> set_msg n (b_prev_update (\<lambda>_. b_prev m)) s);
     s \<leftarrow> (case b_prev m of
         None \<Rightarrow> set_q q (\<lambda>x. x\<lparr>q_first := b_next m, q_lastband := b_band m\<rparr>) s
       | Some p \<Rightarrow> set_msg p (b_next_update (\<lambda>_. b_next m)) s);
     msg_leaves c q mp s
   }"

partial_function (option) size_loop :: "ptr \<Rightarrow> strq \<Rightarrow> nat option" where
  "size_loop scan s = (case scan of None \<Rightarrow> Some 0 | Some p \<Rightarrow> do { m \<leftarrow> mbs (sm s) p; n \<leftarrow> size_loop (b_next m) s; Some (n + 1) })"

definition qsize :: "addr \<Rightarrow> strq \<Rightarrow> nat option" where
  "qsize q s = do { x \<leftarrow> qs s q; size_loop (q_first x) s }"

definition insq :: "q_cfg \<Rightarrow> addr \<Rightarrow> ptr \<Rightarrow> addr \<Rightarrow> ptr \<Rightarrow> strq \<Rightarrow> (bool \<times> strq) option" where
  "insq c q emp nmp mem s = do {
     pri \<leftarrow> IS_PRI_MSG c nmp s;
     x \<leftarrow> qs s q;
     prev \<leftarrow> (case emp of None \<Rightarrow> Some (q_last x) | Some e \<Rightarrow> map_option b_prev (mbs (sm s) e));
     prevpri \<leftarrow> (case prev of None \<Rightarrow> Some True | Some p \<Rightarrow> IS_PRI_MSG c p s);
     prevband \<leftarrow> (case prev of None \<Rightarrow> Some 255 | Some p \<Rightarrow> map_option b_band (mbs (sm s) p));
     if pri then do {
       s \<leftarrow> set_msg nmp (\<lambda>m. m\<lparr>b_band := 0, b_next := emp, b_prev := prev\<rparr>) s;
       if \<not> prevpri then Some (False, s)
       else do { s \<leftarrow> link_before q nmp emp s; (r, s) \<leftarrow> QUEUE_TRYSCHED q s; Some (True, s) }
     } else do {
       m \<leftarrow> mbs (sm s) nmp;
       (b, s) \<leftarrow> (if b_band m > 0 then find_band q (b_band m) mem s else Some (None, s));
       if b_band m > 0 \<and> b = None then Some (False, s)
       else do {
         s \<leftarrow> set_msg nmp (b_next_update (\<lambda>_. emp)) s;
         bad \<leftarrow> (case emp of None \<Rightarrow> Some False
                 | Some e \<Rightarrow> do { em \<leftarrow> mbs (sm s) e; epri \<leftarrow> IS_PRI_MSG c e s; Some (b_band em > b_band m \<or> epri) });
         if bad then Some (False, s)
         else if prevband < b_band m then do { s \<leftarrow> set_msg nmp (b_prev_update (\<lambda>_. prev)) s; Some (False, s) }
         else do {
           s \<leftarrow> link_before q nmp emp s;
           (banded, s) \<leftarrow> QUEUE_CHECK_SCHED q nmp b s;
           s \<leftarrow> (if banded then do {
               s \<leftarrow> set_band (the b) (\<lambda>y. if qb_first y = emp then y\<lparr>qb_first := Some nmp\<rparr> else y) s;
               y \<leftarrow> bands s (the b);
               after \<leftarrow> (case qb_last y of None \<Rightarrow> Some True | Some l \<Rightarrow> map_option (\<lambda>n. b_next n = emp) (mbs (sm s) l));
               (if after then set_band (the b) (qb_last_update (\<lambda>_. Some nmp)) s else Some s)
             } else Some s);
           Some (True, s)
         }
       }
     }
   }"

text \<open>\<open>all\<close> is \<open>FLUSHALL\<close>, else \<open>FLUSHDATA\<close>.\<close>

definition free_msg :: "q_cfg \<Rightarrow> addr \<Rightarrow> strq \<Rightarrow> strq option" where
  "free_msg c mp s = do { m \<leftarrow> freemsg (scfg c) mp (sm s); Some (s\<lparr>sm := m\<rparr>) }"

partial_function (option) flush_loop :: "q_cfg \<Rightarrow> addr \<Rightarrow> bool \<Rightarrow> ptr \<Rightarrow> int \<Rightarrow> strq \<Rightarrow> (int \<times> strq) option" where
  "flush_loop c q all mp flushsize s = (case mp of
     None \<Rightarrow> Some (flushsize, s)
   | Some p \<Rightarrow> do {
       m \<leftarrow> mbs (sm s) p;
       t \<leftarrow> type_of p (sm s);
       if b_band m = 0 \<and> (all \<or> datamsg (scfg c) t) then do {
         s \<leftarrow> link_out q p s;
         n \<leftarrow> (if pcmsg (scfg c) t then Some 0 else MSG_SIZE p (sm s));
         s \<leftarrow> free_msg c p s;
         flush_loop c q all (b_next m) (flushsize + n) s
       }
       else flush_loop c q all (b_next m) flushsize s
     })"

definition flushq :: "q_cfg \<Rightarrow> addr \<Rightarrow> bool \<Rightarrow> strq \<Rightarrow> strq option" where
  "flushq c q all s = do {
     x \<leftarrow> qs s q;
     (n, s) \<leftarrow> flush_loop c q all (q_first x) 0 s;
     s \<leftarrow> QUEUE_REDUCE q n s;
     back_end c q s
   }"

partial_function (option) flushband_loop :: "q_cfg \<Rightarrow> addr \<Rightarrow> addr \<Rightarrow> bool \<Rightarrow> addr \<Rightarrow> int \<Rightarrow> strq \<Rightarrow> (int \<times> strq) option" where
  "flushband_loop c q b all mp flushsize s = do {
     m \<leftarrow> mbs (sm s) mp;
     t \<leftarrow> type_of mp (sm s);
     (n, s) \<leftarrow> (if all \<or> datamsg (scfg c) t then do {
         s \<leftarrow> link_out q mp s;
         s \<leftarrow> QBAND_DEQUEUE b mp s;
         n \<leftarrow> MSG_SIZE mp (sm s);
         s \<leftarrow> free_msg c mp s;
         Some (flushsize + n, s)
       } else Some (flushsize, s));
     y \<leftarrow> bands s b;
     if b_next m = qb_last y then Some (n, s) else (case b_next m of None \<Rightarrow> None | Some mp \<Rightarrow> flushband_loop c q b all mp n s)
   }"

definition flushband :: "q_cfg \<Rightarrow> addr \<Rightarrow> nat \<Rightarrow> bool \<Rightarrow> strq \<Rightarrow> strq option" where
  "flushband c q pri all s =
     (if pri = 0 then flushq c q all s
      else do {
        b \<leftarrow> QUEUE_BAND q pri s;
        s \<leftarrow> (case b of
            None \<Rightarrow> Some s
          | Some b \<Rightarrow> do {
              y \<leftarrow> bands s b;
              (case qb_first y of
                 None \<Rightarrow> Some s
               | Some mp \<Rightarrow> do { (n, s) \<leftarrow> flushband_loop c q b all mp 0 s; QBAND_REDUCE q b n s })
            });
        back_end c q s
      })"

section \<open>Options\<close>

text \<open>Of \<open>struct stroptions\<close>, the members for watermarks; \<^const>\<open>None\<close> for one whose flag is not set.\<close>

record stroptions =
  so_band :: "nat option"
  so_lowat :: "int option"
  so_hiwat :: "int option"

definition QBAND_SETOPT :: "q_cfg \<Rightarrow> addr \<Rightarrow> stroptions \<Rightarrow> ptr \<Rightarrow> strq \<Rightarrow> strq option" where
  "QBAND_SETOPT c q so mem s =
     (if so_lowat so = None \<and> so_hiwat so = None then Some s
      else if so_band so \<noteq> None \<and> the (so_band so) > 0 then do {
        (b, s) \<leftarrow> find_band q (the (so_band so)) mem s;
        (case b of
           None \<Rightarrow> Some s
         | Some b \<Rightarrow> do {
             s \<leftarrow> (case so_lowat so of None \<Rightarrow> Some s | Some v \<Rightarrow> do { s \<leftarrow> set_band b (qb_lowat_update (\<lambda>_. v)) s; QBAND_REDUCE q b 0 s });
             s \<leftarrow> (case so_hiwat so of None \<Rightarrow> Some s | Some v \<Rightarrow> do { s \<leftarrow> set_band b (qb_hiwat_update (\<lambda>_. v)) s; QBAND_INCREASE q b 0 s });
             back_end c q s
           })
      }
      else do {
        s \<leftarrow> (case so_lowat so of None \<Rightarrow> Some s | Some v \<Rightarrow> do { s \<leftarrow> set_q q (q_lowat_update (\<lambda>_. v)) s; QUEUE_REDUCE q 0 s });
        s \<leftarrow> (case so_hiwat so of None \<Rightarrow> Some s | Some v \<Rightarrow> set_q q (\<lambda>x. let x = x\<lparr>q_hiwat := v\<rparr> in if q_count x > v then set_flag QFULL x else x) s);
        back_end c q s
      })"

datatype qfields = QHIWAT | QLOWAT | QMAXPSZ | QMINPSZ | QCOUNT | QFIRST | QLAST | QFLAG

datatype strq_error = SQ_EPERM | SQ_EINVAL | SQ_ENOMEM

definition strqset :: "addr \<Rightarrow> qfields \<Rightarrow> nat \<Rightarrow> int \<Rightarrow> ptr \<Rightarrow> strq \<Rightarrow> (strq_error option \<times> strq) option" where
  "strqset q what pri val mem s =
     (if pri > 0 then
        (case what of
           QHIWAT \<Rightarrow> do { s \<leftarrow> set_q q (q_hiwat_update (\<lambda>_. val)) s; Some (None, s) }
         | QLOWAT \<Rightarrow> do { s \<leftarrow> set_q q (q_lowat_update (\<lambda>_. val)) s; Some (None, s) }
         | QMAXPSZ \<Rightarrow> do { s \<leftarrow> set_q q (q_maxpsz_update (\<lambda>_. val)) s; Some (None, s) }
         | QMINPSZ \<Rightarrow> do { s \<leftarrow> set_q q (q_minpsz_update (\<lambda>_. val)) s; Some (None, s) }
         | _ \<Rightarrow> Some (Some SQ_EPERM, s))
      else do {
        (b, s) \<leftarrow> find_band q pri mem s;
        (case b of
           None \<Rightarrow> Some (Some SQ_ENOMEM, s)
         | Some b \<Rightarrow> (case what of
               QHIWAT \<Rightarrow> do { s \<leftarrow> set_band b (qb_hiwat_update (\<lambda>_. val)) s; Some (None, s) }
             | QLOWAT \<Rightarrow> do { s \<leftarrow> set_band b (qb_lowat_update (\<lambda>_. val)) s; Some (None, s) }
             | QMAXPSZ \<Rightarrow> Some (Some SQ_EINVAL, s)
             | QMINPSZ \<Rightarrow> Some (Some SQ_EINVAL, s)
             | _ \<Rightarrow> Some (Some SQ_EPERM, s)))
      })"

section \<open>Put procedures\<close>

text \<open>The put procedures are a parameter, too.\<close>

definition QUEUE_PUT :: "(addr \<Rightarrow> addr \<Rightarrow> strq \<Rightarrow> strq option) \<Rightarrow> addr \<Rightarrow> addr \<Rightarrow> strq \<Rightarrow> strq option" where
  "QUEUE_PUT putp q mp s = do {
     s \<leftarrow> set_q q (q_active_update Suc) s;
     s \<leftarrow> putp q mp s;
     s \<leftarrow> set_q q (q_active_update (\<lambda>n. n - 1)) s;
     x \<leftarrow> qs s q;
     Some (if QPROCSOFF \<in> q_flag x \<and> q_active x = 0 then q_event Proc_broadcast s else s)
   }"

definition QUEUE_PUTNEXT :: "q_cfg \<Rightarrow> (addr \<Rightarrow> addr \<Rightarrow> strq \<Rightarrow> strq option) \<Rightarrow> addr \<Rightarrow> addr \<Rightarrow> strq \<Rightarrow> strq option" where
  "QUEUE_PUTNEXT c putp q mp s = do {
     r \<leftarrow> QUEUE_NEXT q s;
     (case r of Some q \<Rightarrow> QUEUE_PUT putp q mp s | None \<Rightarrow> free_msg c mp (q_event Warning s))
   }"

definition put_proc :: "(addr \<Rightarrow> addr \<Rightarrow> strq \<Rightarrow> strq option) \<Rightarrow> addr \<Rightarrow> addr \<Rightarrow> strq \<Rightarrow> strq option" where
  "put_proc putp q mp s = do {
     x \<leftarrow> qs s q;
     if (q_active x = 0 \<and> QPROCSOFF \<in> q_flag x) \<or> \<not> qi_putp x then Some (q_event Warning s) else QUEUE_PUT putp q mp s
   }"

definition putnext :: "q_cfg \<Rightarrow> (addr \<Rightarrow> addr \<Rightarrow> strq \<Rightarrow> strq option) \<Rightarrow> addr \<Rightarrow> addr \<Rightarrow> strq \<Rightarrow> strq option" where
  "putnext c putp q mp s = QUEUE_PUTNEXT c putp q mp s"

definition qreply :: "q_cfg \<Rightarrow> (addr \<Rightarrow> addr \<Rightarrow> strq \<Rightarrow> strq option) \<Rightarrow> addr \<Rightarrow> addr \<Rightarrow> strq \<Rightarrow> strq option" where
  "qreply c putp q mp s = QUEUE_PUTNEXT c putp (OTHERQ c q) mp s"

definition SAMESTR :: "addr \<Rightarrow> strq \<Rightarrow> bool option" where
  "SAMESTR q s = do {
     x \<leftarrow> qs s q;
     (case q_next x of None \<Rightarrow> Some False | Some n \<Rightarrow> do { y \<leftarrow> qs s n; Some ((QREADR \<in> q_flag y) = (QREADR \<in> q_flag x)) })
   }"






section \<open>Lists of messages\<close>

text \<open>A doubly linked piece of a list, from \<open>p\<close> with \<open>pv\<close> before it, to \<open>nx\<close> with \<open>l\<close> before that.\<close>

primrec mseg :: "mblk store \<Rightarrow> ptr \<Rightarrow> ptr \<Rightarrow> addr list \<Rightarrow> ptr \<Rightarrow> ptr \<Rightarrow> bool" where
  "mseg h pv p [] nx l \<longleftrightarrow> p = nx \<and> l = pv"
| "mseg h pv p (x # xs) nx l \<longleftrightarrow> p = Some x \<and> (\<exists>m. h x = Some m \<and> b_prev m = pv \<and> mseg h (Some x) (b_next m) xs nx l)"

lemma mseg_append: "mseg h pv p (xs @ ys) nx l \<longleftrightarrow> (\<exists>r k. mseg h pv p xs r k \<and> mseg h k r ys nx l)"
  by (induction xs arbitrary: pv p) auto

lemma mseg_upd [simp]: "a \<notin> set xs \<Longrightarrow> mseg (h(a := v)) pv p xs nx l \<longleftrightarrow> mseg h pv p xs nx l"
  by (induction xs arbitrary: pv p) auto

lemma mseg_dom: "mseg h pv p xs nx l \<Longrightarrow> x \<in> set xs \<Longrightarrow> \<exists>m. h x = Some m"
  by (induction xs arbitrary: pv p) auto

text \<open>Only the links count.\<close>

lemma mseg_cong:
  assumes "\<And>x. x \<in> set xs \<Longrightarrow> map_option (\<lambda>m. (b_next m, b_prev m)) (h' x) = map_option (\<lambda>m. (b_next m, b_prev m)) (h x)"
  shows "mseg h' pv p xs nx l \<longleftrightarrow> mseg h pv p xs nx l"
  using assms
proof (induction xs arbitrary: pv p)
  case (Cons x xs)
  have x: "map_option (\<lambda>m. (b_next m, b_prev m)) (h' x) = map_option (\<lambda>m. (b_next m, b_prev m)) (h x)" using Cons.prems by simp
  have IH: "mseg h' pv p xs nx l \<longleftrightarrow> mseg h pv p xs nx l" for pv p using Cons.IH Cons.prems by simp
  show ?case using x by (cases "h' x"; cases "h x") (auto simp: IH)
qed simp

lemma mseg_next:
  assumes "mseg h pv p (xs @ [y]) nx l" "y \<notin> set xs" "h y = Some m"
  shows "mseg (h(y \<mapsto> m\<lparr>b_next := r\<rparr>)) pv p (xs @ [y]) r (Some y)"
  using assms by (auto simp: mseg_append)

lemma mseg_prev:
  assumes "mseg h pv p (y # ys) nx l" "y \<notin> set ys" "h y = Some m"
  shows "mseg (h(y \<mapsto> m\<lparr>b_prev := k\<rparr>)) k (Some y) (y # ys) nx l" "p = Some y" "b_prev m = pv"
  using assms by auto

lemma mseg_last: "mseg h pv p (xs @ [y]) nx l \<Longrightarrow> l = Some y"
  by (auto simp: mseg_append)

text \<open>Taking the list apart before and behind a place, where the links are about to change.\<close>

lemma mseg_end: "mseg h pv p xs nx l \<Longrightarrow> xs \<noteq> [] \<Longrightarrow> l = Some (last xs)"
  by (induction xs arbitrary: pv p) auto

lemma mseg_start: "mseg h pv p xs nx l \<Longrightarrow> xs \<noteq> [] \<Longrightarrow> p = Some (hd xs)"
  by (cases xs) auto

text \<open>The blocks a message is made of, without the links of queues.\<close>

definition core :: "mblk \<Rightarrow> ptr \<times> nat \<times> nat \<times> addr" where
  "core m = (b_cont m, b_rptr m, b_wptr m, b_datap m)"

definition same_core :: "strm \<Rightarrow> strm \<Rightarrow> bool" where
  "same_core s s' \<longleftrightarrow> dbs s' = dbs s \<and> (\<forall>p. map_option core (mbs s' p) = map_option core (mbs s p))"

lemma same_core_refl [simp]: "same_core s s"
  by (simp add: same_core_def)

lemma same_core_trans: "same_core s t \<Longrightarrow> same_core t u \<Longrightarrow> same_core s u"
  by (simp add: same_core_def)

lemma same_core_at:
  assumes "same_core s s'" "mbs s p = Some m"
  obtains m' where "mbs s' p = Some m'" "core m' = core m"
proof -
  have "map_option core (mbs s' p) = Some (core m)" using assms by (simp add: same_core_def)
  then show thesis using that by auto
qed

lemma same_core_sym: "same_core s s' \<Longrightarrow> same_core s' s"
  by (simp add: same_core_def)

lemma type_of_core: "same_core s s' \<Longrightarrow> type_of p s' = type_of p s"
proof (cases "mbs s p")
  case None
  assume "same_core s s'"
  then have "map_option core (mbs s' p) = None" using None by (simp add: same_core_def)
  then show ?thesis using None by (simp add: type_of_def)
next
  case (Some m)
  assume same: "same_core s s'"
  obtain m' where "mbs s' p = Some m'" "core m' = core m" using same_core_at [OF same Some] .
  then show ?thesis using Some same by (simp add: type_of_def core_def same_core_def)
qed

lemma MSG_SIZE_core1: "MSG_SIZE p s = Some n \<Longrightarrow> same_core s s' \<Longrightarrow> MSG_SIZE p s' = Some n"
proof (induction rule: MSG_SIZE.raw_induct [rotated, consumes 1])
  case (1 f p s n)
  obtain m where m: "mbs s p = Some m" using 1(2) by (auto split: bind_splits)
  obtain m' where m': "mbs s' p = Some m'" "core m' = core m" using same_core_at [OF 1(3) m] .
  then have c: "b_cont m' = b_cont m" "b_len m' = b_len m" by (auto simp: core_def b_len_def)
  show ?case
  proof (cases "b_cont m")
    case None
    then show ?thesis using 1(2) m m' c by (subst MSG_SIZE.simps) simp
  next
    case (Some r)
    then obtain k where k: "f r s = Some k" "n = b_len m + k" using 1(2) m by (auto split: bind_splits)
    have "MSG_SIZE r s' = Some k" using 1(1) [OF k(1) 1(3)] .
    then show ?thesis using Some m' c k by (subst MSG_SIZE.simps) simp
  qed
qed

lemma MSG_SIZE_core: "same_core s s' \<Longrightarrow> MSG_SIZE p s' = MSG_SIZE p s"
  by (metis MSG_SIZE_core1 same_core_sym option.exhaust)

text \<open>A block without its links.\<close>

definition bare :: "mblk \<Rightarrow> mblk" where
  "bare m = m\<lparr>b_next := None, b_prev := None\<rparr>"

lemma bare_simps [simp]: "bare (b_next_update f m) = bare m" "bare (b_prev_update f m) = bare m"
  by (simp_all add: bare_def)

definition same_bare :: "mblk store \<Rightarrow> mblk store \<Rightarrow> bool" where
  "same_bare h h' \<longleftrightarrow> (\<forall>p. map_option bare (h' p) = map_option bare (h p))"

lemma same_bare_refl [simp]: "same_bare h h"
  by (simp add: same_bare_def)

lemma same_bare_upd: "same_bare h h' \<Longrightarrow> h' p = Some m \<Longrightarrow> bare m' = bare m \<Longrightarrow> same_bare h (h'(p \<mapsto> m'))"
  unfolding same_bare_def by (metis (mono_tags, lifting) fun_upd_apply option.map(2))

lemma same_bare_at:
  assumes "same_bare h h'" "h p = Some m"
  obtains m' where "h' p = Some m'" "bare m' = bare m"
proof -
  have "map_option bare (h' p) = Some (bare m)" using assms by (simp add: same_bare_def)
  then show thesis using that by auto
qed

lemma bare_core: "bare m' = bare m \<Longrightarrow> core m' = core m \<and> b_band m' = b_band m \<and> b_flag m' = b_flag m"
  by (cases m; cases m') (simp add: bare_def core_def)

lemma same_bare_core: "same_bare (mbs s) h' \<Longrightarrow> same_core s (s\<lparr>mbs := h'\<rparr>)"
proof -
  assume same: "same_bare (mbs s) h'"
  have "map_option core (h' p) = map_option core (mbs s p)" for p
  proof -
    have "map_option bare (h' p) = map_option bare (mbs s p)" using same by (simp add: same_bare_def)
    then show ?thesis by (cases "h' p"; cases "mbs s p") (auto dest: bare_core)
  qed
  then show ?thesis by (simp add: same_core_def)
qed

definition set_ends :: "ptr \<Rightarrow> ptr \<Rightarrow> queue \<Rightarrow> queue" where
  "set_ends f l x = x\<lparr>q_first := f, q_last := l\<rparr>"

lemma link_before_ok:
  assumes x: "qs s q = Some x" and seg: "mseg (mbs (sm s)) None (q_first x) (xs @ ys) None (q_last x)" and d: "distinct (xs @ mp # ys)"
    and mp: "mbs (sm s) mp = Some m"
  shows "\<exists>h' f l. link_before q mp (if ys = [] then None else Some (hd ys)) s =
      Some (s\<lparr>sm := (sm s)\<lparr>mbs := h'\<rparr>, qs := (qs s)(q \<mapsto> set_ends f l x)\<rparr>) \<and>
    mseg h' None f (xs @ mp # ys) None l \<and> same_bare (mbs (sm s)) h'"
proof -
  let ?h = "mbs (sm s)"
  obtain r k where r: "mseg ?h None (q_first x) xs r k" "mseg ?h k r ys None (q_last x)" using seg by (auto simp: mseg_append)
  show ?thesis
  proof (cases xs rule: rev_cases)
    case Nil
    then have r0: "r = q_first x" "k = None" using r(1) by simp_all
    show ?thesis
    proof (cases ys)
      case ys: Nil
      let ?m = "m\<lparr>b_next := None, b_prev := None\<rparr>"
      have "link_before q mp None s = Some (s\<lparr>sm := (sm s)\<lparr>mbs := ?h(mp \<mapsto> ?m)\<rparr>, qs := (qs s)(q \<mapsto> set_ends (Some mp) (Some mp) x)\<rparr>)"
        using x mp r r0 ys by (simp add: link_before_def set_msg_def set_mb_def set_q_def set_ends_def)
      then show ?thesis using Nil ys mp by (intro exI [of _ "?h(mp \<mapsto> ?m)"] exI [of _ "Some mp"]) (simp add: same_bare_upd)
    next
      case (Cons y zs)
      obtain n where n: "?h y = Some n" "b_prev n = None" using r(2) r0 Cons by auto
      let ?m = "m\<lparr>b_next := Some y, b_prev := None\<rparr>" let ?h' = "?h(mp \<mapsto> ?m, y \<mapsto> n\<lparr>b_prev := Some mp\<rparr>)"
      have ne: "y \<noteq> mp" "y \<notin> set zs" "mp \<notin> set zs" using d Cons by auto
      have "link_before q mp (Some y) s = Some (s\<lparr>sm := (sm s)\<lparr>mbs := ?h'\<rparr>, qs := (qs s)(q \<mapsto> set_ends (Some mp) (q_last x) x)\<rparr>)"
        using x mp n ne by (simp add: link_before_def set_msg_def set_mb_def set_q_def set_ends_def)
      moreover have "mseg ?h' None (Some mp) (mp # ys) None (q_last x)" using r(2) r0 Cons n ne by auto
      moreover have "same_bare ?h ?h'" using mp n ne by (intro same_bare_upd) simp_all
      ultimately show ?thesis using Nil Cons by (intro exI [of _ ?h'] exI [of _ "Some mp"] exI [of _ "q_last x"]) simp
    qed
  next
    case (snoc us u)
    have k: "k = Some u" using r(1) snoc mseg_last by blast
    obtain w where w: "?h u = Some w" using mseg_dom [OF r(1), of u] snoc by auto
    have neu: "u \<noteq> mp" "u \<notin> set us" "mp \<notin> set us" "u \<notin> set ys" using d snoc by auto
    show ?thesis
    proof (cases ys)
      case ys: Nil
      let ?m = "m\<lparr>b_next := None, b_prev := Some u\<rparr>" let ?h' = "?h(mp \<mapsto> ?m, u \<mapsto> w\<lparr>b_next := Some mp\<rparr>)"
      have ql: "q_last x = Some u" "r = None" using r(2) k ys by auto
      have "link_before q mp None s = Some (s\<lparr>sm := (sm s)\<lparr>mbs := ?h'\<rparr>, qs := (qs s)(q \<mapsto> set_ends (q_first x) (Some mp) x)\<rparr>)"
        using x mp w neu ql by (simp add: link_before_def set_msg_def set_mb_def set_q_def set_ends_def)
      moreover have "mseg ?h' None (q_first x) (xs @ [mp]) None (Some mp)"
        using mseg_next [of "?h(mp \<mapsto> ?m)" None "q_first x" us u r k w "Some mp"] r(1) snoc w neu by (auto simp: mseg_append)
      moreover have "same_bare ?h ?h'" using mp w neu by (intro same_bare_upd) simp_all
      ultimately show ?thesis using ys by (intro exI [of _ ?h'] exI [of _ "q_first x"] exI [of _ "Some mp"]) simp
    next
      case (Cons y zs)
      obtain n where n: "?h y = Some n" "b_prev n = Some u" "r = Some y" using r(2) k Cons by auto
      have ne: "y \<noteq> mp" "y \<noteq> u" "y \<notin> set zs" "mp \<notin> set zs" "y \<notin> set us" "u \<notin> set zs" using d Cons snoc by auto
      let ?m = "m\<lparr>b_next := Some y, b_prev := Some u\<rparr>"
      let ?h' = "?h(mp \<mapsto> ?m, u \<mapsto> w\<lparr>b_next := Some mp\<rparr>, y \<mapsto> n\<lparr>b_prev := Some mp\<rparr>)"
      have L: "link_before q mp (Some y) s = Some (s\<lparr>sm := (sm s)\<lparr>mbs := ?h'\<rparr>, qs := (qs s)(q \<mapsto> set_ends (q_first x) (q_last x) x)\<rparr>)"
        using x mp w n ne neu by (simp add: link_before_def set_msg_def set_mb_def set_q_def set_ends_def fun_upd_idem)
      have A: "mseg ?h' None (q_first x) xs (Some mp) (Some u)"
        using mseg_next [of "?h(mp \<mapsto> ?m)" None "q_first x" us u r k w "Some mp"] r(1) snoc w neu ne by simp
      have B: "mseg ?h' (Some u) (Some mp) (mp # ys) None (q_last x)" using r(2) k Cons n ne neu by auto
      have S: "same_bare ?h ?h'" using mp w n ne neu by (intro same_bare_upd) simp_all
      have M: "mseg ?h' None (q_first x) (xs @ mp # ys) None (q_last x)" using A B unfolding mseg_append by blast
      show ?thesis
        by (rule exI [of _ ?h'], rule exI [of _ "q_first x"], rule exI [of _ "q_last x"]) (use L M S Cons in \<open>simp del: mseg.simps\<close>)
    qed
  qed
qed

section \<open>The schedule\<close>

definition sched_list :: "strq \<Rightarrow> addr list \<Rightarrow> bool" where
  "sched_list s ys \<longleftrightarrow> linked (qs s) q_link (ss_head s) ys \<and> ss_tail s = (if ys = [] then None else Some (last ys))"

text \<open>A queue without its place in the schedule: without the link, the count of procedures that run, and \<open>QENAB\<close>.\<close>

definition no_link :: "queue \<Rightarrow> queue" where
  "no_link x = x\<lparr>q_link := None\<rparr>"

definition view :: "queue \<Rightarrow> queue" where
  "view x = x\<lparr>q_link := None, q_flag := q_flag x - {QENAB}, q_active := 0\<rparr>"

lemma no_link_upd [simp]: "no_link (q_link_update f x) = no_link x"
  by (simp add: no_link_def)

lemma no_link_simps [simp]:
  "q_flag (no_link x) = q_flag x" "q_first (no_link x) = q_first x" "q_last (no_link x) = q_last x" "q_next (no_link x) = q_next x"
  "q_count (no_link x) = q_count x" "q_hiwat (no_link x) = q_hiwat x" "q_lowat (no_link x) = q_lowat x" "q_active (no_link x) = q_active x"
  "qi_srvp (no_link x) = qi_srvp x" "q_link (no_link x) = None"
  by (simp_all add: no_link_def)

lemma view_simps [simp]:
  "q_flag (view x) = q_flag x - {QENAB}" "q_first (view x) = q_first x" "q_last (view x) = q_last x" "q_next (view x) = q_next x"
  "q_count (view x) = q_count x" "q_hiwat (view x) = q_hiwat x" "q_lowat (view x) = q_lowat x" "qi_srvp (view x) = qi_srvp x"
  by (simp_all add: view_def)

lemma view_no_link [simp]: "view (no_link x) = view x"
  by (simp add: view_def no_link_def)

lemma view_upd [simp]:
  "view (q_link_update f x) = view x" "view (q_active_update g x) = view x" "view (set_flag QENAB x) = view x" "view (clear_flag QENAB x) = view x"
  by (simp_all add: view_def set_flag_def clear_flag_def)

lemma no_link_view: "no_link x = no_link y \<Longrightarrow> view x = view y"
  by (metis view_no_link)

definition same_queues :: "(queue \<Rightarrow> queue) \<Rightarrow> strq \<Rightarrow> strq \<Rightarrow> bool" where
  "same_queues f s s' \<longleftrightarrow> sm s' = sm s \<and> bands s' = bands s \<and> (\<forall>q. map_option f (qs s' q) = map_option f (qs s q))"

lemma same_queues_refl [simp]: "same_queues f s s"
  by (simp add: same_queues_def)

lemma same_queues_trans: "same_queues f s t \<Longrightarrow> same_queues f t u \<Longrightarrow> same_queues f s u"
  by (simp add: same_queues_def)

lemma same_queues_at:
  assumes "same_queues f s s'" "qs s q = Some x"
  obtains x' where "qs s' q = Some x'" "f x' = f x"
proof -
  have "map_option f (qs s' q) = Some (f x)" using assms by (simp add: same_queues_def)
  then show thesis using that by auto
qed

lemma same_queues_sym: "same_queues f s s' \<Longrightarrow> same_queues f s' s"
  by (simp add: same_queues_def)

lemma same_queues_upd: "qs s q = Some x \<Longrightarrow> f y = f x \<Longrightarrow> same_queues f s (s\<lparr>qs := (qs s)(q \<mapsto> y)\<rparr>)"
  by (simp add: same_queues_def)

lemma same_queues_view: "same_queues no_link s s' \<Longrightarrow> same_queues view s s'"
proof -
  assume same: "same_queues no_link s s'"
  have "map_option view (qs s' q) = map_option view (qs s q)" for q
  proof -
    have "map_option no_link (qs s' q) = map_option no_link (qs s q)" using same by (simp add: same_queues_def)
    then show ?thesis by (cases "qs s' q"; cases "qs s q") (auto dest: no_link_view)
  qed
  then show ?thesis using same by (simp add: same_queues_def)
qed

lemma same_queues_event [simp]: "same_queues f s (q_event e t) = same_queues f s t"
  by (simp add: same_queues_def q_event_def)

lemma sched_list_event [simp]: "sched_list (q_event e s) ys = sched_list s ys" "sched_list (s\<lparr>dg_run_strsched := b\<rparr>) ys = sched_list s ys"
  by (simp_all add: sched_list_def q_event_def)

lemma event_simps [simp]: "qs (q_event e s) = qs s" "sm (q_event e s) = sm s" "bands (q_event e s) = bands s" "dg_run_strsched (q_event e s) = dg_run_strsched s"
  by (simp_all add: q_event_def)

lemma sched_list_cong:
  "sched_list s ys \<Longrightarrow> ss_head s' = ss_head s \<Longrightarrow> ss_tail s' = ss_tail s \<Longrightarrow>
   (\<And>q. q \<in> set ys \<Longrightarrow> map_option q_link (qs s' q) = map_option q_link (qs s q)) \<Longrightarrow> sched_list s' ys"
  unfolding sched_list_def using chain_cong [of ys q_link "qs s'" "qs s"] by simp

lemma schedule_ok:
  assumes "sched_list s ys" "q \<notin> set ys" "qs s q = Some x"
  shows "\<exists>s'. QSCHED_SCHEDULE q s = Some s' \<and> sched_list s' (ys @ [q]) \<and> same_queues no_link s s' \<and> dg_run_strsched s' = dg_run_strsched s"
proof (cases ys rule: rev_cases)
  case Nil
  let ?s = "s\<lparr>qs := (qs s)(q \<mapsto> x\<lparr>q_link := None\<rparr>), ss_head := Some q, ss_tail := Some q\<rparr>"
  have "QSCHED_SCHEDULE q s = Some ?s" using assms Nil by (simp add: QSCHED_SCHEDULE_def set_q_def sched_list_def)
  moreover have "sched_list ?s [q]" by (simp add: sched_list_def)
  moreover have "same_queues no_link s ?s" using assms(3) by (simp add: same_queues_def)
  ultimately show ?thesis using Nil by auto
next
  case (snoc us u)
  have l: "linked (qs s) q_link (ss_head s) (us @ [u])" "ss_tail s = Some u" using assms(1) snoc by (simp_all add: sched_list_def)
  have d: "u \<notin> set us" using linked_distinct [OF l(1)] by simp
  obtain y where y: "qs s u = Some y" using chain_dom [OF l(1), of u] by auto
  have ne: "q \<noteq> u" "q \<notin> set us" using assms(2) snoc by auto
  let ?q = "(qs s)(q \<mapsto> x\<lparr>q_link := None\<rparr>, u \<mapsto> y\<lparr>q_link := Some q\<rparr>)"
  let ?s = "s\<lparr>qs := ?q, ss_tail := Some q\<rparr>"
  have "QSCHED_SCHEDULE q s = Some ?s" using assms(3) l(2) y ne by (simp add: QSCHED_SCHEDULE_def set_q_def)
  moreover have "chain ?q q_link (ss_head s) (us @ [u]) (Some q)"
    using chain_snoc_upd [of "(qs s)(q \<mapsto> x\<lparr>q_link := None\<rparr>)" q_link "ss_head s" us u None y "y\<lparr>q_link := Some q\<rparr>"] l(1) d y ne by simp
  then have "sched_list ?s (ys @ [q])" using snoc ne by (simp add: sched_list_def chain_append)
  moreover have "same_queues no_link s ?s" using assms(3) y ne by (simp add: same_queues_def)
  ultimately show ?thesis by auto
qed



text \<open>The scheduled queues are those with \<open>QENAB\<close>, as long as none is being run.\<close>

definition sched_ok :: "strq \<Rightarrow> addr list \<Rightarrow> bool" where
  "sched_ok s ys \<longleftrightarrow> sched_list s ys \<and> (\<forall>q x. qs s q = Some x \<longrightarrow> (QENAB \<in> q_flag x \<longleftrightarrow> q \<in> set ys))"

definition runnable :: "queue \<Rightarrow> bool" where
  "runnable x \<longleftrightarrow> qi_srvp x \<and> QPROCSOFF \<notin> q_flag x"

lemma trysched_ok:
  assumes "sched_ok s ys" "qs s q = Some x"
  shows "\<exists>s'. QUEUE_TRYSCHED q s = Some (runnable x, s') \<and> sched_ok s' (if runnable x \<and> q \<notin> set ys then ys @ [q] else ys) \<and> same_queues view s s' \<and>
    (\<forall>p. map_option q_active (qs s' p) = map_option q_active (qs s p))"
proof (cases "runnable x \<and> q \<notin> set ys")
  case False
  then show ?thesis using assms by (auto simp: QUEUE_TRYSCHED_def runnable_def sched_ok_def)
next
  case True
  then have off: "QENAB \<notin> q_flag x" using assms by (auto simp: sched_ok_def)
  obtain s1 where s1: "QSCHED_SCHEDULE q s = Some s1" "sched_list s1 (ys @ [q])" "same_queues no_link s s1"
    using schedule_ok [OF _ conjunct2 [OF True] assms(2)] assms(1) by (auto simp: sched_ok_def)
  obtain x1 where x1: "qs s1 q = Some x1" "no_link x1 = no_link x" using same_queues_at [OF s1(3) assms(2)] .
  let ?s2 = "s1\<lparr>qs := (qs s1)(q \<mapsto> set_flag QENAB x1)\<rparr>"
  let ?s3 = "if dg_run_strsched s1 then ?s2 else q_event Run_strsched (?s2\<lparr>dg_run_strsched := True\<rparr>)"
  have eq: "QUEUE_TRYSCHED q s = Some (True, ?s3)"
    using True off s1(1) x1(1) assms(2) by (simp add: QUEUE_TRYSCHED_def runnable_def set_q_def)
  have l: "sched_list ?s2 (ys @ [q])" by (rule sched_list_cong [OF s1(2)]) (use x1 in \<open>auto simp: set_flag_def\<close>)
  have enab: "QENAB \<in> q_flag y \<longleftrightarrow> p \<in> set (ys @ [q])" if y: "qs ?s2 p = Some y" for p y
  proof (cases "p = q")
    case True
    then show ?thesis using y by (auto simp: set_flag_def)
  next
    case ne: False
    have "qs s1 p = Some y" using y ne by simp
    then obtain z where "qs s p = Some z" "no_link z = no_link y" using same_queues_at [OF same_queues_sym [OF s1(3)]] by blast
    then show ?thesis using assms(1) ne by (auto simp: sched_ok_def) (metis no_link_simps(1))+
  qed
  have "same_queues view s ?s2"
    using same_queues_trans [OF same_queues_view [OF s1(3)] same_queues_upd [OF x1(1), of view "set_flag QENAB x1"]] by simp
  moreover have "map_option q_active (qs ?s2 p) = map_option q_active (qs s p)" for p
  proof -
    have "map_option no_link (qs s1 p) = map_option no_link (qs s p)" using s1(3) by (simp add: same_queues_def)
    then have "map_option q_active (qs s1 p) = map_option q_active (qs s p)"
      by (cases "qs s1 p"; cases "qs s p") (simp_all, metis no_link_simps(8))
    then show ?thesis using x1(1) by (auto simp: set_flag_def)
  qed
  ultimately show ?thesis using True eq l enab
    by (intro exI [of _ ?s3]) (auto simp: sched_ok_def same_queues_def)
qed

lemma sched_ok_upd:
  assumes "sched_ok s ys" "qs s q = Some x" "q_link y = q_link x" "QENAB \<in> q_flag y \<longleftrightarrow> QENAB \<in> q_flag x"
  shows "sched_ok (s\<lparr>qs := (qs s)(q \<mapsto> y)\<rparr>) ys"
proof -
  have "sched_list (s\<lparr>qs := (qs s)(q \<mapsto> y)\<rparr>) ys"
    by (rule sched_list_cong [of s]) (use assms in \<open>auto simp: sched_ok_def\<close>)
  then show ?thesis using assms by (auto simp: sched_ok_def)
qed

lemma sched_ok_event [simp]: "sched_ok (q_event e s) ys = sched_ok s ys"
  by (simp add: sched_ok_def)

lemma sched_ok_sm [simp]: "sched_ok (s\<lparr>sm := m\<rparr>) ys = sched_ok s ys"
  by (simp add: sched_ok_def sched_list_def)

lemma set_active_ok:
  assumes "sched_ok s ys" "qs s q = Some x"
  shows "\<exists>s'. set_q q (q_active_update f) s = Some s' \<and> sched_ok s' ys \<and> same_queues view s s'"
  using sched_ok_upd [OF assms, of "q_active_update f x"] same_queues_upd [OF assms(2), of view "q_active_update f x"] assms(2)
  by (simp add: set_q_def)

section \<open>Enabling a writer\<close>

text \<open>The queue that \<open>QUEUE_BACKENAB\<close> schedules, when \<open>us\<close> are the queues behind the other one of the pair.\<close>

primrec back_target :: "q_cfg \<Rightarrow> strq \<Rightarrow> addr list \<Rightarrow> ptr" where
  "back_target c s [] = None"
| "back_target c s (u # us) =
     (if QPROCSOFF \<notin> q_flag (the (qs s u)) \<and> runnable (the (qs s (OTHERQ c u))) then Some (OTHERQ c u) else back_target c s us)"

definition stream :: "q_cfg \<Rightarrow> strq \<Rightarrow> addr \<Rightarrow> addr list \<Rightarrow> bool" where
  "stream c s other us \<longleftrightarrow> (\<exists>x. qs s other = Some x \<and> linked (qs s) q_next (q_next x) us) \<and> (\<forall>u \<in> set us. qs s (OTHERQ c u) \<noteq> None)"

lemma view_flag: "view x = view y \<Longrightarrow> f \<noteq> QENAB \<Longrightarrow> f \<in> q_flag x \<longleftrightarrow> f \<in> q_flag y"
  by (metis Diff_iff empty_iff insert_iff view_simps(1))

text \<open>What the stream is made of: the links, who has a service procedure, and whether it is on.\<close>

definition net :: "queue \<Rightarrow> ptr \<times> bool \<times> bool" where
  "net x = (q_next x, qi_srvp x, QPROCSOFF \<in> q_flag x)"

definition same_net :: "strq \<Rightarrow> strq \<Rightarrow> bool" where
  "same_net s s' \<longleftrightarrow> (\<forall>p. map_option net (qs s' p) = map_option net (qs s p))"

lemma same_net_refl [simp]: "same_net s s"
  by (simp add: same_net_def)

lemma same_net_trans: "same_net s t \<Longrightarrow> same_net t u \<Longrightarrow> same_net s u"
  by (simp add: same_net_def)

lemma same_net_at:
  assumes "same_net s s'" "qs s q = Some x"
  obtains x' where "qs s' q = Some x'" "net x' = net x"
proof -
  have "map_option net (qs s' q) = Some (net x)" using assms by (simp add: same_net_def)
  then show thesis using that by auto
qed

lemma same_net_upd: "qs s q = Some x \<Longrightarrow> net y = net x \<Longrightarrow> same_net s (s\<lparr>qs := (qs s)(q \<mapsto> y)\<rparr>)"
  by (simp add: same_net_def)

lemma same_net_sm [simp]: "same_net s (t\<lparr>sm := m\<rparr>) = same_net s t" "same_net s (q_event e t) = same_net s t"
  by (simp_all add: same_net_def)

lemma view_net: "view x = view y \<Longrightarrow> net x = net y"
proof -
  assume v: "view x = view y"
  have "q_next x = q_next y" "qi_srvp x = qi_srvp y" using v by (metis view_simps(4), metis view_simps(8))
  moreover have "QPROCSOFF \<in> q_flag x \<longleftrightarrow> QPROCSOFF \<in> q_flag y" by (rule view_flag [OF v]) simp
  ultimately show ?thesis by (simp add: net_def)
qed

lemma same_queues_net: "same_queues view s s' \<Longrightarrow> same_net s s'"
proof -
  assume same: "same_queues view s s'"
  have "map_option net (qs s' p) = map_option net (qs s p)" for p
  proof -
    have "map_option view (qs s' p) = map_option view (qs s p)" using same by (simp add: same_queues_def)
    then show ?thesis by (cases "qs s' p"; cases "qs s p") (auto intro: view_net)
  qed
  then show ?thesis by (simp add: same_net_def)
qed

lemma net_runnable: "net x = net y \<Longrightarrow> runnable x = runnable y"
  by (simp add: net_def runnable_def)

lemma stream_net:
  assumes "same_net s s'" "stream c s other us"
  shows "stream c s' other us"
proof -
  obtain x where x: "qs s other = Some x" "linked (qs s) q_next (q_next x) us" using assms(2) by (auto simp: stream_def)
  obtain x' where x': "qs s' other = Some x'" "net x' = net x" using same_net_at [OF assms(1) x(1)] .
  have n: "map_option q_next (qs s' p) = map_option q_next (qs s p)" for p
  proof -
    have "map_option net (qs s' p) = map_option net (qs s p)" using assms(1) by (simp add: same_net_def)
    then show ?thesis by (cases "qs s' p"; cases "qs s p") (simp_all add: net_def)
  qed
  have "linked (qs s') q_next (q_next x') us" using x(2) x'(2) chain_cong [of us q_next "qs s'" "qs s"] n by (simp add: net_def)
  moreover have "\<forall>u \<in> set us. qs s' (OTHERQ c u) \<noteq> None"
  proof
    fix u assume "u \<in> set us"
    then obtain y where "qs s (OTHERQ c u) = Some y" using assms(2) by (auto simp: stream_def)
    then show "qs s' (OTHERQ c u) \<noteq> None" using same_net_at [OF assms(1)] by blast
  qed
  ultimately show ?thesis using x'(1) by (auto simp: stream_def)
qed

lemma same_net_the:
  assumes "same_net s s'" "qs s q \<noteq> None"
  shows "net (the (qs s' q)) = net (the (qs s q))"
proof -
  obtain x where x: "qs s q = Some x" using assms(2) by blast
  obtain x' where "qs s' q = Some x'" "net x' = net x" using same_net_at [OF assms(1) x] .
  then show ?thesis using x by simp
qed

lemma stream_dom: "stream c s other us \<Longrightarrow> u \<in> set us \<Longrightarrow> qs s u \<noteq> None \<and> qs s (OTHERQ c u) \<noteq> None"
  by (auto simp: stream_def dest: chain_dom)

lemma back_target_net:
  assumes "same_net s s'" "\<forall>u \<in> set us. qs s u \<noteq> None \<and> qs s (OTHERQ c u) \<noteq> None"
  shows "back_target c s' us = back_target c s us"
  using assms(2)
proof (induction us)
  case (Cons u us)
  have "QPROCSOFF \<in> q_flag (the (qs s' u)) \<longleftrightarrow> QPROCSOFF \<in> q_flag (the (qs s u))"
    using same_net_the [OF assms(1), of u] Cons.prems by (simp add: net_def)
  moreover have "runnable (the (qs s' (OTHERQ c u))) = runnable (the (qs s (OTHERQ c u)))"
    using net_runnable [OF same_net_the [OF assms(1), of "OTHERQ c u"]] Cons.prems by simp
  ultimately show ?case using Cons by simp
qed simp

lemmas stream_view = stream_net [OF same_queues_net] and back_target_view = back_target_net [OF same_queues_net]

lemma backenab_ok:
  assumes "sched_ok s ys" "stream c s other us"
  shows "\<exists>s' zs. backenab_loop c other s = Some s' \<and> sched_ok s' (ys @ zs) \<and> same_queues view s s' \<and>
    (\<forall>p. back_target c s us = Some p \<longrightarrow> p \<in> set (ys @ zs))"
  using assms
proof (induction us arbitrary: s other ys)
  case Nil
  obtain x where x: "qs s other = Some x" "q_next x = None" using Nil(2) by (auto simp: stream_def)
  then have "QUEUE_NEXT other s = Some None" by (subst QUEUE_NEXT.simps) simp
  then have "backenab_loop c other s = Some s" by (subst backenab_loop.simps) simp
  then show ?case using Nil(1) by (intro exI [of _ s] exI [of _ "[]"]) simp
next
  case (Cons u us)
  obtain x y where x: "qs s other = Some x" "q_next x = Some u" "qs s u = Some y" "linked (qs s) q_next (q_next y) us"
    using Cons.prems(2) by (auto simp: stream_def)
  have str: "stream c s u us" using Cons.prems(2) x(3,4) by (simp add: stream_def)
  show ?case
  proof (cases "QPROCSOFF \<in> q_flag y")
    case True
    have "QUEUE_NEXT other s = QUEUE_NEXT u s" using True x by (subst QUEUE_NEXT.simps) simp
    then have "backenab_loop c other s = backenab_loop c u s" by (simp add: backenab_loop.simps [of c other] backenab_loop.simps [of c u])
    then show ?thesis using Cons.IH [OF Cons.prems(1) str] True x(3) by simp
  next
    case on: False
    have next_u: "QUEUE_NEXT other s = Some (Some u)" using on x by (subst QUEUE_NEXT.simps) simp
    obtain s1 where s1: "set_q u (q_active_update Suc) s = Some s1" "sched_ok s1 ys" "same_queues view s s1"
      using set_active_ok [OF Cons.prems(1) x(3), of Suc] by blast
    let ?o = "OTHERQ c u"
    obtain z where z: "qs s ?o = Some z" using Cons.prems(2) by (auto simp: stream_def)
    obtain z1 where z1: "qs s1 ?o = Some z1" "view z1 = view z" using same_queues_at [OF s1(3) z] .
    obtain s2 where s2: "QUEUE_TRYSCHED ?o s1 = Some (runnable z1, s2)" "sched_ok s2 (if runnable z1 \<and> ?o \<notin> set ys then ys @ [?o] else ys)"
      "same_queues view s1 s2" using trysched_ok [OF s1(2) z1(1)] by blast
    obtain u2 where u2: "qs s2 u = Some u2" using same_queues_at [OF same_queues_trans [OF s1(3) s2(3)] x(3)] by blast
    obtain s3 where s3: "set_q u (q_active_update (\<lambda>n. n - 1)) s2 = Some s3"
      "sched_ok s3 (if runnable z1 \<and> ?o \<notin> set ys then ys @ [?o] else ys)" "same_queues view s2 s3"
      using set_active_ok [OF s2(2) u2, of "\<lambda>n. n - 1"] by blast
    have same: "same_queues view s s3" using same_queues_trans [OF same_queues_trans [OF s1(3) s2(3)] s3(3)] .
    obtain z3 where z3: "qs s3 ?o = Some z3" using same_queues_at [OF same z] by blast
    let ?s4 = "if QPROCSOFF \<in> q_flag z3 \<and> q_active z3 = 0 then q_event Proc_broadcast s3 else s3"
    have same4: "same_queues view s ?s4" using same by simp
    have eq: "backenab_loop c other s = (if runnable z1 then Some ?s4 else backenab_loop c u ?s4)"
      using next_u s1(1) s2(1) s3(1) z3 by (subst backenab_loop.simps) (simp add: Let_def)
    have run: "runnable z1 = runnable z" using net_runnable [OF view_net [OF z1(2)]] .
    show ?thesis
    proof (cases "runnable z1")
      case True
      then show ?thesis using eq s3(2) same4 on x(3) z run
        by (intro exI [of _ ?s4] exI [of _ "if ?o \<notin> set ys then [?o] else []"]) auto
    next
      case False
      have ok4: "sched_ok ?s4 ys" using s3(2) False by simp
      obtain s' zs where IH: "backenab_loop c u ?s4 = Some s'" "sched_ok s' (ys @ zs)" "same_queues view ?s4 s'"
        "\<forall>p. back_target c ?s4 us = Some p \<longrightarrow> p \<in> set (ys @ zs)"
        using Cons.IH [OF ok4 stream_view [OF same4 str]] by blast
      have "\<forall>v \<in> set us. qs s v \<noteq> None \<and> qs s (OTHERQ c v) \<noteq> None"
        using chain_dom [OF x(4)] Cons.prems(2) by (auto simp: stream_def)
      then have "back_target c ?s4 us = back_target c s us" using back_target_view [OF same4] by blast
      then show ?thesis using eq False IH same_queues_trans [OF same4 IH(3)] run z by (intro exI [of _ s'] exI [of _ zs]) simp
    qed
  qed
qed

section \<open>A queue and its messages\<close>

text \<open>
  The flow control: the queue is full when it holds more than the high mark, and stays so down to the low mark; only at a full queue does a writer wait.
\<close>

definition flow_ok :: "queue \<Rightarrow> bool" where
  "flow_ok x \<longleftrightarrow> 0 \<le> q_lowat x \<and> q_lowat x \<le> q_hiwat x \<and> (q_count x > q_hiwat x \<longrightarrow> QFULL \<in> q_flag x) \<and>
     (QFULL \<in> q_flag x \<longrightarrow> q_count x > q_lowat x) \<and> (QWANTW \<in> q_flag x \<longrightarrow> QFULL \<in> q_flag x) \<and> QBACK \<notin> q_flag x"

text \<open>A message without a band, of high priority or not.\<close>

definition plain :: "q_cfg \<Rightarrow> strq \<Rightarrow> bool \<Rightarrow> addr \<Rightarrow> bool" where
  "plain c s pri p \<longleftrightarrow> (\<exists>m n. mbs (sm s) p = Some m \<and> b_band m = 0 \<and> IS_PRI_MSG c p s = Some pri \<and> MSG_SIZE p (sm s) = Some n \<and> 0 \<le> n)"

definition size_of :: "strq \<Rightarrow> addr \<Rightarrow> int" where
  "size_of s p = the (MSG_SIZE p (sm s))"

definition total :: "strq \<Rightarrow> addr list \<Rightarrow> int" where
  "total s ps = (\<Sum>p\<leftarrow>ps. size_of s p)"

text \<open>The queue \<open>q\<close> holds the high priority messages \<open>pris\<close>, and behind them \<open>ords\<close>, whose bytes it counts.\<close>

definition queue_at :: "q_cfg \<Rightarrow> strq \<Rightarrow> addr \<Rightarrow> addr list \<Rightarrow> addr list \<Rightarrow> bool" where
  "queue_at c s q pris ords \<longleftrightarrow> (\<exists>x. qs s q = Some x \<and> mseg (mbs (sm s)) None (q_first x) (pris @ ords) None (q_last x) \<and> flow_ok x \<and>
     q_count x = total s ords) \<and> distinct (pris @ ords) \<and> (\<forall>p \<in> set pris. plain c s True p) \<and> (\<forall>p \<in> set ords. plain c s False p)"

lemma view_fields:
  assumes "view x = view y"
  shows "q_first x = q_first y" "q_last x = q_last y" "q_count x = q_count y" "q_hiwat x = q_hiwat y" "q_lowat x = q_lowat y"
  using arg_cong [OF assms, of q_first] arg_cong [OF assms, of q_last] arg_cong [OF assms, of q_count] arg_cong [OF assms, of q_hiwat]
    arg_cong [OF assms, of q_lowat] by simp_all

lemma view_flow: "view x = view y \<Longrightarrow> flow_ok x = flow_ok y"
  using view_flag [of x y QFULL] view_flag [of x y QWANTW] view_flag [of x y QBACK] view_fields [of x y] by (simp add: flow_ok_def)

lemma plain_sm: "sm s' = sm s \<Longrightarrow> plain c s' = plain c s" and size_of_sm: "sm s' = sm s \<Longrightarrow> size_of s' = size_of s"
  by (simp_all add: plain_def IS_PRI_MSG_def size_of_def fun_eq_iff)

lemma total_sm: "sm s' = sm s \<Longrightarrow> total s' ps = total s ps"
  unfolding total_def by (drule size_of_sm) simp

lemma queue_at_cong:
  assumes "queue_at c s q pris ords" "sm s' = sm s" "qs s q = Some x" "qs s' q = Some x'" "q_first x' = q_first x" "q_last x' = q_last x"
    "q_count x' = q_count x" "flow_ok x'"
  shows "queue_at c s' q pris ords"
  using assms plain_sm [OF assms(2), of c] total_sm [OF assms(2), of ords] by (simp add: queue_at_def)

lemma queue_at_view:
  assumes "queue_at c s q pris ords" "same_queues view s s'"
  shows "queue_at c s' q pris ords"
proof -
  obtain x where x: "qs s q = Some x" "flow_ok x" using assms(1) by (auto simp: queue_at_def)
  obtain x' where x': "qs s' q = Some x'" "view x' = view x" using same_queues_at [OF assms(2) x(1)] .
  have "flow_ok x'" using view_flow [OF x'(2)] x(2) by simp
  then show ?thesis using view_fields [OF x'(2)] queue_at_cong [OF assms(1) _ x(1) x'(1)] assms(2) by (simp add: same_queues_def)
qed

text \<open>Changing links changes neither what a message is nor its size.\<close>

lemma plain_bare:
  assumes "same_bare (mbs (sm s)) h'" "sm s' = (sm s)\<lparr>mbs := h'\<rparr>"
  shows "plain c s' pri p = plain c s pri p" "size_of s' p = size_of s p" "total s' ps = total s ps"
proof -
  have core: "same_core (sm s) (sm s')" using same_bare_core [OF assms(1)] assms(2) by simp
  show size: "size_of s' p = size_of s p" for p using MSG_SIZE_core [OF core] by (simp add: size_of_def)
  then show "total s' ps = total s ps" by (simp add: total_def)
  have pri: "IS_PRI_MSG c p s' = IS_PRI_MSG c p s" using type_of_core [OF core] by (simp add: IS_PRI_MSG_def)
  have band: "map_option b_band (h' p) = map_option b_band (mbs (sm s) p)"
  proof -
    have "map_option bare (h' p) = map_option bare (mbs (sm s) p)" using assms(1) by (simp add: same_bare_def)
    then show ?thesis by (cases "h' p"; cases "mbs (sm s) p") (auto dest: bare_core)
  qed
  show "plain c s' pri p = plain c s pri p"
    using pri MSG_SIZE_core [OF core, of p] band assms(2) by (cases "h' p"; cases "mbs (sm s) p") (auto simp: plain_def)
qed

lemma plainE:
  assumes "plain c s pri p"
  obtains m where "mbs (sm s) p = Some m" "b_band m = 0" "IS_PRI_MSG c p s = Some pri" "MSG_SIZE p (sm s) = Some (size_of s p)" "0 \<le> size_of s p"
  using assms by (auto simp: plain_def size_of_def)

lemma flow_add: "flow_ok x \<Longrightarrow> 0 \<le> n \<Longrightarrow>
  flow_ok (let x = x\<lparr>q_count := q_count x + n\<rparr> in if q_count x > q_hiwat x then set_flag QFULL x else x)"
  by (auto simp: flow_ok_def set_flag_def Let_def)

text \<open>An ordinary message is counted, and the queue is scheduled if it waits for one.\<close>

definition wakes :: "queue \<Rightarrow> bool" where
  "wakes x \<longleftrightarrow> QNOENB \<notin> q_flag x \<and> QWANTR \<in> q_flag x"

lemma check_sched_ok:
  assumes "sched_ok s ys" "qs s q = Some x" "plain c s False mp" "flow_ok x"
  shows "\<exists>s' x'. QUEUE_CHECK_SCHED q mp None s = Some (False, s') \<and> sm s' = sm s \<and>
    sched_ok s' (if wakes x \<and> runnable x \<and> q \<notin> set ys then ys @ [q] else ys) \<and> same_net s s' \<and> qs s' q = Some x' \<and>
    q_first x' = q_first x \<and> q_last x' = q_last x \<and> q_count x' = q_count x + size_of s mp \<and> flow_ok x' \<and>
    (QWANTW \<in> q_flag x' \<longleftrightarrow> QWANTW \<in> q_flag x)"
proof -
  obtain m where m: "mbs (sm s) mp = Some m" "b_band m = 0" "MSG_SIZE mp (sm s) = Some (size_of s mp)" "0 \<le> size_of s mp" using plainE [OF assms(3)] by blast
  have "\<exists>s1 x1. (if QNOENB \<notin> q_flag x \<and> (QWANTR \<in> q_flag x \<or> q_lastband x < b_band m) then do {
            s \<leftarrow> set_q q (q_lastband_update (\<lambda>_. b_band m)) s;
            map_option snd (QUEUE_TRYSCHED q s)
          } else Some s) = Some s1 \<and> sm s1 = sm s \<and> sched_ok s1 (if wakes x \<and> runnable x \<and> q \<notin> set ys then ys @ [q] else ys) \<and> same_net s s1 \<and>
        qs s1 q = Some x1 \<and> q_first x1 = q_first x \<and> q_last x1 = q_last x \<and> q_count x1 = q_count x \<and> flow_ok x1 \<and> (QWANTW \<in> q_flag x1 \<longleftrightarrow> QWANTW \<in> q_flag x)"
  proof (cases "wakes x")
    case False
    then show ?thesis using assms m(2) by (auto simp: wakes_def)
  next
    case True
    let ?x = "x\<lparr>q_lastband := 0\<rparr>" let ?s = "s\<lparr>qs := (qs s)(q \<mapsto> ?x)\<rparr>"
    have ok: "sched_ok ?s ys" by (rule sched_ok_upd [OF assms(1,2)]) simp_all
    have n: "same_net s ?s" by (rule same_net_upd [OF assms(2)]) (simp add: net_def)
    have xr: "runnable ?x = runnable x" by (simp add: runnable_def)
    obtain s1 where s1: "QUEUE_TRYSCHED q ?s = Some (runnable ?x, s1)" "sched_ok s1 (if runnable ?x \<and> q \<notin> set ys then ys @ [q] else ys)"
      "same_queues view ?s s1" using trysched_ok [OF ok, of q ?x] by auto
    obtain x1 where x1: "qs s1 q = Some x1" "view x1 = view ?x" using same_queues_at [OF s1(3), of q ?x] by auto
    have "q_first x1 = q_first x" "q_last x1 = q_last x" "q_count x1 = q_count x"
      using x1(2) view_simps(2) [of x1] view_simps(3) [of x1] view_simps(5) [of x1] by simp_all
    moreover have "flow_ok x1" using view_flow [OF x1(2)] assms(4) by (simp add: flow_ok_def)
    moreover have "QWANTW \<in> q_flag x1 \<longleftrightarrow> QWANTW \<in> q_flag x" using view_flag [OF x1(2), of QWANTW] by simp
    moreover have "same_net s s1" using same_net_trans [OF n same_queues_net [OF s1(3)]] .
    moreover have "sm s1 = sm s" using s1(3) by (simp add: same_queues_def)
    ultimately show ?thesis using True assms(2) m(2) s1(1,2) x1(1) xr by (auto simp: wakes_def set_q_def)
  qed
  then obtain s1 x1 where s1: "(if QNOENB \<notin> q_flag x \<and> (QWANTR \<in> q_flag x \<or> q_lastband x < b_band m) then do {
            s \<leftarrow> set_q q (q_lastband_update (\<lambda>_. b_band m)) s;
            map_option snd (QUEUE_TRYSCHED q s)
          } else Some s) = Some s1" "sm s1 = sm s" "sched_ok s1 (if wakes x \<and> runnable x \<and> q \<notin> set ys then ys @ [q] else ys)" "same_net s s1"
    "qs s1 q = Some x1" "q_first x1 = q_first x" "q_last x1 = q_last x" "q_count x1 = q_count x" "flow_ok x1" "QWANTW \<in> q_flag x1 \<longleftrightarrow> QWANTW \<in> q_flag x" by blast
  let ?x2 = "let y = x1\<lparr>q_count := q_count x1 + size_of s mp\<rparr> in if q_count y > q_hiwat y then set_flag QFULL y else y"
  let ?s2 = "s1\<lparr>qs := (qs s1)(q \<mapsto> ?x2)\<rparr>"
  have eq: "QUEUE_CHECK_SCHED q mp None s = Some (False, ?s2)"
    unfolding QUEUE_CHECK_SCHED_def using assms(2) m s1(1,2,5) by (simp add: set_q_def)
  have ok2: "sched_ok ?s2 (if wakes x \<and> runnable x \<and> q \<notin> set ys then ys @ [q] else ys)"
    by (rule sched_ok_upd [OF s1(3,5)]) (simp_all add: Let_def set_flag_def)
  have net2: "same_net s ?s2" by (rule same_net_trans [OF s1(4) same_net_upd [OF s1(5)]]) (simp add: net_def Let_def set_flag_def)
  have flow: "flow_ok ?x2" by (rule flow_add [OF s1(9) m(4)])
  have f: "q_first ?x2 = q_first x" "q_last ?x2 = q_last x" "q_count ?x2 = q_count x + size_of s mp" "QWANTW \<in> q_flag ?x2 \<longleftrightarrow> QWANTW \<in> q_flag x"
    using s1(6-8,10) by (simp_all add: Let_def set_flag_def)
  have at2: "qs ?s2 q = Some ?x2" "sm ?s2 = sm s" using s1(2) by simp_all
  show ?thesis by (rule exI [of _ ?s2], rule exI [of _ ?x2]) (intro conjI eq at2 ok2 net2 f flow)
qed

section \<open>Putting\<close>

definition waits_for :: "strq \<Rightarrow> addr \<Rightarrow> bool" where
  "waits_for s q \<longleftrightarrow> QWANTW \<in> q_flag (the (qs s q))"

text \<open>What every call keeps: the stream, and what the messages are.\<close>

definition keeps :: "q_cfg \<Rightarrow> strq \<Rightarrow> strq \<Rightarrow> bool" where
  "keeps c s s' \<longleftrightarrow> same_net s s' \<and> plain c s' = plain c s \<and> size_of s' = size_of s"

lemma keeps_refl [simp]: "keeps c s s"
  by (simp add: keeps_def)

lemma keeps_trans: "keeps c s t \<Longrightarrow> keeps c t u \<Longrightarrow> keeps c s u"
  unfolding keeps_def using same_net_trans by metis

lemma keeps_sm: "same_net s s' \<Longrightarrow> sm s' = sm s \<Longrightarrow> keeps c s s'"
  using plain_sm [of s' s c] size_of_sm [of s' s] by (simp add: keeps_def)

lemma keeps_bare: "same_net s s' \<Longrightarrow> same_bare (mbs (sm s)) h' \<Longrightarrow> sm s' = (sm s)\<lparr>mbs := h'\<rparr> \<Longrightarrow> keeps c s s'"
  using plain_bare by (simp add: keeps_def fun_eq_iff)

lemma keeps_total: "keeps c s s' \<Longrightarrow> total s' ps = total s ps"
  by (simp add: keeps_def total_def)

lemma set_ends_simps [simp]:
  "q_first (set_ends f l x) = f" "q_last (set_ends f l x) = l" "q_count (set_ends f l x) = q_count x" "q_flag (set_ends f l x) = q_flag x"
  "q_link (set_ends f l x) = q_link x" "net (set_ends f l x) = net x" "flow_ok (set_ends f l x) = flow_ok x"
  by (simp_all add: set_ends_def net_def flow_ok_def)

lemma link_queue:
  assumes "sched_ok s zs" "qs s q = Some x" "mseg (mbs (sm s)) None (q_first x) (xs @ ys) None (q_last x)" "distinct (xs @ mp # ys)" "mbs (sm s) mp = Some m"
  shows "\<exists>s' x'. link_before q mp (if ys = [] then None else Some (hd ys)) s = Some s' \<and> sched_ok s' zs \<and> keeps c s s' \<and> qs s' q = Some x' \<and>
    mseg (mbs (sm s')) None (q_first x') (xs @ mp # ys) None (q_last x') \<and> q_count x' = q_count x \<and> q_flag x' = q_flag x \<and> flow_ok x' = flow_ok x"
proof -
  obtain h' f l where L: "link_before q mp (if ys = [] then None else Some (hd ys)) s =
      Some (s\<lparr>sm := (sm s)\<lparr>mbs := h'\<rparr>, qs := (qs s)(q \<mapsto> set_ends f l x)\<rparr>)"
    "mseg h' None f (xs @ mp # ys) None l" "same_bare (mbs (sm s)) h'"
    using link_before_ok [OF assms(2-5)] by blast
  let ?s = "s\<lparr>sm := (sm s)\<lparr>mbs := h'\<rparr>, qs := (qs s)(q \<mapsto> set_ends f l x)\<rparr>"
  have "sched_ok (s\<lparr>qs := (qs s)(q \<mapsto> set_ends f l x)\<rparr>) zs" by (rule sched_ok_upd [OF assms(1,2)]) simp_all
  then have "sched_ok ?s zs" by (simp add: sched_ok_def sched_list_def)
  moreover have "same_net s ?s" using same_net_upd [OF assms(2), of "set_ends f l x"] by (simp add: same_net_def)
  then have "keeps c s ?s" by (rule keeps_bare [OF _ L(3)]) simp
  ultimately show ?thesis using L by (intro exI [of _ ?s] exI [of _ "set_ends f l x"]) simp
qed

lemma skip_pri_ok:
  assumes "mseg (mbs (sm s)) pv p (pris @ ords) None l" "\<forall>x \<in> set pris. plain c s True x" "\<forall>x \<in> set ords. plain c s False x"
  shows "skip_pri c p s = Some (if ords = [] then None else Some (hd ords))"
  using assms(1,2)
proof (induction pris arbitrary: pv p)
  case Nil
  then show ?case using assms(3) by (cases ords) (subst skip_pri.simps, auto elim!: plainE)+
next
  case (Cons x xs)
  obtain m where m: "p = Some x" "mbs (sm s) x = Some m" "mseg (mbs (sm s)) (Some x) (b_next m) (xs @ ords) None l" using Cons.prems by auto
  have "IS_PRI_MSG c x s = Some True" using Cons.prems(2) by (auto elim: plainE)
  then have "skip_pri c p s = skip_pri c (b_next m) s" using m by (subst skip_pri.simps) simp
  then show ?case using Cons.IH [OF m(3)] Cons.prems(2) by simp
qed

lemma skip_band_ok:
  assumes "\<forall>x \<in> set ords. plain c s False x"
  shows "skip_band b (if ords = [] then None else Some (hd ords)) s = Some (if ords = [] then None else Some (hd ords))"
  using assms by (cases ords) (auto simp: skip_band.simps [of b] elim!: plainE)

lemma place_ok:
  assumes "sched_ok s zs" "qs s q = Some x" "mseg (mbs (sm s)) None (q_first x) (pris @ ords) None (q_last x)" "distinct (pris @ mp # ords)"
    "\<forall>x \<in> set pris. plain c s True x" "\<forall>x \<in> set ords. plain c s False x" "plain c s pri mp"
  shows "\<exists>s' x'. QUEUE_PLACE_MSG c q mp b s = Some s' \<and> sched_ok s' zs \<and> keeps c s s' \<and> qs s' q = Some x' \<and>
    mseg (mbs (sm s')) None (q_first x') (pris @ mp # ords) None (q_last x') \<and> q_count x' = q_count x \<and> q_flag x' = q_flag x \<and> flow_ok x' = flow_ok x"
proof -
  obtain m where m: "mbs (sm s) mp = Some m" using assms(7) by (auto elim: plainE)
  have "QUEUE_PLACE_MSG c q mp b s = link_before q mp (if ords = [] then None else Some (hd ords)) s"
    using assms(2) skip_pri_ok [OF assms(3,5,6)] skip_band_ok [OF assms(6), of b] by (simp add: QUEUE_PLACE_MSG_def)
  then show ?thesis using link_queue [OF assms(1-4) m, of c] by simp
qed

lemma queue_atE:
  assumes "queue_at c s q pris ords"
  obtains x where "qs s q = Some x" "mseg (mbs (sm s)) None (q_first x) (pris @ ords) None (q_last x)" "flow_ok x" "q_count x = total s ords"
    "distinct (pris @ ords)" "\<forall>p \<in> set pris. plain c s True p" "\<forall>p \<in> set ords. plain c s False p"
  using assms unfolding queue_at_def by blast

text \<open>An ordinary message, at the end for \<open>putq\<close>, before the others for \<open>putbq\<close>.\<close>

lemma put_ordinary:
  assumes Q: "queue_at c s q pris ords" and S: "sched_ok s ys" and mp: "plain c s False mp" "mp \<notin> set (pris @ ords)"
  shows "\<exists>s' zs. putq c q mp mem s = Some (True, s') \<and> queue_at c s' q pris (ords @ [mp]) \<and> sched_ok s' (ys @ zs) \<and> keeps c s s' \<and> waits_for s' q = waits_for s q"
    and "\<exists>s' zs. putbq c q mp mem s = Some (True, s') \<and> queue_at c s' q pris (mp # ords) \<and> sched_ok s' (ys @ zs) \<and> keeps c s s' \<and> waits_for s' q = waits_for s q"
proof -
  obtain x where x: "qs s q = Some x" "mseg (mbs (sm s)) None (q_first x) (pris @ ords) None (q_last x)" "flow_ok x" "q_count x = total s ords"
    "distinct (pris @ ords)" "\<forall>p \<in> set pris. plain c s True p" "\<forall>p \<in> set ords. plain c s False p" using queue_atE [OF Q] .
  obtain m where m: "mbs (sm s) mp = Some m" "b_band m = 0" "IS_PRI_MSG c mp s = Some False" using plainE [OF mp(1)] by blast
  obtain s1 x1 where s1: "QUEUE_CHECK_SCHED q mp None s = Some (False, s1)" "sm s1 = sm s"
    "sched_ok s1 (if wakes x \<and> runnable x \<and> q \<notin> set ys then ys @ [q] else ys)" "same_net s s1" "qs s1 q = Some x1" "q_first x1 = q_first x"
    "q_last x1 = q_last x" "q_count x1 = q_count x + size_of s mp" "flow_ok x1" "QWANTW \<in> q_flag x1 \<longleftrightarrow> QWANTW \<in> q_flag x"
    using check_sched_ok [OF S x(1) mp(1) x(3)] by blast
  let ?ys = "if wakes x \<and> runnable x \<and> q \<notin> set ys then ys @ [q] else ys"
  obtain zs where zs: "?ys = ys @ zs" by (metis append_Nil2)
  have k1: "keeps c s s1" by (rule keeps_sm [OF s1(4,2)])
  have w1: "waits_for s1 q = waits_for s q" using s1(5,10) x(1) by (simp add: waits_for_def)
  have seg: "mseg (mbs (sm s1)) None (q_first x1) (pris @ ords) None (q_last x1)" using x(2) s1(2,6,7) by simp
  have d: "distinct (pris @ mp # ords)" "distinct ((pris @ ords) @ mp # [])" using x(5) mp(2) by auto
  have p: "plain c s1 = plain c s" "size_of s1 = size_of s" using k1 by (simp_all add: keeps_def)
  have m1: "mbs (sm s1) mp = Some m" using m(1) s1(2) by simp
  have seg0: "mseg (mbs (sm s1)) None (q_first x1) ((pris @ ords) @ []) None (q_last x1)" using seg by simp
  obtain s2 x2 where s2: "link_before q mp None s1 = Some s2" "sched_ok s2 ?ys" "keeps c s1 s2" "qs s2 q = Some x2"
    "mseg (mbs (sm s2)) None (q_first x2) ((pris @ ords) @ mp # []) None (q_last x2)" "q_count x2 = q_count x1" "q_flag x2 = q_flag x1" "flow_ok x2 = flow_ok x1"
    using link_queue [OF s1(3,5) seg0 d(2) m1, of c] by (simp only: if_True refl) blast
  have k2: "keeps c s s2" by (rule keeps_trans [OF k1 s2(3)])
  have Q2: "queue_at c s2 q pris (ords @ [mp])"
    unfolding queue_at_def using s2(4-8) s1(8,9) x(4-7) d mp k2 by (simp add: total_def keeps_def)
  have "putq c q mp mem s = Some (True, s2)" using m s1(1) s2(1) by (simp add: putq_def)
  then show "\<exists>s' zs. putq c q mp mem s = Some (True, s') \<and> queue_at c s' q pris (ords @ [mp]) \<and> sched_ok s' (ys @ zs) \<and> keeps c s s' \<and> waits_for s' q = waits_for s q"
    using Q2 s2(2,4,7) k2 w1 s1(5) unfolding zs by (intro exI [of _ s2] exI [of _ zs]) (simp add: waits_for_def)
  have P: "\<forall>x \<in> set pris. plain c s1 True x" "\<forall>x \<in> set ords. plain c s1 False x" "plain c s1 False mp" using x(6,7) mp(1) p by simp_all
  obtain s3 x3 where s3: "QUEUE_PLACE_MSG c q mp 0 s1 = Some s3" "sched_ok s3 ?ys" "keeps c s1 s3" "qs s3 q = Some x3"
    "mseg (mbs (sm s3)) None (q_first x3) (pris @ mp # ords) None (q_last x3)" "q_count x3 = q_count x1" "q_flag x3 = q_flag x1" "flow_ok x3 = flow_ok x1"
    using place_ok [OF s1(3,5) seg d(1) P] by blast
  have k3: "keeps c s s3" by (rule keeps_trans [OF k1 s3(3)])
  have Q3: "queue_at c s3 q pris (mp # ords)"
    unfolding queue_at_def using s3(4-8) s1(8,9) x(4-7) d mp k3 by (simp add: total_def keeps_def)
  have "putbq c q mp mem s = Some (True, s3)" using m s1(1) s3(1) by (simp add: putbq_def)
  then show "\<exists>s' zs. putbq c q mp mem s = Some (True, s') \<and> queue_at c s' q pris (mp # ords) \<and> sched_ok s' (ys @ zs) \<and> keeps c s s' \<and> waits_for s' q = waits_for s q"
    using Q3 s3(2,4,7) k3 w1 s1(5) unfolding zs by (intro exI [of _ s3] exI [of _ zs]) (simp add: waits_for_def)
qed

lemma same_queues_waits: "same_queues view s s' \<Longrightarrow> qs s q = Some x \<Longrightarrow> waits_for s' q = waits_for s q"
proof -
  assume same: "same_queues view s s'" and x: "qs s q = Some x"
  obtain x' where "qs s' q = Some x'" "view x' = view x" using same_queues_at [OF same x] .
  then show ?thesis using x view_flag [of x' x QWANTW] by (simp add: waits_for_def)
qed

lemma keeps_view: "same_queues view s s' \<Longrightarrow> keeps c s s'"
  by (rule keeps_sm [OF same_queues_net]) (simp_all add: same_queues_def)

lemma set_band_0: "mbs (sm s) mp = Some m \<Longrightarrow> b_band m = 0 \<Longrightarrow> set_msg mp (b_band_update (\<lambda>_. 0)) s = Some s"
proof -
  assume m: "mbs (sm s) mp = Some m" "b_band m = 0"
  have "m\<lparr>b_band := 0\<rparr> = m" using m(2) by (cases m) simp
  then have "(mbs (sm s))(mp \<mapsto> m\<lparr>b_band := 0\<rparr>) = mbs (sm s)" using m(1) by (simp add: fun_upd_idem)
  then show ?thesis using m(1) by (simp add: set_msg_def set_mb_def)
qed

lemma upd_order: "s\<lparr>qs := Q, sm := M\<rparr> = s\<lparr>sm := M, qs := Q\<rparr>" for s :: strq
  by simp

lemma putbq_front:
  assumes "qs s q = Some x" "mseg (mbs (sm s)) None (q_first x) xs None (q_last x)" "mp \<notin> set xs" "mbs (sm s) mp = Some m" "b_band m = 0"
    "IS_PRI_MSG c mp s = Some True"
  shows "putbq c q mp mem s = do { s \<leftarrow> link_before q mp (q_first x) s; (r, s) \<leftarrow> QUEUE_TRYSCHED q s; Some (True, s) }"
proof (cases xs)
  case Nil
  have e: "m\<lparr>b_next := None, b_prev := None, b_band := 0\<rparr> = m\<lparr>b_next := None, b_prev := None\<rparr>" using assms(5) by (cases m) simp
  have "q_first x = None" "q_last x = None" using assms(2) Nil by simp_all
  moreover have "x\<lparr>q_last := Some mp, q_first := Some mp\<rparr> = x\<lparr>q_first := Some mp, q_last := Some mp\<rparr>" by simp
  note f = this
  ultimately show ?thesis using assms by (simp add: putbq_def link_before_def set_msg_def set_mb_def set_q_def e f)
next
  case (Cons y ys)
  obtain n where n: "q_first x = Some y" "mbs (sm s) y = Some n" "b_prev n = None" using assms(2) Cons by auto
  have ne: "y \<noteq> mp" using assms(3) Cons by auto
  have e: "m\<lparr>b_next := Some y, b_prev := None, b_band := 0\<rparr> = m\<lparr>b_next := Some y, b_prev := None\<rparr>" using assms(5) by (cases m) simp
  show ?thesis using assms n ne
    by (simp add: putbq_def link_before_def set_msg_def set_mb_def set_q_def fun_upd_twist [of mp y] e upd_order)
qed

lemma put_priority:
  assumes Q: "queue_at c s q pris ords" and S: "sched_ok s ys" and mp: "plain c s True mp" "mp \<notin> set (pris @ ords)"
  shows "\<exists>s' zs. putq c q mp mem s = Some (True, s') \<and> queue_at c s' q (pris @ [mp]) ords \<and> sched_ok s' (ys @ zs) \<and> keeps c s s' \<and>
      waits_for s' q = waits_for s q \<and> (runnable (the (qs s q)) \<longrightarrow> q \<in> set (ys @ zs))"
    and "\<exists>s' zs. putbq c q mp mem s = Some (True, s') \<and> queue_at c s' q (mp # pris) ords \<and> sched_ok s' (ys @ zs) \<and> keeps c s s' \<and>
      waits_for s' q = waits_for s q \<and> (runnable (the (qs s q)) \<longrightarrow> q \<in> set (ys @ zs))"
proof -
  obtain x where x: "qs s q = Some x" "mseg (mbs (sm s)) None (q_first x) (pris @ ords) None (q_last x)" "flow_ok x" "q_count x = total s ords"
    "distinct (pris @ ords)" "\<forall>p \<in> set pris. plain c s True p" "\<forall>p \<in> set ords. plain c s False p" using queue_atE [OF Q] .
  obtain m where m: "mbs (sm s) mp = Some m" "b_band m = 0" "IS_PRI_MSG c mp s = Some True" using plainE [OF mp(1)] by blast
  have d: "distinct ((pris @ [mp]) @ ords)" "distinct (mp # pris @ ords)" using x(5) mp(2) by auto
  have dp: "distinct (pris @ mp # ords)" "distinct ([] @ mp # pris @ ords)" using x(5) mp(2) by auto
  obtain s1 where s1: "QUEUE_TRYSCHED q s = Some (runnable x, s1)" "sched_ok s1 (if runnable x \<and> q \<notin> set ys then ys @ [q] else ys)" "same_queues view s s1"
    using trysched_ok [OF S x(1)] by blast
  let ?zs = "if runnable x \<and> q \<notin> set ys then [q] else []"
  have zs: "(if runnable x \<and> q \<notin> set ys then ys @ [q] else ys) = ys @ ?zs" by simp
  have run: "runnable (the (qs s q)) \<longrightarrow> q \<in> set (ys @ ?zs)" using x(1) by simp
  obtain x1 where x1: "qs s1 q = Some x1" "view x1 = view x" using same_queues_at [OF s1(3) x(1)] .
  note f1 = view_fields [OF x1(2)]
  have sm1: "sm s1 = sm s" using s1(3) by (simp add: same_queues_def)
  have k1: "keeps c s s1" by (rule keeps_view [OF s1(3)])
  then have p: "plain c s1 = plain c s" by (simp add: keeps_def)
  have seg: "mseg (mbs (sm s1)) None (q_first x1) (pris @ ords) None (q_last x1)" using x(2) sm1 f1 by simp
  have P: "\<forall>x \<in> set pris. plain c s1 True x" "\<forall>x \<in> set ords. plain c s1 False x" "plain c s1 True mp" using x(6,7) mp(1) p by simp_all
  obtain s2 x2 where s2: "QUEUE_PLACE_MSG c q mp 255 s1 = Some s2" "sched_ok s2 (ys @ ?zs)" "keeps c s1 s2" "qs s2 q = Some x2"
    "mseg (mbs (sm s2)) None (q_first x2) (pris @ mp # ords) None (q_last x2)" "q_count x2 = q_count x1" "q_flag x2 = q_flag x1" "flow_ok x2 = flow_ok x1"
    using place_ok [OF s1(2) [unfolded zs] x1(1) seg dp(1) P] by blast
  have k2: "keeps c s s2" by (rule keeps_trans [OF k1 s2(3)])
  have Q2: "queue_at c s2 q (pris @ [mp]) ords"
    unfolding queue_at_def using s2(4-8) f1 x(3-7) d mp k2 view_flow [OF x1(2)] by (simp add: total_def keeps_def)
  have w2: "waits_for s2 q = waits_for s q" using same_queues_waits [OF s1(3) x(1)] s2(4,7) x1(1) by (simp add: waits_for_def)
  have "putq c q mp mem s = Some (True, s2)" using m(3) s1(1) s2(1) set_band_0 [OF m(1,2)] by (simp add: putq_def)
  then show "\<exists>s' zs. putq c q mp mem s = Some (True, s') \<and> queue_at c s' q (pris @ [mp]) ords \<and> sched_ok s' (ys @ zs) \<and> keeps c s s' \<and>
      waits_for s' q = waits_for s q \<and> (runnable (the (qs s q)) \<longrightarrow> q \<in> set (ys @ zs))"
    using Q2 s2(2) k2 w2 run by (intro exI [of _ s2] exI [of _ ?zs]) blast
  have first: "q_first x = (if pris @ ords = [] then None else Some (hd (pris @ ords)))" using mseg_start [OF x(2)] x(2) by (cases "pris @ ords") auto
  have seg0: "mseg (mbs (sm s)) None (q_first x) ([] @ pris @ ords) None (q_last x)" using x(2) by simp
  obtain s3 x3 where s3: "link_before q mp (q_first x) s = Some s3" "sched_ok s3 ys" "keeps c s s3" "qs s3 q = Some x3"
    "mseg (mbs (sm s3)) None (q_first x3) ([] @ mp # pris @ ords) None (q_last x3)" "q_count x3 = q_count x" "q_flag x3 = q_flag x" "flow_ok x3 = flow_ok x"
    using link_queue [OF S x(1) seg0 dp(2) m(1), of c] first by auto
  have net3: "runnable x3 = runnable x"
  proof -
    have "same_net s s3" using s3(3) by (simp add: keeps_def)
    then obtain y where "qs s3 q = Some y" "net y = net x" using same_net_at [OF _ x(1)] by blast
    then show ?thesis using s3(4) net_runnable [of y x] by simp
  qed
  have Q3: "queue_at c s3 q (mp # pris) ords"
    unfolding queue_at_def using s3(4-8) x(3-7) d mp s3(3) by (simp add: total_def keeps_def)
  obtain s4 where s4: "QUEUE_TRYSCHED q s3 = Some (runnable x3, s4)" "sched_ok s4 (if runnable x3 \<and> q \<notin> set ys then ys @ [q] else ys)" "same_queues view s3 s4"
    using trysched_ok [OF s3(2,4)] by blast
  have ok4: "sched_ok s4 (ys @ ?zs)" using s4(2) unfolding net3 zs .
  have Q4: "queue_at c s4 q (mp # pris) ords" by (rule queue_at_view [OF Q3 s4(3)])
  have k4: "keeps c s s4" by (rule keeps_trans [OF s3(3) keeps_view [OF s4(3)]])
  have w4: "waits_for s4 q = waits_for s q" using same_queues_waits [OF s4(3) s3(4)] s3(4,7) x(1) by (simp add: waits_for_def)
  have "putbq c q mp mem s = Some (True, s4)" using putbq_front [OF x(1,2) mp(2) m] s3(1) s4(1) by simp
  then show "\<exists>s' zs. putbq c q mp mem s = Some (True, s') \<and> queue_at c s' q (mp # pris) ords \<and> sched_ok s' (ys @ zs) \<and> keeps c s s' \<and>
      waits_for s' q = waits_for s q \<and> (runnable (the (qs s q)) \<longrightarrow> q \<in> set (ys @ zs))"
    using Q4 ok4 k4 w4 run by (intro exI [of _ s4] exI [of _ ?zs]) blast
qed

section \<open>Getting\<close>

text \<open>A change of the queue's own record that leaves the schedule and the stream alone.\<close>

lemma set_q_ok:
  assumes "sched_ok s ys" "qs s q = Some x" "q_link (f x) = q_link x" "QENAB \<in> q_flag (f x) \<longleftrightarrow> QENAB \<in> q_flag x" "net (f x) = net x"
  shows "\<exists>s'. set_q q f s = Some s' \<and> sched_ok s' ys \<and> keeps c s s' \<and> sm s' = sm s \<and> qs s' q = Some (f x)"
proof -
  let ?s = "s\<lparr>qs := (qs s)(q \<mapsto> f x)\<rparr>"
  have "sched_ok ?s ys" by (rule sched_ok_upd [OF assms(1-4)])
  moreover have "keeps c s ?s" by (rule keeps_sm [OF same_net_upd [OF assms(2,5)]]) simp
  ultimately show ?thesis using assms(2) by (simp add: set_q_def)
qed

lemma drained_ok:
  assumes "sched_ok s ys" "qs s q = Some x"
  shows "\<exists>s'. QUEUE_DRAINED q s = Some s' \<and> sched_ok s' ys \<and> keeps c s s' \<and> sm s' = sm s \<and> qs s' q = Some (clear_flag QDRAIN x)"
proof (cases "QDRAIN \<in> q_flag x")
  case True
  let ?s = "q_event (Shead_broadcast q) s"
  have ok: "sched_ok ?s ys" "qs ?s q = Some x" using assms by simp_all
  have k: "keeps c s ?s" by (rule keeps_sm) simp_all
  obtain s' where "set_q q (clear_flag QDRAIN) ?s = Some s'" "sched_ok s' ys" "keeps c ?s s'" "sm s' = sm ?s" "qs s' q = Some (clear_flag QDRAIN x)"
    using set_q_ok [OF ok, of "clear_flag QDRAIN" c] by (auto simp: clear_flag_def net_def)
  then show ?thesis using True assms(2) keeps_trans [OF k] by (simp add: QUEUE_DRAINED_def)
next
  case False
  have "clear_flag QDRAIN x = x" using False by (simp add: clear_flag_def)
  then show ?thesis using False assms by (simp add: QUEUE_DRAINED_def)
qed

lemma flow_drain [simp]: "flow_ok (clear_flag QDRAIN x) = flow_ok x"
  by (simp add: flow_ok_def clear_flag_def)

lemma take_first_ok:
  assumes "sched_ok s ys" "qs s q = Some x" "mseg (mbs (sm s)) None (q_first x) (mp # rest) None (q_last x)" "distinct (mp # rest)"
    "mbs (sm s) mp = Some m" "flow_ok x"
  shows "\<exists>s' x'. take_first q m s = Some s' \<and> sched_ok s' ys \<and> keeps c s s' \<and> qs s' q = Some x' \<and>
    mseg (mbs (sm s')) None (q_first x') rest None (q_last x') \<and> q_count x' = q_count x \<and> q_flag x' - {QDRAIN} = q_flag x - {QDRAIN} \<and> flow_ok x'"
proof -
  have seg: "mseg (mbs (sm s)) (Some mp) (b_next m) rest None (q_last x)" using assms(3,5) by simp
  let ?x1 = "x\<lparr>q_first := b_next m\<rparr>"
  obtain s1 where s1: "set_q q (q_first_update (\<lambda>_. b_next m)) s = Some s1" "sched_ok s1 ys" "keeps c s s1" "sm s1 = sm s" "qs s1 q = Some ?x1"
    using set_q_ok [OF assms(1,2), of "q_first_update (\<lambda>_. b_next m)" c] by (auto simp: net_def)
  have "\<exists>s2 x2. (case b_next m of
         None \<Rightarrow> do { s \<leftarrow> set_q q (q_last_update (\<lambda>_. None)) s1; QUEUE_DRAINED q s }
       | Some n \<Rightarrow> set_msg n (b_prev_update (\<lambda>_. None)) s1) = Some s2 \<and> sched_ok s2 ys \<and> keeps c s1 s2 \<and> qs s2 q = Some x2 \<and>
       mseg (mbs (sm s2)) None (q_first x2) rest None (q_last x2) \<and> q_count x2 = q_count x \<and> q_flag x2 - {QDRAIN} = q_flag x - {QDRAIN} \<and> flow_ok x2"
  proof (cases rest)
    case Nil
    then have n: "b_next m = None" using seg by simp
    let ?x2 = "?x1\<lparr>q_last := None\<rparr>"
    obtain s2 where s2: "set_q q (q_last_update (\<lambda>_. None)) s1 = Some s2" "sched_ok s2 ys" "keeps c s1 s2" "sm s2 = sm s1" "qs s2 q = Some ?x2"
      using set_q_ok [OF s1(2,5), of "q_last_update (\<lambda>_. None)" c] by (auto simp: net_def)
    obtain s3 where s3: "QUEUE_DRAINED q s2 = Some s3" "sched_ok s3 ys" "keeps c s2 s3" "qs s3 q = Some (clear_flag QDRAIN ?x2)"
      using drained_ok [OF s2(2,5)] by blast
    have "flow_ok ?x2" using assms(6) by (simp add: flow_ok_def)
    then show ?thesis using n s2(1) s3 keeps_trans [OF s2(3) s3(3)] Nil
      by (intro exI [of _ s3] exI [of _ "clear_flag QDRAIN ?x2"]) (auto simp: clear_flag_def flow_ok_def)
  next
    case (Cons y zs)
    obtain n where n: "b_next m = Some y" "mbs (sm s) y = Some n" "mseg (mbs (sm s)) (Some y) (b_next n) zs None (q_last x)" using seg Cons by auto
    let ?h = "(mbs (sm s))(y \<mapsto> n\<lparr>b_prev := None\<rparr>)" let ?s = "s1\<lparr>sm := (sm s)\<lparr>mbs := ?h\<rparr>\<rparr>"
    have eq: "set_msg y (b_prev_update (\<lambda>_. None)) s1 = Some ?s" using n(2) s1(4) by (simp add: set_msg_def set_mb_def)
    have "same_bare (mbs (sm s1)) ?h" using n(2) s1(4) by (auto intro: same_bare_upd)
    then have "keeps c s1 ?s" using s1(4) by (intro keeps_bare [of s1 ?s ?h c]) simp_all
    moreover have "mseg ?h None (Some y) (y # zs) None (q_last x)" using n(3) assms(4) Cons by simp
    moreover have "sched_ok ?s ys" using s1(2) by simp
    ultimately show ?thesis using eq n(1) s1(5) Cons assms(6)
      by (intro exI [of _ ?s] exI [of _ ?x1]) (simp add: flow_ok_def del: mseg.simps)
  qed
  then obtain s2 x2 where s2: "(case b_next m of
         None \<Rightarrow> do { s \<leftarrow> set_q q (q_last_update (\<lambda>_. None)) s1; QUEUE_DRAINED q s }
       | Some n \<Rightarrow> set_msg n (b_prev_update (\<lambda>_. None)) s1) = Some s2" "sched_ok s2 ys" "keeps c s1 s2" "qs s2 q = Some x2"
    "mseg (mbs (sm s2)) None (q_first x2) rest None (q_last x2)" "q_count x2 = q_count x" "q_flag x2 - {QDRAIN} = q_flag x - {QDRAIN}" "flow_ok x2" by blast
  let ?x3 = "x2\<lparr>q_lastband := b_band m\<rparr>"
  obtain s3 where s3: "set_q q (q_lastband_update (\<lambda>_. b_band m)) s2 = Some s3" "sched_ok s3 ys" "keeps c s2 s3" "sm s3 = sm s2" "qs s3 q = Some ?x3"
    using set_q_ok [OF s2(2,4), of "q_lastband_update (\<lambda>_. b_band m)" c] by (auto simp: net_def)
  have "take_first q m s = Some s3" using s1(1) s2(1) s3(1) by (simp add: take_first_def)
  moreover have "keeps c s s3" using keeps_trans [OF keeps_trans [OF s1(3) s2(3)] s3(3)] .
  moreover have "flow_ok ?x3" using s2(8) by (simp add: flow_ok_def)
  ultimately show ?thesis using s3(2,4,5) s2(5-7) by (intro exI [of _ s3] exI [of _ ?x3]) simp
qed

text \<open>A queue that runs low lets its writers know.\<close>

definition lowered :: "int \<Rightarrow> queue \<Rightarrow> queue" where
  "lowered n x = (let x = x\<lparr>q_count := q_count x - n\<rparr> in if QFULL \<in> q_flag x \<and> q_count x \<le> q_lowat x then unfull x else x)"

lemma lowered_simps [simp]:
  "q_first (lowered n x) = q_first x" "q_last (lowered n x) = q_last x" "q_count (lowered n x) = q_count x - n" "q_link (lowered n x) = q_link x"
  "net (lowered n x) = net x" "QENAB \<in> q_flag (lowered n x) \<longleftrightarrow> QENAB \<in> q_flag x"
  by (simp_all add: lowered_def Let_def unfull_def clear_flag_def set_flag_def net_def)

lemma flow_lowered:
  assumes "flow_ok x" "0 \<le> n"
  shows "flow_ok (clear_flag QBACK (lowered n x))"
    and "QWANTW \<in> q_flag (lowered n x) \<Longrightarrow> QWANTW \<in> q_flag x"
    and "QBACK \<in> q_flag (lowered n x) \<longleftrightarrow> QWANTW \<in> q_flag x \<and> QWANTW \<notin> q_flag (lowered n x)"
proof -
  let ?low = "QFULL \<in> q_flag x \<and> q_count x - n \<le> q_lowat x"
  have "lowered n x = (if ?low then unfull (x\<lparr>q_count := q_count x - n\<rparr>) else x\<lparr>q_count := q_count x - n\<rparr>)" by (simp add: lowered_def Let_def)
  moreover have "flow_ok (clear_flag QBACK (unfull (x\<lparr>q_count := q_count x - n\<rparr>)))" "QWANTW \<notin> q_flag (unfull (x\<lparr>q_count := q_count x - n\<rparr>))"
    "QBACK \<in> q_flag (unfull (x\<lparr>q_count := q_count x - n\<rparr>)) \<longleftrightarrow> QWANTW \<in> q_flag x" if "?low"
    using assms that by (auto simp: unfull_def Let_def clear_flag_def set_flag_def flow_ok_def)
  moreover have "flow_ok (clear_flag QBACK (x\<lparr>q_count := q_count x - n\<rparr>))" if "\<not> ?low"
    using assms that by (auto simp: clear_flag_def flow_ok_def)
  moreover have "QBACK \<notin> q_flag x" "QWANTW \<in> q_flag x \<Longrightarrow> QFULL \<in> q_flag x" using assms(1) by (simp_all add: flow_ok_def)
  ultimately show "flow_ok (clear_flag QBACK (lowered n x))" "QWANTW \<in> q_flag (lowered n x) \<Longrightarrow> QWANTW \<in> q_flag x"
    "QBACK \<in> q_flag (lowered n x) \<longleftrightarrow> QWANTW \<in> q_flag x \<and> QWANTW \<notin> q_flag (lowered n x)" by (cases ?low; simp)+
qed

lemma back_end_ok:
  assumes S: "sched_ok s ys" and x: "qs s q = Some x" and flow: "flow_ok (clear_flag QBACK x)" and str: "stream c s (OTHERQ c q) us"
    and seg: "mseg (mbs (sm s)) None (q_first x) (pris @ ords) None (q_last x)" and cnt: "q_count x = total s ords"
    and d: "distinct (pris @ ords)" and p: "\<forall>p \<in> set pris. plain c s True p" "\<forall>p \<in> set ords. plain c s False p"
  shows "\<exists>s' zs. back_end c q s = Some s' \<and> queue_at c s' q pris ords \<and> sched_ok s' (ys @ zs) \<and> keeps c s s' \<and>
    (waits_for s' q \<longleftrightarrow> QWANTW \<in> q_flag x) \<and> (QBACK \<in> q_flag x \<longrightarrow> (\<forall>p. back_target c s us = Some p \<longrightarrow> p \<in> set (ys @ zs)))"
proof (cases "QBACK \<in> q_flag x")
  case False
  have "clear_flag QBACK x = x" using False by (simp add: clear_flag_def)
  then have "queue_at c s q pris ords" using x seg flow cnt d p by (simp add: queue_at_def)
  then show ?thesis using False S x by (intro exI [of _ s] exI [of _ "[]"]) (simp add: back_end_def waits_for_def)
next
  case True
  obtain s1 where s1: "set_q q (clear_flag QBACK) s = Some s1" "sched_ok s1 ys" "keeps c s s1" "sm s1 = sm s" "qs s1 q = Some (clear_flag QBACK x)"
    using set_q_ok [OF S x, of "clear_flag QBACK" c] by (auto simp: clear_flag_def net_def)
  have Q1: "queue_at c s1 q pris ords"
    unfolding queue_at_def using s1(3-5) flow seg cnt d p by (simp add: keeps_def total_def) (simp add: clear_flag_def)
  have n1: "same_net s s1" using s1(3) by (simp add: keeps_def)
  obtain s2 zs where s2: "backenab_loop c (OTHERQ c q) s1 = Some s2" "sched_ok s2 (ys @ zs)" "same_queues view s1 s2"
    "\<forall>p. back_target c s1 us = Some p \<longrightarrow> p \<in> set (ys @ zs)"
    using backenab_ok [OF s1(2) stream_net [OF n1 str]] by blast
  have "back_target c s1 us = back_target c s us" using back_target_net [OF n1] stream_dom [OF str] by blast
  moreover have "waits_for s2 q \<longleftrightarrow> QWANTW \<in> q_flag x" using same_queues_waits [OF s2(3) s1(5)] s1(5) by (simp add: waits_for_def clear_flag_def)
  ultimately show ?thesis
    using True x s1(1) s2 queue_at_view [OF Q1 s2(3)] keeps_trans [OF s1(3) keeps_view [OF s2(3)]]
    by (intro exI [of _ s2] exI [of _ zs]) (simp add: back_end_def QUEUE_BACKENAB_def)
qed

lemma leaves_priority: "plain c s True mp \<Longrightarrow> msg_leaves c q mp s = Some s"
  by (auto simp: msg_leaves_def elim!: plainE)

lemma reduce_lowered: "QUEUE_REDUCE q n = set_q q (lowered n)"
  unfolding QUEUE_REDUCE_def lowered_def by (rule refl)

lemma leaves_ordinary: "plain c s False mp \<Longrightarrow> msg_leaves c q mp s = set_q q (lowered (size_of s mp)) s"
  by (auto simp: msg_leaves_def reduce_lowered elim!: plainE)

lemma getq_empty:
  assumes Q: "queue_at c s q [] []" and S: "sched_ok s ys" and str: "stream c s (OTHERQ c q) us"
  shows "\<exists>s'. getq c q s = Some (None, s') \<and> queue_at c s' q [] [] \<and> sched_ok s' ys \<and> keeps c s s' \<and> waits_for s' q = waits_for s q"
proof -
  obtain x where x: "qs s q = Some x" "mseg (mbs (sm s)) None (q_first x) ([] @ []) None (q_last x)" "flow_ok x" "q_count x = total s []" using queue_atE [OF Q] .
  obtain s1 where s1: "set_q q (set_flag QWANTR) s = Some s1" "sched_ok s1 ys" "keeps c s s1" "sm s1 = sm s" "qs s1 q = Some (set_flag QWANTR x)"
    using set_q_ok [OF S x(1), of "set_flag QWANTR" c] by (auto simp: set_flag_def net_def)
  have f: "flow_ok (set_flag QWANTR x)" "QBACK \<notin> q_flag (set_flag QWANTR x)" using x(3) by (auto simp: flow_ok_def set_flag_def)
  have "queue_at c s1 q [] []" unfolding queue_at_def using x s1(5) f(1) by (simp add: set_flag_def total_def)
  moreover have "getq c q s = Some (None, s1)" using x s1(1,5) f(2) by (simp add: getq_def back_end_def)
  moreover have "waits_for s1 q = waits_for s q" using x(1) s1(5) by (simp add: waits_for_def set_flag_def)
  ultimately show ?thesis using s1(2,3) by blast
qed

text \<open>The message, and what is left behind it.\<close>

fun head_of :: "addr list \<Rightarrow> addr list \<Rightarrow> ptr \<times> addr list \<times> addr list" where
  "head_of (p # pris) ords = (Some p, pris, ords)"
| "head_of [] (p # ords) = (Some p, [], ords)"
| "head_of [] [] = (None, [], [])"

lemma getq_ok:
  assumes Q: "queue_at c s q pris ords" and S: "sched_ok s ys" and str: "stream c s (OTHERQ c q) us" and h: "head_of pris ords = (r, pris', ords')"
  shows "\<exists>s' zs. getq c q s = Some (r, s') \<and> queue_at c s' q pris' ords' \<and> sched_ok s' (ys @ zs) \<and> keeps c s s' \<and>
    (waits_for s' q \<longrightarrow> waits_for s q) \<and> (waits_for s q \<and> \<not> waits_for s' q \<longrightarrow> (\<forall>p. back_target c s us = Some p \<longrightarrow> p \<in> set (ys @ zs)))"
proof (cases "pris @ ords")
  case Nil
  then have e: "pris = []" "ords = []" "r = None" "pris' = []" "ords' = []" using h by auto
  show ?thesis using getq_empty [OF Q [unfolded e] S str] unfolding e by (metis append_Nil2)
next
  case (Cons mp rest)
  obtain x where x: "qs s q = Some x" "mseg (mbs (sm s)) None (q_first x) (pris @ ords) None (q_last x)" "flow_ok x" "q_count x = total s ords"
    "distinct (pris @ ords)" "\<forall>p \<in> set pris. plain c s True p" "\<forall>p \<in> set ords. plain c s False p" using queue_atE [OF Q] .
  have e: "r = Some mp" "pris' @ ords' = rest" "set pris' \<subseteq> set pris" "set ords' \<subseteq> set ords" using h Cons by (cases pris; cases ords; auto)+
  have pri: "plain c s (pris \<noteq> []) mp" using x(6,7) Cons by (cases pris) auto
  obtain m where m: "mbs (sm s) mp = Some m" using plainE [OF pri] by blast
  obtain s1 x1 where s1: "take_first q m s = Some s1" "sched_ok s1 ys" "keeps c s s1" "qs s1 q = Some x1"
    "mseg (mbs (sm s1)) None (q_first x1) rest None (q_last x1)" "q_count x1 = q_count x" "q_flag x1 - {QDRAIN} = q_flag x - {QDRAIN}" "flow_ok x1"
    using take_first_ok [OF S x(1) x(2,5) [unfolded Cons] m x(3)] by blast
  have k: "plain c s1 = plain c s" "size_of s1 = size_of s" using s1(3) by (simp_all add: keeps_def)
  let ?n = "if pris = [] then size_of s mp else 0" let ?x2 = "if pris = [] then lowered ?n x1 else x1"
  have n: "0 \<le> ?n" using plainE [OF pri] by auto
  have "\<exists>s2. msg_leaves c q mp s1 = Some s2 \<and> sched_ok s2 ys \<and> keeps c s1 s2 \<and> sm s2 = sm s1 \<and> qs s2 q = Some ?x2"
  proof (cases "pris = []")
    case True
    then show ?thesis using leaves_ordinary [of c s1 mp q] pri k set_q_ok [OF s1(2,4), of "lowered ?n" c] by simp
  next
    case False
    then show ?thesis using leaves_priority [of c s1 mp q] pri k s1(2,4) by simp
  qed
  then obtain s2 where s2: "msg_leaves c q mp s1 = Some s2" "sched_ok s2 ys" "keeps c s1 s2" "sm s2 = sm s1" "qs s2 q = Some ?x2" by blast
  have k2: "keeps c s s2" by (rule keeps_trans [OF s1(3) s2(3)])
  have w1: "QWANTW \<in> q_flag x1 \<longleftrightarrow> waits_for s q" using s1(7) x(1) by (auto simp: waits_for_def)
  have b1: "QBACK \<notin> q_flag x1" "clear_flag QBACK x1 = x1" using s1(8) by (auto simp: flow_ok_def clear_flag_def)
  have flow: "flow_ok (clear_flag QBACK ?x2)" using flow_lowered(1) [OF s1(8) n] s1(8) b1 by (cases "pris = []") simp_all
  have want: "QWANTW \<in> q_flag ?x2 \<Longrightarrow> waits_for s q" "waits_for s q \<and> QWANTW \<notin> q_flag ?x2 \<Longrightarrow> QBACK \<in> q_flag ?x2"
    using flow_lowered(2,3) [OF s1(8) n] w1 by (cases "pris = []"; simp)+
  have cnt: "q_count ?x2 = total s2 ords'"
  proof (cases pris)
    case Nil
    then have "ords = mp # ords'" using h Cons by auto
    then show ?thesis using s1(6) x(4) Nil keeps_total [OF k2, of ords'] by (simp add: total_def)
  next
    case (Cons a list)
    then have "ords' = ords" using h by auto
    then show ?thesis using s1(6) x(4) Cons keeps_total [OF k2, of ords] by simp
  qed
  have n2: "same_net s s2" using k2 by (simp add: keeps_def)
  have seg2: "mseg (mbs (sm s2)) None (q_first ?x2) (pris' @ ords') None (q_last ?x2)" using s1(5) s2(4) e(2) by simp
  have d2: "distinct (pris' @ ords')" using x(5) Cons e(2) by simp
  have p2: "\<forall>p \<in> set pris'. plain c s2 True p" "\<forall>p \<in> set ords'. plain c s2 False p" using x(6,7) e(3,4) k2 by (auto simp: keeps_def)
  obtain s3 zs where s3: "back_end c q s2 = Some s3" "queue_at c s3 q pris' ords'" "sched_ok s3 (ys @ zs)" "keeps c s2 s3"
    "waits_for s3 q \<longleftrightarrow> QWANTW \<in> q_flag ?x2" "QBACK \<in> q_flag ?x2 \<longrightarrow> (\<forall>p. back_target c s2 us = Some p \<longrightarrow> p \<in> set (ys @ zs))"
    using back_end_ok [OF s2(2,5) flow stream_net [OF n2 str] seg2 cnt d2 p2] by blast
  have "back_target c s2 us = back_target c s us" using back_target_net [OF n2] stream_dom [OF str] by blast
  moreover have "q_first x = Some mp" using mseg_start [OF x(2)] Cons by simp
  then have "getq c q s = Some (r, s3)" using x(1) m s1(1) s2(1) s3(1) e(1) by (simp add: getq_def)
  ultimately show ?thesis using s3(2-6) keeps_trans [OF k2 s3(4)] want by (intro exI [of _ s3] exI [of _ zs]) simp
qed

lemma canput_ok:
  assumes Q: "queue_at c s q pris ords" and S: "sched_ok s ys"
  shows "\<exists>s' b. canput q s = Some (b, s') \<and> queue_at c s' q pris ords \<and> sched_ok s' ys \<and> keeps c s s' \<and> (waits_for s' q \<longleftrightarrow> \<not> b \<or> waits_for s q) \<and>
    (\<not> b \<longrightarrow> total s ords > q_lowat (the (qs s q))) \<and> (b \<longrightarrow> total s ords \<le> q_hiwat (the (qs s q)))"
proof -
  obtain x where x: "qs s q = Some x" "mseg (mbs (sm s)) None (q_first x) (pris @ ords) None (q_last x)" "flow_ok x" "q_count x = total s ords" using queue_atE [OF Q] .
  show ?thesis
  proof (cases "QFULL \<in> q_flag x")
    case False
    then show ?thesis using Q S x by (intro exI [of _ s] exI [of _ True]) (auto simp: canput_def waits_for_def flow_ok_def)
  next
    case True
    let ?x = "set_flag QWANTW x"
    obtain s1 where s1: "set_q q (set_flag QWANTW) s = Some s1" "sched_ok s1 ys" "keeps c s s1" "sm s1 = sm s" "qs s1 q = Some ?x"
      using set_q_ok [OF S x(1), of "set_flag QWANTW" c] by (auto simp: set_flag_def net_def)
    have f: "flow_ok ?x" "QWANTW \<in> q_flag ?x" "total s ords > q_lowat x" using x(3,4) True by (auto simp: flow_ok_def set_flag_def)
    have "queue_at c s1 q pris ords" by (rule queue_at_cong [OF Q s1(4) x(1) s1(5)]) (use f(1) in \<open>simp_all add: set_flag_def\<close>)
    then show ?thesis using True x(1) s1 f by (intro exI [of _ s1] exI [of _ False]) (auto simp: canput_def waits_for_def)
  qed
qed

section \<open>Sequences of calls\<close>

text \<open>The calls of the modules at the two sides of a queue, in any order. \<open>mem\<close> is the memory offered for a band, of which a message without one has no use.\<close>

datatype qop = Putq addr ptr | Putbq addr ptr | Getq | Canput

fun do_op :: "q_cfg \<Rightarrow> addr \<Rightarrow> qop \<Rightarrow> strq \<Rightarrow> (ptr list \<times> strq) option" where
  "do_op c q (Putq p mem) s = do { (r, s) \<leftarrow> putq c q p mem s; Some ([], s) }"
| "do_op c q (Putbq p mem) s = do { (r, s) \<leftarrow> putbq c q p mem s; Some ([], s) }"
| "do_op c q Getq s = do { (r, s) \<leftarrow> getq c q s; Some ([r], s) }"
| "do_op c q Canput s = do { (r, s) \<leftarrow> canput q s; Some ([], s) }"

fun do_ops :: "q_cfg \<Rightarrow> addr \<Rightarrow> qop list \<Rightarrow> strq \<Rightarrow> (ptr list \<times> strq) option" where
  "do_ops c q [] s = Some ([], s)"
| "do_ops c q (x # xs) s = do { (r, s) \<leftarrow> do_op c q x s; (rs, s) \<leftarrow> do_ops c q xs s; Some (r @ rs, s) }"

text \<open>What they promise, on two lists of messages; \<open>pri\<close> tells which messages have high priority.\<close>

fun spec_op :: "(addr \<Rightarrow> bool) \<Rightarrow> qop \<Rightarrow> addr list \<times> addr list \<Rightarrow> ptr list \<times> addr list \<times> addr list" where
  "spec_op pri (Putq p _) (ps, os) = (if pri p then ([], ps @ [p], os) else ([], ps, os @ [p]))"
| "spec_op pri (Putbq p _) (ps, os) = (if pri p then ([], p # ps, os) else ([], ps, p # os))"
| "spec_op pri Getq (ps, os) = (case head_of ps os of (r, t) \<Rightarrow> ([r], t))"
| "spec_op pri Canput t = ([], t)"

fun spec_ops :: "(addr \<Rightarrow> bool) \<Rightarrow> qop list \<Rightarrow> addr list \<times> addr list \<Rightarrow> ptr list \<times> addr list \<times> addr list" where
  "spec_ops pri [] t = ([], t)"
| "spec_ops pri (x # xs) t = (case spec_op pri x t of (r, t) \<Rightarrow> case spec_ops pri xs t of (rs, t) \<Rightarrow> (r @ rs, t))"

text \<open>A message is put that is not in the queue, and has no band.\<close>

fun can_put :: "(addr \<Rightarrow> bool) \<Rightarrow> qop \<Rightarrow> addr list \<times> addr list \<Rightarrow> bool" where
  "can_put ok (Putq p _) (ps, os) = (ok p \<and> p \<notin> set (ps @ os))"
| "can_put ok (Putbq p _) (ps, os) = (ok p \<and> p \<notin> set (ps @ os))"
| "can_put ok _ _ = True"

fun all_put :: "(addr \<Rightarrow> bool) \<Rightarrow> (addr \<Rightarrow> bool) \<Rightarrow> qop list \<Rightarrow> addr list \<times> addr list \<Rightarrow> bool" where
  "all_put ok pri [] t = True"
| "all_put ok pri (x # xs) t = (can_put ok x t \<and> all_put ok pri xs (snd (spec_op pri x t)))"

definition frees_writer :: "q_cfg \<Rightarrow> strq \<Rightarrow> strq \<Rightarrow> addr \<Rightarrow> addr list \<Rightarrow> addr list \<Rightarrow> bool" where
  "frees_writer c s s' q us ys \<longleftrightarrow> (waits_for s q \<and> \<not> waits_for s' q \<longrightarrow> (\<forall>p. back_target c s us = Some p \<longrightarrow> p \<in> set ys))"

lemma do_op_ok:
  assumes Q: "queue_at c s q ps os" and S: "sched_ok s ys" and str: "stream c s (OTHERQ c q) us" and p: "can_put (\<lambda>p. plain c s (pri p) p) x (ps, os)"
    and e: "spec_op pri x (ps, os) = (r, ps', os')"
  shows "\<exists>s' zs. do_op c q x s = Some (r, s') \<and> queue_at c s' q ps' os' \<and> sched_ok s' (ys @ zs) \<and> keeps c s s' \<and> frees_writer c s s' q us (ys @ zs)"
proof (cases x)
  case (Putq p mem)
  have m: "plain c s (pri p) p" "p \<notin> set (ps @ os)" using p Putq by simp_all
  show ?thesis using put_ordinary(1) [OF Q S, of p mem] put_priority(1) [OF Q S, of p mem] m e Putq
    by (cases "pri p") (fastforce simp: frees_writer_def)+
next
  case (Putbq p mem)
  have m: "plain c s (pri p) p" "p \<notin> set (ps @ os)" using p Putbq by simp_all
  show ?thesis using put_ordinary(2) [OF Q S, of p mem] put_priority(2) [OF Q S, of p mem] m e Putbq
    by (cases "pri p") (fastforce simp: frees_writer_def)+
next
  case Getq
  obtain g where g: "r = [g]" "head_of ps os = (g, ps', os')" using e Getq by (auto split: prod.splits)
  show ?thesis using getq_ok [OF Q S str g(2)] Getq g(1) by (auto simp: frees_writer_def)
next
  case Canput
  obtain s' b where "canput q s = Some (b, s')" "queue_at c s' q ps os" "sched_ok s' ys" "keeps c s s'" "waits_for s' q \<longleftrightarrow> \<not> b \<or> waits_for s q"
    using canput_ok [OF Q S] by blast
  then show ?thesis using e Canput by (intro exI [of _ s'] exI [of _ "[]"]) (auto simp: frees_writer_def)
qed

lemma do_ops_ok:
  assumes "queue_at c s q ps os" "sched_ok s ys" "stream c s (OTHERQ c q) us" "all_put (\<lambda>p. plain c s (pri p) p) pri xs (ps, os)"
    "spec_ops pri xs (ps, os) = (rs, ps', os')"
  shows "\<exists>s' zs. do_ops c q xs s = Some (rs, s') \<and> queue_at c s' q ps' os' \<and> sched_ok s' (ys @ zs) \<and> keeps c s s' \<and> frees_writer c s s' q us (ys @ zs)"
  using assms
proof (induction xs arbitrary: s ps os ys rs)
  case Nil
  then show ?case by (intro exI [of _ s] exI [of _ "[]"]) (simp add: frees_writer_def)
next
  case (Cons x xs)
  obtain r p1 o1 where e1: "spec_op pri x (ps, os) = (r, p1, o1)" by (metis prod_cases3)
  obtain rs1 where e2: "spec_ops pri xs (p1, o1) = (rs1, ps', os')" "rs = r @ rs1" using Cons.prems(5) e1 by (auto split: prod.splits)
  have p: "can_put (\<lambda>p. plain c s (pri p) p) x (ps, os)" "all_put (\<lambda>p. plain c s (pri p) p) pri xs (p1, o1)" using Cons.prems(4) e1 by simp_all
  obtain s1 z1 where s1: "do_op c q x s = Some (r, s1)" "queue_at c s1 q p1 o1" "sched_ok s1 (ys @ z1)" "keeps c s s1" "frees_writer c s s1 q us (ys @ z1)"
    using do_op_ok [OF Cons.prems(1-3) p(1) e1] by blast
  have n1: "same_net s s1" and pl: "plain c s1 = plain c s" using s1(4) by (simp_all add: keeps_def)
  have b1: "back_target c s1 us = back_target c s us" using back_target_net [OF n1] stream_dom [OF Cons.prems(3)] by blast
  have p2: "all_put (\<lambda>p. plain c s1 (pri p) p) pri xs (p1, o1)" using p(2) pl by simp
  obtain s2 z2 where s2: "do_ops c q xs s1 = Some (rs1, s2)" "queue_at c s2 q ps' os'" "sched_ok s2 ((ys @ z1) @ z2)" "keeps c s1 s2"
      "frees_writer c s1 s2 q us ((ys @ z1) @ z2)"
    using Cons.IH [OF s1(2,3) stream_net [OF n1 Cons.prems(3)] p2 e2(1)] by blast
  have "frees_writer c s s2 q us (ys @ z1 @ z2)" using s1(5) s2(5) b1 by (auto simp: frees_writer_def)
  then show ?case using s1(1) s2 e2(2) keeps_trans [OF s1(4) s2(4)] by (intro exI [of _ s2] exI [of _ "z1 @ z2"]) simp
qed

lemma spec_drains: "spec_ops pri (replicate (length (ps @ os)) Getq) (ps, os) = (map Some (ps @ os), [], [])"
proof (induction ps)
  case Nil
  show ?case by (induction os) simp_all
qed simp

lemma all_put_gets: "all_put ok pri (replicate n Getq) t"
  by (induction n arbitrary: t) (auto split: prod.splits)

lemma empty_not_waiting: "queue_at c s q [] [] \<Longrightarrow> \<not> waits_for s q"
  by (auto simp: queue_at_def waits_for_def flow_ok_def total_def)

section \<open>Running the schedule\<close>

text \<open>The schedule as a queue: what \<open>qenable\<close> appends to it, and what the scheduler takes from it. \<open>idle\<close> is a queue whose service procedure may run.\<close>

definition idle :: "strq \<Rightarrow> addr \<Rightarrow> bool" where
  "idle s q \<longleftrightarrow> (case qs s q of None \<Rightarrow> False | Some x \<Rightarrow> runnable x \<and> QSRVACTIVE \<notin> q_flag x)"




definition sched_rep :: "strq \<Rightarrow> addr list \<Rightarrow> bool" where
  "sched_rep s ys \<longleftrightarrow> sched_ok s ys \<and> (\<forall>q \<in> set ys. idle s q)"






text \<open>The service procedures that have been called.\<close>

definition served :: "strq \<Rightarrow> addr list" where
  "served s = concat (map (\<lambda>e. case e of Service q \<Rightarrow> [q] | _ \<Rightarrow> []) (q_log s))"








lemma served_event [simp]: "served (q_event (Service q) s) = served s @ [q]" "served (s\<lparr>qs := f\<rparr>) = served s"
  by (simp_all add: served_def q_event_def)









lemma sched_rep_flag [simp]: "sched_rep (s\<lparr>dg_run_strsched := b\<rparr>) ys = sched_rep s ys"
  by (simp add: sched_rep_def sched_ok_def idle_def)




text \<open>One turn of the loop that takes \<open>q\<close> from the schedule, finds its mark, and puts it back.\<close>

definition put_back :: "addr \<Rightarrow> strq \<Rightarrow> strq \<Rightarrow> bool" where
  "put_back q s s' \<longleftrightarrow> (\<exists>s1 x. QSCHED_GETFIRST s = Some (Some q, s1) \<and> qs s1 q = Some x \<and> QSRVACTIVE \<in> q_flag x \<and> QSCHED_SCHEDULE q s1 = Some s')"

lemma put_back_run: "put_back q s s' \<Longrightarrow> run_loop srv s = run_loop srv s'"
  by (subst run_loop.simps) (auto simp: put_back_def)



section \<open>Properties\<close>

text \<open>C6: a queue behaves as two lists of messages, those of high priority before the others, whatever sequence of \<open>putq\<close>, \<open>putbq\<close>, \<open>getq\<close> and
  \<open>canput\<close> is called on it with messages that have no band (\<open>b_band\<close> is 0) and are not in the queue when they are put, \<open>putbq\<close> with none of high priority, which its
  assertion forbids: no call faults, \<open>putq\<close> appends a message to the list of its class, \<open>putbq\<close> puts it before that list, \<open>getq\<close> returns the first
  message, NULL only from an empty queue; at the end the links of the queue are those of the two lists, its count is the bytes of the ordinary messages, and
  its flow control flags agree with that count. The schedule only grows at its end. A message with a band does fault: \<open>band_message_faults\<close>.
\<close>

theorem queue_ops_refine:
  assumes "queue_at c s q ps os" "sched_ok s ys" "stream c s (OTHERQ c q) us" "all_put (\<lambda>p. plain c s (pri p) p) pri xs (ps, os)"
    "\<forall>p mem. Putbq p mem \<in> set xs \<longrightarrow> \<not> pri p"
  shows "\<exists>s' zs. map_option fst (do_ops c q xs s) = Some (fst (spec_ops pri xs (ps, os))) \<and> map_option snd (do_ops c q xs s) = Some s' \<and>
    queue_at c s' q (fst (snd (spec_ops pri xs (ps, os)))) (snd (snd (spec_ops pri xs (ps, os)))) \<and> sched_ok s' (ys @ zs)"
proof -
  obtain rs ps' os' where "spec_ops pri xs (ps, os) = (rs, ps', os')" by (metis prod_cases3)
  then show ?thesis using do_ops_ok [OF assms(1-4)] by fastforce
qed

text \<open>C7: a writer that \<open>canput\<close> has turned away is not forgotten. When the messages of the queue have been read, in order, the service procedure of the
  nearest queue behind it that can run is on the schedule.
\<close>

theorem writer_back_enabled:
  assumes "queue_at c s q ps os" "sched_ok s ys" "stream c s (OTHERQ c q) us" "canput q s = Some (False, s1)" "back_target c s us = Some p"
  shows "\<exists>s' zs. do_ops c q (replicate (length (ps @ os)) Getq) s1 = Some (map Some (ps @ os), s') \<and> queue_at c s' q [] [] \<and> sched_ok s' (ys @ zs) \<and>
    p \<in> set (ys @ zs)"
proof -
  have 1: "queue_at c s1 q ps os" "sched_ok s1 ys" "keeps c s s1" "waits_for s1 q" using canput_ok [OF assms(1,2)] assms(4) by auto
  have n: "same_net s s1" using 1(3) by (simp add: keeps_def)
  have "back_target c s1 us = Some p" using back_target_net [OF n] stream_dom [OF assms(3)] assms(5) by auto
  moreover have "all_put (\<lambda>p. plain c s1 (True) p) (\<lambda>_. True) (replicate (length (ps @ os)) Getq) (ps, os)" by (rule all_put_gets)
  ultimately show ?thesis
    using do_ops_ok [OF 1(1,2) stream_net [OF n assms(3)] _ spec_drains, of "\<lambda>_. True"] 1(4) empty_not_waiting
    by (fastforce simp: frees_writer_def)
qed



text \<open>taking the first queue off the schedule at the end of its stream loses the rest of the schedule for good. \<open>QSCHED_UNSCHEDULE\<close> goes on with the link of
  the stream instead of the link of the schedule: no queue is found to run afterwards, and none that is scheduled later will be found either.
\<close>

theorem unschedule_loses:
  assumes "sched_list s (q # y # ys)" "qs s q = Some x" "q_next x = None"
  shows "\<exists>s'. QSCHED_UNSCHEDULE q s = Some s' \<and> QSCHED_GETFIRST s' = Some (None, s') \<and>
    (\<forall>p. qs s p \<noteq> None \<longrightarrow> (\<exists>s''. QSCHED_SCHEDULE p s' = Some s'' \<and> QSCHED_GETFIRST s'' = Some (None, s'')))"
proof -
  have l: "linked (qs s) q_link (ss_head s) (q # y # ys)" "ss_head s = Some q" "ss_tail s = Some (last (y # ys))" using assms(1) by (auto simp: sched_list_def)
  have "distinct (q # y # ys)" using linked_distinct [OF l(1)] .
  moreover have "last (y # ys) \<in> set (y # ys)" by (rule last_in_set) simp
  ultimately have t: "last (y # ys) \<noteq> q" "last (y # ys) \<in> set (q # y # ys)" by (metis distinct.simps(2), metis list.set_intros(2))
  let ?t = "last (y # ys)" let ?s = "s\<lparr>ss_head := None\<rparr>"
  obtain z where z: "qs s ?t = Some z" using chain_dom [OF l(1) t(2)] by blast
  have "QSCHED_UNSCHEDULE q s = Some ?s"
    unfolding QSCHED_UNSCHEDULE_def using l(2,3) assms(2,3) t(1) by (subst unschedule_loop.simps) simp
  moreover have "\<exists>s''. QSCHED_SCHEDULE p ?s = Some s'' \<and> QSCHED_GETFIRST s'' = Some (None, s'')" if "qs s p \<noteq> None" for p
    using that l(3) z by (auto simp: QSCHED_SCHEDULE_def QSCHED_GETFIRST_def set_q_def)
  ultimately show ?thesis by (intro exI [of _ ?s]) (simp add: QSCHED_GETFIRST_def)
qed

text \<open>No message with a band can be queued. Without memory for the band \<open>putq\<close> refuses it; with memory it faults, since the new band, whose high mark is zero, is
  full at once, and the bands before it are looked for in a list that the queue does not have: nothing sets \<open>q_bandp\<close>.
\<close>

theorem band_message_faults:
  assumes S: "sched_ok s ys" and x: "qs s q = Some x" "q_bandp x = None" "q_nband x = 0"
    and m: "mbs (sm s) mp = Some m" "0 < b_band m" "IS_PRI_MSG c mp s = Some False" "MSG_SIZE mp (sm s) = Some n" "0 \<le> n"
  shows "putq c q mp None s = Some (False, s) \<and> putq c q mp (Some a) s = None"
proof
  have w: "band_walk k None t = Some None" if "0 < k" for k t using that by (cases k) simp_all
  have "band_walk (b_band m - 1) None t = Some None" for t using w by (cases "b_band m - 1") auto
  then have b: "QUEUE_BAND q (b_band m) s = Some None" using x(1,2) m(2) by (simp add: QUEUE_BAND_def)
  show "putq c q mp None s = Some (False, s)" using m b x(1) by (simp add: putq_def find_band_def QBAND_ALLOC_def)
  let ?b = "a + (b_band m - 1)" let ?s = "zero_bands a (b_band m) s"
  have find: "find_band q (b_band m) (Some a) s = Some (Some ?b, ?s)" using b x(1,3) by (simp add: find_band_def QBAND_ALLOC_def)
  have s: "qs ?s = qs s" "sm ?s = sm s" by (simp_all add: zero_bands_def)
  have increase: "QBAND_INCREASE q ?b n t = None" if t: "bands t = bands ?s" "qs t q = Some z" "q_bandp z = None" for t z
  proof -
    have "a \<le> ?b" "?b < a + b_band m" using m(2) by simp_all
    then have "\<exists>y. bands ?s ?b = Some y \<and> QB_FULL \<notin> qb_flag y \<and> qb_count y = 0 \<and> qb_hiwat y = 0" unfolding zero_bands_def by simp
    then obtain y where "bands ?s ?b = Some y" "QB_FULL \<notin> qb_flag y" "qb_count y = 0" "qb_hiwat y = 0" by blast
    moreover have "fill_bands q b u = None" if "qs u q = Some z" for b u
      using that t(3) by (subst fill_bands.simps) (simp add: set_band_def QBAND_PREV_def split: bind_splits)
    ultimately show ?thesis using t(1,2) m(5) by (simp add: QBAND_INCREASE_def set_band_def)
  qed
  let ?z = "x\<lparr>q_lastband := b_band m\<rparr>" let ?t = "?s\<lparr>qs := (qs ?s)(q \<mapsto> ?z)\<rparr>"
  have "sched_ok ?s ys" using S by (simp add: zero_bands_def sched_ok_def sched_list_def)
  then have "sched_ok ?t ys" by (rule sched_ok_upd) (use x(1) s in simp_all)
  then obtain t where t: "QUEUE_TRYSCHED q ?t = Some (runnable ?z, t)" "same_queues view ?t t" using trysched_ok [of ?t ys q ?z] by auto
  obtain z where z: "qs t q = Some z" "view z = view ?z" using same_queues_at [OF t(2), of q ?z] by auto
  have "q_bandp z = None" using arg_cong [OF z(2), of q_bandp] x(2) by (simp add: view_def)
  then have "QBAND_INCREASE q ?b n t = None" "sm t = sm s" using increase [OF _ z(1)] t(2) s(2) by (simp_all add: same_queues_def)
  moreover have "QBAND_INCREASE q ?b n ?s = None" using increase [of ?s x] s(1) x(1,2) by simp
  ultimately have "QUEUE_CHECK_SCHED q mp (Some ?b) ?s = None"
    unfolding QUEUE_CHECK_SCHED_def using s x(1) m t(1) by (simp add: set_q_def)
  then show "putq c q mp (Some a) s = None" using m find by (simp add: putq_def)
qed

section \<open>Witnesses\<close>

text \<open>The queue 10 holds the message of \<open>str_ex\<close>, which is more than its high mark; behind its pair 11 is 12, whose pair 13 has the writer's service procedure.\<close>

definition ex_other :: "addr \<Rightarrow> addr" where
  "ex_other q = (if even q then q + 1 else q - 1)"

definition q_ex_cfg :: q_cfg where
  "q_ex_cfg = \<lparr>scfg = str_ex_cfg, OTHERQ = ex_other\<rparr>"

definition q_bare :: queue where
  "q_bare = \<lparr>q_first = None, q_last = None, q_next = None, q_link = None, q_bandp = None, q_count = 0, q_hiwat = 2, q_lowat = 1, q_maxpsz = 0, q_minpsz = 0,
     q_flag = {QWANTR}, q_nband = 0, q_lastband = 0, q_active = 0, qi_srvp = True, qi_putp = True\<rparr>"

definition q_ex :: strq where
  "q_ex = \<lparr>sm = str_ex, qs = [10 \<mapsto> (q_bare\<lparr>q_first := Some 1, q_last := Some 1, q_count := 3, q_flag := {QWANTR, QFULL}\<rparr>), 11 \<mapsto> (q_bare\<lparr>q_next := Some 12\<rparr>),
     12 \<mapsto> q_bare, 13 \<mapsto> q_bare], bands = (\<lambda>_. None), ss_head = None, ss_tail = None, dg_run_strsched = False, q_log = []\<rparr>"

lemma q_ex_simps: "sm q_ex = str_ex" "ss_head q_ex = None" "ss_tail q_ex = None"
  "qs q_ex = [10 \<mapsto> (q_bare\<lparr>q_first := Some 1, q_last := Some 1, q_count := 3, q_flag := {QWANTR, QFULL}\<rparr>), 11 \<mapsto> (q_bare\<lparr>q_next := Some 12\<rparr>),
     12 \<mapsto> q_bare, 13 \<mapsto> q_bare]"
  by (simp_all add: q_ex_def)

lemma q_ex_msg: "MSG_SIZE 1 str_ex = Some 3" "plain q_ex_cfg q_ex False 1" "total q_ex [1] = 3"
proof -
  show size: "MSG_SIZE 1 str_ex = Some 3" using str_ex_at(1,6,7) by (subst MSG_SIZE.simps) simp
  then show "plain q_ex_cfg q_ex False 1" "total q_ex [1] = 3"
    by (simp_all add: plain_def total_def size_of_def q_ex_simps IS_PRI_MSG_def type_of_def q_ex_cfg_def str_ex_cfg_def str_ex_eq str_ex_m_def str_junk_def)
qed

lemma q_ex_ok: "queue_at q_ex_cfg q_ex 10 [] [1]" "sched_ok q_ex []" "stream q_ex_cfg q_ex (OTHERQ q_ex_cfg 10) [12]" "back_target q_ex_cfg q_ex [12] = Some 13"
proof -
  show "queue_at q_ex_cfg q_ex 10 [] [1]"
    unfolding queue_at_def using q_ex_msg str_ex_at(1) by (simp add: q_ex_simps q_bare_def flow_ok_def str_ex_m_def str_junk_def)
  show "sched_ok q_ex []" by (auto simp: sched_ok_def sched_list_def q_ex_simps q_bare_def split: if_splits)
  show "stream q_ex_cfg q_ex (OTHERQ q_ex_cfg 10) [12]" "back_target q_ex_cfg q_ex [12] = Some 13"
    by (simp_all add: stream_def q_ex_cfg_def ex_other_def q_ex_simps q_bare_def runnable_def)
qed

theorem queue_ops_refine_witness:
  "\<exists>s' zs. map_option fst (do_ops q_ex_cfg 10 [Canput, Getq, Getq, Putbq 1 None, Getq] q_ex) = Some [Some 1, None, Some 1] \<and>
    map_option snd (do_ops q_ex_cfg 10 [Canput, Getq, Getq, Putbq 1 None, Getq] q_ex) = Some s' \<and> queue_at q_ex_cfg s' 10 [] [] \<and> sched_ok s' zs"
  using queue_ops_refine [OF q_ex_ok(1-3), of "\<lambda>_. False" "[Canput, Getq, Getq, Putbq 1 None, Getq]"] q_ex_msg(2) by auto

theorem writer_back_enabled_witness:
  "\<exists>s1 s' zs. canput 10 q_ex = Some (False, s1) \<and> do_ops q_ex_cfg 10 [Getq] s1 = Some ([Some 1], s') \<and> sched_ok s' zs \<and> 13 \<in> set zs"
proof -
  have "canput 10 q_ex = Some (False, the (set_q 10 (set_flag QWANTW) q_ex))" by (simp add: canput_def set_q_def q_ex_simps)
  then show ?thesis using writer_back_enabled [OF q_ex_ok(1-3) _ q_ex_ok(4)] by fastforce
qed






definition q_ex_two :: strq where
  "q_ex_two = q_ex\<lparr>qs := [10 \<mapsto> (q_bare\<lparr>q_flag := {QENAB}, q_link := Some 13\<rparr>), 13 \<mapsto> (q_bare\<lparr>q_flag := {QENAB}\<rparr>)], ss_head := Some 10, ss_tail := Some 13\<rparr>"

theorem unschedule_loses_witness:
  "sched_list q_ex_two [10, 13] \<and> (\<exists>s'. QSCHED_UNSCHEDULE 10 q_ex_two = Some s' \<and> QSCHED_GETFIRST s' = Some (None, s'))"
proof -
  have l: "sched_list q_ex_two [10, 13]" by (simp add: sched_list_def q_ex_two_def q_bare_def)
  then show ?thesis using unschedule_loses [OF l, of "q_bare\<lparr>q_flag := {QENAB}, q_link := Some 13\<rparr>"] by (auto simp: q_ex_two_def q_bare_def)
qed

text \<open>The message with the band 2.\<close>

definition q_ex_band :: strq where
  "q_ex_band = the (set_msg 1 (b_band_update (\<lambda>_. 2)) (q_ex\<lparr>qs := [10 \<mapsto> q_bare]\<rparr>))"

theorem band_message_faults_witness: "putq q_ex_cfg 10 1 None q_ex_band = Some (False, q_ex_band) \<and> putq q_ex_cfg 10 1 (Some 20) q_ex_band = None"
proof (rule band_message_faults [where x = q_bare and m = "str_ex_m\<lparr>b_band := 2\<rparr>"])
  show "sched_ok q_ex_band []"
    by (auto simp: sched_ok_def sched_list_def q_ex_band_def set_msg_def set_mb_def q_ex_simps str_ex_eq q_bare_def split: if_splits)
  show "MSG_SIZE 1 (sm q_ex_band) = Some 3"
    by (subst MSG_SIZE.simps) (simp add: q_ex_band_def set_msg_def set_mb_def q_ex_simps str_ex_eq str_ex_m_def str_junk_def b_len_def)
qed (simp_all add: q_ex_band_def set_msg_def set_mb_def q_ex_simps str_ex_eq str_ex_m_def str_junk_def q_bare_def IS_PRI_MSG_def type_of_def q_ex_cfg_def
    str_ex_cfg_def)

end
