(* ===== verification/Locks.thy ===== *)
theory Locks
  imports Prelude "HOL-Library.Word" "HOL-Library.Multiset"
begin

text \<open>
  Basic locks and read/write locks, \<open>coh.386/lib/ksynch.c\<close>, as several processors run them at the same time. A processor does one step at a time; each step
  has at most one access to memory that is shared, together with what the processor does to its own data. The variant is that of \<open>_TICKET_LOCK\<close> on
  several processors, without \<open>__TEST_AND_TEST__\<close>, which only adds reading while a lock is busy. Assertions and statistics are left out.
\<close>

section \<open>The hierarchy\<close>

text \<open>A processor counts the locks it has by their place in the hierarchy. The array is a function here, indexed by the place itself.\<close>

record hier =
  dc_hierarchy_cnt :: "int \<Rightarrow> int"
  dc_max_hierarchy :: int

definition LOCK_COUNT_HIERARCHY :: "int \<Rightarrow> hier \<Rightarrow> hier" where
  "LOCK_COUNT_HIERARCHY h d =
     d\<lparr>dc_hierarchy_cnt := (dc_hierarchy_cnt d)(h := dc_hierarchy_cnt d h + 1), dc_max_hierarchy := (if dc_max_hierarchy d < h then h else dc_max_hierarchy d)\<rparr>"

text \<open>\<open>low\<close> is \<open>__MIN_HIERARCHY__\<close>.\<close>

function free_loop :: "int \<Rightarrow> (int \<Rightarrow> int) \<Rightarrow> int \<Rightarrow> int" where
  "free_loop low cnt hi = (if cnt hi > 0 then hi else if hi - 1 \<ge> low then free_loop low cnt (hi - 1) else hi - 1)"
  by auto
termination by (relation "measure (\<lambda>(low, cnt, hi). nat (hi - low + 1))") auto

declare free_loop.simps [simp del]

definition LOCK_FREE_HIERARCHY :: "int \<Rightarrow> int \<Rightarrow> hier \<Rightarrow> hier" where
  "LOCK_FREE_HIERARCHY low h d = (let cnt = (dc_hierarchy_cnt d)(h := dc_hierarchy_cnt d h - 1) in
     d\<lparr>dc_hierarchy_cnt := cnt, dc_max_hierarchy := free_loop low cnt (dc_max_hierarchy d)\<rparr>)"

text \<open>The processor holds locks at the places \<open>H\<close>.\<close>

definition hier_ok :: "int \<Rightarrow> int multiset \<Rightarrow> hier \<Rightarrow> bool" where
  "hier_ok low H d \<longleftrightarrow> (\<forall>h. dc_hierarchy_cnt d h = int (count H h)) \<and> (\<forall>h \<in># H. low \<le> h) \<and>
     dc_max_hierarchy d = (if H = {#} then low - 1 else Max (set_mset H))"

lemma hier_count:
  assumes "hier_ok low H d" "low \<le> h"
  shows "hier_ok low (add_mset h H) (LOCK_COUNT_HIERARCHY h d)"
proof -
  have "dc_max_hierarchy (LOCK_COUNT_HIERARCHY h d) = Max (set_mset (add_mset h H))"
  proof (cases "H = {#}")
    case True
    then show ?thesis using assms by (simp add: hier_ok_def LOCK_COUNT_HIERARCHY_def)
  next
    case False
    then have "Max (set_mset (add_mset h H)) = max h (dc_max_hierarchy d)" using assms(1) by (simp add: hier_ok_def)
    then show ?thesis by (simp add: LOCK_COUNT_HIERARCHY_def max_def)
  qed
  then show ?thesis using assms by (simp add: hier_ok_def LOCK_COUNT_HIERARCHY_def)
qed

text \<open>The search downwards ends at the highest place that is taken.\<close>

lemma free_loop_max:
  assumes "low \<le> hi" "\<And>h. 0 \<le> cnt h" "\<And>h. cnt h > 0 \<Longrightarrow> low \<le> h \<and> h \<le> hi"
  shows "free_loop low cnt hi = (if \<exists>h. cnt h > 0 then Max {h. cnt h > 0} else low - 1)"
  using assms
proof (induction low cnt hi rule: free_loop.induct)
  case (1 low cnt hi)
  have fin: "finite {h. cnt h > 0}" by (rule finite_subset [of _ "{low..hi}"]) (use 1(4) in auto)
  show ?case
  proof (cases "cnt hi > 0")
    case True
    then have "Max {h. cnt h > 0} = hi" using fin 1(4) by (intro Max_eqI) auto
    then show ?thesis using True by (subst free_loop.simps) auto
  next
    case False
    have below: "h \<le> hi - 1" if "cnt h > 0" for h using 1(4) [OF that] that False by (cases "h = hi") auto
    show ?thesis
    proof (cases "low \<le> hi - 1")
      case True
      have "free_loop low cnt (hi - 1) = (if \<exists>h. cnt h > 0 then Max {h. cnt h > 0} else low - 1)"
        using "1.IH" [OF False True] 1(3,4) True below by blast
      then show ?thesis using False True by (subst free_loop.simps) simp
    next
      case deep: False
      then have "\<not> cnt h > 0" for h using below [of h] 1(4) [of h] by auto
      then show ?thesis using False deep 1(2) by (subst free_loop.simps) auto
    qed
  qed
qed

lemma hier_free:
  assumes "hier_ok low (add_mset h H) d"
  shows "hier_ok low H (LOCK_FREE_HIERARCHY low h d)"
proof -
  define cnt where "cnt = (dc_hierarchy_cnt d)(h := dc_hierarchy_cnt d h - 1)"
  define hi where "hi = Max (set_mset (add_mset h H))"
  have cnt: "cnt = (\<lambda>x. int (count H x))" using assms by (auto simp: cnt_def hier_ok_def fun_eq_iff)
  have top: "dc_max_hierarchy d = hi" using assms by (simp add: hier_ok_def hi_def)
  have low: "low \<le> x \<and> x \<le> hi" if "x \<in># add_mset h H" for x
    using that assms unfolding hi_def hier_ok_def by (metis Max_ge finite_set_mset)
  have "free_loop low cnt hi = (if \<exists>x. cnt x > 0 then Max {x. cnt x > 0} else low - 1)"
  proof (rule free_loop_max)
    show "low \<le> hi" using low [of h] by simp
  qed (use low in \<open>auto simp: cnt\<close>)
  also have "\<dots> = (if H = {#} then low - 1 else Max (set_mset H))"
  proof -
    have pos: "{x. cnt x > 0} = set_mset H" by (auto simp: cnt)
    then have "(\<exists>x. cnt x > 0) \<longleftrightarrow> set_mset H \<noteq> {}" by blast
    then show ?thesis unfolding pos by simp
  qed
  finally have "dc_max_hierarchy (LOCK_FREE_HIERARCHY low h d) = (if H = {#} then low - 1 else Max (set_mset H))"
    using top by (simp add: LOCK_FREE_HIERARCHY_def Let_def cnt_def)
  moreover have "dc_hierarchy_cnt (LOCK_FREE_HIERARCHY low h d) = cnt" by (simp add: LOCK_FREE_HIERARCHY_def Let_def cnt_def)
  ultimately show ?thesis using assms cnt by (simp add: hier_ok_def)
qed

section \<open>Tickets\<close>

text \<open>
  The processors \<open>q\<close> have tickets in this order, from the one that the lock is held with, \<open>h\<close>, to the one before the next, \<open>n\<close>. Tickets are 16 bits and wrap around.
\<close>

definition tickets :: "16 word \<Rightarrow> 16 word \<Rightarrow> (nat \<Rightarrow> 16 word option) \<Rightarrow> nat list \<Rightarrow> bool" where
  "tickets h n tk q \<longleftrightarrow> distinct q \<and> length q < 2 ^ 16 \<and> n = h + of_nat (length q) \<and> (\<forall>k < length q. tk (q ! k) = Some (h + of_nat k)) \<and>
     (\<forall>i. tk i \<noteq> None \<longrightarrow> i \<in> set q)"

lemma of_nat_eq: "a < 2 ^ 16 \<Longrightarrow> b < 2 ^ 16 \<Longrightarrow> (of_nat a :: 16 word) = of_nat b \<longleftrightarrow> a = b"
  by (simp add: word_of_nat_eq_iff take_bit_nat_eq_self)

lemma tickets_empty: "tickets h n tk q \<Longrightarrow> h = n \<longleftrightarrow> q = []"
  using of_nat_eq [of "length q" 0] by (auto simp: tickets_def)

lemma tickets_head:
  assumes "tickets h n tk q" "tk i = Some h"
  shows "\<exists>r. q = i # r"
proof -
  have "i \<in> set q" using assms by (auto simp: tickets_def)
  then obtain k where k: "k < length q" "q ! k = i" by (auto simp: in_set_conv_nth)
  then have "h + of_nat k = h" using assms by (auto simp: tickets_def)
  then have "(of_nat k :: 16 word) = of_nat 0" by simp
  then have "k = 0" using k(1) assms(1) of_nat_eq [of k 0] by (simp add: tickets_def)
  then show ?thesis using k by (cases q) auto
qed

lemma tickets_take:
  assumes "tickets h n tk q" "tk i = None" "length q + 1 < 2 ^ 16" "\<And>j. tk' j = (if j = i then Some n else tk j)"
  shows "tickets h (n + 1) tk' (q @ [i])"
proof -
  have "i \<notin> set q" using assms(1,2) by (auto simp: tickets_def in_set_conv_nth)
  then have "tk' (q ! k) = Some (h + of_nat k)" if "k < length q" for k using that assms by (auto simp: tickets_def)
  then show ?thesis using assms \<open>i \<notin> set q\<close> by (auto simp: tickets_def nth_append less_Suc_eq)
qed

lemma tickets_room:
  assumes "tickets h n tk q" "tk i = None" "set q \<subseteq> {..<N}" "i < N" "N < 2 ^ 16"
  shows "length q + 1 < 2 ^ 16"
proof -
  have new: "i \<notin> set q" using assms(1,2) by (auto simp: tickets_def in_set_conv_nth)
  have "card (set (i # q)) \<le> card {..<N}" using assms(3,4) by (intro card_mono) auto
  then show ?thesis using assms(1,5) new by (simp add: tickets_def distinct_card)
qed

lemma tickets_drop:
  assumes "tickets h n tk (i # q)" "\<And>j. j \<noteq> i \<Longrightarrow> tk' j = tk j" "tk' i = None"
  shows "tickets (h + 1) n tk' q"
proof -
  have d: "i \<notin> set q" "distinct q" using assms(1) by (simp_all add: tickets_def)
  have "tk' (q ! k) = Some (h + 1 + of_nat k)" if k: "k < length q" for k
  proof -
    have "tk ((i # q) ! Suc k) = Some (h + of_nat (Suc k))" using assms(1) k unfolding tickets_def by (metis Suc_less_eq length_Cons)
    moreover have "q ! k \<noteq> i" using k d(1) by (auto simp: in_set_conv_nth)
    ultimately show ?thesis using assms(2) by (simp add: add.assoc)
  qed
  moreover have "j \<in> set q" if "tk' j \<noteq> None" for j using that assms by (cases "j = i") (auto simp: tickets_def)
  ultimately show ?thesis using assms(1) d by (simp add: tickets_def add.assoc)
qed

text \<open>The lock that guards the tickets is held by the processors of \<open>G\<close>, that is, by one at most.\<close>

definition gate_ok :: "bool \<Rightarrow> (nat \<Rightarrow> bool) \<Rightarrow> bool" where
  "gate_ok g G \<longleftrightarrow> (g \<longleftrightarrow> (\<exists>i. G i)) \<and> (\<forall>i j. G i \<and> G j \<longrightarrow> i = j)"

lemma gate_upd:
  assumes "gate_ok g G"
  shows "b = G i \<Longrightarrow> gate_ok g (G(i := b))" and "\<not> g \<Longrightarrow> gate_ok True (G(i := True))" and "G i \<Longrightarrow> gate_ok False (G(i := False))"
  using assms by (auto simp: gate_ok_def)

section \<open>Basic locks\<close>

text \<open>
  What a processor keeps: where it is, its interrupt level, the level it had before, the locks it has, and how often it was warned that it takes locks in
  the wrong order.
\<close>

record 'p cpu =
  pc :: 'p
  spl :: nat
  prev_pl :: nat
  dc :: hier
  warns :: nat

text \<open>
  The points of \<open>LOCK\<close> (L), \<open>TRYLOCK\<close> (T) and \<open>UNLOCK\<close> (U) between two accesses to the lock, with the local variables that are still needed: the level \<open>pl\<close> and
  \<open>ticket_no\<close>. \<open>LSpin\<close>: in \<open>TEST_AND_SET_LOCK\<close>. \<open>LGate\<close>, \<open>TGate\<close>: the gate is taken. \<open>TBack\<close>: the gate is given back without a ticket.
\<close>

datatype bl_pc = Out | Held | LSpin nat | LGate | LTicket "16 word" | LClear "16 word" | LWait "16 word"
  | TStart nat | TSeen nat "16 word" | TSet nat | TGate | TNext "16 word" | TTake "16 word" | TClear | TBack
  | UFetch nat | UStore nat "16 word" | Panic

record bl =
  bl_next_ticket :: "16 word"
  bl_lock_holder :: "16 word"
  bl_locked :: bool
  bl_cpus :: "nat \<Rightarrow> bl_pc cpu"

text \<open>The lock's place in the hierarchy and its least interrupt level.\<close>

record lk_cfg =
  MIN_HIERARCHY :: int
  hierarchy :: int
  min_pl :: nat

definition on_cpu :: "nat \<Rightarrow> (bl_pc cpu \<Rightarrow> bl_pc cpu) \<Rightarrow> bl \<Rightarrow> bl" where
  "on_cpu i f s = s\<lparr>bl_cpus := (bl_cpus s)(i := f (bl_cpus s i))\<rparr>"

definition goto :: "nat \<Rightarrow> bl_pc \<Rightarrow> bl \<Rightarrow> bl" where
  "goto i p = on_cpu i (pc_update (\<lambda>_. p))"

definition splraise :: "nat \<Rightarrow> 'p cpu \<Rightarrow> 'p cpu" where
  "splraise pl p = p\<lparr>prev_pl := spl p, spl := max (spl p) pl\<rparr>"

definition splx :: "nat \<Rightarrow> 'p cpu \<Rightarrow> 'p cpu" where
  "splx pl p = p\<lparr>prev_pl := spl p, spl := pl\<rparr>"

definition counted :: "lk_cfg \<Rightarrow> 'p cpu \<Rightarrow> 'p cpu" where
  "counted c p = p\<lparr>dc := LOCK_COUNT_HIERARCHY (hierarchy c) (dc p)\<rparr>"

definition warned :: "lk_cfg \<Rightarrow> 'p cpu \<Rightarrow> 'p cpu" where
  "warned c p = (if dc_max_hierarchy (dc p) \<ge> hierarchy c then p\<lparr>warns := warns p + 1\<rparr> else p)"

text \<open>A failed turn of the loop in \<open>TEST_AND_SET_LOCK\<close> raises the level and lowers it again.\<close>

definition TEST_AND_SET_LOCK :: "nat \<Rightarrow> bl_pc \<Rightarrow> nat \<Rightarrow> bl \<Rightarrow> bl" where
  "TEST_AND_SET_LOCK pl next i s = (if bl_locked s then s else on_cpu i (\<lambda>p. (splraise pl p)\<lparr>pc := next\<rparr>) (s\<lparr>bl_locked := True\<rparr>))"

definition LOCK_step :: "lk_cfg \<Rightarrow> nat \<Rightarrow> bl \<Rightarrow> bl" where
  "LOCK_step c i s = (case pc (bl_cpus s i) of
     LSpin pl \<Rightarrow> TEST_AND_SET_LOCK pl LGate i s
   | LGate \<Rightarrow> goto i (LTicket (bl_next_ticket s)) s
   | LTicket t \<Rightarrow> goto i (if bl_next_ticket s = t then LClear t else Panic) (s\<lparr>bl_next_ticket := t + 1\<rparr>)
   | LClear t \<Rightarrow> goto i (LWait t) (s\<lparr>bl_locked := False\<rparr>)
   | LWait t \<Rightarrow> if bl_lock_holder s \<noteq> t then s else on_cpu i (\<lambda>p. (counted c (warned c p))\<lparr>pc := Held\<rparr>) s
   | _ \<Rightarrow> s)"

definition TRYLOCK_step :: "lk_cfg \<Rightarrow> nat \<Rightarrow> bl \<Rightarrow> bl" where
  "TRYLOCK_step c i s = (case pc (bl_cpus s i) of
     TStart pl \<Rightarrow> goto i (TSeen pl (bl_lock_holder s)) s
   | TSeen pl t \<Rightarrow> goto i (if t \<noteq> bl_next_ticket s then Out else TSet pl) s
   | TSet pl \<Rightarrow> if bl_locked s then goto i Out s else on_cpu i (\<lambda>p. (splx pl p)\<lparr>pc := TGate\<rparr>) (s\<lparr>bl_locked := True\<rparr>)
   | TGate \<Rightarrow> goto i (TNext (bl_next_ticket s)) s
   | TNext t \<Rightarrow> goto i (if t \<noteq> bl_lock_holder s then TBack else TTake t) s
   | TTake t \<Rightarrow> goto i (if bl_next_ticket s = t then TClear else Panic) (s\<lparr>bl_next_ticket := t + 1\<rparr>)
   | TClear \<Rightarrow> on_cpu i (\<lambda>p. (counted c p)\<lparr>pc := Held\<rparr>) (s\<lparr>bl_locked := False\<rparr>)
   | TBack \<Rightarrow> on_cpu i (\<lambda>p. (splx (prev_pl p) p)\<lparr>pc := Out\<rparr>) (s\<lparr>bl_locked := False\<rparr>)
   | _ \<Rightarrow> s)"

definition UNLOCK_step :: "lk_cfg \<Rightarrow> nat \<Rightarrow> bl \<Rightarrow> bl" where
  "UNLOCK_step c i s = (case pc (bl_cpus s i) of
     UFetch pl \<Rightarrow> on_cpu i (\<lambda>p. p\<lparr>dc := LOCK_FREE_HIERARCHY (MIN_HIERARCHY c) (hierarchy c) (dc p), pc := UStore pl (bl_lock_holder s)\<rparr>) s
   | UStore pl t \<Rightarrow> on_cpu i (\<lambda>p. (splx pl p)\<lparr>pc := (if bl_lock_holder s = t then Out else Panic)\<rparr>) (s\<lparr>bl_lock_holder := t + 1\<rparr>)
   | _ \<Rightarrow> s)"

text \<open>What a processor does next, and the function it calls when it is in none.\<close>

datatype lk_req = Req_LOCK nat | Req_TRYLOCK nat | Req_UNLOCK nat | No_req

definition bl_act :: "lk_cfg \<Rightarrow> nat \<Rightarrow> lk_req \<Rightarrow> bl \<Rightarrow> bl" where
  "bl_act c i r s = (case pc (bl_cpus s i) of
     Out \<Rightarrow> (case r of Req_LOCK pl \<Rightarrow> goto i (LSpin pl) s | Req_TRYLOCK pl \<Rightarrow> goto i (TStart pl) s | _ \<Rightarrow> s)
   | Held \<Rightarrow> (case r of Req_UNLOCK pl \<Rightarrow> goto i (UFetch pl) s | _ \<Rightarrow> s)
   | UFetch _ \<Rightarrow> UNLOCK_step c i s | UStore _ _ \<Rightarrow> UNLOCK_step c i s
   | LSpin _ \<Rightarrow> LOCK_step c i s | LGate \<Rightarrow> LOCK_step c i s | LTicket _ \<Rightarrow> LOCK_step c i s | LClear _ \<Rightarrow> LOCK_step c i s | LWait _ \<Rightarrow> LOCK_step c i s
   | Panic \<Rightarrow> s | _ \<Rightarrow> TRYLOCK_step c i s)"

definition LOCK_ALLOC :: "(nat \<Rightarrow> bl_pc cpu) \<Rightarrow> bl" where
  "LOCK_ALLOC cpus = \<lparr>bl_next_ticket = 0, bl_lock_holder = 0, bl_locked = False, bl_cpus = cpus\<rparr>"

text \<open>All that \<open>N\<close> processors can do with a lock. The levels are those that the assertions ask for.\<close>

fun level_asked :: "lk_cfg \<Rightarrow> lk_req \<Rightarrow> bool" where
  "level_asked c (Req_LOCK pl) = (min_pl c \<le> pl)"
| "level_asked c (Req_TRYLOCK pl) = (min_pl c \<le> pl)"
| "level_asked c _ = True"

inductive bl_reach :: "lk_cfg \<Rightarrow> nat \<Rightarrow> bl \<Rightarrow> bool" for c N where
  start: "(\<And>i. pc (cpus i) = Out) \<Longrightarrow> bl_reach c N (LOCK_ALLOC cpus)"
| step: "bl_reach c N s \<Longrightarrow> i < N \<Longrightarrow> level_asked c r \<Longrightarrow> bl_reach c N (bl_act c i r s)"

section \<open>The basic lock is a queue\<close>

text \<open>The ticket a processor has, when \<open>h\<close> is the one the lock is held with; and who holds the gate.\<close>

fun bl_ticket :: "16 word \<Rightarrow> bl_pc \<Rightarrow> 16 word option" where
  "bl_ticket h (LClear t) = Some t"
| "bl_ticket h (LWait t) = Some t"
| "bl_ticket h TClear = Some h"
| "bl_ticket h Held = Some h"
| "bl_ticket h (UFetch _) = Some h"
| "bl_ticket h (UStore _ _) = Some h"
| "bl_ticket h _ = None"

fun bl_gate :: "bl_pc \<Rightarrow> bool" where
  "bl_gate LGate = True"
| "bl_gate (LTicket _) = True"
| "bl_gate (LClear _) = True"
| "bl_gate TGate = True"
| "bl_gate (TNext _) = True"
| "bl_gate (TTake _) = True"
| "bl_gate TClear = True"
| "bl_gate TBack = True"
| "bl_gate _ = False"

text \<open>What the local variables say.\<close>

fun bl_fact :: "16 word \<Rightarrow> 16 word \<Rightarrow> bl_pc \<Rightarrow> bool" where
  "bl_fact n h (LTicket t) = (t = n)"
| "bl_fact n h (TNext t) = (t = n)"
| "bl_fact n h (TTake t) = (t = n \<and> n = h)"
| "bl_fact n h (UStore _ t) = (t = h)"
| "bl_fact n h Panic = False"
| "bl_fact n h _ = True"

definition bl_inv :: "nat \<Rightarrow> bool \<Rightarrow> 16 word \<Rightarrow> 16 word \<Rightarrow> (nat \<Rightarrow> bl_pc) \<Rightarrow> nat list \<Rightarrow> bool" where
  "bl_inv N g n h P q \<longleftrightarrow> tickets h n (\<lambda>i. bl_ticket h (P i)) q \<and> set q \<subseteq> {..<N} \<and> gate_ok g (\<lambda>i. bl_gate (P i)) \<and> (\<forall>i. bl_fact n h (P i))"

lemma bl_quiet:
  assumes "bl_inv N g n h P q" "bl_gate b = bl_gate (P i)" "bl_ticket h b = bl_ticket h (P i)" "bl_fact n h b"
  shows "bl_inv N g n h (P(i := b)) q"
proof -
  have "(\<lambda>j. bl_ticket h ((P(i := b)) j)) = (\<lambda>j. bl_ticket h (P j))" "(\<lambda>j. bl_gate ((P(i := b)) j)) = (\<lambda>j. bl_gate (P j))" using assms(2,3) by auto
  then show ?thesis using assms(1,4) by (simp add: bl_inv_def)
qed

lemma bl_gated:
  assumes "bl_inv N g n h P q" "bl_ticket h b = bl_ticket h (P i)" "bl_fact n h b"
  shows "\<not> g \<Longrightarrow> bl_gate b \<Longrightarrow> bl_inv N True n h (P(i := b)) q" and "bl_gate (P i) \<Longrightarrow> \<not> bl_gate b \<Longrightarrow> bl_inv N False n h (P(i := b)) q"
proof -
  have t: "(\<lambda>j. bl_ticket h ((P(i := b)) j)) = (\<lambda>j. bl_ticket h (P j))" using assms(2) by auto
  have G: "(\<lambda>j. bl_gate ((P(i := b)) j)) = (\<lambda>j. bl_gate (P j))(i := bl_gate b)" by auto
  have g: "gate_ok g (\<lambda>j. bl_gate (P j))" using assms(1) by (simp add: bl_inv_def)
  show "bl_inv N True n h (P(i := b)) q" if "\<not> g" "bl_gate b"
    using gate_upd(2) [OF g that(1), of i] that(2) assms(1,3) t G unfolding bl_inv_def by simp
  show "bl_inv N False n h (P(i := b)) q" if "bl_gate (P i)" "\<not> bl_gate b"
    using gate_upd(3) [OF g, of i] that assms(1,3) t G unfolding bl_inv_def by simp
qed

text \<open>Only at the gate does a processor rely on the next ticket.\<close>

lemma bl_fact_next: "\<not> bl_gate p \<Longrightarrow> bl_fact n h p = bl_fact n' h p"
  by (cases p) auto

lemma bl_take:
  assumes inv: "bl_inv N g n h P q" and b: "bl_gate (P i)" "bl_gate b" "bl_ticket h (P i) = None" "bl_ticket h b = Some n" "bl_fact (n + 1) h b"
    and N: "i < N" "N < 2 ^ 16"
  shows "bl_inv N g (n + 1) h (P(i := b)) (q @ [i])"
proof -
  have t: "tickets h n (\<lambda>j. bl_ticket h (P j)) q" and q: "set q \<subseteq> {..<N}" and g: "gate_ok g (\<lambda>j. bl_gate (P j))" using inv by (simp_all add: bl_inv_def)
  have len: "length q + 1 < 2 ^ 16" by (rule tickets_room [OF t b(3) q N])
  have t': "tickets h (n + 1) (\<lambda>j. bl_ticket h ((P(i := b)) j)) (q @ [i])" by (rule tickets_take [OF t b(3) len]) (use b(4) in simp)
  have "(\<lambda>j. bl_gate ((P(i := b)) j)) = (\<lambda>j. bl_gate (P j))" using b(1,2) by auto
  moreover have "bl_fact (n + 1) h ((P(i := b)) j)" for j
  proof (cases "j = i")
    case False
    then have "\<not> bl_gate (P j)" using g b(1) by (auto simp: gate_ok_def)
    then show ?thesis using False inv bl_fact_next [of "P j" n h "n + 1"] by (simp add: bl_inv_def)
  qed (use b(5) in simp)
  ultimately show ?thesis using t' q N(1) g by (simp add: bl_inv_def)
qed

lemma bl_ticket_holder: "bl_ticket h p \<noteq> Some h \<Longrightarrow> bl_ticket h' p = bl_ticket h p"
  by (cases p) auto

lemma bl_release:
  assumes inv: "bl_inv N g n h P q" and a: "P i = UStore pl t"
  shows "\<exists>r. q = i # r \<and> bl_inv N g n (h + 1) (P(i := Out)) r"
proof -
  have t: "tickets h n (\<lambda>j. bl_ticket h (P j)) q" using inv by (simp add: bl_inv_def)
  obtain r where r: "q = i # r" using tickets_head [OF t, of i] a by auto
  have other: "bl_ticket h (P j) \<noteq> Some h" if "j \<noteq> i" for j using tickets_head [OF t, of j] that r by auto
  have same: "bl_ticket (h + 1) (P j) = bl_ticket h (P j)" if "j \<noteq> i" for j by (rule bl_ticket_holder [OF other [OF that]])
  have t': "tickets (h + 1) n (\<lambda>j. bl_ticket (h + 1) ((P(i := Out)) j)) r"
    by (rule tickets_drop [OF t [unfolded r]]) (simp_all add: same)
  have ne: "n \<noteq> h" using tickets_empty [OF t] r by auto
  have "bl_fact n (h + 1) ((P(i := Out)) j)" for j
  proof (cases "j = i")
    case False
    have "bl_fact n h (P j)" using inv by (simp add: bl_inv_def)
    then show ?thesis using False other [OF False] ne by (cases "P j") auto
  qed simp
  moreover have "(\<lambda>j. bl_gate ((P(i := Out)) j)) = (\<lambda>j. bl_gate (P j))" using a by auto
  ultimately show ?thesis using inv r t' by (simp add: bl_inv_def)
qed

definition pcs :: "bl \<Rightarrow> nat \<Rightarrow> bl_pc" where
  "pcs s i = pc (bl_cpus s i)"

lemma pcs_on_cpu [simp]: "pcs (on_cpu i f s) = (pcs s)(i := pc (f (bl_cpus s i)))" "pcs (goto i p s) = (pcs s)(i := p)"
  "pcs (s\<lparr>bl_locked := g\<rparr>) = pcs s" "pcs (s\<lparr>bl_next_ticket := n\<rparr>) = pcs s" "pcs (s\<lparr>bl_lock_holder := h\<rparr>) = pcs s"
  by (auto simp: pcs_def on_cpu_def goto_def)

lemma on_cpu_simps [simp]:
  "bl_locked (on_cpu i f s) = bl_locked s" "bl_next_ticket (on_cpu i f s) = bl_next_ticket s" "bl_lock_holder (on_cpu i f s) = bl_lock_holder s"
  "bl_locked (goto i p s) = bl_locked s" "bl_next_ticket (goto i p s) = bl_next_ticket s" "bl_lock_holder (goto i p s) = bl_lock_holder s"
  by (simp_all add: on_cpu_def goto_def)

text \<open>The processors with tickets, in order.\<close>

definition bl_line :: "nat \<Rightarrow> bl \<Rightarrow> nat list \<Rightarrow> bool" where
  "bl_line N s q \<longleftrightarrow> bl_inv N (bl_locked s) (bl_next_ticket s) (bl_lock_holder s) (pcs s) q"

lemma bl_fact_at: "bl_line N s q \<Longrightarrow> bl_fact (bl_next_ticket s) (bl_lock_holder s) (pcs s i)"
  by (simp add: bl_line_def bl_inv_def)

lemma LOCK_line:
  assumes "bl_line N s q" "i < N" "N < 2 ^ 16"
  shows "bl_line N (LOCK_step c i s) q \<or> bl_line N (LOCK_step c i s) (q @ [i])"
proof (cases "pcs s i")
  case (LTicket t)
  then have t: "t = bl_next_ticket s" using bl_fact_at [OF assms(1), of i] by simp
  have "bl_inv N (bl_locked s) (bl_next_ticket s + 1) (bl_lock_holder s) ((pcs s)(i := LClear t)) (q @ [i])"
    by (rule bl_take [OF assms(1) [unfolded bl_line_def]]) (use LTicket t assms(2,3) in auto)
  then show ?thesis using LTicket t by (simp add: LOCK_step_def bl_line_def pcs_def [symmetric])
next
  case (LSpin pl)
  then show ?thesis using assms(1) bl_gated(1) [OF assms(1) [unfolded bl_line_def], of LGate i]
    by (auto simp: LOCK_step_def TEST_AND_SET_LOCK_def bl_line_def pcs_def [symmetric])
next
  case (LClear t)
  then show ?thesis using bl_gated(2) [OF assms(1) [unfolded bl_line_def], of "LWait t" i]
    by (auto simp: LOCK_step_def bl_line_def pcs_def [symmetric])
next
  case LGate
  then show ?thesis using bl_quiet [OF assms(1) [unfolded bl_line_def], of "LTicket (bl_next_ticket s)" i]
    by (simp add: LOCK_step_def bl_line_def pcs_def [symmetric])
next
  case (LWait t)
  then show ?thesis using assms(1) bl_quiet [OF assms(1) [unfolded bl_line_def], of Held i]
    by (simp add: LOCK_step_def bl_line_def pcs_def [symmetric])
qed (use assms(1) in \<open>simp_all add: LOCK_step_def pcs_def\<close>)

lemma TRYLOCK_line:
  assumes "bl_line N s q" "i < N" "N < 2 ^ 16"
  shows "bl_line N (TRYLOCK_step c i s) q \<or> bl_line N (TRYLOCK_step c i s) (q @ [i])"
proof (cases "pcs s i")
  case (TTake t)
  then have t: "t = bl_next_ticket s" "t = bl_lock_holder s" using bl_fact_at [OF assms(1), of i] by simp_all
  have "bl_inv N (bl_locked s) (bl_next_ticket s + 1) (bl_lock_holder s) ((pcs s)(i := TClear)) (q @ [i])"
    by (rule bl_take [OF assms(1) [unfolded bl_line_def]]) (use TTake t assms(2,3) in auto)
  then show ?thesis using TTake t by (simp add: TRYLOCK_step_def bl_line_def pcs_def [symmetric])
next
  case (TStart pl)
  then show ?thesis using bl_quiet [OF assms(1) [unfolded bl_line_def], of "TSeen pl (bl_lock_holder s)" i]
    by (simp add: TRYLOCK_step_def bl_line_def pcs_def [symmetric])
next
  case (TSeen pl t)
  then show ?thesis using bl_quiet [OF assms(1) [unfolded bl_line_def], of Out i] bl_quiet [OF assms(1) [unfolded bl_line_def], of "TSet pl" i]
    by (simp add: TRYLOCK_step_def bl_line_def pcs_def [symmetric])
next
  case (TSet pl)
  then show ?thesis using bl_quiet [OF assms(1) [unfolded bl_line_def], of Out i] bl_gated(1) [OF assms(1) [unfolded bl_line_def], of TGate i]
    by (auto simp: TRYLOCK_step_def bl_line_def pcs_def [symmetric])
next
  case TGate
  then show ?thesis using bl_quiet [OF assms(1) [unfolded bl_line_def], of "TNext (bl_next_ticket s)" i]
    by (simp add: TRYLOCK_step_def bl_line_def pcs_def [symmetric])
next
  case (TNext t)
  then have "t = bl_next_ticket s" using bl_fact_at [OF assms(1), of i] by simp
  then show ?thesis
    using TNext bl_quiet [OF assms(1) [unfolded bl_line_def], of TBack i] bl_quiet [OF assms(1) [unfolded bl_line_def], of "TTake t" i]
    by (auto simp: TRYLOCK_step_def bl_line_def pcs_def [symmetric])
next
  case TClear
  then show ?thesis using bl_gated(2) [OF assms(1) [unfolded bl_line_def], of Held i]
    by (auto simp: TRYLOCK_step_def bl_line_def pcs_def [symmetric])
next
  case TBack
  then show ?thesis using bl_gated(2) [OF assms(1) [unfolded bl_line_def], of Out i]
    by (auto simp: TRYLOCK_step_def bl_line_def pcs_def [symmetric])
qed (use assms(1) in \<open>simp_all add: TRYLOCK_step_def pcs_def [symmetric]\<close>)

lemma UNLOCK_line:
  assumes "bl_line N s q"
  shows "bl_line N (UNLOCK_step c i s) q \<or> (\<exists>r. q = i # r \<and> bl_line N (UNLOCK_step c i s) r)"
proof (cases "pcs s i")
  case (UFetch pl)
  then show ?thesis using bl_quiet [OF assms [unfolded bl_line_def], of "UStore pl (bl_lock_holder s)" i]
    by (simp add: UNLOCK_step_def bl_line_def pcs_def [symmetric])
next
  case (UStore pl t)
  then have "t = bl_lock_holder s" using bl_fact_at [OF assms, of i] by simp
  then show ?thesis using UStore bl_release [OF assms [unfolded bl_line_def], of i pl t]
    by (auto simp: UNLOCK_step_def bl_line_def pcs_def [symmetric] fun_upd_def)
qed (use assms in \<open>simp_all add: UNLOCK_step_def pcs_def [symmetric]\<close>)

lemma act_line:
  assumes "bl_line N s q" "i < N" "N < 2 ^ 16"
  shows "bl_line N (bl_act c i r s) q \<or> bl_line N (bl_act c i r s) (q @ [i]) \<or> (\<exists>r'. q = i # r' \<and> bl_line N (bl_act c i r s) r')"
proof (cases "pcs s i")
  case Out
  then have "bl_line N (goto i (LSpin pl) s) q" "bl_line N (goto i (TStart pl) s) q" for pl
    using bl_quiet [OF assms(1) [unfolded bl_line_def], of "LSpin pl" i] bl_quiet [OF assms(1) [unfolded bl_line_def], of "TStart pl" i]
    by (simp_all add: bl_line_def)
  then show ?thesis using Out assms(1) by (cases r) (simp_all add: bl_act_def pcs_def)
next
  case Held
  then have "bl_line N (goto i (UFetch pl) s) q" for pl
    using bl_quiet [OF assms(1) [unfolded bl_line_def], of "UFetch pl" i] by (simp add: bl_line_def)
  then show ?thesis using Held assms(1) by (cases r) (simp_all add: bl_act_def pcs_def)
qed (use LOCK_line [OF assms, of c] TRYLOCK_line [OF assms, of c] UNLOCK_line [OF assms(1), of c i] assms(1) in
    \<open>simp_all add: bl_act_def pcs_def, blast+\<close>)

lemma alloc_line: "(\<And>i. pc (cpus i) = Out) \<Longrightarrow> bl_line N (LOCK_ALLOC cpus) []"
  by (simp add: bl_line_def bl_inv_def LOCK_ALLOC_def tickets_def gate_ok_def pcs_def)

lemma reach_line:
  assumes "bl_reach c N s" "N < 2 ^ 16"
  shows "\<exists>q. bl_line N s q"
  using assms(1)
proof (induction rule: bl_reach.induct)
  case (start cpus)
  then show ?case using alloc_line by blast
next
  case (step s i r)
  then obtain q where "bl_line N s q" by blast
  then show ?case using act_line [OF _ step(2) assms(2)] by blast
qed

text \<open>From the gate to the release, a processor runs at the level of the lock or above.\<close>

fun level_ok :: "nat \<Rightarrow> bl_pc \<Rightarrow> nat \<Rightarrow> bool" where
  "level_ok m Out l = True"
| "level_ok m Panic l = True"
| "level_ok m (LSpin pl) l = (m \<le> pl)"
| "level_ok m (TStart pl) l = (m \<le> pl)"
| "level_ok m (TSeen pl _) l = (m \<le> pl)"
| "level_ok m (TSet pl) l = (m \<le> pl)"
| "level_ok m _ l = (m \<le> l)"

lemma level_simps [simp]:
  "spl (splraise pl p) = max (spl p) pl" "pc (splraise pl p) = pc p" "spl (splx pl p) = pl" "pc (splx pl p) = pc p" "spl (counted c p) = spl p" "pc (counted c p) = pc p"
  "spl (warned c p) = spl p" "pc (warned c p) = pc p"
  by (simp_all add: splraise_def splx_def counted_def warned_def)

lemma act_level:
  assumes "level_ok (min_pl c) (pc (bl_cpus s j)) (spl (bl_cpus s j))" "level_asked c r"
  shows "level_ok (min_pl c) (pc (bl_cpus (bl_act c i r s) j)) (spl (bl_cpus (bl_act c i r s) j))"
proof (cases "j = i")
  case True
  then show ?thesis using assms
    by (cases "pc (bl_cpus s i)"; cases r)
      (simp_all add: bl_act_def LOCK_step_def TRYLOCK_step_def UNLOCK_step_def TEST_AND_SET_LOCK_def goto_def on_cpu_def le_max_iff_disj)
next
  case False
  then show ?thesis using assms
    by (cases "pc (bl_cpus s i)"; cases r)
      (simp_all add: bl_act_def LOCK_step_def TRYLOCK_step_def UNLOCK_step_def TEST_AND_SET_LOCK_def goto_def on_cpu_def)
qed

lemma reach_level: "bl_reach c N s \<Longrightarrow> level_ok (min_pl c) (pc (bl_cpus s j)) (spl (bl_cpus s j))"
  by (induction rule: bl_reach.induct) (simp_all add: LOCK_ALLOC_def act_level)

text \<open>C10: at most one of any number of processors below 65536 has a basic lock, whatever they do and in whichever order their accesses to it happen; the checks
  that would stop the kernel never fail, also when the tickets wrap around; and a processor that has the lock runs at the interrupt level of the lock or above.
\<close>

theorem lock_excludes:
  assumes "bl_reach c N s" "N < 2 ^ 16"
  shows "(\<forall>i j. pcs s i = Held \<and> pcs s j = Held \<longrightarrow> i = j) \<and> (\<forall>i. pcs s i \<noteq> Panic) \<and> (\<forall>i. pcs s i = Held \<longrightarrow> min_pl c \<le> spl (bl_cpus s i))"
proof -
  obtain q where q: "bl_line N s q" using reach_line [OF assms] by blast
  then have t: "tickets (bl_lock_holder s) (bl_next_ticket s) (\<lambda>i. bl_ticket (bl_lock_holder s) (pcs s i)) q" by (simp add: bl_line_def bl_inv_def)
  have "\<exists>r. q = i # r" if "pcs s i = Held" for i using tickets_head [OF t, of i] that by simp
  then have "\<forall>i j. pcs s i = Held \<and> pcs s j = Held \<longrightarrow> i = j" by (metis list.inject)
  moreover have "pcs s i \<noteq> Panic" for i using bl_fact_at [OF q, of i] by auto
  moreover have "min_pl c \<le> spl (bl_cpus s i)" if "pcs s i = Held" for i using reach_level [OF assms(1), of i] that by (simp add: pcs_def)
  ultimately show ?thesis by simp
qed

text \<open>C11: the lock is a queue of processors. Whatever a processor does next leaves the queue as it is, puts the processor at its end, or, when it is at its head,
  takes it off; the lock belongs to the head, and the head, once it waits for its ticket, has the lock with its next step. So processors get the lock in the order
  in which they took their tickets, and none waits longer than those before it have the lock.
\<close>

theorem lock_fifo:
  assumes "bl_reach c N s" "N < 2 ^ 16" "i < N"
  shows "\<exists>q. bl_line N s q \<and> (\<forall>j. pcs s j = Held \<longrightarrow> q \<noteq> [] \<and> j = hd q) \<and>
    (bl_line N (bl_act c i r s) q \<or> bl_line N (bl_act c i r s) (q @ [i]) \<or> (q \<noteq> [] \<and> i = hd q \<and> bl_line N (bl_act c i r s) (tl q))) \<and>
    (\<forall>t. q \<noteq> [] \<and> i = hd q \<and> pcs s i = LWait t \<longrightarrow> pcs (bl_act c i r s) i = Held)"
proof -
  obtain q where q: "bl_line N s q" using reach_line [OF assms(1,2)] by blast
  then have t: "tickets (bl_lock_holder s) (bl_next_ticket s) (\<lambda>i. bl_ticket (bl_lock_holder s) (pcs s i)) q" by (simp add: bl_line_def bl_inv_def)
  have "q \<noteq> [] \<and> j = hd q" if "pcs s j = Held" for j using tickets_head [OF t, of j] that by auto
  moreover have "pcs (bl_act c i r s) i = Held" if "q \<noteq> []" "i = hd q" "pcs s i = LWait u" for u
  proof -
    have "bl_ticket (bl_lock_holder s) (pcs s (q ! 0)) = Some (bl_lock_holder s)" using t that(1) by (simp add: tickets_def)
    then have "u = bl_lock_holder s" using that by (simp add: hd_conv_nth)
    then show ?thesis using that(3) by (simp add: bl_act_def LOCK_step_def pcs_def [symmetric])
  qed
  ultimately show ?thesis using act_line [OF q assms(3,2), of c r] q by (intro exI [of _ q]) fastforce
qed

text \<open>the record of the locks that a processor has follows its calls: it counts the locks at each place of the hierarchy, and its maximum is the highest place
  with a lock, in whatever order the locks are taken and given back, so that \<open>LOCK\<close> warns exactly when a lock at the same place or a higher one is held.
\<close>

theorem hierarchy_max:
  assumes "hier_ok low H d"
  shows "(low \<le> h \<longrightarrow> hier_ok low (add_mset h H) (LOCK_COUNT_HIERARCHY h d)) \<and> (h \<in># H \<longrightarrow> hier_ok low (H - {#h#}) (LOCK_FREE_HIERARCHY low h d)) \<and>
    (low \<le> h \<longrightarrow> (h \<le> dc_max_hierarchy d \<longleftrightarrow> (\<exists>x \<in># H. h \<le> x)))"
proof (intro conjI impI)
  show "hier_ok low (add_mset h H) (LOCK_COUNT_HIERARCHY h d)" if "low \<le> h" using hier_count [OF assms that] .
  show "hier_ok low (H - {#h#}) (LOCK_FREE_HIERARCHY low h d)" if "h \<in># H" by (rule hier_free) (use assms that in simp)
  show "h \<le> dc_max_hierarchy d \<longleftrightarrow> (\<exists>x \<in># H. h \<le> x)" if "low \<le> h"
    using assms that by (cases "H = {#}") (auto simp: hier_ok_def Max_ge_iff)
qed

section \<open>Witnesses\<close>

lemma bl_reach_foldl: "bl_reach c N s \<Longrightarrow> \<forall>(i, r) \<in> set xs. i < N \<and> level_asked c r \<Longrightarrow> bl_reach c N (foldl (\<lambda>s (i, r). bl_act c i r s) s xs)"
  by (induction xs arbitrary: s) (auto intro: bl_reach.step)

text \<open>Two processors: the first has taken the lock, the second waits with the next ticket.\<close>

definition lk_ex :: lk_cfg where
  "lk_ex = \<lparr>MIN_HIERARCHY = 1, hierarchy = 3, min_pl = 5\<rparr>"

definition cpu_ex :: "'p \<Rightarrow> 'p cpu" where
  "cpu_ex p = \<lparr>pc = p, spl = 0, prev_pl = 0, dc = \<lparr>dc_hierarchy_cnt = (\<lambda>_. 0), dc_max_hierarchy = 0\<rparr>, warns = 0\<rparr>"

definition bl_ex :: bl where
  "bl_ex = foldl (\<lambda>s (i, r). bl_act lk_ex i r s) (LOCK_ALLOC (\<lambda>_. cpu_ex Out))
     ((0, Req_LOCK 5) # replicate 5 (0, No_req) @ (1, Req_LOCK 7) # replicate 4 (1, No_req))"

lemma bl_ex_reach: "bl_reach lk_ex 2 bl_ex"
  unfolding bl_ex_def by (rule bl_reach_foldl [OF bl_reach.start]) (auto simp: cpu_ex_def lk_ex_def)

lemma bl_ex_pcs: "pcs bl_ex 0 = Held" "pcs bl_ex 1 = LWait 1" "spl (bl_cpus bl_ex 0) = 5"
  by (simp_all add: bl_ex_def pcs_def eval_nat_numeral bl_act_def LOCK_step_def TEST_AND_SET_LOCK_def goto_def on_cpu_def LOCK_ALLOC_def cpu_ex_def)

theorem lock_excludes_witness: "pcs bl_ex 0 = Held \<and> pcs bl_ex 1 \<noteq> Held \<and> min_pl lk_ex \<le> spl (bl_cpus bl_ex 0)"
  using lock_excludes [OF bl_ex_reach] bl_ex_pcs(1) by auto

theorem lock_fifo_witness: "\<exists>q. bl_line 2 bl_ex q \<and> q \<noteq> [] \<and> hd q = 0"
  using lock_fifo [OF bl_ex_reach, of 1 No_req] bl_ex_pcs(1) by fastforce

theorem hierarchy_max_witness:
  "hier_ok 1 {#3, 3, 2#} (LOCK_COUNT_HIERARCHY 2 (LOCK_COUNT_HIERARCHY 3 (LOCK_COUNT_HIERARCHY 3 (dc (cpu_ex Out)))))"
proof -
  have 0: "hier_ok 1 {#} (dc (cpu_ex Out))" by (simp add: hier_ok_def cpu_ex_def)
  have "hier_ok 1 {#3#} (LOCK_COUNT_HIERARCHY 3 (dc (cpu_ex Out)))" using hierarchy_max [OF 0, of 3] by simp
  then have "hier_ok 1 {#3, 3#} (LOCK_COUNT_HIERARCHY 3 (LOCK_COUNT_HIERARCHY 3 (dc (cpu_ex Out))))" using hierarchy_max [of 1 "{#3#}" _ 3] by simp
  from hierarchy_max [OF this, of 2] show ?thesis by (simp add: add_mset_commute)
qed

end
