(* ===== verification/RwLock.thy ===== *)
theory RwLock
  imports Locks
begin

text \<open>
  Read/write locks, \<open>coh.386/lib/ksynch.c\<close>, on several processors, step by step as in \<open>Locks\<close>. Writers take tickets; readers are counted, and may come in only while
  no writer has a ticket.
\<close>

section \<open>State and operations\<close>

text \<open>
  The points of \<open>RW_RDLOCK\<close> (R), \<open>RW_TRYRDLOCK\<close> (Q), \<open>RW_WRLOCK\<close> (W), \<open>RW_TRYWRLOCK\<close> (V) and \<open>RW_UNLOCK\<close> (U). The two functions for readers have the same end,
  \<open>RCount\<close>, \<open>RStore\<close>, \<open>RClear\<close>. Whether \<open>URead\<close> comes from a reader is kept for the proofs only; the code does not look at it.
\<close>

datatype rw_pc = Out | RHeld | WHeld
  | RSpin nat | RGate nat | RSeen nat "16 word" | RBack nat | RCount | RStore "16 word" | RClear
  | QSet nat | QGate | QSeen "16 word" | QBack
  | WSpin nat | WGate | WTicket "16 word" | WClear "16 word" | WWait "16 word" | WReaders "16 word"
  | VSet nat | VGate | VSeen "16 word" | VReaders "16 word" | VTake "16 word" | VClear
  | URead bool nat | UGate nat | UCount nat | UDec nat "16 word" | UClear nat | UHolder nat | UNext nat "16 word" | UInc nat "16 word" | Panic

record rw =
  rw_next_ticket :: "16 word"
  rw_lock_holder :: "16 word"
  rw_readers :: "16 word"
  rw_locked :: bool
  rw_cpus :: "nat \<Rightarrow> rw_pc cpu"

definition on_rw :: "nat \<Rightarrow> (rw_pc cpu \<Rightarrow> rw_pc cpu) \<Rightarrow> rw \<Rightarrow> rw" where
  "on_rw i f s = s\<lparr>rw_cpus := (rw_cpus s)(i := f (rw_cpus s i))\<rparr>"

definition jump :: "nat \<Rightarrow> rw_pc \<Rightarrow> rw \<Rightarrow> rw" where
  "jump i p = on_rw i (pc_update (\<lambda>_. p))"

definition RW_RDLOCK_step :: "lk_cfg \<Rightarrow> nat \<Rightarrow> rw \<Rightarrow> rw" where
  "RW_RDLOCK_step c i s = (case pc (rw_cpus s i) of
     RSpin pl \<Rightarrow> if rw_locked s then s else on_rw i (\<lambda>p. (splx pl p)\<lparr>pc := RGate pl\<rparr>) (s\<lparr>rw_locked := True\<rparr>)
   | RGate pl \<Rightarrow> jump i (RSeen pl (rw_lock_holder s)) s
   | RSeen pl t \<Rightarrow> jump i (if t = rw_next_ticket s then RCount else RBack pl) s
   | RBack pl \<Rightarrow> on_rw i (\<lambda>p. (splx (prev_pl p) p)\<lparr>pc := RSpin pl\<rparr>) (s\<lparr>rw_locked := False\<rparr>)
   | RCount \<Rightarrow> jump i (RStore (rw_readers s)) s
   | RStore k \<Rightarrow> jump i (if rw_readers s = k then RClear else Panic) (s\<lparr>rw_readers := k + 1\<rparr>)
   | RClear \<Rightarrow> on_rw i (\<lambda>p. (counted c p)\<lparr>pc := RHeld\<rparr>) (s\<lparr>rw_locked := False\<rparr>)
   | _ \<Rightarrow> s)"

definition RW_TRYRDLOCK_step :: "nat \<Rightarrow> rw \<Rightarrow> rw" where
  "RW_TRYRDLOCK_step i s = (case pc (rw_cpus s i) of
     QSet pl \<Rightarrow> if rw_locked s then jump i Out s else on_rw i (\<lambda>p. (splx pl p)\<lparr>pc := QGate\<rparr>) (s\<lparr>rw_locked := True\<rparr>)
   | QGate \<Rightarrow> jump i (QSeen (rw_next_ticket s)) s
   | QSeen t \<Rightarrow> jump i (if t \<noteq> rw_lock_holder s then QBack else RCount) s
   | QBack \<Rightarrow> on_rw i (\<lambda>p. (splx (prev_pl p) p)\<lparr>pc := Out\<rparr>) (s\<lparr>rw_locked := False\<rparr>)
   | _ \<Rightarrow> s)"

definition RW_WRLOCK_step :: "lk_cfg \<Rightarrow> nat \<Rightarrow> rw \<Rightarrow> rw" where
  "RW_WRLOCK_step c i s = (case pc (rw_cpus s i) of
     WSpin pl \<Rightarrow> if rw_locked s then s else on_rw i (\<lambda>p. (splraise pl p)\<lparr>pc := WGate\<rparr>) (s\<lparr>rw_locked := True\<rparr>)
   | WGate \<Rightarrow> jump i (WTicket (rw_next_ticket s)) s
   | WTicket t \<Rightarrow> jump i (if rw_next_ticket s = t then WClear t else Panic) (s\<lparr>rw_next_ticket := t + 1\<rparr>)
   | WClear t \<Rightarrow> jump i (WWait t) (s\<lparr>rw_locked := False\<rparr>)
   | WWait t \<Rightarrow> if rw_lock_holder s \<noteq> t then s else jump i (WReaders t) s
   | WReaders t \<Rightarrow> if rw_readers s \<noteq> 0 then jump i (WWait t) s else on_rw i (\<lambda>p. (counted c p)\<lparr>pc := WHeld\<rparr>) s
   | _ \<Rightarrow> s)"

definition RW_TRYWRLOCK_step :: "lk_cfg \<Rightarrow> nat \<Rightarrow> rw \<Rightarrow> rw" where
  "RW_TRYWRLOCK_step c i s = (case pc (rw_cpus s i) of
     VSet pl \<Rightarrow> if rw_locked s then jump i Out s else on_rw i (\<lambda>p. (splx pl p)\<lparr>pc := VGate\<rparr>) (s\<lparr>rw_locked := True\<rparr>)
   | VGate \<Rightarrow> jump i (VSeen (rw_next_ticket s)) s
   | VSeen t \<Rightarrow> jump i (if t \<noteq> rw_lock_holder s then QBack else VReaders t) s
   | VReaders t \<Rightarrow> jump i (if rw_readers s \<noteq> 0 then QBack else VTake t) s
   | VTake t \<Rightarrow> jump i (if rw_next_ticket s = t then VClear else Panic) (s\<lparr>rw_next_ticket := t + 1\<rparr>)
   | VClear \<Rightarrow> on_rw i (\<lambda>p. (counted c p)\<lparr>pc := WHeld\<rparr>) (s\<lparr>rw_locked := False\<rparr>)
   | _ \<Rightarrow> s)"

definition RW_UNLOCK_step :: "nat \<Rightarrow> rw \<Rightarrow> rw" where
  "RW_UNLOCK_step i s = (case pc (rw_cpus s i) of
     URead _ pl \<Rightarrow> jump i (if rw_readers s \<noteq> 0 then UGate pl else UHolder pl) s
   | UGate pl \<Rightarrow> if rw_locked s then s else jump i (UCount pl) (s\<lparr>rw_locked := True\<rparr>)
   | UCount pl \<Rightarrow> jump i (UDec pl (rw_readers s)) s
   | UDec pl k \<Rightarrow> jump i (if rw_readers s = k then UClear pl else Panic) (s\<lparr>rw_readers := k - 1\<rparr>)
   | UClear pl \<Rightarrow> on_rw i (\<lambda>p. (splx pl p)\<lparr>pc := Out\<rparr>) (s\<lparr>rw_locked := False\<rparr>)
   | UHolder pl \<Rightarrow> jump i (UNext pl (rw_lock_holder s)) s
   | UNext pl t \<Rightarrow> jump i (if t \<noteq> rw_next_ticket s then UInc pl t else Panic) s
   | UInc pl t \<Rightarrow> on_rw i (\<lambda>p. (splx pl p)\<lparr>pc := (if rw_lock_holder s = t then Out else Panic)\<rparr>) (s\<lparr>rw_lock_holder := t + 1\<rparr>)
   | _ \<Rightarrow> s)"

datatype rw_req = Req_RDLOCK nat | Req_TRYRDLOCK nat | Req_WRLOCK nat | Req_TRYWRLOCK nat | Req_UNLOCK nat | No_req

text \<open>\<open>RW_UNLOCK\<close> begins with the record of the hierarchy.\<close>

definition rw_release :: "lk_cfg \<Rightarrow> bool \<Rightarrow> nat \<Rightarrow> nat \<Rightarrow> rw \<Rightarrow> rw" where
  "rw_release c rd pl i = on_rw i (\<lambda>p. p\<lparr>dc := LOCK_FREE_HIERARCHY (MIN_HIERARCHY c) (hierarchy c) (dc p), pc := URead rd pl\<rparr>)"

text \<open>The function a processor is in.\<close>

fun rw_func :: "rw_pc \<Rightarrow> lk_cfg \<Rightarrow> nat \<Rightarrow> rw \<Rightarrow> rw" where
  "rw_func (QSet _) c = RW_TRYRDLOCK_step"
| "rw_func QGate c = RW_TRYRDLOCK_step"
| "rw_func (QSeen _) c = RW_TRYRDLOCK_step"
| "rw_func QBack c = RW_TRYRDLOCK_step"
| "rw_func (WSpin _) c = RW_WRLOCK_step c"
| "rw_func WGate c = RW_WRLOCK_step c"
| "rw_func (WTicket _) c = RW_WRLOCK_step c"
| "rw_func (WClear _) c = RW_WRLOCK_step c"
| "rw_func (WWait _) c = RW_WRLOCK_step c"
| "rw_func (WReaders _) c = RW_WRLOCK_step c"
| "rw_func (VSet _) c = RW_TRYWRLOCK_step c"
| "rw_func VGate c = RW_TRYWRLOCK_step c"
| "rw_func (VSeen _) c = RW_TRYWRLOCK_step c"
| "rw_func (VReaders _) c = RW_TRYWRLOCK_step c"
| "rw_func (VTake _) c = RW_TRYWRLOCK_step c"
| "rw_func VClear c = RW_TRYWRLOCK_step c"
| "rw_func (URead _ _) c = RW_UNLOCK_step"
| "rw_func (UGate _) c = RW_UNLOCK_step"
| "rw_func (UCount _) c = RW_UNLOCK_step"
| "rw_func (UDec _ _) c = RW_UNLOCK_step"
| "rw_func (UClear _) c = RW_UNLOCK_step"
| "rw_func (UHolder _) c = RW_UNLOCK_step"
| "rw_func (UNext _ _) c = RW_UNLOCK_step"
| "rw_func (UInc _ _) c = RW_UNLOCK_step"
| "rw_func _ c = RW_RDLOCK_step c"

definition rw_act :: "lk_cfg \<Rightarrow> nat \<Rightarrow> rw_req \<Rightarrow> rw \<Rightarrow> rw" where
  "rw_act c i r s = (case pc (rw_cpus s i) of
     Out \<Rightarrow> (case r of
         Req_RDLOCK pl \<Rightarrow> jump i (RSpin pl) s
       | Req_TRYRDLOCK pl \<Rightarrow> jump i (QSet pl) s
       | Req_WRLOCK pl \<Rightarrow> jump i (WSpin pl) s
       | Req_TRYWRLOCK pl \<Rightarrow> jump i (VSet pl) s
       | _ \<Rightarrow> s)
   | RHeld \<Rightarrow> (case r of Req_UNLOCK pl \<Rightarrow> rw_release c True pl i s | _ \<Rightarrow> s)
   | WHeld \<Rightarrow> (case r of Req_UNLOCK pl \<Rightarrow> rw_release c False pl i s | _ \<Rightarrow> s)
   | p \<Rightarrow> rw_func p c i s)"

definition RW_ALLOC :: "(nat \<Rightarrow> rw_pc cpu) \<Rightarrow> rw" where
  "RW_ALLOC cpus = \<lparr>rw_next_ticket = 0, rw_lock_holder = 0, rw_readers = 0, rw_locked = False, rw_cpus = cpus\<rparr>"

inductive rw_reach :: "lk_cfg \<Rightarrow> nat \<Rightarrow> rw \<Rightarrow> bool" for c N where
  start: "(\<And>i. pc (cpus i) = Out) \<Longrightarrow> rw_reach c N (RW_ALLOC cpus)"
| step: "rw_reach c N s \<Longrightarrow> i < N \<Longrightarrow> rw_reach c N (rw_act c i r s)"

section \<open>Writers are a queue, readers are counted\<close>

fun rw_ticket :: "16 word \<Rightarrow> rw_pc \<Rightarrow> 16 word option" where
  "rw_ticket h (WClear t) = Some t"
| "rw_ticket h (WWait t) = Some t"
| "rw_ticket h (WReaders t) = Some t"
| "rw_ticket h VClear = Some h"
| "rw_ticket h WHeld = Some h"
| "rw_ticket h (URead rd _) = (if rd then None else Some h)"
| "rw_ticket h (UHolder _) = Some h"
| "rw_ticket h (UNext _ _) = Some h"
| "rw_ticket h (UInc _ _) = Some h"
| "rw_ticket h _ = None"

fun rw_gate :: "rw_pc \<Rightarrow> bool" where
  "rw_gate (RGate _) = True"
| "rw_gate (RSeen _ _) = True"
| "rw_gate (RBack _) = True"
| "rw_gate RCount = True"
| "rw_gate (RStore _) = True"
| "rw_gate RClear = True"
| "rw_gate QGate = True"
| "rw_gate (QSeen _) = True"
| "rw_gate QBack = True"
| "rw_gate WGate = True"
| "rw_gate (WTicket _) = True"
| "rw_gate (WClear _) = True"
| "rw_gate VGate = True"
| "rw_gate (VSeen _) = True"
| "rw_gate (VReaders _) = True"
| "rw_gate (VTake _) = True"
| "rw_gate VClear = True"
| "rw_gate (UCount _) = True"
| "rw_gate (UDec _ _) = True"
| "rw_gate (UClear _) = True"
| "rw_gate _ = False"

fun rw_reads :: "rw_pc \<Rightarrow> bool" where
  "rw_reads RClear = True"
| "rw_reads RHeld = True"
| "rw_reads (URead rd _) = rd"
| "rw_reads (UGate _) = True"
| "rw_reads (UCount _) = True"
| "rw_reads (UDec _ _) = True"
| "rw_reads _ = False"

text \<open>What the local variables say; \<open>k\<close> is the number of readers.\<close>

fun rw_fact :: "16 word \<Rightarrow> 16 word \<Rightarrow> 16 word \<Rightarrow> rw_pc \<Rightarrow> bool" where
  "rw_fact n h k (RSeen _ t) = (t = n \<longrightarrow> n = h)"
| "rw_fact n h k RCount = (n = h)"
| "rw_fact n h k (RStore r) = (n = h \<and> r = k)"
| "rw_fact n h k RClear = (n = h)"
| "rw_fact n h k (QSeen t) = (t = n)"
| "rw_fact n h k (WTicket t) = (t = n)"
| "rw_fact n h k (WReaders t) = (t = h)"
| "rw_fact n h k (VSeen t) = (t = n)"
| "rw_fact n h k (VReaders t) = (t = n \<and> n = h)"
| "rw_fact n h k (VTake t) = (t = n \<and> n = h \<and> k = 0)"
| "rw_fact n h k VClear = (k = 0)"
| "rw_fact n h k WHeld = (k = 0)"
| "rw_fact n h k (URead rd _) = (rd \<or> k = 0)"
| "rw_fact n h k (UDec _ r) = (r = k)"
| "rw_fact n h k (UHolder _) = (k = 0)"
| "rw_fact n h k (UNext _ t) = (k = 0 \<and> t = h)"
| "rw_fact n h k (UInc _ t) = (k = 0 \<and> t = h)"
| "rw_fact n h k Panic = False"
| "rw_fact n h k _ = True"

definition rw_count :: "nat \<Rightarrow> (nat \<Rightarrow> rw_pc) \<Rightarrow> nat" where
  "rw_count N P = card {i. i < N \<and> rw_reads (P i)}"

definition rw_inv :: "nat \<Rightarrow> bool \<Rightarrow> 16 word \<Rightarrow> 16 word \<Rightarrow> 16 word \<Rightarrow> (nat \<Rightarrow> rw_pc) \<Rightarrow> nat list \<Rightarrow> bool" where
  "rw_inv N g n h k P q \<longleftrightarrow> tickets h n (\<lambda>i. rw_ticket h (P i)) q \<and> set q \<subseteq> {..<N} \<and> gate_ok g (\<lambda>i. rw_gate (P i)) \<and>
     of_nat (rw_count N P) = k \<and> (\<forall>i. rw_fact n h k (P i))"

lemma rw_count_same: "rw_reads b = rw_reads (P i) \<Longrightarrow> rw_count N (P(i := b)) = rw_count N P"
  unfolding rw_count_def by (rule arg_cong [of _ _ card]) auto

lemma rw_count_up:
  assumes "i < N" "\<not> rw_reads (P i)" "rw_reads b"
  shows "rw_count N (P(i := b)) = rw_count N P + 1"
proof -
  have "{j. j < N \<and> rw_reads ((P(i := b)) j)} = insert i {j. j < N \<and> rw_reads (P j)}" using assms by auto
  then show ?thesis using assms(2) by (simp add: rw_count_def)
qed

lemma rw_count_down:
  assumes "i < N" "rw_reads (P i)" "\<not> rw_reads b"
  shows "rw_count N P = rw_count N (P(i := b)) + 1"
proof -
  have "{j. j < N \<and> rw_reads (P j)} = insert i {j. j < N \<and> rw_reads ((P(i := b)) j)}" using assms by auto
  then show ?thesis using assms(3) by (simp add: rw_count_def)
qed

lemma rw_count_le: "rw_count N P \<le> N"
proof -
  have "card {i. i < N \<and> rw_reads (P i)} \<le> card {..<N}" by (rule card_mono) auto
  then show ?thesis by (simp add: rw_count_def)
qed

lemma rw_quiet:
  assumes "rw_inv N g n h k P q" "rw_gate b = rw_gate (P i)" "rw_ticket h b = rw_ticket h (P i)" "rw_reads b = rw_reads (P i)" "rw_fact n h k b"
  shows "rw_inv N g n h k (P(i := b)) q"
proof -
  have "(\<lambda>j. rw_ticket h ((P(i := b)) j)) = (\<lambda>j. rw_ticket h (P j))" "(\<lambda>j. rw_gate ((P(i := b)) j)) = (\<lambda>j. rw_gate (P j))" using assms(2,3) by auto
  then show ?thesis using assms(1,5) rw_count_same [of b P i N] assms(4) by (simp add: rw_inv_def)
qed

lemma rw_gated:
  assumes "rw_inv N g n h k P q" "rw_ticket h b = rw_ticket h (P i)" "rw_reads b = rw_reads (P i)" "rw_fact n h k b"
  shows "\<not> g \<Longrightarrow> rw_gate b \<Longrightarrow> rw_inv N True n h k (P(i := b)) q" and "rw_gate (P i) \<Longrightarrow> \<not> rw_gate b \<Longrightarrow> rw_inv N False n h k (P(i := b)) q"
proof -
  have t: "(\<lambda>j. rw_ticket h ((P(i := b)) j)) = (\<lambda>j. rw_ticket h (P j))" using assms(2) by auto
  have G: "(\<lambda>j. rw_gate ((P(i := b)) j)) = (\<lambda>j. rw_gate (P j))(i := rw_gate b)" by auto
  have g: "gate_ok g (\<lambda>j. rw_gate (P j))" using assms(1) by (simp add: rw_inv_def)
  have c: "rw_count N (P(i := b)) = rw_count N P" by (rule rw_count_same) (rule assms(3))
  show "rw_inv N True n h k (P(i := b)) q" if "\<not> g" "rw_gate b"
    using gate_upd(2) [OF g that(1), of i] that(2) assms(1,4) t G c unfolding rw_inv_def by simp
  show "rw_inv N False n h k (P(i := b)) q" if "rw_gate (P i)" "\<not> rw_gate b"
    using gate_upd(3) [OF g, of i] that assms(1,4) t G c unfolding rw_inv_def by simp
qed

text \<open>Outside the gate only a writer who has the lock relies on the counts.\<close>

lemma rw_fact_next: "\<not> rw_gate p \<Longrightarrow> rw_fact n h k p = rw_fact n' h k p"
  by (cases p) auto

lemma rw_fact_count: "\<not> rw_gate p \<Longrightarrow> rw_ticket h p \<noteq> Some h \<Longrightarrow> rw_fact n h k p = rw_fact n h k' p"
  by (cases p) (auto split: if_splits)

lemma rw_inv_fact: "rw_inv N g n h k P q \<Longrightarrow> rw_fact n h k (P j)"
  unfolding rw_inv_def by blast

lemma rw_take:
  assumes inv: "rw_inv N g n h k P q" and b: "rw_gate (P i)" "rw_gate b" "rw_ticket h (P i) = None" "rw_ticket h b = Some n" "rw_reads b = rw_reads (P i)"
      "rw_fact (n + 1) h k b"
    and N: "i < N" "N < 2 ^ 16"
  shows "rw_inv N g (n + 1) h k (P(i := b)) (q @ [i])"
proof -
  have t: "tickets h n (\<lambda>j. rw_ticket h (P j)) q" and q: "set q \<subseteq> {..<N}" and g: "gate_ok g (\<lambda>j. rw_gate (P j))" using inv by (simp_all add: rw_inv_def)
  have len: "length q + 1 < 2 ^ 16" by (rule tickets_room [OF t b(3) q N])
  have t': "tickets h (n + 1) (\<lambda>j. rw_ticket h ((P(i := b)) j)) (q @ [i])" by (rule tickets_take [OF t b(3) len]) (use b(4) in simp)
  have "(\<lambda>j. rw_gate ((P(i := b)) j)) = (\<lambda>j. rw_gate (P j))" using b(1,2) by auto
  moreover have "rw_fact (n + 1) h k ((P(i := b)) j)" for j
  proof (cases "j = i")
    case False
    then have "\<not> rw_gate (P j)" using g b(1) by (auto simp: gate_ok_def)
    then show ?thesis using False rw_inv_fact [OF inv, of j] rw_fact_next [of "P j" n h k "n + 1"] by simp
  qed (use b(6) in simp)
  ultimately show ?thesis using t' q N(1) g inv rw_count_same [of b P i N] b(5) by (simp add: rw_inv_def)
qed

lemma rw_ticket_holder: "rw_ticket h p \<noteq> Some h \<Longrightarrow> rw_ticket h' p = rw_ticket h p"
  by (cases p) auto

lemma rw_free:
  assumes inv: "rw_inv N g n h k P q" and a: "P i = UInc pl t"
  shows "\<exists>r. q = i # r \<and> rw_inv N g n (h + 1) k (P(i := Out)) r"
proof -
  have t: "tickets h n (\<lambda>j. rw_ticket h (P j)) q" using inv by (simp add: rw_inv_def)
  obtain r where r: "q = i # r" using tickets_head [OF t, of i] a by auto
  have other: "rw_ticket h (P j) \<noteq> Some h" if "j \<noteq> i" for j using tickets_head [OF t, of j] that r by auto
  have same: "rw_ticket (h + 1) (P j) = rw_ticket h (P j)" if "j \<noteq> i" for j by (rule rw_ticket_holder [OF other [OF that]])
  have t': "tickets (h + 1) n (\<lambda>j. rw_ticket (h + 1) ((P(i := Out)) j)) r"
    by (rule tickets_drop [OF t [unfolded r]]) (simp_all add: same)
  have ne: "n \<noteq> h" using tickets_empty [OF t] r by auto
  have "rw_fact n (h + 1) k ((P(i := Out)) j)" for j
  proof (cases "j = i")
    case False
    have "rw_fact n h k (P j)" by (rule rw_inv_fact [OF inv])
    then show ?thesis using False other [OF False] ne by (cases "P j") auto
  qed simp
  moreover have "(\<lambda>j. rw_gate ((P(i := Out)) j)) = (\<lambda>j. rw_gate (P j))" using a by auto
  moreover have "rw_count N (P(i := Out)) = rw_count N P" by (rule rw_count_same) (simp add: a)
  ultimately show ?thesis using inv r t' by (simp add: rw_inv_def)
qed

text \<open>A reader is counted while no writer has a ticket.\<close>

lemma rw_enter:
  assumes inv: "rw_inv N g n h k P q" and a: "P i = RStore k" and N: "i < N" "N < 2 ^ 16"
  shows "q = [] \<and> rw_inv N g n h (k + 1) (P(i := RClear)) q"
proof -
  have t: "tickets h n (\<lambda>j. rw_ticket h (P j)) q" and g: "gate_ok g (\<lambda>j. rw_gate (P j))" using inv by (simp_all add: rw_inv_def)
  have "n = h" using rw_inv_fact [OF inv, of i] a by simp
  then have q: "q = []" using tickets_empty [OF t] by simp
  then have none: "rw_ticket h (P j) = None" for j using t by (auto simp: tickets_def)
  have "rw_fact n h (k + 1) ((P(i := RClear)) j)" for j
  proof (cases "j = i")
    case False
    then have "\<not> rw_gate (P j)" using g a by (auto simp: gate_ok_def)
    then show ?thesis using False rw_inv_fact [OF inv, of j] rw_fact_count [of "P j" h n k "k + 1"] none [of j] by simp
  qed (use \<open>n = h\<close> in simp)
  moreover have "(\<lambda>j. rw_ticket h ((P(i := RClear)) j)) = (\<lambda>j. rw_ticket h (P j))" "(\<lambda>j. rw_gate ((P(i := RClear)) j)) = (\<lambda>j. rw_gate (P j))" using a by auto
  moreover have "rw_count N (P(i := RClear)) = rw_count N P + 1" by (rule rw_count_up) (simp_all add: a N)
  moreover have "of_nat (rw_count N P) = k" using inv unfolding rw_inv_def by blast
  ultimately show ?thesis using t g q by (simp add: rw_inv_def)
qed

lemma rw_leave:
  assumes inv: "rw_inv N g n h k P q" and a: "P i = UDec pl k" and N: "i < N" "N < 2 ^ 16"
  shows "rw_inv N g n h (k - 1) (P(i := UClear pl)) q"
proof -
  have t: "tickets h n (\<lambda>j. rw_ticket h (P j)) q" and q: "set q \<subseteq> {..<N}" and g: "gate_ok g (\<lambda>j. rw_gate (P j))" using inv by (simp_all add: rw_inv_def)
  have c: "rw_count N P = rw_count N (P(i := UClear pl)) + 1" by (rule rw_count_down) (simp_all add: a N)
  have k: "of_nat (rw_count N P) = k" using inv unfolding rw_inv_def by blast
  have "rw_count N P < 2 ^ 16" using rw_count_le [of N P] N(2) by simp
  then have ne: "k \<noteq> 0" using of_nat_eq [of "rw_count N P" 0] c k by simp
  have "rw_fact n h (k - 1) ((P(i := UClear pl)) j)" for j
  proof (cases "j = i")
    case False
    then have ng: "\<not> rw_gate (P j)" using g a by (auto simp: gate_ok_def)
    have f: "rw_fact n h k (P j)" by (rule rw_inv_fact [OF inv])
    then have "rw_fact n h (k - 1) (P j)" using ng ne by (cases "P j") auto
    then show ?thesis using False by simp
  qed simp
  moreover have "(\<lambda>j. rw_ticket h ((P(i := UClear pl)) j)) = (\<lambda>j. rw_ticket h (P j))" "(\<lambda>j. rw_gate ((P(i := UClear pl)) j)) = (\<lambda>j. rw_gate (P j))" using a by auto
  moreover have "of_nat (rw_count N (P(i := UClear pl))) = k - 1" using k c by (auto simp: of_nat_Suc)
  ultimately show ?thesis using t g q by (simp add: rw_inv_def)
qed

definition rpcs :: "rw \<Rightarrow> nat \<Rightarrow> rw_pc" where
  "rpcs s i = pc (rw_cpus s i)"

lemma rpcs_simps [simp]: "rpcs (on_rw i f s) = (rpcs s)(i := pc (f (rw_cpus s i)))" "rpcs (jump i p s) = (rpcs s)(i := p)"
  "rpcs (s\<lparr>rw_locked := g\<rparr>) = rpcs s" "rpcs (s\<lparr>rw_next_ticket := n\<rparr>) = rpcs s" "rpcs (s\<lparr>rw_lock_holder := h\<rparr>) = rpcs s" "rpcs (s\<lparr>rw_readers := k\<rparr>) = rpcs s"
  by (auto simp: rpcs_def on_rw_def jump_def)

lemma on_rw_simps [simp]:
  "rw_locked (on_rw i f s) = rw_locked s" "rw_next_ticket (on_rw i f s) = rw_next_ticket s" "rw_lock_holder (on_rw i f s) = rw_lock_holder s"
  "rw_readers (on_rw i f s) = rw_readers s" "rw_locked (jump i p s) = rw_locked s" "rw_next_ticket (jump i p s) = rw_next_ticket s"
  "rw_lock_holder (jump i p s) = rw_lock_holder s" "rw_readers (jump i p s) = rw_readers s"
  by (simp_all add: on_rw_def jump_def)

text \<open>The writers with tickets, in order.\<close>

definition rw_line :: "nat \<Rightarrow> rw \<Rightarrow> nat list \<Rightarrow> bool" where
  "rw_line N s q \<longleftrightarrow> rw_inv N (rw_locked s) (rw_next_ticket s) (rw_lock_holder s) (rw_readers s) (rpcs s) q"

lemma line_fact: "rw_line N s q \<Longrightarrow> rw_fact (rw_next_ticket s) (rw_lock_holder s) (rw_readers s) (rpcs s i)"
  unfolding rw_line_def by (rule rw_inv_fact)

text \<open>A move that changes neither the gate nor the tickets nor the readers, one through the gate, and one back.\<close>

lemma line_quiet:
  assumes "rw_line N s q" "pc (f (rw_cpus s i)) = b" "rw_gate b = rw_gate (rpcs s i)" "rw_ticket (rw_lock_holder s) b = rw_ticket (rw_lock_holder s) (rpcs s i)"
    "rw_reads b = rw_reads (rpcs s i)" "rw_fact (rw_next_ticket s) (rw_lock_holder s) (rw_readers s) b"
  shows "rw_line N (on_rw i f s) q"
  using rw_quiet [OF assms(1) [unfolded rw_line_def] assms(3-6)] assms(2) by (simp add: rw_line_def)

lemma line_enter:
  assumes "rw_line N s q" "pc (f (rw_cpus s i)) = b" "\<not> rw_locked s" "rw_gate b" "rw_ticket (rw_lock_holder s) b = rw_ticket (rw_lock_holder s) (rpcs s i)"
    "rw_reads b = rw_reads (rpcs s i)" "rw_fact (rw_next_ticket s) (rw_lock_holder s) (rw_readers s) b"
  shows "rw_line N (on_rw i f (s\<lparr>rw_locked := True\<rparr>)) q"
  using rw_gated(1) [OF assms(1) [unfolded rw_line_def] assms(5-7) assms(3,4)] assms(2) by (simp add: rw_line_def)

lemma line_exit:
  assumes "rw_line N s q" "pc (f (rw_cpus s i)) = b" "rw_gate (rpcs s i)" "\<not> rw_gate b" "rw_ticket (rw_lock_holder s) b = rw_ticket (rw_lock_holder s) (rpcs s i)"
    "rw_reads b = rw_reads (rpcs s i)" "rw_fact (rw_next_ticket s) (rw_lock_holder s) (rw_readers s) b"
  shows "rw_line N (on_rw i f (s\<lparr>rw_locked := False\<rparr>)) q"
  using rw_gated(2) [OF assms(1) [unfolded rw_line_def] assms(5-7) assms(3,4)] assms(2) by (simp add: rw_line_def)

lemmas line_gated = line_enter line_enter [of _ _ _ "pc_update (\<lambda>_. b)" _ b for b, folded jump_def, simplified]
  line_exit line_exit [of _ _ _ "pc_update (\<lambda>_. b)" _ b for b, folded jump_def, simplified]

lemmas line_plain = line_quiet line_quiet [of _ _ _ "pc_update (\<lambda>_. b)" _ b for b, folded jump_def, simplified]

text \<open>Who reads is counted, and who writes is the first writer.\<close>

lemma line_reads:
  assumes "rw_line N s q" "rw_reads (rpcs s i)" "i < N" "N < 2 ^ 16"
  shows "rw_readers s \<noteq> 0"
proof -
  have "card {j. j < N \<and> rw_reads (rpcs s j)} \<noteq> 0" using assms(2,3) by auto
  then have "rw_count N (rpcs s) \<noteq> 0" by (simp add: rw_count_def)
  moreover have "rw_count N (rpcs s) < 2 ^ 16" using rw_count_le [of N "rpcs s"] assms(4) by simp
  moreover have "of_nat (rw_count N (rpcs s)) = rw_readers s" using assms(1) by (simp add: rw_line_def rw_inv_def)
  ultimately show ?thesis using of_nat_eq [of "rw_count N (rpcs s)" 0] by auto
qed

lemma line_writes:
  assumes "rw_line N s q" "rw_ticket (rw_lock_holder s) (rpcs s i) = Some (rw_lock_holder s)"
  shows "\<exists>r. q = i # r" and "rw_lock_holder s \<noteq> rw_next_ticket s"
proof -
  have t: "tickets (rw_lock_holder s) (rw_next_ticket s) (\<lambda>i. rw_ticket (rw_lock_holder s) (rpcs s i)) q" using assms(1) by (simp add: rw_line_def rw_inv_def)
  show "\<exists>r. q = i # r" by (rule tickets_head [OF t]) (rule assms(2))
  then show "rw_lock_holder s \<noteq> rw_next_ticket s" using tickets_empty [OF t] by auto
qed

lemma RW_RDLOCK_line:
  assumes "rw_line N s q" "i < N" "N < 2 ^ 16"
  shows "rw_line N (RW_RDLOCK_step c i s) q"
proof (cases "rpcs s i")
  case (RStore k)
  then have k: "rw_readers s = k" using line_fact [OF assms(1), of i] by simp
  have "rw_inv N (rw_locked s) (rw_next_ticket s) (rw_lock_holder s) (k + 1) ((rpcs s)(i := RClear)) q"
    using conjunct2 [OF rw_enter [OF assms(1) [unfolded rw_line_def] _ assms(2,3)]] RStore k by simp
  then show ?thesis using RStore k by (simp add: RW_RDLOCK_step_def rw_line_def rpcs_def [symmetric])
qed (use assms(1) line_fact [OF assms(1), of i] in
    \<open>auto simp: RW_RDLOCK_step_def rpcs_def [symmetric] intro!: line_gated intro: line_plain\<close>)

lemma RW_TRYRDLOCK_line: "rw_line N s q \<Longrightarrow> rw_line N (RW_TRYRDLOCK_step i s) q"
  using line_fact [of N s q i]
  by (cases "rpcs s i") (auto simp: RW_TRYRDLOCK_step_def rpcs_def [symmetric] intro!: line_gated intro: line_plain)

lemma RW_WRLOCK_line:
  assumes "rw_line N s q" "i < N" "N < 2 ^ 16"
  shows "rw_line N (RW_WRLOCK_step c i s) q \<or> rw_line N (RW_WRLOCK_step c i s) (q @ [i])"
proof (cases "rpcs s i")
  case (WTicket t)
  then have t: "rw_next_ticket s = t" using line_fact [OF assms(1), of i] by simp
  have "rw_inv N (rw_locked s) (t + 1) (rw_lock_holder s) (rw_readers s) ((rpcs s)(i := WClear t)) (q @ [i])"
    using rw_take [OF assms(1) [unfolded rw_line_def], of i "WClear t"] WTicket t assms(2,3) by simp
  then show ?thesis using WTicket t by (simp add: RW_WRLOCK_step_def rw_line_def rpcs_def [symmetric])
qed (use assms(1) line_fact [OF assms(1), of i] in
    \<open>auto simp: RW_WRLOCK_step_def rpcs_def [symmetric] intro!: line_gated disjI1 intro: line_plain\<close>)

lemma RW_TRYWRLOCK_line:
  assumes "rw_line N s q" "i < N" "N < 2 ^ 16"
  shows "rw_line N (RW_TRYWRLOCK_step c i s) q \<or> rw_line N (RW_TRYWRLOCK_step c i s) (q @ [i])"
proof (cases "rpcs s i")
  case (VTake t)
  then have t: "rw_next_ticket s = t" "rw_lock_holder s = t" "rw_readers s = 0" using line_fact [OF assms(1), of i] by simp_all
  have "rw_inv N (rw_locked s) (t + 1) (rw_lock_holder s) (rw_readers s) ((rpcs s)(i := VClear)) (q @ [i])"
    using rw_take [OF assms(1) [unfolded rw_line_def], of i VClear] VTake t assms(2,3) by simp
  then show ?thesis using VTake t by (simp add: RW_TRYWRLOCK_step_def rw_line_def rpcs_def [symmetric])
qed (use assms(1) line_fact [OF assms(1), of i] in
    \<open>auto simp: RW_TRYWRLOCK_step_def rpcs_def [symmetric] intro!: line_gated disjI1 intro: line_plain\<close>)

lemma RW_UNLOCK_line:
  assumes "rw_line N s q" "i < N" "N < 2 ^ 16"
  shows "rw_line N (RW_UNLOCK_step i s) q \<or> (\<exists>r. q = i # r \<and> rw_line N (RW_UNLOCK_step i s) r)"
proof (cases "rpcs s i")
  case (UInc pl t)
  then have "rw_lock_holder s = t" using line_fact [OF assms(1), of i] by simp
  then show ?thesis using UInc rw_free [OF assms(1) [unfolded rw_line_def], of i pl t]
    by (auto simp: RW_UNLOCK_step_def rw_line_def rpcs_def [symmetric] fun_upd_def)
next
  case (UDec pl k)
  then have k: "rw_readers s = k" using line_fact [OF assms(1), of i] by simp
  have "rw_inv N (rw_locked s) (rw_next_ticket s) (rw_lock_holder s) (k - 1) ((rpcs s)(i := UClear pl)) q"
    using rw_leave [OF assms(1) [unfolded rw_line_def], of i pl] UDec k assms(2,3) by simp
  then show ?thesis using UDec k by (simp add: RW_UNLOCK_step_def rw_line_def rpcs_def [symmetric])
next
  case (URead rd pl)
  then have "rw_readers s = 0 \<longleftrightarrow> \<not> rd" using line_fact [OF assms(1), of i] line_reads [OF assms(1) _ assms(2,3)] by auto
  then show ?thesis using assms(1) URead by (auto simp: RW_UNLOCK_step_def rpcs_def [symmetric] intro: line_plain)
next
  case (UNext pl t)
  then have "t = rw_lock_holder s" "rw_readers s = 0" "t \<noteq> rw_next_ticket s" using line_fact [OF assms(1), of i] line_writes(2) [OF assms(1), of i] by auto
  then show ?thesis using assms(1) UNext by (auto simp: RW_UNLOCK_step_def rpcs_def [symmetric] intro: line_plain)
qed (use assms(1) line_fact [OF assms(1), of i] in
    \<open>auto simp: RW_UNLOCK_step_def rpcs_def [symmetric] intro!: line_gated disjI1 intro: line_plain\<close>)

lemma rw_act_line:
  assumes "rw_line N s q" "i < N" "N < 2 ^ 16"
  shows "rw_line N (rw_act c i r s) q \<or> rw_line N (rw_act c i r s) (q @ [i]) \<or> (\<exists>r'. q = i # r' \<and> rw_line N (rw_act c i r s) r')"
proof (cases "rpcs s i")
  case Out
  then show ?thesis using assms(1) by (cases r) (auto simp: rw_act_def rpcs_def [symmetric] intro: line_plain)
next
  case RHeld
  then show ?thesis using assms(1) by (cases r) (auto simp: rw_act_def rw_release_def rpcs_def [symmetric] intro: line_plain)
next
  case WHeld
  then show ?thesis using assms(1) line_fact [OF assms(1), of i]
    by (cases r) (auto simp: rw_act_def rw_release_def rpcs_def [symmetric] intro: line_plain)
qed (use RW_RDLOCK_line [OF assms, of c] RW_TRYRDLOCK_line [OF assms(1), of i] RW_WRLOCK_line [OF assms, of c] RW_TRYWRLOCK_line [OF assms, of c]
    RW_UNLOCK_line [OF assms] assms(1) in \<open>simp_all add: rw_act_def rpcs_def, blast+\<close>)

lemma rw_reach_line:
  assumes "rw_reach c N s" "N < 2 ^ 16"
  shows "\<exists>q. rw_line N s q"
  using assms(1)
proof (induction rule: rw_reach.induct)
  case (start cpus)
  then have "rw_line N (RW_ALLOC cpus) []" by (simp add: rw_line_def rw_inv_def RW_ALLOC_def tickets_def gate_ok_def rpcs_def rw_count_def)
  then show ?case by blast
next
  case (step s i r)
  then obtain q where "rw_line N s q" by blast
  then show ?case using rw_act_line [OF _ step(2) assms(2)] by blast
qed

text \<open>A processor becomes a reader only at \<open>RStore\<close>.\<close>

lemma rw_act_reads:
  assumes "\<And>k. rpcs s i \<noteq> RStore k" "rw_reads (rpcs (rw_act c i r s) j)" "rw_line N s q"
  shows "rw_reads (rpcs s j)"
proof (cases "j = i")
  case True
  then show ?thesis using assms(1,2) line_fact [OF assms(3), of i]
    by (cases "rpcs s i"; cases r)
      (auto simp: rw_act_def rw_release_def RW_RDLOCK_step_def RW_TRYRDLOCK_step_def RW_WRLOCK_step_def RW_TRYWRLOCK_step_def RW_UNLOCK_step_def rpcs_def [symmetric]
        split: if_splits)
next
  case False
  have "rpcs (rw_act c i r s) j = rpcs s j" using False
    by (cases "rpcs s i"; cases r)
      (auto simp: rw_act_def rw_release_def RW_RDLOCK_step_def RW_TRYRDLOCK_step_def RW_WRLOCK_step_def RW_TRYWRLOCK_step_def RW_UNLOCK_step_def rpcs_def [symmetric])
  then show ?thesis using assms(2) by simp
qed

text \<open>C12: a processor that has a read/write lock for writing has it alone, and no check that would stop the kernel fails, for any number of processors below 65536
  and any order of their accesses; any number of them may read at the same time, and \<open>rw_readers\<close> counts exactly these.
\<close>

theorem rw_excludes:
  assumes "rw_reach c N s" "N < 2 ^ 16"
  shows "(\<forall>i j. j < N \<and> rpcs s i = WHeld \<and> (rpcs s j = WHeld \<or> rpcs s j = RHeld) \<longrightarrow> i = j) \<and> (\<forall>i. rpcs s i \<noteq> Panic) \<and>
    unat (rw_readers s) = card {i. i < N \<and> rw_reads (rpcs s i)}"
proof -
  obtain q where q: "rw_line N s q" using rw_reach_line [OF assms] by blast
  have "i = j" if w: "rpcs s i = WHeld" "rpcs s j = WHeld" for i j using line_writes(1) [OF q, of i] line_writes(1) [OF q, of j] w by auto
  moreover have False if "rpcs s i = WHeld" "rpcs s j = RHeld" "j < N" for i j
    using line_fact [OF q, of i] line_reads [OF q, of j] that assms(2) by simp
  moreover have "rpcs s i \<noteq> Panic" for i using line_fact [OF q, of i] by auto
  moreover have "unat (rw_readers s) = card {i. i < N \<and> rw_reads (rpcs s i)}"
  proof -
    have "rw_count N (rpcs s) < 2 ^ 16" using rw_count_le [of N "rpcs s"] assms(2) by simp
    moreover have "of_nat (rw_count N (rpcs s)) = rw_readers s" using q by (simp add: rw_line_def rw_inv_def)
    ultimately show ?thesis unfolding rw_count_def by (intro of_nat_inverse) simp_all
  qed
  ultimately show ?thesis by blast
qed

text \<open>C13: writers do not starve. The processors with tickets are a queue as for a basic lock, and as long as there is one, no further processor becomes a
  reader, so the readers that the first writer waits for only become fewer; when there are none and its ticket is up, it has the lock with its next step.
\<close>

theorem rw_writers_first:
  assumes "rw_reach c N s" "N < 2 ^ 16" "i < N"
  shows "\<exists>q. rw_line N s q \<and>
    (rw_line N (rw_act c i r s) q \<or> rw_line N (rw_act c i r s) (q @ [i]) \<or> (q \<noteq> [] \<and> i = hd q \<and> rw_line N (rw_act c i r s) (tl q))) \<and>
    (q \<noteq> [] \<longrightarrow> {j. rw_reads (rpcs (rw_act c i r s) j)} \<subseteq> {j. rw_reads (rpcs s j)}) \<and>
    (\<forall>t. rpcs s i = WReaders t \<and> rw_readers s = 0 \<longrightarrow> rpcs (rw_act c i r s) i = WHeld)"
proof -
  obtain q where q: "rw_line N s q" using rw_reach_line [OF assms(1,2)] by blast
  have "{j. rw_reads (rpcs (rw_act c i r s) j)} \<subseteq> {j. rw_reads (rpcs s j)}" if "q \<noteq> []"
  proof -
    have t: "tickets (rw_lock_holder s) (rw_next_ticket s) (\<lambda>i. rw_ticket (rw_lock_holder s) (rpcs s i)) q" using q by (simp add: rw_line_def rw_inv_def)
    have "rpcs s i \<noteq> RStore k" for k using line_fact [OF q, of i] tickets_empty [OF t] that by auto
    then show ?thesis using rw_act_reads [OF _ _ q] by blast
  qed
  moreover have "rpcs (rw_act c i r s) i = WHeld" if "rpcs s i = WReaders t" "rw_readers s = 0" for t
    using that by (simp add: rw_act_def RW_WRLOCK_step_def rpcs_def [symmetric])
  ultimately show ?thesis using rw_act_line [OF q assms(3,2), of c r] q by (intro exI [of _ q]) fastforce
qed

section \<open>Witnesses\<close>

lemma rw_reach_foldl: "rw_reach c N s \<Longrightarrow> \<forall>(i, r) \<in> set xs. i < N \<Longrightarrow> rw_reach c N (foldl (\<lambda>s (i, r). rw_act c i r s) s xs)"
  by (induction xs arbitrary: s) (auto intro: rw_reach.step)

text \<open>The second processor has taken the lock to write; the first has read before.\<close>

definition rw_ex :: rw where
  "rw_ex = foldl (\<lambda>s (i, r). rw_act lk_ex i r s) (RW_ALLOC (\<lambda>_. cpu_ex Out))
     ((0, Req_RDLOCK 5) # replicate 6 (0, No_req) @ (0, Req_UNLOCK 0) # replicate 5 (0, No_req) @ (1, Req_WRLOCK 7) # replicate 6 (1, No_req))"

lemma rw_ex_reach: "rw_reach lk_ex 2 rw_ex"
  unfolding rw_ex_def by (rule rw_reach_foldl [OF rw_reach.start]) (auto simp: cpu_ex_def)

lemma rw_ex_pcs: "rpcs rw_ex 1 = WHeld"
  by (simp add: rw_ex_def rpcs_def eval_nat_numeral rw_act_def rw_release_def RW_RDLOCK_step_def RW_WRLOCK_step_def RW_UNLOCK_step_def jump_def on_rw_def RW_ALLOC_def cpu_ex_def)

theorem rw_excludes_witness: "rpcs rw_ex 1 = WHeld \<and> rpcs rw_ex 0 \<noteq> RHeld"
proof -
  have "(2 :: nat) < 2 ^ 16" by simp
  from rw_excludes [OF rw_ex_reach this]
  have "j < 2 \<and> rpcs rw_ex i = WHeld \<and> (rpcs rw_ex j = WHeld \<or> rpcs rw_ex j = RHeld) \<longrightarrow> i = j" for i j by blast
  from this [of 0 1] show ?thesis using rw_ex_pcs by auto
qed

theorem rw_writers_first_witness:
  "\<exists>q. rw_line 2 rw_ex q \<and> q \<noteq> [] \<and> {j. rw_reads (rpcs (rw_act lk_ex 0 (Req_RDLOCK 5) rw_ex) j)} \<subseteq> {j. rw_reads (rpcs rw_ex j)}"
proof -
  have "\<exists>q. rw_line 2 rw_ex q \<and> (q \<noteq> [] \<longrightarrow> {j. rw_reads (rpcs (rw_act lk_ex 0 (Req_RDLOCK 5) rw_ex) j)} \<subseteq> {j. rw_reads (rpcs rw_ex j)})"
    using rw_writers_first [of lk_ex 2 rw_ex 0 "Req_RDLOCK 5"] rw_ex_reach by auto
  then obtain q where q: "rw_line 2 rw_ex q" "q \<noteq> [] \<longrightarrow> {j. rw_reads (rpcs (rw_act lk_ex 0 (Req_RDLOCK 5) rw_ex) j)} \<subseteq> {j. rw_reads (rpcs rw_ex j)}" by blast
  have "q \<noteq> []" using line_writes(1) [OF q(1), of 1] rw_ex_pcs by auto
  then show ?thesis using q by blast
qed

end
