(* ===== verification/DevAssign.thy ===== *)
theory DevAssign
  imports Prelude
begin

text \<open>
  Device numbers of a kernel that is being configured: \<open>mdev_sort\<close> of \<open>devadm/mdev.c\<close>, which selects and sorts the devices, and \<open>assign.c\<close>, which
  gives every range of external major numbers an internal one and an offset of the minor numbers. A device that is linked into a list is an element of
  it. A result \<^const>\<open>None\<close> is an access outside a table; \<open>throw_error\<close> is a value \<open>Inl\<close>. Major numbers are those that \<open>read_mdevice\<close> accepts, small
  enough for the tables to fit into memory, so that none of the sums overflows.
\<close>

section \<open>Devices\<close>

datatype md_conf = MD_DISABLED | MD_INSTALLABLE | MD_ENABLED

datatype dev_error = NO_MEMORY | FORMAT_ERROR | INTERNAL_ERROR

record mdev =
  md_devname :: string
  md_configure :: md_conf
  md_flags :: string
  md_blk_maj :: "nat \<times> nat"
  md_chr_maj :: "nat \<times> nat"
  md_minor_max :: nat

definition MDEV_CHAR :: char where "MDEV_CHAR = CHR ''c''"
definition MDEV_BLOCK :: char where "MDEV_BLOCK = CHR ''b''"
definition MDEV_STREAM :: char where "MDEV_STREAM = CHR ''S''"
definition MDEV_COHERENT :: char where "MDEV_COHERENT = CHR ''C''"

definition mdev_flag :: "mdev \<Rightarrow> char \<Rightarrow> bool" where
  "mdev_flag m c \<longleftrightarrow> c \<in> set (md_flags m)"

definition chr_sel :: "mdev \<Rightarrow> bool" where
  "chr_sel m \<longleftrightarrow> md_configure m = MD_ENABLED \<and> mdev_flag m MDEV_CHAR"

definition chr_pred :: "mdev \<Rightarrow> mdev \<Rightarrow> bool" where
  "chr_pred l r \<longleftrightarrow> fst (md_chr_maj l) < fst (md_chr_maj r)"

definition blk_sel :: "mdev \<Rightarrow> bool" where
  "blk_sel m \<longleftrightarrow> md_configure m = MD_ENABLED \<and> mdev_flag m MDEV_BLOCK"

definition blk_pred :: "mdev \<Rightarrow> mdev \<Rightarrow> bool" where
  "blk_pred l r \<longleftrightarrow> fst (md_blk_maj l) < fst (md_blk_maj r)"

definition mod_sel :: "mdev \<Rightarrow> bool" where
  "mod_sel m \<longleftrightarrow> md_configure m = MD_ENABLED \<and> mdev_flag m MDEV_STREAM \<and> \<not> mdev_flag m MDEV_CHAR"

definition coh_sel :: "mdev \<Rightarrow> bool" where
  "coh_sel m \<longleftrightarrow> md_configure m = MD_ENABLED \<and> mdev_flag m MDEV_COHERENT"

definition coh_pred :: "mdev \<Rightarrow> mdev \<Rightarrow> bool" where
  "coh_pred l r \<longleftrightarrow> fst (md_blk_maj l) < fst (md_blk_maj r)"

section \<open>Sorting\<close>

text \<open>The new entry goes before the first one that is not less than it; without a predicate, to the front. The flag says that it became the last.\<close>

type_synonym md_cmp = "(mdev \<Rightarrow> mdev \<Rightarrow> bool) option"

primrec mdev_insert :: "md_cmp \<Rightarrow> mdev \<Rightarrow> mdev list \<Rightarrow> mdev list \<times> bool" where
  "mdev_insert cmp scan [] = ([scan], True)"
| "mdev_insert cmp scan (f # fs) =
     (if cmp = None \<or> \<not> the cmp f scan then (scan # f # fs, False)
      else let (l, e) = mdev_insert cmp scan fs in (f # l, e))"

fun mdev_sort_loop :: "(mdev \<Rightarrow> bool) \<Rightarrow> md_cmp \<Rightarrow> mdev list \<Rightarrow> mdev list \<Rightarrow> mdev option \<Rightarrow> mdev list \<times> mdev option" where
  "mdev_sort_loop sel cmp [] l e = (l, e)"
| "mdev_sort_loop sel cmp (scan # ds) l e =
     (if \<not> sel scan then mdev_sort_loop sel cmp ds l e
      else let (l, at_end) = mdev_insert cmp scan l in mdev_sort_loop sel cmp ds l (if at_end then Some scan else e))"

definition mdev_sort :: "(mdev \<Rightarrow> bool) \<Rightarrow> md_cmp \<Rightarrow> mdev list \<Rightarrow> mdev list \<times> mdev option" where
  "mdev_sort sel cmp ds = mdev_sort_loop sel cmp ds [] None"

section \<open>The tables\<close>

text \<open>\<^const>\<open>None\<close> in a table is \<open>NODEV\<close> or NULL.\<close>

record extinfo =
  ei_etoimajor :: "nat option list"
  ei_minoroffset :: "nat list"
  ei_ncdevs :: nat
  ei_cdevsw :: "mdev option list"
  ei_nbdevs :: nat
  ei_bdevsw :: "mdev option list"
  ei_modules :: "mdev list"
  ei_cohdrivers :: "mdev list"

primrec first_free :: "'a option list \<Rightarrow> nat option" where
  "first_free [] = None"
| "first_free (x # xs) = (case x of None \<Rightarrow> Some 0 | Some _ \<Rightarrow> map_option Suc (first_free xs))"

text \<open>What is entered next: a character and a block device, of which one may be missing, their external numbers, and an internal one.\<close>

record choice =
  ch_chrp :: "mdev option"
  ch_blkp :: "mdev option"
  ch_extlo :: nat
  ch_exthi :: nat
  ch_minorinc :: nat
  ch_internal :: nat

definition choose_chr :: "mdev \<Rightarrow> extinfo \<Rightarrow> (dev_error + choice) option" where
  "choose_chr c e = do {
     i \<leftarrow> first_free (ei_cdevsw e);
     Some (if i > ei_ncdevs e then Inl INTERNAL_ERROR
       else Inr \<lparr>ch_chrp = Some c, ch_blkp = None, ch_extlo = fst (md_chr_maj c), ch_exthi = snd (md_chr_maj c), ch_minorinc = md_minor_max c,
         ch_internal = i\<rparr>)
   }"

definition choose_blk :: "mdev \<Rightarrow> extinfo \<Rightarrow> (dev_error + choice) option" where
  "choose_blk b e = do {
     i \<leftarrow> first_free (ei_bdevsw e);
     Some (if i > ei_nbdevs e then Inl INTERNAL_ERROR
       else Inr \<lparr>ch_chrp = None, ch_blkp = Some b, ch_extlo = fst (md_blk_maj b), ch_exthi = snd (md_blk_maj b), ch_minorinc = md_minor_max b,
         ch_internal = i\<rparr>)
   }"

definition choose_both :: "mdev \<Rightarrow> mdev \<Rightarrow> extinfo \<Rightarrow> (dev_error + choice) option" where
  "choose_both c b e =
     (let (extlo, exthi) = md_chr_maj c; (blo, bhi) = md_blk_maj b; minorinc = md_minor_max c
      in if bhi < extlo then choose_blk b e
         else if blo > exthi then choose_chr c e
         else if blo \<noteq> extlo \<or> (md_minor_max b \<noteq> minorinc \<and> bhi > blo \<and> exthi > extlo) then Some (Inl FORMAT_ERROR)
         else Some (Inr \<lparr>ch_chrp = Some c, ch_blkp = Some b, ch_extlo = extlo, ch_exthi = (if exthi < bhi then bhi else exthi),
           ch_minorinc = (if exthi < bhi then md_minor_max b else minorinc), ch_internal = max (ei_ncdevs e) (ei_nbdevs e)\<rparr>))"

function fill_range :: "nat \<Rightarrow> nat \<Rightarrow> nat \<Rightarrow> nat \<Rightarrow> nat \<Rightarrow> extinfo \<Rightarrow> (dev_error + extinfo) option" where
  "fill_range internal minorinc extlo exthi minorofs e =
     (if extlo > exthi then Some (Inr e)
      else if extlo \<ge> length (ei_etoimajor e) then None
      else if ei_etoimajor e ! extlo \<noteq> None then Some (Inl FORMAT_ERROR)
      else fill_range internal minorinc (extlo + 1) exthi (minorofs + minorinc)
        (e\<lparr>ei_etoimajor := (ei_etoimajor e)[extlo := Some internal], ei_minoroffset := (ei_minoroffset e)[extlo := minorofs]\<rparr>))"
  by pat_completeness auto
termination by (relation "measure (\<lambda>(internal, minorinc, extlo, exthi, minorofs, e). Suc exthi - extlo)") auto

declare fill_range.simps [simp del]

text \<open>Both tables are written at the internal number, NULL included.\<close>

definition enter :: "choice \<Rightarrow> extinfo \<Rightarrow> extinfo option" where
  "enter ch e = (let i = ch_internal ch in
     if i \<ge> length (ei_cdevsw e) \<or> i \<ge> length (ei_bdevsw e) then None
     else Some (e\<lparr>ei_cdevsw := (ei_cdevsw e)[i := ch_chrp ch], ei_bdevsw := (ei_bdevsw e)[i := ch_blkp ch],
       ei_ncdevs := (if ch_chrp ch \<noteq> None \<and> i \<ge> ei_ncdevs e then i + 1 else ei_ncdevs e),
       ei_nbdevs := (if ch_blkp ch \<noteq> None \<and> i \<ge> ei_nbdevs e then i + 1 else ei_nbdevs e)\<rparr>))"

lemma choose_takes:
  "choose_chr c e = Some (Inr ch) \<Longrightarrow> ch_chrp ch = Some c \<and> ch_blkp ch = None"
  "choose_blk b e = Some (Inr ch) \<Longrightarrow> ch_chrp ch = None \<and> ch_blkp ch = Some b"
  by (auto simp: choose_chr_def choose_blk_def split: bind_splits if_splits)

lemma choose_both_takes: "choose_both c b e = Some (Inr ch) \<Longrightarrow> ch_chrp ch \<noteq> None \<or> ch_blkp ch \<noteq> None"
  by (auto simp: choose_both_def Let_def dest: choose_takes split: if_splits prod.splits)

text \<open>The loop: the first device of either list that was chosen is taken off.\<close>

function assign_loop :: "mdev list \<Rightarrow> mdev list \<Rightarrow> extinfo \<Rightarrow> (dev_error + extinfo) option" where
  "assign_loop cs bs e =
     (if cs = [] \<and> bs = [] then Some (Inr e)
      else
        (case (if cs = [] then choose_blk (hd bs) e else if bs = [] then choose_chr (hd cs) e else choose_both (hd cs) (hd bs) e) of
           None \<Rightarrow> None
         | Some (Inl err) \<Rightarrow> Some (Inl err)
         | Some (Inr ch) \<Rightarrow>
             (case fill_range (ch_internal ch) (ch_minorinc ch) (ch_extlo ch) (ch_exthi ch) 0 e of
                None \<Rightarrow> None
              | Some (Inl err) \<Rightarrow> Some (Inl err)
              | Some (Inr e) \<Rightarrow>
                  (case enter ch e of
                     None \<Rightarrow> None
                   | Some e \<Rightarrow> assign_loop (if ch_chrp ch = None then cs else tl cs) (if ch_blkp ch = None then bs else tl bs) e))))"
  by pat_completeness auto

termination
proof (relation "measure (\<lambda>(cs, bs, e). length cs + length bs)", goal_cases)
  case (2 cs bs e r ch e1 e2)
  then show ?case
    by (cases cs; cases bs) (auto dest: choose_takes choose_both_takes simp: less_Suc_eq_le)
qed simp

declare assign_loop.simps [simp del]

text \<open>\<open>mem\<close> says whether \<open>malloc\<close> finds room for the tables.\<close>

definition range_end :: "(mdev \<Rightarrow> nat \<times> nat) \<Rightarrow> mdev option \<Rightarrow> nat" where
  "range_end maj d = (case d of None \<Rightarrow> 0 | Some d \<Rightarrow> snd (maj d))"

definition assign_imajors :: "bool \<Rightarrow> mdev list \<Rightarrow> (dev_error + extinfo) option" where
  "assign_imajors mem ds =
     (let (chr_list, chr_end) = mdev_sort chr_sel (Some chr_pred) ds;
          (blk_list, blk_end) = mdev_sort blk_sel (Some blk_pred) ds;
          (mod_list, _) = mdev_sort mod_sel None ds;
          (coh_list, _) = mdev_sort coh_sel (Some coh_pred) ds;
          nemajors = max (range_end md_chr_maj chr_end) (range_end md_blk_maj blk_end) + 1;
          n = max (length chr_list) (length blk_list)
      in if \<not> mem then Some (Inl NO_MEMORY)
         else (case assign_loop chr_list blk_list
             \<lparr>ei_etoimajor = replicate nemajors None, ei_minoroffset = replicate nemajors 0, ei_ncdevs = 0, ei_cdevsw = replicate n None,
               ei_nbdevs = 0, ei_bdevsw = replicate n None, ei_modules = [], ei_cohdrivers = []\<rparr> of
           None \<Rightarrow> None
         | Some (Inl err) \<Rightarrow> Some (Inl err)
         | Some (Inr e) \<Rightarrow> Some (Inr (e\<lparr>ei_modules := mod_list, ei_cohdrivers := coh_list\<rparr>))))"

section \<open>Sorting is right\<close>

lemma insert_step: "\<not> (cmp = None \<or> \<not> the cmp f x) \<Longrightarrow> mdev_insert cmp x (f # fs) = (f # fst (mdev_insert cmp x fs), snd (mdev_insert cmp x fs))"
  by (auto simp: split_beta)

lemma insert_stop: "cmp = None \<or> \<not> the cmp f x \<Longrightarrow> mdev_insert cmp x (f # fs) = (x # f # fs, False)"
  by simp

declare mdev_insert.simps(2) [simp del]

lemma insert_cases:
  assumes "l = [] \<Longrightarrow> P ([x], True)" and "l \<noteq> [] \<Longrightarrow> P (x # l, False)"
    and "\<And>f fs. l = f # fs \<Longrightarrow> \<not> (cmp = None \<or> \<not> the cmp f x) \<Longrightarrow> P (f # fst (mdev_insert cmp x fs), snd (mdev_insert cmp x fs))"
  shows "P (mdev_insert cmp x l)"
  using assms by (cases l) (simp, metis insert_step insert_stop list.distinct(1))

lemma insert_set: "set (fst (mdev_insert cmp x l)) = insert x (set l)"
proof (induction l)
  case (Cons f fs)
  show ?case by (rule insert_cases [where l = "f # fs"]) (use Cons in auto)
qed simp

lemma insert_distinct: "x \<notin> set l \<Longrightarrow> distinct l \<Longrightarrow> distinct (fst (mdev_insert cmp x l))"
proof (induction l)
  case (Cons f fs)
  show ?case by (rule insert_cases [where l = "f # fs"]) (use Cons insert_set [of cmp x fs] in auto)
qed simp

lemma insert_nonempty: "fst (mdev_insert cmp x l) \<noteq> []"
  by (rule insert_cases) simp_all

lemma insert_last: "last (fst (mdev_insert cmp x l)) = (if snd (mdev_insert cmp x l) then x else last l) \<and> (\<not> snd (mdev_insert cmp x l) \<longrightarrow> l \<noteq> [])"
proof (induction l)
  case (Cons f fs)
  show ?case by (rule insert_cases [where l = "f # fs"]) (use Cons insert_nonempty [of cmp x fs] in auto)
qed simp

lemma insert_sorted:
  fixes key :: "mdev \<Rightarrow> nat"
  assumes "cmp = Some (\<lambda>a b. key a < key b)"
  shows "sorted_wrt (\<lambda>a b. key a \<le> key b) l \<Longrightarrow> sorted_wrt (\<lambda>a b. key a \<le> key b) (fst (mdev_insert cmp x l))"
proof (induction l)
  case (Cons f fs)
  obtain l1 e where i: "mdev_insert cmp x fs = (l1, e)" by (cases "mdev_insert cmp x fs")
  have l1: "set l1 = insert x (set fs)" "sorted_wrt (\<lambda>a b. key a \<le> key b) l1" using insert_set [of cmp x fs] Cons i by simp_all
  show ?case
  proof (cases "key f < key x")
    case True
    then have "fst (mdev_insert cmp x (f # fs)) = f # l1" using assms i insert_step [of cmp f x fs] by simp
    then show ?thesis using Cons.prems l1 True by auto
  next
    case False
    then have "fst (mdev_insert cmp x (f # fs)) = x # f # fs" using assms insert_stop [of cmp f x fs] by simp
    then show ?thesis using Cons.prems False by auto
  qed
qed simp

definition last_of :: "mdev list \<Rightarrow> mdev option" where
  "last_of l = (if l = [] then None else Some (last l))"

lemma sort_loop:
  fixes key :: "mdev \<Rightarrow> nat"
  assumes "cmp = Some (\<lambda>a b. key a < key b)"
  shows "distinct (ds @ l) \<Longrightarrow> sorted_wrt (\<lambda>a b. key a \<le> key b) l \<Longrightarrow> e = last_of l \<Longrightarrow>
    (case mdev_sort_loop sel cmp ds l e of (l', e') \<Rightarrow> set l' = set l \<union> {d \<in> set ds. sel d} \<and> distinct l' \<and>
       sorted_wrt (\<lambda>a b. key a \<le> key b) l' \<and> e' = last_of l')"
proof (induction ds arbitrary: l e)
  case (Cons d ds)
  show ?case
  proof (cases "sel d")
    case True
    obtain l1 at_end where i: "mdev_insert cmp d l = (l1, at_end)" by (cases "mdev_insert cmp d l")
    have l1: "set l1 = insert d (set l)" "distinct l1" "l1 \<noteq> []" "last l1 = (if at_end then d else last l)" "\<not> at_end \<longrightarrow> l \<noteq> []"
      "sorted_wrt (\<lambda>a b. key a \<le> key b) l1"
      using insert_set [of cmp d l] insert_distinct [of d l cmp] insert_nonempty [of cmp d l] insert_last [of cmp d l]
        insert_sorted [OF assms Cons.prems(2), of d] Cons.prems(1) i by auto
    have "(if at_end then Some d else e) = last_of l1" using l1 Cons.prems(3) by (auto simp: last_of_def)
    moreover have "distinct (ds @ l1)" using Cons.prems(1) l1(1,2) by auto
    ultimately show ?thesis using Cons.IH [of l1 "if at_end then Some d else e"] True i l1(1,6) by (auto split: prod.splits)
  next
    case False
    then show ?thesis using Cons.IH [of l e] Cons.prems by (auto split: prod.splits)
  qed
qed simp

lemma mdev_sort_ok:
  fixes key :: "mdev \<Rightarrow> nat"
  assumes "distinct ds" "mdev_sort sel (Some (\<lambda>a b. key a < key b)) ds = (l, e)"
  shows "set l = {d \<in> set ds. sel d} \<and> distinct l \<and> sorted_wrt (\<lambda>a b. key a \<le> key b) l \<and> e = last_of l"
  using sort_loop [OF refl, of ds "[]" key None sel] assms by (simp add: mdev_sort_def last_of_def)

section \<open>Filling the tables\<close>

lemma first_free_at: "(\<forall>i < p. t ! i \<noteq> None) \<Longrightarrow> p < length t \<Longrightarrow> t ! p = None \<Longrightarrow> first_free t = Some p"
proof (induction t arbitrary: p)
  case (Cons x t)
  show ?case
  proof (cases p)
    case 0
    then show ?thesis using Cons.prems by simp
  next
    case (Suc k)
    then have "x \<noteq> None" "\<forall>i < k. t ! i \<noteq> None" using Cons.prems(1) by (force, auto)
    then show ?thesis using Cons.IH [of k] Cons.prems Suc by auto
  qed
qed simp

lemma fill_range_ok:
  "hi < length (ei_etoimajor e) \<Longrightarrow> length (ei_minoroffset e) = length (ei_etoimajor e) \<Longrightarrow> (\<forall>x. lo \<le> x \<and> x \<le> hi \<longrightarrow> ei_etoimajor e ! x = None) \<Longrightarrow>
    \<exists>et mo. fill_range i inc lo hi ofs e = Some (Inr (e\<lparr>ei_etoimajor := et, ei_minoroffset := mo\<rparr>)) \<and>
      length et = length (ei_etoimajor e) \<and> length mo = length (ei_etoimajor e) \<and>
      (\<forall>x. lo \<le> x \<and> x \<le> hi \<longrightarrow> et ! x = Some i \<and> mo ! x = ofs + (x - lo) * inc) \<and>
      (\<forall>x. x < lo \<or> hi < x \<longrightarrow> et ! x = ei_etoimajor e ! x \<and> mo ! x = ei_minoroffset e ! x)"
proof (induction i inc lo hi ofs e rule: fill_range.induct)
  case (1 i inc lo hi ofs e)
  show ?case
  proof (cases "hi < lo")
    case True
    then show ?thesis by (subst fill_range.simps, intro exI [of _ "ei_etoimajor e"], intro exI [of _ "ei_minoroffset e"]) (use 1 in simp)
  next
    case False
    let ?e = "e\<lparr>ei_etoimajor := (ei_etoimajor e)[lo := Some i], ei_minoroffset := (ei_minoroffset e)[lo := ofs]\<rparr>"
    have free: "\<not> length (ei_etoimajor e) \<le> lo" "\<not> ei_etoimajor e ! lo \<noteq> None" using 1(2,4) False by auto
    have "\<forall>x. lo + 1 \<le> x \<and> x \<le> hi \<longrightarrow> ei_etoimajor ?e ! x = None" using 1(4) by simp
    then obtain et mo where *: "fill_range i inc (lo + 1) hi (ofs + inc) ?e = Some (Inr (?e\<lparr>ei_etoimajor := et, ei_minoroffset := mo\<rparr>))"
      "length et = length (ei_etoimajor e)" "length mo = length (ei_etoimajor e)"
      "\<forall>x. lo + 1 \<le> x \<and> x \<le> hi \<longrightarrow> et ! x = Some i \<and> mo ! x = ofs + inc + (x - (lo + 1)) * inc"
      "\<forall>x. x < lo + 1 \<or> hi < x \<longrightarrow> et ! x = ei_etoimajor ?e ! x \<and> mo ! x = ei_minoroffset ?e ! x"
      using 1(1) [OF False free] 1(2,3) by auto
    have "fill_range i inc lo hi ofs e = Some (Inr (e\<lparr>ei_etoimajor := et, ei_minoroffset := mo\<rparr>))"
      using False free *(1) by (subst fill_range.simps) simp
    moreover have "et ! x = Some i \<and> mo ! x = ofs + (x - lo) * inc" if x: "lo \<le> x \<and> x \<le> hi" for x
    proof (cases "x = lo")
      case True
      then show ?thesis using *(5) free(1) 1(3) by auto
    next
      case False
      then have "x - lo = Suc (x - (lo + 1))" "lo + 1 \<le> x \<and> x \<le> hi" using x by auto
      then show ?thesis using *(4) by simp
    qed
    moreover have "et ! x = ei_etoimajor e ! x \<and> mo ! x = ei_minoroffset e ! x" if x: "x < lo \<or> hi < x" for x
    proof -
      have "x \<noteq> lo" "x < lo + 1 \<or> hi < x" using x False by auto
      then show ?thesis using *(5) by auto
    qed
    ultimately show ?thesis using *(2,3) by blast
  qed
qed

section \<open>Assigning\<close>

definition overlap :: "nat \<times> nat \<Rightarrow> nat \<times> nat \<Rightarrow> bool" where
  "overlap r s \<longleftrightarrow> fst r \<le> snd s \<and> fst s \<le> snd r"

text \<open>A character and a block device may share numbers from the first on, when the minor numbers agree or only one of them has several.\<close>

definition compat :: "mdev \<Rightarrow> mdev \<Rightarrow> bool" where
  "compat c b \<longleftrightarrow> (overlap (md_chr_maj c) (md_blk_maj b) \<longrightarrow> fst (md_chr_maj c) = fst (md_blk_maj b) \<and>
     (md_minor_max b = md_minor_max c \<or> fst (md_blk_maj b) = snd (md_blk_maj b) \<or> fst (md_chr_maj c) = snd (md_chr_maj c)))"

text \<open>The lists that remain: in order, without overlaps, and every block device shares its first number with a character device.\<close>

definition lists_ok :: "mdev list \<Rightarrow> mdev list \<Rightarrow> bool" where
  "lists_ok cs bs \<longleftrightarrow> sorted_wrt (\<lambda>a b. snd (md_chr_maj a) < fst (md_chr_maj b)) cs \<and> sorted_wrt (\<lambda>a b. snd (md_blk_maj a) < fst (md_blk_maj b)) bs \<and>
     (\<forall>c \<in> set cs. fst (md_chr_maj c) \<le> snd (md_chr_maj c)) \<and> (\<forall>b \<in> set bs. fst (md_blk_maj b) \<le> snd (md_blk_maj b)) \<and>
     (\<forall>c \<in> set cs. \<forall>b \<in> set bs. compat c b) \<and> (\<forall>b \<in> set bs. \<exists>c \<in> set cs. fst (md_chr_maj c) = fst (md_blk_maj b))"

definition free_range :: "extinfo \<Rightarrow> nat \<times> nat \<Rightarrow> bool" where
  "free_range e r \<longleftrightarrow> snd r < length (ei_etoimajor e) \<and> (\<forall>x. fst r \<le> x \<and> x \<le> snd r \<longrightarrow> ei_etoimajor e ! x = None)"

text \<open>The tables after \<open>p\<close> character devices.\<close>

definition tables_ok :: "nat \<Rightarrow> extinfo \<Rightarrow> bool" where
  "tables_ok p e \<longleftrightarrow> length (ei_minoroffset e) = length (ei_etoimajor e) \<and> length (ei_bdevsw e) = length (ei_cdevsw e) \<and> ei_ncdevs e = p \<and>
     ei_nbdevs e \<le> p \<and> (\<forall>i < p. ei_cdevsw e ! i \<noteq> None) \<and>
     (\<forall>i. p \<le> i \<and> i < length (ei_cdevsw e) \<longrightarrow> ei_cdevsw e ! i = None \<and> ei_bdevsw e ! i = None)"

text \<open>A range of external numbers has the internal number \<open>i\<close>, and its minor numbers follow one another.\<close>

definition mapped :: "extinfo \<Rightarrow> nat \<times> nat \<Rightarrow> nat \<Rightarrow> nat \<Rightarrow> bool" where
  "mapped e r i inc \<longleftrightarrow> (\<forall>x. fst r \<le> x \<and> x \<le> snd r \<longrightarrow> ei_etoimajor e ! x = Some i \<and> ei_minoroffset e ! x = (x - fst r) * inc)"

text \<open>What later steps keep.\<close>

definition kept :: "nat \<Rightarrow> extinfo \<Rightarrow> extinfo \<Rightarrow> bool" where
  "kept p e e' \<longleftrightarrow> length (ei_etoimajor e') = length (ei_etoimajor e) \<and> length (ei_cdevsw e') = length (ei_cdevsw e) \<and>
     (\<forall>x. ei_etoimajor e ! x \<noteq> None \<longrightarrow> ei_etoimajor e' ! x = ei_etoimajor e ! x \<and> ei_minoroffset e' ! x = ei_minoroffset e ! x) \<and>
     (\<forall>i < p. ei_cdevsw e' ! i = ei_cdevsw e ! i \<and> ei_bdevsw e' ! i = ei_bdevsw e ! i)"

lemma kept_trans: "kept p e e1 \<Longrightarrow> kept (Suc p) e1 e2 \<Longrightarrow> kept p e e2"
  unfolding kept_def by (metis less_SucI)

lemma kept_mapped: "kept p e e' \<Longrightarrow> mapped e r i inc \<Longrightarrow> mapped e' r i inc"
  by (auto simp: kept_def mapped_def)

lemma assign_loop_Nil: "assign_loop [] [] e = Some (Inr e)"
  by (subst assign_loop.simps) simp

lemma step_ok:
  assumes t: "tables_ok p e" and f: "free_range e (lo, hi)" and lo: "lo \<le> hi" and p: "p < length (ei_cdevsw e)"
    and ch: "ch_internal ch = p" "ch_chrp ch = Some c" "ch_extlo ch = lo" "ch_exthi ch = hi"
  shows "\<exists>e1 e2. fill_range (ch_internal ch) (ch_minorinc ch) (ch_extlo ch) (ch_exthi ch) 0 e = Some (Inr e1) \<and> enter ch e1 = Some e2 \<and>
    tables_ok (Suc p) e2 \<and> kept p e e2 \<and> mapped e2 (lo, hi) p (ch_minorinc ch) \<and> ei_cdevsw e2 ! p = Some c \<and> ei_bdevsw e2 ! p = ch_blkp ch \<and>
    (\<forall>x. x < lo \<or> hi < x \<longrightarrow> ei_etoimajor e2 ! x = ei_etoimajor e ! x)"
proof -
  obtain et mo where e1: "fill_range p (ch_minorinc ch) lo hi 0 e = Some (Inr (e\<lparr>ei_etoimajor := et, ei_minoroffset := mo\<rparr>))"
    "length et = length (ei_etoimajor e)" "length mo = length (ei_etoimajor e)"
    "\<forall>x. lo \<le> x \<and> x \<le> hi \<longrightarrow> et ! x = Some p \<and> mo ! x = 0 + (x - lo) * ch_minorinc ch"
    "\<forall>x. x < lo \<or> hi < x \<longrightarrow> et ! x = ei_etoimajor e ! x \<and> mo ! x = ei_minoroffset e ! x"
    using fill_range_ok [of hi e lo p "ch_minorinc ch" 0] t f by (auto simp: tables_ok_def free_range_def)
  define e2 where "e2 = e\<lparr>ei_etoimajor := et, ei_minoroffset := mo, ei_cdevsw := (ei_cdevsw e)[p := Some c], ei_bdevsw := (ei_bdevsw e)[p := ch_blkp ch],
    ei_ncdevs := Suc p, ei_nbdevs := (if ch_blkp ch \<noteq> None then Suc p else ei_nbdevs e)\<rparr>"
  have en: "enter ch (e\<lparr>ei_etoimajor := et, ei_minoroffset := mo\<rparr>) = Some e2"
    using t p ch by (simp add: enter_def e2_def tables_ok_def Let_def)
  have tab: "tables_ok (Suc p) e2" using t p e1(2,3) by (auto simp: tables_ok_def e2_def nth_list_update less_Suc_eq)
  have keep: "kept p e e2" unfolding kept_def
  proof (intro conjI allI impI)
    fix x assume x: "ei_etoimajor e ! x \<noteq> None"
    then have "x < lo \<or> hi < x" using f by (auto simp: free_range_def not_le [symmetric])
    then show "ei_etoimajor e2 ! x = ei_etoimajor e ! x" "ei_minoroffset e2 ! x = ei_minoroffset e ! x" using e1(5) by (auto simp: e2_def)
  qed (use e1(2) in \<open>simp_all add: e2_def\<close>)
  have "mapped e2 (lo, hi) p (ch_minorinc ch)" using e1(4) by (simp add: mapped_def e2_def)
  moreover have "ei_cdevsw e2 ! p = Some c" "ei_bdevsw e2 ! p = ch_blkp ch" using p t by (simp_all add: e2_def tables_ok_def)
  moreover have "\<forall>x. x < lo \<or> hi < x \<longrightarrow> ei_etoimajor e2 ! x = ei_etoimajor e ! x" using e1(5) by (simp add: e2_def)
  ultimately show ?thesis using e1(1) en tab keep ch by auto
qed

text \<open>What comes of a character device at the internal number \<open>i\<close>, and of a block device that shares it.\<close>

definition chr_at :: "extinfo \<Rightarrow> nat \<Rightarrow> mdev \<Rightarrow> bool" where
  "chr_at e i c \<longleftrightarrow> ei_cdevsw e ! i = Some c \<and> mapped e (md_chr_maj c) i (md_minor_max c)"

definition blk_at :: "extinfo \<Rightarrow> nat \<Rightarrow> mdev \<Rightarrow> bool" where
  "blk_at e i b \<longleftrightarrow> ei_bdevsw e ! i = Some b \<and> mapped e (md_blk_maj b) i (md_minor_max b)"

lemma mapped_sub:
  assumes "mapped e (lo, hi) i inc" "fst r = lo" "snd r \<le> hi" "inc = inc' \<or> snd r = lo"
  shows "mapped e r i inc'"
  using assms unfolding mapped_def by (metis diff_is_0_eq fst_conv le_trans mult_is_0 snd_conv)

lemma kept_at: "kept p e e' \<Longrightarrow> i < p \<Longrightarrow> chr_at e i c \<Longrightarrow> chr_at e' i c" "kept p e e' \<Longrightarrow> i < p \<Longrightarrow> blk_at e i b \<Longrightarrow> blk_at e' i b"
  using kept_mapped [of p e e'] by (auto simp: chr_at_def blk_at_def kept_def)

definition done_ok :: "nat \<Rightarrow> mdev list \<Rightarrow> mdev list \<Rightarrow> extinfo \<Rightarrow> bool" where
  "done_ok p cs bs e \<longleftrightarrow> (\<forall>k < length cs. chr_at e (p + k) (cs ! k)) \<and>
     (\<forall>b \<in> set bs. \<exists>k < length cs. fst (md_chr_maj (cs ! k)) = fst (md_blk_maj b) \<and> blk_at e (p + k) b)"

lemma done_ok_Cons:
  assumes "chr_at e p c" "done_ok (Suc p) cs bs e" "\<And>b. b \<in> set bs' \<Longrightarrow> b \<in> set bs \<or> (fst (md_chr_maj c) = fst (md_blk_maj b) \<and> blk_at e p b)"
  shows "done_ok p (c # cs) bs' e"
  unfolding done_ok_def
proof (intro conjI allI impI ballI)
  fix k assume k: "k < length (c # cs)"
  show "chr_at e (p + k) ((c # cs) ! k)" using assms(1,2) k by (cases k) (auto simp: done_ok_def)
next
  fix b assume b: "b \<in> set bs'"
  show "\<exists>k < length (c # cs). fst (md_chr_maj ((c # cs) ! k)) = fst (md_blk_maj b) \<and> blk_at e (p + k) b"
  proof (cases "b \<in> set bs")
    case True
    then obtain k where "k < length cs" "fst (md_chr_maj (cs ! k)) = fst (md_blk_maj b)" "blk_at e (Suc p + k) b" using assms(2) by (auto simp: done_ok_def)
    then show ?thesis by (intro exI [of _ "Suc k"]) simp
  next
    case False
    then show ?thesis using assms(3) [OF b] by (intro exI [of _ 0]) simp
  qed
qed

lemma lists_okD:
  assumes "lists_ok (c # cs) bs"
  shows "fst (md_chr_maj c) \<le> snd (md_chr_maj c)" "\<And>c'. c' \<in> set cs \<Longrightarrow> snd (md_chr_maj c) < fst (md_chr_maj c')"
    "\<And>b. b \<in> set bs \<Longrightarrow> fst (md_blk_maj b) \<le> snd (md_blk_maj b) \<and> compat c b"
    "\<And>b. b \<in> set bs \<Longrightarrow> fst (md_blk_maj b) \<noteq> fst (md_chr_maj c) \<Longrightarrow> snd (md_chr_maj c) < fst (md_blk_maj b)"
proof -
  show c: "fst (md_chr_maj c) \<le> snd (md_chr_maj c)" and cs: "\<And>c'. c' \<in> set cs \<Longrightarrow> snd (md_chr_maj c) < fst (md_chr_maj c')"
    and bs: "\<And>b. b \<in> set bs \<Longrightarrow> fst (md_blk_maj b) \<le> snd (md_blk_maj b) \<and> compat c b"
    using assms by (simp_all add: lists_ok_def)
  fix b assume b: "b \<in> set bs" "fst (md_blk_maj b) \<noteq> fst (md_chr_maj c)"
  then obtain c' where "c' \<in> set cs" "fst (md_chr_maj c') = fst (md_blk_maj b)" using assms by (auto simp: lists_ok_def)
  then show "snd (md_chr_maj c) < fst (md_blk_maj b)" using cs by metis
qed

lemma free_range_keep:
  "free_range e r \<Longrightarrow> kept p e e2 \<Longrightarrow> (\<And>x. fst r \<le> x \<Longrightarrow> x \<le> snd r \<Longrightarrow> ei_etoimajor e2 ! x = ei_etoimajor e ! x) \<Longrightarrow> free_range e2 r"
  by (simp add: free_range_def kept_def)

lemma choose_alone:
  assumes "tables_ok p e" "p < length (ei_cdevsw e)"
  shows "choose_chr c e = Some (Inr \<lparr>ch_chrp = Some c, ch_blkp = None, ch_extlo = fst (md_chr_maj c), ch_exthi = snd (md_chr_maj c),
    ch_minorinc = md_minor_max c, ch_internal = p\<rparr>)"
proof -
  have "first_free (ei_cdevsw e) = Some p" by (rule first_free_at) (use assms in \<open>simp_all add: tables_ok_def\<close>)
  then show ?thesis using assms by (simp add: choose_chr_def tables_ok_def)
qed

lemma assign_alone:
  assumes ok: "lists_ok (c # cs) bs" and t: "tables_ok p e" and p: "p < length (ei_cdevsw e)" and f: "free_range e (md_chr_maj c)"
    and b: "\<And>b. b \<in> set bs \<Longrightarrow> fst (md_blk_maj b) \<noteq> fst (md_chr_maj c)"
  shows "\<exists>e2. assign_loop (c # cs) bs e = assign_loop cs bs e2 \<and> tables_ok (Suc p) e2 \<and> kept p e e2 \<and> chr_at e2 p c \<and>
    (\<forall>x. x < fst (md_chr_maj c) \<or> snd (md_chr_maj c) < x \<longrightarrow> ei_etoimajor e2 ! x = ei_etoimajor e ! x)"
proof -
  let ?ch = "\<lparr>ch_chrp = Some c, ch_blkp = None, ch_extlo = fst (md_chr_maj c), ch_exthi = snd (md_chr_maj c),
    ch_minorinc = md_minor_max c, ch_internal = p\<rparr>"
  note D = lists_okD [OF ok]
  obtain e1 e2 where e: "fill_range p (md_minor_max c) (fst (md_chr_maj c)) (snd (md_chr_maj c)) 0 e = Some (Inr e1)" "enter ?ch e1 = Some e2"
    "tables_ok (Suc p) e2" "kept p e e2" "mapped e2 (md_chr_maj c) p (md_minor_max c)" "ei_cdevsw e2 ! p = Some c"
    "\<forall>x. x < fst (md_chr_maj c) \<or> snd (md_chr_maj c) < x \<longrightarrow> ei_etoimajor e2 ! x = ei_etoimajor e ! x"
    using step_ok [OF t, of "fst (md_chr_maj c)" "snd (md_chr_maj c)" ?ch c] f D(1) p by auto
  have both: "choose_both c b0 e = choose_chr c e" if "b0 \<in> set bs" for b0
  proof -
    have "snd (md_chr_maj c) < fst (md_blk_maj b0)" "fst (md_blk_maj b0) \<le> snd (md_blk_maj b0)" using D(3,4) that b by auto
    then show ?thesis using D(1) by (simp add: choose_both_def Let_def split_beta)
  qed
  have "(if bs = [] then choose_chr c e else choose_both c (hd bs) e) = Some (Inr ?ch)"
    using choose_alone [OF t p, of c] both by (cases bs) auto
  then have "assign_loop (c # cs) bs e = assign_loop cs bs e2" using e(1,2) by (subst assign_loop.simps, cases "bs = []") simp_all
  then show ?thesis using e(3-7) by (auto simp: chr_at_def)
qed

lemma assign_pair:
  assumes ok: "lists_ok (c # cs) (b # bs)" and t: "tables_ok p e" and p: "p < length (ei_cdevsw e)"
    and f: "free_range e (md_chr_maj c)" "free_range e (md_blk_maj b)" and b: "fst (md_blk_maj b) = fst (md_chr_maj c)"
  shows "\<exists>e2. assign_loop (c # cs) (b # bs) e = assign_loop cs bs e2 \<and> tables_ok (Suc p) e2 \<and> kept p e e2 \<and> chr_at e2 p c \<and> blk_at e2 p b \<and>
    (\<forall>x. x < fst (md_chr_maj c) \<or> snd (md_chr_maj c) < x \<and> snd (md_blk_maj b) < x \<longrightarrow> ei_etoimajor e2 ! x = ei_etoimajor e ! x)"
proof -
  note D = lists_okD [OF ok]
  define lo where "lo = fst (md_chr_maj c)"
  define hi where "hi = (if snd (md_chr_maj c) < snd (md_blk_maj b) then snd (md_blk_maj b) else snd (md_chr_maj c))"
  define inc where "inc = (if snd (md_chr_maj c) < snd (md_blk_maj b) then md_minor_max b else md_minor_max c)"
  let ?ch = "\<lparr>ch_chrp = Some c, ch_blkp = Some b, ch_extlo = lo, ch_exthi = hi, ch_minorinc = inc, ch_internal = p\<rparr>"
  have le: "fst (md_chr_maj c) \<le> snd (md_chr_maj c)" "fst (md_blk_maj b) \<le> snd (md_blk_maj b)" "compat c b" using D(1) D(3) [of b] by simp_all
  then have min: "md_minor_max b = md_minor_max c \<or> fst (md_blk_maj b) = snd (md_blk_maj b) \<or> fst (md_chr_maj c) = snd (md_chr_maj c)"
    using b by (simp add: compat_def overlap_def)
  have "lo \<le> hi" "free_range e (lo, hi)" using f le b by (auto simp: lo_def hi_def free_range_def)
  then obtain e1 e2 where e: "fill_range p inc lo hi 0 e = Some (Inr e1)" "enter ?ch e1 = Some e2"
    "tables_ok (Suc p) e2" "kept p e e2" "mapped e2 (lo, hi) p inc" "ei_cdevsw e2 ! p = Some c" "ei_bdevsw e2 ! p = Some b"
    "\<forall>x. x < lo \<or> hi < x \<longrightarrow> ei_etoimajor e2 ! x = ei_etoimajor e ! x"
    using step_ok [OF t, of lo hi ?ch c] p by auto
  have "choose_both c b e = Some (Inr ?ch)"
    using le min b t by (auto simp: choose_both_def Let_def split_beta lo_def hi_def inc_def tables_ok_def)
  then have loop: "assign_loop (c # cs) (b # bs) e = assign_loop cs bs e2" using e(1,2) by (subst assign_loop.simps) simp
  have "mapped e2 (md_chr_maj c) p (md_minor_max c)" "mapped e2 (md_blk_maj b) p (md_minor_max b)"
    by (rule mapped_sub [OF e(5)]; use min b le in \<open>auto simp: lo_def hi_def inc_def\<close>)+
  then show ?thesis using loop e(3,4,6,7,8) by (intro exI [of _ e2]) (auto simp: chr_at_def blk_at_def lo_def hi_def)
qed

lemma lists_ok_tl: "lists_ok (c # cs) bs \<Longrightarrow> (\<And>b. b \<in> set bs \<Longrightarrow> fst (md_blk_maj b) \<noteq> fst (md_chr_maj c)) \<Longrightarrow> lists_ok cs bs"
  by (fastforce simp: lists_ok_def)

lemma lists_ok_sub: "lists_ok cs (b # bs) \<Longrightarrow> lists_ok cs bs"
  by (simp add: lists_ok_def)

lemma assign_loop_ok:
  "lists_ok cs bs \<Longrightarrow> tables_ok p e \<Longrightarrow> p + length cs \<le> length (ei_cdevsw e) \<Longrightarrow>
    (\<forall>c \<in> set cs. free_range e (md_chr_maj c)) \<Longrightarrow> (\<forall>b \<in> set bs. free_range e (md_blk_maj b)) \<Longrightarrow>
    \<exists>e'. assign_loop cs bs e = Some (Inr e') \<and> kept p e e' \<and> done_ok p cs bs e'"
proof (induction cs arbitrary: p bs e)
  case Nil
  then have "bs = []" by (auto simp: lists_ok_def)
  then show ?case by (subst assign_loop.simps) (simp add: kept_def done_ok_def)
next
  case (Cons c cs)
  note D = lists_okD [OF Cons.prems(1)]
  have p: "p < length (ei_cdevsw e)" and fc: "free_range e (md_chr_maj c)" using Cons.prems(3,4) by simp_all
  show ?case
  proof (cases "bs \<noteq> [] \<and> fst (md_blk_maj (hd bs)) = fst (md_chr_maj c)")
    case True
    then obtain b bs1 where bs: "bs = b # bs1" "fst (md_blk_maj b) = fst (md_chr_maj c)" by (cases bs) auto
    have fb: "free_range e (md_blk_maj b)" using Cons.prems(5) bs by simp
    obtain e2 where e2: "assign_loop (c # cs) (b # bs1) e = assign_loop cs bs1 e2" "tables_ok (Suc p) e2" "kept p e e2" "chr_at e2 p c" "blk_at e2 p b"
      "\<forall>x. x < fst (md_chr_maj c) \<or> snd (md_chr_maj c) < x \<and> snd (md_blk_maj b) < x \<longrightarrow> ei_etoimajor e2 ! x = ei_etoimajor e ! x"
      using assign_pair [OF Cons.prems(1) [unfolded bs(1)] Cons.prems(2) p fc fb bs(2)] by blast
    have sb: "sorted_wrt (\<lambda>a b. snd (md_blk_maj a) < fst (md_blk_maj b)) (b # bs1)" "fst (md_blk_maj b) \<le> snd (md_blk_maj b)"
      using Cons.prems(1) bs(1) by (simp_all add: lists_ok_def)
    have off: "fst (md_blk_maj b') \<noteq> fst (md_chr_maj c)" if "b' \<in> set bs1" for b' using sb that bs(2) by fastforce
    have ok: "lists_ok cs bs1" using lists_ok_tl [OF lists_ok_sub [OF Cons.prems(1) [unfolded bs(1)]] off] .
    have "free_range e2 (md_chr_maj c')" if c': "c' \<in> set cs" for c'
    proof -
      have 1: "snd (md_chr_maj c) < fst (md_chr_maj c')" "compat c' b" "fst (md_chr_maj c') \<le> snd (md_chr_maj c')"
        using D(2) c' Cons.prems(1) bs(1) by (auto simp: lists_ok_def)
      then have "\<not> overlap (md_chr_maj c') (md_blk_maj b)" using bs(2) D(1) by (auto simp: compat_def)
      then have "snd (md_blk_maj b) < fst (md_chr_maj c')" using 1 D(1) bs(2) by (auto simp: overlap_def)
      then show ?thesis by (intro free_range_keep [OF _ e2(3)]) (use e2(6) 1(1) Cons.prems(4) c' in auto)
    qed
    moreover have "free_range e2 (md_blk_maj b')" if b': "b' \<in> set bs1" for b'
    proof -
      have "snd (md_blk_maj b) < fst (md_blk_maj b')" "snd (md_chr_maj c) < fst (md_blk_maj b')" using sb(1) b' D(4) [of b'] off [OF b'] bs(1) by auto
      then show ?thesis by (intro free_range_keep [OF _ e2(3)]) (use e2(6) Cons.prems(5) b' bs(1) in auto)
    qed
    moreover have "Suc p + length cs \<le> length (ei_cdevsw e2)" using Cons.prems(3) e2(3) by (simp add: kept_def)
    ultimately obtain e' where e': "assign_loop cs bs1 e2 = Some (Inr e')" "kept (Suc p) e2 e'" "done_ok (Suc p) cs bs1 e'"
      using Cons.IH [OF ok e2(2)] by blast
    have "done_ok p (c # cs) bs e'"
      by (rule done_ok_Cons [OF kept_at(1) [OF e'(2) lessI e2(4)] e'(3)]) (use bs kept_at(2) [OF e'(2) lessI e2(5)] in auto)
    then show ?thesis using e2(1) e'(1) kept_trans [OF e2(3) e'(2)] bs(1) by auto
  next
    case False
    have off: "fst (md_blk_maj b') \<noteq> fst (md_chr_maj c)" if b': "b' \<in> set bs" for b'
    proof (cases bs)
      case (Cons b bs1)
      then have "snd (md_chr_maj c) < fst (md_blk_maj b)" using False D(4) by auto
      moreover have "b' = b \<or> snd (md_blk_maj b) < fst (md_blk_maj b')" "fst (md_blk_maj b) \<le> snd (md_blk_maj b)"
        using Cons.prems(1) b' \<open>bs = b # bs1\<close> by (auto simp: lists_ok_def)
      ultimately show ?thesis using D(1) by auto
    qed (use b' in simp)
    obtain e2 where e2: "assign_loop (c # cs) bs e = assign_loop cs bs e2" "tables_ok (Suc p) e2" "kept p e e2" "chr_at e2 p c"
      "\<forall>x. x < fst (md_chr_maj c) \<or> snd (md_chr_maj c) < x \<longrightarrow> ei_etoimajor e2 ! x = ei_etoimajor e ! x"
      using assign_alone [OF Cons.prems(1,2) p fc off] by blast
    have ok: "lists_ok cs bs" using lists_ok_tl [OF Cons.prems(1) off] .
    have "free_range e2 (md_chr_maj c')" if "c' \<in> set cs" for c'
      by (rule free_range_keep [OF _ e2(3)]) (use e2(5) D(2) [OF that] Cons.prems(4) that in auto)
    moreover have "free_range e2 (md_blk_maj b')" if "b' \<in> set bs" for b'
      by (rule free_range_keep [OF _ e2(3)]) (use e2(5) D(4) [OF that] off [OF that] Cons.prems(5) that in auto)
    moreover have "Suc p + length cs \<le> length (ei_cdevsw e2)" using Cons.prems(3) e2(3) by (simp add: kept_def)
    ultimately obtain e' where e': "assign_loop cs bs e2 = Some (Inr e')" "kept (Suc p) e2 e'" "done_ok (Suc p) cs bs e'"
      using Cons.IH [OF ok e2(2)] by blast
    have "done_ok p (c # cs) bs e'" by (rule done_ok_Cons [OF kept_at(1) [OF e'(2) lessI e2(4)] e'(3)]) simp
    then show ?thesis using e2(1) e'(1) kept_trans [OF e2(3) e'(2)] by auto
  qed
qed

section \<open>Configurations\<close>

text \<open>
  Devices that can all be given numbers: ranges are not reversed, those of one kind do not overlap, and every block device has its first number in common
  with a character device.
\<close>

definition config_ok :: "mdev list \<Rightarrow> bool" where
  "config_ok ds \<longleftrightarrow> distinct ds \<and>
     (\<forall>c \<in> set ds. chr_sel c \<longrightarrow> fst (md_chr_maj c) \<le> snd (md_chr_maj c)) \<and> (\<forall>b \<in> set ds. blk_sel b \<longrightarrow> fst (md_blk_maj b) \<le> snd (md_blk_maj b)) \<and>
     (\<forall>c \<in> set ds. \<forall>d \<in> set ds. chr_sel c \<and> chr_sel d \<and> c \<noteq> d \<longrightarrow> \<not> overlap (md_chr_maj c) (md_chr_maj d)) \<and>
     (\<forall>b \<in> set ds. \<forall>d \<in> set ds. blk_sel b \<and> blk_sel d \<and> b \<noteq> d \<longrightarrow> \<not> overlap (md_blk_maj b) (md_blk_maj d)) \<and>
     (\<forall>c \<in> set ds. \<forall>b \<in> set ds. chr_sel c \<and> blk_sel b \<longrightarrow> compat c b) \<and>
     (\<forall>b \<in> set ds. blk_sel b \<longrightarrow> (\<exists>c \<in> set ds. chr_sel c \<and> fst (md_chr_maj c) = fst (md_blk_maj b)))"

lemma sorted_apart:
  fixes maj :: "mdev \<Rightarrow> nat \<times> nat"
  assumes "sorted_wrt (\<lambda>a b. fst (maj a) \<le> fst (maj b)) l" "distinct l" "\<And>c d. c \<in> set l \<Longrightarrow> d \<in> set l \<Longrightarrow> c \<noteq> d \<Longrightarrow> \<not> overlap (maj c) (maj d)"
    and "\<And>c. c \<in> set l \<Longrightarrow> fst (maj c) \<le> snd (maj c)"
  shows "sorted_wrt (\<lambda>a b. snd (maj a) < fst (maj b)) l"
  using assms
proof (induction l)
  case (Cons c l)
  have "snd (maj c) < fst (maj d)" if d: "d \<in> set l" for d
  proof -
    have "\<not> overlap (maj c) (maj d)" "fst (maj c) \<le> fst (maj d)" "fst (maj d) \<le> snd (maj d)" using Cons.prems d by auto
    then show ?thesis by (auto simp: overlap_def)
  qed
  then show ?case using Cons by simp
qed simp

lemma range_end_last:
  assumes "sorted_wrt (\<lambda>a b. snd (maj a) < fst (maj b)) l" "\<And>c. c \<in> set l \<Longrightarrow> fst (maj c) \<le> snd (maj c)" "c \<in> set l"
  shows "snd (maj c) \<le> range_end maj (last_of l)"
  using assms
proof (induction l)
  case (Cons d l)
  show ?case
  proof (cases "l = []")
    case False
    then have last: "last l \<in> set l" "last_of (d # l) = Some (last l)" "last_of l = Some (last l)" by (simp_all add: last_of_def)
    then have "snd (maj d) < fst (maj (last l))" "fst (maj (last l)) \<le> snd (maj (last l))" using Cons.prems by auto
    then have "snd (maj d) \<le> snd (maj (last l))" by simp
    moreover have "snd (maj c) \<le> snd (maj (last l))" if "c \<in> set l" using Cons.IH Cons.prems(1,2) that last(3) by (simp add: range_end_def)
    ultimately show ?thesis using Cons.prems(3) last(2) by (auto simp: range_end_def)
  qed (use Cons in \<open>simp add: range_end_def last_of_def\<close>)
qed simp

lemma assign_imajors_ok:
  assumes ok: "config_ok ds"
  shows "\<exists>e cs bs. assign_imajors True ds = Some (Inr e) \<and> set cs = {c \<in> set ds. chr_sel c} \<and> set bs = {b \<in> set ds. blk_sel b} \<and>
    done_ok 0 cs bs e \<and> length cs \<le> length (ei_cdevsw e) \<and> (\<forall>c \<in> set cs. snd (md_chr_maj c) < length (ei_etoimajor e)) \<and>
    (\<forall>b \<in> set bs. snd (md_blk_maj b) < length (ei_etoimajor e))"
proof -
  obtain cs ce where cs: "mdev_sort chr_sel (Some chr_pred) ds = (cs, ce)" by (cases "mdev_sort chr_sel (Some chr_pred) ds")
  obtain bs be where bs: "mdev_sort blk_sel (Some blk_pred) ds = (bs, be)" by (cases "mdev_sort blk_sel (Some blk_pred) ds")
  have pred: "chr_pred = (\<lambda>a b. fst (md_chr_maj a) < fst (md_chr_maj b))" "blk_pred = (\<lambda>a b. fst (md_blk_maj a) < fst (md_blk_maj b))"
    by (simp_all add: fun_eq_iff chr_pred_def blk_pred_def)
  have dist: "distinct ds" using ok by (simp add: config_ok_def)
  have C: "set cs = {c \<in> set ds. chr_sel c}" "distinct cs" "sorted_wrt (\<lambda>a b. fst (md_chr_maj a) \<le> fst (md_chr_maj b)) cs" "ce = last_of cs"
    using mdev_sort_ok [OF dist cs [unfolded pred]] by simp_all
  have B: "set bs = {b \<in> set ds. blk_sel b}" "distinct bs" "sorted_wrt (\<lambda>a b. fst (md_blk_maj a) \<le> fst (md_blk_maj b)) bs" "be = last_of bs"
    using mdev_sort_ok [OF dist bs [unfolded pred]] by simp_all
  have le: "\<And>c. c \<in> set cs \<Longrightarrow> fst (md_chr_maj c) \<le> snd (md_chr_maj c)" "\<And>b. b \<in> set bs \<Longrightarrow> fst (md_blk_maj b) \<le> snd (md_blk_maj b)"
    using ok C(1) B(1) by (simp_all add: config_ok_def)
  have sc: "sorted_wrt (\<lambda>a b. snd (md_chr_maj a) < fst (md_chr_maj b)) cs"
    by (rule sorted_apart [OF C(3,2) _ le(1)]) (use ok C(1) in \<open>simp_all add: config_ok_def\<close>)
  have sb: "sorted_wrt (\<lambda>a b. snd (md_blk_maj a) < fst (md_blk_maj b)) bs"
    by (rule sorted_apart [OF B(3,2) _ le(2)]) (use ok B(1) in \<open>simp_all add: config_ok_def\<close>)
  have lists: "lists_ok cs bs" unfolding lists_ok_def
    by (intro conjI) (use sc sb le ok C(1) B(1) in \<open>auto simp: config_ok_def\<close>)
  define N where "N = max (range_end md_chr_maj ce) (range_end md_blk_maj be) + 1"
  define n where "n = max (length cs) (length bs)"
  define e0 where "e0 = \<lparr>ei_etoimajor = replicate N None, ei_minoroffset = replicate N 0, ei_ncdevs = 0, ei_cdevsw = replicate n None,
    ei_nbdevs = 0, ei_bdevsw = replicate n None, ei_modules = [], ei_cohdrivers = []\<rparr>"
  have hi: "\<And>c. c \<in> set cs \<Longrightarrow> snd (md_chr_maj c) < N" "\<And>b. b \<in> set bs \<Longrightarrow> snd (md_blk_maj b) < N"
    using range_end_last [OF sc le(1)] range_end_last [OF sb le(2)] C(4) B(4) by (fastforce simp: N_def less_Suc_eq_le le_max_iff_disj)+
  have fr: "free_range e0 r" if "snd r < N" for r using that by (auto simp: free_range_def e0_def)
  have free: "\<forall>c \<in> set cs. free_range e0 (md_chr_maj c)" "\<forall>b \<in> set bs. free_range e0 (md_blk_maj b)"
    using hi fr by blast+
  have tab: "tables_ok 0 e0" "0 + length cs \<le> length (ei_cdevsw e0)" by (simp_all add: tables_ok_def e0_def n_def)
  obtain e where e: "assign_loop cs bs e0 = Some (Inr e)" "kept 0 e0 e" "done_ok 0 cs bs e"
    using assign_loop_ok [OF lists tab free] by blast
  let ?e = "e\<lparr>ei_modules := fst (mdev_sort mod_sel None ds), ei_cohdrivers := fst (mdev_sort coh_sel (Some coh_pred) ds)\<rparr>"
  have "assign_imajors True ds = Some (Inr ?e)"
    using e(1) cs bs by (simp add: assign_imajors_def Let_def split_beta e0_def N_def n_def)
  moreover have "done_ok 0 cs bs ?e" using e(3) by (simp add: done_ok_def chr_at_def blk_at_def mapped_def)
  moreover have "length cs \<le> length (ei_cdevsw ?e)" "length (ei_etoimajor ?e) = N" using e(2) by (simp_all add: kept_def e0_def n_def)
  ultimately show ?thesis using C(1) B(1) hi by (intro exI [of _ ?e] exI [of _ cs] exI [of _ bs]) simp
qed

section \<open>Properties\<close>

text \<open>C38: the tables of device numbers are right. When memory for them can be allocated, and for a configuration in which no two ranges of one kind overlap and none is reversed,
  every block device shares its first major number with a character device, and a block and a character range that overlap begin with the same number and have the same
  \<open>md_minor_max\<close>, unless one of them is of length one, \<open>assign_imajors\<close> does not fail and stays within its tables. Every enabled character device has an entry in
  \<open>cdevsw\<close>, all its external major numbers lead to that entry, and the minor offset of the \<open>k\<close>th of them, counted from 0, is \<open>k\<close> times the \<open>md_minor_max\<close> of
  the device; a block device has the entry of the character device that it shares numbers with, and its numbers lead there with offsets that grow by its own
  \<open>md_minor_max\<close>. (Configurations beyond this are refused by the code or lose devices, as \<open>assign_loses_device\<close> shows.)\<close>

theorem assign_maps:
  assumes "config_ok ds"
  shows "\<exists>e. assign_imajors True ds = Some (Inr e) \<and>
    (\<forall>c \<in> set ds. chr_sel c \<longrightarrow> snd (md_chr_maj c) < length (ei_etoimajor e) \<and> (\<exists>i < length (ei_cdevsw e). chr_at e i c)) \<and>
    (\<forall>b \<in> set ds. blk_sel b \<longrightarrow> snd (md_blk_maj b) < length (ei_etoimajor e) \<and>
       (\<exists>i < length (ei_cdevsw e). \<exists>c \<in> set ds. chr_at e i c \<and> blk_at e i b \<and> fst (md_chr_maj c) = fst (md_blk_maj b)))"
proof -
  obtain e cs bs where e: "assign_imajors True ds = Some (Inr e)" "set cs = {c \<in> set ds. chr_sel c}" "set bs = {b \<in> set ds. blk_sel b}"
    "done_ok 0 cs bs e" "length cs \<le> length (ei_cdevsw e)" "\<forall>c \<in> set cs. snd (md_chr_maj c) < length (ei_etoimajor e)"
    "\<forall>b \<in> set bs. snd (md_blk_maj b) < length (ei_etoimajor e)"
    using assign_imajors_ok [OF assms] by blast
  have "\<exists>i < length (ei_cdevsw e). chr_at e i c" if c: "c \<in> set ds" "chr_sel c" for c
  proof -
    obtain k where "k < length cs" "cs ! k = c" using c e(2) by (auto simp: in_set_conv_nth set_eq_iff)
    then show ?thesis using e(4,5) by (intro exI [of _ k]) (auto simp: done_ok_def)
  qed
  moreover have "\<exists>i < length (ei_cdevsw e). \<exists>c \<in> set ds. chr_at e i c \<and> blk_at e i b \<and> fst (md_chr_maj c) = fst (md_blk_maj b)"
    if b: "b \<in> set ds" "blk_sel b" for b
  proof -
    obtain k where k: "k < length cs" "fst (md_chr_maj (cs ! k)) = fst (md_blk_maj b)" "blk_at e k b" using b e(3,4) by (auto simp: done_ok_def)
    moreover have "cs ! k \<in> set ds" using e(2) nth_mem [OF k(1)] by blast
    moreover have "chr_at e k (cs ! k)" using e(4) k(1) by (simp add: done_ok_def)
    ultimately show ?thesis using e(5) by (intro exI [of _ k]) auto
  qed
  ultimately show ?thesis using e by auto
qed

text \<open>a device is lost when both kinds are configured with numbers of their own. The first character device and the first block device both get the
  internal number 0, and entering the second writes NULL over the entry of the first: the tables are returned without an error, the major number of the
  character device leads to the entry 0 of \<open>cdevsw\<close>, and that entry is empty.\<close>

theorem assign_loses_device:
  assumes "chr_sel c" "\<not> blk_sel c" "blk_sel b" "\<not> chr_sel b"
    and "fst (md_chr_maj c) \<le> snd (md_chr_maj c)" "snd (md_chr_maj c) < fst (md_blk_maj b)" "fst (md_blk_maj b) \<le> snd (md_blk_maj b)"
  shows "\<exists>e. assign_imajors True [c, b] = Some (Inr e) \<and> ei_etoimajor e ! fst (md_chr_maj c) = Some 0 \<and> ei_cdevsw e = [None]"
proof -
  define N where "N = snd (md_blk_maj b) + 1"
  define e0 where "e0 = \<lparr>ei_etoimajor = replicate N None, ei_minoroffset = replicate N 0, ei_ncdevs = 0, ei_cdevsw = [None :: mdev option],
    ei_nbdevs = 0, ei_bdevsw = [None :: mdev option], ei_modules = [], ei_cohdrivers = []\<rparr>"
  have N: "max (snd (md_chr_maj c)) (snd (md_blk_maj b)) + 1 = N" "snd (md_chr_maj c) < N" "snd (md_blk_maj b) < N" using assms by (simp_all add: N_def)
  obtain et mo where 1: "fill_range 0 (md_minor_max c) (fst (md_chr_maj c)) (snd (md_chr_maj c)) 0 e0 = Some (Inr (e0\<lparr>ei_etoimajor := et, ei_minoroffset := mo\<rparr>))"
    "length et = N" "length mo = N" "et ! fst (md_chr_maj c) = Some 0" "\<forall>x. snd (md_chr_maj c) < x \<longrightarrow> et ! x = replicate N None ! x"
    using fill_range_ok [of "snd (md_chr_maj c)" e0 "fst (md_chr_maj c)" 0 "md_minor_max c" 0] assms(5) N(2) by (auto simp: e0_def)
  define e1 where "e1 = e0\<lparr>ei_etoimajor := et, ei_minoroffset := mo, ei_cdevsw := [Some c], ei_ncdevs := 1\<rparr>"
  have loop1: "assign_loop [c] [b] e0 = assign_loop [] [b] e1"
    using 1 assms by (subst assign_loop.simps) (simp add: choose_both_def choose_chr_def split_beta Let_def enter_def e0_def e1_def)
  have free: "\<forall>x. fst (md_blk_maj b) \<le> x \<and> x \<le> snd (md_blk_maj b) \<longrightarrow> ei_etoimajor e1 ! x = None"
    using 1(5) assms(6) N(3) by (auto simp: e1_def)
  obtain et2 mo2 where 2: "fill_range 0 (md_minor_max b) (fst (md_blk_maj b)) (snd (md_blk_maj b)) 0 e1 = Some (Inr (e1\<lparr>ei_etoimajor := et2, ei_minoroffset := mo2\<rparr>))"
    "\<forall>x. x < fst (md_blk_maj b) \<longrightarrow> et2 ! x = et ! x"
    using fill_range_ok [of "snd (md_blk_maj b)" e1 "fst (md_blk_maj b)" 0 "md_minor_max b" 0] free 1(2,3) N(3) by (auto simp: e1_def)
  define e2 where "e2 = e1\<lparr>ei_etoimajor := et2, ei_minoroffset := mo2, ei_cdevsw := [None], ei_bdevsw := [Some b], ei_nbdevs := 1\<rparr>"
  have loop2: "assign_loop [] [b] e1 = Some (Inr e2)"
    using 2(1) by (subst assign_loop.simps) (simp add: assign_loop_Nil choose_blk_def enter_def e0_def e1_def e2_def)
  have "mdev_sort chr_sel (Some chr_pred) [c, b] = ([c], Some c)" "mdev_sort blk_sel (Some blk_pred) [c, b] = ([b], Some b)"
    using assms(1-4) by (simp_all add: mdev_sort_def)
  moreover have "replicate (Suc 0) None = [None :: mdev option]" by simp
  ultimately have "assign_imajors True [c, b] = Some (Inr (e2\<lparr>ei_modules := fst (mdev_sort mod_sel None [c, b]), ei_cohdrivers := fst (mdev_sort coh_sel (Some coh_pred) [c, b])\<rparr>))"
    using loop1 loop2 N(1) by (simp add: assign_imajors_def Let_def split_beta range_end_def e0_def del: replicate_Suc)
  moreover have "et2 ! fst (md_chr_maj c) = Some 0" using 1(4) 2(2) assms(5,6) by simp
  ultimately show ?thesis by (simp add: e2_def)
qed

text \<open>the minor numbers of a device with several major numbers collide. They are offset by \<open>md_minor_max\<close>, which is the largest minor number and not how
  many there are: the last minor number of one external major and the first of the next are the same internal device.\<close>

theorem assign_minors_collide:
  assumes "config_ok ds" "c \<in> set ds" "chr_sel c" "fst (md_chr_maj c) \<le> x" "x < snd (md_chr_maj c)"
  shows "\<exists>e. assign_imajors True ds = Some (Inr e) \<and> ei_etoimajor e ! x = ei_etoimajor e ! Suc x \<and>
    ei_minoroffset e ! x + md_minor_max c = ei_minoroffset e ! Suc x + 0"
proof -
  obtain e cs bs where e: "assign_imajors True ds = Some (Inr e)" "set cs = {c \<in> set ds. chr_sel c}" "done_ok 0 cs bs e"
    using assign_imajors_ok [OF assms(1)] by blast
  obtain k where k: "k < length cs" "cs ! k = c" using assms(2,3) e(2) by (auto simp: in_set_conv_nth set_eq_iff)
  then have m: "mapped e (md_chr_maj c) k (md_minor_max c)" using e(3) by (auto simp: done_ok_def chr_at_def)
  have "Suc x - fst (md_chr_maj c) = Suc (x - fst (md_chr_maj c))" using assms(4) by simp
  then show ?thesis using e(1) m assms(4,5) by (auto simp: mapped_def)
qed

section \<open>Witnesses\<close>

text \<open>A disk with a block and two character major numbers, a terminal, and a disk without a character interface.\<close>

definition ex_disk :: mdev where
  "ex_disk = \<lparr>md_devname = ''hd'', md_configure = MD_ENABLED, md_flags = ''cbf'', md_blk_maj = (40, 40), md_chr_maj = (40, 41), md_minor_max = 15\<rparr>"

definition ex_tty :: mdev where
  "ex_tty = \<lparr>md_devname = ''tty'', md_configure = MD_ENABLED, md_flags = ''cft'', md_blk_maj = (0, 0), md_chr_maj = (33, 33), md_minor_max = 7\<rparr>"

definition ex_ram :: mdev where
  "ex_ram = \<lparr>md_devname = ''rm'', md_configure = MD_ENABLED, md_flags = ''bf'', md_blk_maj = (50, 50), md_chr_maj = (0, 0), md_minor_max = 1\<rparr>"

lemmas ex_devs = ex_disk_def ex_tty_def ex_ram_def chr_sel_def blk_sel_def mdev_flag_def MDEV_CHAR_def MDEV_BLOCK_def

lemma ex_config: "config_ok [ex_disk, ex_tty]"
  by (simp add: config_ok_def ex_devs overlap_def compat_def)

lemma ex_selected: "chr_sel ex_disk" "blk_sel ex_disk" "chr_sel ex_tty" "\<not> blk_sel ex_tty" "blk_sel ex_ram" "\<not> chr_sel ex_ram"
  by (simp_all add: ex_devs)

theorem assign_maps_witness:
  "\<exists>e. assign_imajors True [ex_disk, ex_tty] = Some (Inr e) \<and> (\<exists>i. chr_at e i ex_tty) \<and> (\<exists>i. blk_at e i ex_disk)"
proof -
  obtain e where "assign_imajors True [ex_disk, ex_tty] = Some (Inr e)"
    "\<forall>c \<in> set [ex_disk, ex_tty]. chr_sel c \<longrightarrow> (\<exists>i < length (ei_cdevsw e). chr_at e i c)"
    "\<forall>b \<in> set [ex_disk, ex_tty]. blk_sel b \<longrightarrow> (\<exists>i < length (ei_cdevsw e). \<exists>c \<in> set [ex_disk, ex_tty]. chr_at e i c \<and> blk_at e i b)"
    using assign_maps [OF ex_config] by fastforce
  then show ?thesis using ex_selected by auto
qed

theorem assign_loses_device_witness:
  "\<exists>e. assign_imajors True [ex_tty, ex_ram] = Some (Inr e) \<and> ei_etoimajor e ! 33 = Some 0 \<and> ei_cdevsw e = [None]"
  using assign_loses_device [OF ex_selected(3,4,5,6)] by (simp add: ex_tty_def ex_ram_def)

theorem assign_minors_collide_witness:
  "\<exists>e. assign_imajors True [ex_disk, ex_tty] = Some (Inr e) \<and> ei_minoroffset e ! 40 + 15 = ei_minoroffset e ! 41 + 0"
  using assign_minors_collide [OF ex_config _ ex_selected(1), of 40] by (auto simp: ex_disk_def)

end
