(* ===== verification/DevInput.thy ===== *)
theory DevInput
  imports Prelude
begin

text \<open>
  Sources of text for the configuration programs, \<open>devadm/input.c\<close>, and the lexical rules of \<open>lex.c\<close>. An input source is an object with the operations
  \<open>in_read\<close> and \<open>in_unread\<close>; those who read from it know no more, so their definitions take the two operations as arguments. A character is a number from
  0 to 255, and -1 is the end.
\<close>

abbreviation IN_EOF :: int where "IN_EOF \<equiv> -1"
abbreviation newline :: int where "newline \<equiv> 10"

section \<open>Strings\<close>

record strin =
  si_data :: "int list"
  si_pos :: nat

definition si_read :: "strin \<Rightarrow> int \<times> strin" where
  "si_read s = (if si_pos s \<ge> length (si_data s) then (IN_EOF, s) else (si_data s ! si_pos s, s\<lparr>si_pos := si_pos s + 1\<rparr>))"

definition si_unread :: "strin \<Rightarrow> strin" where
  "si_unread s = (if si_pos s > 0 then s\<lparr>si_pos := si_pos s - 1\<rparr> else s)"

text \<open>The string ends at its first NUL.\<close>

definition make_string_input :: "int list \<Rightarrow> strin" where
  "make_string_input str = \<lparr>si_data = takeWhile (\<lambda>c. c \<noteq> 0) str, si_pos = 0\<rparr>"

section \<open>Files\<close>

text \<open>
  \<open>fi_file\<close> is what \<open>getc\<close> will give, \<open>fi_bufpos\<close> how many characters of the line were read, \<open>fi_outfile\<close> what was written to the copy, when there is
  one. The line buffer and the numbers of lines and columns serve messages only and are left out.
\<close>

record filein =
  fi_file :: "int list"
  fi_bufpos :: nat
  fi_prevpos :: nat
  fi_prevchar :: int
  fi_comment :: int
  fi_outfile :: "int list option"

definition fi_putc :: "int \<Rightarrow> filein \<Rightarrow> filein" where
  "fi_putc ch s = s\<lparr>fi_outfile := map_option (\<lambda>out. out @ [ch]) (fi_outfile s)\<rparr>"

text \<open>A comment goes to the copy up to the end of the line; the result is False when the file ends first.\<close>

primrec fi_skip :: "int \<Rightarrow> int list \<Rightarrow> filein \<Rightarrow> bool \<times> filein" where
  "fi_skip ch [] s = (False, (fi_putc ch s)\<lparr>fi_file := []\<rparr>)"
| "fi_skip ch (c # cs) s = (if c = newline then (True, (fi_putc ch s)\<lparr>fi_file := cs\<rparr>) else fi_skip c cs (fi_putc ch s))"

lemma fi_skip_file: "length (fi_file (snd (fi_skip ch cs s))) \<le> length cs"
  by (induction cs arbitrary: ch s) (auto intro: le_SucI)

function fi_loop :: "filein \<Rightarrow> int \<times> filein" where
  "fi_loop s =
     (case fi_file s of
        [] \<Rightarrow> (IN_EOF, s)
      | ch # cs \<Rightarrow>
          let s = s\<lparr>fi_file := cs, fi_bufpos := fi_bufpos s + 1\<rparr>
          in if ch = fi_comment s \<and> \<not> fst (fi_skip ch cs s) then (IN_EOF, snd (fi_skip ch cs s))
             else
               let (ch, s) = (if ch = fi_comment s
                     then (newline, if fi_bufpos s > 1 then fi_putc newline (snd (fi_skip ch cs s)) else snd (fi_skip ch cs s)) else (ch, s))
               in if ch = newline \<and> fi_bufpos s = 1 then fi_loop (fi_putc ch (s\<lparr>fi_bufpos := 0\<rparr>))
                  else (ch, s\<lparr>fi_bufpos := (if ch = newline then 0 else fi_bufpos s), fi_prevchar := ch\<rparr>))"
  by pat_completeness auto
termination
proof (relation "measure (\<lambda>s. length (fi_file s))", goal_cases)
  case (2 s ch cs s1 x ch' s2)
  then show ?case using fi_skip_file [of ch cs s1] by (auto simp: fi_putc_def split: if_splits)
qed simp

declare fi_loop.simps [simp del]

definition fi_read :: "filein \<Rightarrow> int \<times> filein" where
  "fi_read s = fi_loop (s\<lparr>fi_prevpos := fi_bufpos s\<rparr>)"

definition fi_unread :: "filein \<Rightarrow> filein" where
  "fi_unread s = (if fi_prevchar s \<noteq> IN_EOF then s\<lparr>fi_file := fi_prevchar s # fi_file s, fi_prevchar := IN_EOF, fi_bufpos := fi_prevpos s\<rparr> else s)"

text \<open>\<open>make_filter\<close> does not set \<open>fi_bufpos\<close>; \<open>junk\<close> is what is found there.\<close>

definition make_filter :: "int list \<Rightarrow> int \<Rightarrow> int list option \<Rightarrow> nat \<Rightarrow> filein" where
  "make_filter infile comment outfile junk =
     \<lparr>fi_file = infile, fi_bufpos = junk, fi_prevpos = 0, fi_prevchar = IN_EOF, fi_comment = comment, fi_outfile = outfile\<rparr>"

section \<open>Lexical rules\<close>

datatype lexset = LEX_WILD | Lex "int list"

record lexinfo =
  l_flush :: "int list option"
  l_sep :: "int list option"
  l_valid :: "lexset option"
  l_error :: "lexset option"

text \<open>\<open>strchr\<close> finds the NUL at the end of any string.\<close>

definition strchr :: "int list \<Rightarrow> int \<Rightarrow> bool" where
  "strchr str ch \<longleftrightarrow> ch = 0 \<or> ch \<in> set str"

definition in_lexset :: "lexset \<Rightarrow> int \<Rightarrow> bool" where
  "in_lexset l ch = (case l of LEX_WILD \<Rightarrow> strchr [] ch | Lex str \<Rightarrow> strchr str ch)"

datatype lex_class = CLASS_FLUSH | CLASS_SEP | CLASS_VALID

datatype read_error = LEX_ERROR | FORMAT_ERR

text \<open>A set of rules is the list of the structures along \<open>l_prev\<close>.\<close>

fun classify_loop :: "lexinfo list \<Rightarrow> int \<Rightarrow> bool \<Rightarrow> bool \<Rightarrow> bool \<Rightarrow> lex_class + bool" where
  "classify_loop [] ch flush valid invalid = Inr valid"
| "classify_loop (scan # prev) ch flush valid invalid =
     (if flush \<and> (case l_flush scan of None \<Rightarrow> False | Some str \<Rightarrow> strchr str ch) then Inl CLASS_FLUSH
      else if (case l_sep scan of None \<Rightarrow> False | Some str \<Rightarrow> strchr str ch) then Inl CLASS_SEP
      else
        let valid = (if l_valid scan = Some LEX_WILD \<or> (case l_valid scan of None \<Rightarrow> False | Some str \<Rightarrow> in_lexset str ch) then \<not> invalid else valid)
        in if l_error scan = Some LEX_WILD then classify_loop prev ch flush valid (\<not> valid)
           else if (case l_error scan of None \<Rightarrow> False | Some str \<Rightarrow> in_lexset str ch) then Inr valid
           else classify_loop prev ch flush valid invalid)"

definition classify :: "lexinfo list \<Rightarrow> int \<Rightarrow> bool \<Rightarrow> read_error + lex_class" where
  "classify lexp ch flush =
     (if ch < 0 then Inl LEX_ERROR
      else (case classify_loop lexp ch flush False False of Inl cls \<Rightarrow> Inr cls | Inr valid \<Rightarrow> if valid then Inr CLASS_VALID else Inl LEX_ERROR))"

text \<open>Space, tab, carriage return, and for separators newline.\<close>

definition WHITESPACE :: "lexinfo list" where
  "WHITESPACE = [\<lparr>l_flush = Some [32, 9, 13], l_sep = Some [32, 9, 13, 10], l_valid = Some LEX_WILD, l_error = None\<rparr>]"

lemma classify_whitespace:
  "0 \<le> ch \<Longrightarrow> classify WHITESPACE ch flush = Inr (if ch \<in> {0, 32, 9, 13} then (if flush then CLASS_FLUSH else CLASS_SEP) else if ch = 10 then CLASS_SEP else CLASS_VALID)"
  by (simp add: classify_def WHITESPACE_def strchr_def)

section \<open>The contract of a source\<close>

text \<open>
  \<open>view s\<close> are the characters that are still to come. Reading takes the first one, and \<open>in_unread\<close> right after it puts it back.
\<close>

locale source =
  fixes rd :: "'s \<Rightarrow> int \<times> 's" and unrd :: "'s \<Rightarrow> 's" and view :: "'s \<Rightarrow> int list" and ok :: "'s \<Rightarrow> bool"
  assumes rd_end: "ok s \<Longrightarrow> view s = [] \<Longrightarrow> \<exists>s'. rd s = (IN_EOF, s') \<and> view s' = [] \<and> ok s'"
    and rd_char: "ok s \<Longrightarrow> view s = c # cs \<Longrightarrow> \<exists>s'. rd s = (c, s') \<and> view s' = cs \<and> ok s' \<and> view (unrd s') = c # cs \<and> ok (unrd s')"
    and chars: "ok s \<Longrightarrow> c \<in> set (view s) \<Longrightarrow> 0 \<le> c \<and> c \<le> 255"

definition si_view :: "strin \<Rightarrow> int list" where
  "si_view s = drop (si_pos s) (si_data s)"

definition si_ok :: "strin \<Rightarrow> bool" where
  "si_ok s \<longleftrightarrow> (\<forall>c \<in> set (si_data s). 0 \<le> c \<and> c \<le> 255)"

interpretation si: source si_read si_unread si_view si_ok
proof
  fix s c cs
  show "\<exists>s'. si_read s = (IN_EOF, s') \<and> si_view s' = [] \<and> si_ok s'" if "si_ok s" "si_view s = []"
    using that by (simp add: si_read_def si_view_def)
  show "\<exists>s'. si_read s = (c, s') \<and> si_view s' = cs \<and> si_ok s' \<and> si_view (si_unread s') = c # cs \<and> si_ok (si_unread s')"
    if "si_ok s" "si_view s = c # cs"
  proof -
    have "si_pos s < length (si_data s)" using that(2) by (cases "si_pos s < length (si_data s)") (simp_all add: si_view_def)
    moreover from this have "si_data s ! si_pos s = c" "drop (Suc (si_pos s)) (si_data s) = cs"
      using that(2) by (simp_all add: si_view_def Cons_nth_drop_Suc [symmetric])
    ultimately show ?thesis using that by (auto simp: si_read_def si_unread_def si_view_def si_ok_def)
  qed
  show "0 \<le> c \<and> c \<le> 255" if "si_ok s" "c \<in> set (si_view s)"
    using that in_set_dropD by (fastforce simp: si_ok_def si_view_def)
qed

text \<open>
  What a reader sees of a file: comments and lines without text are left out, and a comment behind text counts as the end of the line. \<open>Line True\<close>: at
  the start of a line.
\<close>

datatype fi_mode = Line bool | Comment bool

primrec fi_text :: "int \<Rightarrow> fi_mode \<Rightarrow> int list \<Rightarrow> int list" where
  "fi_text k mode [] = []"
| "fi_text k mode (c # cs) =
     (case mode of
        Comment b \<Rightarrow> if c = newline then (if b then [] else [newline]) @ fi_text k (Line True) cs else fi_text k (Comment b) cs
      | Line b \<Rightarrow> if c = k then fi_text k (Comment b) cs
          else if c = newline then (if b then [] else [newline]) @ fi_text k (Line True) cs
          else c # fi_text k (Line False) cs)"

definition fi_view :: "filein \<Rightarrow> int list" where
  "fi_view s = fi_text (fi_comment s) (Line (fi_bufpos s = 0)) (fi_file s)"

definition fi_ok :: "filein \<Rightarrow> bool" where
  "fi_ok s \<longleftrightarrow> fi_comment s \<noteq> newline \<and> (\<forall>c \<in> set (fi_file s). 0 \<le> c \<and> c \<le> 255)"

lemma fi_text_set: "c \<in> set (fi_text k mode cs) \<Longrightarrow> c \<in> set cs"
  by (induction cs arbitrary: mode) (auto split: fi_mode.splits if_splits)

lemma fi_putc_simps [simp]:
  "fi_file (fi_putc c s) = fi_file s" "fi_bufpos (fi_putc c s) = fi_bufpos s" "fi_prevpos (fi_putc c s) = fi_prevpos s"
  "fi_prevchar (fi_putc c s) = fi_prevchar s" "fi_comment (fi_putc c s) = fi_comment s"
  by (simp_all add: fi_putc_def)

lemma fi_skip_same:
  "fi_bufpos (snd (fi_skip ch cs s)) = fi_bufpos s" "fi_prevpos (snd (fi_skip ch cs s)) = fi_prevpos s"
  "fi_prevchar (snd (fi_skip ch cs s)) = fi_prevchar s" "fi_comment (snd (fi_skip ch cs s)) = fi_comment s"
  "set (fi_file (snd (fi_skip ch cs s))) \<subseteq> set cs"
  by (induction cs arbitrary: ch s) (simp_all, blast)

lemma fi_skip_text:
  "fi_text k (Comment b) cs = (if fst (fi_skip ch cs s) then (if b then [] else [newline]) @ fi_text k (Line True) (fi_file (snd (fi_skip ch cs s))) else [])"
proof (induction cs arbitrary: ch s)
  case (Cons c cs)
  then show ?case using Cons.IH [of c "fi_putc ch s"] by simp
qed simp

lemma fi_skip_eof: "\<not> fst (fi_skip ch cs s) \<Longrightarrow> fi_file (snd (fi_skip ch cs s)) = []"
  by (induction cs arbitrary: ch s) (auto split: if_splits)

lemma fi_loop_view:
  "fi_ok s \<Longrightarrow> (case fi_loop s of (c, s') \<Rightarrow> fi_ok s' \<and> fi_comment s' = fi_comment s \<and> fi_prevpos s' = fi_prevpos s \<and>
     (fi_view s = [] \<longrightarrow> c = IN_EOF \<and> fi_view s' = []) \<and>
     (fi_view s \<noteq> [] \<longrightarrow> fi_view s = c # fi_view s' \<and> fi_prevchar s' = c \<and> c \<noteq> fi_comment s \<and> 0 \<le> c \<and> c \<le> 255 \<and>
        (c = newline \<longrightarrow> fi_bufpos s' = 0 \<and> 0 < fi_bufpos s) \<and> (c \<noteq> newline \<longrightarrow> 0 < fi_bufpos s')))"
proof (induction "length (fi_file s)" arbitrary: s rule: less_induct)
  case (less s)
  show ?case
  proof (cases "fi_file s")
    case Nil
    then show ?thesis using less(2) by (subst fi_loop.simps) (simp add: fi_view_def)
  next
    case (Cons ch cs)
    let ?s = "s\<lparr>fi_file := cs, fi_bufpos := fi_bufpos s + 1\<rparr>"
    let ?k = "snd (fi_skip ch cs ?s)"
    note same = fi_skip_same [of ch cs ?s]
    note tv = fi_skip_text [where k = "fi_comment s" and b = "fi_bufpos s = 0" and cs = cs and ch = ch and s = ?s]
    have ok: "fi_comment s \<noteq> newline" "0 \<le> ch" "ch \<le> 255" "\<forall>c \<in> set cs. 0 \<le> c \<and> c \<le> 255" using less(2) Cons by (simp_all add: fi_ok_def)
    show ?thesis
    proof (cases "ch = fi_comment s")
      case cm: True
      show ?thesis
      proof (cases "fst (fi_skip ch cs ?s)")
        case False
        then have "fi_loop s = (IN_EOF, ?k)" using Cons cm by (subst fi_loop.simps) (simp add: Let_def)
        moreover have "fi_view s = []" using Cons cm tv False by (simp add: fi_view_def)
        ultimately show ?thesis using same fi_skip_eof [OF False] ok cm by (simp add: fi_ok_def fi_view_def)
      next
        case skipped: True
        have okk: "fi_ok ?k" using same ok cm by (auto simp: fi_ok_def)
        show ?thesis
        proof (cases "fi_bufpos s = 0")
          case True
          let ?n = "fi_putc newline (?k\<lparr>fi_bufpos := 0\<rparr>)"
          have eq: "fi_loop s = fi_loop ?n" using Cons cm skipped True same by (subst fi_loop.simps) (simp add: Let_def)
          have view: "fi_view s = fi_view ?n" using Cons cm tv skipped True same by (simp add: fi_view_def)
          have "fi_ok ?n" "length (fi_file ?n) < length (fi_file s)" using okk fi_skip_file [of ch cs ?s] Cons by (simp_all add: fi_ok_def)
          then show ?thesis using less(1) [of ?n] same True unfolding eq view by (simp split: prod.splits)
        next
          case False
          then have "fi_loop s = (newline, (fi_putc newline ?k)\<lparr>fi_bufpos := 0, fi_prevchar := newline\<rparr>)"
            using Cons cm skipped same by (subst fi_loop.simps) (simp add: Let_def)
          moreover have "fi_view s = newline # fi_text (fi_comment s) (Line True) (fi_file ?k)" using Cons cm tv skipped False by (simp add: fi_view_def)
          ultimately show ?thesis using okk same ok(1) False by (simp add: fi_ok_def fi_view_def)
        qed
      qed
    next
      case False
      show ?thesis
      proof (cases "ch = newline \<and> fi_bufpos s = 0")
        case True
        let ?n = "fi_putc newline (?s\<lparr>fi_bufpos := 0\<rparr>)"
        have eq: "fi_loop s = fi_loop ?n" using Cons False True by (subst fi_loop.simps) (simp add: Let_def)
        have view: "fi_view s = fi_view ?n" using Cons False True by (simp add: fi_view_def)
        have "fi_ok ?n" "length (fi_file ?n) < length (fi_file s)" using ok Cons by (simp_all add: fi_ok_def)
        then show ?thesis using less(1) [of ?n] True unfolding eq view by (simp split: prod.splits)
      next
        case stop: False
        then have "fi_loop s = (ch, ?s\<lparr>fi_bufpos := (if ch = newline then 0 else fi_bufpos s + 1), fi_prevchar := ch\<rparr>)"
          using Cons False by (subst fi_loop.simps) (auto simp: Let_def)
        moreover have "fi_view s = ch # fi_text (fi_comment s) (Line (ch = newline)) cs" using Cons False stop by (auto simp: fi_view_def)
        ultimately show ?thesis using ok False stop by (auto simp: fi_ok_def fi_view_def)
      qed
    qed
  qed
qed

interpretation fi: source fi_read fi_unread fi_view fi_ok
proof
  fix s c cs
  have ok: "fi_ok (s\<lparr>fi_prevpos := p\<rparr>) = fi_ok s" "fi_view (s\<lparr>fi_prevpos := p\<rparr>) = fi_view s" for p by (simp_all add: fi_ok_def fi_view_def)
  note loop = fi_loop_view [of "s\<lparr>fi_prevpos := fi_bufpos s\<rparr>", unfolded ok]
  show "\<exists>s'. fi_read s = (IN_EOF, s') \<and> fi_view s' = [] \<and> fi_ok s'" if "fi_ok s" "fi_view s = []"
    using loop [OF that(1)] that(2) by (auto simp: fi_read_def split: prod.splits)
  show "\<exists>s'. fi_read s = (c, s') \<and> fi_view s' = cs \<and> fi_ok s' \<and> fi_view (fi_unread s') = c # cs \<and> fi_ok (fi_unread s')"
    if v: "fi_ok s" "fi_view s = c # cs"
  proof -
    obtain s' where s': "fi_read s = (c, s')" "fi_ok s'" "fi_view s' = cs" "fi_comment s' = fi_comment s" "fi_prevpos s' = fi_bufpos s"
      "fi_prevchar s' = c" "c \<noteq> fi_comment s" "0 \<le> c" "c \<le> 255" "c = newline \<longrightarrow> fi_bufpos s' = 0 \<and> 0 < fi_bufpos s" "c \<noteq> newline \<longrightarrow> 0 < fi_bufpos s'"
      using loop [OF v(1)] v(2) by (auto simp: fi_read_def split: prod.splits)
    have un: "fi_unread s' = s'\<lparr>fi_file := c # fi_file s', fi_prevchar := IN_EOF, fi_bufpos := fi_bufpos s\<rparr>"
      using s'(5,6,8) by (simp add: fi_unread_def)
    have "fi_view (fi_unread s') = c # cs" using s'(3,4,7,10,11) by (auto simp: fi_view_def un)
    moreover have "fi_ok (fi_unread s')" using s'(2,8,9) by (simp add: fi_ok_def un)
    ultimately show ?thesis using s' by auto
  qed
  show "0 \<le> c \<and> c \<le> 255" if "fi_ok s" "c \<in> set (fi_view s)"
    using that fi_text_set by (fastforce simp: fi_ok_def fi_view_def)
qed

end
