(* ===== verification/DevRead.thy ===== *)
theory DevRead
  imports DevInput "HOL-Library.Word"
begin

text \<open>
  Reading numbers from the configuration files, \<open>devadm/read.c\<close>. The functions take \<open>in_read\<close> and \<open>in_unread\<close> of the source, and the state is the
  text that \<open>val_str.c\<close> has collected together with the source. An unsigned long is a \<^typ>\<open>32 word\<close>. An error that is thrown is a value \<open>Inl\<close>; a result
  \<^const>\<open>None\<close> is a source that never ends.
\<close>

section \<open>Digits\<close>

definition STUNE_VAL_LEN :: nat where "STUNE_VAL_LEN = 32"

definition collect_val_str :: "int \<Rightarrow> int list \<Rightarrow> int list" where
  "collect_val_str c v = (if length v < STUNE_VAL_LEN - 1 then v @ [c] else v)"

text \<open>\<open>memchr\<close> looks for a character, whatever the sign.\<close>

definition char_to_digit :: "int \<Rightarrow> int \<Rightarrow> int" where
  "char_to_digit ch radix =
     (let c = ch mod 256; d = (if 48 \<le> c \<and> c \<le> 57 then c - 48 else if 65 \<le> c \<and> c \<le> 70 then c - 55 else if 97 \<le> c \<and> c \<le> 102 then c - 87 else -1)
      in if d = -1 \<or> d \<ge> radix then -1 else d)"

text \<open>The value of an int that was stored in a char.\<close>

definition to_char :: "int \<Rightarrow> int" where
  "to_char c = (if c mod 256 > 127 then c mod 256 - 256 else c mod 256)"

section \<open>Unsigned numbers\<close>

type_synonym 's rstate = "int list \<times> 's"

text \<open>The end of \<open>choose_radix\<close>, with the result, the value and the radix.\<close>

definition choose_digit :: "('s \<Rightarrow> 's) \<Rightarrow> int \<Rightarrow> int \<Rightarrow> int \<Rightarrow> 's rstate \<Rightarrow> (int \<times> 32 word \<times> int) \<times> 's rstate" where
  "choose_digit unrd ch radix errflag st = (case st of (v, s) \<Rightarrow>
     if char_to_digit ch radix = -1 then ((errflag, 0, radix), (v, unrd s))
     else ((0, word_of_int (char_to_digit ch radix), radix), (collect_val_str ch v, s)))"

definition choose_radix :: "('s \<Rightarrow> int \<times> 's) \<Rightarrow> ('s \<Rightarrow> 's) \<Rightarrow> 's rstate \<Rightarrow> (int \<times> 32 word \<times> int) \<times> 's rstate" where
  "choose_radix rd unrd st = (case st of (v, s) \<Rightarrow>
     let (ch, s) = rd s
     in if ch = IN_EOF then ((1, 0, 0), (v, s))
        else if ch = 48 then
          (let v = collect_val_str ch v; (ch, s) = rd s
           in if ch = IN_EOF then ((1, 0, 0), (v, s))
              else if ch = 120 \<or> ch = 88 then
                (let v = collect_val_str ch v; (ch, s) = rd s
                 in if ch = IN_EOF then ((-1, 0, 16), (v, s)) else choose_digit unrd ch 16 (-1) (v, s))
              else choose_digit unrd ch 8 1 (v, s))
        else choose_digit unrd ch 10 0 (v, s))"

definition ULONG_MAX :: "32 word" where
  "ULONG_MAX = -1"

partial_function (option) ulong_loop ::
  "('s \<Rightarrow> int \<times> 's) \<Rightarrow> ('s \<Rightarrow> 's) \<Rightarrow> int \<Rightarrow> 32 word \<Rightarrow> int \<Rightarrow> int list \<Rightarrow> 's \<Rightarrow> ((int \<times> 32 word) \<times> 's rstate) option" where
  "ulong_loop rd unrd radix temp read_something v s =
     (let (c, s) = rd s; ch = to_char c; digit = char_to_digit ch radix
      in if ch = IN_EOF then Some ((read_something, temp), (v, s))
         else if digit = -1 then Some ((read_something, temp), (v, unrd s))
         else if temp > ULONG_MAX div word_of_int radix then ulong_loop rd unrd radix ULONG_MAX (-1) v s
         else
           let temp = temp * word_of_int radix + word_of_int digit; v = collect_val_str ch v
           in if temp < word_of_int digit then ulong_loop rd unrd radix ULONG_MAX (-1) v s
              else ulong_loop rd unrd radix temp 1 v s)"

definition read_ulong :: "('s \<Rightarrow> int \<times> 's) \<Rightarrow> ('s \<Rightarrow> 's) \<Rightarrow> int \<Rightarrow> 's rstate \<Rightarrow> ((int \<times> 32 word) \<times> 's rstate) option" where
  "read_ulong rd unrd radix st =
     (if radix = 0 then
        (case choose_radix rd unrd st of ((r, t, radix), (v, s)) \<Rightarrow>
           if r \<noteq> 0 then Some ((r, t), (v, s)) else ulong_loop rd unrd radix t 1 v s)
      else ulong_loop rd unrd radix 0 0 (fst st) (snd st))"

section \<open>Signed numbers\<close>

definition LONG_MAX :: int where "LONG_MAX = 2 ^ 31 - 1"
definition LONG_MIN :: int where "LONG_MIN = - (2 ^ 31)"

text \<open>At the end of the input the value is not stored.\<close>

definition read_long :: "('s \<Rightarrow> int \<times> 's) \<Rightarrow> ('s \<Rightarrow> 's) \<Rightarrow> int \<Rightarrow> 's rstate \<Rightarrow> ((int \<times> int option) \<times> 's rstate) option" where
  "read_long rd unrd radix st = (case st of (v, s) \<Rightarrow>
     let (ch, s) = rd s
     in if ch = IN_EOF then Some ((1, None), (v, s))
        else
          let (sign, v, s) = (if ch = 45 then (-1 :: int, collect_val_str ch v, s) else if ch = 43 then (1, collect_val_str ch v, s) else (0, v, unrd s))
          in do {
            ((ch, temp), st) \<leftarrow> read_ulong rd unrd radix (v, s);
            Some (
              (if sign < 0 \<and> temp \<noteq> 0 then
                 (let temp = temp - 1
                  in if uint temp > LONG_MAX then (-1, Some LONG_MIN)
                     else (if sign \<noteq> 0 \<and> ch = 0 then -1 else ch, Some (-1 - uint temp)))
               else if uint temp > LONG_MAX then (-1, Some LONG_MAX)
               else (if sign \<noteq> 0 \<and> ch = 0 then -1 else ch, Some (uint temp))), st)
          })"

section \<open>Numbers and ranges\<close>

partial_function (option) read_flush :: "('s \<Rightarrow> int \<times> 's) \<Rightarrow> ('s \<Rightarrow> 's) \<Rightarrow> lexinfo list \<Rightarrow> 's \<Rightarrow> (read_error + 's) option" where
  "read_flush rd unrd lexp s =
     (let (ch, s) = rd s
      in if ch = IN_EOF then Some (Inr s)
         else (case classify lexp ch True of
             Inl err \<Rightarrow> Some (Inl err)
           | Inr cls \<Rightarrow> if cls \<noteq> CLASS_FLUSH then Some (Inr (unrd s)) else read_flush rd unrd lexp s))"

text \<open>Whether a hyphen follows; what was read to see it is put back.\<close>

definition hyphen :: "('s \<Rightarrow> int \<times> 's) \<Rightarrow> ('s \<Rightarrow> 's) \<Rightarrow> 's \<Rightarrow> bool \<times> 's" where
  "hyphen rd unrd s = (let (ch, s) = rd s in if ch = IN_EOF then (False, s) else (ch = 45, unrd s))"

text \<open>\<open>read_uints\<close> and \<open>read_ulongs\<close>; an int has the width of a long. The result is the next character, with the numbers that were stored.\<close>

definition read_uints ::
  "('s \<Rightarrow> int \<times> 's) \<Rightarrow> ('s \<Rightarrow> 's) \<Rightarrow> lexinfo list \<Rightarrow> bool \<Rightarrow> 's rstate \<Rightarrow> (read_error + (int \<times> 32 word \<times> 32 word option) \<times> 's rstate) option" where
  "read_uints rd unrd lexp rflag st = (case st of (v, s) \<Rightarrow> do {
     e \<leftarrow> read_flush rd unrd lexp s;
     (case e of Inl err \<Rightarrow> Some (Inl err)
      | Inr s \<Rightarrow> do {
          ((r, value), (v, s)) \<leftarrow> read_ulong rd unrd 0 (v, s);
          if r \<noteq> 1 then Some (Inl FORMAT_ERR)
          else if \<not> rflag then (case rd s of (ch, s) \<Rightarrow> Some (Inr ((ch, value, None), (v, s))))
          else (case hyphen rd unrd s of (h, s) \<Rightarrow>
            if h then do {
              ((r, value2), (v, s)) \<leftarrow> read_ulong rd unrd 0 (v, s);
              if r \<noteq> 1 then Some (Inl FORMAT_ERR)
              else (case rd s of (ch, s) \<Rightarrow> Some (Inr ((ch, value, Some value2), (v, s))))
            }
            else (case rd s of (ch, s) \<Rightarrow> Some (Inr ((ch, value, Some value), (v, s)))))
        })
   })"

definition read_ulongs ::
  "('s \<Rightarrow> int \<times> 's) \<Rightarrow> ('s \<Rightarrow> 's) \<Rightarrow> lexinfo list \<Rightarrow> bool \<Rightarrow> 's rstate \<Rightarrow> (read_error + (int \<times> 32 word \<times> 32 word option) \<times> 's rstate) option" where
  "read_ulongs = read_uints"

text \<open>\<open>read_ints\<close>, as it is compiled for COHERENT, without the test of the range.\<close>

definition read_ints ::
  "('s \<Rightarrow> int \<times> 's) \<Rightarrow> ('s \<Rightarrow> 's) \<Rightarrow> lexinfo list \<Rightarrow> bool \<Rightarrow> 's rstate \<Rightarrow>
    (read_error + (int \<times> int option \<times> int option) \<times> 's rstate) option" where
  "read_ints rd unrd lexp rflag st = (case st of (v, s) \<Rightarrow> do {
     e \<leftarrow> read_flush rd unrd lexp s;
     (case e of Inl err \<Rightarrow> Some (Inl err)
      | Inr s \<Rightarrow> do {
          ((r, value), (v, s)) \<leftarrow> read_long rd unrd 0 (v, s);
          if r \<noteq> 1 then Some (Inl FORMAT_ERR)
          else if \<not> rflag then (case rd s of (ch, s) \<Rightarrow> Some (Inr ((ch, value, None), (v, s))))
          else (case hyphen rd unrd s of (h, s) \<Rightarrow>
            if h then do {
              ((r, value2), (v, s)) \<leftarrow> read_long rd unrd 0 (v, s);
              if r \<noteq> 1 then Some (Inl FORMAT_ERR)
              else (case rd s of (ch, s) \<Rightarrow> Some (Inr ((ch, value, if value2 = None then value else value2), (v, s))))
            }
            else (case rd s of (ch, s) \<Rightarrow> Some (Inr ((ch, value, value), (v, s)))))
        })
   })"

text \<open>\<open>read_longs\<close> clears the collected text, and stores a second number only for a range.\<close>

definition read_longs ::
  "('s \<Rightarrow> int \<times> 's) \<Rightarrow> ('s \<Rightarrow> 's) \<Rightarrow> lexinfo list \<Rightarrow> bool \<Rightarrow> 's rstate \<Rightarrow>
    (read_error + (int \<times> int option \<times> int option) \<times> 's rstate) option" where
  "read_longs rd unrd lexp rflag st = (case st of (v, s) \<Rightarrow> do {
     e \<leftarrow> read_flush rd unrd lexp s;
     (case e of Inl err \<Rightarrow> Some (Inl err)
      | Inr s \<Rightarrow> do {
          ((r, value), (v, s)) \<leftarrow> read_long rd unrd 0 ([], s);
          if r \<noteq> 1 then Some (Inl FORMAT_ERR)
          else if \<not> rflag then (case rd s of (ch, s) \<Rightarrow> Some (Inr ((ch, value, None), (v, s))))
          else (case hyphen rd unrd s of (h, s) \<Rightarrow>
            if h then do {
              ((r, value2), (v, s)) \<leftarrow> read_long rd unrd 0 (v, s);
              if r \<noteq> 1 then Some (Inl FORMAT_ERR)
              else (case rd s of (ch, s) \<Rightarrow> Some (Inr ((ch, value, value2), (v, s))))
            }
            else (case rd s of (ch, s) \<Rightarrow> Some (Inr ((ch, value, None), (v, s)))))
        })
   })"

section \<open>Overflow\<close>

lemma uint_small: "0 \<le> r \<Longrightarrow> r < 2 ^ 32 \<Longrightarrow> uint (word_of_int r :: 32 word) = r"
  by (simp add: uint_word_of_int)

lemma div_bound: "0 < (r::int) \<Longrightarrow> M div r < x \<longleftrightarrow> M < x * r"
proof -
  assume r: "0 < r"
  have "M < (M div r + 1) * r" "M div r * r \<le> M"
    using r by (metis add.commute div_mult_mod_eq int_distrib(1) mult_1 pos_mod_bound add_strict_left_mono)
      (metis r div_mult_mod_eq le_add_same_cancel1 pos_mod_sign)
  moreover have "M div r < x \<longleftrightarrow> (M div r + 1) * r \<le> x * r" "\<not> M div r < x \<longleftrightarrow> x * r \<le> M div r * r" using r by auto
  ultimately show ?thesis by linarith
qed

lemma uint_ULONG_MAX: "uint ULONG_MAX = 2 ^ 32 - 1"
  by (simp add: ULONG_MAX_def unsigned_minus_1_eq_mask mask_eq_exp_minus_1)

lemma mod_wrap: "(2::int) ^ 32 \<le> a \<Longrightarrow> a < 2 * 2 ^ 32 \<Longrightarrow> a mod 2 ^ 32 = a - 2 ^ 32"
  by (metis minus_mod_self2 mod_pos_pos_trivial diff_ge_0_iff_ge diff_less_eq mult_2)

lemma ulong_mul_over:
  fixes t :: "32 word"
  assumes "2 \<le> r" "r \<le> 16"
  shows "t > ULONG_MAX div word_of_int r \<longleftrightarrow> 2 ^ 32 \<le> uint t * r"
proof -
  have "uint (ULONG_MAX div word_of_int r) = (2 ^ 32 - 1) div r"
    using assms by (simp add: uint_div_distrib uint_ULONG_MAX uint_small)
  then show ?thesis using div_bound [of r "2 ^ 32 - 1" "uint t"] assms by (auto simp: word_less_alt)
qed

lemma ulong_add_over:
  fixes t :: "32 word"
  assumes "2 \<le> r" "r \<le> 16" "0 \<le> d" "d < r" "uint t * r < 2 ^ 32"
  shows "t * word_of_int r + word_of_int d < word_of_int d \<longleftrightarrow> 2 ^ 32 \<le> uint t * r + d"
    and "uint t * r + d < 2 ^ 32 \<Longrightarrow> uint (t * word_of_int r + word_of_int d) = uint t * r + d"
proof -
  have d: "uint (word_of_int d :: 32 word) = d" and r: "uint (word_of_int r :: 32 word) = r" using assms by (simp_all add: uint_small)
  have u: "uint (t * word_of_int r + word_of_int d) = (uint t * r + d) mod 2 ^ 32"
    by (simp add: uint_word_ariths d r mod_simps)
  show "uint t * r + d < 2 ^ 32 \<Longrightarrow> uint (t * word_of_int r + word_of_int d) = uint t * r + d"
    using u assms(1,3) by (simp add: mod_pos_pos_trivial)
  show "t * word_of_int r + word_of_int d < word_of_int d \<longleftrightarrow> 2 ^ 32 \<le> uint t * r + d"
  proof (cases "2 ^ 32 \<le> uint t * r + d")
    case True
    have "(uint t * r + d) mod 2 ^ 32 = uint t * r + d - 2 ^ 32"
      using True assms by (intro mod_wrap) simp_all
    then show ?thesis using True assms u d by (simp add: word_less_alt)
  next
    case False
    then have "uint (t * word_of_int r + word_of_int d) = uint t * r + d" using u assms(1,3) by (simp add: mod_pos_pos_trivial)
    moreover have "0 \<le> uint t * r" using assms(1) by simp
    ultimately show ?thesis using False d by (simp add: word_less_alt)
  qed
qed

section \<open>Reading digits\<close>

text \<open>The number that a row of digits stands for, after the digits read so far.\<close>

definition num :: "int \<Rightarrow> int list \<Rightarrow> int \<Rightarrow> int" where
  "num r ds a = foldl (\<lambda>a c. a * r + char_to_digit c r) a ds"

definition digits :: "int \<Rightarrow> int list \<Rightarrow> bool" where
  "digits r ds \<longleftrightarrow> (\<forall>c \<in> set ds. char_to_digit c r \<noteq> -1)"

text \<open>What may follow a number. The character 255 is taken for the end of the input.\<close>

definition stops :: "int \<Rightarrow> int list \<Rightarrow> bool" where
  "stops r rest \<longleftrightarrow> (case rest of [] \<Rightarrow> True | c # cs \<Rightarrow> c \<noteq> 255 \<and> char_to_digit c r = -1)"

lemma num_simps [simp]: "num r [] a = a" "num r (c # ds) a = num r ds (a * r + char_to_digit c r)"
  by (simp_all add: num_def)

lemma digits_simps [simp]: "digits r []" "digits r (c # ds) \<longleftrightarrow> char_to_digit c r \<noteq> -1 \<and> digits r ds"
  by (simp_all add: digits_def)

lemma char_to_digit_bounds: "char_to_digit c r \<noteq> -1 \<Longrightarrow> 0 \<le> char_to_digit c r \<and> char_to_digit c r < r"
  by (auto simp: char_to_digit_def Let_def split: if_splits)

lemma char_to_digit_char: "char_to_digit (to_char c) r = char_to_digit c r"
proof -
  have "to_char c mod 256 = c mod 256" by (simp add: to_char_def)
  then show ?thesis by (simp add: char_to_digit_def)
qed

lemma to_char_eof: "0 \<le> c \<Longrightarrow> c \<le> 255 \<Longrightarrow> to_char c = -1 \<longleftrightarrow> c = 255"
  by (auto simp: to_char_def)

lemma to_char_eof1 [simp]: "to_char (-1) = -1"
  by (simp add: to_char_def)

lemma digit_not_255: "char_to_digit c r \<noteq> -1 \<Longrightarrow> c \<noteq> 255"
  by (auto simp: char_to_digit_def)

lemma num_ge: "2 \<le> r \<Longrightarrow> 0 \<le> a \<Longrightarrow> digits r ds \<Longrightarrow> a \<le> num r ds a"
proof (induction ds arbitrary: a)
  case (Cons c ds)
  have c: "0 \<le> char_to_digit c r" using Cons.prems char_to_digit_bounds [of c r] by simp
  have "a \<le> a * r" using Cons.prems by (simp add: mult_le_cancel_left1)
  then have "a \<le> a * r + char_to_digit c r" using c by simp
  then show ?case using Cons.IH [of "a * r + char_to_digit c r"] Cons.prems by simp
qed simp

text \<open>The result of reading the digits \<open>ds\<close> after those that make \<open>a\<close>.\<close>

definition ulong_result :: "int \<Rightarrow> int \<Rightarrow> int list \<Rightarrow> int \<Rightarrow> int \<times> 32 word" where
  "ulong_result r rs ds a = (if num r ds a < 2 ^ 32 then (if ds = [] then rs else 1, word_of_int (num r ds a)) else (-1, ULONG_MAX))"

lemma ulong_result_Cons:
  "ulong_result r rs (c # ds) a = (if num r (c # ds) a < 2 ^ 32 then (1, word_of_int (num r (c # ds) a)) else (-1, ULONG_MAX))"
  by (simp add: ulong_result_def)

lemma ULONG_MAX_of_int: "word_of_int (2 ^ 32 - 1) = ULONG_MAX"
  by (metis uint_ULONG_MAX word_of_int_uint)

lemma ulong_result_over:
  assumes "2 \<le> r" "digits r ds"
  shows "ulong_result r (-1) ds (2 ^ 32 - 1) = (-1, ULONG_MAX)"
proof (cases ds)
  case (Cons c es)
  have c: "0 \<le> char_to_digit c r" using assms Cons char_to_digit_bounds [of c r] by simp
  have "(2 ^ 32 - 1) * 2 \<le> (2 ^ 32 - 1) * r" using assms(1) by simp
  then have "2 ^ 32 \<le> (2 ^ 32 - 1) * r + char_to_digit c r" using c by simp
  also have "\<dots> \<le> num r es ((2 ^ 32 - 1) * r + char_to_digit c r)" using assms c Cons by (intro num_ge) simp_all
  finally show ?thesis using Cons by (simp add: ulong_result_def)
qed (simp only: ulong_result_def num_simps if_True ULONG_MAX_of_int, simp)

text \<open>The text before the digits of a number that is read with radix 0, and the radix that it selects: \<open>0\<close>, \<open>0x\<close>, \<open>0X\<close> or nothing.\<close>

definition prefixed :: "int list \<Rightarrow> int \<Rightarrow> int \<Rightarrow> bool" where
  "prefixed p r c \<longleftrightarrow> (p = [] \<and> r = 10 \<and> c \<noteq> 48) \<or> (p = [48] \<and> r = 8) \<or> (p = [48, 120] \<and> r = 16) \<or> (p = [48, 88] \<and> r = 16)"

text \<open>The text \<open>w\<close> is a number of value \<open>n\<close> when \<open>rest\<close> follows: digits behind a prefix, or a single \<open>0\<close> that is not the start of a prefix.\<close>

definition number_text :: "int list \<Rightarrow> int \<Rightarrow> int list \<Rightarrow> bool" where
  "number_text w n rest \<longleftrightarrow>
     (\<exists>p r c ds. w = p @ c # ds \<and> prefixed p r c \<and> digits r (c # ds) \<and> stops r rest \<and> n = num r (c # ds) 0) \<or>
     (w = [48] \<and> n = 0 \<and> stops 8 rest \<and> (rest = [] \<or> hd rest \<notin> {120, 88}))"

lemma prefixed_radix: "prefixed p r c \<Longrightarrow> 2 \<le> r \<and> r \<le> 16"
  by (auto simp: prefixed_def)

lemma octal_not_x: "char_to_digit c 8 \<noteq> -1 \<Longrightarrow> c \<noteq> 120 \<and> c \<noteq> 88"
  by (auto simp: char_to_digit_def)

text \<open>What the number \<open>V\<close> behind a sign gives as a signed long.\<close>

definition long_result :: "bool \<Rightarrow> int \<Rightarrow> int \<times> int option" where
  "long_result neg V =
     (if neg then (if V \<le> 2 ^ 31 then (1, Some (- V)) else (-1, Some (- (2 ^ 31))))
      else if V < 2 ^ 31 then (1, Some V) else (-1, Some (2 ^ 31 - 1)))"

text \<open>The end of \<open>read_long\<close>, from the sign and the result of \<open>read_ulong\<close>.\<close>

lemma long_result:
  assumes V: "0 \<le> V" and t: "(ch, temp) = (if V < 2 ^ 32 then (1, word_of_int V :: 32 word) else (-1, ULONG_MAX))"
  shows "(if sign < 0 \<and> temp \<noteq> 0 then
            (if uint (temp - 1) > LONG_MAX then (-1, Some LONG_MIN) else (if sign \<noteq> 0 \<and> ch = 0 then -1 else ch, Some (-1 - uint (temp - 1))))
          else if uint temp > LONG_MAX then (-1, Some LONG_MAX)
          else (if sign \<noteq> 0 \<and> ch = 0 then -1 else ch, Some (uint temp))) = long_result (sign < (0::int)) V"
proof (cases "V < 2 ^ 32")
  case True
  then have ch: "ch = 1" and u: "uint temp = V" using t uint_small [OF V True] by simp_all
  have z: "temp = 0 \<longleftrightarrow> V = 0" using u by (auto simp: word_uint_eq_iff [of temp])
  have m: "uint (temp - 1) = V - 1" if "V \<noteq> 0"
    using that V u z by (simp add: uint_minus_simple_alt word_le_def uint_sub_if')
  show ?thesis using V m z by (auto simp: ch u long_result_def LONG_MAX_def LONG_MIN_def)
next
  case False
  then have ch: "ch = -1" and temp: "temp = -1" using t by (simp_all add: ULONG_MAX_def)
  have u: "uint (-1 :: 32 word) = 2 ^ 32 - 1" using uint_ULONG_MAX by (simp add: ULONG_MAX_def)
  have m: "uint (temp - 1) = 2 ^ 32 - 2" using u by (simp add: temp uint_sub_if' word_le_def)
  show ?thesis using False m u by (simp add: ch temp long_result_def LONG_MAX_def LONG_MIN_def)
qed

text \<open>The next character, or the end.\<close>

definition next_char :: "int list \<Rightarrow> int" where
  "next_char rest = (case rest of [] \<Rightarrow> IN_EOF | c # cs \<Rightarrow> c)"

lemma stops_hyphen: "stops r (45 # rest)"
  by (simp add: stops_def char_to_digit_def)

lemma num_nonneg: "2 \<le> r \<Longrightarrow> digits r ds \<Longrightarrow> 0 \<le> num r ds 0"
  using num_ge [of r 0 ds] by simp

lemma digit_not_sign: "char_to_digit c r \<noteq> -1 \<Longrightarrow> c \<noteq> 45 \<and> c \<noteq> 43"
  by (auto simp: char_to_digit_def)

lemma collect_bound: "length v < STUNE_VAL_LEN \<Longrightarrow> length (collect_val_str c v) < STUNE_VAL_LEN"
  by (auto simp: collect_val_str_def)

context source
begin

lemma loop_end:
  assumes "ok s" "view s = []"
  shows "\<exists>s'. ulong_loop rd unrd r t rs v s = Some ((rs, t), (v, s')) \<and> ok s' \<and> view s' = []"
  using rd_end [OF assms] by (subst ulong_loop.simps) auto

lemma loop_stop:
  assumes "ok s" "stops r (view s)"
  shows "\<exists>s'. ulong_loop rd unrd r t rs v s = Some ((rs, t), (v, s')) \<and> ok s' \<and> view s' = view s"
proof (cases "view s")
  case Nil
  then show ?thesis using loop_end [OF assms(1)] by simp
next
  case (Cons c cs)
  obtain s' where s': "rd s = (c, s')" "view (unrd s') = c # cs" "ok (unrd s')" using rd_char [OF assms(1) Cons] by auto
  have "to_char c \<noteq> IN_EOF" "char_to_digit c r = -1"
    using chars [OF assms(1), of c] Cons assms(2) by (auto simp: to_char_eof stops_def)
  then show ?thesis using s' Cons by (subst ulong_loop.simps) (simp add: char_to_digit_char)
qed

text \<open>A digit is multiplied in; when the number becomes too large, it stays at the largest value and the result is that of an error.\<close>

lemma loop_digit:
  assumes s: "ok s" "view s = c # cs" and r: "2 \<le> r" "r \<le> 16" and c: "char_to_digit c r \<noteq> -1"
  shows "\<exists>s' v'. ok s' \<and> view s' = cs \<and> (length v < STUNE_VAL_LEN \<longrightarrow> length v' < STUNE_VAL_LEN) \<and>
    (uint t * r + char_to_digit c r < 2 ^ 32 \<longrightarrow>
       ulong_loop rd unrd r t rs v s = ulong_loop rd unrd r (word_of_int (uint t * r + char_to_digit c r)) 1 v' s') \<and>
    (2 ^ 32 \<le> uint t * r + char_to_digit c r \<longrightarrow> ulong_loop rd unrd r t rs v s = ulong_loop rd unrd r ULONG_MAX (-1) v' s')"
proof -
  obtain s' where s': "rd s = (c, s')" "ok s'" "view s' = cs" using rd_char [OF s] by auto
  define d where "d = char_to_digit c r"
  have d: "0 \<le> d" "d < r" "d \<noteq> -1" using char_to_digit_bounds [OF c] c by (simp_all add: d_def)
  have eof: "to_char c \<noteq> IN_EOF" using chars [OF s(1), of c] s(2) digit_not_255 [OF c] by (simp add: to_char_eof)
  have step: "ulong_loop rd unrd r t rs v s =
      (if t > ULONG_MAX div word_of_int r then ulong_loop rd unrd r ULONG_MAX (-1) v s'
       else if t * word_of_int r + word_of_int d < word_of_int d then ulong_loop rd unrd r ULONG_MAX (-1) (collect_val_str (to_char c) v) s'
       else ulong_loop rd unrd r (t * word_of_int r + word_of_int d) 1 (collect_val_str (to_char c) v) s')"
    using s' eof d(3) by (subst ulong_loop.simps) (simp add: char_to_digit_char Let_def d_def [symmetric])
  show ?thesis
  proof (cases "2 ^ 32 \<le> uint t * r")
    case True
    then have "t > ULONG_MAX div word_of_int r" "2 ^ 32 \<le> uint t * r + d" using ulong_mul_over [OF r, of t] d(1) by simp_all
    then show ?thesis using step s' unfolding d_def [symmetric] by (intro exI [of _ s'] exI [of _ v]) simp
  next
    case False
    then have less: "uint t * r < 2 ^ 32" and m: "\<not> t > ULONG_MAX div word_of_int r" using ulong_mul_over [OF r, of t] by simp_all
    let ?v = "collect_val_str (to_char c) v"
    have v: "length v < STUNE_VAL_LEN \<longrightarrow> length ?v < STUNE_VAL_LEN" using collect_bound by simp
    have w: "t * word_of_int r + word_of_int d = word_of_int (uint t * r + d)" by (metis wi_hom_add wi_hom_mult word_of_int_uint)
    show ?thesis
    proof (cases "2 ^ 32 \<le> uint t * r + d")
      case True
      then have "ulong_loop rd unrd r t rs v s = ulong_loop rd unrd r ULONG_MAX (-1) ?v s'"
        using step m ulong_add_over(1) [OF r d(1,2) less] by (simp only: if_True if_False)
      then show ?thesis using True s' v unfolding d_def [symmetric] by (intro exI [of _ s'] exI [of _ ?v] conjI) simp_all
    next
      case False
      then have "ulong_loop rd unrd r t rs v s = ulong_loop rd unrd r (word_of_int (uint t * r + d)) 1 ?v s'"
        using step m ulong_add_over(1) [OF r d(1,2) less] w by (simp only: if_True if_False)
      then show ?thesis using False s' v unfolding d_def [symmetric] by (intro exI [of _ s'] exI [of _ ?v] conjI) simp_all
    qed
  qed
qed

lemma loop_value:
  assumes "ok s" "view s = ds @ rest" "2 \<le> r" "r \<le> 16" "digits r ds" "stops r rest"
  shows "\<exists>v' s'. ulong_loop rd unrd r t rs v s = Some (ulong_result r rs ds (uint t), (v', s')) \<and> ok s' \<and> view s' = rest \<and>
    (length v < STUNE_VAL_LEN \<longrightarrow> length v' < STUNE_VAL_LEN)"
  using assms
proof (induction ds arbitrary: s t rs v)
  case Nil
  then have s: "ok s" "view s = rest" "stops r (view s)" by simp_all
  have "ulong_result r rs [] (uint t) = (rs, t)" using uint_lt2p [of t] by (simp add: ulong_result_def)
  then show ?case using loop_stop [OF s(1,3), of t rs v] s(2) by auto
next
  case (Cons c ds)
  then have s: "ok s" "view s = c # ds @ rest" and c: "char_to_digit c r \<noteq> -1" and ds: "digits r ds" by simp_all
  have d: "0 \<le> char_to_digit c r" using char_to_digit_bounds [OF c] by simp
  let ?a = "uint t * r + char_to_digit c r"
  obtain s' v' where step: "ok s'" "view s' = ds @ rest" "length v < STUNE_VAL_LEN \<longrightarrow> length v' < STUNE_VAL_LEN"
    "?a < 2 ^ 32 \<longrightarrow> ulong_loop rd unrd r t rs v s = ulong_loop rd unrd r (word_of_int ?a) 1 v' s'"
    "2 ^ 32 \<le> ?a \<longrightarrow> ulong_loop rd unrd r t rs v s = ulong_loop rd unrd r ULONG_MAX (-1) v' s'"
    using loop_digit [OF s assms(3,4) c, of v t rs] by blast
  have a: "0 \<le> ?a" using d assms(3) by simp
  show ?case
  proof (cases "?a < 2 ^ 32")
    case True
    have "uint (word_of_int ?a :: 32 word) = ?a" using a True by (rule uint_small)
    moreover have "ulong_result r rs (c # ds) (uint t) = ulong_result r 1 ds ?a" by (simp add: ulong_result_def)
    ultimately show ?thesis
      using Cons.IH [OF step(1,2) assms(3,4) ds assms(6), of "word_of_int ?a" 1 v'] step(3,4) True by (simp only: simp_thms) blast
  next
    case False
    have "num r ds ?a \<ge> 2 ^ 32" using num_ge [OF assms(3) a ds] False by simp
    then have "ulong_result r rs (c # ds) (uint t) = (-1, ULONG_MAX)" by (simp add: ulong_result_def)
    then show ?thesis
      using Cons.IH [OF step(1,2) assms(3,4) ds assms(6), of ULONG_MAX "-1" v'] step(3,5) False ulong_result_over [OF assms(3) ds]
      by (auto simp: uint_ULONG_MAX)
  qed
qed

text \<open>Whatever the text is, the loop ends: each round takes a character or is the last.\<close>

lemma loop_total:
  assumes "ok s"
  shows "\<exists>x v' s'. ulong_loop rd unrd r t rs v s = Some (x, (v', s')) \<and> ok s' \<and> (length v < STUNE_VAL_LEN \<longrightarrow> length v' < STUNE_VAL_LEN)"
  using assms
proof (induction "length (view s)" arbitrary: s t rs v rule: less_induct)
  case (less s)
  show ?case
  proof (cases "view s")
    case Nil
    then show ?thesis using loop_end [OF less(2), of r t rs v] by blast
  next
    case (Cons c cs)
    obtain s' where s': "rd s = (c, s')" "view s' = cs" "ok s'" "ok (unrd s')" using rd_char [OF less(2) Cons] by auto
    have IH: "\<exists>x v' s''. ulong_loop rd unrd r t rs v s' = Some (x, (v', s'')) \<and> ok s'' \<and> (length v < STUNE_VAL_LEN \<longrightarrow> length v' < STUNE_VAL_LEN)" for t rs v
      using less(1) [of s'] s' Cons by simp
    have IHc: "\<exists>x v' s''. ulong_loop rd unrd r t rs (collect_val_str c v) s' = Some (x, (v', s'')) \<and> ok s'' \<and>
        (length v < STUNE_VAL_LEN \<longrightarrow> length v' < STUNE_VAL_LEN)" for t rs v c
      using IH [of t rs "collect_val_str c v"] collect_bound [of v c] by auto
    show ?thesis using s' IH IHc by (subst ulong_loop.simps) (simp add: Let_def)
  qed
qed

lemma rd_first:
  assumes "ok s" "view s = c # cs"
  obtains s' where "rd s = (c, s')" "ok s'" "view s' = cs" "ok (unrd s')" "view (unrd s') = c # cs" "c \<noteq> IN_EOF" "c \<noteq> -1"
  using rd_char [OF assms] chars [OF assms(1), of c] assms(2) by auto

lemma digit_taken:
  assumes "ok s" "view s = c # rest" "char_to_digit c r \<noteq> -1"
  obtains s' where "rd s = (c, s')" "ok s'" "view s' = rest" "c \<noteq> IN_EOF"
    "choose_digit unrd c r e (v, s') = ((0, word_of_int (char_to_digit c r), r), (collect_val_str c v, s'))"
proof -
  obtain s' where "rd s = (c, s')" "ok s'" "view s' = rest" "c \<noteq> IN_EOF" using rd_first [OF assms(1,2)] by blast
  then show thesis using that [of s'] assms(3) by (simp add: choose_digit_def)
qed

lemma radix_value:
  assumes s: "ok s" "view s = p @ c # rest" and p: "prefixed p r c" and c: "char_to_digit c r \<noteq> -1"
  shows "\<exists>v' s'. choose_radix rd unrd (v, s) = ((0, word_of_int (char_to_digit c r), r), (v', s')) \<and> ok s' \<and> view s' = rest \<and>
    (length v < STUNE_VAL_LEN \<longrightarrow> length v' < STUNE_VAL_LEN)"
proof -
  have bound: "length v < STUNE_VAL_LEN \<longrightarrow> length (collect_val_str a v) < STUNE_VAL_LEN" for a v using collect_bound by simp
  consider "p = []" "r = 10" "c \<noteq> 48" | "p = [48]" "r = 8" | x where "p = [48, x]" "x = 120 \<or> x = 88" "r = 16"
    using p by (auto simp: prefixed_def)
  then show ?thesis
  proof cases
    case 1
    obtain s' where "rd s = (c, s')" "ok s'" "view s' = rest" "c \<noteq> IN_EOF"
      "choose_digit unrd c r 0 (v, s') = ((0, word_of_int (char_to_digit c r), r), (collect_val_str c v, s'))"
      using digit_taken [of s c rest r 0 v] s c 1(1) by auto
    then show ?thesis using 1 bound by (simp add: choose_radix_def)
  next
    case 2
    obtain s1 where s1: "rd s = (48, s1)" "ok s1" "view s1 = c # rest" using rd_first [OF s(1), of 48 "c # rest"] s(2) 2(1) by auto
    obtain s' where "rd s1 = (c, s')" "ok s'" "view s' = rest" "c \<noteq> IN_EOF"
      "choose_digit unrd c r 1 (collect_val_str 48 v, s') = ((0, word_of_int (char_to_digit c r), r), (collect_val_str c (collect_val_str 48 v), s'))"
      using digit_taken [OF s1(2,3) c] by metis
    moreover have "c \<noteq> 120 \<and> c \<noteq> 88" using octal_not_x c 2(2) by simp
    ultimately show ?thesis using 2 s1 bound [of v 48] bound [of "collect_val_str 48 v" c] by (simp add: choose_radix_def)
  next
    case 3
    obtain s1 where s1: "rd s = (48, s1)" "ok s1" "view s1 = x # c # rest" using rd_first [OF s(1), of 48 "x # c # rest"] s(2) 3(1) by auto
    obtain s2 where s2: "rd s1 = (x, s2)" "ok s2" "view s2 = c # rest" "x \<noteq> IN_EOF" using rd_first [OF s1(2,3)] by blast
    let ?v = "collect_val_str x (collect_val_str 48 v)"
    obtain s' where "rd s2 = (c, s')" "ok s'" "view s' = rest" "c \<noteq> IN_EOF"
      "choose_digit unrd c r (-1) (?v, s') = ((0, word_of_int (char_to_digit c r), r), (collect_val_str c ?v, s'))"
      using digit_taken [OF s2(2,3) c] by metis
    then show ?thesis using 3 s1 s2 bound [of v 48] bound [of "collect_val_str 48 v" x] bound [of ?v c] by (simp add: choose_radix_def)
  qed
qed

lemma ulong_number:
  assumes s: "ok s" "view s = p @ c # ds @ rest" and p: "prefixed p r c" and c: "digits r (c # ds)" "stops r rest"
  shows "\<exists>v' s'. read_ulong rd unrd 0 (v, s) = Some (ulong_result r 0 (c # ds) 0, (v', s')) \<and> ok s' \<and> view s' = rest \<and>
    (length v < STUNE_VAL_LEN \<longrightarrow> length v' < STUNE_VAL_LEN)"
proof -
  have d: "char_to_digit c r \<noteq> -1" "digits r ds" using c(1) by simp_all
  obtain v1 s1 where r1: "choose_radix rd unrd (v, s) = ((0, word_of_int (char_to_digit c r), r), (v1, s1))" "ok s1" "view s1 = ds @ rest"
    "length v < STUNE_VAL_LEN \<longrightarrow> length v1 < STUNE_VAL_LEN"
    using radix_value [OF s p d(1)] by blast
  note radix = prefixed_radix [OF p]
  have "uint (word_of_int (char_to_digit c r) :: 32 word) = char_to_digit c r"
    using char_to_digit_bounds [OF d(1)] radix by (intro uint_small) simp_all
  moreover have "ulong_result r 1 ds (char_to_digit c r) = ulong_result r 0 (c # ds) 0" by (simp add: ulong_result_def)
  ultimately show ?thesis
    using loop_value [OF r1(2,3) conjunct1 [OF radix] conjunct2 [OF radix] d(2) c(2), of "word_of_int (char_to_digit c r)" 1 v1] r1(1,4)
    unfolding read_ulong_def by (simp only: simp_thms if_True case_prod_conv refl) auto
qed

text \<open>A single 0.\<close>

lemma ulong_zero:
  assumes "ok s" "view s = 48 # rest" "stops 8 rest" "rest = [] \<or> hd rest \<notin> {120, 88}"
  shows "\<exists>v' s'. read_ulong rd unrd 0 (v, s) = Some ((1, 0), (v', s')) \<and> ok s' \<and> view s' = rest \<and>
    (length v < STUNE_VAL_LEN \<longrightarrow> length v' < STUNE_VAL_LEN)"
proof -
  obtain s1 where s1: "rd s = (48, s1)" "ok s1" "view s1 = rest" using rd_first [OF assms(1,2)] by blast
  let ?v = "collect_val_str 48 v"
  have bound: "length v < STUNE_VAL_LEN \<longrightarrow> length ?v < STUNE_VAL_LEN" using collect_bound by simp
  show ?thesis
  proof (cases rest)
    case Nil
    obtain s2 where "rd s1 = (IN_EOF, s2)" "ok s2" "view s2 = []" using rd_end [OF s1(2)] s1(3) Nil by auto
    then show ?thesis using s1(1) bound Nil by (simp add: read_ulong_def choose_radix_def)
  next
    case (Cons c cs)
    have c: "c \<noteq> 120" "c \<noteq> 88" "char_to_digit c 8 = -1" using assms(3,4) Cons by (simp_all add: stops_def)
    obtain s2 where "rd s1 = (c, s2)" "ok (unrd s2)" "view (unrd s2) = c # cs" "c \<noteq> IN_EOF" using rd_first [OF s1(2)] s1(3) Cons by metis
    then show ?thesis using s1(1) bound Cons c by (simp add: read_ulong_def choose_radix_def choose_digit_def)
  qed
qed

text \<open>With radix 0, what is no number reads as 0, and nothing is taken.\<close>

lemma ulong_none:
  assumes "ok s" "view s = c # cs" "c \<noteq> 48" "c \<noteq> 255" "char_to_digit c 10 = -1"
  shows "\<exists>s'. read_ulong rd unrd 0 (v, s) = Some ((1, 0), (v, s')) \<and> ok s' \<and> view s' = c # cs"
proof -
  obtain s1 where s1: "rd s = (c, s1)" "ok (unrd s1)" "view (unrd s1) = c # cs" "c \<noteq> IN_EOF" using rd_first [OF assms(1,2)] by blast
  have "choose_radix rd unrd (v, s) = ((0, 0, 10), (v, unrd s1))" using s1 assms(3,5) by (simp add: choose_radix_def choose_digit_def)
  moreover have "stops 10 (view (unrd s1))" using s1(3) assms(4,5) by (simp add: stops_def)
  ultimately show ?thesis using loop_stop [OF s1(2), of 10 0 1 v] s1(3) by (auto simp: read_ulong_def)
qed

lemma ulong_end:
  assumes "ok s" "view s = []"
  shows "\<exists>s'. read_ulong rd unrd 0 (v, s) = Some ((1, 0), (v, s')) \<and> ok s' \<and> view s' = []"
  using rd_end [OF assms] by (auto simp: read_ulong_def choose_radix_def)

lemma ulong_total:
  assumes "ok s"
  shows "\<exists>x v' s'. read_ulong rd unrd r (v, s) = Some (x, (v', s')) \<and> ok s' \<and> (length v < STUNE_VAL_LEN \<longrightarrow> length v' < STUNE_VAL_LEN)"
proof -
  have rd_ok: "\<exists>c s'. rd s = (c, s') \<and> ok s' \<and> (c \<noteq> IN_EOF \<longrightarrow> ok (unrd s'))" if "ok s" for s
    using rd_end [OF that] rd_char [OF that] by (cases "view s") auto
  have bound: "length v < STUNE_VAL_LEN \<Longrightarrow> length (collect_val_str a v) < STUNE_VAL_LEN" for a v by (rule collect_bound)
  have dig: "\<exists>x v' s'. choose_digit unrd c r e (v, s) = (x, (v', s')) \<and> ok s' \<and> (length v < STUNE_VAL_LEN \<longrightarrow> length v' < STUNE_VAL_LEN)"
    if "ok s" "ok (unrd s)" for c r e v s using that collect_bound by (auto simp: choose_digit_def)
  obtain c1 s1 where s1: "rd s = (c1, s1)" "ok s1" "c1 \<noteq> IN_EOF \<longrightarrow> ok (unrd s1)" using rd_ok [OF assms] by blast
  obtain c2 s2 where s2: "rd s1 = (c2, s2)" "ok s2" "c2 \<noteq> IN_EOF \<longrightarrow> ok (unrd s2)" using rd_ok [OF s1(2)] by blast
  obtain c3 s3 where s3: "rd s2 = (c3, s3)" "ok s3" "c3 \<noteq> IN_EOF \<longrightarrow> ok (unrd s3)" using rd_ok [OF s2(2)] by blast
  have "\<exists>x v' s'. choose_radix rd unrd (v, s) = (x, (v', s')) \<and> ok s' \<and> (length v < STUNE_VAL_LEN \<longrightarrow> length v' < STUNE_VAL_LEN)"
    using s1 s2 s3 dig [of s1 c1 10 0 v] dig [of s2 c2 8 1 "collect_val_str 48 v"]
      dig [of s3 c3 16 "-1" "collect_val_str c2 (collect_val_str 48 v)"] bound [of v 48] bound [of "collect_val_str 48 v" c2]
    by (auto simp: choose_radix_def Let_def)
  then obtain e t radix v' s' where cr: "choose_radix rd unrd (v, s) = ((e, t, radix), (v', s'))" "ok s'"
    "length v < STUNE_VAL_LEN \<longrightarrow> length v' < STUNE_VAL_LEN" by (metis prod_cases3)
  show ?thesis
  proof (cases "r = 0")
    case True
    then show ?thesis using cr loop_total [OF cr(2), of radix t 1 v'] by (auto simp: read_ulong_def)
  next
    case False
    then show ?thesis using loop_total [OF assms, of r 0 0 v] by (auto simp: read_ulong_def)
  qed
qed

lemma long_after_sign:
  assumes u: "read_ulong rd unrd 0 (v1, s1) = Some (ulong_result r 0 (c # ds) 0, st)" and V: "0 \<le> num r (c # ds) 0"
    and sign: "(let (ch, s) = rd s in ch \<noteq> IN_EOF \<and>
      (if ch = 45 then (-1, collect_val_str ch v, s) else if ch = 43 then (1, collect_val_str ch v, s) else (0, v, unrd s)) = (sign :: int, v1, s1))"
  shows "read_long rd unrd 0 (v, s) = Some (long_result (sign < 0) (num r (c # ds) 0), st)"
proof -
  obtain ch temp where ct: "ulong_result r 0 (c # ds) 0 = (ch, temp)" by (cases "ulong_result r 0 (c # ds) 0")
  then have "(ch, temp) = (if num r (c # ds) 0 < 2 ^ 32 then (1, word_of_int (num r (c # ds) 0)) else (-1, ULONG_MAX))"
    by (simp add: ulong_result_def split: if_splits)
  note res = long_result [OF V this, of sign]
  obtain ch0 s0 where "rd s = (ch0, s0)" by (cases "rd s")
  then show ?thesis using sign u ct unfolding res [symmetric] by (simp add: read_long_def Let_def cong: if_cong)
qed

lemma long_number:
  assumes s: "ok s" "view s = sg @ p @ c # ds @ rest" and sg: "sg = [] \<or> sg = [45] \<or> sg = [43]"
    and p: "prefixed p r c" and c: "digits r (c # ds)" "stops r rest"
  shows "\<exists>v' s'. read_long rd unrd 0 (v, s) = Some (long_result (sg = [45]) (num r (c # ds) 0), (v', s')) \<and> ok s' \<and> view s' = rest"
proof -
  have V: "0 \<le> num r (c # ds) 0" using num_nonneg [OF _ c(1)] prefixed_radix [OF p] by blast
  have "\<exists>s1 v1 sign. ok s1 \<and> view s1 = p @ c # ds @ rest \<and> (sign < 0 \<longleftrightarrow> sg = [45]) \<and> (let (ch, s) = rd s in ch \<noteq> IN_EOF \<and>
      (if ch = 45 then (-1, collect_val_str ch v, s) else if ch = 43 then (1, collect_val_str ch v, s) else (0, v, unrd s)) = (sign :: int, v1, s1))"
  proof (cases "sg = []")
    case True
    obtain x xs where x: "p @ c # ds @ rest = x # xs" "x \<noteq> 45" "x \<noteq> 43"
    proof (cases p)
      case Nil
      then show ?thesis using that digit_not_sign [of c r] c(1) by simp
    next
      case (Cons y ys)
      then show ?thesis using that p by (auto simp: prefixed_def)
    qed
    obtain s' where "rd s = (x, s')" "ok (unrd s')" "view (unrd s') = x # xs" "x \<noteq> IN_EOF" using rd_first [OF s(1), of x xs] s(2) x(1) True by auto
    then show ?thesis using x True by (intro exI [of _ "unrd s'"] exI [of _ v] exI [of _ "0 :: int"]) simp
  next
    case False
    then obtain x where x: "sg = [x]" "x = 45 \<or> x = 43" using sg by auto
    obtain s' where "rd s = (x, s')" "ok s'" "view s' = p @ c # ds @ rest" "x \<noteq> IN_EOF"
      using rd_first [OF s(1), of x "p @ c # ds @ rest"] s(2) x(1) by auto
    then show ?thesis using x
      by (intro exI [of _ s'] exI [of _ "collect_val_str x v"] exI [of _ "if x = 45 then -1 else 1 :: int"]) auto
  qed
  then obtain s1 v1 sign where s1: "ok s1" "view s1 = p @ c # ds @ rest" "sign < 0 \<longleftrightarrow> sg = [45]" and
    sign: "let (ch, s) = rd s in ch \<noteq> IN_EOF \<and>
      (if ch = 45 then (-1, collect_val_str ch v, s) else if ch = 43 then (1, collect_val_str ch v, s) else (0, v, unrd s)) = (sign :: int, v1, s1)" by blast
  obtain v' s' where u: "read_ulong rd unrd 0 (v1, s1) = Some (ulong_result r 0 (c # ds) 0, (v', s'))" "ok s'" "view s' = rest"
    using ulong_number [OF s1(1,2) p c] by blast
  show ?thesis using long_after_sign [OF u(1) V sign] s1(3) u(2,3) by auto
qed

lemma flush_number:
  assumes "ok s" "view s = ws @ c # cs" "\<forall>w \<in> set ws. classify lexp w True = Inr CLASS_FLUSH"
    "classify lexp c True = Inr cls" "cls \<noteq> CLASS_FLUSH"
  shows "\<exists>s'. read_flush rd unrd lexp s = Some (Inr s') \<and> ok s' \<and> view s' = c # cs"
  using assms(1-3)
proof (induction ws arbitrary: s)
  case Nil
  obtain s' where "rd s = (c, s')" "ok (unrd s')" "view (unrd s') = c # cs" "c \<noteq> IN_EOF" using rd_first [of s c cs] Nil by auto
  then show ?case using assms(4,5) by (subst read_flush.simps) simp
next
  case (Cons w ws)
  obtain s' where s': "rd s = (w, s')" "ok s'" "view s' = ws @ c # cs" "w \<noteq> IN_EOF"
    using rd_first [of s w "ws @ c # cs"] Cons.prems by auto
  then have "read_flush rd unrd lexp s = read_flush rd unrd lexp s'" using Cons.prems(3) by (subst read_flush.simps) simp
  then show ?case using Cons.IH [OF s'(2,3)] Cons.prems(3) by simp
qed

lemma flush_total:
  assumes "ok s"
  shows "\<exists>x. read_flush rd unrd lexp s = Some x \<and> (\<forall>s'. x = Inr s' \<longrightarrow> ok s')"
  using assms
proof (induction "length (view s)" arbitrary: s rule: less_induct)
  case (less s)
  show ?case
  proof (cases "view s")
    case Nil
    then show ?thesis using rd_end [OF less(2)] by (subst read_flush.simps) auto
  next
    case (Cons c cs)
    obtain s' where s': "rd s = (c, s')" "view s' = cs" "ok s'" "ok (unrd s')" using rd_char [OF less(2) Cons] by auto
    show ?thesis using s' less(1) [of s'] Cons by (subst read_flush.simps) (auto split: sum.splits)
  qed
qed

lemma hyphen_next:
  assumes "ok s" "view s = cs"
  shows "\<exists>s'. hyphen rd unrd s = (cs \<noteq> [] \<and> hd cs = 45, s') \<and> ok s' \<and> view s' = cs"
proof (cases cs)
  case Nil
  then show ?thesis using rd_end [OF assms(1)] assms(2) by (auto simp: hyphen_def)
next
  case (Cons c ds)
  obtain s' where "rd s = (c, s')" "ok (unrd s')" "view (unrd s') = c # ds" "c \<noteq> IN_EOF" using rd_first [OF assms(1), of c ds] assms(2) Cons by auto
  then show ?thesis using Cons by (simp add: hyphen_def)
qed

lemma rd_next:
  assumes "ok s" "view s = rest"
  shows "\<exists>s'. rd s = (next_char rest, s') \<and> ok s' \<and> view s' = tl rest"
  using rd_end [OF assms(1)] rd_char [OF assms(1)] assms(2) by (cases rest) (auto simp: next_char_def)

lemma uints_number:
  assumes s: "ok s" "view s = ws @ p @ c # ds @ rest" and ws: "\<forall>w \<in> set ws. classify lexp w True = Inr CLASS_FLUSH"
    and x: "classify lexp (hd (p @ [c])) True = Inr cls" "cls \<noteq> CLASS_FLUSH"
    and p: "prefixed p r c" "digits r (c # ds)" "stops r rest"
  shows "\<exists>v' s'. read_uints rd unrd lexp True (v, s) =
      Some (if num r (c # ds) 0 < 2 ^ 32
        then Inr ((next_char rest, word_of_int (num r (c # ds) 0), Some (if rest \<noteq> [] \<and> hd rest = 45 then 0 else word_of_int (num r (c # ds) 0))), (v', s'))
        else Inl FORMAT_ERR) \<and> ok s' \<and> view s' = tl rest"
proof -
  obtain y ys where y: "p @ c # ds @ rest = y # ys" "hd (p @ [c]) = y" by (cases p) auto
  obtain s1 where s1: "read_flush rd unrd lexp s = Some (Inr s1)" "ok s1" "view s1 = p @ c # ds @ rest"
    using flush_number [of s ws y ys lexp cls] s ws x y by auto
  obtain v2 s2 where s2: "read_ulong rd unrd 0 (v, s1) = Some (ulong_result r 0 (c # ds) 0, (v2, s2))" "ok s2" "view s2 = rest"
    using ulong_number [OF s1(2,3) p] by blast
  obtain s3 where s3: "hyphen rd unrd s2 = (rest \<noteq> [] \<and> hd rest = 45, s3)" "ok s3" "view s3 = rest" using hyphen_next [OF s2(2,3)] by blast
  obtain s4 where s4: "rd s3 = (next_char rest, s4)" "ok s4" "view s4 = tl rest" using rd_next [OF s3(2,3)] by blast
  note res = ulong_result_Cons
  show ?thesis
  proof (cases "num r (c # ds) 0 < 2 ^ 32 \<and> rest \<noteq> [] \<and> hd rest = 45")
    case False
    then show ?thesis using s1(1) s2(1) s3(1) s4 unfolding res by (intro exI [of _ v2] exI [of _ s4]) (auto simp: read_uints_def)
  next
    case True
    then obtain cs where rest: "rest = 45 # cs" by (cases rest) auto
    have "char_to_digit 45 10 = -1" by (simp add: char_to_digit_def)
    then obtain s5 where s5: "read_ulong rd unrd 0 (v2, s3) = Some ((1, 0), (v2, s5))" "ok s5" "view s5 = rest"
      using ulong_none [OF s3(2), of 45 cs v2] s3(3) rest by auto
    obtain s6 where "rd s5 = (next_char rest, s6)" "ok s6" "view s6 = tl rest" using rd_next [OF s5(2,3)] by blast
    then show ?thesis using True s1(1) s2(1) s3(1) s5(1) unfolding res by (intro exI [of _ v2] exI [of _ s6]) (simp add: read_uints_def)
  qed
qed

lemma longs_range:
  assumes s: "ok s" "view s = p @ c # ds @ 45 # q @ e # es @ rest"
    and x: "classify lexp (hd (p @ [c])) True = Inr cls" "cls \<noteq> CLASS_FLUSH"
    and p: "prefixed p r c" "digits r (c # ds)" "num r (c # ds) 0 < 2 ^ 31"
    and q: "prefixed q r2 e" "digits r2 (e # es)" "stops r2 rest" "num r2 (e # es) 0 \<le> 2 ^ 31"
  shows "\<exists>v' s'. read_longs rd unrd lexp True (v, s) =
      Some (Inr ((next_char rest, Some (num r (c # ds) 0), Some (- num r2 (e # es) 0)), (v', s'))) \<and> ok s' \<and> view s' = tl rest"
    and "\<exists>v' s'. read_ints rd unrd lexp True (v, s) =
      Some (Inr ((next_char rest, Some (num r (c # ds) 0), Some (- num r2 (e # es) 0)), (v', s'))) \<and> ok s' \<and> view s' = tl rest"
proof -
  obtain y ys where y: "p @ c # ds @ 45 # q @ e # es @ rest = y # ys" "hd (p @ [c]) = y" by (cases p) auto
  obtain s1 where s1: "read_flush rd unrd lexp s = Some (Inr s1)" "ok s1" "view s1 = p @ c # ds @ 45 # q @ e # es @ rest"
    using flush_number [of s "[]" y ys lexp cls] s x y by auto
  have long: "\<exists>v2 s2 s3 v4 s4 s5. read_long rd unrd 0 (v, s1) = Some ((1, Some (num r (c # ds) 0)), (v2, s2)) \<and>
      hyphen rd unrd s2 = (True, s3) \<and> read_long rd unrd 0 (v2, s3) = Some ((1, Some (- num r2 (e # es) 0)), (v4, s4)) \<and>
      rd s4 = (next_char rest, s5) \<and> ok s5 \<and> view s5 = tl rest" for v
  proof -
    obtain v2 s2 where s2: "read_long rd unrd 0 (v, s1) = Some (long_result False (num r (c # ds) 0), (v2, s2))" "ok s2"
      "view s2 = 45 # q @ e # es @ rest"
      using long_number [of s1 "[]" p c ds "45 # q @ e # es @ rest" r v] s1(2,3) p(1,2) stops_hyphen by auto
    obtain s3 where s3: "hyphen rd unrd s2 = (True, s3)" "ok s3" "view s3 = 45 # q @ e # es @ rest" using hyphen_next [OF s2(2,3)] by auto
    obtain v4 s4 where s4: "read_long rd unrd 0 (v2, s3) = Some (long_result True (num r2 (e # es) 0), (v4, s4))" "ok s4" "view s4 = rest"
      using long_number [of s3 "[45]" q e es rest r2 v2] s3(2,3) q(1-3) by auto
    obtain s5 where "rd s4 = (next_char rest, s5)" "ok s5" "view s5 = tl rest" using rd_next [OF s4(2,3)] by blast
    then show ?thesis using s2(1) s3(1) s4(1) p(3) q(4) unfolding long_result_def by auto
  qed
  show "\<exists>v' s'. read_longs rd unrd lexp True (v, s) =
      Some (Inr ((next_char rest, Some (num r (c # ds) 0), Some (- num r2 (e # es) 0)), (v', s'))) \<and> ok s' \<and> view s' = tl rest"
    using long [of "[]"] s1(1) by (auto simp: read_longs_def)
  show "\<exists>v' s'. read_ints rd unrd lexp True (v, s) =
      Some (Inr ((next_char rest, Some (num r (c # ds) 0), Some (- num r2 (e # es) 0)), (v', s'))) \<and> ok s' \<and> view s' = tl rest"
    using long [of v] s1(1) by (auto simp: read_ints_def)
qed

text \<open>Every reader returns.\<close>

lemma long_total:
  assumes "ok s"
  shows "\<exists>x v' s'. read_long rd unrd 0 (v, s) = Some (x, (v', s')) \<and> ok s'"
proof (cases "view s")
  case Nil
  then show ?thesis using rd_end [OF assms] by (auto simp: read_long_def)
next
  case (Cons c cs)
  obtain s' where "rd s = (c, s')" "ok s'" "ok (unrd s')" "c \<noteq> IN_EOF" using rd_first [OF assms Cons] by blast
  then show ?thesis
    using ulong_total [of s' 0 "collect_val_str c v"] ulong_total [of "unrd s'" 0 v] by (auto simp: read_long_def Let_def)
qed

lemma readers_total:
  assumes "ok s"
  shows "(\<exists>x. read_uints rd unrd lexp rflag (v, s) = Some x) \<and> (\<exists>x. read_ints rd unrd lexp rflag (v, s) = Some x) \<and>
    (\<exists>x. read_longs rd unrd lexp rflag (v, s) = Some x)"
proof -
  obtain x where x: "read_flush rd unrd lexp s = Some x" "\<forall>s'. x = Inr s' \<longrightarrow> ok s'" using flush_total [OF assms] by blast
  show ?thesis
  proof (cases x)
    case (Inl e)
    then show ?thesis using x by (simp add: read_uints_def read_ints_def read_longs_def)
  next
    case (Inr s1)
    then have ok1: "ok s1" using x(2) by simp
    have tail: "\<exists>h s3 y v4 s4 z v5 s5. hyphen rd unrd s2 = (h, s3) \<and> read_ulong rd unrd 0 (v2, s3) = Some (y, (v4, s4)) \<and>
        read_long rd unrd 0 (v2, s3) = Some (z, (v5, s5))" if o: "ok s2" for s2 v2
    proof -
      obtain s3 where "hyphen rd unrd s2 = (view s2 \<noteq> [] \<and> hd (view s2) = 45, s3)" "ok s3" using hyphen_next [OF o refl] by blast
      then show ?thesis using ulong_total [of s3 0 v2] long_total [of s3 v2] by blast
    qed
    have u: "\<exists>r t v2 s2. read_ulong rd unrd 0 (v, s1) = Some ((r, t), (v2, s2)) \<and> ok s2"
      using ulong_total [OF ok1, of 0 v] by auto
    have l: "\<exists>r t v2 s2. read_long rd unrd 0 (v, s1) = Some ((r, t), (v2, s2)) \<and> ok s2" for v
      using long_total [OF ok1, of v] by auto
    have "\<exists>x. read_uints rd unrd lexp rflag (v, s) = Some x"
    proof -
      obtain r t v2 s2 where "read_ulong rd unrd 0 (v, s1) = Some ((r, t), (v2, s2))" "ok s2" using u by blast
      then show ?thesis using tail [of s2 v2] x(1) Inr by (auto simp: read_uints_def split: prod.splits)
    qed
    moreover have "\<exists>x. read_ints rd unrd lexp rflag (v, s) = Some x"
    proof -
      obtain r t v2 s2 where "read_long rd unrd 0 (v, s1) = Some ((r, t), (v2, s2))" "ok s2" using l by blast
      then show ?thesis using tail [of s2 v2] x(1) Inr by (auto simp: read_ints_def split: prod.splits)
    qed
    moreover have "\<exists>x. read_longs rd unrd lexp rflag (v, s) = Some x"
    proof -
      obtain r t v2 s2 where "read_long rd unrd 0 ([], s1) = Some ((r, t), (v2, s2))" "ok s2" using l by blast
      then show ?thesis using tail [of s2 v2] x(1) Inr by (auto simp: read_longs_def split: prod.splits)
    qed
    ultimately show ?thesis by blast
  qed
qed

end

section \<open>Numbers in files\<close>

text \<open>C39: a number in a configuration file, in decimal, octal behind \<open>0\<close> or hexadecimal behind \<open>0x\<close>, the plain \<open>0\<close> among them, that ends at the end of the file or
  before a character other than 255 that is no digit, is read to its value and the reader stands behind it, with comments and empty lines of the file out of the way; a
  number that does not fit in 32 bits is reported and comes out as the largest one, however many digits it has; the collected text stays within its buffer. A
  character 255 behind the number would be lost, being taken for the end of the file.\<close>

theorem read_ulong_value:
  assumes "fi_ok s" "fi_view s = w @ rest" "number_text w n rest" "length v < STUNE_VAL_LEN"
  shows "\<exists>v' s'. read_ulong fi_read fi_unread 0 (v, s) = Some (if n < 2 ^ 32 then (1, word_of_int n) else (-1, ULONG_MAX), (v', s')) \<and>
    fi_ok s' \<and> fi_view s' = rest \<and> length v' < STUNE_VAL_LEN"
proof (cases "w = [48] \<and> n = 0 \<and> stops 8 rest \<and> (rest = [] \<or> hd rest \<notin> {120, 88})")
  case True
  then have "fi_view s = 48 # rest" using assms(2) by simp
  then show ?thesis using fi.ulong_zero [OF assms(1), of rest v] True assms(4) by auto
next
  case False
  then obtain p r c ds where "w = p @ c # ds" "prefixed p r c" "digits r (c # ds)" "stops r rest" "n = num r (c # ds) 0"
    using assms(3) unfolding number_text_def by blast
  then show ?thesis using fi.ulong_number [of s p c ds rest r v] assms(1,2,4) unfolding ulong_result_Cons by auto
qed

lemma read_ulong_value_witness:
  "\<exists>v' s'. read_ulong fi_read fi_unread 0 ([], make_filter [35, 32, 97, 10, 48, 120, 49, 70, 35, 33] 35 None 0) = Some ((1, 31), (v', s')) \<and> fi_view s' = []"
proof -
  have "num 16 [49, 70] 0 = 31" "digits 16 [49, 70]" by code_simp+
  then have n: "number_text [48, 120, 49, 70] 31 []" unfolding number_text_def
    by (intro disjI1 exI [of _ "[48, 120]"] exI [of _ 16] exI [of _ 49] exI [of _ "[70]"]) (simp add: prefixed_def stops_def del: num_simps)
  have v: "fi_view (make_filter [35, 32, 97, 10, 48, 120, 49, 70, 35, 33] 35 None 0) = [48, 120, 49, 70] @ []"
    "fi_ok (make_filter [35, 32, 97, 10, 48, 120, 49, 70, 35, 33] 35 None 0)" by code_simp+
  show ?thesis using read_ulong_value [OF v(2,1) n, of "[]"] by (auto simp: STUNE_VAL_LEN_def)
qed

text \<open>a signed number is read to its value with its sign, for every value from -2147483648 to 2147483647; one beyond this range is reported, with the
  nearest end of the range as its value.\<close>

theorem read_long_value:
  assumes "fi_ok s" "fi_view s = sg @ p @ c # ds @ rest" "sg = [] \<or> sg = [45] \<or> sg = [43]" "prefixed p r c" "digits r (c # ds)" "stops r rest"
  shows "\<exists>v' s' V. V = (if sg = [45] then - num r (c # ds) 0 else num r (c # ds) 0) \<and> fi_view s' = rest \<and>
    read_long fi_read fi_unread 0 (v, s) = Some (
      if V < - (2 ^ 31) then (-1, Some (- (2 ^ 31))) else if V > 2 ^ 31 - 1 then (-1, Some (2 ^ 31 - 1)) else (1, Some V), (v', s'))"
proof -
  have V: "0 \<le> num r (c # ds) 0" using num_nonneg [OF _ assms(5)] prefixed_radix [OF assms(4)] by blast
  obtain v' s' where "read_long fi_read fi_unread 0 (v, s) = Some (long_result (sg = [45]) (num r (c # ds) 0), (v', s'))" "fi_view s' = rest"
    using fi.long_number [OF assms, of v] by blast
  then show ?thesis using V by (intro exI [of _ v'] exI [of _ s']) (simp add: long_result_def)
qed

lemma read_long_value_witness:
  "\<exists>v' s'. read_long fi_read fi_unread 0 ([], make_filter [45, 50, 49, 52, 55, 52, 56, 51, 54, 52, 57] 35 None 0) = Some ((-1, Some (-2147483648)), (v', s')) \<and>
    fi_view s' = []"
proof -
  have n: "num 10 [50, 49, 52, 55, 52, 56, 51, 54, 52, 57] 0 = 2147483649" "digits 10 [50, 49, 52, 55, 52, 56, 51, 54, 52, 57]" by code_simp+
  have v: "fi_view (make_filter [45, 50, 49, 52, 55, 52, 56, 51, 54, 52, 57] 35 None 0) = [45] @ [] @ 50 # [49, 52, 55, 52, 56, 51, 54, 52, 57] @ []"
    "fi_ok (make_filter [45, 50, 49, 52, 55, 52, 56, 51, 54, 52, 57] 35 None 0)" by code_simp+
  show ?thesis using read_long_value [OF v(2,1), of 10 "[]"] n by (auto simp: prefixed_def stops_def simp del: num_simps)
qed

text \<open>C40: the functions that read a number or a range return on every file, whatever it holds.\<close>

theorem numbers_return:
  assumes "fi_ok s"
  shows "(\<exists>x. read_uints fi_read fi_unread lexp rflag (v, s) = Some x) \<and> (\<exists>x. read_ints fi_read fi_unread lexp rflag (v, s) = Some x) \<and>
    (\<exists>x. read_longs fi_read fi_unread lexp rflag (v, s) = Some x)"
  using assms by (rule fi.readers_total)

lemma numbers_return_witness:
  "\<exists>x. read_longs fi_read fi_unread WHITESPACE True ([], make_filter [45, 255, 35, 45] 35 None 3) = Some x"
proof -
  have "fi_ok (make_filter [45, 255, 35, 45] 35 None 3)" by code_simp
  then show ?thesis using numbers_return [of "make_filter [45, 255, 35, 45] 35 None 3" WHITESPACE True "[]"] by blast
qed

text \<open>with the radix left to the text, \<open>read_ulong\<close> says that it read a number where there is none: a character that is no digit, or the end of the
  file, reads as 0, and nothing is taken. \<open>choose_radix\<close> gives 0 both for a digit and for no number.\<close>

theorem read_ulong_accepts_garbage:
  assumes "fi_ok s" "fi_view s = [] \<or> (\<exists>c cs. fi_view s = c # cs \<and> c \<noteq> 255 \<and> char_to_digit c 10 = -1)"
  shows "\<exists>s'. read_ulong fi_read fi_unread 0 (v, s) = Some ((1, 0), (v, s')) \<and> fi_ok s' \<and> fi_view s' = fi_view s"
  using assms(2)
proof (elim disjE exE conjE)
  assume "fi_view s = []"
  then show ?thesis using fi.ulong_end [OF assms(1), of v] by simp
next
  fix c cs
  assume c: "fi_view s = c # cs" "c \<noteq> 255" "char_to_digit c 10 = -1"
  then have "c \<noteq> 48" by (auto simp: char_to_digit_def)
  then show ?thesis using fi.ulong_none [OF assms(1) c(1) _ c(2,3), of v] c(1) by simp
qed

lemma read_ulong_accepts_garbage_witness:
  "\<exists>s'. read_ulong fi_read fi_unread 0 ([], make_filter [104, 105] 35 None 0) = Some ((1, 0), ([], s')) \<and> fi_view s' = [104, 105]"
proof -
  have v: "fi_view (make_filter [104, 105] 35 None 0) = [104, 105]" "fi_ok (make_filter [104, 105] 35 None 0)" "char_to_digit 104 10 = -1" by code_simp+
  show ?thesis using read_ulong_accepts_garbage [OF v(2), of "[]"] v(1,3) by auto
qed

text \<open>no range of numbers can be read. The hyphen behind the first number of \<open>a-b\<close> is put back before the second is read: \<open>read_uints\<close> stops at it
  with the range from \<open>a\<close> to 0, and \<open>read_longs\<close> takes it for a sign and gives the range from \<open>a\<close> to \<open>-b\<close>. Without a hyphen the number is read as it stands.\<close>

theorem ranges_broken:
  assumes s: "fi_ok s" "fi_view s = p @ c # ds @ rest" and p: "prefixed p r c" "digits r (c # ds)" "num r (c # ds) 0 < 2 ^ 31"
  shows "rest = 45 # q @ e # es @ rest2 \<Longrightarrow> prefixed q r2 e \<Longrightarrow> digits r2 (e # es) \<Longrightarrow> stops r2 rest2 \<Longrightarrow> num r2 (e # es) 0 \<le> 2 ^ 31 \<Longrightarrow>
    (\<exists>v' s'. read_uints fi_read fi_unread WHITESPACE True (v, s) = Some (Inr ((45, word_of_int (num r (c # ds) 0), Some 0), (v', s')))) \<and>
    (\<exists>v' s'. read_longs fi_read fi_unread WHITESPACE True (v, s) =
       Some (Inr ((next_char rest2, Some (num r (c # ds) 0), Some (- num r2 (e # es) 0)), (v', s'))))"
proof -
  assume q: "rest = 45 # q @ e # es @ rest2" "prefixed q r2 e" "digits r2 (e # es)" "stops r2 rest2" "num r2 (e # es) 0 \<le> 2 ^ 31"
  have x: "classify WHITESPACE (hd (p @ [c])) True = Inr CLASS_VALID"
  proof (cases p)
    case Nil
    have "c \<notin> {0, 32, 9, 13}" "c \<noteq> 10" "0 \<le> c" using p(2) fi.chars [OF s(1), of c] s(2) by (auto simp: char_to_digit_def)
    then show ?thesis using Nil by (simp add: classify_whitespace)
  next
    case (Cons y ys)
    then have "hd (p @ [c]) = 48" using p(1) by (auto simp: prefixed_def)
    then show ?thesis by (simp add: classify_whitespace)
  qed
  have "CLASS_VALID \<noteq> CLASS_FLUSH" "num r (c # ds) 0 < 2 ^ 32" "stops r rest" using p(3) q(1) stops_hyphen by simp_all
  then have "\<exists>v' s'. read_uints fi_read fi_unread WHITESPACE True (v, s) = Some (Inr ((45, word_of_int (num r (c # ds) 0), Some 0), (v', s')))"
    using fi.uints_number [of s "[]" p c ds rest WHITESPACE CLASS_VALID r v] s x p(1,2) q(1) by (auto simp: next_char_def simp del: num_simps)
  moreover have "\<exists>v' s'. read_longs fi_read fi_unread WHITESPACE True (v, s) =
       Some (Inr ((next_char rest2, Some (num r (c # ds) 0), Some (- num r2 (e # es) 0)), (v', s')))"
    using fi.longs_range(1) [of s p c ds q e es rest2 WHITESPACE CLASS_VALID r r2 v] s x p q by (auto simp del: num_simps)
  ultimately show ?thesis by blast
qed

lemma ranges_broken_witness:
  "(\<exists>v' s'. read_uints fi_read fi_unread WHITESPACE True ([], make_filter [49, 50, 45, 49, 53] 35 None 0) = Some (Inr ((45, 12, Some 0), (v', s')))) \<and>
   (\<exists>v' s'. read_longs fi_read fi_unread WHITESPACE True ([], make_filter [49, 50, 45, 49, 53] 35 None 0) = Some (Inr ((-1, Some 12, Some (-15)), (v', s'))))"
proof -
  have n: "num 10 [49, 50] 0 = 12" "digits 10 [49, 50]" "num 10 [49, 53] 0 = 15" "digits 10 [49, 53]" by code_simp+
  have v: "fi_view (make_filter [49, 50, 45, 49, 53] 35 None 0) = [] @ 49 # [50] @ [45, 49, 53]" "fi_ok (make_filter [49, 50, 45, 49, 53] 35 None 0)"
    by code_simp+
  show ?thesis using ranges_broken [OF v(2,1), of 10 "[]" 49 "[53]" "[]" 10 "[]"] n
    by (simp add: prefixed_def stops_def next_char_def del: num_simps)
qed

end
